(* ===== verification/Shuck_Prelude.thy ===== *)
theory Shuck_Prelude
  imports Main "HOL-Library.Word" "HOL-Library.Monad_Syntax" "HOL-Library.Multiset"
begin

text \<open>
  Shared vocabulary of the development: the option monad that stands for Rust code that may
  panic, folds over it, checked slice access, the three-way comparison results of
  \<open>std::cmp::Ordering\<close> with the stable sort they drive, and the binary search behind
  \<open>slice::partition_point\<close>.  Every panic of the source (an index out of range, a slice that is
  not on a character boundary, a failed conversion) is the value \<open>None\<close>.
\<close>

named_theorems panic_simps \<open>rewrite rules that resolve a checked operation inside its bounds\<close>

section \<open>Computations that may panic\<close>

text \<open>A loop whose body may panic: the loop of the source, threading its mutable state.\<close>

fun fold_opt :: "('a \<Rightarrow> 's \<Rightarrow> 's option) \<Rightarrow> 'a list \<Rightarrow> 's \<Rightarrow> 's option" where
  "fold_opt f [] s = Some s"
| "fold_opt f (x # xs) s = Option.bind (f x s) (fold_opt f xs)"

lemma bind_fold_opt_Nil [simp]: "Option.bind m (fold_opt f []) = m"
  by (cases m) auto

lemma bind_fold_opt_single [simp]: "Option.bind m (fold_opt f [x]) = Option.bind m (f x)"
  by (cases m) auto

lemma fold_opt_append:
  "fold_opt f (xs @ ys) s = Option.bind (fold_opt f xs s) (fold_opt f ys)"
  by (induction xs arbitrary: s) (auto split: bind_splits)

lemma fold_opt_preserves:
  assumes "fold_opt f xs s = Some s'"
    and "I s"
    and "\<And>x t t'. x \<in> set xs \<Longrightarrow> I t \<Longrightarrow> f x t = Some t' \<Longrightarrow> I t'"
  shows "I s'"
  using assms
proof (induction xs arbitrary: s)
  case Nil
  then show ?case by simp
next
  case (Cons x xs)
  from Cons.prems(1) obtain t where t: "f x s = Some t" "fold_opt f xs t = Some s'"
    by (auto split: bind_splits)
  have "I t" using Cons.prems(2,3) t(1) by auto
  with t(2) show ?case using Cons.IH Cons.prems(3) by auto
qed

lemma fold_opt_total:
  assumes "I s"
    and "\<And>x t. x \<in> set xs \<Longrightarrow> I t \<Longrightarrow> \<exists>t'. f x t = Some t' \<and> I t'"
  shows "\<exists>s'. fold_opt f xs s = Some s' \<and> I s'"
  using assms
proof (induction xs arbitrary: s)
  case Nil
  then show ?case by simp
next
  case (Cons x xs)
  from Cons.prems obtain t where t: "f x s = Some t" "I t" by auto
  from Cons.IH[OF t(2)] Cons.prems(2) obtain s' where "fold_opt f xs t = Some s'" "I s'"
    by auto
  with t show ?case by auto
qed

lemma fold_opt_Some [simp]: "fold_opt (\<lambda>x s. Some (f x s)) xs s = Some (fold f xs s)"
  by (induction xs arbitrary: s) auto

lemma fold_opt_cong:
  assumes "xs = ys" "s = t" "\<And>x u. x \<in> set ys \<Longrightarrow> f x u = g x u"
  shows "fold_opt f xs s = fold_opt g ys t"
proof -
  have "fold_opt f ys u = fold_opt g ys u" for u
    using assms(3)
  proof (induction ys arbitrary: u)
    case (Cons y ys)
    then show ?case by (cases "g y u") auto
  qed simp
  then show ?thesis using assms(1,2) by simp
qed

text \<open>\<open>Iterator::any\<close> and \<open>||\<close> over tests that may panic: both stop at the first success.\<close>

fun any_opt :: "('a \<Rightarrow> bool option) \<Rightarrow> 'a list \<Rightarrow> bool option" where
  "any_opt f [] = Some False"
| "any_opt f (x # xs) = Option.bind (f x) (\<lambda>b. if b then Some True else any_opt f xs)"

definition or_opt :: "bool option \<Rightarrow> bool option \<Rightarrow> bool option" where
  "or_opt a b = Option.bind a (\<lambda>x. if x then Some True else b)"

lemma ex_Not [simp]: "Ex Not"
  by (rule exI[of _ False]) simp

lemma ex_id [simp]: "\<exists>b. b"
  by (rule exI[of _ True]) simp

lemma any_opt_total:
  assumes "\<And>x. x \<in> set xs \<Longrightarrow> \<exists>b. f x = Some b"
  shows "\<exists>b. any_opt f xs = Some b"
  using assms
proof (induction xs)
  case (Cons x xs)
  then obtain b where "f x = Some b" by auto
  with Cons show ?case by (cases b) auto
qed auto

lemma or_opt_total: "\<exists>x. a = Some x \<Longrightarrow> \<exists>y. b = Some y \<Longrightarrow> \<exists>z. or_opt a b = Some z"
  by (auto simp: or_opt_def)

text \<open>\<open>Iterator::min_by_key\<close>: the first of the elements whose key is least.\<close>

definition min_by :: "('a \<Rightarrow> 'a \<Rightarrow> bool) \<Rightarrow> 'a list \<Rightarrow> 'a option" where
  "min_by lt xs =
     (case xs of [] \<Rightarrow> None | x # ys \<Rightarrow> Some (fold (\<lambda>y m. if lt y m then y else m) ys x))"

text \<open>Reading \<open>xs[i]\<close>, and the sub-slice \<open>xs[start..start + len]\<close>.\<close>

definition nth_opt :: "'a list \<Rightarrow> nat \<Rightarrow> 'a option" where
  "nth_opt xs i = (if i < length xs then Some (xs ! i) else None)"

definition slice_opt :: "'a list \<Rightarrow> nat \<Rightarrow> nat \<Rightarrow> 'a list option" where
  "slice_opt xs start len =
     (if start + len \<le> length xs then Some (take len (drop start xs)) else None)"

definition update_opt :: "'a list \<Rightarrow> nat \<Rightarrow> 'a \<Rightarrow> 'a list option" where
  "update_opt xs i v = (if i < length xs then Some (xs[i := v]) else None)"

lemma nth_opt_in [panic_simps]: "i < length xs \<Longrightarrow> nth_opt xs i = Some (xs ! i)"
  by (simp add: nth_opt_def)

lemma nth_opt_Some [simp]: "nth_opt xs i = Some x \<longleftrightarrow> i < length xs \<and> xs ! i = x"
  by (auto simp: nth_opt_def)

lemma nth_opt_None [simp]: "nth_opt xs i = None \<longleftrightarrow> length xs \<le> i"
  by (auto simp: nth_opt_def)

lemma slice_opt_set: "slice_opt xs s n = Some ys \<Longrightarrow> set ys \<subseteq> set xs"
  by (auto simp: slice_opt_def split: if_splits dest: in_set_takeD in_set_dropD)

lemma update_opt_in [panic_simps]: "i < length xs \<Longrightarrow> update_opt xs i v = Some (xs[i := v])"
  by (simp add: update_opt_def)

lemma update_opt_Some [simp]:
  "update_opt xs i v = Some ys \<longleftrightarrow> i < length xs \<and> ys = xs[i := v]"
  by (auto simp: update_opt_def)

lemma update_opt_None [simp]: "update_opt xs i v = None \<longleftrightarrow> length xs \<le> i"
  by (auto simp: update_opt_def)

lemma takeWhile_shorter: "x \<in> set xs \<Longrightarrow> \<not> P x \<Longrightarrow> length (takeWhile P xs) < length xs"
  by (induction xs) auto

text \<open>\<open>usize::checked_sub\<close>.\<close>

definition checked_sub :: "nat \<Rightarrow> nat \<Rightarrow> nat option" where
  "checked_sub a b = (if b \<le> a then Some (a - b) else None)"

text \<open>\<open>usize\<close> subtraction wraps in a release build.\<close>

definition usize_sub :: "nat \<Rightarrow> nat \<Rightarrow> nat" where
  "usize_sub a b = (if b \<le> a then a - b else a + 2 ^ 64 - b)"

lemma map_filter_set: "x \<in> set (List.map_filter f xs) \<longleftrightarrow> (\<exists>y \<in> set xs. f y = Some x)"
  by (induction xs) (auto simp: List.map_filter_simps split: option.splits)

lemma map_filter_mset_eq:
  "mset xs = mset ys \<Longrightarrow> mset (List.map_filter f xs) = mset (List.map_filter f ys)"
  by (simp add: List.map_filter_def mset_map flip: mset_filter)
    (metis mset_filter mset_map)

section \<open>Three-way comparison and the stable sort\<close>

datatype rust_ordering = Less | Equal | Greater

definition rust_cmp :: "'a::linorder \<Rightarrow> 'a \<Rightarrow> rust_ordering" where
  "rust_cmp x y = (if x < y then Less else if x = y then Equal else Greater)"

fun ordering_then :: "rust_ordering \<Rightarrow> rust_ordering \<Rightarrow> rust_ordering" where
  "ordering_then Equal o2 = o2"
| "ordering_then o1 _ = o1"

lemma rust_cmp_simps [simp]:
  "rust_cmp x y = Less \<longleftrightarrow> x < y"
  "rust_cmp x y = Equal \<longleftrightarrow> x = y"
  "rust_cmp x y = Greater \<longleftrightarrow> y < x"
  by (auto simp: rust_cmp_def)

lemma ordering_then_simps [simp]:
  "ordering_then a b = Less \<longleftrightarrow> a = Less \<or> a = Equal \<and> b = Less"
  "ordering_then a b = Equal \<longleftrightarrow> a = Equal \<and> b = Equal"
  "ordering_then a b = Greater \<longleftrightarrow> a = Greater \<or> a = Equal \<and> b = Greater"
  by (cases a; simp)+

text \<open>\<open>slice::sort_by\<close>: stable, so an element is inserted in front of those it equals.\<close>

fun insort_by :: "('a \<Rightarrow> 'a \<Rightarrow> rust_ordering) \<Rightarrow> 'a \<Rightarrow> 'a list \<Rightarrow> 'a list" where
  "insort_by cmp x [] = [x]"
| "insort_by cmp x (y # ys) =
     (if cmp x y = Greater then y # insort_by cmp x ys else x # y # ys)"

definition sort_by :: "('a \<Rightarrow> 'a \<Rightarrow> rust_ordering) \<Rightarrow> 'a list \<Rightarrow> 'a list" where
  "sort_by cmp xs = foldr (insort_by cmp) xs []"

lemma insort_by_set [simp]: "set (insort_by cmp x xs) = insert x (set xs)"
  by (induction xs) auto

lemma insort_by_length [simp]: "length (insort_by cmp x xs) = Suc (length xs)"
  by (induction xs) auto

lemma insort_by_distinct: "x \<notin> set xs \<Longrightarrow> distinct xs \<Longrightarrow> distinct (insort_by cmp x xs)"
  by (induction xs) auto

lemma sort_by_simps [simp]:
  "sort_by cmp [] = []"
  "sort_by cmp (x # xs) = insort_by cmp x (sort_by cmp xs)"
  by (simp_all add: sort_by_def)

lemma sort_by_set [simp]: "set (sort_by cmp xs) = set xs"
  by (induction xs) auto

lemma sort_by_length [simp]: "length (sort_by cmp xs) = length xs"
  by (induction xs) auto

lemma sort_by_distinct: "distinct xs \<Longrightarrow> distinct (sort_by cmp xs)"
  by (induction xs) (auto intro: insort_by_distinct)

lemma insort_by_mset [simp]: "mset (insort_by cmp x xs) = add_mset x (mset xs)"
  by (induction xs) auto

lemma sort_by_mset [simp]: "mset (sort_by cmp xs) = mset xs"
  by (induction xs) auto

text \<open>A symmetric relation that holds pairwise is not disturbed by sorting.\<close>

lemma sorted_wrt_insort_by:
  assumes "symp P"
  shows "sorted_wrt P (insort_by cmp x xs) \<longleftrightarrow> (\<forall>y \<in> set xs. P x y) \<and> sorted_wrt P xs"
  using assms by (induction xs) (auto dest: sympD)

lemma sorted_wrt_sort_by: "symp P \<Longrightarrow> sorted_wrt P (sort_by cmp xs) \<longleftrightarrow> sorted_wrt P xs"
  by (induction xs) (auto simp: sorted_wrt_insort_by)

lemma sorted_wrt_unique:
  assumes "mset xs = mset ys" "sorted_wrt R xs" "sorted_wrt R ys"
    and "\<And>x y. R x y \<Longrightarrow> R y x \<Longrightarrow> x = y"
  shows "xs = ys"
  using assms(1-3)
proof (induction xs arbitrary: ys)
  case Nil
  then show ?case by simp
next
  case (Cons x xs)
  then obtain y zs where ys: "ys = y # zs" by (cases ys) auto
  have "x = y"
  proof (rule ccontr)
    assume "x \<noteq> y"
    with Cons.prems(1) ys have "y \<in> set xs" "x \<in> set zs"
      by (metis insert_noteq_member mset.simps(2) set_mset_mset)+
    with Cons.prems ys assms(4) \<open>x \<noteq> y\<close> show False by auto
  qed
  with Cons ys show ?case by auto
qed

text \<open>The contract a comparison function owes to the sort.\<close>

locale comparator =
  fixes cmp :: "'a \<Rightarrow> 'a \<Rightarrow> rust_ordering"
  assumes cmp_swap: "cmp x y = Greater \<longleftrightarrow> cmp y x = Less"
    and cmp_trans: "cmp x y \<noteq> Greater \<Longrightarrow> cmp y z \<noteq> Greater \<Longrightarrow> cmp x z \<noteq> Greater"
begin

lemma cmp_total: "cmp x y \<noteq> Greater \<or> cmp y x \<noteq> Greater"
  using cmp_swap[of x y] by (cases "cmp y x") auto

lemma insort_by_sorted:
  "sorted_wrt (\<lambda>x y. cmp x y \<noteq> Greater) xs \<Longrightarrow>
   sorted_wrt (\<lambda>x y. cmp x y \<noteq> Greater) (insort_by cmp x xs)"
proof (induction xs)
  case Nil
  then show ?case by simp
next
  case (Cons y ys)
  show ?case
  proof (cases "cmp x y = Greater")
    case True
    then have "cmp y x \<noteq> Greater" using cmp_total by blast
    with True Cons show ?thesis by auto
  next
    case False
    with Cons.prems show ?thesis using cmp_trans by auto
  qed
qed

lemma sort_by_sorted: "sorted_wrt (\<lambda>x y. cmp x y \<noteq> Greater) (sort_by cmp xs)"
  by (induction xs) (auto intro: insort_by_sorted)

end

text \<open>When only equal elements compare \<open>Equal\<close>, the sort forgets the order of its input.\<close>

locale total_comparator = comparator +
  assumes cmp_equal: "cmp x y = Equal \<Longrightarrow> x = y"
begin

lemma sort_by_permuted:
  assumes "mset xs = mset ys"
  shows "sort_by cmp xs = sort_by cmp ys"
proof (rule sorted_wrt_unique)
  show "mset (sort_by cmp xs) = mset (sort_by cmp ys)" using assms by simp
  show "x = y" if "cmp x y \<noteq> Greater" "cmp y x \<noteq> Greater" for x y
    using that cmp_swap[of x y] cmp_swap[of y x] cmp_equal[of x y] by (cases "cmp x y") auto
qed (rule sort_by_sorted)+

end

section \<open>Binary search over a partitioned slice\<close>

text \<open>
  \<open>slice::partition_point\<close> halves the interval while the predicate splits the slice; on a
  slice that the predicate partitions it returns the length of the true prefix.
\<close>

function pp_search :: "('a \<Rightarrow> bool) \<Rightarrow> 'a list \<Rightarrow> nat \<Rightarrow> nat \<Rightarrow> nat" where
  "pp_search p xs lo hi =
     (if lo < hi
      then let mid = lo + (hi - lo) div 2
           in if p (xs ! mid) then pp_search p xs (Suc mid) hi else pp_search p xs lo mid
      else lo)"
  by pat_completeness auto
termination
  by (relation "measure (\<lambda>(p, xs, lo, hi). hi - lo)") auto

declare pp_search.simps [simp del]

definition partition_point :: "('a \<Rightarrow> bool) \<Rightarrow> 'a list \<Rightarrow> nat" where
  "partition_point p xs = pp_search p xs 0 (length xs)"

definition partitioned :: "('a \<Rightarrow> bool) \<Rightarrow> 'a list \<Rightarrow> bool" where
  "partitioned p xs \<longleftrightarrow> (\<forall>i j. i < j \<longrightarrow> j < length xs \<longrightarrow> p (xs ! j) \<longrightarrow> p (xs ! i))"

lemma pp_search_spec:
  assumes "partitioned p xs" "lo \<le> hi" "hi \<le> length xs"
    and "\<And>i. i < lo \<Longrightarrow> p (xs ! i)"
    and "\<And>i. hi \<le> i \<Longrightarrow> i < length xs \<Longrightarrow> \<not> p (xs ! i)"
  shows "pp_search p xs lo hi \<le> length xs
    \<and> (\<forall>i < length xs. p (xs ! i) \<longleftrightarrow> i < pp_search p xs lo hi)"
  using assms
proof (induction p xs lo hi rule: pp_search.induct)
  case (1 p xs lo hi)
  show ?case
  proof (cases "lo < hi")
    case False
    with "1.prems" have "lo = hi" by simp
    moreover have "pp_search p xs lo hi = lo" using False by (subst pp_search.simps) simp
    moreover have "p (xs ! i) \<longleftrightarrow> i < lo" if "i < length xs" for i
      using "1.prems"(4)[of i] "1.prems"(5)[of i] that \<open>lo = hi\<close> by (cases "i < lo") auto
    ultimately show ?thesis using "1.prems"(2,3) by simp
  next
    case True
    define mid where "mid = lo + (hi - lo) div 2"
    have mid: "lo \<le> mid" "mid < hi" "mid < length xs" using True "1.prems" by (auto simp: mid_def)
    show ?thesis
    proof (cases "p (xs ! mid)")
      case True2: True
      have below: "p (xs ! i)" if "i < Suc mid" for i
      proof (cases "i = mid")
        case False
        with that have "i < mid" by simp
        then show ?thesis using "1.prems"(1) True2 mid(3) unfolding partitioned_def by blast
      qed (use True2 in simp)
      from "1.IH"(1)[OF True mid_def True2] "1.prems" mid below
      show ?thesis using True True2 by (subst (1 2) pp_search.simps) (simp add: Let_def mid_def)
    next
      case False2: False
      have above: "\<not> p (xs ! i)" if "mid \<le> i" "i < length xs" for i
        using "1.prems"(1) False2 that unfolding partitioned_def
        by (cases "i = mid") (auto dest: le_neq_implies_less)
      from "1.IH"(2)[OF True mid_def False2] "1.prems" mid above
      show ?thesis using True False2 by (subst (1 2) pp_search.simps) (simp add: Let_def mid_def)
    qed
  qed
qed

lemma partition_point_spec:
  assumes "partitioned p xs"
  shows "partition_point p xs \<le> length xs"
    and "\<And>i. i < length xs \<Longrightarrow> p (xs ! i) \<longleftrightarrow> i < partition_point p xs"
  using pp_search_spec[of p xs 0 "length xs"] assms by (auto simp: partition_point_def)

lemma sorted_wrt_partitioned:
  assumes "sorted_wrt R xs" "\<And>x y. R x y \<Longrightarrow> p y \<Longrightarrow> p x"
  shows "partitioned p xs"
  using assms unfolding partitioned_def by (meson sorted_wrt_nth_less)

lemma partition_point_filter:
  assumes "partitioned p xs"
  shows "partition_point p xs = length (filter p xs)"
proof -
  have "{i. i < length xs \<and> p (xs ! i)} = {..<partition_point p xs}"
    using partition_point_spec[OF assms] by auto
  then show ?thesis by (simp add: length_filter_conv_card)
qed

section \<open>Hash maps that are iterated\<close>

text \<open>\<open>entry(key).or_insert(start)\<close> followed by an update in place, on a hash map kept as its entries.\<close>

fun upsert :: "'k \<Rightarrow> 'v \<Rightarrow> ('v \<Rightarrow> 'v) \<Rightarrow> ('k \<times> 'v) list \<Rightarrow> ('k \<times> 'v) list" where
  "upsert key start f [] = [(key, f start)]"
| "upsert key start f ((k, v) # es) = (if k = key then (k, f v) # es else (k, v) # upsert key start f es)"

lemma upsert_ok:
  "map_of (upsert k d f es) = (map_of es)(k \<mapsto> f (case map_of es k of None \<Rightarrow> d | Some v \<Rightarrow> v))"
  "fst ` set (upsert k d f es) = insert k (fst ` set es)"
  "distinct (map fst es) \<Longrightarrow> distinct (map fst (upsert k d f es))"
proof -
  show set: "fst ` set (upsert k d f es) = insert k (fst ` set es)" for es
    by (induction k d f es rule: upsert.induct) (simp_all add: insert_commute)
  show "map_of (upsert k d f es) = (map_of es)(k \<mapsto> f (case map_of es k of None \<Rightarrow> d | Some v \<Rightarrow> v))"
    by (induction es) (auto simp: fun_eq_iff)
  show "distinct (map fst es) \<Longrightarrow> distinct (map fst (upsert k d f es))"
    using set by (induction es) (auto simp flip: set_map)
qed

lemma map_of_shuffle:
  assumes "mset ys = mset xs" "distinct (map fst xs)"
  shows "distinct (map fst ys)" "map_of ys = map_of xs"
proof -
  show "distinct (map fst ys)" using assms by (metis mset_map mset_eq_imp_distinct_iff)
  then show "map_of ys = map_of xs"
    using assms mset_eq_setD[OF assms(1)] by (intro map_of_inject_set[THEN iffD2]) auto
qed

end
