(* ===== verification/Source_Span.thy ===== *)
theory Source_Span
  imports Shuck_Prelude
begin

text \<open>
  Model of \<open>crates/shucked-ast/src/span.rs\<close>: \<open>Position\<close>, \<open>Span\<close>, \<open>TextSize\<close>, \<open>TextRange\<close> and
  the slicing of source text by byte offsets, together with \<open>SpanKey\<close> of
  \<open>crates/shucked-semantic/src/lib.rs\<close>.

  The \<open>u32\<close> fields are 32-bit words and their arithmetic wraps, as in a release build (a debug
  build panics instead); the accessors read them as naturals, as \<open>as usize\<close> does.  A \<open>char\<close>
  is its code point, a \<open>&str\<close> seen through \<open>chars\<close> is a list of code points, and seen
  through \<open>as_bytes\<close> it is the list of its UTF-8 bytes.
\<close>

type_synonym u32 = "32 word"
type_synonym code_point = nat
type_synonym byte = nat

section \<open>Text as characters and as bytes\<close>

definition len_utf8 :: "code_point \<Rightarrow> nat" where
  "len_utf8 c = (if c < 128 then 1 else if c < 2048 then 2 else if c < 65536 then 3 else 4)"

definition utf8_bytes :: "code_point \<Rightarrow> byte list" where
  "utf8_bytes c =
     (if c < 128 then [c]
      else if c < 2048 then [192 + c div 64, 128 + c mod 64]
      else if c < 65536 then [224 + c div 4096, 128 + c div 64 mod 64, 128 + c mod 64]
      else [240 + c div 262144, 128 + c div 4096 mod 64, 128 + c div 64 mod 64, 128 + c mod 64])"

definition as_bytes :: "code_point list \<Rightarrow> byte list" where
  "as_bytes src = concat (map utf8_bytes src)"

lemma length_utf8_bytes [simp]: "length (utf8_bytes c) = len_utf8 c"
  by (simp add: utf8_bytes_def len_utf8_def)

lemma as_bytes_simps [simp]:
  "as_bytes [] = []"
  "as_bytes (c # cs) = utf8_bytes c @ as_bytes cs"
  by (simp_all add: as_bytes_def)

lemma len_utf8_pos [simp]: "0 < len_utf8 c"
  by (simp add: len_utf8_def)

lemma length_as_bytes_ge: "length src \<le> length (as_bytes src)"
  by (induction src) (auto simp: len_utf8_def)

section \<open>Position\<close>

record position =
  p_line :: u32
  p_column :: u32
  p_offset :: u32

definition position_new :: position where
  "position_new = \<lparr>p_line = 1, p_column = 1, p_offset = 0\<rparr>"

definition position_at :: "nat \<Rightarrow> nat \<Rightarrow> nat \<Rightarrow> position" where
  "position_at line column offset =
     \<lparr>p_line = word_of_nat line, p_column = word_of_nat column, p_offset = word_of_nat offset\<rparr>"

definition line_of :: "position \<Rightarrow> nat" where
  "line_of p = unat (p_line p)"

definition column_of :: "position \<Rightarrow> nat" where
  "column_of p = unat (p_column p)"

definition offset_of :: "position \<Rightarrow> nat" where
  "offset_of p = unat (p_offset p)"

definition advance :: "position \<Rightarrow> code_point \<Rightarrow> position" where
  "advance p c =
     (let p' = p\<lparr>p_offset := p_offset p + word_of_nat (len_utf8 c)\<rparr>
      in if c = 10 then p'\<lparr>p_line := p_line p' + 1, p_column := 1\<rparr>
         else p'\<lparr>p_column := p_column p' + 1\<rparr>)"

abbreviation advance_all :: "position \<Rightarrow> code_point list \<Rightarrow> position" where
  "advance_all p src \<equiv> fold (\<lambda>c q. advance q c) src p"

text \<open>The byte scan of \<open>advanced_by\<close>: \<open>None\<close> is its early return on a non-ASCII byte.\<close>

fun ascii_scan :: "byte list \<Rightarrow> nat \<Rightarrow> nat \<Rightarrow> nat option \<Rightarrow> (nat \<times> nat option) option" where
  "ascii_scan [] i newline_count last_newline = Some (newline_count, last_newline)"
| "ascii_scan (b # bs) i newline_count last_newline =
     (if 128 \<le> b then None
      else if b = 10 then ascii_scan bs (Suc i) (Suc newline_count) (Some i)
      else ascii_scan bs (Suc i) newline_count last_newline)"

definition advanced_by :: "position \<Rightarrow> code_point list \<Rightarrow> position" where
  "advanced_by p src =
     (let bytes = as_bytes src; len = length bytes
      in case ascii_scan bytes 0 0 None of
           None \<Rightarrow> advance_all p src
         | Some (newline_count, last_newline) \<Rightarrow>
             \<lparr>p_line = p_line p + word_of_nat newline_count,
              p_column = (case last_newline of
                            Some idx \<Rightarrow> word_of_nat (len - idx)
                          | None \<Rightarrow> p_column p + word_of_nat len),
              p_offset = p_offset p + word_of_nat len\<rparr>)"

definition saturating_pred :: "u32 \<Rightarrow> u32" where
  "saturating_pred w = (if w = 0 then 0 else w - 1)"

definition rebased :: "position \<Rightarrow> position \<Rightarrow> position" where
  "rebased p base =
     \<lparr>p_line = p_line base + saturating_pred (p_line p),
      p_column = (if p_line p \<le> 1 then p_column base + saturating_pred (p_column p)
                  else p_column p),
      p_offset = p_offset base + p_offset p\<rparr>"

section \<open>Span\<close>

record span =
  s_start :: position
  s_end :: position

definition position_default :: position where
  "position_default = \<lparr>p_line = 0, p_column = 0, p_offset = 0\<rparr>"

definition span_new :: span where
  "span_new = \<lparr>s_start = position_default, s_end = position_default\<rparr>"

definition span_at :: "position \<Rightarrow> span" where
  "span_at pos = \<lparr>s_start = pos, s_end = pos\<rparr>"

definition span_merge :: "span \<Rightarrow> span \<Rightarrow> span" where
  "span_merge a b =
     \<lparr>s_start = (if p_offset (s_start a) \<le> p_offset (s_start b) then s_start a else s_start b),
      s_end = (if p_offset (s_end b) \<le> p_offset (s_end a) then s_end a else s_end b)\<rparr>"

definition span_rebased :: "span \<Rightarrow> position \<Rightarrow> span" where
  "span_rebased s base = \<lparr>s_start = rebased (s_start s) base, s_end = rebased (s_end s) base\<rparr>"

definition span_line :: "span \<Rightarrow> nat" where
  "span_line s = unat (p_line (s_start s))"

definition span_contains_span :: "span \<Rightarrow> span \<Rightarrow> bool" where
  "span_contains_span outer inner \<longleftrightarrow>
     p_offset (s_start outer) \<le> p_offset (s_start inner) \<and> p_offset (s_end inner) \<le> p_offset (s_end outer)"

definition leading_keyword :: "span \<Rightarrow> code_point list \<Rightarrow> span" where
  "leading_keyword s keyword = \<lparr>s_start = s_start s, s_end = advanced_by (s_start s) keyword\<rparr>"

abbreviation start_offset :: "span \<Rightarrow> nat" where
  "start_offset s \<equiv> offset_of (s_start s)"

abbreviation end_offset :: "span \<Rightarrow> nat" where
  "end_offset s \<equiv> offset_of (s_end s)"

type_synonym span_key = "nat \<times> nat"

definition span_key :: "span \<Rightarrow> span_key" where
  "span_key s = (start_offset s, end_offset s)"

section \<open>TextSize and TextRange\<close>

record text_range =
  r_start :: u32
  r_end :: u32

definition range_new :: "u32 \<Rightarrow> u32 \<Rightarrow> text_range" where
  "range_new a b = \<lparr>r_start = a, r_end = b\<rparr>"

definition range_len :: "text_range \<Rightarrow> u32" where
  "range_len r = r_end r - r_start r"

definition range_is_empty :: "text_range \<Rightarrow> bool" where
  "range_is_empty r \<longleftrightarrow> r_start r = r_end r"

definition range_offset_by :: "text_range \<Rightarrow> u32 \<Rightarrow> text_range" where
  "range_offset_by r base = \<lparr>r_start = r_start r + base, r_end = r_end r + base\<rparr>"

definition to_range :: "span \<Rightarrow> text_range" where
  "to_range s = range_new (p_offset (s_start s)) (p_offset (s_end s))"

section \<open>Slicing the source\<close>

definition is_char_boundary :: "byte list \<Rightarrow> nat \<Rightarrow> bool" where
  "is_char_boundary src i \<longleftrightarrow>
     i = 0 \<or> i = length src \<or> (i < length src \<and> \<not> (128 \<le> src ! i \<and> src ! i < 192))"

text \<open>\<open>str::get(start..end)\<close>.\<close>

definition str_get :: "byte list \<Rightarrow> nat \<Rightarrow> nat \<Rightarrow> byte list option" where
  "str_get src a b =
     (if a \<le> b \<and> b \<le> length src \<and> is_char_boundary src a \<and> is_char_boundary src b
      then Some (take (b - a) (drop a src)) else None)"

fun floor_loop :: "byte list \<Rightarrow> nat \<Rightarrow> nat" where
  "floor_loop src 0 = 0"
| "floor_loop src (Suc n) =
     (if \<not> is_char_boundary src (Suc n) then floor_loop src n else Suc n)"

definition floor_char_boundary :: "byte list \<Rightarrow> nat \<Rightarrow> nat" where
  "floor_char_boundary src offset = floor_loop src (min offset (length src))"

function ceil_loop :: "byte list \<Rightarrow> nat \<Rightarrow> nat" where
  "ceil_loop src n =
     (if n < length src \<and> \<not> is_char_boundary src n then ceil_loop src (Suc n) else n)"
  by pat_completeness auto
termination
  by (relation "measure (\<lambda>(src, n). length src - n)") auto

declare ceil_loop.simps [simp del]

definition ceil_char_boundary :: "byte list \<Rightarrow> nat \<Rightarrow> nat" where
  "ceil_char_boundary src offset = ceil_loop src (min offset (length src))"

definition slice_with_clamped_byte_offsets :: "byte list \<Rightarrow> nat \<Rightarrow> nat \<Rightarrow> byte list" where
  "slice_with_clamped_byte_offsets src a b =
     (if b < a \<or> length src < b then []
      else case str_get src (floor_char_boundary src a) (ceil_char_boundary src b) of
             Some s \<Rightarrow> s | None \<Rightarrow> [])"

definition slice_with_byte_offsets :: "byte list \<Rightarrow> nat \<Rightarrow> nat \<Rightarrow> byte list" where
  "slice_with_byte_offsets src a b =
     (case str_get src a b of Some s \<Rightarrow> s | None \<Rightarrow> slice_with_clamped_byte_offsets src a b)"

definition span_slice :: "span \<Rightarrow> byte list \<Rightarrow> byte list" where
  "span_slice s src = slice_with_byte_offsets src (start_offset s) (end_offset s)"

definition range_slice :: "text_range \<Rightarrow> byte list \<Rightarrow> byte list" where
  "range_slice r src = slice_with_byte_offsets src (unat (r_start r)) (unat (r_end r))"

section \<open>Lemmas\<close>

lemma ascii_utf8 [simp]: "c < 128 \<Longrightarrow> utf8_bytes c = [c]" "c < 128 \<Longrightarrow> len_utf8 c = 1"
  by (simp_all add: utf8_bytes_def len_utf8_def)

lemma utf8_first_byte: "128 \<le> c \<Longrightarrow> \<exists>b bs. utf8_bytes c = b # bs \<and> 128 \<le> b"
  by (auto simp: utf8_bytes_def)

lemma ascii_scan_spec:
  "ascii_scan (as_bytes src) i n l =
     (if \<forall>c \<in> set src. c < 128
      then Some (n + count_list src 10,
        if 10 \<in> set src then Some (i + length src - Suc (length (takeWhile (\<lambda>c. c \<noteq> 10) (rev src))))
        else l)
      else None)"
proof (induction src arbitrary: i n l)
  case Nil
  then show ?case by simp
next
  case (Cons c cs)
  show ?case
  proof (cases "c < 128")
    case True
    have *: "length (takeWhile (\<lambda>c. c \<noteq> 10) (rev cs @ [c]))
        = (if 10 \<in> set cs then length (takeWhile (\<lambda>c. c \<noteq> 10) (rev cs))
           else length cs + (if c = 10 then 0 else 1))"
    proof (cases "10 \<in> set cs")
      case True
      then show ?thesis by (simp add: takeWhile_append1[where x = 10])
    next
      case False
      then have "takeWhile (\<lambda>c. c \<noteq> 10) (rev cs) = rev cs" by (auto simp: takeWhile_eq_all_conv)
      with False show ?thesis by (simp add: takeWhile_append)
    qed
    show ?thesis using True Cons.IH * by (cases "c = 10") auto
  next
    case False
    then obtain b bs where "utf8_bytes c = b # bs" "128 \<le> b" using utf8_first_byte[of c] by auto
    then show ?thesis using False by auto
  qed
qed

lemma advance_all_ascii:
  assumes "\<forall>c \<in> set src. c < 128"
  shows "advance_all p src =
    \<lparr>p_line = p_line p + word_of_nat (count_list src 10),
     p_column = (if 10 \<in> set src
                 then word_of_nat (Suc (length (takeWhile (\<lambda>c. c \<noteq> 10) (rev src))))
                 else p_column p + word_of_nat (length src)),
     p_offset = p_offset p + word_of_nat (length src)\<rparr>"
  using assms
proof (induction src rule: rev_induct)
  case Nil
  then show ?case by simp
next
  case (snoc c cs)
  then show ?case by (auto simp: advance_def Let_def)
qed

lemma length_as_bytes_ascii: "\<forall>c \<in> set src. c < 128 \<Longrightarrow> length (as_bytes src) = length src"
  by (induction src) auto

text \<open>Rebasing commutes with advancing, as long as no field of the nested position overflows.\<close>

lemma unat_Suc_room: "unat (w :: u32) + 1 < 2 ^ 32 \<Longrightarrow> unat (w + 1) = unat w + 1"
  by (simp add: unat_word_ariths)

lemma saturating_pred_Suc:
  assumes "unat w + 1 < 2 ^ 32"
  shows "saturating_pred (w + 1) = (w :: u32)"
proof -
  from unat_Suc_room[OF assms] have "w + 1 \<noteq> 0" by (metis Suc_eq_plus1 nat.distinct(1) unat_0)
  then show ?thesis by (simp add: saturating_pred_def)
qed

lemma saturating_pred_plus: "1 \<le> unat w \<Longrightarrow> saturating_pred w + 1 = (w :: u32)"
  by (auto simp: saturating_pred_def)

lemma word_gt_one_Suc:
  "1 \<le> unat w \<Longrightarrow> unat w + 1 < 2 ^ 32 \<Longrightarrow> \<not> (w + 1 \<le> (1 :: u32))"
  by (simp add: word_le_nat_alt unat_Suc_room)

definition grows :: "u32 \<Rightarrow> bool" where
  "grows w \<longleftrightarrow> 1 \<le> unat w \<and> unat w + 1 < 2 ^ 32"

lemma rebased_advance:
  assumes "grows (p_line p)" "grows (p_column p)"
  shows "rebased (advance p c) base = advance (rebased p base) c"
proof (cases "c = 10")
  case True
  then show ?thesis
    using assms saturating_pred_plus[of "p_line p"]
    by (simp add: grows_def rebased_def advance_def Let_def saturating_pred_Suc word_gt_one_Suc
        add.assoc)
next
  case False
  then show ?thesis
    using assms saturating_pred_plus[of "p_column p"]
    by (auto simp: grows_def rebased_def advance_def Let_def saturating_pred_Suc add.assoc)
qed

definition position_room :: "position \<Rightarrow> nat \<Rightarrow> bool" where
  "position_room p n \<longleftrightarrow>
     1 \<le> line_of p \<and> 1 \<le> column_of p \<and> line_of p + n < 2 ^ 32 \<and> column_of p + n < 2 ^ 32"

lemma position_room_advance:
  assumes "position_room p (Suc n)"
  shows "position_room (advance p c) n"
  using assms
  by (auto simp: position_room_def advance_def Let_def line_of_def column_of_def unat_Suc_room)

lemma position_room_Suc:
  assumes "position_room p (Suc n)"
  shows "grows (p_line p)" "grows (p_column p)"
  using assms by (auto simp: position_room_def line_of_def column_of_def grows_def)

lemma rebased_advance_all:
  "position_room p (length src) \<Longrightarrow>
   rebased (advance_all p src) base = advance_all (rebased p base) src"
proof (induction src arbitrary: p)
  case Nil
  then show ?case by simp
next
  case (Cons c cs)
  then have room: "position_room p (Suc (length cs))" by simp
  have "rebased (advance_all (advance p c) cs) base = advance_all (rebased (advance p c) base) cs"
    by (rule Cons.IH) (rule position_room_advance[OF room])
  with rebased_advance[OF position_room_Suc[OF room]] show ?case by simp
qed

text \<open>The byte-scanning fast path computes what advancing character by character computes.\<close>

lemma advanced_by_eq: "advanced_by p src = advance_all p src"
proof (cases "\<forall>c \<in> set src. c < 128")
  case False
  then have "ascii_scan (as_bytes src) 0 0 None = None" by (simp add: ascii_scan_spec)
  then show ?thesis by (simp add: advanced_by_def)
next
  case True
  have "length (takeWhile (\<lambda>c. c \<noteq> 10) (rev src)) < length src" if "10 \<in> set src"
    using that takeWhile_shorter[of 10 "rev src" "\<lambda>c. c \<noteq> 10"] by simp
  then show ?thesis using True
    by (auto simp: advanced_by_def ascii_scan_spec Let_def advance_all_ascii length_as_bytes_ascii
        Suc_diff_Suc)
qed


section \<open>Slicing never tears a character\<close>

lemma floor_loop_spec:
  "n \<le> length src \<Longrightarrow>
   floor_loop src n \<le> n \<and> is_char_boundary src (floor_loop src n) \<and>
   (\<forall>i. floor_loop src n < i \<and> i \<le> n \<longrightarrow> \<not> is_char_boundary src i)"
  by (induction n) (auto simp: is_char_boundary_def le_Suc_eq)

lemma ceil_loop_spec:
  "n \<le> length src \<Longrightarrow>
   n \<le> ceil_loop src n \<and> ceil_loop src n \<le> length src \<and> is_char_boundary src (ceil_loop src n)"
proof (induction src n rule: ceil_loop.induct)
  case (1 src n)
  show ?case
  proof (cases "n < length src \<and> \<not> is_char_boundary src n")
    case True
    with "1.IH" show ?thesis by (subst (1 2 3) ceil_loop.simps) auto
  next
    case False
    with "1.prems" show ?thesis
      by (subst (1 2 3) ceil_loop.simps) (auto simp: is_char_boundary_def)
  qed
qed

lemma floor_char_boundary_spec:
  assumes "a \<le> length src"
  shows "floor_char_boundary src a \<le> a" "is_char_boundary src (floor_char_boundary src a)"
  using floor_loop_spec[of a src] assms by (auto simp: floor_char_boundary_def)

lemma ceil_char_boundary_spec:
  assumes "b \<le> length src"
  shows "b \<le> ceil_char_boundary src b" "ceil_char_boundary src b \<le> length src"
    "is_char_boundary src (ceil_char_boundary src b)"
  using ceil_loop_spec[of b src] assms by (auto simp: ceil_char_boundary_def)

lemma floor_char_boundary_at:
  assumes "a \<le> length src" "is_char_boundary src a"
  shows "floor_char_boundary src a = a"
  using assms by (cases a) (auto simp: floor_char_boundary_def min_def)

lemma ceil_char_boundary_at:
  assumes "is_char_boundary src b" "b \<le> length src"
  shows "ceil_char_boundary src b = b"
  using assms by (simp add: ceil_char_boundary_def ceil_loop.simps[of src b])

lemma slice_in_range:
  assumes "a \<le> b" "b \<le> length src"
  shows "slice_with_byte_offsets src a b =
    take (ceil_char_boundary src b - floor_char_boundary src a) (drop (floor_char_boundary src a) src)"
proof (cases "str_get src a b")
  case (Some s)
  with assms have "is_char_boundary src a" "is_char_boundary src b" "s = take (b - a) (drop a src)"
    by (auto simp: str_get_def split: if_splits)
  with Some assms show ?thesis
    by (simp add: slice_with_byte_offsets_def floor_char_boundary_at ceil_char_boundary_at)
next
  case None
  have "str_get src (floor_char_boundary src a) (ceil_char_boundary src b) =
      Some (take (ceil_char_boundary src b - floor_char_boundary src a)
        (drop (floor_char_boundary src a) src))"
    using assms floor_char_boundary_spec[of a src] ceil_char_boundary_spec[of b src]
    by (auto simp: str_get_def)
  with None assms show ?thesis
    by (simp add: slice_with_byte_offsets_def slice_with_clamped_byte_offsets_def)
qed

lemma slice_out_of_range:
  assumes "b < a \<or> length src < b"
  shows "slice_with_byte_offsets src a b = []"
  using assms
  by (auto simp: slice_with_byte_offsets_def slice_with_clamped_byte_offsets_def str_get_def)

section \<open>Properties\<close>

text \<open>\<open>Position::advanced_by\<close> takes an ASCII fast path over the bytes and otherwise advances
  character by character; on every text the two agree.\<close>

theorem advanced_by_equals_stepwise: "advanced_by p src = advance_all p src"
  by (rule advanced_by_eq)

text \<open>Advancing a nested position through a text and then rebasing it gives the position that
  the rebased start reaches over the same text, provided line and column have room to grow.\<close>

theorem rebased_commutes_with_advanced_by:
  assumes "position_room p (length src)"
  shows "rebased (advanced_by p src) base = advanced_by (rebased p base) src"
  using rebased_advance_all[OF assms] by (simp add: advanced_by_eq)

theorem rebased_commutes_with_advanced_by_witness:
  "position_room position_new (length [104, 105, 10, 233 :: nat]) \<and>
   rebased (advanced_by position_new [104, 105, 10, 233]) (position_at 7 5 90)
     = advanced_by (rebased position_new (position_at 7 5 90)) [104, 105, 10, 233]"
proof -
  have h: "position_room position_new (length [104, 105, 10, 233 :: nat])"
    by (simp add: position_room_def position_new_def line_of_def column_of_def)
  from rebased_commutes_with_advanced_by[OF h] h show ?thesis by blast
qed

text \<open>Slicing by byte offsets inside the source returns the smallest run of whole characters
  that covers the requested bytes, and the empty string for an inverted or overlong range.\<close>

theorem slice_widens_to_char_boundaries:
  "slice_with_byte_offsets src a b =
     (if a \<le> b \<and> b \<le> length src
      then take (ceil_char_boundary src b - floor_char_boundary src a)
             (drop (floor_char_boundary src a) src)
      else [])
   \<and> floor_char_boundary src (min a (length src)) \<le> min a (length src)
   \<and> is_char_boundary src (floor_char_boundary src (min a (length src)))
   \<and> min b (length src) \<le> ceil_char_boundary src (min b (length src))
   \<and> is_char_boundary src (ceil_char_boundary src (min b (length src)))"
  using slice_in_range[of a b src] slice_out_of_range[of b a src]
    floor_char_boundary_spec[of "min a (length src)" src]
    ceil_char_boundary_spec[of "min b (length src)" src]
  by auto

end
