(* ===== verification/Fix_Edits.thy ===== *)
theory Fix_Edits
  imports Source_Span "HOL-Library.List_Lexorder" "HOL-Library.Product_Lexorder"
begin

text \<open>
  Model of \<open>crates/shucked-linter/src/fix.rs\<close>: source edits, fixes, the selection of a
  conflict-free set of fixes, the splice that applies them, and the mapping of unchanged source
  ranges through the applied edits.  Source and replacement texts are byte lists; a slice of the
  source that is not on character boundaries panics, which is \<open>None\<close> here.
\<close>

section \<open>Data\<close>

datatype applicability = Safe | Unsafe

fun applicability_includes :: "applicability \<Rightarrow> applicability \<Rightarrow> bool" where
  "applicability_includes Safe a \<longleftrightarrow> a = Safe"
| "applicability_includes Unsafe a \<longleftrightarrow> True"

datatype fix_availability = NotAvailable | Sometimes | Always

record edit =
  e_range :: text_range
  e_content :: "byte list"

definition ordered_offsets :: "nat \<Rightarrow> nat \<Rightarrow> nat \<times> nat" where
  "ordered_offsets a b = (if a \<le> b then (a, b) else (b, a))"

definition replacement_at :: "nat \<Rightarrow> nat \<Rightarrow> byte list \<Rightarrow> edit" where
  "replacement_at a b content =
     (let (a, b) = ordered_offsets a b
      in \<lparr>e_range = range_new (word_of_nat a) (word_of_nat b), e_content = content\<rparr>)"

definition deletion_at :: "nat \<Rightarrow> nat \<Rightarrow> edit" where
  "deletion_at a b = replacement_at a b []"

definition deletion :: "span \<Rightarrow> edit" where
  "deletion s = deletion_at (start_offset s) (end_offset s)"

definition replacement :: "byte list \<Rightarrow> span \<Rightarrow> edit" where
  "replacement content s = replacement_at (start_offset s) (end_offset s) content"

definition insertion :: "nat \<Rightarrow> byte list \<Rightarrow> edit" where
  "insertion offset content = replacement_at offset offset content"

definition e_start :: "edit \<Rightarrow> nat" where
  "e_start e = unat (r_start (e_range e))"

definition e_end :: "edit \<Rightarrow> nat" where
  "e_end e = unat (r_end (e_range e))"

definition is_insertion :: "edit \<Rightarrow> bool" where
  "is_insertion e = range_is_empty (e_range e)"

record fix_t =
  fx_edits :: "edit list"
  fx_applicability :: applicability

definition fix_new :: "applicability \<Rightarrow> edit list \<Rightarrow> fix_t" where
  "fix_new a es = \<lparr>fx_edits = es, fx_applicability = a\<rparr>"

definition safe_edit :: "edit \<Rightarrow> fix_t" where
  "safe_edit e = fix_new Safe [e]"

definition unsafe_edit :: "edit \<Rightarrow> fix_t" where
  "unsafe_edit e = fix_new Unsafe [e]"

text \<open>Of a \<open>Diagnostic\<close>, this component reads the attached fix only.\<close>

record diagnostic =
  d_fix :: "fix_t option"

record applied_fixes =
  af_code :: "byte list"
  af_fixes_applied :: nat
  af_edits :: "edit list"

section \<open>Comparison and conflicts\<close>

definition compare_edits :: "edit \<Rightarrow> edit \<Rightarrow> rust_ordering" where
  "compare_edits l r =
     ordering_then (ordering_then (rust_cmp (e_start l) (e_start r)) (rust_cmp (e_end l) (e_end r)))
       (rust_cmp (e_content l) (e_content r))"

fun zip_compare :: "(edit \<times> edit) list \<Rightarrow> rust_ordering" where
  "zip_compare [] = Equal"
| "zip_compare ((l, r) # rest) =
     (let ordering = compare_edits l r in if ordering \<noteq> Equal then ordering else zip_compare rest)"

definition compare_candidate_fixes :: "edit list \<Rightarrow> edit list \<Rightarrow> rust_ordering" where
  "compare_candidate_fixes l r =
     (let ordering = zip_compare (zip l r)
      in if ordering \<noteq> Equal then ordering else rust_cmp (length l) (length r))"

definition edits_conflict :: "edit \<Rightarrow> edit \<Rightarrow> bool" where
  "edits_conflict l r =
     (if is_insertion l \<and> is_insertion r then e_start l = e_start r
      else if is_insertion l then e_start r \<le> e_start l \<and> e_start l \<le> e_end r
      else if is_insertion r then e_start l \<le> e_start r \<and> e_start r \<le> e_end l
      else e_start l < e_end r \<and> e_start r < e_end l)"

fun has_internal_conflicts :: "edit list \<Rightarrow> bool" where
  "has_internal_conflicts (a # b # es) \<longleftrightarrow> edits_conflict a b \<or> has_internal_conflicts (b # es)"
| "has_internal_conflicts _ \<longleftrightarrow> False"

section \<open>Applying fixes\<close>

definition prepare_fix :: "fix_t \<Rightarrow> edit list" where
  "prepare_fix f = sort_by compare_edits (fx_edits f)"

definition candidate_of :: "applicability \<Rightarrow> diagnostic \<Rightarrow> edit list option" where
  "candidate_of a d = do {
     f \<leftarrow> d_fix d;
     if applicability_includes a (fx_applicability f) then Some (prepare_fix f) else None }"

definition candidate_fixes :: "applicability \<Rightarrow> diagnostic list \<Rightarrow> edit list list" where
  "candidate_fixes a ds = sort_by compare_candidate_fixes (List.map_filter (candidate_of a) ds)"

definition select_step :: "edit list \<Rightarrow> edit list \<times> nat \<Rightarrow> edit list \<times> nat" where
  "select_step candidate = (\<lambda>(applied_edits, applied_fixes).
     if has_internal_conflicts candidate then (applied_edits, applied_fixes)
     else if list_ex (\<lambda>e. list_ex (edits_conflict e) applied_edits) candidate
     then (applied_edits, applied_fixes)
     else (applied_edits @ candidate, Suc applied_fixes))"

definition select_fixes :: "edit list list \<Rightarrow> edit list \<times> nat" where
  "select_fixes candidates = fold select_step candidates ([], 0)"

definition splice_step :: "byte list \<Rightarrow> edit \<Rightarrow> byte list \<times> nat \<Rightarrow> (byte list \<times> nat) option" where
  "splice_step source e = (\<lambda>(output, cursor). do {
     kept \<leftarrow> str_get source cursor (e_start e);
     Some (output @ kept @ e_content e, e_end e) })"

definition splice_edits :: "byte list \<Rightarrow> edit list \<Rightarrow> byte list option" where
  "splice_edits source es = do {
     (output, cursor) \<leftarrow> fold_opt (splice_step source) es ([], 0);
     rest \<leftarrow> str_get source cursor (length source);
     Some (output @ rest) }"

definition apply_fixes :: "byte list \<Rightarrow> diagnostic list \<Rightarrow> applicability \<Rightarrow> applied_fixes option" where
  "apply_fixes source ds a =
     (let (applied_edits, applied) = select_fixes (candidate_fixes a ds)
      in if applied = 0
         then Some \<lparr>af_code = source, af_fixes_applied = 0, af_edits = []\<rparr>
         else (let sorted_edits = sort_by compare_edits applied_edits
               in do { code \<leftarrow> splice_edits source sorted_edits;
                       Some \<lparr>af_code = code, af_fixes_applied = applied,
                              af_edits = sorted_edits\<rparr> }))"

section \<open>Mapping unchanged ranges\<close>

definition usize_max :: nat where
  "usize_max = 2 ^ 64 - 1"

definition checked_add :: "nat \<Rightarrow> nat \<Rightarrow> nat option" where
  "checked_add a b = (if a + b \<le> usize_max then Some (a + b) else None)"

fun map_range_loop :: "nat \<times> nat \<Rightarrow> edit list \<Rightarrow> nat \<times> nat \<Rightarrow> (nat \<times> nat) option" where
  "map_range_loop rng [] acc = Some acc"
| "map_range_loop rng (e # es) (a, b) =
     (if e_end e \<le> fst rng
      then (let removed = usize_sub (e_end e) (e_start e)
            in do {
              a1 \<leftarrow> checked_sub a removed;
              a2 \<leftarrow> checked_add a1 (length (e_content e));
              b1 \<leftarrow> checked_sub b removed;
              b2 \<leftarrow> checked_add b1 (length (e_content e));
              map_range_loop rng es (a2, b2) })
      else if e_start e < snd rng then None
      else map_range_loop rng es (a, b))"

definition map_range_through_edits :: "nat \<times> nat \<Rightarrow> edit list \<Rightarrow> (nat \<times> nat) option" where
  "map_range_through_edits rng es = map_range_loop rng es rng"

definition map_range :: "applied_fixes \<Rightarrow> nat \<times> nat \<Rightarrow> (nat \<times> nat) option" where
  "map_range af rng = map_range_through_edits rng (af_edits af)"

section \<open>The comparisons are linear orders\<close>

definition edit_key :: "edit \<Rightarrow> nat \<times> nat \<times> byte list" where
  "edit_key e = (e_start e, e_end e, e_content e)"

lemma edit_key_inj: "edit_key l = edit_key r \<Longrightarrow> l = (r :: edit)"
  by (cases l; cases r)
    (auto simp: edit_key_def e_start_def e_end_def intro!: text_range.equality unsigned_word_eqI)

lemma compare_edits_key: "compare_edits l r = rust_cmp (edit_key l) (edit_key r)"
  by (auto simp: compare_edits_def edit_key_def rust_cmp_def less_prod_def)

lemma compare_candidate_fixes_key:
  "compare_candidate_fixes l r = rust_cmp (map edit_key l) (map edit_key r)"
proof (induction l r rule: list_induct2')
  case (4 x xs y ys)
  show ?case
  proof (cases "compare_edits x y = Equal")
    case True
    then have "edit_key x = edit_key y" by (simp add: compare_edits_key)
    moreover have "compare_candidate_fixes (x # xs) (y # ys) = compare_candidate_fixes xs ys"
      using True by (simp add: compare_candidate_fixes_def rust_cmp_def Let_def)
    ultimately show ?thesis using 4 by (simp add: rust_cmp_def)
  next
    case False
    then show ?thesis
      by (auto simp: compare_candidate_fixes_def compare_edits_key rust_cmp_def)
  qed
qed (simp_all add: compare_candidate_fixes_def rust_cmp_def)

interpretation edit_order: total_comparator compare_edits
  by unfold_locales (auto simp: compare_edits_key dest: edit_key_inj)

interpretation candidate_order: total_comparator compare_candidate_fixes
proof
  fix l r :: "edit list"
  assume "compare_candidate_fixes l r = Equal"
  then have "map edit_key l = map edit_key r" by (simp add: compare_candidate_fixes_key)
  then show "l = r" by (rule map_injective) (auto intro: injI edit_key_inj)
qed (auto simp: compare_candidate_fixes_key)

section \<open>Conflicts\<close>

definition wf_edit :: "edit \<Rightarrow> bool" where
  "wf_edit e \<longleftrightarrow> e_start e \<le> e_end e"

lemma replacement_at_wf: "a < 2 ^ 32 \<Longrightarrow> b < 2 ^ 32 \<Longrightarrow> wf_edit (replacement_at a b content)"
  by (auto simp: wf_edit_def replacement_at_def ordered_offsets_def e_start_def e_end_def
      range_new_def take_bit_nat_eq_self unat_of_nat)

lemma is_insertion_iff: "is_insertion e \<longleftrightarrow> e_start e = e_end e"
  by (simp add: is_insertion_def range_is_empty_def e_start_def e_end_def word_unat_eq_iff)

lemma edits_conflict_sym: "symp edits_conflict"
  by (rule sympI) (auto simp: edits_conflict_def split: if_splits)

lemma not_conflict_sym: "symp (\<lambda>l r. \<not> edits_conflict l r)"
  using edits_conflict_sym by (auto simp: symp_def)

text \<open>What it means for two sorted edits not to conflict: the left one ends before the right one
  starts, strictly if one of them is an insertion.\<close>

definition clear_before :: "edit \<Rightarrow> edit \<Rightarrow> bool" where
  "clear_before l r \<longleftrightarrow>
     e_end l \<le> e_start r \<and> (is_insertion l \<or> is_insertion r \<longrightarrow> e_end l < e_start r)"

lemma clear_before_iff:
  assumes "wf_edit l" "wf_edit r" "compare_edits l r \<noteq> Greater"
  shows "\<not> edits_conflict l r \<longleftrightarrow> clear_before l r"
proof -
  have "e_start l \<le> e_start r"
    using assms(3) by (auto simp: compare_edits_def)
  with assms(1,2) show ?thesis
    by (auto simp: edits_conflict_def clear_before_def is_insertion_iff wf_edit_def)
qed

lemma clear_before_trans: "clear_before l m \<Longrightarrow> wf_edit m \<Longrightarrow> clear_before m r \<Longrightarrow> clear_before l r"
  by (auto simp: clear_before_def wf_edit_def)

lemma sorted_clear_iff:
  assumes "\<forall>e \<in> set es. wf_edit e" "sorted_wrt (\<lambda>l r. compare_edits l r \<noteq> Greater) es"
  shows "sorted_wrt clear_before es \<longleftrightarrow> sorted_wrt (\<lambda>l r. \<not> edits_conflict l r) es"
  using assms by (induction es) (auto simp: clear_before_iff)

lemma adjacent_conflicts:
  assumes "\<forall>e \<in> set es. wf_edit e" "sorted_wrt (\<lambda>l r. compare_edits l r \<noteq> Greater) es"
  shows "\<not> has_internal_conflicts es \<longleftrightarrow> sorted_wrt clear_before es"
  using assms
proof (induction es rule: has_internal_conflicts.induct)
  case (1 a b es)
  then have IH: "\<not> has_internal_conflicts (b # es) \<longleftrightarrow> sorted_wrt clear_before (b # es)"
    and ab: "\<not> edits_conflict a b \<longleftrightarrow> clear_before a b"
    by (auto simp: clear_before_iff)
  have "clear_before a b \<Longrightarrow> sorted_wrt clear_before (b # es) \<Longrightarrow> sorted_wrt clear_before (a # b # es)"
    using "1.prems"(1) by (auto intro: clear_before_trans)
  with IH ab show ?case by (auto simp del: sorted_wrt.simps) auto
qed auto

section \<open>Selection\<close>

lemma select_fold:
  assumes "\<forall>c \<in> set cs. (\<forall>e \<in> set c. wf_edit e) \<and> sorted_wrt (\<lambda>l r. compare_edits l r \<noteq> Greater) c"
    and "sorted_wrt (\<lambda>l r. \<not> edits_conflict l r) acc"
  shows "\<exists>chosen. fold select_step cs (acc, n) = (acc @ concat chosen, n + length chosen)
    \<and> set chosen \<subseteq> set cs
    \<and> sorted_wrt (\<lambda>l r. \<not> edits_conflict l r) (acc @ concat chosen)
    \<and> (\<forall>c \<in> set cs. c \<in> set chosen \<or> has_internal_conflicts c
         \<or> (\<exists>e \<in> set c. \<exists>e' \<in> set (acc @ concat chosen). edits_conflict e e'))"
  using assms
proof (induction cs arbitrary: acc n)
  case Nil
  then show ?case by (intro exI[of _ "[]"]) simp
next
  case (Cons c cs)
  show ?case
  proof (cases "has_internal_conflicts c \<or> (\<exists>e \<in> set c. \<exists>e' \<in> set acc. edits_conflict e e')")
    case True
    then have "select_step c (acc, n) = (acc, n)"
      by (auto simp: select_step_def list_ex_iff)
    moreover obtain chosen where
      "fold select_step cs (acc, n) = (acc @ concat chosen, n + length chosen)"
      "set chosen \<subseteq> set cs" "sorted_wrt (\<lambda>l r. \<not> edits_conflict l r) (acc @ concat chosen)"
      "\<forall>c \<in> set cs. c \<in> set chosen \<or> has_internal_conflicts c
         \<or> (\<exists>e \<in> set c. \<exists>e' \<in> set (acc @ concat chosen). edits_conflict e e')"
      using Cons.IH[of acc n] Cons.prems by auto
    ultimately show ?thesis using True by (intro exI[of _ chosen]) auto
  next
    case False
    then have step: "select_step c (acc, n) = (acc @ c, Suc n)"
      by (auto simp: select_step_def list_ex_iff)
    have "sorted_wrt (\<lambda>l r. \<not> edits_conflict l r) c"
      using False Cons.prems adjacent_conflicts[of c] sorted_clear_iff[of c] by auto
    then have "sorted_wrt (\<lambda>l r. \<not> edits_conflict l r) (acc @ c)"
      using False Cons.prems edits_conflict_sym by (auto simp: sorted_wrt_append dest: sympD)
    then obtain chosen where
      "fold select_step cs (acc @ c, Suc n) = ((acc @ c) @ concat chosen, Suc n + length chosen)"
      "set chosen \<subseteq> set cs" "sorted_wrt (\<lambda>l r. \<not> edits_conflict l r) ((acc @ c) @ concat chosen)"
      "\<forall>c' \<in> set cs. c' \<in> set chosen \<or> has_internal_conflicts c'
         \<or> (\<exists>e \<in> set c'. \<exists>e' \<in> set ((acc @ c) @ concat chosen). edits_conflict e e')"
      using Cons.IH[of "acc @ c" "Suc n"] Cons.prems by auto
    then show ?thesis using step by (intro exI[of _ "c # chosen"]) auto
  qed
qed

section \<open>Splicing\<close>

text \<open>What the splice is meant to compute: kept source between the edits, contents in their place.\<close>

fun spliced :: "byte list \<Rightarrow> nat \<Rightarrow> edit list \<Rightarrow> byte list" where
  "spliced source cursor [] = drop cursor source"
| "spliced source cursor (e # es) =
     take (e_start e - cursor) (drop cursor source) @ e_content e @ spliced source (e_end e) es"

definition edit_fits :: "byte list \<Rightarrow> edit \<Rightarrow> bool" where
  "edit_fits source e \<longleftrightarrow> wf_edit e \<and> e_end e \<le> length source
     \<and> is_char_boundary source (e_start e) \<and> is_char_boundary source (e_end e)"

lemma str_get_eq:
  "a \<le> b \<Longrightarrow> b \<le> length source \<Longrightarrow> is_char_boundary source a \<Longrightarrow> is_char_boundary source b \<Longrightarrow>
   str_get source a b = Some (take (b - a) (drop a source))"
  by (simp add: str_get_def)

lemma splice_fold_spliced:
  assumes "\<forall>e \<in> set es. edit_fits source e \<and> cursor \<le> e_start e"
    and "sorted_wrt clear_before es" "cursor \<le> length source" "is_char_boundary source cursor"
  shows "do { (out', cursor') \<leftarrow> fold_opt (splice_step source) es (out, cursor);
              rest \<leftarrow> str_get source cursor' (length source);
              Some (out' @ rest) } = Some (out @ spliced source cursor es)"
  using assms
proof (induction es arbitrary: out cursor)
  case Nil
  then show ?case by (simp add: str_get_eq is_char_boundary_def)
next
  case (Cons e es)
  then have "splice_step source e (out, cursor) =
      Some (out @ take (e_start e - cursor) (drop cursor source) @ e_content e, e_end e)"
    by (simp add: splice_step_def str_get_eq edit_fits_def wf_edit_def)
  moreover have "\<forall>e' \<in> set es. edit_fits source e' \<and> e_end e \<le> e_start e'"
    using Cons.prems by (auto simp: clear_before_def)
  ultimately show ?case
    using Cons.IH[of "e_end e"] Cons.prems by (simp add: edit_fits_def)
qed

lemma splice_edits_spliced:
  assumes "\<forall>e \<in> set es. edit_fits source e" "sorted_wrt clear_before es"
  shows "splice_edits source es = Some (spliced source 0 es)"
  using splice_fold_spliced[of es source 0 "[]"] assms
  by (simp add: splice_edits_def is_char_boundary_def case_prod_beta')

text \<open>Conversely, a splice that does not panic has every edit in range and in order.\<close>

lemma splice_fold_SomeD:
  assumes "do { (out', cursor') \<leftarrow> fold_opt (splice_step source) es (out, cursor);
              rest \<leftarrow> str_get source cursor' (length source);
              Some (out' @ rest) } = Some code"
    and "\<forall>e \<in> set es. wf_edit e"
  shows "code = out @ spliced source cursor es \<and> cursor \<le> length source
    \<and> (\<forall>e \<in> set es. cursor \<le> e_start e \<and> e_end e \<le> length source)"
  using assms
proof (induction es arbitrary: out cursor)
  case Nil
  then show ?case by (auto simp: str_get_def split: bind_splits if_splits)
next
  case (Cons e es)
  from Cons.prems(1) have step: "splice_step source e (out, cursor) =
      Some (out @ take (e_start e - cursor) (drop cursor source) @ e_content e, e_end e)"
    and le: "cursor \<le> e_start e"
    by (auto simp: splice_step_def str_get_def split: bind_splits if_splits)
  with Cons.IH[of "out @ take (e_start e - cursor) (drop cursor source) @ e_content e" "e_end e"]
    Cons.prems show ?case by (fastforce simp: wf_edit_def)
qed

lemma splice_edits_SomeD:
  assumes "splice_edits source es = Some code" "\<forall>e \<in> set es. wf_edit e"
  shows "code = spliced source 0 es" "\<forall>e \<in> set es. e_end e \<le> length source"
  using splice_fold_SomeD[of source es "[]" 0 code] assms
  by (simp_all add: splice_edits_def case_prod_beta')

section \<open>Mapping ranges\<close>

lemma map_range_loop_past:
  assumes "\<forall>e \<in> set es. a < e_end e \<and> b \<le> e_start e"
  shows "map_range_loop (a, b) es acc = Some acc"
  using assms by (induction "(a, b)" es acc rule: map_range_loop.induct) auto

lemma take_drop_window:
  assumes "k + n \<le> m" "p = length out + k" "cursor + k + n \<le> length source"
  shows "take n (drop p (out @ take m (drop cursor source) @ rest)) = take n (drop (cursor + k) source)"
proof -
  have "length (take m (drop cursor source)) \<ge> k + n" using assms by simp
  then have "take n (drop p (out @ take m (drop cursor source) @ rest))
      = take n (drop k (take m (drop cursor source)))"
    using assms(2) by simp
  also have "\<dots> = take n (drop (cursor + k) source)"
    using assms(1) by (simp add: drop_take add.commute)
  finally show ?thesis .
qed

lemma map_range_loop_spliced:
  assumes "map_range_loop (a, b) es (a', b') = Some (a'', b'')"
    and "\<forall>e \<in> set es. wf_edit e \<and> cursor \<le> e_start e" "sorted_wrt clear_before es"
    and "cursor \<le> a" "a \<le> b" "b \<le> length source"
    and "length out + a = a' + cursor" "length out + b = b' + cursor"
  shows "a'' + b = b'' + a \<and>
    take (b - a) (drop a'' (out @ spliced source cursor es)) = take (b - a) (drop a source)"
  using assms
proof (induction es arbitrary: a' b' cursor out)
  case Nil
  then have "a' - length out = a - cursor" "length out \<le> a'" by auto
  with Nil show ?case by auto
next
  case (Cons e es)
  from Cons.prems have e: "wf_edit e" "cursor \<le> e_start e" and
    later: "\<forall>e' \<in> set es. wf_edit e' \<and> e_end e \<le> e_start e'"
    by (auto simp: clear_before_def)
  show ?case
  proof (cases "e_end e \<le> a")
    case True
    let ?k = "e_end e - e_start e" and ?n = "length (e_content e)"
    let ?out = "out @ take (e_start e - cursor) (drop cursor source) @ e_content e"
    have rm: "?k \<le> a'" "?k \<le> b'" and we: "e_start e \<le> e_end e"
      using Cons.prems(4,5,7,8) e True by (auto simp: wf_edit_def)
    have step: "map_range_loop (a, b) es (a' - ?k + ?n, b' - ?k + ?n) = Some (a'', b'')"
      using Cons.prems(1) True rm we
      by (auto simp: checked_sub_def checked_add_def usize_sub_def Let_def
          split: bind_splits if_splits)
    have len: "length ?out = length out + (e_start e - cursor) + ?n"
      using Cons.prems(4,5,6) we True by simp
    have len': "length ?out + a = a' - ?k + ?n + e_end e" "length ?out + b = b' - ?k + ?n + e_end e"
      unfolding len using Cons.prems(4,7,8) e(2) rm we by linarith+
    have clear: "sorted_wrt clear_before es" using Cons.prems(3) by simp
    from Cons.IH[OF step later clear True Cons.prems(5,6) len']
    show ?thesis by simp
  next
    case False
    then have "b \<le> e_start e" and "map_range_loop (a, b) es (a', b') = Some (a'', b'')"
      using Cons.prems(1) by (auto split: if_splits)
    moreover have "\<forall>e' \<in> set es. a < e_end e' \<and> b \<le> e_start e'"
      using later False \<open>b \<le> e_start e\<close> e by (auto simp: wf_edit_def)
    ultimately have "a'' = a'" "b'' = b'" by (auto simp: map_range_loop_past)
    moreover have "take (b - a) (drop a' (out @ take (e_start e - cursor) (drop cursor source)
        @ e_content e @ spliced source (e_end e) es)) = take (b - a) (drop (cursor + (a - cursor)) source)"
      using Cons.prems(4-8) \<open>b \<le> e_start e\<close> by (intro take_drop_window) auto
    moreover have "a' + b = b' + a" using Cons.prems(7,8) by linarith
    ultimately show ?thesis using Cons.prems(4) by simp
  qed
qed

lemma map_range_loop_defined:
  assumes "\<forall>e \<in> set es. wf_edit e \<and> cursor \<le> e_start e \<and> (e_end e \<le> a \<or> b \<le> e_start e)"
    and "sorted_wrt clear_before es" "cursor \<le> a" "a \<le> b"
    and "a - cursor \<le> a'" "b - cursor \<le> b'"
    and "a' + (\<Sum>e\<leftarrow>es. length (e_content e)) \<le> usize_max"
    and "b' + (\<Sum>e\<leftarrow>es. length (e_content e)) \<le> usize_max"
  shows "\<exists>r. map_range_loop (a, b) es (a', b') = Some r"
  using assms
proof (induction es arbitrary: a' b' cursor)
  case Nil
  then show ?case by simp
next
  case (Cons e es)
  from Cons.prems have e: "wf_edit e" "cursor \<le> e_start e" and
    later: "\<forall>e' \<in> set es. wf_edit e' \<and> e_end e \<le> e_start e'"
    by (auto simp: clear_before_def)
  show ?case
  proof (cases "e_end e \<le> a")
    case True
    have "\<exists>r. map_range_loop (a, b) es (a' - (e_end e - e_start e) + length (e_content e),
        b' - (e_end e - e_start e) + length (e_content e)) = Some r"
      using Cons.prems later e True by (intro Cons.IH[of "e_end e"]) (auto simp: wf_edit_def)
    moreover have "e_end e - e_start e \<le> a'" "e_end e - e_start e \<le> b'"
      "a' - (e_end e - e_start e) + length (e_content e) \<le> usize_max"
      "b' - (e_end e - e_start e) + length (e_content e) \<le> usize_max"
      using Cons.prems(4-8) e True by auto
    ultimately show ?thesis using e True
      by (simp add: checked_sub_def checked_add_def usize_sub_def wf_edit_def Let_def
          del: diff_diff_right)
  next
    case False
    have "\<exists>r. map_range_loop (a, b) es (a', b') = Some r"
      using Cons.prems by (intro Cons.IH[of cursor]) auto
    then show ?thesis using False Cons.prems by auto
  qed
qed

section \<open>Properties\<close>

definition fixes_of :: "diagnostic list \<Rightarrow> edit list" where
  "fixes_of ds = concat (map fx_edits (List.map_filter d_fix ds))"

lemma candidate_fixes_set:
  "c \<in> set (candidate_fixes a ds) \<longleftrightarrow>
     (\<exists>d \<in> set ds. \<exists>f. d_fix d = Some f \<and> applicability_includes a (fx_applicability f)
        \<and> c = prepare_fix f)"
proof -
  have "candidate_of a d = Some c \<longleftrightarrow> (\<exists>f. d_fix d = Some f
      \<and> applicability_includes a (fx_applicability f) \<and> c = prepare_fix f)" for d
    by (cases "d_fix d") (auto simp: candidate_of_def)
  then show ?thesis by (simp add: candidate_fixes_def map_filter_set)
qed

lemma prepare_fix_sorted:
  "sorted_wrt (\<lambda>l r. compare_edits l r \<noteq> Greater) (prepare_fix f)" "set (prepare_fix f) = set (fx_edits f)"
  by (simp_all add: prepare_fix_def edit_order.sort_by_sorted)

lemma fixes_of_set:
  "e \<in> set (fixes_of ds) \<longleftrightarrow> (\<exists>d \<in> set ds. \<exists>f. d_fix d = Some f \<and> e \<in> set (fx_edits f))"
  by (induction ds) (auto simp: fixes_of_def List.map_filter_simps split: option.splits)

lemma select_fixes_spec:
  assumes "\<forall>e \<in> set (fixes_of ds). wf_edit e" "select_fixes (candidate_fixes a ds) = (es, n)"
  obtains chosen where "es = concat chosen" "n = length chosen"
    "set chosen \<subseteq> set (candidate_fixes a ds)" "sorted_wrt (\<lambda>l r. \<not> edits_conflict l r) es"
    "\<forall>c \<in> set (candidate_fixes a ds). c \<in> set chosen \<or> has_internal_conflicts c
       \<or> (\<exists>e \<in> set c. \<exists>e' \<in> set es. edits_conflict e e')"
proof -
  have "\<forall>c \<in> set (candidate_fixes a ds).
      (\<forall>e \<in> set c. wf_edit e) \<and> sorted_wrt (\<lambda>l r. compare_edits l r \<noteq> Greater) c"
    using assms(1) by (fastforce simp: candidate_fixes_set fixes_of_set prepare_fix_sorted)
  from select_fold[OF this, of "[]" 0] that assms(2) show thesis
    unfolding select_fixes_def by auto
qed

lemma applied_edits_spec:
  assumes "\<forall>e \<in> set (fixes_of ds). wf_edit e" "select_fixes (candidate_fixes a ds) = (es, n)"
  shows "sorted_wrt clear_before (sort_by compare_edits es)"
    "set es \<subseteq> set (fixes_of ds)" "n = 0 \<longrightarrow> es = []"
proof -
  from select_fixes_spec[OF assms] obtain chosen where ch: "es = concat chosen" "n = length chosen"
    "set chosen \<subseteq> set (candidate_fixes a ds)" "sorted_wrt (\<lambda>l r. \<not> edits_conflict l r) es"
    by metis
  have sub: "set es \<subseteq> set (fixes_of ds)"
    using ch(1,3) by (force simp: candidate_fixes_set fixes_of_set prepare_fix_sorted dest!: subsetD)
  then show "set es \<subseteq> set (fixes_of ds)" .
  show "sorted_wrt clear_before (sort_by compare_edits es)"
    using ch(4) assms(1) sub not_conflict_sym
    by (subst sorted_clear_iff) (auto simp: edit_order.sort_by_sorted sorted_wrt_sort_by)
  show "n = 0 \<longrightarrow> es = []" using ch by simp
qed

lemma apply_fixes_cases:
  assumes "apply_fixes source ds a = Some af" "\<forall>e \<in> set (fixes_of ds). wf_edit e"
  obtains es n where "select_fixes (candidate_fixes a ds) = (es, n)" "af_fixes_applied af = n"
    "af_edits af = sort_by compare_edits es" "af_code af = spliced source 0 (af_edits af)"
    "\<forall>e \<in> set es. e_end e \<le> length source"
proof -
  obtain es n where sel: "select_fixes (candidate_fixes a ds) = (es, n)" by fastforce
  note spec = applied_edits_spec[OF assms(2) sel]
  show thesis
  proof (cases "n = 0")
    case True
    with sel assms(1) have "af = \<lparr>af_code = source, af_fixes_applied = 0, af_edits = []\<rparr>"
      by (simp add: apply_fixes_def)
    with that[OF sel] True spec(3) show thesis by simp
  next
    case False
    then obtain code where code: "splice_edits source (sort_by compare_edits es) = Some code"
      and af: "af = \<lparr>af_code = code, af_fixes_applied = n, af_edits = sort_by compare_edits es\<rparr>"
      using assms(1) sel by (auto simp: apply_fixes_def Let_def split: bind_splits)
    have "\<forall>e \<in> set (sort_by compare_edits es). wf_edit e" using spec assms(2) by auto
    from splice_edits_SomeD[OF code this] af show thesis by (intro that[OF sel]) simp_all
  qed
qed

text \<open>C34: The fixes applied are some of those the threshold includes; no two applied edits conflict,
  each of them is taken as a whole, and every candidate left out conflicts with itself or with an
  applied edit.\<close>

theorem apply_fixes_selects_conflict_free:
  assumes "apply_fixes source ds a = Some af" "\<forall>e \<in> set (fixes_of ds). wf_edit e"
  shows "\<exists>chosen. af_fixes_applied af = length chosen
    \<and> mset (af_edits af) = mset (concat chosen)
    \<and> set chosen \<subseteq> {prepare_fix f | f d. d \<in> set ds \<and> d_fix d = Some f
                      \<and> applicability_includes a (fx_applicability f)}
    \<and> sorted_wrt clear_before (af_edits af)
    \<and> (\<forall>d \<in> set ds. \<forall>f. d_fix d = Some f \<and> applicability_includes a (fx_applicability f) \<longrightarrow>
         prepare_fix f \<in> set chosen \<or> has_internal_conflicts (prepare_fix f)
         \<or> (\<exists>e \<in> set (fx_edits f). \<exists>e' \<in> set (af_edits af). edits_conflict e e'))"
proof -
  from apply_fixes_cases[OF assms] obtain es n where
    sel: "select_fixes (candidate_fixes a ds) = (es, n)" "af_fixes_applied af = n"
      "af_edits af = sort_by compare_edits es" by metis
  from select_fixes_spec[OF assms(2) sel(1)] obtain chosen where ch: "es = concat chosen"
    "n = length chosen" "set chosen \<subseteq> set (candidate_fixes a ds)"
    and rest: "\<forall>c \<in> set (candidate_fixes a ds). c \<in> set chosen \<or> has_internal_conflicts c
       \<or> (\<exists>e \<in> set c. \<exists>e' \<in> set es. edits_conflict e e')"
    by metis
  have "\<forall>d \<in> set ds. \<forall>f. d_fix d = Some f \<and> applicability_includes a (fx_applicability f) \<longrightarrow>
      prepare_fix f \<in> set (candidate_fixes a ds)"
    by (auto simp: candidate_fixes_set)
  with rest sel ch applied_edits_spec[OF assms(2) sel(1)] show ?thesis
    by (intro exI[of _ chosen]) (auto simp: candidate_fixes_set prepare_fix_sorted subset_iff; blast)
qed

theorem apply_fixes_selects_conflict_free_witness:
  "\<exists>chosen. 1 = length chosen \<and> mset [insertion 1 [59]] = mset (concat chosen)"
proof -
  let ?ds = "[\<lparr>d_fix = Some (safe_edit (insertion 1 [59]))\<rparr>]"
  have run: "apply_fixes [97, 10] ?ds Safe =
      Some \<lparr>af_code = [97, 59, 10], af_fixes_applied = 1, af_edits = [insertion 1 [59]]\<rparr>"
    by code_simp
  have "\<forall>e \<in> set (fixes_of ?ds). wf_edit e" by code_simp
  from apply_fixes_selects_conflict_free[OF run this] show ?thesis by auto
qed

text \<open>C35: When every edit lies inside the source on character boundaries, applying fixes does not
  panic: no slice of the source is out of range.\<close>

theorem apply_fixes_never_panics:
  assumes "\<forall>e \<in> set (fixes_of ds). edit_fits source e"
  shows "\<exists>af. apply_fixes source ds a = Some af"
proof -
  obtain es n where sel: "select_fixes (candidate_fixes a ds) = (es, n)" by fastforce
  have "\<forall>e \<in> set (fixes_of ds). wf_edit e" using assms by (auto simp: edit_fits_def)
  note spec = applied_edits_spec[OF this sel]
  have "splice_edits source (sort_by compare_edits es)
      = Some (spliced source 0 (sort_by compare_edits es))"
    using spec assms by (intro splice_edits_spliced) auto
  with sel show ?thesis by (simp add: apply_fixes_def Let_def)
qed

theorem apply_fixes_never_panics_witness:
  "\<exists>af. apply_fixes [97, 195, 169, 10] [\<lparr>d_fix = Some (unsafe_edit (deletion_at 1 3))\<rparr>] Unsafe = Some af"
  by (rule apply_fixes_never_panics) code_simp

text \<open>C33: A source range that \<open>map_range\<close> maps is found again, byte for byte and at the same length,
  at the mapped place of the fixed text.\<close>

theorem map_range_finds_unchanged_text:
  assumes "apply_fixes source ds ap = Some af" "\<forall>e \<in> set (fixes_of ds). wf_edit e"
    and "a \<le> b" "b \<le> length source" "map_range af (a, b) = Some (a', b')"
  shows "b' - a' = b - a \<and> a' \<le> b'
    \<and> take (b' - a') (drop a' (af_code af)) = take (b - a) (drop a source)"
proof -
  from apply_fixes_cases[OF assms(1,2)] obtain es n where
    sel: "select_fixes (candidate_fixes ap ds) = (es, n)" and
    af: "af_edits af = sort_by compare_edits es" "af_code af = spliced source 0 (af_edits af)"
    by metis
  note spec = applied_edits_spec[OF assms(2) sel]
  have "a' + b = b' + a \<and>
      take (b - a) (drop a' ([] @ spliced source 0 (af_edits af))) = take (b - a) (drop a source)"
    using assms(2-5) spec af(1)
    by (intro map_range_loop_spliced) (auto simp: map_range_def map_range_through_edits_def)
  moreover from this have "b' - a' = b - a" "a' \<le> b'" using assms(3) by linarith+
  ultimately show ?thesis using af(2) by simp
qed

theorem map_range_finds_unchanged_text_witness:
  "take 1 (drop 0 [98, 10]) = take 1 (drop 2 [97, 59, 98, 10 :: nat])"
proof -
  let ?ds = "[\<lparr>d_fix = Some (safe_edit (deletion_at 0 2))\<rparr>]"
  let ?af = "\<lparr>af_code = [98, 10], af_fixes_applied = 1, af_edits = [deletion_at 0 2]\<rparr>"
  have run: "apply_fixes [97, 59, 98, 10] ?ds Safe = Some ?af" by code_simp
  have wf: "\<forall>e \<in> set (fixes_of ?ds). wf_edit e" by code_simp
  have map: "map_range ?af (2, 3) = Some (0, 1)"
    by (simp add: map_range_def map_range_through_edits_def deletion_at_def replacement_at_def
        ordered_offsets_def range_new_def e_start_def e_end_def usize_sub_def checked_sub_def
        checked_add_def usize_max_def)
  from map_range_finds_unchanged_text[OF run wf _ _ map] show ?thesis by simp
qed

text \<open>C36: The range of an unchanged text is always mapped: \<open>map_range\<close> returns a range whenever no
  applied edit reaches into it and the fixed text is shorter than the address space.\<close>

theorem map_range_defined_outside_edits:
  assumes "apply_fixes source ds ap = Some af" "\<forall>e \<in> set (fixes_of ds). wf_edit e"
    and "a \<le> b" "\<forall>e \<in> set (af_edits af). e_end e \<le> a \<or> b \<le> e_start e"
    and "b + (\<Sum>e\<leftarrow>af_edits af. length (e_content e)) \<le> usize_max"
  shows "\<exists>r. map_range af (a, b) = Some r"
proof -
  from apply_fixes_cases[OF assms(1,2)] obtain es n where
    sel: "select_fixes (candidate_fixes ap ds) = (es, n)" and af: "af_edits af = sort_by compare_edits es"
    by metis
  note spec = applied_edits_spec[OF assms(2) sel]
  show ?thesis unfolding map_range_def map_range_through_edits_def
    using assms(2-5) spec af by (intro map_range_loop_defined[where cursor = 0]) auto
qed

theorem map_range_defined_outside_edits_witness:
  "\<exists>r. map_range \<lparr>af_code = [98, 10], af_fixes_applied = 1, af_edits = [deletion_at 0 2]\<rparr> (2, 3)
     = Some r"
proof -
  let ?ds = "[\<lparr>d_fix = Some (safe_edit (deletion_at 0 2))\<rparr>]"
  let ?af = "\<lparr>af_code = [98, 10], af_fixes_applied = 1, af_edits = [deletion_at 0 2]\<rparr>"
  have run: "apply_fixes [97, 59, 98, 10] ?ds Safe = Some ?af" by code_simp
  have wf: "\<forall>e \<in> set (fixes_of ?ds). wf_edit e" by code_simp
  have clear: "\<forall>e \<in> set (af_edits ?af). e_end e \<le> 2 \<or> 3 \<le> e_start e" by code_simp
  from map_range_defined_outside_edits[OF run wf _ clear] show ?thesis
    by (simp add: usize_max_def deletion_at_def replacement_at_def ordered_offsets_def)
qed

text \<open>C37: The outcome does not depend on the order in which the diagnostics are reported.\<close>

theorem apply_fixes_order_independent:
  assumes "mset ds = mset ds'"
  shows "apply_fixes source ds a = apply_fixes source ds' a"
proof -
  have "mset (List.map_filter (candidate_of a) ds) = mset (List.map_filter (candidate_of a) ds')"
    using assms by (rule map_filter_mset_eq)
  then have "candidate_fixes a ds = candidate_fixes a ds'"
    unfolding candidate_fixes_def by (rule candidate_order.sort_by_permuted)
  then show ?thesis by (simp add: apply_fixes_def)
qed

theorem apply_fixes_order_independent_witness:
  "apply_fixes [97, 98, 99] [\<lparr>d_fix = Some (safe_edit (replacement_at 0 2 [88]))\<rparr>,
       \<lparr>d_fix = Some (safe_edit (replacement_at 1 3 [89]))\<rparr>] Safe
   = apply_fixes [97, 98, 99] [\<lparr>d_fix = Some (safe_edit (replacement_at 1 3 [89]))\<rparr>,
       \<lparr>d_fix = Some (safe_edit (replacement_at 0 2 [88]))\<rparr>] Safe"
  by (rule apply_fixes_order_independent) simp

end
