(* ===== verification/Line_Index.thy ===== *)
theory Line_Index
  imports Source_Span
begin

text \<open>
  Model of \<open>crates/shucked-indexer/src/line_index.rs\<close>: the index of physical line starts, the raw
  backslash-newline candidates it collects on the way, and the conversions between byte offsets,
  1-based lines and 1-based columns.
\<close>

section \<open>Data\<close>

record raw_continuation_candidate =
  rc_line_start :: u32
  rc_backslash :: u32

datatype raw_continuation_mode = IgnoreRaw | ReturnOnly | StoreAndReturn

datatype line_ending_style = Lf | CrLf

record line_index =
  li_line_starts :: "u32 list"
  li_raw_line_starts :: "u32 list"
  li_raw_backslashes :: "u32 list"
  li_line_ending :: line_ending_style

section \<open>Building the index\<close>

definition backslash_index :: "byte list \<Rightarrow> nat \<Rightarrow> nat option" where
  "backslash_index src i =
     (if 0 < i \<and> src ! (i - 1) = 13 then checked_sub i 2 else checked_sub i 1)"

definition line_build_step ::
  "raw_continuation_mode \<Rightarrow> byte list \<Rightarrow> nat \<Rightarrow> line_index \<times> raw_continuation_candidate list
    \<Rightarrow> line_index \<times> raw_continuation_candidate list" where
  "line_build_step mode src i = (\<lambda>(idx, raw).
     if src ! i = 10 then
       (let next = word_of_nat (i + 1);
            idx = idx\<lparr>li_line_starts := li_line_starts idx @ [next]\<rparr>;
            idx = (if 0 < i \<and> src ! (i - 1) = 13 then idx\<lparr>li_line_ending := CrLf\<rparr> else idx)
        in case backslash_index src i of
             None \<Rightarrow> (idx, raw)
           | Some b \<Rightarrow>
               if src ! b = 92 then
                 (let candidate = \<lparr>rc_line_start = next, rc_backslash = word_of_nat b\<rparr>
                  in case mode of
                       IgnoreRaw \<Rightarrow> (idx, raw)
                     | ReturnOnly \<Rightarrow> (idx, raw @ [candidate])
                     | StoreAndReturn \<Rightarrow>
                         (idx\<lparr>li_raw_line_starts := li_raw_line_starts idx @ [next],
                              li_raw_backslashes := li_raw_backslashes idx @ [word_of_nat b]\<rparr>,
                          raw @ [candidate]))
               else (idx, raw))
     else (idx, raw))"

definition line_index_build ::
  "byte list \<Rightarrow> raw_continuation_mode \<Rightarrow> line_index \<times> raw_continuation_candidate list" where
  "line_index_build src mode =
     fold (line_build_step mode src) [0..<length src]
       (\<lparr>li_line_starts = [0], li_raw_line_starts = [], li_raw_backslashes = [],
         li_line_ending = Lf\<rparr>, [])"

definition line_index_new :: "byte list \<Rightarrow> line_index" where
  "line_index_new src = fst (line_index_build src IgnoreRaw)"

definition with_raw_continuations :: "byte list \<Rightarrow> line_index" where
  "with_raw_continuations src = fst (line_index_build src StoreAndReturn)"

section \<open>Lookups\<close>

definition line_number :: "line_index \<Rightarrow> u32 \<Rightarrow> nat" where
  "line_number idx offset = partition_point (\<lambda>start. start \<le> offset) (li_line_starts idx)"

definition line_start :: "line_index \<Rightarrow> nat \<Rightarrow> u32 option" where
  "line_start idx line = do { i \<leftarrow> checked_sub line 1; nth_opt (li_line_starts idx) i }"

text \<open>The outer \<open>None\<close> is the panic of \<open>source.as_bytes()[..]\<close>.\<close>

definition line_range :: "line_index \<Rightarrow> nat \<Rightarrow> byte list \<Rightarrow> text_range option option" where
  "line_range idx line src =
     (case line_start idx line of
        None \<Rightarrow> Some None
      | Some start \<Rightarrow>
          (case checked_sub line 1 of
             None \<Rightarrow> Some None
           | Some i \<Rightarrow>
               (let next = (case nth_opt (li_line_starts idx) (i + 1) of
                              Some n \<Rightarrow> n | None \<Rightarrow> word_of_nat (length src))
                in if unat start < unat next
                   then do { b \<leftarrow> nth_opt src (unat next - 1);
                             Some (Some (range_new start (if b = 10 then next - 1 else next))) }
                   else Some (Some (range_new start next)))))"

text \<open>The byte offsets at which the characters of a text start.\<close>

definition is_continuation_byte :: "byte \<Rightarrow> bool" where
  "is_continuation_byte b \<longleftrightarrow> 128 \<le> b \<and> b < 192"

definition char_offsets :: "byte list \<Rightarrow> nat list" where
  "char_offsets text = filter (\<lambda>i. \<not> is_continuation_byte (text ! i)) [0..<length text]"

text \<open>The column loop: the offset it returns early with, or the column it reaches.\<close>

fun column_loop :: "nat list \<Rightarrow> nat \<Rightarrow> nat \<Rightarrow> nat + nat" where
  "column_loop [] current column = Inr current"
| "column_loop (r # rs) current column =
     (if current = column then Inl r else column_loop rs (current + 1) column)"

definition offset_for_line_column ::
  "line_index \<Rightarrow> nat \<Rightarrow> nat \<Rightarrow> byte list \<Rightarrow> u32 option option" where
  "offset_for_line_column idx line column src =
     (if line = 0 \<or> column = 0 then Some None
      else do {
        range_opt \<leftarrow> line_range idx line src;
        case range_opt of
          None \<Rightarrow> Some None
        | Some r \<Rightarrow>
            (case str_get src (unat (r_start r)) (unat (r_end r)) of
               None \<Rightarrow> Some None
             | Some line_text \<Rightarrow>
                 (case column_loop (char_offsets line_text) 1 column of
                    Inl relative \<Rightarrow> Some (Some (word_of_nat (unat (r_start r) + relative)))
                  | Inr current \<Rightarrow>
                      Some (if current = column then Some (r_end r) else None))) })"

definition line_count :: "line_index \<Rightarrow> nat" where
  "line_count idx = length (li_line_starts idx)"

section \<open>What the build loop collects\<close>

definition newlines :: "byte list \<Rightarrow> nat list" where
  "newlines src = filter (\<lambda>i. src ! i = 10) [0..<length src]"

definition line_starts_of :: "byte list \<Rightarrow> nat list" where
  "line_starts_of src = 0 # map Suc (newlines src)"

definition raw_continuation_at :: "byte list \<Rightarrow> nat \<Rightarrow> bool" where
  "raw_continuation_at src i \<longleftrightarrow> src ! i = 10 \<and>
     (1 \<le> i \<and> src ! (i - 1) = 92 \<or> 2 \<le> i \<and> src ! (i - 1) = 13 \<and> src ! (i - 2) = 92)"

definition raw_backslash_of :: "byte list \<Rightarrow> nat \<Rightarrow> nat" where
  "raw_backslash_of src i = (if src ! (i - 1) = 13 then i - 2 else i - 1)"

definition raw_continuations_of :: "byte list \<Rightarrow> nat list" where
  "raw_continuations_of src = filter (raw_continuation_at src) [0..<length src]"

lemma line_build_step_newline:
  assumes "src ! i = 10"
  shows "line_build_step mode src i (idx, raw) =
    (idx\<lparr>li_line_starts := li_line_starts idx @ [word_of_nat (i + 1)],
         li_raw_line_starts := li_raw_line_starts idx @
           (if raw_continuation_at src i \<and> mode = StoreAndReturn then [word_of_nat (i + 1)] else []),
         li_raw_backslashes := li_raw_backslashes idx @
           (if raw_continuation_at src i \<and> mode = StoreAndReturn
            then [word_of_nat (raw_backslash_of src i)] else []),
         li_line_ending :=
           (if 0 < i \<and> src ! (i - 1) = 13 then CrLf else li_line_ending idx)\<rparr>,
     raw @ (if raw_continuation_at src i \<and> mode \<noteq> IgnoreRaw
            then [\<lparr>rc_line_start = word_of_nat (i + 1),
                   rc_backslash = word_of_nat (raw_backslash_of src i)\<rparr>] else []))"
proof (cases "backslash_index src i")
  case None
  then have "\<not> raw_continuation_at src i"
    by (auto simp: backslash_index_def checked_sub_def raw_continuation_at_def split: if_splits)
  with None assms show ?thesis by (cases idx) (simp add: line_build_step_def Let_def)
next
  case (Some b)
  then have "b = raw_backslash_of src i" "src ! b = 92 \<longleftrightarrow> raw_continuation_at src i"
    using assms
    by (auto simp: backslash_index_def checked_sub_def raw_backslash_of_def raw_continuation_at_def
        split: if_splits)
  with Some assms show ?thesis by (cases idx; cases mode) (simp_all add: line_build_step_def Let_def)
qed

lemma line_build_step_other: "src ! i \<noteq> 10 \<Longrightarrow> line_build_step mode src i st = st"
  by (cases st) (simp add: line_build_step_def)

lemma line_build_fold:
  "fold (line_build_step mode src) [0..<n]
     (\<lparr>li_line_starts = [0], li_raw_line_starts = [], li_raw_backslashes = [], li_line_ending = Lf\<rparr>, [])
   = (let is = filter (\<lambda>i. src ! i = 10) [0..<n]; rs = filter (raw_continuation_at src) [0..<n];
          kept = (if mode = StoreAndReturn then rs else []);
          returned = (if mode = IgnoreRaw then [] else rs)
      in (\<lparr>li_line_starts = 0 # map (\<lambda>i. word_of_nat (i + 1)) is,
           li_raw_line_starts = map (\<lambda>i. word_of_nat (i + 1)) kept,
           li_raw_backslashes = map (\<lambda>i. word_of_nat (raw_backslash_of src i)) kept,
           li_line_ending = (if \<exists>i \<in> set is. 0 < i \<and> src ! (i - 1) = 13 then CrLf else Lf)\<rparr>,
          map (\<lambda>i. \<lparr>rc_line_start = word_of_nat (i + 1),
                    rc_backslash = word_of_nat (raw_backslash_of src i)\<rparr>) returned))"
proof (induction n)
  case 0
  then show ?case by (simp add: Let_def)
next
  case (Suc n)
  show ?case
  proof (cases "src ! n = 10")
    case True
    with Suc show ?thesis by (cases mode) (simp_all add: line_build_step_newline Let_def, blast+)
  next
    case False
    then have "\<not> raw_continuation_at src n" by (simp add: raw_continuation_at_def)
    with False Suc show ?thesis by (simp add: line_build_step_other Let_def)
  qed
qed

lemma line_starts_build:
  "li_line_starts (fst (line_index_build src mode)) = map word_of_nat (line_starts_of src)"
  by (simp add: line_index_build_def line_build_fold Let_def line_starts_of_def newlines_def)

lemma line_starts_of_sorted: "sorted_wrt (<) (line_starts_of src)"
  by (auto simp: line_starts_of_def newlines_def sorted_wrt_map intro!: sorted_wrt_filter)

lemma line_starts_of_le: "s \<in> set (line_starts_of src) \<Longrightarrow> s \<le> length src"
  by (auto simp: line_starts_of_def newlines_def)

lemma line_starts_of_iff:
  "s \<in> set (line_starts_of src) \<longleftrightarrow> s = 0 \<or> s \<le> length src \<and> 0 < s \<and> src ! (s - 1) = 10"
  by (cases s) (auto simp: line_starts_of_def newlines_def)

section \<open>Lines and offsets\<close>

lemma line_number_count:
  assumes "length src < 2 ^ 32"
  shows "line_number (fst (line_index_build src mode)) offset
    = length (filter (\<lambda>s. s \<le> unat offset) (line_starts_of src))"
proof -
  let ?p = "\<lambda>start :: u32. start \<le> offset"
  have le: "word_of_nat s \<le> offset \<longleftrightarrow> s \<le> unat offset" if "s \<in> set (line_starts_of src)" for s
    using that line_starts_of_le[OF that] assms
    by (simp add: word_le_nat_alt unat_of_nat take_bit_nat_eq_self)
  have "word_of_nat s \<le> (word_of_nat t :: u32)" if "t \<in> set (line_starts_of src)" "s < t" for s t
    using that line_starts_of_le[of t src] assms
    by (simp add: word_le_nat_alt unat_of_nat take_bit_nat_eq_self)
  then have "sorted_wrt (\<le>) (map word_of_nat (line_starts_of src) :: u32 list)"
    unfolding sorted_wrt_map
    by (intro sorted_wrt_mono_rel[OF _ line_starts_of_sorted]) auto
  then have "partitioned ?p (map word_of_nat (line_starts_of src))"
    by (rule sorted_wrt_partitioned) auto
  then have "line_number (fst (line_index_build src mode)) offset
      = length (filter ?p (map word_of_nat (line_starts_of src)))"
    by (simp add: line_number_def line_starts_build partition_point_filter)
  also have "\<dots> = length (filter (\<lambda>s. s \<le> unat offset) (line_starts_of src))"
    using le by (simp add: filter_map comp_def cong: filter_cong)
  finally show ?thesis .
qed

lemma count_list_nth: "length (filter (\<lambda>i. xs ! i = v) [0..<length xs]) = count_list xs v"
proof -
  have "count_list xs v = length (filter ((=) v) (map ((!) xs) [0..<length xs]))"
    by (simp only: map_nth count_list_eq_length_filter)
  then show ?thesis by (simp add: filter_map comp_def eq_commute[of v])
qed

lemma filter_upt_less: "filter (\<lambda>i. P i \<and> i < k) [0..<n] = filter P [0..<min k n]"
  by (induction n) (auto simp: min_def not_less le_Suc_eq)

lemma count_newlines:
  "length (filter (\<lambda>s. s \<le> k) (line_starts_of src)) = 1 + count_list (take k src) 10"
proof -
  have "length (filter (\<lambda>s. s \<le> k) (line_starts_of src))
      = 1 + length (filter (\<lambda>i. src ! i = 10 \<and> i < k) [0..<length src])"
    by (simp add: line_starts_of_def newlines_def filter_map comp_def Suc_le_eq conj_commute)
  also have "filter (\<lambda>i. src ! i = 10 \<and> i < k) [0..<length src]
      = filter (\<lambda>i. take k src ! i = 10) [0..<length (take k src)]"
    unfolding filter_upt_less length_take min.commute[of _ k] by (rule filter_cong) auto
  finally show ?thesis by (simp only: count_list_nth)
qed

lemma line_start_nth:
  "line_start (fst (line_index_build src mode)) line =
     (if 1 \<le> line \<and> line \<le> length (line_starts_of src)
      then Some (word_of_nat (line_starts_of src ! (line - 1))) else None)"
  by (auto simp: line_start_def checked_sub_def line_starts_build nth_opt_def)

lemma line_starts_of_mono:
  "a \<le> b \<Longrightarrow> b < length (line_starts_of src) \<Longrightarrow> line_starts_of src ! a \<le> line_starts_of src ! b"
  using sorted_wrt_nth_less[OF line_starts_of_sorted, of a b src] by (cases "a = b") auto

lemma no_newline_inside:
  assumes "k < length (line_starts_of src)" "line_starts_of src ! k \<le> i" "i < length src"
    and "k + 1 < length (line_starts_of src) \<longrightarrow> i + 1 < line_starts_of src ! (k + 1)"
  shows "src ! i \<noteq> 10"
proof
  let ?S = "line_starts_of src"
  assume "src ! i = 10"
  then have "i + 1 \<in> set ?S" using assms(3) by (simp add: line_starts_of_iff)
  then obtain j where j: "j < length ?S" "?S ! j = i + 1" by (auto simp: in_set_conv_nth)
  note mono = line_starts_of_mono[of _ _ src]
  have "k < j" using j assms(1,2) mono[of j k] by (cases "k < j") auto
  with j assms(4) mono[of "k + 1" j] show False by auto
qed

section \<open>The range of a line\<close>

definition line_end_of :: "byte list \<Rightarrow> nat \<Rightarrow> nat" where
  "line_end_of src k =
     (if k + 1 < length (line_starts_of src) then line_starts_of src ! (k + 1) - 1 else length src)"

lemma line_end_bounds:
  assumes "k < length (line_starts_of src)"
  shows "line_starts_of src ! k \<le> line_end_of src k" "line_end_of src k \<le> length src"
    "line_end_of src k < length src \<Longrightarrow> src ! line_end_of src k = 10"
    "\<And>i. line_starts_of src ! k \<le> i \<Longrightarrow> i < line_end_of src k \<Longrightarrow> src ! i \<noteq> 10"
proof -
  let ?S = "line_starts_of src"
  have le: "?S ! k \<le> length src" using assms by (intro line_starts_of_le) simp
  have nxt: "?S ! k < ?S ! (k + 1)" "?S ! (k + 1) \<le> length src" "src ! (?S ! (k + 1) - 1) = 10"
    if "k + 1 < length ?S"
  proof -
    show *: "?S ! k < ?S ! (k + 1)"
      using sorted_wrt_nth_less[OF line_starts_of_sorted, of k "k + 1" src] that by simp
    have "?S ! (k + 1) \<in> set ?S" using that by simp
    then show "?S ! (k + 1) \<le> length src" "src ! (?S ! (k + 1) - 1) = 10"
      using * by (auto simp: line_starts_of_iff)
  qed
  show "?S ! k \<le> line_end_of src k" "line_end_of src k \<le> length src"
    using le nxt by (auto simp: line_end_of_def)
  show "src ! line_end_of src k = 10" if "line_end_of src k < length src"
    using that nxt by (auto simp: line_end_of_def split: if_splits)
  show "src ! i \<noteq> 10" if "?S ! k \<le> i" "i < line_end_of src k" for i
    using that assms nxt by (intro no_newline_inside[of k]) (auto simp: line_end_of_def split: if_splits)
qed

lemma line_range_eq:
  assumes "length src < 2 ^ 32"
  shows "line_range (fst (line_index_build src mode)) line src =
    Some (if 1 \<le> line \<and> line \<le> length (line_starts_of src)
          then Some (range_new (word_of_nat (line_starts_of src ! (line - 1)))
                       (word_of_nat (line_end_of src (line - 1))))
          else None)"
proof (cases "1 \<le> line \<and> line \<le> length (line_starts_of src)")
  case False
  then show ?thesis by (auto simp: line_range_def line_start_nth)
next
  case True
  let ?S = "line_starts_of src" and ?k = "line - 1"
  have k: "?k < length ?S" using True by auto
  note b = line_end_bounds[OF k]
  have un: "unat (word_of_nat n :: u32) = n" if "n \<le> length src" for n
    using that assms by (simp add: unat_of_nat take_bit_nat_eq_self)
  have S: "?S ! ?k \<le> length src" using k by (intro line_starts_of_le) simp
  have start: "line_start (fst (line_index_build src mode)) line = Some (word_of_nat (?S ! ?k))"
    using True by (simp add: line_start_nth)
  show ?thesis
  proof (cases "?k + 1 < length ?S")
    case next_line: True
    define n where "n = ?S ! (?k + 1)"
    have n: "?S ! ?k < n" "n \<le> length src" "src ! (n - 1) = 10" "line_end_of src ?k = n - 1"
      using b next_line sorted_wrt_nth_less[OF line_starts_of_sorted, of ?k "?k + 1" src]
        line_starts_of_le[of n src] nth_mem[OF next_line] line_starts_of_iff[of n src]
      by (auto simp: line_end_of_def n_def)
    have "word_of_nat n - 1 = (word_of_nat (n - 1) :: u32)" using n(1) by (simp add: of_nat_diff)
    moreover have "?S ! line = n" using True by (simp add: n_def)
    ultimately show ?thesis using start next_line True n S
      by (simp add: line_range_def checked_sub_def line_starts_build nth_opt_def un Let_def)
  next
    case False
    have "src ! (length src - 1) \<noteq> 10" if "?S ! ?k < length src"
      using b(4)[of "length src - 1"] that False by (simp add: line_end_of_def)
    moreover have "nth_opt (li_line_starts (fst (line_index_build src mode))) (?k + 1) = None"
      using False by (simp add: line_starts_build)
    moreover have "line_end_of src ?k = length src" using False by (simp add: line_end_of_def)
    moreover have "checked_sub line 1 = Some ?k" using True by (simp add: checked_sub_def)
    ultimately show ?thesis unfolding if_P[OF True]
      using start S by (simp add: line_range_def nth_opt_def un Let_def) arith
  qed
qed

section \<open>Lines and columns\<close>

lemma line_of_offset:
  fixes src off
  defines "k \<equiv> length (filter (\<lambda>s. s \<le> off) (line_starts_of src))"
  assumes "off \<le> length src"
  shows "1 \<le> k" "k \<le> length (line_starts_of src)" "line_starts_of src ! (k - 1) \<le> off"
    "off \<le> line_end_of src (k - 1)"
proof -
  let ?S = "line_starts_of src" and ?p = "\<lambda>s. s \<le> off"
  have part: "partitioned ?p ?S"
    by (rule sorted_wrt_partitioned[OF line_starts_of_sorted]) simp
  then have k: "k = partition_point ?p ?S" by (simp add: k_def partition_point_filter)
  show "1 \<le> k" "k \<le> length ?S" by (auto simp: k_def line_starts_of_def intro: le_trans[OF length_filter_le])
  with partition_point_spec(2)[OF part, of "k - 1"] k show "?S ! (k - 1) \<le> off" by auto
  show "off \<le> line_end_of src (k - 1)"
    using partition_point_spec(2)[OF part, of k] k \<open>1 \<le> k\<close> assms by (auto simp: line_end_of_def)
qed

lemma column_loop_eq:
  "current \<le> column \<Longrightarrow> column_loop rs current column =
     (if column - current < length rs then Inl (rs ! (column - current)) else Inr (current + length rs))"
  by (induction rs current column rule: column_loop.induct) (auto simp: nth_Cons' Suc_diff_le)

lemma utf8_first_byte_start: "\<not> is_continuation_byte (utf8_bytes c ! 0)"
  by (simp add: utf8_bytes_def is_continuation_byte_def)

lemma utf8_bytes_ascii: "i < len_utf8 c \<Longrightarrow> utf8_bytes c ! i < 128 \<Longrightarrow> len_utf8 c = 1"
  by (auto simp: utf8_bytes_def len_utf8_def less_Suc_eq nth_Cons' split: if_splits)

lemma char_starts_after_ascii:
  assumes "i < length (as_bytes cs)" "i = 0 \<or> as_bytes cs ! (i - 1) < 128"
  shows "\<not> is_continuation_byte (as_bytes cs ! i)"
  using assms
proof (induction cs arbitrary: i)
  case Nil
  then show ?case by simp
next
  case (Cons c cs)
  show ?case
  proof (cases "i < len_utf8 c")
    case True
    moreover have "i = 0"
      using True Cons.prems(2) utf8_bytes_ascii[of "i - 1" c] by (cases i) (auto simp: nth_append)
    ultimately show ?thesis by (simp add: nth_append utf8_first_byte_start)
  next
    case False
    moreover have "\<not> is_continuation_byte (as_bytes cs ! (i - len_utf8 c))"
      using Cons False by (intro Cons.IH) (auto simp: nth_append split: if_splits)
    ultimately show ?thesis by (simp add: nth_append)
  qed
qed

lemma line_boundaries:
  assumes "src = as_bytes cs" "k < length (line_starts_of src)"
  shows "is_char_boundary src (line_starts_of src ! k)" "is_char_boundary src (line_end_of src k)"
proof -
  have "line_starts_of src ! k \<in> set (line_starts_of src)" using assms(2) by simp
  then show "is_char_boundary src (line_starts_of src ! k)"
    using char_starts_after_ascii[of "line_starts_of src ! k" cs] assms(1)
    by (auto simp: line_starts_of_iff is_char_boundary_def is_continuation_byte_def)
  show "is_char_boundary src (line_end_of src k)"
    using line_end_bounds[OF assms(2)] by (cases "line_end_of src k < length src")
      (auto simp: is_char_boundary_def)
qed

definition char_count :: "byte list \<Rightarrow> nat" where
  "char_count text = length (filter (\<lambda>b. \<not> is_continuation_byte b) text)"

lemma filter_upt_nth:
  assumes "P n" "n < m"
  shows "length (filter P [0..<n]) < length (filter P [0..<m])"
    "filter P [0..<m] ! length (filter P [0..<n]) = n"
proof -
  have "[0..<m] = [0..<n] @ n # [Suc n..<m]"
    using assms(2) by (metis less_imp_add_positive upt_add_eq_append upt_conv_Cons zero_le)
  with assms(1) show "length (filter P [0..<n]) < length (filter P [0..<m])"
    "filter P [0..<m] ! length (filter P [0..<n]) = n" by simp_all
qed

lemma char_count_nth: "char_count text = length (char_offsets text)"
proof -
  have "filter (\<lambda>b. \<not> is_continuation_byte b) text
      = filter (\<lambda>b. \<not> is_continuation_byte b) (map ((!) text) [0..<length text])"
    by (simp only: map_nth)
  then show ?thesis by (simp add: char_count_def char_offsets_def filter_map comp_def)
qed

lemma column_loop_finds:
  assumes "rel \<le> length text" "rel < length text \<longrightarrow> \<not> is_continuation_byte (text ! rel)"
  shows "column_loop (char_offsets text) 1 (1 + char_count (take rel text)) =
    (if rel < length text then Inl rel else Inr (1 + char_count (take rel text)))"
proof -
  have c: "char_count (take rel text) = length (filter (\<lambda>i. \<not> is_continuation_byte (text ! i)) [0..<rel])"
    using assms(1) by (auto simp: char_count_nth char_offsets_def min_def intro!: arg_cong[where f = length] filter_cong)
  show ?thesis
  proof (cases "rel < length text")
    case True
    with assms(2) filter_upt_nth[of "\<lambda>i. \<not> is_continuation_byte (text ! i)" rel "length text"] c
    show ?thesis by (simp add: column_loop_eq char_offsets_def)
  next
    case False
    with assms(1) show ?thesis by (simp add: column_loop_eq char_count_nth)
  qed
qed

section \<open>Properties\<close>

text \<open>The index records 0 and the offset after every newline; the raw continuations are the
  newlines that a backslash (with an optional carriage return between) precedes, and the style is
  CRLF as soon as one line ends in a carriage return and a newline.\<close>

theorem line_index_contents:
  "li_line_starts (with_raw_continuations src) = map word_of_nat (line_starts_of src)
   \<and> li_line_starts (line_index_new src) = map word_of_nat (line_starts_of src)
   \<and> li_raw_line_starts (with_raw_continuations src)
       = map (\<lambda>i. word_of_nat (i + 1)) (raw_continuations_of src)
   \<and> li_raw_backslashes (with_raw_continuations src)
       = map (\<lambda>i. word_of_nat (raw_backslash_of src i)) (raw_continuations_of src)
   \<and> (li_line_ending (line_index_new src) = CrLf \<longleftrightarrow>
        (\<exists>i \<in> set (newlines src). 0 < i \<and> src ! (i - 1) = 13))"
  by (simp add: with_raw_continuations_def line_index_new_def line_starts_build)
    (simp add: line_index_build_def line_build_fold Let_def raw_continuations_of_def newlines_def)

text \<open>The line number of an offset is one more than the number of newlines before it.\<close>

theorem line_number_counts_newlines:
  assumes "length src < 2 ^ 32"
  shows "line_number (line_index_new src) offset = 1 + count_list (take (unat offset) src) 10"
  using line_number_count[OF assms] by (simp add: line_index_new_def count_newlines)

theorem line_number_counts_newlines_witness:
  "line_number (line_index_new [97, 10, 98, 10 :: nat]) 2
     = 1 + count_list (take (unat (2 :: u32)) [97, 10, 98, 10 :: nat]) 10"
  by (rule line_number_counts_newlines) simp

text \<open>For every line of the index, \<open>line_range\<close> returns without panic the range that starts at the
  line's start, holds no newline and runs to the next newline or to the end of the source; for a
  line number outside the index it returns no range.\<close>

theorem line_range_spans_line:
  assumes "length src < 2 ^ 32"
  shows "line_range (line_index_new src) line src =
      (if 1 \<le> line \<and> line \<le> line_count (line_index_new src)
       then Some (Some (range_new (word_of_nat (line_starts_of src ! (line - 1)))
                          (word_of_nat (line_end_of src (line - 1)))))
       else Some None)
    \<and> (1 \<le> line \<and> line \<le> line_count (line_index_new src) \<longrightarrow>
        line_starts_of src ! (line - 1) \<le> line_end_of src (line - 1)
        \<and> line_end_of src (line - 1) \<le> length src
        \<and> 10 \<notin> set (take (line_end_of src (line - 1) - line_starts_of src ! (line - 1))
                   (drop (line_starts_of src ! (line - 1)) src))
        \<and> (line_end_of src (line - 1) < length src \<longrightarrow> src ! line_end_of src (line - 1) = 10))"
proof -
  let ?s = "line_starts_of src ! (line - 1)" and ?e = "line_end_of src (line - 1)"
  have count: "line_count (line_index_new src) = length (line_starts_of src)"
    by (simp add: line_count_def line_index_new_def line_starts_build)
  have "10 \<notin> set (take (?e - ?s) (drop ?s src))" if "line - 1 < length (line_starts_of src)"
  proof -
    note b = line_end_bounds[OF that]
    have "take (?e - ?s) (drop ?s src) ! i \<noteq> 10" if "i < ?e - ?s" for i
      using b(1,2) b(4)[of "?s + i"] that by simp
    then show ?thesis using b(1,2) by (auto simp: in_set_conv_nth)
  qed
  note no_newline = this
  show ?thesis
  proof (cases "1 \<le> line \<and> line \<le> length (line_starts_of src)")
    case True
    then have k: "line - 1 < length (line_starts_of src)" by auto
    from True line_end_bounds[OF k] no_newline[OF k] count line_range_eq[OF assms, of IgnoreRaw line]
    show ?thesis by (simp add: line_index_new_def)
  next
    case False
    with count line_range_eq[OF assms, of IgnoreRaw line] show ?thesis
      by (auto simp: line_index_new_def)
  qed
qed

theorem line_range_spans_line_witness:
  "line_range (line_index_new [97, 10, 98]) 2 [97, 10, 98 :: nat] = Some (Some (range_new 2 3))"
proof -
  have "length [97, 10, 98 :: nat] < 2 ^ 32" by simp
  from line_range_spans_line[OF this, of 2] show ?thesis
    by (simp add: line_count_def line_index_new_def line_starts_build line_starts_of_def
        newlines_def line_end_of_def upt_rec)
qed

text \<open>C38: Line and column of a character boundary lead back to it: the line that \<open>line_number\<close>
  gives and the number of characters since that line's start determine the offset.\<close>

theorem line_column_round_trip:
  assumes "src = as_bytes cs" "length src < 2 ^ 32" "off \<le> length src" "is_char_boundary src off"
  shows "let line = line_number (line_index_new src) (word_of_nat off);
             start = line_starts_of src ! (line - 1)
         in offset_for_line_column (line_index_new src) line
              (1 + char_count (take (off - start) (drop start src))) src
            = Some (Some (word_of_nat off))"
proof -
  define k where "k = length (filter (\<lambda>s. s \<le> off) (line_starts_of src))"
  define st where "st = line_starts_of src ! (k - 1)"
  define en where "en = line_end_of src (k - 1)"
  define line_text where "line_text = take (en - st) (drop st src)"
  have un: "unat (word_of_nat n :: u32) = n" if "n \<le> length src" for n
    using that assms(2) by (simp add: unat_of_nat take_bit_nat_eq_self)
  have line: "line_number (line_index_new src) (word_of_nat off) = k"
    using line_number_count[OF assms(2)] assms(3) by (simp add: line_index_new_def un k_def)
  note lo = line_of_offset[OF assms(3), folded k_def, folded st_def en_def]
  have k: "k - 1 < length (line_starts_of src)" using lo(1,2) by simp
  note b = line_end_bounds[OF k, folded st_def en_def]
  have rng: "line_range (line_index_new src) k src = Some (Some (range_new (word_of_nat st) (word_of_nat en)))"
    using line_range_eq[OF assms(2)] lo by (simp add: line_index_new_def st_def en_def)
  have body: "str_get src st en = Some line_text"
    using line_boundaries[OF assms(1) k] b by (simp add: str_get_def line_text_def st_def en_def)
  have len: "length line_text = en - st" using b by (simp add: line_text_def)
  have "take (off - st) (drop st src) = take (off - st) line_text"
    using lo by (simp add: line_text_def min_def)
  moreover have "\<not> is_continuation_byte (line_text ! (off - st))" if "off - st < length line_text"
    using that assms(4) lo b len char_starts_after_ascii[of 0 cs] assms(1)
    by (cases "off = 0") (auto simp: line_text_def is_char_boundary_def is_continuation_byte_def)
  ultimately have loop: "column_loop (char_offsets line_text) 1
      (1 + char_count (take (off - st) (drop st src)))
      = (if off < en then Inl (off - st) else Inr (1 + char_count (take (off - st) (drop st src))))"
    using column_loop_finds[of "off - st" line_text] lo len by auto
  have st: "unat (word_of_nat st :: u32) = st" "unat (word_of_nat en :: u32) = en"
    using un b(1,2) by auto
  have "k \<noteq> 0" using lo(1) by simp
  then have "offset_for_line_column (line_index_new src) k
      (1 + char_count (take (off - st) (drop st src))) src = Some (Some (word_of_nat off))"
    using rng body loop lo(3,4) st by (cases "off < en") (simp_all add: offset_for_line_column_def range_new_def)
  then show ?thesis unfolding line Let_def st_def .
qed

theorem line_column_round_trip_witness:
  "\<exists>line column. offset_for_line_column (line_index_new (as_bytes [97, 10, 233, 98])) line column
     (as_bytes [97, 10, 233, 98 :: nat]) = Some (Some 4)"
proof -
  have "is_char_boundary (as_bytes [97, 10, 233, 98]) 4" by code_simp
  from line_column_round_trip[OF refl _ _ this] show ?thesis
    by (auto simp: Let_def len_utf8_def)
qed

end
