(* ===== verification/Dense_Bit_Set.thy ===== *)
theory Dense_Bit_Set
  imports Shuck_Prelude
begin

unbundle bit_operations_syntax

text \<open>
  Model of \<open>crates/shucked-semantic/src/dense_bit_set.rs\<close>: sets of small naturals kept in 64-bit
  machine words, the matrix of such sets, the iterator over the members, and of
  \<open>crates/shucked-linter/src/rule_set.rs\<close>, the fixed-width set of rules.  \<open>usize\<close> has 64 bits; an
  index out of the word array panics.
\<close>

section \<open>Single words\<close>

type_synonym usize_word = "64 word"

definition word_of_index :: "nat \<Rightarrow> nat" where
  "word_of_index i = i div 64"

definition mask_of_index :: "nat \<Rightarrow> usize_word" where
  "mask_of_index i = push_bit (i mod 64) 1"

text \<open>\<open>trailing_zeros\<close>, which is 64 on the zero word, and \<open>count_ones\<close>.\<close>

definition trailing_zeros :: "usize_word \<Rightarrow> nat" where
  "trailing_zeros w = length (takeWhile (\<lambda>i. \<not> bit w i) [0..<64])"

definition count_ones :: "usize_word \<Rightarrow> nat" where
  "count_ones w = length (filter (bit w) [0..<64])"

section \<open>DenseBitSet\<close>

record dense_bit_set =
  bs_words :: "usize_word list"

definition div_ceil :: "nat \<Rightarrow> nat \<Rightarrow> nat" where
  "div_ceil a b = a div b + (if a mod b = 0 then 0 else 1)"

definition bs_new :: "nat \<Rightarrow> dense_bit_set" where
  "bs_new bit_len = \<lparr>bs_words = replicate (div_ceil bit_len 64) 0\<rparr>"

definition bs_insert :: "dense_bit_set \<Rightarrow> nat \<Rightarrow> dense_bit_set option" where
  "bs_insert s i = do {
     w \<leftarrow> nth_opt (bs_words s) (word_of_index i);
     ws \<leftarrow> update_opt (bs_words s) (word_of_index i) (w OR mask_of_index i);
     Some \<lparr>bs_words = ws\<rparr> }"

definition bs_remove :: "dense_bit_set \<Rightarrow> nat \<Rightarrow> dense_bit_set option" where
  "bs_remove s i = do {
     w \<leftarrow> nth_opt (bs_words s) (word_of_index i);
     ws \<leftarrow> update_opt (bs_words s) (word_of_index i) (w AND NOT (mask_of_index i));
     Some \<lparr>bs_words = ws\<rparr> }"

definition bs_contains :: "dense_bit_set \<Rightarrow> nat \<Rightarrow> bool" where
  "bs_contains s i =
     (case nth_opt (bs_words s) (word_of_index i) of
        None \<Rightarrow> False | Some w \<Rightarrow> w AND mask_of_index i \<noteq> 0)"

definition bs_is_empty :: "dense_bit_set \<Rightarrow> bool" where
  "bs_is_empty s = list_all (\<lambda>w. w = 0) (bs_words s)"

definition bs_clear :: "dense_bit_set \<Rightarrow> dense_bit_set" where
  "bs_clear s = \<lparr>bs_words = replicate (length (bs_words s)) 0\<rparr>"

text \<open>\<open>copy_from_slice\<close> panics when the lengths differ.\<close>

definition bs_copy_from_words :: "dense_bit_set \<Rightarrow> usize_word list \<Rightarrow> dense_bit_set option" where
  "bs_copy_from_words s ws =
     (if length (bs_words s) = length ws then Some \<lparr>bs_words = ws\<rparr> else None)"

definition bs_copy_from :: "dense_bit_set \<Rightarrow> dense_bit_set \<Rightarrow> dense_bit_set option" where
  "bs_copy_from s t = bs_copy_from_words s (bs_words t)"

text \<open>\<open>iter_mut().zip(..)\<close> stops with the shorter of the two.\<close>

fun zip_update :: "('a \<Rightarrow> 'b \<Rightarrow> 'a) \<Rightarrow> 'a list \<Rightarrow> 'b list \<Rightarrow> 'a list" where
  "zip_update f (w # ws) (v # vs) = f w v # zip_update f ws vs"
| "zip_update f ws _ = ws"

definition bs_union_with_words :: "dense_bit_set \<Rightarrow> usize_word list \<Rightarrow> dense_bit_set" where
  "bs_union_with_words s ws = \<lparr>bs_words = zip_update (OR) (bs_words s) ws\<rparr>"

definition bs_union_with :: "dense_bit_set \<Rightarrow> dense_bit_set \<Rightarrow> dense_bit_set" where
  "bs_union_with s t = bs_union_with_words s (bs_words t)"

definition bs_subtract_with_words :: "dense_bit_set \<Rightarrow> usize_word list \<Rightarrow> dense_bit_set" where
  "bs_subtract_with_words s ws = \<lparr>bs_words = zip_update (\<lambda>w v. w AND NOT v) (bs_words s) ws\<rparr>"

definition bs_subtract_with :: "dense_bit_set \<Rightarrow> dense_bit_set \<Rightarrow> dense_bit_set" where
  "bs_subtract_with s t = bs_subtract_with_words s (bs_words t)"

definition bs_intersect_with_words :: "dense_bit_set \<Rightarrow> usize_word list \<Rightarrow> dense_bit_set" where
  "bs_intersect_with_words s ws = \<lparr>bs_words = zip_update (AND) (bs_words s) ws\<rparr>"

section \<open>The iterator over the members\<close>

record bit_iter =
  it_words :: "usize_word list"
  it_word_index :: nat
  it_current_word :: usize_word

definition iter_over_words :: "usize_word list \<Rightarrow> bit_iter" where
  "iter_over_words ws = \<lparr>it_words = ws, it_word_index = 0, it_current_word = 0\<rparr>"

definition bs_iter_ones :: "dense_bit_set \<Rightarrow> bit_iter" where
  "bs_iter_ones s = iter_over_words (bs_words s)"

function iter_next :: "bit_iter \<Rightarrow> (nat \<times> bit_iter) option" where
  "iter_next it =
     (if it_current_word it \<noteq> 0 then
        Some ((it_word_index it - 1) * 64 + trailing_zeros (it_current_word it),
              it\<lparr>it_current_word := it_current_word it AND (it_current_word it - 1)\<rparr>)
      else if it_word_index it < length (it_words it) then
        iter_next (it\<lparr>it_current_word := it_words it ! it_word_index it,
                      it_word_index := it_word_index it + 1\<rparr>)
      else None)"
  by pat_completeness auto
termination
  by (relation "measure (\<lambda>it. length (it_words it) - it_word_index it)") auto

declare iter_next.simps [simp del]

section \<open>DenseBitMatrix\<close>

record dense_bit_matrix =
  bm_words_per_row :: nat
  bm_rows :: nat
  bm_data :: "usize_word list"

definition bm_zeros :: "nat \<Rightarrow> nat \<Rightarrow> dense_bit_matrix" where
  "bm_zeros rows bit_len =
     (let words_per_row = div_ceil bit_len 64
      in \<lparr>bm_words_per_row = words_per_row, bm_rows = rows,
          bm_data = replicate (rows * words_per_row) 0\<rparr>)"

definition bm_row :: "dense_bit_matrix \<Rightarrow> nat \<Rightarrow> usize_word list option" where
  "bm_row m row = slice_opt (bm_data m) (row * bm_words_per_row m) (bm_words_per_row m)"

text \<open>Overwriting the slice that starts at \<open>start\<close> with a slice of the expected length.\<close>

definition write_slice :: "'a list \<Rightarrow> nat \<Rightarrow> nat \<Rightarrow> 'a list \<Rightarrow> 'a list option" where
  "write_slice xs start len ys =
     (if start + len \<le> length xs \<and> length ys = len
      then Some (take start xs @ ys @ drop (start + len) xs) else None)"

definition bm_write_row ::
  "dense_bit_matrix \<Rightarrow> nat \<Rightarrow> usize_word list \<Rightarrow> dense_bit_matrix option" where
  "bm_write_row m row ws = do {
     d \<leftarrow> write_slice (bm_data m) (row * bm_words_per_row m) (bm_words_per_row m) ws;
     Some (m\<lparr>bm_data := d\<rparr>) }"

definition bm_fill_all_rows_from_words ::
  "dense_bit_matrix \<Rightarrow> usize_word list \<Rightarrow> dense_bit_matrix option" where
  "bm_fill_all_rows_from_words m src =
     fold_opt (\<lambda>row m. bm_write_row m row src) [0..<bm_rows m] m"

definition bm_insert :: "dense_bit_matrix \<Rightarrow> nat \<Rightarrow> nat \<Rightarrow> dense_bit_matrix option" where
  "bm_insert m row i =
     (let at = row * bm_words_per_row m + word_of_index i
      in do { w \<leftarrow> nth_opt (bm_data m) at;
              d \<leftarrow> update_opt (bm_data m) at (w OR mask_of_index i);
              Some (m\<lparr>bm_data := d\<rparr>) })"

definition bm_contains :: "dense_bit_matrix \<Rightarrow> nat \<Rightarrow> nat \<Rightarrow> bool" where
  "bm_contains m row i =
     (case nth_opt (bm_data m) (row * bm_words_per_row m + word_of_index i) of
        None \<Rightarrow> False | Some w \<Rightarrow> w AND mask_of_index i \<noteq> 0)"

definition bm_union_row_with_words ::
  "dense_bit_matrix \<Rightarrow> nat \<Rightarrow> usize_word list \<Rightarrow> dense_bit_matrix option" where
  "bm_union_row_with_words m row src = do {
     r \<leftarrow> bm_row m row;
     bm_write_row m row (zip_update (OR) r src) }"

definition bm_copy_row_from_row :: "dense_bit_matrix \<Rightarrow> nat \<Rightarrow> nat \<Rightarrow> dense_bit_matrix option" where
  "bm_copy_row_from_row m dst src =
     (if dst = src then Some m else do { r \<leftarrow> bm_row m src; bm_write_row m dst r })"

definition bm_replace_row_if_changed ::
  "dense_bit_matrix \<Rightarrow> nat \<Rightarrow> usize_word list \<Rightarrow> (bool \<times> dense_bit_matrix) option" where
  "bm_replace_row_if_changed m row src = do {
     target \<leftarrow> bm_row m row;
     if target = src then Some (False, m)
     else do { m' \<leftarrow> bm_write_row m row src; Some (True, m') } }"

section \<open>RuleSet\<close>

text \<open>A rule is its position in \<open>ALL_RULES\<close>, which is what \<open>rule as usize\<close> gives.\<close>

definition rule_count :: nat where
  "rule_count = 321"

definition word_count :: nat where
  "word_count = div_ceil rule_count 64"

record rule_set =
  rs_words :: "usize_word list"

definition rs_empty :: rule_set where
  "rs_empty = \<lparr>rs_words = replicate word_count 0\<rparr>"

definition rs_insert :: "rule_set \<Rightarrow> nat \<Rightarrow> rule_set option" where
  "rs_insert s rule = do {
     w \<leftarrow> nth_opt (rs_words s) (rule div 64);
     ws \<leftarrow> update_opt (rs_words s) (rule div 64) (w OR push_bit (rule mod 64) 1);
     Some \<lparr>rs_words = ws\<rparr> }"

definition rs_remove :: "rule_set \<Rightarrow> nat \<Rightarrow> rule_set option" where
  "rs_remove s rule = do {
     w \<leftarrow> nth_opt (rs_words s) (rule div 64);
     ws \<leftarrow> update_opt (rs_words s) (rule div 64) (w AND NOT (push_bit (rule mod 64) 1));
     Some \<lparr>rs_words = ws\<rparr> }"

definition rs_set :: "rule_set \<Rightarrow> nat \<Rightarrow> bool \<Rightarrow> rule_set option" where
  "rs_set s rule enabled = (if enabled then rs_insert s rule else rs_remove s rule)"

definition rs_contains :: "rule_set \<Rightarrow> nat \<Rightarrow> bool option" where
  "rs_contains s rule = do {
     w \<leftarrow> nth_opt (rs_words s) (rule div 64);
     Some (w AND push_bit (rule mod 64) 1 \<noteq> 0) }"

definition rs_from_rules :: "nat list \<Rightarrow> rule_set option" where
  "rs_from_rules rules = fold_opt (\<lambda>rule s. rs_insert s rule) rules rs_empty"

definition rs_all :: "rule_set option" where
  "rs_all = rs_from_rules [0..<rule_count]"

definition rs_union :: "rule_set \<Rightarrow> rule_set \<Rightarrow> rule_set" where
  "rs_union s t = \<lparr>rs_words = map (\<lambda>i. rs_words s ! i OR rs_words t ! i) [0..<word_count]\<rparr>"

definition rs_subtract :: "rule_set \<Rightarrow> rule_set \<Rightarrow> rule_set" where
  "rs_subtract s t = \<lparr>rs_words = map (\<lambda>i. rs_words s ! i AND NOT (rs_words t ! i)) [0..<word_count]\<rparr>"

definition rs_iter :: "rule_set \<Rightarrow> nat list" where
  "rs_iter s = filter (\<lambda>rule. rs_contains s rule = Some True) [0..<rule_count]"

definition rs_len :: "rule_set \<Rightarrow> nat" where
  "rs_len s = sum_list (map count_ones (rs_words s))"

definition rs_is_empty :: "rule_set \<Rightarrow> bool" where
  "rs_is_empty s = list_all (\<lambda>w. w = 0) (rs_words s)"

section \<open>Sets of members\<close>

text \<open>The members of a list of words.\<close>

definition word_bit :: "usize_word list \<Rightarrow> nat \<Rightarrow> bool" where
  "word_bit ws i \<longleftrightarrow> i div 64 < length ws \<and> bit (ws ! (i div 64)) (i mod 64)"

definition members :: "usize_word list \<Rightarrow> nat set" where
  "members ws = {i. word_bit ws i}"

lemma members_iff [simp]: "i \<in> members ws \<longleftrightarrow> word_bit ws i"
  by (simp add: members_def)

lemma members_bounded: "members ws \<subseteq> {..<64 * length ws}"
  by (auto simp: members_def word_bit_def less_mult_imp_div_less div_less_iff_less_mult mult.commute)

lemma finite_members [simp]: "finite (members ws)"
  using members_bounded finite_subset by blast

lemma word_index_less: "i div 64 < n \<longleftrightarrow> i < 64 * n" for i n :: nat
  by (simp add: div_less_iff_less_mult mult.commute)

lemma bit_mask: "bit (mask_of_index i) j \<longleftrightarrow> j = i mod 64"
  by (auto simp: mask_of_index_def bit_push_bit_iff bit_1_iff simp del: push_bit_of_1
      intro: less_trans[OF mod_less_divisor])

lemma and_mask_nonzero: "w AND mask_of_index i \<noteq> 0 \<longleftrightarrow> bit w (i mod 64)"
proof
  assume "bit w (i mod 64)"
  then have "bit (w AND mask_of_index i) (i mod 64)" by (simp add: bit_mask bit_and_iff)
  then show "w AND mask_of_index i \<noteq> 0" by auto
next
  assume "w AND mask_of_index i \<noteq> 0"
  then obtain j where "bit (w AND mask_of_index i) j" by (metis bit_eqI bit_0_eq bot_apply bot_bool_def)
  then show "bit w (i mod 64)" by (auto simp: bit_mask bit_and_iff)
qed

lemma same_index: "i div 64 = j div 64 \<Longrightarrow> i mod 64 = j mod 64 \<Longrightarrow> i = j" for i j :: nat
  by (metis div_mult_mod_eq)

lemma word_bit_set:
  assumes "i div 64 < length ws"
  shows "word_bit (ws[i div 64 := ws ! (i div 64) OR mask_of_index i]) j \<longleftrightarrow> j = i \<or> word_bit ws j"
  using assms same_index[of i j] same_index[of j i]
  by (cases "i div 64 = j div 64") (auto simp: word_bit_def bit_or_iff bit_mask)

lemma word_bit_reset:
  assumes "i div 64 < length ws"
  shows "word_bit (ws[i div 64 := ws ! (i div 64) AND NOT (mask_of_index i)]) j
    \<longleftrightarrow> j \<noteq> i \<and> word_bit ws j"
  using assms same_index[of i j] same_index[of j i]
  by (cases "i div 64 = j div 64") (auto simp: word_bit_def bit_and_iff bit_not_iff bit_mask)

lemma word_bit_replicate_0 [simp]: "\<not> word_bit (replicate n 0) i"
  by (simp add: word_bit_def)

lemma zip_update_length [simp]: "length (zip_update f ws vs) = length ws"
  by (induction f ws vs rule: zip_update.induct) auto

lemma zip_update_nth:
  "i < length ws \<Longrightarrow> zip_update f ws vs ! i = (if i < length vs then f (ws ! i) (vs ! i) else ws ! i)"
  by (induction f ws vs arbitrary: i rule: zip_update.induct) (auto simp: nth_Cons')

lemma word_bit_ext:
  assumes "length ws = length vs" "\<And>i. word_bit ws i \<longleftrightarrow> word_bit vs i"
  shows "ws = vs"
proof (rule nth_equalityI)
  fix k assume k: "k < length ws"
  show "ws ! k = vs ! k"
  proof (rule bit_word_eqI)
    fix n assume "n < LENGTH(64)"
    then have n: "n < 64" by simp
    have "word_bit ws (64 * k + n) \<longleftrightarrow> bit (ws ! k) n" "word_bit vs (64 * k + n) \<longleftrightarrow> bit (vs ! k) n"
      using n k assms(1) by (simp_all add: word_bit_def)
    then show "bit (ws ! k) n \<longleftrightarrow> bit (vs ! k) n" using assms(2) by simp
  qed
qed (rule assms(1))

section \<open>The contract of a bit-backed set\<close>

text \<open>
  What the clients rely on: a store of members below its capacity, into which any member below the
  capacity can be inserted.
\<close>

locale finite_bit_set =
  fixes elems :: "'s \<Rightarrow> nat set" and cap :: "'s \<Rightarrow> nat"
    and ins :: "'s \<Rightarrow> nat \<Rightarrow> 's option" and mem :: "'s \<Rightarrow> nat \<Rightarrow> bool"
  assumes elems_cap: "elems s \<subseteq> {..<cap s}"
    and mem_elems: "i < cap s \<Longrightarrow> mem s i \<longleftrightarrow> i \<in> elems s"
    and ins_ok: "i < cap s \<Longrightarrow> \<exists>t. ins s i = Some t \<and> cap t = cap s \<and> elems t = insert i (elems s)"
begin

lemma insert_all:
  assumes "set xs \<subseteq> {..<cap s}"
  shows "\<exists>t. fold_opt (\<lambda>i s. ins s i) xs s = Some t \<and> cap t = cap s \<and> elems t = elems s \<union> set xs"
  using assms
proof (induction xs arbitrary: s)
  case Nil
  then show ?case by simp
next
  case (Cons x xs)
  then obtain t where t: "ins s x = Some t" "cap t = cap s" "elems t = insert x (elems s)"
    using ins_ok[of x s] by auto
  with Cons.IH[of t] Cons.prems show ?case by auto
qed

lemma mem_insert_all:
  assumes "set xs \<subseteq> {..<cap s}" "fold_opt (\<lambda>i s. ins s i) xs s = Some t" "i < cap s"
  shows "mem t i \<longleftrightarrow> i \<in> set xs \<or> mem s i"
  using insert_all[OF assms(1)] assms(2,3) mem_elems by auto

end

text \<open>A set whose capacity is enforced, and from which members can be removed.\<close>

locale checked_bit_set = finite_bit_set +
  fixes rem :: "'a \<Rightarrow> nat \<Rightarrow> 'a option"
  assumes ins_panics: "cap s \<le> i \<Longrightarrow> ins s i = None"
    and rem_ok: "i < cap s \<Longrightarrow> \<exists>t. rem s i = Some t \<and> cap t = cap s \<and> elems t = elems s - {i}"
begin

lemma insert_all_defined: "fold_opt (\<lambda>i s. ins s i) xs s \<noteq> None \<longleftrightarrow> set xs \<subseteq> {..<cap s}"
proof (induction xs arbitrary: s)
  case Nil
  then show ?case by simp
next
  case (Cons x xs)
  show ?case
  proof (cases "x < cap s")
    case True
    then obtain t where "ins s x = Some t" "cap t = cap s" using ins_ok[of x s] by auto
    with Cons.IH[of t] True show ?thesis by auto
  next
    case False
    then show ?thesis by (simp add: ins_panics)
  qed
qed

lemma remove_insert:
  assumes "i < cap s"
  shows "\<exists>t u. ins s i = Some t \<and> rem t i = Some u \<and> elems u = elems s - {i}"
proof -
  obtain t where t: "ins s i = Some t" "cap t = cap s" "elems t = insert i (elems s)"
    using ins_ok[OF assms] by blast
  then obtain u where "rem t i = Some u" "elems u = elems t - {i}"
    using rem_ok[of i t] assms by auto
  with t show ?thesis by auto
qed

end

lemma bs_insert_eq:
  "bs_insert s i = (if i < 64 * length (bs_words s)
     then Some \<lparr>bs_words = (bs_words s)[i div 64 := bs_words s ! (i div 64) OR mask_of_index i]\<rparr>
     else None)"
  by (auto simp: bs_insert_def word_of_index_def word_index_less nth_opt_def update_opt_def)

lemma bs_remove_eq:
  "bs_remove s i = (if i < 64 * length (bs_words s)
     then Some \<lparr>bs_words = (bs_words s)[i div 64 := bs_words s ! (i div 64) AND NOT (mask_of_index i)]\<rparr>
     else None)"
  by (auto simp: bs_remove_def word_of_index_def word_index_less nth_opt_def update_opt_def)

lemma bs_contains_eq: "bs_contains s i \<longleftrightarrow> i \<in> members (bs_words s)"
  by (auto simp: bs_contains_def nth_opt_def word_of_index_def word_bit_def and_mask_nonzero)

lemma members_insert:
  "i < 64 * length ws \<Longrightarrow>
   members (ws[i div 64 := ws ! (i div 64) OR mask_of_index i]) = insert i (members ws)"
  by (auto simp: word_bit_set word_index_less)

lemma members_remove:
  "i < 64 * length ws \<Longrightarrow>
   members (ws[i div 64 := ws ! (i div 64) AND NOT (mask_of_index i)]) = members ws - {i}"
  by (auto simp: word_bit_reset word_index_less)

interpretation dense: checked_bit_set "\<lambda>s. members (bs_words s)" "\<lambda>s. 64 * length (bs_words s)"
  bs_insert bs_contains bs_remove
  by unfold_locales
    (use members_bounded in \<open>auto simp: bs_insert_eq bs_remove_eq bs_contains_eq members_insert
      members_remove simp del: members_iff\<close>)

lemma rs_insert_bs:
  "rs_insert s i = map_option (\<lambda>t. \<lparr>rs_words = bs_words t\<rparr>) (bs_insert \<lparr>bs_words = rs_words s\<rparr> i)"
  "rs_remove s i = map_option (\<lambda>t. \<lparr>rs_words = bs_words t\<rparr>) (bs_remove \<lparr>bs_words = rs_words s\<rparr> i)"
  by (auto simp: rs_insert_def rs_remove_def bs_insert_def bs_remove_def word_of_index_def
      mask_of_index_def split: bind_splits)

lemma rs_contains_eq: "rs_contains s i = Some True \<longleftrightarrow> i \<in> members (rs_words s)"
  by (auto simp: rs_contains_def word_bit_def nth_opt_def and_mask_nonzero[unfolded mask_of_index_def]
      simp del: push_bit_of_1)

interpretation rules: checked_bit_set "\<lambda>s. members (rs_words s)" "\<lambda>s. 64 * length (rs_words s)"
  rs_insert "\<lambda>s i. rs_contains s i = Some True" rs_remove
  by unfold_locales
    (use members_bounded in \<open>auto simp: rs_insert_bs bs_insert_eq bs_remove_eq rs_contains_eq
      members_insert members_remove simp del: members_iff\<close>)

section \<open>Matrix rows\<close>

definition row_words :: "dense_bit_matrix \<Rightarrow> nat \<Rightarrow> usize_word list" where
  "row_words m r = take (bm_words_per_row m) (drop (r * bm_words_per_row m) (bm_data m))"

definition row_cap :: "dense_bit_matrix \<Rightarrow> nat \<Rightarrow> nat" where
  "row_cap m r = (if (r + 1) * bm_words_per_row m \<le> length (bm_data m)
                  then 64 * bm_words_per_row m else 0)"

definition wf_matrix :: "dense_bit_matrix \<Rightarrow> bool" where
  "wf_matrix m \<longleftrightarrow> length (bm_data m) = bm_rows m * bm_words_per_row m"

lemma row_words_length:
  "(r + 1) * bm_words_per_row m \<le> length (bm_data m) \<Longrightarrow> length (row_words m r) = bm_words_per_row m"
  by (simp add: row_words_def)

lemma row_words_nth:
  assumes "(r + 1) * bm_words_per_row m \<le> length (bm_data m)" "k < bm_words_per_row m"
  shows "row_words m r ! k = bm_data m ! (r * bm_words_per_row m + k)"
    "r * bm_words_per_row m + k < length (bm_data m)"
  using assms by (simp_all add: row_words_def)

lemma row_position_inj:
  assumes "r * w + k = r' * w + k'" "k < w" "k' < (w :: nat)"
  shows "r = r' \<and> k = k'"
  by (metis assms add.commute div_mult_self3 div_less mod_mult_self3 mod_less add_0 less_nat_zero_code)

lemma row_bit:
  assumes "(r + 1) * bm_words_per_row m \<le> length (bm_data m)"
  shows "word_bit (row_words m r) i \<longleftrightarrow> i < 64 * bm_words_per_row m
    \<and> bit (bm_data m ! (r * bm_words_per_row m + i div 64)) (i mod 64)"
  using row_words_length[OF assms] row_words_nth(1)[OF assms, of "i div 64"]
  by (auto simp: word_bit_def word_index_less)

lemma bm_contains_row:
  assumes "i < row_cap m r"
  shows "bm_contains m r i \<longleftrightarrow> i \<in> members (row_words m r)"
proof -
  have b: "(r + 1) * bm_words_per_row m \<le> length (bm_data m)" "i div 64 < bm_words_per_row m"
    using assms by (auto simp: row_cap_def word_index_less split: if_splits)
  with row_words_nth(2)[OF b] row_bit[OF b(1)] show ?thesis
    by (simp add: bm_contains_def nth_opt_def word_of_index_def and_mask_nonzero word_index_less)
qed

lemma bm_insert_eq:
  assumes "i < row_cap m r"
  shows "\<exists>m'. bm_insert m r i = Some m' \<and> bm_words_per_row m' = bm_words_per_row m
    \<and> bm_rows m' = bm_rows m \<and> length (bm_data m') = length (bm_data m)
    \<and> members (row_words m' r) = insert i (members (row_words m r))
    \<and> (\<forall>r'. r' \<noteq> r \<and> (r' + 1) * bm_words_per_row m \<le> length (bm_data m) \<longrightarrow>
         row_words m' r' = row_words m r')"
proof -
  let ?w = "bm_words_per_row m"
  let ?at = "r * ?w + i div 64"
  have b: "(r + 1) * ?w \<le> length (bm_data m)" "i div 64 < ?w"
    using assms by (auto simp: row_cap_def word_index_less split: if_splits)
  note at = row_words_nth(2)[OF b]
  define m' where "m' = m\<lparr>bm_data := (bm_data m)[?at := bm_data m ! ?at OR mask_of_index i]\<rparr>"
  have ins: "bm_insert m r i = Some m'"
    using at by (simp add: bm_insert_def word_of_index_def nth_opt_def update_opt_def m'_def Let_def)
  have pres: "bm_words_per_row m' = ?w" "bm_rows m' = bm_rows m"
    "length (bm_data m') = length (bm_data m)" by (simp_all add: m'_def)
  have other: "row_words m' r' = row_words m r'"
    if "r' \<noteq> r" "(r' + 1) * ?w \<le> length (bm_data m)" for r'
  proof (rule nth_equalityI)
    show "length (row_words m' r') = length (row_words m r')" by (simp add: row_words_def pres)
    fix k assume "k < length (row_words m' r')"
    then have k: "k < ?w" by (simp add: row_words_def pres)
    then have "r' * ?w + k \<noteq> ?at" using row_position_inj[of r' ?w k r "i div 64"] b that by auto
    with k that row_words_nth(1)[of r' m k] row_words_nth(1)[of r' m' k] pres
    show "row_words m' r' ! k = row_words m r' ! k" by (simp add: m'_def)
  qed
  have "word_bit (row_words m' r) j \<longleftrightarrow> j = i \<or> word_bit (row_words m r) j" for j
  proof -
    have 1: "word_bit (row_words m' r) j \<longleftrightarrow> j < 64 * ?w
        \<and> bit (bm_data m' ! (r * ?w + j div 64)) (j mod 64)"
      using row_bit[of r m' j] b pres by simp
    have 2: "word_bit (row_words m r) j \<longleftrightarrow> j < 64 * ?w
        \<and> bit (bm_data m ! (r * ?w + j div 64)) (j mod 64)"
      using row_bit[of r m j] b by simp
    show ?thesis unfolding 1 2
      using same_index[of i j] b at by (cases "j div 64 = i div 64")
        (auto simp: m'_def bit_or_iff bit_mask word_index_less)
  qed
  then have "members (row_words m' r) = insert i (members (row_words m r))" by auto
  with ins pres other show ?thesis by auto
qed

interpretation row: finite_bit_set "\<lambda>m. members (row_words m r) \<inter> {..<row_cap m r}" "\<lambda>m. row_cap m r"
  "\<lambda>m i. bm_insert m r i" "\<lambda>m i. bm_contains m r i" for r
proof
  fix m i assume i: "i < row_cap m r"
  then show "bm_contains m r i = (i \<in> members (row_words m r) \<inter> {..<row_cap m r})"
    by (simp add: bm_contains_row)
  from bm_insert_eq[OF i] obtain m' where "bm_insert m r i = Some m'"
    "members (row_words m' r) = insert i (members (row_words m r))" "row_cap m' r = row_cap m r"
    by (auto simp: row_cap_def)
  then show "\<exists>t. bm_insert m r i = Some t \<and> row_cap t r = row_cap m r \<and>
      members (row_words t r) \<inter> {..<row_cap t r}
        = insert i (members (row_words m r) \<inter> {..<row_cap m r})"
    using i by (intro exI[of _ m']) auto
qed auto

lemma write_slice_some:
  assumes "start + length ys \<le> length xs"
  shows "write_slice xs start (length ys) ys = Some (take start xs @ ys @ drop (start + length ys) xs)"
  using assms by (simp add: write_slice_def)

lemma bm_write_row_eq:
  assumes "(r + 1) * bm_words_per_row m \<le> length (bm_data m)" "length ws = bm_words_per_row m"
  shows "\<exists>m'. bm_write_row m r ws = Some m' \<and> bm_words_per_row m' = bm_words_per_row m
    \<and> bm_rows m' = bm_rows m \<and> length (bm_data m') = length (bm_data m)
    \<and> row_words m' r = ws
    \<and> (\<forall>r'. r' \<noteq> r \<and> (r' + 1) * bm_words_per_row m \<le> length (bm_data m) \<longrightarrow>
         row_words m' r' = row_words m r')"
proof -
  let ?w = "bm_words_per_row m"
  let ?d = "take (r * ?w) (bm_data m) @ ws @ drop (r * ?w + ?w) (bm_data m)"
  define m' where "m' = m\<lparr>bm_data := ?d\<rparr>"
  have "bm_write_row m r ws = Some m'"
    using assms by (simp add: bm_write_row_def write_slice_def m'_def)
  moreover have len: "length ?d = length (bm_data m)" using assms by simp
  have pres: "bm_words_per_row m' = ?w" "length (bm_data m') = length (bm_data m)"
    unfolding m'_def using len by simp_all
  moreover have "row_words m' r = ws"
    using assms by (simp add: row_words_def m'_def)
  moreover have "row_words m' r' = row_words m r'"
    if "r' \<noteq> r" "(r' + 1) * ?w \<le> length (bm_data m)" for r'
  proof (rule nth_equalityI)
    show "length (row_words m' r') = length (row_words m r')"
      using pres by (simp add: row_words_def)
    fix k assume "k < length (row_words m' r')"
    then have k: "k < ?w" by (simp add: row_words_def pres)
    have *: "r' * ?w + k < r * ?w \<or> r * ?w + ?w \<le> r' * ?w + k"
    proof (cases "r' < r")
      case True
      then have "(r' + 1) * ?w \<le> r * ?w" by (intro mult_le_mono1) simp
      with k show ?thesis by simp
    next
      case False
      with that(1) have "(r + 1) * ?w \<le> r' * ?w" by (intro mult_le_mono1) simp
      then show ?thesis by simp
    qed
    have "?d ! (r' * ?w + k) = bm_data m ! (r' * ?w + k)"
      using * assms that k by (auto simp: nth_append)
    with k that row_words_nth(1)[of r' m k] row_words_nth(1)[of r' m' k] len
    show "row_words m' r' ! k = row_words m r' ! k" by (simp add: m'_def)
  qed
  ultimately show ?thesis using pres by (intro exI[of _ m']) (simp add: m'_def)
qed

lemma bm_row_eq:
  "(r + 1) * bm_words_per_row m \<le> length (bm_data m) \<Longrightarrow> bm_row m r = Some (row_words m r)"
  by (simp add: bm_row_def slice_opt_def row_words_def add.commute)

section \<open>The iterator\<close>

lemma trailing_zeros_spec:
  assumes "w \<noteq> 0"
  shows "trailing_zeros w < 64" "bit w (trailing_zeros w)" "\<And>i. i < trailing_zeros w \<Longrightarrow> \<not> bit w i"
proof -
  from assms obtain n where n: "bit w n" by (metis bit_eqI bit_0_eq bot_apply bot_bool_def)
  then have "n < 64" using bit_imp_le_length[OF n] by simp
  with n have "trailing_zeros w < length [0..<64]"
    unfolding trailing_zeros_def by (intro takeWhile_shorter[of n]) auto
  then show lt: "trailing_zeros w < 64" by simp
  with nth_length_takeWhile[of "\<lambda>i. \<not> bit w i" "[0..<64]"] show "bit w (trailing_zeros w)"
    by (simp add: trailing_zeros_def)
  show "\<not> bit w i" if "i < trailing_zeros w" for i
    using nth_mem[of i "takeWhile (\<lambda>i. \<not> bit w i) [0..<64]"] that lt
    by (auto simp: trailing_zeros_def takeWhile_nth dest!: set_takeWhileD)
qed

lemma clear_lowest_bit:
  assumes "w \<noteq> 0"
  shows "bit (w AND (w - 1)) j \<longleftrightarrow> bit w j \<and> j \<noteq> trailing_zeros w"
proof -
  define n where "n = trailing_zeros w"
  note tz = trailing_zeros_spec[OF assms, folded n_def]
  define u where "u = w AND NOT (2 ^ n)"
  have u: "bit u i \<longleftrightarrow> bit w i \<and> i \<noteq> n" for i
    using tz by (auto simp: u_def bit_and_iff bit_not_iff bit_exp_iff dest: bit_imp_le_length)
  have "u + 2 ^ n = u OR 2 ^ n"
    by (rule disjunctive_add) (auto simp: u bit_exp_iff)
  also have "\<dots> = w"
    using tz by (intro bit_eqI) (auto simp: bit_or_iff u bit_exp_iff)
  finally have "w - 1 = u + (2 ^ n - 1)" by simp
  also have "\<dots> = u + mask n" by (simp add: mask_eq_exp_minus_1)
  also have "\<dots> = u OR mask n"
    using tz(3) by (intro disjunctive_add) (auto simp: u bit_mask_iff)
  finally have "w - 1 = u OR mask n" .
  then show ?thesis
    using tz(3)[of j] by (auto simp: bit_and_iff bit_or_iff u bit_mask_iff n_def[symmetric] intro: ccontr)
qed

lemma iter_next_decreases:
  "iter_next it = Some (i, it') \<Longrightarrow>
   (it', it) \<in> measures [\<lambda>it. length (it_words it) - it_word_index it, \<lambda>it. unat (it_current_word it)]"
proof (induction it rule: iter_next.induct)
  case (1 it)
  show ?case
  proof (cases "it_current_word it = 0")
    case False
    have "it_current_word it AND (it_current_word it - 1) \<le> it_current_word it - 1"
      by (rule word_and_le1)
    moreover have "it_current_word it - 1 < it_current_word it"
      using False by (simp add: word_less_nat_alt unat_minus_one unat_gt_0)
    ultimately have "it_current_word it AND (it_current_word it - 1) < it_current_word it" by simp
    moreover have "it' = it\<lparr>it_current_word := it_current_word it AND (it_current_word it - 1)\<rparr>"
      using "1.prems" False by (subst (asm) iter_next.simps) simp
    ultimately show ?thesis by (simp add: word_less_nat_alt)
  next
    case True
    then have "it_word_index it < length (it_words it)"
      using "1.prems" by (subst (asm) iter_next.simps) (simp split: if_splits)
    moreover from this have "iter_next (it\<lparr>it_current_word := it_words it ! it_word_index it,
        it_word_index := it_word_index it + 1\<rparr>) = Some (i, it')"
      using "1.prems" True by (subst (asm) iter_next.simps) simp
    ultimately show ?thesis using "1.IH" True by auto
  qed
qed

text \<open>Collecting the items of the iterator.\<close>

function iter_collect :: "bit_iter \<Rightarrow> nat list" where
  "iter_collect it = (case iter_next it of None \<Rightarrow> [] | Some (i, it') \<Rightarrow> i # iter_collect it')"
  by pat_completeness auto
termination
  by (relation "measures [\<lambda>it. length (it_words it) - it_word_index it, \<lambda>it. unat (it_current_word it)]")
    (rule wf_measures, rule iter_next_decreases, auto)

declare iter_collect.simps [simp del]

lemma filter_upt_first:
  assumes "P n" "n < m" "\<And>i. i < n \<Longrightarrow> \<not> P i"
  shows "filter P [0..<m] = n # filter (\<lambda>i. P i \<and> i \<noteq> n) [0..<m]"
proof -
  have split: "[0..<m] = [0..<n] @ n # [Suc n..<m]"
    using assms(2) by (metis less_imp_add_positive upt_add_eq_append upt_conv_Cons zero_le)
  have "filter P [0..<n] = []" "filter (\<lambda>i. P i \<and> i \<noteq> n) [0..<n] = []"
    using assms(3) by (auto simp: filter_empty_conv)
  moreover have "filter P [Suc n..<m] = filter (\<lambda>i. P i \<and> i \<noteq> n) [Suc n..<m]"
    by (rule filter_cong) auto
  ultimately show ?thesis using assms(1) by (simp add: split)
qed

lemma word_bits_cons:
  assumes "w \<noteq> 0"
  shows "filter (bit w) [0..<64] = trailing_zeros w # filter (bit (w AND (w - 1))) [0..<64]"
  using filter_upt_first[of "bit w" "trailing_zeros w" 64] trailing_zeros_spec[OF assms]
  by (simp add: clear_lowest_bit[OF assms] cong: filter_cong)

lemma word_bits_from:
  assumes "k < length ws"
  shows "filter (word_bit ws) [64 * k..<64 * length ws] =
    map (\<lambda>b. k * 64 + b) (filter (bit (ws ! k)) [0..<64])
    @ filter (word_bit ws) [64 * (k + 1)..<64 * length ws]"
proof -
  have "64 * (k + 1) \<le> 64 * length ws" using assms by (intro mult_le_mono2) simp
  then have "[64 * k..<64 * length ws] = [64 * k..<64 * k + 64] @ [64 * (k + 1)..<64 * length ws]"
    using upt_add_eq_append[of "64 * k" "64 * k + 64" "64 * length ws - (64 * k + 64)"]
    by (simp add: add.commute)
  moreover have "[64 * k..<64 * k + 64] = map (\<lambda>b. k * 64 + b) [0..<64]"
    using map_add_upt[of "64 * k" 64] by (simp add: add.commute mult.commute)
  moreover have "filter (\<lambda>b. word_bit ws (k * 64 + b)) [0..<64] = filter (bit (ws ! k)) [0..<64]"
    using assms by (intro filter_cong) (auto simp: word_bit_def)
  ultimately show ?thesis by (simp add: filter_map comp_def)
qed

lemma iter_next_some:
  "it_current_word it \<noteq> 0 \<Longrightarrow> iter_next it =
     Some ((it_word_index it - 1) * 64 + trailing_zeros (it_current_word it),
           it\<lparr>it_current_word := it_current_word it AND (it_current_word it - 1)\<rparr>)"
  by (subst iter_next.simps) simp

lemma iter_next_refill:
  "it_current_word it = 0 \<Longrightarrow> it_word_index it < length (it_words it) \<Longrightarrow> iter_next it =
     iter_next (it\<lparr>it_current_word := it_words it ! it_word_index it,
                   it_word_index := it_word_index it + 1\<rparr>)"
  by (subst iter_next.simps) simp

lemma iter_collect_refill:
  "it_current_word it = 0 \<Longrightarrow> it_word_index it < length (it_words it) \<Longrightarrow> iter_collect it =
     iter_collect (it\<lparr>it_current_word := it_words it ! it_word_index it,
                      it_word_index := it_word_index it + 1\<rparr>)"
  by (subst (1 2) iter_collect.simps) (simp add: iter_next_refill)

lemma iter_collect_eq:
  assumes "it_current_word it \<noteq> 0 \<longrightarrow> 0 < it_word_index it"
  shows "iter_collect it =
    map (\<lambda>b. (it_word_index it - 1) * 64 + b) (filter (bit (it_current_word it)) [0..<64])
    @ filter (word_bit (it_words it)) [64 * it_word_index it..<64 * length (it_words it)]"
  using assms
proof (induction it rule: wf_induct[OF wf_measures[of
    "[\<lambda>it. length (it_words it) - it_word_index it, \<lambda>it. unat (it_current_word it)]"]])
  case (1 it)
  note IH = "1.IH"[rule_format]
  consider (bit) "it_current_word it \<noteq> 0"
    | (refill) "it_current_word it = 0" "it_word_index it < length (it_words it)"
    | (finished) "it_current_word it = 0" "length (it_words it) \<le> it_word_index it" by fastforce
  then show ?case
  proof cases
    case bit
    note nx = iter_next_some[OF bit]
    let ?it = "it\<lparr>it_current_word := it_current_word it AND (it_current_word it - 1)\<rparr>"
    have "iter_collect it = ((it_word_index it - 1) * 64 + trailing_zeros (it_current_word it))
        # iter_collect ?it"
      by (subst iter_collect.simps) (simp add: nx)
    with IH[OF iter_next_decreases[OF nx]] "1.prems" bit show ?thesis
      by (simp add: word_bits_cons[OF bit])
  next
    case refill
    let ?it = "it\<lparr>it_current_word := it_words it ! it_word_index it,
        it_word_index := it_word_index it + 1\<rparr>"
    have "(?it, it) \<in> measures [\<lambda>it. length (it_words it) - it_word_index it,
        \<lambda>it. unat (it_current_word it)]" using refill by auto
    from IH[OF this] refill iter_collect_refill[OF refill] word_bits_from[OF refill(2)]
    show ?thesis by simp
  next
    case finished
    then have "iter_next it = None" by (subst iter_next.simps) simp
    with finished show ?thesis by (subst iter_collect.simps) simp
  qed
qed

lemma iter_over_words_eq:
  "iter_collect (iter_over_words ws) = filter (\<lambda>i. i \<in> members ws) [0..<64 * length ws]"
  by (subst iter_collect_eq) (simp_all add: iter_over_words_def)

lemma bs_iter_ones_eq: "iter_collect (bs_iter_ones s) = sorted_list_of_set (members (bs_words s))"
proof -
  have "set (iter_collect (bs_iter_ones s)) = members (bs_words s)"
    using members_bounded[of "bs_words s"] by (auto simp: bs_iter_ones_def iter_over_words_eq)
  moreover have "sorted (iter_collect (bs_iter_ones s))" "distinct (iter_collect (bs_iter_ones s))"
    by (simp_all add: bs_iter_ones_def iter_over_words_eq sorted_wrt_filter)
  ultimately show ?thesis by (metis sorted_list_of_set.idem_if_sorted_distinct)
qed

section \<open>Whole-set operations\<close>

lemma members_zip:
  assumes "length ws = length vs"
    and "\<And>w v n. n < 64 \<Longrightarrow> bit (f w v) n \<longleftrightarrow> P (bit w n) (bit v n)"
  shows "members (zip_update f ws vs) =
    {i. i < 64 * length ws \<and> P (i \<in> members ws) (i \<in> members vs)}"
  using assms by (auto simp: word_bit_def zip_update_nth word_index_less)

lemma members_empty_iff: "list_all (\<lambda>w. w = 0) ws \<longleftrightarrow> members ws = {}"
proof
  assume "list_all (\<lambda>w. w = 0) ws"
  then show "members ws = {}" by (auto simp: word_bit_def list_all_length)
next
  assume none: "members ws = {}"
  have "ws = replicate (length ws) 0"
    using none by (intro word_bit_ext) (auto simp: members_def)
  then have "\<forall>w \<in> set ws. w = 0" by (metis in_set_replicate)
  then show "list_all (\<lambda>w. w = 0) ws" by (simp add: list_all_iff)
qed

lemma members_inject: "length ws = length vs \<Longrightarrow> members ws = members vs \<longleftrightarrow> ws = vs"
  using word_bit_ext[of ws vs] by (auto simp: members_def)

lemma sum_count_ones:
  "k \<le> length ws \<Longrightarrow>
   sum_list (map count_ones (drop k ws)) = length (filter (word_bit ws) [64 * k..<64 * length ws])"
proof (induction k rule: inc_induct)
  case base
  then show ?case by simp
next
  case (step k)
  then have "drop k ws = ws ! k # drop (Suc k) ws" by (simp add: Cons_nth_drop_Suc)
  with step word_bits_from[of k ws] show ?case by (simp add: count_ones_def)
qed

lemma card_members: "card (members ws) = sum_list (map count_ones ws)"
proof -
  have "members ws = set (filter (word_bit ws) [0..<64 * length ws])"
    using members_bounded[of ws] by auto
  then show ?thesis using sum_count_ones[of 0 ws]
    by (metis distinct_card distinct_filter distinct_upt drop_0 mult_zero_right zero_le)
qed

section \<open>Properties\<close>

text \<open>C39: The operations of \<open>DenseBitSet\<close> are those of a set of naturals below its capacity:
  insertion and removal panic exactly outside the capacity, and the word-wise union, difference,
  intersection and copy compute the set operations on sets of the same size.\<close>

theorem bit_set_implements_sets:
  "members (bs_words (bs_new n)) = {} \<and> n \<le> 64 * length (bs_words (bs_new n))
   \<and> (bs_contains s i \<longleftrightarrow> i \<in> members (bs_words s))
   \<and> (bs_is_empty s \<longleftrightarrow> members (bs_words s) = {})
   \<and> members (bs_words (bs_clear s)) = {}
   \<and> (if i < 64 * length (bs_words s)
      then \<exists>t u. bs_insert s i = Some t \<and> members (bs_words t) = insert i (members (bs_words s))
         \<and> bs_remove s i = Some u \<and> members (bs_words u) = members (bs_words s) - {i}
      else bs_insert s i = None \<and> bs_remove s i = None)
   \<and> (if length (bs_words s) = length (bs_words t)
      then members (bs_words (bs_union_with s t)) = members (bs_words s) \<union> members (bs_words t)
        \<and> members (bs_words (bs_subtract_with s t)) = members (bs_words s) - members (bs_words t)
        \<and> members (bs_words (bs_intersect_with_words s (bs_words t)))
            = members (bs_words s) \<inter> members (bs_words t)
        \<and> bs_copy_from s t = Some t
      else bs_copy_from s t = None)"
proof -
  have new: "n \<le> 64 * length (bs_words (bs_new n))"
    using mult_div_mod_eq[of 64 n] mod_less_divisor[of 64 n]
    by (cases "n mod 64 = 0") (simp_all only: bs_new_def div_ceil_def, simp_all)
  have cap: "members (bs_words s) \<subseteq> {..<64 * length (bs_words s)}" for s by (rule members_bounded)
  have ops: "members (bs_words (bs_union_with s t)) = members (bs_words s) \<union> members (bs_words t)"
      "members (bs_words (bs_subtract_with s t)) = members (bs_words s) - members (bs_words t)"
      "members (bs_words (bs_intersect_with_words s (bs_words t)))
        = members (bs_words s) \<inter> members (bs_words t)"
      "bs_copy_from s t = Some t"
    if len: "length (bs_words s) = length (bs_words t)"
  proof -
    show "members (bs_words (bs_union_with s t)) = members (bs_words s) \<union> members (bs_words t)"
      unfolding bs_union_with_def bs_union_with_words_def dense_bit_set.select_convs
      using cap[of s] cap[of t] len
      by (subst members_zip[where P = "(\<or>)"]) (auto simp: bit_or_iff simp del: members_iff)
    show "members (bs_words (bs_subtract_with s t)) = members (bs_words s) - members (bs_words t)"
      unfolding bs_subtract_with_def bs_subtract_with_words_def dense_bit_set.select_convs
      using cap[of s] cap[of t] len
      by (subst members_zip[where P = "\<lambda>a b. a \<and> \<not> b"])
        (auto simp: bit_and_iff bit_not_iff simp del: members_iff)
    show "members (bs_words (bs_intersect_with_words s (bs_words t)))
        = members (bs_words s) \<inter> members (bs_words t)"
      unfolding bs_intersect_with_words_def dense_bit_set.select_convs
      using cap[of s] cap[of t] len
      by (subst members_zip[where P = "(\<and>)"]) (auto simp: bit_and_iff simp del: members_iff)
    show "bs_copy_from s t = Some t"
      using len by (simp add: bs_copy_from_def bs_copy_from_words_def)
  qed
  have "i < 64 * length (bs_words s) \<Longrightarrow> \<exists>t u. bs_insert s i = Some t
      \<and> members (bs_words t) = insert i (members (bs_words s))
      \<and> bs_remove s i = Some u \<and> members (bs_words u) = members (bs_words s) - {i}"
    using dense.ins_ok[of i s] dense.rem_ok[of i s] by blast
  with new ops show ?thesis
    by (auto simp: bs_contains_eq bs_is_empty_def members_empty_iff bs_clear_def bs_new_def
        bs_copy_from_def bs_copy_from_words_def bs_insert_eq bs_remove_eq members_def
        simp del: members_iff)
qed

text \<open>The iterator of a bit set yields its members once each, in ascending order.\<close>

theorem iter_ones_lists_members:
  "iter_collect (bs_iter_ones s) = sorted_list_of_set (members (bs_words s))"
  by (rule bs_iter_ones_eq)

text \<open>Inserting into a row of a matrix changes that row only, and replacing a row reports
  whether the set it holds has changed.\<close>

theorem matrix_rows_are_independent:
  assumes "wf_matrix m" "r < bm_rows m" "i < 64 * bm_words_per_row m" "length src = bm_words_per_row m"
  shows "\<exists>m' m''. bm_insert m r i = Some m' \<and> wf_matrix m'
    \<and> members (row_words m' r) = insert i (members (row_words m r))
    \<and> bm_replace_row_if_changed m r src = Some (members (row_words m r) \<noteq> members src, m'')
    \<and> wf_matrix m'' \<and> row_words m'' r = src
    \<and> (\<forall>r' < bm_rows m. r' \<noteq> r \<longrightarrow>
         row_words m' r' = row_words m r' \<and> row_words m'' r' = row_words m r')"
proof -
  have fits: "(r' + 1) * bm_words_per_row m \<le> length (bm_data m)" if "r' < bm_rows m" for r'
    using assms(1) that unfolding wf_matrix_def by (metis Suc_eq_plus1 Suc_leI mult_le_mono1)
  have "i < row_cap m r" using assms fits[OF assms(2)] by (simp add: row_cap_def)
  from bm_insert_eq[OF this] fits obtain m' where m': "bm_insert m r i = Some m'" "wf_matrix m'"
    "members (row_words m' r) = insert i (members (row_words m r))"
    "\<forall>r' < bm_rows m. r' \<noteq> r \<longrightarrow> row_words m' r' = row_words m r'"
    using assms(1) by (auto simp: wf_matrix_def)
  have changed: "members (row_words m r) \<noteq> members src \<longleftrightarrow> row_words m r \<noteq> src"
    using row_words_length[OF fits[OF assms(2)]] assms(4) by (simp add: members_inject)
  obtain m'' where m'': "bm_replace_row_if_changed m r src = Some (row_words m r \<noteq> src, m'')"
    "wf_matrix m''" "row_words m'' r = src"
    "\<forall>r' < bm_rows m. r' \<noteq> r \<longrightarrow> row_words m'' r' = row_words m r'"
  proof (cases "row_words m r = src")
    case True
    with that[of m] assms(1) show thesis
      by (simp add: bm_replace_row_if_changed_def bm_row_eq[OF fits[OF assms(2)]])
  next
    case False
    from bm_write_row_eq[OF fits[OF assms(2)] assms(4)] obtain m'' where
      "bm_write_row m r src = Some m''" "wf_matrix m''" "row_words m'' r = src"
      "\<forall>r' < bm_rows m. r' \<noteq> r \<longrightarrow> row_words m'' r' = row_words m r'"
      using assms(1) fits by (auto simp: wf_matrix_def)
    with that[of m''] False show thesis
      by (simp add: bm_replace_row_if_changed_def bm_row_eq[OF fits[OF assms(2)]])
  qed
  from m' m''(2-4) m''(1)[folded changed] show ?thesis
    by (intro exI[of _ m'] exI[of _ m'']) (simp del: members_iff)
qed

theorem matrix_rows_are_independent_witness:
  "\<exists>m'. bm_insert (bm_zeros 3 70) 1 69 = Some m' \<and> members (row_words m' 1) = {69}"
proof -
  have "wf_matrix (bm_zeros 3 70)" "1 < bm_rows (bm_zeros 3 70)"
    "69 < 64 * bm_words_per_row (bm_zeros 3 70)" "length [0, 0] = bm_words_per_row (bm_zeros 3 70)"
    by code_simp+
  from matrix_rows_are_independent[OF this]
  have "\<exists>m'. bm_insert (bm_zeros 3 70) 1 69 = Some m'
      \<and> members (row_words m' 1) = insert 69 (members (row_words (bm_zeros 3 70) 1))" by blast
  moreover have "row_words (bm_zeros 3 70) 1 = replicate 2 0" by code_simp
  ultimately show ?thesis by (simp add: members_def)
qed

text \<open>Union and difference of rule sets of the full width.\<close>

lemma rs_union_members:
  assumes "length (rs_words s) = word_count" "length (rs_words t) = word_count"
  shows "length (rs_words (rs_union s t)) = word_count"
    and "members (rs_words (rs_union s t)) = members (rs_words s) \<union> members (rs_words t)"
  using assms by (auto simp: rs_union_def word_bit_def bit_or_iff)

lemma rs_subtract_members:
  assumes "length (rs_words s) = word_count" "length (rs_words t) = word_count"
  shows "length (rs_words (rs_subtract s t)) = word_count"
    and "members (rs_words (rs_subtract s t)) = members (rs_words s) - members (rs_words t)"
  using assms by (auto simp: rs_subtract_def word_bit_def bit_and_iff bit_not_iff)

lemma rs_from_rules_members:
  assumes "set rs \<subseteq> {..<rule_count}"
  shows "\<exists>s. rs_from_rules rs = Some s \<and> length (rs_words s) = word_count \<and> members (rs_words s) = set rs"
proof -
  have "rule_count \<le> 64 * length (rs_words rs_empty)" by code_simp
  with assms have "set rs \<subseteq> {..<64 * length (rs_words rs_empty)}" by auto
  moreover have "members (rs_words rs_empty) = {}" "length (rs_words rs_empty) = word_count" by (auto simp: rs_empty_def)
  ultimately show ?thesis
    using rules.insert_all[of rs rs_empty] unfolding rs_from_rules_def by (auto simp del: members_iff)
qed

text \<open>The rule set built from rules below \<open>Rule::COUNT\<close> is built without panic, contains just
  these rules, iterates over them in order, and counts them.\<close>

theorem rule_set_holds_its_rules:
  assumes "set rs \<subseteq> {..<rule_count}"
  shows "\<exists>s. rs_from_rules rs = Some s \<and> rs_iter s = sorted_list_of_set (set rs)
    \<and> rs_len s = card (set rs) \<and> (rs_is_empty s \<longleftrightarrow> rs = [])"
proof -
  obtain s where s: "rs_from_rules rs = Some s" "members (rs_words s) = set rs"
    using rs_from_rules_members[OF assms] by blast
  have "rs_iter s = filter (\<lambda>r. r \<in> set rs) [0..<rule_count]"
    by (simp add: rs_iter_def rs_contains_eq s(2) del: members_iff)
  also have "\<dots> = sorted_list_of_set (set rs)"
    using assms
    by (intro sorted_distinct_set_unique) (auto simp: sorted_wrt_filter)
  finally have "rs_iter s = sorted_list_of_set (set rs)" .
  with s show ?thesis
    by (simp add: rs_len_def rs_is_empty_def members_empty_iff flip: card_members)
qed

theorem rule_set_holds_its_rules_witness:
  "\<exists>s. rs_from_rules [320, 0, 64, 0] = Some s \<and> rs_len s = 3"
proof -
  have "set [320, 0, 64, 0] \<subseteq> {..<rule_count}" by (simp add: rule_count_def)
  from rule_set_holds_its_rules[OF this] show ?thesis by (auto simp: card_insert_if)
qed

end
