(* ===== verification/Recorded_Program.thy ===== *)
theory Recorded_Program
  imports Source_Span
begin

text \<open>
  Model of \<open>crates/shucked-semantic/src/cfg/recorded.rs\<close>: the compact command stream that semantic
  traversal records and that CFG construction, script-termination reasoning and zsh option analysis
  read.  The stream is a set of flat stores; a compound command refers to its parts by ranges of a
  store, and to other commands by their index.

  Identifiers (\<open>CommandId\<close>, \<open>ScopeId\<close>, \<open>BindingId\<close>, ...) are the naturals behind their \<open>u32\<close>.
  Building an identifier or a range whose number does not fit in \<open>u32\<close> panics, and so does reading
  outside a store.  A hash map that the code iterates over is the list of its entries in iteration
  order; one that it only looks up is a partial map.  Of the source-closure fields of the program and
  of a command info (path templates, loop words) nothing here depends, and they are left out.
\<close>

type_synonym command_id = nat
type_synonym scope_id = nat
type_synonym binding_id = nat
type_synonym reference_id = nat
type_synonym info_id = nat

section \<open>Command kinds\<close>

datatype builtin_command_kind = BBreak | BContinue | BReturn | BExit

datatype compound_command_kind =
    CKIf | CKFor | CKRepeat | CKForeach | CKArithmeticFor | CKWhile | CKUntil | CKCase | CKSelect
  | CKSubshell | CKBraceGroup | CKArithmetic | CKTime | CKConditional | CKCoproc | CKAlways

datatype command_kind =
    CKSimple | CKBuiltin builtin_command_kind | CKDecl | CKBinary
  | CKCompound compound_command_kind | CKFunction | CKAnonymousFunction

section \<open>Ranges of a store\<close>

record recorded_range =
  rg_start :: nat
  rg_len :: nat

definition u32_max :: nat where
  "u32_max = 2 ^ 32 - 1"

definition range_empty :: recorded_range where
  "range_empty = \<lparr>rg_start = 0, rg_len = 0\<rparr>"

definition recorded_range_new :: "nat \<Rightarrow> nat \<Rightarrow> recorded_range option" where
  "recorded_range_new start len =
     (if start \<le> u32_max \<and> len \<le> u32_max then Some \<lparr>rg_start = start, rg_len = len\<rparr> else None)"

definition recorded_range_is_empty :: "recorded_range \<Rightarrow> bool" where
  "recorded_range_is_empty r \<longleftrightarrow> rg_len r = 0"

definition range_items :: "recorded_range \<Rightarrow> 'a list \<Rightarrow> 'a list option" where
  "range_items r store = slice_opt store (rg_start r) (rg_len r)"

section \<open>Recorded commands\<close>

record flow_context =
  fc_in_function :: bool
  fc_loop_depth :: nat
  fc_in_subshell :: bool
  fc_in_block :: bool
  fc_exit_status_checked :: bool

datatype recorded_command_kind =
    Linear
  | Break nat
  | Continue nat
  | Return
  | Exit
  | CList command_id recorded_range
  | CIf recorded_range recorded_range recorded_range recorded_range
      \<comment> \<open>condition, then branch, elif branches, else branch\<close>
  | CWhile recorded_range recorded_range
  | CUntil recorded_range recorded_range
  | CFor recorded_range
  | CSelect recorded_range
  | CArithmeticFor recorded_range
  | CCase recorded_range
  | CBraceGroup recorded_range
  | CAlways recorded_range recorded_range
  | CSubshell recorded_range
  | CPipeline recorded_range

record recorded_command =
  rc_negated :: bool
  rc_background :: bool
  rc_span :: span
  rc_syntax_span :: span
  rc_syntax_kind :: "command_kind option"
  rc_scope :: "scope_id option"
  rc_flow_context :: "flow_context option"
  rc_nested_regions :: recorded_range
  rc_command_info :: "info_id option"
  rc_kind :: recorded_command_kind

record isolated_region =
  ir_scope :: scope_id
  ir_commands :: recorded_range

datatype case_terminator = CTBreak | CTFallThrough | CTContinue | CTContinueMatching

record recorded_case_arm =
  ca_terminator :: case_terminator
  ca_matches_anything :: bool
  ca_commands :: recorded_range

datatype pipeline_operator_kind = Pipe | PipeAll

record pipeline_operator =
  po_operator :: pipeline_operator_kind
  po_span :: span

record recorded_pipeline_segment =
  ps_operator_before :: "pipeline_operator option"
  ps_scope :: scope_id
  ps_command :: command_id

datatype recorded_list_operator = And | Or

record recorded_list_item =
  lt_operator :: recorded_list_operator
  lt_operator_span :: span
  lt_command :: command_id

record recorded_elif_branch =
  eb_condition :: recorded_range
  eb_body :: recorded_range

record statement_sequence_command =
  ss_body_span :: span
  ss_stmt_span :: span

datatype zsh_emulation_mode = EmZsh | EmSh | EmKsh | EmCsh

datatype zsh_option_update =
    Named string bool
  | UnknownName
  | LocalOptions bool

datatype zsh_command_effect =
    Emulate zsh_emulation_mode bool
  | EmulateUnknown bool
  | SetOptions "zsh_option_update list"

record recorded_command_info =
  ci_static_callee :: "string option"
  ci_dynamic_name_span :: "span option"
  ci_static_args :: "string option list"
  ci_zsh_effects :: "zsh_command_effect list"

section \<open>The program\<close>

record recorded_program =
  rp_file_commands :: recorded_range
  rp_function_bodies :: "(scope_id \<times> recorded_range) list"
  rp_commands :: "recorded_command list"
  rp_command_sequence_items :: "command_id list"
  rp_statement_sequence_commands :: "statement_sequence_command list"
  rp_isolated_regions :: "isolated_region list"
  rp_case_arms :: "recorded_case_arm list"
  rp_pipeline_segments :: "recorded_pipeline_segment list"
  rp_list_items :: "recorded_list_item list"
  rp_elif_branches :: "recorded_elif_branch list"
  rp_command_info_records :: "recorded_command_info list"
  rp_command_infos :: "span_key \<rightharpoonup> info_id"
  rp_function_body_scopes :: "(binding_id \<times> scope_id) list"
  rp_call_command_spans :: "span_key \<rightharpoonup> span"

definition program_default :: recorded_program where
  "program_default =
     \<lparr>rp_file_commands = range_empty, rp_function_bodies = [], rp_commands = [],
      rp_command_sequence_items = [], rp_statement_sequence_commands = [],
      rp_isolated_regions = [], rp_case_arms = [], rp_pipeline_segments = [], rp_list_items = [],
      rp_elif_branches = [], rp_command_info_records = [], rp_command_infos = Map.empty,
      rp_function_body_scopes = [], rp_call_command_spans = Map.empty\<rparr>"

definition function_body :: "recorded_program \<Rightarrow> scope_id \<Rightarrow> recorded_range" where
  "function_body p scope =
     (case map_of (rp_function_bodies p) scope of Some r \<Rightarrow> r | None \<Rightarrow> range_empty)"

text \<open>Inserting into a hash map kept as its entries: an existing key keeps its place.\<close>

fun assoc_insert :: "'k \<Rightarrow> 'v \<Rightarrow> ('k \<times> 'v) list \<Rightarrow> ('k \<times> 'v) list" where
  "assoc_insert k v [] = [(k, v)]"
| "assoc_insert k v ((k', v') # es) = (if k' = k then (k, v) # es else (k', v') # assoc_insert k v es)"

definition set_function_body ::
  "recorded_program \<Rightarrow> scope_id \<Rightarrow> recorded_range \<Rightarrow> recorded_program" where
  "set_function_body p scope r =
     p\<lparr>rp_function_bodies := assoc_insert scope r (rp_function_bodies p)\<rparr>"

definition set_file_commands :: "recorded_program \<Rightarrow> recorded_range \<Rightarrow> recorded_program" where
  "set_file_commands p r = p\<lparr>rp_file_commands := r\<rparr>"

definition command_at :: "recorded_program \<Rightarrow> command_id \<Rightarrow> recorded_command option" where
  "command_at p c = nth_opt (rp_commands p) c"

definition command_info_at :: "recorded_program \<Rightarrow> info_id \<Rightarrow> recorded_command_info option" where
  "command_info_at p i = nth_opt (rp_command_info_records p) i"

definition command_info_for_span ::
  "recorded_program \<Rightarrow> span \<Rightarrow> recorded_command_info option option" where
  "command_info_for_span p s =
     (case rp_command_infos p (span_key s) of
        None \<Rightarrow> Some None
      | Some i \<Rightarrow> map_option Some (command_info_at p i))"

definition commands_in :: "recorded_program \<Rightarrow> recorded_range \<Rightarrow> command_id list option" where
  "commands_in p r = range_items r (rp_command_sequence_items p)"

definition nested_regions :: "recorded_program \<Rightarrow> recorded_range \<Rightarrow> isolated_region list option" where
  "nested_regions p r = range_items r (rp_isolated_regions p)"

definition case_arms :: "recorded_program \<Rightarrow> recorded_range \<Rightarrow> recorded_case_arm list option" where
  "case_arms p r = range_items r (rp_case_arms p)"

definition pipeline_segments ::
  "recorded_program \<Rightarrow> recorded_range \<Rightarrow> recorded_pipeline_segment list option" where
  "pipeline_segments p r = range_items r (rp_pipeline_segments p)"

definition list_items :: "recorded_program \<Rightarrow> recorded_range \<Rightarrow> recorded_list_item list option" where
  "list_items p r = range_items r (rp_list_items p)"

definition elif_branches :: "recorded_program \<Rightarrow> recorded_range \<Rightarrow> recorded_elif_branch list option" where
  "elif_branches p r = range_items r (rp_elif_branches p)"

section \<open>Recording\<close>

text \<open>Appending items to a store; an empty batch leaves the store alone.\<close>

definition push_range :: "'a list \<Rightarrow> 'a list \<Rightarrow> ('a list \<times> recorded_range) option" where
  "push_range store items =
     (if items = [] then Some (store, range_empty)
      else do {
        let store' = store @ items;
        r \<leftarrow> recorded_range_new (length store) (length store' - length store);
        Some (store', r) })"

definition push_command ::
  "recorded_program \<Rightarrow> recorded_command \<Rightarrow> (recorded_program \<times> command_id) option" where
  "push_command p c =
     (let i = length (rp_commands p)
      in if i \<le> u32_max then Some (p\<lparr>rp_commands := rp_commands p @ [c]\<rparr>, i) else None)"

definition push_command_info ::
  "recorded_program \<Rightarrow> recorded_command_info \<Rightarrow> (recorded_program \<times> info_id) option" where
  "push_command_info p info =
     (let i = length (rp_command_info_records p)
      in if i \<le> u32_max
         then Some (p\<lparr>rp_command_info_records := rp_command_info_records p @ [info]\<rparr>, i) else None)"

definition push_command_ids ::
  "recorded_program \<Rightarrow> command_id list \<Rightarrow> (recorded_program \<times> recorded_range) option" where
  "push_command_ids p cs = do {
     (store, r) \<leftarrow> push_range (rp_command_sequence_items p) cs;
     Some (p\<lparr>rp_command_sequence_items := store\<rparr>, r) }"

definition push_regions ::
  "recorded_program \<Rightarrow> isolated_region list \<Rightarrow> (recorded_program \<times> recorded_range) option" where
  "push_regions p rs = do {
     (store, r) \<leftarrow> push_range (rp_isolated_regions p) rs;
     Some (p\<lparr>rp_isolated_regions := store\<rparr>, r) }"

definition push_case_arms ::
  "recorded_program \<Rightarrow> recorded_case_arm list \<Rightarrow> (recorded_program \<times> recorded_range) option" where
  "push_case_arms p arms = do {
     (store, r) \<leftarrow> push_range (rp_case_arms p) arms;
     Some (p\<lparr>rp_case_arms := store\<rparr>, r) }"

definition push_pipeline_segments ::
  "recorded_program \<Rightarrow> recorded_pipeline_segment list \<Rightarrow> (recorded_program \<times> recorded_range) option" where
  "push_pipeline_segments p ss = do {
     (store, r) \<leftarrow> push_range (rp_pipeline_segments p) ss;
     Some (p\<lparr>rp_pipeline_segments := store\<rparr>, r) }"

definition push_list_items ::
  "recorded_program \<Rightarrow> recorded_list_item list \<Rightarrow> (recorded_program \<times> recorded_range) option" where
  "push_list_items p is = do {
     (store, r) \<leftarrow> push_range (rp_list_items p) is;
     Some (p\<lparr>rp_list_items := store\<rparr>, r) }"

definition push_elif_branches ::
  "recorded_program \<Rightarrow> recorded_elif_branch list \<Rightarrow> (recorded_program \<times> recorded_range) option" where
  "push_elif_branches p bs = do {
     (store, r) \<leftarrow> push_range (rp_elif_branches p) bs;
     Some (p\<lparr>rp_elif_branches := store\<rparr>, r) }"

definition record_command ::
  "recorded_program \<Rightarrow> span \<Rightarrow> isolated_region list \<Rightarrow> recorded_command_kind
    \<Rightarrow> (recorded_program \<times> command_id) option" where
  "record_command p s regions kind = do {
     (p, r) \<leftarrow> push_regions p regions;
     push_command p
       \<lparr>rc_negated = False, rc_background = False, rc_span = s, rc_syntax_span = s,
        rc_syntax_kind = None, rc_scope = None, rc_flow_context = None, rc_nested_regions = r,
        rc_command_info = None, rc_kind = kind\<rparr> }"

definition prepend_nested_regions ::
  "recorded_program \<Rightarrow> command_id \<Rightarrow> isolated_region list \<Rightarrow> recorded_program option" where
  "prepend_nested_regions p c regions =
     (if regions = [] then Some p
      else do {
        cmd \<leftarrow> command_at p c;
        existing \<leftarrow> nested_regions p (rc_nested_regions cmd);
        (p, r) \<leftarrow> push_regions p (regions @ existing);
        cmds \<leftarrow> update_opt (rp_commands p) c (cmd\<lparr>rc_nested_regions := r\<rparr>);
        Some (p\<lparr>rp_commands := cmds\<rparr>) })"

section \<open>Recorded ranges read back what was recorded\<close>

lemma range_items_push:
  assumes "push_range store items = Some (store', r)"
  shows "range_items r store' = Some items"
    and "range_items q store = Some xs \<Longrightarrow> range_items q store' = Some xs"
  using assms
  by (auto simp: push_range_def range_items_def slice_opt_def range_empty_def recorded_range_new_def
      Let_def split: if_splits bind_splits)

lemma range_items_in:
  "rg_start r + rg_len r \<le> length store \<Longrightarrow>
   range_items r store = Some (take (rg_len r) (drop (rg_start r) store))"
  by (simp add: range_items_def slice_opt_def)

lemma range_items_Some_iff: "(\<exists>xs. range_items r store = Some xs) \<longleftrightarrow> rg_start r + rg_len r \<le> length store"
  by (simp add: range_items_def slice_opt_def)

lemma range_items_empty_iff: "range_items r store = Some xs \<Longrightarrow> xs = [] \<longleftrightarrow> recorded_range_is_empty r"
  by (auto simp: range_items_def slice_opt_def recorded_range_is_empty_def split: if_splits)

section \<open>Well-formed programs\<close>

text \<open>The commands a command refers to directly; \<open>None\<close> when one of its ranges is out of its store.\<close>

fun concat_opt :: "'a list option list \<Rightarrow> 'a list option" where
  "concat_opt [] = Some []"
| "concat_opt (x # xs) = do { a \<leftarrow> x; b \<leftarrow> concat_opt xs; Some (a @ b) }"

definition kind_children :: "recorded_program \<Rightarrow> recorded_command_kind \<Rightarrow> command_id list option" where
  "kind_children p k = (case k of
     CList first rest \<Rightarrow> do { is \<leftarrow> list_items p rest; Some (first # map lt_command is) }
   | CIf c t e l \<Rightarrow> do {
       bs \<leftarrow> elif_branches p e;
       concat_opt ([commands_in p c, commands_in p t]
         @ map (\<lambda>b. concat_opt [commands_in p (eb_condition b), commands_in p (eb_body b)]) bs
         @ [commands_in p l]) }
   | CWhile c b \<Rightarrow> concat_opt [commands_in p c, commands_in p b]
   | CUntil c b \<Rightarrow> concat_opt [commands_in p c, commands_in p b]
   | CFor b \<Rightarrow> commands_in p b
   | CSelect b \<Rightarrow> commands_in p b
   | CArithmeticFor b \<Rightarrow> commands_in p b
   | CCase a \<Rightarrow> do { arms \<leftarrow> case_arms p a; concat_opt (map (\<lambda>arm. commands_in p (ca_commands arm)) arms) }
   | CBraceGroup b \<Rightarrow> commands_in p b
   | CAlways b a \<Rightarrow> concat_opt [commands_in p b, commands_in p a]
   | CSubshell b \<Rightarrow> commands_in p b
   | CPipeline s \<Rightarrow> do { ss \<leftarrow> pipeline_segments p s; Some (map ps_command ss) }
   | _ \<Rightarrow> Some [])"

definition command_children :: "recorded_program \<Rightarrow> recorded_command \<Rightarrow> command_id list option" where
  "command_children p c = do {
     ks \<leftarrow> kind_children p (rc_kind c);
     rs \<leftarrow> nested_regions p (rc_nested_regions c);
     ns \<leftarrow> concat_opt (map (\<lambda>r. commands_in p (ir_commands r)) rs);
     Some (ks @ ns) }"

text \<open>
  A rank witnesses that the stream is a forest of finite depth: a command refers to recorded commands
  of lower rank only.  (Traversal does not always record children first, so the index of a command is
  no such rank.)
\<close>

definition ranked :: "(command_id \<Rightarrow> nat) \<Rightarrow> recorded_program \<Rightarrow> bool" where
  "ranked rank p \<longleftrightarrow>
     list_all (\<lambda>i. case command_children p (rp_commands p ! i) of
         None \<Rightarrow> False
       | Some cs \<Rightarrow> list_all (\<lambda>c. c < length (rp_commands p) \<and> rank c < rank i) cs)
       [0..<length (rp_commands p)]"

definition range_ok :: "recorded_program \<Rightarrow> recorded_range \<Rightarrow> bool" where
  "range_ok p r = (case commands_in p r of
     None \<Rightarrow> False | Some cs \<Rightarrow> list_all (\<lambda>c. c < length (rp_commands p)) cs)"

definition wf_program :: "(command_id \<Rightarrow> nat) \<Rightarrow> recorded_program \<Rightarrow> bool" where
  "wf_program rank p \<longleftrightarrow> ranked rank p \<and> range_ok p (rp_file_commands p)
     \<and> list_all (\<lambda>(_, r). range_ok p r) (rp_function_bodies p)"

text \<open>A range whose commands all have rank below a bound.\<close>

definition below :: "(command_id \<Rightarrow> nat) \<Rightarrow> nat \<Rightarrow> recorded_program \<Rightarrow> recorded_range \<Rightarrow> bool" where
  "below rank n p r \<longleftrightarrow>
     (\<exists>cs. commands_in p r = Some cs \<and> (\<forall>c \<in> set cs. c < length (rp_commands p) \<and> rank c < n))"

lemma concat_opt_eq: "concat_opt xs = (if None \<in> set xs then None else Some (concat (map the xs)))"
  by (induction xs) (auto split: bind_splits option.splits)

lemma command_children_ranked:
  assumes "ranked rank p" "c < length (rp_commands p)"
  shows "\<exists>cs. command_children p (rp_commands p ! c) = Some cs
    \<and> (\<forall>d \<in> set cs. d < length (rp_commands p) \<and> rank d < rank c)"
proof -
  have "c \<in> set [0..<length (rp_commands p)]" using assms(2) by simp
  with assms(1) show ?thesis
    unfolding ranked_def list_all_iff by (auto split: option.splits dest: bspec)
qed

text \<open>What a rank gives for every kind of command: its parts are in their stores and rank lower.\<close>

lemma ranked_parts:
  assumes "ranked rank p" "c < length (rp_commands p)" "cmd = rp_commands p ! c"
  shows "\<exists>rs. nested_regions p (rc_nested_regions cmd) = Some rs
      \<and> (\<forall>r \<in> set rs. below rank (rank c) p (ir_commands r))"
    and "rc_kind cmd = CList f r \<Longrightarrow> f < length (rp_commands p) \<and> rank f < rank c
      \<and> (\<exists>is. list_items p r = Some is \<and> (\<forall>i \<in> set is.
           lt_command i < length (rp_commands p) \<and> rank (lt_command i) < rank c))"
    and "rc_kind cmd = CIf a t e l \<Longrightarrow> below rank (rank c) p a \<and> below rank (rank c) p t
      \<and> below rank (rank c) p l \<and> (\<exists>bs. elif_branches p e = Some bs \<and> (\<forall>b \<in> set bs.
           below rank (rank c) p (eb_condition b) \<and> below rank (rank c) p (eb_body b)))"
    and "rc_kind cmd \<in> {CWhile a b, CUntil a b, CAlways a b} \<Longrightarrow>
      below rank (rank c) p a \<and> below rank (rank c) p b"
    and "rc_kind cmd \<in> {CFor b, CSelect b, CArithmeticFor b, CBraceGroup b, CSubshell b} \<Longrightarrow>
      below rank (rank c) p b"
    and "rc_kind cmd = CCase r \<Longrightarrow> \<exists>arms. case_arms p r = Some arms \<and>
      (\<forall>arm \<in> set arms. below rank (rank c) p (ca_commands arm))"
    and "rc_kind cmd = CPipeline r \<Longrightarrow> \<exists>ss. pipeline_segments p r = Some ss \<and> (\<forall>s \<in> set ss.
      ps_command s < length (rp_commands p) \<and> rank (ps_command s) < rank c)"
proof -
  obtain cs where cs: "command_children p cmd = Some cs"
    and lower: "\<And>d. d \<in> set cs \<Longrightarrow> d < length (rp_commands p) \<and> rank d < rank c"
    using command_children_ranked[OF assms(1,2)] assms(3) by blast
  then obtain ks rs ns where ks: "kind_children p (rc_kind cmd) = Some ks"
    and rs: "nested_regions p (rc_nested_regions cmd) = Some rs"
    and ns: "concat_opt (map (\<lambda>r. commands_in p (ir_commands r)) rs) = Some ns" and "cs = ks @ ns"
    by (auto simp: command_children_def split: bind_splits)
  then have lk: "\<And>d. d \<in> set ks \<Longrightarrow> d < length (rp_commands p) \<and> rank d < rank c"
    and ln: "\<And>d. d \<in> set ns \<Longrightarrow> d < length (rp_commands p) \<and> rank d < rank c"
    using lower by auto
  have part: "below rank (rank c) p r"
    if all: "concat_opt xs = Some ys" and elem: "commands_in p r \<in> set xs"
      and lower: "\<And>d. d \<in> set ys \<Longrightarrow> d < length (rp_commands p) \<and> rank d < rank c" for xs ys r
  proof -
    obtain ds where ds: "commands_in p r = Some ds"
      using all elem by (cases "commands_in p r") (auto simp: concat_opt_eq split: if_splits)
    have "the (commands_in p r) = ds" using ds by simp
    then have "set ds \<subseteq> set ys"
      using all elem by (auto simp: concat_opt_eq split: if_splits)
    with ds lower show ?thesis by (auto simp: below_def)
  qed
  show "\<exists>rs. nested_regions p (rc_nested_regions cmd) = Some rs
      \<and> (\<forall>r \<in> set rs. below rank (rank c) p (ir_commands r))"
    using rs part[OF ns] ln by auto
  note ks' = ks[unfolded kind_children_def]
  show "f < length (rp_commands p) \<and> rank f < rank c
      \<and> (\<exists>is. list_items p r = Some is \<and> (\<forall>i \<in> set is.
           lt_command i < length (rp_commands p) \<and> rank (lt_command i) < rank c))"
    if "rc_kind cmd = CList f r"
    using ks' lk that by (auto split: bind_splits)
  show "below rank (rank c) p a \<and> below rank (rank c) p t
      \<and> below rank (rank c) p l \<and> (\<exists>bs. elif_branches p e = Some bs \<and> (\<forall>b \<in> set bs.
           below rank (rank c) p (eb_condition b) \<and> below rank (rank c) p (eb_body b)))"
    if kind: "rc_kind cmd = CIf a t e l"
  proof -
    let ?f = "\<lambda>b. concat_opt [commands_in p (eb_condition b), commands_in p (eb_body b)]"
    from ks' kind obtain bs where bs: "elif_branches p e = Some bs"
      and all: "concat_opt ([commands_in p a, commands_in p t] @ map ?f bs @ [commands_in p l]) = Some ks"
      by (auto split: bind_splits)
    have "below rank (rank c) p (eb_condition b) \<and> below rank (rank c) p (eb_body b)"
      if b: "b \<in> set bs" for b
    proof -
      from all b obtain xs where xs: "?f b = Some xs" "set xs \<subseteq> set ks"
        by (cases "?f b") (force simp: concat_opt_eq split: if_splits)+
      then show ?thesis
        using part[OF xs(1), of "eb_condition b"] part[OF xs(1), of "eb_body b"] lk by auto
    qed
    with bs part[OF all] lk show ?thesis by auto
  qed
  show "below rank (rank c) p a \<and> below rank (rank c) p b"
    if "rc_kind cmd \<in> {CWhile a b, CUntil a b, CAlways a b}"
    using ks' part[of "[commands_in p a, commands_in p b]" ks] lk that by auto
  show "below rank (rank c) p b"
    if "rc_kind cmd \<in> {CFor b, CSelect b, CArithmeticFor b, CBraceGroup b, CSubshell b}"
    using ks' lk that by (auto simp: below_def)
  show "\<exists>arms. case_arms p r = Some arms \<and> (\<forall>arm \<in> set arms. below rank (rank c) p (ca_commands arm))"
    if "rc_kind cmd = CCase r"
    using ks' lk that part[of "map (\<lambda>arm. commands_in p (ca_commands arm)) (the (case_arms p r))" ks]
    by (auto split: bind_splits)
  show "\<exists>ss. pipeline_segments p r = Some ss \<and> (\<forall>s \<in> set ss.
      ps_command s < length (rp_commands p) \<and> rank (ps_command s) < rank c)"
    if "rc_kind cmd = CPipeline r"
    using ks' lk that by (auto split: bind_splits)
qed

lemma range_ok_below:
  assumes "range_ok p r" "\<And>c. c < length (rp_commands p) \<Longrightarrow> rank c < n"
  shows "below rank n p r"
  using assms by (auto simp: range_ok_def below_def list_all_iff split: option.splits)

section \<open>Small programs\<close>

text \<open>Building blocks of the concrete programs on which the properties are evaluated.\<close>

definition demo_span :: "nat \<Rightarrow> nat \<Rightarrow> span" where
  "demo_span a b = \<lparr>s_start = position_at 1 (a + 1) a, s_end = position_at 1 (b + 1) b\<rparr>"

definition demo_command :: "nat \<Rightarrow> nat \<Rightarrow> recorded_command_kind \<Rightarrow> recorded_command" where
  "demo_command a b kind =
     \<lparr>rc_negated = False, rc_background = False, rc_span = demo_span a b, rc_syntax_span = demo_span a b,
      rc_syntax_kind = None, rc_scope = Some 0, rc_flow_context = None, rc_nested_regions = range_empty,
      rc_command_info = None, rc_kind = kind\<rparr>"

definition demo_range :: "nat \<Rightarrow> nat \<Rightarrow> recorded_range" where
  "demo_range start len = \<lparr>rg_start = start, rg_len = len\<rparr>"

lemmas demo_defs = demo_span_def demo_command_def demo_range_def

end
