(* ===== verification/Exit_Effects.thy ===== *)
theory Exit_Effects
  imports Recorded_Program
begin

text \<open>
  Model of \<open>crates/shucked-semantic/src/cfg/termination.rs\<close>: which recorded commands may continue,
  return from the function or exit the script, and the fixpoint that finds the calls of functions
  that always exit.

  The mutually recursive functions of the source are written with open recursion: a helper takes the
  effect of a single command as its first argument, and \<open>command_exit_effect\<close> ties the knot with
  fuel, one unit per level of command nesting.  \<open>None\<close> is a panic or missing fuel; on a well-formed
  program the rank of a command bounds the fuel it needs.
\<close>

section \<open>Effects\<close>

record exit_effect =
  may_continue :: bool
  may_return :: bool
  may_exit :: bool

definition effect_default :: exit_effect where
  "effect_default = \<lparr>may_continue = False, may_return = False, may_exit = False\<rparr>"

definition effect_continuing :: exit_effect where
  "effect_continuing = \<lparr>may_continue = True, may_return = False, may_exit = False\<rparr>"

definition effect_returning :: exit_effect where
  "effect_returning = \<lparr>may_continue = False, may_return = True, may_exit = False\<rparr>"

definition effect_exiting :: exit_effect where
  "effect_exiting = \<lparr>may_continue = False, may_return = False, may_exit = True\<rparr>"

definition combine_alternative :: "exit_effect \<Rightarrow> exit_effect \<Rightarrow> exit_effect" where
  "combine_alternative a b =
     \<lparr>may_continue = (may_continue a \<or> may_continue b), may_return = (may_return a \<or> may_return b),
      may_exit = (may_exit a \<or> may_exit b)\<rparr>"

type_synonym effect_of = "command_id \<Rightarrow> exit_effect option"

fun sequence_loop :: "effect_of \<Rightarrow> command_id list \<Rightarrow> exit_effect \<times> bool \<Rightarrow> (exit_effect \<times> bool) option" where
  "sequence_loop eff [] st = Some st"
| "sequence_loop eff (c # cs) (seq, continue) =
     (if \<not> continue then Some (seq, continue)
      else do {
        e \<leftarrow> eff c;
        sequence_loop eff cs
          (seq\<lparr>may_exit := may_exit seq \<or> may_exit e, may_return := may_return seq \<or> may_return e\<rparr>,
           may_continue e) })"

definition sequence_exit_effect ::
  "effect_of \<Rightarrow> recorded_program \<Rightarrow> recorded_range \<Rightarrow> exit_effect option" where
  "sequence_exit_effect eff p r = do {
     cs \<leftarrow> commands_in p r;
     (seq, continue) \<leftarrow> sequence_loop eff cs (effect_default, True);
     Some (seq\<lparr>may_continue := continue\<rparr>) }"

definition list_item_step :: "effect_of \<Rightarrow> recorded_list_item \<Rightarrow> exit_effect \<Rightarrow> exit_effect option" where
  "list_item_step eff item acc = do {
     e \<leftarrow> eff (lt_command item);
     let acc = acc\<lparr>may_continue := True\<rparr>;
     let acc = acc\<lparr>may_return := may_return acc \<or> may_return e\<rparr>;
     let acc = acc\<lparr>may_exit := may_exit acc \<or> may_exit e\<rparr>;
     Some (acc\<lparr>may_continue := may_continue acc \<or> may_continue e\<rparr>) }"

definition list_exit_effect ::
  "effect_of \<Rightarrow> recorded_program \<Rightarrow> command_id \<Rightarrow> recorded_range \<Rightarrow> exit_effect option" where
  "list_exit_effect eff p first rest = do {
     e \<leftarrow> eff first;
     if \<not> may_continue e then Some e
     else do { items \<leftarrow> list_items p rest; fold_opt (list_item_step eff) items e } }"

definition condition_effect :: "exit_effect \<Rightarrow> exit_effect" where
  "condition_effect c = \<lparr>may_continue = False, may_return = may_return c, may_exit = may_exit c\<rparr>"

definition elif_step ::
  "effect_of \<Rightarrow> recorded_program \<Rightarrow> recorded_elif_branch \<Rightarrow> exit_effect \<Rightarrow> exit_effect option" where
  "elif_step eff p branch false_path = do {
     c \<leftarrow> sequence_exit_effect eff p (eb_condition branch);
     if may_continue c
     then do { b \<leftarrow> sequence_exit_effect eff p (eb_body branch);
               Some (combine_alternative (combine_alternative (condition_effect c) b) false_path) }
     else Some (condition_effect c) }"

definition elif_chain_exit_effect ::
  "effect_of \<Rightarrow> recorded_program \<Rightarrow> recorded_range \<Rightarrow> recorded_range \<Rightarrow> exit_effect option" where
  "elif_chain_exit_effect eff p elifs else_branch = do {
     false_path \<leftarrow> (if recorded_range_is_empty else_branch then Some effect_continuing
                   else sequence_exit_effect eff p else_branch);
     branches \<leftarrow> elif_branches p elifs;
     fold_opt (elif_step eff p) (rev branches) false_path }"

definition if_exit_effect ::
  "effect_of \<Rightarrow> recorded_program \<Rightarrow> recorded_range \<Rightarrow> recorded_range \<Rightarrow> recorded_range
    \<Rightarrow> recorded_range \<Rightarrow> exit_effect option" where
  "if_exit_effect eff p cond then_branch elifs else_branch = do {
     c \<leftarrow> sequence_exit_effect eff p cond;
     if \<not> may_continue c then Some (condition_effect c)
     else do {
       t \<leftarrow> sequence_exit_effect eff p then_branch;
       f \<leftarrow> elif_chain_exit_effect eff p elifs else_branch;
       Some (combine_alternative (combine_alternative (condition_effect c) t) f) } }"

definition loop_exit_effect ::
  "effect_of \<Rightarrow> recorded_program \<Rightarrow> recorded_range \<Rightarrow> recorded_range \<Rightarrow> exit_effect option" where
  "loop_exit_effect eff p cond body = do {
     c \<leftarrow> sequence_exit_effect eff p cond;
     b \<leftarrow> sequence_exit_effect eff p body;
     Some (effect_continuing\<lparr>may_return := may_return c \<or> may_return b,
                             may_exit := may_exit c \<or> may_exit b\<rparr>) }"

definition counted_loop_exit_effect ::
  "effect_of \<Rightarrow> recorded_program \<Rightarrow> recorded_range \<Rightarrow> exit_effect option" where
  "counted_loop_exit_effect eff p body = do {
     b \<leftarrow> sequence_exit_effect eff p body;
     Some (effect_continuing\<lparr>may_return := may_return b, may_exit := may_exit b\<rparr>) }"

definition case_exit_effect ::
  "effect_of \<Rightarrow> recorded_program \<Rightarrow> recorded_range \<Rightarrow> exit_effect option" where
  "case_exit_effect eff p arms_range = do {
     arms \<leftarrow> case_arms p arms_range;
     fold_opt (\<lambda>arm acc. do { e \<leftarrow> sequence_exit_effect eff p (ca_commands arm);
                            Some (combine_alternative acc e) })
       arms (if list_ex ca_matches_anything arms then effect_default else effect_continuing) }"

definition always_exit_effect ::
  "effect_of \<Rightarrow> recorded_program \<Rightarrow> recorded_range \<Rightarrow> recorded_range \<Rightarrow> exit_effect option" where
  "always_exit_effect eff p body always_body = do {
     b \<leftarrow> sequence_exit_effect eff p body;
     a \<leftarrow> sequence_exit_effect eff p always_body;
     let e = (if may_continue b then combine_alternative effect_default a else effect_default);
     let e = (if may_return b then e\<lparr>may_return := True\<rparr> else e);
     Some (if may_exit b then e\<lparr>may_exit := True\<rparr> else e) }"

fun command_exit_effect ::
  "nat \<Rightarrow> recorded_program \<Rightarrow> span_key set \<Rightarrow> command_id \<Rightarrow> exit_effect option" where
  "command_exit_effect 0 p T c = None"
| "command_exit_effect (Suc n) p T c = do {
     cmd \<leftarrow> command_at p c;
     let eff = command_exit_effect n p T;
     (case rc_kind cmd of
        Linear \<Rightarrow> Some (if span_key (rc_span cmd) \<in> T then effect_exiting else effect_continuing)
      | Break depth \<Rightarrow> Some effect_continuing
      | Continue depth \<Rightarrow> Some effect_continuing
      | Return \<Rightarrow> Some effect_returning
      | Exit \<Rightarrow> Some effect_exiting
      | CList first rest \<Rightarrow> list_exit_effect eff p first rest
      | CIf cond then_branch elifs else_branch \<Rightarrow>
          if_exit_effect eff p cond then_branch elifs else_branch
      | CBraceGroup body \<Rightarrow> sequence_exit_effect eff p body
      | CAlways body always_body \<Rightarrow> always_exit_effect eff p body always_body
      | CWhile cond body \<Rightarrow> loop_exit_effect eff p cond body
      | CUntil cond body \<Rightarrow> loop_exit_effect eff p cond body
      | CFor body \<Rightarrow> counted_loop_exit_effect eff p body
      | CSelect body \<Rightarrow> counted_loop_exit_effect eff p body
      | CArithmeticFor body \<Rightarrow> counted_loop_exit_effect eff p body
      | CCase arms \<Rightarrow> case_exit_effect eff p arms
      | CSubshell body \<Rightarrow> Some effect_continuing
      | CPipeline segments \<Rightarrow> Some effect_continuing) }"

definition function_scope_always_exits_script ::
  "nat \<Rightarrow> recorded_program \<Rightarrow> scope_id \<Rightarrow> span_key set \<Rightarrow> bool option" where
  "function_scope_always_exits_script n p scope T = do {
     e \<leftarrow> sequence_exit_effect (command_exit_effect n p T) p (function_body p scope);
     Some (\<not> may_continue e \<and> \<not> may_return e \<and> may_exit e) }"

section \<open>Returns before a definition\<close>

definition range_can_return ::
  "(command_id \<Rightarrow> bool option) \<Rightarrow> recorded_program \<Rightarrow> recorded_range \<Rightarrow> bool option" where
  "range_can_return can p r = do { cs \<leftarrow> commands_in p r; any_opt can cs }"

fun command_can_return_before ::
  "nat \<Rightarrow> recorded_program \<Rightarrow> nat \<Rightarrow> command_id \<Rightarrow> bool option" where
  "command_can_return_before 0 p before c = None"
| "command_can_return_before (Suc n) p before c = do {
     cmd \<leftarrow> command_at p c;
     let can = command_can_return_before n p before;
     let can_range = range_can_return can p;
     if before \<le> start_offset (rc_span cmd) then Some False
     else (case rc_kind cmd of
        Return \<Rightarrow> Some (start_offset (rc_span cmd) < before)
      | CList first rest \<Rightarrow>
          or_opt (can first)
            (do { items \<leftarrow> list_items p rest; any_opt (\<lambda>item. can (lt_command item)) items })
      | CIf cond then_branch elifs else_branch \<Rightarrow>
          or_opt (can_range cond) (or_opt (can_range then_branch)
            (or_opt (do { bs \<leftarrow> elif_branches p elifs;
                          any_opt (\<lambda>b. or_opt (can_range (eb_condition b)) (can_range (eb_body b))) bs })
               (can_range else_branch)))
      | CBraceGroup body \<Rightarrow> can_range body
      | CFor body \<Rightarrow> can_range body
      | CSelect body \<Rightarrow> can_range body
      | CArithmeticFor body \<Rightarrow> can_range body
      | CAlways body always_body \<Rightarrow> or_opt (can_range body) (can_range always_body)
      | CWhile cond body \<Rightarrow> or_opt (can_range cond) (can_range body)
      | CUntil cond body \<Rightarrow> or_opt (can_range cond) (can_range body)
      | CCase arms \<Rightarrow> do { as \<leftarrow> case_arms p arms; any_opt (\<lambda>arm. can_range (ca_commands arm)) as }
      | _ \<Rightarrow> Some False) }"

definition file_entry_can_return_before_function_definition ::
  "nat \<Rightarrow> recorded_program \<Rightarrow> nat \<Rightarrow> bool option" where
  "file_entry_can_return_before_function_definition n p offset =
     range_can_return (command_can_return_before n p offset) p (rp_file_commands p)"

section \<open>Calls\<close>

record call_site =
  cs_callee :: string
  cs_span :: span
  cs_name_span :: span
  cs_scope :: scope_id
  cs_arg_count :: nat

record resolved_call =
  rv_site :: call_site
  rv_binding :: binding_id
  rv_callee_scope :: scope_id

text \<open>The call sites by name, the bindings by index (their spans), and the binding a name resolves to.\<close>

record call_tables =
  ct_call_sites :: "(string \<times> call_site list) list"
  ct_bindings :: "span list"
  ct_visible_bindings :: "span_key \<rightharpoonup> binding_id"

definition resolve_call ::
  "call_tables \<Rightarrow> (binding_id \<times> scope_id) list \<Rightarrow> call_site \<Rightarrow> resolved_call option" where
  "resolve_call ct function_body_scopes site = do {
     b \<leftarrow> ct_visible_bindings ct (span_key (cs_name_span site));
     scope \<leftarrow> map_of function_body_scopes b;
     Some \<lparr>rv_site = site, rv_binding = b, rv_callee_scope = scope\<rparr> }"

definition resolved_function_calls ::
  "call_tables \<Rightarrow> (binding_id \<times> scope_id) list \<Rightarrow> resolved_call list" where
  "resolved_function_calls ct function_body_scopes =
     List.map_filter (resolve_call ct function_body_scopes) (concat (map snd (ct_call_sites ct)))"

abbreviation program_calls :: "recorded_program \<Rightarrow> call_tables \<Rightarrow> resolved_call list" where
  "program_calls p ct \<equiv> resolved_function_calls ct (rp_function_body_scopes p)"

definition span_contains :: "span \<Rightarrow> span \<Rightarrow> bool" where
  "span_contains outer inner \<longleftrightarrow>
     start_offset outer \<le> start_offset inner \<and> end_offset inner \<le> end_offset outer"

definition narrower :: "recorded_command \<Rightarrow> recorded_command \<Rightarrow> bool" where
  "narrower a b =
     (let wa = usize_sub (end_offset (rc_span a)) (start_offset (rc_span a));
          wb = usize_sub (end_offset (rc_span b)) (start_offset (rc_span b))
      in wa < wb \<or> wa = wb \<and> start_offset (rc_span a) < start_offset (rc_span b))"

definition recorded_command_span_for_call_site :: "recorded_program \<Rightarrow> call_site \<Rightarrow> span" where
  "recorded_command_span_for_call_site p site =
     (case rp_call_command_spans p (span_key (cs_span site)) of
        Some s \<Rightarrow> s
      | None \<Rightarrow>
          (case min_by narrower (filter (\<lambda>c. rc_kind c = Linear \<and> span_contains (rc_span c) (cs_span site))
                  (rp_commands p)) of
             Some c \<Rightarrow> rc_span c
           | None \<Rightarrow>
               (case min_by narrower (filter (\<lambda>c. span_contains (rc_span c) (cs_span site)) (rp_commands p)) of
                  Some c \<Rightarrow> rc_span c
                | None \<Rightarrow> cs_span site)))"

definition resolve_step ::
  "nat \<Rightarrow> recorded_program \<Rightarrow> call_tables \<Rightarrow> scope_id set \<Rightarrow> resolved_call
    \<Rightarrow> bool \<times> span_key set \<Rightarrow> (bool \<times> span_key set) option" where
  "resolve_step n p ct always call = (\<lambda>(changed, T).
     if rv_callee_scope call \<notin> always then Some (changed, T)
     else do {
       b \<leftarrow> nth_opt (ct_bindings ct) (rv_binding call);
       early \<leftarrow> file_entry_can_return_before_function_definition n p (start_offset b);
       if early then Some (changed, T)
       else (let key = span_key (recorded_command_span_for_call_site p (rv_site call))
             in Some (changed \<or> key \<notin> T, insert key T)) })"

definition resolve_script_terminating_call_spans ::
  "nat \<Rightarrow> recorded_program \<Rightarrow> call_tables \<Rightarrow> scope_id set \<Rightarrow> span_key set
    \<Rightarrow> (bool \<times> span_key set) option" where
  "resolve_script_terminating_call_spans n p ct always T =
     fold_opt (resolve_step n p ct always) (program_calls p ct) (False, T)"

definition scope_step ::
  "nat \<Rightarrow> recorded_program \<Rightarrow> span_key set \<Rightarrow> scope_id \<Rightarrow> bool \<times> scope_id set
    \<Rightarrow> (bool \<times> scope_id set) option" where
  "scope_step n p T scope = (\<lambda>(changed, always).
     if scope \<in> always then Some (changed, always)
     else do {
       exits \<leftarrow> function_scope_always_exits_script n p scope T;
       if exits then Some (True, insert scope always) else Some (changed, always) })"

text \<open>The fixpoint loop, with fuel for its rounds.\<close>

fun terminating_rounds ::
  "nat \<Rightarrow> nat \<Rightarrow> recorded_program \<Rightarrow> call_tables \<Rightarrow> scope_id set \<Rightarrow> span_key set
    \<Rightarrow> span_key set option" where
  "terminating_rounds 0 n p ct always T = None"
| "terminating_rounds (Suc k) n p ct always T = do {
     (changed, always) \<leftarrow> fold_opt (scope_step n p T) (map fst (rp_function_bodies p)) (False, always);
     (resolved, T) \<leftarrow> resolve_script_terminating_call_spans n p ct always T;
     if changed \<or> resolved then terminating_rounds k n p ct always T else Some T }"

definition compute_script_terminating_call_spans ::
  "nat \<Rightarrow> nat \<Rightarrow> recorded_program \<Rightarrow> call_tables \<Rightarrow> span_key set option" where
  "compute_script_terminating_call_spans k n p ct =
     (if rp_function_body_scopes p = [] \<or> ct_call_sites ct = [] then Some {}
      else terminating_rounds k n p ct {} {})"

section \<open>Enough fuel\<close>

lemma sequence_loop_total:
  "(\<And>c. c \<in> set cs \<Longrightarrow> \<exists>e. eff c = Some e) \<Longrightarrow> \<exists>r. sequence_loop eff cs st = Some r"
proof (induction eff cs st rule: sequence_loop.induct)
  case (2 eff c cs seq continue)
  then obtain e where "eff c = Some e" by auto
  with 2 show ?case by auto
qed auto

lemma sequence_total:
  assumes "below rank m p r" "\<And>c. c < length (rp_commands p) \<Longrightarrow> rank c < m \<Longrightarrow> \<exists>e. eff c = Some e"
  shows "\<exists>e. sequence_exit_effect eff p r = Some e"
proof -
  from assms obtain cs where "commands_in p r = Some cs" "\<And>c. c \<in> set cs \<Longrightarrow> \<exists>e. eff c = Some e"
    by (auto simp: below_def)
  with sequence_loop_total[of cs eff "(effect_default, True)"] show ?thesis
    by (auto simp: sequence_exit_effect_def)
qed

lemma fold_opt_defined:
  assumes "\<And>x t. x \<in> set xs \<Longrightarrow> \<exists>t'. f x t = Some t'"
  shows "\<exists>s'. fold_opt f xs s = Some s'"
  using fold_opt_total[where I = "\<lambda>_. True" and f = f and xs = xs and s = s] assms by simp

lemma command_exit_effect_total:
  assumes "ranked rank p"
  shows "c < length (rp_commands p) \<Longrightarrow> rank c < n \<Longrightarrow> \<exists>e. command_exit_effect n p T c = Some e"
proof (induction n arbitrary: c)
  case (Suc n)
  define cmd where "cmd = rp_commands p ! c"
  let ?eff = "command_exit_effect n p T"
  have at: "command_at p c = Some cmd" using Suc.prems by (simp add: command_at_def cmd_def)
  note parts = ranked_parts[OF assms Suc.prems(1) cmd_def]
  have eff: "\<exists>e. ?eff d = Some e" if "d < length (rp_commands p)" "rank d < rank c" for d
    using Suc.IH[of d] Suc.prems(2) that by simp
  have seq: "\<exists>e. sequence_exit_effect ?eff p r = Some e" if "below rank (rank c) p r" for r
    using that eff by (rule sequence_total)
  show ?case
  proof (cases "rc_kind cmd")
    case (CList f r)
    with parts(2) obtain items where items: "list_items p r = Some items"
      "\<And>i. i \<in> set items \<Longrightarrow> \<exists>e. ?eff (lt_command i) = Some e" and "\<exists>e. ?eff f = Some e"
      using eff by auto
    moreover have "\<exists>e. fold_opt (list_item_step ?eff) items acc = Some e" for acc
      using items by (intro fold_opt_defined) (fastforce simp: list_item_step_def)
    ultimately show ?thesis by (auto simp: at CList list_exit_effect_def)
  next
    case (CIf a t e l)
    with parts(3) obtain bs where bs: "elif_branches p e = Some bs"
      "\<And>b. b \<in> set bs \<Longrightarrow> below rank (rank c) p (eb_condition b) \<and> below rank (rank c) p (eb_body b)"
      and below: "below rank (rank c) p a" "below rank (rank c) p t" "below rank (rank c) p l"
      by auto
    have "\<exists>x. fold_opt (elif_step ?eff p) (rev bs) acc = Some x" for acc
    proof (rule fold_opt_defined)
      fix b y assume "b \<in> set (rev bs)"
      with bs(2)[of b] seq[of "eb_condition b"] seq[of "eb_body b"]
      show "\<exists>t'. elif_step ?eff p b y = Some t'" by (auto simp: elif_step_def)
    qed
    then have "\<exists>x. elif_chain_exit_effect ?eff p e l = Some x"
      using bs(1) seq[OF below(3)] by (auto simp: elif_chain_exit_effect_def)
    with seq[OF below(1)] seq[OF below(2)] show ?thesis by (auto simp: at CIf if_exit_effect_def Let_def)
  next
    case (CCase r)
    with parts(6) obtain arms where arms: "case_arms p r = Some arms"
      "\<And>arm. arm \<in> set arms \<Longrightarrow> below rank (rank c) p (ca_commands arm)" by auto
    have "\<exists>x. fold_opt (\<lambda>arm acc. do { e \<leftarrow> sequence_exit_effect ?eff p (ca_commands arm);
        Some (combine_alternative acc e) }) arms acc = Some x" for acc
    proof (rule fold_opt_defined)
      fix arm y assume "arm \<in> set arms"
      with arms(2) seq[of "ca_commands arm"]
      show "\<exists>t'. do { e \<leftarrow> sequence_exit_effect ?eff p (ca_commands arm);
        Some (combine_alternative y e) } = Some t'" by auto
    qed
    with arms(1) show ?thesis by (simp add: at CCase case_exit_effect_def)
  next
    case (CWhile a b)
    with parts(4)[of a b] seq[of a] seq[of b] show ?thesis
      by (auto simp: at loop_exit_effect_def)
  next
    case (CUntil a b)
    with parts(4)[of a b] seq[of a] seq[of b] show ?thesis
      by (auto simp: at loop_exit_effect_def)
  next
    case (CAlways a b)
    with parts(4)[of a b] seq[of a] seq[of b] show ?thesis
      by (auto simp: at always_exit_effect_def Let_def)
  next
    case (CFor b)
    with parts(5)[of b] seq[of b] show ?thesis by (auto simp: at counted_loop_exit_effect_def)
  next
    case (CSelect b)
    with parts(5)[of b] seq[of b] show ?thesis by (auto simp: at counted_loop_exit_effect_def)
  next
    case (CArithmeticFor b)
    with parts(5)[of b] seq[of b] show ?thesis by (auto simp: at counted_loop_exit_effect_def)
  next
    case (CBraceGroup b)
    with parts(5)[of b] seq[of b] show ?thesis by (auto simp: at)
  qed (simp_all add: at)
qed simp

section \<open>What commands do\<close>

text \<open>
  How an execution of a command can end.  \<open>OBreak k\<close> and \<open>OContinue k\<close> are on their way to the
  \<open>k\<close>-th enclosing loop.
\<close>

datatype outcome = ONormal | OReturn | OExit | OBreak nat | OContinue nat

text \<open>What a loop makes of the outcome of its condition or body: \<open>None\<close> goes on with the loop.\<close>

fun loop_outcome :: "outcome \<Rightarrow> outcome option" where
  "loop_outcome ONormal = None"
| "loop_outcome OReturn = Some OReturn"
| "loop_outcome OExit = Some OExit"
| "loop_outcome (OBreak (Suc (Suc k))) = Some (OBreak (Suc k))"
| "loop_outcome (OBreak _) = Some ONormal"
| "loop_outcome (OContinue (Suc (Suc k))) = Some (OContinue (Suc k))"
| "loop_outcome (OContinue _) = None"

text \<open>
  \<open>exec p T d c out\<close>: inside \<open>d\<close> loops of its function, command \<open>c\<close> of program \<open>p\<close> can end in
  \<open>out\<close>.  Exit statuses are not modelled, so every branch is possible; a command in \<open>T\<close> calls a
  function that always exits, any other plain command may end normally or exit; a background job and
  a subshell always hand control back, and outside every loop \<open>break\<close> and \<open>continue\<close> do nothing.
\<close>

inductive exec :: "recorded_program \<Rightarrow> span_key set \<Rightarrow> nat \<Rightarrow> command_id \<Rightarrow> outcome \<Rightarrow> bool"
  and execs :: "recorded_program \<Rightarrow> span_key set \<Rightarrow> nat \<Rightarrow> command_id list \<Rightarrow> outcome \<Rightarrow> bool"
  and exec_rest :: "recorded_program \<Rightarrow> span_key set \<Rightarrow> nat \<Rightarrow> recorded_list_item list \<Rightarrow> outcome \<Rightarrow> bool"
  and exec_elifs :: "recorded_program \<Rightarrow> span_key set \<Rightarrow> nat \<Rightarrow> recorded_elif_branch list
      \<Rightarrow> command_id list \<Rightarrow> outcome \<Rightarrow> bool"
  and exec_loop :: "recorded_program \<Rightarrow> span_key set \<Rightarrow> nat \<Rightarrow> command_id list \<Rightarrow> command_id list
      \<Rightarrow> outcome \<Rightarrow> bool"
  and exec_match :: "recorded_program \<Rightarrow> span_key set \<Rightarrow> nat \<Rightarrow> recorded_case_arm list \<Rightarrow> outcome \<Rightarrow> bool"
  and exec_arm :: "recorded_program \<Rightarrow> span_key set \<Rightarrow> nat \<Rightarrow> recorded_case_arm list \<Rightarrow> outcome \<Rightarrow> bool"
  for p :: recorded_program and T :: "span_key set"
where
  ex_background: "command_at p c = Some cmd \<Longrightarrow> rc_background cmd \<Longrightarrow> exec p T d c ONormal"
| ex_linear: "command_at p c = Some cmd \<Longrightarrow> \<not> rc_background cmd \<Longrightarrow> rc_kind cmd = Linear \<Longrightarrow>
    out = OExit \<or> out = ONormal \<and> span_key (rc_span cmd) \<notin> T \<Longrightarrow> exec p T d c out"
| ex_break: "command_at p c = Some cmd \<Longrightarrow> \<not> rc_background cmd \<Longrightarrow> rc_kind cmd = Break k \<Longrightarrow>
    out = (if d = 0 then ONormal else OBreak (min (max 1 k) d)) \<Longrightarrow> exec p T d c out"
| ex_continue: "command_at p c = Some cmd \<Longrightarrow> \<not> rc_background cmd \<Longrightarrow> rc_kind cmd = Continue k \<Longrightarrow>
    out = (if d = 0 then ONormal else OContinue (min (max 1 k) d)) \<Longrightarrow> exec p T d c out"
| ex_return: "command_at p c = Some cmd \<Longrightarrow> \<not> rc_background cmd \<Longrightarrow> rc_kind cmd = Return \<Longrightarrow>
    exec p T d c OReturn"
| ex_exit: "command_at p c = Some cmd \<Longrightarrow> \<not> rc_background cmd \<Longrightarrow> rc_kind cmd = Exit \<Longrightarrow>
    exec p T d c OExit"
| ex_list_first: "command_at p c = Some cmd \<Longrightarrow> \<not> rc_background cmd \<Longrightarrow> rc_kind cmd = CList f r \<Longrightarrow>
    exec p T d f out \<Longrightarrow> out \<noteq> ONormal \<Longrightarrow> exec p T d c out"
| ex_list_rest: "command_at p c = Some cmd \<Longrightarrow> \<not> rc_background cmd \<Longrightarrow> rc_kind cmd = CList f r \<Longrightarrow>
    exec p T d f ONormal \<Longrightarrow> list_items p r = Some items \<Longrightarrow> exec_rest p T d items out \<Longrightarrow>
    exec p T d c out"
| ex_if_cond: "command_at p c = Some cmd \<Longrightarrow> \<not> rc_background cmd \<Longrightarrow> rc_kind cmd = CIf a t e l \<Longrightarrow>
    commands_in p a = Some as \<Longrightarrow> execs p T d as out \<Longrightarrow> out \<noteq> ONormal \<Longrightarrow> exec p T d c out"
| ex_if_then: "command_at p c = Some cmd \<Longrightarrow> \<not> rc_background cmd \<Longrightarrow> rc_kind cmd = CIf a t e l \<Longrightarrow>
    commands_in p a = Some as \<Longrightarrow> execs p T d as ONormal \<Longrightarrow> commands_in p t = Some ts \<Longrightarrow>
    execs p T d ts out \<Longrightarrow> exec p T d c out"
| ex_if_else: "command_at p c = Some cmd \<Longrightarrow> \<not> rc_background cmd \<Longrightarrow> rc_kind cmd = CIf a t e l \<Longrightarrow>
    commands_in p a = Some as \<Longrightarrow> execs p T d as ONormal \<Longrightarrow> elif_branches p e = Some bs \<Longrightarrow>
    commands_in p l = Some ls \<Longrightarrow> exec_elifs p T d bs ls out \<Longrightarrow> exec p T d c out"
| ex_while: "command_at p c = Some cmd \<Longrightarrow> \<not> rc_background cmd \<Longrightarrow>
    rc_kind cmd = CWhile a b \<or> rc_kind cmd = CUntil a b \<Longrightarrow>
    commands_in p a = Some as \<Longrightarrow> commands_in p b = Some bs \<Longrightarrow> exec_loop p T d as bs out \<Longrightarrow>
    exec p T d c out"
| ex_for: "command_at p c = Some cmd \<Longrightarrow> \<not> rc_background cmd \<Longrightarrow>
    rc_kind cmd = CFor b \<or> rc_kind cmd = CSelect b \<or> rc_kind cmd = CArithmeticFor b \<Longrightarrow>
    commands_in p b = Some bs \<Longrightarrow> exec_loop p T d [] bs out \<Longrightarrow> exec p T d c out"
| ex_case_of: "command_at p c = Some cmd \<Longrightarrow> \<not> rc_background cmd \<Longrightarrow> rc_kind cmd = CCase r \<Longrightarrow>
    case_arms p r = Some arms \<Longrightarrow> exec_match p T d arms out \<Longrightarrow> exec p T d c out"
| ex_brace: "command_at p c = Some cmd \<Longrightarrow> \<not> rc_background cmd \<Longrightarrow> rc_kind cmd = CBraceGroup b \<Longrightarrow>
    commands_in p b = Some bs \<Longrightarrow> execs p T d bs out \<Longrightarrow> exec p T d c out"
| ex_always: "command_at p c = Some cmd \<Longrightarrow> \<not> rc_background cmd \<Longrightarrow> rc_kind cmd = CAlways b a \<Longrightarrow>
    commands_in p b = Some bs \<Longrightarrow> commands_in p a = Some as \<Longrightarrow> execs p T d bs out1 \<Longrightarrow>
    out1 \<noteq> OExit \<Longrightarrow> execs p T d as out2 \<Longrightarrow>
    out = (if out2 = ONormal then out1 else out2) \<Longrightarrow> exec p T d c out"
| ex_always_exit: "command_at p c = Some cmd \<Longrightarrow> \<not> rc_background cmd \<Longrightarrow> rc_kind cmd = CAlways b a \<Longrightarrow>
    commands_in p b = Some bs \<Longrightarrow> execs p T d bs OExit \<Longrightarrow> exec p T d c OExit"
| ex_subshell: "command_at p c = Some cmd \<Longrightarrow> \<not> rc_background cmd \<Longrightarrow>
    rc_kind cmd = CSubshell b \<or> rc_kind cmd = CPipeline b \<Longrightarrow> exec p T d c ONormal"
| seq_nil: "execs p T d [] ONormal"
| seq_stop: "exec p T d c out \<Longrightarrow> out \<noteq> ONormal \<Longrightarrow> execs p T d (c # cs) out"
| seq_next: "exec p T d c ONormal \<Longrightarrow> execs p T d cs out \<Longrightarrow> execs p T d (c # cs) out"
| rest_nil: "exec_rest p T d [] ONormal"
| rest_skip: "exec_rest p T d items out \<Longrightarrow> exec_rest p T d (i # items) out"
| rest_stop: "exec p T d (lt_command i) out \<Longrightarrow> out \<noteq> ONormal \<Longrightarrow> exec_rest p T d (i # items) out"
| rest_next: "exec p T d (lt_command i) ONormal \<Longrightarrow> exec_rest p T d items out \<Longrightarrow>
    exec_rest p T d (i # items) out"
| elif_none: "execs p T d ls out \<Longrightarrow> exec_elifs p T d [] ls out"
| elif_cond: "commands_in p (eb_condition b) = Some as \<Longrightarrow> execs p T d as out \<Longrightarrow> out \<noteq> ONormal \<Longrightarrow>
    exec_elifs p T d (b # bs) ls out"
| elif_body: "commands_in p (eb_condition b) = Some as \<Longrightarrow> execs p T d as ONormal \<Longrightarrow>
    commands_in p (eb_body b) = Some ts \<Longrightarrow> execs p T d ts out \<Longrightarrow> exec_elifs p T d (b # bs) ls out"
| elif_next: "commands_in p (eb_condition b) = Some as \<Longrightarrow> execs p T d as ONormal \<Longrightarrow>
    exec_elifs p T d bs ls out \<Longrightarrow> exec_elifs p T d (b # bs) ls out"
| loop_done: "execs p T (Suc d) as ONormal \<Longrightarrow> exec_loop p T d as bs ONormal"
| loop_cond: "execs p T (Suc d) as out \<Longrightarrow> loop_outcome out = Some out' \<Longrightarrow> exec_loop p T d as bs out'"
| loop_cond_again: "execs p T (Suc d) as (OContinue k) \<Longrightarrow> loop_outcome (OContinue k) = None \<Longrightarrow>
    exec_loop p T d as bs out \<Longrightarrow> exec_loop p T d as bs out"
| loop_body: "execs p T (Suc d) as ONormal \<Longrightarrow> execs p T (Suc d) bs out \<Longrightarrow>
    loop_outcome out = Some out' \<Longrightarrow> exec_loop p T d as bs out'"
| loop_again: "execs p T (Suc d) as ONormal \<Longrightarrow> execs p T (Suc d) bs out \<Longrightarrow>
    loop_outcome out = None \<Longrightarrow> exec_loop p T d as bs out' \<Longrightarrow> exec_loop p T d as bs out'"
| match_none: "exec_match p T d [] ONormal"
| match_skip: "\<not> ca_matches_anything arm \<Longrightarrow> exec_match p T d arms out \<Longrightarrow>
    exec_match p T d (arm # arms) out"
| match_arm: "exec_arm p T d (arm # arms) out \<Longrightarrow> exec_match p T d (arm # arms) out"
| arm_none: "exec_arm p T d [] ONormal"
| arm_stop: "commands_in p (ca_commands arm) = Some cs \<Longrightarrow> execs p T d cs out \<Longrightarrow>
    out \<noteq> ONormal \<or> ca_terminator arm = CTBreak \<Longrightarrow> exec_arm p T d (arm # arms) out"
| arm_fall: "commands_in p (ca_commands arm) = Some cs \<Longrightarrow> execs p T d cs ONormal \<Longrightarrow>
    ca_terminator arm = CTFallThrough \<Longrightarrow> exec_arm p T d arms out \<Longrightarrow> exec_arm p T d (arm # arms) out"
| arm_match: "commands_in p (ca_commands arm) = Some cs \<Longrightarrow> execs p T d cs ONormal \<Longrightarrow>
    ca_terminator arm = CTContinue \<or> ca_terminator arm = CTContinueMatching \<Longrightarrow>
    exec_match p T d arms out \<Longrightarrow> exec_arm p T d (arm # arms) out"

inductive_cases exec_loop_cases: "exec_loop p T d as bs out"
inductive_simps execs_nil_simp: "execs p T d [] out"
inductive_simps execs_cons_simp: "execs p T d (c # cs) out"

section \<open>Soundness\<close>

definition covers :: "exit_effect \<Rightarrow> outcome \<Rightarrow> bool" where
  "covers e out \<longleftrightarrow> (out = ONormal \<longrightarrow> may_continue e) \<and> (out = OReturn \<longrightarrow> may_return e)"

definition sequence_of :: "effect_of \<Rightarrow> command_id list \<Rightarrow> exit_effect option" where
  "sequence_of eff cs = do {
     (seq, continue) \<leftarrow> sequence_loop eff cs (effect_default, True);
     Some (seq\<lparr>may_continue := continue\<rparr>) }"

lemma sequence_exit_effect_of:
  "sequence_exit_effect eff p r = do { cs \<leftarrow> commands_in p r; sequence_of eff cs }"
  by (simp add: sequence_exit_effect_def sequence_of_def)

lemma sequence_loop_acc:
  "sequence_loop eff cs (s, k) = map_option (\<lambda>(s', k'). (s\<lparr>may_exit := may_exit s \<or> may_exit s',
      may_return := may_return s \<or> may_return s'\<rparr>, k')) (sequence_loop eff cs (effect_default, k))"
proof (induction cs arbitrary: s k)
  case Nil
  then show ?case by (simp add: effect_default_def)
next
  case (Cons c cs)
  show ?case
  proof (cases "k \<and> eff c \<noteq> None")
    case False
    then show ?thesis by (auto simp: effect_default_def)
  next
    case True
    then obtain e where e: "eff c = Some e" by auto
    let ?s = "\<lambda>s. s\<lparr>may_exit := may_exit s \<or> may_exit e, may_return := may_return s \<or> may_return e\<rparr>"
    show ?thesis using True e
      by (simp, subst (1 2) Cons.IH[of "?s _"])
        (simp add: effect_default_def option.map_comp comp_def case_prod_beta' disj_assoc)
  qed
qed

lemma sequence_of_simps [simp]:
  "sequence_of eff [] = Some effect_continuing"
  "sequence_of eff (c # cs) = do {
     e \<leftarrow> eff c;
     if may_continue e
     then do { e' \<leftarrow> sequence_of eff cs;
               Some \<lparr>may_continue = may_continue e', may_return = may_return e \<or> may_return e',
                     may_exit = may_exit e \<or> may_exit e'\<rparr> }
     else Some e }"
proof -
  show "sequence_of eff [] = Some effect_continuing"
    by (simp add: sequence_of_def effect_default_def effect_continuing_def)
  have stop: "sequence_loop eff cs (x, False) = Some (x, False)" for x by (cases cs) auto
  show "sequence_of eff (c # cs) = do {
     e \<leftarrow> eff c;
     if may_continue e
     then do { e' \<leftarrow> sequence_of eff cs;
               Some \<lparr>may_continue = may_continue e', may_return = may_return e \<or> may_return e',
                     may_exit = may_exit e \<or> may_exit e'\<rparr> }
     else Some e }"
  proof (cases "eff c")
    case (Some e)
    show ?thesis
    proof (cases "may_continue e")
      case False
      with Some show ?thesis by (cases e) (simp add: sequence_of_def stop effect_default_def)
    next
      case True
      with Some show ?thesis
        by (simp add: sequence_of_def)
          (subst sequence_loop_acc, cases "sequence_loop eff cs (effect_default, True)",
            auto simp: effect_default_def)
    qed
  qed (simp add: sequence_of_def)
qed

definition case_step :: "effect_of \<Rightarrow> recorded_program \<Rightarrow> recorded_case_arm \<Rightarrow> exit_effect \<Rightarrow> exit_effect option" where
  "case_step eff p arm acc =
     do { e \<leftarrow> sequence_exit_effect eff p (ca_commands arm); Some (combine_alternative acc e) }"

lemma case_exit_effect_fold:
  "case_exit_effect eff p r = do {
     arms \<leftarrow> case_arms p r;
     fold_opt (case_step eff p) arms
       (if list_ex ca_matches_anything arms then effect_default else effect_continuing) }"
  unfolding case_exit_effect_def case_step_def[abs_def] ..

lemma elif_fold_cons:
  "fold_opt (elif_step eff p) (rev (b # bs)) fp =
     Option.bind (fold_opt (elif_step eff p) (rev bs) fp) (elif_step eff p b)"
  by (simp add: fold_opt_append)

definition effect_le :: "exit_effect \<Rightarrow> exit_effect \<Rightarrow> bool" where
  "effect_le a b \<longleftrightarrow> (may_continue a \<longrightarrow> may_continue b) \<and> (may_return a \<longrightarrow> may_return b)"

lemma effect_le_trans: "effect_le a b \<Longrightarrow> effect_le b c \<Longrightarrow> effect_le a c"
  by (simp add: effect_le_def)

lemma effect_le_refl [simp]: "effect_le a a"
  by (simp add: effect_le_def)

lemma covers_mono: "covers a out \<Longrightarrow> effect_le a b \<Longrightarrow> covers b out"
  by (simp add: covers_def effect_le_def)

lemma combine_le [simp]: "effect_le a (combine_alternative a b)" "effect_le b (combine_alternative a b)"
  by (simp_all add: effect_le_def combine_alternative_def)

lemma list_item_step_le: "list_item_step eff i acc = Some e \<Longrightarrow> effect_le acc e \<and> may_continue e"
  by (auto simp: list_item_step_def effect_le_def split: bind_splits)

lemma fold_rest_le: "fold_opt (list_item_step eff) items acc = Some e \<Longrightarrow> effect_le acc e"
  by (induction items arbitrary: acc)
    (auto split: bind_splits dest: list_item_step_le intro: effect_le_trans)

lemma case_step_le: "case_step eff p arm acc = Some e \<Longrightarrow> effect_le acc e"
  by (auto simp: case_step_def split: bind_splits)

lemma fold_case_le: "fold_opt (case_step eff p) arms acc = Some e \<Longrightarrow> effect_le acc e"
  by (induction arms arbitrary: acc)
    (auto split: bind_splits dest: case_step_le intro: effect_le_trans)

text \<open>
  The always block of the code is analysed only when its body may continue, although it also runs
  after a \<open>break\<close>; an always block that may itself return must therefore follow a body that may
  continue.
\<close>

definition always_blocks_ok :: "nat \<Rightarrow> recorded_program \<Rightarrow> span_key set \<Rightarrow> bool" where
  "always_blocks_ok n p T \<longleftrightarrow>
     (\<forall>m < n. \<forall>cmd \<in> set (rp_commands p). case rc_kind cmd of
        CAlways b a \<Rightarrow>
          (case (sequence_exit_effect (command_exit_effect m p T) p b,
                 sequence_exit_effect (command_exit_effect m p T) p a) of
             (Some eb, Some ea) \<Rightarrow> may_return ea \<longrightarrow> may_continue eb
           | _ \<Rightarrow> True)
      | _ \<Rightarrow> True)"

definition no_background :: "recorded_program \<Rightarrow> bool" where
  "no_background p \<longleftrightarrow> list_all (\<lambda>cmd. \<not> rc_background cmd) (rp_commands p)"

lemma command_at_in: "command_at p c = Some cmd \<Longrightarrow> cmd \<in> set (rp_commands p)"
  by (auto simp: command_at_def)

lemma fuel_down:
  assumes "\<forall>n < N. \<forall>e. command_exit_effect (Suc n) p T c = Some e \<longrightarrow> covers e out"
    and "n < N" "command_exit_effect n p T c = Some e"
  shows "covers e out"
proof (cases n)
  case 0
  with assms(3) show ?thesis by simp
next
  case (Suc m)
  with assms(2) have "m < N" by simp
  with assms(1) assms(3)[unfolded Suc] show ?thesis by blast
qed

lemma may_continue_continuing [simp]: "may_continue effect_continuing" "\<not> may_return effect_continuing"
  by (simp_all add: effect_continuing_def)

lemma combine_le3 [simp]:
  "effect_le a (combine_alternative (combine_alternative a b) c)"
  "effect_le b (combine_alternative (combine_alternative a b) c)"
  "effect_le c (combine_alternative (combine_alternative a b) c)"
  by (simp_all add: effect_le_def combine_alternative_def)

lemma elif_fold_SomeD:
  assumes "fold_opt (elif_step eff p) (rev (b # bs)) fp = Some e"
    "commands_in p (eb_condition b) = Some as"
  obtains f ec where "fold_opt (elif_step eff p) (rev bs) fp = Some f" "sequence_of eff as = Some ec"
    "effect_le (condition_effect ec) e"
    "may_continue ec \<Longrightarrow> effect_le f e
       \<and> (\<exists>eb. sequence_exit_effect eff p (eb_body b) = Some eb \<and> effect_le eb e)"
proof -
  from assms(1) obtain f where f: "fold_opt (elif_step eff p) (rev bs) fp = Some f"
    "elif_step eff p b f = Some e"
    unfolding elif_fold_cons by (auto split: bind_splits)
  with assms(2) obtain ec where "sequence_of eff as = Some ec"
    "effect_le (condition_effect ec) e"
    "may_continue ec \<Longrightarrow> effect_le f e
       \<and> (\<exists>eb. sequence_exit_effect eff p (eb_body b) = Some eb \<and> effect_le eb e)"
    by (auto simp: elif_step_def sequence_exit_effect_of[of eff p "eb_condition b"]
        split: bind_splits if_splits)
  with f(1) that show thesis by blast
qed

lemma case_fold_SomeD:
  assumes "fold_opt (case_step eff p) (arm # arms) acc = Some e" "commands_in p (ca_commands arm) = Some cs"
  obtains ec acc' where "sequence_of eff cs = Some ec" "effect_le ec acc'" "effect_le acc acc'"
    "fold_opt (case_step eff p) arms acc' = Some e"
proof -
  from assms obtain ec where "sequence_of eff cs = Some ec"
    "fold_opt (case_step eff p) arms (combine_alternative acc ec) = Some e"
    by (auto simp: case_step_def[of _ _ arm] sequence_exit_effect_of split: bind_splits)
  then show thesis by (intro that[of ec "combine_alternative acc ec"]) simp_all
qed

lemma covers_condition: "covers c out \<Longrightarrow> out \<noteq> ONormal \<Longrightarrow> covers (condition_effect c) out"
  by (simp add: covers_def condition_effect_def)

lemma always_blocks_okD:
  "always_blocks_ok N p T \<Longrightarrow> n < N \<Longrightarrow> command_at p c = Some cmd \<Longrightarrow> rc_kind cmd = CAlways b a \<Longrightarrow>
   sequence_exit_effect (command_exit_effect n p T) p b = Some eb \<Longrightarrow>
   sequence_exit_effect (command_exit_effect n p T) p a = Some ea \<Longrightarrow> may_return ea \<Longrightarrow> may_continue eb"
  unfolding always_blocks_ok_def by (fastforce dest: command_at_in)

lemma exec_sound:
  assumes nb: "no_background p" and al: "always_blocks_ok N p T"
  shows "exec p T d c out \<Longrightarrow> \<forall>n < N. \<forall>e. command_exit_effect (Suc n) p T c = Some e \<longrightarrow> covers e out"
    and "execs p T d cs out \<Longrightarrow>
      \<forall>n < N. \<forall>e. sequence_of (command_exit_effect n p T) cs = Some e \<longrightarrow> covers e out"
    and "exec_rest p T d items out \<Longrightarrow> \<forall>n < N. \<forall>acc e. may_continue acc \<longrightarrow>
      fold_opt (list_item_step (command_exit_effect n p T)) items acc = Some e \<longrightarrow> covers e out"
    and "exec_elifs p T d bs ls out \<Longrightarrow> \<forall>n < N. \<forall>fp e.
      sequence_of (command_exit_effect n p T) ls = Some fp \<longrightarrow>
      fold_opt (elif_step (command_exit_effect n p T) p) (rev bs) fp = Some e \<longrightarrow> covers e out"
    and "exec_loop p T d as bs' out \<Longrightarrow> \<forall>n < N. \<forall>ea eb.
      sequence_of (command_exit_effect n p T) as = Some ea \<longrightarrow>
      sequence_of (command_exit_effect n p T) bs' = Some eb \<longrightarrow>
      out = OReturn \<longrightarrow> may_return ea \<or> may_return eb"
    and "exec_match p T d arms out \<Longrightarrow> \<forall>n < N. \<forall>acc e.
      (\<not> list_ex ca_matches_anything arms \<longrightarrow> may_continue acc) \<longrightarrow>
      fold_opt (case_step (command_exit_effect n p T) p) arms acc = Some e \<longrightarrow> covers e out"
    and "exec_arm p T d arms out \<Longrightarrow> \<forall>n < N. \<forall>acc e. (arms = [] \<longrightarrow> may_continue acc) \<longrightarrow>
      fold_opt (case_step (command_exit_effect n p T) p) arms acc = Some e \<longrightarrow> covers e out"
proof (induction rule: exec_execs_exec_rest_exec_elifs_exec_loop_exec_match_exec_arm.inducts)
  case (ex_background c cmd d)
  then have False using nb command_at_in[of p c cmd] unfolding no_background_def list_all_iff by blast
  then show ?case ..
next
  case ex_linear then show ?case by (auto simp: covers_def effect_continuing_def split: if_splits)
next
  case ex_break then show ?case by (auto simp: covers_def effect_continuing_def split: if_splits)
next
  case ex_continue then show ?case by (auto simp: covers_def effect_continuing_def split: if_splits)
next
  case ex_return then show ?case by (auto simp: covers_def effect_returning_def)
next
  case ex_exit then show ?case by (auto simp: covers_def)
next
  case (ex_list_first c cmd f r d out)
  show ?case
  proof (intro allI impI)
    fix n e assume n: "n < N" "command_exit_effect (Suc n) p T c = Some e"
    have "list_exit_effect (command_exit_effect n p T) p f r = Some e"
      using n(2) ex_list_first by simp
    with ex_list_first obtain ea where ea: "command_exit_effect n p T f = Some ea" "effect_le ea e"
      by (auto simp: Let_def list_exit_effect_def split: bind_splits if_splits dest: fold_rest_le)
    have "covers ea out" using fuel_down[OF _ n(1) ea(1), of out] ex_list_first by blast
    with ea(2) show "covers e out" by (simp add: covers_mono)
  qed
next
  case (ex_list_rest c cmd f r d items out)
  show ?case
  proof (intro allI impI)
    fix n e assume n: "n < N" "command_exit_effect (Suc n) p T c = Some e"
    have "list_exit_effect (command_exit_effect n p T) p f r = Some e"
      using n(2) ex_list_rest by simp
    with ex_list_rest obtain ea where ea: "command_exit_effect n p T f = Some ea"
      "may_continue ea \<longrightarrow> fold_opt (list_item_step (command_exit_effect n p T)) items ea = Some e"
      by (auto simp: Let_def list_exit_effect_def split: bind_splits if_splits)
    have "covers ea ONormal" using fuel_down[OF _ n(1) ea(1), of ONormal] ex_list_rest by blast
    then have "may_continue ea" by (simp add: covers_def)
    with ex_list_rest n(1) ea(2) show "covers e out" by blast
  qed
next
  case (ex_if_cond c cmd a t e l as d out)
  show ?case
  proof (intro allI impI)
    fix n x assume n: "n < N" "command_exit_effect (Suc n) p T c = Some x"
    have "if_exit_effect (command_exit_effect n p T) p a t e l = Some x"
      using n(2) ex_if_cond by simp
    with ex_if_cond obtain ec where c: "sequence_of (command_exit_effect n p T) as = Some ec"
      "may_continue ec \<longrightarrow> (\<exists>et ef. sequence_exit_effect (command_exit_effect n p T) p t = Some et
         \<and> elif_chain_exit_effect (command_exit_effect n p T) p e l = Some ef
         \<and> effect_le et x \<and> effect_le ef x)" "effect_le (condition_effect ec) x"
      by (auto simp: Let_def if_exit_effect_def sequence_exit_effect_of intro: effect_le_trans
          split: bind_splits if_splits)
    from ex_if_cond n(1) c(1) have "covers ec out" by blast
    with ex_if_cond have "covers (condition_effect ec) out" by (intro covers_condition)
    with c(3) show "covers x out" by (blast intro: covers_mono)
  qed
next
  case (ex_if_then c cmd a t e l as d ts out)
  show ?case
  proof (intro allI impI)
    fix n x assume n: "n < N" "command_exit_effect (Suc n) p T c = Some x"
    have "if_exit_effect (command_exit_effect n p T) p a t e l = Some x"
      using n(2) ex_if_then by simp
    with ex_if_then obtain ec where c: "sequence_of (command_exit_effect n p T) as = Some ec"
      "may_continue ec \<longrightarrow> (\<exists>et ef. sequence_exit_effect (command_exit_effect n p T) p t = Some et
         \<and> elif_chain_exit_effect (command_exit_effect n p T) p e l = Some ef
         \<and> effect_le et x \<and> effect_le ef x)" "effect_le (condition_effect ec) x"
      by (auto simp: Let_def if_exit_effect_def sequence_exit_effect_of intro: effect_le_trans
          split: bind_splits if_splits)
    from ex_if_then n(1) c(1) have "may_continue ec" by (auto simp: covers_def)
    with c(2) ex_if_then obtain et where et: "sequence_of (command_exit_effect n p T) ts = Some et"
      "effect_le et x" by (auto simp: sequence_exit_effect_of intro: effect_le_trans)
    from ex_if_then n(1) et(1) have "covers et out" by blast
    with et(2) show "covers x out" by (blast intro: covers_mono)
  qed
next
  case (ex_if_else c cmd a t e l as d bs ls out)
  show ?case
  proof (intro allI impI)
    fix n x assume n: "n < N" "command_exit_effect (Suc n) p T c = Some x"
    have "if_exit_effect (command_exit_effect n p T) p a t e l = Some x"
      using n(2) ex_if_else by simp
    with ex_if_else obtain ec where c: "sequence_of (command_exit_effect n p T) as = Some ec"
      "may_continue ec \<longrightarrow> (\<exists>et ef. sequence_exit_effect (command_exit_effect n p T) p t = Some et
         \<and> elif_chain_exit_effect (command_exit_effect n p T) p e l = Some ef
         \<and> effect_le et x \<and> effect_le ef x)" "effect_le (condition_effect ec) x"
      by (auto simp: Let_def if_exit_effect_def sequence_exit_effect_of intro: effect_le_trans
          split: bind_splits if_splits)
    from ex_if_else n(1) c(1) have "may_continue ec" by (auto simp: covers_def)
    with c(2) obtain ef where ef: "elif_chain_exit_effect (command_exit_effect n p T) p e l = Some ef"
      "effect_le ef x" by auto
    have empty: "ls = [] \<longleftrightarrow> recorded_range_is_empty l"
      using ex_if_else by (auto simp: commands_in_def range_items_empty_iff)
    from ef(1) ex_if_else empty obtain fp where
      "sequence_of (command_exit_effect n p T) ls = Some fp"
      "fold_opt (elif_step (command_exit_effect n p T) p) (rev bs) fp = Some ef"
      by (auto simp: elif_chain_exit_effect_def sequence_exit_effect_of split: bind_splits if_splits)
    with ex_if_else n(1) have "covers ef out" by blast
    with ef(2) show "covers x out" by (blast intro: covers_mono)
  qed
next
  case ex_while then show ?case by (auto simp: Let_def loop_exit_effect_def sequence_exit_effect_of covers_def effect_continuing_def split: bind_splits if_splits) 
next
  case ex_for then show ?case by (auto simp: Let_def counted_loop_exit_effect_def sequence_exit_effect_of covers_def effect_continuing_def split: bind_splits if_splits)
next
  case ex_case_of then show ?case
    by (auto simp: Let_def case_exit_effect_fold split: bind_splits if_splits)
      (blast intro: may_continue_continuing)
next
  case ex_brace then show ?case by (auto simp: Let_def sequence_exit_effect_of split: bind_splits if_splits)
next
  case (ex_always c cmd b a bs as d out1 out2 out)
  show ?case
  proof (intro allI impI)
    fix n e assume n: "n < N" "command_exit_effect (Suc n) p T c = Some e"
    let ?eff = "command_exit_effect n p T"
    from n ex_always obtain eb ea where eb: "sequence_exit_effect ?eff p b = Some eb"
      and ea: "sequence_exit_effect ?eff p a = Some ea"
      and e: "always_exit_effect ?eff p b a = Some e"
      by (auto simp: Let_def always_exit_effect_def split: bind_splits)
    have "covers eb out1" "covers ea out2"
      using ex_always n(1) eb ea by (auto simp: sequence_exit_effect_of)
    moreover have "may_return ea \<longrightarrow> may_continue eb"
      using always_blocks_okD[OF al n(1) _ _ eb ea] ex_always by blast
    ultimately show "covers e out"
      using e eb ea ex_always
      by (cases eb) (auto simp: always_exit_effect_def Let_def covers_def combine_alternative_def
        effect_default_def)
  qed
next
  case ex_always_exit then show ?case by (auto simp: covers_def)
next
  case ex_subshell then show ?case by (auto simp: covers_def effect_continuing_def)
next
  case seq_nil then show ?case by (auto simp: covers_def effect_continuing_def)
next
  case (seq_stop d c out cs)
  show ?case
  proof (intro allI impI)
    fix n e assume n: "n < N" "sequence_of (command_exit_effect n p T) (c # cs) = Some e"
    then obtain ec where ec: "command_exit_effect n p T c = Some ec" "may_return ec \<longrightarrow> may_return e"
      by (auto split: bind_splits if_splits)
    have "covers ec out" using fuel_down[OF _ n(1) ec(1), of out] seq_stop by blast
    with ec(2) seq_stop show "covers e out" by (simp add: covers_def)
  qed
next
  case (seq_next d c cs out)
  show ?case
  proof (intro allI impI)
    fix n e assume n: "n < N" "sequence_of (command_exit_effect n p T) (c # cs) = Some e"
    then obtain ec where ec: "command_exit_effect n p T c = Some ec"
      "may_continue ec \<longrightarrow> (\<exists>e'. sequence_of (command_exit_effect n p T) cs = Some e' \<and> effect_le e' e)"
      by (auto simp: effect_le_def split: bind_splits if_splits)
    have "covers ec ONormal" using fuel_down[OF _ n(1) ec(1), of ONormal] seq_next by blast
    then obtain e' where "sequence_of (command_exit_effect n p T) cs = Some e'" "effect_le e' e"
      using ec(2) by (auto simp: covers_def)
    with seq_next n(1) show "covers e out" by (blast intro: covers_mono)
  qed
next
  case rest_nil then show ?case by (auto simp: covers_def)
next
  case rest_skip then show ?case by (auto split: bind_splits dest: list_item_step_le)
next
  case (rest_stop d i out items)
  show ?case
  proof (intro allI impI)
    fix n acc e assume n: "n < N" "may_continue acc"
      "fold_opt (list_item_step (command_exit_effect n p T)) (i # items) acc = Some e"
    then obtain ei acc' where ei: "command_exit_effect n p T (lt_command i) = Some ei"
      "may_return ei \<longrightarrow> may_return acc'" "effect_le acc' e"
      by (auto simp: list_item_step_def split: bind_splits dest!: fold_rest_le)
        (auto simp: effect_le_def)
    have "covers ei out" using fuel_down[OF _ n(1) ei(1), of out] rest_stop by blast
    with ei(2,3) rest_stop show "covers e out" by (auto simp: covers_def effect_le_def)
  qed
next
  case rest_next then show ?case by (auto split: bind_splits dest: list_item_step_le)
next
  case elif_none then show ?case by auto
next
  case (elif_cond b as d out bs ls)
  show ?case
  proof (intro allI impI)
    fix n fp e assume n: "n < N" "sequence_of (command_exit_effect n p T) ls = Some fp"
      "fold_opt (elif_step (command_exit_effect n p T) p) (rev (b # bs)) fp = Some e"
    from elif_fold_SomeD[OF n(3)] elif_cond obtain f ec where
      f: "fold_opt (elif_step (command_exit_effect n p T) p) (rev bs) fp = Some f"
      and ec: "sequence_of (command_exit_effect n p T) as = Some ec" "effect_le (condition_effect ec) e"
      and more: "may_continue ec \<Longrightarrow> effect_le f e \<and> (\<exists>eb. sequence_exit_effect
        (command_exit_effect n p T) p (eb_body b) = Some eb \<and> effect_le eb e)"
      by blast
    from elif_cond n(1) ec have "covers (condition_effect ec) out" by (blast intro: covers_condition)
    with ec(2) show "covers e out" by (blast intro: covers_mono)
  qed
next
  case (elif_body b as d ts out bs ls)
  show ?case
  proof (intro allI impI)
    fix n fp e assume n: "n < N" "sequence_of (command_exit_effect n p T) ls = Some fp"
      "fold_opt (elif_step (command_exit_effect n p T) p) (rev (b # bs)) fp = Some e"
    from elif_fold_SomeD[OF n(3)] elif_body obtain f ec where
      f: "fold_opt (elif_step (command_exit_effect n p T) p) (rev bs) fp = Some f"
      and ec: "sequence_of (command_exit_effect n p T) as = Some ec" "effect_le (condition_effect ec) e"
      and more: "may_continue ec \<Longrightarrow> effect_le f e \<and> (\<exists>eb. sequence_exit_effect
        (command_exit_effect n p T) p (eb_body b) = Some eb \<and> effect_le eb e)"
      by blast
    from elif_body n(1) ec have "covers ec ONormal" by blast
    then have "may_continue ec" by (simp add: covers_def)
    with more elif_body obtain eb where "sequence_of (command_exit_effect n p T) ts = Some eb"
      "effect_le eb e" by (auto simp: sequence_exit_effect_of)
    with elif_body n(1) show "covers e out" by (blast intro: covers_mono)
  qed
next
  case (elif_next b as d bs ls out)
  show ?case
  proof (intro allI impI)
    fix n fp e assume n: "n < N" "sequence_of (command_exit_effect n p T) ls = Some fp"
      "fold_opt (elif_step (command_exit_effect n p T) p) (rev (b # bs)) fp = Some e"
    from elif_fold_SomeD[OF n(3)] elif_next obtain f ec where
      f: "fold_opt (elif_step (command_exit_effect n p T) p) (rev bs) fp = Some f"
      and ec: "sequence_of (command_exit_effect n p T) as = Some ec" "effect_le (condition_effect ec) e"
      and more: "may_continue ec \<Longrightarrow> effect_le f e \<and> (\<exists>eb. sequence_exit_effect
        (command_exit_effect n p T) p (eb_body b) = Some eb \<and> effect_le eb e)"
      by blast
    from elif_next n(1) ec have "covers ec ONormal" by blast
    then have "may_continue ec" by (simp add: covers_def)
    then have "effect_le f e" using more by blast
    with elif_next n f show "covers e out" by (blast intro: covers_mono)
  qed
next
  case loop_done then show ?case by auto
next
  case (loop_cond d as out) then show ?case by (cases out rule: loop_outcome.cases) (auto simp: covers_def)
next
  case loop_cond_again then show ?case by blast
next
  case (loop_body d as bs out) then show ?case by (cases out rule: loop_outcome.cases) (auto simp: covers_def)
next
  case loop_again then show ?case by blast
next
  case match_none then show ?case by (auto simp: covers_def)
next
  case (match_skip arm d arms out)
  show ?case
  proof (intro allI impI)
    fix n acc e
    assume n: "n < N" "\<not> list_ex ca_matches_anything (arm # arms) \<longrightarrow> may_continue acc"
      "fold_opt (case_step (command_exit_effect n p T) p) (arm # arms) acc = Some e"
    then obtain acc' where acc': "case_step (command_exit_effect n p T) p arm acc = Some acc'"
      "fold_opt (case_step (command_exit_effect n p T) p) arms acc' = Some e"
      by (auto split: bind_splits)
    have "\<not> list_ex ca_matches_anything arms \<longrightarrow> may_continue acc'"
      using n(2) match_skip case_step_le[OF acc'(1)] by (auto simp: effect_le_def)
    with match_skip n(1) acc'(2) show "covers e out" by blast
  qed
next
  case match_arm then show ?case by simp
next
  case arm_none then show ?case by (auto simp: covers_def)
next
  case (arm_stop arm cs d out arms)
  show ?case
  proof (intro allI impI)
    fix n acc e
    assume n: "n < N" "fold_opt (case_step (command_exit_effect n p T) p) (arm # arms) acc = Some e"
    have "commands_in p (ca_commands arm) = Some cs" by (rule arm_stop)
    from case_fold_SomeD[OF n(2) this] obtain ec acc' where
      ec: "sequence_of (command_exit_effect n p T) cs = Some ec" "effect_le ec acc'"
      and rest: "fold_opt (case_step (command_exit_effect n p T) p) arms acc' = Some e"
      by blast
    have "\<forall>n < N. \<forall>e. sequence_of (command_exit_effect n p T) cs = Some e \<longrightarrow> covers e out"
      by (rule arm_stop)
    with n(1) ec(1) have "covers ec out" by blast
    from covers_mono[OF covers_mono[OF this ec(2)] fold_case_le[OF rest]] show "covers e out" .
  qed
next
  case (arm_fall arm cs d arms out)
  show ?case
  proof (intro allI impI)
    fix n acc e
    assume n: "n < N" "fold_opt (case_step (command_exit_effect n p T) p) (arm # arms) acc = Some e"
    have "commands_in p (ca_commands arm) = Some cs" by (rule arm_fall)
    from case_fold_SomeD[OF n(2) this] obtain ec acc' where
      ec: "sequence_of (command_exit_effect n p T) cs = Some ec" "effect_le ec acc'"
      and rest: "fold_opt (case_step (command_exit_effect n p T) p) arms acc' = Some e"
      by blast
    have "\<forall>n < N. \<forall>e. sequence_of (command_exit_effect n p T) cs = Some e \<longrightarrow> covers e ONormal"
      by (rule arm_fall)
    with n(1) ec(1) have "covers ec ONormal" by blast
    with ec(2) have "may_continue acc'" by (simp add: covers_def effect_le_def)
    with arm_fall n(1) rest show "covers e out" by blast
  qed
next
  case (arm_match arm cs d arms out)
  show ?case
  proof (intro allI impI)
    fix n acc e
    assume n: "n < N" "fold_opt (case_step (command_exit_effect n p T) p) (arm # arms) acc = Some e"
    have "commands_in p (ca_commands arm) = Some cs" by (rule arm_match)
    from case_fold_SomeD[OF n(2) this] obtain ec acc' where
      ec: "sequence_of (command_exit_effect n p T) cs = Some ec" "effect_le ec acc'"
      and rest: "fold_opt (case_step (command_exit_effect n p T) p) arms acc' = Some e"
      by blast
    have "\<forall>n < N. \<forall>e. sequence_of (command_exit_effect n p T) cs = Some e \<longrightarrow> covers e ONormal"
      by (rule arm_match)
    with n(1) ec(1) have "covers ec ONormal" by blast
    with ec(2) have "may_continue acc'" by (simp add: covers_def effect_le_def)
    with arm_match n(1) rest show "covers e out" by blast
  qed
qed

text \<open>Loop-control outcomes never leave the loops of the function.\<close>

lemma exec_levels:
  "exec p T d c out \<Longrightarrow> out \<in> {OBreak k, OContinue k} \<Longrightarrow> 1 \<le> k \<and> k \<le> d"
  "execs p T d cs out \<Longrightarrow> out \<in> {OBreak k, OContinue k} \<Longrightarrow> 1 \<le> k \<and> k \<le> d"
  "exec_rest p T d items out \<Longrightarrow> out \<in> {OBreak k, OContinue k} \<Longrightarrow> 1 \<le> k \<and> k \<le> d"
  "exec_elifs p T d bs ls out \<Longrightarrow> out \<in> {OBreak k, OContinue k} \<Longrightarrow> 1 \<le> k \<and> k \<le> d"
  "exec_loop p T d as bs' out \<Longrightarrow> out \<in> {OBreak k, OContinue k} \<Longrightarrow> 1 \<le> k \<and> k \<le> d"
  "exec_match p T d arms out \<Longrightarrow> out \<in> {OBreak k, OContinue k} \<Longrightarrow> 1 \<le> k \<and> k \<le> d"
  "exec_arm p T d arms out \<Longrightarrow> out \<in> {OBreak k, OContinue k} \<Longrightarrow> 1 \<le> k \<and> k \<le> d"
proof (induction arbitrary: k and k and k and k and k and k and k
    rule: exec_execs_exec_rest_exec_elifs_exec_loop_exec_match_exec_arm.inducts)
  case (loop_cond d as out out' bs)
  then show ?case by (cases out rule: loop_outcome.cases) force+
next
  case (loop_body d as bs out out')
  then show ?case by (cases out rule: loop_outcome.cases) force+
qed (auto split: if_splits)

section \<open>More calls that exit leave less that continues\<close>

definition effect_some :: "exit_effect \<Rightarrow> bool" where
  "effect_some e \<longleftrightarrow> may_continue e \<or> may_return e \<or> may_exit e"

lemma effect_some_simps [simp]:
  "effect_some effect_continuing" "effect_some effect_returning" "effect_some effect_exiting"
  "effect_some (combine_alternative a b) \<longleftrightarrow> effect_some a \<or> effect_some b"
  by (auto simp: effect_some_def effect_continuing_def effect_returning_def effect_exiting_def
      combine_alternative_def)

lemma sequence_of_some:
  assumes "\<And>c e. eff c = Some e \<Longrightarrow> effect_some e"
  shows "sequence_of eff cs = Some e \<Longrightarrow> effect_some e"
  using assms by (induction cs arbitrary: e) (fastforce simp: effect_some_def split: bind_splits if_splits)+

lemma fold_opt_keeps:
  "fold_opt f xs s = Some s' \<Longrightarrow> I s \<Longrightarrow> (\<And>x t t'. f x t = Some t' \<Longrightarrow> I t \<Longrightarrow> I t') \<Longrightarrow> I s'"
  by (rule fold_opt_preserves[where I = I])

lemma command_effect_some: "command_exit_effect n p T c = Some e \<Longrightarrow> effect_some e"
proof (induction n arbitrary: c e)
  case (Suc n)
  let ?eff = "command_exit_effect n p T"
  have seq: "sequence_exit_effect ?eff p r = Some x \<Longrightarrow> effect_some x" for r x
    using sequence_of_some[of ?eff] Suc.IH by (auto simp: sequence_exit_effect_of split: bind_splits)
  from Suc.prems obtain cmd where cmd: "command_at p c = Some cmd" by (auto split: bind_splits)
  show ?case
  proof (cases "rc_kind cmd")
    case (CList f r)
    with Suc cmd show ?thesis
      by (auto simp: list_exit_effect_def Let_def split: bind_splits if_splits
          dest!: fold_rest_le) (auto simp: effect_le_def effect_some_def)
  next
    case (CIf a t e' l)
    with Suc.prems cmd show ?thesis
      by (auto simp: if_exit_effect_def Let_def split: bind_splits if_splits dest!: seq)
        (auto simp: effect_some_def condition_effect_def)
  next
    case (CCase r)
    with Suc.prems cmd obtain arms where arms: "fold_opt (case_step ?eff p) arms
      (if list_ex ca_matches_anything arms then effect_default else effect_continuing) = Some e"
      by (auto simp: case_exit_effect_fold Let_def split: bind_splits if_splits)
    have step: "case_step ?eff p arm t = Some t' \<Longrightarrow> effect_some t \<Longrightarrow> effect_some t'" for arm t t'
      by (auto simp: case_step_def split: bind_splits)
    show ?thesis
    proof (cases "list_ex ca_matches_anything arms")
      case False
      then show ?thesis
        by (intro fold_opt_keeps[where I = effect_some, OF arms]) (auto intro: step)
    next
      case True
      then obtain arm rest acc where "arms = arm # rest"
        and acc: "case_step ?eff p arm effect_default = Some acc"
        and rest: "fold_opt (case_step ?eff p) rest acc = Some e"
        using arms by (cases arms) (auto split: bind_splits)
      from acc have "effect_some acc" by (auto simp: case_step_def split: bind_splits dest: seq)
      then show ?thesis
        by (intro fold_opt_keeps[where I = effect_some, OF rest]) (auto intro: step)
    qed
  next
    case (CAlways b a)
    with Suc.prems cmd show ?thesis
      by (auto simp: always_exit_effect_def Let_def split: bind_splits if_splits dest!: seq)
        (auto simp: effect_some_def)
  qed (use Suc.prems cmd seq in \<open>auto simp: Let_def loop_exit_effect_def counted_loop_exit_effect_def
        effect_some_def effect_exiting_def effect_returning_def split: bind_splits if_splits\<close>)
qed simp

lemma sequence_of_mono:
  assumes "\<And>c e e'. eff c = Some e \<Longrightarrow> eff' c = Some e' \<Longrightarrow> effect_le e' e"
  shows "sequence_of eff cs = Some e \<Longrightarrow> sequence_of eff' cs = Some e' \<Longrightarrow> effect_le e' e"
proof (induction cs arbitrary: e e')
  case (Cons c cs)
  then obtain x x' where x: "eff c = Some x" "eff' c = Some x'"
    by (auto split: bind_splits)
  with assms have "effect_le x' x" by blast
  with Cons x show ?case by (fastforce simp: effect_le_def split: bind_splits if_splits)
qed auto

lemma combine_mono:
  "effect_le a a' \<Longrightarrow> effect_le b b' \<Longrightarrow> effect_le (combine_alternative a b) (combine_alternative a' b')"
  by (auto simp: effect_le_def combine_alternative_def)

lemma fold_opt_rel:
  assumes "\<And>x s t s' t'. f x s = Some s' \<Longrightarrow> g x t = Some t' \<Longrightarrow> R s t \<Longrightarrow> R s' t'"
  shows "fold_opt f xs s = Some s' \<Longrightarrow> fold_opt g xs t = Some t' \<Longrightarrow> R s t \<Longrightarrow> R s' t'"
proof (induction xs arbitrary: s t)
  case (Cons x xs)
  then show ?case using assms by (auto split: bind_splits)
qed simp

lemma command_effect_mono:
  assumes "T \<subseteq> T'"
  shows "command_exit_effect n p T c = Some e \<Longrightarrow> command_exit_effect n p T' c = Some e' \<Longrightarrow> effect_le e' e"
proof (induction n arbitrary: c e e')
  case (Suc n)
  let ?eff = "command_exit_effect n p T" and ?eff' = "command_exit_effect n p T'"
  have seq: "effect_le x' x"
    if "sequence_exit_effect ?eff p r = Some x" "sequence_exit_effect ?eff' p r = Some x'" for r x x'
    using that sequence_of_mono[of ?eff ?eff'] Suc.IH
    by (auto simp: sequence_exit_effect_of split: bind_splits)
  from Suc.prems obtain cmd where cmd: "command_at p c = Some cmd" by (auto split: bind_splits)
  show ?case
  proof (cases "rc_kind cmd")
    case Linear
    with Suc.prems cmd assms show ?thesis
      by (auto simp: Let_def effect_le_def effect_exiting_def effect_continuing_def split: if_splits)
  next
    case (CList f r)
    with Suc.prems cmd obtain x x' where x: "?eff f = Some x" "?eff' f = Some x'"
      and run: "list_exit_effect ?eff p f r = Some e" "list_exit_effect ?eff' p f r = Some e'"
      by (auto simp: Let_def list_exit_effect_def split: bind_splits)
    have le: "effect_le x' x" using Suc.IH x by blast
    show ?thesis
    proof (cases "may_continue x'")
      case False
      with run x le show ?thesis
        by (auto simp: list_exit_effect_def split: bind_splits if_splits dest!: fold_rest_le
            intro: effect_le_trans)
    next
      case True
      with le have "may_continue x" by (simp add: effect_le_def)
      with True run x obtain items where "fold_opt (list_item_step ?eff) items x = Some e"
        "fold_opt (list_item_step ?eff') items x' = Some e'"
        by (auto simp: list_exit_effect_def split: bind_splits)
      then show ?thesis
      proof (rule fold_opt_rel[where R = "\<lambda>a b. effect_le b a", rotated])
        show "effect_le x' x" by (rule le)
        show "effect_le t' s'" if "list_item_step ?eff i s = Some s'"
          "list_item_step ?eff' i t = Some t'" "effect_le t s" for i s t s' t'
          using that Suc.IH by (fastforce simp: list_item_step_def effect_le_def split: bind_splits)
      qed
    qed
  next
    case (CIf a t el l)
    have chain: "effect_le y' y" if y: "elif_chain_exit_effect ?eff p el l = Some y"
      "elif_chain_exit_effect ?eff' p el l = Some y'" for y y'
    proof -
      from y obtain bs fp fp' where f: "fold_opt (elif_step ?eff p) (rev bs) fp = Some y"
        "fold_opt (elif_step ?eff' p) (rev bs) fp' = Some y'" "effect_le fp' fp"
        by (auto simp: elif_chain_exit_effect_def split: bind_splits if_splits dest: seq)
      show ?thesis
        using f(1,2)
      proof (rule fold_opt_rel[where R = "\<lambda>a b. effect_le b a", rotated])
        show "effect_le fp' fp" by (rule f(3))
        fix b s t s' t' assume "elif_step ?eff p b s = Some s'" "elif_step ?eff' p b t = Some t'"
          "effect_le t s"
        then show "effect_le t' s'"
          using seq[of "eb_condition b"] seq[of "eb_body b"]
          by (fastforce simp: elif_step_def condition_effect_def combine_alternative_def effect_le_def
              split: bind_splits if_splits)
      qed
    qed
    from CIf Suc.prems cmd have "if_exit_effect ?eff p a t el l = Some e"
      "if_exit_effect ?eff' p a t el l = Some e'" by (auto simp: Let_def)
    then show ?thesis
      using seq[of a] seq[of t] chain
      by (fastforce simp: if_exit_effect_def condition_effect_def combine_alternative_def effect_le_def
          split: bind_splits if_splits)
  next
    case (CCase r)
    with Suc.prems cmd obtain arms init where "fold_opt (case_step ?eff p) arms init = Some e"
      "fold_opt (case_step ?eff' p) arms init = Some e'"
      by (auto simp: case_exit_effect_fold Let_def split: bind_splits)
    then show ?thesis
    proof (rule fold_opt_rel[where R = "\<lambda>a b. effect_le b a", rotated])
      show "effect_le init init" by simp
      show "effect_le t' s'" if "case_step ?eff p arm s = Some s'" "case_step ?eff' p arm t = Some t'"
        "effect_le t s" for arm s t s' t'
        using that seq[of "ca_commands arm"] by (auto simp: case_step_def intro: combine_mono split: bind_splits)
    qed
  next
    case (CAlways b a)
    with Suc.prems cmd have "always_exit_effect ?eff p b a = Some e"
      "always_exit_effect ?eff' p b a = Some e'" by (auto simp: Let_def)
    then show ?thesis
      using seq[of b] seq[of a]
      by (fastforce simp: always_exit_effect_def combine_alternative_def effect_le_def effect_default_def
          Let_def split: bind_splits if_splits)
  next
    case (CWhile a b)
    with Suc.prems cmd have "loop_exit_effect ?eff p a b = Some e" "loop_exit_effect ?eff' p a b = Some e'"
      by (auto simp: Let_def)
    then show ?thesis
      by (auto simp: loop_exit_effect_def effect_le_def split: bind_splits
          dest: seq[of a, unfolded effect_le_def] seq[of b, unfolded effect_le_def])
  next
    case (CUntil a b)
    with Suc.prems cmd have "loop_exit_effect ?eff p a b = Some e" "loop_exit_effect ?eff' p a b = Some e'"
      by (auto simp: Let_def)
    then show ?thesis
      by (auto simp: loop_exit_effect_def effect_le_def split: bind_splits
          dest: seq[of a, unfolded effect_le_def] seq[of b, unfolded effect_le_def])
  next
    case (CFor b)
    with Suc.prems cmd have "counted_loop_exit_effect ?eff p b = Some e"
      "counted_loop_exit_effect ?eff' p b = Some e'" by (auto simp: Let_def)
    then show ?thesis
      by (auto simp: counted_loop_exit_effect_def effect_le_def split: bind_splits
          dest: seq[of b, unfolded effect_le_def])
  next
    case (CSelect b)
    with Suc.prems cmd have "counted_loop_exit_effect ?eff p b = Some e"
      "counted_loop_exit_effect ?eff' p b = Some e'" by (auto simp: Let_def)
    then show ?thesis
      by (auto simp: counted_loop_exit_effect_def effect_le_def split: bind_splits
          dest: seq[of b, unfolded effect_le_def])
  next
    case (CArithmeticFor b)
    with Suc.prems cmd have "counted_loop_exit_effect ?eff p b = Some e"
      "counted_loop_exit_effect ?eff' p b = Some e'" by (auto simp: Let_def)
    then show ?thesis
      by (auto simp: counted_loop_exit_effect_def effect_le_def split: bind_splits
          dest: seq[of b, unfolded effect_le_def])
  next
    case (CBraceGroup b)
    with Suc.prems cmd seq[of b] show ?thesis by (auto simp: Let_def)
  qed (use Suc.prems cmd in auto)
qed simp
section \<open>The fixpoint\<close>

lemma always_exits_iff:
  "function_scope_always_exits_script n p scope T = Some True \<longleftrightarrow>
     (\<exists>e. sequence_exit_effect (command_exit_effect n p T) p (function_body p scope) = Some e
        \<and> \<not> may_continue e \<and> \<not> may_return e)"
proof -
  have "may_exit e" if "sequence_exit_effect (command_exit_effect n p T) p (function_body p scope) = Some e"
    "\<not> may_continue e" "\<not> may_return e" for e
  proof -
    from that(1) obtain cs where "sequence_of (command_exit_effect n p T) cs = Some e"
      by (auto simp: sequence_exit_effect_of split: bind_splits)
    then have "effect_some e" by (rule sequence_of_some[rotated]) (rule command_effect_some)
    with that show ?thesis by (simp add: effect_some_def)
  qed
  then show ?thesis
    by (auto simp: function_scope_always_exits_script_def split: bind_splits)
qed

definition covered :: "(command_id \<Rightarrow> nat) \<Rightarrow> nat \<Rightarrow> recorded_program \<Rightarrow> bool" where
  "covered rank n p \<longleftrightarrow> wf_program rank p \<and> (\<forall>c < length (rp_commands p). rank c < n)"

lemma function_body_below:
  assumes "covered rank n p"
  shows "below rank n p (function_body p scope)"
proof (cases "map_of (rp_function_bodies p) scope")
  case None
  then show ?thesis
    by (simp add: function_body_def below_def commands_in_def range_items_def slice_opt_def range_empty_def)
next
  case (Some r)
  then have "(scope, r) \<in> set (rp_function_bodies p)" by (rule map_of_SomeD)
  with assms Some show ?thesis
    by (auto simp: function_body_def covered_def wf_program_def list_all_iff intro!: range_ok_below)
qed

lemma always_exits_total:
  assumes "covered rank n p"
  shows "\<exists>b. function_scope_always_exits_script n p scope T = Some b"
proof -
  have "\<exists>e. sequence_exit_effect (command_exit_effect n p T) p (function_body p scope) = Some e"
    using assms by (intro sequence_total[OF function_body_below] command_exit_effect_total)
      (auto simp: covered_def wf_program_def)
  then show ?thesis by (auto simp: function_scope_always_exits_script_def)
qed

lemma always_exits_mono:
  assumes "covered rank n p" "T \<subseteq> T'" "function_scope_always_exits_script n p scope T = Some True"
  shows "function_scope_always_exits_script n p scope T' = Some True"
proof -
  from assms(3) obtain e cs where e: "commands_in p (function_body p scope) = Some cs"
    "sequence_of (command_exit_effect n p T) cs = Some e" "\<not> may_continue e" "\<not> may_return e"
    by (auto simp: always_exits_iff sequence_exit_effect_of split: bind_splits)
  from always_exits_total[OF assms(1), of scope T'] obtain e' where
    e': "sequence_of (command_exit_effect n p T') cs = Some e'"
    using e(1) by (auto simp: function_scope_always_exits_script_def sequence_exit_effect_of split: bind_splits)
  have "effect_le e' e"
    by (rule sequence_of_mono[OF command_effect_mono[OF assms(2)] e(2) e'])
  with e e' show ?thesis by (auto simp: always_exits_iff sequence_exit_effect_of effect_le_def)
qed

definition call_key :: "recorded_program \<Rightarrow> resolved_call \<Rightarrow> span_key" where
  "call_key p call = span_key (recorded_command_span_for_call_site p (rv_site call))"

definition installed :: "nat \<Rightarrow> recorded_program \<Rightarrow> call_tables \<Rightarrow> resolved_call \<Rightarrow> bool" where
  "installed n p ct call \<longleftrightarrow> rv_binding call < length (ct_bindings ct)
     \<and> file_entry_can_return_before_function_definition n p
         (start_offset (ct_bindings ct ! rv_binding call)) = Some False"

text \<open>What a round of the loop leaves: justified scopes and calls.\<close>

definition justified ::
  "nat \<Rightarrow> recorded_program \<Rightarrow> call_tables \<Rightarrow> scope_id set \<Rightarrow> span_key set \<Rightarrow> bool" where
  "justified n p ct always T \<longleftrightarrow>
     always \<subseteq> set (map fst (rp_function_bodies p))
     \<and> (\<forall>s \<in> always. function_scope_always_exits_script n p s T = Some True)
     \<and> (\<forall>key \<in> T. \<exists>call \<in> set (program_calls p ct).
          key = call_key p call \<and> rv_callee_scope call \<in> always \<and> installed n p ct call)"

lemma scope_fold:
  assumes "covered rank n p" "set scopes \<subseteq> set (map fst (rp_function_bodies p))" "justified n p ct always T"
    and "fold_opt (scope_step n p T) scopes (ch, always) = Some (ch', always')"
  shows "justified n p ct always' T \<and> always \<subseteq> always' \<and> (ch \<longrightarrow> ch')
    \<and> (\<not> ch' \<longrightarrow> always' = always) \<and> (ch' \<longrightarrow> ch \<or> always' \<noteq> always)
    \<and> (\<forall>s \<in> set scopes. s \<notin> always' \<longrightarrow> function_scope_always_exits_script n p s T \<noteq> Some True)"
  using assms(2-4)
proof (induction scopes arbitrary: ch always)
  case Nil
  then show ?case by auto
next
  case (Cons s scopes)
  show ?case
  proof (cases "s \<in> always")
    case True
    with Cons show ?thesis by (auto simp: scope_step_def[of _ _ _ s])
  next
    case False
    obtain b where b: "function_scope_always_exits_script n p s T = Some b"
      using always_exits_total[OF assms(1)] by blast
    show ?thesis
    proof (cases b)
      case False
      with b \<open>s \<notin> always\<close> Cons show ?thesis by (auto simp: scope_step_def[of _ _ _ s])
    next
      case True
      have "justified n p ct (insert s always) T"
        using Cons.prems(1,2) b True by (auto simp: justified_def)
      moreover have "fold_opt (scope_step n p T) scopes (True, insert s always) = Some (ch', always')"
        using Cons.prems(3) b True \<open>s \<notin> always\<close> by (simp add: scope_step_def[of _ _ _ s])
      ultimately show ?thesis using Cons.IH[of "insert s always" True] Cons.prems(1) \<open>s \<notin> always\<close> by auto
    qed
  qed
qed

lemma justified_insert:
  assumes "covered rank n p" "justified n p ct always T" "call \<in> set (program_calls p ct)"
    "rv_callee_scope call \<in> always" "installed n p ct call"
  shows "justified n p ct always (insert (call_key p call) T)"
  using assms always_exits_mono[OF assms(1), of T "insert (call_key p call) T"]
  unfolding justified_def by blast

lemma resolve_fold:
  assumes "covered rank n p" "set calls \<subseteq> set (program_calls p ct)" "justified n p ct always T"
    and "fold_opt (resolve_step n p ct always) calls (ch, T) = Some (ch', T')"
  shows "justified n p ct always T' \<and> T \<subseteq> T' \<and> (ch \<longrightarrow> ch')
    \<and> (\<not> ch' \<longrightarrow> T' = T) \<and> (ch' \<longrightarrow> ch \<or> T' \<noteq> T)
    \<and> (\<forall>call \<in> set calls. rv_callee_scope call \<in> always \<and> installed n p ct call \<longrightarrow> call_key p call \<in> T')"
  using assms(2-4)
proof (induction calls arbitrary: ch T)
  case Nil
  then show ?case by auto
next
  case (Cons call calls)
  show ?case
  proof (cases "rv_callee_scope call \<in> always \<and> installed n p ct call")
    case True
    have J: "justified n p ct always (insert (call_key p call) T)"
      using justified_insert[OF assms(1) Cons.prems(2)] Cons.prems(1) True by simp
    have "fold_opt (resolve_step n p ct always) calls
        (ch \<or> call_key p call \<notin> T, insert (call_key p call) T) = Some (ch', T')"
      using Cons.prems(3) True
      by (simp add: resolve_step_def[of _ _ _ _ call] installed_def call_key_def Let_def nth_opt_def)
    from Cons.IH[OF _ J this] Cons.prems(1) show ?thesis by auto
  next
    case False
    then have "fold_opt (resolve_step n p ct always) calls (ch, T) = Some (ch', T')"
      using Cons.prems(3)
      by (auto simp: resolve_step_def[of _ _ _ _ call] installed_def nth_opt_def split: bind_splits if_splits)
    from Cons.IH[OF _ Cons.prems(2) this] Cons.prems(1) False show ?thesis by auto
  qed
qed
definition fixpoint :: "nat \<Rightarrow> recorded_program \<Rightarrow> call_tables \<Rightarrow> span_key set \<Rightarrow> bool" where
  "fixpoint n p ct T \<longleftrightarrow> (\<forall>key. key \<in> T \<longleftrightarrow> (\<exists>call \<in> set (program_calls p ct).
     key = call_key p call \<and> installed n p ct call
     \<and> function_scope_always_exits_script n p (rv_callee_scope call) T = Some True))"

lemma no_body_continues:
  assumes "scope \<notin> set (map fst (rp_function_bodies p))"
  shows "function_scope_always_exits_script n p scope T \<noteq> Some True"
proof -
  have "map_of (rp_function_bodies p) scope = None"
    using assms by (simp add: map_of_eq_None_iff)
  then show ?thesis
    by (simp add: always_exits_iff function_body_def sequence_exit_effect_of commands_in_def
        range_items_def slice_opt_def range_empty_def)
qed

lemma round_facts:
  assumes cov: "covered rank n p" and J: "justified n p ct always T"
    and step: "fold_opt (scope_step n p T) (map fst (rp_function_bodies p)) (False, always) = Some (ch, always')"
    and resolve: "resolve_script_terminating_call_spans n p ct always' T = Some (res, T')"
  shows "justified n p ct always' T'" "\<not> ch \<and> \<not> res \<longrightarrow> fixpoint n p ct T'"
    "ch \<or> res \<longrightarrow> always \<union> {} \<subset> always' \<or> T \<subset> T'" "always \<subseteq> always'" "T \<subseteq> T'"
proof -
  note A = scope_fold[OF cov subset_refl J step]
  then have "justified n p ct always' T" by simp
  note B = resolve_fold[OF cov subset_refl this resolve[unfolded resolve_script_terminating_call_spans_def]]
  show J': "justified n p ct always' T'" using B by simp
  show "always \<subseteq> always'" "T \<subseteq> T'" using A B by auto
  show "ch \<or> res \<longrightarrow> always \<union> {} \<subset> always' \<or> T \<subset> T'" using A B by auto
  show "\<not> ch \<and> \<not> res \<longrightarrow> fixpoint n p ct T'"
  proof
    assume stop: "\<not> ch \<and> \<not> res"
    then have "T' = T" "always' = always" using A B by auto
    have closed: "s \<in> always" if "function_scope_always_exits_script n p s T = Some True" for s
      using A that no_body_continues[of s p n T] \<open>always' = always\<close> by auto
    show "fixpoint n p ct T'"
      unfolding fixpoint_def \<open>T' = T\<close>
    proof (intro allI iffI)
      fix key assume "key \<in> T"
      with J show "\<exists>call \<in> set (program_calls p ct). key = call_key p call \<and> installed n p ct call
          \<and> function_scope_always_exits_script n p (rv_callee_scope call) T = Some True"
        unfolding justified_def by blast
    next
      fix key assume "\<exists>call \<in> set (program_calls p ct). key = call_key p call
        \<and> installed n p ct call
        \<and> function_scope_always_exits_script n p (rv_callee_scope call) T = Some True"
      with closed B \<open>T' = T\<close> \<open>always' = always\<close> show "key \<in> T" by auto
    qed
  qed
qed

lemma rounds_fixpoint:
  assumes "covered rank n p"
  shows "justified n p ct always T \<Longrightarrow> terminating_rounds k n p ct always T = Some R \<Longrightarrow> fixpoint n p ct R"
proof (induction k arbitrary: always T)
  case (Suc k)
  from Suc.prems(2) obtain ch always' res T' where
    step: "fold_opt (scope_step n p T) (map fst (rp_function_bodies p)) (False, always) = Some (ch, always')"
    and resolve: "resolve_script_terminating_call_spans n p ct always' T = Some (res, T')"
    and more: "(if ch \<or> res then terminating_rounds k n p ct always' T' else Some T') = Some R"
    by (auto split: bind_splits)
  from round_facts(1,2)[OF assms Suc.prems(1) step resolve] more Suc.IH[of always' T'] show ?case
    by (auto split: if_splits)
qed simp

text \<open>The rounds end: each one that goes on has found a new scope or a new call.\<close>

lemma command_can_return_before_total:
  assumes "ranked rank p"
  shows "c < length (rp_commands p) \<Longrightarrow> rank c < n \<Longrightarrow> \<exists>b. command_can_return_before n p off c = Some b"
proof (induction n arbitrary: c)
  case (Suc n)
  define cmd where "cmd = rp_commands p ! c"
  let ?can = "command_can_return_before n p off"
  have at: "command_at p c = Some cmd" using Suc.prems by (simp add: command_at_def cmd_def)
  note parts = ranked_parts[OF assms Suc.prems(1) cmd_def]
  have can: "\<exists>b. ?can d = Some b" if "d < length (rp_commands p)" "rank d < rank c" for d
    using Suc.IH[of d] Suc.prems(2) that by simp
  have seq: "\<exists>b. range_can_return ?can p r = Some b" if "below rank (rank c) p r" for r
  proof -
    from that obtain cs where cs: "commands_in p r = Some cs"
      "\<And>d. d \<in> set cs \<Longrightarrow> d < length (rp_commands p) \<and> rank d < rank c" by (auto simp: below_def)
    then have "\<exists>b. any_opt ?can cs = Some b" by (intro any_opt_total can) auto
    with cs(1) show ?thesis by (simp add: range_can_return_def)
  qed
  show ?case
  proof (cases "rc_kind cmd")
    case (CList f r)
    with parts(2) obtain items where "list_items p r = Some items" "\<exists>b. ?can f = Some b"
      "\<exists>b. any_opt (\<lambda>i. ?can (lt_command i)) items = Some b"
      using can by (auto intro!: any_opt_total)
    then show ?thesis using or_opt_total by (simp add: at CList Let_def)
  next
    case (CIf a t e l)
    with parts(3) obtain bs where bs: "elif_branches p e = Some bs"
      "\<And>b. b \<in> set bs \<Longrightarrow> below rank (rank c) p (eb_condition b) \<and> below rank (rank c) p (eb_body b)"
      and below: "below rank (rank c) p a" "below rank (rank c) p t" "below rank (rank c) p l"
      by auto
    have "\<exists>x. any_opt (\<lambda>b. or_opt (range_can_return ?can p (eb_condition b))
        (range_can_return ?can p (eb_body b))) bs = Some x"
      using bs(2) by (intro any_opt_total or_opt_total seq) auto
    with bs(1) seq[OF below(1)] seq[OF below(2)] seq[OF below(3)] show ?thesis
      using or_opt_total by (simp add: at CIf Let_def)
  next
    case (CCase r)
    with parts(6) obtain arms where arms: "case_arms p r = Some arms"
      "\<exists>b. any_opt (\<lambda>arm. range_can_return ?can p (ca_commands arm)) arms = Some b"
      using seq by (auto intro!: any_opt_total)
    then show ?thesis by (simp add: at CCase Let_def)
  next
    case (CWhile a b)
    with parts(4)[of a b] seq[of a] seq[of b] or_opt_total show ?thesis by (simp add: at Let_def)
  next
    case (CUntil a b)
    with parts(4)[of a b] seq[of a] seq[of b] or_opt_total show ?thesis by (simp add: at Let_def)
  next
    case (CAlways a b)
    with parts(4)[of a b] seq[of a] seq[of b] or_opt_total show ?thesis by (simp add: at Let_def)
  next
    case (CFor b)
    with parts(5)[of b] seq[of b] show ?thesis by (auto simp: at Let_def)
  next
    case (CSelect b)
    with parts(5)[of b] seq[of b] show ?thesis by (auto simp: at Let_def)
  next
    case (CArithmeticFor b)
    with parts(5)[of b] seq[of b] show ?thesis by (auto simp: at Let_def)
  next
    case (CBraceGroup b)
    with parts(5)[of b] seq[of b] show ?thesis by (auto simp: at Let_def)
  qed (auto simp: at Let_def)
qed simp

definition bindings_ok :: "recorded_program \<Rightarrow> call_tables \<Rightarrow> bool" where
  "bindings_ok p ct \<longleftrightarrow>
     list_all (\<lambda>call. rv_binding call < length (ct_bindings ct)) (program_calls p ct)"

lemma round_total:
  assumes "covered rank n p" "bindings_ok p ct"
  shows "\<exists>ch always'. fold_opt (scope_step n p T) scopes (b, always) = Some (ch, always')"
    and "\<exists>res T'. resolve_script_terminating_call_spans n p ct always T = Some (res, T')"
proof -
  have "\<exists>r. fold_opt (scope_step n p T) scopes (b, always) = Some r"
  proof (rule fold_opt_defined)
    fix s and st :: "bool \<times> scope_id set"
    obtain ch al where "st = (ch, al)" by fastforce
    with always_exits_total[OF assms(1), of s T] show "\<exists>st'. scope_step n p T s st = Some st'"
      by (auto simp: scope_step_def)
  qed
  then show "\<exists>ch always'. fold_opt (scope_step n p T) scopes (b, always) = Some (ch, always')" by auto
  have early: "\<exists>b. file_entry_can_return_before_function_definition n p off = Some b" for off
  proof -
    have "below rank n p (rp_file_commands p)"
      using assms(1) by (intro range_ok_below) (auto simp: covered_def wf_program_def)
    then obtain cs where "commands_in p (rp_file_commands p) = Some cs"
      "\<And>c. c \<in> set cs \<Longrightarrow> c < length (rp_commands p) \<and> rank c < n" by (auto simp: below_def)
    then show ?thesis
      using any_opt_total[of cs "command_can_return_before n p off"]
        command_can_return_before_total[of rank p] assms(1)
      by (auto simp: file_entry_can_return_before_function_definition_def range_can_return_def
          covered_def wf_program_def)
  qed
  have "\<exists>r. fold_opt (resolve_step n p ct always) (program_calls p ct) (False, T) = Some r"
  proof (rule fold_opt_defined)
    fix call and st :: "bool \<times> span_key set"
    assume "call \<in> set (program_calls p ct)"
    then have "rv_binding call < length (ct_bindings ct)"
      using assms(2) by (simp add: bindings_ok_def list_all_iff)
    moreover obtain ch S where "st = (ch, S)" by fastforce
    ultimately show "\<exists>st'. resolve_step n p ct always call st = Some st'"
      using early[of "start_offset (ct_bindings ct ! rv_binding call)"]
      by (auto simp: resolve_step_def nth_opt_def Let_def)
  qed
  then show "\<exists>res T'. resolve_script_terminating_call_spans n p ct always T = Some (res, T')"
    by (auto simp: resolve_script_terminating_call_spans_def)
qed

lemma rounds_total:
  assumes "covered rank n p" "bindings_ok p ct"
  shows "justified n p ct always T \<Longrightarrow>
    card (set (map fst (rp_function_bodies p)) - always)
      + card (call_key p ` set (program_calls p ct) - T) < k \<Longrightarrow>
    \<exists>R. terminating_rounds k n p ct always T = Some R"
proof (induction k arbitrary: always T)
  case (Suc k)
  let ?S = "set (map fst (rp_function_bodies p))" and ?K = "call_key p ` set (program_calls p ct)"
  from round_total[OF assms] obtain ch always' res T' where
    step: "fold_opt (scope_step n p T) (map fst (rp_function_bodies p)) (False, always) = Some (ch, always')"
    and resolve: "resolve_script_terminating_call_spans n p ct always' T = Some (res, T')"
    by metis
  note facts = round_facts[OF assms(1) Suc.prems(1) step resolve]
  show ?case
  proof (cases "ch \<or> res")
    case False
    with step resolve show ?thesis by simp
  next
    case True
    have sub: "always' \<subseteq> ?S" "T' \<subseteq> ?K" using facts(1) by (auto simp: justified_def)
    have "card (?S - always') \<le> card (?S - always)" "card (?K - T') \<le> card (?K - T)"
      using facts(4,5) by (auto intro!: card_mono)
    moreover have "card (?S - always') < card (?S - always) \<or> card (?K - T') < card (?K - T)"
      using facts(3) True sub by (auto intro!: psubset_card_mono)
    ultimately have "card (?S - always') + card (?K - T') < k" using Suc.prems(2) by linarith
    from Suc.IH[OF facts(1) this] step resolve True show ?thesis by simp
  qed
qed simp

section \<open>Where the analysis goes wrong\<close>

text \<open>The function \<open>f() { exit & }\<close>.\<close>

definition background_program :: recorded_program where
  "background_program = program_default
     \<lparr>rp_commands := [(demo_command 6 12 Exit)\<lparr>rc_background := True\<rparr>],
      rp_command_sequence_items := [0], rp_function_bodies := [(1, demo_range 0 1)]\<rparr>"

text \<open>C27: The analysis does not look at \<open>background\<close>: the function \<open>f() { exit & }\<close> counts as one
  that always exits the script, although the background job hands control back and the body ends
  normally.\<close>

theorem background_exit_counts_as_exit:
  "function_scope_always_exits_script 1 background_program 1 {} = Some True
   \<and> execs background_program {} 0 [0] ONormal"
proof
  show "function_scope_always_exits_script 1 background_program 1 {} = Some True"
    by (simp add: always_exits_iff background_program_def function_body_def sequence_exit_effect_of
        commands_in_def range_items_def slice_opt_def demo_defs effect_exiting_def command_at_def
        nth_opt_def)
  have "exec background_program {} 0 0 ONormal"
    by (rule ex_background[where cmd = "(demo_command 6 12 Exit)\<lparr>rc_background := True\<rparr>"])
      (simp_all add: background_program_def command_at_def)
  then show "execs background_program {} 0 [0] ONormal" by (blast intro: seq_next seq_nil)
qed

text \<open>
  The zsh function
  \<open>f() { while :; do { if :; then break; fi; exit; } always { return; }; done; exit; }\<close>.
\<close>

definition always_program :: recorded_program where
  "always_program = program_default
     \<lparr>rp_commands :=
        [demo_command 60 64 Exit,
         demo_command 10 58 (CWhile (demo_range 1 1) (demo_range 2 1)),
         demo_command 16 17 Linear,
         demo_command 22 54 (CAlways (demo_range 3 2) (demo_range 5 1)),
         demo_command 24 34 (CIf (demo_range 6 1) (demo_range 7 1) range_empty range_empty),
         demo_command 27 28 Linear, demo_command 29 33 (Break 1), demo_command 36 40 Exit,
         demo_command 46 52 Return],
      rp_command_sequence_items := [1, 2, 3, 4, 7, 8, 5, 6, 1, 0],
      rp_function_bodies := [(1, demo_range 8 2)]\<rparr>"

lemma always_program_at:
  "command_at always_program 0 = Some (demo_command 60 64 Exit)"
  "command_at always_program 1 = Some (demo_command 10 58 (CWhile (demo_range 1 1) (demo_range 2 1)))"
  "command_at always_program 2 = Some (demo_command 16 17 Linear)"
  "command_at always_program 3 = Some (demo_command 22 54 (CAlways (demo_range 3 2) (demo_range 5 1)))"
  "command_at always_program 4
     = Some (demo_command 24 34 (CIf (demo_range 6 1) (demo_range 7 1) range_empty range_empty))"
  "command_at always_program 5 = Some (demo_command 27 28 Linear)"
  "command_at always_program 6 = Some (demo_command 29 33 (Break 1))"
  "command_at always_program 7 = Some (demo_command 36 40 Exit)"
  "command_at always_program 8 = Some (demo_command 46 52 Return)"
  by code_simp+

text \<open>C40: Leaving a loop from inside a zsh try block runs its always part, which may return from the
  function; the effect of that part is only taken over when the block may continue, and the function
  counts as always exiting the script although its body can return.\<close>

theorem always_return_is_missed:
  "function_scope_always_exits_script 5 always_program 1 {} = Some True
   \<and> execs always_program {} 0 [1, 0] OReturn"
proof
  show "function_scope_always_exits_script 5 always_program 1 {} = Some True" by code_simp
  let ?p = always_program
  have lin: "exec ?p {} d c ONormal" if "c = 2 \<or> c = 5" for d c
    using that by (auto intro!: ex_linear simp: always_program_at demo_command_def)
  have "exec ?p {} 1 6 (OBreak 1)"
    by (rule ex_break[OF always_program_at(7)]) (simp_all add: demo_command_def)
  then have "execs ?p {} 1 [6] (OBreak 1)" by (blast intro: seq_stop)
  moreover have "commands_in ?p (demo_range 6 1) = Some [5]" "commands_in ?p (demo_range 7 1) = Some [6]"
    by code_simp+
  moreover have "execs ?p {} 1 [5] ONormal" using lin by (blast intro: seq_next seq_nil)
  ultimately have "exec ?p {} 1 4 (OBreak 1)"
    by (intro ex_if_then[OF always_program_at(5)]) (simp_all add: demo_command_def)
  then have try_block: "execs ?p {} 1 [4, 7] (OBreak 1)" by (blast intro: seq_stop)
  have "exec ?p {} 1 8 OReturn"
    by (rule ex_return[OF always_program_at(9)]) (simp_all add: demo_command_def)
  then have always_block: "execs ?p {} 1 [8] OReturn" by (blast intro: seq_stop)
  have "exec ?p {} 1 3 OReturn"
  proof (rule ex_always[OF always_program_at(4)])
    show "commands_in ?p (demo_range 3 2) = Some [4, 7]" "commands_in ?p (demo_range 5 1) = Some [8]"
      by code_simp+
    show "execs ?p {} 1 [4, 7] (OBreak 1)" by (rule try_block)
    show "execs ?p {} 1 [8] OReturn" by (rule always_block)
  qed (simp_all add: demo_command_def)
  then have "execs ?p {} 1 [3] OReturn" by (blast intro: seq_stop)
  moreover have "execs ?p {} 1 [2] ONormal" using lin by (blast intro: seq_next seq_nil)
  ultimately have "exec_loop ?p {} 0 [2] [3] OReturn"
    by (intro loop_body[where d = 0 and out = OReturn]) simp_all
  moreover have "commands_in ?p (demo_range 1 1) = Some [2]" "commands_in ?p (demo_range 2 1) = Some [3]"
    by code_simp+
  ultimately have "exec ?p {} 0 1 OReturn"
    by (intro ex_while[OF always_program_at(2)]) (simp_all add: demo_command_def)
  then show "execs ?p {} 0 [1, 0] OReturn" by (blast intro: seq_stop)
qed

section \<open>Properties\<close>

text \<open>Effects are always computed: on a well-formed program, fuel above the rank of a command
  suffices, so the recursion of the analysis ends and reads no store out of range.\<close>

theorem exit_effect_computed:
  assumes "ranked rank p" "c < length (rp_commands p)" "rank c < n"
  shows "\<exists>e. command_exit_effect n p T c = Some e \<and> (may_continue e \<or> may_return e \<or> may_exit e)"
  using command_exit_effect_total[OF assms] command_effect_some by (force simp: effect_some_def)

theorem exit_effect_computed_witness:
  "\<exists>e. command_exit_effect 4 always_program {} 1 = Some e \<and> (may_continue e \<or> may_return e \<or> may_exit e)"
proof -
  let ?rank = "\<lambda>c :: nat. if c = 1 then 3 else if c = 3 then 2 else if c = 4 then 1 else 0 :: nat"
  have "ranked ?rank always_program" "1 < length (rp_commands always_program)" by code_simp+
  then show ?thesis using exit_effect_computed[of ?rank always_program 1 4 "{}"] by simp
qed

text \<open>C25: A function reported as always exiting never continues after its call nor returns: every
  execution of its body ends in \<open>exit\<close>.  (The program runs no command in the background, and an
  always block that can return follows a block that can continue.)\<close>

theorem always_exits_is_sound:
  assumes "function_scope_always_exits_script n p scope T = Some True"
    and "no_background p" "always_blocks_ok (n + 1) p T"
    and "commands_in p (function_body p scope) = Some cs" "execs p T 0 cs out"
  shows "out = OExit"
proof -
  from assms(1,4) obtain e where e: "sequence_of (command_exit_effect n p T) cs = Some e"
    "\<not> may_continue e" "\<not> may_return e"
    by (auto simp: always_exits_iff sequence_exit_effect_of)
  have "covers e out" using exec_sound(2)[OF assms(2,3,5)] e(1) by (metis less_add_one)
  moreover have "out \<noteq> OBreak k" "out \<noteq> OContinue k" for k
    using exec_levels(2)[OF assms(5), of k] by auto
  ultimately show ?thesis using e by (cases out) (auto simp: covers_def)
qed

definition fatal_program :: recorded_program where
  "fatal_program = program_default
     \<lparr>rp_commands := [demo_command 8 12 Linear, demo_command 14 18 Exit, demo_command 20 25 Linear],
      rp_command_sequence_items := [0, 1, 2], rp_file_commands := demo_range 2 1,
      rp_function_bodies := [(1, demo_range 0 2)], rp_function_body_scopes := [(0, 1)]\<rparr>"

theorem always_exits_is_sound_witness:
  "execs fatal_program {} 0 [0, 1] OExit \<and> \<not> execs fatal_program {} 0 [0, 1] ONormal"
proof -
  have facts: "function_scope_always_exits_script 1 fatal_program 1 {} = Some True"
    "no_background fatal_program" "always_blocks_ok (1 + 1) fatal_program {}"
    "commands_in fatal_program (function_body fatal_program 1) = Some [0, 1]"
    by (code_simp, code_simp, simp add: always_blocks_ok_def fatal_program_def demo_command_def, code_simp)
  have at: "command_at fatal_program 0 = Some (demo_command 8 12 Linear)"
    "command_at fatal_program 1 = Some (demo_command 14 18 Exit)" by code_simp+
  have "exec fatal_program {} 0 0 ONormal"
    by (rule ex_linear[OF at(1)]) (simp_all add: demo_command_def)
  moreover have "exec fatal_program {} 0 1 OExit"
    by (rule ex_exit[OF at(2)]) (simp_all add: demo_command_def)
  ultimately have "execs fatal_program {} 0 [0, 1] OExit" by (blast intro: seq_next seq_stop)
  with always_exits_is_sound[OF facts] show ?thesis by blast
qed

lemma terminating_calls_total:
  assumes "covered rank n p" "bindings_ok p ct"
    and "length (rp_function_bodies p) + length (program_calls p ct) < k"
  shows "\<exists>T. compute_script_terminating_call_spans k n p ct = Some T"
proof (cases "rp_function_body_scopes p = [] \<or> ct_call_sites ct = []")
  case False
  have "card (set (map fst (rp_function_bodies p)) - {})
      + card (call_key p ` set (program_calls p ct) - {}) < k"
    using assms(3) card_length[of "map fst (rp_function_bodies p)"]
      card_image_le[of "set (program_calls p ct)" "call_key p"]
      card_length[of "program_calls p ct"] by simp
  from rounds_total[OF assms(1,2) _ this] False show ?thesis
    by (simp add: compute_script_terminating_call_spans_def justified_def)
qed (simp add: compute_script_terminating_call_spans_def)

text \<open>C26: The search for terminating calls ends after at most one round per function scope and call,
  without panic, in the set of calls it describes: a call is in the set just when its function is
  resolved, always exits given the calls in the set, and no return at file level can come before the
  definition.\<close>

theorem terminating_calls_fixpoint:
  assumes "covered rank n p" "bindings_ok p ct"
    and "length (rp_function_bodies p) + length (program_calls p ct) < k"
  shows "\<exists>T. compute_script_terminating_call_spans k n p ct = Some T \<and> fixpoint n p ct T"
proof -
  obtain T where T: "compute_script_terminating_call_spans k n p ct = Some T"
    using terminating_calls_total[OF assms] by blast
  show ?thesis
  proof (cases "rp_function_body_scopes p = [] \<or> ct_call_sites ct = []")
    case True
    then have "program_calls p ct = []"
      by (auto simp: resolved_function_calls_def List.map_filter_def resolve_call_def)
    with True show ?thesis by (simp add: compute_script_terminating_call_spans_def fixpoint_def)
  next
    case False
    have "justified n p ct {} {}" by (simp add: justified_def)
    from rounds_fixpoint[OF assms(1) this] T False show ?thesis
      by (auto simp: compute_script_terminating_call_spans_def)
  qed
qed

definition fatal_calls :: call_tables where
  "fatal_calls =
     \<lparr>ct_call_sites = [(''fatal'', [\<lparr>cs_callee = ''fatal'', cs_span = demo_span 20 25,
        cs_name_span = demo_span 20 25, cs_scope = 0, cs_arg_count = 0\<rparr>])],
      ct_bindings = [demo_span 0 5],
      ct_visible_bindings = [span_key (demo_span 20 25) \<mapsto> 0]\<rparr>"

theorem terminating_calls_fixpoint_witness:
  "\<exists>T. compute_script_terminating_call_spans 3 1 fatal_program fatal_calls = Some T
     \<and> fixpoint 1 fatal_program fatal_calls T"
proof (rule terminating_calls_fixpoint[where rank = "\<lambda>_. 0"])
  have "wf_program (\<lambda>_. 0) fatal_program" by code_simp
  then show "covered (\<lambda>_. 0) 1 fatal_program" by (simp add: covered_def)
  show "bindings_ok fatal_program fatal_calls" by code_simp
  show "length (rp_function_bodies fatal_program)
      + length (program_calls fatal_program fatal_calls) < 3" by code_simp
qed

end
