(* ===== verification/Cfg_Builder.thy ===== *)
theory Cfg_Builder
  imports Exit_Effects
begin

text \<open>
  Model of \<open>crates/shucked-semantic/src/cfg/builder.rs\<close> and of the data of
  \<open>crates/shucked-semantic/src/cfg/graph.rs\<close>: the construction of the control-flow graph from the
  recorded command stream.

  The mutable fields of \<open>GraphBuilder\<close> are the record \<open>graph_builder\<close>, passed along explicitly; the
  borrowed fields are the record \<open>build_env\<close>.  An operation returns \<open>None\<close> when the code panics (an
  index out of a vector or store) or when fuel runs out.  The mutual recursion of \<open>build_command\<close>
  with its helpers is open: a helper takes the function that builds one command, and \<open>build_command\<close>
  ties the knot with one unit of fuel per level of nesting.  Block identifiers are the naturals
  behind \<open>BlockId\<close>, exact below 2^32 blocks.
\<close>

section \<open>Data\<close>

type_synonym block_id = nat

record basic_block =
  bb_id :: block_id
  bb_commands :: "span list"
  bb_bindings :: "binding_id list"
  bb_references :: "reference_id list"

datatype edge_kind =
    Sequential | ConditionalTrue | ConditionalFalse | LoopBack | LoopExit
  | CaseArm | CaseFallthrough | CaseContinue | NestedRegion

type_synonym flow_edge = "block_id \<times> edge_kind"

datatype unreachable_cause_kind = ShellTerminator | ScriptTerminatingFunctionCall | LoopControl

record unreachable_cause =
  uc_span :: span
  uc_kind :: unreachable_cause_kind

definition shell_terminator :: "span \<Rightarrow> unreachable_cause" where
  "shell_terminator s = \<lparr>uc_span = s, uc_kind = ShellTerminator\<rparr>"

definition script_terminating_function_call :: "span \<Rightarrow> unreachable_cause" where
  "script_terminating_function_call s = \<lparr>uc_span = s, uc_kind = ScriptTerminatingFunctionCall\<rparr>"

definition loop_control :: "span \<Rightarrow> unreachable_cause" where
  "loop_control s = \<lparr>uc_span = s, uc_kind = LoopControl\<rparr>"

record sequence_result =
  sr_entry :: "block_id option"
  sr_exits :: "block_id list"
  sr_terminal_cause :: "unreachable_cause option"

record loop_target =
  lt_continue_target :: block_id
  lt_break_target :: block_id

record build_env =
  be_program :: recorded_program
  be_command_bindings :: "span_key \<rightharpoonup> binding_id list"
  be_command_references :: "span_key \<rightharpoonup> reference_id list"
  be_script_terminating_calls :: "span_key set"

record graph_builder =
  gb_blocks :: "basic_block list"
  gb_successors :: "flow_edge list list"
  gb_command_blocks :: "span_key \<rightharpoonup> block_id list"
  gb_unreachable_causes :: "block_id \<rightharpoonup> unreachable_cause"
  gb_scope_entries :: "(scope_id \<times> block_id) list"
  gb_script_terminators :: "block_id list"

definition builder_new :: graph_builder where
  "builder_new = \<lparr>gb_blocks = [], gb_successors = [], gb_command_blocks = Map.empty,
     gb_unreachable_causes = Map.empty, gb_scope_entries = [], gb_script_terminators = []\<rparr>"

section \<open>Blocks and edges\<close>

definition map_default :: "('k \<rightharpoonup> 'a list) \<Rightarrow> 'k \<Rightarrow> 'a list" where
  "map_default m k = (case m k of Some xs \<Rightarrow> xs | None \<Rightarrow> [])"

definition command_block :: "build_env \<Rightarrow> span \<Rightarrow> graph_builder \<Rightarrow> block_id \<times> graph_builder" where
  "command_block env s g =
     (let i = length (gb_blocks g); key = span_key s
      in (i, g\<lparr>gb_blocks := gb_blocks g @ [\<lparr>bb_id = i, bb_commands = [s],
                 bb_bindings = map_default (be_command_bindings env) key,
                 bb_references = map_default (be_command_references env) key\<rparr>],
               gb_successors := gb_successors g @ [[]],
               gb_command_blocks := (gb_command_blocks g)
                 (key \<mapsto> map_default (gb_command_blocks g) key @ [i])\<rparr>))"

definition empty_block :: "graph_builder \<Rightarrow> block_id \<times> graph_builder" where
  "empty_block g =
     (let i = length (gb_blocks g)
      in (i, g\<lparr>gb_blocks := gb_blocks g @ [\<lparr>bb_id = i, bb_commands = [], bb_bindings = [],
                 bb_references = []\<rparr>],
               gb_successors := gb_successors g @ [[]]\<rparr>))"

definition add_edge :: "block_id \<Rightarrow> block_id \<Rightarrow> edge_kind \<Rightarrow> graph_builder \<Rightarrow> graph_builder option" where
  "add_edge from to kind g = do {
     es \<leftarrow> nth_opt (gb_successors g) from;
     ss \<leftarrow> update_opt (gb_successors g) from (es @ [(to, kind)]);
     Some (g\<lparr>gb_successors := ss\<rparr>) }"

definition add_edges ::
  "block_id list \<Rightarrow> block_id \<Rightarrow> edge_kind \<Rightarrow> graph_builder \<Rightarrow> graph_builder option" where
  "add_edges froms to kind = fold_opt (\<lambda>from. add_edge from to kind) froms"

definition mark_unreachable_blocks_since ::
  "nat \<Rightarrow> unreachable_cause \<Rightarrow> graph_builder \<Rightarrow> graph_builder" where
  "mark_unreachable_blocks_since start cause g =
     g\<lparr>gb_unreachable_causes :=
         fold (\<lambda>b m. m(bb_id b \<mapsto> cause)) (drop start (gb_blocks g)) (gb_unreachable_causes g)\<rparr>"

definition append_unique_block_ids :: "block_id list \<Rightarrow> block_id list \<Rightarrow> block_id list" where
  "append_unique_block_ids target source =
     fold (\<lambda>b t. if b \<in> set t then t else t @ [b]) source target"

definition terminal_leaf_blocks :: "nat \<Rightarrow> nat \<Rightarrow> graph_builder \<Rightarrow> block_id list option" where
  "terminal_leaf_blocks start fin g = do {
     bs \<leftarrow> slice_opt (gb_blocks g) start (fin - start);
     if list_all (\<lambda>b. bb_id b < length (gb_successors g)) bs
     then Some (map bb_id (filter (\<lambda>b. gb_successors g ! bb_id b = []) bs)) else None }"

definition script_terminator :: "block_id \<Rightarrow> graph_builder \<Rightarrow> graph_builder" where
  "script_terminator b g = g\<lparr>gb_script_terminators := gb_script_terminators g @ [b]\<rparr>"

text \<open>\<open>scope_entries.entry(scope).or_insert(block)\<close>.\<close>

definition scope_entry_or_insert :: "scope_id \<Rightarrow> block_id \<Rightarrow> graph_builder \<Rightarrow> graph_builder" where
  "scope_entry_or_insert scope b g =
     (case map_of (gb_scope_entries g) scope of
        Some _ \<Rightarrow> g
      | None \<Rightarrow> g\<lparr>gb_scope_entries := gb_scope_entries g @ [(scope, b)]\<rparr>)"

definition resolve_break_target :: "loop_target list \<Rightarrow> nat \<Rightarrow> loop_target option" where
  "resolve_break_target loops depth = nth_opt (rev loops) (depth - 1)"

fun merge_causes :: "span \<Rightarrow> unreachable_cause list \<Rightarrow> unreachable_cause option \<Rightarrow> unreachable_cause option" where
  "merge_causes fallback [] merged = merged"
| "merge_causes fallback (cause # causes) merged =
     merge_causes fallback causes
       (Some (case merged of
          None \<Rightarrow> cause
        | Some existing \<Rightarrow>
            if uc_kind existing = LoopControl \<and> uc_kind cause = LoopControl then existing
            else shell_terminator fallback))"

definition merge_terminal_causes ::
  "span \<Rightarrow> unreachable_cause option list \<Rightarrow> unreachable_cause option" where
  "merge_terminal_causes fallback causes = merge_causes fallback (List.map_filter id causes) None"

text \<open>\<open>exits.is_empty().then_some(cause).flatten()\<close>.\<close>

definition cause_if_empty :: "'a list \<Rightarrow> 'b option \<Rightarrow> 'b option" where
  "cause_if_empty xs cause = (if xs = [] then cause else None)"

definition mark_if :: "bool \<Rightarrow> nat \<Rightarrow> unreachable_cause option \<Rightarrow> graph_builder \<Rightarrow> graph_builder" where
  "mark_if b start cause g =
     (case cause of Some c \<Rightarrow> if b then mark_unreachable_blocks_since start c g else g | None \<Rightarrow> g)"

definition add_edges_to ::
  "block_id list \<Rightarrow> block_id option \<Rightarrow> edge_kind \<Rightarrow> graph_builder \<Rightarrow> graph_builder option" where
  "add_edges_to froms target kind g =
     (case target of Some to \<Rightarrow> add_edges froms to kind g | None \<Rightarrow> Some g)"

section \<open>Sequences\<close>

type_synonym build_result = "(sequence_result \<times> graph_builder) option"

type_synonym command_builder = "loop_target list \<Rightarrow> bool \<Rightarrow> command_id \<Rightarrow> graph_builder \<Rightarrow> build_result"

definition sequence_step ::
  "build_env \<Rightarrow> command_builder \<Rightarrow> loop_target list \<Rightarrow> command_id
    \<Rightarrow> block_id option \<times> block_id list \<times> unreachable_cause option \<times> graph_builder
    \<Rightarrow> (block_id option \<times> block_id list \<times> unreachable_cause option \<times> graph_builder) option" where
  "sequence_step env build loops c = (\<lambda>(entry, pending, cause, g). do {
     cmd \<leftarrow> command_at (be_program env) c;
     let start = length (gb_blocks g);
     (sequence, g) \<leftarrow> build loops (cause \<noteq> None) c g;
     let entry = (if entry = None then sr_entry sequence else entry);
     g \<leftarrow> (case sr_entry sequence of
            None \<Rightarrow> Some g
          | Some command_entry \<Rightarrow>
              (case cause of
                 Some k \<Rightarrow> Some (mark_unreachable_blocks_since start k g)
               | None \<Rightarrow> add_edges pending command_entry Sequential g));
     if sr_exits sequence = []
     then Some (entry, [],
                Some (case cause of Some k \<Rightarrow> k | None \<Rightarrow>
                        (case sr_terminal_cause sequence of
                           Some k \<Rightarrow> k | None \<Rightarrow> shell_terminator (rc_span cmd))), g)
     else Some (entry, sr_exits sequence, cause, g) })"

definition build_sequence ::
  "build_env \<Rightarrow> command_builder \<Rightarrow> recorded_range \<Rightarrow> loop_target list \<Rightarrow> graph_builder \<Rightarrow> build_result" where
  "build_sequence env build r loops g = do {
     cs \<leftarrow> commands_in (be_program env) r;
     (entry, pending, cause, g) \<leftarrow> fold_opt (sequence_step env build loops) cs (None, [], None, g);
     Some (\<lparr>sr_entry = entry, sr_exits = pending, sr_terminal_cause = cause_if_empty pending cause\<rparr>, g) }"

definition attach_region ::
  "build_env \<Rightarrow> command_builder \<Rightarrow> block_id \<Rightarrow> loop_target list \<Rightarrow> isolated_region
    \<Rightarrow> graph_builder \<Rightarrow> graph_builder option" where
  "attach_region env build block loops region g = do {
     (sequence, g) \<leftarrow> build_sequence env build (ir_commands region) loops g;
     (case sr_entry sequence of
        None \<Rightarrow> Some g
      | Some entry \<Rightarrow>
          add_edge block entry NestedRegion (scope_entry_or_insert (ir_scope region) entry g)) }"

definition attach_nested_regions ::
  "build_env \<Rightarrow> command_builder \<Rightarrow> block_id \<Rightarrow> recorded_range \<Rightarrow> loop_target list
    \<Rightarrow> graph_builder \<Rightarrow> graph_builder option" where
  "attach_nested_regions env build block regions loops g = do {
     rs \<leftarrow> nested_regions (be_program env) regions;
     fold_opt (attach_region env build block loops) rs g }"

definition wrap_sequence_with_command_header ::
  "build_env \<Rightarrow> command_builder \<Rightarrow> command_id \<Rightarrow> sequence_result \<Rightarrow> loop_target list \<Rightarrow> bool
    \<Rightarrow> graph_builder \<Rightarrow> build_result" where
  "wrap_sequence_with_command_header env build c sequence loops force g = do {
     cmd \<leftarrow> command_at (be_program env) c;
     let key = span_key (rc_span cmd);
     let has_facts = (be_command_bindings env key \<noteq> None \<or> be_command_references env key \<noteq> None);
     if recorded_range_is_empty (rc_nested_regions cmd) \<and> \<not> force \<and> \<not> has_facts
     then Some (sequence, g)
     else do {
       let (header, g) = command_block env (rc_span cmd) g;
       g \<leftarrow> attach_nested_regions env build header (rc_nested_regions cmd) loops g;
       (case sr_entry sequence of
          Some entry \<Rightarrow> do {
            g \<leftarrow> add_edge header entry Sequential g;
            Some (sequence\<lparr>sr_entry := Some header\<rparr>, g) }
        | None \<Rightarrow>
            Some (\<lparr>sr_entry = Some header, sr_exits = [header], sr_terminal_cause = None\<rparr>, g)) } }"

section \<open>Lists\<close>

record flat_list_segment =
  fs_operator_before :: "(recorded_list_operator \<times> span) option"
  fs_command :: command_id

fun collect_flat_list_segments ::
  "nat \<Rightarrow> recorded_program \<Rightarrow> command_id \<Rightarrow> (recorded_list_operator \<times> span) option
    \<Rightarrow> flat_list_segment list \<Rightarrow> flat_list_segment list option" where
  "collect_flat_list_segments 0 p c operator out = None"
| "collect_flat_list_segments (Suc n) p c operator out = do {
     cmd \<leftarrow> command_at p c;
     (case rc_kind cmd of
        CList first rest \<Rightarrow> do {
          out \<leftarrow> collect_flat_list_segments n p first operator out;
          items \<leftarrow> list_items p rest;
          fold_opt (\<lambda>item out. collect_flat_list_segments n p (lt_command item)
              (Some (lt_operator item, lt_operator_span item)) out) items out }
      | _ \<Rightarrow> Some (out @ [\<lparr>fs_operator_before = operator, fs_command = c\<rparr>])) }"

record list_state =
  ls_success_exits :: "block_id list"
  ls_failure_exits :: "block_id list"
  ls_success_cause :: "unreachable_cause option"
  ls_failure_cause :: "unreachable_cause option"

definition list_join ::
  "span \<Rightarrow> recorded_list_operator \<Rightarrow> block_id list \<Rightarrow> unreachable_cause option \<Rightarrow> list_state \<Rightarrow> list_state" where
  "list_join fallback operator next_exits next_cause ls =
     (let next_cause = cause_if_empty next_exits next_cause in
      case operator of
        And \<Rightarrow>
          (let existing = cause_if_empty (ls_failure_exits ls) (ls_failure_cause ls);
               failure = append_unique_block_ids (ls_failure_exits ls) next_exits
           in \<lparr>ls_success_exits = next_exits, ls_failure_exits = failure,
               ls_success_cause = next_cause,
               ls_failure_cause =
                 (if failure = [] then merge_terminal_causes fallback [existing, next_cause] else None)\<rparr>)
      | Or \<Rightarrow>
          (let existing = cause_if_empty (ls_success_exits ls) (ls_success_cause ls);
               success = append_unique_block_ids (ls_success_exits ls) next_exits
           in \<lparr>ls_success_exits = success, ls_failure_exits = next_exits,
               ls_success_cause =
                 (if success = [] then merge_terminal_causes fallback [existing, next_cause] else None),
               ls_failure_cause = next_cause\<rparr>))"

definition list_segment_step ::
  "command_builder \<Rightarrow> span \<Rightarrow> loop_target list \<Rightarrow> flat_list_segment
    \<Rightarrow> list_state \<times> graph_builder \<Rightarrow> (list_state \<times> graph_builder) option" where
  "list_segment_step build fallback loops item = (\<lambda>(ls, g). do {
     (operator, _) \<leftarrow> fs_operator_before item;
     let next_start = length (gb_blocks g);
     (nxt, g) \<leftarrow> build loops False (fs_command item) g;
     let (triggering_exits, triggering_cause, kind) =
       (case operator of
          And \<Rightarrow> (ls_success_exits ls, ls_success_cause ls, ConditionalTrue)
        | Or \<Rightarrow> (ls_failure_exits ls, ls_failure_cause ls, ConditionalFalse));
     g \<leftarrow> (case sr_entry nxt of
            None \<Rightarrow> Some g
          | Some next_entry \<Rightarrow>
              if triggering_exits = [] then Some (mark_if True next_start triggering_cause g)
              else add_edges triggering_exits next_entry kind g);
     let reachable = (sr_entry nxt \<noteq> None \<and> triggering_exits \<noteq> []);
     Some (list_join fallback operator (if reachable then sr_exits nxt else [])
             (if reachable then sr_terminal_cause nxt else triggering_cause) ls, g) })"

definition build_list ::
  "build_env \<Rightarrow> nat \<Rightarrow> command_builder \<Rightarrow> command_id \<Rightarrow> command_id \<Rightarrow> recorded_range
    \<Rightarrow> loop_target list \<Rightarrow> bool \<Rightarrow> graph_builder \<Rightarrow> build_result" where
  "build_list env n build c first rest loops force g = do {
     segments \<leftarrow> collect_flat_list_segments n (be_program env) first None [];
     items \<leftarrow> list_items (be_program env) rest;
     segments \<leftarrow> fold_opt (\<lambda>item out. collect_flat_list_segments n (be_program env) (lt_command item)
         (Some (lt_operator item, lt_operator_span item)) out) items segments;
     (case segments of
        [] \<Rightarrow> None
      | seg # segs \<Rightarrow> do {
          (current, g) \<leftarrow> build loops False (fs_command seg) g;
          cmd \<leftarrow> command_at (be_program env) c;
          let cause = cause_if_empty (sr_exits current) (sr_terminal_cause current);
          (ls, g) \<leftarrow> fold_opt (list_segment_step build (rc_span cmd) loops) segs
            (\<lparr>ls_success_exits = sr_exits current, ls_failure_exits = sr_exits current,
              ls_success_cause = cause, ls_failure_cause = cause\<rparr>, g);
          let exits = append_unique_block_ids (ls_success_exits ls) (ls_failure_exits ls);
          let cause = (if exits = []
                       then merge_terminal_causes (rc_span cmd) [ls_success_cause ls, ls_failure_cause ls]
                       else None);
          wrap_sequence_with_command_header env build c
            \<lparr>sr_entry = sr_entry current, sr_exits = exits, sr_terminal_cause = cause\<rparr> loops force g }) }"


section \<open>Conditionals and always blocks\<close>

definition build_always ::
  "build_env \<Rightarrow> command_builder \<Rightarrow> command_id \<Rightarrow> recorded_range \<Rightarrow> recorded_range
    \<Rightarrow> loop_target list \<Rightarrow> bool \<Rightarrow> graph_builder \<Rightarrow> build_result" where
  "build_always env build c body always_body loops force g = do {
     let body_start = length (gb_blocks g);
     (b, g) \<leftarrow> build_sequence env build body loops g;
     let body_end = length (gb_blocks g);
     (a, g) \<leftarrow> build_sequence env build always_body loops g;
     g \<leftarrow> (case sr_entry a of
            None \<Rightarrow> Some g
          | Some always_entry \<Rightarrow>
              if sr_exits b = []
              then do { leaves \<leftarrow> terminal_leaf_blocks body_start body_end g;
                        add_edges leaves always_entry Sequential g }
              else add_edges (sr_exits b) always_entry Sequential g);
     let exits = (if sr_exits b = [] then [] else sr_exits a);
     let cause = (if exits = []
                  then (if sr_exits b = [] then sr_terminal_cause b else sr_terminal_cause a)
                  else None);
     let entry = (if sr_entry b = None then sr_entry a else sr_entry b);
     wrap_sequence_with_command_header env build c
       \<lparr>sr_entry = entry, sr_exits = exits, sr_terminal_cause = cause\<rparr> loops force g }"

definition entry_or_empty_block :: "block_id option \<Rightarrow> graph_builder \<Rightarrow> block_id \<times> graph_builder" where
  "entry_or_empty_block entry g = (case entry of Some e \<Rightarrow> (e, g) | None \<Rightarrow> empty_block g)"

record if_state =
  if_false_exits :: "block_id list"
  if_false_cause :: "unreachable_cause option"
  if_branch_exits :: "block_id list"
  if_branch_cause :: "unreachable_cause option"

text \<open>Joining the exits of one more branch with those of the branches before it.\<close>

definition join_branch ::
  "span \<Rightarrow> block_id list \<Rightarrow> unreachable_cause option \<Rightarrow> if_state \<Rightarrow> if_state" where
  "join_branch fallback exits cause st =
     (let joined = append_unique_block_ids (if_branch_exits st) exits
      in st\<lparr>if_branch_exits := joined,
            if_branch_cause :=
              (if joined = []
               then merge_terminal_causes fallback [if_branch_cause st, cause_if_empty exits cause]
               else None)\<rparr>)"

definition elif_branch_step ::
  "build_env \<Rightarrow> command_builder \<Rightarrow> span \<Rightarrow> loop_target list \<Rightarrow> recorded_elif_branch
    \<Rightarrow> if_state \<times> graph_builder \<Rightarrow> (if_state \<times> graph_builder) option" where
  "elif_branch_step env build fallback loops branch = (\<lambda>(st, g). do {
     let elif_reachable = (if_false_exits st \<noteq> []);
     let elif_start = length (gb_blocks g);
     (cond, g) \<leftarrow> build_sequence env build (eb_condition branch) loops g;
     let g = mark_if (if_false_exits st = []) elif_start (if_false_cause st) g;
     g \<leftarrow> add_edges_to (if_false_exits st) (sr_entry cond) ConditionalFalse g;
     let body_start = length (gb_blocks g);
     (body, g) \<leftarrow> build_sequence env build (eb_body branch) loops g;
     let body_reachable = (elif_reachable \<and> sr_exits cond \<noteq> []);
     let cond_cause = cause_if_empty (sr_exits cond) (sr_terminal_cause cond);
     let path_cause = (if elif_reachable then cond_cause else if_false_cause st);
     let g = mark_if (\<not> body_reachable) body_start path_cause g;
     g \<leftarrow> add_edges_to (sr_exits cond) (sr_entry body) ConditionalTrue g;
     let false_exits = (if elif_reachable then sr_exits cond else []);
     let st = st\<lparr>if_false_exits := false_exits, if_false_cause := cause_if_empty false_exits path_cause\<rparr>;
     Some (if body_reachable then join_branch fallback (sr_exits body) (sr_terminal_cause body) st else st,
           g) })"

text \<open>The end of an \<open>if\<close>: its \<open>else\<close> branch, or the way past it when it has none.\<close>

definition if_else_join :: "span \<Rightarrow> sequence_result \<Rightarrow> if_state \<Rightarrow> if_state" where
  "if_else_join fallback else_seq st =
     (if sr_entry else_seq \<noteq> None \<and> if_false_exits st \<noteq> []
      then join_branch fallback (sr_exits else_seq) (sr_terminal_cause else_seq) st
      else let exits = (if sr_entry else_seq = None then if_branch_exits st @ if_false_exits st
                        else if_branch_exits st)
           in st\<lparr>if_branch_exits := exits,
                 if_branch_cause :=
                   (if exits = []
                    then merge_terminal_causes fallback [if_branch_cause st, if_false_cause st]
                    else None)\<rparr>)"

definition build_if ::
  "build_env \<Rightarrow> command_builder \<Rightarrow> command_id \<Rightarrow> recorded_range \<Rightarrow> recorded_range \<Rightarrow> recorded_range
    \<Rightarrow> recorded_range \<Rightarrow> loop_target list \<Rightarrow> bool \<Rightarrow> graph_builder \<Rightarrow> build_result" where
  "build_if env build c condition then_branch elifs else_branch loops force g = do {
     cmd \<leftarrow> command_at (be_program env) c;
     (cond, g) \<leftarrow> build_sequence env build condition loops g;
     let (entry, g) = entry_or_empty_block (sr_entry cond) g;
     let false_exits = sr_exits cond;
     let false_cause = cause_if_empty false_exits (sr_terminal_cause cond);
     let then_start = length (gb_blocks g);
     (thn, g) \<leftarrow> build_sequence env build then_branch loops g;
     let g = mark_if (false_exits = []) then_start false_cause g;
     g \<leftarrow> add_edges_to (sr_exits cond) (sr_entry thn) ConditionalTrue g;
     let branch_exits = (if sr_exits cond \<noteq> [] then sr_exits thn else []);
     let branch_cause = (if sr_exits cond \<noteq> [] \<and> branch_exits = [] then sr_terminal_cause thn else None);
     branches \<leftarrow> elif_branches (be_program env) elifs;
     (st, g) \<leftarrow> fold_opt (elif_branch_step env build (rc_span cmd) loops) branches
       (\<lparr>if_false_exits = false_exits, if_false_cause = false_cause,
         if_branch_exits = branch_exits, if_branch_cause = branch_cause\<rparr>, g);
     let else_start = length (gb_blocks g);
     (els, g) \<leftarrow> build_sequence env build else_branch loops g;
     let g = mark_if (if_false_exits st = []) else_start (if_false_cause st) g;
     g \<leftarrow> add_edges_to (if_false_exits st) (sr_entry els) ConditionalFalse g;
     let st = if_else_join (rc_span cmd) els st;
     wrap_sequence_with_command_header env build c
       \<lparr>sr_entry = Some entry, sr_exits = if_branch_exits st, sr_terminal_cause = if_branch_cause st\<rparr>
       loops force g }"

section \<open>Loops\<close>

definition build_while_like ::
  "build_env \<Rightarrow> command_builder \<Rightarrow> command_id \<Rightarrow> recorded_range \<Rightarrow> recorded_range
    \<Rightarrow> loop_target list \<Rightarrow> bool \<Rightarrow> bool \<Rightarrow> graph_builder \<Rightarrow> build_result" where
  "build_while_like env build c condition body loops while_sense force g = do {
     let (exit_block, g) = empty_block g;
     (cond, g) \<leftarrow> build_sequence env build condition loops g;
     let (entry, g) = entry_or_empty_block (sr_entry cond) g;
     let continue_target = (case sr_entry cond of Some e \<Rightarrow> e | None \<Rightarrow> exit_block);
     (b, g) \<leftarrow> build_sequence env build body
       (loops @ [\<lparr>lt_continue_target = continue_target, lt_break_target = exit_block\<rparr>]) g;
     g \<leftarrow> (case sr_entry b of
            Some body_entry \<Rightarrow> do {
              g \<leftarrow> fold_opt (\<lambda>exit g. do {
                     g \<leftarrow> add_edge exit body_entry
                           (if while_sense then ConditionalTrue else ConditionalFalse) g;
                     add_edge exit exit_block
                           (if while_sense then ConditionalFalse else ConditionalTrue) g })
                   (sr_exits cond) g;
              add_edges (sr_exits b) continue_target LoopBack g }
          | None \<Rightarrow> add_edges (sr_exits cond) exit_block LoopExit g);
     wrap_sequence_with_command_header env build c
       \<lparr>sr_entry = Some entry, sr_exits = [exit_block], sr_terminal_cause = None\<rparr> loops force g }"

definition build_loop_command ::
  "build_env \<Rightarrow> command_builder \<Rightarrow> command_id \<Rightarrow> recorded_range \<Rightarrow> loop_target list
    \<Rightarrow> graph_builder \<Rightarrow> build_result" where
  "build_loop_command env build c body loops g = do {
     cmd \<leftarrow> command_at (be_program env) c;
     let (header, g) = command_block env (rc_span cmd) g;
     g \<leftarrow> attach_nested_regions env build header (rc_nested_regions cmd) loops g;
     let (exit_block, g) = empty_block g;
     (b, g) \<leftarrow> build_sequence env build body
       (loops @ [\<lparr>lt_continue_target = header, lt_break_target = exit_block\<rparr>]) g;
     g \<leftarrow> (case sr_entry b of
            Some body_entry \<Rightarrow> do {
              g \<leftarrow> add_edge header body_entry ConditionalTrue g;
              g \<leftarrow> add_edge header exit_block ConditionalFalse g;
              add_edges (sr_exits b) header LoopBack g }
          | None \<Rightarrow> add_edge header exit_block LoopExit g);
     Some (\<lparr>sr_entry = Some header, sr_exits = [exit_block], sr_terminal_cause = None\<rparr>, g) }"

section \<open>Case\<close>

fun dispatch_allocation :: "nat \<Rightarrow> graph_builder \<Rightarrow> block_id list \<times> graph_builder" where
  "dispatch_allocation 0 g = ([], g)"
| "dispatch_allocation (Suc n) g =
     (let (b, g) = empty_block g; (bs, g) = dispatch_allocation n g in (b # bs, g))"

text \<open>The entry block and the exits of an arm; an empty arm gets a block of its own.\<close>

definition build_arm ::
  "build_env \<Rightarrow> command_builder \<Rightarrow> loop_target list \<Rightarrow> recorded_case_arm
    \<Rightarrow> (block_id \<times> block_id list) list \<times> graph_builder
    \<Rightarrow> ((block_id \<times> block_id list) list \<times> graph_builder) option" where
  "build_arm env build loops arm = (\<lambda>(seqs, g). do {
     (s, g) \<leftarrow> build_sequence env build (ca_commands arm) loops g;
     (case sr_entry s of
        Some entry \<Rightarrow> Some (seqs @ [(entry, sr_exits s)], g)
      | None \<Rightarrow>
          (let (empty_arm, g) = empty_block g
           in Some (seqs @ [(empty_arm, sr_exits s @ [empty_arm])], g))) })"

text \<open>One dispatch block tests the arms from its index on, up to one that matches anything.\<close>

fun dispatch_edges ::
  "block_id \<Rightarrow> block_id \<Rightarrow> (recorded_case_arm \<times> block_id \<times> block_id list) list
    \<Rightarrow> graph_builder \<Rightarrow> graph_builder option" where
  "dispatch_edges dispatch exit_block [] g = add_edge dispatch exit_block Sequential g"
| "dispatch_edges dispatch exit_block ((arm, entry, exits) # arms) g = do {
     g \<leftarrow> add_edge dispatch entry CaseArm g;
     if ca_matches_anything arm then Some g else dispatch_edges dispatch exit_block arms g }"

definition arm_edges ::
  "block_id \<Rightarrow> block_id list \<Rightarrow> nat \<times> recorded_case_arm \<times> block_id \<times> block_id list
    \<Rightarrow> block_id list \<times> graph_builder \<Rightarrow> (block_id list \<times> graph_builder) option" where
  "arm_edges exit_block dispatch_blocks = (\<lambda>(arm_index, arm, entry, exits) (fallthrough_from, g). do {
     g \<leftarrow> add_edges fallthrough_from entry CaseFallthrough g;
     let continue_target = (if arm_index + 1 < length dispatch_blocks
                            then dispatch_blocks ! (arm_index + 1) else exit_block);
     (case ca_terminator arm of
        CTBreak \<Rightarrow> do { g \<leftarrow> add_edges exits exit_block LoopExit g; Some ([], g) }
      | CTFallThrough \<Rightarrow> Some (exits, g)
      | CTContinue \<Rightarrow> do { g \<leftarrow> add_edges exits continue_target CaseContinue g; Some ([], g) }
      | CTContinueMatching \<Rightarrow> do { g \<leftarrow> add_edges exits continue_target CaseContinue g; Some ([], g) }) })"

definition build_case ::
  "build_env \<Rightarrow> command_builder \<Rightarrow> command_id \<Rightarrow> recorded_range \<Rightarrow> loop_target list
    \<Rightarrow> graph_builder \<Rightarrow> build_result" where
  "build_case env build c arms_range loops g = do {
     cmd \<leftarrow> command_at (be_program env) c;
     arms \<leftarrow> case_arms (be_program env) arms_range;
     let (head, g) = command_block env (rc_span cmd) g;
     g \<leftarrow> attach_nested_regions env build head (rc_nested_regions cmd) loops g;
     let (exit_block, g) = empty_block g;
     let (more, g) = dispatch_allocation (length arms - 1) g;
     let dispatch_blocks = head # more;
     (seqs, g) \<leftarrow> fold_opt (build_arm env build loops) arms ([], g);
     let built = zip arms seqs;
     g \<leftarrow> fold_opt (\<lambda>(i, dispatch). dispatch_edges dispatch exit_block (drop i built))
           (List.enumerate 0 dispatch_blocks) g;
     (_, g) \<leftarrow> fold_opt (arm_edges exit_block dispatch_blocks) (List.enumerate 0 built) ([], g);
     Some (\<lparr>sr_entry = Some head, sr_exits = [exit_block], sr_terminal_cause = None\<rparr>, g) }"

section \<open>Commands\<close>

definition build_linear ::
  "build_env \<Rightarrow> command_builder \<Rightarrow> recorded_command \<Rightarrow> loop_target list \<Rightarrow> graph_builder \<Rightarrow> build_result" where
  "build_linear env build cmd loops g = do {
     let (block, g) = command_block env (rc_span cmd) g;
     g \<leftarrow> attach_nested_regions env build block (rc_nested_regions cmd) loops g;
     if span_key (rc_span cmd) \<in> be_script_terminating_calls env
     then Some (\<lparr>sr_entry = Some block, sr_exits = [],
                 sr_terminal_cause = Some (script_terminating_function_call (rc_span cmd))\<rparr>,
                script_terminator block g)
     else Some (\<lparr>sr_entry = Some block, sr_exits = [block], sr_terminal_cause = None\<rparr>, g) }"

definition build_loop_control ::
  "build_env \<Rightarrow> recorded_command \<Rightarrow> nat \<Rightarrow> (loop_target \<Rightarrow> block_id) \<Rightarrow> edge_kind \<Rightarrow> loop_target list
    \<Rightarrow> graph_builder \<Rightarrow> build_result" where
  "build_loop_control env cmd depth target kind loops g = do {
     let (block, g) = command_block env (rc_span cmd) g;
     g \<leftarrow> (case resolve_break_target loops depth of
            Some l \<Rightarrow> add_edge block (target l) kind g
          | None \<Rightarrow> Some g);
     Some (\<lparr>sr_entry = Some block, sr_exits = [],
            sr_terminal_cause = Some (loop_control (rc_span cmd))\<rparr>, g) }"

definition build_terminator :: "build_env \<Rightarrow> recorded_command \<Rightarrow> graph_builder \<Rightarrow> build_result" where
  "build_terminator env cmd g = do {
     let (block, g) = command_block env (rc_span cmd) g;
     Some (\<lparr>sr_entry = Some block, sr_exits = [],
            sr_terminal_cause = Some (shell_terminator (rc_span cmd))\<rparr>,
           if rc_kind cmd = Exit then script_terminator block g else g) }"

definition build_subshell ::
  "build_env \<Rightarrow> command_builder \<Rightarrow> recorded_command \<Rightarrow> recorded_range \<Rightarrow> loop_target list
    \<Rightarrow> graph_builder \<Rightarrow> build_result" where
  "build_subshell env build cmd body loops g = do {
     let (block, g) = command_block env (rc_span cmd) g;
     g \<leftarrow> attach_nested_regions env build block (rc_nested_regions cmd) loops g;
     (b, g) \<leftarrow> build_sequence env build body loops g;
     g \<leftarrow> add_edges_to [block] (sr_entry b) NestedRegion g;
     Some (\<lparr>sr_entry = Some block, sr_exits = [block], sr_terminal_cause = None\<rparr>, g) }"

definition attach_segment ::
  "command_builder \<Rightarrow> block_id \<Rightarrow> loop_target list \<Rightarrow> recorded_pipeline_segment
    \<Rightarrow> graph_builder \<Rightarrow> graph_builder option" where
  "attach_segment build block loops segment g = do {
     (s, g) \<leftarrow> build loops False (ps_command segment) g;
     (case sr_entry s of
        None \<Rightarrow> Some g
      | Some entry \<Rightarrow>
          add_edge block entry NestedRegion (scope_entry_or_insert (ps_scope segment) entry g)) }"

definition build_pipeline ::
  "build_env \<Rightarrow> command_builder \<Rightarrow> recorded_command \<Rightarrow> recorded_range \<Rightarrow> loop_target list
    \<Rightarrow> graph_builder \<Rightarrow> build_result" where
  "build_pipeline env build cmd segments loops g = do {
     let (block, g) = command_block env (rc_span cmd) g;
     g \<leftarrow> attach_nested_regions env build block (rc_nested_regions cmd) loops g;
     ss \<leftarrow> pipeline_segments (be_program env) segments;
     g \<leftarrow> fold_opt (attach_segment build block loops) ss g;
     Some (\<lparr>sr_entry = Some block, sr_exits = [block], sr_terminal_cause = None\<rparr>, g) }"

fun build_command :: "nat \<Rightarrow> build_env \<Rightarrow> command_builder" where
  "build_command 0 env loops force c g = None"
| "build_command (Suc n) env loops force c g = do {
     cmd \<leftarrow> command_at (be_program env) c;
     let build = build_command n env;
     (case rc_kind cmd of
        Linear \<Rightarrow> build_linear env build cmd loops g
      | Break depth \<Rightarrow> build_loop_control env cmd depth lt_break_target LoopExit loops g
      | Continue depth \<Rightarrow> build_loop_control env cmd depth lt_continue_target LoopBack loops g
      | Return \<Rightarrow> build_terminator env cmd g
      | Exit \<Rightarrow> build_terminator env cmd g
      | CList first rest \<Rightarrow> build_list env n build c first rest loops force g
      | CIf condition then_branch elifs else_branch \<Rightarrow>
          build_if env build c condition then_branch elifs else_branch loops force g
      | CWhile condition body \<Rightarrow> build_while_like env build c condition body loops True force g
      | CUntil condition body \<Rightarrow> build_while_like env build c condition body loops False force g
      | CFor body \<Rightarrow> build_loop_command env build c body loops g
      | CSelect body \<Rightarrow> build_loop_command env build c body loops g
      | CArithmeticFor body \<Rightarrow> build_loop_command env build c body loops g
      | CCase arms \<Rightarrow> build_case env build c arms loops g
      | CBraceGroup body \<Rightarrow> do {
          (s, g) \<leftarrow> build_sequence env build body loops g;
          wrap_sequence_with_command_header env build c s loops force g }
      | CAlways body always_body \<Rightarrow> build_always env build c body always_body loops force g
      | CSubshell body \<Rightarrow> build_subshell env build cmd body loops g
      | CPipeline segments \<Rightarrow> build_pipeline env build cmd segments loops g) }"

end
