(* ===== verification/Cfg_Invariant.thy ===== *)
theory Cfg_Invariant
  imports Cfg_Builder "HOL-Library.Sublist"
begin

text \<open>
  The state invariant of the graph builder of \<open>crates/shucked-semantic/src/cfg/builder.rs\<close>, and the
  proof that on a well-formed command stream the builder never panics, keeps the invariant and only
  ever extends the graph.  The contract one command has to satisfy is a locale; the helpers of
  \<open>build_command\<close> are verified once inside it and \<open>build_command\<close> itself is its interpretation.
\<close>

section \<open>Computations that succeed\<close>

text \<open>\<open>succeeds m P\<close>: the computation does not panic and its result satisfies \<open>P\<close>.\<close>

definition succeeds :: "'a option \<Rightarrow> ('a \<Rightarrow> bool) \<Rightarrow> bool" where
  "succeeds m P \<longleftrightarrow> (case m of None \<Rightarrow> False | Some x \<Rightarrow> P x)"

lemma succeeds_Some [simp]: "succeeds (Some x) P = P x"
  by (simp add: succeeds_def)

lemma succeeds_bind: "succeeds (Option.bind m f) P = succeeds m (\<lambda>x. succeeds (f x) P)"
  by (cases m) (auto simp: succeeds_def)

lemma succeeds_mono: "succeeds m P \<Longrightarrow> (\<And>x. P x \<Longrightarrow> Q x) \<Longrightarrow> succeeds m Q"
  by (cases m) (auto simp: succeeds_def)

lemma succeedsD: "succeeds m P \<Longrightarrow> \<exists>x. m = Some x \<and> P x"
  by (cases m) (auto simp: succeeds_def)

lemma succeeds_fold:
  assumes "I s" and "\<And>x t. x \<in> set xs \<Longrightarrow> I t \<Longrightarrow> succeeds (f x t) I" and "\<And>t. I t \<Longrightarrow> P t"
  shows "succeeds (fold_opt f xs s) P"
proof -
  have "\<exists>s'. fold_opt f xs s = Some s' \<and> I s'"
    by (rule fold_opt_total) (use assms(1,2) succeedsD in blast)+
  with assms(3) show ?thesis by auto
qed

section \<open>The invariant\<close>

abbreviation gsize :: "graph_builder \<Rightarrow> nat" where
  "gsize g \<equiv> length (gb_blocks g)"

definition within :: "nat \<Rightarrow> block_id list \<Rightarrow> bool" where
  "within n bs \<longleftrightarrow> (\<forall>b \<in> set bs. b < n)"

definition blocks_for_key :: "basic_block list \<Rightarrow> span_key \<Rightarrow> block_id list" where
  "blocks_for_key blocks key = map bb_id (filter (\<lambda>b. key \<in> span_key ` set (bb_commands b)) blocks)"

definition graph_ok :: "graph_builder \<Rightarrow> bool" where
  "graph_ok g \<longleftrightarrow>
     length (gb_successors g) = gsize g
     \<and> map bb_id (gb_blocks g) = [0..<gsize g]
     \<and> (\<forall>es \<in> set (gb_successors g). within (gsize g) (map fst es))
     \<and> within (gsize g) (map snd (gb_scope_entries g))
     \<and> distinct (map fst (gb_scope_entries g))
     \<and> within (gsize g) (gb_script_terminators g)
     \<and> dom (gb_unreachable_causes g) \<subseteq> {..<gsize g}
     \<and> (\<forall>key. map_default (gb_command_blocks g) key = blocks_for_key (gb_blocks g) key)"

text \<open>Building only extends: blocks, edges, scope entries and terminators are appended.\<close>

definition grows :: "graph_builder \<Rightarrow> graph_builder \<Rightarrow> bool" where
  "grows g g' \<longleftrightarrow>
     prefix (gb_blocks g) (gb_blocks g')
     \<and> length (gb_successors g) \<le> length (gb_successors g')
     \<and> (\<forall>i < length (gb_successors g). prefix (gb_successors g ! i) (gb_successors g' ! i))
     \<and> prefix (gb_scope_entries g) (gb_scope_entries g')
     \<and> prefix (gb_script_terminators g) (gb_script_terminators g')
     \<and> dom (gb_unreachable_causes g) \<subseteq> dom (gb_unreachable_causes g')"

definition extends :: "graph_builder \<Rightarrow> graph_builder \<Rightarrow> bool" where
  "extends g g' \<longleftrightarrow> graph_ok g' \<and> grows g g' \<and> gsize g \<le> gsize g'"

definition sequence_ok :: "nat \<Rightarrow> sequence_result \<Rightarrow> bool" where
  "sequence_ok n r \<longleftrightarrow> within n (sr_exits r) \<and> (\<forall>e. sr_entry r = Some e \<longrightarrow> e < n)"

definition loops_ok :: "nat \<Rightarrow> loop_target list \<Rightarrow> bool" where
  "loops_ok n loops \<longleftrightarrow> (\<forall>l \<in> set loops. lt_continue_target l < n \<and> lt_break_target l < n)"

lemma grows_refl [simp]: "grows g g"
  by (simp add: grows_def)

lemma grows_trans: "grows g h \<Longrightarrow> grows h k \<Longrightarrow> grows g k"
  unfolding grows_def by (meson order_trans prefix_order.trans order_less_le_trans)

lemma extends_refl: "graph_ok g \<Longrightarrow> extends g g"
  by (simp add: extends_def)

lemma extends_trans: "extends g h \<Longrightarrow> extends h k \<Longrightarrow> extends g k"
  unfolding extends_def using grows_trans by fastforce

lemma extends_ok: "extends g h \<Longrightarrow> graph_ok h"
  by (simp add: extends_def)

lemma extends_size: "extends g h \<Longrightarrow> gsize g \<le> gsize h"
  by (simp add: extends_def)

lemma within_mono: "within n bs \<Longrightarrow> n \<le> m \<Longrightarrow> within m bs"
  by (auto simp: within_def)

lemma within_simps [simp]:
  "within n []" "within n (b # bs) \<longleftrightarrow> b < n \<and> within n bs"
  "within n (bs @ cs) \<longleftrightarrow> within n bs \<and> within n cs"
  by (auto simp: within_def)

lemma loops_ok_mono: "loops_ok n ls \<Longrightarrow> n \<le> m \<Longrightarrow> loops_ok m ls"
  by (auto simp: loops_ok_def)

lemma sequence_ok_mono: "sequence_ok n s \<Longrightarrow> n \<le> m \<Longrightarrow> sequence_ok m s"
  by (auto simp: sequence_ok_def within_def)

lemma sequence_ok_simps [simp]:
  "sequence_ok n \<lparr>sr_entry = e, sr_exits = bs, sr_terminal_cause = k\<rparr>
    \<longleftrightarrow> within n bs \<and> (\<forall>x. e = Some x \<longrightarrow> x < n)"
  by (simp add: sequence_ok_def)

lemma loops_ok_snoc [simp]:
  "loops_ok n (ls @ [l]) \<longleftrightarrow> loops_ok n ls \<and> lt_continue_target l < n \<and> lt_break_target l < n"
  by (auto simp: loops_ok_def)

lemma set_append_unique: "set (append_unique_block_ids xs ys) = set xs \<union> set ys"
  unfolding append_unique_block_ids_def by (induction ys arbitrary: xs) auto

lemma within_append_unique [simp]:
  "within n (append_unique_block_ids xs ys) \<longleftrightarrow> within n xs \<and> within n ys"
  by (auto simp: within_def set_append_unique)

lemma distinct_append_unique: "distinct xs \<Longrightarrow> distinct (append_unique_block_ids xs ys)"
  unfolding append_unique_block_ids_def by (induction ys arbitrary: xs) auto

section \<open>The primitive operations\<close>

lemma block_ids_distinct: "graph_ok g \<Longrightarrow> i < gsize g \<Longrightarrow> bb_id (gb_blocks g ! i) = i"
  unfolding graph_ok_def by (metis add_0 diff_zero length_upt nth_map nth_upt)

lemma map_default_update: "map_default (m(k \<mapsto> v)) j = (if j = k then v else map_default m j)"
  by (simp add: map_default_def)

lemma blocks_for_key_snoc:
  "blocks_for_key (bs @ [b]) key =
   blocks_for_key bs key @ (if key \<in> span_key ` set (bb_commands b) then [bb_id b] else [])"
  by (simp add: blocks_for_key_def)

lemma within_Suc: "within n bs \<Longrightarrow> within (Suc n) bs"
  by (auto simp: within_def)

text \<open>Appending one block keeps the invariant when the index of commands is kept up to date.\<close>

lemma push_block_ok:
  assumes "graph_ok g" "bb_id b = gsize g"
    and "\<And>key. map_default cb key =
      map_default (gb_command_blocks g) key @ (if key \<in> span_key ` set (bb_commands b) then [gsize g] else [])"
  shows "extends g (g\<lparr>gb_blocks := gb_blocks g @ [b], gb_successors := gb_successors g @ [[]],
    gb_command_blocks := cb\<rparr>)"
proof -
  have "dom (gb_unreachable_causes g) \<subseteq> {..<Suc (gsize g)}"
    using assms(1) by (fastforce simp: graph_ok_def)
  then have "graph_ok (g\<lparr>gb_blocks := gb_blocks g @ [b], gb_successors := gb_successors g @ [[]],
    gb_command_blocks := cb\<rparr>)"
    using assms by (simp add: graph_ok_def within_Suc blocks_for_key_snoc)
  then show ?thesis by (auto simp: extends_def grows_def nth_append)
qed

lemma command_block_ok:
  assumes "graph_ok g" "command_block env s g = (b, g')"
  shows "extends g g'" "b < gsize g'" "b = gsize g" "gsize g' = Suc (gsize g)"
proof -
  let ?b = "\<lparr>bb_id = gsize g, bb_commands = [s],
    bb_bindings = map_default (be_command_bindings env) (span_key s),
    bb_references = map_default (be_command_references env) (span_key s)\<rparr>"
  show "extends g g'"
    using push_block_ok[OF assms(1), of ?b "(gb_command_blocks g)
        (span_key s \<mapsto> map_default (gb_command_blocks g) (span_key s) @ [gsize g])"] assms(2)
    by (auto simp: command_block_def Let_def map_default_update)
  show "b < gsize g'" "b = gsize g" "gsize g' = Suc (gsize g)"
    using assms(2) by (auto simp: command_block_def Let_def)
qed

lemma empty_block_ok:
  assumes "graph_ok g" "empty_block g = (b, g')"
  shows "extends g g'" "b < gsize g'" "b = gsize g" "gsize g' = Suc (gsize g)"
proof -
  let ?b = "\<lparr>bb_id = gsize g, bb_commands = [], bb_bindings = [], bb_references = []\<rparr>"
  show "extends g g'"
    using push_block_ok[OF assms(1), of ?b "gb_command_blocks g"] assms(2)
    by (auto simp: empty_block_def Let_def)
  show "b < gsize g'" "b = gsize g" "gsize g' = Suc (gsize g)"
    using assms(2) by (auto simp: empty_block_def Let_def)
qed

lemma add_edge_ok:
  assumes "graph_ok g" "from < gsize g" "to < gsize g"
    and "\<And>g'. extends g g' \<Longrightarrow> gsize g' = gsize g \<Longrightarrow> P g'"
  shows "succeeds (add_edge from to kind g) P"
proof -
  define g' where "g' = g\<lparr>gb_successors := (gb_successors g)[from := gb_successors g ! from @ [(to, kind)]]\<rparr>"
  have len: "from < length (gb_successors g)" using assms by (simp add: graph_ok_def)
  have "within (gsize g) (map fst (gb_successors g ! from))"
    using assms(1) len by (simp add: graph_ok_def)
  then have "graph_ok g'"
    using assms(1,3) set_update_subset_insert[of "gb_successors g" "from" "gb_successors g ! from @ [(to, kind)]"]
    by (auto simp: graph_ok_def g'_def)
  moreover have "grows g g'"
    by (simp add: grows_def g'_def)
      (metis nth_list_update_eq nth_list_update_neq prefixI prefix_order.refl)
  ultimately have "P g'" using assms(4)[of g'] by (auto simp: extends_def g'_def)
  then show ?thesis using len by (simp add: add_edge_def panic_simps g'_def)
qed

lemma add_edges_ok:
  assumes "graph_ok g" "within (gsize g) froms" "to < gsize g"
    and "\<And>g'. extends g g' \<Longrightarrow> gsize g' = gsize g \<Longrightarrow> P g'"
  shows "succeeds (add_edges froms to kind g) P"
  unfolding add_edges_def
proof (rule succeeds_fold[where I = "\<lambda>h. extends g h \<and> gsize h = gsize g"])
  show "extends g g \<and> gsize g = gsize g" using assms(1) by (simp add: extends_refl)
  show "succeeds (add_edge x to kind t) (\<lambda>h. extends g h \<and> gsize h = gsize g)"
    if "x \<in> set froms" "extends g t \<and> gsize t = gsize g" for x t
    using that assms(2,3) extends_trans by (intro add_edge_ok) (auto simp: extends_ok within_def)
qed (use assms(4) in auto)

lemma add_edges_to_ok:
  assumes "graph_ok g" "within (gsize g) froms" "\<forall>to. target = Some to \<longrightarrow> to < gsize g"
    and "\<And>g'. extends g g' \<Longrightarrow> gsize g' = gsize g \<Longrightarrow> P g'"
  shows "succeeds (add_edges_to froms target kind g) P"
  using assms by (cases target) (auto simp: add_edges_to_def extends_refl intro: add_edges_ok)

lemma fold_mark:
  "dom (fold (\<lambda>b m. m(bb_id b \<mapsto> cause)) bs m) = dom m \<union> bb_id ` set bs"
  by (induction bs arbitrary: m) auto

lemma mark_since_ok:
  assumes "graph_ok g"
  shows "extends g (mark_unreachable_blocks_since start cause g)"
    and "gsize (mark_unreachable_blocks_since start cause g) = gsize g"
proof -
  have "bb_id ` set (drop start (gb_blocks g)) \<subseteq> set (map bb_id (gb_blocks g))"
    using set_drop_subset by fastforce
  also have "\<dots> = {..<gsize g}" using assms by (auto simp: graph_ok_def)
  finally show "extends g (mark_unreachable_blocks_since start cause g)"
    using assms
    by (auto simp: extends_def graph_ok_def grows_def mark_unreachable_blocks_since_def fold_mark)
qed (simp add: mark_unreachable_blocks_since_def)

lemma mark_if_ok:
  assumes "graph_ok g"
  shows "extends g (mark_if b start cause g)" "gsize (mark_if b start cause g) = gsize g"
  using assms by (auto simp: mark_if_def extends_refl mark_since_ok split: option.splits)

lemma script_terminator_ok:
  assumes "graph_ok g" "b < gsize g"
  shows "extends g (script_terminator b g)" "gsize (script_terminator b g) = gsize g"
  using assms by (auto simp: extends_def graph_ok_def grows_def script_terminator_def)

lemma scope_entry_ok:
  assumes "graph_ok g" "b < gsize g"
  shows "extends g (scope_entry_or_insert s b g)" "gsize (scope_entry_or_insert s b g) = gsize g"
  using assms
  by (auto simp: extends_def graph_ok_def grows_def scope_entry_or_insert_def map_of_eq_None_iff
      image_iff split: option.splits)

lemma terminal_leaves_ok:
  assumes "graph_ok g" "start \<le> fin" "fin \<le> gsize g"
    and "\<And>bs. within (gsize g) bs \<Longrightarrow> P bs"
  shows "succeeds (terminal_leaf_blocks start fin g) P"
proof -
  let ?bs = "take (fin - start) (drop start (gb_blocks g))"
  have "bb_id ` set ?bs \<subseteq> set (map bb_id (gb_blocks g))"
    by (auto dest: in_set_takeD in_set_dropD)
  also have "\<dots> = {..<gsize g}" using assms(1) by (auto simp: graph_ok_def)
  finally have ids: "\<forall>b \<in> set ?bs. bb_id b < gsize g" by auto
  have "P (map bb_id (filter (\<lambda>b. gb_successors g ! bb_id b = []) ?bs))"
    using ids by (intro assms(4)) (auto simp: within_def)
  with ids show ?thesis
    using assms(1-3) by (auto simp: terminal_leaf_blocks_def slice_opt_def graph_ok_def list_all_iff)
qed


section \<open>Rules for stepping through the builder\<close>

text \<open>
  Each rule verifies one operation of a run that started in \<open>g0\<close> and has reached \<open>g\<close>; what follows
  may rely on the graph it leaves extending \<open>g0\<close> and being no smaller than \<open>g\<close>.
\<close>

lemma succeeds_intros:
  "P x \<Longrightarrow> succeeds (Some x) P"
  "succeeds m (\<lambda>x. succeeds (f x) P) \<Longrightarrow> succeeds (Option.bind m f) P"
  by (simp_all add: succeeds_bind)

lemma step_command_block:
  assumes "extends g0 g"
    and "\<And>b g'. extends g0 g' \<Longrightarrow> gsize g \<le> gsize g' \<Longrightarrow> b < gsize g' \<Longrightarrow> succeeds (f b g') P"
  shows "succeeds (case command_block env s g of (b, g') \<Rightarrow> f b g') P"
  using assms command_block_ok[OF extends_ok[OF assms(1)]] extends_trans[OF assms(1)]
  by (cases "command_block env s g") (metis case_prod_conv extends_size)

lemma step_empty_block:
  assumes "extends g0 g"
    and "\<And>b g'. extends g0 g' \<Longrightarrow> gsize g \<le> gsize g' \<Longrightarrow> b < gsize g' \<Longrightarrow> succeeds (f b g') P"
  shows "succeeds (case empty_block g of (b, g') \<Rightarrow> f b g') P"
  using assms empty_block_ok[OF extends_ok[OF assms(1)]] extends_trans[OF assms(1)]
  by (cases "empty_block g") (metis case_prod_conv extends_size)

lemma step_entry_block:
  assumes "extends g0 g" "\<forall>e. entry = Some e \<longrightarrow> e < gsize g"
    and "\<And>b g'. extends g0 g' \<Longrightarrow> gsize g \<le> gsize g' \<Longrightarrow> b < gsize g' \<Longrightarrow> succeeds (f b g') P"
  shows "succeeds (case entry_or_empty_block entry g of (b, g') \<Rightarrow> f b g') P"
  using assms step_empty_block[of g0 g f P]
  by (cases entry) (auto simp: entry_or_empty_block_def)

lemma step_add_edge:
  assumes "extends g0 g" "from < gsize g" "to < gsize g"
    and "\<And>g'. extends g0 g' \<Longrightarrow> gsize g' = gsize g \<Longrightarrow> P g'"
  shows "succeeds (add_edge from to kind g) P"
  using assms extends_trans extends_ok by (intro add_edge_ok) blast+

lemma step_add_edges:
  assumes "extends g0 g" "within (gsize g) froms" "to < gsize g"
    and "\<And>g'. extends g0 g' \<Longrightarrow> gsize g' = gsize g \<Longrightarrow> P g'"
  shows "succeeds (add_edges froms to kind g) P"
  using assms extends_trans extends_ok by (intro add_edges_ok) blast+

lemma step_add_edges_to:
  assumes "extends g0 g" "within (gsize g) froms" "\<forall>to. target = Some to \<longrightarrow> to < gsize g"
    and "\<And>g'. extends g0 g' \<Longrightarrow> gsize g' = gsize g \<Longrightarrow> P g'"
  shows "succeeds (add_edges_to froms target kind g) P"
  using assms extends_trans extends_ok by (intro add_edges_to_ok) blast+

lemma step_mark:
  assumes "extends g0 g"
    and "\<And>g'. extends g0 g' \<Longrightarrow> gsize g' = gsize g \<Longrightarrow> P (f g')"
  shows "P (let g' = mark_if b start cause g in f g')"
  using assms extends_trans mark_if_ok[OF extends_ok[OF assms(1)]] by (metis (no_types))

lemma step_leaves:
  assumes "extends g0 g" "start \<le> fin" "fin \<le> gsize g"
    and "\<And>bs. within (gsize g) bs \<Longrightarrow> P bs"
  shows "succeeds (terminal_leaf_blocks start fin g) P"
  using assms extends_ok by (intro terminal_leaves_ok) auto

lemma below_mono: "below rank a p r \<Longrightarrow> a \<le> b \<Longrightarrow> below rank b p r"
  by (force simp: below_def)

section \<open>Flattening a list\<close>

lemma collect_segments:
  assumes "ranked rank p"
  shows "c < length (rp_commands p) \<Longrightarrow> rank c < n \<Longrightarrow>
    \<exists>seg segs. collect_flat_list_segments n p c operator out = Some (out @ seg # segs)
      \<and> fs_operator_before seg = operator
      \<and> (\<forall>s \<in> set segs. fs_operator_before s \<noteq> None)
      \<and> (\<forall>s \<in> set (seg # segs). fs_command s < length (rp_commands p) \<and> rank (fs_command s) \<le> rank c)"
proof (induction n arbitrary: c operator out)
  case 0
  then show ?case by simp
next
  case (Suc n)
  let ?cmd = "rp_commands p ! c"
  have c: "command_at p c = Some ?cmd" using Suc.prems by (simp add: command_at_def)
  show ?case
  proof (cases "\<exists>first rest. rc_kind ?cmd = CList first rest")
    case False
    then have "collect_flat_list_segments (Suc n) p c operator out
        = Some (out @ [\<lparr>fs_operator_before = operator, fs_command = c\<rparr>])"
      by (auto simp: c split: recorded_command_kind.splits)
    then show ?thesis using Suc.prems by auto
  next
    case True
    then obtain first rest where k: "rc_kind ?cmd = CList first rest" by blast
    let ?I = "\<lambda>out'. \<exists>seg segs. out' = out @ seg # segs \<and> fs_operator_before seg = operator
      \<and> (\<forall>s \<in> set segs. fs_operator_before s \<noteq> None)
      \<and> (\<forall>s \<in> set (seg # segs). fs_command s < length (rp_commands p) \<and> rank (fs_command s) \<le> rank c)"
    obtain items where items: "list_items p rest = Some items"
      and lower: "\<And>i. i \<in> set items \<Longrightarrow> lt_command i < length (rp_commands p) \<and> rank (lt_command i) < rank c"
      and first: "first < length (rp_commands p)" "rank first < rank c"
      using ranked_parts(2)[OF assms Suc.prems(1) refl k] by blast
    obtain out1 where out1: "collect_flat_list_segments n p first operator out = Some out1" and I: "?I out1"
      using Suc.IH[OF first(1), of operator out] first(2) Suc.prems(2) by fastforce
    let ?f = "\<lambda>item. collect_flat_list_segments n p (lt_command item)
        (Some (lt_operator item, lt_operator_span item))"
    have step: "\<exists>out''. ?f i out' = Some out'' \<and> ?I out''"
      if "i \<in> set items" and I: "?I out'" for i out'
    proof -
      have "rank (lt_command i) < n" using lower[OF that(1)] Suc.prems(2) by simp
      with Suc.IH[of "lt_command i"] lower[OF that(1)] obtain seg segs
        where new: "?f i out' = Some (out' @ seg # segs)" "fs_operator_before seg \<noteq> None"
          "\<forall>s \<in> set segs. fs_operator_before s \<noteq> None"
          "\<forall>s \<in> set (seg # segs). fs_command s < length (rp_commands p)
            \<and> rank (fs_command s) \<le> rank (lt_command i)"
        by (metis option.distinct(1))
      from I obtain seg0 segs0 where old: "out' = out @ seg0 # segs0" "fs_operator_before seg0 = operator"
        "\<forall>s \<in> set segs0. fs_operator_before s \<noteq> None"
        "\<forall>s \<in> set (seg0 # segs0). fs_command s < length (rp_commands p) \<and> rank (fs_command s) \<le> rank c"
        by blast
      have "?I (out' @ seg # segs)"
        using old new lower[OF that(1)]
        by (intro exI[of _ seg0] exI[of _ "segs0 @ seg # segs"]) fastforce
      with new(1) show ?thesis by blast
    qed
    obtain out2 where "fold_opt ?f items out1 = Some out2" "?I out2"
      using fold_opt_total[where I = ?I, OF I, of items ?f] step by blast
    then show ?thesis using c k items out1 by auto
  qed
qed

lemma list_join_within:
  assumes "within n (ls_success_exits ls)" "within n (ls_failure_exits ls)" "within n exits"
  shows "within n (ls_success_exits (list_join s operator exits cause ls))"
    and "within n (ls_failure_exits (list_join s operator exits cause ls))"
  using assms by (auto simp: list_join_def Let_def split: recorded_list_operator.splits)

lemma join_branch_within:
  assumes "within n (if_branch_exits st)" "within n (if_false_exits st)" "within n exits"
  shows "within n (if_branch_exits (join_branch s exits cause st))"
    and "within n (if_false_exits (join_branch s exits cause st))"
  using assms by (simp_all add: join_branch_def Let_def)

lemma if_else_join_within:
  assumes "within n (if_branch_exits st)" "within n (if_false_exits st)" "within n (sr_exits els)"
  shows "within n (if_branch_exits (if_else_join s els st))"
  using assms by (auto simp: if_else_join_def join_branch_def Let_def)

section \<open>Case dispatch\<close>

lemma dispatch_allocation_ok:
  assumes "extends g0 g"
    and "\<And>bs g'. extends g0 g' \<Longrightarrow> gsize g \<le> gsize g' \<Longrightarrow> within (gsize g') bs \<Longrightarrow> length bs = n \<Longrightarrow>
      succeeds (f bs g') P"
  shows "succeeds (case dispatch_allocation n g of (bs, g') \<Rightarrow> f bs g') P"
proof -
  have "\<exists>bs g'. dispatch_allocation n g = (bs, g') \<and> extends g0 g' \<and> gsize g \<le> gsize g'
    \<and> within (gsize g') bs \<and> length bs = n"
    using assms(1)
  proof (induction n arbitrary: g)
    case 0
    then show ?case by simp
  next
    case (Suc n)
    obtain b h where b: "empty_block g = (b, h)" by (cases "empty_block g")
    note h = empty_block_ok[OF extends_ok[OF Suc.prems] b]
    from Suc.IH[OF extends_trans[OF Suc.prems h(1)]] show ?case
      using b h(2,4) by (auto simp: within_def)
  qed
  with assms(2) show ?thesis by auto
qed

lemma enumerate_set: "(i, x) \<in> set (List.enumerate n xs) \<Longrightarrow> x \<in> set xs"
  by (auto simp: enumerate_eq_zip dest: set_zip_rightD)

lemma dispatch_edges_ok:
  assumes "extends g0 g" "dispatch < gsize g" "exit_block < gsize g"
    and "\<forall>(_, entry, _) \<in> set arms. entry < gsize g"
  shows "succeeds (dispatch_edges dispatch exit_block arms g) (\<lambda>g'. extends g0 g' \<and> gsize g' = gsize g)"
  using assms
proof (induction arms arbitrary: g)
  case Nil
  then show ?case by (auto intro: step_add_edge)
next
  case (Cons a arms)
  obtain arm entry exits where a: "a = (arm, entry, exits)" by (cases a)
  show ?case
    unfolding a dispatch_edges.simps
  proof (rule succeeds_intros, rule step_add_edge[OF Cons.prems(1,2)], goal_cases)
    case (2 g')
    with Cons.IH[of g'] Cons.prems(2-4) show ?case by auto
  qed (use Cons.prems(4) a in auto)
qed

text \<open>The blocks of an arm that has been built.\<close>

definition arm_ok :: "nat \<Rightarrow> recorded_case_arm \<times> block_id \<times> block_id list \<Rightarrow> bool" where
  "arm_ok n = (\<lambda>(_, entry, exits). entry < n \<and> within n exits)"

lemma arm_edges_ok:
  assumes "extends g0 g" "within (gsize g) froms" "exit_block < gsize g" "within (gsize g) dispatch_blocks"
    and "arm_ok (gsize g) arm"
  shows "succeeds (arm_edges exit_block dispatch_blocks (i, arm) (froms, g))
    (\<lambda>(froms, g'). extends g0 g' \<and> gsize g' = gsize g \<and> within (gsize g) froms)"
proof -
  obtain a entry exits where arm: "arm = (a, entry, exits)" by (cases arm)
  have bounds: "entry < gsize g" "within (gsize g) exits" using assms(5) by (auto simp: arm arm_ok_def)
  have target: "(if i + 1 < length dispatch_blocks then dispatch_blocks ! (i + 1) else exit_block) < gsize g"
    using assms(3,4) by (auto simp: within_def)
  show ?thesis
    unfolding arm_edges_def arm prod.case Let_def
  proof (rule succeeds_intros, rule step_add_edges[OF assms(1,2) bounds(1)], goal_cases)
    case (1 h)
    then show ?case
      using bounds assms(3) target
      by (cases "ca_terminator a") (auto intro!: succeeds_intros(2) step_add_edges[where ?g0.0 = g0])
  qed
qed

section \<open>The contract of one command\<close>

text \<open>
  What \<open>build_command\<close> promises for the commands of rank below \<open>m\<close>: started in a graph that satisfies
  the invariant, under loops whose targets are blocks of it, it does not panic, only extends the graph
  and returns an entry and exits that are blocks of it.
\<close>

locale command_contract =
  fixes env :: build_env and rank :: "command_id \<Rightarrow> nat" and m :: nat and build :: command_builder
  assumes build_ok:
    "ranked rank (be_program env) \<Longrightarrow> c < length (rp_commands (be_program env)) \<Longrightarrow> rank c < m \<Longrightarrow>
     graph_ok g \<Longrightarrow> loops_ok (gsize g) loops \<Longrightarrow>
     succeeds (build loops force c g) (\<lambda>(r, g'). extends g g' \<and> sequence_ok (gsize g') r)"
begin

lemma step_build:
  assumes "ranked rank (be_program env)" "c < length (rp_commands (be_program env))" "rank c < m"
    and "extends g0 g" "loops_ok (gsize g) loops"
    and "\<And>r g'. extends g0 g' \<Longrightarrow> gsize g \<le> gsize g' \<Longrightarrow> sequence_ok (gsize g') r \<Longrightarrow> P (r, g')"
  shows "succeeds (build loops force c g) P"
  using build_ok[OF assms(1-3) extends_ok[OF assms(4)] assms(5)]
  by (rule succeeds_mono) (use assms(4,6) extends_trans extends_size in auto)

lemma step_sequence:
  assumes "ranked rank (be_program env)" "below rank m (be_program env) r"
    and "extends g0 g" "loops_ok (gsize g) loops"
    and "\<And>s g'. extends g0 g' \<Longrightarrow> gsize g \<le> gsize g' \<Longrightarrow> sequence_ok (gsize g') s \<Longrightarrow> P (s, g')"
  shows "succeeds (build_sequence env build r loops g) P"
proof -
  let ?I = "\<lambda>(entry, pending, cause, h). extends g0 h \<and> gsize g \<le> gsize h
    \<and> within (gsize h) pending \<and> (\<forall>e. entry = Some e \<longrightarrow> e < gsize h)"
  obtain cs where cs: "commands_in (be_program env) r = Some cs"
    and lower: "\<And>c. c \<in> set cs \<Longrightarrow> c < length (rp_commands (be_program env)) \<and> rank c < m"
    using assms(2) by (auto simp: below_def)
  have step: "succeeds (sequence_step env build loops c st) ?I" if "c \<in> set cs" and I: "?I st" for c st
  proof -
    obtain entry pending cause h where st: "st = (entry, pending, cause, h)" by (cases st)
    note h = I[unfolded st, simplified] lower[OF that(1)]
    from h have c: "command_at (be_program env) c = Some (rp_commands (be_program env) ! c)"
      by (simp add: command_at_def)
    show ?thesis
      unfolding sequence_step_def Let_def st prod.case c bind.bind_lunit
    proof (rule succeeds_intros, rule step_build[OF assms(1), where ?g0.0 = g0], goal_cases)
      case (5 s k)
      have mark: "extends g0 (mark_unreachable_blocks_since (gsize h) a k)" for a
        using 5(1) mark_since_ok[OF extends_ok[OF 5(1)]] extends_trans by blast
      have "succeeds (case sr_entry s of None \<Rightarrow> Some k | Some e \<Rightarrow>
          (case cause of Some a \<Rightarrow> Some (mark_unreachable_blocks_since (gsize h) a k)
           | None \<Rightarrow> add_edges pending e Sequential k)) (\<lambda>k'. extends g0 k' \<and> gsize k' = gsize k)"
        using h 5 mark mark_since_ok(2)[OF extends_ok[OF 5(1)]]
        by (auto simp: sequence_ok_def split: option.splits intro!: step_add_edges intro: within_mono)
      then show ?case
        unfolding prod.case by (rule succeeds_intros(2)[OF succeeds_mono])
          (use h 5 in \<open>auto simp: sequence_ok_def intro: order.strict_trans2\<close>)
    qed (use h assms(4) in \<open>auto intro: loops_ok_mono\<close>)
  qed
  show ?thesis
    unfolding build_sequence_def
    apply (simp add: cs succeeds_bind)
    apply (rule succeeds_fold[where I = ?I])
    using assms(3) step assms(5) by (auto simp: sequence_ok_def)
qed

lemma step_regions:
  assumes "ranked rank (be_program env)"
    and "\<exists>rs. nested_regions (be_program env) r = Some rs
      \<and> (\<forall>x \<in> set rs. below rank m (be_program env) (ir_commands x))"
    and "extends g0 g" "loops_ok (gsize g) loops" "block < gsize g"
    and "\<And>g'. extends g0 g' \<Longrightarrow> gsize g \<le> gsize g' \<Longrightarrow> P g'"
  shows "succeeds (attach_nested_regions env build block r loops g) P"
proof -
  let ?I = "\<lambda>h. extends g0 h \<and> gsize g \<le> gsize h"
  obtain rs where rs: "nested_regions (be_program env) r = Some rs"
    and lower: "\<And>x. x \<in> set rs \<Longrightarrow> below rank m (be_program env) (ir_commands x)"
    using assms(2) by blast
  have step: "succeeds (attach_region env build block loops x h) ?I" if "x \<in> set rs" and h: "?I h" for x h
    unfolding attach_region_def
  proof (rule succeeds_intros, rule step_sequence[OF assms(1) lower[OF that(1)], where ?g0.0 = g0], goal_cases)
    case (3 s k)
    have edge: "succeeds (add_edge block e NestedRegion (scope_entry_or_insert (ir_scope x) e k)) ?I"
      if "sr_entry s = Some e" for e
    proof -
      have e: "e < gsize k" using 3(3) that by (simp add: sequence_ok_def)
      note k = scope_entry_ok[OF extends_ok[OF 3(1)] e, where s = "ir_scope x"]
      show ?thesis
        by (rule step_add_edge[OF extends_trans[OF 3(1) k(1)]])
          (use h 3(2) assms(5) e k(2) in auto)
    qed
    with h 3(1,2) show ?case by (cases "sr_entry s") auto
  qed (use h assms(4) in \<open>auto intro: loops_ok_mono\<close>)
  show ?thesis
    unfolding attach_nested_regions_def rs Option.bind_lunit
    by (rule succeeds_fold[where I = ?I]) (use assms(3,6) step in auto)
qed

lemma region_parts:
  assumes "ranked rank (be_program env)" "c < length (rp_commands (be_program env))" "rank c \<le> m"
  shows "\<exists>rs. nested_regions (be_program env) (rc_nested_regions (rp_commands (be_program env) ! c)) = Some rs
    \<and> (\<forall>x \<in> set rs. below rank m (be_program env) (ir_commands x))"
  using ranked_parts(1)[OF assms(1,2) refl] below_mono[OF _ assms(3)] by blast

lemma step_wrap:
  assumes "ranked rank (be_program env)" "c < length (rp_commands (be_program env))" "rank c \<le> m"
    and "extends g0 g" "loops_ok (gsize g) loops" "sequence_ok (gsize g) s"
  shows "succeeds (wrap_sequence_with_command_header env build c s loops force g)
    (\<lambda>(r, g'). extends g0 g' \<and> sequence_ok (gsize g') r)"
proof -
  let ?cmd = "rp_commands (be_program env) ! c"
  let ?Q = "\<lambda>(r, g'). extends g0 g' \<and> sequence_ok (gsize g') r"
  have c: "command_at (be_program env) c = Some ?cmd"
    using assms(2) by (simp add: command_at_def)
  have header: "succeeds (case command_block env (rc_span ?cmd) g of (header, g) \<Rightarrow>
      Option.bind (attach_nested_regions env build header (rc_nested_regions ?cmd) loops g)
        (\<lambda>g. case sr_entry s of
            None \<Rightarrow> Some (\<lparr>sr_entry = Some header, sr_exits = [header], sr_terminal_cause = None\<rparr>, g)
          | Some entry \<Rightarrow> Option.bind (add_edge header entry Sequential g)
              (\<lambda>g. Some (s\<lparr>sr_entry := Some header\<rparr>, g)))) ?Q"
  proof (rule step_command_block[OF assms(4)], rule succeeds_intros,
      rule step_regions[OF assms(1) region_parts[OF assms(1-3)], where ?g0.0 = g0], goal_cases)
    case (4 b g' k)
    then have "sequence_ok (gsize k) s"
      using assms(6) by (auto intro: sequence_ok_mono)
    with 4 show ?case
      by (cases "sr_entry s")
        (auto simp: sequence_ok_def intro!: succeeds_intros(2) step_add_edge[where ?g0.0 = g0]
          intro: within_mono)
  qed (use assms(5) in \<open>auto intro: loops_ok_mono\<close>)
  show ?thesis
    unfolding wrap_sequence_with_command_header_def c Option.bind_lunit Let_def
    using header assms(4,6) by (cases "sr_entry s") auto
qed

lemma step_segment:
  assumes "ranked rank (be_program env)" "fs_operator_before seg \<noteq> None"
    and "fs_command seg < length (rp_commands (be_program env))" "rank (fs_command seg) < m"
    and "extends g0 h" "loops_ok (gsize h) loops"
    and "within (gsize h) (ls_success_exits ls)" "within (gsize h) (ls_failure_exits ls)"
  shows "succeeds (list_segment_step build s loops seg (ls, h)) (\<lambda>(ls, k). extends g0 k \<and> gsize h \<le> gsize k
    \<and> within (gsize k) (ls_success_exits ls) \<and> within (gsize k) (ls_failure_exits ls))"
proof -
  obtain operator os where op: "fs_operator_before seg = Some (operator, os)" using assms(2) by auto
  let ?t = "(case operator of And \<Rightarrow> (ls_success_exits ls, ls_success_cause ls, ConditionalTrue)
        | Or \<Rightarrow> (ls_failure_exits ls, ls_failure_cause ls, ConditionalFalse))"
  obtain exits cause kind where t: "?t = (exits, cause, kind)" by (cases ?t)
  have exits: "within (gsize h) exits" using t assms(7,8) by (cases operator) auto
  show ?thesis
    unfolding list_segment_step_def prod.case op Option.bind_lunit Let_def t
  proof (rule succeeds_intros, rule step_build[OF assms(1,3,4,5,6)], goal_cases)
    case (1 r k)
    have mono: "within (gsize k) xs" if "within (gsize h) xs" for xs
      using that 1(2) by (rule within_mono)
    note mark = mark_if_ok[OF extends_ok[OF 1(1)]]
    have "succeeds (case sr_entry r of None \<Rightarrow> Some k | Some e \<Rightarrow>
          if exits = [] then Some (mark_if True (gsize h) cause k) else add_edges exits e kind k)
        (\<lambda>k'. extends g0 k' \<and> gsize k' = gsize k)"
      using 1 mono[OF exits] mark extends_trans[OF 1(1) mark(1)]
      by (auto simp: sequence_ok_def split: option.splits intro!: step_add_edges)
    then show ?case
      unfolding prod.case
      by (rule succeeds_intros(2)[OF succeeds_mono])
        (use 1 mono assms(7,8) in \<open>auto simp: sequence_ok_def intro!: list_join_within\<close>)
  qed
qed

lemma build_list_ok:
  assumes "ranked rank (be_program env)" "c < length (rp_commands (be_program env))" "rank c \<le> m"
    and "rank c \<le> n" "rc_kind (rp_commands (be_program env) ! c) = CList first rest"
    and "graph_ok g" "loops_ok (gsize g) loops"
  shows "succeeds (build_list env n build c first rest loops force g)
    (\<lambda>(r, g'). extends g g' \<and> sequence_ok (gsize g') r)"
proof -
  let ?p = "be_program env"
  let ?ok = "\<lambda>s. fs_command s < length (rp_commands ?p) \<and> rank (fs_command s) < m"
  let ?J = "\<lambda>out. \<exists>seg segs. out = seg # segs \<and> ?ok seg
    \<and> (\<forall>s \<in> set segs. fs_operator_before s \<noteq> None \<and> ?ok s)"
  let ?f = "\<lambda>item. collect_flat_list_segments n ?p (lt_command item)
      (Some (lt_operator item, lt_operator_span item))"
  have c: "command_at ?p c = Some (rp_commands ?p ! c)"
    using assms(2) by (simp add: command_at_def)
  obtain items where items: "list_items ?p rest = Some items"
    and lower: "\<And>i. i \<in> set items \<Longrightarrow> lt_command i < length (rp_commands ?p) \<and> rank (lt_command i) < rank c"
    and first: "first < length (rp_commands ?p)" "rank first < rank c"
    using ranked_parts(2)[OF assms(1,2) refl assms(5)] by blast
  obtain out where out: "collect_flat_list_segments n ?p first None [] = Some out" and J: "?J out"
    using collect_segments[OF assms(1) first(1), of n None "[]"] first(2) assms(3,4) by fastforce
  have step: "\<exists>out''. ?f i out' = Some out'' \<and> ?J out''" if i: "i \<in> set items" and J: "?J out'" for i out'
  proof -
    have r: "rank (lt_command i) < n" using lower[OF i] assms(4) by simp
    obtain seg segs where new: "?f i out' = Some (out' @ seg # segs)" "fs_operator_before seg \<noteq> None"
        "\<forall>s \<in> set segs. fs_operator_before s \<noteq> None"
        "\<forall>s \<in> set (seg # segs). fs_command s < length (rp_commands ?p)
          \<and> rank (fs_command s) \<le> rank (lt_command i)"
      using collect_segments[OF assms(1) conjunct1[OF lower[OF i]] r,
          of "Some (lt_operator i, lt_operator_span i)" out'] by auto
    have "?J (out' @ seg # segs)"
      using J new lower[OF i] assms(3) by fastforce
    with new(1) show ?thesis by blast
  qed
  obtain seg segs where all: "fold_opt ?f items out = Some (seg # segs)" and seg: "?ok seg"
    and segs: "\<And>s. s \<in> set segs \<Longrightarrow> fs_operator_before s \<noteq> None \<and> ?ok s"
    using fold_opt_total[where I = ?J, OF J, of items ?f] step by blast
  let ?I = "\<lambda>k0 (ls, k). extends g k \<and> gsize k0 \<le> gsize k
    \<and> within (gsize k) (ls_success_exits ls) \<and> within (gsize k) (ls_failure_exits ls)"
  show ?thesis
    unfolding build_list_def out items all Option.bind_lunit list.case c Let_def
  proof (rule succeeds_intros, rule step_build[OF assms(1), where ?g0.0 = g], goal_cases)
    case (5 r k)
    have loops: "loops_ok (gsize k) loops" using assms(7) 5(2) by (rule loops_ok_mono)
    show ?case
      unfolding prod.case
    proof (rule succeeds_intros, rule succeeds_fold[where I = "?I k"], goal_cases)
      case (2 seg st)
      obtain ls h where st: "st = (ls, h)" by (cases st)
      with 2 have h: "extends g h" "gsize k \<le> gsize h"
        "within (gsize h) (ls_success_exits ls)" "within (gsize h) (ls_failure_exits ls)" by auto
      have s: "fs_operator_before seg \<noteq> None" "fs_command seg < length (rp_commands ?p)"
        "rank (fs_command seg) < m" using segs[OF 2(1)] by auto
      show ?case
        unfolding st
        by (rule succeeds_mono[OF step_segment[OF assms(1) s h(1) loops_ok_mono[OF loops h(2)] h(3,4)]])
          (use h(2) in auto)
    next
      case (3 st)
      obtain ls h where st: "st = (ls, h)" by (cases st)
      with 3 have h: "extends g h" "gsize k \<le> gsize h"
        "within (gsize h) (ls_success_exits ls)" "within (gsize h) (ls_failure_exits ls)" by auto
      have entry: "sequence_ok (gsize h) r" using 5(3) h(2) by (rule sequence_ok_mono)
      show ?case
        unfolding st prod.case
        by (rule step_wrap[OF assms(1-3) h(1) loops_ok_mono[OF loops h(2)]])
          (use entry h(3,4) in \<open>simp add: sequence_ok_def\<close>)
    qed (use 5 in \<open>auto simp: sequence_ok_def\<close>)
  qed (use seg assms(6,7) in \<open>auto intro: extends_refl\<close>)
qed

lemma build_always_ok:
  assumes "ranked rank (be_program env)" "c < length (rp_commands (be_program env))" "rank c \<le> m"
    and "below rank m (be_program env) body" "below rank m (be_program env) always_body"
    and "graph_ok g" "loops_ok (gsize g) loops"
  shows "succeeds (build_always env build c body always_body loops force g)
    (\<lambda>(r, g'). extends g g' \<and> sequence_ok (gsize g') r)"
  unfolding build_always_def Let_def
proof (rule succeeds_intros, rule step_sequence[OF assms(1,4) extends_refl[OF assms(6)] assms(7)], goal_cases)
  case (1 b h)
  have loops: "loops_ok (gsize h) loops" using assms(7) 1(2) by (rule loops_ok_mono)
  show ?case
    unfolding prod.case
  proof (rule succeeds_intros, rule step_sequence[OF assms(1,5) 1(1) loops], goal_cases)
    case (1 a k)
    have b: "sequence_ok (gsize k) b" using \<open>sequence_ok (gsize h) b\<close> 1(2) by (rule sequence_ok_mono)
    have "succeeds (case sr_entry a of None \<Rightarrow> Some k | Some e \<Rightarrow>
          if sr_exits b = []
          then Option.bind (terminal_leaf_blocks (gsize g) (gsize h) k) (\<lambda>leaves. add_edges leaves e Sequential k)
          else add_edges (sr_exits b) e Sequential k) (\<lambda>k'. extends g k' \<and> gsize k' = gsize k)"
      using 1 b \<open>gsize g \<le> gsize h\<close>
      by (auto simp: sequence_ok_def split: option.splits
          intro!: step_add_edges succeeds_intros(2) step_leaves[where ?g0.0 = g])
    then show ?case
      unfolding prod.case
    proof (rule succeeds_intros(2)[OF succeeds_mono], goal_cases)
      case (1 k')
      then show ?case
        using \<open>sequence_ok (gsize k) a\<close> b loops \<open>gsize h \<le> gsize k\<close>
        by (intro step_wrap[OF assms(1-3)]) (auto simp: sequence_ok_def intro: loops_ok_mono)
    qed
  qed
qed

lemma build_while_ok:
  assumes "ranked rank (be_program env)" "c < length (rp_commands (be_program env))" "rank c \<le> m"
    and "below rank m (be_program env) condition" "below rank m (be_program env) body"
    and "graph_ok g" "loops_ok (gsize g) loops"
  shows "succeeds (build_while_like env build c condition body loops sense force g)
    (\<lambda>(r, g'). extends g g' \<and> sequence_ok (gsize g') r)"
  unfolding build_while_like_def Let_def
proof (rule step_empty_block[OF extends_refl[OF assms(6)]], goal_cases)
  case (1 exit_block g1)
  note g1 = this
  have loops1: "loops_ok (gsize g1) loops" using assms(7) g1(2) by (rule loops_ok_mono)
  show ?case
  proof (rule succeeds_intros, rule step_sequence[OF assms(1,4) g1(1) loops1], goal_cases)
    case (1 cond g2)
    note g2 = this
    have entry: "\<forall>e. sr_entry cond = Some e \<longrightarrow> e < gsize g2" using g2(3) by (simp add: sequence_ok_def)
    show ?case
      unfolding prod.case
    proof (rule step_entry_block[OF g2(1) entry], goal_cases)
      case (1 b g3)
      note g3 = this
      define target where "target = (case sr_entry cond of Some e \<Rightarrow> e | None \<Rightarrow> exit_block)"
      have target: "target < gsize g3"
        using entry g1(3) g2(2) g3(2) by (auto simp: target_def split: option.splits)
      have loops3: "loops_ok (gsize g3) (loops @ [\<lparr>lt_continue_target = target, lt_break_target = exit_block\<rparr>])"
        using loops_ok_mono[OF loops1, of "gsize g3"] target g1(3) g2(2) g3(2) by auto
      show ?case
        unfolding target_def[symmetric]
      proof (rule succeeds_intros, rule step_sequence[OF assms(1,5) g3(1) loops3], goal_cases)
        case (1 bs g4)
        note g4 = this
        have facts: "within (gsize g4) (sr_exits cond)" "exit_block < gsize g4" "target < gsize g4"
          "b < gsize g4" "within (gsize g4) (sr_exits bs)" "\<forall>e. sr_entry bs = Some e \<longrightarrow> e < gsize g4"
          using within_mono[of "gsize g2" "sr_exits cond" "gsize g4"] g1 g2 g3 g4 target
          by (auto simp: sequence_ok_def)
        have both: "succeeds (fold_opt (\<lambda>exit g. Option.bind (add_edge exit e k1 g)
              (\<lambda>g. add_edge exit exit_block k2 g)) (sr_exits cond) g4)
            (\<lambda>h. extends g h \<and> gsize h = gsize g4)" if "e < gsize g4" for e k1 k2
          by (rule succeeds_fold[where I = "\<lambda>h. extends g h \<and> gsize h = gsize g4"])
            (use g4(1) facts that in \<open>auto simp: within_def intro!: succeeds_intros(2) step_add_edge\<close>)
        have "succeeds (case sr_entry bs of
            None \<Rightarrow> add_edges (sr_exits cond) exit_block LoopExit g4
          | Some body_entry \<Rightarrow> Option.bind (fold_opt (\<lambda>exit g. Option.bind
                (add_edge exit body_entry (if sense then ConditionalTrue else ConditionalFalse) g)
                (\<lambda>g. add_edge exit exit_block (if sense then ConditionalFalse else ConditionalTrue) g))
                  (sr_exits cond) g4)
              (\<lambda>g. add_edges (sr_exits bs) target LoopBack g))
            (\<lambda>h. extends g h \<and> gsize h = gsize g4)"
        proof (cases "sr_entry bs")
          case None
          then show ?thesis using g4(1) facts by (auto intro!: step_add_edges)
        next
          case (Some e)
          with facts(6) have "e < gsize g4" by simp
          then show ?thesis
            using Some facts
            by (auto intro!: succeeds_intros(2) succeeds_mono[OF both[OF \<open>e < gsize g4\<close>]] step_add_edges)
        qed
        then show ?case
          unfolding prod.case
          by (rule succeeds_intros(2)[OF succeeds_mono])
            (use facts loops_ok_mono[OF loops1, of "gsize g4"] g2(2) g3(2) g4(2) in
              \<open>auto intro!: step_wrap[OF assms(1-3)]\<close>)
      qed
    qed
  qed
qed

text \<open>Building one range, marking it when it is unreachable and linking it to what leads to it.\<close>

lemma step_linked_sequence:
  assumes "ranked rank (be_program env)" "below rank m (be_program env) r" "extends g0 g"
    and "loops_ok (gsize g) loops" "within (gsize g) froms"
    and "\<And>s k'. extends g0 k' \<Longrightarrow> gsize g \<le> gsize k' \<Longrightarrow> sequence_ok (gsize k') s \<Longrightarrow>
      succeeds (f s k') P"
  shows "succeeds (Option.bind (build_sequence env build r loops g) (\<lambda>(s, k).
      Option.bind (add_edges_to froms (sr_entry s) kind (mark_if (b s) start (cause s) k)) (f s))) P"
proof (rule succeeds_intros, rule step_sequence[OF assms(1-4)], goal_cases)
  case (1 s k)
  note mark = mark_if_ok[OF extends_ok[OF 1(1)]]
  show ?case
    unfolding prod.case
    by (rule succeeds_intros, rule step_add_edges_to[OF extends_trans[OF 1(1) mark(1)]])
      (use 1 mark(2) assms(5,6) in \<open>auto simp: sequence_ok_def intro: within_mono\<close>)
qed

lemma step_elif:
  assumes "ranked rank (be_program env)" "below rank m (be_program env) (eb_condition branch)"
    "below rank m (be_program env) (eb_body branch)"
    and "extends g0 g" "loops_ok (gsize g) loops"
    and "within (gsize g) (if_branch_exits st)" "within (gsize g) (if_false_exits st)"
  shows "succeeds (elif_branch_step env build s loops branch (st, g)) (\<lambda>(st, k). extends g0 k
    \<and> gsize g \<le> gsize k \<and> within (gsize k) (if_branch_exits st) \<and> within (gsize k) (if_false_exits st))"
  unfolding elif_branch_step_def prod.case Let_def
proof (rule step_linked_sequence[OF assms(1,2,4,5,7)], goal_cases)
  case (1 cond h)
  have h: "loops_ok (gsize h) loops" "within (gsize h) (sr_exits cond)"
    "within (gsize h) (if_branch_exits st)" "within (gsize h) (if_false_exits st)"
    using assms(5-7) 1 by (auto intro: loops_ok_mono within_mono simp: sequence_ok_def)
  show ?case
  proof (rule step_linked_sequence[OF assms(1,3) 1(1) h(1,2)], goal_cases)
    case (1 body k)
    then show ?case
      using h \<open>gsize g \<le> gsize h\<close> within_mono[OF h(2) 1(2)] within_mono[OF h(3) 1(2)] within_mono[OF h(4) 1(2)]
      by (auto simp: sequence_ok_def intro!: join_branch_within)
  qed
qed

lemma build_if_ok:
  assumes "ranked rank (be_program env)" "c < length (rp_commands (be_program env))" "rank c \<le> m"
    and "below rank m (be_program env) condition" "below rank m (be_program env) then_branch"
    and "below rank m (be_program env) else_branch" "elif_branches (be_program env) elifs = Some branches"
    and "\<And>b. b \<in> set branches \<Longrightarrow>
      below rank m (be_program env) (eb_condition b) \<and> below rank m (be_program env) (eb_body b)"
    and "graph_ok g" "loops_ok (gsize g) loops"
  shows "succeeds (build_if env build c condition then_branch elifs else_branch loops force g)
    (\<lambda>(r, g'). extends g g' \<and> sequence_ok (gsize g') r)"
proof -
  let ?I = "\<lambda>h (st, k). extends g k \<and> gsize h \<le> gsize k
    \<and> within (gsize k) (if_branch_exits st) \<and> within (gsize k) (if_false_exits st)"
  have c: "command_at (be_program env) c = Some (rp_commands (be_program env) ! c)"
    using assms(2) by (simp add: command_at_def)
  show ?thesis
    unfolding build_if_def Let_def c Option.bind_lunit assms(7)
  proof (rule succeeds_intros, rule step_sequence[OF assms(1,4) extends_refl[OF assms(9)] assms(10)],
      goal_cases)
    case (1 cond g1)
    note g1 = this
    have entry: "\<forall>e. sr_entry cond = Some e \<longrightarrow> e < gsize g1" using g1(3) by (simp add: sequence_ok_def)
    show ?case
      unfolding prod.case
    proof (rule step_entry_block[OF g1(1) entry], goal_cases)
      case (1 b g2)
      note g2 = this
      have h: "loops_ok (gsize g2) loops" "within (gsize g2) (sr_exits cond)"
        using assms(10) g1 g2(2) by (auto intro: loops_ok_mono within_mono simp: sequence_ok_def)
      show ?case
      proof (rule step_linked_sequence[OF assms(1,5) g2(1) h], goal_cases)
        case (1 thn g3)
        note g3 = this
        have h3: "loops_ok (gsize g3) loops" "within (gsize g3) (sr_exits cond)" "b < gsize g3"
          using h g2(3) g3(2) by (auto intro: loops_ok_mono within_mono)
        show ?case
        proof (rule succeeds_intros, rule succeeds_fold[where I = "?I g3"], goal_cases)
          case (2 branch st)
          obtain st' k where st: "st = (st', k)" by (cases st)
          with 2 have k: "extends g k" "gsize g3 \<le> gsize k" "within (gsize k) (if_branch_exits st')"
            "within (gsize k) (if_false_exits st')" by auto
          have parts: "below rank m (be_program env) (eb_condition branch)"
            "below rank m (be_program env) (eb_body branch)" using assms(8)[OF 2(1)] by auto
          show ?case
            unfolding st
            by (rule succeeds_mono[OF step_elif[OF assms(1) parts k(1) loops_ok_mono[OF h3(1) k(2)] k(3,4)]])
              (use k(2) in auto)
        next
          case (3 st)
          obtain st' k where st: "st = (st', k)" by (cases st)
          with 3 have k: "extends g k" "gsize g3 \<le> gsize k" "within (gsize k) (if_branch_exits st')"
            "within (gsize k) (if_false_exits st')" by auto
          show ?case
            unfolding st prod.case
          proof (rule step_linked_sequence[OF assms(1,6) k(1) loops_ok_mono[OF h3(1) k(2)] k(4)], goal_cases)
            case (1 els k')
            have "within (gsize k') (if_branch_exits st')" "within (gsize k') (if_false_exits st')"
              "b < gsize k'" "loops_ok (gsize k') loops"
              using k(2-4) h3 1(2) by (auto intro: loops_ok_mono within_mono)
            with 1(1,3) show ?case
              by (intro step_wrap[OF assms(1-3)]) (auto simp: sequence_ok_def[of _ els] intro!: if_else_join_within)
          qed
        qed (use g3 h3 in \<open>auto simp: sequence_ok_def\<close>)
      qed
    qed
  qed
qed

lemma build_loop_command_ok:
  assumes "ranked rank (be_program env)" "c < length (rp_commands (be_program env))" "rank c \<le> m"
    and "below rank m (be_program env) body" "graph_ok g" "loops_ok (gsize g) loops"
  shows "succeeds (build_loop_command env build c body loops g)
    (\<lambda>(r, g'). extends g g' \<and> sequence_ok (gsize g') r)"
proof -
  have c: "command_at (be_program env) c = Some (rp_commands (be_program env) ! c)"
    using assms(2) by (simp add: command_at_def)
  show ?thesis
    unfolding build_loop_command_def Let_def c Option.bind_lunit
  proof (rule step_command_block[OF extends_refl[OF assms(5)]], goal_cases)
    case (1 header g1)
    note g1 = this
    have loops1: "loops_ok (gsize g1) loops" using assms(6) g1(2) by (rule loops_ok_mono)
    show ?case
    proof (rule succeeds_intros, rule step_regions[OF assms(1) region_parts[OF assms(1-3)] g1(1) loops1 g1(3)],
        rule step_empty_block[where ?g0.0 = g], goal_cases)
      case (2 g2 exit_block g3)
      note g3 = this
      have h: "header < gsize g3"
        and loops3: "loops_ok (gsize g3) (loops @ [\<lparr>lt_continue_target = header, lt_break_target = exit_block\<rparr>])"
        using loops_ok_mono[OF loops1, of "gsize g3"] g1(3) g3 by auto
      show ?case
      proof (rule succeeds_intros, rule step_sequence[OF assms(1,4) g3(3) loops3], goal_cases)
        case (1 b g4)
        have "succeeds (case sr_entry b of
            None \<Rightarrow> add_edge header exit_block LoopExit g4
          | Some body_entry \<Rightarrow> Option.bind (add_edge header body_entry ConditionalTrue g4)
              (\<lambda>g. Option.bind (add_edge header exit_block ConditionalFalse g)
                (\<lambda>g. add_edges (sr_exits b) header LoopBack g))) (\<lambda>h. extends g h \<and> gsize h = gsize g4)"
          using 1 h g3(5)
          by (auto simp: sequence_ok_def split: option.splits
              intro!: succeeds_intros(2) step_add_edge[where ?g0.0 = g] step_add_edges[where ?g0.0 = g])
        then show ?case
          unfolding prod.case
          by (rule succeeds_intros(2)[OF succeeds_mono]) (use 1(2) h g3(5) in auto)
      qed
    qed
  qed
qed

lemma step_arms:
  assumes "ranked rank (be_program env)"
    and "\<And>arm. arm \<in> set arms \<Longrightarrow> below rank m (be_program env) (ca_commands arm)"
    and "extends g0 g" "loops_ok (gsize g) loops"
    and "\<And>seqs g'. extends g0 g' \<Longrightarrow> gsize g \<le> gsize g' \<Longrightarrow> length seqs = length arms \<Longrightarrow>
      \<forall>(e, xs) \<in> set seqs. e < gsize g' \<and> within (gsize g') xs \<Longrightarrow> P (seqs, g')"
  shows "succeeds (fold_opt (build_arm env build loops) arms ([], g)) P"
proof -
  let ?Q = "\<lambda>n (seqs, h). extends g0 h \<and> gsize g \<le> gsize h \<and> length seqs = n
    \<and> (\<forall>(e, xs) \<in> set seqs. e < gsize h \<and> within (gsize h) xs)"
  have step: "succeeds (build_arm env build loops arm (seqs, h)) (?Q (Suc n))"
    if "arm \<in> set arms" "?Q n (seqs, h)" for arm seqs h n
    unfolding build_arm_def prod.case
  proof (rule succeeds_intros, rule step_sequence[OF assms(1) assms(2)[OF that(1)], where ?g0.0 = g0], goal_cases)
    case (3 s k)
    then have old: "\<forall>(e, xs) \<in> set seqs. e < gsize k' \<and> within (gsize k') xs" if "gsize k \<le> gsize k'" for k'
      using \<open>?Q n (seqs, h)\<close> that by (fastforce intro: within_mono)
    have new: "succeeds (case empty_block k of (b, g) \<Rightarrow> Some (seqs @ [(b, sr_exits s @ [b])], g)) (?Q (Suc n))"
      by (rule step_empty_block[OF 3(1)])
        (use old 3 \<open>?Q n (seqs, h)\<close> in \<open>auto simp: sequence_ok_def intro: within_mono\<close>)
    then show ?case
      using 3 \<open>?Q n (seqs, h)\<close> old[of k] by (auto simp: sequence_ok_def Let_def split: option.splits)
  qed (use that assms(4) in \<open>auto intro: loops_ok_mono\<close>)
  have all: "succeeds (fold_opt (build_arm env build loops) as (seqs, h)) (?Q (length as + n))"
    if "set as \<subseteq> set arms" "?Q n (seqs, h)" for as seqs h n
    using that
  proof (induction as arbitrary: seqs h n)
    case (Cons a as)
    then have "a \<in> set arms" by simp
    from step[OF this Cons.prems(2)] show ?case
      unfolding fold_opt.simps
      by (rule succeeds_intros(2)[OF succeeds_mono]) (use Cons.IH[where n = "Suc n"] Cons.prems(1) in auto)
  qed simp
  from all[of arms 0 "[]" g] assms(3)
  have "succeeds (fold_opt (build_arm env build loops) arms ([], g)) (?Q (length arms))" by simp
  then show ?thesis by (rule succeeds_mono) (use assms(5) in auto)
qed

lemma build_case_ok:
  assumes "ranked rank (be_program env)" "c < length (rp_commands (be_program env))" "rank c \<le> m"
    and "case_arms (be_program env) r = Some arms"
    and "\<And>arm. arm \<in> set arms \<Longrightarrow> below rank m (be_program env) (ca_commands arm)"
    and "graph_ok g" "loops_ok (gsize g) loops"
  shows "succeeds (build_case env build c r loops g) (\<lambda>(r, g'). extends g g' \<and> sequence_ok (gsize g') r)"
proof -
  have c: "command_at (be_program env) c = Some (rp_commands (be_program env) ! c)"
    using assms(2) by (simp add: command_at_def)
  show ?thesis
    unfolding build_case_def Let_def c Option.bind_lunit assms(4)
  proof (rule step_command_block[OF extends_refl[OF assms(6)]], goal_cases)
    case (1 head g1)
    note g1 = this
    have loops1: "loops_ok (gsize g1) loops" using assms(7) g1(2) by (rule loops_ok_mono)
    show ?case
    proof (rule succeeds_intros, rule step_regions[OF assms(1) region_parts[OF assms(1-3)] g1(1) loops1 g1(3)],
        rule step_empty_block[where ?g0.0 = g], goal_cases)
      case (2 g2 exit_block g3)
      note g3 = this
      show ?case
      proof (rule dispatch_allocation_ok[OF g3(3)], goal_cases)
        case (1 more g4)
        note g4 = this
        have loops4: "loops_ok (gsize g4) loops"
          using g3 g4(2) by (intro loops_ok_mono[OF loops1]) auto
        show ?case
        proof (rule succeeds_intros, rule step_arms[OF assms(1,5) g4(1) loops4], goal_cases)
          case (2 seqs g5)
          note g5 = this
          let ?built = "zip arms seqs"
          let ?J = "\<lambda>h. extends g h \<and> gsize h = gsize g5"
          have blocks: "within (gsize g5) (head # more)" "exit_block < gsize g5"
            using g1 g3 g4 g5(2) within_mono[OF g4(3) g5(2)] by auto
          have arms: "\<forall>x \<in> set ?built. arm_ok (gsize g5) x"
            using g5(4) by (auto simp: arm_ok_def dest!: set_zip_rightD)
          have dispatch: "succeeds (dispatch_edges d exit_block (drop i ?built) h) ?J"
            if "d \<in> set (head # more)" "?J h" for i d h
          proof -
            have "\<forall>(_, e, _) \<in> set (drop i ?built). e < gsize h"
              using arms that(2) set_drop_subset[of i ?built] by (fastforce simp: arm_ok_def)
            then have "succeeds (dispatch_edges d exit_block (drop i ?built) h)
                (\<lambda>k. extends g k \<and> gsize k = gsize h)"
              using blocks that by (intro dispatch_edges_ok) (auto simp: within_def)
            then show ?thesis by (rule succeeds_mono) (use that in auto)
          qed
          show ?case
            unfolding prod.case
          proof (rule succeeds_intros, rule succeeds_fold[where I = ?J], goal_cases)
            case (2 x h)
            obtain i d where x: "x = (i, d)" by (cases x)
            have "d \<in> set (head # more)"
              using 2(1) unfolding x by (rule enumerate_set)
            from dispatch[OF this 2(2)] show ?case by (simp add: x)
          next
            case (3 h)
            note h = this
            show ?case
            proof (rule succeeds_intros, rule succeeds_fold[where
                  I = "\<lambda>(froms, k). ?J k \<and> within (gsize g5) froms"], goal_cases)
              case (2 x st)
              obtain i arm froms k where x: "x = (i, arm)" "st = (froms, k)"
                by (cases x; cases st)
              have "arm \<in> set ?built"
                using 2(1) unfolding x by (rule enumerate_set)
              with 2(2) arms show ?case
                unfolding x
                by (intro succeeds_mono[OF arm_edges_ok[where ?g0.0 = g]]) (use blocks x in auto)
            next
              case (3 st)
              then show ?case using blocks by (cases st) auto
            qed (use h in auto)
          qed (use g5(1) in auto)
        qed
      qed
    qed
  qed
qed

lemma build_linear_ok:
  assumes "ranked rank (be_program env)"
    and "\<exists>rs. nested_regions (be_program env) (rc_nested_regions cmd) = Some rs
      \<and> (\<forall>x \<in> set rs. below rank m (be_program env) (ir_commands x))"
    and "graph_ok g" "loops_ok (gsize g) loops"
  shows "succeeds (build_linear env build cmd loops g) (\<lambda>(r, g'). extends g g' \<and> sequence_ok (gsize g') r)"
  unfolding build_linear_def Let_def
proof (rule step_command_block[OF extends_refl[OF assms(3)]], goal_cases)
  case (1 b g1)
  show ?case
  proof (rule succeeds_intros, rule step_regions[OF assms(1,2) 1(1) loops_ok_mono[OF assms(4) 1(2)] 1(3)], goal_cases)
    case (1 g2)
    have b: "b < gsize g2" using 1(2) \<open>b < gsize g1\<close> by simp
    note t = script_terminator_ok[OF extends_ok[OF 1(1)] b]
    show ?case using 1(1) b t(2) extends_trans[OF 1(1) t(1)] by auto
  qed
qed

lemma build_loop_control_ok:
  assumes "graph_ok g" "loops_ok (gsize g) loops" "target \<in> {lt_break_target, lt_continue_target}"
  shows "succeeds (build_loop_control env cmd depth target kind loops g)
    (\<lambda>(r, g'). extends g g' \<and> sequence_ok (gsize g') r)"
  unfolding build_loop_control_def Let_def
proof (rule step_command_block[OF extends_refl[OF assms(1)]], goal_cases)
  case (1 b g1)
  have target: "target l < gsize g1" if "resolve_break_target loops depth = Some l" for l
  proof -
    have "l \<in> set loops"
      using that unfolding resolve_break_target_def nth_opt_Some by (metis nth_mem set_rev)
    with assms(2,3) 1(2) show ?thesis by (auto simp: loops_ok_def)
  qed
  have "succeeds (case resolve_break_target loops depth of None \<Rightarrow> Some g1
      | Some l \<Rightarrow> add_edge b (target l) kind g1) (\<lambda>h. extends g h \<and> gsize h = gsize g1)"
    using 1 target by (auto split: option.splits intro!: step_add_edge)
  then show ?case
    by (rule succeeds_intros(2)[OF succeeds_mono]) (use 1(3) in auto)
qed

lemma build_terminator_ok:
  assumes "graph_ok g"
  shows "succeeds (build_terminator env cmd g) (\<lambda>(r, g'). extends g g' \<and> sequence_ok (gsize g') r)"
  unfolding build_terminator_def Let_def
proof (rule step_command_block[OF extends_refl[OF assms(1)]], goal_cases)
  case (1 b h)
  note t = script_terminator_ok[OF extends_ok[OF 1(1)] 1(3)]
  show ?case using 1 t(2) extends_trans[OF 1(1) t(1)] by auto
qed

lemma build_subshell_ok:
  assumes "ranked rank (be_program env)"
    and "\<exists>rs. nested_regions (be_program env) (rc_nested_regions cmd) = Some rs
      \<and> (\<forall>x \<in> set rs. below rank m (be_program env) (ir_commands x))"
    and "below rank m (be_program env) body" "graph_ok g" "loops_ok (gsize g) loops"
  shows "succeeds (build_subshell env build cmd body loops g)
    (\<lambda>(r, g'). extends g g' \<and> sequence_ok (gsize g') r)"
  unfolding build_subshell_def Let_def
proof (rule step_command_block[OF extends_refl[OF assms(4)]], goal_cases)
  case (1 b g1)
  note g1 = this
  have loops1: "loops_ok (gsize g1) loops" using assms(5) g1(2) by (rule loops_ok_mono)
  show ?case
  proof (rule succeeds_intros, rule step_regions[OF assms(1,2) g1(1) loops1 g1(3)],
      rule succeeds_intros(2), rule step_sequence[OF assms(1,3), where ?g0.0 = g], goal_cases)
    case (3 g2 s g3)
    then show ?case
      unfolding prod.case
      by (intro succeeds_intros(2) step_add_edges_to[where ?g0.0 = g])
        (use g1(3) in \<open>auto simp: sequence_ok_def[of _ s]\<close>)
  qed (auto intro: loops_ok_mono[OF loops1])
qed

lemma build_pipeline_ok:
  assumes "ranked rank (be_program env)"
    and "\<exists>rs. nested_regions (be_program env) (rc_nested_regions cmd) = Some rs
      \<and> (\<forall>x \<in> set rs. below rank m (be_program env) (ir_commands x))"
    and "pipeline_segments (be_program env) r = Some ss"
    and "\<And>s. s \<in> set ss \<Longrightarrow> ps_command s < length (rp_commands (be_program env)) \<and> rank (ps_command s) < m"
    and "graph_ok g" "loops_ok (gsize g) loops"
  shows "succeeds (build_pipeline env build cmd r loops g)
    (\<lambda>(r, g'). extends g g' \<and> sequence_ok (gsize g') r)"
  unfolding build_pipeline_def Let_def assms(3) Option.bind_lunit
proof (rule step_command_block[OF extends_refl[OF assms(5)]], goal_cases)
  case (1 b g1)
  note g1 = this
  let ?I = "\<lambda>h. extends g h \<and> gsize g1 \<le> gsize h"
  have loops1: "loops_ok (gsize g1) loops" using assms(6) g1(2) by (rule loops_ok_mono)
  have step: "succeeds (attach_segment build b loops x h) ?I" if "x \<in> set ss" and h: "?I h" for x h
    unfolding attach_segment_def
  proof (rule succeeds_intros, rule step_build[OF assms(1) conjunct1[OF assms(4)] conjunct2[OF assms(4)],
        where ?g0.0 = g], goal_cases)
    case (5 s k)
    have edge: "succeeds (add_edge b e NestedRegion (scope_entry_or_insert (ps_scope x) e k)) ?I"
      if "sr_entry s = Some e" for e
    proof -
      have e: "e < gsize k" using 5(3) that by (simp add: sequence_ok_def)
      note k = scope_entry_ok[OF extends_ok[OF 5(1)] e, where s = "ps_scope x"]
      show ?thesis
        by (rule step_add_edge[OF extends_trans[OF 5(1) k(1)]])
          (use h 5(2) g1(3) e k(2) in auto)
    qed
    with h 5(1,2) show ?case by (cases "sr_entry s") auto
  qed (use h that(1) loops1 in \<open>auto intro: loops_ok_mono\<close>)
  show ?case
  proof (rule succeeds_intros, rule step_regions[OF assms(1,2) g1(1) loops1 g1(3)],
      rule succeeds_intros, rule succeeds_fold[where I = ?I], goal_cases)
    case (3 g2 h)
    then show ?case using g1(3) by auto
  qed (use step in auto)
qed

end

section \<open>The builder keeps the contract\<close>

lemma build_command_contract: "command_contract env rank n (build_command n env)"
proof (induction n)
  case 0
  show ?case by unfold_locales simp
next
  case (Suc n)
  show ?case
  proof (unfold_locales, goal_cases)
    case (1 c g loops force)
    let ?p = "be_program env"
    let ?cmd = "rp_commands ?p ! c"
    let ?Q = "\<lambda>(r, g'). extends g g' \<and> sequence_ok (gsize g') r"
    have n: "rank c \<le> n" using 1(3) by simp
    have c: "command_at ?p c = Some ?cmd" using 1(2) by (simp add: command_at_def)
    have low: "below rank n ?p r" if "below rank (rank c) ?p r" for r
      using that n by (rule below_mono)
    note parts = ranked_parts[OF 1(1,2) refl]
    note regions = command_contract.region_parts[OF Suc 1(1,2) n]
    note two = command_contract.build_while_ok[OF Suc 1(1,2) n _ _ 1(4,5)]
      command_contract.build_always_ok[OF Suc 1(1,2) n _ _ 1(4,5)]
    note loop = command_contract.build_loop_command_ok[OF Suc 1(1,2) n _ 1(4,5)]
    note simple = command_contract.build_linear_ok[OF Suc 1(1) regions 1(4,5)]
      command_contract.build_loop_control_ok[OF Suc 1(4,5)]
      command_contract.build_terminator_ok[OF Suc 1(4)]
      command_contract.build_subshell_ok[OF Suc 1(1) regions _ 1(4,5)]
    show ?case
    proof (cases "rc_kind ?cmd")
      case (CList first rest)
      then show ?thesis
        using command_contract.build_list_ok[OF Suc 1(1,2) n n CList 1(4,5)] by (simp add: c)
    next
      case (CIf a t e l)
      from parts(3)[OF CIf] obtain bs where "elif_branches ?p e = Some bs"
        "\<And>b. b \<in> set bs \<Longrightarrow> below rank n ?p (eb_condition b) \<and> below rank n ?p (eb_body b)"
        "below rank n ?p a" "below rank n ?p t" "below rank n ?p l" using low by metis
      then show ?thesis
        using command_contract.build_if_ok[OF Suc 1(1,2) n _ _ _ _ _ 1(4,5)] CIf by (simp add: c)
    next
      case (CCase r)
      from parts(6)[OF CCase] obtain arms where "case_arms ?p r = Some arms"
        "\<And>arm. arm \<in> set arms \<Longrightarrow> below rank n ?p (ca_commands arm)" using low by metis
      then show ?thesis
        using command_contract.build_case_ok[OF Suc 1(1,2) n _ _ 1(4,5)] CCase by (simp add: c)
    next
      case (CPipeline r)
      from parts(7)[OF CPipeline] n obtain ss where "pipeline_segments ?p r = Some ss"
        "\<And>s. s \<in> set ss \<Longrightarrow> ps_command s < length (rp_commands ?p) \<and> rank (ps_command s) < n"
        using order_less_le_trans by metis
      then show ?thesis
        using command_contract.build_pipeline_ok[OF Suc 1(1) regions _ _ 1(4,5)] CPipeline
        by (simp add: c)
    next
      case (CBraceGroup b)
      then have b: "below rank n ?p b" using parts(5) low by simp
      have "succeeds (Option.bind (build_sequence env (build_command n env) b loops g)
          (\<lambda>(s, g). wrap_sequence_with_command_header env (build_command n env) c s loops force g)) ?Q"
      proof (rule succeeds_intros, rule command_contract.step_sequence[OF Suc 1(1) b extends_refl[OF 1(4)] 1(5)],
          goal_cases)
        case (1 s h)
        then show ?case
          using command_contract.step_wrap[OF Suc \<open>ranked rank ?p\<close> \<open>c < length (rp_commands ?p)\<close> n 1(1)
              loops_ok_mono[OF \<open>loops_ok (gsize g) loops\<close> 1(2)] 1(3)]
          by simp
      qed
      with CBraceGroup show ?thesis by (simp add: c Let_def)
    qed (use parts(4,5) low two loop simple in \<open>simp_all add: c\<close>)
  qed
qed

interpretation builder: command_contract env rank n "build_command n env" for env rank n
  by (rule build_command_contract)

end
