(* ===== verification/Cfg_Graph.thy ===== *)
theory Cfg_Graph
  imports Cfg_Invariant
begin

text \<open>
  Model of the finished control-flow graph of \<open>crates/shucked-semantic/src/cfg/graph.rs\<close> and of
  \<open>build_control_flow_graph\<close>, \<open>derive_predecessors\<close> and \<open>compute_unreachable\<close> of
  \<open>cfg/builder.rs\<close>, which make it from a recorded program.  The theorems: building never panics on a
  well-formed program and every identifier of the graph is in range; the predecessors mirror the
  successors with their multiplicity; the unreachable blocks are exactly those that no path of edges
  leads to from a scope entry.
\<close>

section \<open>Predecessors and unreachable blocks\<close>

definition push_predecessor :: "nat \<Rightarrow> flow_edge \<Rightarrow> block_id list list \<Rightarrow> block_id list list option" where
  "push_predecessor block = (\<lambda>(target, _) preds. do {
     ps \<leftarrow> nth_opt preds target;
     update_opt preds target (ps @ [block]) })"

definition derive_predecessors :: "flow_edge list list \<Rightarrow> block_id list list option" where
  "derive_predecessors successors =
     fold_opt (\<lambda>(block, edges). fold_opt (push_predecessor block) edges)
       (List.enumerate 0 successors) (replicate (length successors) [])"

text \<open>The depth-first walk; the end of the code's stack is the head of the list.\<close>

function visit_blocks ::
  "flow_edge list list \<Rightarrow> block_id list \<Rightarrow> block_id set \<Rightarrow> block_id set option" where
  "visit_blocks successors [] visited = Some visited"
| "visit_blocks successors (block # stack) visited =
     (if block \<in> visited then visit_blocks successors stack visited
      else if block < length successors
      then visit_blocks successors (rev (map fst (successors ! block)) @ stack) (insert block visited)
      else None)"
  by pat_completeness auto
termination
proof (relation "measures [\<lambda>(ss, _, visited). card ({..<length ss} - visited), \<lambda>(_, stack, _). length stack]",
    goal_cases)
  case (3 ss block stack visited)
  then have "{..<length ss} - insert block visited \<subset> {..<length ss} - visited" by auto
  then show ?case by (auto intro!: psubset_card_mono)
qed auto

definition compute_unreachable ::
  "basic_block list \<Rightarrow> (scope_id \<times> block_id) list \<Rightarrow> flow_edge list list \<Rightarrow> block_id list option" where
  "compute_unreachable blocks roots successors = do {
     visited \<leftarrow> visit_blocks successors (rev (map snd roots)) {};
     Some (filter (\<lambda>b. b \<notin> visited) (map bb_id blocks)) }"

section \<open>The graph\<close>

record control_flow_graph =
  cfg_blocks :: "basic_block list"
  cfg_successors :: "flow_edge list list"
  cfg_predecessors :: "block_id list list"
  cfg_entry :: block_id
  cfg_exits :: "block_id list"
  cfg_natural_exits :: "block_id list"
  cfg_script_terminators :: "block_id list"
  cfg_script_always_terminates :: bool
  cfg_unreachable :: "block_id list"
  cfg_scope_entries :: "(scope_id \<times> block_id) list"
  cfg_scope_exits :: "scope_id \<rightharpoonup> block_id list"
  cfg_command_blocks :: "span_key \<rightharpoonup> block_id list"
  cfg_unreachable_causes :: "block_id \<rightharpoonup> unreachable_cause"

definition block_at :: "control_flow_graph \<Rightarrow> block_id \<Rightarrow> basic_block option" where
  "block_at cfg b = nth_opt (cfg_blocks cfg) b"

definition successors_of :: "control_flow_graph \<Rightarrow> block_id \<Rightarrow> flow_edge list" where
  "successors_of cfg b = (case nth_opt (cfg_successors cfg) b of Some es \<Rightarrow> es | None \<Rightarrow> [])"

definition predecessors_of :: "control_flow_graph \<Rightarrow> block_id \<Rightarrow> block_id list" where
  "predecessors_of cfg b = (case nth_opt (cfg_predecessors cfg) b of Some ps \<Rightarrow> ps | None \<Rightarrow> [])"

definition scope_entry :: "control_flow_graph \<Rightarrow> scope_id \<Rightarrow> block_id option" where
  "scope_entry cfg scope = map_of (cfg_scope_entries cfg) scope"

definition scope_exits :: "control_flow_graph \<Rightarrow> scope_id \<Rightarrow> block_id list option" where
  "scope_exits cfg scope = cfg_scope_exits cfg scope"

definition block_ids_for_span :: "control_flow_graph \<Rightarrow> span \<Rightarrow> block_id list" where
  "block_ids_for_span cfg s = map_default (cfg_command_blocks cfg) (span_key s)"

definition unreachable_cause_of :: "control_flow_graph \<Rightarrow> block_id \<Rightarrow> unreachable_cause option" where
  "unreachable_cause_of cfg b = cfg_unreachable_causes cfg b"

section \<open>Building the graph\<close>

text \<open>The ends of the graph that are collected while the file and the function bodies are built.\<close>

record graph_ends =
  ge_exits :: "block_id list"
  ge_natural_exits :: "block_id list"
  ge_scope_exits :: "scope_id \<rightharpoonup> block_id list"

definition insert_scope_entry :: "scope_id \<Rightarrow> block_id \<Rightarrow> graph_builder \<Rightarrow> graph_builder" where
  "insert_scope_entry scope b g = g\<lparr>gb_scope_entries := assoc_insert scope b (gb_scope_entries g)\<rparr>"

definition build_scope ::
  "nat \<Rightarrow> build_env \<Rightarrow> scope_id \<times> recorded_range \<Rightarrow> graph_ends \<times> graph_builder
    \<Rightarrow> (graph_ends \<times> graph_builder) option" where
  "build_scope n env = (\<lambda>(scope, commands) (ends, g). do {
     (s, g) \<leftarrow> build_sequence env (build_command n env) commands [] g;
     let (entry, g) = entry_or_empty_block (sr_entry s) g;
     let g = insert_scope_entry scope entry g;
     let natural = (if sr_entry s = None then [entry] else sr_exits s);
     let exits = (if sr_exits s = [] then [entry] else sr_exits s);
     Some (\<lparr>ge_exits = ge_exits ends @ exits, ge_natural_exits = ge_natural_exits ends @ natural,
            ge_scope_exits = (ge_scope_exits ends)(scope \<mapsto> exits)\<rparr>, g) })"

definition build_control_flow_graph ::
  "nat \<Rightarrow> nat \<Rightarrow> recorded_program \<Rightarrow> (span_key \<rightharpoonup> binding_id list) \<Rightarrow> (span_key \<rightharpoonup> reference_id list)
    \<Rightarrow> call_tables \<Rightarrow> control_flow_graph option" where
  "build_control_flow_graph k n p bindings references ct = do {
     calls \<leftarrow> compute_script_terminating_call_spans k n p ct;
     let env = \<lparr>be_program = p, be_command_bindings = bindings, be_command_references = references,
                be_script_terminating_calls = calls\<rparr>;
     (file, g) \<leftarrow> build_sequence env (build_command n env) (rp_file_commands p) [] builder_new;
     let (entry, g) = entry_or_empty_block (sr_entry file) g;
     let g = insert_scope_entry 0 entry g;
     let natural = (if sr_entry file = None then [entry] else sr_exits file);
     let exits = (if sr_exits file = [] then [entry] else sr_exits file);
     (ends, g) \<leftarrow> fold_opt (build_scope n env) (rp_function_bodies p)
       (\<lparr>ge_exits = exits, ge_natural_exits = natural, ge_scope_exits = [0 \<mapsto> exits]\<rparr>, g);
     unreachable \<leftarrow> compute_unreachable (gb_blocks g) (gb_scope_entries g) (gb_successors g);
     predecessors \<leftarrow> derive_predecessors (gb_successors g);
     Some \<lparr>cfg_blocks = gb_blocks g, cfg_successors = gb_successors g, cfg_predecessors = predecessors,
           cfg_entry = entry, cfg_exits = ge_exits ends, cfg_natural_exits = ge_natural_exits ends,
           cfg_script_terminators = gb_script_terminators g,
           cfg_script_always_terminates = (sr_exits file = [] \<and> sr_entry file \<noteq> None),
           cfg_unreachable = unreachable, cfg_scope_entries = gb_scope_entries g,
           cfg_scope_exits = ge_scope_exits ends, cfg_command_blocks = gb_command_blocks g,
           cfg_unreachable_causes = gb_unreachable_causes g\<rparr> }"

section \<open>Predecessors mirror successors\<close>

definition edge_count :: "flow_edge list list \<Rightarrow> block_id \<Rightarrow> block_id \<Rightarrow> nat" where
  "edge_count successors from to =
     (if from < length successors then count_list (map fst (successors ! from)) to else 0)"

lemma push_predecessors:
  assumes "length preds = n" "within n (map fst edges)"
    and "\<forall>p < n. sorted (preds ! p) \<and> (\<forall>x \<in> set (preds ! p). x \<le> block)"
  shows "succeeds (fold_opt (push_predecessor block) edges preds) (\<lambda>preds'. length preds' = n
    \<and> (\<forall>p < n. sorted (preds' ! p) \<and> (\<forall>x \<in> set (preds' ! p). x \<le> block)
        \<and> (\<forall>x. count_list (preds' ! p) x =
              count_list (preds ! p) x + (if x = block then count_list (map fst edges) p else 0))))"
  using assms
proof (induction edges arbitrary: preds)
  case Nil
  then show ?case by simp
next
  case (Cons e edges)
  obtain t k where e: "e = (t, k)" by (cases e)
  let ?new = "preds[t := preds ! t @ [block]]"
  have t: "t < n" using Cons.prems(2) e by simp
  have step: "push_predecessor block e preds = Some ?new"
    using t Cons.prems(1) by (simp add: push_predecessor_def e panic_simps)
  have "\<forall>p < n. sorted (?new ! p) \<and> (\<forall>x \<in> set (?new ! p). x \<le> block)"
    using Cons.prems(1,3) t by (auto simp: nth_list_update sorted_append)
  with Cons.IH[of ?new] Cons.prems(1,2)
  have "succeeds (fold_opt (push_predecessor block) edges ?new) (\<lambda>preds'. length preds' = n
    \<and> (\<forall>p < n. sorted (preds' ! p) \<and> (\<forall>x \<in> set (preds' ! p). x \<le> block)
        \<and> (\<forall>x. count_list (preds' ! p) x =
              count_list (?new ! p) x + (if x = block then count_list (map fst edges) p else 0))))"
    by simp
  then show ?case
    unfolding fold_opt.simps step Option.bind_lunit
    by (rule succeeds_mono) (use t Cons.prems(1) e in \<open>auto simp: nth_list_update\<close>)
qed

lemma derive_predecessors_ok:
  assumes "\<forall>es \<in> set ss. within (length ss) (map fst es)"
  shows "succeeds (derive_predecessors ss) (\<lambda>preds. length preds = length ss
    \<and> (\<forall>p < length ss. sorted (preds ! p) \<and> (\<forall>b. count_list (preds ! p) b = edge_count ss b p)))"
proof -
  let ?n = "length ss"
  let ?I = "\<lambda>i preds. length preds = ?n
    \<and> (\<forall>p < ?n. sorted (preds ! p) \<and> (\<forall>x \<in> set (preds ! p). x < i)
        \<and> (\<forall>b. count_list (preds ! p) b = (if b < i then edge_count ss b p else 0)))"
  have "succeeds (fold_opt (\<lambda>(block, edges). fold_opt (push_predecessor block) edges)
      (List.enumerate i (drop i ss)) preds) (?I ?n)" if "i \<le> ?n" "?I i preds" for i preds
    using that
  proof (induction "?n - i" arbitrary: i preds)
    case 0
    then show ?case by simp
  next
    case (Suc d)
    then have i: "i < ?n" by simp
    have ds: "drop i ss = ss ! i # drop (Suc i) ss" using i by (simp add: Cons_nth_drop_Suc)
    have "within ?n (map fst (ss ! i))" using assms i by simp
    then have "succeeds (fold_opt (push_predecessor i) (ss ! i) preds) (\<lambda>preds'. length preds' = ?n
      \<and> (\<forall>p < ?n. sorted (preds' ! p) \<and> (\<forall>x \<in> set (preds' ! p). x \<le> i)
        \<and> (\<forall>x. count_list (preds' ! p) x =
              count_list (preds ! p) x + (if x = i then count_list (map fst (ss ! i)) p else 0))))"
      using Suc.prems(2) by (intro push_predecessors) (auto intro: less_imp_le)
    then show ?case
      unfolding ds enumerate_simps fold_opt.simps prod.case
    proof (rule succeeds_intros(2)[OF succeeds_mono], goal_cases)
      case (1 preds')
      then have "?I (Suc i) preds'"
        using Suc.prems(2) i by (auto simp: edge_count_def less_Suc_eq le_less)
      with Suc.hyps(1)[of "Suc i" preds'] Suc.hyps(2) i show ?case by simp
    qed
  qed
  from this[of 0 "replicate ?n []"]
  have "succeeds (derive_predecessors ss) (?I ?n)" by (simp add: derive_predecessors_def)
  then show ?thesis
    by (rule succeeds_mono) (auto simp: edge_count_def)
qed

section \<open>The walk finds what the edges lead to\<close>

definition flow_edges :: "flow_edge list list \<Rightarrow> (block_id \<times> block_id) set" where
  "flow_edges ss = {(a, b). a < length ss \<and> b \<in> fst ` set (ss ! a)}"

lemma visit_blocks_ok:
  assumes "\<forall>es \<in> set ss. within (length ss) (map fst es)" "within (length ss) stack"
    and "\<forall>a \<in> visited. flow_edges ss `` {a} \<subseteq> visited \<union> set stack"
  shows "succeeds (visit_blocks ss stack visited) (\<lambda>V. visited \<union> set stack \<subseteq> V
    \<and> flow_edges ss `` V \<subseteq> V \<and> V \<subseteq> visited \<union> (flow_edges ss)\<^sup>* `` set stack)"
  using assms
proof (induction ss stack visited rule: visit_blocks.induct)
  case (1 ss visited)
  then show ?case by auto
next
  case (2 ss block stack visited)
  have block: "block < length ss" using "2.prems"(2) by simp
  show ?case
  proof (cases "block \<in> visited")
    case True
    with "2.prems" have "\<forall>a \<in> visited. flow_edges ss `` {a} \<subseteq> visited \<union> set stack" by auto
    with "2.IH"(1)[OF True "2.prems"(1)] "2.prems"(2)
    have "succeeds (visit_blocks ss stack visited) (\<lambda>V. visited \<union> set stack \<subseteq> V
      \<and> flow_edges ss `` V \<subseteq> V \<and> V \<subseteq> visited \<union> (flow_edges ss)\<^sup>* `` set stack)" by simp
    then show ?thesis
      using True by (auto elim!: succeeds_mono)
  next
    case False
    let ?next = "rev (map fst (ss ! block)) @ stack"
    have succ: "flow_edges ss `` {block} = fst ` set (ss ! block)"
      using block by (auto simp: flow_edges_def)
    have "within (length ss) ?next"
      using "2.prems"(1,2) block by (auto simp: within_def)
    moreover have "\<forall>a \<in> insert block visited. flow_edges ss `` {a} \<subseteq> insert block visited \<union> set ?next"
      using "2.prems"(3) succ by auto
    ultimately have IH: "succeeds (visit_blocks ss ?next (insert block visited))
      (\<lambda>V. insert block visited \<union> set ?next \<subseteq> V
      \<and> flow_edges ss `` V \<subseteq> V \<and> V \<subseteq> insert block visited \<union> (flow_edges ss)\<^sup>* `` set ?next)"
      using "2.IH"(2)[OF False block "2.prems"(1)] by blast
    have "(flow_edges ss)\<^sup>* `` (flow_edges ss `` {block}) \<subseteq> (flow_edges ss)\<^sup>* `` {block}"
      by (auto intro: converse_rtrancl_into_rtrancl)
    then have reach: "insert block visited \<union> (flow_edges ss)\<^sup>* `` set ?next
      \<subseteq> visited \<union> (flow_edges ss)\<^sup>* `` set (block # stack)"
      unfolding succ by (auto simp: Image_Un)
    have "succeeds (visit_blocks ss ?next (insert block visited)) (\<lambda>V. visited \<union> set (block # stack) \<subseteq> V
      \<and> flow_edges ss `` V \<subseteq> V \<and> V \<subseteq> visited \<union> (flow_edges ss)\<^sup>* `` set (block # stack))"
    proof (rule succeeds_mono[OF IH], goal_cases)
      case (1 V)
      then have "V \<subseteq> insert block visited \<union> (flow_edges ss)\<^sup>* `` set ?next" by blast
      from subset_trans[OF this reach] 1 show ?case by auto
    qed
    then show ?thesis using False block by simp
  qed
qed

lemma visit_from_roots:
  assumes "\<forall>es \<in> set ss. within (length ss) (map fst es)" "within (length ss) stack"
  shows "visit_blocks ss stack {} = Some ((flow_edges ss)\<^sup>* `` set stack)"
proof -
  obtain V where V: "visit_blocks ss stack {} = Some V" "set stack \<subseteq> V" "flow_edges ss `` V \<subseteq> V"
    "V \<subseteq> (flow_edges ss)\<^sup>* `` set stack"
    using succeedsD[OF visit_blocks_ok[OF assms, of "{}"]] by auto
  have "(flow_edges ss)\<^sup>* `` set stack \<subseteq> (flow_edges ss)\<^sup>* `` V" using V(2) by (rule Image_mono[OF subset_refl])
  also have "\<dots> = V" using V(3) by (rule Image_closed_trancl)
  finally show ?thesis using V(1,4) by simp
qed

lemma compute_unreachable_ok:
  assumes "graph_ok g"
  shows "compute_unreachable (gb_blocks g) (gb_scope_entries g) (gb_successors g) =
    Some (filter (\<lambda>b. b \<notin> (flow_edges (gb_successors g))\<^sup>* `` set (map snd (gb_scope_entries g)))
      [0..<gsize g])"
proof -
  have "within (length (gb_successors g)) (rev (map snd (gb_scope_entries g)))"
    using assms by (auto simp: graph_ok_def within_def)
  from visit_from_roots[OF _ this] assms show ?thesis
    by (simp add: compute_unreachable_def graph_ok_def)
qed

section \<open>The whole graph\<close>

lemma set_assoc_insert: "snd ` set (assoc_insert k v es) \<subseteq> insert v (snd ` set es)"
  by (induction k v es rule: assoc_insert.induct) auto

lemma keys_assoc_insert:
  "fst ` set (assoc_insert k v es) = insert k (fst ` set es)"
  by (induction k v es rule: assoc_insert.induct) auto

lemma distinct_assoc_insert: "distinct (map fst es) \<Longrightarrow> distinct (map fst (assoc_insert k v es))"
proof (induction k v es rule: assoc_insert.induct)
  case (2 k v k' v' es)
  then show ?case using keys_assoc_insert[of k v es] by (auto simp: image_iff)
qed simp

lemma map_of_assoc_insert: "map_of (assoc_insert k v es) = (map_of es)(k \<mapsto> v)"
  by (induction k v es rule: assoc_insert.induct) auto

lemma insert_scope_entry_ok:
  assumes "graph_ok g" "b < gsize g"
  shows "graph_ok (insert_scope_entry s b g)" "gsize (insert_scope_entry s b g) = gsize g"
proof -
  have "\<forall>x \<in> set (assoc_insert s b (gb_scope_entries g)). snd x < gsize g"
    using assms set_assoc_insert[of s b "gb_scope_entries g"] by (fastforce simp: graph_ok_def within_def)
  then show "graph_ok (insert_scope_entry s b g)"
    using assms by (auto simp: graph_ok_def insert_scope_entry_def within_def distinct_assoc_insert)
qed (simp add: insert_scope_entry_def)

text \<open>What every graph that is built satisfies.\<close>

definition cfg_ok :: "control_flow_graph \<Rightarrow> bool" where
  "cfg_ok cfg \<longleftrightarrow>
     (let n = length (cfg_blocks cfg) in
      length (cfg_successors cfg) = n
      \<and> length (cfg_predecessors cfg) = n
      \<and> map bb_id (cfg_blocks cfg) = [0..<n]
      \<and> (\<forall>es \<in> set (cfg_successors cfg). within n (map fst es))
      \<and> (\<forall>b < n. sorted (cfg_predecessors cfg ! b)
           \<and> (\<forall>a. count_list (cfg_predecessors cfg ! b) a = edge_count (cfg_successors cfg) a b))
      \<and> cfg_entry cfg < n
      \<and> within n (cfg_exits cfg) \<and> within n (cfg_natural_exits cfg)
      \<and> within n (cfg_script_terminators cfg)
      \<and> within n (map snd (cfg_scope_entries cfg))
      \<and> (\<forall>s xs. cfg_scope_exits cfg s = Some xs \<longrightarrow> xs \<noteq> [] \<and> within n xs)
      \<and> dom (cfg_unreachable_causes cfg) \<subseteq> {..<n}
      \<and> cfg_unreachable cfg =
          filter (\<lambda>b. b \<notin> (flow_edges (cfg_successors cfg))\<^sup>* `` set (map snd (cfg_scope_entries cfg))) [0..<n]
      \<and> (\<forall>key. map_default (cfg_command_blocks cfg) key = blocks_for_key (cfg_blocks cfg) key))"

definition ends_ok :: "nat \<Rightarrow> graph_ends \<Rightarrow> bool" where
  "ends_ok n ends \<longleftrightarrow> within n (ge_exits ends) \<and> within n (ge_natural_exits ends)
     \<and> (\<forall>s xs. ge_scope_exits ends s = Some xs \<longrightarrow> xs \<noteq> [] \<and> within n xs)"

lemma ends_ok_mono: "ends_ok n ends \<Longrightarrow> n \<le> m \<Longrightarrow> ends_ok m ends"
  unfolding ends_ok_def using within_mono by blast

lemma graph_ok_new [simp]: "graph_ok builder_new"
  by (simp add: graph_ok_def builder_new_def within_def blocks_for_key_def map_default_def)

lemma build_scope_ok:
  assumes "ranked rank (be_program env)" "below rank n (be_program env) commands"
    and "graph_ok g" "ends_ok (gsize g) ends" "b < gsize g"
  shows "succeeds (build_scope n env (scope, commands) (ends, g))
    (\<lambda>(ends', g'). graph_ok g' \<and> ends_ok (gsize g') ends' \<and> b < gsize g')"
  unfolding build_scope_def prod.case Let_def
proof (rule succeeds_intros, rule builder.step_sequence[OF assms(1,2) extends_refl[OF assms(3)]], goal_cases)
  case (2 s h)
  then have entry: "\<forall>e. sr_entry s = Some e \<longrightarrow> e < gsize h" by (simp add: sequence_ok_def)
  show ?case
    unfolding prod.case
  proof (rule step_entry_block[OF 2(1) entry], goal_cases)
    case (1 e k)
    note k = insert_scope_entry_ok[OF extends_ok[OF 1(1)] 1(3), of scope]
    have "ends_ok (gsize k) ends" "b < gsize k" "within (gsize k) (sr_exits s)"
      using assms(4,5) 1(2) 2 by (auto simp: sequence_ok_def intro: ends_ok_mono within_mono)
    with 1 k show ?case by (auto simp: ends_ok_def)
  qed
qed (simp add: loops_ok_def)

lemma build_cfg_ok:
  assumes "covered rank n p" "bindings_ok p ct"
    and "length (rp_function_bodies p) + length (program_calls p ct) < k"
  shows "succeeds (build_control_flow_graph k n p bindings references ct) cfg_ok"
proof -
  obtain calls where calls: "compute_script_terminating_call_spans k n p ct = Some calls"
    using terminating_calls_total[OF assms] by blast
  let ?env = "\<lparr>be_program = p, be_command_bindings = bindings, be_command_references = references,
    be_script_terminating_calls = calls\<rparr>"
  have ranked: "ranked rank (be_program ?env)" using assms(1) by (simp add: covered_def wf_program_def)
  have main: "below rank n (be_program ?env) (rp_file_commands p)"
    using assms(1) by (auto simp: covered_def wf_program_def intro: range_ok_below)
  have bodies: "below rank n (be_program ?env) r" if "(s, r) \<in> set (rp_function_bodies p)" for s r
    using assms(1) that by (fastforce simp: covered_def wf_program_def list_all_iff intro: range_ok_below)
  show ?thesis
    unfolding build_control_flow_graph_def calls Option.bind_lunit Let_def
  proof (rule succeeds_intros, rule builder.step_sequence[OF ranked main extends_refl[OF graph_ok_new]],
      goal_cases)
    case (2 s g1)
    then have entry: "\<forall>e. sr_entry s = Some e \<longrightarrow> e < gsize g1" by (simp add: sequence_ok_def)
    show ?case
      unfolding prod.case
    proof (rule step_entry_block[OF 2(1) entry], goal_cases)
      case (1 e g2)
      let ?g2 = "insert_scope_entry 0 e g2"
      let ?I = "\<lambda>(ends, g). graph_ok g \<and> ends_ok (gsize g) ends \<and> e < gsize g"
      note g2 = insert_scope_entry_ok[OF extends_ok[OF 1(1)] 1(3), of 0]
      have exits: "within (gsize g2) (sr_exits s)" using 1(2) 2(3) within_mono by (auto simp: sequence_ok_def)
      show ?case
      proof (rule succeeds_intros, rule succeeds_fold[where I = ?I], goal_cases)
        case 1
        then show ?case using g2 exits \<open>e < gsize g2\<close> by (simp add: ends_ok_def)
      next
        case (2 body st)
        obtain scope r ends g where *: "body = (scope, r)" "st = (ends, g)" by (cases body; cases st)
        with 2 have g: "graph_ok g" "ends_ok (gsize g) ends" "e < gsize g" by auto
        show ?case
          unfolding * by (rule build_scope_ok[OF ranked bodies g]) (use 2(1) * in auto)
      next
        case (3 st)
        obtain ends g where st: "st = (ends, g)" by (cases st)
        with 3 have g: "graph_ok g" "ends_ok (gsize g) ends" "e < gsize g" by auto
        have "\<forall>es \<in> set (gb_successors g). within (length (gb_successors g)) (map fst es)"
          using g(1) by (simp add: graph_ok_def)
        from succeedsD[OF derive_predecessors_ok[OF this]] obtain preds where
          preds: "derive_predecessors (gb_successors g) = Some preds" "length preds = length (gb_successors g)"
            "\<forall>b < length (gb_successors g). sorted (preds ! b)
              \<and> (\<forall>a. count_list (preds ! b) a = edge_count (gb_successors g) a b)" by auto
        show ?case
          unfolding st prod.case compute_unreachable_ok[OF g(1)] preds(1) Option.bind_lunit
          using g preds(2,3) by (auto simp: cfg_ok_def Let_def graph_ok_def ends_ok_def)
      qed
    qed
  qed (simp add: loops_ok_def)
qed

lemma build_cfg_result:
  assumes "covered rank n p" "bindings_ok p ct"
    and "length (rp_function_bodies p) + length (program_calls p ct) < k"
    and "build_control_flow_graph k n p bindings references ct = Some cfg"
  shows "cfg_ok cfg"
  using build_cfg_ok[OF assms(1-3), of bindings references] assms(4) by simp

lemma cfg_okD:
  assumes "cfg_ok cfg"
  shows "length (cfg_successors cfg) = length (cfg_blocks cfg)"
    and "length (cfg_predecessors cfg) = length (cfg_blocks cfg)"
    and "map bb_id (cfg_blocks cfg) = [0..<length (cfg_blocks cfg)]"
    and "\<forall>es \<in> set (cfg_successors cfg). within (length (cfg_blocks cfg)) (map fst es)"
    and "b < length (cfg_blocks cfg) \<Longrightarrow> sorted (cfg_predecessors cfg ! b)
      \<and> count_list (cfg_predecessors cfg ! b) a = edge_count (cfg_successors cfg) a b"
    and "cfg_unreachable cfg = filter
      (\<lambda>b. b \<notin> (flow_edges (cfg_successors cfg))\<^sup>* `` set (map snd (cfg_scope_entries cfg)))
      [0..<length (cfg_blocks cfg)]"
    and "map_default (cfg_command_blocks cfg) key = blocks_for_key (cfg_blocks cfg) key"
  using assms unfolding cfg_ok_def Let_def by blast+

section \<open>Properties\<close>

text \<open>C1: The control-flow graph of a well-formed recorded program is always built: the builder neither
  panics nor runs out of the fuel that bounds its nesting, and every identifier it hands out (edge
  targets, entry, exits, natural exits, script terminators, scope entries, scope exits, blocks with a cause)
  is that of a block of the graph, whose identifier is its index.  A scope with recorded exits has at least
  one.\<close>

theorem cfg_is_built:
  assumes "covered rank n p" "bindings_ok p ct"
    and "length (rp_function_bodies p) + length (program_calls p ct) < k"
  shows "\<exists>cfg. build_control_flow_graph k n p bindings references ct = Some cfg
    \<and> map bb_id (cfg_blocks cfg) = [0..<length (cfg_blocks cfg)]
    \<and> list_all (\<lambda>b. b < length (cfg_blocks cfg))
        (cfg_entry cfg # cfg_exits cfg @ cfg_natural_exits cfg @ cfg_script_terminators cfg
          @ map snd (cfg_scope_entries cfg) @ map fst (concat (cfg_successors cfg)))
    \<and> (\<forall>scope xs. cfg_scope_exits cfg scope = Some xs \<longrightarrow> xs \<noteq> [] \<and> list_all (\<lambda>b. b < length (cfg_blocks cfg)) xs)
    \<and> dom (cfg_unreachable_causes cfg) \<subseteq> {..<length (cfg_blocks cfg)}"
  using succeedsD[OF build_cfg_ok[OF assms, of bindings references]]
  by (fastforce simp: cfg_ok_def Let_def within_def list_all_iff)

text \<open>The script \<open>exit; echo dead\<close>.\<close>

definition dead_program :: recorded_program where
  "dead_program = program_default\<lparr>
     rp_commands := [demo_command 0 4 Exit, demo_command 6 15 Linear],
     rp_command_sequence_items := [0, 1], rp_file_commands := demo_range 0 2\<rparr>"

definition no_calls :: call_tables where
  "no_calls = \<lparr>ct_call_sites = [], ct_bindings = [], ct_visible_bindings = Map.empty\<rparr>"

lemma dead_program_facts:
  "covered (\<lambda>_. 0) 1 dead_program" "bindings_ok dead_program no_calls"
  "length (rp_function_bodies dead_program) + length (program_calls dead_program no_calls) < 1"
proof -
  have "wf_program (\<lambda>_. 0) dead_program" by code_simp
  then show "covered (\<lambda>_. 0) 1 dead_program" by (simp add: covered_def)
qed (code_simp, code_simp)

theorem cfg_is_built_witness:
  "\<exists>cfg. build_control_flow_graph 1 1 dead_program Map.empty Map.empty no_calls = Some cfg
    \<and> map bb_id (cfg_blocks cfg) = [0..<length (cfg_blocks cfg)]"
  using cfg_is_built[OF dead_program_facts, of Map.empty Map.empty] by auto

lemma flow_edges_successors:
  "flow_edges (cfg_successors cfg) = {(a, c). c \<in> fst ` set (successors_of cfg a)}"
  by (auto simp: flow_edges_def successors_of_def nth_opt_def image_iff split: if_splits) force

text \<open>C2: A block is listed as unreachable exactly when no path of edges leads to it from the entry of a
  scope; the list is in block order without repetition.\<close>

theorem unreachable_exactly:
  assumes "covered rank n p" "bindings_ok p ct"
    and "length (rp_function_bodies p) + length (program_calls p ct) < k"
    and "build_control_flow_graph k n p bindings references ct = Some cfg"
  shows "sorted_wrt (<) (cfg_unreachable cfg) \<and>
    set (cfg_unreachable cfg) = {b. b < length (cfg_blocks cfg)
      \<and> \<not> (\<exists>(scope, entry) \<in> set (cfg_scope_entries cfg).
            (entry, b) \<in> {(a, c). c \<in> fst ` set (successors_of cfg a)}\<^sup>*)}"
  unfolding cfg_okD(6)[OF build_cfg_result[OF assms]] flow_edges_successors
  by (auto simp: sorted_wrt_filter) force

theorem unreachable_exactly_witness:
  "\<exists>cfg. build_control_flow_graph 1 1 dead_program Map.empty Map.empty no_calls = Some cfg
    \<and> cfg_unreachable cfg = [1]
    \<and> \<not> (0, 1) \<in> {(a, c). c \<in> fst ` set (successors_of cfg a)}\<^sup>*"
proof -
  obtain cfg where cfg: "build_control_flow_graph 1 1 dead_program Map.empty Map.empty no_calls = Some cfg"
    using build_cfg_ok[OF dead_program_facts] succeedsD by blast
  have "map_option cfg_unreachable (build_control_flow_graph 1 1 dead_program Map.empty Map.empty no_calls)
      = Some [1]"
    "map_option cfg_scope_entries (build_control_flow_graph 1 1 dead_program Map.empty Map.empty no_calls)
      = Some [(0, 0)]"
    by code_simp+
  then have "cfg_unreachable cfg = [1]" "cfg_scope_entries cfg = [(0, 0)]"
    unfolding cfg by (simp_all del: One_nat_def)
  with unreachable_exactly[OF dead_program_facts cfg] cfg show ?thesis by auto
qed

text \<open>The predecessors of a block are the sources of its incoming edges, in block order, each as
  often as it has an edge to the block.\<close>

theorem predecessors_mirror_successors:
  assumes "covered rank n p" "bindings_ok p ct"
    and "length (rp_function_bodies p) + length (program_calls p ct) < k"
    and "build_control_flow_graph k n p bindings references ct = Some cfg"
  shows "sorted (predecessors_of cfg b)
    \<and> count_list (predecessors_of cfg b) a = count_list (map fst (successors_of cfg a)) b"
proof (cases "b < length (cfg_blocks cfg)")
  case True
  with cfg_okD(1,2,5)[OF build_cfg_result[OF assms]] show ?thesis
    by (simp add: predecessors_of_def successors_of_def nth_opt_def edge_count_def)
next
  case False
  have "b \<notin> set (map fst (successors_of cfg a))"
    using cfg_okD(4)[OF build_cfg_result[OF assms]] False
    by (auto simp: successors_of_def nth_opt_def within_def)
  with False cfg_okD(2)[OF build_cfg_result[OF assms]] show ?thesis
    by (simp add: predecessors_of_def nth_opt_def count_list_0_iff)
qed

theorem predecessors_mirror_successors_witness:
  "\<exists>cfg. build_control_flow_graph 1 1 dead_program Map.empty Map.empty no_calls = Some cfg
    \<and> count_list (predecessors_of cfg 1) 0 = count_list (map fst (successors_of cfg 0)) 1"
proof -
  obtain cfg where cfg: "build_control_flow_graph 1 1 dead_program Map.empty Map.empty no_calls = Some cfg"
    using build_cfg_ok[OF dead_program_facts] succeedsD by blast
  with predecessors_mirror_successors[OF dead_program_facts cfg] show ?thesis by blast
qed

lemma map_ids_filter:
  assumes "map bb_id bs = [0..<length bs]"
  shows "map bb_id (filter Q bs) = filter (\<lambda>b. Q (bs ! b)) [0..<length bs]"
  using assms
proof (induction bs rule: rev_induct)
  case (snoc b bs)
  have "filter (\<lambda>i. Q ((bs @ [b]) ! i)) [0..<length bs] = filter (\<lambda>i. Q (bs ! i)) [0..<length bs]"
    by (rule filter_cong) (auto simp: nth_append)
  with snoc show ?case by auto
qed simp

text \<open>The blocks found for a span are exactly the blocks that hold a command with the offsets of the
  span, in block order.\<close>

theorem blocks_for_span:
  assumes "covered rank n p" "bindings_ok p ct"
    and "length (rp_function_bodies p) + length (program_calls p ct) < k"
    and "build_control_flow_graph k n p bindings references ct = Some cfg"
  shows "block_ids_for_span cfg s =
    filter (\<lambda>b. \<exists>t \<in> set (bb_commands (cfg_blocks cfg ! b)). span_key t = span_key s)
      [0..<length (cfg_blocks cfg)]"
proof -
  note ok = cfg_okD[OF build_cfg_result[OF assms]]
  have key: "span_key s \<in> span_key ` set xs \<longleftrightarrow> (\<exists>t \<in> set xs. span_key t = span_key s)" for xs
    by (metis imageE imageI)
  show ?thesis
    unfolding block_ids_for_span_def ok(7) blocks_for_key_def map_ids_filter[OF ok(3)] key by simp
qed

theorem blocks_for_span_witness:
  "\<exists>cfg. build_control_flow_graph 1 1 dead_program Map.empty Map.empty no_calls = Some cfg
    \<and> block_ids_for_span cfg (demo_span 6 15) =
      filter (\<lambda>b. \<exists>t \<in> set (bb_commands (cfg_blocks cfg ! b)). span_key t = span_key (demo_span 6 15))
        [0..<length (cfg_blocks cfg)]"
proof -
  obtain cfg where cfg: "build_control_flow_graph 1 1 dead_program Map.empty Map.empty no_calls = Some cfg"
    using build_cfg_ok[OF dead_program_facts] succeedsD by blast
  with blocks_for_span[OF dead_program_facts cfg] show ?thesis by blast
qed

end
