(* ===== verification/Dead_Code.thy ===== *)
theory Dead_Code
  imports Cfg_Graph
begin

text \<open>
  Model of \<open>crates/shucked-semantic/src/dataflow/dead_code.rs\<close>: unreachable blocks are grouped by what
  makes them unreachable, and each group is reduced to its outermost spans.  The theorems: the reduction
  returns spans of its input, none inside another, that cover the whole input; and the report covers
  every command of every unreachable block under its cause and nothing else.

  The groups are a hash map that is iterated once and then sorted by the offsets of the cause; here they
  are the list of their entries in insertion order, which fixes the order of two groups whose causes have
  the same offsets and different kinds.
\<close>

section \<open>Outermost spans\<close>

definition span_contained_by :: "span \<Rightarrow> span \<Rightarrow> bool" where
  "span_contained_by inner outer \<longleftrightarrow>
     start_offset outer \<le> start_offset inner \<and> end_offset inner \<le> end_offset outer"

definition compare_outermost :: "span \<Rightarrow> span \<Rightarrow> rust_ordering" where
  "compare_outermost left right =
     ordering_then (rust_cmp (start_offset left) (start_offset right))
       (rust_cmp (end_offset right) (end_offset left))"

definition keep_outermost :: "span \<Rightarrow> span list \<Rightarrow> span list" where
  "keep_outermost s outermost =
     (if list_ex (\<lambda>outer. span_contained_by s outer) outermost then outermost
      else if s \<in> set outermost then outermost else outermost @ [s])"

definition outermost_unreachable_spans :: "span list \<Rightarrow> span list" where
  "outermost_unreachable_spans spans = fold keep_outermost (sort_by compare_outermost spans) []"

section \<open>The report\<close>

record dead_code =
  dc_unreachable :: "span list"
  dc_cause :: span
  dc_cause_kind :: unreachable_cause_kind

type_synonym cause_key = "nat \<times> nat \<times> unreachable_cause_kind"

definition cause_key :: "unreachable_cause \<Rightarrow> cause_key" where
  "cause_key cause = (start_offset (uc_span cause), end_offset (uc_span cause), uc_kind cause)"

text \<open>\<open>entry(key).or_insert_with(|| (cause, Vec::new())).1.extend(commands)\<close>.\<close>

fun extend_group ::
  "cause_key \<Rightarrow> unreachable_cause \<Rightarrow> span list
    \<Rightarrow> (cause_key \<times> unreachable_cause \<times> span list) list \<Rightarrow> (cause_key \<times> unreachable_cause \<times> span list) list" where
  "extend_group key cause commands [] = [(key, cause, commands)]"
| "extend_group key cause commands ((k, c, spans) # groups) =
     (if k = key then (k, c, spans @ commands) # groups
      else (k, c, spans) # extend_group key cause commands groups)"

definition block_cause :: "control_flow_graph \<Rightarrow> block_id \<Rightarrow> basic_block \<Rightarrow> unreachable_cause" where
  "block_cause cfg b block =
     (case unreachable_cause_of cfg b of
        Some cause \<Rightarrow> cause | None \<Rightarrow> shell_terminator (hd (bb_commands block)))"

definition group_block ::
  "control_flow_graph \<Rightarrow> block_id \<Rightarrow> (cause_key \<times> unreachable_cause \<times> span list) list
    \<Rightarrow> (cause_key \<times> unreachable_cause \<times> span list) list option" where
  "group_block cfg b groups = do {
     block \<leftarrow> block_at cfg b;
     Some (if bb_commands block = [] then groups
           else let cause = block_cause cfg b block
                in extend_group (cause_key cause) cause (bb_commands block) groups) }"

definition compare_dead_code :: "dead_code \<Rightarrow> dead_code \<Rightarrow> rust_ordering" where
  "compare_dead_code a b =
     ordering_then (rust_cmp (start_offset (dc_cause a)) (start_offset (dc_cause b)))
       (rust_cmp (end_offset (dc_cause a)) (end_offset (dc_cause b)))"

definition build_dead_code :: "control_flow_graph \<Rightarrow> dead_code list option" where
  "build_dead_code cfg = do {
     groups \<leftarrow> fold_opt (group_block cfg) (cfg_unreachable cfg) [];
     Some (sort_by compare_dead_code
       (map (\<lambda>(_, cause, unreachable).
           \<lparr>dc_unreachable = outermost_unreachable_spans unreachable,
            dc_cause = uc_span cause, dc_cause_kind = uc_kind cause\<rparr>) groups)) }"

section \<open>The outermost spans\<close>

interpretation outermost: comparator compare_outermost
  by unfold_locales (auto simp: compare_outermost_def)

lemma contained_trans: "span_contained_by a b \<Longrightarrow> span_contained_by b c \<Longrightarrow> span_contained_by a c"
  by (auto simp: span_contained_by_def)

lemma contained_refl [simp]: "span_contained_by a a"
  by (simp add: span_contained_by_def)

lemma keep_outermost_eq:
  "keep_outermost s out = (if \<exists>o' \<in> set out. span_contained_by s o' then out else out @ [s])"
  by (auto simp: keep_outermost_def list_ex_iff intro: contained_refl)

lemma fold_keep_outermost:
  assumes "sorted_wrt (\<lambda>a b. compare_outermost a b \<noteq> Greater) (out @ spans)"
    and "sorted_wrt (\<lambda>a b. \<not> span_contained_by a b \<and> \<not> span_contained_by b a) out"
  shows "\<exists>more. fold keep_outermost spans out = out @ more \<and> set more \<subseteq> set spans
    \<and> sorted_wrt (\<lambda>a b. compare_outermost a b \<noteq> Greater) (out @ more)
    \<and> sorted_wrt (\<lambda>a b. \<not> span_contained_by a b \<and> \<not> span_contained_by b a) (out @ more)
    \<and> (\<forall>s \<in> set spans. \<exists>o' \<in> set (out @ more). span_contained_by s o')"
  using assms
proof (induction spans arbitrary: out)
  case Nil
  then show ?case by simp
next
  case (Cons s spans)
  show ?case
  proof (cases "\<exists>o' \<in> set out. span_contained_by s o'")
    case True
    have "sorted_wrt (\<lambda>a b. compare_outermost a b \<noteq> Greater) (out @ spans)"
      using Cons.prems(1) by (auto simp: sorted_wrt_append)
    from Cons.IH[OF this Cons.prems(2)] True show ?thesis
      by (auto simp: keep_outermost_eq)
  next
    case False
    have "\<not> span_contained_by a s" if "a \<in> set out" for a
    proof
      assume "span_contained_by a s"
      moreover have "compare_outermost a s \<noteq> Greater"
        using Cons.prems(1) that by (auto simp: sorted_wrt_append)
      ultimately have "span_contained_by s a"
        by (auto simp: span_contained_by_def compare_outermost_def not_less)
      with False that show False by blast
    qed
    with False Cons.prems(2)
    have "sorted_wrt (\<lambda>a b. \<not> span_contained_by a b \<and> \<not> span_contained_by b a) (out @ [s])"
      by (auto simp: sorted_wrt_append)
    with Cons.IH[of "out @ [s]"] Cons.prems(1) obtain more where
      "fold keep_outermost spans (out @ [s]) = (out @ [s]) @ more" "set more \<subseteq> set spans"
      "sorted_wrt (\<lambda>a b. compare_outermost a b \<noteq> Greater) ((out @ [s]) @ more)"
      "sorted_wrt (\<lambda>a b. \<not> span_contained_by a b \<and> \<not> span_contained_by b a) ((out @ [s]) @ more)"
      "\<forall>x \<in> set spans. \<exists>o' \<in> set ((out @ [s]) @ more). span_contained_by x o'"
      by auto
    moreover have "keep_outermost s out = out @ [s]" using False by (simp add: keep_outermost_eq)
    ultimately show ?thesis by (intro exI[of _ "s # more"]) auto
  qed
qed

lemma outermost_spans_spec:
  shows "set (outermost_unreachable_spans spans) \<subseteq> set spans"
    and "sorted_wrt (\<lambda>a b. compare_outermost a b \<noteq> Greater) (outermost_unreachable_spans spans)"
    and "sorted_wrt (\<lambda>a b. \<not> span_contained_by a b \<and> \<not> span_contained_by b a)
      (outermost_unreachable_spans spans)"
    and "s \<in> set spans \<Longrightarrow> \<exists>o' \<in> set (outermost_unreachable_spans spans). span_contained_by s o'"
  using fold_keep_outermost[of "[]" "sort_by compare_outermost spans"] outermost.sort_by_sorted[of spans]
  by (auto simp: outermost_unreachable_spans_def)

text \<open>The outermost spans of a list of spans are spans of the list in source order, none of them lies
  within another, and every span of the list lies within one of them.\<close>

theorem outermost_spans_are_maximal:
  "set (outermost_unreachable_spans spans) \<subseteq> set spans
   \<and> sorted_wrt (\<lambda>a b. start_offset a < start_offset b
        \<and> \<not> span_contained_by a b \<and> \<not> span_contained_by b a) (outermost_unreachable_spans spans)
   \<and> list_all (\<lambda>s. list_ex (span_contained_by s) (outermost_unreachable_spans spans)) spans"
proof (intro conjI)
  show "set (outermost_unreachable_spans spans) \<subseteq> set spans" by (rule outermost_spans_spec)
  have "compare_outermost a b \<noteq> Greater \<Longrightarrow> \<not> span_contained_by a b \<and> \<not> span_contained_by b a \<Longrightarrow>
      start_offset a < start_offset b" for a b
    by (auto simp: compare_outermost_def span_contained_by_def not_less)
  with outermost_spans_spec(2,3)[of spans]
  show "sorted_wrt (\<lambda>a b. start_offset a < start_offset b
        \<and> \<not> span_contained_by a b \<and> \<not> span_contained_by b a) (outermost_unreachable_spans spans)"
    unfolding sorted_wrt_iff_nth_less by blast
  show "list_all (\<lambda>s. list_ex (span_contained_by s) (outermost_unreachable_spans spans)) spans"
    using outermost_spans_spec(4)[of _ spans] by (auto simp: list_all_iff list_ex_iff)
qed

section \<open>The groups\<close>

lemma extend_group_in:
  "x \<in> set (extend_group key cause commands groups) \<Longrightarrow>
   x \<in> set groups \<or> x = (key, cause, commands)
   \<or> (\<exists>c spans. (key, c, spans) \<in> set groups \<and> x = (key, c, spans @ commands))"
  by (induction key cause commands groups rule: extend_group.induct) (auto split: if_splits)

lemma extend_group_keeps:
  "(k, c, spans) \<in> set groups \<Longrightarrow>
   \<exists>spans'. (k, c, spans') \<in> set (extend_group key cause commands groups) \<and> set spans \<subseteq> set spans'"
  by (induction key cause commands groups rule: extend_group.induct) fastforce+

lemma extend_group_adds:
  "\<exists>c spans. (key, c, spans) \<in> set (extend_group key cause commands groups) \<and> set commands \<subseteq> set spans"
  by (induction key cause commands groups rule: extend_group.induct) fastforce+

text \<open>The groups hold the commands of the blocks \<open>bs\<close>, each under the key of its block's cause.\<close>

definition groups_of ::
  "control_flow_graph \<Rightarrow> block_id set \<Rightarrow> (cause_key \<times> unreachable_cause \<times> span list) list \<Rightarrow> bool" where
  "groups_of cfg bs groups \<longleftrightarrow>
     (\<forall>(k, c, spans) \<in> set groups. cause_key c = k \<and> (\<forall>s \<in> set spans. \<exists>b \<in> bs.
        s \<in> set (bb_commands (cfg_blocks cfg ! b)) \<and> cause_key (block_cause cfg b (cfg_blocks cfg ! b)) = k))
     \<and> (\<forall>b \<in> bs. \<forall>s \<in> set (bb_commands (cfg_blocks cfg ! b)). \<exists>c spans.
        (cause_key (block_cause cfg b (cfg_blocks cfg ! b)), c, spans) \<in> set groups \<and> s \<in> set spans)"

lemma group_block_ok:
  assumes "b < length (cfg_blocks cfg)" "groups_of cfg bs groups"
  shows "\<exists>groups'. group_block cfg b groups = Some groups' \<and> groups_of cfg (insert b bs) groups'"
proof (cases "bb_commands (cfg_blocks cfg ! b) = []")
  case True
  with assms show ?thesis by (auto simp: group_block_def block_at_def panic_simps groups_of_def)
next
  case False
  let ?block = "cfg_blocks cfg ! b"
  let ?cause = "block_cause cfg b ?block"
  let ?key = "cause_key ?cause"
  let ?new = "extend_group ?key ?cause (bb_commands ?block) groups"
  have old: "cause_key c = k" "s \<in> set spans \<Longrightarrow> \<exists>b' \<in> bs. s \<in> set (bb_commands (cfg_blocks cfg ! b'))
      \<and> cause_key (block_cause cfg b' (cfg_blocks cfg ! b')) = k"
    if "(k, c, spans) \<in> set groups" for k c spans s
    using bspec[OF conjunct1[OF assms(2)[unfolded groups_of_def]] that] by auto
  have "groups_of cfg (insert b bs) ?new"
    unfolding groups_of_def
  proof (intro conjI ballI)
    fix x assume "x \<in> set ?new"
    from extend_group_in[OF this] show "case x of (k, c, spans) \<Rightarrow> cause_key c = k
      \<and> (\<forall>s \<in> set spans. \<exists>b' \<in> insert b bs. s \<in> set (bb_commands (cfg_blocks cfg ! b'))
          \<and> cause_key (block_cause cfg b' (cfg_blocks cfg ! b')) = k)"
    proof (elim disjE exE conjE)
      assume "x \<in> set groups"
      then show ?thesis using old by (cases "(fst x, fst (snd x), snd (snd x))") (auto split: prod.split)
    next
      fix c spans assume x: "(?key, c, spans) \<in> set groups" "x = (?key, c, spans @ bb_commands ?block)"
      then show ?thesis using old[OF x(1)] by auto
    qed auto
  next
    fix b' s assume b': "b' \<in> insert b bs" "s \<in> set (bb_commands (cfg_blocks cfg ! b'))"
    show "\<exists>c spans. (cause_key (block_cause cfg b' (cfg_blocks cfg ! b')), c, spans) \<in> set ?new \<and> s \<in> set spans"
    proof (cases "b' \<in> bs")
      case True
      with assms(2) b' obtain c spans where
        "(cause_key (block_cause cfg b' (cfg_blocks cfg ! b')), c, spans) \<in> set groups" "s \<in> set spans"
        unfolding groups_of_def by blast
      with extend_group_keeps[OF this(1)] show ?thesis by blast
    next
      case False
      with b' extend_group_adds[of ?key ?cause "bb_commands ?block" groups] show ?thesis by blast
    qed
  qed
  with False assms(1) show ?thesis
    by (simp add: group_block_def block_at_def panic_simps Let_def)
qed

definition report_entry :: "cause_key \<times> unreachable_cause \<times> span list \<Rightarrow> dead_code" where
  "report_entry = (\<lambda>(_, cause, unreachable).
     \<lparr>dc_unreachable = outermost_unreachable_spans unreachable,
      dc_cause = uc_span cause, dc_cause_kind = uc_kind cause\<rparr>)"

definition entry_key :: "dead_code \<Rightarrow> cause_key" where
  "entry_key d = cause_key \<lparr>uc_span = dc_cause d, uc_kind = dc_cause_kind d\<rparr>"

definition block_key :: "control_flow_graph \<Rightarrow> block_id \<Rightarrow> cause_key" where
  "block_key cfg b = cause_key (block_cause cfg b (cfg_blocks cfg ! b))"

interpretation report_order: comparator compare_dead_code
  by unfold_locales (auto simp: compare_dead_code_def)

lemma build_dead_code_eq:
  "build_dead_code cfg = map_option (\<lambda>groups. sort_by compare_dead_code (map report_entry groups))
     (fold_opt (group_block cfg) (cfg_unreachable cfg) [])"
  by (cases "fold_opt (group_block cfg) (cfg_unreachable cfg) []")
    (simp_all add: build_dead_code_def report_entry_def)

lemma group_blocks_ok:
  assumes "list_all (\<lambda>b. b < length (cfg_blocks cfg)) bs"
  shows "\<exists>groups. fold_opt (group_block cfg) bs [] = Some groups \<and> groups_of cfg (set bs) groups"
proof -
  have "\<exists>groups'. fold_opt (group_block cfg) bs groups = Some groups' \<and> groups_of cfg (done' \<union> set bs) groups'"
    if "groups_of cfg done' groups" for groups done'
    using assms that
  proof (induction bs arbitrary: groups done')
    case (Cons b bs)
    then have "b < length (cfg_blocks cfg)" "list_all (\<lambda>b. b < length (cfg_blocks cfg)) bs" by simp_all
    with group_block_ok[OF this(1) Cons.prems(2)] Cons.IH show ?case by fastforce
  qed auto
  from this[of "{}" "[]"] show ?thesis by (simp add: groups_of_def)
qed

text \<open>C32: Of a graph that was built the report is always produced; each command of each unreachable block
  lies within a span of an entry for the cause of the block; and each span of an entry is a command of an
  unreachable block with the cause of the entry.  The entries come in the order of their causes.\<close>

theorem dead_code_reports_unreachable_commands:
  assumes "covered rank n p" "bindings_ok p ct"
    and "length (rp_function_bodies p) + length (program_calls p ct) < k"
    and "build_control_flow_graph k n p bindings references ct = Some cfg"
  shows "\<exists>report. build_dead_code cfg = Some report
    \<and> sorted_wrt (\<lambda>a b. compare_dead_code a b \<noteq> Greater) report
    \<and> list_all (\<lambda>b. list_all (\<lambda>s. list_ex (\<lambda>d.
          block_key cfg b = entry_key d \<and> list_ex (span_contained_by s) (dc_unreachable d)) report)
        (bb_commands (cfg_blocks cfg ! b))) (cfg_unreachable cfg)
    \<and> list_all (\<lambda>d. list_all (\<lambda>s. list_ex (\<lambda>b.
          block_key cfg b = entry_key d \<and> s \<in> set (bb_commands (cfg_blocks cfg ! b)))
          (cfg_unreachable cfg)) (dc_unreachable d)) report"
proof -
  have "list_all (\<lambda>b. b < length (cfg_blocks cfg)) (cfg_unreachable cfg)"
    using cfg_okD(6)[OF build_cfg_result[OF assms]] by (auto simp: list_all_iff)
  from group_blocks_ok[OF this] obtain groups where
    groups: "fold_opt (group_block cfg) (cfg_unreachable cfg) [] = Some groups"
    and ok: "groups_of cfg (set (cfg_unreachable cfg)) groups" by blast
  let ?report = "sort_by compare_dead_code (map report_entry groups)"
  have key: "entry_key (report_entry (k, c, spans)) = cause_key c" for k c spans
    by (simp add: report_entry_def entry_key_def cause_key_def)
  have complete: "\<exists>d \<in> set ?report. block_key cfg b = entry_key d
      \<and> (\<exists>o' \<in> set (dc_unreachable d). span_contained_by s o')"
    if b: "b \<in> set (cfg_unreachable cfg)" and s: "s \<in> set (bb_commands (cfg_blocks cfg ! b))" for b s
  proof -
    obtain c spans where g: "(block_key cfg b, c, spans) \<in> set groups" "s \<in> set spans"
      using bspec[OF bspec[OF conjunct2[OF ok[unfolded groups_of_def]] b] s]
      unfolding block_key_def by blast
    have "cause_key c = block_key cfg b"
      using bspec[OF conjunct1[OF ok[unfolded groups_of_def]] g(1)] by simp
    moreover have "\<exists>o' \<in> set (dc_unreachable (report_entry (block_key cfg b, c, spans))). span_contained_by s o'"
      using outermost_spans_spec(4)[OF g(2)] by (simp add: report_entry_def)
    ultimately show ?thesis using g(1) key by (intro bexI[of _ "report_entry (block_key cfg b, c, spans)"]) auto
  qed
  have sound: "\<exists>b \<in> set (cfg_unreachable cfg). block_key cfg b = entry_key d
      \<and> s \<in> set (bb_commands (cfg_blocks cfg ! b))"
    if entry: "d \<in> set ?report" and s: "s \<in> set (dc_unreachable d)" for d s
  proof -
    obtain k c spans where d: "d = report_entry (k, c, spans)" and g: "(k, c, spans) \<in> set groups"
      using entry by auto
    have "s \<in> set spans" using s outermost_spans_spec(1)[of spans] by (auto simp: d report_entry_def)
    then show ?thesis
      using bspec[OF conjunct1[OF ok[unfolded groups_of_def]] g] by (auto simp: d key block_key_def)
  qed
  show ?thesis
    unfolding build_dead_code_eq groups option.map
    by (intro exI[of _ ?report] conjI refl report_order.sort_by_sorted)
      (use complete sound in \<open>simp_all add: list_all_iff list_ex_iff del: sort_by_set\<close>)
qed

theorem dead_code_reports_unreachable_commands_witness:
  "\<exists>cfg report. build_control_flow_graph 1 1 dead_program Map.empty Map.empty no_calls = Some cfg
    \<and> build_dead_code cfg = Some report
    \<and> list_ex (\<lambda>d. list_ex (span_contained_by (demo_span 6 15)) (dc_unreachable d)) report"
proof -
  let ?g = "build_control_flow_graph 1 1 dead_program Map.empty Map.empty no_calls"
  obtain cfg where cfg: "?g = Some cfg"
    using build_cfg_ok[OF dead_program_facts] succeedsD by blast
  have "map_option cfg_unreachable ?g = Some [1]"
    "map_option (\<lambda>c. bb_commands (cfg_blocks c ! 1)) ?g = Some [demo_span 6 15]"
    by code_simp+
  then have "cfg_unreachable cfg = [1]" "bb_commands (cfg_blocks cfg ! 1) = [demo_span 6 15]"
    unfolding cfg by (simp_all del: One_nat_def)
  with dead_code_reports_unreachable_commands[OF dead_program_facts cfg] cfg show ?thesis
    by (auto simp: list_ex_iff simp del: One_nat_def)
qed

end
