(* ===== verification/Bindings.thy ===== *)
theory Bindings
  imports Recorded_Program
begin

text \<open>
  Model of the facts the semantic model records about names: bindings and their attributes
  (\<open>crates/shucked-semantic/src/binding.rs\<close>), references (\<open>reference.rs\<close>), scopes and the walk over
  their ancestors (\<open>scope.rs\<close>), contract certainties (\<open>contract.rs\<close>), and the classification of
  bindings the dataflow passes share (\<open>dataflow/scope_reads.rs\<close>).  A \<open>Name\<close> is the string it interns;
  ids are the naturals behind their \<open>u32\<close>.
\<close>

section \<open>Bindings\<close>

datatype declaration_builtin = Declare | Local | Export | Readonly | Typeset

datatype assignment_value_origin =
    PlainScalarAccess | StaticLiteral | ParameterOperator | Transformation | IndirectValue
  | CommandOrProcessSubstitution | MixedDynamic | ArrayOrCompound | UnknownValue

datatype loop_value_origin = StaticWords | ExpandedWords | ImplicitArgv

datatype builtin_binding_target_kind =
    TargetRead | TargetMapfile | TargetPrintf | TargetGetopts | TargetZparseopts | TargetZstyle
  | TargetZshArguments | TargetCompinit

text \<open>The first span of an origin is its definition span.\<close>

datatype binding_origin =
    OriginAssignment span assignment_value_origin
  | OriginLoopVariable span loop_value_origin
  | OriginParameterDefaultAssignment span span
  | OriginImported span
  | OriginFunctionDefinition span
  | OriginBuiltinTarget span builtin_binding_target_kind
  | OriginArithmeticAssignment span span
  | OriginDeclaration span
  | OriginNameref span

datatype binding_kind =
    Assignment | ParameterDefaultAssignment | AppendAssignment | ArrayAssignment
  | Declaration declaration_builtin | FunctionDefinition | LoopVariable | ReadTarget | MapfileTarget
  | PrintfTarget | GetoptsTarget | ZparseoptsTarget | ArithmeticAssignment | Nameref | Imported

type_synonym binding_attributes = "32 word"

definition attr_exported :: binding_attributes where "attr_exported = 0b00000001"
definition attr_readonly :: binding_attributes where "attr_readonly = 0b00000010"
definition attr_local :: binding_attributes where "attr_local = 0b00000100"
definition attr_integer :: binding_attributes where "attr_integer = 0b00001000"
definition attr_array :: binding_attributes where "attr_array = 0b00010000"
definition attr_assoc :: binding_attributes where "attr_assoc = 0b00100000"
definition attr_nameref :: binding_attributes where "attr_nameref = 0b01000000"
definition attr_lowercase :: binding_attributes where "attr_lowercase = 0b10000000"
definition attr_uppercase :: binding_attributes where "attr_uppercase = 0b000100000000"
definition attr_declaration_initialized :: binding_attributes where
  "attr_declaration_initialized = 0b001000000000"
definition attr_imported_possible :: binding_attributes where "attr_imported_possible = 0b010000000000"
definition attr_imported_function :: binding_attributes where "attr_imported_function = 0b100000000000"
definition attr_empty_initializer :: binding_attributes where
  "attr_empty_initializer = 0b0001000000000000"
definition attr_imported_file_entry :: binding_attributes where
  "attr_imported_file_entry = 0b0010000000000000"
definition attr_self_referential_read :: binding_attributes where
  "attr_self_referential_read = 0b0100000000000000"
definition attr_imported_file_entry_initialized :: binding_attributes where
  "attr_imported_file_entry_initialized = 0b1000000000000000"
definition attr_externally_consumed :: binding_attributes where
  "attr_externally_consumed = 0b00010000000000000000"
definition attr_workspace_consumed :: binding_attributes where
  "attr_workspace_consumed = 0b00100000000000000000"
definition attr_autoload :: binding_attributes where "attr_autoload = 0b01000000000000000000"

unbundle bit_operations_syntax

definition attrs_contain :: "binding_attributes \<Rightarrow> binding_attributes \<Rightarrow> bool" where
  "attrs_contain attrs flags \<longleftrightarrow> attrs AND flags = flags"

definition attrs_intersect :: "binding_attributes \<Rightarrow> binding_attributes \<Rightarrow> bool" where
  "attrs_intersect attrs flags \<longleftrightarrow> attrs AND flags \<noteq> 0"

definition array_like_flags :: binding_attributes where
  "array_like_flags = attr_array OR attr_assoc"

record binding =
  b_id :: binding_id
  b_name :: string
  b_kind :: binding_kind
  b_origin :: binding_origin
  b_scope :: scope_id
  b_span :: span
  b_references :: "reference_id list"
  b_attributes :: binding_attributes

definition has_attr :: "binding \<Rightarrow> binding_attributes \<Rightarrow> bool" where
  "has_attr b flags = attrs_contain (b_attributes b) flags"

definition is_array_like_binding :: "binding \<Rightarrow> bool" where
  "is_array_like_binding b \<longleftrightarrow> attrs_intersect (b_attributes b) array_like_flags
     \<or> (case b_kind b of ArrayAssignment \<Rightarrow> True | MapfileTarget \<Rightarrow> True | ZparseoptsTarget \<Rightarrow> True | _ \<Rightarrow> False)"

section \<open>References\<close>

datatype reference_kind =
    DeclarationName | Expansion | ImplicitRead | ParameterExpansion | LengthExpansion | ArrayAccess
  | IndirectExpansion | ArithmeticRead | PromptExpansion | TrapAction | ParameterPattern
  | ParameterSliceArithmetic | ConditionalOperand | RequiredRead

record reference =
  ref_id :: reference_id
  ref_name :: string
  ref_kind :: reference_kind
  ref_scope :: scope_id
  ref_span :: span
  ref_name_span :: span

record synthetic_read =
  sr_scope :: scope_id
  sr_span :: span
  sr_name :: string

section \<open>Scopes\<close>

datatype function_scope_kind = Named "string list" | Dynamic | Anonymous

fun static_names :: "function_scope_kind \<Rightarrow> string list" where
  "static_names (Named names) = names"
| "static_names _ = []"

definition contains_name :: "function_scope_kind \<Rightarrow> string \<Rightarrow> bool" where
  "contains_name kind name = list_ex (\<lambda>candidate. candidate = name) (static_names kind)"

definition is_anonymous :: "function_scope_kind \<Rightarrow> bool" where
  "is_anonymous kind \<longleftrightarrow> kind = Anonymous"

datatype scope_kind =
    FileScope | FunctionScope function_scope_kind | SubshellScope | CommandSubstitutionScope | PipelineScope

record scope =
  sc_id :: scope_id
  sc_kind :: scope_kind
  sc_parent :: "scope_id option"
  sc_span :: span
  sc_bindings :: "string \<rightharpoonup> binding_id list"

definition is_function_kind :: "scope_kind \<Rightarrow> bool" where
  "is_function_kind kind \<longleftrightarrow> (case kind of FunctionScope _ \<Rightarrow> True | _ \<Rightarrow> False)"

text \<open>The iterator over a scope and its ancestors, with fuel for its steps; \<open>None\<close> when a scope id is
  out of range or the fuel runs out.\<close>

fun ancestor_scopes :: "nat \<Rightarrow> scope list \<Rightarrow> scope_id \<Rightarrow> scope_id list option" where
  "ancestor_scopes 0 scopes start = None"
| "ancestor_scopes (Suc k) scopes start = do {
     sc \<leftarrow> nth_opt scopes start;
     (case sc_parent sc of None \<Rightarrow> Some [start]
      | Some parent \<Rightarrow> map_option ((#) start) (ancestor_scopes k scopes parent)) }"

text \<open>The search along them stops at the first match; the outer option is the panic.\<close>

fun enclosing_scope_matching ::
  "nat \<Rightarrow> scope list \<Rightarrow> scope_id \<Rightarrow> (scope_id \<Rightarrow> scope \<Rightarrow> bool) \<Rightarrow> scope_id option option" where
  "enclosing_scope_matching 0 scopes start matches = None"
| "enclosing_scope_matching (Suc k) scopes start matches = do {
     sc \<leftarrow> nth_opt scopes start;
     if matches start sc then Some (Some start)
     else (case sc_parent sc of None \<Rightarrow> Some None
           | Some parent \<Rightarrow> enclosing_scope_matching k scopes parent matches) }"

definition enclosing_function_scope :: "scope list \<Rightarrow> scope_id \<Rightarrow> scope_id option option" where
  "enclosing_function_scope scopes start =
     enclosing_scope_matching (length scopes) scopes start (\<lambda>_ sc. is_function_kind (sc_kind sc))"

section \<open>What a binding does to its name\<close>

datatype contract_certainty = Definite | Possible

fun merge_same_site :: "contract_certainty \<Rightarrow> contract_certainty \<Rightarrow> contract_certainty" where
  "merge_same_site Definite Definite = Definite"
| "merge_same_site _ _ = Possible"

definition binding_initializes_name :: "binding \<Rightarrow> contract_certainty option" where
  "binding_initializes_name b =
     (let declared = (if has_attr b attr_declaration_initialized then Some Definite else None) in
      case b_kind b of
        Declaration _ \<Rightarrow> declared
      | Nameref \<Rightarrow> declared
      | FunctionDefinition \<Rightarrow> None
      | Imported \<Rightarrow>
          if has_attr b attr_imported_function then None
          else if has_attr b attr_imported_possible then Some Possible
          else Some Definite
      | _ \<Rightarrow> Some Definite)"

definition function_binding_certainty :: "binding \<Rightarrow> contract_certainty option" where
  "function_binding_certainty b =
     (case b_kind b of
        FunctionDefinition \<Rightarrow> Some Definite
      | Imported \<Rightarrow>
          if has_attr b attr_imported_function
          then (if has_attr b attr_imported_possible then Some Possible else Some Definite)
          else None
      | _ \<Rightarrow> None)"

definition is_function_escape_candidate :: "binding \<Rightarrow> scope list \<Rightarrow> bool option" where
  "is_function_escape_candidate b scopes = do {
     sc \<leftarrow> nth_opt scopes (b_scope b);
     Some (is_function_kind (sc_kind sc) \<and> \<not> has_attr b attr_local
       \<and> (case b_kind b of FunctionDefinition \<Rightarrow> False | Imported \<Rightarrow> False | Nameref \<Rightarrow> False | _ \<Rightarrow> True)) }"

section \<open>Lemmas\<close>

text \<open>A binding is never both a value and a function.\<close>

lemma function_or_value:
  "binding_initializes_name b = None \<or> function_binding_certainty b = None"
  by (simp add: binding_initializes_name_def function_binding_certainty_def split: binding_kind.split)

text \<open>Scopes are numbered after their parents, so the walk to the root ends.\<close>

definition scopes_ok :: "scope list \<Rightarrow> bool" where
  "scopes_ok scopes \<longleftrightarrow> (\<forall>i < length scopes. sc_id (scopes ! i) = i
     \<and> (case sc_parent (scopes ! i) of None \<Rightarrow> True | Some p \<Rightarrow> p < i))"

lemma scopes_okD:
  assumes "scopes_ok scopes" "i < length scopes"
  shows "sc_id (scopes ! i) = i" "sc_parent (scopes ! i) = Some p \<Longrightarrow> p < i"
  using assms by (auto simp: scopes_ok_def split: option.splits)

inductive scope_ancestor :: "scope list \<Rightarrow> scope_id \<Rightarrow> scope_id \<Rightarrow> bool" for scopes where
  ancestor_self: "i < length scopes \<Longrightarrow> scope_ancestor scopes i i"
| ancestor_parent: "i < length scopes \<Longrightarrow> sc_parent (scopes ! i) = Some p \<Longrightarrow>
    scope_ancestor scopes p a \<Longrightarrow> scope_ancestor scopes i a"

inductive_cases scope_ancestorE: "scope_ancestor scopes i a"

lemma ancestor_scopes_ok:
  assumes "scopes_ok scopes" "start < length scopes" "start < k"
  shows "\<exists>xs. ancestor_scopes k scopes start = Some xs \<and> sorted_wrt (>) xs
    \<and> set xs = {a. scope_ancestor scopes start a} \<and> (\<forall>x \<in> set xs. x \<le> start)"
  using assms(2,3)
proof (induction k arbitrary: start)
  case (Suc k)
  show ?case
  proof (cases "sc_parent (scopes ! start)")
    case None
    then have "{a. scope_ancestor scopes start a} = {start}"
      using Suc.prems(1) by (auto elim: scope_ancestorE intro: ancestor_self)
    with None Suc.prems(1) show ?thesis by (simp add: panic_simps)
  next
    case (Some p)
    then have p: "p < start" using scopes_okD(2)[OF assms(1) Suc.prems(1)] by blast
    with Suc.IH[of p] Suc.prems obtain xs where xs: "ancestor_scopes k scopes p = Some xs" "sorted_wrt (>) xs"
      "set xs = {a. scope_ancestor scopes p a}" "\<forall>x \<in> set xs. x \<le> p" by auto
    have "{a. scope_ancestor scopes start a} = insert start {a. scope_ancestor scopes p a}"
      using Suc.prems(1) Some by (auto elim: scope_ancestorE intro: ancestor_self ancestor_parent)
    with xs p Some Suc.prems(1) show ?thesis by (fastforce simp: panic_simps)
  qed
qed simp

lemma enclosing_scope_find:
  "ancestor_scopes k scopes start = Some xs \<Longrightarrow>
   enclosing_scope_matching k scopes start matches = Some (List.find (\<lambda>i. matches i (scopes ! i)) xs)"
proof (induction k arbitrary: start xs)
  case (Suc k)
  then show ?case
    by (auto split: bind_splits option.splits if_splits)
qed simp

text \<open>The innermost function scope around a scope is found: it is the scope of the highest number
  among the ancestors that are function scopes, and there is none when no ancestor is one.\<close>

theorem enclosing_function_scope_innermost:
  assumes "scopes_ok scopes" "start < length scopes"
  shows "enclosing_function_scope scopes start =
    Some (let fs = {a. scope_ancestor scopes start a \<and> is_function_kind (sc_kind (scopes ! a))}
          in if fs = {} then None else Some (Max fs))"
proof -
  let ?P = "\<lambda>i. is_function_kind (sc_kind (scopes ! i))"
  obtain xs where xs: "ancestor_scopes (length scopes) scopes start = Some xs" "sorted_wrt (>) xs"
    "set xs = {a. scope_ancestor scopes start a}"
    using ancestor_scopes_ok[OF assms assms(2)] by blast
  have "List.find ?P xs = (let fs = {a \<in> set xs. ?P a} in if fs = {} then None else Some (Max fs))"
    using xs(2)
  proof (induction xs)
    case (Cons x xs)
    have "Max {a \<in> set (x # xs). ?P a} = x" if "?P x"
      using Cons.prems that by (intro Max_eqI) auto
    moreover have "{a \<in> set (x # xs). ?P a} = {a \<in> set xs. ?P a}" if "\<not> ?P x" using that by auto
    ultimately show ?case using Cons by (auto simp: Let_def)
  qed simp
  then show ?thesis
    unfolding enclosing_function_scope_def enclosing_scope_find[OF xs(1)] by (simp add: xs(3) Let_def)
qed

definition sample_scopes :: "scope list" where
  "sample_scopes =
     [\<lparr>sc_id = 0, sc_kind = FileScope, sc_parent = None, sc_span = span_new, sc_bindings = Map.empty\<rparr>,
      \<lparr>sc_id = 1, sc_kind = FunctionScope (Named [''f'']), sc_parent = Some 0, sc_span = span_new,
        sc_bindings = Map.empty\<rparr>,
      \<lparr>sc_id = 2, sc_kind = SubshellScope, sc_parent = Some 1, sc_span = span_new,
        sc_bindings = Map.empty\<rparr>]"

lemma sample_scopes_ok: "scopes_ok sample_scopes"
  by (auto simp: scopes_ok_def sample_scopes_def less_Suc_eq numeral_3_eq_3 split: option.splits)

theorem enclosing_function_scope_innermost_witness:
  "\<exists>a. enclosing_function_scope sample_scopes 2 = Some a \<and> a = Some 1"
proof -
  have "enclosing_function_scope sample_scopes 2 = Some (Some 1)" by code_simp
  with enclosing_function_scope_innermost[OF sample_scopes_ok, of 2] show ?thesis
    by (simp add: sample_scopes_def)
qed

end
