(* ===== verification/Dataflow_Sets.thy ===== *)
theory Dataflow_Sets
  imports Dense_Bit_Set
begin

text \<open>
  The laws of bit sets and bit matrices in the form the dataflow solvers use them: sets of a fixed
  number of words, matrices of a fixed shape, and each operation as the set operation it computes.
\<close>

declare members_iff [simp del]

named_theorems bit_laws \<open>bit set operations as set operations\<close>

abbreviation bset :: "dense_bit_set \<Rightarrow> nat set" where
  "bset s \<equiv> members (bs_words s)"

definition words_for :: "nat \<Rightarrow> nat" where
  "words_for n = div_ceil n 64"

definition sized :: "nat \<Rightarrow> dense_bit_set \<Rightarrow> bool" where
  "sized n s \<longleftrightarrow> length (bs_words s) = words_for n"

lemma words_for_cap: "n \<le> 64 * words_for n"
  using mult_div_mod_eq[of 64 n] mod_less_divisor[of 64 n]
  by (cases "n mod 64 = 0") (simp_all only: words_for_def div_ceil_def, simp_all)

lemma index_in_words: "i < n \<Longrightarrow> i < 64 * words_for n"
  using words_for_cap[of n] by simp

lemma sized_new [simp]: "sized n (bs_new n)"
  by (simp add: sized_def words_for_def bs_new_def)

lemma bset_new [bit_laws]: "bset (bs_new n) = {}"
  by (simp add: bs_new_def members_def)

lemma contains_bset [bit_laws]: "bs_contains s i \<longleftrightarrow> i \<in> bset s"
  by (rule bs_contains_eq)

lemma is_empty_bset [bit_laws]: "bs_is_empty s \<longleftrightarrow> bset s = {}"
  by (simp only: bs_is_empty_def members_empty_iff)

lemma insert_bset:
  assumes "sized n s" "i < n"
  shows "\<exists>t. bs_insert s i = Some t \<and> sized n t \<and> bset t = insert i (bset s)"
  using dense.ins_ok[of i s] index_in_words[OF assms(2)] assms(1)
  by (auto simp: sized_def)

text \<open>What is still free in the words of a set: the measure of the searches that mark what they visit.\<close>

definition bs_room :: "dense_bit_set \<Rightarrow> nat" where
  "bs_room s = card ({..<64 * length (bs_words s)} - bset s)"

lemma insert_room:
  assumes "\<not> bs_contains s i" "bs_insert s i = Some t"
  shows "bs_room t < bs_room s"
proof -
  have cap: "i < 64 * length (bs_words s)" "length (bs_words t) = length (bs_words s)"
    using assms(2) by (auto simp: bs_insert_eq split: if_splits)
  have "bset t = insert i (bset s)" using dense.ins_ok[OF cap(1)] assms(2) by auto
  then have "{..<64 * length (bs_words t)} - bset t \<subset> {..<64 * length (bs_words s)} - bset s"
    using assms(1) cap by (auto simp: contains_bset)
  then show ?thesis unfolding bs_room_def by (intro psubset_card_mono) auto
qed

lemma remove_bset:
  assumes "sized n s" "i < n"
  shows "\<exists>t. bs_remove s i = Some t \<and> sized n t \<and> bset t = bset s - {i}"
  using dense.rem_ok[of i s] index_in_words[OF assms(2)] assms(1)
  by (auto simp: sized_def)

lemma insert_all_bset:
  assumes "sized n s" "set xs \<subseteq> {..<n}"
  shows "\<exists>t. fold_opt (\<lambda>i s. bs_insert s i) xs s = Some t \<and> sized n t \<and> bset t = bset s \<union> set xs"
proof -
  have "set xs \<subseteq> {..<64 * length (bs_words s)}"
    using assms index_in_words[of _ n] by (fastforce simp: sized_def)
  from dense.insert_all[OF this] assms(1) show ?thesis by (auto simp: sized_def)
qed

lemma clear_bset [bit_laws]: "bset (bs_clear s) = {}"
  by (simp add: bs_clear_def members_def)

lemma sized_clear [simp]: "sized n (bs_clear s) = sized n s"
  by (simp add: bs_clear_def sized_def)

lemma union_words_bset [bit_laws]:
  "length (bs_words s) = length ws \<Longrightarrow> bset (bs_union_with_words s ws) = bset s \<union> members ws"
  using members_bounded[of "bs_words s"] members_bounded[of ws]
  unfolding bs_union_with_words_def dense_bit_set.select_convs
  by (subst members_zip[where P = "(\<or>)"]) (auto simp: bit_or_iff simp del: members_iff)

lemma subtract_words_bset [bit_laws]:
  "length (bs_words s) = length ws \<Longrightarrow> bset (bs_subtract_with_words s ws) = bset s - members ws"
  using members_bounded[of "bs_words s"] members_bounded[of ws]
  unfolding bs_subtract_with_words_def dense_bit_set.select_convs
  by (subst members_zip[where P = "\<lambda>a b. a \<and> \<not> b"])
    (auto simp: bit_and_iff bit_not_iff simp del: members_iff)

lemma intersect_words_bset [bit_laws]:
  "length (bs_words s) = length ws \<Longrightarrow> bset (bs_intersect_with_words s ws) = bset s \<inter> members ws"
  using members_bounded[of "bs_words s"] members_bounded[of ws]
  unfolding bs_intersect_with_words_def dense_bit_set.select_convs
  by (subst members_zip[where P = "(\<and>)"]) (auto simp: bit_and_iff simp del: members_iff)

lemma sized_words_ops [simp]:
  "sized n (bs_union_with_words s ws) = sized n s"
  "sized n (bs_subtract_with_words s ws) = sized n s"
  "sized n (bs_intersect_with_words s ws) = sized n s"
  by (simp_all add: sized_def bs_union_with_words_def bs_subtract_with_words_def bs_intersect_with_words_def)

lemma union_bset [bit_laws]: "sized n s \<Longrightarrow> sized n t \<Longrightarrow> bset (bs_union_with s t) = bset s \<union> bset t"
  by (simp only: bs_union_with_def union_words_bset sized_def)

lemma subtract_bset [bit_laws]: "sized n s \<Longrightarrow> sized n t \<Longrightarrow> bset (bs_subtract_with s t) = bset s - bset t"
  by (simp only: bs_subtract_with_def subtract_words_bset sized_def)

lemma sized_ops [simp]:
  "sized n (bs_union_with s t) = sized n s" "sized n (bs_subtract_with s t) = sized n s"
  by (simp_all add: bs_union_with_def bs_subtract_with_def)

lemma copy_bset: "sized n s \<Longrightarrow> sized n t \<Longrightarrow> bs_copy_from s t = Some t"
  by (simp add: bs_copy_from_def bs_copy_from_words_def sized_def)

lemma copy_words: "length (bs_words s) = length ws \<Longrightarrow> bs_copy_from_words s ws = Some \<lparr>bs_words = ws\<rparr>"
  by (simp add: bs_copy_from_words_def)

lemma sized_eq_iff: "sized n s \<Longrightarrow> length ws = words_for n \<Longrightarrow> bs_words s = ws \<longleftrightarrow> bset s = members ws"
  by (auto simp: sized_def members_inject)

section \<open>Matrices of a fixed shape\<close>

definition shaped :: "nat \<Rightarrow> nat \<Rightarrow> dense_bit_matrix \<Rightarrow> bool" where
  "shaped rows n m \<longleftrightarrow> bm_rows m = rows \<and> bm_words_per_row m = words_for n
     \<and> length (bm_data m) = rows * words_for n"

abbreviation mrow :: "dense_bit_matrix \<Rightarrow> nat \<Rightarrow> nat set" where
  "mrow m r \<equiv> members (row_words m r)"

lemma shaped_row_in:
  assumes "shaped rows n m" "r < rows"
  shows "(r + 1) * bm_words_per_row m \<le> length (bm_data m)"
  using mult_le_mono1[of "r + 1" rows "words_for n"] assms by (simp add: shaped_def)

lemma shaped_zeros [simp]: "shaped rows n (bm_zeros rows n)"
  by (simp add: shaped_def bm_zeros_def words_for_def Let_def)

lemma mrow_zeros [bit_laws]: "mrow (bm_zeros rows n) r = {}"
proof -
  have "row_words (bm_zeros rows n) r =
      replicate (min (rows * div_ceil n 64 - r * div_ceil n 64) (div_ceil n 64)) 0"
    by (simp add: row_words_def bm_zeros_def Let_def take_replicate drop_replicate)
  then show ?thesis by (simp add: members_def)
qed

lemma row_shaped:
  assumes "shaped rows n m" "r < rows"
  shows "bm_row m r = Some (row_words m r)" "length (row_words m r) = words_for n"
  using bm_row_eq[OF shaped_row_in[OF assms]] row_words_length[OF shaped_row_in[OF assms]] assms(1)
  by (simp_all add: shaped_def)

lemma matrix_insert:
  assumes "shaped rows n m" "r < rows" "i < n"
  shows "\<exists>m'. bm_insert m r i = Some m' \<and> shaped rows n m' \<and> mrow m' r = insert i (mrow m r)
    \<and> (\<forall>r' < rows. r' \<noteq> r \<longrightarrow> mrow m' r' = mrow m r')"
proof -
  have "i < row_cap m r"
    using shaped_row_in[OF assms(1,2)] index_in_words[OF assms(3)] assms(1)
    by (simp add: row_cap_def shaped_def)
  from bm_insert_eq[OF this] obtain m' where m': "bm_insert m r i = Some m'"
    "bm_words_per_row m' = bm_words_per_row m" "bm_rows m' = bm_rows m"
    "length (bm_data m') = length (bm_data m)" "mrow m' r = insert i (mrow m r)"
    "\<And>r'. r' \<noteq> r \<and> (r' + 1) * bm_words_per_row m \<le> length (bm_data m) \<Longrightarrow> row_words m' r' = row_words m r'"
    by blast
  have "mrow m' r' = mrow m r'" if "r' < rows" "r' \<noteq> r" for r'
    using m'(6)[of r'] shaped_row_in[OF assms(1) that(1)] that(2) by simp
  then show ?thesis using m'(1-5) assms(1) by (auto simp: shaped_def)
qed

lemma matrix_write:
  assumes "shaped rows n m" "r < rows" "length ws = words_for n"
  shows "\<exists>m'. bm_write_row m r ws = Some m' \<and> shaped rows n m' \<and> row_words m' r = ws
    \<and> (\<forall>r' < rows. r' \<noteq> r \<longrightarrow> row_words m' r' = row_words m r')"
proof -
  from bm_write_row_eq[OF shaped_row_in[OF assms(1,2)]] assms(1,3) obtain m' where m':
    "bm_write_row m r ws = Some m'" "bm_words_per_row m' = bm_words_per_row m"
    "bm_rows m' = bm_rows m" "length (bm_data m') = length (bm_data m)" "row_words m' r = ws"
    "\<And>r'. r' \<noteq> r \<and> (r' + 1) * bm_words_per_row m \<le> length (bm_data m) \<Longrightarrow> row_words m' r' = row_words m r'"
    unfolding shaped_def by metis
  have "row_words m' r' = row_words m r'" if "r' < rows" "r' \<noteq> r" for r'
    using m'(6)[of r'] shaped_row_in[OF assms(1) that(1)] that(2) by simp
  then show ?thesis using m'(1-5) assms(1) by (auto simp: shaped_def)
qed

text \<open>Replacing a row reports whether its set has changed.\<close>

lemma matrix_replace:
  assumes "shaped rows n m" "r < rows" "length ws = words_for n"
  shows "\<exists>m'. bm_replace_row_if_changed m r ws = Some (mrow m r \<noteq> members ws, m') \<and> shaped rows n m'
    \<and> row_words m' r = ws \<and> (\<forall>r' < rows. r' \<noteq> r \<longrightarrow> row_words m' r' = row_words m r')"
proof -
  have same: "row_words m r = ws \<longleftrightarrow> mrow m r = members ws"
    using members_inject[of "row_words m r" ws] row_shaped(2)[OF assms(1,2)] assms(3) by simp
  from matrix_write[OF assms] row_shaped[OF assms(1,2)] assms(1) show ?thesis
    unfolding bm_replace_row_if_changed_def by (auto simp flip: same)
qed

lemma matrix_fill:
  assumes "shaped rows n m" "length ws = words_for n"
  shows "\<exists>m'. bm_fill_all_rows_from_words m ws = Some m' \<and> shaped rows n m'
    \<and> (\<forall>r < rows. row_words m' r = ws)"
proof -
  have "\<exists>m'. fold_opt (\<lambda>row m. bm_write_row m row ws) [k..<rows] m = Some m' \<and> shaped rows n m'
      \<and> (\<forall>r < rows. row_words m' r = ws)"
    if "k \<le> rows" "shaped rows n m" "\<forall>r < k. row_words m r = ws" for k m
    using that
  proof (induction "rows - k" arbitrary: k m)
    case (Suc d)
    then have k: "k < rows" by simp
    from matrix_write[OF Suc.prems(2) k assms(2)] obtain m' where m': "bm_write_row m k ws = Some m'"
      "shaped rows n m'" "row_words m' k = ws" "\<forall>r' < rows. r' \<noteq> k \<longrightarrow> row_words m' r' = row_words m r'"
      by blast
    have "\<forall>r < Suc k. row_words m' r = ws" using m'(3,4) Suc.prems(3) k by (auto simp: less_Suc_eq)
    with Suc.hyps(1)[of "Suc k" m'] Suc.hyps(2) m' k show ?case
      by (auto simp: upt_conv_Cons)
  qed auto
  from this[of 0 m] assms(1) show ?thesis
    by (simp add: bm_fill_all_rows_from_words_def shaped_def)
qed

lemma matrix_contains:
  assumes "shaped rows n m" "r < rows" "i < n"
  shows "bm_contains m r i \<longleftrightarrow> i \<in> mrow m r"
  using assms shaped_row_in[OF assms(1,2)] index_in_words[OF assms(3)]
  by (intro bm_contains_row) (simp add: row_cap_def shaped_def)

section \<open>Filling a set from several sources\<close>

text \<open>\<open>iter().map(..).collect()\<close> with a body that may panic.\<close>

fun map_opt :: "('a \<Rightarrow> 'b option) \<Rightarrow> 'a list \<Rightarrow> 'b list option" where
  "map_opt f [] = Some []"
| "map_opt f (x # xs) = do { y \<leftarrow> f x; ys \<leftarrow> map_opt f xs; Some (y # ys) }"

lemma map_opt_ok:
  assumes "\<And>x. x \<in> set xs \<Longrightarrow> \<exists>y. f x = Some y \<and> Q x y"
  shows "\<exists>ys. map_opt f xs = Some ys \<and> length ys = length xs \<and> (\<forall>i < length xs. Q (xs ! i) (ys ! i))"
  using assms
proof (induction xs)
  case (Cons x xs)
  from Cons.prems[of x] obtain y where "f x = Some y" "Q x y" by auto
  moreover from Cons obtain ys where "map_opt f xs = Some ys" "length ys = length xs"
    "\<forall>i < length xs. Q (xs ! i) (ys ! i)" by auto
  ultimately show ?case by (auto simp: less_Suc_eq_0_disj)
qed simp

text \<open>The union of sets that are read one by one.\<close>

lemma union_all_bset:
  assumes "sized n s" "\<And>x. x \<in> set xs \<Longrightarrow> \<exists>ws. f x = Some ws \<and> length ws = words_for n \<and> members ws = A x"
  shows "\<exists>t. fold_opt (\<lambda>x s. do { ws \<leftarrow> f x; Some (bs_union_with_words s ws) }) xs s = Some t \<and> sized n t
    \<and> bset t = bset s \<union> (\<Union>x \<in> set xs. A x)"
  using assms
proof (induction xs arbitrary: s)
  case (Cons x xs)
  from Cons.prems(2)[of x] obtain ws where ws: "f x = Some ws" "length ws = words_for n" "members ws = A x" by auto
  have "sized n (bs_union_with_words s ws)" "bset (bs_union_with_words s ws) = bset s \<union> A x"
    using Cons.prems(1) ws(2,3) by (simp, simp add: union_words_bset sized_def)
  with Cons.IH[of "bs_union_with_words s ws"] Cons.prems(2) ws(1) show ?case by (simp add: Un_assoc)
qed simp

lemma members_sized: "sized n s \<Longrightarrow> length (bs_words s) = words_for n"
  by (simp add: sized_def)

lemma sorted_list_of_filter: "sorted_list_of_set {i. i < (m :: nat) \<and> P i} = filter P [0..<m]"
proof -
  have "sorted (filter P [0..<m])" "distinct (filter P [0..<m])" by (simp_all add: sorted_wrt_filter)
  moreover have "set (filter P [0..<m]) = {i. i < m \<and> P i}" by auto
  ultimately show ?thesis by (metis sorted_list_of_set.idem_if_sorted_distinct)
qed

end
