(* ===== verification/Block_Order.thy ===== *)
theory Block_Order
  imports Cfg_Graph Dataflow_Sets
begin

text \<open>
  Model of the block orders of \<open>crates/shucked-semantic/src/dataflow/dense.rs\<close>
  (\<open>compute_block_order\<close> and its two callers), the visiting order of the dataflow solvers.  The
  theorem: the order lists every block once, and in postorder an edge leads to an earlier block unless
  it closes a cycle.
\<close>

section \<open>The walk\<close>

datatype order_kind = ReversePostorder | Postorder

datatype frame = FEnter block_id | FExit block_id

text \<open>The end of the code's stack is the head of the list.\<close>

function order_walk ::
  "control_flow_graph \<Rightarrow> frame list \<Rightarrow> dense_bit_set \<Rightarrow> block_id list
    \<Rightarrow> (dense_bit_set \<times> block_id list) option" where
  "order_walk cfg [] visited order = Some (visited, order)"
| "order_walk cfg (FExit block # stack) visited order = order_walk cfg stack visited (order @ [block])"
| "order_walk cfg (FEnter block # stack) visited order =
     (if bs_contains visited block then order_walk cfg stack visited order
      else (case bs_insert visited block of
        None \<Rightarrow> None
      | Some visited \<Rightarrow>
          order_walk cfg
            (rev (map FEnter (filter (\<lambda>s. \<not> bs_contains visited s) (map fst (successors_of cfg block))))
              @ FExit block # stack) visited order))"
  by pat_completeness auto
termination
  by (relation "measures [\<lambda>(_, _, visited, _). bs_room visited, \<lambda>(_, stack, _, _). length stack]")
    (auto dest: insert_room)

definition order_sources :: "control_flow_graph \<Rightarrow> block_id list" where
  "order_sources cfg =
     cfg_entry cfg # map snd (cfg_scope_entries cfg)
       @ filter (\<lambda>b. predecessors_of cfg b = []) (map bb_id (cfg_blocks cfg))"

definition walk_from ::
  "control_flow_graph \<Rightarrow> block_id \<Rightarrow> dense_bit_set \<times> block_id list
    \<Rightarrow> (dense_bit_set \<times> block_id list) option" where
  "walk_from cfg source = (\<lambda>(visited, order).
     if bs_contains visited source then Some (visited, order)
     else order_walk cfg [FEnter source] visited order)"

definition compute_block_order :: "control_flow_graph \<Rightarrow> order_kind \<Rightarrow> block_id list option" where
  "compute_block_order cfg kind = do {
     (visited, order) \<leftarrow> fold_opt (walk_from cfg) (order_sources cfg) (bs_new (length (cfg_blocks cfg)), []);
     let order = order @ filter (\<lambda>b. \<not> bs_contains visited b) (map bb_id (cfg_blocks cfg));
     Some (case kind of ReversePostorder \<Rightarrow> rev order | Postorder \<Rightarrow> order) }"

definition compute_reverse_postorder :: "control_flow_graph \<Rightarrow> block_id list option" where
  "compute_reverse_postorder cfg = compute_block_order cfg ReversePostorder"

definition compute_postorder :: "control_flow_graph \<Rightarrow> block_id list option" where
  "compute_postorder cfg = compute_block_order cfg Postorder"

section \<open>The walk invariant\<close>

definition leads :: "control_flow_graph \<Rightarrow> (block_id \<times> block_id) set" where
  "leads cfg = {(a, b). b \<in> fst ` set (successors_of cfg a)}"

fun frame_block :: "frame \<Rightarrow> block_id" where
  "frame_block (FEnter b) = b"
| "frame_block (FExit b) = b"

definition open_blocks :: "frame list \<Rightarrow> block_id list" where
  "open_blocks stack = List.map_filter (\<lambda>f. case f of FExit b \<Rightarrow> Some b | FEnter _ \<Rightarrow> None) stack"

lemma open_blocks_simps [simp]:
  "open_blocks [] = []" "open_blocks (FExit b # stack) = b # open_blocks stack"
  "open_blocks (FEnter b # stack) = open_blocks stack"
  "open_blocks (map FEnter bs @ stack) = open_blocks stack"
  by (simp_all add: open_blocks_def List.map_filter_simps)
    (induction bs, simp_all add: List.map_filter_simps)

text \<open>An open block leads to everything above it on the stack, and each of its successors has been
  visited or waits above it.\<close>

fun stack_ok :: "control_flow_graph \<Rightarrow> nat set \<Rightarrow> block_id set \<Rightarrow> frame list \<Rightarrow> bool" where
  "stack_ok cfg visited up [] \<longleftrightarrow> True"
| "stack_ok cfg visited up (FEnter b # stack) \<longleftrightarrow> stack_ok cfg visited (insert b up) stack"
| "stack_ok cfg visited up (FExit b # stack) \<longleftrightarrow>
     (\<forall>c \<in> up. (b, c) \<in> (leads cfg)\<^sup>*)
     \<and> (\<forall>c. (b, c) \<in> leads cfg \<longrightarrow> c \<in> visited \<or> c \<in> up)
     \<and> stack_ok cfg visited (insert b up) stack"

text \<open>In a finished order an edge leads to an earlier block or closes a cycle.\<close>

definition postordered :: "control_flow_graph \<Rightarrow> block_id list \<Rightarrow> bool" where
  "postordered cfg order \<longleftrightarrow>
     (\<forall>i < length order. \<forall>c. (order ! i, c) \<in> leads cfg \<longrightarrow>
        c \<in> set (take i order) \<or> (c, order ! i) \<in> (leads cfg)\<^sup>*)"

definition walk_ok ::
  "control_flow_graph \<Rightarrow> nat \<Rightarrow> frame list \<Rightarrow> dense_bit_set \<Rightarrow> block_id list \<Rightarrow> bool" where
  "walk_ok cfg n stack visited order \<longleftrightarrow>
     sized n visited \<and> bset visited \<subseteq> {..<n} \<and> set (map frame_block stack) \<subseteq> {..<n}
     \<and> distinct (order @ open_blocks stack)
     \<and> set (order @ open_blocks stack) = bset visited
     \<and> stack_ok cfg (bset visited) {} stack
     \<and> leads cfg `` set order \<subseteq> bset visited
     \<and> postordered cfg order"

lemma stack_ok_mono:
  "stack_ok cfg V up stack \<Longrightarrow> V \<subseteq> V' \<Longrightarrow> stack_ok cfg V' up stack"
  by (induction cfg V up stack rule: stack_ok.induct) auto

lemma stack_ok_above:
  "stack_ok cfg V up stack \<Longrightarrow> (\<And>c b. c \<in> up' - up \<Longrightarrow> b \<in> set (open_blocks stack) \<Longrightarrow> (b, c) \<in> (leads cfg)\<^sup>*) \<Longrightarrow>
   up \<subseteq> up' \<Longrightarrow> stack_ok cfg V up' stack"
proof (induction cfg V up stack arbitrary: up' rule: stack_ok.induct)
  case (2 cfg V up b stack)
  have "stack_ok cfg V (insert b up') stack"
  proof (rule "2.IH")
    show "(b', c) \<in> (leads cfg)\<^sup>*" if "c \<in> insert b up' - insert b up" "b' \<in> set (open_blocks stack)" for b' c
      using "2.prems"(2)[of c b'] that by auto
  qed (use "2.prems"(1,3) in auto)
  then show ?case by simp
next
  case (3 cfg V up b stack)
  have "stack_ok cfg V (insert b up') stack"
  proof (rule "3.IH")
    show "(b', c) \<in> (leads cfg)\<^sup>*" if "c \<in> insert b up' - insert b up" "b' \<in> set (open_blocks stack)" for b' c
      using "3.prems"(2)[of c b'] that by auto
  qed (use "3.prems"(1,3) in auto)
  moreover have "(b, c) \<in> (leads cfg)\<^sup>*" if "c \<in> up'" for c
    using "3.prems"(1) "3.prems"(2)[of c b] that by (cases "c \<in> up") auto
  ultimately show ?case using "3.prems"(1,3) by auto
qed simp

text \<open>A block that was entered and not left may be dropped from up, once it is among the visited.\<close>

lemma stack_ok_drop:
  "stack_ok cfg V (insert b up) stack \<Longrightarrow> b \<in> V \<Longrightarrow> stack_ok cfg V up stack"
proof (induction cfg V "insert b up" stack arbitrary: up rule: stack_ok.induct)
  case (2 cfg V c stack)
  then show ?case by (simp add: insert_commute)
next
  case (3 cfg V c stack)
  from 3(2) have "stack_ok cfg V (insert b (insert c up)) stack" by (simp add: insert_commute)
  with 3(1)[of "insert c up"] 3(3) have "stack_ok cfg V (insert c up) stack"
    by (simp add: insert_commute)
  with 3(2,3) show ?case by auto
qed simp

lemma open_reaches:
  "stack_ok cfg V up stack \<Longrightarrow> b \<in> set (open_blocks stack) \<Longrightarrow> c \<in> up \<Longrightarrow> (b, c) \<in> (leads cfg)\<^sup>*"
  by (induction cfg V up stack rule: stack_ok.induct) auto

lemma map_filter_enters:
  "frame_block ` set (rev (map FEnter bs)) = set bs" "open_blocks (rev (map FEnter bs) @ stack) = open_blocks stack"
  by (simp_all add: image_image rev_map)

lemma order_walk_ok:
  assumes "walk_ok cfg n stack visited order" "\<forall>a. set (map fst (successors_of cfg a)) \<subseteq> {..<n}"
  shows "succeeds (order_walk cfg stack visited order) (\<lambda>(v, o'). walk_ok cfg n [] v o'
    \<and> bset visited \<subseteq> bset v \<and> set (map frame_block stack) \<subseteq> bset v)"
  using assms
proof (induction cfg stack visited order rule: order_walk.induct)
  case (1 cfg visited order)
  then show ?case by simp
next
  case (2 cfg b stack visited order)
  have b: "b \<in> bset visited" using "2.prems" by (auto simp: walk_ok_def)
  have ok: "stack_ok cfg (bset visited) {b} stack"
    and succ: "\<And>c. (b, c) \<in> leads cfg \<Longrightarrow> c \<in> bset visited"
    using "2.prems" by (auto simp: walk_ok_def)
  have "postordered cfg (order @ [b])"
    unfolding postordered_def
  proof (intro allI impI)
    fix i c assume i: "i < length (order @ [b])" "((order @ [b]) ! i, c) \<in> leads cfg"
    show "c \<in> set (take i (order @ [b])) \<or> (c, (order @ [b]) ! i) \<in> (leads cfg)\<^sup>*"
    proof (cases "i < length order")
      case True
      with i "2.prems" show ?thesis by (auto simp: walk_ok_def postordered_def nth_append)
    next
      case False
      with i have *: "i = length order" "(b, c) \<in> leads cfg" by (auto simp: nth_append)
      from succ[OF *(2)] "2.prems" have "c \<in> set order \<or> c = b \<or> c \<in> set (open_blocks stack)"
        by (auto simp: walk_ok_def)
      with * open_reaches[OF ok, of c b] show ?thesis by (auto simp: nth_append)
    qed
  qed
  with "2.prems" stack_ok_drop[OF ok b] have "walk_ok cfg n stack visited (order @ [b])"
    by (auto simp: walk_ok_def)
  from "2.IH"[OF this "2.prems"(2)] b show ?case by (auto elim!: succeeds_mono)
next
  case (3 cfg b stack visited order)
  show ?case
  proof (cases "bs_contains visited b")
    case True
    then have b: "b \<in> bset visited" by (simp only: contains_bset)
    with "3.prems" have "walk_ok cfg n stack visited order"
      using stack_ok_drop[of cfg "bset visited" b "{}" stack] by (auto simp: walk_ok_def)
    from "3.IH"(1)[OF True this "3.prems"(2)] b True show ?thesis by (auto elim!: succeeds_mono)
  next
    case False
    then have b: "b \<notin> bset visited" by (simp only: contains_bset simp_thms)
    have bn: "b < n" "sized n visited" using "3.prems" by (auto simp: walk_ok_def)
    from insert_bset[OF bn(2,1)] obtain v where v: "bs_insert visited b = Some v" "sized n v"
      "bset v = insert b (bset visited)" by blast
    let ?S = "filter (\<lambda>s. \<not> bs_contains v s) (map fst (successors_of cfg b))"
    let ?next = "rev (map FEnter ?S) @ FExit b # stack"
    have ok: "stack_ok cfg (bset visited) {b} stack" using "3.prems" by (simp add: walk_ok_def)
    have S: "set ?S = {c. (b, c) \<in> leads cfg} - bset v"
      by (auto simp: leads_def contains_bset)
    have enters: "stack_ok cfg V up (rev (map FEnter cs) @ rest) = stack_ok cfg V (up \<union> set cs) rest"
      for V up cs rest by (induction cs arbitrary: rest) (auto simp: insert_commute)
    have "stack_ok cfg (bset v) (insert b (set ?S)) stack"
    proof (rule stack_ok_above[OF stack_ok_mono[OF ok]])
      show "(b', c) \<in> (leads cfg)\<^sup>*" if "c \<in> insert b (set ?S) - {b}" "b' \<in> set (open_blocks stack)" for c b'
        using that S open_reaches[OF ok that(2)] by (auto intro: rtrancl_into_rtrancl)
    qed (auto simp: v(3))
    then have "stack_ok cfg (bset v) {} ?next"
      unfolding enters using S by (auto simp: v(3))
    moreover have "set ?S \<subseteq> {..<n}" using "3.prems"(2) by (meson filter_is_subset subset_trans)
    then have "set (map frame_block ?next) \<subseteq> {..<n}"
      using "3.prems" bn by (auto simp: walk_ok_def map_filter_enters)
    moreover have "open_blocks ?next = b # open_blocks stack" by (simp add: map_filter_enters)
    ultimately have "walk_ok cfg n ?next v order"
      using "3.prems" b bn v(2,3) by (auto simp: walk_ok_def)
    from "3.IH"(2)[OF False v(1) this "3.prems"(2)] have
      "succeeds (order_walk cfg ?next v order) (\<lambda>(v', o'). walk_ok cfg n [] v' o'
        \<and> bset v \<subseteq> bset v' \<and> set (map frame_block ?next) \<subseteq> bset v')" .
    then show ?thesis
      using False v by (auto elim!: succeeds_mono)
  qed
qed

text \<open>The sources one after the other: everything they lead to is visited.\<close>

lemma walk_sources_ok:
  assumes "\<forall>a. set (map fst (successors_of cfg a)) \<subseteq> {..<n}" "set sources \<subseteq> {..<n}"
  shows "succeeds (fold_opt (walk_from cfg) sources (bs_new n, []))
    (\<lambda>(v, order). walk_ok cfg n [] v order \<and> set sources \<subseteq> bset v)"
proof -
  have step: "succeeds (walk_from cfg s (v, order)) (\<lambda>(v', order'). walk_ok cfg n [] v' order'
      \<and> bset v \<subseteq> bset v' \<and> s \<in> bset v')"
    if "walk_ok cfg n [] v order" "s < n" for s v order
  proof (cases "bs_contains v s")
    case True
    then show ?thesis using that(1) by (simp add: walk_from_def contains_bset)
  next
    case False
    have "walk_ok cfg n [FEnter s] v order" using that by (auto simp: walk_ok_def)
    from order_walk_ok[OF this assms(1)] False show ?thesis
      unfolding walk_from_def by (simp)
  qed
  have "succeeds (fold_opt (walk_from cfg) sources (v, order)) (\<lambda>(v', order'). walk_ok cfg n [] v' order'
      \<and> bset v \<union> set sources \<subseteq> bset v')"
    if "walk_ok cfg n [] v order" for v order
    using assms(2) that
  proof (induction sources arbitrary: v order)
    case (Cons s sources)
    from Cons.prems(1) have "s < n" "set sources \<subseteq> {..<n}" by auto
    note IH = Cons.IH[OF this(2)]
    show ?case
      unfolding fold_opt.simps
    proof (rule succeeds_intros(2)[OF succeeds_mono[OF step[OF Cons.prems(2) \<open>s < n\<close>]]], goal_cases)
      case (1 x)
      obtain v' order' where x: "x = (v', order')" by (cases x)
      with 1 have "walk_ok cfg n [] v' order'" "bset v \<subseteq> bset v'" "s \<in> bset v'" by auto
      with IH[OF this(1)] show ?case unfolding x by (auto elim!: succeeds_mono)
    qed
  qed (simp)
  from this[of "bs_new n" "[]"] show ?thesis
    by (simp add: walk_ok_def postordered_def bset_new)
qed

lemma leads_within:
  assumes "cfg_ok cfg"
  shows "set (map fst (successors_of cfg a)) \<subseteq> {..<length (cfg_blocks cfg)}"
  using cfg_okD(4)[OF assms] by (auto simp: successors_of_def nth_opt_def within_def)

lemma sources_within:
  assumes "cfg_ok cfg"
  shows "set (order_sources cfg) \<subseteq> {..<length (cfg_blocks cfg)}"
proof -
  have "set (map bb_id (cfg_blocks cfg)) = {..<length (cfg_blocks cfg)}"
    using cfg_okD(3)[OF assms] by (simp add: atLeast0LessThan)
  with assms show ?thesis
    by (auto simp: order_sources_def cfg_ok_def Let_def within_def)
qed

lemma unreachable_cfg:
  assumes "cfg_ok cfg"
  shows "set (cfg_unreachable cfg) =
    {..<length (cfg_blocks cfg)} - (leads cfg)\<^sup>* `` set (map snd (cfg_scope_entries cfg))"
proof -
  have "leads cfg = flow_edges (cfg_successors cfg)" by (simp add: leads_def flow_edges_successors)
  with cfg_okD(6)[OF assms] show ?thesis by auto
qed

lemma block_order_ok:
  assumes "cfg_ok cfg"
  shows "\<exists>order. compute_block_order cfg Postorder = Some order
    \<and> compute_block_order cfg ReversePostorder = Some (rev order)
    \<and> distinct order \<and> set order = {..<length (cfg_blocks cfg)}
    \<and> (\<forall>i j. i < length order \<longrightarrow> j < length order \<longrightarrow> (order ! i, order ! j) \<in> leads cfg \<longrightarrow>
         order ! i \<notin> set (cfg_unreachable cfg) \<longrightarrow> j < i \<or> (order ! j, order ! i) \<in> (leads cfg)\<^sup>*)"
proof -
  let ?n = "length (cfg_blocks cfg)"
  let ?rest = "\<lambda>v. filter (\<lambda>b. \<not> bs_contains v b) (map bb_id (cfg_blocks cfg))"
  obtain v order where walk: "fold_opt (walk_from cfg) (order_sources cfg) (bs_new ?n, []) = Some (v, order)"
    and ok: "walk_ok cfg ?n [] v order" and sources: "set (order_sources cfg) \<subseteq> bset v"
    using succeedsD[OF walk_sources_ok[OF _ sources_within[OF assms]]] leads_within[OF assms] by blast
  let ?all = "order @ ?rest v"
  have order: "distinct order" "set order = bset v" "bset v \<subseteq> {..<?n}" "leads cfg `` bset v \<subseteq> bset v"
    "postordered cfg order" using ok by (auto simp: walk_ok_def)
  have rest: "?rest v = filter (\<lambda>b. b \<notin> bset v) [0..<?n]"
    using cfg_okD(3)[OF assms] by (simp add: contains_bset)
  have dist: "distinct ?all" "set ?all = {..<?n}"
    using order(1-3) unfolding rest by (auto)
  have visited: "(leads cfg)\<^sup>* `` set (map snd (cfg_scope_entries cfg)) \<subseteq> bset v"
  proof -
    have "set (map snd (cfg_scope_entries cfg)) \<subseteq> bset v" using sources by (auto simp: order_sources_def)
    then have "(leads cfg)\<^sup>* `` set (map snd (cfg_scope_entries cfg)) \<subseteq> (leads cfg)\<^sup>* `` bset v"
      by (rule Image_mono[OF subset_refl])
    then show ?thesis using Image_closed_trancl[OF order(4)] by simp
  qed
  have post: "j < i \<or> (?all ! j, ?all ! i) \<in> (leads cfg)\<^sup>*"
    if "i < length ?all" "j < length ?all" "(?all ! i, ?all ! j) \<in> leads cfg"
      "?all ! i \<notin> set (cfg_unreachable cfg)" for i j
  proof -
    have "?all ! i \<in> bset v"
      using that(1,4) dist(2) visited unreachable_cfg[OF assms] nth_mem[OF that(1)] by blast
    moreover have "?rest v ! (i - length order) \<notin> bset v" if "\<not> i < length order"
      using nth_mem[of "i - length order" "?rest v"] \<open>i < length ?all\<close> that unfolding rest by auto
    ultimately have i: "i < length order" by (auto simp: nth_append split: if_splits)
    show ?thesis
    proof (rule disjCI)
      assume no: "(?all ! j, ?all ! i) \<notin> (leads cfg)\<^sup>*"
      have "?all ! i = order ! i" using i by (simp add: nth_append)
      with order(5)[unfolded postordered_def, rule_format, OF i, of "?all ! j"] that(3) no
      have "?all ! j \<in> set (take i order)" by metis
      then obtain k where "k < i" "?all ! j = ?all ! k" using i by (auto simp: in_set_conv_nth nth_append)
      with dist(1) that(1,2) show "j < i" by (metis nth_eq_iff_index_eq order.strict_trans)
    qed
  qed
  have "compute_block_order cfg Postorder = Some ?all" "compute_block_order cfg ReversePostorder = Some (rev ?all)"
    unfolding compute_block_order_def walk by simp_all
  with dist post show ?thesis by blast
qed

text \<open>C29: The postorder of a graph that was built lists every block exactly once, the reverse postorder is
  its reversal, and of every edge out of a block that is not listed as unreachable the target comes before
  the source in postorder unless the target leads back to the source.\<close>

theorem block_order_is_postorder:
  assumes "covered rank n p" "bindings_ok p ct"
    and "length (rp_function_bodies p) + length (program_calls p ct) < k"
    and "build_control_flow_graph k n p bindings references ct = Some cfg"
  shows "\<exists>order. compute_postorder cfg = Some order \<and> compute_reverse_postorder cfg = Some (rev order)
    \<and> distinct order \<and> set order = {..<length (cfg_blocks cfg)}
    \<and> (\<forall>i j. i < length order \<longrightarrow> j < length order \<longrightarrow>
         order ! j \<in> fst ` set (successors_of cfg (order ! i)) \<longrightarrow>
         order ! i \<notin> set (cfg_unreachable cfg) \<longrightarrow>
         j < i \<or> (order ! j, order ! i) \<in> {(a, c). c \<in> fst ` set (successors_of cfg a)}\<^sup>*)"
  using block_order_ok[OF build_cfg_result[OF assms]]
  unfolding compute_postorder_def compute_reverse_postorder_def leads_def by simp

theorem block_order_is_postorder_witness:
  "\<exists>cfg order. build_control_flow_graph 1 1 dead_program Map.empty Map.empty no_calls = Some cfg
    \<and> compute_postorder cfg = Some order \<and> distinct order \<and> set order = {..<length (cfg_blocks cfg)}"
proof -
  obtain cfg where cfg: "build_control_flow_graph 1 1 dead_program Map.empty Map.empty no_calls = Some cfg"
    using build_cfg_ok[OF dead_program_facts] succeedsD by blast
  with block_order_is_postorder[OF dead_program_facts cfg] show ?thesis by blast
qed

end
