(* ===== verification/Dataflow_Solver.thy ===== *)
theory Dataflow_Solver
  imports Block_Order
begin

text \<open>
  Model of the two worklist drivers of \<open>crates/shucked-semantic/src/dataflow/dense.rs\<close>, and the two
  contracts they are verified with.  \<open>worklist_transfer\<close> is what a transfer function owes to the
  driver; inside it the driver is shown to stop, with fuel that a size of the state bounds, in a state
  where the equations of all blocks hold.  \<open>gen_kill\<close> is the theory of the problems the crate solves
  with it: its solution is the set of the facts that arrive at a block along some path.
\<close>

section \<open>The drivers\<close>

type_synonym 's transfer = "block_id \<Rightarrow> 's \<Rightarrow> (bool \<times> 's) option"

definition worklist_visit ::
  "(block_id \<Rightarrow> block_id list) \<Rightarrow> 's transfer \<Rightarrow> block_id \<Rightarrow> dense_bit_set \<times> 's
    \<Rightarrow> (dense_bit_set \<times> 's) option" where
  "worklist_visit next_of transfer block = (\<lambda>(dirty, s).
     if \<not> bs_contains dirty block then Some (dirty, s)
     else do {
       dirty \<leftarrow> bs_remove dirty block;
       (changed, s) \<leftarrow> transfer block s;
       if changed
       then do { dirty \<leftarrow> fold_opt (\<lambda>b d. bs_insert d b) (next_of block) dirty; Some (dirty, s) }
       else Some (dirty, s) })"

text \<open>The outer loop, with fuel for its rounds.\<close>

fun worklist_rounds ::
  "nat \<Rightarrow> (block_id \<Rightarrow> block_id list) \<Rightarrow> block_id list \<Rightarrow> 's transfer \<Rightarrow> dense_bit_set \<times> 's \<Rightarrow> 's option" where
  "worklist_rounds 0 next_of order transfer st = None"
| "worklist_rounds (Suc k) next_of order transfer st =
     (if bs_is_empty (fst st) then Some (snd st)
      else do {
        st \<leftarrow> fold_opt (worklist_visit next_of transfer) order st;
        worklist_rounds k next_of order transfer st })"

definition run_worklist ::
  "nat \<Rightarrow> nat \<Rightarrow> (block_id \<Rightarrow> block_id list) \<Rightarrow> block_id list \<Rightarrow> 's transfer \<Rightarrow> 's \<Rightarrow> 's option" where
  "run_worklist k block_count next_of order transfer s = do {
     dirty \<leftarrow> fold_opt (\<lambda>b d. bs_insert d b) order (bs_new block_count);
     worklist_rounds k next_of order transfer (dirty, s) }"

definition run_forward_dataflow_worklist ::
  "nat \<Rightarrow> control_flow_graph \<Rightarrow> block_id list \<Rightarrow> 's transfer \<Rightarrow> 's \<Rightarrow> 's option" where
  "run_forward_dataflow_worklist k cfg rpo =
     run_worklist k (length (cfg_blocks cfg)) (\<lambda>b. map fst (successors_of cfg b)) rpo"

definition run_backward_dataflow_worklist ::
  "nat \<Rightarrow> control_flow_graph \<Rightarrow> block_id list \<Rightarrow> 's transfer \<Rightarrow> 's \<Rightarrow> 's option" where
  "run_backward_dataflow_worklist k cfg postorder =
     run_worklist k (length (cfg_blocks cfg)) (predecessors_of cfg) postorder"

section \<open>What a transfer function owes to the driver\<close>

text \<open>
  \<open>good\<close> is the invariant of the solver's state, \<open>holds b\<close> says that the equation of block \<open>b\<close> holds, and
  \<open>room\<close> is what is left to change.  A transfer re-establishes the equation of its block and disturbs only
  those of the blocks after it, and those only when it reports a change, which uses up room.
\<close>

locale worklist_transfer =
  fixes valid :: "'c \<Rightarrow> bool" and n :: "'c \<Rightarrow> nat" and next_of :: "'c \<Rightarrow> block_id \<Rightarrow> block_id list"
    and transfer :: "'c \<Rightarrow> 's transfer" and good :: "'c \<Rightarrow> 's \<Rightarrow> bool"
    and holds :: "'c \<Rightarrow> block_id \<Rightarrow> 's \<Rightarrow> bool" and room :: "'c \<Rightarrow> 's \<Rightarrow> nat"
  assumes next_within: "valid p \<Longrightarrow> b < n p \<Longrightarrow> set (next_of p b) \<subseteq> {..<n p}"
    and transfer_ok: "valid p \<Longrightarrow> b < n p \<Longrightarrow> good p s \<Longrightarrow>
      \<exists>changed s'. transfer p b s = Some (changed, s') \<and> good p s'
        \<and> (if changed then room p s' < room p s else room p s' \<le> room p s)
        \<and> (\<forall>c < n p. (c = b \<or> holds p c s) \<longrightarrow> (changed \<longrightarrow> c \<notin> set (next_of p b)) \<longrightarrow> holds p c s')"
begin

definition clean :: "'c \<Rightarrow> dense_bit_set \<times> 's \<Rightarrow> bool" where
  "clean p = (\<lambda>(dirty, s). sized (n p) dirty \<and> bset dirty \<subseteq> {..<n p} \<and> good p s
     \<and> (\<forall>c < n p. c \<notin> bset dirty \<longrightarrow> holds p c s))"

lemma visit_ok:
  assumes "b < n p" "clean p (dirty, s)" and V: "valid p"
  shows "\<exists>dirty' s'. worklist_visit (next_of p) (transfer p) b (dirty, s) = Some (dirty', s') \<and> clean p (dirty', s')
    \<and> (room p s' < room p s \<or> room p s' \<le> room p s \<and> bset dirty' = bset dirty - {b})"
proof (cases "b \<in> bset dirty")
  case False
  with assms(2) show ?thesis by (auto simp: worklist_visit_def contains_bset)
next
  case True
  have c: "sized (n p) dirty" "bset dirty \<subseteq> {..<n p}" "good p s" "\<And>c. c < n p \<Longrightarrow> c \<notin> bset dirty \<Longrightarrow> holds p c s"
    using assms(2) by (auto simp: clean_def)
  from remove_bset[OF c(1) assms(1)] obtain d where d: "bs_remove dirty b = Some d" "sized (n p) d"
    "bset d = bset dirty - {b}" by blast
  from transfer_ok[OF V assms(1) c(3)] obtain changed s' where t: "transfer p b s = Some (changed, s')"
    "good p s'" "if changed then room p s' < room p s else room p s' \<le> room p s"
    "\<forall>c < n p. (c = b \<or> holds p c s) \<longrightarrow> (changed \<longrightarrow> c \<notin> set (next_of p b)) \<longrightarrow> holds p c s'" by blast
  have keep: "holds p x s'" if "x < n p" "x \<notin> bset dirty - {b}" "changed \<longrightarrow> x \<notin> set (next_of p b)" for x
    using t(4) c(4)[OF that(1)] that by blast
  show ?thesis
  proof (cases changed)
    case False
    with keep have "clean p (d, s')" using d c(2) t(2) by (auto simp: clean_def)
    moreover have "worklist_visit (next_of p) (transfer p) b (dirty, s) = Some (d, s')"
      using True d(1) t(1) False by (simp add: worklist_visit_def contains_bset)
    ultimately show ?thesis using t(3) d(3) False by simp
  next
    case ch: True
    from insert_all_bset[OF d(2) next_within[OF V assms(1)]] obtain d' where d':
      "fold_opt (\<lambda>i s. bs_insert s i) (next_of p b) d = Some d'" "sized (n p) d'"
      "bset d' = bset d \<union> set (next_of p b)" by blast
    have "clean p (d', s')"
      unfolding clean_def prod.case
    proof (intro conjI allI impI)
      show "bset d' \<subseteq> {..<n p}" using d'(3) d(3) c(2) next_within[OF V assms(1)] by blast
      show "holds p x s'" if "x < n p" "x \<notin> bset d'" for x
        using keep[OF that(1)] that(2) d'(3) d(3) by blast
    qed (use d'(2) t(2) in auto)
    moreover have "worklist_visit (next_of p) (transfer p) b (dirty, s) = Some (d', s')"
      using True d(1) t(1) ch d'(1) by (simp add: worklist_visit_def contains_bset)
    ultimately show ?thesis using t(3) ch by simp
  qed
qed

lemma pass_ok:
  assumes "set bs \<subseteq> {..<n p}" "clean p (dirty, s)" and V: "valid p"
  shows "\<exists>dirty' s'. fold_opt (worklist_visit (next_of p) (transfer p)) bs (dirty, s) = Some (dirty', s')
    \<and> clean p (dirty', s') \<and> (room p s' < room p s \<or> room p s' \<le> room p s \<and> bset dirty' = bset dirty - set bs)"
  using assms(1,2)
proof (induction bs arbitrary: dirty s)
  case (Cons b bs)
  then have b: "b < n p" "set bs \<subseteq> {..<n p}" by auto
  from visit_ok[OF b(1) Cons.prems(2) V] obtain d1 s1 where 1:
    "worklist_visit (next_of p) (transfer p) b (dirty, s) = Some (d1, s1)" "clean p (d1, s1)"
    "room p s1 < room p s \<or> room p s1 \<le> room p s \<and> bset d1 = bset dirty - {b}" by blast
  from Cons.IH[OF b(2) 1(2)] obtain d2 s2 where 2:
    "fold_opt (worklist_visit (next_of p) (transfer p)) bs (d1, s1) = Some (d2, s2)" "clean p (d2, s2)"
    "room p s2 < room p s1 \<or> room p s2 \<le> room p s1 \<and> bset d2 = bset d1 - set bs" by blast
  have "room p s2 < room p s \<or> room p s2 \<le> room p s \<and> bset d2 = bset dirty - set (b # bs)"
  proof (cases "room p s2 < room p s")
    case False
    then have "\<not> room p s1 < room p s" "\<not> (room p s2 < room p s1 \<and> room p s1 \<le> room p s)"
      using 2(3) by linarith+
    with 1(3) 2(3) have "room p s1 \<le> room p s" "bset d1 = bset dirty - {b}"
      "room p s2 \<le> room p s1" "bset d2 = bset d1 - set bs" by blast+
    then show ?thesis by (metis Diff_insert2 list.set(2) order_trans)
  qed simp
  with 2(2) show ?case by (simp only: fold_opt.simps 1(1) 2(1) Option.bind.bind_lunit) blast
qed simp

lemma rounds_ok:
  assumes "set order = {..<n p}" "clean p (dirty, s)" and V: "valid p" and "room p s + (if bset dirty = {} then 1 else 2) \<le> k"
  shows "\<exists>s'. worklist_rounds k (next_of p) order (transfer p) (dirty, s) = Some s' \<and> good p s' \<and> (\<forall>c < n p. holds p c s')"
  using assms(2,4)
proof (induction k arbitrary: dirty s)
  case 0
  then show ?case by (simp split: if_splits)
next
  case (Suc k)
  show ?case
  proof (cases "bset dirty = {}")
    case True
    with Suc.prems(1) show ?thesis by (simp add: is_empty_bset clean_def)
  next
    case False
    obtain d1 s1 where 1: "fold_opt (worklist_visit (next_of p) (transfer p)) order (dirty, s) = Some (d1, s1)"
      "clean p (d1, s1)" "room p s1 < room p s \<or> room p s1 \<le> room p s \<and> bset d1 = bset dirty - set order"
      using pass_ok[OF _ Suc.prems(1) V] assms(1) by blast
    have "bset dirty - set order = {}" using Suc.prems(1) assms(1) by (auto simp: clean_def)
    with 1(3) Suc.prems(2) False have "room p s1 + (if bset d1 = {} then 1 else 2) \<le> k" by auto
    from Suc.IH[OF 1(2) this] 1(1) False show ?thesis by (simp add: is_empty_bset)
  qed
qed

lemma worklist_solves:
  assumes "set order = {..<n p}" "good p s" and V: "valid p" and "room p s + 2 \<le> k"
  shows "\<exists>s'. run_worklist k (n p) (next_of p) order (transfer p) s = Some s' \<and> good p s' \<and> (\<forall>c < n p. holds p c s')"
proof -
  from insert_all_bset[OF sized_new, of order "n p"] assms(1) obtain d where d:
    "fold_opt (\<lambda>i s. bs_insert s i) order (bs_new (n p)) = Some d" "sized (n p) d" "bset d = set order"
    by (auto simp: bset_new)
  have "clean p (d, s)" using d assms(1,2) by (auto simp: clean_def)
  from rounds_ok[OF assms(1) this V, of k] assms(4) d(1) show ?thesis by (simp add: run_worklist_def)
qed

end

section \<open>Facts that arrive along a path\<close>

text \<open>
  A fact arrives at a block when it is there initially or leaves a predecessor; it leaves a block that
  makes it, or at which it arrives without being killed.
\<close>

record 'a gen_kill =
  gk_blocks :: nat
  gk_universe :: "'a set"
  gk_preds :: "block_id \<Rightarrow> block_id list"
  gk_init :: "block_id \<Rightarrow> 'a set"
  gk_gen :: "block_id \<Rightarrow> 'a set"
  gk_kill :: "block_id \<Rightarrow> 'a set"

inductive arrives and leaves for pr :: "'a gen_kill" where
  arrives_init: "x \<in> gk_init pr b \<Longrightarrow> arrives pr x b"
| arrives_edge: "leaves pr x p \<Longrightarrow> p \<in> set (gk_preds pr b) \<Longrightarrow> arrives pr x b"
| leaves_gen: "x \<in> gk_gen pr b \<Longrightarrow> leaves pr x b"
| leaves_through: "arrives pr x b \<Longrightarrow> x \<notin> gk_kill pr b \<Longrightarrow> leaves pr x b"

definition wf_gen_kill :: "'a gen_kill \<Rightarrow> bool" where
  "wf_gen_kill pr \<longleftrightarrow> finite (gk_universe pr) \<and> (\<forall>b < gk_blocks pr.
     set (gk_preds pr b) \<subseteq> {..<gk_blocks pr} \<and> gk_init pr b \<union> gk_gen pr b \<subseteq> gk_universe pr)"

lemma wf_gen_killD:
  assumes "wf_gen_kill pr"
  shows "finite (gk_universe pr)" "b < gk_blocks pr \<Longrightarrow> set (gk_preds pr b) \<subseteq> {..<gk_blocks pr}"
    "b < gk_blocks pr \<Longrightarrow> gk_init pr b \<union> gk_gen pr b \<subseteq> gk_universe pr"
  using assms unfolding wf_gen_kill_def by simp_all

text \<open>Only what happens at the blocks of the problem matters.\<close>

lemma gen_kill_sub:
  assumes "\<And>b. b < n \<Longrightarrow> gk_init pr b = gk_init qr b \<and> gk_gen pr b = gk_gen qr b \<and> gk_kill pr b = gk_kill qr b
      \<and> gk_preds pr b = gk_preds qr b \<and> set (gk_preds pr b) \<subseteq> {..<n}"
  shows "arrives pr x b \<Longrightarrow> b < n \<Longrightarrow> arrives qr x b" "leaves pr x b \<Longrightarrow> b < n \<Longrightarrow> leaves qr x b"
proof (induction rule: arrives_leaves.inducts)
  case (arrives_edge x p b)
  then have "p < n" "p \<in> set (gk_preds qr b)" using assms[of b] by auto
  with arrives_edge(2) show ?case by (blast intro: arrives_leaves.intros)
qed (use assms in \<open>auto intro: arrives_leaves.intros\<close>)

lemma gen_kill_cong:
  assumes "\<And>b. b < n \<Longrightarrow> gk_init pr b = gk_init qr b \<and> gk_gen pr b = gk_gen qr b \<and> gk_kill pr b = gk_kill qr b
      \<and> gk_preds pr b = gk_preds qr b \<and> set (gk_preds pr b) \<subseteq> {..<n}" and "b < n"
  shows "arrives pr x b = arrives qr x b" "leaves pr x b = leaves qr x b"
  using gen_kill_sub[of n pr qr] gen_kill_sub[of n qr pr] assms by (metis (no_types, lifting))+

lemma arrives_source:
  assumes "\<And>b. b < n \<Longrightarrow> set (gk_preds pr b) \<subseteq> {..<n}"
  shows "arrives pr x b \<Longrightarrow> b < n \<Longrightarrow> \<exists>c < n. x \<in> gk_init pr c \<union> gk_gen pr c"
    "leaves pr x b \<Longrightarrow> b < n \<Longrightarrow> \<exists>c < n. x \<in> gk_init pr c \<union> gk_gen pr c"
proof (induction rule: arrives_leaves.inducts)
  case (arrives_edge x p b)
  then show ?case using assms[of b] by blast
qed blast+

definition flow_in :: "'a gen_kill \<Rightarrow> (block_id \<Rightarrow> 'a set) \<Rightarrow> block_id \<Rightarrow> 'a set" where
  "flow_in pr out b = gk_init pr b \<union> (\<Union>p \<in> set (gk_preds pr b). out p)"

definition flow_out :: "'a gen_kill \<Rightarrow> block_id \<Rightarrow> 'a set \<Rightarrow> 'a set" where
  "flow_out pr b X = gk_gen pr b \<union> (X - gk_kill pr b)"

text \<open>A state below the solution whose rows can only grow.\<close>

definition rising :: "'a gen_kill \<Rightarrow> (block_id \<Rightarrow> 'a set) \<Rightarrow> (block_id \<Rightarrow> 'a set) \<Rightarrow> bool" where
  "rising pr inn out \<longleftrightarrow> wf_gen_kill pr \<and> (\<forall>b < gk_blocks pr. inn b \<subseteq> {x. arrives pr x b}
     \<and> out b \<subseteq> {x. leaves pr x b} \<and> out b \<subseteq> gk_universe pr \<and> out b \<subseteq> flow_out pr b (flow_in pr out b))"

definition solved :: "'a gen_kill \<Rightarrow> (block_id \<Rightarrow> 'a set) \<Rightarrow> (block_id \<Rightarrow> 'a set) \<Rightarrow> block_id \<Rightarrow> bool" where
  "solved pr inn out b \<longleftrightarrow> inn b = flow_in pr out b \<and> out b = flow_out pr b (inn b)"

definition missing :: "'a gen_kill \<Rightarrow> (block_id \<Rightarrow> 'a set) \<Rightarrow> nat" where
  "missing pr out = (\<Sum>b < gk_blocks pr. card (gk_universe pr - out b))"

text \<open>The state after the rows of block \<open>b\<close> have been recomputed.\<close>

definition recomputed ::
  "'a gen_kill \<Rightarrow> block_id \<Rightarrow> (block_id \<Rightarrow> 'a set) \<Rightarrow> (block_id \<Rightarrow> 'a set) \<Rightarrow> (block_id \<Rightarrow> 'a set) \<Rightarrow> (block_id \<Rightarrow> 'a set) \<Rightarrow> bool" where
  "recomputed pr b inn out inn' out' \<longleftrightarrow>
     inn' b = flow_in pr out b \<and> out' b = flow_out pr b (flow_in pr out b)
     \<and> (\<forall>c < gk_blocks pr. c \<noteq> b \<longrightarrow> inn' c = inn c \<and> out' c = out c)"

lemma flow_mono: "(\<And>p. p \<in> set (gk_preds pr b) \<Longrightarrow> out p \<subseteq> out' p) \<Longrightarrow> flow_out pr b (flow_in pr out b) \<subseteq> flow_out pr b (flow_in pr out' b)"
  unfolding flow_out_def flow_in_def by blast

lemma recompute_grows:
  assumes "rising pr inn out" "b < gk_blocks pr" "recomputed pr b inn out inn' out'" "c < gk_blocks pr"
  shows "out c \<subseteq> out' c"
  using assms by (cases "c = b") (auto simp: rising_def recomputed_def)

lemma recompute_rising:
  assumes "rising pr inn out" "b < gk_blocks pr" "recomputed pr b inn out inn' out'"
  shows "rising pr inn' out'"
proof -
  have wf: "wf_gen_kill pr" using assms(1) by (simp add: rising_def)
  have old: "inn c \<subseteq> {x. arrives pr x c}" "out c \<subseteq> {x. leaves pr x c}"
    "out c \<subseteq> gk_universe pr" "out c \<subseteq> flow_out pr c (flow_in pr out c)" if "c < gk_blocks pr" for c
    using assms(1) that by (auto simp: rising_def)
  have inb: "flow_in pr out b \<subseteq> {x. arrives pr x b}"
    using old(2) wf_gen_killD(2)[OF wf assms(2)] by (fastforce simp: flow_in_def intro: arrives_init arrives_edge)
  have outb: "flow_out pr b (flow_in pr out b) \<subseteq> {x. leaves pr x b}"
    using inb by (auto simp: flow_out_def intro: leaves_gen leaves_through)
  have univ: "flow_out pr b (flow_in pr out b) \<subseteq> gk_universe pr"
  proof -
    have "out p \<subseteq> gk_universe pr" if "p \<in> set (gk_preds pr b)" for p
      using old(3)[of p] wf_gen_killD(2)[OF wf assms(2)] that by blast
    then show ?thesis using wf_gen_killD(3)[OF wf assms(2)] unfolding flow_out_def flow_in_def by blast
  qed
  have grow: "flow_out pr c (flow_in pr out c) \<subseteq> flow_out pr c (flow_in pr out' c)" if "c < gk_blocks pr" for c
    using recompute_grows[OF assms] wf_gen_killD(2)[OF wf that] by (intro flow_mono) auto
  show ?thesis
    unfolding rising_def
  proof (intro conjI[OF wf] allI impI)
    fix c assume c: "c < gk_blocks pr"
    show "inn' c \<subseteq> {x. arrives pr x c} \<and> out' c \<subseteq> {x. leaves pr x c}
      \<and> out' c \<subseteq> gk_universe pr \<and> out' c \<subseteq> flow_out pr c (flow_in pr out' c)"
      using assms(3) inb outb univ grow[OF c] old[OF c] c by (cases "c = b") (auto simp: recomputed_def)
  qed
qed

lemma recompute_solved:
  assumes "b < gk_blocks pr" "recomputed pr b inn out inn' out'" "c < gk_blocks pr" "c = b \<or> solved pr inn out c"
    and wf: "wf_gen_kill pr" and "out' b \<noteq> out b \<Longrightarrow> b \<notin> set (gk_preds pr c)"
  shows "solved pr inn' out' c"
proof -
  have "out' p = out p" if "p \<in> set (gk_preds pr c)" for p
    using assms(2,6) wf_gen_killD(2)[OF wf assms(3)] that by (cases "p = b") (auto simp: recomputed_def)
  then have "flow_in pr out' c = flow_in pr out c" unfolding flow_in_def by simp
  with assms show ?thesis by (cases "c = b") (auto simp: recomputed_def solved_def)
qed

lemma recompute_missing:
  assumes "rising pr inn out" "b < gk_blocks pr" "recomputed pr b inn out inn' out'"
  shows "if out' b \<noteq> out b then missing pr out' < missing pr out else missing pr out' = missing pr out"
proof (cases "out' b = out b")
  case True
  with assms(3) have "out' c = out c" if "c < gk_blocks pr" for c
    using that by (cases "c = b") (auto simp: recomputed_def)
  then show ?thesis using True by (simp add: missing_def)
next
  case False
  have wf: "wf_gen_kill pr" using assms(1) by (simp add: rising_def)
  have "out b \<subset> out' b" using recompute_grows[OF assms assms(2)] False by blast
  moreover have "out' b \<subseteq> gk_universe pr" using recompute_rising[OF assms] assms(2) by (auto simp: rising_def)
  ultimately have less: "card (gk_universe pr - out' b) < card (gk_universe pr - out b)"
    using wf_gen_killD(1)[OF wf] by (intro psubset_card_mono) auto
  have "missing pr out' < missing pr out"
    unfolding missing_def
    using assms(2) less recompute_grows[OF assms] wf_gen_killD(1)[OF wf]
    by (intro sum_strict_mono_ex1) (auto intro!: card_mono)
  with False show ?thesis by simp
qed

lemma solution_paths:
  assumes "rising pr inn out" "\<And>c. c < gk_blocks pr \<Longrightarrow> solved pr inn out c" "b < gk_blocks pr"
  shows "inn b = {x. arrives pr x b}" "out b = {x. leaves pr x b}"
proof -
  have wf: "wf_gen_kill pr" using assms(1) by (simp add: rising_def)
  have eqs: "inn c = flow_in pr out c" "out c = flow_out pr c (inn c)" if "c < gk_blocks pr" for c
    using assms(2)[OF that] by (simp_all add: solved_def)
  have "arrives pr x b \<Longrightarrow> b < gk_blocks pr \<Longrightarrow> x \<in> inn b"
    and "leaves pr x b \<Longrightarrow> b < gk_blocks pr \<Longrightarrow> x \<in> out b" for x b
  proof (induction rule: arrives_leaves.inducts)
    case (arrives_edge x p b)
    then show ?case using eqs(1)[of b] wf_gen_killD(2)[OF wf, of b] by (auto simp: flow_in_def)
  qed (use eqs in \<open>auto simp: flow_in_def flow_out_def\<close>)
  with assms(1,3) show "inn b = {x. arrives pr x b}" "out b = {x. leaves pr x b}"
    unfolding rising_def by blast+
qed

lemma missing_bound:
  assumes wf: "wf_gen_kill pr"
  shows "missing pr out \<le> gk_blocks pr * card (gk_universe pr)"
proof -
  have "missing pr out \<le> (\<Sum>b < gk_blocks pr. card (gk_universe pr))"
    unfolding missing_def using wf_gen_killD(1)[OF wf] by (intro sum_mono card_mono) auto
  then show ?thesis by simp
qed

end
