(* ===== verification/Dataflow_Index.thy ===== *)
theory Dataflow_Index
  imports Bindings Dataflow_Solver
begin

text \<open>
  Model of the index structures of \<open>crates/shucked-semantic/src/dataflow/dense.rs\<close> and
  \<open>dataflow/exact.rs\<close>: the table that numbers names, the sets of bindings by name with the next
  overwrite of each binding, and the blocks of bindings, references and unreachable code.  The hash map
  of the table is the association list of its entries in the order of their insertion.
\<close>

section \<open>Names as numbers\<close>

record name_table =
  nt_ids_by_name :: "(string \<times> nat) list"

definition nt_empty :: name_table where
  "nt_empty = \<lparr>nt_ids_by_name = []\<rparr>"

definition nt_get :: "name_table \<Rightarrow> string \<Rightarrow> nat option" where
  "nt_get names name = map_of (nt_ids_by_name names) name"

definition nt_len :: "name_table \<Rightarrow> nat" where
  "nt_len names = length (nt_ids_by_name names)"

definition nt_intern :: "name_table \<Rightarrow> string \<Rightarrow> nat \<times> name_table" where
  "nt_intern names name =
     (case nt_get names name of
        Some n \<Rightarrow> (n, names)
      | None \<Rightarrow> (nt_len names, \<lparr>nt_ids_by_name = nt_ids_by_name names @ [(name, nt_len names)]\<rparr>))"

fun intern_all :: "string list \<Rightarrow> name_table \<Rightarrow> nat list \<times> name_table" where
  "intern_all [] names = ([], names)"
| "intern_all (x # xs) names =
     (let (n, names) = nt_intern names x; (ns, names) = intern_all xs names in (n # ns, names))"

definition build_name_table ::
  "binding list \<Rightarrow> reference list \<Rightarrow> synthetic_read list \<Rightarrow> name_table \<times> nat list \<times> nat list" where
  "build_name_table bindings references synthetic_reads =
     (let (_, names) = intern_all (map b_name bindings) nt_empty;
          (reference_name_ids, names) = intern_all (map ref_name references) names;
          (synthetic_read_name_ids, names) = intern_all (map sr_name synthetic_reads) names
      in (names, reference_name_ids, synthetic_read_name_ids))"

section \<open>Bindings by name\<close>

record dense_binding_data =
  dbd_binding_name_ids :: "nat list"
  dbd_bindings_for_name :: "dense_bit_set list"
  dbd_next_overwrite :: "binding_id option list"

text \<open>One round of the loop over the bindings, on the vectors it fills; \<open>None\<close> is a panic.\<close>

definition enter_binding ::
  "name_table \<Rightarrow> binding \<Rightarrow> nat list \<times> dense_bit_set list \<times> binding_id list list
    \<Rightarrow> (nat list \<times> dense_bit_set list \<times> binding_id list list) option" where
  "enter_binding names b = (\<lambda>(ids, sets, groups). do {
     name \<leftarrow> nt_get names (b_name b);
     row \<leftarrow> nth_opt sets name;
     row \<leftarrow> bs_insert row (b_id b);
     sets \<leftarrow> update_opt sets name row;
     ids_of_name \<leftarrow> nth_opt groups name;
     groups \<leftarrow> update_opt groups name (ids_of_name @ [b_id b]);
     Some (ids @ [name], sets, groups) })"

definition windows2 :: "'a list \<Rightarrow> ('a \<times> 'a) list" where
  "windows2 xs = zip xs (tl xs)"

definition link_group :: "binding_id list \<Rightarrow> binding_id option list \<Rightarrow> binding_id option list option" where
  "link_group ids nxt = fold_opt (\<lambda>(a, b) nxt. update_opt nxt a (Some b)) (windows2 ids) nxt"

definition build_dense_binding_data :: "binding list \<Rightarrow> name_table \<Rightarrow> dense_binding_data option" where
  "build_dense_binding_data bindings names = do {
     (ids, sets, groups) \<leftarrow> fold_opt (enter_binding names) bindings
       ([], replicate (nt_len names) (bs_new (length bindings)), replicate (nt_len names) []);
     nxt \<leftarrow> fold_opt link_group groups (replicate (length bindings) None);
     Some \<lparr>dbd_binding_name_ids = ids, dbd_bindings_for_name = sets, dbd_next_overwrite = nxt\<rparr> }"

section \<open>Blocks of bindings, references and unreachable code\<close>

definition note_block :: "block_id \<Rightarrow> nat \<Rightarrow> block_id option list \<Rightarrow> block_id option list option" where
  "note_block block i blocks = update_opt blocks i (Some block)"

definition build_binding_block_index :: "control_flow_graph \<Rightarrow> nat \<Rightarrow> block_id option list option" where
  "build_binding_block_index cfg binding_count =
     fold_opt (\<lambda>block. fold_opt (note_block (bb_id block)) (bb_bindings block))
       (cfg_blocks cfg) (replicate binding_count None)"

definition build_reference_block_index :: "control_flow_graph \<Rightarrow> nat \<Rightarrow> block_id option list option" where
  "build_reference_block_index cfg reference_count =
     fold_opt (\<lambda>block. fold_opt (note_block (bb_id block)) (bb_references block))
       (cfg_blocks cfg) (replicate reference_count None)"

definition build_unreachable_block_set :: "control_flow_graph \<Rightarrow> dense_bit_set option" where
  "build_unreachable_block_set cfg =
     fold_opt (\<lambda>b s. bs_insert s b) (cfg_unreachable cfg) (bs_new (length (cfg_blocks cfg)))"

definition command_block_for_span :: "control_flow_graph \<Rightarrow> span \<Rightarrow> block_id option" where
  "command_block_for_span cfg s =
     (case block_ids_for_span cfg s of [] \<Rightarrow> None | ids \<Rightarrow> Some (last ids))"

section \<open>The table numbers names consecutively\<close>

definition names_ok :: "name_table \<Rightarrow> bool" where
  "names_ok names \<longleftrightarrow> distinct (map fst (nt_ids_by_name names))
     \<and> map snd (nt_ids_by_name names) = [0..<nt_len names]"

definition names_extend :: "name_table \<Rightarrow> name_table \<Rightarrow> bool" where
  "names_extend names names' \<longleftrightarrow> names_ok names' \<and> nt_len names \<le> nt_len names'
     \<and> (\<forall>x n. nt_get names x = Some n \<longrightarrow> nt_get names' x = Some n)"

lemma names_extend_refl: "names_ok names \<Longrightarrow> names_extend names names"
  by (simp add: names_extend_def)

lemma names_extend_trans: "names_extend a b \<Longrightarrow> names_extend b c \<Longrightarrow> names_extend a c"
  by (auto simp: names_extend_def)

lemma names_ok_empty: "names_ok nt_empty" "nt_len nt_empty = 0"
  by (simp_all add: names_ok_def nt_empty_def nt_len_def)

lemma nt_get_bound: "names_ok names \<Longrightarrow> nt_get names x = Some n \<Longrightarrow> n < nt_len names"
  unfolding names_ok_def nt_get_def
  by (metis atLeastLessThan_iff image_eqI list.set_map map_of_SomeD set_upt snd_conv)

lemma nt_get_inj:
  assumes "names_ok names" "nt_get names x = Some n" "nt_get names y = Some n"
  shows "x = y"
proof -
  let ?es = "nt_ids_by_name names"
  have in_set: "(x, n) \<in> set ?es" "(y, n) \<in> set ?es"
    using assms(2,3) by (auto simp: nt_get_def dest: map_of_SomeD)
  have "distinct (map snd ?es)" using assms(1) by (simp add: names_ok_def)
  with in_set show ?thesis by (metis Pair_inject distinct_map inj_onD snd_conv)
qed

lemma nt_intern_ok:
  assumes "names_ok names"
  shows "case nt_intern names x of (n, names') \<Rightarrow> names_extend names names' \<and> nt_get names' x = Some n"
proof (cases "nt_get names x")
  case None
  then have fresh: "x \<notin> fst ` set (nt_ids_by_name names)"
    by (simp add: nt_get_def map_of_eq_None_iff)
  have "map_of (nt_ids_by_name names @ [(x, nt_len names)]) y =
      ((map_of (nt_ids_by_name names))(x \<mapsto> nt_len names)) y" for y
    using None by (cases "y = x") (simp_all add: nt_get_def map_add_def split: option.split)
  with None fresh assms show ?thesis
    by (auto simp: nt_intern_def names_ok_def names_extend_def nt_len_def nt_get_def simp del: map_of_append)
qed (simp add: nt_intern_def names_extend_refl assms)

lemma intern_all_ok:
  "names_ok names \<Longrightarrow> case intern_all xs names of (ns, names') \<Rightarrow>
     names_extend names names' \<and> length ns = length xs \<and> (\<forall>i < length xs. nt_get names' (xs ! i) = Some (ns ! i))"
proof (induction xs arbitrary: names)
  case (Cons x xs)
  obtain n names1 where 1: "nt_intern names x = (n, names1)" by (cases "nt_intern names x")
  with nt_intern_ok[OF Cons.prems, of x] have ext: "names_extend names names1" "nt_get names1 x = Some n" by auto
  obtain ns names2 where 2: "intern_all xs names1 = (ns, names2)" by (cases "intern_all xs names1")
  with Cons.IH[of names1] ext(1) have "names_extend names1 names2" "length ns = length xs"
    "\<forall>i < length xs. nt_get names2 (xs ! i) = Some (ns ! i)" by (auto simp: names_extend_def)
  moreover from this have "nt_get names2 x = Some n" using ext(2) by (auto simp: names_extend_def)
  ultimately show ?case
    using 1 2 names_extend_trans[OF ext(1)] by (auto simp: nth_Cons' less_Suc_eq_0_disj)
qed (simp add: names_extend_refl)

lemma build_name_table_ok:
  assumes "build_name_table bindings references reads = (names, rids, sids)"
  shows "names_ok names" "\<forall>b \<in> set bindings. nt_get names (b_name b) \<noteq> None"
    "length rids = length references"
    "\<forall>i < length references. nt_get names (ref_name (references ! i)) = Some (rids ! i)"
    "length sids = length reads" "\<forall>i < length reads. nt_get names (sr_name (reads ! i)) = Some (sids ! i)"
proof -
  obtain bids n1 where 1: "intern_all (map b_name bindings) nt_empty = (bids, n1)"
    by (cases "intern_all (map b_name bindings) nt_empty")
  obtain rs n2 where 2: "intern_all (map ref_name references) n1 = (rs, n2)"
    by (cases "intern_all (map ref_name references) n1")
  obtain ss n3 where 3: "intern_all (map sr_name reads) n2 = (ss, n3)"
    by (cases "intern_all (map sr_name reads) n2")
  have eq: "names = n3" "rids = rs" "sids = ss"
    using assms by (simp_all add: build_name_table_def 1 2 3)
  note k1 = intern_all_ok[OF names_ok_empty(1), of "map b_name bindings", unfolded 1 prod.case]
  then have "names_ok n1" by (simp add: names_extend_def)
  note k2 = intern_all_ok[OF this, of "map ref_name references", unfolded 2 prod.case]
  then have "names_ok n2" by (simp add: names_extend_def)
  note k3 = intern_all_ok[OF this, of "map sr_name reads", unfolded 3 prod.case]
  have e23: "names_extend n2 n3" and e13: "names_extend n1 n3"
    using k2 k3 names_extend_trans by blast+
  show "names_ok names" using e13 eq by (simp add: names_extend_def)
  show "\<forall>b \<in> set bindings. nt_get names (b_name b) \<noteq> None"
    using k1 e13 eq by (fastforce simp: names_extend_def in_set_conv_nth)
  show "length rids = length references" "length sids = length reads" using k2 k3 eq by simp_all
  show "\<forall>i < length references. nt_get names (ref_name (references ! i)) = Some (rids ! i)"
    using k2 e23 eq by (simp add: names_extend_def)
  show "\<forall>i < length reads. nt_get names (sr_name (reads ! i)) = Some (sids ! i)"
    using k3 eq by simp
qed

section \<open>The binding data\<close>

text \<open>The bindings of a model are numbered by their position.\<close>

definition bindings_indexed :: "binding list \<Rightarrow> bool" where
  "bindings_indexed bindings \<longleftrightarrow> map b_id bindings = [0..<length bindings]"

abbreviation name_ids :: "name_table \<Rightarrow> binding list \<Rightarrow> nat list" where
  "name_ids names bindings \<equiv> map (\<lambda>b. the (nt_get names (b_name b))) bindings"

definition binding_data_ok :: "name_table \<Rightarrow> binding list \<Rightarrow> dense_binding_data \<Rightarrow> bool" where
  "binding_data_ok names bindings data \<longleftrightarrow>
     (\<forall>b \<in> set bindings. nt_get names (b_name b) \<noteq> None)
     \<and> dbd_binding_name_ids data = name_ids names bindings
     \<and> length (dbd_bindings_for_name data) = nt_len names
     \<and> (\<forall>j < nt_len names. sized (length bindings) (dbd_bindings_for_name data ! j)
          \<and> bset (dbd_bindings_for_name data ! j) = {i. i < length bindings \<and> name_ids names bindings ! i = j})"

lemma same_name:
  assumes "names_ok names" "\<forall>b \<in> set bindings. nt_get names (b_name b) \<noteq> None"
    and lt: "i < length bindings" "j < length bindings"
  shows "name_ids names bindings ! i = name_ids names bindings ! j \<longleftrightarrow> b_name (bindings ! i) = b_name (bindings ! j)"
proof -
  obtain x y where xy: "nt_get names (b_name (bindings ! i)) = Some x" "nt_get names (b_name (bindings ! j)) = Some y"
    using assms(2)[rule_format, OF nth_mem[OF lt(1)]] assms(2)[rule_format, OF nth_mem[OF lt(2)]] by fast
  then have "name_ids names bindings ! i = x" "name_ids names bindings ! j = y" using lt by simp_all
  with xy nt_get_inj[OF assms(1) xy(1)] show ?thesis by (metis option.inject)
qed

lemma name_id_bound:
  assumes "names_ok names" "\<forall>b \<in> set bindings. nt_get names (b_name b) \<noteq> None" "i < length bindings"
  shows "name_ids names bindings ! i < nt_len names"
  using nt_get_bound[OF assms(1)] assms(2,3) by (auto dest!: nth_mem)

lemma enter_bindings_ok:
  assumes "names_ok names" "\<forall>b \<in> set bs. nt_get names (b_name b) \<noteq> None" "map b_id bs = [k..<k + length bs]"
    "k + length bs \<le> m" "length sets = nt_len names" "length groups = nt_len names"
    "\<forall>row \<in> set sets. sized m row"
  shows "\<exists>ids' sets' groups'. fold_opt (enter_binding names) bs (ids, sets, groups) = Some (ids', sets', groups')
    \<and> ids' = ids @ name_ids names bs \<and> length sets' = nt_len names \<and> length groups' = nt_len names
    \<and> (\<forall>row \<in> set sets'. sized m row)
    \<and> (\<forall>j < nt_len names.
         bset (sets' ! j) = bset (sets ! j) \<union> {k + i | i. i < length bs \<and> name_ids names bs ! i = j}
         \<and> groups' ! j = groups ! j @ map ((+) k) (filter (\<lambda>i. name_ids names bs ! i = j) [0..<length bs]))"
  using assms(2-)
proof (induction bs arbitrary: k ids sets groups)
  case (Cons b bs)
  obtain n where n: "nt_get names (b_name b) = Some n" using Cons.prems(1) by auto
  have nl: "n < nt_len names" using nt_get_bound[OF assms(1) n] .
  have id: "b_id b = k" "map b_id bs = [Suc k..<Suc k + length bs]"
    using Cons.prems(2) by (simp_all add: upt_conv_Cons del: upt_Suc)
  obtain row where row: "bs_insert (sets ! n) k = Some row" "sized m row" "bset row = insert k (bset (sets ! n))"
    using insert_bset[of m "sets ! n" k] Cons.prems(3,4,6) nl by auto
  let ?sets = "sets[n := row]" and ?groups = "groups[n := groups ! n @ [k]]"
  have step: "enter_binding names b (ids, sets, groups) = Some (ids @ [n], ?sets, ?groups)"
    using n nl row(1) id(1) Cons.prems(4,5) by (simp add: enter_binding_def panic_simps)
  have "\<forall>r \<in> set ?sets. sized m r" using Cons.prems(6) row(2) set_update_subset_insert by fastforce
  with Cons.IH[OF _ id(2), of ?sets ?groups "ids @ [n]"] Cons.prems(1,3,4,5) obtain ids' sets' groups' where IH:
    "fold_opt (enter_binding names) bs (ids @ [n], ?sets, ?groups) = Some (ids', sets', groups')"
    "ids' = (ids @ [n]) @ name_ids names bs" "length sets' = nt_len names" "length groups' = nt_len names"
    "\<forall>row \<in> set sets'. sized m row"
    "\<forall>j < nt_len names. bset (sets' ! j) = bset (?sets ! j) \<union> {Suc k + i | i. i < length bs \<and> name_ids names bs ! i = j}
       \<and> groups' ! j = ?groups ! j @ map ((+) (Suc k)) (filter (\<lambda>i. name_ids names bs ! i = j) [0..<length bs])"
    by auto
  have shift: "{k + i | i. i < length (b # bs) \<and> name_ids names (b # bs) ! i = j} =
      (if j = n then {k} else {}) \<union> {Suc k + i | i. i < length bs \<and> name_ids names bs ! i = j}" for j
    using n by (auto simp: less_Suc_eq_0_disj)
  have upt: "[0..<length (b # bs)] = 0 # map Suc [0..<length bs]"
    by (simp add: upt_conv_Cons map_Suc_upt del: upt_Suc)
  have groups: "map ((+) k) (filter (\<lambda>i. name_ids names (b # bs) ! i = j) [0..<length (b # bs)]) =
      (if j = n then [k] else []) @ map ((+) (Suc k)) (filter (\<lambda>i. name_ids names bs ! i = j) [0..<length bs])" for j
    unfolding upt by (simp add: n filter_map o_def)
  have new: "bset (?sets ! j) = bset (sets ! j) \<union> (if j = n then {k} else {})"
    "?groups ! j = groups ! j @ (if j = n then [k] else [])" if "j < nt_len names" for j
    using that row(3) Cons.prems(4,5) by (simp_all add: nth_list_update)
  have "bset (sets' ! j) = bset (sets ! j) \<union> ((if j = n then {k} else {})
        \<union> {Suc k + i | i. i < length bs \<and> name_ids names bs ! i = j})
      \<and> groups' ! j = groups ! j @ ((if j = n then [k] else [])
        @ map ((+) (Suc k)) (filter (\<lambda>i. name_ids names bs ! i = j) [0..<length bs]))"
    if "j < nt_len names" for j
    using IH(6)[rule_format, OF that] unfolding new[OF that] by (simp only: Un_assoc append_assoc)
  moreover have "ids' = ids @ name_ids names (b # bs)" using IH(2) n by simp
  ultimately show ?case
    unfolding fold_opt.simps step Option.bind_lunit shift groups using IH(1,3,4,5) by blast
qed auto

lemma windows2_sorted:
  "sorted_wrt (<) xs \<Longrightarrow> (a, b) \<in> set (windows2 xs) \<longleftrightarrow>
     a \<in> set xs \<and> b \<in> set xs \<and> a < (b :: nat) \<and> (\<forall>c \<in> set xs. \<not> (a < c \<and> c < b))"
proof (induction xs)
  case (Cons x xs)
  show ?case
  proof (cases xs)
    case (Cons y ys)
    have w: "set (windows2 (x # xs)) = insert (x, y) (set (windows2 xs))"
      by (simp add: windows2_def Cons)
    have x: "x < c" if "c \<in> set xs" for c using Cons.prems that by simp
    have y: "y \<in> set xs" "\<And>c. c \<in> set xs \<Longrightarrow> y \<le> c" using Cons.prems Cons by auto
    have IH: "(a, b) \<in> set (windows2 xs) \<longleftrightarrow> a \<in> set xs \<and> b \<in> set xs \<and> a < b
      \<and> (\<forall>c \<in> set xs. \<not> (a < c \<and> c < b))" using Cons.IH Cons.prems by simp
    show ?thesis
    proof (cases "a = x")
      case True
      then have "(a, b) \<in> set (windows2 (x # xs)) \<longleftrightarrow> b = y" using w IH x by auto
      also have "\<dots> \<longleftrightarrow> b \<in> set xs \<and> (\<forall>c \<in> set xs. \<not> c < b)"
        using y by (metis le_less_trans less_irrefl nat_less_le)
      finally show ?thesis using True x by auto
    next
      case False
      then show ?thesis using w IH x by (metis less_asym' list.set_intros(2) insert_iff list.simps(15) prod.inject)
    qed
  qed (simp add: windows2_def)
qed (simp add: windows2_def)

lemma link_all_ok:
  assumes "\<forall>(a, b) \<in> set ps. a < length v"
  shows "\<exists>v'. fold_opt (\<lambda>(a, b) v. update_opt v a (Some b)) ps v = Some v' \<and> length v' = length v
    \<and> (\<forall>a b. a < length v \<longrightarrow> v' ! a = Some b \<longrightarrow> (a, b) \<in> set ps \<or> v ! a = Some b)
    \<and> (\<forall>(a, b) \<in> set ps. v' ! a \<noteq> None) \<and> (\<forall>a < length v. v ! a \<noteq> None \<longrightarrow> v' ! a \<noteq> None)"
  using assms
proof (induction ps arbitrary: v)
  case (Cons p ps)
  obtain a b where p: "p = (a, b)" by (cases p)
  have a: "a < length v" using Cons.prems p by simp
  with Cons.IH[of "v[a := Some b]"] Cons.prems obtain v' where v':
    "fold_opt (\<lambda>(a, b) v. update_opt v a (Some b)) ps (v[a := Some b]) = Some v'" "length v' = length v"
    "\<forall>c d. c < length v \<longrightarrow> v' ! c = Some d \<longrightarrow> (c, d) \<in> set ps \<or> v[a := Some b] ! c = Some d"
    "\<forall>(c, d) \<in> set ps. v' ! c \<noteq> None" "\<forall>c < length v. v[a := Some b] ! c \<noteq> None \<longrightarrow> v' ! c \<noteq> None"
    by auto
  have "v' ! a \<noteq> None" using v'(5) a by simp
  with v' a show ?case
    unfolding p by (fastforce simp: panic_simps nth_list_update split: if_splits)
qed simp

lemma fold_opt_concat:
  "fold_opt (\<lambda>xs. fold_opt f (g xs)) xss s = fold_opt f (concat (map g xss)) s"
proof (induction xss arbitrary: s)
  case (Cons xs xss)
  then have "fold_opt (\<lambda>xs. fold_opt f (g xs)) xss = fold_opt f (concat (map g xss))" by blast
  then show ?case by (simp add: fold_opt_append)
qed simp

lemma map_add0: "map ((+) (0 :: nat)) xs = xs"
  by (simp add: map_idI)

lemma build_dense_binding_data_ok:
  assumes "names_ok names" "\<forall>b \<in> set bindings. nt_get names (b_name b) \<noteq> None" "bindings_indexed bindings"
  shows "\<exists>data. build_dense_binding_data bindings names = Some data \<and> binding_data_ok names bindings data
    \<and> length (dbd_next_overwrite data) = length bindings
    \<and> (\<forall>a b. a < length bindings \<longrightarrow> dbd_next_overwrite data ! a = Some b \<longleftrightarrow>
         a < b \<and> b < length bindings \<and> name_ids names bindings ! a = name_ids names bindings ! b
         \<and> (\<forall>c. a < c \<and> c < b \<longrightarrow> name_ids names bindings ! c \<noteq> name_ids names bindings ! a))"
proof -
  let ?m = "length bindings" and ?ids = "name_ids names bindings"
  let ?group = "\<lambda>j. filter (\<lambda>i. ?ids ! i = j) [0..<?m]"
  obtain sets groups where run: "fold_opt (enter_binding names) bindings
      ([], replicate (nt_len names) (bs_new ?m), replicate (nt_len names) []) = Some (?ids, sets, groups)"
    and len: "length sets = nt_len names" "length groups = nt_len names"
    and sets: "\<forall>row \<in> set sets. sized ?m row" "\<forall>j < nt_len names. bset (sets ! j) = {i. i < ?m \<and> ?ids ! i = j}
      \<and> groups ! j = ?group j"
    using enter_bindings_ok[OF assms(1,2), of 0 ?m "replicate (nt_len names) (bs_new ?m)"
      "replicate (nt_len names) []" "[]"] assms(3)
    by (auto simp: bindings_indexed_def bset_new map_add0)
  have groups: "groups = map ?group [0..<nt_len names]"
    using len(2) sets(2) by (intro nth_equalityI) auto
  let ?pairs = "concat (map windows2 groups)"
  have ids: "?ids ! i < nt_len names" if "i < ?m" for i
    by (rule name_id_bound[OF assms(1,2) that])
  have win: "(a, b) \<in> set ?pairs \<longleftrightarrow> a < b \<and> b < ?m \<and> ?ids ! a = ?ids ! b
      \<and> (\<forall>c. a < c \<and> c < b \<longrightarrow> ?ids ! c \<noteq> ?ids ! a)" for a b
  proof -
    have "sorted_wrt (<) (?group j)" for j by (simp add: sorted_wrt_filter)
    from windows2_sorted[OF this] have "(a, b) \<in> set ?pairs \<longleftrightarrow> (\<exists>j < nt_len names.
        a < ?m \<and> ?ids ! a = j \<and> b < ?m \<and> ?ids ! b = j \<and> a < b
        \<and> (\<forall>c. c < ?m \<and> ?ids ! c = j \<longrightarrow> \<not> (a < c \<and> c < b)))"
      unfolding groups by (simp del: nth_map) blast
    also have "\<dots> \<longleftrightarrow> a < b \<and> b < ?m \<and> ?ids ! a = ?ids ! b
      \<and> (\<forall>c. a < c \<and> c < b \<longrightarrow> ?ids ! c \<noteq> ?ids ! a)"
      using ids[of a] by (auto dest: less_trans)
    finally show ?thesis .
  qed
  have "\<forall>(a, b) \<in> set ?pairs. a < length (replicate ?m None)"
    using win by (auto simp del: set_concat)
  from link_all_ok[OF this] obtain nxt where nxt_ok:
    "fold_opt (\<lambda>(a, b) v. update_opt v a (Some b)) ?pairs (replicate ?m None) = Some nxt" "length nxt = ?m"
    "\<forall>a b. a < ?m \<longrightarrow> nxt ! a = Some b \<longrightarrow> (a, b) \<in> set ?pairs" "\<forall>(a, b) \<in> set ?pairs. nxt ! a \<noteq> None"
    by (auto simp del: set_concat)
  let ?data = "\<lparr>dbd_binding_name_ids = ?ids, dbd_bindings_for_name = sets, dbd_next_overwrite = nxt\<rparr>"
  have "nxt ! a = Some b \<longleftrightarrow> (a, b) \<in> set ?pairs" if "a < ?m" for a b
  proof
    assume ab: "(a, b) \<in> set ?pairs"
    then obtain c where c: "nxt ! a = Some c" using nxt_ok(4) by fastforce
    with nxt_ok(3) that have "(a, c) \<in> set ?pairs" by blast
    with ab have "c = b" unfolding win by (metis linorder_neqE_nat)
    with c show "nxt ! a = Some b" by simp
  qed (use nxt_ok(3) that in blast)
  moreover have "fold_opt link_group groups (replicate ?m None) = Some nxt"
    using nxt_ok(1) unfolding link_group_def[abs_def] by (simp only: fold_opt_concat)
  ultimately have "build_dense_binding_data bindings names = Some ?data"
    and "\<forall>a b. a < ?m \<longrightarrow> dbd_next_overwrite ?data ! a = Some b \<longleftrightarrow>
         a < b \<and> b < ?m \<and> ?ids ! a = ?ids ! b \<and> (\<forall>c. a < c \<and> c < b \<longrightarrow> ?ids ! c \<noteq> ?ids ! a)"
    unfolding build_dense_binding_data_def run
    by (simp, simp only: dense_binding_data.select_convs win, blast)
  moreover have "binding_data_ok names bindings ?data"
    unfolding binding_data_ok_def dense_binding_data.select_convs
  proof (intro conjI allI impI)
    fix j assume j: "j < nt_len names"
    show "sized ?m (sets ! j)" by (rule bspec[OF sets(1)]) (simp add: len(1) j)
    show "bset (sets ! j) = {i. i < ?m \<and> ?ids ! i = j}" by (rule sets(2)[rule_format, OF j, THEN conjunct1])
  qed (rule assms(2), rule refl, rule len(1))
  moreover have "length (dbd_next_overwrite ?data) = ?m" using nxt_ok(2) by simp
  ultimately show ?thesis by blast
qed

lemma binding_row:
  assumes "names_ok names" "binding_data_ok names bindings data" "i < length bindings"
  shows "\<exists>name row. nth_opt (dbd_binding_name_ids data) i = Some name \<and> name < nt_len names
    \<and> nth_opt (dbd_bindings_for_name data) name = Some row \<and> sized (length bindings) row
    \<and> bset row = {j. j < length bindings \<and> b_name (bindings ! j) = b_name (bindings ! i)}
    \<and> nt_get names (b_name (bindings ! i)) = Some name"
proof -
  note d = assms(2)[unfolded binding_data_ok_def]
  have known: "\<forall>b \<in> set bindings. nt_get names (b_name b) \<noteq> None" using d by blast
  let ?name = "name_ids names bindings ! i"
  have n: "?name < nt_len names" by (rule name_id_bound[OF assms(1) known assms(3)])
  have "nt_get names (b_name (bindings ! i)) = Some ?name"
    using known[rule_format, OF nth_mem[OF assms(3)]] assms(3) by auto
  moreover have "{j. j < length bindings \<and> name_ids names bindings ! j = ?name} =
      {j. j < length bindings \<and> b_name (bindings ! j) = b_name (bindings ! i)}"
    using same_name[OF assms(1) known _ assms(3)] by (intro Collect_cong conj_cong refl)
  ultimately show ?thesis using d n assms(3) by (simp del: nth_map)
qed

section \<open>The block indexes\<close>

definition block_with :: "(basic_block \<Rightarrow> nat list) \<Rightarrow> control_flow_graph \<Rightarrow> nat \<Rightarrow> block_id option" where
  "block_with items cfg i = map_option bb_id (List.find (\<lambda>b. i \<in> set (items b)) (rev (cfg_blocks cfg)))"

lemma note_all:
  "set is \<subseteq> {..<length v} \<Longrightarrow> fold_opt (note_block b) is v =
     Some (map (\<lambda>i. if i \<in> set is then Some b else v ! i) [0..<length v])"
proof (induction "is" arbitrary: v)
  case Nil
  then show ?case by (simp add: map_nth)
next
  case (Cons i "is")
  then show ?case by (auto simp: note_block_def panic_simps nth_list_update intro!: map_cong)
qed

lemma block_index_ok:
  assumes "\<forall>b \<in> set blocks. set (items b) \<subseteq> {..<m}" "length v = m"
  shows "fold_opt (\<lambda>b. fold_opt (note_block (bb_id b)) (items b)) blocks v = Some (map (\<lambda>i.
    case List.find (\<lambda>b. i \<in> set (items b)) (rev blocks) of None \<Rightarrow> v ! i | Some b \<Rightarrow> Some (bb_id b)) [0..<m])"
  using assms
proof (induction blocks rule: rev_induct)
  case Nil
  then show ?case using map_nth[of v] by simp
next
  case (snoc b blocks)
  let ?w = "map (\<lambda>i. case List.find (\<lambda>b. i \<in> set (items b)) (rev blocks) of
    None \<Rightarrow> v ! i | Some b \<Rightarrow> Some (bb_id b)) [0..<m]"
  have "fold_opt (\<lambda>b. fold_opt (note_block (bb_id b)) (items b)) blocks v = Some ?w"
    using snoc by simp
  moreover have "set (items b) \<subseteq> {..<length ?w}" using snoc.prems(1) by simp
  note note_all[OF this, of "bb_id b"]
  moreover have "(if i \<in> set (items b) then Some (bb_id b) else ?w ! i) =
      (case List.find (\<lambda>b. i \<in> set (items b)) (rev (blocks @ [b])) of None \<Rightarrow> v ! i | Some b \<Rightarrow> Some (bb_id b))"
    if "i < m" for i
    using that by (simp split: option.split)
  ultimately show ?case by (simp add: fold_opt_append cong: map_cong)
qed

definition block_items_ok :: "nat \<Rightarrow> nat \<Rightarrow> control_flow_graph \<Rightarrow> bool" where
  "block_items_ok bindings references cfg \<longleftrightarrow> (\<forall>b \<in> set (cfg_blocks cfg).
     set (bb_bindings b) \<subseteq> {..<bindings} \<and> set (bb_references b) \<subseteq> {..<references})"

lemma block_indexes_ok:
  assumes "block_items_ok m r cfg"
  shows "build_binding_block_index cfg m = Some (map (block_with bb_bindings cfg) [0..<m])"
    and "build_reference_block_index cfg r = Some (map (block_with bb_references cfg) [0..<r])"
proof -
  have case_find: "(case f of None \<Rightarrow> replicate k None ! i | Some b \<Rightarrow> Some (bb_id b)) = map_option bb_id f"
    if "i < k" for k i f
    using that by (simp split: option.split)
  show "build_binding_block_index cfg m = Some (map (block_with bb_bindings cfg) [0..<m])"
    using assms block_index_ok[of "cfg_blocks cfg" bb_bindings m "replicate m None"]
    unfolding build_binding_block_index_def block_items_ok_def
    by (simp add: block_with_def case_find cong: map_cong)
  show "build_reference_block_index cfg r = Some (map (block_with bb_references cfg) [0..<r])"
    using assms block_index_ok[of "cfg_blocks cfg" bb_references r "replicate r None"]
    unfolding build_reference_block_index_def block_items_ok_def
    by (simp add: block_with_def case_find cong: map_cong)
qed

lemma unreachable_block_set_ok:
  assumes "cfg_ok cfg"
  shows "\<exists>s. build_unreachable_block_set cfg = Some s \<and> sized (length (cfg_blocks cfg)) s
    \<and> bset s = set (cfg_unreachable cfg)"
  using insert_all_bset[OF sized_new, of "cfg_unreachable cfg" "length (cfg_blocks cfg)"] cfg_okD(6)[OF assms]
  by (auto simp: build_unreachable_block_set_def bset_new)

lemma option_eqI: "(\<And>b. x = Some b \<longleftrightarrow> y = Some b) \<Longrightarrow> x = y"
  by (cases x; cases y) auto

lemma find_upt: "List.find P [a..<n] = Some b \<longleftrightarrow> a \<le> b \<and> b < n \<and> P b \<and> (\<forall>c. a \<le> c \<and> c < b \<longrightarrow> \<not> P c)"
proof (induction "n - a" arbitrary: a)
  case (Suc d)
  then have "[a..<n] = a # [Suc a..<n]" "List.find P [Suc a..<n] = Some b \<longleftrightarrow>
      Suc a \<le> b \<and> b < n \<and> P b \<and> (\<forall>c. Suc a \<le> c \<and> c < b \<longrightarrow> \<not> P c)" by (simp_all add: upt_conv_Cons)
  note split = this
  show ?case
  proof (cases "P a")
    case True
    then show ?thesis using split(1) Suc.hyps(2) by (auto dest: leD)
  next
    case False
    then have "a \<le> b \<and> P b \<longleftrightarrow> Suc a \<le> b \<and> P b" by (metis Suc_leI le_SucI le_eq_less_or_eq Suc_leD)
    moreover have "(\<forall>c. a \<le> c \<and> c < b \<longrightarrow> \<not> P c) \<longleftrightarrow> (\<forall>c. Suc a \<le> c \<and> c < b \<longrightarrow> \<not> P c)"
      using False by (metis Suc_leI Suc_leD le_eq_less_or_eq)
    ultimately show ?thesis using split False by auto
  qed
qed auto

text \<open>The next overwrite of a binding is the first later binding of its name.\<close>

definition next_writes :: "binding list \<Rightarrow> binding_id option list \<Rightarrow> bool" where
  "next_writes bindings nxt \<longleftrightarrow> length nxt = length bindings
     \<and> (\<forall>i < length bindings. nxt ! i =
          List.find (\<lambda>j. b_name (bindings ! j) = b_name (bindings ! i)) [Suc i..<length bindings])"

lemma binding_data_built:
  assumes names: "names_ok names" "\<forall>b \<in> set bindings. nt_get names (b_name b) \<noteq> None"
    and "bindings_indexed bindings"
  shows "\<exists>data. build_dense_binding_data bindings names = Some data \<and> binding_data_ok names bindings data
    \<and> next_writes bindings (dbd_next_overwrite data)"
proof -
  let ?ids = "name_ids names bindings"
  note same = same_name[OF names]
  obtain data where data: "build_dense_binding_data bindings names = Some data" "binding_data_ok names bindings data"
    "length (dbd_next_overwrite data) = length bindings"
    and ov: "\<forall>a b. a < length bindings \<longrightarrow> dbd_next_overwrite data ! a = Some b \<longleftrightarrow>
         a < b \<and> b < length bindings \<and> ?ids ! a = ?ids ! b \<and> (\<forall>c. a < c \<and> c < b \<longrightarrow> ?ids ! c \<noteq> ?ids ! a)"
    using build_dense_binding_data_ok[OF names assms(3)] by blast
  have "dbd_next_overwrite data ! i =
      List.find (\<lambda>j. b_name (bindings ! j) = b_name (bindings ! i)) [Suc i..<length bindings]"
    if i: "i < length bindings" for i
  proof (rule option_eqI)
    fix b
    let ?P = "\<lambda>j. b_name (bindings ! j) = b_name (bindings ! i)"
    have eq: "?ids ! i = ?ids ! c \<longleftrightarrow> ?P c" if "c < length bindings" for c
      using same[OF i that] by (simp only: eq_commute)
    show "dbd_next_overwrite data ! i = Some b \<longleftrightarrow> List.find ?P [Suc i..<length bindings] = Some b"
    proof (cases "b < length bindings")
      case True
      have "(\<forall>c. i < c \<and> c < b \<longrightarrow> ?ids ! c \<noteq> ?ids ! i) \<longleftrightarrow> (\<forall>c. Suc i \<le> c \<and> c < b \<longrightarrow> \<not> ?P c)"
        unfolding Suc_le_eq using eq less_trans[OF _ True] by (metis (no_types, lifting))
      with eq[OF True] True show ?thesis unfolding ov[rule_format, OF i] find_upt Suc_le_eq by blast
    qed (simp only: ov[rule_format, OF i] find_upt, blast)
  qed
  with data show ?thesis unfolding next_writes_def by blast
qed

section \<open>Properties\<close>

text \<open>The index of the bindings of a file is always built: the set of a name holds exactly the bindings
  of that name, and the next overwrite of a binding is the first later binding of the same name.\<close>

theorem binding_index_by_name:
  assumes "bindings_indexed bindings"
    and "build_name_table bindings references reads = (names, reference_ids, read_ids)"
  shows "\<exists>data. build_dense_binding_data bindings names = Some data
    \<and> (\<forall>i < length bindings. \<forall>j < length bindings.
         bs_contains (dbd_bindings_for_name data ! (dbd_binding_name_ids data ! i)) j
           \<longleftrightarrow> b_name (bindings ! j) = b_name (bindings ! i))
    \<and> (\<forall>i < length bindings. dbd_next_overwrite data ! i =
         List.find (\<lambda>j. b_name (bindings ! j) = b_name (bindings ! i)) [Suc i..<length bindings])"
proof -
  note names = build_name_table_ok[OF assms(2)]
  obtain data where data: "build_dense_binding_data bindings names = Some data" "binding_data_ok names bindings data"
    "next_writes bindings (dbd_next_overwrite data)"
    using binding_data_built[OF names(1,2) assms(1)] by blast
  have "bs_contains (dbd_bindings_for_name data ! (dbd_binding_name_ids data ! i)) j
      \<longleftrightarrow> b_name (bindings ! j) = b_name (bindings ! i)"
    if "i < length bindings" "j < length bindings" for i j
  proof -
    have "name_ids names bindings ! i < nt_len names" by (rule name_id_bound[OF names(1,2) that(1)])
    with data(2) that same_name[OF names(1,2) that(2,1)] show ?thesis
      by (simp add: binding_data_ok_def contains_bset del: nth_map)
  qed
  with data(1,3) show ?thesis unfolding next_writes_def by blast
qed

definition sample_binding :: "nat \<Rightarrow> string \<Rightarrow> binding" where
  "sample_binding i name = \<lparr>b_id = i, b_name = name, b_kind = Assignment,
     b_origin = OriginAssignment span_new StaticLiteral, b_scope = 0, b_span = span_new,
     b_references = [], b_attributes = 0\<rparr>"

theorem binding_index_by_name_witness:
  "\<exists>data. build_dense_binding_data [sample_binding 0 ''x'', sample_binding 1 ''y'', sample_binding 2 ''x'']
      (fst (build_name_table [sample_binding 0 ''x'', sample_binding 1 ''y'', sample_binding 2 ''x''] [] [])) = Some data
    \<and> dbd_next_overwrite data ! 0 = Some 2"
proof -
  let ?bs = "[sample_binding 0 ''x'', sample_binding 1 ''y'', sample_binding 2 ''x'']"
  obtain names rs ss where t: "build_name_table ?bs [] [] = (names, rs, ss)" by (metis prod_cases3)
  have "bindings_indexed ?bs" by (simp add: bindings_indexed_def sample_binding_def upt_rec)
  from binding_index_by_name[OF this t] obtain data where "build_dense_binding_data ?bs names = Some data"
    "dbd_next_overwrite data ! 0 = List.find (\<lambda>j. b_name (?bs ! j) = b_name (?bs ! 0)) [Suc 0..<length ?bs]"
    by auto
  moreover have "List.find (\<lambda>j. b_name (?bs ! j) = b_name (?bs ! 0)) [Suc 0..<length ?bs] = Some 2"
    by (simp add: sample_binding_def upt_rec)
  ultimately show ?thesis unfolding t by simp
qed

end
