(* ===== verification/Reaching_Definitions.thy ===== *)
theory Reaching_Definitions
  imports Dataflow_Index
begin

text \<open>
  Model of \<open>compute_reaching_definitions_dense\<close> in \<open>crates/shucked-semantic/src/dataflow/dense.rs\<close>: the
  generated and killed bindings of every block, the transfer of a block on bit matrices, and its
  fixpoint.  The analysis is verified against the runs of the script: a binding reaches a block when
  some run arrives there with the binding as one of the definitions in force.
\<close>

section \<open>The analysis\<close>

definition entry_binding_root_blocks :: "control_flow_graph \<Rightarrow> block_id set" where
  "entry_binding_root_blocks cfg = set (map snd (cfg_scope_entries cfg)
     @ filter (\<lambda>b. predecessors_of cfg b = []) (map bb_id (cfg_blocks cfg)))"

record dense_reaching_definitions =
  rd_in :: dense_bit_matrix
  rd_out :: dense_bit_matrix

definition is_append :: "binding \<Rightarrow> bool" where
  "is_append b \<longleftrightarrow> b_kind b = AppendAssignment"

definition block_binding_set :: "nat \<Rightarrow> basic_block \<Rightarrow> dense_bit_set option" where
  "block_binding_set binding_count block =
     fold_opt (\<lambda>i s. bs_insert s i) (bb_bindings block) (bs_new binding_count)"

definition generate_binding ::
  "binding list \<Rightarrow> dense_binding_data \<Rightarrow> binding_id \<Rightarrow> dense_bit_set \<Rightarrow> dense_bit_set option" where
  "generate_binding bindings data i generated = do {
     info \<leftarrow> nth_opt bindings i;
     if is_append info then bs_insert generated i
     else do {
       name \<leftarrow> nth_opt (dbd_binding_name_ids data) i;
       row \<leftarrow> nth_opt (dbd_bindings_for_name data) name;
       bs_insert (bs_subtract_with generated row) i } }"

definition gen_set :: "binding list \<Rightarrow> dense_binding_data \<Rightarrow> basic_block \<Rightarrow> dense_bit_set option" where
  "gen_set bindings data block =
     fold_opt (generate_binding bindings data) (bb_bindings block) (bs_new (length bindings))"

definition overwrite_name ::
  "binding list \<Rightarrow> dense_binding_data \<Rightarrow> binding_id \<Rightarrow> dense_bit_set \<Rightarrow> dense_bit_set option" where
  "overwrite_name bindings data i names = do {
     info \<leftarrow> nth_opt bindings i;
     if is_append info then Some names
     else do { name \<leftarrow> nth_opt (dbd_binding_name_ids data) i; bs_insert names name } }"

definition kill_set ::
  "binding list \<Rightarrow> dense_binding_data \<Rightarrow> dense_bit_set \<Rightarrow> basic_block \<Rightarrow> dense_bit_set option" where
  "kill_set bindings data own block = do {
     overwritten \<leftarrow> fold_opt (overwrite_name bindings data) (bb_bindings block)
       (bs_new (length (dbd_bindings_for_name data)));
     killed \<leftarrow> fold_opt (\<lambda>name killed. do {
         row \<leftarrow> nth_opt (dbd_bindings_for_name data) name; Some (bs_union_with killed row) })
       (iter_collect (bs_iter_ones overwritten)) (bs_new (length bindings));
     Some (bs_subtract_with killed own) }"

text \<open>The transfer of a block.  Its three scratch sets are fresh: the code clears or overwrites them.\<close>

definition reaching_transfer ::
  "control_flow_graph \<Rightarrow> nat \<Rightarrow> binding_id list \<Rightarrow> dense_bit_set list \<Rightarrow> dense_bit_set list
    \<Rightarrow> dense_reaching_definitions transfer" where
  "reaching_transfer cfg binding_count entry_bindings gens kills block s = do {
     incoming \<leftarrow> fold_opt (\<lambda>p incoming. do {
         row \<leftarrow> bm_row (rd_out s) p; Some (bs_union_with_words incoming row) })
       (predecessors_of cfg block) (bs_new binding_count);
     incoming \<leftarrow> (if block \<in> entry_binding_root_blocks cfg
       then fold_opt (\<lambda>i incoming. bs_insert incoming i) entry_bindings incoming
       else Some incoming);
     carried \<leftarrow> bs_copy_from (bs_new binding_count) incoming;
     kill \<leftarrow> nth_opt kills block;
     let carried = bs_subtract_with carried kill;
     gen \<leftarrow> nth_opt gens block;
     outgoing \<leftarrow> bs_copy_from (bs_new binding_count) gen;
     let outgoing = bs_union_with outgoing carried;
     (_, reaching_in) \<leftarrow> bm_replace_row_if_changed (rd_in s) block (bs_words incoming);
     (changed, reaching_out) \<leftarrow> bm_replace_row_if_changed (rd_out s) block (bs_words outgoing);
     Some (changed, \<lparr>rd_in = reaching_in, rd_out = reaching_out\<rparr>) }"

definition compute_reaching_definitions_dense ::
  "nat \<Rightarrow> control_flow_graph \<Rightarrow> binding list \<Rightarrow> dense_binding_data \<Rightarrow> binding_id list \<Rightarrow> block_id list
    \<Rightarrow> dense_reaching_definitions option" where
  "compute_reaching_definitions_dense k cfg bindings data entry_bindings order = do {
     let binding_count = length bindings;
     owns \<leftarrow> map_opt (block_binding_set binding_count) (cfg_blocks cfg);
     gens \<leftarrow> map_opt (gen_set bindings data) (cfg_blocks cfg);
     kills \<leftarrow> map_opt (\<lambda>(i, block). do { own \<leftarrow> nth_opt owns i; kill_set bindings data own block })
       (List.enumerate 0 (cfg_blocks cfg));
     let zeros = bm_zeros (length (cfg_blocks cfg)) binding_count;
     run_forward_dataflow_worklist k cfg order
       (reaching_transfer cfg binding_count entry_bindings gens kills)
       \<lparr>rd_in = zeros, rd_out = zeros\<rparr> }"

section \<open>What the assignments of a block do\<close>

text \<open>The definitions in force after a binding, and after all bindings of a block in order: an append
  adds to the definitions of its name, any other binding replaces them.\<close>

definition assign :: "binding list \<Rightarrow> binding_id \<Rightarrow> binding_id set \<Rightarrow> binding_id set" where
  "assign bindings i X = insert i (if is_append (bindings ! i) then X
     else {j \<in> X. b_name (bindings ! j) \<noteq> b_name (bindings ! i)})"

definition assign_all :: "binding list \<Rightarrow> binding_id list \<Rightarrow> binding_id set \<Rightarrow> binding_id set" where
  "assign_all bindings is X = fold (assign bindings) is X"

definition overwritten_by :: "binding list \<Rightarrow> binding_id list \<Rightarrow> binding_id set" where
  "overwritten_by bindings is = {j. \<exists>i \<in> set is. \<not> is_append (bindings ! i)
     \<and> b_name (bindings ! j) = b_name (bindings ! i)}"

lemma assign_all_split:
  "assign_all bindings is (A \<union> X) = assign_all bindings is A \<union> (X - overwritten_by bindings is)"
proof (induction "is" arbitrary: A X)
  case (Cons i "is")
  have "assign bindings i (A \<union> X) = assign bindings i A \<union> (X - overwritten_by bindings [i])"
    by (auto simp: assign_def overwritten_by_def)
  moreover have "X - overwritten_by bindings [i] - overwritten_by bindings is = X - overwritten_by bindings (i # is)"
    by (auto simp: overwritten_by_def)
  ultimately show ?case using Cons by (simp add: assign_all_def)
qed (simp add: assign_all_def overwritten_by_def)

lemma assign_all_gen: "assign_all bindings is X = assign_all bindings is {} \<union> (X - overwritten_by bindings is)"
  using assign_all_split[of bindings "is" "{}" X] by simp

lemma assign_all_within: "assign_all bindings is X \<subseteq> set is \<union> X"
proof (induction "is" arbitrary: X)
  case (Cons i "is")
  have "assign bindings i X \<subseteq> insert i X" by (auto simp: assign_def)
  with Cons[of "assign bindings i X"] show ?case by (auto simp: assign_all_def)
qed (simp add: assign_all_def)

section \<open>The sets of a block\<close>

lemma gen_set_ok:
  assumes "names_ok names" "binding_data_ok names bindings data" "set (bb_bindings block) \<subseteq> {..<length bindings}"
  shows "\<exists>s. gen_set bindings data block = Some s \<and> sized (length bindings) s
    \<and> bset s = assign_all bindings (bb_bindings block) {}"
proof -
  have "\<exists>s'. fold_opt (generate_binding bindings data) is s = Some s' \<and> sized (length bindings) s'
      \<and> bset s' = assign_all bindings is (bset s)"
    if "set is \<subseteq> {..<length bindings}" "sized (length bindings) s" "bset s \<subseteq> {..<length bindings}" for "is" s
    using that
  proof (induction "is" arbitrary: s)
    case (Cons i "is")
    have i: "i < length bindings" using Cons.prems(1) by simp
    obtain name row where row: "nth_opt (dbd_binding_name_ids data) i = Some name"
      "nth_opt (dbd_bindings_for_name data) name = Some row" "sized (length bindings) row"
      "bset row = {j. j < length bindings \<and> b_name (bindings ! j) = b_name (bindings ! i)}"
      using binding_row[OF assms(1,2) i] by blast
    let ?s = "if is_append (bindings ! i) then s else bs_subtract_with s row"
    have sz: "sized (length bindings) ?s" using Cons.prems(2) by simp
    from insert_bset[OF sz i] obtain s1 where s1: "bs_insert ?s i = Some s1" "sized (length bindings) s1"
      "bset s1 = insert i (bset ?s)" by blast
    have eq: "bset s1 = assign bindings i (bset s)"
      using Cons.prems(2,3) row(3,4) s1(3) by (auto simp: assign_def subtract_bset)
    have "generate_binding bindings data i s = Some s1"
      using i row(1,2) s1(1) by (auto simp: generate_binding_def panic_simps split: if_splits)
    moreover have "bset s1 \<subseteq> {..<length bindings}" using eq Cons.prems(3) i by (auto simp: assign_def)
    with Cons.IH[of s1] Cons.prems(1) s1(2) obtain s' where "fold_opt (generate_binding bindings data) is s1 = Some s'"
      "sized (length bindings) s'" "bset s' = assign_all bindings is (bset s1)" by auto
    ultimately show ?case using eq by (simp add: assign_all_def)
  qed (simp add: assign_all_def)
  from this[OF assms(3) sized_new] show ?thesis by (simp add: gen_set_def bset_new)
qed

lemma overwritten_names_ok:
  assumes "names_ok names" "binding_data_ok names bindings data" "set is \<subseteq> {..<length bindings}"
    and "sized (nt_len names) s"
  shows "\<exists>s'. fold_opt (overwrite_name bindings data) is s = Some s' \<and> sized (nt_len names) s'
    \<and> bset s' = bset s \<union> {n. \<exists>i \<in> set is. \<not> is_append (bindings ! i) \<and> nt_get names (b_name (bindings ! i)) = Some n}"
  using assms(3,4)
proof (induction "is" arbitrary: s)
  case (Cons i "is")
  have i: "i < length bindings" using Cons.prems(1) by simp
  obtain name where name: "nth_opt (dbd_binding_name_ids data) i = Some name" "name < nt_len names"
    "nt_get names (b_name (bindings ! i)) = Some name" using binding_row[OF assms(1,2) i] by blast
  obtain s1 where s1: "overwrite_name bindings data i s = Some s1" "sized (nt_len names) s1"
    "bset s1 = bset s \<union> {n. \<not> is_append (bindings ! i) \<and> nt_get names (b_name (bindings ! i)) = Some n}"
  proof (cases "is_append (bindings ! i)")
    case True
    then show ?thesis using that[of s] i Cons.prems(2) by (simp add: overwrite_name_def panic_simps)
  next
    case False
    from insert_bset[OF Cons.prems(2) name(2)] obtain t where "bs_insert s name = Some t"
      "sized (nt_len names) t" "bset t = insert name (bset s)" by blast
    then show ?thesis using that[of t] i name False by (auto simp: overwrite_name_def panic_simps)
  qed
  with Cons.IH[of s1] Cons.prems(1) show ?case by auto
qed simp

lemma kill_set_ok:
  assumes "names_ok names" "binding_data_ok names bindings data" "set (bb_bindings block) \<subseteq> {..<length bindings}"
    and "sized (length bindings) own" "bset own = set (bb_bindings block)"
  shows "\<exists>s. kill_set bindings data own block = Some s \<and> sized (length bindings) s
    \<and> bset s = {j \<in> overwritten_by bindings (bb_bindings block). j < length bindings} - set (bb_bindings block)"
proof -
  have len: "length (dbd_bindings_for_name data) = nt_len names"
    and rows: "\<And>j. j < nt_len names \<Longrightarrow> sized (length bindings) (dbd_bindings_for_name data ! j)"
    "\<And>j. j < nt_len names \<Longrightarrow> bset (dbd_bindings_for_name data ! j) =
        {i. i < length bindings \<and> name_ids names bindings ! i = j}"
    and known: "\<forall>b \<in> set bindings. nt_get names (b_name b) \<noteq> None"
    using assms(2) unfolding binding_data_ok_def by blast+
  obtain over where over: "fold_opt (overwrite_name bindings data) (bb_bindings block) (bs_new (nt_len names)) = Some over"
    "sized (nt_len names) over" "bset over = {n. \<exists>i \<in> set (bb_bindings block). \<not> is_append (bindings ! i)
      \<and> nt_get names (b_name (bindings ! i)) = Some n}"
    using overwritten_names_ok[OF assms(1-3) sized_new] by (auto simp: bset_new)
  let ?names = "iter_collect (bs_iter_ones over)"
  have "finite (bset over)" using members_bounded finite_subset[OF _ finite_lessThan] by blast
  then have names: "set ?names = bset over" by (simp add: bs_iter_ones_eq)
  have bound: "j < nt_len names" if "j \<in> bset over" for j
    using that nt_get_bound[OF assms(1)] over(3) by auto
  let ?row = "\<lambda>name. map_option bs_words (nth_opt (dbd_bindings_for_name data) name)"
  let ?A = "\<lambda>j. {i. i < length bindings \<and> name_ids names bindings ! i = j}"
  have "\<exists>t. fold_opt (\<lambda>j s. do { ws \<leftarrow> ?row j; Some (bs_union_with_words s ws) }) ?names (bs_new (length bindings))
      = Some t \<and> sized (length bindings) t \<and> bset t = bset (bs_new (length bindings)) \<union> (\<Union>j \<in> set ?names. ?A j)"
  proof (rule union_all_bset[OF sized_new])
    fix j assume "j \<in> set ?names"
    then have "j < nt_len names" using bound names by blast
    then show "\<exists>ws. ?row j = Some ws \<and> length ws = words_for (length bindings) \<and> members ws = ?A j"
      using rows len by (simp add: panic_simps members_sized)
  qed
  then obtain killed where killed:
    "fold_opt (\<lambda>j s. do { ws \<leftarrow> ?row j; Some (bs_union_with_words s ws) }) ?names (bs_new (length bindings)) = Some killed"
    "sized (length bindings) killed" "bset killed = (\<Union>j \<in> bset over. ?A j)"
    unfolding names bset_new by auto
  have step: "(\<lambda>name killed. do { row \<leftarrow> nth_opt (dbd_bindings_for_name data) name; Some (bs_union_with killed row) })
      = (\<lambda>j s. do { ws \<leftarrow> ?row j; Some (bs_union_with_words s ws) })"
    by (intro ext) (simp add: bs_union_with_def split: bind_splits)
  have "(\<Union>j \<in> bset over. ?A j) = {j \<in> overwritten_by bindings (bb_bindings block). j < length bindings}"
  proof (intro set_eqI iffI)
    fix i assume "i \<in> (\<Union>j \<in> bset over. ?A j)"
    then obtain k where k: "i < length bindings" "k \<in> set (bb_bindings block)" "\<not> is_append (bindings ! k)"
      "nt_get names (b_name (bindings ! k)) = Some (name_ids names bindings ! i)"
      unfolding over(3) by blast
    have "k < length bindings" using k(2) assms(3) by auto
    moreover from this k(4) have "name_ids names bindings ! i = name_ids names bindings ! k" by simp
    ultimately show "i \<in> {j \<in> overwritten_by bindings (bb_bindings block). j < length bindings}"
      using same_name[OF assms(1) known k(1)] k by (auto simp: overwritten_by_def simp del: nth_map)
  next
    fix i assume "i \<in> {j \<in> overwritten_by bindings (bb_bindings block). j < length bindings}"
    then obtain k where k: "i < length bindings" "k \<in> set (bb_bindings block)" "\<not> is_append (bindings ! k)"
      "b_name (bindings ! i) = b_name (bindings ! k)" by (auto simp: overwritten_by_def)
    have "nt_get names (b_name (bindings ! k)) = Some (name_ids names bindings ! i)"
      using known[rule_format, OF nth_mem[OF k(1)]] k(1,4) by auto
    with k show "i \<in> (\<Union>j \<in> bset over. ?A j)" unfolding over(3) by blast
  qed
  with killed over(1) assms(4,5) show ?thesis
    by (simp add: kill_set_def len step subtract_bset)
qed

lemma block_binding_set_ok:
  assumes "set (bb_bindings block) \<subseteq> {..<m}"
  shows "\<exists>s. block_binding_set m block = Some s \<and> sized m s \<and> bset s = set (bb_bindings block)"
  using insert_all_bset[OF sized_new assms] by (simp add: block_binding_set_def bset_new)

section \<open>The equations of the analysis\<close>

text \<open>An instance of the analysis with the sets it has computed.\<close>

record reaching_input =
  ri_cfg :: control_flow_graph
  ri_bindings :: "binding list"
  ri_entry :: "binding_id list"
  ri_gens :: "dense_bit_set list"
  ri_kills :: "dense_bit_set list"

abbreviation ri_blocks :: "reaching_input \<Rightarrow> nat" where
  "ri_blocks p \<equiv> length (cfg_blocks (ri_cfg p))"

definition reaching_valid :: "reaching_input \<Rightarrow> bool" where
  "reaching_valid p \<longleftrightarrow> cfg_ok (ri_cfg p) \<and> set (ri_entry p) \<subseteq> {..<length (ri_bindings p)}
     \<and> length (ri_gens p) = ri_blocks p \<and> length (ri_kills p) = ri_blocks p
     \<and> (\<forall>b < ri_blocks p. sized (length (ri_bindings p)) (ri_gens p ! b) \<and> sized (length (ri_bindings p)) (ri_kills p ! b)
          \<and> bset (ri_gens p ! b) \<subseteq> {..<length (ri_bindings p)})"

definition reaching_problem :: "reaching_input \<Rightarrow> binding_id gen_kill" where
  "reaching_problem p = \<lparr>gk_blocks = ri_blocks p, gk_universe = {..<length (ri_bindings p)},
     gk_preds = predecessors_of (ri_cfg p),
     gk_init = (\<lambda>b. if b \<in> entry_binding_root_blocks (ri_cfg p) then set (ri_entry p) else {}),
     gk_gen = (\<lambda>b. bset (ri_gens p ! b)), gk_kill = (\<lambda>b. bset (ri_kills p ! b))\<rparr>"

lemma preds_succs:
  assumes "cfg_ok cfg" "b < length (cfg_blocks cfg)"
  shows "p \<in> set (predecessors_of cfg b) \<longleftrightarrow> p < length (cfg_blocks cfg) \<and> b \<in> fst ` set (successors_of cfg p)"
proof -
  have "count_list (cfg_predecessors cfg ! b) p = edge_count (cfg_successors cfg) p b"
    using cfg_okD(5)[OF assms] by blast
  moreover have "predecessors_of cfg b = cfg_predecessors cfg ! b"
    using assms cfg_okD(2)[OF assms(1)] by (simp add: predecessors_of_def panic_simps)
  moreover have "successors_of cfg p = cfg_successors cfg ! p" if "p < length (cfg_blocks cfg)"
    using that cfg_okD(1)[OF assms(1)] by (simp add: successors_of_def panic_simps)
  moreover have "p \<in> set xs \<longleftrightarrow> count_list xs p \<noteq> 0" "b \<in> fst ` set es \<longleftrightarrow> count_list (map fst es) b \<noteq> 0"
    for xs and es :: "flow_edge list" by (simp_all add: count_list_0_iff)
  ultimately show ?thesis
    using cfg_okD(1)[OF assms(1)] by (simp add: edge_count_def)
qed

lemma wf_reaching_problem:
  assumes "reaching_valid p"
  shows "wf_gen_kill (reaching_problem p)"
  using assms preds_succs[of "ri_cfg p"]
  by (auto simp: wf_gen_kill_def reaching_problem_def reaching_valid_def)

definition reaching_good :: "reaching_input \<Rightarrow> dense_reaching_definitions \<Rightarrow> bool" where
  "reaching_good p s \<longleftrightarrow> shaped (ri_blocks p) (length (ri_bindings p)) (rd_in s)
     \<and> shaped (ri_blocks p) (length (ri_bindings p)) (rd_out s)
     \<and> rising (reaching_problem p) (mrow (rd_in s)) (mrow (rd_out s))"

definition reaching_holds :: "reaching_input \<Rightarrow> block_id \<Rightarrow> dense_reaching_definitions \<Rightarrow> bool" where
  "reaching_holds p b s \<longleftrightarrow> solved (reaching_problem p) (mrow (rd_in s)) (mrow (rd_out s)) b"

definition reaching_room :: "reaching_input \<Rightarrow> dense_reaching_definitions \<Rightarrow> nat" where
  "reaching_room p s = missing (reaching_problem p) (mrow (rd_out s))"

abbreviation reaching_step :: "reaching_input \<Rightarrow> dense_reaching_definitions transfer" where
  "reaching_step p \<equiv> reaching_transfer (ri_cfg p) (length (ri_bindings p)) (ri_entry p) (ri_gens p) (ri_kills p)"

text \<open>The rows of the predecessors, united.\<close>

lemma union_rows:
  assumes "shaped rows n m" "set ps \<subseteq> {..<rows}" "sized n s"
  shows "\<exists>t. fold_opt (\<lambda>p s. do { row \<leftarrow> bm_row m p; Some (bs_union_with_words s row) }) ps s = Some t
    \<and> sized n t \<and> bset t = bset s \<union> (\<Union>p \<in> set ps. mrow m p)"
proof (rule union_all_bset[OF assms(3)])
  fix p assume "p \<in> set ps"
  with assms(2) have "p < rows" by auto
  from row_shaped[OF assms(1) this] show "\<exists>ws. bm_row m p = Some ws \<and> length ws = words_for n \<and> members ws = mrow m p"
    by simp
qed

lemma reaching_step_ok:
  assumes "reaching_valid p" "b < ri_blocks p" "reaching_good p s"
  shows "\<exists>s'. reaching_step p b s = Some (mrow (rd_out s') b \<noteq> mrow (rd_out s) b, s')
    \<and> shaped (ri_blocks p) (length (ri_bindings p)) (rd_in s') \<and> shaped (ri_blocks p) (length (ri_bindings p)) (rd_out s')
    \<and> recomputed (reaching_problem p) b (mrow (rd_in s)) (mrow (rd_out s)) (mrow (rd_in s')) (mrow (rd_out s'))"
proof -
  let ?m = "length (ri_bindings p)" and ?n = "ri_blocks p" and ?cfg = "ri_cfg p" and ?pr = "reaching_problem p"
  note v = assms(1)[unfolded reaching_valid_def]
  have sh: "shaped ?n ?m (rd_in s)" "shaped ?n ?m (rd_out s)" using assms(3) by (simp_all add: reaching_good_def)
  have preds: "set (predecessors_of ?cfg b) \<subseteq> {..<?n}" using preds_succs[of ?cfg b] v assms(2) by auto
  obtain inc where inc: "fold_opt (\<lambda>p s'. do { row \<leftarrow> bm_row (rd_out s) p; Some (bs_union_with_words s' row) })
      (predecessors_of ?cfg b) (bs_new ?m) = Some inc"
    "sized ?m inc" "bset inc = (\<Union>q \<in> set (predecessors_of ?cfg b). mrow (rd_out s) q)"
    using union_rows[OF sh(2) preds sized_new] by (auto simp: bset_new)
  obtain inn where inn: "(if b \<in> entry_binding_root_blocks ?cfg
      then fold_opt (\<lambda>i incoming. bs_insert incoming i) (ri_entry p) inc else Some inc) = Some inn"
    "sized ?m inn" "bset inn = flow_in ?pr (mrow (rd_out s)) b"
  proof (cases "b \<in> entry_binding_root_blocks ?cfg")
    case True
    from insert_all_bset[OF inc(2), of "ri_entry p"] v obtain t where
      "fold_opt (\<lambda>i s. bs_insert s i) (ri_entry p) inc = Some t" "sized ?m t" "bset t = bset inc \<union> set (ri_entry p)"
      by blast
    with True inc(3) show ?thesis by (intro that[of t]) (auto simp: flow_in_def reaching_problem_def)
  next
    case False
    with inc show ?thesis by (intro that[of inc]) (auto simp: flow_in_def reaching_problem_def)
  qed
  have sets: "nth_opt (ri_kills p) b = Some (ri_kills p ! b)" "sized ?m (ri_kills p ! b)"
    "nth_opt (ri_gens p) b = Some (ri_gens p ! b)" "sized ?m (ri_gens p ! b)"
    using v assms(2) by (simp_all add: panic_simps)
  let ?out = "bs_union_with (ri_gens p ! b) (bs_subtract_with inn (ri_kills p ! b))"
  have out: "sized ?m ?out" "bset ?out = flow_out ?pr b (flow_in ?pr (mrow (rd_out s)) b)"
    using sets(2,4) inn(2,3) by (simp_all add: union_bset subtract_bset flow_out_def reaching_problem_def)
  obtain rin where rin: "bm_replace_row_if_changed (rd_in s) b (bs_words inn) = Some (mrow (rd_in s) b \<noteq> bset inn, rin)"
    "shaped ?n ?m rin" "row_words rin b = bs_words inn"
    "\<forall>r' < ?n. r' \<noteq> b \<longrightarrow> row_words rin r' = row_words (rd_in s) r'"
    using matrix_replace[OF sh(1) assms(2) members_sized[OF inn(2)]] by blast
  obtain rout where rout: "bm_replace_row_if_changed (rd_out s) b (bs_words ?out) = Some (mrow (rd_out s) b \<noteq> bset ?out, rout)"
    "shaped ?n ?m rout" "row_words rout b = bs_words ?out"
    "\<forall>r' < ?n. r' \<noteq> b \<longrightarrow> row_words rout r' = row_words (rd_out s) r'"
    using matrix_replace[OF sh(2) assms(2) members_sized[OF out(1)]] by blast
  have "reaching_step p b s = Some (mrow (rd_out s) b \<noteq> bset ?out, \<lparr>rd_in = rin, rd_out = rout\<rparr>)"
    unfolding reaching_transfer_def Let_def inc(1) inn(1) sets(1,3)
      copy_bset[OF sized_new inn(2)] copy_bset[OF sized_new sets(4)] Option.bind_lunit rin(1) rout(1) prod.case
    by (rule refl)
  moreover have "recomputed ?pr b (mrow (rd_in s)) (mrow (rd_out s)) (mrow rin) (mrow rout)"
    unfolding recomputed_def rin(3) rout(3) inn(3) out(2)
    using rin(4) rout(4) by (simp add: reaching_problem_def)
  ultimately show ?thesis using rin(2) rout(2,3) by (intro exI[of _ "\<lparr>rd_in = rin, rd_out = rout\<rparr>"]) auto
qed

interpretation reaching: worklist_transfer reaching_valid ri_blocks
  "\<lambda>p b. map fst (successors_of (ri_cfg p) b)" reaching_step reaching_good reaching_holds reaching_room
proof (unfold_locales, goal_cases)
  case (1 p b)
  then show ?case using leads_within[of "ri_cfg p" b] by (simp add: reaching_valid_def)
next
  case (2 p b s)
  let ?pr = "reaching_problem p"
  note wf = wf_reaching_problem[OF 2(1)]
  have b: "b < gk_blocks ?pr" using 2(2) by (simp add: reaching_problem_def)
  have rise: "rising ?pr (mrow (rd_in s)) (mrow (rd_out s))" using 2(3) by (simp add: reaching_good_def)
  from reaching_step_ok[OF 2] obtain s' where s': "reaching_step p b s = Some (mrow (rd_out s') b \<noteq> mrow (rd_out s) b, s')"
    "shaped (ri_blocks p) (length (ri_bindings p)) (rd_in s')" "shaped (ri_blocks p) (length (ri_bindings p)) (rd_out s')"
    and re: "recomputed ?pr b (mrow (rd_in s)) (mrow (rd_out s)) (mrow (rd_in s')) (mrow (rd_out s'))" by blast
  have "reaching_holds p c s'" if c: "c < ri_blocks p" "c = b \<or> reaching_holds p c s"
    "mrow (rd_out s') b \<noteq> mrow (rd_out s) b \<longrightarrow> c \<notin> set (map fst (successors_of (ri_cfg p) b))" for c
    unfolding reaching_holds_def
  proof (rule recompute_solved[OF b re _ _ wf])
    show "c < gk_blocks ?pr" using c(1) by (simp add: reaching_problem_def)
    show "c = b \<or> solved ?pr (mrow (rd_in s)) (mrow (rd_out s)) c" using c(2) by (simp add: reaching_holds_def)
    show "b \<notin> set (gk_preds ?pr c)" if "mrow (rd_out s') b \<noteq> mrow (rd_out s) b"
      using that c(1,3) 2(1) preds_succs[of "ri_cfg p" c] by (auto simp: reaching_problem_def reaching_valid_def)
  qed
  moreover have "reaching_good p s'"
    using s'(2,3) recompute_rising[OF rise b re] by (simp add: reaching_good_def)
  ultimately show ?case
    using s'(1) recompute_missing[OF rise b re] by (auto simp: reaching_room_def)
qed

section \<open>The analysis against the runs of the script\<close>

text \<open>
  The definitions in force when a run arrives at a block.  A run starts with the entry bindings at a
  root block, or with nothing at any block, follows the edges of the graph and executes the bindings of
  the blocks it leaves.
\<close>

inductive definitions_at ::
  "control_flow_graph \<Rightarrow> binding list \<Rightarrow> binding_id list \<Rightarrow> block_id \<Rightarrow> binding_id set \<Rightarrow> bool"
  for cfg bindings entry where
  run_starts: "b < length (cfg_blocks cfg) \<Longrightarrow>
    X = (if b \<in> entry_binding_root_blocks cfg then set entry else {}) \<Longrightarrow> definitions_at cfg bindings entry b X"
| run_steps: "definitions_at cfg bindings entry p X \<Longrightarrow> b \<in> fst ` set (successors_of cfg p) \<Longrightarrow>
    definitions_at cfg bindings entry b (assign_all bindings (bb_bindings (cfg_blocks cfg ! p)) X)"

text \<open>Every binding belongs to one block, and an entry binding to none.\<close>

definition bindings_placed :: "control_flow_graph \<Rightarrow> binding_id list \<Rightarrow> bool" where
  "bindings_placed cfg entry \<longleftrightarrow>
     (\<forall>b < length (cfg_blocks cfg). set (bb_bindings (cfg_blocks cfg ! b)) \<inter> set entry = {}
        \<and> (\<forall>c < length (cfg_blocks cfg). c \<noteq> b \<longrightarrow>
             set (bb_bindings (cfg_blocks cfg ! b)) \<inter> set (bb_bindings (cfg_blocks cfg ! c)) = {}))"

definition block_gen :: "control_flow_graph \<Rightarrow> binding list \<Rightarrow> block_id \<Rightarrow> binding_id set" where
  "block_gen cfg bindings b = assign_all bindings (bb_bindings (cfg_blocks cfg ! b)) {}"

definition block_kill :: "control_flow_graph \<Rightarrow> binding list \<Rightarrow> block_id \<Rightarrow> binding_id set" where
  "block_kill cfg bindings b = {j \<in> overwritten_by bindings (bb_bindings (cfg_blocks cfg ! b)). j < length bindings}
     - set (bb_bindings (cfg_blocks cfg ! b))"

definition run_problem :: "control_flow_graph \<Rightarrow> binding list \<Rightarrow> binding_id list \<Rightarrow> binding_id gen_kill" where
  "run_problem cfg bindings entry = \<lparr>gk_blocks = length (cfg_blocks cfg), gk_universe = {..<length bindings},
     gk_preds = predecessors_of cfg,
     gk_init = (\<lambda>b. if b \<in> entry_binding_root_blocks cfg then set entry else {}),
     gk_gen = block_gen cfg bindings, gk_kill = block_kill cfg bindings\<rparr>"

lemma definitions_at_within: "definitions_at cfg bindings entry b X \<Longrightarrow> cfg_ok cfg \<Longrightarrow> b < length (cfg_blocks cfg)"
  by (induction rule: definitions_at.induct) (use leads_within in force)+

lemma leaves_assigned:
  assumes "X \<subseteq> {x. arrives (run_problem cfg bindings entry) x p}"
    and "x \<in> assign_all bindings (bb_bindings (cfg_blocks cfg ! p)) X"
  shows "leaves (run_problem cfg bindings entry) x p"
proof (cases "x \<in> block_gen cfg bindings p")
  case True
  then show ?thesis by (intro leaves_gen) (simp add: run_problem_def)
next
  case False
  then have "x \<in> X" "x \<notin> overwritten_by bindings (bb_bindings (cfg_blocks cfg ! p))"
    using assms(2) assign_all_gen[of bindings _ X] by (auto simp: block_gen_def)
  then show ?thesis using assms(1)
    by (intro leaves_through) (auto simp: run_problem_def block_kill_def)
qed

lemma runs_arrive:
  assumes "cfg_ok cfg" "definitions_at cfg bindings entry b X"
  shows "X \<subseteq> {x. arrives (run_problem cfg bindings entry) x b}"
  using assms(2)
proof (induction rule: definitions_at.induct)
  case (run_starts b X)
  then show ?case by (auto simp: run_problem_def intro!: arrives_init split: if_splits)
next
  case (run_steps p X b)
  let ?pr = "run_problem cfg bindings entry"
  have p: "p < length (cfg_blocks cfg)" using definitions_at_within[OF run_steps(1) assms(1)] .
  have b: "b < length (cfg_blocks cfg)" using leads_within[OF assms(1)] run_steps(2) by force
  have "p \<in> set (gk_preds ?pr b)"
    using preds_succs[OF assms(1) b] p run_steps(2) by (simp add: run_problem_def)
  then show ?case using leaves_assigned[OF run_steps(3)] by (blast intro: arrives_edge)
qed

lemma runs_leave:
  "cfg_ok cfg \<Longrightarrow> definitions_at cfg bindings entry b X \<Longrightarrow>
   assign_all bindings (bb_bindings (cfg_blocks cfg ! b)) X \<subseteq> {x. leaves (run_problem cfg bindings entry) x b}"
  using leaves_assigned[OF runs_arrive] by blast

lemma arrive_runs:
  assumes "cfg_ok cfg" "bindings_placed cfg entry" "set entry \<subseteq> {..<length bindings}"
    and "\<forall>b < length (cfg_blocks cfg). set (bb_bindings (cfg_blocks cfg ! b)) \<subseteq> {..<length bindings}"
  shows "arrives (run_problem cfg bindings entry) x b \<Longrightarrow> b < length (cfg_blocks cfg) \<Longrightarrow>
      (x \<in> set entry \<or> (\<exists>c < length (cfg_blocks cfg). x \<in> block_gen cfg bindings c))
      \<and> (\<exists>X. definitions_at cfg bindings entry b X \<and> x \<in> X)"
    and "leaves (run_problem cfg bindings entry) x b \<Longrightarrow> b < length (cfg_blocks cfg) \<Longrightarrow>
      (x \<in> set entry \<or> (\<exists>c < length (cfg_blocks cfg). x \<in> block_gen cfg bindings c))
      \<and> (\<exists>X. definitions_at cfg bindings entry b X \<and> x \<in> assign_all bindings (bb_bindings (cfg_blocks cfg ! b)) X)"
proof (induction rule: arrives_leaves.inducts)
  case (arrives_init x b)
  then have "x \<in> set entry" "b \<in> entry_binding_root_blocks cfg" by (auto simp: run_problem_def split: if_splits)
  then show ?case using run_starts[OF arrives_init(2) refl, of bindings entry] by auto
next
  case (arrives_edge x p b)
  then have p: "p < length (cfg_blocks cfg)" "b \<in> fst ` set (successors_of cfg p)"
    using preds_succs[OF assms(1) arrives_edge(4)] by (auto simp: run_problem_def)
  then show ?case using arrives_edge(2) run_steps by blast
next
  case (leaves_gen x b)
  then have x: "x \<in> block_gen cfg bindings b" by (simp add: run_problem_def)
  then have "x \<in> assign_all bindings (bb_bindings (cfg_blocks cfg ! b)) X" for X
    using assign_all_gen[of bindings _ X] by (auto simp: block_gen_def)
  with x show ?case using run_starts[OF leaves_gen(2) refl, of bindings entry] leaves_gen(2) by blast
next
  case (leaves_through x b)
  then obtain X where X: "definitions_at cfg bindings entry b X" "x \<in> X"
    and src: "x \<in> set entry \<or> (\<exists>c < length (cfg_blocks cfg). x \<in> block_gen cfg bindings c)" by blast
  let ?own = "bb_bindings (cfg_blocks cfg ! b)"
  have gens: "block_gen cfg bindings c \<subseteq> set (bb_bindings (cfg_blocks cfg ! c))" for c
    using assign_all_within[of bindings _ "{}"] by (simp add: block_gen_def)
  have lt: "x < length bindings" using src gens assms(3,4) by blast
  have "x \<in> assign_all bindings ?own X"
  proof (cases "x \<in> set ?own")
    case True
    have "x \<in> block_gen cfg bindings b"
      using src True gens assms(2) leaves_through(4) unfolding bindings_placed_def by blast
    then show ?thesis using assign_all_gen[of bindings ?own X] by (auto simp: block_gen_def)
  next
    case False
    then have "x \<notin> overwritten_by bindings ?own"
      using leaves_through(3) lt by (simp add: run_problem_def block_kill_def)
    then show ?thesis using assign_all_gen[of bindings ?own X] X(2) by blast
  qed
  with X src show ?case by blast
qed

text \<open>The inputs of the analysis: the indexes of a graph that was built.\<close>

definition dataflow_input ::
  "control_flow_graph \<Rightarrow> name_table \<Rightarrow> binding list \<Rightarrow> dense_binding_data \<Rightarrow> binding_id list \<Rightarrow> bool" where
  "dataflow_input cfg names bindings data entry \<longleftrightarrow> cfg_ok cfg \<and> names_ok names
     \<and> binding_data_ok names bindings data \<and> set entry \<subseteq> {..<length bindings}
     \<and> (\<forall>b < length (cfg_blocks cfg). set (bb_bindings (cfg_blocks cfg ! b)) \<subseteq> {..<length bindings})"

lemma reverse_postorder_ok:
  assumes "cfg_ok cfg"
  shows "\<exists>order. compute_reverse_postorder cfg = Some order \<and> set order = {..<length (cfg_blocks cfg)}"
  using block_order_ok[OF assms] unfolding compute_reverse_postorder_def by (metis set_rev)

lemma enumerate_nth: "i < length xs \<Longrightarrow> List.enumerate 0 xs ! i = (i, xs ! i)"
  by (simp add: nth_enumerate_eq)

lemma reaching_definitions_ok:
  assumes inp: "dataflow_input cfg names bindings data entry" and order: "set order = {..<length (cfg_blocks cfg)}"
    and k: "length (cfg_blocks cfg) * length bindings + 2 \<le> k"
  shows "\<exists>r. compute_reaching_definitions_dense k cfg bindings data entry order = Some r
    \<and> shaped (length (cfg_blocks cfg)) (length bindings) (rd_in r)
    \<and> shaped (length (cfg_blocks cfg)) (length bindings) (rd_out r)
    \<and> (\<forall>b < length (cfg_blocks cfg). mrow (rd_in r) b = {x. arrives (run_problem cfg bindings entry) x b}
         \<and> mrow (rd_out r) b = {x. leaves (run_problem cfg bindings entry) x b})"
proof -
  let ?n = "length (cfg_blocks cfg)" and ?m = "length bindings" and ?blocks = "cfg_blocks cfg"
  note d = inp[unfolded dataflow_input_def]
  have own: "set (bb_bindings blk) \<subseteq> {..<?m}" if "blk \<in> set ?blocks" for blk
    using d that by (auto simp: in_set_conv_nth)
  obtain owns where owns: "map_opt (block_binding_set ?m) ?blocks = Some owns" "length owns = ?n"
    "\<forall>i < ?n. sized ?m (owns ! i) \<and> bset (owns ! i) = set (bb_bindings (?blocks ! i))"
    using map_opt_ok[of ?blocks "block_binding_set ?m" "\<lambda>blk s. sized ?m s \<and> bset s = set (bb_bindings blk)"]
      block_binding_set_ok[OF own] by blast
  obtain gens where gens: "map_opt (gen_set bindings data) ?blocks = Some gens" "length gens = ?n"
    "\<forall>i < ?n. sized ?m (gens ! i) \<and> bset (gens ! i) = block_gen cfg bindings i"
    using map_opt_ok[of ?blocks "gen_set bindings data"
        "\<lambda>blk s. sized ?m s \<and> bset s = assign_all bindings (bb_bindings blk) {}"]
      gen_set_ok[OF _ _ own] d unfolding block_gen_def by blast
  have each: "\<exists>s. do { own \<leftarrow> nth_opt owns (fst e); kill_set bindings data own (snd e) } = Some s
      \<and> sized ?m s \<and> bset s = block_kill cfg bindings (fst e)" if "e \<in> set (List.enumerate 0 ?blocks)" for e
  proof -
    from that obtain i where i: "i < ?n" "e = (i, ?blocks ! i)"
      by (auto simp: in_set_conv_nth enumerate_nth)
    have nth: "nth_opt owns i = Some (owns ! i)" using owns(2) i(1) by (simp add: panic_simps)
    obtain s where "kill_set bindings data (owns ! i) (?blocks ! i) = Some s" "sized ?m s"
      "bset s = block_kill cfg bindings i"
      using kill_set_ok[of names bindings data "?blocks ! i" "owns ! i"] d owns(3) i own[OF nth_mem[OF i(1)]]
      unfolding block_kill_def by blast
    then show ?thesis unfolding i(2) fst_conv snd_conv nth Option.bind_lunit by blast
  qed
  obtain kills where kills0:
    "map_opt (\<lambda>e. do { own \<leftarrow> nth_opt owns (fst e); kill_set bindings data own (snd e) }) (List.enumerate 0 ?blocks) = Some kills"
    "length kills = length (List.enumerate 0 ?blocks)"
    "\<forall>i < length (List.enumerate 0 ?blocks). sized ?m (kills ! i)
      \<and> bset (kills ! i) = block_kill cfg bindings (fst (List.enumerate 0 ?blocks ! i))"
    using map_opt_ok[of "List.enumerate 0 ?blocks"
        "\<lambda>e. do { own \<leftarrow> nth_opt owns (fst e); kill_set bindings data own (snd e) }"
        "\<lambda>e s. sized ?m s \<and> bset s = block_kill cfg bindings (fst e)"] each by blast
  have kills: "map_opt (\<lambda>(i, block). do { own \<leftarrow> nth_opt owns i; kill_set bindings data own block })
      (List.enumerate 0 ?blocks) = Some kills" "length kills = ?n"
    "\<forall>i < ?n. sized ?m (kills ! i) \<and> bset (kills ! i) = block_kill cfg bindings i"
    using kills0 by (simp_all add: case_prod_unfold enumerate_nth)
  let ?p = "\<lparr>ri_cfg = cfg, ri_bindings = bindings, ri_entry = entry, ri_gens = gens, ri_kills = kills\<rparr>"
  have "block_gen cfg bindings b \<subseteq> {..<?m}" if "b < ?n" for b
    using assign_all_within[of bindings _ "{}"] own[OF nth_mem[OF that]] by (fastforce simp: block_gen_def)
  then have valid: "reaching_valid ?p"
    using d gens(2,3) kills(2,3) by (simp add: reaching_valid_def)
  let ?zero = "\<lparr>rd_in = bm_zeros ?n ?m, rd_out = bm_zeros ?n ?m\<rparr>"
  have "reaching_good ?p ?zero"
    using wf_reaching_problem[OF valid] by (simp add: reaching_good_def rising_def mrow_zeros)
  moreover have "reaching_room ?p ?zero + 2 \<le> k"
    using missing_bound[OF wf_reaching_problem[OF valid], of "mrow (rd_out ?zero)"] k
    by (simp add: reaching_room_def reaching_problem_def)
  ultimately obtain r where r: "run_worklist k ?n (\<lambda>b. map fst (successors_of cfg b)) order (reaching_step ?p) ?zero = Some r"
    "reaching_good ?p r" "\<forall>c < ?n. reaching_holds ?p c r"
    using reaching.worklist_solves[of order ?p ?zero k] order valid by auto
  have pr: "arrives (reaching_problem ?p) x b = arrives (run_problem cfg bindings entry) x b"
    "leaves (reaching_problem ?p) x b = leaves (run_problem cfg bindings entry) x b" if "b < ?n" for x b
    by (rule gen_kill_cong; use that gens(3) kills(3) preds_succs[of cfg] d in
        \<open>auto simp: reaching_problem_def run_problem_def\<close>)+
  have sol: "mrow (rd_in r) b = {x. arrives (reaching_problem ?p) x b}"
    "mrow (rd_out r) b = {x. leaves (reaching_problem ?p) x b}" if "b < ?n" for b
    using solution_paths[of "reaching_problem ?p" "mrow (rd_in r)" "mrow (rd_out r)" b] r(2,3) that
    by (simp_all add: reaching_good_def reaching_holds_def reaching_problem_def)
  have "compute_reaching_definitions_dense k cfg bindings data entry order = Some r"
    unfolding compute_reaching_definitions_dense_def Let_def owns(1) gens(1) kills(1) Option.bind_lunit
      run_forward_dataflow_worklist_def using r(1) by simp
  moreover have "shaped ?n ?m (rd_in r)" "shaped ?n ?m (rd_out r)" using r(2) by (simp_all add: reaching_good_def)
  ultimately show ?thesis using sol pr by blast
qed

section \<open>Properties\<close>

text \<open>C3: Reaching definitions are computed and are exact: the fixpoint stops within as many rounds as the
  matrix has cells (and two), and a binding is in the row of a block exactly when some run of the script
  arrives at the block (or leaves it) with that binding among the definitions in force, where every
  assignment replaces the definitions of its name and an append adds to them.\<close>

theorem reaching_definitions_exact:
  assumes "dataflow_input cfg names bindings data entry" "bindings_placed cfg entry"
    and "compute_reverse_postorder cfg = Some order"
    and "length (cfg_blocks cfg) * length bindings + 2 \<le> k"
  shows "\<exists>r. compute_reaching_definitions_dense k cfg bindings data entry order = Some r
    \<and> (\<forall>b < length (cfg_blocks cfg). \<forall>i < length bindings.
         (bm_contains (rd_in r) b i \<longleftrightarrow> (\<exists>X. definitions_at cfg bindings entry b X \<and> i \<in> X))
         \<and> (bm_contains (rd_out r) b i \<longleftrightarrow> (\<exists>X. definitions_at cfg bindings entry b X
              \<and> i \<in> assign_all bindings (bb_bindings (cfg_blocks cfg ! b)) X)))"
proof -
  let ?n = "length (cfg_blocks cfg)" and ?m = "length bindings" and ?pr = "run_problem cfg bindings entry"
  note d = assms(1)[unfolded dataflow_input_def]
  have ok: "cfg_ok cfg" using d by blast
  have order: "set order = {..<?n}" using reverse_postorder_ok[OF ok] assms(3) by auto
  obtain r where r: "compute_reaching_definitions_dense k cfg bindings data entry order = Some r"
    "shaped ?n ?m (rd_in r)" "shaped ?n ?m (rd_out r)"
    "\<forall>b < ?n. mrow (rd_in r) b = {x. arrives ?pr x b} \<and> mrow (rd_out r) b = {x. leaves ?pr x b}"
    using reaching_definitions_ok[OF assms(1) order assms(4)] by blast
  note runs = arrive_runs[OF ok assms(2), of bindings]
  have arr: "arrives ?pr i b \<longleftrightarrow> (\<exists>X. definitions_at cfg bindings entry b X \<and> i \<in> X)" if "b < ?n" for b i
    using runs(1)[OF _ _ _ that, of i] runs_arrive[OF ok] d by blast
  have lea: "leaves ?pr i b \<longleftrightarrow> (\<exists>X. definitions_at cfg bindings entry b X
      \<and> i \<in> assign_all bindings (bb_bindings (cfg_blocks cfg ! b)) X)" if "b < ?n" for b i
    using runs(2)[OF _ _ _ that, of i] runs_leave[OF ok] d by blast
  show ?thesis
    using r arr lea by (auto simp: matrix_contains)
qed

text \<open>The script \<open>x=1; x=2; echo "$x$y"\<close>.\<close>

definition flow_program :: recorded_program where
  "flow_program = program_default\<lparr>
     rp_commands := [demo_command 0 3 Linear, demo_command 5 8 Linear, demo_command 10 21 Linear],
     rp_command_sequence_items := [0, 1, 2], rp_file_commands := demo_range 0 3\<rparr>"

definition flow_bindings :: "span_key \<rightharpoonup> binding_id list" where
  "flow_bindings key = (if key = (0, 3) then Some [0] else if key = (5, 8) then Some [1] else None)"

definition flow_references :: "span_key \<rightharpoonup> reference_id list" where
  "flow_references key = (if key = (10, 21) then Some [0, 1] else None)"

definition flow_assignments :: "binding list" where
  "flow_assignments = [sample_binding 0 ''x'', sample_binding 1 ''x'']"

lemma flow_program_facts:
  "covered (\<lambda>_. 0) 1 flow_program" "bindings_ok flow_program no_calls"
  "length (rp_function_bodies flow_program) + length (program_calls flow_program no_calls) < 1"
proof -
  have "wf_program (\<lambda>_. 0) flow_program" by code_simp
  then show "covered (\<lambda>_. 0) 1 flow_program" by (simp add: covered_def)
qed (code_simp, code_simp)

lemma flow_graph:
  "\<exists>cfg. build_control_flow_graph 1 1 flow_program flow_bindings flow_references no_calls = Some cfg \<and> cfg_ok cfg
    \<and> map bb_bindings (cfg_blocks cfg) = [[0], [1], []] \<and> map bb_references (cfg_blocks cfg) = [[], [], [0, 1]]
    \<and> map (map fst) (cfg_successors cfg) = [[1], [2], []] \<and> cfg_scope_entries cfg = [(0, 0)]"
proof -
  let ?g = "build_control_flow_graph 1 1 flow_program flow_bindings flow_references no_calls"
  obtain cfg where cfg: "?g = Some cfg" "cfg_ok cfg"
    using build_cfg_ok[OF flow_program_facts] succeedsD by blast
  have "map_option (\<lambda>g. map bb_bindings (cfg_blocks g)) ?g = Some [[0], [1], []]"
    "map_option (\<lambda>g. map bb_references (cfg_blocks g)) ?g = Some [[], [], [0, 1]]"
    "map_option (\<lambda>g. map (map fst) (cfg_successors g)) ?g = Some [[1], [2], []]"
    "map_option cfg_scope_entries ?g = Some [(0, 0)]" by code_simp+
  then show ?thesis using cfg by (simp del: One_nat_def)
qed

text \<open>The indexes of that script, from which its analyses start.\<close>

lemma flow_setup:
  "\<exists>cfg names rs ss data order. build_control_flow_graph 1 1 flow_program flow_bindings flow_references no_calls = Some cfg
    \<and> build_name_table flow_assignments [] [] = (names, rs, ss)
    \<and> build_dense_binding_data flow_assignments names = Some data
    \<and> compute_reverse_postorder cfg = Some order
    \<and> dataflow_input cfg names flow_assignments data [] \<and> bindings_placed cfg []
    \<and> length (cfg_blocks cfg) = 3 \<and> nt_len names = 1 \<and> nt_get names ''x'' = Some 0
    \<and> (\<forall>b < 3. bb_bindings (cfg_blocks cfg ! b) = [[0], [1], []] ! b) \<and> 2 \<in> fst ` set (successors_of cfg 1)"
proof -
  obtain cfg where built: "build_control_flow_graph 1 1 flow_program flow_bindings flow_references no_calls = Some cfg"
    and cfg: "cfg_ok cfg" "map bb_bindings (cfg_blocks cfg) = [[0], [1], []]"
    "map (map fst) (cfg_successors cfg) = [[1], [2], []]"
    using flow_graph by (elim exE conjE) (rule that)
  have n: "length (cfg_blocks cfg) = 3" using arg_cong[OF cfg(2), of length] by simp
  have own: "bb_bindings (cfg_blocks cfg ! b) = [[0], [1], []] ! b" if "b < 3" for b
    using arg_cong[OF cfg(2), of "\<lambda>xs. xs ! b"] that n by simp
  have "map fst (cfg_successors cfg ! 1) = [2]"
    using arg_cong[OF cfg(3), of "\<lambda>xs. xs ! 1"] cfg_okD(1)[OF cfg(1)] n by simp
  then have "2 \<in> set (map fst (cfg_successors cfg ! 1))" by simp
  then have succ: "2 \<in> fst ` set (successors_of cfg 1)"
    using cfg_okD(1)[OF cfg(1)] n by (simp add: successors_of_def nth_opt_def)
  obtain names rs ss where t: "build_name_table flow_assignments [] [] = (names, rs, ss)" by (metis prod_cases3)
  have ix: "bindings_indexed flow_assignments"
    by (simp add: bindings_indexed_def flow_assignments_def sample_binding_def upt_rec)
  obtain data where data: "build_dense_binding_data flow_assignments names = Some data"
    "binding_data_ok names flow_assignments data"
    using build_dense_binding_data_ok[OF build_name_table_ok(1,2)[OF t] ix] by blast
  have inp: "dataflow_input cfg names flow_assignments data []"
    using cfg(1) data(2) build_name_table_ok(1)[OF t] n own
    by (auto simp: dataflow_input_def flow_assignments_def less_Suc_eq numeral_3_eq_3)
  have placed: "bindings_placed cfg []"
    using n own by (auto simp: bindings_placed_def less_Suc_eq numeral_3_eq_3)
  have "nt_len names = 1" "nt_get names ''x'' = Some 0"
    using t by (auto simp: build_name_table_def flow_assignments_def sample_binding_def nt_intern_def nt_get_def
        nt_len_def nt_empty_def Let_def split: if_splits)
  then show ?thesis
    using built t data(1) inp placed n own succ reverse_postorder_ok[OF cfg(1)] by blast
qed

theorem reaching_definitions_exact_witness:
  "\<exists>cfg data order r. build_control_flow_graph 1 1 flow_program flow_bindings flow_references no_calls = Some cfg
    \<and> compute_reverse_postorder cfg = Some order
    \<and> compute_reaching_definitions_dense 8 cfg flow_assignments data [] order = Some r \<and> bm_contains (rd_in r) 2 1"
proof -
  obtain cfg names data order where
    built: "build_control_flow_graph 1 1 flow_program flow_bindings flow_references no_calls = Some cfg"
    and order: "compute_reverse_postorder cfg = Some order"
    and inp: "dataflow_input cfg names flow_assignments data []" and placed: "bindings_placed cfg []"
    and n: "length (cfg_blocks cfg) = 3" and own: "\<forall>b < 3. bb_bindings (cfg_blocks cfg ! b) = [[0], [1], []] ! b"
    and succ: "2 \<in> fst ` set (successors_of cfg 1)"
    using flow_setup by (elim exE conjE) (rule that)
  have "definitions_at cfg flow_assignments [] 1 {}" using n by (intro run_starts) auto
  from run_steps[OF this succ] own[rule_format, of 1] have "definitions_at cfg flow_assignments [] 2 {1}"
    by (simp add: assign_all_def assign_def cong: if_cong)
  then have at: "\<exists>X. definitions_at cfg flow_assignments [] 2 X \<and> 1 \<in> X" by blast
  have m: "length flow_assignments = 2" by (simp add: flow_assignments_def)
  obtain r where r: "compute_reaching_definitions_dense 8 cfg flow_assignments data [] order = Some r"
    "\<forall>b < length (cfg_blocks cfg). \<forall>i < length flow_assignments. bm_contains (rd_in r) b i
       \<longleftrightarrow> (\<exists>X. definitions_at cfg flow_assignments [] b X \<and> i \<in> X)"
    using reaching_definitions_exact[OF inp placed order, of 8] n m by auto
  from r(2)[rule_format, of 2 1] at have "bm_contains (rd_in r) 2 1" using n m by simp
  with r(1) built order show ?thesis by (intro exI conjI)
qed

end
