(* ===== verification/Initialized_Names.thy ===== *)
theory Initialized_Names
  imports Reaching_Definitions
begin

text \<open>
  Model of \<open>compute_initialized_name_states_dense_with_extra_name_gens\<close> in
  \<open>crates/shucked-semantic/src/dataflow/dense.rs\<close>: which names may be and which must be initialised
  before and after every block.  The two fixpoints run together on four bit matrices; the possible names
  rise from below, the definite names sink from above.  Both are verified as the facts that arrive along
  paths: a name is definite where no path delivers it unset.
\<close>

section \<open>What the blocks do to names\<close>

record name_effects =
  ne_maybe_gen :: dense_bit_matrix
  ne_definite_gen :: dense_bit_matrix
  ne_overwritten :: dense_bit_matrix

definition note_initialized ::
  "contract_certainty option \<Rightarrow> block_id \<Rightarrow> nat \<Rightarrow> name_effects \<Rightarrow> name_effects option" where
  "note_initialized certainty block name e =
     (case certainty of
        Some Definite \<Rightarrow> do {
          maybe \<leftarrow> bm_insert (ne_maybe_gen e) block name;
          definite \<leftarrow> bm_insert (ne_definite_gen e) block name;
          Some (e\<lparr>ne_maybe_gen := maybe, ne_definite_gen := definite\<rparr>) }
      | Some Possible \<Rightarrow> do {
          maybe \<leftarrow> bm_insert (ne_maybe_gen e) block name;
          Some (e\<lparr>ne_maybe_gen := maybe\<rparr>) }
      | None \<Rightarrow> Some e)"

definition note_name_binding ::
  "binding list \<Rightarrow> dense_binding_data \<Rightarrow> block_id \<Rightarrow> binding_id \<Rightarrow> name_effects \<Rightarrow> name_effects option" where
  "note_name_binding bindings data block i e = do {
     name \<leftarrow> nth_opt (dbd_binding_name_ids data) i;
     overwritten \<leftarrow> bm_insert (ne_overwritten e) block name;
     info \<leftarrow> nth_opt bindings i;
     note_initialized (binding_initializes_name info) block name (e\<lparr>ne_overwritten := overwritten\<rparr>) }"

definition name_effects_of ::
  "control_flow_graph \<Rightarrow> binding list \<Rightarrow> dense_binding_data \<Rightarrow> (block_id \<times> nat) list \<Rightarrow> name_effects option" where
  "name_effects_of cfg bindings data extra = do {
     let zeros = bm_zeros (length (cfg_blocks cfg)) (length (dbd_bindings_for_name data));
     e \<leftarrow> fold_opt (\<lambda>block. fold_opt (note_name_binding bindings data (bb_id block)) (bb_bindings block))
       (cfg_blocks cfg) \<lparr>ne_maybe_gen = zeros, ne_definite_gen = zeros, ne_overwritten = zeros\<rparr>;
     fold_opt (\<lambda>(block, name). note_initialized (Some Definite) block name) extra e }"

text \<open>The names the entry bindings possibly and definitely initialise.\<close>

definition note_entry ::
  "binding list \<Rightarrow> dense_binding_data \<Rightarrow> binding_id \<Rightarrow> dense_bit_set \<times> dense_bit_set
    \<Rightarrow> (dense_bit_set \<times> dense_bit_set) option" where
  "note_entry bindings data i = (\<lambda>(maybe, definite). do {
     name \<leftarrow> nth_opt (dbd_binding_name_ids data) i;
     info \<leftarrow> nth_opt bindings i;
     case binding_initializes_name info of
       Some Definite \<Rightarrow> do {
         maybe \<leftarrow> bs_insert maybe name; definite \<leftarrow> bs_insert definite name; Some (maybe, definite) }
     | Some Possible \<Rightarrow> do { maybe \<leftarrow> bs_insert maybe name; Some (maybe, definite) }
     | None \<Rightarrow> Some (maybe, definite) })"

definition entry_names ::
  "binding list \<Rightarrow> dense_binding_data \<Rightarrow> binding_id list \<Rightarrow> (dense_bit_set \<times> dense_bit_set) option" where
  "entry_names bindings data entry_bindings =
     (let none = bs_new (length (dbd_bindings_for_name data))
      in fold_opt (note_entry bindings data) entry_bindings (none, none))"

section \<open>The transfer of a block and the fixpoint\<close>

record dense_initialized_name_states =
  in_maybe_in :: dense_bit_matrix
  in_maybe_out :: dense_bit_matrix
  in_definite_in :: dense_bit_matrix
  in_definite_out :: dense_bit_matrix

definition uses_virtual_entry_boundary :: "control_flow_graph \<Rightarrow> block_id \<Rightarrow> bool" where
  "uses_virtual_entry_boundary cfg block \<longleftrightarrow> block \<in> entry_binding_root_blocks cfg
     \<and> list_all (\<lambda>p. list_ex (\<lambda>(successor, kind). successor = block \<and> kind = LoopBack) (successors_of cfg p))
         (predecessors_of cfg block)"

definition incoming_maybe ::
  "control_flow_graph \<Rightarrow> nat \<Rightarrow> dense_bit_set \<Rightarrow> block_id \<Rightarrow> dense_bit_matrix \<Rightarrow> dense_bit_set option" where
  "incoming_maybe cfg name_count entry_maybe block maybe_out = do {
     incoming \<leftarrow> fold_opt (\<lambda>p incoming. do {
         row \<leftarrow> bm_row maybe_out p; Some (bs_union_with_words incoming row) })
       (predecessors_of cfg block) (bs_new name_count);
     Some (if block \<in> entry_binding_root_blocks cfg then bs_union_with incoming entry_maybe else incoming) }"

definition incoming_definite ::
  "control_flow_graph \<Rightarrow> nat \<Rightarrow> dense_bit_set \<Rightarrow> block_id \<Rightarrow> dense_bit_matrix \<Rightarrow> dense_bit_set option" where
  "incoming_definite cfg name_count entry_definite block definite_out = do {
     let predecessors = predecessors_of cfg block;
     let virtual = uses_virtual_entry_boundary cfg block;
     incoming \<leftarrow> (if virtual then bs_copy_from (bs_new name_count) entry_definite
       else (case predecessors of
               first # _ \<Rightarrow> do {
                 row \<leftarrow> bm_row definite_out first; bs_copy_from_words (bs_new name_count) row }
             | [] \<Rightarrow> Some (bs_clear (bs_new name_count))));
     fold_opt (\<lambda>(i, p) incoming.
         if \<not> virtual \<and> i = 0 then Some incoming
         else do { row \<leftarrow> bm_row definite_out p; Some (bs_intersect_with_words incoming row) })
       (List.enumerate 0 predecessors) incoming }"

definition outgoing_names ::
  "nat \<Rightarrow> dense_bit_matrix \<Rightarrow> dense_bit_matrix \<Rightarrow> block_id \<Rightarrow> dense_bit_set \<Rightarrow> dense_bit_set option" where
  "outgoing_names name_count overwritten gen block incoming = do {
     outgoing \<leftarrow> bs_copy_from (bs_new name_count) incoming;
     killed \<leftarrow> bm_row overwritten block;
     generated \<leftarrow> bm_row gen block;
     Some (bs_union_with_words (bs_subtract_with_words outgoing killed) generated) }"

definition initialized_transfer ::
  "control_flow_graph \<Rightarrow> nat \<Rightarrow> name_effects \<Rightarrow> dense_bit_set \<times> dense_bit_set
    \<Rightarrow> dense_initialized_name_states transfer" where
  "initialized_transfer cfg name_count e entry block s = do {
     inc_maybe \<leftarrow> incoming_maybe cfg name_count (fst entry) block (in_maybe_out s);
     inc_definite \<leftarrow> incoming_definite cfg name_count (snd entry) block (in_definite_out s);
     out_maybe \<leftarrow> outgoing_names name_count (ne_overwritten e) (ne_maybe_gen e) block inc_maybe;
     out_definite \<leftarrow> outgoing_names name_count (ne_overwritten e) (ne_definite_gen e) block inc_definite;
     (_, maybe_in) \<leftarrow> bm_replace_row_if_changed (in_maybe_in s) block (bs_words inc_maybe);
     (_, definite_in) \<leftarrow> bm_replace_row_if_changed (in_definite_in s) block (bs_words inc_definite);
     (maybe_changed, maybe_out) \<leftarrow> bm_replace_row_if_changed (in_maybe_out s) block (bs_words out_maybe);
     (definite_changed, definite_out) \<leftarrow>
       bm_replace_row_if_changed (in_definite_out s) block (bs_words out_definite);
     Some (maybe_changed \<or> definite_changed,
       \<lparr>in_maybe_in = maybe_in, in_maybe_out = maybe_out,
        in_definite_in = definite_in, in_definite_out = definite_out\<rparr>) }"

definition compute_initialized_names_with_extra ::
  "nat \<Rightarrow> control_flow_graph \<Rightarrow> binding list \<Rightarrow> dense_binding_data \<Rightarrow> binding_id list \<Rightarrow> (block_id \<times> nat) list
    \<Rightarrow> block_id list \<Rightarrow> dense_initialized_name_states option" where
  "compute_initialized_names_with_extra k cfg bindings data entry_bindings extra order = do {
     let block_count = length (cfg_blocks cfg);
     let name_count = length (dbd_bindings_for_name data);
     e \<leftarrow> name_effects_of cfg bindings data extra;
     entry \<leftarrow> entry_names bindings data entry_bindings;
     all_names \<leftarrow> fold_opt (\<lambda>i s. bs_insert s i) [0..<name_count] (bs_new name_count);
     let zeros = bm_zeros block_count name_count;
     full \<leftarrow> bm_fill_all_rows_from_words zeros (bs_words all_names);
     run_forward_dataflow_worklist k cfg order (initialized_transfer cfg name_count e entry)
       \<lparr>in_maybe_in = zeros, in_maybe_out = zeros, in_definite_in = full, in_definite_out = full\<rparr> }"

definition compute_initialized_names ::
  "nat \<Rightarrow> control_flow_graph \<Rightarrow> binding list \<Rightarrow> dense_binding_data \<Rightarrow> binding_id list \<Rightarrow> block_id list
    \<Rightarrow> dense_initialized_name_states option" where
  "compute_initialized_names k cfg bindings data entry_bindings order =
     compute_initialized_names_with_extra k cfg bindings data entry_bindings [] order"

section \<open>The effects of the blocks as sets\<close>

text \<open>The names a list of bindings binds, possibly initialises and definitely initialises.\<close>

definition bound_names :: "name_table \<Rightarrow> binding list \<Rightarrow> binding_id list \<Rightarrow> nat set" where
  "bound_names names bindings is = {n. \<exists>i \<in> set is. nt_get names (b_name (bindings ! i)) = Some n}"

definition initialized_names ::
  "contract_certainty set \<Rightarrow> name_table \<Rightarrow> binding list \<Rightarrow> binding_id list \<Rightarrow> nat set" where
  "initialized_names cs names bindings is = {n. \<exists>i \<in> set is. nt_get names (b_name (bindings ! i)) = Some n
     \<and> (\<exists>c \<in> cs. binding_initializes_name (bindings ! i) = Some c)}"

definition effects_shaped :: "nat \<Rightarrow> nat \<Rightarrow> name_effects \<Rightarrow> bool" where
  "effects_shaped rows n e \<longleftrightarrow> shaped rows n (ne_maybe_gen e) \<and> shaped rows n (ne_definite_gen e)
     \<and> shaped rows n (ne_overwritten e)"

definition adds_names :: "nat \<Rightarrow> block_id \<Rightarrow> nat set \<Rightarrow> nat set \<Rightarrow> nat set \<Rightarrow> name_effects \<Rightarrow> name_effects \<Rightarrow> bool" where
  "adds_names rows b M D W e e' \<longleftrightarrow>
     (\<forall>r < rows. mrow (ne_maybe_gen e') r = mrow (ne_maybe_gen e) r \<union> (if r = b then M else {})
       \<and> mrow (ne_definite_gen e') r = mrow (ne_definite_gen e) r \<union> (if r = b then D else {})
       \<and> mrow (ne_overwritten e') r = mrow (ne_overwritten e) r \<union> (if r = b then W else {}))"

lemma adds_nothing: "adds_names rows b {} {} {} e e"
  by (simp add: adds_names_def)

lemma adds_trans:
  "adds_names rows b M D W e e1 \<Longrightarrow> adds_names rows b M' D' W' e1 e2 \<Longrightarrow>
   adds_names rows b (M \<union> M') (D \<union> D') (W \<union> W') e e2"
  unfolding adds_names_def by auto

lemma insert_name:
  assumes "shaped rows n m" "b < rows" "x < n"
  shows "\<exists>m'. bm_insert m b x = Some m' \<and> shaped rows n m'
    \<and> (\<forall>r < rows. mrow m' r = mrow m r \<union> (if r = b then {x} else {}))"
  using matrix_insert[OF assms] by auto

lemma note_initialized_ok:
  assumes "effects_shaped rows n e" "b < rows" "x < n"
  shows "\<exists>e'. note_initialized c b x e = Some e' \<and> effects_shaped rows n e'
    \<and> adds_names rows b (if c = None then {} else {x}) (if c = Some Definite then {x} else {}) {} e e'"
proof -
  from assms(1) have m: "shaped rows n (ne_maybe_gen e)" and d: "shaped rows n (ne_definite_gen e)"
    by (simp_all add: effects_shaped_def)
  from insert_name[OF m assms(2,3)] obtain m' where m': "bm_insert (ne_maybe_gen e) b x = Some m'" "shaped rows n m'"
    "\<forall>r < rows. mrow m' r = mrow (ne_maybe_gen e) r \<union> (if r = b then {x} else {})" by blast
  from insert_name[OF d assms(2,3)] obtain d' where d': "bm_insert (ne_definite_gen e) b x = Some d'" "shaped rows n d'"
    "\<forall>r < rows. mrow d' r = mrow (ne_definite_gen e) r \<union> (if r = b then {x} else {})" by blast
  show ?thesis
  proof (cases c)
    case None
    then show ?thesis using assms(1) by (simp add: note_initialized_def adds_nothing)
  next
    case (Some certainty)
    then show ?thesis
      using m' d' assms(1) by (cases certainty) (auto simp: note_initialized_def effects_shaped_def adds_names_def)
  qed
qed

lemma note_name_binding_ok:
  assumes "names_ok names" "binding_data_ok names bindings data" "i < length bindings"
    and "effects_shaped rows (nt_len names) e" "b < rows"
  shows "\<exists>e'. note_name_binding bindings data b i e = Some e' \<and> effects_shaped rows (nt_len names) e'
    \<and> adds_names rows b (initialized_names UNIV names bindings [i]) (initialized_names {Definite} names bindings [i])
        (bound_names names bindings [i]) e e'"
proof -
  obtain x where x: "nth_opt (dbd_binding_name_ids data) i = Some x" "x < nt_len names"
    "nt_get names (b_name (bindings ! i)) = Some x" using binding_row[OF assms(1-3)] by blast
  let ?c = "binding_initializes_name (bindings ! i)"
  from assms(4) have "shaped rows (nt_len names) (ne_overwritten e)" by (simp add: effects_shaped_def)
  from insert_name[OF this assms(5) x(2)] obtain w where w: "bm_insert (ne_overwritten e) b x = Some w"
    "shaped rows (nt_len names) w" "\<forall>r < rows. mrow w r = mrow (ne_overwritten e) r \<union> (if r = b then {x} else {})" by blast
  let ?e = "e\<lparr>ne_overwritten := w\<rparr>"
  have "effects_shaped rows (nt_len names) ?e" using assms(4) w(2) by (simp add: effects_shaped_def)
  from note_initialized_ok[OF this assms(5) x(2), of ?c] obtain e' where e':
    "note_initialized ?c b x ?e = Some e'" "effects_shaped rows (nt_len names) e'"
    "adds_names rows b (if ?c = None then {} else {x}) (if ?c = Some Definite then {x} else {}) {} ?e e'" by blast
  have "note_name_binding bindings data b i e = Some e'"
    using x(1) w(1) e'(1) assms(3) by (simp add: note_name_binding_def panic_simps)
  moreover have "initialized_names UNIV names bindings [i] = (if ?c = None then {} else {x})"
    "initialized_names {Definite} names bindings [i] = (if ?c = Some Definite then {x} else {})"
    "bound_names names bindings [i] = {x}"
    using x(3) by (auto simp: initialized_names_def bound_names_def)
  ultimately show ?thesis using e' w(3) by (auto simp: adds_names_def)
qed

lemma names_Cons:
  "initialized_names cs names bindings (i # is) =
     initialized_names cs names bindings [i] \<union> initialized_names cs names bindings is"
  "bound_names names bindings (i # is) = bound_names names bindings [i] \<union> bound_names names bindings is"
  by (auto simp: initialized_names_def bound_names_def)

lemma note_bindings_ok:
  assumes "names_ok names" "binding_data_ok names bindings data" "set is \<subseteq> {..<length bindings}" "b < rows"
    and "effects_shaped rows (nt_len names) e"
  shows "\<exists>e'. fold_opt (note_name_binding bindings data b) is e = Some e' \<and> effects_shaped rows (nt_len names) e'
    \<and> adds_names rows b (initialized_names UNIV names bindings is) (initialized_names {Definite} names bindings is)
        (bound_names names bindings is) e e'"
  using assms(3,5)
proof (induction "is" arbitrary: e)
  case Nil
  then show ?case by (simp add: initialized_names_def bound_names_def adds_nothing)
next
  case (Cons i "is")
  then have "i < length bindings" by simp
  from note_name_binding_ok[OF assms(1,2) this Cons.prems(2) assms(4)] obtain e1 where e1:
    "note_name_binding bindings data b i e = Some e1" "effects_shaped rows (nt_len names) e1"
    "adds_names rows b (initialized_names UNIV names bindings [i]) (initialized_names {Definite} names bindings [i])
        (bound_names names bindings [i]) e e1" by blast
  from Cons.IH[OF _ e1(2)] Cons.prems(1) obtain e2 where e2:
    "fold_opt (note_name_binding bindings data b) is e1 = Some e2" "effects_shaped rows (nt_len names) e2"
    "adds_names rows b (initialized_names UNIV names bindings is) (initialized_names {Definite} names bindings is)
        (bound_names names bindings is) e1 e2" by auto
  show ?case
    unfolding names_Cons(1)[of _ _ _ i "is"] names_Cons(2)[of _ _ i "is"] fold_opt.simps e1(1) Option.bind_lunit
    using e2(1,2) adds_trans[OF e1(3) e2(3)] by blast
qed

text \<open>All blocks one after the other: each fills its own row.\<close>

definition effects_are ::
  "nat \<Rightarrow> (block_id \<Rightarrow> nat set) \<Rightarrow> (block_id \<Rightarrow> nat set) \<Rightarrow> (block_id \<Rightarrow> nat set) \<Rightarrow> name_effects \<Rightarrow> bool" where
  "effects_are rows M D W e \<longleftrightarrow> (\<forall>r < rows. mrow (ne_maybe_gen e) r = M r \<and> mrow (ne_definite_gen e) r = D r
     \<and> mrow (ne_overwritten e) r = W r)"

lemma effects_after:
  assumes "effects_are rows M D W e" "adds_names rows b X Y Z e e'"
  shows "effects_are rows (\<lambda>r. M r \<union> (if r = b then X else {})) (\<lambda>r. D r \<union> (if r = b then Y else {}))
    (\<lambda>r. W r \<union> (if r = b then Z else {})) e'"
  using assms by (simp add: effects_are_def adds_names_def)

lemma effects_cong:
  "effects_are rows M D W e \<Longrightarrow> (\<And>r. r < rows \<Longrightarrow> M r = M' r \<and> D r = D' r \<and> W r = W' r) \<Longrightarrow>
   effects_are rows M' D' W' e"
  by (simp add: effects_are_def)

lemma note_blocks_ok:
  assumes "names_ok names" "binding_data_ok names bindings data"
    and "\<forall>i < n. set (own i) \<subseteq> {..<length bindings}" "m \<le> n" "n \<le> rows"
    and "map bb_id blocks = [m..<n]" "\<forall>i < length blocks. bb_bindings (blocks ! i) = own (m + i)"
    and "effects_shaped rows (nt_len names) e"
    and "effects_are rows (\<lambda>r. if r < m then initialized_names UNIV names bindings (own r) else {})
      (\<lambda>r. if r < m then initialized_names {Definite} names bindings (own r) else {})
      (\<lambda>r. if r < m then bound_names names bindings (own r) else {}) e"
  shows "\<exists>e'. fold_opt (\<lambda>block. fold_opt (note_name_binding bindings data (bb_id block)) (bb_bindings block)) blocks e
      = Some e' \<and> effects_shaped rows (nt_len names) e'
    \<and> effects_are rows (\<lambda>r. if r < n then initialized_names UNIV names bindings (own r) else {})
      (\<lambda>r. if r < n then initialized_names {Definite} names bindings (own r) else {})
      (\<lambda>r. if r < n then bound_names names bindings (own r) else {}) e'"
  using assms(4-)
proof (induction blocks arbitrary: m e)
  case Nil
  then have "m = n" using Nil(3)[symmetric] by (auto simp: upt_eq_Nil_conv)
  with Nil show ?case by auto
next
  case (Cons blk blocks)
  have m: "m < n" using Cons.prems(3) by (cases "m < n") auto
  have ids: "bb_id blk = m" "map bb_id blocks = [Suc m..<n]" using Cons.prems(3) m by (simp_all add: upt_conv_Cons)
  have own: "bb_bindings blk = own m" "\<forall>i < length blocks. bb_bindings (blocks ! i) = own (Suc m + i)"
    using Cons.prems(4) by (auto simp: nth_Cons split: nat.splits dest: spec[of _ 0] spec[of _ "Suc _"])
  have mr: "m < rows" using m Cons.prems(2) by simp
  from note_bindings_ok[OF assms(1,2) assms(3)[rule_format, OF m] mr Cons.prems(5)] obtain e1 where e1:
    "fold_opt (note_name_binding bindings data m) (own m) e = Some e1" "effects_shaped rows (nt_len names) e1"
    "adds_names rows m (initialized_names UNIV names bindings (own m))
      (initialized_names {Definite} names bindings (own m)) (bound_names names bindings (own m)) e e1" by blast
  have "effects_are rows (\<lambda>r. if r < Suc m then initialized_names UNIV names bindings (own r) else {})
      (\<lambda>r. if r < Suc m then initialized_names {Definite} names bindings (own r) else {})
      (\<lambda>r. if r < Suc m then bound_names names bindings (own r) else {}) e1"
    by (rule effects_cong[OF effects_after[OF Cons.prems(6) e1(3)]]) (simp add: less_Suc_eq)
  from Cons.IH[OF Suc_leI[OF m] Cons.prems(2) ids(2) own(2) e1(2) this] e1(1) ids(1) own(1) show ?case by simp
qed

lemma note_extra_ok:
  assumes "\<forall>(b, x) \<in> set extra. b < rows \<and> x < n" "effects_shaped rows n e" "effects_are rows M D W e"
  shows "\<exists>e'. fold_opt (\<lambda>(b, x). note_initialized (Some Definite) b x) extra e = Some e' \<and> effects_shaped rows n e'
    \<and> effects_are rows (\<lambda>r. M r \<union> {x. (r, x) \<in> set extra}) (\<lambda>r. D r \<union> {x. (r, x) \<in> set extra}) W e'"
  using assms
proof (induction extra arbitrary: e M D W)
  case Nil
  then show ?case by simp
next
  case (Cons bx extra)
  obtain b x where bx: "bx = (b, x)" by (cases bx)
  with Cons.prems(1) have "b < rows" "x < n" by auto
  from note_initialized_ok[OF Cons.prems(2) this, of "Some Definite"] obtain e1 where e1:
    "note_initialized (Some Definite) b x e = Some e1" "effects_shaped rows n e1"
    "adds_names rows b {x} {x} {} e e1" by auto
  have "\<forall>(b, x) \<in> set extra. b < rows \<and> x < n" using Cons.prems(1) by simp
  from Cons.IH[OF this e1(2) effects_after[OF Cons.prems(3) e1(3)]] obtain e2 where e2:
    "fold_opt (\<lambda>(b, x). note_initialized (Some Definite) b x) extra e1 = Some e2" "effects_shaped rows n e2"
    "effects_are rows (\<lambda>r. M r \<union> (if r = b then {x} else {}) \<union> {x. (r, x) \<in> set extra})
      (\<lambda>r. D r \<union> (if r = b then {x} else {}) \<union> {x. (r, x) \<in> set extra})
      (\<lambda>r. W r \<union> (if r = b then {} else {})) e2" by blast
  have "effects_are rows (\<lambda>r. M r \<union> {y. (r, y) \<in> set (bx # extra)}) (\<lambda>r. D r \<union> {y. (r, y) \<in> set (bx # extra)}) W e2"
    by (rule effects_cong[OF e2(3)]) (auto simp: bx)
  with e1(1) e2(1,2) show ?case by (simp add: bx)
qed

abbreviation own_bindings :: "control_flow_graph \<Rightarrow> block_id \<Rightarrow> binding_id list" where
  "own_bindings cfg b \<equiv> bb_bindings (cfg_blocks cfg ! b)"

definition extra_names :: "(block_id \<times> nat) list \<Rightarrow> block_id \<Rightarrow> nat set" where
  "extra_names extra b = {x. (b, x) \<in> set extra}"

lemma name_effects_ok:
  assumes inp: "dataflow_input cfg names bindings data entry"
    and extra: "\<forall>(b, x) \<in> set extra. b < length (cfg_blocks cfg) \<and> x < nt_len names"
  shows "\<exists>e. name_effects_of cfg bindings data extra = Some e
    \<and> effects_shaped (length (cfg_blocks cfg)) (nt_len names) e
    \<and> effects_are (length (cfg_blocks cfg))
      (\<lambda>b. initialized_names UNIV names bindings (own_bindings cfg b) \<union> extra_names extra b)
      (\<lambda>b. initialized_names {Definite} names bindings (own_bindings cfg b) \<union> extra_names extra b)
      (\<lambda>b. bound_names names bindings (own_bindings cfg b)) e"
proof -
  let ?n = "length (cfg_blocks cfg)" and ?m = "nt_len names"
  note d = inp[unfolded dataflow_input_def]
  have len: "length (dbd_bindings_for_name data) = ?m" using d by (simp add: binding_data_ok_def)
  let ?zero = "\<lparr>ne_maybe_gen = bm_zeros ?n ?m, ne_definite_gen = bm_zeros ?n ?m, ne_overwritten = bm_zeros ?n ?m\<rparr>"
  have ids: "map bb_id (cfg_blocks cfg) = [0..<?n]" using cfg_okD(3) d by blast
  have zero: "effects_shaped ?n ?m ?zero" by (simp add: effects_shaped_def)
  have none: "effects_are ?n (\<lambda>r. if r < 0 then initialized_names UNIV names bindings (own_bindings cfg r) else {})
      (\<lambda>r. if r < 0 then initialized_names {Definite} names bindings (own_bindings cfg r) else {})
      (\<lambda>r. if r < 0 then bound_names names bindings (own_bindings cfg r) else {}) ?zero"
    by (simp add: effects_are_def mrow_zeros)
  have given: "names_ok names" "binding_data_ok names bindings data"
    "\<forall>i < ?n. set (own_bindings cfg i) \<subseteq> {..<length bindings}" using d by blast+
  have own: "\<forall>i < length (cfg_blocks cfg). bb_bindings (cfg_blocks cfg ! i) = own_bindings cfg (0 + i)" by simp
  have "\<exists>e. fold_opt (\<lambda>block. fold_opt (note_name_binding bindings data (bb_id block)) (bb_bindings block))
      (cfg_blocks cfg) ?zero = Some e \<and> effects_shaped ?n ?m e
    \<and> effects_are ?n (\<lambda>r. if r < ?n then initialized_names UNIV names bindings (own_bindings cfg r) else {})
      (\<lambda>r. if r < ?n then initialized_names {Definite} names bindings (own_bindings cfg r) else {})
      (\<lambda>r. if r < ?n then bound_names names bindings (own_bindings cfg r) else {}) e"
    by (rule note_blocks_ok[OF given le0 order_refl ids own zero none])
  then obtain e1 where e1: "fold_opt (\<lambda>block. fold_opt (note_name_binding bindings data (bb_id block)) (bb_bindings block))
      (cfg_blocks cfg) ?zero = Some e1" "effects_shaped ?n ?m e1"
    "effects_are ?n (\<lambda>r. if r < ?n then initialized_names UNIV names bindings (own_bindings cfg r) else {})
      (\<lambda>r. if r < ?n then initialized_names {Definite} names bindings (own_bindings cfg r) else {})
      (\<lambda>r. if r < ?n then bound_names names bindings (own_bindings cfg r) else {}) e1"
    by blast
  from note_extra_ok[OF extra e1(2,3)] obtain e2 where e2:
    "fold_opt (\<lambda>(b, x). note_initialized (Some Definite) b x) extra e1 = Some e2" "effects_shaped ?n ?m e2"
    and are: "effects_are ?n
      (\<lambda>r. (if r < ?n then initialized_names UNIV names bindings (own_bindings cfg r) else {}) \<union> {x. (r, x) \<in> set extra})
      (\<lambda>r. (if r < ?n then initialized_names {Definite} names bindings (own_bindings cfg r) else {}) \<union> {x. (r, x) \<in> set extra})
      (\<lambda>r. if r < ?n then bound_names names bindings (own_bindings cfg r) else {}) e2" by blast
  have "name_effects_of cfg bindings data extra = Some e2"
    using e1(1) e2(1) by (simp add: name_effects_of_def len)
  with e2(2) effects_cong[OF are] show ?thesis by (auto simp: extra_names_def)
qed

lemma note_entries_ok:
  assumes "names_ok names" "binding_data_ok names bindings data" "set is \<subseteq> {..<length bindings}"
    and "sized (nt_len names) m" "sized (nt_len names) d"
  shows "\<exists>m' d'. fold_opt (note_entry bindings data) is (m, d) = Some (m', d') \<and> sized (nt_len names) m'
    \<and> sized (nt_len names) d' \<and> bset m' = bset m \<union> initialized_names UNIV names bindings is
    \<and> bset d' = bset d \<union> initialized_names {Definite} names bindings is"
  using assms(3-)
proof (induction "is" arbitrary: m d)
  case Nil
  then show ?case by (simp add: initialized_names_def)
next
  case (Cons i "is")
  then have i: "i < length bindings" by simp
  obtain x where x: "nth_opt (dbd_binding_name_ids data) i = Some x" "x < nt_len names"
    "nt_get names (b_name (bindings ! i)) = Some x" using binding_row[OF assms(1,2) i] by blast
  obtain tm where tm: "bs_insert m x = Some tm" "sized (nt_len names) tm" "bset tm = insert x (bset m)"
    using insert_bset[OF Cons.prems(2) x(2)] by blast
  obtain td where td: "bs_insert d x = Some td" "sized (nt_len names) td" "bset td = insert x (bset d)"
    using insert_bset[OF Cons.prems(3) x(2)] by blast
  let ?c = "binding_initializes_name (bindings ! i)"
  obtain m1 d1 where 1: "note_entry bindings data i (m, d) = Some (m1, d1)" "sized (nt_len names) m1"
    "sized (nt_len names) d1" "bset m1 = bset m \<union> (if ?c = None then {} else {x})"
    "bset d1 = bset d \<union> (if ?c = Some Definite then {x} else {})"
  proof (cases ?c)
    case None
    then show ?thesis using that[of m d] x(1) i Cons.prems(2,3) by (simp add: note_entry_def panic_simps)
  next
    case (Some c)
    show ?thesis
    proof (cases c)
      case Definite
      then show ?thesis using that[of tm td] x(1) i tm td Some by (simp add: note_entry_def panic_simps)
    next
      case Possible
      then show ?thesis using that[of tm d] x(1) i tm Cons.prems(3) Some by (simp add: note_entry_def panic_simps)
    qed
  qed
  have "initialized_names UNIV names bindings [i] = (if ?c = None then {} else {x})"
    "initialized_names {Definite} names bindings [i] = (if ?c = Some Definite then {x} else {})"
    using x(3) by (auto simp: initialized_names_def)
  note one = this
  have "set is \<subseteq> {..<length bindings}" using Cons.prems(1) by simp
  from Cons.IH[OF this 1(2,3)] obtain m2 d2 where 2: "fold_opt (note_entry bindings data) is (m1, d1) = Some (m2, d2)"
    "sized (nt_len names) m2" "sized (nt_len names) d2"
    "bset m2 = bset m1 \<union> initialized_names UNIV names bindings is"
    "bset d2 = bset d1 \<union> initialized_names {Definite} names bindings is" by blast
  have "bset m2 = bset m \<union> initialized_names UNIV names bindings (i # is)"
    "bset d2 = bset d \<union> initialized_names {Definite} names bindings (i # is)"
    unfolding names_Cons(1)[of _ _ _ i "is"] one 2(4,5) 1(4,5) by (simp_all only: Un_assoc)
  then show ?case
    unfolding fold_opt.simps 1(1) Option.bind_lunit using 2(1-3) by blast
qed

lemma entry_names_ok:
  assumes inp: "dataflow_input cfg names bindings data entry"
  shows "\<exists>m d. entry_names bindings data entry = Some (m, d) \<and> sized (nt_len names) m \<and> sized (nt_len names) d
    \<and> bset m = initialized_names UNIV names bindings entry
    \<and> bset d = initialized_names {Definite} names bindings entry"
proof -
  note d = inp[unfolded dataflow_input_def]
  have len: "length (dbd_bindings_for_name data) = nt_len names" using d by (simp add: binding_data_ok_def)
  have "\<exists>m d. fold_opt (note_entry bindings data) entry (bs_new (nt_len names), bs_new (nt_len names)) = Some (m, d)
      \<and> sized (nt_len names) m \<and> sized (nt_len names) d
      \<and> bset m = bset (bs_new (nt_len names)) \<union> initialized_names UNIV names bindings entry
      \<and> bset d = bset (bs_new (nt_len names)) \<union> initialized_names {Definite} names bindings entry"
    by (rule note_entries_ok) (use d in simp_all)
  then show ?thesis by (simp add: entry_names_def Let_def len bset_new)
qed

section \<open>The equations of the analysis\<close>

record names_input =
  ni_cfg :: control_flow_graph
  ni_count :: nat
  ni_effects :: name_effects
  ni_entry :: "dense_bit_set \<times> dense_bit_set"

abbreviation ni_blocks :: "names_input \<Rightarrow> nat" where
  "ni_blocks p \<equiv> length (cfg_blocks (ni_cfg p))"

definition names_valid :: "names_input \<Rightarrow> bool" where
  "names_valid p \<longleftrightarrow> cfg_ok (ni_cfg p) \<and> effects_shaped (ni_blocks p) (ni_count p) (ni_effects p)
     \<and> sized (ni_count p) (fst (ni_entry p)) \<and> sized (ni_count p) (snd (ni_entry p))
     \<and> bset (fst (ni_entry p)) \<subseteq> {..<ni_count p} \<and> bset (snd (ni_entry p)) \<subseteq> {..<ni_count p}
     \<and> (\<forall>b < ni_blocks p. mrow (ne_maybe_gen (ni_effects p)) b \<subseteq> {..<ni_count p}
          \<and> mrow (ne_definite_gen (ni_effects p)) b \<subseteq> {..<ni_count p}
          \<and> mrow (ne_overwritten (ni_effects p)) b \<subseteq> {..<ni_count p})"

text \<open>The names that may be set, and the names that may be unset: the complement of the definite names.\<close>

definition maybe_problem :: "names_input \<Rightarrow> nat gen_kill" where
  "maybe_problem p = \<lparr>gk_blocks = ni_blocks p, gk_universe = {..<ni_count p}, gk_preds = predecessors_of (ni_cfg p),
     gk_init = (\<lambda>b. if b \<in> entry_binding_root_blocks (ni_cfg p) then bset (fst (ni_entry p)) else {}),
     gk_gen = (\<lambda>b. mrow (ne_maybe_gen (ni_effects p)) b), gk_kill = (\<lambda>b. mrow (ne_overwritten (ni_effects p)) b)\<rparr>"

definition unset_problem :: "names_input \<Rightarrow> nat gen_kill" where
  "unset_problem p = \<lparr>gk_blocks = ni_blocks p, gk_universe = {..<ni_count p}, gk_preds = predecessors_of (ni_cfg p),
     gk_init = (\<lambda>b. if uses_virtual_entry_boundary (ni_cfg p) b then {..<ni_count p} - bset (snd (ni_entry p)) else {}),
     gk_gen = (\<lambda>b. mrow (ne_overwritten (ni_effects p)) b - mrow (ne_definite_gen (ni_effects p)) b),
     gk_kill = (\<lambda>b. mrow (ne_definite_gen (ni_effects p)) b)\<rparr>"

abbreviation unset_rows :: "names_input \<Rightarrow> dense_bit_matrix \<Rightarrow> block_id \<Rightarrow> nat set" where
  "unset_rows p m b \<equiv> {..<ni_count p} - mrow m b"

lemma wf_name_problems:
  assumes "names_valid p"
  shows "wf_gen_kill (maybe_problem p)" "wf_gen_kill (unset_problem p)"
  using assms preds_succs[of "ni_cfg p"]
  by (fastforce simp: wf_gen_kill_def maybe_problem_def unset_problem_def names_valid_def)+

lemma incoming_maybe_ok:
  assumes "names_valid p" "b < ni_blocks p" "shaped (ni_blocks p) (ni_count p) m"
  shows "\<exists>t. incoming_maybe (ni_cfg p) (ni_count p) (fst (ni_entry p)) b m = Some t \<and> sized (ni_count p) t
    \<and> bset t = flow_in (maybe_problem p) (mrow m) b"
proof -
  have "set (predecessors_of (ni_cfg p) b) \<subseteq> {..<ni_blocks p}"
    using preds_succs[of "ni_cfg p" b] assms(1,2) by (auto simp: names_valid_def)
  from union_rows[OF assms(3) this sized_new] obtain t where t:
    "fold_opt (\<lambda>p s. do { row \<leftarrow> bm_row m p; Some (bs_union_with_words s row) }) (predecessors_of (ni_cfg p) b)
      (bs_new (ni_count p)) = Some t" "sized (ni_count p) t"
    "bset t = (\<Union>q \<in> set (predecessors_of (ni_cfg p) b). mrow m q)" by (auto simp: bset_new)
  have e: "sized (ni_count p) (fst (ni_entry p))" using assms(1) by (simp add: names_valid_def)
  show ?thesis
    unfolding incoming_maybe_def t(1) Option.bind_lunit
    using t(2,3) union_bset[OF t(2) e] by (auto simp: flow_in_def maybe_problem_def)
qed

lemma intersect_rows:
  assumes "shaped rows n m" "set ps \<subseteq> {..<rows}" "sized n s" "v \<or> 0 < k"
  shows "\<exists>t. fold_opt (\<lambda>(i, p) s. if \<not> v \<and> i = 0 then Some s
      else do { row \<leftarrow> bm_row m p; Some (bs_intersect_with_words s row) }) (List.enumerate k ps) s = Some t
    \<and> sized n t \<and> bset t = bset s \<inter> (\<Inter>p \<in> set ps. mrow m p)"
  using assms(2-)
proof (induction ps arbitrary: k s)
  case (Cons p ps)
  then have "p < rows" by simp
  note row = row_shaped[OF assms(1) this]
  let ?s = "bs_intersect_with_words s (row_words m p)"
  have "sized n ?s" "bset ?s = bset s \<inter> mrow m p"
    using Cons.prems(2) row(2) by (simp, simp add: intersect_words_bset sized_def)
  with Cons.IH[of ?s "Suc k"] Cons.prems row(1) show ?case by (auto simp: Int_assoc)
qed simp

lemma incoming_definite_ok:
  assumes "names_valid p" "b < ni_blocks p" "shaped (ni_blocks p) (ni_count p) m"
    and "\<forall>c < ni_blocks p. mrow m c \<subseteq> {..<ni_count p}"
  shows "\<exists>t. incoming_definite (ni_cfg p) (ni_count p) (snd (ni_entry p)) b m = Some t \<and> sized (ni_count p) t
    \<and> bset t \<subseteq> {..<ni_count p} \<and> {..<ni_count p} - bset t = flow_in (unset_problem p) (unset_rows p m) b"
proof -
  let ?n = "ni_count p" and ?cfg = "ni_cfg p" and ?ps = "predecessors_of (ni_cfg p) b"
  let ?v = "uses_virtual_entry_boundary ?cfg b" and ?U = "{..<ni_count p}"
  have ps: "set ?ps \<subseteq> {..<ni_blocks p}"
    using preds_succs[of ?cfg b] assms(1,2) by (auto simp: names_valid_def)
  have e: "sized ?n (snd (ni_entry p))" "bset (snd (ni_entry p)) \<subseteq> ?U" using assms(1) by (simp_all add: names_valid_def)
  show ?thesis
  proof (cases ?v)
    case True
    from intersect_rows[OF assms(3) ps e(1), of ?v 0] True obtain t where t:
      "fold_opt (\<lambda>(i, p) s. if \<not> ?v \<and> i = 0 then Some s
        else do { row \<leftarrow> bm_row m p; Some (bs_intersect_with_words s row) }) (List.enumerate 0 ?ps) (snd (ni_entry p)) = Some t"
      "sized ?n t" "bset t = bset (snd (ni_entry p)) \<inter> (\<Inter>p \<in> set ?ps. mrow m p)" by auto
    have "?U - bset t = flow_in (unset_problem p) (unset_rows p m) b"
      unfolding t(3) flow_in_def unset_problem_def gen_kill.select_convs using True by auto
    moreover have "incoming_definite ?cfg ?n (snd (ni_entry p)) b m = Some t"
      unfolding incoming_definite_def Let_def copy_bset[OF sized_new e(1)] using True t(1) by simp
    ultimately show ?thesis using t(2,3) e(2) by blast
  next
    case False
    obtain q qs where q: "?ps = q # qs"
    proof (cases ?ps)
      case Nil
      have "b \<in> set (map bb_id (cfg_blocks ?cfg))"
        using assms(1,2) cfg_okD(3)[of ?cfg] by (simp add: names_valid_def)
      with Nil have "b \<in> entry_binding_root_blocks ?cfg" by (auto simp: entry_binding_root_blocks_def)
      with Nil False have "False" by (simp add: uses_virtual_entry_boundary_def)
      then show ?thesis ..
    qed
    with ps have qn: "q < ni_blocks p" "set qs \<subseteq> {..<ni_blocks p}" by auto
    note row = row_shaped[OF assms(3) qn(1)]
    let ?s = "\<lparr>bs_words = row_words m q\<rparr>"
    have s: "sized ?n ?s" "bset ?s = mrow m q" using row(2) by (simp_all add: sized_def)
    from intersect_rows[OF assms(3) qn(2) s(1), of ?v "Suc 0"] obtain t where t:
      "fold_opt (\<lambda>(i, p) s. if \<not> ?v \<and> i = 0 then Some s
        else do { row \<leftarrow> bm_row m p; Some (bs_intersect_with_words s row) }) (List.enumerate (Suc 0) qs) ?s = Some t"
      "sized ?n t" "bset t = mrow m q \<inter> (\<Inter>p \<in> set qs. mrow m p)" using s(2) by auto
    have "bs_copy_from_words (bs_new ?n) (row_words m q) = Some ?s"
      using copy_words[of "bs_new ?n" "row_words m q"] row(2) members_sized[OF sized_new] by simp
    then have "incoming_definite ?cfg ?n (snd (ni_entry p)) b m = Some t"
      unfolding incoming_definite_def Let_def using False q t(1) row(1) by simp
    moreover have "?U - bset t = flow_in (unset_problem p) (unset_rows p m) b"
      unfolding t(3) flow_in_def unset_problem_def gen_kill.select_convs using False q by auto
    moreover have "bset t \<subseteq> ?U" using t(3) assms(4) qn(1) by blast
    ultimately show ?thesis using t(2) by blast
  qed
qed

lemma outgoing_names_ok:
  assumes "shaped rows n w" "shaped rows n g" "b < rows" "sized n s"
  shows "\<exists>t. outgoing_names n w g b s = Some t \<and> sized n t \<and> bset t = (bset s - mrow w b) \<union> mrow g b"
proof -
  note w = row_shaped[OF assms(1,3)] and g = row_shaped[OF assms(2,3)]
  let ?u = "bs_subtract_with_words s (row_words w b)"
  have u: "sized n ?u" "bset ?u = bset s - mrow w b"
    using assms(4) w(2) by (simp, simp add: subtract_words_bset sized_def)
  then have "bset (bs_union_with_words ?u (row_words g b)) = (bset s - mrow w b) \<union> mrow g b"
    using g(2) by (simp add: union_words_bset sized_def)
  with u(1) show ?thesis
    unfolding outgoing_names_def copy_bset[OF sized_new assms(4)] w(1) g(1) by simp
qed

definition names_good :: "names_input \<Rightarrow> dense_initialized_name_states \<Rightarrow> bool" where
  "names_good p s \<longleftrightarrow>
     shaped (ni_blocks p) (ni_count p) (in_maybe_in s) \<and> shaped (ni_blocks p) (ni_count p) (in_maybe_out s)
     \<and> shaped (ni_blocks p) (ni_count p) (in_definite_in s) \<and> shaped (ni_blocks p) (ni_count p) (in_definite_out s)
     \<and> (\<forall>b < ni_blocks p. mrow (in_definite_in s) b \<subseteq> {..<ni_count p} \<and> mrow (in_definite_out s) b \<subseteq> {..<ni_count p})
     \<and> rising (maybe_problem p) (mrow (in_maybe_in s)) (mrow (in_maybe_out s))
     \<and> rising (unset_problem p) (unset_rows p (in_definite_in s)) (unset_rows p (in_definite_out s))"

definition names_hold :: "names_input \<Rightarrow> block_id \<Rightarrow> dense_initialized_name_states \<Rightarrow> bool" where
  "names_hold p b s \<longleftrightarrow> solved (maybe_problem p) (mrow (in_maybe_in s)) (mrow (in_maybe_out s)) b
     \<and> solved (unset_problem p) (unset_rows p (in_definite_in s)) (unset_rows p (in_definite_out s)) b"

definition names_room :: "names_input \<Rightarrow> dense_initialized_name_states \<Rightarrow> nat" where
  "names_room p s = missing (maybe_problem p) (mrow (in_maybe_out s))
     + missing (unset_problem p) (unset_rows p (in_definite_out s))"

abbreviation names_step :: "names_input \<Rightarrow> dense_initialized_name_states transfer" where
  "names_step p \<equiv> initialized_transfer (ni_cfg p) (ni_count p) (ni_effects p) (ni_entry p)"

lemma replace_row:
  assumes "shaped rows n m" "b < rows" "sized n s"
  shows "\<exists>m'. bm_replace_row_if_changed m b (bs_words s) = Some (mrow m b \<noteq> bset s, m') \<and> shaped rows n m'
    \<and> mrow m' b = bset s \<and> (\<forall>c < rows. c \<noteq> b \<longrightarrow> mrow m' c = mrow m c)"
  using matrix_replace[OF assms(1,2) members_sized[OF assms(3)]] by auto

lemma names_step_ok:
  assumes "names_valid p" "b < ni_blocks p" "names_good p s"
  shows "\<exists>s'. names_step p b s = Some (mrow (in_maybe_out s') b \<noteq> mrow (in_maybe_out s) b
        \<or> mrow (in_definite_out s') b \<noteq> mrow (in_definite_out s) b, s')
    \<and> shaped (ni_blocks p) (ni_count p) (in_maybe_in s') \<and> shaped (ni_blocks p) (ni_count p) (in_maybe_out s')
    \<and> shaped (ni_blocks p) (ni_count p) (in_definite_in s') \<and> shaped (ni_blocks p) (ni_count p) (in_definite_out s')
    \<and> (\<forall>c < ni_blocks p. mrow (in_definite_in s') c \<subseteq> {..<ni_count p} \<and> mrow (in_definite_out s') c \<subseteq> {..<ni_count p})
    \<and> recomputed (maybe_problem p) b (mrow (in_maybe_in s)) (mrow (in_maybe_out s))
        (mrow (in_maybe_in s')) (mrow (in_maybe_out s'))
    \<and> recomputed (unset_problem p) b (unset_rows p (in_definite_in s)) (unset_rows p (in_definite_out s))
        (unset_rows p (in_definite_in s')) (unset_rows p (in_definite_out s'))"
proof -
  let ?n = "ni_count p" and ?rows = "ni_blocks p" and ?e = "ni_effects p"
  have sh: "shaped ?rows ?n (in_maybe_in s)" "shaped ?rows ?n (in_maybe_out s)"
    "shaped ?rows ?n (in_definite_in s)" "shaped ?rows ?n (in_definite_out s)"
    and rows: "\<forall>c < ?rows. mrow (in_definite_in s) c \<subseteq> {..<?n}" "\<forall>c < ?rows. mrow (in_definite_out s) c \<subseteq> {..<?n}"
    using assms(3) unfolding names_good_def by blast+
  have esh: "shaped ?rows ?n (ne_maybe_gen ?e)" "shaped ?rows ?n (ne_definite_gen ?e)" "shaped ?rows ?n (ne_overwritten ?e)"
    and egen: "mrow (ne_definite_gen ?e) b \<subseteq> {..<?n}"
    using assms(1,2) by (simp_all add: names_valid_def effects_shaped_def)
  from incoming_maybe_ok[OF assms(1,2) sh(2)] obtain im where im:
    "incoming_maybe (ni_cfg p) ?n (fst (ni_entry p)) b (in_maybe_out s) = Some im" "sized ?n im"
    "bset im = flow_in (maybe_problem p) (mrow (in_maybe_out s)) b" by blast
  from incoming_definite_ok[OF assms(1,2) sh(4) rows(2)] obtain idf where idf:
    "incoming_definite (ni_cfg p) ?n (snd (ni_entry p)) b (in_definite_out s) = Some idf" "sized ?n idf"
    "bset idf \<subseteq> {..<?n}" "{..<?n} - bset idf = flow_in (unset_problem p) (unset_rows p (in_definite_out s)) b" by blast
  from outgoing_names_ok[OF esh(3,1) assms(2) im(2)] obtain om where om:
    "outgoing_names ?n (ne_overwritten ?e) (ne_maybe_gen ?e) b im = Some om" "sized ?n om"
    "bset om = (bset im - mrow (ne_overwritten ?e) b) \<union> mrow (ne_maybe_gen ?e) b" by blast
  from outgoing_names_ok[OF esh(3,2) assms(2) idf(2)] obtain od where od:
    "outgoing_names ?n (ne_overwritten ?e) (ne_definite_gen ?e) b idf = Some od" "sized ?n od"
    "bset od = (bset idf - mrow (ne_overwritten ?e) b) \<union> mrow (ne_definite_gen ?e) b" by blast
  from replace_row[OF sh(1) assms(2) im(2)] obtain m1 where m1:
    "bm_replace_row_if_changed (in_maybe_in s) b (bs_words im) = Some (mrow (in_maybe_in s) b \<noteq> bset im, m1)"
    "shaped ?rows ?n m1" "mrow m1 b = bset im" "\<forall>c < ?rows. c \<noteq> b \<longrightarrow> mrow m1 c = mrow (in_maybe_in s) c" by blast
  from replace_row[OF sh(3) assms(2) idf(2)] obtain m2 where m2:
    "bm_replace_row_if_changed (in_definite_in s) b (bs_words idf) = Some (mrow (in_definite_in s) b \<noteq> bset idf, m2)"
    "shaped ?rows ?n m2" "mrow m2 b = bset idf" "\<forall>c < ?rows. c \<noteq> b \<longrightarrow> mrow m2 c = mrow (in_definite_in s) c" by blast
  from replace_row[OF sh(2) assms(2) om(2)] obtain m3 where m3:
    "bm_replace_row_if_changed (in_maybe_out s) b (bs_words om) = Some (mrow (in_maybe_out s) b \<noteq> bset om, m3)"
    "shaped ?rows ?n m3" "mrow m3 b = bset om" "\<forall>c < ?rows. c \<noteq> b \<longrightarrow> mrow m3 c = mrow (in_maybe_out s) c" by blast
  from replace_row[OF sh(4) assms(2) od(2)] obtain m4 where m4:
    "bm_replace_row_if_changed (in_definite_out s) b (bs_words od) = Some (mrow (in_definite_out s) b \<noteq> bset od, m4)"
    "shaped ?rows ?n m4" "mrow m4 b = bset od" "\<forall>c < ?rows. c \<noteq> b \<longrightarrow> mrow m4 c = mrow (in_definite_out s) c" by blast
  let ?s = "\<lparr>in_maybe_in = m1, in_maybe_out = m3, in_definite_in = m2, in_definite_out = m4\<rparr>"
  have "names_step p b s = Some (mrow m3 b \<noteq> mrow (in_maybe_out s) b \<or> mrow m4 b \<noteq> mrow (in_definite_out s) b, ?s)"
    unfolding initialized_transfer_def im(1) idf(1) om(1) od(1) m1(1) m2(1) m3(1) m4(1)
      Option.bind_lunit prod.case m3(3) m4(3) by (simp only: eq_commute)
  moreover have "\<forall>c < ?rows. mrow m2 c \<subseteq> {..<?n} \<and> mrow m4 c \<subseteq> {..<?n}"
  proof (intro allI impI)
    fix c assume "c < ?rows"
    then show "mrow m2 c \<subseteq> {..<?n} \<and> mrow m4 c \<subseteq> {..<?n}"
      using rows m2(3,4) m4(3,4) idf(3) od(3) egen by (cases "c = b") auto
  qed
  moreover have "recomputed (maybe_problem p) b (mrow (in_maybe_in s)) (mrow (in_maybe_out s)) (mrow m1) (mrow m3)"
    unfolding recomputed_def m1(3) m3(3) om(3) im(3)
    using m1(4) m3(4) by (auto simp: flow_out_def maybe_problem_def)
  moreover have "recomputed (unset_problem p) b (unset_rows p (in_definite_in s)) (unset_rows p (in_definite_out s))
      (unset_rows p m2) (unset_rows p m4)"
  proof -
    have "{..<?n} - bset od = flow_out (unset_problem p) b ({..<?n} - bset idf)"
      unfolding od(3) flow_out_def unset_problem_def gen_kill.select_convs
      using assms(1,2) by (auto simp: names_valid_def)
    then show ?thesis
      unfolding recomputed_def m2(3) m4(3) idf(4) using m2(4) m4(4) by (simp add: unset_problem_def)
  qed
  ultimately show ?thesis using m1(2) m2(2) m3(2) m4(2)
    by (intro exI[of _ ?s] conjI) (simp_all only: dense_initialized_name_states.select_convs)
qed

interpretation initialized: worklist_transfer names_valid ni_blocks
  "\<lambda>p b. map fst (successors_of (ni_cfg p) b)" names_step names_good names_hold names_room
proof (unfold_locales, goal_cases)
  case (1 p b)
  then show ?case using leads_within[of "ni_cfg p" b] by (simp add: names_valid_def)
next
  case (2 p b s)
  let ?pm = "maybe_problem p" and ?pu = "unset_problem p" and ?n = "ni_count p"
  note wf = wf_name_problems[OF 2(1)]
  have b: "b < gk_blocks ?pm" "b < gk_blocks ?pu" using 2(2) by (simp_all add: maybe_problem_def unset_problem_def)
  have rise: "rising ?pm (mrow (in_maybe_in s)) (mrow (in_maybe_out s))"
    "rising ?pu (unset_rows p (in_definite_in s)) (unset_rows p (in_definite_out s))"
    and sub: "mrow (in_definite_out s) b \<subseteq> {..<?n}"
    using 2(2,3) by (simp_all add: names_good_def)
  from names_step_ok[OF 2] obtain s' where s': "names_step p b s = Some (mrow (in_maybe_out s') b \<noteq> mrow (in_maybe_out s) b
        \<or> mrow (in_definite_out s') b \<noteq> mrow (in_definite_out s) b, s')"
    and sh: "shaped (ni_blocks p) ?n (in_maybe_in s')" "shaped (ni_blocks p) ?n (in_maybe_out s')"
      "shaped (ni_blocks p) ?n (in_definite_in s')" "shaped (ni_blocks p) ?n (in_definite_out s')"
      "\<forall>c < ni_blocks p. mrow (in_definite_in s') c \<subseteq> {..<?n} \<and> mrow (in_definite_out s') c \<subseteq> {..<?n}"
    and re: "recomputed ?pm b (mrow (in_maybe_in s)) (mrow (in_maybe_out s)) (mrow (in_maybe_in s')) (mrow (in_maybe_out s'))"
      "recomputed ?pu b (unset_rows p (in_definite_in s)) (unset_rows p (in_definite_out s))
        (unset_rows p (in_definite_in s')) (unset_rows p (in_definite_out s'))" by (elim exE conjE) (rule that)
  have same: "unset_rows p (in_definite_out s') b = unset_rows p (in_definite_out s) b
      \<longleftrightarrow> mrow (in_definite_out s') b = mrow (in_definite_out s) b"
    using sub sh(5) 2(2) by blast
  have "names_hold p c s'" if c: "c < ni_blocks p" "c = b \<or> names_hold p c s"
    "(mrow (in_maybe_out s') b \<noteq> mrow (in_maybe_out s) b \<or> mrow (in_definite_out s') b \<noteq> mrow (in_definite_out s) b)
      \<longrightarrow> c \<notin> set (map fst (successors_of (ni_cfg p) b))" for c
  proof -
    have cn: "c < gk_blocks ?pm" "c < gk_blocks ?pu" using c(1) by (simp_all add: maybe_problem_def unset_problem_def)
    have edge: "c \<in> set (map fst (successors_of (ni_cfg p) b))" if "b \<in> set (predecessors_of (ni_cfg p) c)"
      using that preds_succs[of "ni_cfg p" c b] 2(1) c(1) by (simp add: names_valid_def)
    have "solved ?pm (mrow (in_maybe_in s')) (mrow (in_maybe_out s')) c"
      by (rule recompute_solved[OF b(1) re(1) cn(1) _ wf(1)])
        (use c(2,3) edge in \<open>auto simp: names_hold_def maybe_problem_def\<close>)
    moreover have "solved ?pu (unset_rows p (in_definite_in s')) (unset_rows p (in_definite_out s')) c"
      by (rule recompute_solved[OF b(2) re(2) cn(2) _ wf(2)])
        (use c(2,3) edge same in \<open>auto simp: names_hold_def unset_problem_def\<close>)
    ultimately show ?thesis by (simp add: names_hold_def)
  qed
  moreover have "names_good p s'"
    unfolding names_good_def
    using sh recompute_rising[OF rise(1) b(1) re(1)] recompute_rising[OF rise(2) b(2) re(2)] by blast
  ultimately show ?case
    using s' recompute_missing[OF rise(1) b(1) re(1)] recompute_missing[OF rise(2) b(2) re(2)] same
    unfolding names_room_def by (auto split: if_splits)
qed

section \<open>The analysis against the paths of the script\<close>

text \<open>
  A name may be set at a block when a path delivers it there: from an entry binding at a root block or
  from a block that initialises it, through blocks that do not bind it.  It may be unset when a path
  delivers it unset: from a virtual entry whose bindings do not definitely initialise it, or from a
  block that binds it without definitely initialising it, through blocks that do not definitely
  initialise it.  The extra names are initialised at the end of their block.
\<close>

definition set_names ::
  "control_flow_graph \<Rightarrow> name_table \<Rightarrow> binding list \<Rightarrow> binding_id list \<Rightarrow> (block_id \<times> nat) list \<Rightarrow> nat gen_kill" where
  "set_names cfg names bindings entry extra = \<lparr>gk_blocks = length (cfg_blocks cfg), gk_universe = {..<nt_len names},
     gk_preds = predecessors_of cfg,
     gk_init = (\<lambda>b. if b \<in> entry_binding_root_blocks cfg then initialized_names UNIV names bindings entry else {}),
     gk_gen = (\<lambda>b. initialized_names UNIV names bindings (own_bindings cfg b) \<union> extra_names extra b),
     gk_kill = (\<lambda>b. bound_names names bindings (own_bindings cfg b))\<rparr>"

definition unset_names ::
  "control_flow_graph \<Rightarrow> name_table \<Rightarrow> binding list \<Rightarrow> binding_id list \<Rightarrow> (block_id \<times> nat) list \<Rightarrow> nat gen_kill" where
  "unset_names cfg names bindings entry extra = \<lparr>gk_blocks = length (cfg_blocks cfg), gk_universe = {..<nt_len names},
     gk_preds = predecessors_of cfg,
     gk_init = (\<lambda>b. if uses_virtual_entry_boundary cfg b
       then {..<nt_len names} - initialized_names {Definite} names bindings entry else {}),
     gk_gen = (\<lambda>b. bound_names names bindings (own_bindings cfg b)
       - (initialized_names {Definite} names bindings (own_bindings cfg b) \<union> extra_names extra b)),
     gk_kill = (\<lambda>b. initialized_names {Definite} names bindings (own_bindings cfg b) \<union> extra_names extra b)\<rparr>"

lemma names_within:
  assumes "names_ok names"
  shows "initialized_names cs names bindings is \<subseteq> {..<nt_len names}" "bound_names names bindings is \<subseteq> {..<nt_len names}"
  using nt_get_bound[OF assms] by (auto simp: initialized_names_def bound_names_def)

lemma initialized_names_ok:
  assumes inp: "dataflow_input cfg names bindings data entry" and order: "set order = {..<length (cfg_blocks cfg)}"
    and extra: "\<forall>(b, x) \<in> set extra. b < length (cfg_blocks cfg) \<and> x < nt_len names"
    and k: "2 * (length (cfg_blocks cfg) * nt_len names) + 2 \<le> k"
  shows "\<exists>r. compute_initialized_names_with_extra k cfg bindings data entry extra order = Some r
    \<and> shaped (length (cfg_blocks cfg)) (nt_len names) (in_maybe_in r)
    \<and> shaped (length (cfg_blocks cfg)) (nt_len names) (in_maybe_out r)
    \<and> shaped (length (cfg_blocks cfg)) (nt_len names) (in_definite_in r)
    \<and> shaped (length (cfg_blocks cfg)) (nt_len names) (in_definite_out r)
    \<and> (\<forall>b < length (cfg_blocks cfg).
         mrow (in_maybe_in r) b = {x. arrives (set_names cfg names bindings entry extra) x b}
         \<and> mrow (in_maybe_out r) b = {x. leaves (set_names cfg names bindings entry extra) x b}
         \<and> {..<nt_len names} - mrow (in_definite_in r) b = {x. arrives (unset_names cfg names bindings entry extra) x b}
         \<and> {..<nt_len names} - mrow (in_definite_out r) b = {x. leaves (unset_names cfg names bindings entry extra) x b})"
proof -
  let ?n = "length (cfg_blocks cfg)" and ?m = "nt_len names"
  note d = inp[unfolded dataflow_input_def]
  have len: "length (dbd_bindings_for_name data) = ?m" using d by (simp add: binding_data_ok_def)
  have ids: "names_ok names" and ok: "cfg_ok cfg" using d by blast+
  from name_effects_ok[OF inp extra] obtain e where e: "name_effects_of cfg bindings data extra = Some e"
    "effects_shaped ?n ?m e"
    "effects_are ?n (\<lambda>b. initialized_names UNIV names bindings (own_bindings cfg b) \<union> extra_names extra b)
      (\<lambda>b. initialized_names {Definite} names bindings (own_bindings cfg b) \<union> extra_names extra b)
      (\<lambda>b. bound_names names bindings (own_bindings cfg b)) e" by blast
  from entry_names_ok[OF inp] obtain em ed where en: "entry_names bindings data entry = Some (em, ed)"
    "sized ?m em" "sized ?m ed" "bset em = initialized_names UNIV names bindings entry"
    "bset ed = initialized_names {Definite} names bindings entry" by blast
  obtain all where all: "fold_opt (\<lambda>i s. bs_insert s i) [0..<?m] (bs_new ?m) = Some all" "sized ?m all" "bset all = {..<?m}"
    using insert_all_bset[OF sized_new, of "[0..<?m]" ?m] by (auto simp: bset_new atLeast0LessThan)
  obtain full where full: "bm_fill_all_rows_from_words (bm_zeros ?n ?m) (bs_words all) = Some full" "shaped ?n ?m full"
    "\<forall>r < ?n. row_words full r = bs_words all"
    using matrix_fill[OF shaped_zeros members_sized[OF all(2)]] by blast
  let ?p = "\<lparr>ni_cfg = cfg, ni_count = ?m, ni_effects = e, ni_entry = (em, ed)\<rparr>"
  have extra_in: "extra_names extra b \<subseteq> {..<?m}" for b using extra by (auto simp: extra_names_def)
  have valid: "names_valid ?p"
    using ok e(2,3) en(2-5) names_within[OF ids] extra_in by (simp add: names_valid_def effects_are_def)
  note wf = wf_name_problems[OF valid]
  let ?s = "\<lparr>in_maybe_in = bm_zeros ?n ?m, in_maybe_out = bm_zeros ?n ?m, in_definite_in = full, in_definite_out = full\<rparr>"
  have "names_good ?p ?s"
    using wf full(2,3) all(3) by (simp add: names_good_def rising_def mrow_zeros unset_problem_def)
  moreover have "names_room ?p ?s + 2 \<le> k"
    using missing_bound[OF wf(1), of "mrow (in_maybe_out ?s)"] missing_bound[OF wf(2), of "unset_rows ?p (in_definite_out ?s)"] k
    by (simp add: names_room_def maybe_problem_def unset_problem_def)
  ultimately obtain r where r: "run_worklist k ?n (\<lambda>b. map fst (successors_of cfg b)) order (names_step ?p) ?s = Some r"
    "names_good ?p r" "\<forall>c < ?n. names_hold ?p c r"
    using initialized.worklist_solves[of order ?p ?s k] order valid by auto
  have set_eq: "arrives (maybe_problem ?p) x b = arrives (set_names cfg names bindings entry extra) x b"
    "leaves (maybe_problem ?p) x b = leaves (set_names cfg names bindings entry extra) x b" if "b < ?n" for x b
    by (rule gen_kill_cong; use that e(3) en(4) preds_succs[of cfg] ok in
        \<open>auto simp: maybe_problem_def set_names_def effects_are_def\<close>)+
  have unset_eq: "arrives (unset_problem ?p) x b = arrives (unset_names cfg names bindings entry extra) x b"
    "leaves (unset_problem ?p) x b = leaves (unset_names cfg names bindings entry extra) x b" if "b < ?n" for x b
    by (rule gen_kill_cong; use that e(3) en(5) preds_succs[of cfg] ok in
        \<open>auto simp: unset_problem_def unset_names_def effects_are_def\<close>)+
  have sol: "mrow (in_maybe_in r) b = {x. arrives (maybe_problem ?p) x b}"
    "mrow (in_maybe_out r) b = {x. leaves (maybe_problem ?p) x b}"
    "{..<?m} - mrow (in_definite_in r) b = {x. arrives (unset_problem ?p) x b}"
    "{..<?m} - mrow (in_definite_out r) b = {x. leaves (unset_problem ?p) x b}" if "b < ?n" for b
    using solution_paths[of "maybe_problem ?p" "mrow (in_maybe_in r)" "mrow (in_maybe_out r)" b]
      solution_paths[of "unset_problem ?p" "unset_rows ?p (in_definite_in r)" "unset_rows ?p (in_definite_out r)" b] r(2,3) that
    by (simp_all add: names_good_def names_hold_def maybe_problem_def unset_problem_def)
  have "compute_initialized_names_with_extra k cfg bindings data entry extra order = Some r"
    unfolding compute_initialized_names_with_extra_def Let_def len e(1) en(1) all(1) full(1) Option.bind_lunit
      run_forward_dataflow_worklist_def using r(1) by simp
  moreover have "shaped ?n ?m (in_maybe_in r)" "shaped ?n ?m (in_maybe_out r)" "shaped ?n ?m (in_definite_in r)"
    "shaped ?n ?m (in_definite_out r)" using r(2) by (simp_all add: names_good_def)
  ultimately show ?thesis using sol set_eq unset_eq by blast
qed

section \<open>Properties\<close>

text \<open>C7: The initialised names are computed and are exact: the joint fixpoint stops, a name is possible
  before a block exactly when some path delivers it there initialised, and it is definite exactly when
  no path delivers it there unset.\<close>

theorem initialized_names_exact:
  assumes "dataflow_input cfg names bindings data entry" "compute_reverse_postorder cfg = Some order"
    and "2 * (length (cfg_blocks cfg) * nt_len names) + 2 \<le> k"
  shows "\<exists>r. compute_initialized_names k cfg bindings data entry order = Some r
    \<and> (\<forall>b < length (cfg_blocks cfg). \<forall>x < nt_len names.
         (bm_contains (in_maybe_in r) b x \<longleftrightarrow> arrives (set_names cfg names bindings entry []) x b)
         \<and> (bm_contains (in_definite_in r) b x \<longleftrightarrow> \<not> arrives (unset_names cfg names bindings entry []) x b))"
proof -
  let ?n = "length (cfg_blocks cfg)" and ?m = "nt_len names"
  have ok: "cfg_ok cfg" using assms(1) by (simp add: dataflow_input_def)
  have order: "set order = {..<?n}" using reverse_postorder_ok[OF ok] assms(2) by auto
  obtain r where r: "compute_initialized_names_with_extra k cfg bindings data entry [] order = Some r"
    "shaped ?n ?m (in_maybe_in r)" "shaped ?n ?m (in_definite_in r)"
    "\<forall>b < ?n. mrow (in_maybe_in r) b = {x. arrives (set_names cfg names bindings entry []) x b}
      \<and> {..<?m} - mrow (in_definite_in r) b = {x. arrives (unset_names cfg names bindings entry []) x b}"
    using initialized_names_ok[OF assms(1) order _ assms(3), of "[]"] by auto
  have "bm_contains (in_maybe_in r) b x \<longleftrightarrow> arrives (set_names cfg names bindings entry []) x b"
    "bm_contains (in_definite_in r) b x \<longleftrightarrow> \<not> arrives (unset_names cfg names bindings entry []) x b"
    if "b < ?n" "x < ?m" for b x
    using r(4)[rule_format, OF that(1)] that matrix_contains[OF r(2) that] matrix_contains[OF r(3) that] by auto
  with r(1) show ?thesis unfolding compute_initialized_names_def by blast
qed

theorem initialized_names_exact_witness:
  "\<exists>cfg data order r. build_control_flow_graph 1 1 flow_program flow_bindings flow_references no_calls = Some cfg
    \<and> compute_initialized_names 8 cfg flow_assignments data [] order = Some r \<and> bm_contains (in_maybe_in r) 2 0"
proof -
  obtain cfg names data order where
    built: "build_control_flow_graph 1 1 flow_program flow_bindings flow_references no_calls = Some cfg"
    and order: "compute_reverse_postorder cfg = Some order"
    and inp: "dataflow_input cfg names flow_assignments data []"
    and n: "length (cfg_blocks cfg) = 3" and m: "nt_len names = 1" and x: "nt_get names ''x'' = Some 0"
    and own: "\<forall>b < 3. bb_bindings (cfg_blocks cfg ! b) = [[0], [1], []] ! b"
    and succ: "2 \<in> fst ` set (successors_of cfg 1)"
    using flow_setup by (elim exE conjE) (rule that)
  let ?pr = "set_names cfg names flow_assignments [] []"
  have "leaves ?pr 0 1"
    using own[rule_format, of 1] x
    by (intro leaves_gen) (simp add: set_names_def initialized_names_def flow_assignments_def sample_binding_def
        binding_initializes_name_def)
  moreover have "1 \<in> set (gk_preds ?pr 2)"
    using preds_succs[of cfg 2 1] inp n succ by (simp add: set_names_def dataflow_input_def)
  ultimately have at: "arrives ?pr 0 2" by (rule arrives_edge)
  obtain r where r: "compute_initialized_names 8 cfg flow_assignments data [] order = Some r"
    "\<forall>b < length (cfg_blocks cfg). \<forall>x < nt_len names. bm_contains (in_maybe_in r) b x \<longleftrightarrow> arrives ?pr x b"
    using initialized_names_exact[OF inp order, of 8] n m by auto
  from r(2)[rule_format, of 2 0] at have "bm_contains (in_maybe_in r) 2 0" using n m by simp
  with r(1) built show ?thesis by (intro exI conjI)
qed

end
