(* ===== verification/Runtime_Prelude.thy ===== *)
theory Runtime_Prelude
  imports Shuck_Prelude "HOL-Library.List_Lexorder" "HOL-Library.Char_ord"
begin

text \<open>
  Model of \<open>crates/shucked-semantic/src/runtime.rs\<close>: the names that a shell provides, and the
  questions that the analyses ask about them.  Names are ASCII, so the order of their characters is the
  byte order of the code.  The theorems: the list of preinitialised names and the membership test agree,
  and the names known as arrays are preinitialised names.
\<close>

section \<open>Tables\<close>

definition common_preinitialized :: "string list" where
  "common_preinitialized =
    [''IFS'', ''OPTIND'', ''OPTARG'', ''OPTERR'', ''USER'', ''HOME'', ''HOSTNAME'', ''SHELL'',
     ''PWD'', ''TERM'', ''PATH'', ''CDPATH'', ''LD_LIBRARY_PATH'', ''LANG'', ''SUDO_USER'',
     ''DOAS_USER'', ''BASH_ENV'', ''BASH_XTRACEFD'', ''ENV'', ''INPUTRC'', ''MAIL'', ''OLDPWD'',
     ''PS1'', ''PS2'', ''PS4'', ''PROMPT_DIRTRIM'', ''SECONDS'', ''TIMEFORMAT'', ''TMOUT'',
     ''COMPREPLY'']"

definition bash_preinitialized :: "string list" where
  "bash_preinitialized =
    [''BASH_ALIASES'', ''BASH_ARGC'', ''BASH_ARGV'', ''BASH_CMDS'', ''LINENO'', ''FUNCNAME'',
     ''BASH_SOURCE'', ''BASH_LINENO'', ''RANDOM'', ''BASH_REMATCH'', ''READLINE_LINE'',
     ''BASH_VERSION'', ''BASH_VERSINFO'', ''OSTYPE'', ''HISTCONTROL'', ''HISTFILE'',
     ''HISTFILESIZE'', ''HISTIGNORE'', ''HISTSIZE'', ''HISTTIMEFORMAT'', ''PIPESTATUS'',
     ''DIRSTACK'', ''GROUPS'', ''MAPFILE'', ''COLUMNS'', ''PROMPT_COMMAND'', ''PS3'',
     ''READLINE_POINT'', ''COMP_WORDBREAKS'', ''COMP_WORDS'', ''COMP_CWORD'', ''COMPREPLY'',
     ''COPROC'']"

definition bash_preinitialized_arrays :: "string list" where
  "bash_preinitialized_arrays =
    [''BASH_ALIASES'', ''BASH_ARGC'', ''BASH_ARGV'', ''BASH_CMDS'', ''BASH_LINENO'',
     ''BASH_REMATCH'', ''BASH_SOURCE'', ''BASH_VERSINFO'', ''COMP_WORDS'', ''COMPREPLY'',
     ''COPROC'', ''DIRSTACK'', ''FUNCNAME'', ''GROUPS'', ''MAPFILE'', ''PIPESTATUS'']"

definition common_known_runtime_names :: "string list" where
  "common_known_runtime_names =
    [''IFS'', ''USER'', ''HOME'', ''SHELL'', ''PWD'', ''TERM'', ''PATH'', ''CDPATH'', ''LANG'',
     ''SUDO_USER'', ''DOAS_USER'', ''PPID'', ''HOSTNAME'', ''SECONDS'', ''EUID'', ''TMPDIR'',
     ''GEM_HOME'', ''GEM_PATH'']"

definition bash_known_runtime_names :: "string list" where
  "bash_known_runtime_names =
    [''LINENO'', ''FUNCNAME'', ''BASH_SOURCE'', ''BASH_LINENO'', ''RANDOM'', ''PIPESTATUS'',
     ''BASH_REMATCH'', ''READLINE_LINE'', ''BASH_VERSION'', ''BASH_VERSINFO'', ''OSTYPE'',
     ''HISTCONTROL'', ''HISTSIZE'']"

definition zsh_preinitialized :: "string list" where
  "zsh_preinitialized =
    [''ARGC'', ''BUFFER'', ''COLUMNS'', ''CURSOR'', ''histchars'', ''KEYS'', ''LBUFFER'',
     ''LINES'', ''MAILPATH'', ''MANPATH'', ''MATCH'', ''MBEGIN'', ''MEND'', ''MODULE_PATH'',
     ''NUMERIC'', ''POSTDISPLAY'', ''PROMPT'', ''PROMPT2'', ''PROMPT3'', ''PROMPT4'',
     ''PROMPT_EOL_MARK'', ''PSVAR'', ''RPROMPT'', ''RPROMPT2'', ''RPS1'', ''RPS2'', ''RBUFFER'',
     ''SPROMPT'', ''TIMEFMT'', ''WIDGET'', ''ZSH_ARGZERO'', ''ZSH_EVAL_CONTEXT'', ''ZSH_NAME'',
     ''ZSH_PATCHLEVEL'', ''ZSH_SUBSHELL'', ''ZSH_VERSION'', ''aliases'', ''argv'', ''cdpath'',
     ''commands'', ''dirstack'', ''fpath'', ''funcfiletrace'', ''functions'', ''funcsourcetrace'',
     ''funcstack'', ''functrace'', ''historywords'', ''jobdirs'', ''jobstates'', ''jobtexts'',
     ''mailpath'', ''manpath'', ''match'', ''mbegin'', ''mend'', ''module_path'', ''nameddirs'',
     ''options'', ''parameters'', ''path'', ''pipestatus'', ''prompt'', ''psvar'',
     ''region_highlight'', ''signals'', ''status'', ''termcap'', ''terminfo'', ''widgets'',
     ''zsh_eval_context'']"

definition zsh_preinitialized_arrays :: "string list" where
  "zsh_preinitialized_arrays =
    [''aliases'', ''argv'', ''cdpath'', ''commands'', ''dirstack'', ''fpath'', ''funcfiletrace'',
     ''functions'', ''funcsourcetrace'', ''funcstack'', ''functrace'', ''historywords'',
     ''jobdirs'', ''jobstates'', ''jobtexts'', ''mailpath'', ''manpath'', ''match'', ''mbegin'',
     ''mend'', ''module_path'', ''nameddirs'', ''options'', ''parameters'', ''path'',
     ''pipestatus'', ''psvar'', ''signals'', ''termcap'', ''terminfo'', ''widgets'',
     ''zsh_eval_context'']"

definition zsh_preinitialized_associative_arrays :: "string list" where
  "zsh_preinitialized_associative_arrays =
    [''aliases'', ''compstate'', ''commands'', ''functions'', ''jobdirs'', ''jobstates'',
     ''jobtexts'', ''nameddirs'', ''options'', ''parameters'', ''termcap'', ''terminfo'',
     ''widgets'']"

definition always_used_bindings :: "string list" where
  "always_used_bindings =
    [''IFS'', ''PATH'', ''CDPATH'', ''COMPREPLY'', ''FLAGS_PARENT'']"

definition bash_always_used_bindings :: "string list" where
  "bash_always_used_bindings =
    [''COMPREPLY'']"

definition empty_implicit_reads :: "string list" where
  "empty_implicit_reads =
    []"

definition read_implicit_reads :: "string list" where
  "read_implicit_reads =
    [''IFS'']"

definition common_known_builtins :: "string list" where
  "common_known_builtins =
    [''break'', ''builtin'', ''command'', ''continue'', ''exit'', ''export'', ''getopts'',
     ''printf'', ''read'', ''readonly'', ''return'']"

definition bash_known_builtins :: "string list" where
  "bash_known_builtins =
    [''mapfile'', ''readarray'']"

definition zsh_known_builtins :: "string list" where
  "zsh_known_builtins =
    [''add-zsh-hook'', ''autoload'', ''bindkey'', ''compadd'', ''compdef'', ''compinit'',
     ''echotc'', ''echoti'', ''emulate'', ''float'', ''functions'', ''getln'', ''hash'',
     ''integer'', ''local'', ''log'', ''noglob'', ''popd'', ''print'', ''pushd'', ''pushln'',
     ''rehash'', ''sched'', ''setcap'', ''setopt'', ''stat'', ''typeset'', ''unfunction'',
     ''unhash'', ''unsetopt'', ''vared'', ''whence'', ''where'', ''which'', ''zle'', ''zmodload'',
     ''zparseopts'', ''zstyle'']"

section \<open>The prelude of a dialect\<close>

datatype shell_dialect = Posix | Mksh | Bash | Zsh

record runtime_prelude =
  rt_shell_dialect :: shell_dialect
  rt_bash_enabled :: bool
  rt_common_preinitialized :: "string list"
  rt_bash_preinitialized :: "string list"
  rt_zsh_preinitialized :: "string list"
  rt_always_used_bindings :: "string list"
  rt_bash_always_used_bindings :: "string list"

definition runtime_new :: "shell_dialect \<Rightarrow> bool \<Rightarrow> runtime_prelude" where
  "runtime_new dialect bash_enabled =
     \<lparr>rt_shell_dialect = dialect, rt_bash_enabled = bash_enabled,
      rt_common_preinitialized = common_preinitialized, rt_bash_preinitialized = bash_preinitialized,
      rt_zsh_preinitialized = zsh_preinitialized, rt_always_used_bindings = always_used_bindings,
      rt_bash_always_used_bindings = bash_always_used_bindings\<rparr>"

definition names_contain :: "string list \<Rightarrow> string \<Rightarrow> bool" where
  "names_contain names name = list_ex (\<lambda>candidate. candidate = name) names"

definition is_locale_binding :: "string \<Rightarrow> bool" where
  "is_locale_binding name \<longleftrightarrow> name = ''LANG'' \<or> take 3 name = ''LC_''"

definition is_preinitialized :: "runtime_prelude \<Rightarrow> string \<Rightarrow> bool" where
  "is_preinitialized r name \<longleftrightarrow> names_contain (rt_common_preinitialized r) name
     \<or> is_locale_binding name
     \<or> rt_bash_enabled r \<and> names_contain (rt_bash_preinitialized r) name
     \<or> rt_shell_dialect r = Zsh \<and> names_contain (rt_zsh_preinitialized r) name"

definition is_known_runtime_name :: "runtime_prelude \<Rightarrow> string \<Rightarrow> bool" where
  "is_known_runtime_name r name \<longleftrightarrow> names_contain common_known_runtime_names name
     \<or> names_contain bash_known_runtime_names name
     \<or> is_locale_binding name
     \<or> rt_shell_dialect r = Zsh \<and> names_contain (rt_zsh_preinitialized r) name"

definition is_preinitialized_array :: "runtime_prelude \<Rightarrow> string \<Rightarrow> bool" where
  "is_preinitialized_array r name \<longleftrightarrow>
     rt_bash_enabled r \<and> names_contain bash_preinitialized_arrays name
     \<or> rt_shell_dialect r = Zsh \<and> names_contain zsh_preinitialized_arrays name"

definition is_preinitialized_associative_array :: "runtime_prelude \<Rightarrow> string \<Rightarrow> bool" where
  "is_preinitialized_associative_array r name \<longleftrightarrow>
     rt_shell_dialect r = Zsh \<and> names_contain zsh_preinitialized_associative_arrays name"

definition preinitialized_names :: "runtime_prelude \<Rightarrow> string list" where
  "preinitialized_names r =
     remdups_adj (sort (rt_common_preinitialized r
       @ (if rt_bash_enabled r then rt_bash_preinitialized r else [])
       @ (if rt_shell_dialect r = Zsh then rt_zsh_preinitialized r else [])))"

definition known_builtin_names :: "runtime_prelude \<Rightarrow> string list" where
  "known_builtin_names r =
     remdups_adj (sort (common_known_builtins
       @ (if rt_bash_enabled r then bash_known_builtins else [])
       @ (if rt_shell_dialect r = Zsh then zsh_known_builtins else [])))"

definition is_always_used_binding :: "runtime_prelude \<Rightarrow> string \<Rightarrow> bool" where
  "is_always_used_binding r name \<longleftrightarrow> is_preinitialized r name
     \<or> names_contain (rt_always_used_bindings r) name
     \<or> is_locale_binding name
     \<or> rt_bash_enabled r \<and> names_contain (rt_bash_always_used_bindings r) name"

definition implicit_reads_for_simple_command :: "string \<Rightarrow> string list" where
  "implicit_reads_for_simple_command command_name =
     (if command_name = ''read'' then read_implicit_reads else empty_implicit_reads)"

section \<open>The list and the test agree\<close>

lemma names_contain_iff [simp]: "names_contain names name \<longleftrightarrow> name \<in> set names"
  by (auto simp: names_contain_def list_ex_iff)

lemma distinct_remdups_adj: "sorted xs \<Longrightarrow> distinct (remdups_adj (xs :: 'a::linorder list))"
  by (induction xs rule: remdups_adj.induct) (auto simp: order_le_less)

text \<open>The names that a shell provides are listed in order and once each, and are exactly those that
  the test accepts apart from the locale variables, whatever the dialect.\<close>

theorem preinitialized_names_listed:
  "sorted (preinitialized_names r) \<and> distinct (preinitialized_names r)
    \<and> {name. is_preinitialized r name} = set (preinitialized_names r) \<union> {name. is_locale_binding name}"
  by (auto simp: preinitialized_names_def is_preinitialized_def sorted_remdups_adj distinct_remdups_adj)

lemma array_tables:
  "set bash_preinitialized_arrays \<subseteq> set bash_preinitialized"
  "set zsh_preinitialized_arrays \<subseteq> set zsh_preinitialized"
  "set zsh_preinitialized_associative_arrays \<subseteq> insert ''compstate'' (set zsh_preinitialized)"
  by code_simp+

text \<open>Every name that a dialect provides as an array is one of its preinitialised names, and so is every
  associative array but \<open>compstate\<close>; all of these always count as used.\<close>

theorem runtime_arrays_are_preinitialized:
  assumes "is_preinitialized_array (runtime_new d b) name
    \<or> is_preinitialized_associative_array (runtime_new d b) name \<and> name \<noteq> ''compstate''"
  shows "is_preinitialized (runtime_new d b) name \<and> is_always_used_binding (runtime_new d b) name"
  using assms array_tables
  by (auto simp: is_preinitialized_array_def is_preinitialized_associative_array_def is_preinitialized_def
      is_always_used_binding_def runtime_new_def)

theorem runtime_arrays_are_preinitialized_witness:
  "is_preinitialized (runtime_new Zsh False) ''fpath''"
  using runtime_arrays_are_preinitialized[of Zsh False "''fpath''"]
  by (simp add: is_preinitialized_array_def runtime_new_def zsh_preinitialized_arrays_def)

end
