(* ===== verification/Graph_Walks.thy ===== *)
theory Graph_Walks
  imports Reaching_Definitions
begin

text \<open>
  Model of the searches over the control-flow graph that the analyses share: \<open>reachable_blocks_dense\<close>
  of \<open>dataflow/scope_reads.rs\<close>, \<open>block_reaches_unless\<close> of \<open>reachability.rs\<close>, \<open>block_can_reach\<close> with its
  cache and \<open>is_straight_line_overwrite\<close> of \<open>dataflow/unused.rs\<close>, and the scope components of
  \<open>dataflow/dense.rs\<close>.  The theorems: each search terminates and decides its reachability relation.
\<close>

section \<open>The searches\<close>

text \<open>The end of the code's stack is the head of the list.\<close>

function reachable_walk ::
  "control_flow_graph \<Rightarrow> block_id list \<Rightarrow> dense_bit_set \<Rightarrow> dense_bit_set option" where
  "reachable_walk cfg [] visited = Some visited"
| "reachable_walk cfg (block # stack) visited =
     (if bs_contains visited block then reachable_walk cfg stack visited
      else (case bs_insert visited block of
        None \<Rightarrow> None
      | Some visited \<Rightarrow> reachable_walk cfg (rev (map fst (successors_of cfg block)) @ stack) visited))"
  by pat_completeness auto
termination
  by (relation "measures [\<lambda>(_, _, visited). bs_room visited, \<lambda>(_, stack, _). length stack]")
    (auto dest: insert_room)

definition reachable_blocks_dense :: "control_flow_graph \<Rightarrow> block_id \<Rightarrow> nat \<Rightarrow> dense_bit_set option" where
  "reachable_blocks_dense cfg entry block_count = reachable_walk cfg [entry] (bs_new block_count)"

function reaches_walk ::
  "control_flow_graph \<Rightarrow> (block_id \<Rightarrow> bool) \<Rightarrow> block_id \<Rightarrow> block_id list \<Rightarrow> dense_bit_set \<Rightarrow> bool option" where
  "reaches_walk cfg is_blocked target [] visited = Some False"
| "reaches_walk cfg is_blocked target (block # stack) visited =
     (if is_blocked block \<or> bs_contains visited block then reaches_walk cfg is_blocked target stack visited
      else (case bs_insert visited block of
        None \<Rightarrow> None
      | Some visited \<Rightarrow>
          if block = target then Some True
          else reaches_walk cfg is_blocked target (rev (map fst (successors_of cfg block)) @ stack) visited))"
  by pat_completeness auto
termination
  by (relation "measures [\<lambda>(_, _, _, _, visited). bs_room visited, \<lambda>(_, _, _, stack, _). length stack]")
    (auto dest: insert_room)

definition block_reaches_unless ::
  "control_flow_graph \<Rightarrow> block_id \<Rightarrow> block_id \<Rightarrow> (block_id \<Rightarrow> bool) \<Rightarrow> bool option" where
  "block_reaches_unless cfg start target is_blocked =
     (if is_blocked start then Some False
      else reaches_walk cfg is_blocked target [start] (bs_new (length (cfg_blocks cfg))))"

definition block_reaches_without ::
  "control_flow_graph \<Rightarrow> block_id \<Rightarrow> block_id \<Rightarrow> block_id \<Rightarrow> bool option" where
  "block_reaches_without cfg start target avoided = block_reaches_unless cfg start target (\<lambda>block. block = avoided)"

text \<open>The search of \<open>block_can_reach\<close> marks a block when it is pushed.\<close>

definition mark_successor ::
  "block_id \<Rightarrow> dense_bit_set \<times> block_id list \<Rightarrow> (dense_bit_set \<times> block_id list) option" where
  "mark_successor successor = (\<lambda>(reachable, stack).
     if bs_contains reachable successor then Some (reachable, stack)
     else do { reachable \<leftarrow> bs_insert reachable successor; Some (reachable, successor # stack) })"

lemma mark_successor_eq:
  "mark_successor x (r, s) = (if bs_contains r x then Some (r, s)
     else case bs_insert r x of None \<Rightarrow> None | Some r' \<Rightarrow> Some (r', x # s))"
  by (simp add: mark_successor_def split: option.split)

lemma mark_successors_room:
  "fold_opt mark_successor xs (reachable, stack) = Some (reachable', stack') \<Longrightarrow>
   bs_room reachable' < bs_room reachable \<or> reachable' = reachable \<and> stack' = stack"
proof (induction xs arbitrary: reachable stack)
  case (Cons x xs)
  show ?case
  proof (cases "bs_contains reachable x")
    case True
    with Cons show ?thesis by (simp add: mark_successor_eq)
  next
    case False
    with Cons.prems obtain r where r: "bs_insert reachable x = Some r"
      "fold_opt mark_successor xs (r, x # stack) = Some (reachable', stack')"
      by (simp add: mark_successor_eq split: option.splits)
    have "bs_room r < bs_room reachable" by (rule insert_room[OF False r(1)])
    with Cons.IH[OF r(2)] show ?thesis by auto
  qed
qed simp

function mark_walk ::
  "control_flow_graph \<Rightarrow> block_id list \<Rightarrow> dense_bit_set \<Rightarrow> dense_bit_set option" where
  "mark_walk cfg [] reachable = Some reachable"
| "mark_walk cfg (block # stack) reachable =
     (case fold_opt mark_successor (map fst (successors_of cfg block)) (reachable, stack) of
        None \<Rightarrow> None
      | Some (reachable, stack) \<Rightarrow> mark_walk cfg stack reachable)"
  by pat_completeness auto
termination
  by (relation "measures [\<lambda>(_, _, reachable). bs_room reachable, \<lambda>(_, stack, _). length stack]")
    (auto dest!: mark_successors_room)

type_synonym reachability_cache = "dense_bit_set option list"

definition block_can_reach ::
  "control_flow_graph \<Rightarrow> block_id \<Rightarrow> block_id \<Rightarrow> reachability_cache \<Rightarrow> (bool \<times> reachability_cache) option" where
  "block_can_reach cfg from to cache =
     (if from = to then Some (True, cache)
      else if list_ex (\<lambda>(successor, _). successor = to) (successors_of cfg from) then Some (True, cache)
      else do {
        cached \<leftarrow> nth_opt cache from;
        case cached of
          Some reachable \<Rightarrow> Some (bs_contains reachable to, cache)
        | None \<Rightarrow> do {
            reachable \<leftarrow> mark_walk cfg [from] (bs_new (length (cfg_blocks cfg)));
            cache \<leftarrow> update_opt cache from (Some reachable);
            Some (bs_contains reachable to, cache) } })"

function straight_walk ::
  "control_flow_graph \<Rightarrow> block_id \<Rightarrow> block_id \<Rightarrow> dense_bit_set \<Rightarrow> bool option" where
  "straight_walk cfg to current visited =
     (case successors_of cfg current of
        [(nxt, edge)] \<Rightarrow>
          if edge \<noteq> Sequential then Some False
          else if length (predecessors_of cfg nxt) \<noteq> 1 then Some False
          else if nxt = to then Some True
          else if bs_contains visited nxt then Some False
          else (case bs_insert visited nxt of
            None \<Rightarrow> None
          | Some visited \<Rightarrow> straight_walk cfg to nxt visited)
      | _ \<Rightarrow> Some False)"
  by pat_completeness auto
termination
  by (relation "measure (\<lambda>(_, _, _, visited). bs_room visited)") (auto dest: insert_room)

declare straight_walk.simps [simp del]

definition is_straight_line_overwrite :: "control_flow_graph \<Rightarrow> block_id \<Rightarrow> block_id \<Rightarrow> bool option" where
  "is_straight_line_overwrite cfg from to =
     (if from = to then Some True
      else do {
        visited \<leftarrow> bs_insert (bs_new (length (cfg_blocks cfg))) from;
        straight_walk cfg to from visited })"

section \<open>Scope components\<close>

definition compute_scope_components_dense ::
  "control_flow_graph \<Rightarrow> nat \<Rightarrow> nat \<Rightarrow> dense_bit_set list option" where
  "compute_scope_components_dense cfg scope_count block_count =
     fold_opt (\<lambda>(scope, entry) components. do {
         blocks \<leftarrow> reachable_blocks_dense cfg entry block_count;
         update_opt components scope blocks })
       (cfg_scope_entries cfg) (replicate scope_count (bs_new block_count))"

definition block_exits_component :: "control_flow_graph \<Rightarrow> dense_bit_set \<Rightarrow> block_id \<Rightarrow> bool" where
  "block_exits_component cfg component block \<longleftrightarrow> successors_of cfg block = []
     \<or> list_ex (\<lambda>(successor, _). \<not> bs_contains component successor) (successors_of cfg block)"

definition exit_blocks_for_scope ::
  "control_flow_graph \<Rightarrow> dense_bit_set list \<Rightarrow> scope_id \<Rightarrow> block_id list option" where
  "exit_blocks_for_scope cfg scope_components scope = do {
     component \<leftarrow> nth_opt scope_components scope;
     Some (case scope_exits cfg scope of
         Some exits \<Rightarrow> exits
       | None \<Rightarrow> filter (block_exits_component cfg component) (iter_collect (bs_iter_ones component))) }"

section \<open>A search that marks what it has visited\<close>

text \<open>\<open>V\<close> has been visited and \<open>U\<close> waits.\<close>

definition steps :: "(block_id \<Rightarrow> block_id set) \<Rightarrow> (block_id \<times> block_id) set" where
  "steps nxt = {(a, b). b \<in> nxt a}"

definition search_state :: "(block_id \<Rightarrow> block_id set) \<Rightarrow> block_id \<Rightarrow> block_id set \<Rightarrow> block_id set \<Rightarrow> bool" where
  "search_state nxt a V U \<longleftrightarrow> V \<union> U \<subseteq> (steps nxt)\<^sup>* `` {a} \<and> a \<in> V \<union> U \<and> (\<forall>v \<in> V. nxt v \<subseteq> V \<union> U)"

lemma search_start: "search_state nxt a {} {a}"
  by (simp add: search_state_def)

lemma search_visit:
  "search_state nxt a V (insert b U) \<Longrightarrow> W = U \<union> nxt b \<Longrightarrow> search_state nxt a (insert b V) W"
  unfolding search_state_def steps_def by (auto intro: rtrancl_into_rtrancl)

lemma search_done:
  assumes "search_state nxt a V U" "U \<subseteq> V"
  shows "V = (steps nxt)\<^sup>* `` {a}"
proof -
  have VU: "V \<union> U = V" using assms(2) by blast
  have "steps nxt `` V \<subseteq> V" "a \<in> V" using assms(1) unfolding search_state_def VU steps_def by blast+
  then have "(steps nxt)\<^sup>* `` {a} \<subseteq> V"
    using Image_closed_trancl[of "steps nxt" V] by blast
  with assms(1) show ?thesis by (auto simp: search_state_def)
qed

definition next_blocks :: "control_flow_graph \<Rightarrow> block_id \<Rightarrow> block_id set" where
  "next_blocks cfg b = fst ` set (successors_of cfg b)"

lemma steps_leads: "steps (next_blocks cfg) = leads cfg"
  by (auto simp: steps_def next_blocks_def leads_def)

lemma next_within: "cfg_ok cfg \<Longrightarrow> next_blocks cfg b \<subseteq> {..<length (cfg_blocks cfg)}"
  using leads_within[of cfg b] by (simp add: next_blocks_def)

section \<open>The searches decide reachability\<close>

lemma reachable_walk_ok:
  assumes "cfg_ok cfg" "sized (length (cfg_blocks cfg)) visited"
    and "search_state (next_blocks cfg) a (bset visited) (set stack)" "set stack \<subseteq> {..<length (cfg_blocks cfg)}"
  shows "\<exists>s. reachable_walk cfg stack visited = Some s \<and> sized (length (cfg_blocks cfg)) s
    \<and> bset s = (leads cfg)\<^sup>* `` {a}"
  using assms
proof (induction cfg stack visited rule: reachable_walk.induct)
  case (1 cfg visited)
  then show ?case using search_done[OF 1(3)] by (simp add: steps_leads)
next
  case (2 cfg block stack visited)
  show ?case
  proof (cases "bs_contains visited block")
    case True
    then have "bset visited \<union> set (block # stack) = bset visited \<union> set stack" by (auto simp: contains_bset)
    then have "search_state (next_blocks cfg) a (bset visited) (set stack)"
      using "2.prems"(3) True by (auto simp: search_state_def contains_bset)
    with "2.IH"(1)[OF True] "2.prems" True show ?thesis by simp
  next
    case False
    obtain v where v: "bs_insert visited block = Some v" "sized (length (cfg_blocks cfg)) v"
      "bset v = insert block (bset visited)"
      using insert_bset[OF "2.prems"(2), of block] "2.prems"(4) by auto
    have "search_state (next_blocks cfg) a (bset v) (set (rev (map fst (successors_of cfg block)) @ stack))"
      unfolding v(3) by (rule search_visit[where U = "set stack"])
        (use "2.prems"(3) in \<open>auto simp: next_blocks_def[of cfg block]\<close>)
    with "2.IH"(2)[OF False v(1) "2.prems"(1) v(2)] "2.prems"(1,4) leads_within[OF "2.prems"(1), of block]
    show ?thesis by (simp add: False v(1))
  qed
qed

lemma reachable_blocks_ok:
  assumes "cfg_ok cfg" "entry < length (cfg_blocks cfg)"
  shows "\<exists>s. reachable_blocks_dense cfg entry (length (cfg_blocks cfg)) = Some s
    \<and> sized (length (cfg_blocks cfg)) s \<and> bset s = (leads cfg)\<^sup>* `` {entry}"
  unfolding reachable_blocks_dense_def
  by (rule reachable_walk_ok[OF assms(1)]) (use assms(2) in \<open>simp_all add: bset_new search_start\<close>)

definition open_next :: "control_flow_graph \<Rightarrow> (block_id \<Rightarrow> bool) \<Rightarrow> block_id \<Rightarrow> block_id set" where
  "open_next cfg is_blocked b = {c \<in> next_blocks cfg b. \<not> is_blocked c}"

lemma reaches_walk_ok:
  assumes "cfg_ok cfg" "sized (length (cfg_blocks cfg)) visited" "target \<notin> bset visited"
    and "search_state (open_next cfg is_blocked) a (bset visited) (set (filter (\<lambda>b. \<not> is_blocked b) stack))"
    and "set stack \<subseteq> {..<length (cfg_blocks cfg)}"
  shows "reaches_walk cfg is_blocked target stack visited =
    Some ((a, target) \<in> (steps (open_next cfg is_blocked))\<^sup>*)"
  using assms
proof (induction cfg is_blocked target stack visited rule: reaches_walk.induct)
  case (1 cfg is_blocked target visited)
  then show ?case using search_done[OF 1(4)] by auto
next
  case (2 cfg is_blocked target block stack visited)
  show ?case
  proof (cases "is_blocked block \<or> bs_contains visited block")
    case True
    then have "search_state (open_next cfg is_blocked) a (bset visited) (set (filter (\<lambda>b. \<not> is_blocked b) stack))"
      using "2.prems"(4) by (auto simp: search_state_def contains_bset split: if_splits)
    with "2.IH"(1)[OF True] "2.prems" True show ?thesis by simp
  next
    case False
    obtain v where v: "bs_insert visited block = Some v" "sized (length (cfg_blocks cfg)) v"
      "bset v = insert block (bset visited)"
      using insert_bset[OF "2.prems"(2), of block] "2.prems"(5) by auto
    show ?thesis
    proof (cases "block = target")
      case True
      then have "(a, target) \<in> (steps (open_next cfg is_blocked))\<^sup>*"
        using "2.prems"(4) False by (auto simp: search_state_def)
      with True v(1) False show ?thesis by simp
    next
      case other: False
      let ?next = "rev (map fst (successors_of cfg block)) @ stack"
      have "search_state (open_next cfg is_blocked) a (bset v) (set (filter (\<lambda>b. \<not> is_blocked b) ?next))"
        unfolding v(3) by (rule search_visit[where U = "set (filter (\<lambda>b. \<not> is_blocked b) stack)"])
          (use "2.prems"(4) False in \<open>auto simp: next_blocks_def[of cfg block] open_next_def[of cfg is_blocked block]\<close>)
      with "2.IH"(2)[OF False v(1) other "2.prems"(1) v(2)] "2.prems"(1,3,5) other leads_within[OF "2.prems"(1), of block]
      show ?thesis using False by (simp add: v)
    qed
  qed
qed

lemma block_reaches_unless_ok:
  assumes "cfg_ok cfg" "start < length (cfg_blocks cfg)"
  shows "block_reaches_unless cfg start target is_blocked =
    Some (\<not> is_blocked start \<and> (start, target) \<in> (steps (open_next cfg is_blocked))\<^sup>*)"
proof (cases "is_blocked start")
  case False
  have "reaches_walk cfg is_blocked target [start] (bs_new (length (cfg_blocks cfg))) =
      Some ((start, target) \<in> (steps (open_next cfg is_blocked))\<^sup>*)"
    by (rule reaches_walk_ok[OF assms(1)]) (use assms(2) False in \<open>simp_all add: bset_new search_start\<close>)
  with False show ?thesis by (simp add: block_reaches_unless_def)
qed (simp add: block_reaches_unless_def)

lemma mark_successors_ok:
  assumes "sized n r" "set xs \<subseteq> {..<n}"
  shows "\<exists>r' s'. fold_opt mark_successor xs (r, s) = Some (r', s') \<and> sized n r' \<and> bset r' = bset r \<union> set xs
    \<and> set s' = set s \<union> (set xs - bset r)"
  using assms
proof (induction xs arbitrary: r s)
  case (Cons x xs)
  show ?case
  proof (cases "bs_contains r x")
    case True
    with Cons.IH[of r s] Cons.prems show ?thesis by (auto simp: mark_successor_eq contains_bset)
  next
    case False
    obtain v where v: "bs_insert r x = Some v" "sized n v" "bset v = insert x (bset r)"
      using insert_bset[OF Cons.prems(1), of x] Cons.prems(2) by auto
    obtain r' s' where "fold_opt mark_successor xs (v, x # s) = Some (r', s')" "sized n r'"
      "bset r' = bset v \<union> set xs" "set s' = set (x # s) \<union> (set xs - bset v)"
      using Cons.IH[OF v(2), of "x # s"] Cons.prems(2) by auto
    with v False show ?thesis by (auto simp: mark_successor_eq contains_bset)
  qed
qed simp

text \<open>The blocks on the stack are marked; only the first may not be.\<close>

definition mark_state :: "control_flow_graph \<Rightarrow> block_id \<Rightarrow> block_id set \<Rightarrow> block_id list \<Rightarrow> bool" where
  "mark_state cfg a R stack \<longleftrightarrow> R \<subseteq> (leads cfg)\<^sup>+ `` {a} \<and> set stack \<subseteq> insert a R
     \<and> (\<forall>v \<in> insert a R - set stack. next_blocks cfg v \<subseteq> R)"

lemma mark_walk_ok:
  assumes "cfg_ok cfg" "a < length (cfg_blocks cfg)" "sized (length (cfg_blocks cfg)) r" "mark_state cfg a (bset r) stack"
    and "bset r \<subseteq> {..<length (cfg_blocks cfg)}"
  shows "\<exists>s. mark_walk cfg stack r = Some s \<and> sized (length (cfg_blocks cfg)) s \<and> bset s = (leads cfg)\<^sup>+ `` {a}"
  using assms
proof (induction cfg stack r rule: mark_walk.induct)
  case (1 cfg r)
  have closed: "next_blocks cfg v \<subseteq> bset r" if "v \<in> insert a (bset r)" for v
    using 1(4) that by (auto simp: mark_state_def)
  have "b \<in> bset r" if "(a, b) \<in> (leads cfg)\<^sup>+" for b
    using that by induction (use closed in \<open>auto simp: leads_def next_blocks_def\<close>)
  with 1(3,4) show ?case by (auto simp: mark_state_def)
next
  case (2 cfg block stack r)
  let ?succ = "map fst (successors_of cfg block)"
  have succ: "set ?succ = next_blocks cfg block" by (simp add: next_blocks_def)
  obtain r' s' where rs: "fold_opt mark_successor ?succ (r, stack) = Some (r', s')" "sized (length (cfg_blocks cfg)) r'"
    "bset r' = bset r \<union> next_blocks cfg block" "set s' = set stack \<union> (next_blocks cfg block - bset r)"
    using mark_successors_ok[OF "2.prems"(3) leads_within[OF "2.prems"(1), of block], of stack] unfolding succ by blast
  have st: "bset r \<subseteq> (leads cfg)\<^sup>+ `` {a}" "insert block (set stack) \<subseteq> insert a (bset r)"
    "\<And>v. v \<in> insert a (bset r) - insert block (set stack) \<Longrightarrow> next_blocks cfg v \<subseteq> bset r"
    using "2.prems"(4) by (simp_all add: mark_state_def)
  have "(a, c) \<in> (leads cfg)\<^sup>+" if "c \<in> next_blocks cfg block" for c
  proof -
    have "(block, c) \<in> leads cfg" using that by (simp add: leads_def next_blocks_def)
    moreover have "block = a \<or> (a, block) \<in> (leads cfg)\<^sup>+" using st(1,2) by blast
    ultimately show ?thesis by (auto intro: trancl_into_trancl)
  qed
  moreover have "next_blocks cfg v \<subseteq> bset r'" if "v \<in> insert a (bset r') - set s'" for v
    using that rs(3,4) st(3)[of v] by (cases "v = block") auto
  ultimately have "mark_state cfg a (bset r') s'"
    using st(1,2) rs(3,4) unfolding mark_state_def by auto
  moreover have "bset r' \<subseteq> {..<length (cfg_blocks cfg)}"
    using "2.prems"(5) rs(3) next_within[OF "2.prems"(1), of block] by simp
  ultimately show ?case using "2.IH"[OF rs(1) refl "2.prems"(1,2) rs(2)] rs(1) by simp
qed

text \<open>Every cached set is that of its block.\<close>

definition cache_ok :: "control_flow_graph \<Rightarrow> reachability_cache \<Rightarrow> bool" where
  "cache_ok cfg cache \<longleftrightarrow> length cache = length (cfg_blocks cfg)
     \<and> (\<forall>b < length cache. case cache ! b of None \<Rightarrow> True | Some s \<Rightarrow> bset s = (leads cfg)\<^sup>+ `` {b})"

lemma block_can_reach_ok:
  assumes "cfg_ok cfg" "cache_ok cfg cache" "from < length (cfg_blocks cfg)"
  shows "\<exists>cache'. block_can_reach cfg from to cache = Some ((from, to) \<in> (leads cfg)\<^sup>*, cache') \<and> cache_ok cfg cache'"
proof -
  have eq: "(from, to) \<in> (leads cfg)\<^sup>* \<longleftrightarrow> to \<in> (leads cfg)\<^sup>+ `` {from}" if "from \<noteq> to"
    using that by (auto simp: rtrancl_eq_or_trancl)
  have direct: "(from, to) \<in> (leads cfg)\<^sup>*" if "list_ex (\<lambda>(s, _). s = to) (successors_of cfg from)"
    using that by (force simp: list_ex_iff leads_def)
  obtain s where s: "mark_walk cfg [from] (bs_new (length (cfg_blocks cfg))) = Some s" "bset s = (leads cfg)\<^sup>+ `` {from}"
    using mark_walk_ok[OF assms(1,3) sized_new, of "[from]"] by (auto simp: bset_new mark_state_def)
  have l: "length cache = length (cfg_blocks cfg)" using assms(2) by (simp add: cache_ok_def)
  show ?thesis
  proof (cases "from = to \<or> list_ex (\<lambda>(s, _). s = to) (successors_of cfg from)")
    case True
    then show ?thesis using assms(2) direct by (auto simp: block_can_reach_def)
  next
    case False
    show ?thesis
    proof (cases "cache ! from")
      case None
      have "cache_ok cfg (cache[from := Some s])"
        unfolding cache_ok_def
      proof (intro conjI allI impI)
        fix b assume "b < length (cache[from := Some s])"
        then show "case cache[from := Some s] ! b of None \<Rightarrow> True | Some s \<Rightarrow> bset s = (leads cfg)\<^sup>+ `` {b}"
          using assms(2,3) s(2) l by (cases "b = from") (simp_all add: cache_ok_def)
      qed (simp add: l)
      with False None s assms(3) l eq show ?thesis
        by (simp add: block_can_reach_def panic_simps contains_bset)
    next
      case (Some v)
      then have "bset v = (leads cfg)\<^sup>+ `` {from}" using assms(2,3) l by (auto simp: cache_ok_def split: option.splits)
      with False Some assms(2,3) l eq show ?thesis
        by (simp add: block_can_reach_def panic_simps contains_bset)
    qed
  qed
qed

text \<open>A straight line: the only way out of a block, and the only way into the next one.\<close>

definition straight_next :: "control_flow_graph \<Rightarrow> block_id \<Rightarrow> block_id set" where
  "straight_next cfg b =
     {c. successors_of cfg b = [(c, Sequential)] \<and> length (predecessors_of cfg c) = 1}"

lemma straight_walk_ok:
  assumes "cfg_ok cfg" "sized (length (cfg_blocks cfg)) visited" "to \<notin> bset visited" "current \<in> bset visited"
    and "search_state (straight_next cfg) a (bset visited) (straight_next cfg current)"
  shows "straight_walk cfg to current visited = Some ((a, to) \<in> (steps (straight_next cfg))\<^sup>*)"
  using assms
proof (induction cfg to current visited rule: straight_walk.induct)
  case (1 cfg to current visited)
  show ?case
  proof (cases "\<exists>c. c \<in> straight_next cfg current")
    case False
    then have "straight_next cfg current = {}" by blast
    then have "(a, to) \<notin> (steps (straight_next cfg))\<^sup>*"
      using search_done[OF "1.prems"(5)] "1.prems"(3) by auto
    moreover have "straight_walk cfg to current visited = Some False"
      using False by (subst straight_walk.simps) (auto simp: straight_next_def split: list.split)
    ultimately show ?thesis by simp
  next
    case True
    then obtain c where c: "successors_of cfg current = [(c, Sequential)]" "length (predecessors_of cfg c) = 1"
      by (auto simp: straight_next_def)
    have nxt: "straight_next cfg current = {c}" using c by (auto simp: straight_next_def)
    have unfold: "straight_walk cfg to current visited = (if c = to then Some True
        else if bs_contains visited c then Some False
        else (case bs_insert visited c of None \<Rightarrow> None | Some v \<Rightarrow> straight_walk cfg to c v))"
      by (subst straight_walk.simps) (simp add: c)
    show ?thesis
    proof (cases "c = to \<or> bs_contains visited c")
      case True
      moreover have "(a, c) \<in> (steps (straight_next cfg))\<^sup>*"
        using "1.prems"(5) nxt by (simp add: search_state_def)
      moreover have "(a, to) \<notin> (steps (straight_next cfg))\<^sup>*" if "bs_contains visited c"
        using search_done[OF "1.prems"(5)] nxt that "1.prems"(3) by (auto simp: contains_bset)
      ultimately show ?thesis unfolding unfold by auto
    next
      case False
      have cn: "c < length (cfg_blocks cfg)" using leads_within[OF "1.prems"(1), of current] c(1) by simp
      obtain v where v: "bs_insert visited c = Some v" "sized (length (cfg_blocks cfg)) v" "bset v = insert c (bset visited)"
        using insert_bset[OF "1.prems"(2) cn] by blast
      have "search_state (straight_next cfg) a (bset v) (straight_next cfg c)"
        unfolding v(3) by (rule search_visit[where U = "{}"]) (use "1.prems"(5) nxt in simp_all)
      with "1.IH"[OF c(1) refl refl _ _ _ _ v(1) "1.prems"(1) v(2)] False v "1.prems"(3) c(2)
      show ?thesis unfolding unfold by simp
    qed
  qed
qed

lemma is_straight_line_ok:
  assumes "cfg_ok cfg" "from < length (cfg_blocks cfg)"
  shows "is_straight_line_overwrite cfg from to = Some ((from, to) \<in> (steps (straight_next cfg))\<^sup>*)"
proof (cases "from = to")
  case False
  obtain v where v: "bs_insert (bs_new (length (cfg_blocks cfg))) from = Some v"
    "sized (length (cfg_blocks cfg)) v" "bset v = {from}"
    using insert_bset[OF sized_new assms(2)] by (auto simp: bset_new)
  have "straight_walk cfg to from v = Some ((from, to) \<in> (steps (straight_next cfg))\<^sup>*)"
    by (rule straight_walk_ok[OF assms(1) v(2)]) (use False v(3) in \<open>auto simp: search_state_def steps_def\<close>)
  with False v(1) show ?thesis by (simp add: is_straight_line_overwrite_def)
qed (simp add: is_straight_line_overwrite_def)

section \<open>Exits of a scope\<close>

lemma scope_components_ok:
  assumes "cfg_ok cfg" "\<forall>scope \<in> fst ` set entries. scope < m" "\<forall>entry \<in> snd ` set entries. entry < length (cfg_blocks cfg)"
    and "distinct (map fst entries)" "length components = m"
  shows "\<exists>cs. fold_opt (\<lambda>(scope, entry) components. do {
         blocks \<leftarrow> reachable_blocks_dense cfg entry (length (cfg_blocks cfg));
         update_opt components scope blocks }) entries components = Some cs
    \<and> length cs = m \<and> (\<forall>scope entry. (scope, entry) \<in> set entries \<longrightarrow> bset (cs ! scope) = (leads cfg)\<^sup>* `` {entry})
    \<and> (\<forall>scope. scope \<notin> fst ` set entries \<longrightarrow> cs ! scope = components ! scope)"
  using assms(2-5)
proof (induction entries arbitrary: components)
  case (Cons e entries)
  obtain scope entry where e: "e = (scope, entry)" by (cases e)
  obtain s where s: "reachable_blocks_dense cfg entry (length (cfg_blocks cfg)) = Some s" "bset s = (leads cfg)\<^sup>* `` {entry}"
    using reachable_blocks_ok[OF assms(1), of entry] Cons.prems(2) e by auto
  have m: "scope < m" "scope \<notin> fst ` set entries" using Cons.prems(1,3) e by auto
  obtain cs where cs: "fold_opt (\<lambda>(scope, entry) components. do {
         blocks \<leftarrow> reachable_blocks_dense cfg entry (length (cfg_blocks cfg));
         update_opt components scope blocks }) entries (components[scope := s]) = Some cs" "length cs = m"
    "\<forall>scope entry. (scope, entry) \<in> set entries \<longrightarrow> bset (cs ! scope) = (leads cfg)\<^sup>* `` {entry}"
    "\<forall>x. x \<notin> fst ` set entries \<longrightarrow> cs ! x = components[scope := s] ! x"
    using Cons.IH[of "components[scope := s]"] Cons.prems by auto
  have "cs ! scope = s" using cs(4) m Cons.prems(4) by simp
  then show ?case
    using cs s m(1) Cons.prems(4) e by (auto simp: panic_simps nth_list_update)
qed simp

lemma exit_blocks_ok:
  assumes "cfg_ok cfg" "distinct (map fst (cfg_scope_entries cfg))" "scope < m"
    and "\<forall>s \<in> fst ` set (cfg_scope_entries cfg). s < m"
  shows "\<exists>components. compute_scope_components_dense cfg m (length (cfg_blocks cfg)) = Some components
    \<and> exit_blocks_for_scope cfg components scope = Some (case scope_exits cfg scope of
        Some exits \<Rightarrow> exits
      | None \<Rightarrow> (case map_of (cfg_scope_entries cfg) scope of
          None \<Rightarrow> []
        | Some entry \<Rightarrow> filter (\<lambda>b. (entry, b) \<in> (leads cfg)\<^sup>* \<and> next_blocks cfg b = {}) [0..<length (cfg_blocks cfg)]))"
proof -
  let ?n = "length (cfg_blocks cfg)" and ?es = "cfg_scope_entries cfg"
  have entries: "\<forall>entry \<in> snd ` set ?es. entry < ?n"
    using assms(1) by (auto simp: cfg_ok_def Let_def within_def list_all_iff)
  obtain cs where cs: "compute_scope_components_dense cfg m ?n = Some cs" "length cs = m"
    "\<forall>s entry. (s, entry) \<in> set ?es \<longrightarrow> bset (cs ! s) = (leads cfg)\<^sup>* `` {entry}"
    "\<forall>s. s \<notin> fst ` set ?es \<longrightarrow> cs ! s = replicate m (bs_new ?n) ! s"
    using scope_components_ok[OF assms(1,4) entries assms(2), of "replicate m (bs_new ?n)"]
    by (auto simp: compute_scope_components_dense_def)
  have "filter (block_exits_component cfg (cs ! scope)) (iter_collect (bs_iter_ones (cs ! scope))) =
      (case map_of ?es scope of None \<Rightarrow> []
        | Some entry \<Rightarrow> filter (\<lambda>b. (entry, b) \<in> (leads cfg)\<^sup>* \<and> next_blocks cfg b = {}) [0..<?n])"
  proof (cases "map_of ?es scope")
    case None
    then have "cs ! scope = bs_new ?n" using cs(4) assms(3) by (simp add: map_of_eq_None_iff)
    then show ?thesis using None by (simp add: bs_iter_ones_eq bset_new)
  next
    case (Some entry)
    then have R: "bset (cs ! scope) = (leads cfg)\<^sup>* `` {entry}" using cs(3) map_of_SomeD by fast
    have "entry < ?n" using entries Some map_of_SomeD by fastforce
    have sub: "(leads cfg)\<^sup>* `` {entry} \<subseteq> {..<?n}"
    proof
      fix b assume "b \<in> (leads cfg)\<^sup>* `` {entry}"
      then have "(entry, b) \<in> (leads cfg)\<^sup>*" by simp
      then show "b \<in> {..<?n}"
        by cases (use \<open>entry < ?n\<close> next_within[OF assms(1)] in \<open>auto simp: leads_def next_blocks_def\<close>)
    qed
    have exits: "block_exits_component cfg (cs ! scope) b \<longleftrightarrow> next_blocks cfg b = {}"
      if "(entry, b) \<in> (leads cfg)\<^sup>*" for b
    proof -
      have "(entry, c) \<in> (leads cfg)\<^sup>*" if "c \<in> next_blocks cfg b" for c
        using \<open>(entry, b) \<in> (leads cfg)\<^sup>*\<close> that
        by (auto simp: leads_def next_blocks_def intro: rtrancl_into_rtrancl)
      then show ?thesis
        by (cases "successors_of cfg b = []")
          (simp_all add: block_exits_component_def list_ex_iff contains_bset R next_blocks_def case_prod_beta)
    qed
    have "(leads cfg)\<^sup>* `` {entry} = {b. b < ?n \<and> (entry, b) \<in> (leads cfg)\<^sup>*}" using sub by auto
    then have "iter_collect (bs_iter_ones (cs ! scope)) = filter (\<lambda>b. (entry, b) \<in> (leads cfg)\<^sup>*) [0..<?n]"
      unfolding bs_iter_ones_eq R by (simp only: sorted_list_of_filter)
    then show ?thesis using Some exits by (simp cong: conj_cong)
  qed
  then show ?thesis using cs(1,2) assms(3)
    by (cases "scope_exits cfg scope") (auto simp: exit_blocks_for_scope_def panic_simps)
qed

section \<open>Property\<close>

text \<open>C28: The searches over a graph that was built terminate without a panic and decide their relations: a
  block reaches another around blocked ones just when some path of edges between unblocked blocks leads
  there; the cached search answers the reflexive reachability whatever consistent cache it is given and
  leaves the cache consistent; and an overwrite is straight-line just when a chain of sole sequential edges
  into blocks with a single predecessor leads to it.\<close>

theorem graph_searches_exact:
  assumes "covered rank n p" "bindings_ok p ct"
    and "length (rp_function_bodies p) + length (program_calls p ct) < k"
    and "build_control_flow_graph k n p bindings references ct = Some cfg"
    and "a < length (cfg_blocks cfg)" "cache_ok cfg cache"
  shows "block_reaches_unless cfg a b is_blocked = Some (\<not> is_blocked a
      \<and> (a, b) \<in> {(x, y). y \<in> fst ` set (successors_of cfg x) \<and> \<not> is_blocked y}\<^sup>*)
    \<and> (\<exists>cache'. block_can_reach cfg a b cache =
          Some ((a, b) \<in> {(x, y). y \<in> fst ` set (successors_of cfg x)}\<^sup>*, cache') \<and> cache_ok cfg cache')
    \<and> is_straight_line_overwrite cfg a b = Some ((a, b) \<in>
          {(x, y). successors_of cfg x = [(y, Sequential)] \<and> length (predecessors_of cfg y) = 1}\<^sup>*)"
proof -
  note ok = build_cfg_result[OF assms(1-4)]
  have sets: "{(x, y). y \<in> fst ` set (successors_of cfg x) \<and> \<not> is_blocked y} = steps (open_next cfg is_blocked)"
    "{(x, y). y \<in> fst ` set (successors_of cfg x)} = leads cfg"
    "{(x, y). successors_of cfg x = [(y, Sequential)] \<and> length (predecessors_of cfg y) = 1} = steps (straight_next cfg)"
    by (simp_all add: steps_def open_next_def next_blocks_def straight_next_def leads_def)
  show ?thesis
    unfolding sets
    by (intro conjI block_reaches_unless_ok[OF ok assms(5)] block_can_reach_ok[OF ok assms(6,5)]
        is_straight_line_ok[OF ok assms(5)])
qed

theorem graph_searches_exact_witness:
  "\<exists>cfg. build_control_flow_graph 1 1 flow_program flow_bindings flow_references no_calls = Some cfg
    \<and> block_reaches_unless cfg 0 2 (\<lambda>b. b = 1) = Some False"
proof -
  obtain cfg where cfg: "build_control_flow_graph 1 1 flow_program flow_bindings flow_references no_calls = Some cfg"
    and ok: "cfg_ok cfg" and succ: "map (map fst) (cfg_successors cfg) = [[1], [2], []]"
    using flow_graph by (elim exE conjE) (rule that)
  have len: "length (cfg_successors cfg) = 3" using arg_cong[OF succ, of length] by simp
  then have n: "0 < length (cfg_blocks cfg)" "cache_ok cfg (replicate 3 None)"
    using cfg_okD(1)[OF ok] by (simp_all add: cache_ok_def)
  have "map fst (cfg_successors cfg ! 0) = [1]" using arg_cong[OF succ, of "\<lambda>xs. xs ! 0"] len by simp
  then have "fst ` set (successors_of cfg 0) = {1}"
    using len by (simp add: successors_of_def panic_simps flip: set_map)
  then have none: "(0, y) \<notin> {(x, y). y \<in> fst ` set (successors_of cfg x) \<and> y \<noteq> 1}" for y by simp
  have "(0, 2) \<notin> {(x, y). y \<in> fst ` set (successors_of cfg x) \<and> y \<noteq> 1}\<^sup>*"
  proof
    assume "(0, 2) \<in> {(x, y). y \<in> fst ` set (successors_of cfg x) \<and> y \<noteq> 1}\<^sup>*"
    then show False by (rule converse_rtranclE) (simp, use none in blast)
  qed
  with cfg conjunct1[OF graph_searches_exact[OF flow_program_facts cfg n, of 2 "\<lambda>b. b = 1"]] show ?thesis by auto
qed

end
