(* ===== verification/Uninitialized.thy ===== *)
theory Uninitialized
  imports Initialized_Names Runtime_Prelude Graph_Walks
begin

text \<open>
  Model of \<open>crates/shucked-semantic/src/dataflow/exact.rs\<close>, \<open>dataflow/uninitialized.rs\<close> and the part of
  \<open>dataflow/mod.rs\<close> that builds their inputs: the bundle of exact indexes, the queries for the bindings
  that reach a reference, and the analysis that reports reads before initialisation.

  The lazily filled cells of the bundle are pure functions of it, computed on demand.  A hash set that
  the code iterates over is the list of its elements in the order of the iteration; one that it only
  searches is a set.
\<close>

section \<open>Inputs and indexes\<close>

record dataflow_context =
  dc_cfg :: control_flow_graph
  dc_runtime :: runtime_prelude
  dc_scopes :: "scope list"
  dc_bindings :: "binding list"
  dc_references :: "reference list"
  dc_predefined_runtime_refs :: "reference_id set"
  dc_guarded_parameter_refs :: "reference_id list"
  dc_parameter_guard_flow_refs :: "reference_id list"
  dc_self_referential_assignment_refs :: "reference_id set"
  dc_resolved :: "reference_id \<rightharpoonup> binding_id"
  dc_call_tables :: call_tables
  dc_function_body_scopes :: "(binding_id \<times> scope_id) list"
  dc_indirect_targets_by_reference :: "reference_id \<rightharpoonup> binding_id list"
  dc_array_like_indirect_expansion_refs :: "reference_id set"
  dc_synthetic_reads :: "synthetic_read list"
  dc_entry_bindings :: "binding_id list"

record exact_variable_dataflow =
  ex_names :: name_table
  ex_reference_name_ids :: "nat list"
  ex_synthetic_read_name_ids :: "nat list"
  ex_binding_data :: dense_binding_data
  ex_binding_blocks :: "block_id option list"
  ex_reference_blocks :: "block_id option list"
  ex_unreachable_blocks :: dense_bit_set

definition build_exact_variable_dataflow :: "dataflow_context \<Rightarrow> exact_variable_dataflow option" where
  "build_exact_variable_dataflow ctx = do {
     let (names, reference_name_ids, synthetic_read_name_ids) =
       build_name_table (dc_bindings ctx) (dc_references ctx) (dc_synthetic_reads ctx);
     data \<leftarrow> build_dense_binding_data (dc_bindings ctx) names;
     binding_blocks \<leftarrow> build_binding_block_index (dc_cfg ctx) (length (dc_bindings ctx));
     reference_blocks \<leftarrow> build_reference_block_index (dc_cfg ctx) (length (dc_references ctx));
     unreachable_blocks \<leftarrow> build_unreachable_block_set (dc_cfg ctx);
     Some \<lparr>ex_names = names, ex_reference_name_ids = reference_name_ids,
       ex_synthetic_read_name_ids = synthetic_read_name_ids, ex_binding_data = data,
       ex_binding_blocks = binding_blocks, ex_reference_blocks = reference_blocks,
       ex_unreachable_blocks = unreachable_blocks\<rparr> }"

definition exact_reaching_definitions ::
  "nat \<Rightarrow> dataflow_context \<Rightarrow> exact_variable_dataflow \<Rightarrow> dense_reaching_definitions option" where
  "exact_reaching_definitions k ctx ex = do {
     order \<leftarrow> compute_reverse_postorder (dc_cfg ctx);
     compute_reaching_definitions_dense k (dc_cfg ctx) (dc_bindings ctx) (ex_binding_data ex)
       (dc_entry_bindings ctx) order }"

definition exact_initialized_name_states ::
  "nat \<Rightarrow> dataflow_context \<Rightarrow> exact_variable_dataflow \<Rightarrow> dense_initialized_name_states option" where
  "exact_initialized_name_states k ctx ex = do {
     order \<leftarrow> compute_reverse_postorder (dc_cfg ctx);
     compute_initialized_names k (dc_cfg ctx) (dc_bindings ctx) (ex_binding_data ex)
       (dc_entry_bindings ctx) order }"

text \<open>The block and name of a parameter guard, when it has both.\<close>

definition guard_name ::
  "dataflow_context \<Rightarrow> exact_variable_dataflow \<Rightarrow> reference_id \<Rightarrow> (block_id \<times> nat) list option" where
  "guard_name ctx ex i = do {
     reference \<leftarrow> nth_opt (dc_references ctx) i;
     block \<leftarrow> nth_opt (ex_reference_blocks ex) i;
     Some (case (block, nt_get (ex_names ex) (ref_name reference)) of
       (Some block, Some name) \<Rightarrow> [(block, name)] | _ \<Rightarrow> []) }"

definition c006_initialized_name_states ::
  "nat \<Rightarrow> dataflow_context \<Rightarrow> exact_variable_dataflow \<Rightarrow> dense_initialized_name_states option" where
  "c006_initialized_name_states k ctx ex = do {
     extra \<leftarrow> map_opt (guard_name ctx ex) (dc_parameter_guard_flow_refs ctx);
     order \<leftarrow> compute_reverse_postorder (dc_cfg ctx);
     compute_initialized_names_with_extra k (dc_cfg ctx) (dc_bindings ctx) (ex_binding_data ex)
       (dc_entry_bindings ctx) (concat extra) order }"

section \<open>Bindings that reach a reference\<close>

definition reaching_bindings_for_reference ::
  "nat \<Rightarrow> dataflow_context \<Rightarrow> exact_variable_dataflow \<Rightarrow> reference \<Rightarrow> binding_id list option" where
  "reaching_bindings_for_reference k ctx ex reference = do {
     block \<leftarrow> nth_opt (ex_reference_blocks ex) (ref_id reference);
     case block of
       None \<Rightarrow> Some []
     | Some block \<Rightarrow>
         if bs_contains (ex_unreachable_blocks ex) block then Some []
         else case nt_get (ex_names ex) (ref_name reference) of
             None \<Rightarrow> Some []
           | Some name \<Rightarrow> do {
               rd \<leftarrow> exact_reaching_definitions k ctx ex;
               row \<leftarrow> nth_opt (dbd_bindings_for_name (ex_binding_data ex)) name;
               Some (filter (bm_contains (rd_in rd) block) (iter_collect (bs_iter_ones row))) } }"

definition reference_reaches_any_binding ::
  "nat \<Rightarrow> dataflow_context \<Rightarrow> exact_variable_dataflow \<Rightarrow> reference \<Rightarrow> binding_id list \<Rightarrow> bool option" where
  "reference_reaches_any_binding k ctx ex reference candidates = do {
     block \<leftarrow> nth_opt (ex_reference_blocks ex) (ref_id reference);
     case block of
       None \<Rightarrow> Some False
     | Some block \<Rightarrow>
         if bs_contains (ex_unreachable_blocks ex) block then Some False
         else do {
           rd \<leftarrow> exact_reaching_definitions k ctx ex;
           Some (list_ex (bm_contains (rd_in rd) block) candidates) } }"

definition binding_block :: "exact_variable_dataflow \<Rightarrow> binding_id \<Rightarrow> block_id option option" where
  "binding_block ex i = nth_opt (ex_binding_blocks ex) i"

definition reference_block :: "exact_variable_dataflow \<Rightarrow> reference \<Rightarrow> block_id option option" where
  "reference_block ex reference = nth_opt (ex_reference_blocks ex) (ref_id reference)"

section \<open>Reads before initialisation\<close>

datatype uninitialized_certainty = DefinitelyUninitialized | PossiblyUninitialized

record uninitialized_reference =
  ur_reference :: reference_id
  ur_certainty :: uninitialized_certainty

definition guarded_parameter_reference_keys ::
  "dataflow_context \<Rightarrow> exact_variable_dataflow \<Rightarrow> (nat \<times> span_key) set option" where
  "guarded_parameter_reference_keys ctx ex = do {
     keys \<leftarrow> map_opt (\<lambda>i. do {
         guard \<leftarrow> nth_opt (dc_references ctx) i;
         Some (case nt_get (ex_names ex) (ref_name guard) of
           Some name \<Rightarrow> [(name, span_key (ref_span guard))] | None \<Rightarrow> []) })
       (dc_guarded_parameter_refs ctx);
     Some (set (concat keys)) }"

text \<open>The offsets of the guards by block and name, sorted.\<close>

type_synonym guard_flow_index = "(block_id \<times> nat) \<rightharpoonup> nat list"

definition push_guard ::
  "dataflow_context \<Rightarrow> exact_variable_dataflow \<Rightarrow> reference_id \<Rightarrow> guard_flow_index \<Rightarrow> guard_flow_index option" where
  "push_guard ctx ex i index = do {
     guard \<leftarrow> nth_opt (dc_references ctx) i;
     block \<leftarrow> nth_opt (ex_reference_blocks ex) i;
     Some (case (block, nt_get (ex_names ex) (ref_name guard)) of
       (Some block, Some name) \<Rightarrow>
         index((block, name) \<mapsto> (case index (block, name) of None \<Rightarrow> [] | Some offsets \<Rightarrow> offsets)
           @ [start_offset (ref_span guard)])
     | _ \<Rightarrow> index) }"

definition parameter_guard_flow_index ::
  "dataflow_context \<Rightarrow> exact_variable_dataflow \<Rightarrow> guard_flow_index option" where
  "parameter_guard_flow_index ctx ex = do {
     index \<leftarrow> fold_opt (push_guard ctx ex) (dc_parameter_guard_flow_refs ctx) Map.empty;
     Some (\<lambda>key. map_option sort (index key)) }"

definition precedes_reference :: "guard_flow_index \<Rightarrow> reference \<Rightarrow> block_id \<Rightarrow> nat \<Rightarrow> bool" where
  "precedes_reference index reference block name =
     (case index (block, name) of
        None \<Rightarrow> False
      | Some offsets \<Rightarrow> 0 < partition_point (\<lambda>offset. offset < start_offset (ref_span reference)) offsets)"

definition reference_resolves_to_file_entry_contract_variable ::
  "dataflow_context \<Rightarrow> reference \<Rightarrow> bool option" where
  "reference_resolves_to_file_entry_contract_variable ctx reference =
     (case dc_resolved ctx (ref_id reference) of
        None \<Rightarrow> Some False
      | Some i \<Rightarrow> do {
          b \<leftarrow> nth_opt (dc_bindings ctx) i;
          Some (b_kind b = Imported \<and> \<not> has_attr b attr_imported_function
            \<and> has_attr b attr_imported_file_entry \<and> \<not> has_attr b attr_imported_file_entry_initialized) })"

text \<open>The references the analysis does not look at.\<close>

definition skips_reference ::
  "dataflow_context \<Rightarrow> (nat \<times> span_key) set \<Rightarrow> reference \<Rightarrow> nat \<Rightarrow> bool" where
  "skips_reference ctx guarded_keys reference name \<longleftrightarrow>
     ref_kind reference \<in> {ImplicitRead, DeclarationName, ParameterPattern, ParameterSliceArithmetic}
     \<or> ref_id reference \<in> dc_predefined_runtime_refs ctx
     \<or> ref_id reference \<in> set (dc_guarded_parameter_refs ctx)
     \<or> ref_id reference \<in> dc_self_referential_assignment_refs ctx
     \<or> (name, span_key (ref_span reference)) \<in> guarded_keys
     \<or> ref_kind reference = IndirectExpansion
        \<and> (dc_resolved ctx (ref_id reference) \<noteq> None
           \<or> dc_indirect_targets_by_reference ctx (ref_id reference) \<noteq> None)"

text \<open>The body of the loop over the references: what it reports for one.\<close>

definition classify_reference ::
  "dataflow_context \<Rightarrow> exact_variable_dataflow \<Rightarrow> dense_initialized_name_states \<Rightarrow> (nat \<times> span_key) set
    \<Rightarrow> guard_flow_index \<Rightarrow> reference \<Rightarrow> uninitialized_certainty option option" where
  "classify_reference ctx ex states guarded_keys guards reference =
     (case nt_get (ex_names ex) (ref_name reference) of
        None \<Rightarrow> Some None
      | Some name \<Rightarrow>
          if skips_reference ctx guarded_keys reference name then Some None
          else do {
            block \<leftarrow> nth_opt (ex_reference_blocks ex) (ref_id reference);
            case block of
              None \<Rightarrow> Some None
            | Some block \<Rightarrow> do {
                ambient \<leftarrow> reference_resolves_to_file_entry_contract_variable ctx reference;
                if ambient then Some (Some DefinitelyUninitialized)
                else do {
                  let same_block_guard = precedes_reference guards reference block name;
                  let maybe = bm_contains (in_maybe_in states) block name \<or> same_block_guard;
                  let definite = bm_contains (in_definite_in states) block name \<or> same_block_guard;
                  Some (if \<not> maybe then Some DefinitelyUninitialized
                        else if \<not> definite then Some PossiblyUninitialized
                        else None) } } })"

definition analyze_uninitialized_references_exact ::
  "nat \<Rightarrow> dataflow_context \<Rightarrow> exact_variable_dataflow \<Rightarrow> uninitialized_reference list option" where
  "analyze_uninitialized_references_exact k ctx ex = do {
     states \<leftarrow> c006_initialized_name_states k ctx ex;
     guarded_keys \<leftarrow> guarded_parameter_reference_keys ctx ex;
     guards \<leftarrow> parameter_guard_flow_index ctx ex;
     fold_opt (\<lambda>reference found. do {
         certainty \<leftarrow> classify_reference ctx ex states guarded_keys guards reference;
         Some (case certainty of
           None \<Rightarrow> found
         | Some c \<Rightarrow> found @ [\<lparr>ur_reference = ref_id reference, ur_certainty = c\<rparr>]) })
       (dc_references ctx) [] }"

section \<open>The inputs of a built graph\<close>

definition references_indexed :: "reference list \<Rightarrow> bool" where
  "references_indexed references \<longleftrightarrow> map ref_id references = [0..<length references]"

definition context_ok :: "dataflow_context \<Rightarrow> bool" where
  "context_ok ctx \<longleftrightarrow> cfg_ok (dc_cfg ctx) \<and> bindings_indexed (dc_bindings ctx) \<and> references_indexed (dc_references ctx)
     \<and> block_items_ok (length (dc_bindings ctx)) (length (dc_references ctx)) (dc_cfg ctx)
     \<and> set (dc_entry_bindings ctx) \<subseteq> {..<length (dc_bindings ctx)}
     \<and> set (dc_guarded_parameter_refs ctx) \<subseteq> {..<length (dc_references ctx)}
     \<and> set (dc_parameter_guard_flow_refs ctx) \<subseteq> {..<length (dc_references ctx)}
     \<and> ran (dc_resolved ctx) \<subseteq> {..<length (dc_bindings ctx)}"

definition exact_ok :: "dataflow_context \<Rightarrow> exact_variable_dataflow \<Rightarrow> bool" where
  "exact_ok ctx ex \<longleftrightarrow> names_ok (ex_names ex)
     \<and> dataflow_input (dc_cfg ctx) (ex_names ex) (dc_bindings ctx) (ex_binding_data ex) (dc_entry_bindings ctx)
     \<and> (\<forall>r \<in> set (dc_references ctx). nt_get (ex_names ex) (ref_name r) \<noteq> None)
     \<and> ex_reference_blocks ex = map (block_with bb_references (dc_cfg ctx)) [0..<length (dc_references ctx)]
     \<and> ex_binding_blocks ex = map (block_with bb_bindings (dc_cfg ctx)) [0..<length (dc_bindings ctx)]
     \<and> sized (length (cfg_blocks (dc_cfg ctx))) (ex_unreachable_blocks ex)
     \<and> bset (ex_unreachable_blocks ex) = set (cfg_unreachable (dc_cfg ctx))
     \<and> length (ex_reference_name_ids ex) = length (dc_references ctx)
     \<and> (\<forall>i < length (dc_references ctx).
          nt_get (ex_names ex) (ref_name (dc_references ctx ! i)) = Some (ex_reference_name_ids ex ! i))
     \<and> length (ex_synthetic_read_name_ids ex) = length (dc_synthetic_reads ctx)
     \<and> (\<forall>i < length (dc_synthetic_reads ctx).
          nt_get (ex_names ex) (sr_name (dc_synthetic_reads ctx ! i)) = Some (ex_synthetic_read_name_ids ex ! i))
     \<and> next_writes (dc_bindings ctx) (dbd_next_overwrite (ex_binding_data ex))"

lemma build_exact_ok:
  assumes "context_ok ctx"
  shows "\<exists>ex. build_exact_variable_dataflow ctx = Some ex \<and> exact_ok ctx ex"
proof -
  note c = assms[unfolded context_ok_def]
  obtain names rs ss where t: "build_name_table (dc_bindings ctx) (dc_references ctx) (dc_synthetic_reads ctx) = (names, rs, ss)"
    by (metis prod_cases3)
  note names = build_name_table_ok[OF t]
  have ix: "bindings_indexed (dc_bindings ctx)" and ok: "cfg_ok (dc_cfg ctx)"
    and items: "block_items_ok (length (dc_bindings ctx)) (length (dc_references ctx)) (dc_cfg ctx)" using c by blast+
  obtain data where data: "build_dense_binding_data (dc_bindings ctx) names = Some data"
    "binding_data_ok names (dc_bindings ctx) data" "next_writes (dc_bindings ctx) (dbd_next_overwrite data)"
    using binding_data_built[OF names(1,2) ix] by blast
  obtain un where un: "build_unreachable_block_set (dc_cfg ctx) = Some un"
    "sized (length (cfg_blocks (dc_cfg ctx))) un" "bset un = set (cfg_unreachable (dc_cfg ctx))"
    using unreachable_block_set_ok[OF ok] by blast
  have "set (bb_bindings (cfg_blocks (dc_cfg ctx) ! b)) \<subseteq> {..<length (dc_bindings ctx)}"
    if "b < length (cfg_blocks (dc_cfg ctx))" for b
    using items nth_mem[OF that] by (simp add: block_items_ok_def)
  then have "dataflow_input (dc_cfg ctx) names (dc_bindings ctx) data (dc_entry_bindings ctx)"
    using c names(1) data(2) by (simp add: dataflow_input_def)
  moreover have "\<forall>r \<in> set (dc_references ctx). nt_get names (ref_name r) \<noteq> None"
    using names(4) by (metis in_set_conv_nth option.distinct(1))
  ultimately show ?thesis
    unfolding build_exact_variable_dataflow_def t prod.case Let_def data(1) block_indexes_ok[OF items] un(1) Option.bind_lunit
    using names(1,3,4,5,6) un(2,3) data(3) by (auto simp: exact_ok_def)
qed

lemma block_with_within:
  assumes "cfg_ok cfg" "block_with items cfg i = Some b"
  shows "b < length (cfg_blocks cfg)" "i \<in> set (items (cfg_blocks cfg ! b))"
proof -
  from assms(2) obtain blk where blk: "List.find (\<lambda>b. i \<in> set (items b)) (rev (cfg_blocks cfg)) = Some blk" "b = bb_id blk"
    by (auto simp: block_with_def)
  obtain k where "k < length (rev (cfg_blocks cfg))" "i \<in> set (items (rev (cfg_blocks cfg) ! k))"
    "blk = rev (cfg_blocks cfg) ! k"
    using find_Some_iff[THEN iffD1, OF blk(1)] by blast
  then have "blk \<in> set (cfg_blocks cfg)" "i \<in> set (items blk)" by (metis nth_mem set_rev, metis)
  then obtain j where j: "j < length (cfg_blocks cfg)" "blk = cfg_blocks cfg ! j" by (auto simp: in_set_conv_nth)
  have "bb_id blk = j" using arg_cong[OF cfg_okD(3)[OF assms(1)], of "\<lambda>xs. xs ! j"] j by simp
  then show "b < length (cfg_blocks cfg)" "i \<in> set (items (cfg_blocks cfg ! b))"
    using blk(2) j \<open>i \<in> set (items blk)\<close> by simp_all
qed

lemma exact_okD:
  assumes "exact_ok ctx ex"
  shows "names_ok (ex_names ex)"
    and "dataflow_input (dc_cfg ctx) (ex_names ex) (dc_bindings ctx) (ex_binding_data ex) (dc_entry_bindings ctx)"
    and "r \<in> set (dc_references ctx) \<Longrightarrow> \<exists>n. nt_get (ex_names ex) (ref_name r) = Some n"
    and "i < length (dc_references ctx) \<Longrightarrow>
      nth_opt (ex_reference_blocks ex) i = Some (block_with bb_references (dc_cfg ctx) i)"
    and "bs_contains (ex_unreachable_blocks ex) b \<longleftrightarrow> b \<in> set (cfg_unreachable (dc_cfg ctx))"
  using assms by (auto simp: exact_ok_def nth_opt_def contains_bset)

lemma context_cfg: "context_ok ctx \<Longrightarrow> cfg_ok (dc_cfg ctx)"
  by (simp add: context_ok_def)

lemma reference_id_bound:
  assumes "references_indexed references" "r \<in> set references"
  shows "ref_id r < length references"
proof -
  have "ref_id r \<in> set (map ref_id references)" using assms(2) by simp
  then show ?thesis unfolding assms(1)[unfolded references_indexed_def] by simp
qed

lemma order_ok:
  assumes "cfg_ok cfg"
  obtains order where "compute_reverse_postorder cfg = Some order" "set order = {..<length (cfg_blocks cfg)}"
  using reverse_postorder_ok[OF assms] by blast

text \<open>The bindings of a name, from the set that is kept for it.\<close>

lemma bindings_of_name:
  assumes "dataflow_input cfg names bindings data entry" "nt_get names x = Some n"
  shows "\<exists>row. nth_opt (dbd_bindings_for_name data) n = Some row
    \<and> iter_collect (bs_iter_ones row) = filter (\<lambda>i. b_name (bindings ! i) = x) [0..<length bindings]"
proof -
  note d = assms(1)[unfolded dataflow_input_def]
  note data = conjunct1[OF conjunct2[OF conjunct2[OF d]], unfolded binding_data_ok_def]
  have n: "n < nt_len names" using nt_get_bound[OF _ assms(2)] d by blast
  have same: "name_ids names bindings ! i = n \<longleftrightarrow> b_name (bindings ! i) = x" if lt: "i < length bindings" for i
  proof -
    obtain y where y: "nt_get names (b_name (bindings ! i)) = Some y" using data nth_mem[OF lt] by blast
    with lt nt_get_inj[of names] assms(2) d show ?thesis by auto
  qed
  have "bset (dbd_bindings_for_name data ! n) = {i. i < length bindings \<and> b_name (bindings ! i) = x}"
    using data n same by (simp del: nth_map cong: conj_cong)
  then show ?thesis
    using data n by (simp add: bs_iter_ones_eq panic_simps sorted_list_of_filter)
qed

section \<open>The guards\<close>

definition guard_extra :: "dataflow_context \<Rightarrow> name_table \<Rightarrow> (block_id \<times> nat) list" where
  "guard_extra ctx names = concat (map (\<lambda>i.
     case (block_with bb_references (dc_cfg ctx) i, nt_get names (ref_name (dc_references ctx ! i))) of
       (Some block, Some name) \<Rightarrow> [(block, name)] | _ \<Rightarrow> []) (dc_parameter_guard_flow_refs ctx))"

definition guarded_before :: "dataflow_context \<Rightarrow> reference \<Rightarrow> block_id \<Rightarrow> bool" where
  "guarded_before ctx r b \<longleftrightarrow> (\<exists>g \<in> set (dc_parameter_guard_flow_refs ctx).
     block_with bb_references (dc_cfg ctx) g = Some b \<and> ref_name (dc_references ctx ! g) = ref_name r
     \<and> start_offset (ref_span (dc_references ctx ! g)) < start_offset (ref_span r))"

lemma map_opt_Some: "(\<And>x. x \<in> set xs \<Longrightarrow> f x = Some (g x)) \<Longrightarrow> map_opt f xs = Some (map g xs)"
  by (induction xs) auto

lemma guard_extra_eq:
  assumes "exact_ok ctx ex" "set (dc_parameter_guard_flow_refs ctx) \<subseteq> {..<length (dc_references ctx)}"
  shows "map_option concat (map_opt (guard_name ctx ex) (dc_parameter_guard_flow_refs ctx)) = Some (guard_extra ctx (ex_names ex))"
proof -
  have "guard_name ctx ex i = Some (case (block_with bb_references (dc_cfg ctx) i,
      nt_get (ex_names ex) (ref_name (dc_references ctx ! i))) of (Some block, Some name) \<Rightarrow> [(block, name)] | _ \<Rightarrow> [])"
    if "i \<in> set (dc_parameter_guard_flow_refs ctx)" for i
    using that assms exact_okD(4)[OF assms(1), of i] by (auto simp: guard_name_def panic_simps)
  then have "map_opt (guard_name ctx ex) (dc_parameter_guard_flow_refs ctx) = Some (map (\<lambda>i.
      case (block_with bb_references (dc_cfg ctx) i, nt_get (ex_names ex) (ref_name (dc_references ctx ! i))) of
        (Some block, Some name) \<Rightarrow> [(block, name)] | _ \<Rightarrow> []) (dc_parameter_guard_flow_refs ctx))"
    by (rule map_opt_Some)
  then show ?thesis by (simp add: guard_extra_def)
qed

lemma guard_extra_within:
  assumes "context_ok ctx" "exact_ok ctx ex"
  shows "\<forall>(b, x) \<in> set (guard_extra ctx (ex_names ex)). b < length (cfg_blocks (dc_cfg ctx)) \<and> x < nt_len (ex_names ex)"
  using block_with_within(1)[OF context_cfg[OF assms(1)]] nt_get_bound[OF exact_okD(1)[OF assms(2)]]
  by (auto simp: guard_extra_def split: option.splits)

abbreviation offsets_at :: "guard_flow_index \<Rightarrow> block_id \<times> nat \<Rightarrow> nat list" where
  "offsets_at index key \<equiv> (case index key of None \<Rightarrow> [] | Some offsets \<Rightarrow> offsets)"

lemma offsets_at_update: "offsets_at (index(key \<mapsto> xs)) key' = (if key' = key then xs else offsets_at index key')"
  by simp

lemma push_guards_ok:
  assumes "exact_ok ctx ex" "set gs \<subseteq> {..<length (dc_references ctx)}"
  shows "\<exists>index'. fold_opt (push_guard ctx ex) gs index = Some index' \<and> (\<forall>b n. set (offsets_at index' (b, n)) =
    set (offsets_at index (b, n)) \<union> {start_offset (ref_span (dc_references ctx ! g)) | g. g \<in> set gs
      \<and> block_with bb_references (dc_cfg ctx) g = Some b \<and> nt_get (ex_names ex) (ref_name (dc_references ctx ! g)) = Some n})"
  using assms(2)
proof (induction gs arbitrary: index)
  case (Cons g gs)
  then have g: "g < length (dc_references ctx)" by simp
  let ?o = "start_offset (ref_span (dc_references ctx ! g))"
  let ?b = "block_with bb_references (dc_cfg ctx) g" and ?n = "nt_get (ex_names ex) (ref_name (dc_references ctx ! g))"
  obtain i1 where i1: "push_guard ctx ex g index = Some i1"
    "\<forall>b n. set (offsets_at i1 (b, n)) = set (offsets_at index (b, n)) \<union> (if ?b = Some b \<and> ?n = Some n then {?o} else {})"
  proof (cases "\<exists>b n. ?b = Some b \<and> ?n = Some n")
    case True
    then obtain b n where bn: "?b = Some b" "?n = Some n" by blast
    show ?thesis
    proof (rule that)
      show "push_guard ctx ex g index = Some (index((b, n) \<mapsto> offsets_at index (b, n) @ [?o]))"
        using g exact_okD(4)[OF assms(1) g] bn by (simp add: push_guard_def panic_simps)
    qed (use bn in \<open>simp only: offsets_at_update, auto\<close>)
  next
    case False
    then show ?thesis
      using that[of index] g exact_okD(4)[OF assms(1) g] by (auto simp: push_guard_def panic_simps split: option.split)
  qed
  from Cons.IH[of i1] Cons.prems obtain i2 where i2: "fold_opt (push_guard ctx ex) gs i1 = Some i2"
    "\<forall>b n. set (offsets_at i2 (b, n)) = set (offsets_at i1 (b, n)) \<union> {start_offset (ref_span (dc_references ctx ! g)) | g. g \<in> set gs
      \<and> block_with bb_references (dc_cfg ctx) g = Some b \<and> nt_get (ex_names ex) (ref_name (dc_references ctx ! g)) = Some n}"
    by auto
  have "set (offsets_at i2 (b, n)) = set (offsets_at index (b, n)) \<union> {start_offset (ref_span (dc_references ctx ! h)) | h.
      h \<in> set (g # gs) \<and> block_with bb_references (dc_cfg ctx) h = Some b
      \<and> nt_get (ex_names ex) (ref_name (dc_references ctx ! h)) = Some n}" for b n
    using i1(2)[rule_format, of b n] i2(2)[rule_format, of b n] by auto
  with i1(1) i2(1) show ?case by simp
qed simp

lemma guard_index_ok:
  assumes "context_ok ctx" "exact_ok ctx ex"
  shows "\<exists>index. parameter_guard_flow_index ctx ex = Some index \<and> (\<forall>r \<in> set (dc_references ctx). \<forall>b n.
    nt_get (ex_names ex) (ref_name r) = Some n \<longrightarrow> precedes_reference index r b n = guarded_before ctx r b)"
proof -
  have refs: "set (dc_parameter_guard_flow_refs ctx) \<subseteq> {..<length (dc_references ctx)}"
    using assms(1) by (simp add: context_ok_def)
  from push_guards_ok[OF assms(2) refs, of Map.empty] obtain index where
    ix: "fold_opt (push_guard ctx ex) (dc_parameter_guard_flow_refs ctx) Map.empty = Some index"
    "\<forall>b n. set (offsets_at index (b, n)) = {start_offset (ref_span (dc_references ctx ! g)) | g.
      g \<in> set (dc_parameter_guard_flow_refs ctx) \<and> block_with bb_references (dc_cfg ctx) g = Some b
      \<and> nt_get (ex_names ex) (ref_name (dc_references ctx ! g)) = Some n}" by auto
  have "precedes_reference (\<lambda>key. map_option sort (index key)) r b n = guarded_before ctx r b"
    if r: "r \<in> set (dc_references ctx)" "nt_get (ex_names ex) (ref_name r) = Some n" for r b n
  proof -
    let ?o = "start_offset (ref_span r)"
    have "0 < partition_point (\<lambda>offset. offset < ?o) (sort xs) \<longleftrightarrow> (\<exists>x \<in> set xs. x < ?o)" for xs :: "nat list"
    proof -
      have "partitioned (\<lambda>offset. offset < ?o) (sort xs)"
        by (rule sorted_wrt_partitioned[of "(\<le>)"]) (use sorted_sort in auto)
      then show ?thesis by (auto simp: partition_point_filter filter_empty_conv)
    qed
    then have "precedes_reference (\<lambda>key. map_option sort (index key)) r b n
        \<longleftrightarrow> (\<exists>x \<in> set (offsets_at index (b, n)). x < ?o)"
      by (auto simp: precedes_reference_def split: option.split)
    also have "\<dots> \<longleftrightarrow> (\<exists>g \<in> set (dc_parameter_guard_flow_refs ctx). block_with bb_references (dc_cfg ctx) g = Some b
        \<and> nt_get (ex_names ex) (ref_name (dc_references ctx ! g)) = Some n
        \<and> start_offset (ref_span (dc_references ctx ! g)) < ?o)"
      unfolding ix(2)[rule_format] by blast
    also have "\<dots> \<longleftrightarrow> guarded_before ctx r b"
      unfolding guarded_before_def using nt_get_inj[OF exact_okD(1)[OF assms(2)] r(2)] r(2) by (metis (no_types, lifting))
    finally show ?thesis .
  qed
  then show ?thesis by (simp add: parameter_guard_flow_index_def ix(1))
qed

lemma guarded_keys_ok:
  assumes "context_ok ctx" "exact_ok ctx ex"
  shows "\<exists>keys. guarded_parameter_reference_keys ctx ex = Some keys \<and> (\<forall>r \<in> set (dc_references ctx). \<forall>n.
    nt_get (ex_names ex) (ref_name r) = Some n \<longrightarrow> ((n, span_key (ref_span r)) \<in> keys
      \<longleftrightarrow> (\<exists>g \<in> set (dc_guarded_parameter_refs ctx). ref_name (dc_references ctx ! g) = ref_name r
           \<and> span_key (ref_span (dc_references ctx ! g)) = span_key (ref_span r))))"
proof -
  let ?refs = "dc_references ctx" and ?guards = "dc_guarded_parameter_refs ctx"
  let ?key = "\<lambda>i. case nt_get (ex_names ex) (ref_name (?refs ! i)) of
    Some name \<Rightarrow> [(name, span_key (ref_span (?refs ! i)))] | None \<Rightarrow> []"
  have within: "i < length ?refs" if "i \<in> set ?guards" for i
    using assms(1) that by (auto simp: context_ok_def)
  then have "map_opt (\<lambda>i. do { guard \<leftarrow> nth_opt ?refs i; Some (case nt_get (ex_names ex) (ref_name guard) of
      Some name \<Rightarrow> [(name, span_key (ref_span guard))] | None \<Rightarrow> []) }) ?guards = Some (map ?key ?guards)"
    by (intro map_opt_Some) (simp add: panic_simps)
  then have keys: "guarded_parameter_reference_keys ctx ex = Some (set (concat (map ?key ?guards)))"
    unfolding guarded_parameter_reference_keys_def by (simp only: Option.bind_lunit)
  have "(n, span_key (ref_span r)) \<in> set (concat (map ?key ?guards)) \<longleftrightarrow> (\<exists>g \<in> set ?guards.
      ref_name (?refs ! g) = ref_name r \<and> span_key (ref_span (?refs ! g)) = span_key (ref_span r))"
    if n: "nt_get (ex_names ex) (ref_name r) = Some n" for r n
  proof -
    have "(n, span_key (ref_span r)) \<in> set (?key g) \<longleftrightarrow>
        ref_name (?refs ! g) = ref_name r \<and> span_key (ref_span (?refs ! g)) = span_key (ref_span r)" for g
    proof (cases "nt_get (ex_names ex) (ref_name (?refs ! g))")
      case None
      with n show ?thesis by auto
    next
      case (Some m)
      have "m = n \<longleftrightarrow> ref_name (?refs ! g) = ref_name r"
        using nt_get_inj[OF exact_okD(1)[OF assms(2)] n, of "ref_name (?refs ! g)"] n Some by auto
      with Some show ?thesis by auto
    qed
    then show ?thesis by simp
  qed
  with keys show ?thesis by blast
qed

section \<open>Properties\<close>

text \<open>C8: The bindings that reach a reference are exactly the bindings of its name, in the order of their
  ids, that some run has in force when it arrives at the block of the reference; a reference without a
  block, or in a block listed as unreachable, has none.\<close>

theorem reaching_bindings_exact:
  assumes "context_ok ctx" "build_exact_variable_dataflow ctx = Some ex" "r \<in> set (dc_references ctx)"
    and "bindings_placed (dc_cfg ctx) (dc_entry_bindings ctx)"
    and "length (cfg_blocks (dc_cfg ctx)) * length (dc_bindings ctx) + 2 \<le> k"
  shows "reaching_bindings_for_reference k ctx ex r =
    Some (case block_with bb_references (dc_cfg ctx) (ref_id r) of
        None \<Rightarrow> []
      | Some b \<Rightarrow>
          if b \<in> set (cfg_unreachable (dc_cfg ctx)) then []
          else filter (\<lambda>i. b_name (dc_bindings ctx ! i) = ref_name r
            \<and> (\<exists>X. definitions_at (dc_cfg ctx) (dc_bindings ctx) (dc_entry_bindings ctx) b X \<and> i \<in> X))
            [0..<length (dc_bindings ctx)])"
proof -
  let ?cfg = "dc_cfg ctx" and ?bs = "dc_bindings ctx"
  have ex: "exact_ok ctx ex" using build_exact_ok[OF assms(1)] assms(2) by auto
  note inp = exact_okD(2)[OF ex] and ok = context_cfg[OF assms(1)]
  obtain order where order: "compute_reverse_postorder ?cfg = Some order" using order_ok[OF ok] .
  obtain rd where rd: "compute_reaching_definitions_dense k ?cfg ?bs (ex_binding_data ex) (dc_entry_bindings ctx) order = Some rd"
    "\<forall>b < length (cfg_blocks ?cfg). \<forall>i < length ?bs. bm_contains (rd_in rd) b i
      \<longleftrightarrow> (\<exists>X. definitions_at ?cfg ?bs (dc_entry_bindings ctx) b X \<and> i \<in> X)"
  proof -
    note d = inp[unfolded dataflow_input_def]
    obtain r where r: "compute_reaching_definitions_dense k ?cfg ?bs (ex_binding_data ex) (dc_entry_bindings ctx) order = Some r"
      "shaped (length (cfg_blocks ?cfg)) (length ?bs) (rd_in r)"
      "\<forall>b < length (cfg_blocks ?cfg). mrow (rd_in r) b = {x. arrives (run_problem ?cfg ?bs (dc_entry_bindings ctx)) x b}"
      using reaching_definitions_ok[OF inp _ assms(5)] order_ok[OF ok] order by (metis option.inject)
    have "arrives (run_problem ?cfg ?bs (dc_entry_bindings ctx)) i b
        \<longleftrightarrow> (\<exists>X. definitions_at ?cfg ?bs (dc_entry_bindings ctx) b X \<and> i \<in> X)"
      if "b < length (cfg_blocks ?cfg)" for b i
      using arrive_runs(1)[OF ok assms(4) _ _ _ that, of ?bs i] runs_arrive[OF ok] d by blast
    with r show ?thesis by (intro that[of r]) (auto simp: matrix_contains)
  qed
  have id: "ref_id r < length (dc_references ctx)"
    using reference_id_bound[OF _ assms(3)] assms(1) by (simp add: context_ok_def)
  obtain n where n: "nt_get (ex_names ex) (ref_name r) = Some n" using exact_okD(3)[OF ex assms(3)] by blast
  from bindings_of_name[OF inp n] obtain row where row: "nth_opt (dbd_bindings_for_name (ex_binding_data ex)) n = Some row"
    "iter_collect (bs_iter_ones row) = filter (\<lambda>i. b_name (?bs ! i) = ref_name r) [0..<length ?bs]" by blast
  show ?thesis
  proof (cases "block_with bb_references ?cfg (ref_id r)")
    case None
    then show ?thesis by (simp add: reaching_bindings_for_reference_def exact_okD(4)[OF ex id])
  next
    case (Some b)
    have b: "b < length (cfg_blocks ?cfg)" using block_with_within(1)[OF ok Some] .
    have erd: "exact_reaching_definitions k ctx ex = Some rd"
      using order rd(1) by (simp add: exact_reaching_definitions_def)
    have eq: "filter (bm_contains (rd_in rd) b) (filter (\<lambda>i. b_name (?bs ! i) = ref_name r) [0..<length ?bs]) =
        filter (\<lambda>i. b_name (?bs ! i) = ref_name r
          \<and> (\<exists>X. definitions_at ?cfg ?bs (dc_entry_bindings ctx) b X \<and> i \<in> X)) [0..<length ?bs]"
      unfolding filter_filter by (intro filter_cong refl) (use rd(2)[rule_format, OF b] in auto)
    show ?thesis
      unfolding reaching_bindings_for_reference_def exact_okD(4)[OF ex id] exact_okD(5)[OF ex] Some
        Option.bind_lunit option.case n erd row eq
      by (cases "b \<in> set (cfg_unreachable ?cfg)") (simp_all only: if_True if_False)
  qed
qed

text \<open>What the analysis of uninitialised reads is to report for a reference.\<close>

definition reference_skipped :: "dataflow_context \<Rightarrow> reference \<Rightarrow> bool" where
  "reference_skipped ctx r \<longleftrightarrow> ref_kind r \<in> {ImplicitRead, DeclarationName, ParameterPattern, ParameterSliceArithmetic}
     \<or> ref_id r \<in> dc_predefined_runtime_refs ctx \<or> ref_id r \<in> dc_self_referential_assignment_refs ctx
     \<or> (\<exists>g \<in> set (dc_guarded_parameter_refs ctx). g = ref_id r \<or> ref_name (dc_references ctx ! g) = ref_name r
          \<and> span_key (ref_span (dc_references ctx ! g)) = span_key (ref_span r))
     \<or> ref_kind r = IndirectExpansion
          \<and> (ref_id r \<in> dom (dc_resolved ctx) \<or> ref_id r \<in> dom (dc_indirect_targets_by_reference ctx))"

definition ambient_only :: "dataflow_context \<Rightarrow> reference \<Rightarrow> bool" where
  "ambient_only ctx r \<longleftrightarrow> (\<exists>i. dc_resolved ctx (ref_id r) = Some i \<and> b_kind (dc_bindings ctx ! i) = Imported
     \<and> \<not> has_attr (dc_bindings ctx ! i) attr_imported_function
     \<and> has_attr (dc_bindings ctx ! i) attr_imported_file_entry
     \<and> \<not> has_attr (dc_bindings ctx ! i) attr_imported_file_entry_initialized)"

definition expected_report ::
  "dataflow_context \<Rightarrow> name_table \<Rightarrow> reference \<Rightarrow> uninitialized_certainty option" where
  "expected_report ctx names r =
     (if reference_skipped ctx r then None
      else case block_with bb_references (dc_cfg ctx) (ref_id r) of
          None \<Rightarrow> None
        | Some b \<Rightarrow>
            if ambient_only ctx r then Some DefinitelyUninitialized
            else if guarded_before ctx r b then None
            else if \<not> arrives (set_names (dc_cfg ctx) names (dc_bindings ctx) (dc_entry_bindings ctx) (guard_extra ctx names))
                (the (nt_get names (ref_name r))) b
              then Some DefinitelyUninitialized
            else if arrives (unset_names (dc_cfg ctx) names (dc_bindings ctx) (dc_entry_bindings ctx) (guard_extra ctx names))
                (the (nt_get names (ref_name r))) b
              then Some PossiblyUninitialized
            else None)"

lemma classify_ok:
  assumes "context_ok ctx" "exact_ok ctx ex" "r \<in> set (dc_references ctx)"
    and keys: "guarded_parameter_reference_keys ctx ex = Some keys"
    and guards: "parameter_guard_flow_index ctx ex = Some guards"
    and states: "\<forall>b < length (cfg_blocks (dc_cfg ctx)). \<forall>x < nt_len (ex_names ex).
      (bm_contains (in_maybe_in states) b x \<longleftrightarrow>
         arrives (set_names (dc_cfg ctx) (ex_names ex) (dc_bindings ctx) (dc_entry_bindings ctx) (guard_extra ctx (ex_names ex))) x b)
      \<and> (bm_contains (in_definite_in states) b x \<longleftrightarrow>
         \<not> arrives (unset_names (dc_cfg ctx) (ex_names ex) (dc_bindings ctx) (dc_entry_bindings ctx) (guard_extra ctx (ex_names ex))) x b)"
  shows "classify_reference ctx ex states keys guards r = Some (expected_report ctx (ex_names ex) r)"
proof -
  obtain n where n: "nt_get (ex_names ex) (ref_name r) = Some n" using exact_okD(3)[OF assms(2,3)] by blast
  have id: "ref_id r < length (dc_references ctx)"
    using reference_id_bound[OF _ assms(3)] assms(1) by (simp add: context_ok_def)
  have "(n, span_key (ref_span r)) \<in> keys \<longleftrightarrow> (\<exists>g \<in> set (dc_guarded_parameter_refs ctx).
      ref_name (dc_references ctx ! g) = ref_name r \<and> span_key (ref_span (dc_references ctx ! g)) = span_key (ref_span r))"
    using guarded_keys_ok[OF assms(1,2)] keys n assms(3) by auto
  then have skip: "skips_reference ctx keys r n = reference_skipped ctx r"
    unfolding skips_reference_def reference_skipped_def by auto
  show ?thesis
  proof (cases "reference_skipped ctx r \<or> block_with bb_references (dc_cfg ctx) (ref_id r) = None")
    case True
    then show ?thesis
      by (auto simp: classify_reference_def expected_report_def n skip exact_okD(4)[OF assms(2) id])
  next
    case False
    then obtain b where b: "block_with bb_references (dc_cfg ctx) (ref_id r) = Some b" by auto
    have bn: "b < length (cfg_blocks (dc_cfg ctx))" using block_with_within(1)[OF context_cfg[OF assms(1)] b] .
    have nn: "n < nt_len (ex_names ex)" using nt_get_bound[OF exact_okD(1)[OF assms(2)] n] .
    have amb: "reference_resolves_to_file_entry_contract_variable ctx r = Some (ambient_only ctx r)"
    proof (cases "dc_resolved ctx (ref_id r)")
      case (Some i)
      then have "i < length (dc_bindings ctx)" using assms(1) by (auto simp: context_ok_def ran_def)
      then show ?thesis using Some
        by (simp add: reference_resolves_to_file_entry_contract_variable_def ambient_only_def panic_simps)
    qed (simp add: reference_resolves_to_file_entry_contract_variable_def ambient_only_def)
    have g: "precedes_reference guards r b n = guarded_before ctx r b"
      using guard_index_ok[OF assms(1,2)] guards n assms(3) by auto
    show ?thesis
      using False states[rule_format, OF bn nn]
      by (simp add: classify_reference_def expected_report_def n skip exact_okD(4)[OF assms(2) id] b amb g Let_def)
  qed
qed

text \<open>The script \<open>x=1; x=2; echo "$x$y"\<close>, with its two reads.\<close>

definition flow_read :: "nat \<Rightarrow> string \<Rightarrow> reference" where
  "flow_read i name = \<lparr>ref_id = i, ref_name = name, ref_kind = Expansion, ref_scope = 0,
     ref_span = span_new, ref_name_span = span_new\<rparr>"

definition flow_context_of :: "control_flow_graph \<Rightarrow> dataflow_context" where
  "flow_context_of cfg = \<lparr>dc_cfg = cfg, dc_runtime = runtime_new Bash True, dc_scopes = sample_scopes,
     dc_bindings = flow_assignments, dc_references = [flow_read 0 ''x'', flow_read 1 ''y''],
     dc_predefined_runtime_refs = {}, dc_guarded_parameter_refs = [], dc_parameter_guard_flow_refs = [],
     dc_self_referential_assignment_refs = {}, dc_resolved = Map.empty,
     dc_call_tables = no_calls, dc_function_body_scopes = [],
     dc_indirect_targets_by_reference = Map.empty, dc_array_like_indirect_expansion_refs = {},
     dc_synthetic_reads = [], dc_entry_bindings = []\<rparr>"

lemma flow_context_fields:
  "dc_cfg (flow_context_of cfg) = cfg" "dc_bindings (flow_context_of cfg) = flow_assignments"
  "dc_references (flow_context_of cfg) = [flow_read 0 ''x'', flow_read 1 ''y'']"
  "dc_entry_bindings (flow_context_of cfg) = []" "dc_parameter_guard_flow_refs (flow_context_of cfg) = []"
  "length flow_assignments = 2" "ref_id (flow_read i x) = i" "ref_name (flow_read i x) = x"
  "i < 2 \<Longrightarrow> b_name (flow_assignments ! i) = ''x''"
  by (auto simp: flow_context_of_def flow_read_def flow_assignments_def sample_binding_def less_2_cases_iff)

lemma flow_context_ok:
  "\<exists>cfg ex. build_control_flow_graph 1 1 flow_program flow_bindings flow_references no_calls = Some cfg
    \<and> context_ok (flow_context_of cfg) \<and> build_exact_variable_dataflow (flow_context_of cfg) = Some ex
    \<and> exact_ok (flow_context_of cfg) ex \<and> bindings_placed cfg [] \<and> length (cfg_blocks cfg) = 3
    \<and> 2 \<in> fst ` set (successors_of cfg 1) \<and> cfg_unreachable cfg = []
    \<and> block_with bb_references cfg 0 = Some 2 \<and> block_with bb_references cfg 1 = Some 2
    \<and> (\<forall>b < 3. bb_bindings (cfg_blocks cfg ! b) = [[0], [1], []] ! b)"
proof -
  let ?g = "build_control_flow_graph 1 1 flow_program flow_bindings flow_references no_calls"
  obtain cfg names data where built: "?g = Some cfg"
    and inp: "dataflow_input cfg names flow_assignments data []" and placed: "bindings_placed cfg []"
    and n: "length (cfg_blocks cfg) = 3" and own: "\<forall>b < 3. bb_bindings (cfg_blocks cfg ! b) = [[0], [1], []] ! b"
    and succ: "2 \<in> fst ` set (successors_of cfg 1)"
    using flow_setup by (elim exE conjE) (rule that)
  have ok: "cfg_ok cfg" using inp by (simp add: dataflow_input_def)
  have "map_option cfg_unreachable ?g = Some []"
    "map_option (\<lambda>g. map bb_references (cfg_blocks g)) ?g = Some [[], [], [0, 1]]"
    "map_option (\<lambda>g. (block_with bb_references g 0, block_with bb_references g 1)) ?g = Some (Some 2, Some 2)"
    by code_simp+
  then have un: "cfg_unreachable cfg = []" and refs: "map bb_references (cfg_blocks cfg) = [[], [], [0, 1]]"
    and at: "block_with bb_references cfg 0 = Some 2" "block_with bb_references cfg 1 = Some 2"
    unfolding built by (simp_all del: One_nat_def)
  have "set (bb_bindings blk) \<subseteq> {..<2} \<and> set (bb_references blk) \<subseteq> {..<2}" if blk: "blk \<in> set (cfg_blocks cfg)" for blk
  proof -
    have "bb_references blk \<in> set (map bb_references (cfg_blocks cfg))" using blk by simp
    then have "set (bb_references blk) \<subseteq> {..<2}" unfolding refs by auto
    moreover obtain b where "b < 3" "blk = cfg_blocks cfg ! b" using blk n by (auto simp: in_set_conv_nth)
    then have "bb_bindings blk \<in> set [[0], [1], []]" using own by (auto simp: less_Suc_eq numeral_3_eq_3)
    then have "set (bb_bindings blk) \<subseteq> {..<2}" by auto
    ultimately show ?thesis by blast
  qed
  then have "context_ok (flow_context_of cfg)"
    using ok by (simp add: context_ok_def flow_context_of_def flow_assignments_def bindings_indexed_def
        references_indexed_def sample_binding_def flow_read_def block_items_ok_def upt_rec numeral_2_eq_2)
  with build_exact_ok[OF this] built placed n own succ un at show ?thesis by blast
qed

theorem reaching_bindings_exact_witness:
  "\<exists>cfg ex xs. build_exact_variable_dataflow (flow_context_of cfg) = Some ex
    \<and> reaching_bindings_for_reference 8 (flow_context_of cfg) ex (flow_read 0 ''x'') = Some xs \<and> 1 \<in> set xs"
proof -
  obtain cfg ex where ctx: "context_ok (flow_context_of cfg)" "build_exact_variable_dataflow (flow_context_of cfg) = Some ex"
    and placed: "bindings_placed cfg []" and n: "length (cfg_blocks cfg) = 3"
    and succ: "2 \<in> fst ` set (successors_of cfg 1)" and un: "cfg_unreachable cfg = []"
    and at: "block_with bb_references cfg 0 = Some 2"
    and own: "\<forall>b < 3. bb_bindings (cfg_blocks cfg ! b) = [[0], [1], []] ! b"
    using flow_context_ok by (elim exE conjE) (rule that)
  have "definitions_at cfg flow_assignments [] 1 {}" using n by (intro run_starts) auto
  from run_steps[OF this succ] own[rule_format, of 1] have "definitions_at cfg flow_assignments [] 2 {1}"
    by (simp add: assign_all_def assign_def cong: if_cong)
  then have run: "\<exists>X. definitions_at cfg flow_assignments [] 2 X \<and> Suc 0 \<in> X" by auto
  have "reaching_bindings_for_reference 8 (flow_context_of cfg) ex (flow_read 0 ''x'') = Some (filter
      (\<lambda>i. b_name (flow_assignments ! i) = ''x'' \<and> (\<exists>X. definitions_at cfg flow_assignments [] 2 X \<and> i \<in> X)) [0..<2])"
    (is "_ = Some ?xs")
    using reaching_bindings_exact[OF ctx, of "flow_read 0 ''x''" 8] placed n un at
    by (simp only: flow_context_fields) simp
  moreover have "Suc 0 \<in> set ?xs" using run flow_context_fields(9)[of 1] by simp
  ultimately show ?thesis
    using ctx(2) by (intro exI[of _ cfg] exI[of _ ex] exI[of _ ?xs] conjI) (simp_all only: One_nat_def)
qed

text \<open>C6: The analysis of uninitialised reads terminates without a panic and gives, in the order of the
  references, one verdict per read.  A read that is exempt (by its kind, as a predefined or self-referential
  name, as a guarded expansion, or as an indirect expansion that is resolved) or stands in no block is not
  reported.  Any other read that resolves to a variable which a contract supplies at file entry, but does not
  initialise, is reported as definitely uninitialised, whatever the paths and the guards.  Of the remaining
  reads, one with a parameter guard of the same name before it in its block is not reported; one whose name no
  path initialises first is reported as definitely uninitialised; one whose name some path initialises and
  another does not, as possibly uninitialised; and one whose name every path initialises is not reported.\<close>

theorem uninitialized_references_exact:
  assumes "context_ok ctx" "build_exact_variable_dataflow ctx = Some ex"
    and "2 * (length (cfg_blocks (dc_cfg ctx)) * nt_len (ex_names ex)) + 2 \<le> k"
  shows "analyze_uninitialized_references_exact k ctx ex = Some (List.map_filter
    (\<lambda>r. map_option (\<lambda>c. \<lparr>ur_reference = ref_id r, ur_certainty = c\<rparr>) (expected_report ctx (ex_names ex) r))
    (dc_references ctx))"
proof -
  let ?cfg = "dc_cfg ctx" and ?bs = "dc_bindings ctx" and ?names = "ex_names ex" and ?extra = "guard_extra ctx (ex_names ex)"
  let ?n = "length (cfg_blocks ?cfg)" and ?m = "nt_len ?names"
  have ex: "exact_ok ctx ex" using build_exact_ok[OF assms(1)] assms(2) by auto
  have ok: "cfg_ok ?cfg" using context_cfg[OF assms(1)] .
  obtain order where order: "compute_reverse_postorder ?cfg = Some order" "set order = {..<?n}" using order_ok[OF ok] .
  obtain st where st: "compute_initialized_names_with_extra k ?cfg ?bs (ex_binding_data ex) (dc_entry_bindings ctx) ?extra order = Some st"
    "shaped ?n ?m (in_maybe_in st)" "shaped ?n ?m (in_definite_in st)"
    "\<forall>b < ?n. mrow (in_maybe_in st) b = {x. arrives (set_names ?cfg ?names ?bs (dc_entry_bindings ctx) ?extra) x b}
      \<and> {..<?m} - mrow (in_definite_in st) b = {x. arrives (unset_names ?cfg ?names ?bs (dc_entry_bindings ctx) ?extra) x b}"
    using initialized_names_ok[OF exact_okD(2)[OF ex] order(2) guard_extra_within[OF assms(1) ex] assms(3)] by blast
  have states: "\<forall>b < ?n. \<forall>x < ?m.
      (bm_contains (in_maybe_in st) b x \<longleftrightarrow> arrives (set_names ?cfg ?names ?bs (dc_entry_bindings ctx) ?extra) x b)
      \<and> (bm_contains (in_definite_in st) b x \<longleftrightarrow> \<not> arrives (unset_names ?cfg ?names ?bs (dc_entry_bindings ctx) ?extra) x b)"
    using st(4) matrix_contains[OF st(2)] matrix_contains[OF st(3)] by blast
  obtain keys where keys: "guarded_parameter_reference_keys ctx ex = Some keys"
    using guarded_keys_ok[OF assms(1) ex] by blast
  obtain guards where guards: "parameter_guard_flow_index ctx ex = Some guards"
    using guard_index_ok[OF assms(1) ex] by blast
  have c006: "c006_initialized_name_states k ctx ex = Some st"
  proof -
    have "set (dc_parameter_guard_flow_refs ctx) \<subseteq> {..<length (dc_references ctx)}"
      using assms(1) by (simp add: context_ok_def)
    from guard_extra_eq[OF ex this] obtain xs where "map_opt (guard_name ctx ex) (dc_parameter_guard_flow_refs ctx) = Some xs"
      "concat xs = ?extra" by auto
    then show ?thesis using order(1) st(1) by (simp add: c006_initialized_name_states_def)
  qed
  let ?rep = "\<lambda>r. map_option (\<lambda>c. \<lparr>ur_reference = ref_id r, ur_certainty = c\<rparr>) (expected_report ctx ?names r)"
  have "fold_opt (\<lambda>r found. do {
      certainty \<leftarrow> classify_reference ctx ex st keys guards r;
      Some (case certainty of None \<Rightarrow> found | Some c \<Rightarrow> found @ [\<lparr>ur_reference = ref_id r, ur_certainty = c\<rparr>]) })
      rs found = Some (found @ List.map_filter ?rep rs)" if "set rs \<subseteq> set (dc_references ctx)" for rs found
    using that
  proof (induction rs arbitrary: found)
    case (Cons r rs)
    then have "classify_reference ctx ex st keys guards r = Some (expected_report ctx ?names r)"
      using classify_ok[OF assms(1) ex _ keys guards states] by simp
    with Cons show ?case by (simp add: List.map_filter_simps split: option.split)
  qed (simp add: List.map_filter_simps)
  then show ?thesis
    unfolding analyze_uninitialized_references_exact_def c006 keys guards Option.bind_lunit by simp
qed

theorem uninitialized_references_exact_witness:
  "\<exists>cfg ex us. build_exact_variable_dataflow (flow_context_of cfg) = Some ex
    \<and> analyze_uninitialized_references_exact (2 * (3 * nt_len (ex_names ex)) + 2) (flow_context_of cfg) ex = Some us
    \<and> \<lparr>ur_reference = 1, ur_certainty = DefinitelyUninitialized\<rparr> \<in> set us"
proof -
  obtain cfg ex where ctx: "context_ok (flow_context_of cfg)" "build_exact_variable_dataflow (flow_context_of cfg) = Some ex"
    and ex: "exact_ok (flow_context_of cfg) ex" and n: "length (cfg_blocks cfg) = 3"
    and at: "block_with bb_references cfg 1 = Some 2"
    and own: "\<forall>b < 3. bb_bindings (cfg_blocks cfg ! b) = [[0], [1], []] ! b"
    using flow_context_ok by (elim exE conjE) (rule that)
  let ?names = "ex_names ex"
  obtain y where y: "nt_get ?names ''y'' = Some y"
    using exact_okD(3)[OF ex, of "flow_read 1 ''y''"] by (auto simp: flow_context_of_def flow_read_def)
  let ?pr = "set_names cfg ?names flow_assignments [] (guard_extra (flow_context_of cfg) ?names)"
  have extra: "guard_extra (flow_context_of cfg) ?names = []" by (simp add: guard_extra_def flow_context_of_def)
  have x: "nt_get ?names ''x'' \<noteq> Some y" using nt_get_inj[OF exact_okD(1)[OF ex] y, of "''x''"] by auto
  have gen: "y \<notin> gk_init ?pr c \<union> gk_gen ?pr c" if "c < 3" for c
  proof -
    have "set ([[0], [1], []] ! c) \<subseteq> {..<2 :: nat}"
      using that by (auto simp: less_Suc_eq numeral_3_eq_3)
    then have "i < 2" if "i \<in> set (bb_bindings (cfg_blocks cfg ! c))" for i
      using that own[rule_format, OF \<open>c < 3\<close>] by auto
    then show ?thesis using x flow_context_fields(9)
      by (auto simp: extra set_names_def initialized_names_def extra_names_def)
  qed
  have preds: "set (gk_preds ?pr b) \<subseteq> {..<3}" if "b < 3" for b
    using preds_succs[OF context_cfg[OF ctx(1)], of b] that n by (auto simp: set_names_def flow_context_fields)
  have "\<not> arrives ?pr y 2" using arrives_source(1)[OF preds, of y 2] gen by auto
  then have "expected_report (flow_context_of cfg) ?names (flow_read 1 ''y'') = Some DefinitelyUninitialized"
    using at y by (simp add: expected_report_def flow_context_fields reference_skipped_def ambient_only_def guarded_before_def)
      (simp add: flow_context_of_def flow_read_def)
  then have mem: "\<lparr>ur_reference = 1, ur_certainty = DefinitelyUninitialized\<rparr> \<in> set (List.map_filter
      (\<lambda>r. map_option (\<lambda>c. \<lparr>ur_reference = ref_id r, ur_certainty = c\<rparr>) (expected_report (flow_context_of cfg) ?names r))
      (dc_references (flow_context_of cfg)))"
    unfolding map_filter_set flow_context_fields by (intro bexI[of _ "flow_read 1 ''y''"]) (simp_all add: flow_context_fields)
  have "2 * (length (cfg_blocks (dc_cfg (flow_context_of cfg))) * nt_len ?names) + 2 \<le> 2 * (3 * nt_len ?names) + 2"
    by (simp add: flow_context_fields n)
  from uninitialized_references_exact[OF ctx this] mem ctx(2) show ?thesis by (intro exI conjI)
qed

text \<open>C31: The tables of the dataflow analyses are always built and well typed: one entry for each binding,
  reference and synthetic read, every name number below the number of names, every block the number of a
  block, and every overwrite a later binding.\<close>

theorem dataflow_tables_typed:
  assumes "context_ok ctx"
  shows "\<exists>ex. build_exact_variable_dataflow ctx = Some ex
    \<and> length (ex_binding_blocks ex) = length (dc_bindings ctx) \<and> length (ex_reference_blocks ex) = length (dc_references ctx)
    \<and> (\<forall>b. Some b \<in> set (ex_binding_blocks ex) \<union> set (ex_reference_blocks ex) \<longrightarrow> b < length (cfg_blocks (dc_cfg ctx)))
    \<and> length (ex_reference_name_ids ex) = length (dc_references ctx)
    \<and> length (ex_synthetic_read_name_ids ex) = length (dc_synthetic_reads ctx)
    \<and> length (dbd_binding_name_ids (ex_binding_data ex)) = length (dc_bindings ctx)
    \<and> set (ex_reference_name_ids ex) \<union> set (ex_synthetic_read_name_ids ex) \<union> set (dbd_binding_name_ids (ex_binding_data ex))
        \<subseteq> {..<nt_len (ex_names ex)}
    \<and> bset (ex_unreachable_blocks ex) \<subseteq> {..<length (cfg_blocks (dc_cfg ctx))}
    \<and> (\<forall>i < length (dc_bindings ctx). \<forall>j. dbd_next_overwrite (ex_binding_data ex) ! i = Some j \<longrightarrow> i < j \<and> j < length (dc_bindings ctx))"
proof -
  obtain ex where ex: "build_exact_variable_dataflow ctx = Some ex" "exact_ok ctx ex" using build_exact_ok[OF assms] by blast
  note ok = ex(2)[unfolded exact_ok_def]
  have names: "names_ok (ex_names ex)" "binding_data_ok (ex_names ex) (dc_bindings ctx) (ex_binding_data ex)"
    using ok by (simp_all add: dataflow_input_def)
  have "b < length (cfg_blocks (dc_cfg ctx))" if b: "Some b \<in> set (ex_binding_blocks ex) \<union> set (ex_reference_blocks ex)" for b
  proof -
    from b ok obtain items i where "block_with items (dc_cfg ctx) i = Some b" by (auto dest: sym)
    then show ?thesis by (rule block_with_within(1)[OF context_cfg[OF assms]])
  qed
  moreover have "set (dbd_binding_name_ids (ex_binding_data ex)) \<subseteq> {..<nt_len (ex_names ex)}"
    "length (dbd_binding_name_ids (ex_binding_data ex)) = length (dc_bindings ctx)"
    using names nt_get_bound[OF names(1)] by (fastforce simp: binding_data_ok_def)+
  moreover have "set (ex_reference_name_ids ex) \<union> set (ex_synthetic_read_name_ids ex) \<subseteq> {..<nt_len (ex_names ex)}"
  proof -
    have "ex_reference_name_ids ex ! i < nt_len (ex_names ex)" if "i < length (dc_references ctx)" for i
      using ok that by (intro nt_get_bound[OF names(1), of "ref_name (dc_references ctx ! i)"]) blast
    moreover have "ex_synthetic_read_name_ids ex ! i < nt_len (ex_names ex)" if "i < length (dc_synthetic_reads ctx)" for i
      using ok that by (intro nt_get_bound[OF names(1), of "sr_name (dc_synthetic_reads ctx ! i)"]) blast
    ultimately show ?thesis using ok by (auto simp: in_set_conv_nth)
  qed
  moreover have "bset (ex_unreachable_blocks ex) \<subseteq> {..<length (cfg_blocks (dc_cfg ctx))}"
    using ok cfg_okD(6)[OF context_cfg[OF assms]] by (simp add: subset_iff)
  moreover have "i < j \<and> j < length (dc_bindings ctx)"
    if "i < length (dc_bindings ctx)" "dbd_next_overwrite (ex_binding_data ex) ! i = Some j" for i j
    using ok that by (auto simp: next_writes_def find_Some_iff)
  moreover have "length (ex_binding_blocks ex) = length (dc_bindings ctx)" "length (ex_reference_blocks ex) = length (dc_references ctx)"
    "length (ex_reference_name_ids ex) = length (dc_references ctx)" "length (ex_synthetic_read_name_ids ex) = length (dc_synthetic_reads ctx)"
    using ok by simp_all
  ultimately show ?thesis using ex(1) by blast
qed

theorem dataflow_tables_typed_witness:
  "\<exists>cfg ex. build_control_flow_graph 1 1 flow_program flow_bindings flow_references no_calls = Some cfg
    \<and> build_exact_variable_dataflow (flow_context_of cfg) = Some ex
    \<and> length (ex_binding_blocks ex) = 2 \<and> set (ex_reference_name_ids ex) \<subseteq> {..<nt_len (ex_names ex)}"
proof -
  obtain cfg where cfg: "build_control_flow_graph 1 1 flow_program flow_bindings flow_references no_calls = Some cfg"
    and ctx: "context_ok (flow_context_of cfg)"
    using flow_context_ok by (elim exE conjE) (rule that)
  from dataflow_tables_typed[OF ctx] cfg show ?thesis unfolding flow_context_fields by auto
qed

end
