(* ===== verification/Row_Fixpoint.thy ===== *)
theory Row_Fixpoint
  imports Dataflow_Sets
begin

text \<open>
  The round-robin loops of \<open>crates/shucked-semantic/src/dataflow/scope_reads.rs\<close>: the rows of a bit
  matrix are recomputed one after the other until a round changes none.  \<open>row_system\<close> is what one step
  owes to the loop; inside it the loop is shown to stop, with fuel for the bits the matrix can gain, in
  the least solution of the equations of its rows.
\<close>

section \<open>The loop\<close>

type_synonym row_step = "nat \<Rightarrow> dense_bit_matrix \<Rightarrow> (bool \<times> dense_bit_matrix) option"

definition row_pass :: "row_step \<Rightarrow> nat list \<Rightarrow> dense_bit_matrix \<Rightarrow> (bool \<times> dense_bit_matrix) option" where
  "row_pass step rows m =
     fold_opt (\<lambda>r (changed, m). do { (c, m) \<leftarrow> step r m; Some (changed \<or> c, m) }) rows (False, m)"

fun row_rounds :: "nat \<Rightarrow> row_step \<Rightarrow> nat list \<Rightarrow> dense_bit_matrix \<Rightarrow> dense_bit_matrix option" where
  "row_rounds 0 step rows m = None"
| "row_rounds (Suc k) step rows m = do {
     (changed, m) \<leftarrow> row_pass step rows m;
     if changed then row_rounds k step rows m else Some m }"

section \<open>The least solution\<close>

text \<open>What a row holds by itself or takes over from the rows it depends on.\<close>

inductive derived :: "(nat \<Rightarrow> nat set) \<Rightarrow> (nat \<Rightarrow> nat set) \<Rightarrow> nat \<Rightarrow> nat \<Rightarrow> bool" for base deps where
  derived_base: "x \<in> base r \<Longrightarrow> derived base deps r x"
| derived_dep: "q \<in> deps r \<Longrightarrow> derived base deps q x \<Longrightarrow> derived base deps r x"

definition row_value :: "(nat \<Rightarrow> nat set) \<Rightarrow> (nat \<Rightarrow> nat set) \<Rightarrow> (nat \<Rightarrow> nat set) \<Rightarrow> nat \<Rightarrow> nat set" where
  "row_value base deps R r = base r \<union> (\<Union>q \<in> deps r. R q)"

locale row_system =
  fixes valid :: "'c \<Rightarrow> bool" and rows :: "'c \<Rightarrow> nat" and cols :: "'c \<Rightarrow> nat"
    and base :: "'c \<Rightarrow> nat \<Rightarrow> nat set" and deps :: "'c \<Rightarrow> nat \<Rightarrow> nat set" and step :: "'c \<Rightarrow> row_step"
  assumes within: "valid p \<Longrightarrow> r < rows p \<Longrightarrow> base p r \<subseteq> {..<cols p} \<and> deps p r \<subseteq> {..<rows p}"
    and step_ok: "valid p \<Longrightarrow> r < rows p \<Longrightarrow> shaped (rows p) (cols p) m \<Longrightarrow>
      mrow m r \<subseteq> row_value (base p) (deps p) (mrow m) r \<Longrightarrow>
      \<exists>m'. step p r m = Some (mrow m' r \<noteq> mrow m r, m') \<and> shaped (rows p) (cols p) m'
        \<and> mrow m' r = row_value (base p) (deps p) (mrow m) r
        \<and> (\<forall>q < rows p. q \<noteq> r \<longrightarrow> mrow m' q = mrow m q)"
begin

definition below :: "'c \<Rightarrow> dense_bit_matrix \<Rightarrow> bool" where
  "below p m \<longleftrightarrow> shaped (rows p) (cols p) m \<and> (\<forall>r < rows p. mrow m r \<subseteq> {x. derived (base p) (deps p) r x}
     \<and> mrow m r \<subseteq> row_value (base p) (deps p) (mrow m) r)"

definition room :: "'c \<Rightarrow> dense_bit_matrix \<Rightarrow> nat" where
  "room p m = (\<Sum>r < rows p. card ({..<cols p} - mrow m r))"

lemma derived_within: "derived (base p) (deps p) r x \<Longrightarrow> valid p \<Longrightarrow> r < rows p \<Longrightarrow> x < cols p"
proof (induction rule: derived.induct)
  case (derived_base x r)
  then show ?case using within[of p r] by auto
next
  case (derived_dep q r x)
  then show ?case using within[of p r] by auto
qed

lemma step_below:
  assumes "valid p" "r < rows p" "below p m"
  shows "\<exists>c m'. step p r m = Some (c, m') \<and> below p m' \<and> (\<forall>q < rows p. mrow m q \<subseteq> mrow m' q)
    \<and> (if c then room p m' < room p m else
        (\<forall>q < rows p. mrow m' q = mrow m q) \<and> mrow m r = row_value (base p) (deps p) (mrow m) r)"
proof -
  have b: "shaped (rows p) (cols p) m"
    "\<And>q. q < rows p \<Longrightarrow> mrow m q \<subseteq> {x. derived (base p) (deps p) q x}"
    "\<And>q. q < rows p \<Longrightarrow> mrow m q \<subseteq> row_value (base p) (deps p) (mrow m) q"
    using assms(3) by (auto simp: below_def)
  obtain m' where m': "step p r m = Some (mrow m' r \<noteq> mrow m r, m')" "shaped (rows p) (cols p) m'"
    "mrow m' r = row_value (base p) (deps p) (mrow m) r" "\<forall>q < rows p. q \<noteq> r \<longrightarrow> mrow m' q = mrow m q"
    using step_ok[OF assms(1,2) b(1) b(3)[OF assms(2)]] by blast
  have grow: "mrow m q \<subseteq> mrow m' q" if "q < rows p" for q
    using m'(3,4) b(3)[OF that] that by (cases "q = r") simp_all
  have deps: "deps p q \<subseteq> {..<rows p}" if "q < rows p" for q using within[OF assms(1) that] by blast
  have new: "mrow m' q \<subseteq> {x. derived (base p) (deps p) q x}" if "q < rows p" for q
  proof (cases "q = r")
    case True
    show ?thesis
    proof
      fix x assume "x \<in> mrow m' q"
      then consider "x \<in> base p r" | t where "t \<in> deps p r" "x \<in> mrow m t"
        using m'(3) True by (auto simp: row_value_def)
      then show "x \<in> {x. derived (base p) (deps p) q x}"
        using b(2) deps[OF assms(2)] True by cases (auto intro: derived.intros)
    qed
  qed (use m'(4) b(2) that in simp)
  have up: "mrow m' q \<subseteq> row_value (base p) (deps p) (mrow m') q" if "q < rows p" for q
  proof -
    have "row_value (base p) (deps p) (mrow m) q \<subseteq> row_value (base p) (deps p) (mrow m') q"
      using grow deps[OF that] by (auto simp: row_value_def)
    then show ?thesis using m'(3,4) b(3)[OF that] that by (cases "q = r") auto
  qed
  have below': "below p m'" using m'(2) new up by (simp add: below_def)
  have "room p m' < room p m" if "mrow m' r \<noteq> mrow m r"
    unfolding room_def
  proof (rule sum_strict_mono_ex1)
    show "\<forall>q \<in> {..<rows p}. card ({..<cols p} - mrow m' q) \<le> card ({..<cols p} - mrow m q)"
      using grow by (auto intro!: card_mono)
    have "mrow m r \<subset> mrow m' r" using grow[OF assms(2)] that by blast
    moreover have "mrow m' r \<subseteq> {..<cols p}" using new[OF assms(2)] derived_within[OF _ assms(1,2)] by blast
    ultimately have "card ({..<cols p} - mrow m' r) < card ({..<cols p} - mrow m r)"
      by (intro psubset_card_mono) auto
    then show "\<exists>q \<in> {..<rows p}. card ({..<cols p} - mrow m' q) < card ({..<cols p} - mrow m q)"
      using assms(2) by blast
  qed simp
  moreover have "\<forall>q < rows p. mrow m' q = mrow m q" if "mrow m' r = mrow m r"
    using m'(4) that by metis
  ultimately show ?thesis
    using m'(1,3) below' grow
    by (intro exI[of _ "mrow m' r \<noteq> mrow m r"] exI[of _ m']) (cases "mrow m' r = mrow m r", auto)
qed

lemma pass_below:
  assumes "valid p" "set rs \<subseteq> {..<rows p}" "below p m"
  shows "\<exists>c m'. fold_opt (\<lambda>r (changed, m). do { (c, m) \<leftarrow> step p r m; Some (changed \<or> c, m) }) rs (b, m) = Some (c, m')
    \<and> below p m' \<and> (b \<longrightarrow> c) \<and> (if c \<and> \<not> b then room p m' < room p m else room p m' \<le> room p m)
    \<and> (\<not> c \<longrightarrow> (\<forall>q < rows p. mrow m' q = mrow m q) \<and> (\<forall>r \<in> set rs. mrow m r = row_value (base p) (deps p) (mrow m) r))"
  using assms(2,3)
proof (induction rs arbitrary: b m)
  case (Cons r rs)
  then have r: "r < rows p" by simp
  obtain c1 m1 where 1: "step p r m = Some (c1, m1)" "below p m1" "\<forall>q < rows p. mrow m q \<subseteq> mrow m1 q"
    "if c1 then room p m1 < room p m else
        (\<forall>q < rows p. mrow m1 q = mrow m q) \<and> mrow m r = row_value (base p) (deps p) (mrow m) r"
    using step_below[OF assms(1) r Cons.prems(2)] by blast
  obtain c2 m2 where 2: "fold_opt (\<lambda>r (changed, m). do { (c, m) \<leftarrow> step p r m; Some (changed \<or> c, m) }) rs (b \<or> c1, m1) = Some (c2, m2)"
    "below p m2" "b \<or> c1 \<longrightarrow> c2" "if c2 \<and> \<not> (b \<or> c1) then room p m2 < room p m1 else room p m2 \<le> room p m1"
    "\<not> c2 \<longrightarrow> (\<forall>q < rows p. mrow m2 q = mrow m1 q) \<and> (\<forall>r \<in> set rs. mrow m1 r = row_value (base p) (deps p) (mrow m1) r)"
    using Cons.IH[of m1 "b \<or> c1"] Cons.prems(1) 1(2) by auto
  have room1: "room p m1 = room p m" if "\<not> c1"
    using 1(4) that by (auto simp: room_def intro!: sum.cong)
  have same: "row_value (base p) (deps p) (mrow m1) q = row_value (base p) (deps p) (mrow m) q"
    if "\<not> c1" "q < rows p" for q
  proof -
    have "mrow m1 t = mrow m t" if "t \<in> deps p q" for t
      using 1(4) \<open>\<not> c1\<close> within[OF assms(1) \<open>q < rows p\<close>] that by auto
    then show ?thesis by (simp add: row_value_def)
  qed
  have "(\<forall>q < rows p. mrow m2 q = mrow m q) \<and> (\<forall>q \<in> set (r # rs). mrow m q = row_value (base p) (deps p) (mrow m) q)"
    if "\<not> c2"
  proof -
    have c1: "\<not> c1" using that 2(3) by blast
    have eq: "\<forall>q < rows p. mrow m1 q = mrow m q" "mrow m r = row_value (base p) (deps p) (mrow m) r"
      using 1(4) c1 by simp_all
    have "mrow m q = row_value (base p) (deps p) (mrow m) q" if "q \<in> set rs" for q
    proof -
      have "q < rows p" using Cons.prems(1) that by auto
      with 2(5) \<open>\<not> c2\<close> that eq(1) same[OF c1] show ?thesis by auto
    qed
    with 2(5) that eq show ?thesis by simp
  qed
  moreover have "if c2 \<and> \<not> b then room p m2 < room p m else room p m2 \<le> room p m"
    using 1(4) 2(3,4) room1 by (cases c1) (auto split: if_splits)
  ultimately show ?case using 1(1) 2(1,2,3) by simp
qed simp

lemma rounds_below:
  assumes "valid p" "below p m" "room p m < k"
  shows "\<exists>m'. row_rounds k (step p) [0..<rows p] m = Some m' \<and> shaped (rows p) (cols p) m'
    \<and> (\<forall>r < rows p. mrow m' r = {x. derived (base p) (deps p) r x})"
  using assms(2,3)
proof (induction k arbitrary: m)
  case (Suc k)
  have "set [0..<rows p] \<subseteq> {..<rows p}" by auto
  from pass_below[OF assms(1) this Suc.prems(1), of False] obtain c m' where m':
    "row_pass (step p) [0..<rows p] m = Some (c, m')" "below p m'"
    "if c then room p m' < room p m else room p m' \<le> room p m"
    "\<not> c \<longrightarrow> (\<forall>q < rows p. mrow m' q = mrow m q) \<and> (\<forall>r < rows p. mrow m r = row_value (base p) (deps p) (mrow m) r)"
    unfolding row_pass_def by auto
  show ?case
  proof (cases c)
    case True
    with m'(3) Suc.prems(2) have "room p m' < k" by simp
    from Suc.IH[OF m'(2) this] m'(1) True show ?thesis by simp
  next
    case False
    then have eq: "mrow m' r = mrow m r" "mrow m r = row_value (base p) (deps p) (mrow m) r" if "r < rows p" for r
      using m'(4) that by blast+
    have "x \<in> mrow m r" if "derived (base p) (deps p) r x" "r < rows p" for r x
      using that
    proof (induction rule: derived.induct)
      case (derived_base x r)
      then show ?case using eq(2)[of r] by (auto simp: row_value_def)
    next
      case (derived_dep q r x)
      moreover have "q < rows p" using derived_dep(1,4) within[OF assms(1)] by blast
      ultimately show ?case using eq(2)[of r] by (auto simp: row_value_def)
    qed
    then have "mrow m' r = {x. derived (base p) (deps p) r x}" if "r < rows p" for r
      using eq(1)[OF that] Suc.prems(1) that by (auto simp: below_def)
    with m'(1,2) False show ?thesis by (auto simp: below_def)
  qed
qed simp

lemma rounds_from_zeros:
  assumes "valid p" "rows p * cols p < k"
  shows "\<exists>m'. row_rounds k (step p) [0..<rows p] (bm_zeros (rows p) (cols p)) = Some m' \<and> shaped (rows p) (cols p) m'
    \<and> (\<forall>r < rows p. mrow m' r = {x. derived (base p) (deps p) r x})"
proof (rule rounds_below[OF assms(1)])
  show "below p (bm_zeros (rows p) (cols p))" by (simp add: below_def mrow_zeros)
  have "room p (bm_zeros (rows p) (cols p)) = rows p * cols p" by (simp add: room_def mrow_zeros)
  then show "room p (bm_zeros (rows p) (cols p)) < k" using assms(2) by simp
qed

end

end
