(* ===== verification/Scope_Reads.thy ===== *)
theory Scope_Reads
  imports Uninitialized Row_Fixpoint
begin

text \<open>
  Model of the first half of \<open>crates/shucked-semantic/src/dataflow/scope_reads.rs\<close>: the read plans of the
  scopes, and which names a scope reads, directly, through the scopes nested in it and through the
  functions it calls.
\<close>

section \<open>Names that have bindings\<close>

text \<open>The compact numbering of the names that have bindings.\<close>

record bound_name_space =
  bn_compact_by_name :: "nat option list"
  bn_len :: nat

definition bn_new :: "nat list \<Rightarrow> nat \<Rightarrow> bound_name_space option" where
  "bn_new binding_name_ids name_count =
     fold_opt (\<lambda>name space. do {
         compact \<leftarrow> nth_opt (bn_compact_by_name space) name;
         case compact of
           Some _ \<Rightarrow> Some space
         | None \<Rightarrow> do {
             table \<leftarrow> update_opt (bn_compact_by_name space) name (Some (bn_len space));
             Some \<lparr>bn_compact_by_name = table, bn_len = Suc (bn_len space)\<rparr> } })
       binding_name_ids \<lparr>bn_compact_by_name = replicate name_count None, bn_len = 0\<rparr>"

text \<open>The outer option is the panic.\<close>

definition bn_get :: "bound_name_space \<Rightarrow> nat \<Rightarrow> nat option option" where
  "bn_get space name = nth_opt (bn_compact_by_name space) name"

section \<open>Read plans\<close>

record resolved_call_site =
  rcs_offset :: nat
  rcs_span :: span
  rcs_callee_scope :: scope_id

datatype scope_read_event_kind = ReadDirect nat | ReadCall scope_id

record scope_read_event =
  sre_offset :: nat
  sre_block :: "block_id option"
  sre_kind :: scope_read_event_kind

record scope_read_plan =
  srp_direct_reads :: dense_bit_set
  srp_calls :: "resolved_call_site list"
  srp_events :: "scope_read_event list"
  srp_is_function :: bool

definition scope_read_plan_new :: "nat \<Rightarrow> bool \<Rightarrow> scope_read_plan" where
  "scope_read_plan_new name_count is_function =
     \<lparr>srp_direct_reads = bs_new name_count, srp_calls = [], srp_events = [], srp_is_function = is_function\<rparr>"

record caller_read_site =
  crs_caller_scope :: scope_id
  crs_offset :: nat

text \<open>\<open>entry(key).or_default().push(value)\<close> on a hash map kept as its entries.\<close>

fun push_entry :: "'k \<Rightarrow> 'v \<Rightarrow> ('k \<times> 'v list) list \<Rightarrow> ('k \<times> 'v list) list" where
  "push_entry key v [] = [(key, [v])]"
| "push_entry key v ((k, vs) # entries) =
     (if k = key then (k, vs @ [v]) # entries else (k, vs) # push_entry key v entries)"

definition resolved_calls_by_scope ::
  "call_tables \<Rightarrow> (binding_id \<times> scope_id) list \<Rightarrow> (scope_id \<times> resolved_call_site list) list" where
  "resolved_calls_by_scope ct function_scopes =
     map (\<lambda>(scope, calls). (scope, sort_key rcs_offset calls))
       (fold (\<lambda>call. push_entry (cs_scope (rv_site call))
            \<lparr>rcs_offset = start_offset (cs_span (rv_site call)), rcs_span = cs_span (rv_site call),
             rcs_callee_scope = rv_callee_scope call\<rparr>)
          (resolved_function_calls ct function_scopes) [])"

text \<open>Noting one read in the plan of its scope.\<close>

definition note_read ::
  "bound_name_space \<Rightarrow> scope_id \<Rightarrow> nat \<Rightarrow> nat \<Rightarrow> block_id option \<Rightarrow> scope_read_plan list \<Rightarrow> scope_read_plan list option" where
  "note_read space scope name offset block plans = do {
     plan \<leftarrow> nth_opt plans scope;
     compact \<leftarrow> bn_get space name;
     reads \<leftarrow> (case compact of None \<Rightarrow> Some (srp_direct_reads plan) | Some c \<Rightarrow> bs_insert (srp_direct_reads plan) c);
     update_opt plans scope (plan\<lparr>srp_direct_reads := reads,
       srp_events := srp_events plan @ [\<lparr>sre_offset = offset, sre_block = block, sre_kind = ReadDirect name\<rparr>]\<rparr>) }"

definition note_reference ::
  "bound_name_space \<Rightarrow> exact_variable_dataflow \<Rightarrow> nat \<times> reference \<Rightarrow> scope_read_plan list \<Rightarrow> scope_read_plan list option" where
  "note_reference space ex = (\<lambda>(i, reference) plans. do {
     name \<leftarrow> nth_opt (ex_reference_name_ids ex) i;
     block \<leftarrow> nth_opt (ex_reference_blocks ex) i;
     note_read space (ref_scope reference) name (start_offset (ref_span reference)) block plans })"

definition note_synthetic_read ::
  "bound_name_space \<Rightarrow> exact_variable_dataflow \<Rightarrow> control_flow_graph \<Rightarrow> nat \<times> synthetic_read
    \<Rightarrow> scope_read_plan list \<Rightarrow> scope_read_plan list option" where
  "note_synthetic_read space ex cfg = (\<lambda>(i, read) plans. do {
     name \<leftarrow> nth_opt (ex_synthetic_read_name_ids ex) i;
     note_read space (sr_scope read) name (start_offset (sr_span read)) (command_block_for_span cfg (sr_span read)) plans })"

definition note_call ::
  "control_flow_graph \<Rightarrow> scope_id \<Rightarrow> resolved_call_site \<Rightarrow> scope_read_event list \<times> caller_read_site list list
    \<Rightarrow> (scope_read_event list \<times> caller_read_site list list) option" where
  "note_call cfg scope call = (\<lambda>(events, callers). do {
     cs \<leftarrow> nth_opt callers (rcs_callee_scope call);
     callers \<leftarrow> update_opt callers (rcs_callee_scope call)
       (cs @ [\<lparr>crs_caller_scope = scope, crs_offset = rcs_offset call\<rparr>]);
     Some (events @ [\<lparr>sre_offset = rcs_offset call, sre_block = command_block_for_span cfg (rcs_span call),
       sre_kind = ReadCall (rcs_callee_scope call)\<rparr>], callers) })"

definition note_calls ::
  "control_flow_graph \<Rightarrow> scope_id \<times> resolved_call_site list \<Rightarrow> scope_read_plan list \<times> caller_read_site list list
    \<Rightarrow> (scope_read_plan list \<times> caller_read_site list list) option" where
  "note_calls cfg = (\<lambda>(scope, calls) (plans, callers). do {
     plan \<leftarrow> nth_opt plans scope;
     (events, callers) \<leftarrow> fold_opt (note_call cfg scope) calls (srp_events plan, callers);
     plans \<leftarrow> update_opt plans scope (plan\<lparr>srp_events := events, srp_calls := calls\<rparr>);
     Some (plans, callers) })"

definition build_scope_read_plans ::
  "dataflow_context \<Rightarrow> exact_variable_dataflow \<Rightarrow> bound_name_space
    \<Rightarrow> (scope_read_plan list \<times> caller_read_site list list) option" where
  "build_scope_read_plans ctx ex space = do {
     let plans = map (\<lambda>scope. scope_read_plan_new (bn_len space) (is_function_kind (sc_kind scope))) (dc_scopes ctx);
     plans \<leftarrow> fold_opt (note_reference space ex) (List.enumerate 0 (dc_references ctx)) plans;
     plans \<leftarrow> fold_opt (note_synthetic_read space ex (dc_cfg ctx)) (List.enumerate 0 (dc_synthetic_reads ctx)) plans;
     (plans, callers) \<leftarrow> fold_opt (note_calls (dc_cfg ctx))
       (resolved_calls_by_scope (dc_call_tables ctx) (dc_function_body_scopes ctx))
       (plans, replicate (length (dc_scopes ctx)) []);
     Some (map (\<lambda>plan. plan\<lparr>srp_events := sort_key sre_offset (srp_events plan)\<rparr>) plans, callers) }"

section \<open>Reads through nested scopes and calls\<close>

definition nested_non_function_child_scopes :: "scope list \<Rightarrow> scope_id list list option" where
  "nested_non_function_child_scopes scopes =
     fold_opt (\<lambda>scope children.
         case sc_parent scope of
           None \<Rightarrow> Some children
         | Some parent \<Rightarrow>
             if is_function_kind (sc_kind scope) then Some children
             else do { cs \<leftarrow> nth_opt children parent; update_opt children parent (cs @ [sc_id scope]) })
       scopes (replicate (length scopes) [])"

definition union_rows_of :: "dense_bit_matrix \<Rightarrow> nat list \<Rightarrow> dense_bit_set \<Rightarrow> dense_bit_set option" where
  "union_rows_of m = fold_opt (\<lambda>r reads. do { row \<leftarrow> bm_row m r; Some (bs_union_with_words reads row) })"

definition transitive_step :: "scope_read_plan list \<Rightarrow> scope_id list list \<Rightarrow> nat \<Rightarrow> row_step" where
  "transitive_step plans children name_count scope m = do {
     plan \<leftarrow> nth_opt plans scope;
     reads \<leftarrow> bs_copy_from (bs_new name_count) (srp_direct_reads plan);
     nested \<leftarrow> nth_opt children scope;
     reads \<leftarrow> union_rows_of m nested reads;
     reads \<leftarrow> union_rows_of m (map rcs_callee_scope (srp_calls plan)) reads;
     bm_replace_row_if_changed m scope (bs_words reads) }"

text \<open>With fuel for the rounds of the loop.\<close>

definition compute_transitive_read_sets ::
  "nat \<Rightarrow> scope_read_plan list \<Rightarrow> scope list \<Rightarrow> nat \<Rightarrow> dense_bit_matrix option" where
  "compute_transitive_read_sets k plans scopes name_count = do {
     children \<leftarrow> nested_non_function_child_scopes scopes;
     row_rounds k (transitive_step plans children name_count) [0..<length plans] (bm_zeros (length plans) name_count) }"

section \<open>What the plans stand for\<close>

text \<open>The reads of a scope: names, and calls that read what their callee reads.\<close>

datatype read_item = ReadsName string | ReadsThrough scope_id

definition calls_in :: "dataflow_context \<Rightarrow> scope_id \<Rightarrow> resolved_call list" where
  "calls_in ctx s = filter (\<lambda>call. cs_scope (rv_site call) = s)
     (resolved_function_calls (dc_call_tables ctx) (dc_function_body_scopes ctx))"

definition read_items :: "dataflow_context \<Rightarrow> scope_id \<Rightarrow> (nat \<times> block_id option \<times> read_item) set" where
  "read_items ctx s =
     (\<lambda>r. (start_offset (ref_span r), block_with bb_references (dc_cfg ctx) (ref_id r), ReadsName (ref_name r)))
       ` {r \<in> set (dc_references ctx). ref_scope r = s}
     \<union> (\<lambda>r. (start_offset (sr_span r), command_block_for_span (dc_cfg ctx) (sr_span r), ReadsName (sr_name r)))
       ` {r \<in> set (dc_synthetic_reads ctx). sr_scope r = s}
     \<union> (\<lambda>c. (start_offset (cs_span (rv_site c)), command_block_for_span (dc_cfg ctx) (cs_span (rv_site c)),
           ReadsThrough (rv_callee_scope c))) ` set (calls_in ctx s)"

text \<open>The scopes that all of these name exist.\<close>

definition reads_ok :: "dataflow_context \<Rightarrow> bool" where
  "reads_ok ctx \<longleftrightarrow> scopes_ok (dc_scopes ctx)
     \<and> (\<forall>r \<in> set (dc_references ctx). ref_scope r < length (dc_scopes ctx))
     \<and> (\<forall>r \<in> set (dc_synthetic_reads ctx). sr_scope r < length (dc_scopes ctx))
     \<and> (\<forall>c \<in> set (resolved_function_calls (dc_call_tables ctx) (dc_function_body_scopes ctx)).
          cs_scope (rv_site c) < length (dc_scopes ctx) \<and> rv_callee_scope c < length (dc_scopes ctx))
     \<and> (\<forall>b \<in> set (dc_bindings ctx). b_scope b < length (dc_scopes ctx))"

section \<open>The numbering of bound names\<close>

definition space_ok :: "nat list \<Rightarrow> nat \<Rightarrow> bound_name_space \<Rightarrow> bool" where
  "space_ok ids name_count space \<longleftrightarrow> length (bn_compact_by_name space) = name_count
     \<and> (\<forall>n < name_count. bn_compact_by_name space ! n \<noteq> None \<longleftrightarrow> n \<in> set ids)
     \<and> (\<forall>n < name_count. \<forall>c. bn_compact_by_name space ! n = Some c \<longrightarrow> c < bn_len space)
     \<and> (\<forall>n < name_count. \<forall>n' < name_count. \<forall>c. bn_compact_by_name space ! n = Some c \<longrightarrow>
          bn_compact_by_name space ! n' = Some c \<longrightarrow> n = n')"

lemma space_okD:
  assumes "space_ok ids m space"
  shows "length (bn_compact_by_name space) = m"
    "n < m \<Longrightarrow> bn_compact_by_name space ! n = None \<longleftrightarrow> n \<notin> set ids"
    "n < m \<Longrightarrow> bn_compact_by_name space ! n = Some c \<Longrightarrow> c < bn_len space"
    "n < m \<Longrightarrow> n' < m \<Longrightarrow> bn_compact_by_name space ! n = Some c \<Longrightarrow> bn_compact_by_name space ! n' = Some c \<Longrightarrow> n = n'"
  using assms unfolding space_ok_def by (blast | metis)+

lemma bn_new_ok:
  assumes "set ids \<subseteq> {..<name_count}"
  shows "\<exists>space. bn_new ids name_count = Some space \<and> space_ok ids name_count space"
proof -
  let ?f = "\<lambda>name space. do {
         compact \<leftarrow> nth_opt (bn_compact_by_name space) name;
         case compact of
           Some _ \<Rightarrow> Some space
         | None \<Rightarrow> do {
             table \<leftarrow> update_opt (bn_compact_by_name space) name (Some (bn_len space));
             Some \<lparr>bn_compact_by_name = table, bn_len = Suc (bn_len space)\<rparr> } }"
  have "\<exists>space'. fold_opt ?f ids space = Some space' \<and> space_ok (seen @ ids) name_count space'"
    if "space_ok seen name_count space" for seen space
    using assms that
  proof (induction ids arbitrary: seen space)
    case (Cons i ids)
    have i: "i < name_count" "length (bn_compact_by_name space) = name_count"
      using Cons.prems by (auto simp: space_ok_def)
    obtain space1 where s: "?f i space = Some space1" "space_ok (seen @ [i]) name_count space1"
    proof (cases "bn_compact_by_name space ! i")
      case None
      let ?new = "\<lparr>bn_compact_by_name = (bn_compact_by_name space)[i := Some (bn_len space)], bn_len = Suc (bn_len space)\<rparr>"
      have "space_ok (seen @ [i]) name_count ?new"
        using Cons.prems(2) i unfolding space_ok_def
        by (auto simp: nth_list_update less_Suc_eq split: if_splits)
      with None i show ?thesis by (intro that[of ?new]) (simp_all add: panic_simps)
    next
      case (Some c)
      then have "i \<in> set seen" using Cons.prems(2) i(1) by (auto simp: space_ok_def)
      then have "space_ok (seen @ [i]) name_count space" using Cons.prems(2) by (auto simp: space_ok_def insert_absorb)
      with Some i show ?thesis by (intro that[of space]) (simp_all add: panic_simps)
    qed
    from Cons.IH[OF _ s(2)] Cons.prems(1) s(1) show ?case by auto
  qed simp
  from this[of "[]" "\<lparr>bn_compact_by_name = replicate name_count None, bn_len = 0\<rparr>"] show ?thesis
    by (simp add: bn_new_def space_ok_def)
qed

text \<open>The compact number of a name.\<close>

definition compact_of :: "exact_variable_dataflow \<Rightarrow> bound_name_space \<Rightarrow> string \<Rightarrow> nat option" where
  "compact_of ex space x =
     (case nt_get (ex_names ex) x of None \<Rightarrow> None | Some n \<Rightarrow> bn_compact_by_name space ! n)"

definition space_fits :: "dataflow_context \<Rightarrow> exact_variable_dataflow \<Rightarrow> bound_name_space \<Rightarrow> bool" where
  "space_fits ctx ex space \<longleftrightarrow> exact_ok ctx ex
     \<and> space_ok (dbd_binding_name_ids (ex_binding_data ex)) (nt_len (ex_names ex)) space"

lemma compact_of_facts:
  assumes "space_fits ctx ex space"
  shows "compact_of ex space x = Some c \<Longrightarrow> c < bn_len space"
    and "compact_of ex space x = Some c \<Longrightarrow> compact_of ex space y = Some c \<Longrightarrow> x = y"
    and "b \<in> set (dc_bindings ctx) \<Longrightarrow> compact_of ex space (b_name b) \<noteq> None"
    and "nt_get (ex_names ex) x = Some n \<Longrightarrow> bn_get space n = Some (compact_of ex space x)"
proof -
  have ok: "names_ok (ex_names ex)" "space_ok (dbd_binding_name_ids (ex_binding_data ex)) (nt_len (ex_names ex)) space"
    and d: "binding_data_ok (ex_names ex) (dc_bindings ctx) (ex_binding_data ex)"
    using assms by (auto simp: space_fits_def exact_ok_def dataflow_input_def)
  have num: "\<exists>n < nt_len (ex_names ex). nt_get (ex_names ex) x = Some n \<and> bn_compact_by_name space ! n = Some c"
    if "compact_of ex space x = Some c" for x c
    using that nt_get_bound[OF ok(1)] by (cases "nt_get (ex_names ex) x") (auto simp: compact_of_def)
  show "c < bn_len space" if "compact_of ex space x = Some c"
    using num[OF that] space_okD(3)[OF ok(2)] by blast
  show "x = y" if "compact_of ex space x = Some c" "compact_of ex space y = Some c"
    using num[OF that(1)] num[OF that(2)] space_okD(4)[OF ok(2)] nt_get_inj[OF ok(1)] by blast
  show "bn_get space n = Some (compact_of ex space x)" if "nt_get (ex_names ex) x = Some n"
    using that space_okD(1)[OF ok(2)] nt_get_bound[OF ok(1) that]
    by (simp add: bn_get_def compact_of_def panic_simps)
  show "compact_of ex space (b_name b) \<noteq> None" if b: "b \<in> set (dc_bindings ctx)"
  proof -
    obtain n where n: "nt_get (ex_names ex) (b_name b) = Some n" using d b unfolding binding_data_ok_def by blast
    have "n \<in> set (dbd_binding_name_ids (ex_binding_data ex))"
      using d b n by (force simp: binding_data_ok_def)
    with n space_okD(2)[OF ok(2) nt_get_bound[OF ok(1) n]] show ?thesis by (simp add: compact_of_def)
  qed
qed

section \<open>The plans are built\<close>

fun event_of :: "exact_variable_dataflow \<Rightarrow> nat \<times> block_id option \<times> read_item \<Rightarrow> scope_read_event" where
  "event_of ex (off, block, ReadsName x) =
     \<lparr>sre_offset = off, sre_block = block, sre_kind = ReadDirect (the (nt_get (ex_names ex) x))\<rparr>"
| "event_of ex (off, block, ReadsThrough c) = \<lparr>sre_offset = off, sre_block = block, sre_kind = ReadCall c\<rparr>"

definition plan_reads ::
  "exact_variable_dataflow \<Rightarrow> bound_name_space \<Rightarrow> scope_read_plan \<Rightarrow> (nat \<times> block_id option \<times> read_item) set \<Rightarrow> bool" where
  "plan_reads ex space plan I \<longleftrightarrow> sized (bn_len space) (srp_direct_reads plan)
     \<and> bset (srp_direct_reads plan) = {c. \<exists>off b x. (off, b, ReadsName x) \<in> I \<and> compact_of ex space x = Some c}
     \<and> set (srp_events plan) = event_of ex ` I"

definition plans_read ::
  "dataflow_context \<Rightarrow> exact_variable_dataflow \<Rightarrow> bound_name_space \<Rightarrow> scope_read_plan list
    \<Rightarrow> (scope_id \<Rightarrow> (nat \<times> block_id option \<times> read_item) set) \<Rightarrow> bool" where
  "plans_read ctx ex space plans I \<longleftrightarrow> length plans = length (dc_scopes ctx)
     \<and> (\<forall>s < length (dc_scopes ctx). plan_reads ex space (plans ! s) (I s) \<and> srp_calls (plans ! s) = []
          \<and> srp_is_function (plans ! s) = is_function_kind (sc_kind (dc_scopes ctx ! s)))"

lemma note_read_ok:
  assumes "space_fits ctx ex space" "plans_read ctx ex space plans I" "s < length (dc_scopes ctx)"
    and "nt_get (ex_names ex) x = Some name"
  shows "\<exists>plans'. note_read space s name off block plans = Some plans'
    \<and> plans_read ctx ex space plans' (\<lambda>q. I q \<union> (if q = s then {(off, block, ReadsName x)} else {}))"
proof -
  let ?p = "plans ! s"
  have p: "plan_reads ex space ?p (I s)" "length plans = length (dc_scopes ctx)"
    using assms(2,3) by (auto simp: plans_read_def)
  note compact = compact_of_facts(4)[OF assms(1,4)]
  obtain reads where reads: "(case compact_of ex space x of None \<Rightarrow> Some (srp_direct_reads ?p)
      | Some c \<Rightarrow> bs_insert (srp_direct_reads ?p) c) = Some reads" "sized (bn_len space) reads"
    "bset reads = bset (srp_direct_reads ?p) \<union> {c. compact_of ex space x = Some c}"
  proof (cases "compact_of ex space x")
    case None
    then show ?thesis using p(1) by (intro that[of "srp_direct_reads ?p"]) (auto simp: plan_reads_def)
  next
    case (Some c)
    have "sized (bn_len space) (srp_direct_reads ?p)" using p(1) by (simp add: plan_reads_def)
    from insert_bset[OF this compact_of_facts(1)[OF assms(1) Some]] obtain t where
      "bs_insert (srp_direct_reads ?p) c = Some t" "sized (bn_len space) t" "bset t = insert c (bset (srp_direct_reads ?p))"
      by blast
    then show ?thesis using Some by (intro that[of t]) auto
  qed
  let ?new = "?p\<lparr>srp_direct_reads := reads, srp_events := srp_events ?p @
      [\<lparr>sre_offset = off, sre_block = block, sre_kind = ReadDirect name\<rparr>]\<rparr>"
  have "plan_reads ex space ?new (I s \<union> {(off, block, ReadsName x)})"
    using p(1) reads(2,3) assms(4) unfolding plan_reads_def by auto
  then have "plans_read ctx ex space (plans[s := ?new]) (\<lambda>q. I q \<union> (if q = s then {(off, block, ReadsName x)} else {}))"
    using assms(2) unfolding plans_read_def by (auto simp: nth_list_update)
  moreover have "note_read space s name off block plans = Some (plans[s := ?new])"
    using p(2) assms(3) compact reads(1) by (simp add: note_read_def panic_simps)
  ultimately show ?thesis by blast
qed

lemma note_all_reads:
  assumes "\<And>x I plans. x \<in> set xs \<Longrightarrow> plans_read ctx ex space plans I \<Longrightarrow>
      \<exists>plans'. f x plans = Some plans' \<and> plans_read ctx ex space plans' (\<lambda>q. I q \<union> A x q)"
    and "plans_read ctx ex space plans I"
  shows "\<exists>plans'. fold_opt f xs plans = Some plans' \<and> plans_read ctx ex space plans' (\<lambda>q. I q \<union> (\<Union>x \<in> set xs. A x q))"
  using assms
proof (induction xs arbitrary: plans I)
  case (Cons x xs)
  from Cons.prems(1)[of x] Cons.prems(2) obtain plans1 where 1: "f x plans = Some plans1"
    "plans_read ctx ex space plans1 (\<lambda>q. I q \<union> A x q)" by auto
  from Cons.IH[OF _ 1(2)] Cons.prems(1) obtain plans2 where "fold_opt f xs plans1 = Some plans2"
    "plans_read ctx ex space plans2 (\<lambda>q. (I q \<union> A x q) \<union> (\<Union>x \<in> set xs. A x q))" by auto
  with 1(1) show ?case by (simp add: Un_assoc)
qed simp

lemma map_index:
  assumes "map f xs = [0..<length xs]" "i < length xs"
  shows "f (xs ! i) = i"
  using arg_cong[OF assms(1), of "\<lambda>ys. ys ! i"] assms(2) by simp

lemma enumerate_items:
  "(\<Union>e \<in> set (List.enumerate n xs). (case e of (i, r) \<Rightarrow> (\<lambda>q. if q = key r then {item r} else {})) q)
    = item ` {r \<in> set xs. key r = q}"
  by (induction xs arbitrary: n) auto

lemma references_noted:
  assumes "space_fits ctx ex space" "context_ok ctx" "reads_ok ctx" "plans_read ctx ex space plans I"
  shows "\<exists>plans'. fold_opt (note_reference space ex) (List.enumerate 0 (dc_references ctx)) plans = Some plans'
    \<and> plans_read ctx ex space plans' (\<lambda>q. I q \<union>
        (\<lambda>r. (start_offset (ref_span r), block_with bb_references (dc_cfg ctx) (ref_id r), ReadsName (ref_name r)))
          ` {r \<in> set (dc_references ctx). ref_scope r = q})"
proof -
  let ?item = "\<lambda>r. (start_offset (ref_span r), block_with bb_references (dc_cfg ctx) (ref_id r), ReadsName (ref_name r))"
  let ?A = "\<lambda>(i :: nat, r) q. if q = ref_scope r then {?item r} else {}"
  have ex: "exact_ok ctx ex" using assms(1) by (simp add: space_fits_def)
  have "\<exists>plans'. note_reference space ex e plans = Some plans' \<and> plans_read ctx ex space plans' (\<lambda>q. I q \<union> ?A e q)"
    if e: "e \<in> set (List.enumerate 0 (dc_references ctx))" and pl: "plans_read ctx ex space plans I" for e plans I
  proof -
    obtain i where i: "e = (i, dc_references ctx ! i)" "i < length (dc_references ctx)"
      using e by (auto simp: in_set_conv_nth enumerate_nth)
    let ?r = "dc_references ctx ! i"
    have id: "ref_id ?r = i"
      using assms(2) by (intro map_index[OF _ i(2)]) (simp add: context_ok_def references_indexed_def)
    have facts: "nth_opt (ex_reference_name_ids ex) i = Some (ex_reference_name_ids ex ! i)"
      "nt_get (ex_names ex) (ref_name ?r) = Some (ex_reference_name_ids ex ! i)"
      using ex i(2) by (auto simp: exact_ok_def panic_simps)
    have s: "ref_scope ?r < length (dc_scopes ctx)" using assms(3) i(2) by (simp add: reads_ok_def)
    from note_read_ok[OF assms(1) pl s facts(2), of "start_offset (ref_span ?r)" "block_with bb_references (dc_cfg ctx) i"]
    show ?thesis
      unfolding note_reference_def i(1) prod.case facts(1) exact_okD(4)[OF ex i(2)] id Option.bind_lunit by simp
  qed
  from note_all_reads[of "List.enumerate 0 (dc_references ctx)" ctx ex space "note_reference space ex" ?A, OF this assms(4)]
  obtain plans' where plans': "fold_opt (note_reference space ex) (List.enumerate 0 (dc_references ctx)) plans = Some plans'"
    "plans_read ctx ex space plans' (\<lambda>q. I q \<union> (\<Union>e \<in> set (List.enumerate 0 (dc_references ctx)). ?A e q))" by blast
  with plans' show ?thesis unfolding enumerate_items by blast
qed

lemma synthetic_reads_noted:
  assumes "space_fits ctx ex space" "reads_ok ctx" "plans_read ctx ex space plans I"
  shows "\<exists>plans'. fold_opt (note_synthetic_read space ex (dc_cfg ctx)) (List.enumerate 0 (dc_synthetic_reads ctx)) plans = Some plans'
    \<and> plans_read ctx ex space plans' (\<lambda>q. I q \<union>
        (\<lambda>r. (start_offset (sr_span r), command_block_for_span (dc_cfg ctx) (sr_span r), ReadsName (sr_name r)))
          ` {r \<in> set (dc_synthetic_reads ctx). sr_scope r = q})"
proof -
  let ?item = "\<lambda>r. (start_offset (sr_span r), command_block_for_span (dc_cfg ctx) (sr_span r), ReadsName (sr_name r))"
  let ?A = "\<lambda>(i :: nat, r) q. if q = sr_scope r then {?item r} else {}"
  let ?rs = "List.enumerate 0 (dc_synthetic_reads ctx)"
  have ex: "exact_ok ctx ex" using assms(1) by (simp add: space_fits_def)
  have "\<exists>plans'. note_synthetic_read space ex (dc_cfg ctx) e plans = Some plans' \<and> plans_read ctx ex space plans' (\<lambda>q. I q \<union> ?A e q)"
    if e: "e \<in> set ?rs" and pl: "plans_read ctx ex space plans I" for e plans I
  proof -
    obtain i where i: "e = (i, dc_synthetic_reads ctx ! i)" "i < length (dc_synthetic_reads ctx)"
      using e by (auto simp: in_set_conv_nth enumerate_nth)
    let ?r = "dc_synthetic_reads ctx ! i"
    have facts: "nth_opt (ex_synthetic_read_name_ids ex) i = Some (ex_synthetic_read_name_ids ex ! i)"
      "nt_get (ex_names ex) (sr_name ?r) = Some (ex_synthetic_read_name_ids ex ! i)"
      using ex i(2) by (auto simp: exact_ok_def panic_simps)
    have s: "sr_scope ?r < length (dc_scopes ctx)" using assms(2) i(2) by (simp add: reads_ok_def)
    from note_read_ok[OF assms(1) pl s facts(2), of "start_offset (sr_span ?r)" "command_block_for_span (dc_cfg ctx) (sr_span ?r)"]
    show ?thesis unfolding note_synthetic_read_def i(1) prod.case facts(1) Option.bind_lunit by simp
  qed
  from note_all_reads[of ?rs ctx ex space "note_synthetic_read space ex (dc_cfg ctx)" ?A, OF this assms(3)]
  obtain plans' where plans': "fold_opt (note_synthetic_read space ex (dc_cfg ctx)) ?rs plans = Some plans'"
    "plans_read ctx ex space plans' (\<lambda>q. I q \<union> (\<Union>e \<in> set ?rs. ?A e q))" by blast
  with plans' show ?thesis unfolding enumerate_items by blast
qed

text \<open>Grouping by key.\<close>

lemma push_entry_ok:
  assumes "distinct (map fst es)"
  shows "distinct (map fst (push_entry k v es))" "fst ` set (push_entry k v es) = insert k (fst ` set es)"
    "map_of (push_entry k v es) q = (if q = k
        then Some ((case map_of es k of None \<Rightarrow> [] | Some vs \<Rightarrow> vs) @ [v]) else map_of es q)"
proof -
  show keys: "fst ` set (push_entry k v es) = insert k (fst ` set es)" for es
    by (induction k v es rule: push_entry.induct) auto
  show "distinct (map fst (push_entry k v es))"
    using assms keys by (induction k v es rule: push_entry.induct) auto
  show "map_of (push_entry k v es) q = (if q = k
        then Some ((case map_of es k of None \<Rightarrow> [] | Some vs \<Rightarrow> vs) @ [v]) else map_of es q)"
    by (induction k v es rule: push_entry.induct) auto
qed

lemma group_by_key:
  assumes "distinct (map fst es)"
  shows "distinct (map fst (fold (\<lambda>x. push_entry (key x) (val x)) xs es))"
    "map_of (fold (\<lambda>x. push_entry (key x) (val x)) xs es) q =
      (if filter (\<lambda>x. key x = q) xs = [] then map_of es q
       else Some ((case map_of es q of None \<Rightarrow> [] | Some vs \<Rightarrow> vs) @ map val (filter (\<lambda>x. key x = q) xs)))"
proof -
  have "distinct (map fst (fold (\<lambda>x. push_entry (key x) (val x)) xs es)) \<and>
    map_of (fold (\<lambda>x. push_entry (key x) (val x)) xs es) q =
      (if filter (\<lambda>x. key x = q) xs = [] then map_of es q
       else Some ((case map_of es q of None \<Rightarrow> [] | Some vs \<Rightarrow> vs) @ map val (filter (\<lambda>x. key x = q) xs)))"
    using assms
  proof (induction xs arbitrary: es)
    case (Cons x xs)
    note p = push_entry_ok[OF Cons.prems, of "key x" "val x"]
    from Cons.IH[OF p(1)] show ?case by (auto simp: p(3) split: option.splits)
  qed simp
  then show "distinct (map fst (fold (\<lambda>x. push_entry (key x) (val x)) xs es))"
    "map_of (fold (\<lambda>x. push_entry (key x) (val x)) xs es) q =
      (if filter (\<lambda>x. key x = q) xs = [] then map_of es q
       else Some ((case map_of es q of None \<Rightarrow> [] | Some vs \<Rightarrow> vs) @ map val (filter (\<lambda>x. key x = q) xs)))" by blast+
qed

definition site_of :: "resolved_call \<Rightarrow> resolved_call_site" where
  "site_of call = \<lparr>rcs_offset = start_offset (cs_span (rv_site call)), rcs_span = cs_span (rv_site call),
     rcs_callee_scope = rv_callee_scope call\<rparr>"

lemma map_of_map_values: "map_of (map (\<lambda>(k, v). (k, f v)) es) q = map_option f (map_of es q)"
  by (induction es) auto

lemma calls_by_scope_ok:
  "distinct (map fst (resolved_calls_by_scope (dc_call_tables ctx) (dc_function_body_scopes ctx)))"
  "map_of (resolved_calls_by_scope (dc_call_tables ctx) (dc_function_body_scopes ctx)) s =
    (if calls_in ctx s = [] then None else Some (sort_key rcs_offset (map site_of (calls_in ctx s))))"
proof -
  let ?calls = "resolved_function_calls (dc_call_tables ctx) (dc_function_body_scopes ctx)"
  let ?g = "fold (\<lambda>call. push_entry (cs_scope (rv_site call)) (site_of call)) ?calls []"
  have eq: "resolved_calls_by_scope (dc_call_tables ctx) (dc_function_body_scopes ctx) =
      map (\<lambda>(scope, calls). (scope, sort_key rcs_offset calls)) ?g"
    by (simp add: resolved_calls_by_scope_def site_of_def)
  have fst: "map fst (map (\<lambda>(scope, calls). (scope, sort_key rcs_offset calls)) es) = map fst es"
    for es :: "(scope_id \<times> resolved_call_site list) list" by (induction es) auto
  show "distinct (map fst (resolved_calls_by_scope (dc_call_tables ctx) (dc_function_body_scopes ctx)))"
    unfolding eq fst by (rule group_by_key(1)) simp
  show "map_of (resolved_calls_by_scope (dc_call_tables ctx) (dc_function_body_scopes ctx)) s =
    (if calls_in ctx s = [] then None else Some (sort_key rcs_offset (map site_of (calls_in ctx s))))"
    unfolding eq map_of_map_values
    by (subst group_by_key(2)) (simp_all add: calls_in_def)
qed

definition call_event :: "control_flow_graph \<Rightarrow> resolved_call_site \<Rightarrow> scope_read_event" where
  "call_event cfg call = \<lparr>sre_offset = rcs_offset call, sre_block = command_block_for_span cfg (rcs_span call),
     sre_kind = ReadCall (rcs_callee_scope call)\<rparr>"

lemma note_call_list:
  assumes "\<forall>call \<in> set calls. rcs_callee_scope call < length callers"
  shows "\<exists>callers'. fold_opt (note_call cfg scope) calls (events, callers) = Some (events @ map (call_event cfg) calls, callers')
    \<and> length callers' = length callers
    \<and> (\<forall>c < length callers. set (callers' ! c) = set (callers ! c)
         \<union> {\<lparr>crs_caller_scope = scope, crs_offset = rcs_offset call\<rparr> | call. call \<in> set calls \<and> rcs_callee_scope call = c})"
  using assms
proof (induction calls arbitrary: events callers)
  case (Cons call calls)
  let ?c = "rcs_callee_scope call" and ?site = "\<lparr>crs_caller_scope = scope, crs_offset = rcs_offset call\<rparr>"
  let ?callers = "callers[?c := callers ! ?c @ [?site]]"
  have step: "note_call cfg scope call (events, callers) = Some (events @ [call_event cfg call], ?callers)"
    using Cons.prems by (simp add: note_call_def call_event_def panic_simps)
  have "\<forall>call \<in> set calls. rcs_callee_scope call < length ?callers" using Cons.prems by simp
  from Cons.IH[OF this, of "events @ [call_event cfg call]"] obtain callers' where c':
    "fold_opt (note_call cfg scope) calls (events @ [call_event cfg call], ?callers)
      = Some ((events @ [call_event cfg call]) @ map (call_event cfg) calls, callers')"
    "length callers' = length callers"
    "\<forall>c < length callers. set (callers' ! c) = set (?callers ! c)
         \<union> {\<lparr>crs_caller_scope = scope, crs_offset = rcs_offset call\<rparr> | call. call \<in> set calls \<and> rcs_callee_scope call = c}"
    by auto
  have "set (callers' ! c) = set (callers ! c) \<union> {\<lparr>crs_caller_scope = scope, crs_offset = rcs_offset x\<rparr> | x.
      x \<in> set (call # calls) \<and> rcs_callee_scope x = c}" if "c < length callers" for c
    using c'(3)[rule_format, OF that] that by (cases "?c = c") auto
  with c'(1,2) step show ?case by simp
qed simp

lemma note_calls_ok:
  assumes "distinct (map fst es)" "\<forall>(s, calls) \<in> set es. s < length plans \<and> (\<forall>call \<in> set calls. rcs_callee_scope call < length callers)"
  shows "\<exists>plans' callers'. fold_opt (note_calls cfg) es (plans, callers) = Some (plans', callers')
    \<and> length plans' = length plans \<and> length callers' = length callers
    \<and> (\<forall>s < length plans. plans' ! s = (case map_of es s of None \<Rightarrow> plans ! s
         | Some calls \<Rightarrow> (plans ! s)\<lparr>srp_events := srp_events (plans ! s) @ map (call_event cfg) calls, srp_calls := calls\<rparr>))
    \<and> (\<forall>c < length callers. set (callers' ! c) = set (callers ! c)
         \<union> {\<lparr>crs_caller_scope = s, crs_offset = rcs_offset call\<rparr> | s calls call.
             (s, calls) \<in> set es \<and> call \<in> set calls \<and> rcs_callee_scope call = c})"
  using assms
proof (induction es arbitrary: plans callers)
  case (Cons e es)
  obtain s calls where e: "e = (s, calls)" by (cases e)
  have s: "s < length plans" "s \<notin> fst ` set es" "\<forall>call \<in> set calls. rcs_callee_scope call < length callers"
    using Cons.prems e by auto
  obtain callers1 where c1: "fold_opt (note_call cfg s) calls (srp_events (plans ! s), callers)
      = Some (srp_events (plans ! s) @ map (call_event cfg) calls, callers1)" "length callers1 = length callers"
    "\<forall>c < length callers. set (callers1 ! c) = set (callers ! c)
         \<union> {\<lparr>crs_caller_scope = s, crs_offset = rcs_offset call\<rparr> | call. call \<in> set calls \<and> rcs_callee_scope call = c}"
    using note_call_list[OF s(3)] by blast
  let ?new = "(plans ! s)\<lparr>srp_events := srp_events (plans ! s) @ map (call_event cfg) calls, srp_calls := calls\<rparr>"
  have step: "note_calls cfg e (plans, callers) = Some (plans[s := ?new], callers1)"
    using s(1) c1(1) by (simp add: e note_calls_def panic_simps)
  have "distinct (map fst es)" "\<forall>(q, calls) \<in> set es. q < length (plans[s := ?new])
      \<and> (\<forall>call \<in> set calls. rcs_callee_scope call < length callers1)"
    using Cons.prems c1(2) by auto
  from Cons.IH[OF this] obtain plans' callers' where IH:
    "fold_opt (note_calls cfg) es (plans[s := ?new], callers1) = Some (plans', callers')"
    "length plans' = length plans" "length callers' = length callers1"
    "\<forall>q < length plans. plans' ! q = (case map_of es q of None \<Rightarrow> plans[s := ?new] ! q
         | Some calls \<Rightarrow> (plans[s := ?new] ! q)\<lparr>srp_events := srp_events (plans[s := ?new] ! q) @ map (call_event cfg) calls,
             srp_calls := calls\<rparr>)"
    "\<forall>c < length callers1. set (callers' ! c) = set (callers1 ! c)
         \<union> {\<lparr>crs_caller_scope = s, crs_offset = rcs_offset call\<rparr> | s calls call.
             (s, calls) \<in> set es \<and> call \<in> set calls \<and> rcs_callee_scope call = c}" by auto
  have none: "map_of es s = None" using s(2) by (simp add: map_of_eq_None_iff)
  have "plans' ! q = (case map_of (e # es) q of None \<Rightarrow> plans ! q
       | Some calls \<Rightarrow> (plans ! q)\<lparr>srp_events := srp_events (plans ! q) @ map (call_event cfg) calls, srp_calls := calls\<rparr>)"
    if "q < length plans" for q
    using IH(4)[rule_format, OF that] that none by (cases "s = q") (auto simp: e split: option.splits)
  moreover have "set (callers' ! c) = set (callers ! c)
         \<union> {\<lparr>crs_caller_scope = s, crs_offset = rcs_offset call\<rparr> | s calls call.
             (s, calls) \<in> set (e # es) \<and> call \<in> set calls \<and> rcs_callee_scope call = c}" if c: "c < length callers" for c
    unfolding IH(5)[rule_format, OF c[folded c1(2)]] c1(3)[rule_format, OF c] e by auto
  ultimately show ?case using step IH(1-3) c1(2) by simp
qed simp

text \<open>The finished plans: what they stand for, in the order of the source.\<close>

definition plans_ok ::
  "dataflow_context \<Rightarrow> exact_variable_dataflow \<Rightarrow> bound_name_space \<Rightarrow> scope_read_plan list
    \<Rightarrow> caller_read_site list list \<Rightarrow> bool" where
  "plans_ok ctx ex space plans callers \<longleftrightarrow> length plans = length (dc_scopes ctx) \<and> length callers = length (dc_scopes ctx)
     \<and> (\<forall>s < length (dc_scopes ctx). plan_reads ex space (plans ! s) (read_items ctx s)
          \<and> sorted (map sre_offset (srp_events (plans ! s)))
          \<and> set (srp_calls (plans ! s)) = site_of ` set (calls_in ctx s)
          \<and> srp_is_function (plans ! s) = is_function_kind (sc_kind (dc_scopes ctx ! s))
          \<and> set (callers ! s) = {\<lparr>crs_caller_scope = c, crs_offset = start_offset (cs_span (rv_site call))\<rparr> | c call.
               c < length (dc_scopes ctx) \<and> call \<in> set (calls_in ctx c) \<and> rv_callee_scope call = s})"

lemma plan_reads_calls:
  assumes "plan_reads ex space plan I"
  shows "plan_reads ex space (plan\<lparr>srp_events := srp_events plan @ map (call_event cfg) (sort_key f (map site_of calls)), srp_calls := cs\<rparr>)
    (I \<union> (\<lambda>c. (start_offset (cs_span (rv_site c)), command_block_for_span cfg (cs_span (rv_site c)),
           ReadsThrough (rv_callee_scope c))) ` set calls)"
proof -
  have "call_event cfg (site_of c) = event_of ex (start_offset (cs_span (rv_site c)),
      command_block_for_span cfg (cs_span (rv_site c)), ReadsThrough (rv_callee_scope c))" for c
    by (simp add: call_event_def site_of_def)
  then show ?thesis using assms by (auto simp: plan_reads_def image_Un image_image)
qed

lemma calls_in_scopes:
  assumes "reads_ok ctx" "call \<in> set (calls_in ctx s)"
  shows "s < length (dc_scopes ctx)" "rv_callee_scope call < length (dc_scopes ctx)"
  using assms by (auto simp: reads_ok_def calls_in_def)

lemma build_scope_read_plans_ok:
  assumes "space_fits ctx ex space" "context_ok ctx" "reads_ok ctx"
  shows "\<exists>plans callers. build_scope_read_plans ctx ex space = Some (plans, callers) \<and> plans_ok ctx ex space plans callers"
proof -
  let ?n = "length (dc_scopes ctx)" and ?cfg = "dc_cfg ctx"
  let ?new = "map (\<lambda>scope. scope_read_plan_new (bn_len space) (is_function_kind (sc_kind scope))) (dc_scopes ctx)"
  let ?es = "resolved_calls_by_scope (dc_call_tables ctx) (dc_function_body_scopes ctx)"
  have "plans_read ctx ex space ?new (\<lambda>_. {})"
    by (simp add: plans_read_def plan_reads_def scope_read_plan_new_def bset_new)
  from references_noted[OF assms this] obtain plans1 I1 where 1:
    "fold_opt (note_reference space ex) (List.enumerate 0 (dc_references ctx)) ?new = Some plans1"
    "plans_read ctx ex space plans1 I1" and I1: "\<And>q. I1 q = (\<lambda>r. (start_offset (ref_span r),
        block_with bb_references ?cfg (ref_id r), ReadsName (ref_name r))) ` {r \<in> set (dc_references ctx). ref_scope r = q}"
    by auto
  from synthetic_reads_noted[OF assms(1,3) 1(2)] obtain plans2 I2 where 2:
    "fold_opt (note_synthetic_read space ex ?cfg) (List.enumerate 0 (dc_synthetic_reads ctx)) plans1 = Some plans2"
    "plans_read ctx ex space plans2 I2" and I2: "\<And>q. I2 q = I1 q \<union> (\<lambda>r. (start_offset (sr_span r),
        command_block_for_span ?cfg (sr_span r), ReadsName (sr_name r))) ` {r \<in> set (dc_synthetic_reads ctx). sr_scope r = q}"
    by blast
  have len: "length plans2 = ?n" using 2(2) by (simp add: plans_read_def)
  have es: "calls = sort_key rcs_offset (map site_of (calls_in ctx s))" "calls_in ctx s \<noteq> []" if "(s, calls) \<in> set ?es" for s calls
    using that calls_by_scope_ok(2)[of ctx s] map_of_is_SomeI[OF calls_by_scope_ok(1) that] by (auto split: if_splits)
  have "\<forall>(s, calls) \<in> set ?es. s < length plans2 \<and> (\<forall>call \<in> set calls. rcs_callee_scope call < length (replicate ?n []))"
  proof (intro ballI, clarify, intro conjI ballI)
    fix s calls assume sc: "(s, calls) \<in> set ?es"
    from es(2)[OF sc] obtain c where "c \<in> set (calls_in ctx s)" by (cases "calls_in ctx s") auto
    then show "s < length plans2" using calls_in_scopes(1)[OF assms(3)] len by simp
    fix call assume "call \<in> set calls"
    then show "rcs_callee_scope call < length (replicate ?n [])"
      unfolding es(1)[OF sc] using calls_in_scopes(2)[OF assms(3)] by (auto simp: site_of_def)
  qed
  from note_calls_ok[OF calls_by_scope_ok(1) this, of ?cfg] obtain plans3 callers where 3:
    "fold_opt (note_calls ?cfg) ?es (plans2, replicate ?n []) = Some (plans3, callers)" "length plans3 = ?n" "length callers = ?n"
    and p3: "\<forall>s < ?n. plans3 ! s = (case map_of ?es s of None \<Rightarrow> plans2 ! s
         | Some calls \<Rightarrow> (plans2 ! s)\<lparr>srp_events := srp_events (plans2 ! s) @ map (call_event ?cfg) calls, srp_calls := calls\<rparr>)"
    and c3: "\<forall>c < ?n. set (callers ! c) = {\<lparr>crs_caller_scope = s, crs_offset = rcs_offset call\<rparr> | s calls call.
             (s, calls) \<in> set ?es \<and> call \<in> set calls \<and> rcs_callee_scope call = c}"
    using len by auto
  let ?plans = "map (\<lambda>plan. plan\<lparr>srp_events := sort_key sre_offset (srp_events plan)\<rparr>) plans3"
  have "build_scope_read_plans ctx ex space = Some (?plans, callers)"
    unfolding build_scope_read_plans_def Let_def 1(1) 2(1) 3(1) Option.bind_lunit prod.case by (rule refl)
  moreover have "plan_reads ex space (?plans ! s) (read_items ctx s) \<and> sorted (map sre_offset (srp_events (?plans ! s)))
      \<and> set (srp_calls (?plans ! s)) = site_of ` set (calls_in ctx s)
      \<and> srp_is_function (?plans ! s) = is_function_kind (sc_kind (dc_scopes ctx ! s))" if s: "s < ?n" for s
  proof -
    have items: "read_items ctx s = I2 s \<union> (\<lambda>c. (start_offset (cs_span (rv_site c)),
        command_block_for_span ?cfg (cs_span (rv_site c)), ReadsThrough (rv_callee_scope c))) ` set (calls_in ctx s)"
      unfolding read_items_def I1 I2 by (rule refl)
    have p2: "plan_reads ex space (plans2 ! s) (I2 s)" "srp_calls (plans2 ! s) = []"
      "srp_is_function (plans2 ! s) = is_function_kind (sc_kind (dc_scopes ctx ! s))"
      using 2(2) s by (auto simp: plans_read_def)
    have "plan_reads ex space (plans3 ! s) (read_items ctx s) \<and> set (srp_calls (plans3 ! s)) = site_of ` set (calls_in ctx s)
      \<and> srp_is_function (plans3 ! s) = is_function_kind (sc_kind (dc_scopes ctx ! s))"
    proof (cases "calls_in ctx s = []")
      case True
      then have "plans3 ! s = plans2 ! s" using p3[rule_format, OF s] calls_by_scope_ok(2)[of ctx s] by simp
      then show ?thesis using p2 True unfolding items by simp
    next
      case False
      then have "plans3 ! s = (plans2 ! s)\<lparr>srp_events := srp_events (plans2 ! s)
          @ map (call_event ?cfg) (sort_key rcs_offset (map site_of (calls_in ctx s))),
          srp_calls := sort_key rcs_offset (map site_of (calls_in ctx s))\<rparr>"
        using p3[rule_format, OF s] calls_by_scope_ok(2)[of ctx s] by simp
      then show ?thesis using p2(3) plan_reads_calls[OF p2(1)] unfolding items by simp
    qed
    then show ?thesis using s 3(2) by (auto simp: plan_reads_def)
  qed
  moreover have "set (callers ! s) = {\<lparr>crs_caller_scope = c, crs_offset = start_offset (cs_span (rv_site call))\<rparr> | c call.
       c < ?n \<and> call \<in> set (calls_in ctx c) \<and> rv_callee_scope call = s}" if s: "s < ?n" for s
  proof -
    have grouped: "(\<exists>calls. (c, calls) \<in> set ?es \<and> x \<in> set calls) \<longleftrightarrow> x \<in> site_of ` set (calls_in ctx c)" for c x
    proof
      assume "\<exists>calls. (c, calls) \<in> set ?es \<and> x \<in> set calls"
      then show "x \<in> site_of ` set (calls_in ctx c)" using es(1) by force
    next
      assume x: "x \<in> site_of ` set (calls_in ctx c)"
      then have "map_of ?es c = Some (sort_key rcs_offset (map site_of (calls_in ctx c)))"
        using calls_by_scope_ok(2)[of ctx c] by auto
      from map_of_SomeD[OF this] x show "\<exists>calls. (c, calls) \<in> set ?es \<and> x \<in> set calls" by force
    qed
    have "{\<lparr>crs_caller_scope = c, crs_offset = rcs_offset x\<rparr> | c calls x.
             (c, calls) \<in> set ?es \<and> x \<in> set calls \<and> rcs_callee_scope x = s}
        = {\<lparr>crs_caller_scope = c, crs_offset = rcs_offset x\<rparr> | c x.
             x \<in> site_of ` set (calls_in ctx c) \<and> rcs_callee_scope x = s}" (is "_ = ?R")
      using grouped by blast
    also have "?R = {\<lparr>crs_caller_scope = c, crs_offset = start_offset (cs_span (rv_site call))\<rparr> | c call.
       c < ?n \<and> call \<in> set (calls_in ctx c) \<and> rv_callee_scope call = s}"
      using calls_in_scopes(1)[OF assms(3)] by (force simp: site_of_def)
    finally show ?thesis unfolding c3[rule_format, OF s] .
  qed
  ultimately show ?thesis using 3(2,3) unfolding plans_ok_def by auto
qed

section \<open>What a scope reads\<close>

definition nested_scope :: "scope list \<Rightarrow> scope_id \<Rightarrow> scope_id \<Rightarrow> bool" where
  "nested_scope scopes s c \<longleftrightarrow> c < length scopes \<and> sc_parent (scopes ! c) = Some s
     \<and> \<not> is_function_kind (sc_kind (scopes ! c))"

text \<open>A scope reads the names it mentions, what the scopes nested in it read, as long as they are not
  functions, and what the functions it calls read.\<close>

inductive scope_reads :: "dataflow_context \<Rightarrow> scope_id \<Rightarrow> string \<Rightarrow> bool" for ctx where
  reads_name: "(off, block, ReadsName x) \<in> read_items ctx s \<Longrightarrow> scope_reads ctx s x"
| reads_nested: "nested_scope (dc_scopes ctx) s c \<Longrightarrow> scope_reads ctx c x \<Longrightarrow> scope_reads ctx s x"
| reads_call: "(off, block, ReadsThrough c) \<in> read_items ctx s \<Longrightarrow> scope_reads ctx c x \<Longrightarrow> scope_reads ctx s x"

lemma nested_scopes_ok:
  assumes "scopes_ok scopes"
  shows "\<exists>children. nested_non_function_child_scopes scopes = Some children \<and> length children = length scopes
    \<and> (\<forall>s < length scopes. set (children ! s) = {c. nested_scope scopes s c})"
proof -
  let ?f = "\<lambda>scope children. case sc_parent scope of
           None \<Rightarrow> Some children
         | Some parent \<Rightarrow>
             if is_function_kind (sc_kind scope) then Some children
             else do { cs \<leftarrow> nth_opt children parent; update_opt children parent (cs @ [sc_id scope]) }"
  have "\<exists>children. fold_opt ?f (take k scopes) (replicate (length scopes) []) = Some children \<and> length children = length scopes
      \<and> (\<forall>s < length scopes. set (children ! s) = {c. c < k \<and> nested_scope scopes s c})" if "k \<le> length scopes" for k
    using that
  proof (induction k)
    case (Suc k)
    then obtain children where ch: "fold_opt ?f (take k scopes) (replicate (length scopes) []) = Some children"
      "length children = length scopes" "\<forall>s < length scopes. set (children ! s) = {c. c < k \<and> nested_scope scopes s c}"
      by auto
    note k = scopes_okD[OF assms, of k]
    have "\<exists>children'. ?f (scopes ! k) children = Some children' \<and> length children' = length scopes
        \<and> (\<forall>s < length scopes. set (children' ! s) = {c. c < Suc k \<and> nested_scope scopes s c})"
    proof (cases "\<exists>p. sc_parent (scopes ! k) = Some p \<and> \<not> is_function_kind (sc_kind (scopes ! k))")
      case True
      then obtain p where p: "sc_parent (scopes ! k) = Some p" "\<not> is_function_kind (sc_kind (scopes ! k))" by blast
      have pk: "p < length scopes" using k(2)[OF _ p(1)] Suc.prems by simp
      have "nested_scope scopes s k \<longleftrightarrow> s = p" for s
        using p Suc.prems by (auto simp: nested_scope_def)
      then have "\<forall>s < length scopes. set (children[p := children ! p @ [k]] ! s) = {c. c < Suc k \<and> nested_scope scopes s c}"
        using ch(2,3) pk by (auto simp: less_Suc_eq nth_list_update)
      then show ?thesis using p ch(2) pk k(1) Suc.prems by (simp add: panic_simps)
    next
      case False
      then have "\<not> nested_scope scopes s k" for s by (auto simp: nested_scope_def)
      then have "{c. c < Suc k \<and> nested_scope scopes s c} = {c. c < k \<and> nested_scope scopes s c}" for s
        by (auto simp: less_Suc_eq)
      then show ?thesis using False ch(2,3) by (auto split: option.splits)
    qed
    then show ?case using ch(1) Suc.prems by (simp add: take_Suc_conv_app_nth fold_opt_append)
  qed simp
  from this[of "length scopes"] show ?thesis
    by (auto simp: nested_non_function_child_scopes_def nested_scope_def)
qed

definition transitive_valid :: "scope_read_plan list \<times> scope_id list list \<times> nat \<Rightarrow> bool" where
  "transitive_valid p \<longleftrightarrow> (case p of (plans, children, n) \<Rightarrow> length children = length plans
     \<and> (\<forall>s < length plans. sized n (srp_direct_reads (plans ! s)) \<and> bset (srp_direct_reads (plans ! s)) \<subseteq> {..<n}
          \<and> set (children ! s) \<subseteq> {..<length plans} \<and> rcs_callee_scope ` set (srp_calls (plans ! s)) \<subseteq> {..<length plans}))"

definition transitive_base :: "scope_read_plan list \<times> scope_id list list \<times> nat \<Rightarrow> nat \<Rightarrow> nat set" where
  "transitive_base p s = bset (srp_direct_reads (fst p ! s))"

definition transitive_deps :: "scope_read_plan list \<times> scope_id list list \<times> nat \<Rightarrow> nat \<Rightarrow> nat set" where
  "transitive_deps p s = set (fst (snd p) ! s) \<union> rcs_callee_scope ` set (srp_calls (fst p ! s))"

lemma union_row_sets:
  assumes "shaped rows n m" "set rs \<subseteq> {..<rows}" "sized n reads"
  shows "\<exists>t. union_rows_of m rs reads = Some t \<and> sized n t \<and> bset t = bset reads \<union> (\<Union>r \<in> set rs. mrow m r)"
  unfolding union_rows_of_def using row_shaped[OF assms(1)] assms(2)
  by (intro union_all_bset[OF assms(3)]) auto

interpretation transitive: row_system transitive_valid "\<lambda>p. length (fst p)" "\<lambda>p. snd (snd p)" transitive_base transitive_deps
  "\<lambda>p. transitive_step (fst p) (fst (snd p)) (snd (snd p))"
proof
  fix p r assume v: "transitive_valid p" and r: "r < length (fst p)"
  obtain plans children n where p: "p = (plans, children, n)" by (cases p)
  note facts = v[unfolded transitive_valid_def p prod.case] r[unfolded p fst_conv]
  show "transitive_base p r \<subseteq> {..<snd (snd p)} \<and> transitive_deps p r \<subseteq> {..<length (fst p)}"
    using facts by (simp add: p transitive_base_def transitive_deps_def)
  fix m assume m: "shaped (length (fst p)) (snd (snd p)) m"
  have sz: "sized n (srp_direct_reads (plans ! r))" "set (children ! r) \<subseteq> {..<length plans}"
    "set (map rcs_callee_scope (srp_calls (plans ! r))) \<subseteq> {..<length plans}" using facts by auto
  have m': "shaped (length plans) n m" using m p by simp
  obtain reads1 where 1: "union_rows_of m (children ! r) (srp_direct_reads (plans ! r)) = Some reads1" "sized n reads1"
    "bset reads1 = bset (srp_direct_reads (plans ! r)) \<union> (\<Union>q \<in> set (children ! r). mrow m q)"
    using union_row_sets[OF m' sz(2,1)] by blast
  obtain reads2 where 2: "union_rows_of m (map rcs_callee_scope (srp_calls (plans ! r))) reads1 = Some reads2" "sized n reads2"
    "bset reads2 = bset reads1 \<union> (\<Union>q \<in> set (map rcs_callee_scope (srp_calls (plans ! r))). mrow m q)"
    using union_row_sets[OF m' sz(3) 1(2)] by blast
  have val: "bset reads2 = row_value (transitive_base p) (transitive_deps p) (mrow m) r"
    unfolding 2(3) 1(3) row_value_def by (auto simp: p transitive_base_def transitive_deps_def)
  obtain m'' where m'': "bm_replace_row_if_changed m r (bs_words reads2) = Some (mrow m r \<noteq> bset reads2, m'')"
    "shaped (length plans) n m''" "row_words m'' r = bs_words reads2" "\<forall>q < length plans. q \<noteq> r \<longrightarrow> row_words m'' q = row_words m q"
    using matrix_replace[OF m' facts(2) members_sized[OF 2(2)]] by blast
  have at: "nth_opt plans r = Some (plans ! r)" "nth_opt children r = Some (children ! r)"
    using facts by (auto simp: panic_simps)
  have "transitive_step plans children n r m = Some (mrow m r \<noteq> bset reads2, m'')"
    unfolding transitive_step_def at copy_bset[OF sized_new sz(1)] 1(1) 2(1) m''(1) Option.bind_lunit by (rule refl)
  then show "\<exists>m'. transitive_step (fst p) (fst (snd p)) (snd (snd p)) r m = Some (mrow m' r \<noteq> mrow m r, m')
      \<and> shaped (length (fst p)) (snd (snd p)) m'
      \<and> mrow m' r = row_value (transitive_base p) (transitive_deps p) (mrow m) r
      \<and> (\<forall>q < length (fst p). q \<noteq> r \<longrightarrow> mrow m' q = mrow m q)"
    using m''(2-4) val by (intro exI[of _ m'']) (auto simp: p)
qed

text \<open>The rows of a matrix as sets of names.\<close>

definition names_row :: "exact_variable_dataflow \<Rightarrow> bound_name_space \<Rightarrow> (string \<Rightarrow> bool) \<Rightarrow> nat set" where
  "names_row ex space P = {c. \<exists>x. compact_of ex space x = Some c \<and> P x}"

definition transitive_ok ::
  "dataflow_context \<Rightarrow> exact_variable_dataflow \<Rightarrow> bound_name_space \<Rightarrow> dense_bit_matrix \<Rightarrow> bool" where
  "transitive_ok ctx ex space m \<longleftrightarrow> shaped (length (dc_scopes ctx)) (bn_len space) m
     \<and> (\<forall>s < length (dc_scopes ctx). mrow m s = names_row ex space (scope_reads ctx s))"

lemma through_calls:
  "(\<exists>off block. (off, block, ReadsThrough c) \<in> read_items ctx s) \<longleftrightarrow> c \<in> rv_callee_scope ` set (calls_in ctx s)"
  unfolding read_items_def by auto

lemma names_row_direct:
  "names_row ex space (\<lambda>x. \<exists>off block. (off, block, ReadsName x) \<in> I)
    = {c. \<exists>off b x. (off, b, ReadsName x) \<in> I \<and> compact_of ex space x = Some c}"
  unfolding names_row_def by (intro Collect_cong iffI; elim exE conjE; intro exI conjI; assumption)

theorem transitive_reads_exact:
  assumes "space_fits ctx ex space" "reads_ok ctx" "plans_ok ctx ex space plans callers"
    and "length (dc_scopes ctx) * bn_len space < k"
  shows "\<exists>m. compute_transitive_read_sets k plans (dc_scopes ctx) (bn_len space) = Some m \<and> transitive_ok ctx ex space m"
proof -
  let ?n = "length (dc_scopes ctx)"
  have len: "length plans = ?n" using assms(3) by (simp add: plans_ok_def)
  have plan: "plan_reads ex space (plans ! s) (read_items ctx s)" "set (srp_calls (plans ! s)) = site_of ` set (calls_in ctx s)"
    if "s < ?n" for s using assms(3) that by (auto simp: plans_ok_def)
  obtain children where ch: "nested_non_function_child_scopes (dc_scopes ctx) = Some children" "length children = ?n"
    "\<And>s. s < ?n \<Longrightarrow> set (children ! s) = {c. nested_scope (dc_scopes ctx) s c}"
    using nested_scopes_ok assms(2) unfolding reads_ok_def by blast
  let ?p = "(plans, children, bn_len space)"
  have base: "transitive_base ?p s = names_row ex space (\<lambda>x. \<exists>off block. (off, block, ReadsName x) \<in> read_items ctx s)"
    if "s < ?n" for s
  proof -
    have "bset (srp_direct_reads (plans ! s)) = {c. \<exists>off b x. (off, b, ReadsName x) \<in> read_items ctx s \<and> compact_of ex space x = Some c}"
      using plan(1)[OF that] unfolding plan_reads_def by (elim conjE)
    then show ?thesis unfolding transitive_base_def fst_conv names_row_direct .
  qed
  have callees: "rcs_callee_scope ` set (srp_calls (plans ! s)) = rv_callee_scope ` set (calls_in ctx s)" if "s < ?n" for s
    unfolding plan(2)[OF that] image_image by (simp add: site_of_def)
  have deps: "transitive_deps ?p s = {c. nested_scope (dc_scopes ctx) s c} \<union> rv_callee_scope ` set (calls_in ctx s)"
    if "s < ?n" for s
    unfolding transitive_deps_def by (simp only: fst_conv snd_conv callees[OF that] ch(3)[OF that])
  have calls: "rv_callee_scope ` set (calls_in ctx s) \<subseteq> {..<?n}" for s using calls_in_scopes(2)[OF assms(2)] by blast
  have "transitive_valid ?p"
    unfolding transitive_valid_def prod.case
  proof (intro conjI allI impI)
    fix s assume "s < length plans"
    then have s: "s < ?n" using len by simp
    show "sized (bn_len space) (srp_direct_reads (plans ! s))" using plan(1)[OF s] by (simp add: plan_reads_def)
    show "bset (srp_direct_reads (plans ! s)) \<subseteq> {..<bn_len space}"
      using base[OF s] compact_of_facts(1)[OF assms(1)] by (auto simp: transitive_base_def names_row_def)
    show "set (children ! s) \<subseteq> {..<length plans}" using ch(3)[OF s] len by (auto simp: nested_scope_def)
    show "rcs_callee_scope ` set (srp_calls (plans ! s)) \<subseteq> {..<length plans}"
      unfolding callees[OF s] using calls len by simp
  qed (simp add: ch(2) len)
  from transitive.rounds_from_zeros[OF this, of k] assms(4) obtain m where m:
    "compute_transitive_read_sets k plans (dc_scopes ctx) (bn_len space) = Some m" "shaped ?n (bn_len space) m"
    "\<And>r. r < ?n \<Longrightarrow> mrow m r = {x. derived (transitive_base ?p) (transitive_deps ?p) r x}"
    unfolding compute_transitive_read_sets_def ch(1) Option.bind_lunit by (auto simp: len)
  have "\<exists>x. compact_of ex space x = Some c \<and> scope_reads ctx s x"
    if "derived (transitive_base ?p) (transitive_deps ?p) s c" "s < ?n" for s c
    using that
  proof (induction rule: derived.induct)
    case (derived_base c s)
    then show ?case using base[of s] by (auto simp: names_row_def intro: reads_name)
  next
    case (derived_dep q s c)
    have q: "nested_scope (dc_scopes ctx) s q \<or> q \<in> rv_callee_scope ` set (calls_in ctx s)"
      using derived_dep(1) deps[OF derived_dep(4)] by blast
    then have "q < ?n" using calls[of s] by (auto simp: nested_scope_def)
    from derived_dep.IH[OF this] obtain x where x: "compact_of ex space x = Some c" "scope_reads ctx q x" by blast
    from q have "scope_reads ctx s x"
      unfolding through_calls[symmetric] using x(2) by (auto intro: reads_nested reads_call)
    with x(1) show ?case by blast
  qed
  moreover have "derived (transitive_base ?p) (transitive_deps ?p) s c"
    if "scope_reads ctx s x" "compact_of ex space x = Some c" "s < ?n" for s x c
    using that
  proof (induction rule: scope_reads.induct)
    case (reads_name off block x s)
    then show ?case using base[of s] by (intro derived.derived_base) (auto simp: names_row_def)
  next
    case (reads_nested s q x)
    then have "q < ?n" by (simp add: nested_scope_def)
    from reads_nested.IH[OF reads_nested.prems(1) this] show ?case
      by (rule derived.derived_dep[rotated]) (simp add: deps[OF reads_nested.prems(2)] reads_nested.hyps(1))
  next
    case (reads_call off block q s x)
    then have q: "q \<in> rv_callee_scope ` set (calls_in ctx s)" using through_calls by blast
    then have "q < ?n" using calls[of s] by blast
    from reads_call.IH[OF reads_call.prems(1) this] show ?case
      by (rule derived.derived_dep[rotated]) (simp add: deps[OF reads_call.prems(2)] q)
  qed
  ultimately have "mrow m s = names_row ex space (scope_reads ctx s)" if "s < ?n" for s
    unfolding m(3)[OF that] names_row_def using that by blast
  with m(1,2) show ?thesis by (auto simp: transitive_ok_def)
qed

end
