(* ===== verification/Future_Reads.thy ===== *)
theory Future_Reads
  imports Scope_Reads
begin

text \<open>
  Model of the second half of \<open>crates/shucked-semantic/src/dataflow/scope_reads.rs\<close>: which names are read
  after an offset, which reads the callers of a function make after the call returns, and which reads
  come before a local declaration of the same name takes over.
\<close>

section \<open>Reads after an offset\<close>

text \<open>One step of the backward loop over the events of a plan.\<close>

definition suffix_step ::
  "scope_read_plan \<Rightarrow> dense_bit_matrix \<Rightarrow> bound_name_space \<Rightarrow> nat \<Rightarrow> dense_bit_matrix \<Rightarrow> dense_bit_matrix option" where
  "suffix_step plan transitive space i m = do {
     m \<leftarrow> bm_copy_row_from_row m i (i + 1);
     event \<leftarrow> nth_opt (srp_events plan) i;
     case sre_kind event of
       ReadDirect name \<Rightarrow> do {
         compact \<leftarrow> bn_get space name;
         case compact of None \<Rightarrow> Some m | Some c \<Rightarrow> bm_insert m i c }
     | ReadCall callee \<Rightarrow> do { row \<leftarrow> bm_row transitive callee; bm_union_row_with_words m i row } }"

definition future_read_summary ::
  "dense_bit_matrix \<Rightarrow> bound_name_space \<Rightarrow> scope_read_plan \<Rightarrow> dense_bit_matrix option" where
  "future_read_summary transitive space plan =
     fold_opt (suffix_step plan transitive space) (rev [0..<length (srp_events plan)])
       (bm_zeros (length (srp_events plan) + 1) (bn_len space))"

definition build_future_read_summaries ::
  "scope_read_plan list \<Rightarrow> dense_bit_matrix \<Rightarrow> bound_name_space \<Rightarrow> dense_bit_matrix list option" where
  "build_future_read_summaries plans transitive space = map_opt (future_read_summary transitive space) plans"

definition events_until :: "scope_read_plan \<Rightarrow> nat \<Rightarrow> nat" where
  "events_until plan offset = partition_point (\<lambda>event. sre_offset event \<le> offset) (srp_events plan)"

definition future_reads_union_after ::
  "scope_read_plan list \<Rightarrow> dense_bit_matrix list \<Rightarrow> dense_bit_matrix \<Rightarrow> caller_read_site
    \<Rightarrow> dense_bit_set \<Rightarrow> dense_bit_set option" where
  "future_reads_union_after plans future escape caller destination = do {
     plan \<leftarrow> nth_opt plans (crs_caller_scope caller);
     suffix \<leftarrow> nth_opt future (crs_caller_scope caller);
     row \<leftarrow> bm_row suffix (events_until plan (crs_offset caller));
     let destination = bs_union_with_words destination row;
     if srp_is_function plan
     then do { row \<leftarrow> bm_row escape (crs_caller_scope caller); Some (bs_union_with_words destination row) }
     else Some destination }"

definition future_reads_contain_after ::
  "scope_read_plan list \<Rightarrow> dense_bit_matrix list \<Rightarrow> dense_bit_matrix \<Rightarrow> scope_id \<Rightarrow> nat \<Rightarrow> nat \<Rightarrow> bool option" where
  "future_reads_contain_after plans future escape scope offset compact = do {
     plan \<leftarrow> nth_opt plans scope;
     suffix \<leftarrow> nth_opt future scope;
     Some (bm_contains suffix (events_until plan offset) compact
       \<or> srp_is_function plan \<and> bm_contains escape scope compact) }"

definition escape_step ::
  "scope_read_plan list \<Rightarrow> caller_read_site list list \<Rightarrow> dense_bit_matrix list \<Rightarrow> nat \<Rightarrow> row_step" where
  "escape_step plans callers future name_count scope escape = do {
     plan \<leftarrow> nth_opt plans scope;
     if \<not> srp_is_function plan then Some (False, escape)
     else do {
       sites \<leftarrow> nth_opt callers scope;
       reads \<leftarrow> fold_opt (future_reads_union_after plans future escape) sites (bs_new name_count);
       bm_replace_row_if_changed escape scope (bs_words reads) } }"

record compatibility_read_sets =
  crd_escape_reads :: dense_bit_matrix
  crd_future_reads :: "dense_bit_matrix list"

definition compute_compatibility_read_sets ::
  "nat \<Rightarrow> scope_read_plan list \<Rightarrow> caller_read_site list list \<Rightarrow> dense_bit_matrix \<Rightarrow> bound_name_space
    \<Rightarrow> compatibility_read_sets option" where
  "compute_compatibility_read_sets k plans callers transitive space = do {
     future \<leftarrow> build_future_read_summaries plans transitive space;
     escape \<leftarrow> row_rounds k (escape_step plans callers future (bn_len space)) [0..<length plans]
       (bm_zeros (length plans) (bn_len space));
     Some \<lparr>crd_escape_reads = escape, crd_future_reads = future\<rparr> }"

section \<open>Reads before a local declaration takes over\<close>

definition next_shadowing_local_declarations ::
  "binding list \<Rightarrow> nat list \<Rightarrow> binding_id option list option" where
  "next_shadowing_local_declarations bindings binding_name_ids = map_option fst
     (fold_opt (\<lambda>b (shadows, later). do {
         name \<leftarrow> nth_opt binding_name_ids (b_id b);
         shadows \<leftarrow> update_opt shadows (b_id b) (later (b_scope b, name));
         Some (shadows, if (case b_kind b of Declaration _ \<Rightarrow> True | _ \<Rightarrow> False) \<and> has_attr b attr_local
           then later((b_scope b, name) \<mapsto> b_id b) else later) })
       (rev bindings) (replicate (length bindings) None, Map.empty))"

definition event_uses_name :: "dense_bit_matrix \<Rightarrow> nat \<Rightarrow> nat \<Rightarrow> scope_read_event \<Rightarrow> bool" where
  "event_uses_name transitive name compact event =
     (case sre_kind event of
        ReadDirect candidate \<Rightarrow> candidate = name
      | ReadCall callee \<Rightarrow> bm_contains transitive callee compact)"

definition future_reads_contain_after_until ::
  "scope_read_plan list \<Rightarrow> dense_bit_matrix \<Rightarrow> scope_id \<Rightarrow> nat \<Rightarrow> nat \<Rightarrow> nat \<Rightarrow> nat \<Rightarrow> bool option" where
  "future_reads_contain_after_until plans transitive scope after_offset before_offset name compact =
     (if before_offset \<le> after_offset then Some False
      else do {
        plan \<leftarrow> nth_opt plans scope;
        let start = events_until plan after_offset;
        let stop = partition_point (\<lambda>event. sre_offset event < before_offset) (srp_events plan);
        if start \<le> stop \<and> stop \<le> length (srp_events plan)
        then Some (list_ex (event_uses_name transitive name compact) (drop start (take stop (srp_events plan))))
        else None })"

definition read_survives_shadow ::
  "control_flow_graph \<Rightarrow> dense_bit_matrix \<Rightarrow> nat \<Rightarrow> block_id \<Rightarrow> block_id \<Rightarrow> nat \<Rightarrow> nat \<Rightarrow> scope_read_event \<Rightarrow> bool option" where
  "read_survives_shadow cfg transitive shadow_offset from_block shadow_block name compact event =
     (if \<not> event_uses_name transitive name compact event then Some False
      else if sre_offset event < shadow_offset then Some True
      else (case sre_block event of
          None \<Rightarrow> Some True
        | Some event_block \<Rightarrow>
            if event_block = shadow_block then Some False
            else block_reaches_without cfg from_block event_block shadow_block))"

definition future_reads_contain_after_without_shadow ::
  "scope_read_plan list \<Rightarrow> dense_bit_matrix \<Rightarrow> control_flow_graph \<Rightarrow> scope_id \<Rightarrow> nat \<Rightarrow> nat \<Rightarrow> block_id \<Rightarrow> block_id
    \<Rightarrow> nat \<Rightarrow> nat \<Rightarrow> bool option" where
  "future_reads_contain_after_without_shadow plans transitive cfg scope after_offset shadow_offset
      from_block shadow_block name compact = do {
     plan \<leftarrow> nth_opt plans scope;
     any_opt (read_survives_shadow cfg transitive shadow_offset from_block shadow_block name compact)
       (drop (events_until plan after_offset) (srp_events plan)) }"

definition binding_has_future_reads_before_local_shadow ::
  "dataflow_context \<Rightarrow> exact_variable_dataflow \<Rightarrow> bound_name_space \<Rightarrow> binding_id option list
    \<Rightarrow> scope_read_plan list \<Rightarrow> dense_bit_matrix \<Rightarrow> compatibility_read_sets \<Rightarrow> binding \<Rightarrow> bool option" where
  "binding_has_future_reads_before_local_shadow ctx ex space next_shadows plans transitive crd b = do {
     name \<leftarrow> nth_opt (dbd_binding_name_ids (ex_binding_data ex)) (b_id b);
     compact \<leftarrow> bn_get space name;
     case compact of
       None \<Rightarrow> Some False
     | Some compact \<Rightarrow> do {
         shadow \<leftarrow> nth_opt next_shadows (b_id b);
         plan \<leftarrow> nth_opt plans (b_scope b);
         let visible = (srp_is_function plan \<and> bm_contains (crd_escape_reads crd) (b_scope b) compact);
         case shadow of
           None \<Rightarrow> future_reads_contain_after plans (crd_future_reads crd) (crd_escape_reads crd)
             (b_scope b) (start_offset (b_span b)) compact
         | Some i \<Rightarrow> do {
             s \<leftarrow> nth_opt (dc_bindings ctx) i;
             from_block \<leftarrow> nth_opt (ex_binding_blocks ex) (b_id b);
             shadow_block \<leftarrow> nth_opt (ex_binding_blocks ex) (b_id s);
             or_opt (Some visible) (case (from_block, shadow_block) of
                 (Some from_block, Some shadow_block) \<Rightarrow>
                   future_reads_contain_after_without_shadow plans transitive (dc_cfg ctx) (b_scope b)
                     (start_offset (b_span b)) (start_offset (b_span s)) from_block shadow_block name compact
               | _ \<Rightarrow> future_reads_contain_after_until plans transitive (b_scope b)
                     (start_offset (b_span b)) (start_offset (b_span s)) name compact) } } }"

section \<open>Rows copied and joined\<close>

lemma matrix_copy_row:
  assumes "shaped rows n m" "dst < rows" "src < rows"
  shows "\<exists>m'. bm_copy_row_from_row m dst src = Some m' \<and> shaped rows n m' \<and> row_words m' dst = row_words m src
    \<and> (\<forall>r < rows. r \<noteq> dst \<longrightarrow> row_words m' r = row_words m r)"
proof (cases "dst = src")
  case False
  from matrix_write[OF assms(1,2) row_shaped(2)[OF assms(1,3)]] show ?thesis
    using row_shaped(1)[OF assms(1,3)] False by (simp add: bm_copy_row_from_row_def)
qed (use assms(1) in \<open>simp add: bm_copy_row_from_row_def\<close>)

lemma matrix_union_row:
  assumes "shaped rows n m" "r < rows" "length ws = words_for n"
  shows "\<exists>m'. bm_union_row_with_words m r ws = Some m' \<and> shaped rows n m' \<and> mrow m' r = mrow m r \<union> members ws
    \<and> (\<forall>q < rows. q \<noteq> r \<longrightarrow> row_words m' q = row_words m q)"
proof -
  let ?new = "zip_update (OR) (row_words m r) ws"
  note row = row_shaped[OF assms(1,2)]
  have len: "length ?new = words_for n"
    using sized_words_ops(1)[of n "\<lparr>bs_words = row_words m r\<rparr>" ws] row(2) by (simp add: bs_union_with_words_def sized_def)
  have "members ?new = mrow m r \<union> members ws"
    using union_words_bset[of "\<lparr>bs_words = row_words m r\<rparr>" ws] row(2) assms(3) by (simp add: bs_union_with_words_def)
  with matrix_write[OF assms(1,2) len] row(1) show ?thesis by (auto simp: bm_union_row_with_words_def)
qed

section \<open>What is read after an offset\<close>

primrec item_reads :: "dataflow_context \<Rightarrow> string \<Rightarrow> read_item \<Rightarrow> bool" where
  "item_reads ctx x (ReadsName y) \<longleftrightarrow> x = y"
| "item_reads ctx x (ReadsThrough c) \<longleftrightarrow> scope_reads ctx c x"

definition reads_between :: "dataflow_context \<Rightarrow> scope_id \<Rightarrow> (nat \<Rightarrow> bool) \<Rightarrow> string \<Rightarrow> bool" where
  "reads_between ctx s at_offset x \<longleftrightarrow>
     (\<exists>off block item. (off, block, item) \<in> read_items ctx s \<and> at_offset off \<and> item_reads ctx x item)"

abbreviation reads_after :: "dataflow_context \<Rightarrow> scope_id \<Rightarrow> nat \<Rightarrow> string \<Rightarrow> bool" where
  "reads_after ctx s off \<equiv> reads_between ctx s (\<lambda>o'. off < o')"

definition event_reads :: "dataflow_context \<Rightarrow> exact_variable_dataflow \<Rightarrow> scope_read_event \<Rightarrow> string \<Rightarrow> bool" where
  "event_reads ctx ex event x =
     (case sre_kind event of
        ReadDirect n \<Rightarrow> nt_get (ex_names ex) x = Some n
      | ReadCall c \<Rightarrow> scope_reads ctx c x)"

definition event_ok :: "dataflow_context \<Rightarrow> exact_variable_dataflow \<Rightarrow> scope_read_event \<Rightarrow> bool" where
  "event_ok ctx ex event \<longleftrightarrow>
     (case sre_kind event of
        ReadDirect n \<Rightarrow> \<exists>x. nt_get (ex_names ex) x = Some n
      | ReadCall c \<Rightarrow> c < length (dc_scopes ctx))"

lemma direct_item_named:
  assumes "space_fits ctx ex space" "(off, block, ReadsName y) \<in> read_items ctx s"
  shows "nt_get (ex_names ex) y \<noteq> None"
proof -
  have ex: "exact_ok ctx ex" using assms(1) by (simp add: space_fits_def)
  consider r where "r \<in> set (dc_references ctx)" "y = ref_name r" | r where "r \<in> set (dc_synthetic_reads ctx)" "y = sr_name r"
    using assms(2) by (auto simp: read_items_def)
  then show ?thesis
  proof cases
    case 1
    then show ?thesis using ex by (simp add: exact_ok_def)
  next
    case 2
    then show ?thesis using ex by (auto simp: exact_ok_def in_set_conv_nth)
  qed
qed

lemma event_of_item:
  assumes "space_fits ctx ex space" "reads_ok ctx" "(off, block, item) \<in> read_items ctx s"
  shows "event_ok ctx ex (event_of ex (off, block, item))"
    "event_reads ctx ex (event_of ex (off, block, item)) x \<longleftrightarrow> item_reads ctx x item"
proof -
  have names: "names_ok (ex_names ex)" using assms(1) by (simp add: space_fits_def exact_ok_def)
  have "event_ok ctx ex (event_of ex (off, block, item))
    \<and> (event_reads ctx ex (event_of ex (off, block, item)) x \<longleftrightarrow> item_reads ctx x item)"
  proof (cases item)
    case (ReadsName y)
    obtain n where n: "nt_get (ex_names ex) y = Some n" using direct_item_named[OF assms(1)] assms(3) ReadsName by blast
    then have "nt_get (ex_names ex) x = Some n \<longleftrightarrow> x = y" using nt_get_inj[OF names] by blast
    with n ReadsName show ?thesis by (auto simp: event_ok_def event_reads_def)
  next
    case (ReadsThrough c)
    with assms(3) have "c \<in> rv_callee_scope ` set (calls_in ctx s)" using through_calls by blast
    then have "c < length (dc_scopes ctx)" using calls_in_scopes(2)[OF assms(2)] by blast
    with ReadsThrough show ?thesis by (simp add: event_ok_def event_reads_def)
  qed
  then show "event_ok ctx ex (event_of ex (off, block, item))"
    "event_reads ctx ex (event_of ex (off, block, item)) x \<longleftrightarrow> item_reads ctx x item" by simp_all
qed

lemma sre_offset_event_of [simp]: "sre_offset (event_of ex (off, block, item)) = off" "sre_block (event_of ex (off, block, item)) = block"
  by (cases item; simp)+

text \<open>The events of a plan, picked by offset.\<close>

lemma plan_events:
  assumes "space_fits ctx ex space" "reads_ok ctx" "plans_ok ctx ex space plans callers" "s < length (dc_scopes ctx)"
  shows "e \<in> set (srp_events (plans ! s)) \<Longrightarrow> event_ok ctx ex e"
    "(\<exists>e \<in> set (srp_events (plans ! s)). P (sre_offset e) (sre_block e) \<and> event_reads ctx ex e x) \<longleftrightarrow>
      (\<exists>off block item. (off, block, item) \<in> read_items ctx s \<and> P off block \<and> item_reads ctx x item)"
proof -
  have events: "set (srp_events (plans ! s)) = event_of ex ` read_items ctx s"
    using assms(3,4) by (auto simp: plans_ok_def plan_reads_def)
  show "event_ok ctx ex e" if e: "e \<in> set (srp_events (plans ! s))"
  proof -
    obtain off block item where "(off, block, item) \<in> read_items ctx s" "e = event_of ex (off, block, item)"
      using e unfolding events by auto
    then show ?thesis using event_of_item(1)[OF assms(1,2)] by blast
  qed
  show "(\<exists>e \<in> set (srp_events (plans ! s)). P (sre_offset e) (sre_block e) \<and> event_reads ctx ex e x) \<longleftrightarrow>
      (\<exists>off block item. (off, block, item) \<in> read_items ctx s \<and> P off block \<and> item_reads ctx x item)" (is "?L \<longleftrightarrow> ?R")
  proof
    assume ?L
    then obtain off block item where i: "(off, block, item) \<in> read_items ctx s"
      and e: "P (sre_offset (event_of ex (off, block, item))) (sre_block (event_of ex (off, block, item)))"
        "event_reads ctx ex (event_of ex (off, block, item)) x"
      unfolding events by auto
    then show ?R using event_of_item(2)[OF assms(1,2) i] by auto
  next
    assume ?R
    then obtain off block item where i: "(off, block, item) \<in> read_items ctx s" "P off block" "item_reads ctx x item" by blast
    then have "event_reads ctx ex (event_of ex (off, block, item)) x" using event_of_item(2)[OF assms(1,2) i(1)] by simp
    with i show ?L unfolding events by (intro bexI[of _ "event_of ex (off, block, item)"]) simp_all
  qed
qed

lemma names_row_un: "names_row ex space P \<union> names_row ex space Q = names_row ex space (\<lambda>x. P x \<or> Q x)"
  by (auto simp: names_row_def)

lemma names_row_bound: "space_fits ctx ex space \<Longrightarrow> names_row ex space P \<subseteq> {..<bn_len space}"
  using compact_of_facts(1) by (auto simp: names_row_def)

lemma in_names_row:
  assumes "space_fits ctx ex space" "compact_of ex space x = Some c"
  shows "c \<in> names_row ex space P \<longleftrightarrow> P x"
proof
  assume "c \<in> names_row ex space P"
  then obtain y where y: "compact_of ex space y = Some c" "P y" by (auto simp: names_row_def)
  from compact_of_facts(2)[OF assms y(1)] y(2) show "P x" by simp
qed (use assms(2) in \<open>auto simp: names_row_def\<close>)

text \<open>The loop that fills the suffix rows from the last event backwards.\<close>

lemma suffix_row:
  assumes "space_fits ctx ex space" "transitive_ok ctx ex space tr" "event_ok ctx ex (srp_events plan ! i)"
    and "shaped rows (bn_len space) m" "i < length (srp_events plan)" "i + 1 < rows"
  shows "\<exists>m'. suffix_step plan tr space i m = Some m' \<and> shaped rows (bn_len space) m'
    \<and> mrow m' i = mrow m (i + 1) \<union> names_row ex space (event_reads ctx ex (srp_events plan ! i))
    \<and> (\<forall>r < rows. r \<noteq> i \<longrightarrow> mrow m' r = mrow m r)"
proof -
  let ?e = "srp_events plan ! i"
  have i: "i < rows" "nth_opt (srp_events plan) i = Some ?e" using assms(5,6) by (simp_all add: panic_simps)
  obtain m1 where m1: "bm_copy_row_from_row m i (i + 1) = Some m1" "shaped rows (bn_len space) m1"
    "row_words m1 i = row_words m (i + 1)" "\<forall>r < rows. r \<noteq> i \<longrightarrow> row_words m1 r = row_words m r"
    using matrix_copy_row[OF assms(4) i(1) assms(6)] by blast
  show ?thesis
  proof (cases "sre_kind ?e")
    case (ReadDirect n)
    then obtain x where x: "nt_get (ex_names ex) x = Some n" using assms(3) by (auto simp: event_ok_def)
    have names: "names_ok (ex_names ex)" using assms(1) by (simp add: space_fits_def exact_ok_def)
    have row: "names_row ex space (event_reads ctx ex ?e) = {c. compact_of ex space x = Some c}"
    proof (rule set_eqI)
      fix c
      have "nt_get (ex_names ex) y = Some n \<longleftrightarrow> y = x" for y using nt_get_inj[OF names _ x] x by blast
      then show "c \<in> names_row ex space (event_reads ctx ex ?e) \<longleftrightarrow> c \<in> {c. compact_of ex space x = Some c}"
        by (simp add: names_row_def event_reads_def ReadDirect)
    qed
    show ?thesis
    proof (cases "compact_of ex space x")
      case None
      have "suffix_step plan tr space i m = Some m1"
        by (simp add: suffix_step_def m1(1)[folded Suc_eq_plus1] i(2) ReadDirect compact_of_facts(4)[OF assms(1) x] None)
      with m1 row None show ?thesis by auto
    next
      case (Some c)
      have "suffix_step plan tr space i m = bm_insert m1 i c"
        by (simp add: suffix_step_def m1(1)[folded Suc_eq_plus1] i(2) ReadDirect compact_of_facts(4)[OF assms(1) x] Some)
      with matrix_insert[OF m1(2) i(1) compact_of_facts(1)[OF assms(1) Some]] m1(3,4) row Some show ?thesis by auto
    qed
  next
    case (ReadCall c)
    then have c: "c < length (dc_scopes ctx)" using assms(3) by (simp add: event_ok_def)
    have tr: "shaped (length (dc_scopes ctx)) (bn_len space) tr" "mrow tr c = names_row ex space (scope_reads ctx c)"
      using assms(2) c by (auto simp: transitive_ok_def)
    have "names_row ex space (event_reads ctx ex ?e) = mrow tr c" unfolding tr(2) by (simp add: names_row_def event_reads_def ReadCall)
    moreover have "suffix_step plan tr space i m = bm_union_row_with_words m1 i (row_words tr c)"
      by (simp add: suffix_step_def m1(1)[folded Suc_eq_plus1] i(2) ReadCall row_shaped(1)[OF tr(1) c])
    ultimately show ?thesis using matrix_union_row[OF m1(2) i(1) row_shaped(2)[OF tr(1) c]] m1(3,4) by auto
  qed
qed

definition events_row :: "dataflow_context \<Rightarrow> exact_variable_dataflow \<Rightarrow> bound_name_space \<Rightarrow> scope_read_event list \<Rightarrow> nat set" where
  "events_row ctx ex space es = names_row ex space (\<lambda>x. \<exists>e \<in> set es. event_reads ctx ex e x)"

lemma suffix_rows:
  assumes "space_fits ctx ex space" "transitive_ok ctx ex space tr" "\<forall>e \<in> set (srp_events plan). event_ok ctx ex e"
  shows "\<exists>m. future_read_summary tr space plan = Some m \<and> shaped (length (srp_events plan) + 1) (bn_len space) m
    \<and> (\<forall>i \<le> length (srp_events plan). mrow m i = events_row ctx ex space (drop i (srp_events plan)))"
proof -
  let ?es = "srp_events plan"
  let ?n = "length ?es"
  have "\<exists>m. fold_opt (suffix_step plan tr space) (rev [k..<?n]) (bm_zeros (?n + 1) (bn_len space)) = Some m
      \<and> shaped (?n + 1) (bn_len space) m \<and> (\<forall>i. k \<le> i \<and> i \<le> ?n \<longrightarrow> mrow m i = events_row ctx ex space (drop i ?es))"
    if "k \<le> ?n" for k
    using that
  proof (induction "?n - k" arbitrary: k)
    case 0
    then show ?case by (auto simp: mrow_zeros events_row_def names_row_def)
  next
    case (Suc d)
    then have k: "k < ?n" "Suc k \<le> ?n" by simp_all
    obtain m where m: "fold_opt (suffix_step plan tr space) (rev [Suc k..<?n]) (bm_zeros (?n + 1) (bn_len space)) = Some m"
      "shaped (?n + 1) (bn_len space) m" "\<And>i. Suc k \<le> i \<Longrightarrow> i \<le> ?n \<Longrightarrow> mrow m i = events_row ctx ex space (drop i ?es)"
    proof -
      have "d = ?n - Suc k" using Suc.hyps(2) by simp
      from Suc.hyps(1)[OF this k(2)] show thesis by (elim exE conjE) (rule that, auto)
    qed
    have "event_ok ctx ex (?es ! k)" using assms(3) k(1) by simp
    from suffix_row[OF assms(1,2) this m(2) k(1)] k(1) obtain m' where m': "suffix_step plan tr space k m = Some m'"
      "shaped (?n + 1) (bn_len space) m'" "mrow m' k = mrow m (k + 1) \<union> names_row ex space (event_reads ctx ex (?es ! k))"
      "\<forall>r < ?n + 1. r \<noteq> k \<longrightarrow> mrow m' r = mrow m r" by auto
    have "mrow m' k = events_row ctx ex space (drop k ?es)"
      unfolding m'(3) using m(3)[of "Suc k"] k Cons_nth_drop_Suc[OF k(1), symmetric]
      by (auto simp: events_row_def names_row_def)
    then have "mrow m' i = events_row ctx ex space (drop i ?es)" if "k \<le> i" "i \<le> ?n" for i
      using m'(4) m(3)[of i] that by (cases "i = k") auto
    with m(1) m'(1,2) k(1) show ?case by (simp add: upt_conv_Cons fold_opt_append)
  qed
  from this[of 0] show ?thesis by (simp add: future_read_summary_def)
qed

text \<open>All suffix matrices.\<close>

definition future_ok ::
  "dataflow_context \<Rightarrow> exact_variable_dataflow \<Rightarrow> bound_name_space \<Rightarrow> scope_read_plan list \<Rightarrow> dense_bit_matrix list \<Rightarrow> bool" where
  "future_ok ctx ex space plans future \<longleftrightarrow> length future = length plans
     \<and> (\<forall>s < length plans. shaped (length (srp_events (plans ! s)) + 1) (bn_len space) (future ! s)
          \<and> (\<forall>i \<le> length (srp_events (plans ! s)). mrow (future ! s) i = events_row ctx ex space (drop i (srp_events (plans ! s)))))"

lemma future_summaries_ok:
  assumes "space_fits ctx ex space" "reads_ok ctx" "plans_ok ctx ex space plans callers" "transitive_ok ctx ex space tr"
  shows "\<exists>future. build_future_read_summaries plans tr space = Some future \<and> future_ok ctx ex space plans future"
proof -
  have "\<exists>m. future_read_summary tr space plan = Some m \<and> shaped (length (srp_events plan) + 1) (bn_len space) m
    \<and> (\<forall>i \<le> length (srp_events plan). mrow m i = events_row ctx ex space (drop i (srp_events plan)))"
    if "plan \<in> set plans" for plan
  proof (rule suffix_rows[OF assms(1,4)])
    obtain s where "s < length (dc_scopes ctx)" "plan = plans ! s"
    proof -
      have "length plans = length (dc_scopes ctx)" using assms(3) by (simp add: plans_ok_def)
      with \<open>plan \<in> set plans\<close> show thesis using that by (auto simp: in_set_conv_nth)
    qed
    then show "\<forall>e \<in> set (srp_events plan). event_ok ctx ex e" using plan_events(1)[OF assms(1-3)] by blast
  qed
  from map_opt_ok[OF this, of plans "\<lambda>plan. plan"] show ?thesis unfolding build_future_read_summaries_def future_ok_def by simp
qed

lemma partition_sets:
  assumes "partitioned p xs"
  shows "set (take (partition_point p xs) xs) = {x \<in> set xs. p x}" "set (drop (partition_point p xs) xs) = {x \<in> set xs. \<not> p x}"
proof -
  let ?k = "partition_point p xs"
  note spec = partition_point_spec[OF assms]
  have t: "p x" if x: "x \<in> set (take ?k xs)" for x
  proof -
    obtain i where "i < ?k" "i < length xs" "x = xs ! i" using x by (auto simp: in_set_conv_nth)
    with spec(2)[of i] show ?thesis by simp
  qed
  have d: "\<not> p x" if x: "x \<in> set (drop ?k xs)" for x
  proof -
    obtain i where "i < length xs - ?k" "x = xs ! (?k + i)" using x spec(1) by (auto simp: in_set_conv_nth)
    with spec(2)[of "?k + i"] show ?thesis by simp
  qed
  have "set xs = set (take ?k xs) \<union> set (drop ?k xs)"
    using set_append[of "take ?k xs" "drop ?k xs"] by simp
  with t d show "set (take ?k xs) = {x \<in> set xs. p x}" "set (drop ?k xs) = {x \<in> set xs. \<not> p x}" by blast+
qed

lemma sorted_events_partitioned:
  assumes "sorted (map sre_offset es)"
  shows "partitioned (\<lambda>e. sre_offset e \<le> k) es" "partitioned (\<lambda>e. sre_offset e < k) es"
proof -
  have s: "sorted_wrt (\<lambda>x y. sre_offset x \<le> sre_offset y) es" using assms by (simp add: sorted_map)
  show "partitioned (\<lambda>e. sre_offset e \<le> k) es" "partitioned (\<lambda>e. sre_offset e < k) es"
    by (rule sorted_wrt_partitioned[OF s], simp)+
qed

lemma events_until_ok:
  assumes "plans_ok ctx ex space plans callers" "s < length (dc_scopes ctx)"
  shows "events_until (plans ! s) off \<le> length (srp_events (plans ! s))"
    "set (drop (events_until (plans ! s) off) (srp_events (plans ! s))) = {e \<in> set (srp_events (plans ! s)). off < sre_offset e}"
proof -
  have sorted: "sorted (map sre_offset (srp_events (plans ! s)))" using assms by (simp add: plans_ok_def)
  note part = sorted_events_partitioned(1)[OF sorted, of off]
  show "events_until (plans ! s) off \<le> length (srp_events (plans ! s))"
    unfolding events_until_def by (rule partition_point_spec(1)[OF part])
  show "set (drop (events_until (plans ! s) off) (srp_events (plans ! s))) = {e \<in> set (srp_events (plans ! s)). off < sre_offset e}"
    unfolding events_until_def partition_sets(2)[OF part] not_le by (rule refl)
qed

lemma suffix_row_reads:
  assumes "space_fits ctx ex space" "reads_ok ctx" "plans_ok ctx ex space plans callers" "s < length (dc_scopes ctx)"
    and "future_ok ctx ex space plans future"
  shows "mrow (future ! s) (events_until (plans ! s) off) = names_row ex space (reads_after ctx s off)"
proof -
  have "s < length plans" using assms(3,4) by (simp add: plans_ok_def)
  then have "mrow (future ! s) (events_until (plans ! s) off)
      = events_row ctx ex space (drop (events_until (plans ! s) off) (srp_events (plans ! s)))"
    using assms(5) events_until_ok(1)[OF assms(3,4)] by (simp add: future_ok_def)
  also have "\<dots> = names_row ex space (\<lambda>x. \<exists>e \<in> set (srp_events (plans ! s)). off < sre_offset e \<and> event_reads ctx ex e x)"
    unfolding events_row_def events_until_ok(2)[OF assms(3,4)] by (simp add: Bex_def conj_ac)
  also have "\<dots> = names_row ex space (reads_after ctx s off)"
    unfolding plan_events(2)[OF assms(1-4), of "\<lambda>o' _. off < o'"] reads_between_def by (rule refl)
  finally show ?thesis .
qed

section \<open>What the callers of a function read\<close>

definition calls_at :: "dataflow_context \<Rightarrow> scope_id \<Rightarrow> scope_id \<Rightarrow> nat \<Rightarrow> bool" where
  "calls_at ctx c s off \<longleftrightarrow> (\<exists>call \<in> set (calls_in ctx c). rv_callee_scope call = s \<and> off = start_offset (cs_span (rv_site call)))"

abbreviation function_scope :: "dataflow_context \<Rightarrow> scope_id \<Rightarrow> bool" where
  "function_scope ctx s \<equiv> is_function_kind (sc_kind (dc_scopes ctx ! s))"

text \<open>A value that a function leaves behind is read by its caller after the call, or by a caller of that
  caller in turn.\<close>

inductive escapes :: "dataflow_context \<Rightarrow> scope_id \<Rightarrow> string \<Rightarrow> bool" for ctx where
  escapes_read: "function_scope ctx s \<Longrightarrow> calls_at ctx c s off \<Longrightarrow> reads_after ctx c off x \<Longrightarrow> escapes ctx s x"
| escapes_caller: "function_scope ctx s \<Longrightarrow> calls_at ctx c s off \<Longrightarrow> escapes ctx c x \<Longrightarrow> escapes ctx s x"

lemma escapes_function: "escapes ctx s x \<Longrightarrow> function_scope ctx s"
  by (cases rule: escapes.cases) auto

type_synonym escape_problem = "scope_read_plan list \<times> caller_read_site list list \<times> dense_bit_matrix list \<times> nat"

definition escape_valid :: "escape_problem \<Rightarrow> bool" where
  "escape_valid p \<longleftrightarrow> (case p of (plans, callers, future, n) \<Rightarrow> length callers = length plans \<and> length future = length plans
     \<and> (\<forall>s < length plans. shaped (length (srp_events (plans ! s)) + 1) n (future ! s)
          \<and> (\<forall>site \<in> set (callers ! s). crs_caller_scope site < length plans
                \<and> events_until (plans ! crs_caller_scope site) (crs_offset site) \<le> length (srp_events (plans ! crs_caller_scope site))
                \<and> mrow (future ! crs_caller_scope site) (events_until (plans ! crs_caller_scope site) (crs_offset site)) \<subseteq> {..<n})))"

definition escape_base :: "escape_problem \<Rightarrow> nat \<Rightarrow> nat set" where
  "escape_base p s = (case p of (plans, callers, future, n) \<Rightarrow>
     if srp_is_function (plans ! s)
     then (\<Union>site \<in> set (callers ! s). mrow (future ! crs_caller_scope site)
         (events_until (plans ! crs_caller_scope site) (crs_offset site)))
     else {})"

definition escape_deps :: "escape_problem \<Rightarrow> nat \<Rightarrow> nat set" where
  "escape_deps p s = (case p of (plans, callers, future, n) \<Rightarrow>
     if srp_is_function (plans ! s) then {c \<in> crs_caller_scope ` set (callers ! s). srp_is_function (plans ! c)} else {})"

lemma union_after:
  assumes "length future = length plans" "\<forall>s < length plans. shaped (length (srp_events (plans ! s)) + 1) n (future ! s)"
    and "shaped (length plans) n m" "crs_caller_scope site < length plans" "sized n reads"
    and "events_until (plans ! crs_caller_scope site) (crs_offset site) \<le> length (srp_events (plans ! crs_caller_scope site))"
  shows "\<exists>t. future_reads_union_after plans future m site reads = Some t \<and> sized n t
    \<and> bset t = bset reads \<union> mrow (future ! crs_caller_scope site) (events_until (plans ! crs_caller_scope site) (crs_offset site))
        \<union> (if srp_is_function (plans ! crs_caller_scope site) then mrow m (crs_caller_scope site) else {})"
proof -
  let ?c = "crs_caller_scope site"
  let ?i = "events_until (plans ! ?c) (crs_offset site)"
  have f: "shaped (length (srp_events (plans ! ?c)) + 1) n (future ! ?c)" "?i < length (srp_events (plans ! ?c)) + 1"
    using assms(2,4,6) by auto
  note row = row_shaped[OF f] and row2 = row_shaped[OF assms(3,4)]
  let ?t = "bs_union_with_words reads (row_words (future ! ?c) ?i)"
  have t: "sized n ?t" "bset ?t = bset reads \<union> mrow (future ! ?c) ?i"
    using assms(5) row(2) by (simp, simp add: union_words_bset sized_def)
  let ?t2 = "bs_union_with_words ?t (row_words m ?c)"
  have t2: "sized n ?t2" "bset ?t2 = bset ?t \<union> mrow m ?c"
    using t(1) row2(2) by (simp, simp add: union_words_bset sized_def)
  have at: "nth_opt plans ?c = Some (plans ! ?c)" "nth_opt future ?c = Some (future ! ?c)"
    using assms(1,4) by (simp_all add: panic_simps)
  show ?thesis
    unfolding future_reads_union_after_def at row(1) row2(1) Option.bind_lunit Let_def using t t2 by simp
qed

interpretation escape: row_system escape_valid "\<lambda>p. length (fst p)" "\<lambda>p. snd (snd (snd p))" escape_base escape_deps
  "\<lambda>p. escape_step (fst p) (fst (snd p)) (fst (snd (snd p))) (snd (snd (snd p)))"
proof
  fix p r assume v: "escape_valid p" and r: "r < length (fst p)"
  obtain plans callers future n where p: "p = (plans, callers, future, n)" by (cases p)
  have r': "r < length plans" and len: "length callers = length plans" "length future = length plans"
    and shapes: "\<forall>s < length plans. shaped (length (srp_events (plans ! s)) + 1) n (future ! s)"
    and sites: "\<forall>site \<in> set (callers ! r). crs_caller_scope site < length plans
        \<and> events_until (plans ! crs_caller_scope site) (crs_offset site) \<le> length (srp_events (plans ! crs_caller_scope site))
        \<and> mrow (future ! crs_caller_scope site) (events_until (plans ! crs_caller_scope site) (crs_offset site)) \<subseteq> {..<n}"
    using v r unfolding escape_valid_def p prod.case by simp_all
  show "escape_base p r \<subseteq> {..<snd (snd (snd p))} \<and> escape_deps p r \<subseteq> {..<length (fst p)}"
    using sites by (auto simp: p escape_base_def escape_deps_def)
  fix m assume "shaped (length (fst p)) (snd (snd (snd p))) m"
    and up: "mrow m r \<subseteq> row_value (escape_base p) (escape_deps p) (mrow m) r"
  then have m: "shaped (length plans) n m" by (simp add: p)
  have at: "nth_opt plans r = Some (plans ! r)" "nth_opt callers r = Some (callers ! r)" using r' len by (simp_all add: panic_simps)
  show "\<exists>m'. escape_step (fst p) (fst (snd p)) (fst (snd (snd p))) (snd (snd (snd p))) r m = Some (mrow m' r \<noteq> mrow m r, m')
      \<and> shaped (length (fst p)) (snd (snd (snd p))) m'
      \<and> mrow m' r = row_value (escape_base p) (escape_deps p) (mrow m) r
      \<and> (\<forall>q < length (fst p). q \<noteq> r \<longrightarrow> mrow m' q = mrow m q)"
  proof (cases "srp_is_function (plans ! r)")
    case False
    then have "escape_step plans callers future n r m = Some (False, m)" by (simp add: escape_step_def at)
    moreover have "row_value (escape_base p) (escape_deps p) (mrow m) r = {}"
      using False by (simp add: row_value_def escape_base_def escape_deps_def p)
    ultimately show ?thesis using up m by (intro exI[of _ m]) (simp add: p)
  next
    case True
    let ?A = "\<lambda>site. mrow (future ! crs_caller_scope site) (events_until (plans ! crs_caller_scope site) (crs_offset site))
        \<union> (if srp_is_function (plans ! crs_caller_scope site) then mrow m (crs_caller_scope site) else {})"
    have "\<exists>t. fold_opt (future_reads_union_after plans future m) ss reads = Some t \<and> sized n t
        \<and> bset t = bset reads \<union> (\<Union>site \<in> set ss. ?A site)" if "set ss \<subseteq> set (callers ! r)" "sized n reads" for ss reads
      using that
    proof (induction ss arbitrary: reads)
      case (Cons site ss)
      then have site: "site \<in> set (callers ! r)" by simp
      obtain t where t: "future_reads_union_after plans future m site reads = Some t" "sized n t" "bset t = bset reads \<union> ?A site"
        using union_after[OF len(2) shapes m _ Cons.prems(2), of site] sites[rule_format, OF site] by (auto simp: Un_assoc)
      from Cons.IH[OF _ t(2)] Cons.prems(1) t(1,3) show ?case by (simp add: Un_assoc)
    qed simp
    from this[OF subset_refl sized_new] obtain t where
      t: "fold_opt (future_reads_union_after plans future m) (callers ! r) (bs_new n) = Some t" "sized n t"
      "bset t = (\<Union>site \<in> set (callers ! r). ?A site)" by (auto simp: bset_new)
    have val: "bset t = row_value (escape_base p) (escape_deps p) (mrow m) r"
      unfolding t(3) row_value_def escape_base_def escape_deps_def p prod.case if_P[OF True] by (auto split: if_splits)
    obtain m' where m': "bm_replace_row_if_changed m r (bs_words t) = Some (mrow m r \<noteq> bset t, m')" "shaped (length plans) n m'"
      "row_words m' r = bs_words t" "\<forall>q < length plans. q \<noteq> r \<longrightarrow> row_words m' q = row_words m q"
      using matrix_replace[OF m r' members_sized[OF t(2)]] by blast
    have "escape_step plans callers future n r m = Some (mrow m r \<noteq> bset t, m')"
      unfolding escape_step_def at t(1) m'(1) Option.bind_lunit using True by simp
    then show ?thesis using m'(2-4) val by (intro exI[of _ m']) (auto simp: p)
  qed
qed

definition compatibility_ok ::
  "dataflow_context \<Rightarrow> exact_variable_dataflow \<Rightarrow> bound_name_space \<Rightarrow> scope_read_plan list \<Rightarrow> compatibility_read_sets \<Rightarrow> bool" where
  "compatibility_ok ctx ex space plans crd \<longleftrightarrow> future_ok ctx ex space plans (crd_future_reads crd)
     \<and> shaped (length (dc_scopes ctx)) (bn_len space) (crd_escape_reads crd)
     \<and> (\<forall>s < length (dc_scopes ctx). mrow (crd_escape_reads crd) s = names_row ex space (escapes ctx s))"

lemma caller_sites:
  assumes "plans_ok ctx ex space plans callers" "s < length (dc_scopes ctx)"
  shows "\<lparr>crs_caller_scope = c, crs_offset = off\<rparr> \<in> set (callers ! s) \<longleftrightarrow> c < length (dc_scopes ctx) \<and> calls_at ctx c s off"
proof -
  have "set (callers ! s) = {\<lparr>crs_caller_scope = c, crs_offset = start_offset (cs_span (rv_site call))\<rparr> | c call.
       c < length (dc_scopes ctx) \<and> call \<in> set (calls_in ctx c) \<and> rv_callee_scope call = s}"
    using assms by (simp add: plans_ok_def)
  then show ?thesis unfolding calls_at_def by auto
qed

lemma calls_at_scope:
  assumes "reads_ok ctx" "calls_at ctx c s off"
  shows "c < length (dc_scopes ctx)"
  using assms(2) calls_in_scopes(1)[OF assms(1)] unfolding calls_at_def by blast

theorem escaping_reads_exact:
  assumes "space_fits ctx ex space" "reads_ok ctx" "plans_ok ctx ex space plans callers" "transitive_ok ctx ex space tr"
    and "length (dc_scopes ctx) * bn_len space < k"
  shows "\<exists>crd. compute_compatibility_read_sets k plans callers tr space = Some crd \<and> compatibility_ok ctx ex space plans crd"
proof -
  let ?n = "length (dc_scopes ctx)"
  have len: "length plans = ?n" "length callers = ?n" using assms(3) by (simp_all add: plans_ok_def)
  have fn: "srp_is_function (plans ! s) = function_scope ctx s" if "s < ?n" for s using assms(3) that by (simp add: plans_ok_def)
  obtain future where fut: "build_future_read_summaries plans tr space = Some future" "future_ok ctx ex space plans future"
    using future_summaries_ok[OF assms(1-4)] by blast
  let ?p = "(plans, callers, future, bn_len space)"
  note row = suffix_row_reads[OF assms(1-3) _ fut(2)]
  have site: "crs_caller_scope site < ?n \<and> calls_at ctx (crs_caller_scope site) s (crs_offset site)"
    if "site \<in> set (callers ! s)" "s < ?n" for site s
  proof -
    obtain c off where "site = \<lparr>crs_caller_scope = c, crs_offset = off\<rparr>" by (rule caller_read_site.cases)
    then show ?thesis using that caller_sites[OF assms(3) that(2), of c off] by simp
  qed
  have recorded: "\<lparr>crs_caller_scope = c, crs_offset = off\<rparr> \<in> set (callers ! s)" if "calls_at ctx c s off" "s < ?n" for c off s
    using caller_sites[OF assms(3) that(2), of c off] calls_at_scope[OF assms(2) that(1)] that(1) by blast
  have "escape_valid ?p"
    unfolding escape_valid_def prod.case
  proof (intro conjI allI impI ballI)
    fix s assume "s < length plans"
    then have s: "s < ?n" using len by simp
    show "shaped (length (srp_events (plans ! s)) + 1) (bn_len space) (future ! s)"
      using fut(2) s len by (simp add: future_ok_def)
    fix c assume c: "c \<in> set (callers ! s)"
    note at = site[OF c s]
    show "crs_caller_scope c < length plans" using at len by simp
    show "events_until (plans ! crs_caller_scope c) (crs_offset c) \<le> length (srp_events (plans ! crs_caller_scope c))"
      using events_until_ok(1)[OF assms(3)] at by blast
    show "mrow (future ! crs_caller_scope c) (events_until (plans ! crs_caller_scope c) (crs_offset c)) \<subseteq> {..<bn_len space}"
      using row at names_row_bound[OF assms(1)] by simp
  qed (use len fut(2) in \<open>simp_all add: future_ok_def\<close>)
  from escape.rounds_from_zeros[OF this, of k] assms(5) obtain m where m:
    "row_rounds k (escape_step plans callers future (bn_len space)) [0..<length plans] (bm_zeros (length plans) (bn_len space)) = Some m"
    "shaped ?n (bn_len space) m" "\<And>r. r < ?n \<Longrightarrow> mrow m r = {x. derived (escape_base ?p) (escape_deps ?p) r x}"
    by (auto simp: len)
  have base: "c \<in> escape_base ?p s \<longleftrightarrow> (function_scope ctx s \<and> (\<exists>q off x. calls_at ctx q s off \<and> reads_after ctx q off x
      \<and> compact_of ex space x = Some c))" if s: "s < ?n" for s c
  proof -
    have "c \<in> escape_base ?p s \<longleftrightarrow> function_scope ctx s \<and> (\<exists>a \<in> set (callers ! s). c \<in> names_row ex space
        (reads_after ctx (crs_caller_scope a) (crs_offset a)))"
      using site[OF _ s] row by (auto simp: escape_base_def fn[OF s])
    also have "\<dots> \<longleftrightarrow> function_scope ctx s \<and> (\<exists>q off. calls_at ctx q s off \<and> c \<in> names_row ex space (reads_after ctx q off))"
    proof -
      have "(\<exists>a \<in> set (callers ! s). P (crs_caller_scope a) (crs_offset a)) \<longleftrightarrow> (\<exists>q off. calls_at ctx q s off \<and> P q off)" for P
        using site[OF _ s] recorded[OF _ s] by (metis caller_read_site.select_convs(1,2))
      then show ?thesis by (rule arg_cong)
    qed
    finally show ?thesis by (auto simp: names_row_def)
  qed
  have deps: "q \<in> escape_deps ?p s \<longleftrightarrow> function_scope ctx s \<and> function_scope ctx q \<and> (\<exists>off. calls_at ctx q s off)"
    if s: "s < ?n" for s q
  proof -
    have "q \<in> crs_caller_scope ` set (callers ! s) \<longleftrightarrow> (\<exists>off. calls_at ctx q s off)"
      using site[OF _ s] recorded[OF _ s] by (metis caller_read_site.select_convs(1) image_iff)
    then show ?thesis using fn[OF s] fn[of q] calls_at_scope[OF assms(2)] unfolding escape_deps_def prod.case by auto
  qed
  have "\<exists>x. compact_of ex space x = Some c \<and> escapes ctx s x"
    if "derived (escape_base ?p) (escape_deps ?p) s c" "s < ?n" for s c
    using that
  proof (induction rule: derived.induct)
    case (derived_base c s)
    then show ?case using base[of s c] escapes_read[of ctx s] by blast
  next
    case (derived_dep q s c)
    then obtain off where q: "function_scope ctx s" "calls_at ctx q s off" using deps[of s q] by blast
    with derived_dep.IH[OF calls_at_scope[OF assms(2) q(2)]] show ?case using escapes_caller by blast
  qed
  moreover have "derived (escape_base ?p) (escape_deps ?p) s c"
    if "escapes ctx s x" "compact_of ex space x = Some c" "s < ?n" for s x c
    using that
  proof (induction rule: escapes.induct)
    case (escapes_read s q off x)
    then show ?case using base[of s c] by (intro derived.derived_base) blast
  next
    case (escapes_caller s q off x)
    have "q \<in> escape_deps ?p s"
      unfolding deps[OF escapes_caller.prems(2)]
      using escapes_caller.hyps(1,2) escapes_function[OF escapes_caller.hyps(3)] by (intro conjI exI)
    then show ?case
      by (rule derived.derived_dep) (rule escapes_caller.IH[OF escapes_caller.prems(1) calls_at_scope[OF assms(2) escapes_caller.hyps(2)]])
  qed
  ultimately have "mrow m s = names_row ex space (escapes ctx s)" if "s < ?n" for s
    unfolding m(3)[OF that] names_row_def using that by blast
  moreover have "compute_compatibility_read_sets k plans callers tr space = Some \<lparr>crd_escape_reads = m, crd_future_reads = future\<rparr>"
    unfolding compute_compatibility_read_sets_def fut(1) m(1) Option.bind_lunit by (rule refl)
  ultimately show ?thesis using fut(2) m(2) by (auto simp: compatibility_ok_def)
qed

section \<open>The next local declaration\<close>

definition local_declaration :: "binding \<Rightarrow> bool" where
  "local_declaration b \<longleftrightarrow> (case b_kind b of Declaration _ \<Rightarrow> True | _ \<Rightarrow> False) \<and> has_attr b attr_local"

definition next_local_declaration :: "binding list \<Rightarrow> binding_id \<Rightarrow> binding_id option" where
  "next_local_declaration bs i = List.find (\<lambda>j. local_declaration (bs ! j) \<and> b_scope (bs ! j) = b_scope (bs ! i)
     \<and> b_name (bs ! j) = b_name (bs ! i)) [Suc i..<length bs]"

lemma next_shadows_ok:
  assumes "names_ok names" "\<forall>b \<in> set bs. nt_get names (b_name b) \<noteq> None" "bindings_indexed bs"
  shows "next_shadowing_local_declarations bs (name_ids names bs) = Some (map (next_local_declaration bs) [0..<length bs])"
proof -
  let ?n = "length bs" and ?ids = "name_ids names bs"
  let ?f = "\<lambda>b (shadows, later). do {
         name \<leftarrow> nth_opt ?ids (b_id b);
         shadows \<leftarrow> update_opt shadows (b_id b) (later (b_scope b, name));
         Some (shadows, if (case b_kind b of Declaration _ \<Rightarrow> True | _ \<Rightarrow> False) \<and> has_attr b attr_local
           then later((b_scope b, name) \<mapsto> b_id b) else later) }"
  let ?later = "\<lambda>k (s, n). List.find (\<lambda>j. local_declaration (bs ! j) \<and> b_scope (bs ! j) = s \<and> ?ids ! j = n) [k..<?n]"
  let ?shadows = "\<lambda>k. map (\<lambda>i. if k \<le> i then ?later (Suc i) (b_scope (bs ! i), ?ids ! i) else None) [0..<?n]"
  have len: "length ?ids = ?n" by simp
  have "fold_opt ?f (rev (drop k bs)) (replicate ?n None, Map.empty) = Some (?shadows k, ?later k)" if "k \<le> ?n" for k
    using that
  proof (induction "?n - k" arbitrary: k)
    case 0
    then have "k = ?n" by simp
    moreover have "?shadows ?n = replicate ?n None" by (intro nth_equalityI) auto
    moreover have "?later ?n = Map.empty" by auto
    ultimately show ?case by simp
  next
    case (Suc d)
    then have k: "k < ?n" by simp
    then have IH: "fold_opt ?f (rev (drop (Suc k) bs)) (replicate ?n None, Map.empty) = Some (?shadows (Suc k), ?later (Suc k))"
      using Suc.hyps by simp
    have id: "b_id (bs ! k) = k" using assms(3) k by (intro map_index[OF _ k]) (simp add: bindings_indexed_def)
    have sh: "(?shadows (Suc k))[k := ?later (Suc k) (b_scope (bs ! k), ?ids ! k)] = ?shadows k"
      using k by (intro nth_equalityI) (auto simp: nth_list_update)
    have la: "?later k = (if (case b_kind (bs ! k) of Declaration _ \<Rightarrow> True | _ \<Rightarrow> False) \<and> has_attr (bs ! k) attr_local
        then (?later (Suc k))((b_scope (bs ! k), ?ids ! k) \<mapsto> k) else ?later (Suc k))"
      unfolding local_declaration_def[of "bs ! k", symmetric] using k by (intro ext) (auto simp: upt_conv_Cons split: if_splits)
    have "?f (bs ! k) (?shadows (Suc k), ?later (Suc k)) = Some (?shadows k, ?later k)"
    proof -
      have "nth_opt ?ids (b_id (bs ! k)) = Some (?ids ! k)" using k len by (simp only: id panic_simps)
      moreover have "update_opt (?shadows (Suc k)) (b_id (bs ! k)) (?later (Suc k) (b_scope (bs ! k), ?ids ! k)) = Some (?shadows k)"
        unfolding sh[symmetric] id using k by (simp only: panic_simps length_map length_upt)
      ultimately show ?thesis unfolding la id by (simp only: prod.case Option.bind_lunit)
    qed
    with IH k show ?case by (simp only: Cons_nth_drop_Suc[symmetric] rev.simps fold_opt_append Option.bind_lunit fold_opt.simps)
  qed
  from this[of 0] have run: "next_shadowing_local_declarations bs ?ids = Some (?shadows 0)"
    by (simp add: next_shadowing_local_declarations_def)
  have "?later (Suc i) (b_scope (bs ! i), ?ids ! i) = next_local_declaration bs i" if i: "i < ?n" for i
    unfolding next_local_declaration_def prod.case
    using same_name[OF assms(1,2) _ i] by (intro find_cong refl) auto
  then show ?thesis unfolding run by (simp add: map_eq_conv)
qed

section \<open>The reads before a local declaration takes over\<close>

lemma any_opt_eq: "(\<And>x. x \<in> set xs \<Longrightarrow> f x = Some (P x)) \<Longrightarrow> any_opt f xs = Some (\<exists>x \<in> set xs. P x)"
  by (induction xs) auto

lemma partition_filter:
  assumes "partitioned p xs"
  shows "take (partition_point p xs) xs = filter p xs"
proof -
  let ?k = "partition_point p xs"
  have "filter p (take ?k xs @ drop ?k xs) = take ?k xs"
    unfolding filter_append using partition_sets[OF assms]
    by (subst (1) filter_True) (auto simp: filter_empty_conv)
  then show ?thesis by simp
qed

definition reaches_avoiding :: "control_flow_graph \<Rightarrow> block_id \<Rightarrow> block_id \<Rightarrow> block_id \<Rightarrow> bool" where
  "reaches_avoiding cfg start target avoided \<longleftrightarrow>
     start \<noteq> avoided \<and> (start, target) \<in> (steps (open_next cfg (\<lambda>b. b = avoided)))\<^sup>*"

text \<open>What the analyses hold of the read sets they share.\<close>

definition read_sets_ok ::
  "dataflow_context \<Rightarrow> exact_variable_dataflow \<Rightarrow> bound_name_space \<Rightarrow> scope_read_plan list \<Rightarrow> dense_bit_matrix
    \<Rightarrow> compatibility_read_sets \<Rightarrow> bool" where
  "read_sets_ok ctx ex space plans tr crd \<longleftrightarrow> context_ok ctx \<and> reads_ok ctx \<and> space_fits ctx ex space
     \<and> (\<exists>callers. plans_ok ctx ex space plans callers) \<and> transitive_ok ctx ex space tr
     \<and> compatibility_ok ctx ex space plans crd"

lemma read_sets_okD:
  assumes "read_sets_ok ctx ex space plans tr crd"
  shows "context_ok ctx" "reads_ok ctx" "space_fits ctx ex space" "\<exists>callers. plans_ok ctx ex space plans callers"
    "transitive_ok ctx ex space tr" "compatibility_ok ctx ex space plans crd"
    "future_ok ctx ex space plans (crd_future_reads crd)" "length plans = length (dc_scopes ctx)"
  using assms unfolding read_sets_ok_def compatibility_ok_def plans_ok_def by blast+

lemma escape_contains:
  assumes "read_sets_ok ctx ex space plans tr crd" "s < length (dc_scopes ctx)" "compact_of ex space x = Some c"
  shows "(srp_is_function (plans ! s) \<and> bm_contains (crd_escape_reads crd) s c) \<longleftrightarrow> escapes ctx s x"
proof -
  note ok = read_sets_okD[OF assms(1)]
  have fn: "srp_is_function (plans ! s) = function_scope ctx s" using ok(4) assms(2) by (auto simp: plans_ok_def)
  have "shaped (length (dc_scopes ctx)) (bn_len space) (crd_escape_reads crd)"
    "mrow (crd_escape_reads crd) s = names_row ex space (escapes ctx s)"
    using ok(6) assms(2) by (simp_all add: compatibility_ok_def)
  with matrix_contains[OF _ assms(2) compact_of_facts(1)[OF ok(3) assms(3)]] in_names_row[OF ok(3) assms(3)]
  have "bm_contains (crd_escape_reads crd) s c \<longleftrightarrow> escapes ctx s x" by simp
  then show ?thesis using fn escapes_function[of ctx s x] by blast
qed

lemma contains_after_ok:
  assumes "read_sets_ok ctx ex space plans tr crd" "s < length (dc_scopes ctx)" "compact_of ex space x = Some c"
  shows "future_reads_contain_after plans (crd_future_reads crd) (crd_escape_reads crd) s off c
    = Some (reads_after ctx s off x \<or> escapes ctx s x)"
proof -
  note ok = read_sets_okD[OF assms(1)]
  obtain callers where pl: "plans_ok ctx ex space plans callers" using ok(4) by blast
  let ?i = "events_until (plans ! s) off"
  have f: "length (crd_future_reads crd) = length plans"
    "shaped (length (srp_events (plans ! s)) + 1) (bn_len space) (crd_future_reads crd ! s)"
    using ok(7) assms(2) ok(8) by (simp_all add: future_ok_def)
  have i: "?i < length (srp_events (plans ! s)) + 1" using events_until_ok(1)[OF pl assms(2)] by (simp add: less_Suc_eq_le)
  have "bm_contains (crd_future_reads crd ! s) ?i c \<longleftrightarrow> reads_after ctx s off x"
    unfolding matrix_contains[OF f(2) i compact_of_facts(1)[OF ok(3) assms(3)]]
      suffix_row_reads[OF ok(3,2) pl assms(2) ok(7)] in_names_row[OF ok(3) assms(3)] by (rule refl)
  moreover have at: "nth_opt plans s = Some (plans ! s)" "nth_opt (crd_future_reads crd) s = Some (crd_future_reads crd ! s)"
    using f(1) ok(8) assms(2) by (simp_all add: panic_simps)
  ultimately show ?thesis
    unfolding future_reads_contain_after_def at Option.bind_lunit using escape_contains[OF assms] by simp
qed

lemma event_uses:
  assumes "space_fits ctx ex space" "transitive_ok ctx ex space tr" "event_ok ctx ex e"
    and "nt_get (ex_names ex) x = Some n" "compact_of ex space x = Some c"
  shows "event_uses_name tr n c e \<longleftrightarrow> event_reads ctx ex e x"
proof (cases "sre_kind e")
  case (ReadDirect m)
  then show ?thesis using assms(4) by (auto simp: event_uses_name_def event_reads_def)
next
  case (ReadCall q)
  then have q: "q < length (dc_scopes ctx)" using assms(3) by (simp add: event_ok_def)
  have "shaped (length (dc_scopes ctx)) (bn_len space) tr" "mrow tr q = names_row ex space (scope_reads ctx q)"
    using assms(2) q by (simp_all add: transitive_ok_def)
  with matrix_contains[OF _ q compact_of_facts(1)[OF assms(1,5)]] in_names_row[OF assms(1,5)]
  show ?thesis by (simp add: event_uses_name_def event_reads_def ReadCall)
qed

lemma contains_until_ok:
  assumes "read_sets_ok ctx ex space plans tr crd" "s < length (dc_scopes ctx)"
    and "nt_get (ex_names ex) x = Some n" "compact_of ex space x = Some c"
  shows "future_reads_contain_after_until plans tr s a b n c = Some (reads_between ctx s (\<lambda>o'. a < o' \<and> o' < b) x)"
proof (cases "b \<le> a")
  case True
  then show ?thesis by (auto simp: future_reads_contain_after_until_def reads_between_def)
next
  case False
  note ok = read_sets_okD[OF assms(1)]
  obtain callers where pl: "plans_ok ctx ex space plans callers" using ok(4) by blast
  let ?es = "srp_events (plans ! s)"
  let ?start = "events_until (plans ! s) a" and ?stop = "partition_point (\<lambda>event. sre_offset event < b) ?es"
  have sorted: "sorted (map sre_offset ?es)" using pl assms(2) by (simp add: plans_ok_def)
  note le = sorted_events_partitioned(1)[OF sorted, of a] and lt = sorted_events_partitioned(2)[OF sorted, of b]
  have pre: "take ?stop ?es = filter (\<lambda>e. sre_offset e < b) ?es" by (rule partition_filter[OF lt])
  have le': "partitioned (\<lambda>e. sre_offset e \<le> a) (take ?stop ?es)"
    unfolding pre by (rule sorted_events_partitioned(1)) (simp add: sorted_filter[OF sorted])
  have "filter (\<lambda>e. sre_offset e \<le> a) (take ?stop ?es) = filter (\<lambda>e. sre_offset e \<le> a) ?es"
    unfolding pre filter_filter using False by (intro filter_cong) auto
  then have start: "?start = partition_point (\<lambda>e. sre_offset e \<le> a) (take ?stop ?es)"
    unfolding events_until_def partition_point_filter[OF le] partition_point_filter[OF le'] by simp
  have bounds: "?start \<le> ?stop" "?stop \<le> length ?es"
    using partition_point_spec(1)[OF le'] partition_point_spec(1)[OF lt] unfolding start[symmetric] by simp_all
  have "set (drop ?start (take ?stop ?es)) = {e \<in> set ?es. a < sre_offset e \<and> sre_offset e < b}"
    using partition_sets(2)[OF le'] unfolding start[symmetric] partition_sets(1)[OF lt] by (auto simp: not_le)
  then have "list_ex (event_uses_name tr n c) (drop ?start (take ?stop ?es))
      \<longleftrightarrow> (\<exists>e \<in> set ?es. (a < sre_offset e \<and> sre_offset e < b) \<and> event_reads ctx ex e x)"
    using event_uses[OF ok(3,5) plan_events(1)[OF ok(3,2) pl assms(2)] assms(3,4)] by (auto simp: list_ex_iff)
  also have "\<dots> \<longleftrightarrow> reads_between ctx s (\<lambda>o'. a < o' \<and> o' < b) x"
    unfolding plan_events(2)[OF ok(3,2) pl assms(2), of "\<lambda>o' _. a < o' \<and> o' < b"] reads_between_def by (rule refl)
  finally show ?thesis
    using False bounds assms(2) ok(8) by (simp add: future_reads_contain_after_until_def panic_simps Let_def)
qed

lemma contains_without_shadow_ok:
  assumes "read_sets_ok ctx ex space plans tr crd" "s < length (dc_scopes ctx)"
    and "nt_get (ex_names ex) x = Some n" "compact_of ex space x = Some c" "from < length (cfg_blocks (dc_cfg ctx))"
  shows "future_reads_contain_after_without_shadow plans tr (dc_cfg ctx) s a b from shadow n c =
    Some (\<exists>off block item. (off, block, item) \<in> read_items ctx s
      \<and> (a < off \<and> (off < b \<or> (\<forall>t. block = Some t \<longrightarrow> t \<noteq> shadow \<and> reaches_avoiding (dc_cfg ctx) from t shadow)))
      \<and> item_reads ctx x item)"
proof -
  note ok = read_sets_okD[OF assms(1)]
  obtain callers where pl: "plans_ok ctx ex space plans callers" using ok(4) by blast
  let ?es = "srp_events (plans ! s)"
  let ?P = "\<lambda>off block. off < b \<or> (\<forall>t. block = Some t \<longrightarrow> t \<noteq> shadow \<and> reaches_avoiding (dc_cfg ctx) from t shadow)"
  have reach: "block_reaches_without (dc_cfg ctx) from t shadow = Some (reaches_avoiding (dc_cfg ctx) from t shadow)" for t
    unfolding block_reaches_without_def reaches_avoiding_def by (rule block_reaches_unless_ok[OF context_cfg[OF ok(1)] assms(5)])
  have survives: "read_survives_shadow (dc_cfg ctx) tr b from shadow n c e
      = Some (?P (sre_offset e) (sre_block e) \<and> event_reads ctx ex e x)" if e: "e \<in> set ?es" for e
    unfolding read_survives_shadow_def event_uses[OF ok(3,5) plan_events(1)[OF ok(3,2) pl assms(2) e] assms(3,4)] reach
    by (cases "sre_block e") auto
  have drop: "set (drop (events_until (plans ! s) a) ?es) = {e \<in> set ?es. a < sre_offset e}"
    by (rule events_until_ok(2)[OF pl assms(2)])
  have "any_opt (read_survives_shadow (dc_cfg ctx) tr b from shadow n c) (drop (events_until (plans ! s) a) ?es)
      = Some (\<exists>e \<in> set (drop (events_until (plans ! s) a) ?es). ?P (sre_offset e) (sre_block e) \<and> event_reads ctx ex e x)"
    by (rule any_opt_eq, rule survives) (simp add: drop)
  also have "\<dots> = Some (\<exists>e \<in> set ?es. (a < sre_offset e \<and> ?P (sre_offset e) (sre_block e)) \<and> event_reads ctx ex e x)"
    unfolding drop by blast
  also have "\<dots> = Some (\<exists>off block item. (off, block, item) \<in> read_items ctx s \<and> (a < off \<and> ?P off block) \<and> item_reads ctx x item)"
    unfolding plan_events(2)[OF ok(3,2) pl assms(2), of "\<lambda>off block. a < off \<and> ?P off block"] by (rule refl)
  moreover have at: "nth_opt plans s = Some (plans ! s)" using ok(8) assms(2) by (simp add: panic_simps)
  ultimately show ?thesis unfolding future_reads_contain_after_without_shadow_def at Option.bind_lunit by simp
qed

text \<open>A value is still wanted when a read follows it in its scope or among the callers; when the same
  function declares the name again as a local, only the reads that come before that declaration, in the
  text or along a path that avoids it, and the reads of the callers count.\<close>

definition wanted_before_shadow :: "dataflow_context \<Rightarrow> binding_id \<Rightarrow> bool" where
  "wanted_before_shadow ctx i \<longleftrightarrow>
     (let b = dc_bindings ctx ! i; s = b_scope b; x = b_name b; off = start_offset (b_span b);
          block = block_with bb_bindings (dc_cfg ctx)
      in escapes ctx s x \<or>
        (case next_local_declaration (dc_bindings ctx) i of
           None \<Rightarrow> reads_after ctx s off x
         | Some j \<Rightarrow> let shadow_off = start_offset (b_span (dc_bindings ctx ! j)) in
             (case (block i, block j) of
                (Some from, Some shadow) \<Rightarrow> (\<exists>o' read_block item. (o', read_block, item) \<in> read_items ctx s
                   \<and> (off < o' \<and> (o' < shadow_off \<or> (\<forall>t. read_block = Some t \<longrightarrow> t \<noteq> shadow
                        \<and> reaches_avoiding (dc_cfg ctx) from t shadow)))
                   \<and> item_reads ctx x item)
              | _ \<Rightarrow> reads_between ctx s (\<lambda>o'. off < o' \<and> o' < shadow_off) x)))"

lemma next_shadows_found:
  assumes "read_sets_ok ctx ex space plans tr crd"
  shows "\<exists>shadows. next_shadowing_local_declarations (dc_bindings ctx) (dbd_binding_name_ids (ex_binding_data ex)) = Some shadows"
proof -
  note ok = read_sets_okD[OF assms]
  have "names_ok (ex_names ex)" "\<forall>b \<in> set (dc_bindings ctx). nt_get (ex_names ex) (b_name b) \<noteq> None"
    "dbd_binding_name_ids (ex_binding_data ex) = name_ids (ex_names ex) (dc_bindings ctx)" "bindings_indexed (dc_bindings ctx)"
    using ok(1,3) by (auto simp: space_fits_def exact_ok_def dataflow_input_def binding_data_ok_def context_ok_def)
  then show ?thesis using next_shadows_ok by metis
qed

lemma next_local_declaration_bound:
  "next_local_declaration bs i = Some j \<Longrightarrow> i < j \<and> j < length bs"
  by (auto simp: next_local_declaration_def find_Some_iff)

theorem reads_before_shadow_exact:
  assumes "read_sets_ok ctx ex space plans tr crd" "i < length (dc_bindings ctx)"
    and "next_shadowing_local_declarations (dc_bindings ctx) (dbd_binding_name_ids (ex_binding_data ex)) = Some shadows"
  shows "binding_has_future_reads_before_local_shadow ctx ex space shadows plans tr crd (dc_bindings ctx ! i)
    = Some (wanted_before_shadow ctx i)"
proof -
  note ok = read_sets_okD[OF assms(1)]
  let ?bs = "dc_bindings ctx" and ?block = "block_with bb_bindings (dc_cfg ctx)"
  let ?b = "?bs ! i"
  have ex: "exact_ok ctx ex" using ok(3) by (simp add: space_fits_def)
  have names: "names_ok (ex_names ex)" and d: "binding_data_ok (ex_names ex) ?bs (ex_binding_data ex)"
    using ex by (auto simp: exact_ok_def dataflow_input_def)
  have known: "\<forall>b \<in> set ?bs. nt_get (ex_names ex) (b_name b) \<noteq> None"
    and ids: "dbd_binding_name_ids (ex_binding_data ex) = name_ids (ex_names ex) ?bs"
    using d by (auto simp: binding_data_ok_def)
  have indexed: "bindings_indexed ?bs" using ok(1) by (simp add: context_ok_def)
  have id: "b_id (?bs ! j) = j" if "j < length ?bs" for j
    using indexed by (intro map_index[OF _ that]) (simp add: bindings_indexed_def)
  obtain n where n: "nt_get (ex_names ex) (b_name ?b) = Some n" using known assms(2) by fastforce
  obtain c where c: "compact_of ex space (b_name ?b) = Some c" using compact_of_facts(3)[OF ok(3)] assms(2) by fastforce
  have s: "b_scope ?b < length (dc_scopes ctx)" using ok(2) assms(2) by (simp add: reads_ok_def)
  have shadows: "shadows = map (next_local_declaration ?bs) [0..<length ?bs]"
    using assms(3) next_shadows_ok[OF names known indexed] unfolding ids by simp
  have blocks: "nth_opt (ex_binding_blocks ex) j = Some (?block j)" if "j < length ?bs" for j
    using ex that by (auto simp: exact_ok_def panic_simps)
  have at: "nth_opt (dbd_binding_name_ids (ex_binding_data ex)) (b_id ?b) = Some n"
    "nth_opt shadows (b_id ?b) = Some (next_local_declaration ?bs i)"
    "nth_opt plans (b_scope ?b) = Some (plans ! b_scope ?b)"
    "nth_opt (ex_binding_blocks ex) (b_id ?b) = Some (?block i)"
    using assms(2) n s ok(8) blocks[OF assms(2)] unfolding ids shadows id[OF assms(2)] by (simp_all add: panic_simps)
  have get: "bn_get space n = Some (Some c)" using compact_of_facts(4)[OF ok(3) n] c by simp
  note opened = binding_has_future_reads_before_local_shadow_def at get Option.bind_lunit option.case Let_def
  show ?thesis
  proof (cases "next_local_declaration ?bs i")
    case None
    then show ?thesis unfolding opened None contains_after_ok[OF assms(1) s c] wanted_before_shadow_def by auto
  next
    case (Some j)
    note j = next_local_declaration_bound[OF Some, THEN conjunct2]
    have atj: "nth_opt ?bs j = Some (?bs ! j)" "nth_opt (ex_binding_blocks ex) (b_id (?bs ! j)) = Some (?block j)"
      using j blocks[OF j] unfolding id[OF j] by (simp_all add: panic_simps)
    have within: "from < length (cfg_blocks (dc_cfg ctx))" if "?block i = Some from" for "from"
      by (rule block_with_within(1)[OF context_cfg[OF ok(1)] that])
    show ?thesis
      unfolding opened Some atj escape_contains[OF assms(1) s c] or_opt_def wanted_before_shadow_def
        contains_until_ok[OF assms(1) s n c]
      by (cases "?block i"; cases "?block j") (simp_all add: contains_without_shadow_ok[OF assms(1) s n c] within)
  qed
qed

section \<open>From the context to the answers\<close>

lemma bound_names_bound:
  assumes "bn_new ids n = Some space"
  shows "bn_len space \<le> length ids"
proof -
  let ?f = "\<lambda>name space. do {
         compact \<leftarrow> nth_opt (bn_compact_by_name space) name;
         case compact of
           Some _ \<Rightarrow> Some space
         | None \<Rightarrow> do {
             table \<leftarrow> update_opt (bn_compact_by_name space) name (Some (bn_len space));
             Some \<lparr>bn_compact_by_name = table, bn_len = Suc (bn_len space)\<rparr> } }"
  have "bn_len s' \<le> bn_len s + length ids" if "fold_opt ?f ids s = Some s'" for s s'
    using that
  proof (induction ids arbitrary: s)
    case (Cons i ids)
    then obtain t where t: "?f i s = Some t" "fold_opt ?f ids t = Some s'" by (auto split: bind_splits)
    have "bn_len t \<le> Suc (bn_len s)" using t(1) by (auto split: option.splits bind_splits)
    with Cons.IH[OF t(2)] show ?case by simp
  qed simp
  from this[OF assms[unfolded bn_new_def]] show ?thesis by simp
qed

lemma read_sets_computed:
  assumes "context_ok ctx" "reads_ok ctx" "build_exact_variable_dataflow ctx = Some ex"
    and "length (dc_scopes ctx) * length (dc_bindings ctx) < k"
  shows "\<exists>space plans callers tr crd.
    bn_new (dbd_binding_name_ids (ex_binding_data ex)) (nt_len (ex_names ex)) = Some space
    \<and> build_scope_read_plans ctx ex space = Some (plans, callers) \<and> plans_ok ctx ex space plans callers
    \<and> compute_transitive_read_sets k plans (dc_scopes ctx) (bn_len space) = Some tr
    \<and> compute_compatibility_read_sets k plans callers tr space = Some crd
    \<and> read_sets_ok ctx ex space plans tr crd \<and> length (dc_scopes ctx) * bn_len space < k"
proof -
  let ?names = "ex_names ex"
  have ex: "exact_ok ctx ex" using build_exact_ok[OF assms(1)] assms(3) by auto
  have names: "names_ok ?names" "binding_data_ok ?names (dc_bindings ctx) (ex_binding_data ex)"
    using ex by (simp_all add: exact_ok_def dataflow_input_def)
  have ids: "set (dbd_binding_name_ids (ex_binding_data ex)) \<subseteq> {..<nt_len ?names}"
    "length (dbd_binding_name_ids (ex_binding_data ex)) = length (dc_bindings ctx)"
    using names nt_get_bound[OF names(1)] by (fastforce simp: binding_data_ok_def)+
  obtain space where space: "bn_new (dbd_binding_name_ids (ex_binding_data ex)) (nt_len ?names) = Some space"
    "space_fits ctx ex space" using bn_new_ok[OF ids(1)] ex by (auto simp: space_fits_def)
  have "length (dc_scopes ctx) * bn_len space \<le> length (dc_scopes ctx) * length (dc_bindings ctx)"
    using bound_names_bound[OF space(1)] ids(2) by simp
  then have room: "length (dc_scopes ctx) * bn_len space < k" by (rule le_less_trans) (rule assms(4))
  obtain plans callers where plans: "build_scope_read_plans ctx ex space = Some (plans, callers)" "plans_ok ctx ex space plans callers"
    using build_scope_read_plans_ok[OF space(2) assms(1,2)] by blast
  obtain tr where tr: "compute_transitive_read_sets k plans (dc_scopes ctx) (bn_len space) = Some tr" "transitive_ok ctx ex space tr"
    using transitive_reads_exact[OF space(2) assms(2) plans(2) room] by blast
  obtain crd where crd: "compute_compatibility_read_sets k plans callers tr space = Some crd" "compatibility_ok ctx ex space plans crd"
    using escaping_reads_exact[OF space(2) assms(2) plans(2) tr(2) room] by blast
  have "read_sets_ok ctx ex space plans tr crd"
    using assms(1,2) space(2) plans(2) tr(2) crd(2) unfolding read_sets_ok_def by blast
  with space(1) plans tr(1) crd(1) room show ?thesis by blast
qed

text \<open>C5: Whether a value may still be read behind its assignment is always decided, and decided right: the
  read sets of the scopes are computed without a panic within as many rounds as they have bits, and a
  binding has later reads exactly when its name is read behind it in its scope, before the same function
  declares it again as a local (or on a path around that declaration), or by a caller of the function
  after the call.\<close>

theorem later_reads_decided:
  assumes "context_ok ctx" "reads_ok ctx" "build_exact_variable_dataflow ctx = Some ex"
    and "length (dc_scopes ctx) * length (dc_bindings ctx) < k"
  shows "\<exists>space plans callers tr crd shadows.
    bn_new (dbd_binding_name_ids (ex_binding_data ex)) (nt_len (ex_names ex)) = Some space
    \<and> build_scope_read_plans ctx ex space = Some (plans, callers)
    \<and> compute_transitive_read_sets k plans (dc_scopes ctx) (bn_len space) = Some tr
    \<and> compute_compatibility_read_sets k plans callers tr space = Some crd
    \<and> next_shadowing_local_declarations (dc_bindings ctx) (dbd_binding_name_ids (ex_binding_data ex)) = Some shadows
    \<and> (\<forall>i < length (dc_bindings ctx).
         binding_has_future_reads_before_local_shadow ctx ex space shadows plans tr crd (dc_bindings ctx ! i)
           = Some (wanted_before_shadow ctx i))"
proof -
  obtain space plans callers tr crd where reads:
    "bn_new (dbd_binding_name_ids (ex_binding_data ex)) (nt_len (ex_names ex)) = Some space"
    "build_scope_read_plans ctx ex space = Some (plans, callers)"
    "compute_transitive_read_sets k plans (dc_scopes ctx) (bn_len space) = Some tr"
    "compute_compatibility_read_sets k plans callers tr space = Some crd"
    and sets: "read_sets_ok ctx ex space plans tr crd"
    using read_sets_computed[OF assms] by (elim exE conjE) (rule that)
  obtain shadows where shadows:
    "next_shadowing_local_declarations (dc_bindings ctx) (dbd_binding_name_ids (ex_binding_data ex)) = Some shadows"
    using next_shadows_found[OF sets] by blast
  show ?thesis using reads shadows reads_before_shadow_exact[OF sets _ shadows] by blast
qed

lemma flow_reads_ok: "reads_ok (flow_context_of cfg)" "length (dc_scopes (flow_context_of cfg)) \<le> 3"
proof -
  let ?calls = "set (resolved_function_calls no_calls [])"
  have "scopes_ok sample_scopes" "length sample_scopes = 3"
    by (auto simp: scopes_ok_def sample_scopes_def less_Suc_eq numeral_2_eq_2 nth_Cons')
  moreover have "?calls = {}" by (simp add: resolved_function_calls_def no_calls_def)
  ultimately show "reads_ok (flow_context_of cfg)" "length (dc_scopes (flow_context_of cfg)) \<le> 3"
    by (auto simp: reads_ok_def flow_context_of_def flow_read_def flow_assignments_def sample_binding_def)
qed

theorem later_reads_decided_witness:
  "\<exists>cfg ex space plans callers tr crd shadows.
    build_control_flow_graph 1 1 flow_program flow_bindings flow_references no_calls = Some cfg
    \<and> build_exact_variable_dataflow (flow_context_of cfg) = Some ex
    \<and> build_scope_read_plans (flow_context_of cfg) ex space = Some (plans, callers)
    \<and> compute_compatibility_read_sets 7 plans callers tr space = Some crd
    \<and> binding_has_future_reads_before_local_shadow (flow_context_of cfg) ex space shadows plans tr crd (flow_assignments ! 1)
       = Some (wanted_before_shadow (flow_context_of cfg) 1)"
proof -
  obtain cfg ex where cfg: "build_control_flow_graph 1 1 flow_program flow_bindings flow_references no_calls = Some cfg"
    and ctx: "context_ok (flow_context_of cfg)" "build_exact_variable_dataflow (flow_context_of cfg) = Some ex"
    using flow_context_ok by (elim exE conjE) (rule that)
  have "length (dc_scopes (flow_context_of cfg)) * length (dc_bindings (flow_context_of cfg)) < 7"
    using flow_reads_ok(2)[of cfg] by (simp add: flow_context_fields)
  from later_reads_decided[OF ctx(1) flow_reads_ok(1) ctx(2) this] obtain space plans callers tr crd shadows where
    reads: "build_scope_read_plans (flow_context_of cfg) ex space = Some (plans, callers)"
    "compute_compatibility_read_sets 7 plans callers tr space = Some crd"
    and all: "\<forall>i < length (dc_bindings (flow_context_of cfg)).
       binding_has_future_reads_before_local_shadow (flow_context_of cfg) ex space shadows plans tr crd (dc_bindings (flow_context_of cfg) ! i)
         = Some (wanted_before_shadow (flow_context_of cfg) i)" by (elim exE conjE) (rule that)
  have "binding_has_future_reads_before_local_shadow (flow_context_of cfg) ex space shadows plans tr crd (flow_assignments ! 1)
      = Some (wanted_before_shadow (flow_context_of cfg) 1)"
    using all[rule_format, of 1] unfolding flow_context_fields by simp
  with cfg ctx(2) reads show ?thesis by (intro exI conjI)
qed

end
