(* ===== verification/Slot_Sets.thy ===== *)
theory Slot_Sets
  imports Dataflow_Sets
begin

text \<open>
  Model of the live sets of \<open>crates/shucked-semantic/src/dataflow/unused.rs\<close>: \<open>SlotLiveSet\<close>, which keeps
  a set of at most 64 slots in one inline word and a larger one in a vector, and \<open>SlotLiveMatrix\<close>, one
  such set per block.  The lemmas show that both representations are the bit sets and matrices of
  \<open>Dataflow_Sets\<close>, whichever of the two forms is in use.
\<close>

section \<open>Sets\<close>

record slot_live_set =
  sl_words_per_set :: nat
  sl_inline :: usize_word
  sl_heap :: "usize_word list"

unbundle bit_operations_syntax

definition sl_new :: "nat \<Rightarrow> slot_live_set" where
  "sl_new bit_len =
     (let words_per_set = div_ceil bit_len 64
      in \<lparr>sl_words_per_set = words_per_set, sl_inline = 0,
          sl_heap = (if words_per_set > 1 then replicate words_per_set 0 else [])\<rparr>)"

definition sl_as_slice :: "slot_live_set \<Rightarrow> usize_word list" where
  "sl_as_slice s =
     (if sl_words_per_set s = 0 then []
      else if sl_words_per_set s = 1 then [sl_inline s]
      else sl_heap s)"

text \<open>What \<open>as_mut_slice\<close> gives access to, overwritten by the words \<open>ws\<close>.\<close>

definition sl_write :: "slot_live_set \<Rightarrow> usize_word list \<Rightarrow> slot_live_set" where
  "sl_write s ws =
     (if sl_words_per_set s = 1 then s\<lparr>sl_inline := hd ws\<rparr> else s\<lparr>sl_heap := ws\<rparr>)"

definition sl_mut_slice :: "slot_live_set \<Rightarrow> usize_word list" where
  "sl_mut_slice s = (if sl_words_per_set s = 1 then [sl_inline s] else sl_heap s)"

definition sl_clear :: "slot_live_set \<Rightarrow> slot_live_set" where
  "sl_clear s =
     (if sl_words_per_set s = 1 then s\<lparr>sl_inline := 0\<rparr>
      else s\<lparr>sl_heap := replicate (length (sl_heap s)) 0\<rparr>)"

definition sl_copy_from_slice :: "slot_live_set \<Rightarrow> usize_word list \<Rightarrow> slot_live_set option" where
  "sl_copy_from_slice s ws = (if length ws = length (sl_mut_slice s) then Some (sl_write s ws) else None)"

definition sl_union_with_slice :: "slot_live_set \<Rightarrow> usize_word list \<Rightarrow> slot_live_set" where
  "sl_union_with_slice s ws = sl_write s (zip_update (OR) (sl_mut_slice s) ws)"

text \<open>A heap word that is out of range is left alone.\<close>

definition sl_insert :: "slot_live_set \<Rightarrow> nat \<Rightarrow> slot_live_set" where
  "sl_insert s i =
     (if sl_words_per_set s = 1 then s\<lparr>sl_inline := sl_inline s OR mask_of_index i\<rparr>
      else case nth_opt (sl_heap s) (word_of_index i) of
        None \<Rightarrow> s
      | Some w \<Rightarrow> s\<lparr>sl_heap := (sl_heap s)[word_of_index i := w OR mask_of_index i]\<rparr>)"

definition sl_contains :: "slot_live_set \<Rightarrow> nat \<Rightarrow> bool" where
  "sl_contains s i =
     (if sl_words_per_set s = 1 then sl_inline s AND mask_of_index i \<noteq> 0
      else case nth_opt (sl_heap s) (word_of_index i) of
        None \<Rightarrow> False
      | Some w \<Rightarrow> w AND mask_of_index i \<noteq> 0)"

definition sl_remove :: "slot_live_set \<Rightarrow> nat \<Rightarrow> slot_live_set" where
  "sl_remove s i =
     (if sl_words_per_set s = 1 then s\<lparr>sl_inline := sl_inline s AND NOT (mask_of_index i)\<rparr>
      else case nth_opt (sl_heap s) (word_of_index i) of
        None \<Rightarrow> s
      | Some w \<Rightarrow> s\<lparr>sl_heap := (sl_heap s)[word_of_index i := w AND NOT (mask_of_index i)]\<rparr>)"

section \<open>Matrices\<close>

record slot_live_matrix =
  slm_words_per_set :: nat
  slm_words :: "usize_word list"

definition slm_new :: "nat \<Rightarrow> nat \<Rightarrow> slot_live_matrix" where
  "slm_new set_count bit_len =
     (let words_per_set = div_ceil bit_len 64
      in \<lparr>slm_words_per_set = words_per_set, slm_words = replicate (set_count * words_per_set) 0\<rparr>)"

definition slm_set :: "slot_live_matrix \<Rightarrow> nat \<Rightarrow> usize_word list option" where
  "slm_set m i = slice_opt (slm_words m) (i * slm_words_per_set m) (slm_words_per_set m)"

definition slm_replace_if_changed ::
  "slot_live_matrix \<Rightarrow> nat \<Rightarrow> slot_live_set \<Rightarrow> (bool \<times> slot_live_matrix) option" where
  "slm_replace_if_changed m i s = do {
     destination \<leftarrow> slm_set m i;
     if destination = sl_as_slice s then Some (False, m)
     else do {
       ws \<leftarrow> write_slice (slm_words m) (i * slm_words_per_set m) (slm_words_per_set m) (sl_as_slice s);
       Some (True, m\<lparr>slm_words := ws\<rparr>) } }"

section \<open>The two forms of a set are one\<close>

definition slotted :: "nat \<Rightarrow> slot_live_set \<Rightarrow> bool" where
  "slotted n s \<longleftrightarrow> sl_words_per_set s = words_for n \<and> length (sl_heap s) = (if words_for n > 1 then words_for n else 0)"

abbreviation lset :: "slot_live_set \<Rightarrow> nat set" where
  "lset s \<equiv> members (sl_as_slice s)"

definition as_bits :: "slot_live_set \<Rightarrow> dense_bit_set" where
  "as_bits s = \<lparr>bs_words = sl_as_slice s\<rparr>"

lemma slotted_length: "slotted n s \<Longrightarrow> length (sl_as_slice s) = words_for n"
  by (auto simp: slotted_def sl_as_slice_def split: if_splits)

lemma slotted_bits: "slotted n s \<Longrightarrow> sized n (as_bits s)"
  by (simp add: sized_def as_bits_def slotted_length)

lemma mut_slice: "slotted n s \<Longrightarrow> sl_mut_slice s = sl_as_slice s"
  by (auto simp: slotted_def sl_mut_slice_def sl_as_slice_def)

lemma write_slots:
  assumes "slotted n s" "length ws = words_for n"
  shows "slotted n (sl_write s ws)" "sl_as_slice (sl_write s ws) = ws"
proof -
  consider "words_for n = 0" | "words_for n = 1" | "words_for n > 1" by linarith
  then have "slotted n (sl_write s ws) \<and> sl_as_slice (sl_write s ws) = ws"
    using assms by cases (auto simp: slotted_def sl_write_def sl_as_slice_def length_Suc_conv)
  then show "slotted n (sl_write s ws)" "sl_as_slice (sl_write s ws) = ws" by simp_all
qed

lemma slots_new: "slotted n (sl_new n)" "lset (sl_new n) = {}"
proof -
  show "slotted n (sl_new n)" by (simp add: slotted_def sl_new_def words_for_def Let_def)
  have "sl_as_slice (sl_new n) = replicate (words_for n) 0"
    by (simp add: sl_as_slice_def sl_new_def words_for_def Let_def)
  then show "lset (sl_new n) = {}" by (simp add: members_def)
qed

lemma slots_clear: "slotted n s \<Longrightarrow> slotted n (sl_clear s)" "slotted n s \<Longrightarrow> lset (sl_clear s) = {}"
proof -
  assume s: "slotted n s"
  then show "slotted n (sl_clear s)" by (auto simp: slotted_def sl_clear_def split: if_splits)
  have "sl_as_slice (sl_clear s) = replicate (words_for n) 0"
    using s by (auto simp: slotted_def sl_clear_def sl_as_slice_def split: if_splits)
  then show "lset (sl_clear s) = {}" by (simp add: members_def)
qed

lemma slots_copy:
  assumes "slotted n s" "length ws = words_for n"
  shows "\<exists>t. sl_copy_from_slice s ws = Some t \<and> slotted n t \<and> lset t = members ws"
  using write_slots[OF assms] assms mut_slice[OF assms(1)] slotted_length[OF assms(1)]
  by (simp add: sl_copy_from_slice_def)

lemma slots_union:
  assumes "slotted n s" "length ws = words_for n"
  shows "slotted n (sl_union_with_slice s ws)" "lset (sl_union_with_slice s ws) = lset s \<union> members ws"
proof -
  have len: "length (sl_as_slice s) = words_for n" by (rule slotted_length[OF assms(1)])
  have bits: "bs_words (bs_union_with_words (as_bits s) ws) = zip_update (OR) (sl_as_slice s) ws"
    by (simp add: bs_union_with_words_def as_bits_def)
  have "length (zip_update (OR) (sl_as_slice s) ws) = words_for n"
    using sized_words_ops(1)[of n "as_bits s" ws] slotted_bits[OF assms(1)] bits by (simp add: sized_def)
  note w = write_slots[OF assms(1) this]
  show "slotted n (sl_union_with_slice s ws)" "lset (sl_union_with_slice s ws) = lset s \<union> members ws"
    using w union_words_bset[of "as_bits s" ws] len assms(2) bits
    unfolding sl_union_with_slice_def mut_slice[OF assms(1)] by (simp_all add: as_bits_def)
qed

text \<open>Single bits: with one word, the index of an element is its position in that word.\<close>

lemma word_of_single: "i < n \<Longrightarrow> words_for n = 1 \<Longrightarrow> word_of_index i = 0"
  using index_in_words[of i n] by (simp add: word_of_index_def)

lemma insert_bits:
  assumes "slotted n s" "i < n"
  shows "bs_insert (as_bits s) i = Some (as_bits (sl_insert s i))" "slotted n (sl_insert s i)"
proof -
  have i: "word_of_index i < words_for n" using index_in_words[OF assms(2)] by (simp add: word_of_index_def)
  consider "words_for n = 1" | "words_for n > 1" using i by linarith
  then have "bs_insert (as_bits s) i = Some (as_bits (sl_insert s i)) \<and> slotted n (sl_insert s i)"
    using assms(1) i word_of_single[OF assms(2)]
    by cases (simp_all add: slotted_def bs_insert_def as_bits_def sl_as_slice_def sl_insert_def panic_simps)
  then show "bs_insert (as_bits s) i = Some (as_bits (sl_insert s i))" "slotted n (sl_insert s i)" by simp_all
qed

lemma remove_bits:
  assumes "slotted n s" "i < n"
  shows "bs_remove (as_bits s) i = Some (as_bits (sl_remove s i))" "slotted n (sl_remove s i)"
proof -
  have i: "word_of_index i < words_for n" using index_in_words[OF assms(2)] by (simp add: word_of_index_def)
  consider "words_for n = 1" | "words_for n > 1" using i by linarith
  then have "bs_remove (as_bits s) i = Some (as_bits (sl_remove s i)) \<and> slotted n (sl_remove s i)"
    using assms(1) i word_of_single[OF assms(2)]
    by cases (simp_all add: slotted_def bs_remove_def as_bits_def sl_as_slice_def sl_remove_def panic_simps)
  then show "bs_remove (as_bits s) i = Some (as_bits (sl_remove s i))" "slotted n (sl_remove s i)" by simp_all
qed

lemma slots_insert: "slotted n s \<Longrightarrow> i < n \<Longrightarrow> slotted n (sl_insert s i) \<and> lset (sl_insert s i) = insert i (lset s)"
  using insert_bset[OF slotted_bits, of n s i] insert_bits[of n s i] by (simp add: as_bits_def)

lemma slots_remove: "slotted n s \<Longrightarrow> i < n \<Longrightarrow> slotted n (sl_remove s i) \<and> lset (sl_remove s i) = lset s - {i}"
  using remove_bset[OF slotted_bits, of n s i] remove_bits[of n s i] by (simp add: as_bits_def)

lemma slots_contains:
  assumes "slotted n s" "i < n"
  shows "sl_contains s i \<longleftrightarrow> i \<in> lset s"
proof -
  have i: "word_of_index i < words_for n" using index_in_words[OF assms(2)] by (simp add: word_of_index_def)
  consider "words_for n = 1" | "words_for n > 1" using i by linarith
  then have "sl_contains s i \<longleftrightarrow> bs_contains (as_bits s) i"
    using assms(1) i word_of_single[OF assms(2)]
    by cases (simp_all add: slotted_def bs_contains_def as_bits_def sl_as_slice_def sl_contains_def panic_simps)
  then show ?thesis by (simp add: contains_bset as_bits_def)
qed

section \<open>A matrix of live sets is a bit matrix\<close>

definition as_matrix :: "nat \<Rightarrow> slot_live_matrix \<Rightarrow> dense_bit_matrix" where
  "as_matrix rows m = \<lparr>bm_words_per_row = slm_words_per_set m, bm_rows = rows, bm_data = slm_words m\<rparr>"

definition live_shaped :: "nat \<Rightarrow> nat \<Rightarrow> slot_live_matrix \<Rightarrow> bool" where
  "live_shaped rows n m \<longleftrightarrow> shaped rows n (as_matrix rows m)"

definition live_row :: "slot_live_matrix \<Rightarrow> nat \<Rightarrow> nat set" where
  "live_row m i = mrow (as_matrix 0 m) i"

lemma live_row_rows: "mrow (as_matrix rows m) i = live_row m i"
  by (simp add: live_row_def as_matrix_def row_words_def)

lemma live_new: "live_shaped rows n (slm_new rows n)" "live_row (slm_new rows n) i = {}"
proof -
  have eq: "as_matrix rows (slm_new rows n) = bm_zeros rows n" by (simp add: as_matrix_def slm_new_def bm_zeros_def Let_def)
  show "live_shaped rows n (slm_new rows n)" by (simp add: live_shaped_def eq)
  show "live_row (slm_new rows n) i = {}" using mrow_zeros[of rows n i] by (simp flip: eq add: live_row_rows)
qed

lemma live_set:
  assumes "live_shaped rows n m" "i < rows"
  shows "\<exists>ws. slm_set m i = Some ws \<and> length ws = words_for n \<and> members ws = live_row m i"
  using row_shaped[OF assms(1)[unfolded live_shaped_def] assms(2)] live_row_rows[of rows m i]
  by (simp add: slm_set_def bm_row_def as_matrix_def)

lemma live_replace:
  assumes "live_shaped rows n m" "i < rows" "slotted n s"
  shows "\<exists>m'. slm_replace_if_changed m i s = Some (live_row m i \<noteq> lset s, m') \<and> live_shaped rows n m'
    \<and> live_row m' i = lset s \<and> (\<forall>r < rows. r \<noteq> i \<longrightarrow> live_row m' r = live_row m r)"
proof -
  let ?M = "as_matrix rows m"
  have bm: "bm_replace_row_if_changed ?M i (sl_as_slice s)
      = map_option (map_prod id (as_matrix rows)) (slm_replace_if_changed m i s)"
    unfolding bm_replace_row_if_changed_def slm_replace_if_changed_def bm_row_def slm_set_def bm_write_row_def as_matrix_def
    by (cases "slice_opt (slm_words m) (i * slm_words_per_set m) (slm_words_per_set m)";
        cases "write_slice (slm_words m) (i * slm_words_per_set m) (slm_words_per_set m) (sl_as_slice s)") auto
  from matrix_replace[OF assms(1)[unfolded live_shaped_def] assms(2) slotted_length[OF assms(3)]] obtain x where x:
    "bm_replace_row_if_changed ?M i (sl_as_slice s) = Some (mrow ?M i \<noteq> lset s, x)" "shaped rows n x"
    "row_words x i = sl_as_slice s" "\<forall>r < rows. r \<noteq> i \<longrightarrow> row_words x r = row_words ?M r" by blast
  then obtain m' where m': "slm_replace_if_changed m i s = Some (mrow ?M i \<noteq> lset s, m')" "x = as_matrix rows m'"
    unfolding bm by (auto simp: map_option_case split: option.splits)
  have "live_row m' i = lset s" "\<forall>r < rows. r \<noteq> i \<longrightarrow> live_row m' r = live_row m r"
    unfolding live_row_rows[symmetric, where rows = rows] m'(2)[symmetric] using x(3,4) by simp_all
  then show ?thesis using m'(1) x(2) unfolding m'(2) live_row_rows live_shaped_def by blast
qed

end
