(* ===== verification/Liveness_Events.thy ===== *)
theory Liveness_Events
  imports Future_Reads Slot_Sets "HOL-Library.Product_Lexorder"
begin

text \<open>
  Model of what the backward liveness pass of \<open>crates/shucked-semantic/src/dataflow/unused.rs\<close> runs on: the
  slots of the names that matter, the slots that each called scope reads, and the events of the blocks in
  the order of the text.  The lemmas: each of the three is built, and is exactly what it stands for.
\<close>

section \<open>Slots\<close>

record unused_assignment_slots =
  us_binding_slots :: "nat option list"
  us_slots_for_name :: "nat option list"
  us_slot_count :: nat

definition is_function_or_import :: "binding \<Rightarrow> bool" where
  "is_function_or_import b \<longleftrightarrow> (case b_kind b of FunctionDefinition \<Rightarrow> True | Imported \<Rightarrow> True | _ \<Rightarrow> False)"

definition give_slot ::
  "nat list \<Rightarrow> dense_bit_set \<Rightarrow> binding \<Rightarrow> nat option list \<times> nat \<Rightarrow> (nat option list \<times> nat) option" where
  "give_slot binding_name_ids used b = (\<lambda>(slots_for_name, slot_count).
     if bs_contains used (b_id b) \<or> is_function_or_import b then Some (slots_for_name, slot_count)
     else do {
       name \<leftarrow> nth_opt binding_name_ids (b_id b);
       slot \<leftarrow> nth_opt slots_for_name name;
       case slot of
         Some _ \<Rightarrow> Some (slots_for_name, slot_count)
       | None \<Rightarrow> do {
           slots_for_name \<leftarrow> update_opt slots_for_name name (Some slot_count);
           Some (slots_for_name, slot_count + 1) } })"

definition us_new :: "nat list \<Rightarrow> nat \<Rightarrow> binding list \<Rightarrow> dense_bit_set \<Rightarrow> unused_assignment_slots option" where
  "us_new binding_name_ids name_count bindings used = do {
     (slots_for_name, slot_count) \<leftarrow> fold_opt (give_slot binding_name_ids used) bindings (replicate name_count None, 0);
     binding_slots \<leftarrow> map_opt (nth_opt slots_for_name) binding_name_ids;
     Some \<lparr>us_binding_slots = binding_slots, us_slots_for_name = slots_for_name, us_slot_count = slot_count\<rparr> }"

text \<open>The outer option is the panic.\<close>

definition slot_for_name :: "unused_assignment_slots \<Rightarrow> nat \<Rightarrow> nat option option" where
  "slot_for_name us name = nth_opt (us_slots_for_name us) name"

definition slot_for_binding :: "unused_assignment_slots \<Rightarrow> binding_id \<Rightarrow> nat option option" where
  "slot_for_binding us i = nth_opt (us_binding_slots us) i"

section \<open>Events\<close>

record unused_assignment_analysis_options =
  treat_indirect_expansion_targets_as_used :: bool
  report_unreachable_assignments :: bool

datatype unused_assignment_event_kind =
    EvReference reference_id | EvSyntheticRead nat | EvBinding binding_id | EvCall scope_id | EvFunctionDefinition scope_id

record unused_assignment_event =
  ue_offset :: nat
  ue_order :: nat
  ue_kind :: unused_assignment_event_kind

type_synonym block_events = "unused_assignment_event list list"

definition push_event :: "block_id \<Rightarrow> unused_assignment_event \<Rightarrow> block_events \<Rightarrow> block_events option" where
  "push_event block event events = do { es \<leftarrow> nth_opt events block; update_opt events block (es @ [event]) }"

definition push_reference_event :: "dataflow_context \<Rightarrow> block_id \<Rightarrow> reference_id \<Rightarrow> block_events \<Rightarrow> block_events option" where
  "push_reference_event ctx block i events = do {
     reference \<leftarrow> nth_opt (dc_references ctx) i;
     push_event block \<lparr>ue_offset = start_offset (ref_span reference), ue_order = 0, ue_kind = EvReference i\<rparr> events }"

definition push_binding_event :: "dataflow_context \<Rightarrow> block_id \<Rightarrow> binding_id \<Rightarrow> block_events \<Rightarrow> block_events option" where
  "push_binding_event ctx block i events = do {
     b \<leftarrow> nth_opt (dc_bindings ctx) i;
     push_event block \<lparr>ue_offset = start_offset (b_span b), ue_order = 1, ue_kind = EvBinding i\<rparr> events }"

definition push_synthetic_event ::
  "control_flow_graph \<Rightarrow> nat \<times> synthetic_read \<Rightarrow> block_events \<Rightarrow> block_events option" where
  "push_synthetic_event cfg = (\<lambda>(i, read) events.
     (let push = (\<lambda>block. push_event block
            \<lparr>ue_offset = start_offset (sr_span read), ue_order = 0, ue_kind = EvSyntheticRead i\<rparr>)
      in case command_block_for_span cfg (sr_span read) of
           Some block \<Rightarrow> push block events
         | None \<Rightarrow> (case scope_exits cfg (sr_scope read) of
             None \<Rightarrow> Some events
           | Some exits \<Rightarrow> fold_opt push exits events)))"

definition push_call_event :: "control_flow_graph \<Rightarrow> resolved_call_site \<Rightarrow> block_events \<Rightarrow> block_events option" where
  "push_call_event cfg call events =
     (case command_block_for_span cfg (rcs_span call) of
        None \<Rightarrow> Some events
      | Some block \<Rightarrow> push_event block
          \<lparr>ue_offset = rcs_offset call, ue_order = 0, ue_kind = EvCall (rcs_callee_scope call)\<rparr> events)"

definition push_function_event ::
  "dataflow_context \<Rightarrow> exact_variable_dataflow \<Rightarrow> binding_id \<times> scope_id \<Rightarrow> block_events \<Rightarrow> block_events option" where
  "push_function_event ctx ex = (\<lambda>(i, scope) events. do {
     block \<leftarrow> nth_opt (ex_binding_blocks ex) i;
     case block of
       None \<Rightarrow> Some events
     | Some block \<Rightarrow> do {
         b \<leftarrow> nth_opt (dc_bindings ctx) i;
         push_event block \<lparr>ue_offset = start_offset (b_span b), ue_order = 0, ue_kind = EvFunctionDefinition scope\<rparr> events } })"

definition build_unused_assignment_events ::
  "dataflow_context \<Rightarrow> exact_variable_dataflow \<Rightarrow> scope_read_plan list \<Rightarrow> block_events option" where
  "build_unused_assignment_events ctx ex plans = do {
     let cfg = dc_cfg ctx;
     events \<leftarrow> fold_opt (\<lambda>block events. do {
         events \<leftarrow> fold_opt (push_reference_event ctx (bb_id block)) (bb_references block) events;
         fold_opt (push_binding_event ctx (bb_id block)) (bb_bindings block) events })
       (cfg_blocks cfg) (map (\<lambda>_. []) (cfg_blocks cfg));
     events \<leftarrow> fold_opt (push_synthetic_event cfg) (List.enumerate 0 (dc_synthetic_reads ctx)) events;
     events \<leftarrow> fold_opt (\<lambda>plan. fold_opt (push_call_event cfg) (srp_calls plan)) plans events;
     events \<leftarrow> fold_opt (push_function_event ctx ex) (dc_function_body_scopes ctx) events;
     Some (map (sort_key (\<lambda>event. (ue_offset event, ue_order event))) events) }"

section \<open>The reads of the calls in slots\<close>

definition slots_for_compact ::
  "nat list \<Rightarrow> bound_name_space \<Rightarrow> unused_assignment_slots \<Rightarrow> nat option list option" where
  "slots_for_compact binding_name_ids space us =
     fold_opt (\<lambda>name slot_for_compact. do {
         compact \<leftarrow> bn_get space name;
         slot \<leftarrow> slot_for_name us name;
         case (compact, slot) of
           (Some compact, Some slot) \<Rightarrow> update_opt slot_for_compact compact (Some slot)
         | _ \<Rightarrow> Some slot_for_compact })
       binding_name_ids (replicate (bn_len space) None)"

definition mask_row ::
  "dense_bit_matrix \<Rightarrow> nat option list \<Rightarrow> nat \<Rightarrow> dense_bit_matrix \<Rightarrow> dense_bit_matrix option" where
  "mask_row transitive slot_for_compact scope masks = do {
     row \<leftarrow> bm_row transitive scope;
     fold_opt (\<lambda>compact masks. do {
         slot \<leftarrow> nth_opt slot_for_compact compact;
         case slot of None \<Rightarrow> Some masks | Some i \<Rightarrow> bm_insert masks scope i })
       (iter_collect (iter_over_words row)) masks }"

definition call_read_slot_masks ::
  "scope_read_plan list \<Rightarrow> dense_bit_matrix \<Rightarrow> nat option list \<Rightarrow> nat \<Rightarrow> dense_bit_matrix option" where
  "call_read_slot_masks plans transitive slot_for_compact slot_count =
     fold_opt (mask_row transitive slot_for_compact) [0..<length plans] (bm_zeros (length plans) slot_count)"

section \<open>The slots of names\<close>

definition undecided :: "dense_bit_set \<Rightarrow> binding \<Rightarrow> bool" where
  "undecided used b \<longleftrightarrow> b_id b \<notin> bset used \<and> \<not> is_function_or_import b"

definition slot_of :: "exact_variable_dataflow \<Rightarrow> unused_assignment_slots \<Rightarrow> string \<Rightarrow> nat option" where
  "slot_of ex us x = (case nt_get (ex_names ex) x of None \<Rightarrow> None | Some n \<Rightarrow> us_slots_for_name us ! n)"

definition slots_ok ::
  "dataflow_context \<Rightarrow> exact_variable_dataflow \<Rightarrow> dense_bit_set \<Rightarrow> unused_assignment_slots \<Rightarrow> bool" where
  "slots_ok ctx ex used us \<longleftrightarrow>
     (\<forall>x i. slot_of ex us x = Some i \<longrightarrow> i < us_slot_count us)
     \<and> (\<forall>x y i. slot_of ex us x = Some i \<longrightarrow> slot_of ex us y = Some i \<longrightarrow> x = y)
     \<and> (\<forall>x. slot_of ex us x \<noteq> None \<longleftrightarrow> (\<exists>b \<in> set (dc_bindings ctx). undecided used b \<and> b_name b = x))
     \<and> (\<forall>x n. nt_get (ex_names ex) x = Some n \<longrightarrow> slot_for_name us n = Some (slot_of ex us x))
     \<and> (\<forall>i < length (dc_bindings ctx). slot_for_binding us i = Some (slot_of ex us (b_name (dc_bindings ctx ! i))))"

lemma slots_okD:
  assumes "slots_ok ctx ex used us"
  shows "slot_of ex us x = Some i \<Longrightarrow> i < us_slot_count us"
    "slot_of ex us x = Some i \<Longrightarrow> slot_of ex us y = Some i \<Longrightarrow> x = y"
    "slot_of ex us x \<noteq> None \<longleftrightarrow> (\<exists>b \<in> set (dc_bindings ctx). undecided used b \<and> b_name b = x)"
    "nt_get (ex_names ex) x = Some n \<Longrightarrow> slot_for_name us n = Some (slot_of ex us x)"
    "i < length (dc_bindings ctx) \<Longrightarrow> slot_for_binding us i = Some (slot_of ex us (b_name (dc_bindings ctx ! i)))"
  using assms unfolding slots_ok_def by blast+

text \<open>Giving out slots is numbering the names of the undecided bindings.\<close>

lemma give_slots:
  assumes "\<And>b. b \<in> set bs \<Longrightarrow> b_id b < length ids"
  shows "fold_opt (give_slot ids used) bs (bn_compact_by_name space, bn_len space) =
    map_option (\<lambda>space. (bn_compact_by_name space, bn_len space))
      (fold_opt (\<lambda>name space. do {
         compact \<leftarrow> nth_opt (bn_compact_by_name space) name;
         case compact of
           Some _ \<Rightarrow> Some space
         | None \<Rightarrow> do {
             table \<leftarrow> update_opt (bn_compact_by_name space) name (Some (bn_len space));
             Some \<lparr>bn_compact_by_name = table, bn_len = Suc (bn_len space)\<rparr> } })
       (map (\<lambda>b. ids ! b_id b) (filter (undecided used) bs)) space)"
  using assms
proof (induction bs arbitrary: space)
  case (Cons b bs)
  have IH: "fold_opt (give_slot ids used) bs (t, n) = map_option (\<lambda>space. (bn_compact_by_name space, bn_len space))
      (fold_opt (\<lambda>name space. do {
         compact \<leftarrow> nth_opt (bn_compact_by_name space) name;
         case compact of
           Some _ \<Rightarrow> Some space
         | None \<Rightarrow> do {
             table \<leftarrow> update_opt (bn_compact_by_name space) name (Some (bn_len space));
             Some \<lparr>bn_compact_by_name = table, bn_len = Suc (bn_len space)\<rparr> } })
       (map (\<lambda>b. ids ! b_id b) (filter (undecided used) bs)) \<lparr>bn_compact_by_name = t, bn_len = n\<rparr>)" for t n
    using Cons.IH[of "\<lparr>bn_compact_by_name = t, bn_len = n\<rparr>"] Cons.prems by simp
  have id: "nth_opt ids (b_id b) = Some (ids ! b_id b)" using Cons.prems[of b] by (simp add: panic_simps)
  obtain t n where space: "space = \<lparr>bn_compact_by_name = t, bn_len = n\<rparr>" by (cases space)
  show ?case
  proof (cases "undecided used b")
    case False
    then have "give_slot ids used b (t, n) = Some (t, n)" by (auto simp: give_slot_def undecided_def contains_bset)
    then show ?thesis using False IH unfolding space by simp
  next
    case True
    then have "\<not> (bs_contains used (b_id b) \<or> is_function_or_import b)" by (simp add: undecided_def contains_bset)
    then have step: "give_slot ids used b (t, n) = do {
       slot \<leftarrow> nth_opt t (ids ! b_id b);
       case slot of
         Some _ \<Rightarrow> Some (t, n)
       | None \<Rightarrow> do { t \<leftarrow> update_opt t (ids ! b_id b) (Some n); Some (t, n + 1) } }"
      unfolding give_slot_def prod.case id Option.bind_lunit by (simp only: if_False)
    show ?thesis
    proof (cases "ids ! b_id b < length t")
      case inside: True
      then show ?thesis using True IH unfolding space by (simp add: step panic_simps split: option.split)
    next
      case False
      then have out: "nth_opt t (ids ! b_id b) = None" by (simp add: nth_opt_def)
      show ?thesis using True unfolding space by (simp add: step out)
    qed
  qed
qed simp

lemma map_opt_nth: "\<forall>i \<in> set is. i < length xs \<Longrightarrow> map_opt (nth_opt xs) is = Some (map (\<lambda>i. xs ! i) is)"
  by (induction "is") (simp_all add: panic_simps)

text \<open>What the analyses know of the tables of names.\<close>

lemma binding_names:
  assumes "exact_ok ctx ex" "context_ok ctx"
  shows "dbd_binding_name_ids (ex_binding_data ex) = name_ids (ex_names ex) (dc_bindings ctx)"
    "i < length (dc_bindings ctx) \<Longrightarrow> b_id (dc_bindings ctx ! i) = i"
    "i < length (dc_bindings ctx) \<Longrightarrow>
      nt_get (ex_names ex) (b_name (dc_bindings ctx ! i)) = Some (dbd_binding_name_ids (ex_binding_data ex) ! i)"
    "length (dbd_binding_name_ids (ex_binding_data ex)) = length (dc_bindings ctx)"
    "set (dbd_binding_name_ids (ex_binding_data ex)) \<subseteq> {..<nt_len (ex_names ex)}"
proof -
  have names: "names_ok (ex_names ex)" and d: "binding_data_ok (ex_names ex) (dc_bindings ctx) (ex_binding_data ex)"
    using assms(1) by (auto simp: exact_ok_def dataflow_input_def)
  show ids: "dbd_binding_name_ids (ex_binding_data ex) = name_ids (ex_names ex) (dc_bindings ctx)"
    using d by (auto simp: binding_data_ok_def)
  have known: "\<forall>b \<in> set (dc_bindings ctx). nt_get (ex_names ex) (b_name b) \<noteq> None" using d by (auto simp: binding_data_ok_def)
  show len: "length (dbd_binding_name_ids (ex_binding_data ex)) = length (dc_bindings ctx)" unfolding ids by simp
  show "b_id (dc_bindings ctx ! i) = i" if "i < length (dc_bindings ctx)"
    using assms(2) by (intro map_index[OF _ that]) (simp add: context_ok_def bindings_indexed_def)
  show nth: "nt_get (ex_names ex) (b_name (dc_bindings ctx ! i)) = Some (dbd_binding_name_ids (ex_binding_data ex) ! i)"
    if "i < length (dc_bindings ctx)" for i
    using known that unfolding ids by (auto simp: all_set_conv_all_nth)
  show "set (dbd_binding_name_ids (ex_binding_data ex)) \<subseteq> {..<nt_len (ex_names ex)}"
  proof
    fix n assume "n \<in> set (dbd_binding_name_ids (ex_binding_data ex))"
    then obtain j where "j < length (dc_bindings ctx)" "n = dbd_binding_name_ids (ex_binding_data ex) ! j"
      unfolding in_set_conv_nth len by blast
    then show "n \<in> {..<nt_len (ex_names ex)}" using nt_get_bound[OF names nth] by simp
  qed
qed

lemma slots_given:
  assumes "exact_ok ctx ex" "context_ok ctx"
  shows "\<exists>us. us_new (dbd_binding_name_ids (ex_binding_data ex)) (nt_len (ex_names ex)) (dc_bindings ctx) used = Some us
    \<and> slots_ok ctx ex used us"
proof -
  let ?ids = "dbd_binding_name_ids (ex_binding_data ex)" and ?bs = "dc_bindings ctx" and ?m = "nt_len (ex_names ex)"
  note names = binding_names[OF assms]
  have ok: "names_ok (ex_names ex)" using assms(1) by (simp add: exact_ok_def)
  let ?cand = "map (\<lambda>b. ?ids ! b_id b) (filter (undecided used) ?bs)"
  have of_binding: "b_id b < length ?ids \<and> nt_get (ex_names ex) (b_name b) = Some (?ids ! b_id b)" if "b \<in> set ?bs" for b
    using that names(2,3,4) by (auto simp: in_set_conv_nth)
  have "set ?cand \<subseteq> {..<?m}" using of_binding nt_get_bound[OF ok] by auto
  from bn_new_ok[OF this] obtain space where space: "bn_new ?cand ?m = Some space" "space_ok ?cand ?m space" by blast
  note sp = space_okD[OF space(2)]
  let ?us = "\<lparr>us_binding_slots = map (\<lambda>n. bn_compact_by_name space ! n) ?ids,
    us_slots_for_name = bn_compact_by_name space, us_slot_count = bn_len space\<rparr>"
  have fold: "fold_opt (give_slot ?ids used) ?bs (replicate ?m None, 0) = Some (bn_compact_by_name space, bn_len space)"
    using give_slots[of ?bs ?ids used "\<lparr>bn_compact_by_name = replicate ?m None, bn_len = 0\<rparr>"] of_binding space(1)
    unfolding bn_new_def bound_name_space.select_convs by auto
  have "map_opt (nth_opt (bn_compact_by_name space)) ?ids = Some (map (\<lambda>n. bn_compact_by_name space ! n) ?ids)"
    using names(5) sp(1) by (intro map_opt_nth) auto
  then have new: "us_new ?ids ?m ?bs used = Some ?us" by (simp add: us_new_def fold)
  have num: "\<exists>n < ?m. nt_get (ex_names ex) x = Some n \<and> bn_compact_by_name space ! n = Some i" if "slot_of ex ?us x = Some i" for x i
    using that nt_get_bound[OF ok] by (cases "nt_get (ex_names ex) x") (auto simp: slot_of_def)
  have get: "slot_of ex ?us x = bn_compact_by_name space ! n" if "nt_get (ex_names ex) x = Some n" for x n
    using that by (simp add: slot_of_def)
  have "slots_ok ctx ex used ?us"
    unfolding slots_ok_def
  proof (intro conjI allI impI)
    fix x i assume i: "slot_of ex ?us x = Some i"
    show "i < us_slot_count ?us" using num[OF i] sp(3) by auto
    fix y assume y: "slot_of ex ?us y = Some i"
    show "x = y" using num[OF i] num[OF y] sp(4) nt_get_inj[OF ok] by blast
  next
    fix x
    show "slot_of ex ?us x \<noteq> None \<longleftrightarrow> (\<exists>b \<in> set ?bs. undecided used b \<and> b_name b = x)"
    proof
      assume "slot_of ex ?us x \<noteq> None"
      then obtain i where "slot_of ex ?us x = Some i" by blast
      from num[OF this] obtain n where n: "n < ?m" "nt_get (ex_names ex) x = Some n" "bn_compact_by_name space ! n = Some i" by blast
      then have "n \<in> set ?cand" using sp(2)[OF n(1)] by simp
      then obtain b where b: "b \<in> set ?bs" "undecided used b" "n = ?ids ! b_id b" by auto
      then have "b_name b = x" using nt_get_inj[OF ok] of_binding[OF b(1)] n(2) by blast
      with b show "\<exists>b \<in> set ?bs. undecided used b \<and> b_name b = x" by blast
    next
      assume "\<exists>b \<in> set ?bs. undecided used b \<and> b_name b = x"
      then obtain b where b: "b \<in> set ?bs" "undecided used b" "b_name b = x" by blast
      let ?n = "?ids ! b_id b"
      have n: "nt_get (ex_names ex) x = Some ?n" using of_binding[OF b(1)] b(3) by simp
      have "?n \<in> set ?cand" using b by auto
      then show "slot_of ex ?us x \<noteq> None" using sp(2)[OF nt_get_bound[OF ok n]] get[OF n] by simp
    qed
  next
    fix x n assume n: "nt_get (ex_names ex) x = Some n"
    show "slot_for_name ?us n = Some (slot_of ex ?us x)"
      using nt_get_bound[OF ok n] sp(1) by (simp add: slot_for_name_def get[OF n] panic_simps)
  next
    fix i assume i: "i < length ?bs"
    show "slot_for_binding ?us i = Some (slot_of ex ?us (b_name (?bs ! i)))"
      using i names(4) by (simp add: slot_for_binding_def get[OF names(3)[OF i]] panic_simps)
  qed
  with new show ?thesis by blast
qed

section \<open>The masks of the calls\<close>

definition slot_row :: "exact_variable_dataflow \<Rightarrow> unused_assignment_slots \<Rightarrow> (string \<Rightarrow> bool) \<Rightarrow> nat set" where
  "slot_row ex us P = {i. \<exists>x. slot_of ex us x = Some i \<and> P x}"

lemma in_slot_row:
  assumes "slots_ok ctx ex used us" "slot_of ex us x = Some i"
  shows "i \<in> slot_row ex us P \<longleftrightarrow> P x"
proof
  assume "i \<in> slot_row ex us P"
  then obtain y where y: "slot_of ex us y = Some i" "P y" by (auto simp: slot_row_def)
  from slots_okD(2)[OF assms y(1)] y(2) show "P x" by simp
qed (use assms(2) in \<open>auto simp: slot_row_def\<close>)

lemma slot_row_bound: "slots_ok ctx ex used us \<Longrightarrow> slot_row ex us P \<subseteq> {..<us_slot_count us}"
  by (auto simp: slot_row_def dest: slots_okD(1))

lemma slots_for_compact_ok:
  assumes "space_fits ctx ex space" "context_ok ctx" "slots_ok ctx ex used us"
  shows "\<exists>t. slots_for_compact (dbd_binding_name_ids (ex_binding_data ex)) space us = Some t \<and> length t = bn_len space
    \<and> (\<forall>x c. compact_of ex space x = Some c \<longrightarrow> t ! c = slot_of ex us x)"
proof -
  let ?ids = "dbd_binding_name_ids (ex_binding_data ex)" and ?bs = "dc_bindings ctx"
  let ?f = "\<lambda>name slot_for_compact. do {
         compact \<leftarrow> bn_get space name;
         slot \<leftarrow> slot_for_name us name;
         case (compact, slot) of
           (Some compact, Some slot) \<Rightarrow> update_opt slot_for_compact compact (Some slot)
         | _ \<Rightarrow> Some slot_for_compact }"
  have ex: "exact_ok ctx ex" and sp: "space_ok ?ids (nt_len (ex_names ex)) space" using assms(1) by (simp_all add: space_fits_def)
  note names = binding_names[OF ex assms(2)]
  have ok: "names_ok (ex_names ex)" using ex by (simp add: exact_ok_def)
  have "\<exists>t. fold_opt ?f (map (nth ?ids) [0..<k]) (replicate (bn_len space) None) = Some t \<and> length t = bn_len space
      \<and> (\<forall>x c. compact_of ex space x = Some c \<longrightarrow> t ! c = (if \<exists>i < k. b_name (?bs ! i) = x then slot_of ex us x else None))"
    if "k \<le> length ?bs" for k
    using that
  proof (induction k)
    case 0
    have "replicate (bn_len space) None ! c = None" if "compact_of ex space x = Some c" for x c
      using compact_of_facts(1)[OF assms(1) that] by simp
    then show ?case by auto
  next
    case (Suc k)
    then obtain t where t: "fold_opt ?f (map (nth ?ids) [0..<k]) (replicate (bn_len space) None) = Some t" "length t = bn_len space"
      "\<And>x c. compact_of ex space x = Some c \<Longrightarrow> t ! c = (if \<exists>i < k. b_name (?bs ! i) = x then slot_of ex us x else None)"
      by auto
    let ?x = "b_name (?bs ! k)"
    have k: "k < length ?bs" using Suc.prems by simp
    note n = names(3)[OF k]
    have "compact_of ex space ?x \<noteq> None" using compact_of_facts(3)[OF assms(1)] k by simp
    then obtain c where c: "compact_of ex space ?x = Some c" "c < bn_len space" using compact_of_facts(1)[OF assms(1)] by blast
    let ?t = "case slot_of ex us ?x of None \<Rightarrow> t | Some i \<Rightarrow> t[c := Some i]"
    have step: "?f (?ids ! k) t = Some ?t"
      unfolding compact_of_facts(4)[OF assms(1) n] slots_okD(4)[OF assms(3) n] c(1) Option.bind_lunit prod.case option.case
      using c(2) t(2) by (simp add: panic_simps split: option.split)
    have "?t ! d = (if \<exists>i < Suc k. b_name (?bs ! i) = y then slot_of ex us y else None)"
      if y: "compact_of ex space y = Some d" for y d
    proof (cases "y = ?x")
      case True
      then have "d = c" using y c(1) by simp
      with True t(3)[OF y] c(2) t(2) show ?thesis by (auto split: option.split)
    next
      case False
      then have "d \<noteq> c" using compact_of_facts(2)[OF assms(1) y] c(1) by blast
      then have "?t ! d = t ! d" by (simp split: option.split)
      with t(3)[OF y] False show ?thesis by (auto simp: less_Suc_eq)
    qed
    moreover have "length ?t = bn_len space" using t(2) by (simp split: option.split)
    ultimately show ?case using t(1) step by (simp add: fold_opt_append)
  qed
  from this[of "length ?bs"] obtain t where t: "fold_opt ?f (map (nth ?ids) [0..<length ?bs]) (replicate (bn_len space) None) = Some t"
    "length t = bn_len space"
    "\<And>x c. compact_of ex space x = Some c \<Longrightarrow> t ! c = (if \<exists>i < length ?bs. b_name (?bs ! i) = x then slot_of ex us x else None)"
    by auto
  have "map (nth ?ids) [0..<length ?bs] = ?ids" unfolding names(4)[symmetric] by (rule map_nth)
  moreover have "t ! c = slot_of ex us x" if x: "compact_of ex space x = Some c" for x c
  proof (cases "\<exists>i < length ?bs. b_name (?bs ! i) = x")
    case False
    then have "slot_of ex us x = None" using slots_okD(3)[OF assms(3), of x] by (auto simp: in_set_conv_nth)
    with t(3)[OF x] False show ?thesis by simp
  qed (use t(3)[OF x] in simp)
  ultimately show ?thesis using t(1,2) unfolding slots_for_compact_def by auto
qed

lemma insert_slots_row:
  assumes "shaped rows n m" "r < rows" "\<And>c. c \<in> set cs \<Longrightarrow> c < length t \<and> (\<forall>i. t ! c = Some i \<longrightarrow> i < n)"
  shows "\<exists>m'. fold_opt (\<lambda>compact masks. do {
         slot \<leftarrow> nth_opt t compact;
         case slot of None \<Rightarrow> Some masks | Some i \<Rightarrow> bm_insert masks r i }) cs m = Some m' \<and> shaped rows n m'
    \<and> mrow m' r = mrow m r \<union> {i. \<exists>c \<in> set cs. t ! c = Some i} \<and> (\<forall>q < rows. q \<noteq> r \<longrightarrow> mrow m' q = mrow m q)"
  using assms(1,3)
proof (induction cs arbitrary: m)
  case (Cons c cs)
  have c: "c < length t" "\<And>i. t ! c = Some i \<Longrightarrow> i < n" using Cons.prems(2)[of c] by auto
  obtain m1 where m1: "(case t ! c of None \<Rightarrow> Some m | Some i \<Rightarrow> bm_insert m r i) = Some m1" "shaped rows n m1"
    "mrow m1 r = mrow m r \<union> {i. t ! c = Some i}" "\<forall>q < rows. q \<noteq> r \<longrightarrow> mrow m1 q = mrow m q"
  proof (cases "t ! c")
    case None
    then show ?thesis using Cons.prems(1) by (intro that[of m]) auto
  next
    case (Some i)
    from matrix_insert[OF Cons.prems(1) assms(2) c(2)[OF Some]] obtain m1 where
      "bm_insert m r i = Some m1" "shaped rows n m1" "mrow m1 r = insert i (mrow m r)" "\<forall>q < rows. q \<noteq> r \<longrightarrow> mrow m1 q = mrow m q"
      by blast
    then show ?thesis using Some by (intro that[of m1]) auto
  qed
  obtain m2 where "fold_opt (\<lambda>compact masks. do {
         slot \<leftarrow> nth_opt t compact;
         case slot of None \<Rightarrow> Some masks | Some i \<Rightarrow> bm_insert masks r i }) cs m1 = Some m2" "shaped rows n m2"
    "mrow m2 r = mrow m1 r \<union> {i. \<exists>c \<in> set cs. t ! c = Some i}" "\<forall>q < rows. q \<noteq> r \<longrightarrow> mrow m2 q = mrow m1 q"
  proof -
    have "d < length t \<and> (\<forall>i. t ! d = Some i \<longrightarrow> i < n)" if "d \<in> set cs" for d using Cons.prems(2)[of d] that by simp
    then show thesis using Cons.IH[OF m1(2)] that by blast
  qed
  then show ?case using m1 c(1) by (intro exI[of _ m2]) (auto simp: panic_simps)
qed simp

lemma masks_ok:
  assumes "space_fits ctx ex space" "transitive_ok ctx ex space tr" "slots_ok ctx ex used us"
    and "length t = bn_len space" "\<And>x c. compact_of ex space x = Some c \<Longrightarrow> t ! c = slot_of ex us x"
    and "length plans = length (dc_scopes ctx)"
  shows "\<exists>m. call_read_slot_masks plans tr t (us_slot_count us) = Some m
    \<and> shaped (length (dc_scopes ctx)) (us_slot_count us) m
    \<and> (\<forall>s < length (dc_scopes ctx). mrow m s = slot_row ex us (scope_reads ctx s))"
proof -
  let ?n = "length (dc_scopes ctx)" and ?k = "us_slot_count us"
  have "\<exists>m. fold_opt (mask_row tr t) [0..<j] (bm_zeros ?n ?k) = Some m \<and> shaped ?n ?k m
      \<and> (\<forall>s < ?n. mrow m s = (if s < j then slot_row ex us (scope_reads ctx s) else {}))" if "j \<le> ?n" for j
    using that
  proof (induction j)
    case (Suc j)
    then have j: "j < ?n" by simp
    from Suc obtain m where m: "fold_opt (mask_row tr t) [0..<j] (bm_zeros ?n ?k) = Some m" "shaped ?n ?k m"
      "\<And>s. s < ?n \<Longrightarrow> mrow m s = (if s < j then slot_row ex us (scope_reads ctx s) else {})" by auto
    have tr: "shaped ?n (bn_len space) tr" "mrow tr j = names_row ex space (scope_reads ctx j)"
      using assms(2) j by (simp_all add: transitive_ok_def)
    let ?cs = "iter_collect (iter_over_words (row_words tr j))"
    have cs: "set ?cs = names_row ex space (scope_reads ctx j)"
      using members_bounded[of "row_words tr j"] unfolding iter_over_words_eq tr(2)[symmetric] by auto
    have inside: "c < length t \<and> (\<forall>i. t ! c = Some i \<longrightarrow> i < ?k)" if "c \<in> set ?cs" for c
    proof -
      obtain x where x: "compact_of ex space x = Some c" using \<open>c \<in> set ?cs\<close> unfolding cs names_row_def by blast
      show ?thesis using compact_of_facts(1)[OF assms(1) x] assms(4) slots_okD(1)[OF assms(3), of x] unfolding assms(5)[OF x] by simp
    qed
    have slots: "{i. \<exists>c \<in> set ?cs. t ! c = Some i} = slot_row ex us (scope_reads ctx j)"
    proof (rule set_eqI, unfold mem_Collect_eq)
      fix i
      show "(\<exists>c \<in> set ?cs. t ! c = Some i) \<longleftrightarrow> i \<in> slot_row ex us (scope_reads ctx j)"
      proof
        assume "\<exists>c \<in> set ?cs. t ! c = Some i"
        then obtain c x where "t ! c = Some i" "compact_of ex space x = Some c" "scope_reads ctx j x"
          unfolding cs names_row_def by blast
        then show "i \<in> slot_row ex us (scope_reads ctx j)" using assms(5) by (auto simp: slot_row_def)
      next
        assume "i \<in> slot_row ex us (scope_reads ctx j)"
        then obtain x where x: "slot_of ex us x = Some i" "scope_reads ctx j x" by (auto simp: slot_row_def)
        then obtain b where "b \<in> set (dc_bindings ctx)" "b_name b = x" using slots_okD(3)[OF assms(3), of x] by auto
        then obtain c where c: "compact_of ex space x = Some c" using compact_of_facts(3)[OF assms(1)] by blast
        then have "c \<in> set ?cs" using x(2) unfolding cs names_row_def by blast
        with assms(5)[OF c] x(1) show "\<exists>c \<in> set ?cs. t ! c = Some i" by auto
      qed
    qed
    have "\<exists>m'. mask_row tr t j m = Some m' \<and> shaped ?n ?k m' \<and> mrow m' j = mrow m j \<union> slot_row ex us (scope_reads ctx j)
        \<and> (\<forall>q < ?n. q \<noteq> j \<longrightarrow> mrow m' q = mrow m q)"
      using insert_slots_row[OF m(2) j, of ?cs t] inside
      unfolding slots mask_row_def row_shaped(1)[OF tr(1) j] Option.bind_lunit by simp
    then obtain m' where m': "mask_row tr t j m = Some m'" "shaped ?n ?k m'"
      "mrow m' j = mrow m j \<union> slot_row ex us (scope_reads ctx j)" "\<forall>q < ?n. q \<noteq> j \<longrightarrow> mrow m' q = mrow m q"
      by (elim exE conjE) (rule that)
    have "mrow m' s = (if s < Suc j then slot_row ex us (scope_reads ctx s) else {})" if "s < ?n" for s
    proof (cases "s = j")
      case True
      then show ?thesis using m'(3) m(3)[OF j] by simp
    next
      case False
      then show ?thesis using m'(4) m(3)[OF that] that by (simp add: less_Suc_eq)
    qed
    with m(1) m'(1,2) show ?case by (simp add: fold_opt_append)
  qed (simp add: mrow_zeros)
  from this[of ?n] show ?thesis by (auto simp: call_read_slot_masks_def assms(6))
qed

section \<open>The events of a block\<close>

text \<open>The tables that the events index are consistent.\<close>

definition flow_tables_ok :: "dataflow_context \<Rightarrow> bool" where
  "flow_tables_ok ctx \<longleftrightarrow>
     (\<forall>(i, s) \<in> set (dc_function_body_scopes ctx). i < length (dc_bindings ctx) \<and> s < length (dc_scopes ctx))
     \<and> (\<forall>i targets. dc_indirect_targets_by_reference ctx i = Some targets \<longrightarrow> set targets \<subseteq> {..<length (dc_bindings ctx)})"

inductive block_event :: "dataflow_context \<Rightarrow> block_id \<Rightarrow> unused_assignment_event \<Rightarrow> bool" for ctx block where
  event_reference: "i \<in> set (bb_references (cfg_blocks (dc_cfg ctx) ! block)) \<Longrightarrow>
    block_event ctx block \<lparr>ue_offset = start_offset (ref_span (dc_references ctx ! i)), ue_order = 0, ue_kind = EvReference i\<rparr>"
| event_binding: "i \<in> set (bb_bindings (cfg_blocks (dc_cfg ctx) ! block)) \<Longrightarrow>
    block_event ctx block \<lparr>ue_offset = start_offset (b_span (dc_bindings ctx ! i)), ue_order = 1, ue_kind = EvBinding i\<rparr>"
| event_synthetic: "i < length (dc_synthetic_reads ctx) \<Longrightarrow> read = dc_synthetic_reads ctx ! i \<Longrightarrow>
    command_block_for_span (dc_cfg ctx) (sr_span read) = Some block
      \<or> command_block_for_span (dc_cfg ctx) (sr_span read) = None
          \<and> (\<exists>exits. scope_exits (dc_cfg ctx) (sr_scope read) = Some exits \<and> block \<in> set exits) \<Longrightarrow>
    block_event ctx block \<lparr>ue_offset = start_offset (sr_span read), ue_order = 0, ue_kind = EvSyntheticRead i\<rparr>"
| event_call: "call \<in> set (calls_in ctx s) \<Longrightarrow> command_block_for_span (dc_cfg ctx) (cs_span (rv_site call)) = Some block \<Longrightarrow>
    block_event ctx block \<lparr>ue_offset = start_offset (cs_span (rv_site call)), ue_order = 0,
      ue_kind = EvCall (rv_callee_scope call)\<rparr>"
| event_function: "(i, s) \<in> set (dc_function_body_scopes ctx) \<Longrightarrow> block_with bb_bindings (dc_cfg ctx) i = Some block \<Longrightarrow>
    block_event ctx block \<lparr>ue_offset = start_offset (b_span (dc_bindings ctx ! i)), ue_order = 0, ue_kind = EvFunctionDefinition s\<rparr>"

inductive_cases block_event_cases: "block_event ctx block event"

definition events_ok :: "dataflow_context \<Rightarrow> block_events \<Rightarrow> bool" where
  "events_ok ctx events \<longleftrightarrow> length events = length (cfg_blocks (dc_cfg ctx))
     \<and> (\<forall>b < length events. set (events ! b) = {e. block_event ctx b e}
          \<and> sorted (map (\<lambda>e. (ue_offset e, ue_order e)) (events ! b)))"

text \<open>A step that adds the events \<open>A b\<close> to each block \<open>b\<close>.\<close>

definition pushes :: "nat \<Rightarrow> (block_events \<Rightarrow> block_events option) \<Rightarrow> (block_id \<Rightarrow> unused_assignment_event set) \<Rightarrow> bool" where
  "pushes n f A \<longleftrightarrow> (\<forall>es. length es = n \<longrightarrow> (\<exists>es'. f es = Some es' \<and> length es' = n
     \<and> (\<forall>b < n. set (es' ! b) = set (es ! b) \<union> A b)))"

lemma pushesD:
  assumes "pushes n f A" "length es = n"
  shows "\<exists>es'. f es = Some es' \<and> length es' = n \<and> (\<forall>b < n. set (es' ! b) = set (es ! b) \<union> A b)"
  using assms unfolding pushes_def by (elim allE impE) simp_all

lemma pushes_event: "b < n \<Longrightarrow> pushes n (push_event b e) (\<lambda>q. if q = b then {e} else {})"
  by (auto simp: pushes_def push_event_def panic_simps nth_list_update)

lemma pushes_nothing: "pushes n Some (\<lambda>_. {})"
  by (simp add: pushes_def)

lemma pushes_then:
  assumes "pushes n f A" "pushes n g B"
  shows "pushes n (\<lambda>es. Option.bind (f es) g) (\<lambda>b. A b \<union> B b)"
  unfolding pushes_def
proof (intro allI impI)
  fix es :: block_events assume es: "length es = n"
  with assms(1) obtain es1 where 1: "f es = Some es1" "length es1 = n" "\<forall>b < n. set (es1 ! b) = set (es ! b) \<union> A b"
    unfolding pushes_def by blast
  with assms(2) obtain es2 where "g es1 = Some es2" "length es2 = n" "\<forall>b < n. set (es2 ! b) = set (es1 ! b) \<union> B b"
    unfolding pushes_def by blast
  with 1 show "\<exists>es'. Option.bind (f es) g = Some es' \<and> length es' = n \<and> (\<forall>b < n. set (es' ! b) = set (es ! b) \<union> (A b \<union> B b))"
    by (simp add: Un_assoc)
qed

lemma pushes_all: "(\<And>x. x \<in> set xs \<Longrightarrow> pushes n (f x) (A x)) \<Longrightarrow> pushes n (fold_opt f xs) (\<lambda>b. \<Union>x \<in> set xs. A x b)"
proof (induction xs)
  case Nil
  then show ?case by (simp add: pushes_def)
next
  case (Cons x xs)
  have "pushes n (fold_opt f xs) (\<lambda>b. \<Union>x \<in> set xs. A x b)" using Cons by simp
  from pushes_then[OF Cons.prems[of x] this] show ?case by simp
qed

lemma pushes_cong: "pushes n f A \<Longrightarrow> (\<And>b. b < n \<Longrightarrow> A b = B b) \<Longrightarrow> pushes n f B"
  unfolding pushes_def by simp

lemma command_block_within:
  assumes "cfg_ok cfg" "command_block_for_span cfg s = Some b"
  shows "b < length (cfg_blocks cfg)"
proof -
  have "b \<in> set (block_ids_for_span cfg s)"
    using assms(2) by (auto simp: command_block_for_span_def split: list.splits if_splits)
  then have "b \<in> set (map bb_id (cfg_blocks cfg))"
    unfolding block_ids_for_span_def cfg_okD(7)[OF assms(1)] blocks_for_key_def by auto
  then show ?thesis unfolding cfg_okD(3)[OF assms(1)] by simp
qed

lemma scope_exits_within:
  assumes "cfg_ok cfg" "scope_exits cfg s = Some xs" "b \<in> set xs"
  shows "b < length (cfg_blocks cfg)"
proof -
  have "within (length (cfg_blocks cfg)) xs"
    using assms(1,2) unfolding cfg_ok_def Let_def scope_exits_def by blast
  then show ?thesis using assms(3) by (auto simp: within_def list_all_iff)
qed

lemma synthetic_pushes:
  assumes "cfg_ok cfg"
  shows "pushes (length (cfg_blocks cfg)) (push_synthetic_event cfg (i, read))
    (\<lambda>b. {e. e = \<lparr>ue_offset = start_offset (sr_span read), ue_order = 0, ue_kind = EvSyntheticRead i\<rparr>
       \<and> (command_block_for_span cfg (sr_span read) = Some b \<or> command_block_for_span cfg (sr_span read) = None
          \<and> (\<exists>exits. scope_exits cfg (sr_scope read) = Some exits \<and> b \<in> set exits))})"
proof (cases "command_block_for_span cfg (sr_span read)")
  case (Some block)
  from pushes_event[OF command_block_within[OF assms Some]] show ?thesis
    unfolding push_synthetic_event_def prod.case Let_def Some option.case by (rule pushes_cong) auto
next
  case none: None
  show ?thesis
  proof (cases "scope_exits cfg (sr_scope read)")
    case None
    from pushes_nothing show ?thesis
      unfolding push_synthetic_event_def prod.case Let_def none None option.case by (rule pushes_cong) simp
  next
    case (Some exits)
    have "pushes (length (cfg_blocks cfg)) (push_event b e) (\<lambda>q. if q = b then {e} else {})" if "b \<in> set exits" for b e
      by (rule pushes_event[OF scope_exits_within[OF assms Some that]])
    from pushes_all[OF this] show ?thesis
      unfolding push_synthetic_event_def prod.case Let_def none Some option.case by (rule pushes_cong) auto
  qed
qed

definition reference_event :: "dataflow_context \<Rightarrow> reference_id \<Rightarrow> unused_assignment_event" where
  "reference_event ctx i =
     \<lparr>ue_offset = start_offset (ref_span (dc_references ctx ! i)), ue_order = 0, ue_kind = EvReference i\<rparr>"

definition binding_event :: "dataflow_context \<Rightarrow> binding_id \<Rightarrow> unused_assignment_event" where
  "binding_event ctx i =
     \<lparr>ue_offset = start_offset (b_span (dc_bindings ctx ! i)), ue_order = 1, ue_kind = EvBinding i\<rparr>"

lemma block_pushes:
  assumes "context_ok ctx" "block \<in> set (cfg_blocks (dc_cfg ctx))"
  shows "pushes (length (cfg_blocks (dc_cfg ctx)))
    (\<lambda>events. do {
         events \<leftarrow> fold_opt (push_reference_event ctx (bb_id block)) (bb_references block) events;
         fold_opt (push_binding_event ctx (bb_id block)) (bb_bindings block) events })
    (\<lambda>b. if b = bb_id block then reference_event ctx ` set (bb_references block) \<union> binding_event ctx ` set (bb_bindings block) else {})"
proof -
  let ?n = "length (cfg_blocks (dc_cfg ctx))"
  have items: "set (bb_bindings block) \<subseteq> {..<length (dc_bindings ctx)}" "set (bb_references block) \<subseteq> {..<length (dc_references ctx)}"
    using assms by (auto simp: context_ok_def block_items_ok_def)
  have "bb_id block \<in> set (map bb_id (cfg_blocks (dc_cfg ctx)))" using assms(2) by simp
  then have b: "bb_id block < ?n" unfolding cfg_okD(3)[OF context_cfg[OF assms(1)]] by simp
  have r: "pushes ?n (push_reference_event ctx (bb_id block) i) (\<lambda>q. if q = bb_id block then {reference_event ctx i} else {})"
    if "i \<in> set (bb_references block)" for i
  proof -
    have "push_reference_event ctx (bb_id block) i = push_event (bb_id block) (reference_event ctx i)"
      using items(2) that by (intro ext) (auto simp: push_reference_event_def reference_event_def panic_simps)
    then show ?thesis using pushes_event[OF b] by simp
  qed
  have d: "pushes ?n (push_binding_event ctx (bb_id block) i) (\<lambda>q. if q = bb_id block then {binding_event ctx i} else {})"
    if "i \<in> set (bb_bindings block)" for i
  proof -
    have "push_binding_event ctx (bb_id block) i = push_event (bb_id block) (binding_event ctx i)"
      using items(1) that by (intro ext) (auto simp: push_binding_event_def binding_event_def panic_simps)
    then show ?thesis using pushes_event[OF b] by simp
  qed
  from pushes_then[OF pushes_all[OF r] pushes_all[OF d]] show ?thesis by (rule pushes_cong) auto
qed

lemma call_pushes:
  assumes "cfg_ok cfg"
  shows "pushes (length (cfg_blocks cfg)) (push_call_event cfg call)
    (\<lambda>b. {e. e = \<lparr>ue_offset = rcs_offset call, ue_order = 0, ue_kind = EvCall (rcs_callee_scope call)\<rparr>
       \<and> command_block_for_span cfg (rcs_span call) = Some b})"
proof (cases "command_block_for_span cfg (rcs_span call)")
  case (Some block)
  then have eq: "push_call_event cfg call = push_event block
      \<lparr>ue_offset = rcs_offset call, ue_order = 0, ue_kind = EvCall (rcs_callee_scope call)\<rparr>"
    by (intro ext) (simp add: push_call_event_def)
  from pushes_event[OF command_block_within[OF assms Some]] show ?thesis
    unfolding eq by (rule pushes_cong) (auto simp: Some)
next
  case None
  then have eq: "push_call_event cfg call = Some" by (intro ext) (simp add: push_call_event_def)
  from pushes_nothing show ?thesis unfolding eq by (rule pushes_cong) (simp add: None)
qed

lemma function_pushes:
  assumes "context_ok ctx" "exact_ok ctx ex" "i < length (dc_bindings ctx)"
  shows "pushes (length (cfg_blocks (dc_cfg ctx))) (push_function_event ctx ex (i, scope))
    (\<lambda>b. {e. e = \<lparr>ue_offset = start_offset (b_span (dc_bindings ctx ! i)), ue_order = 0, ue_kind = EvFunctionDefinition scope\<rparr>
       \<and> block_with bb_bindings (dc_cfg ctx) i = Some b})"
proof -
  have block: "nth_opt (ex_binding_blocks ex) i = Some (block_with bb_bindings (dc_cfg ctx) i)"
    using assms(2,3) by (simp add: exact_ok_def panic_simps)
  show ?thesis
  proof (cases "block_with bb_bindings (dc_cfg ctx) i")
    case (Some b)
    have eq: "push_function_event ctx ex (i, scope) = push_event b \<lparr>ue_offset = start_offset (b_span (dc_bindings ctx ! i)),
        ue_order = 0, ue_kind = EvFunctionDefinition scope\<rparr>"
      unfolding push_function_event_def prod.case block Some Option.bind_lunit option.case
      using assms(3) by (simp add: panic_simps)
    from pushes_event[OF block_with_within(1)[OF context_cfg[OF assms(1)] Some]] show ?thesis
      unfolding eq by (rule pushes_cong) (auto simp: Some)
  next
    case None
    have eq: "push_function_event ctx ex (i, scope) = Some"
      unfolding push_function_event_def prod.case block None Option.bind_lunit option.case by (rule refl)
    from pushes_nothing show ?thesis unfolding eq by (rule pushes_cong) (simp add: None)
  qed
qed

lemma events_built:
  assumes "context_ok ctx" "reads_ok ctx" "flow_tables_ok ctx" "exact_ok ctx ex" "plans_ok ctx ex space plans callers"
  shows "\<exists>events. build_unused_assignment_events ctx ex plans = Some events \<and> events_ok ctx events"
proof -
  let ?cfg = "dc_cfg ctx"
  let ?n = "length (cfg_blocks ?cfg)"
  note cfg = context_cfg[OF assms(1)]
  have id: "bb_id (cfg_blocks ?cfg ! b) = b" if "b < ?n" for b
    using map_index[OF _ that] cfg_okD(3)[OF cfg] by blast
  let ?A = "\<lambda>b. \<Union>block \<in> set (cfg_blocks ?cfg). if b = bb_id block
      then reference_event ctx ` set (bb_references block) \<union> binding_event ctx ` set (bb_bindings block) else {}"
  let ?B = "\<lambda>b. \<Union>(i, read) \<in> set (List.enumerate 0 (dc_synthetic_reads ctx)).
      {e. e = \<lparr>ue_offset = start_offset (sr_span read), ue_order = 0, ue_kind = EvSyntheticRead i\<rparr>
       \<and> (command_block_for_span ?cfg (sr_span read) = Some b \<or> command_block_for_span ?cfg (sr_span read) = None
          \<and> (\<exists>exits. scope_exits ?cfg (sr_scope read) = Some exits \<and> b \<in> set exits))}"
  let ?C = "\<lambda>b. \<Union>plan \<in> set plans. \<Union>call \<in> set (srp_calls plan).
      {e. e = \<lparr>ue_offset = rcs_offset call, ue_order = 0, ue_kind = EvCall (rcs_callee_scope call)\<rparr>
       \<and> command_block_for_span ?cfg (rcs_span call) = Some b}"
  let ?D = "\<lambda>b. \<Union>(i, s) \<in> set (dc_function_body_scopes ctx).
      {e. e = \<lparr>ue_offset = start_offset (b_span (dc_bindings ctx ! i)), ue_order = 0, ue_kind = EvFunctionDefinition s\<rparr>
       \<and> block_with bb_bindings ?cfg i = Some b}"
  have A: "pushes ?n (fold_opt (\<lambda>block events. do {
         events \<leftarrow> fold_opt (push_reference_event ctx (bb_id block)) (bb_references block) events;
         fold_opt (push_binding_event ctx (bb_id block)) (bb_bindings block) events }) (cfg_blocks ?cfg)) ?A"
    by (rule pushes_all) (rule block_pushes[OF assms(1)])
  have B: "pushes ?n (fold_opt (push_synthetic_event ?cfg) (List.enumerate 0 (dc_synthetic_reads ctx))) ?B"
  proof (rule pushes_cong, rule pushes_all)
    fix x :: "nat \<times> synthetic_read"
    show "pushes ?n (push_synthetic_event ?cfg x) (\<lambda>b. case x of (i, read) \<Rightarrow> {e.
       e = \<lparr>ue_offset = start_offset (sr_span read), ue_order = 0, ue_kind = EvSyntheticRead i\<rparr>
       \<and> (command_block_for_span ?cfg (sr_span read) = Some b \<or> command_block_for_span ?cfg (sr_span read) = None
          \<and> (\<exists>exits. scope_exits ?cfg (sr_scope read) = Some exits \<and> b \<in> set exits))})"
      using synthetic_pushes[OF cfg, of "fst x" "snd x"] by (simp add: case_prod_beta)
  qed simp
  have C: "pushes ?n (fold_opt (\<lambda>plan. fold_opt (push_call_event ?cfg) (srp_calls plan)) plans) ?C"
    by (rule pushes_all) (rule pushes_all, rule call_pushes[OF cfg])
  have D: "pushes ?n (fold_opt (push_function_event ctx ex) (dc_function_body_scopes ctx)) ?D"
  proof (rule pushes_cong, rule pushes_all)
    fix x :: "binding_id \<times> scope_id" assume "x \<in> set (dc_function_body_scopes ctx)"
    then have "fst x < length (dc_bindings ctx)" using assms(3) by (auto simp: flow_tables_ok_def)
    from function_pushes[OF assms(1,4) this, of "snd x"]
    show "pushes ?n (push_function_event ctx ex x) (\<lambda>b. case x of (i, s) \<Rightarrow> {e.
       e = \<lparr>ue_offset = start_offset (b_span (dc_bindings ctx ! i)), ue_order = 0, ue_kind = EvFunctionDefinition s\<rparr>
       \<and> block_with bb_bindings ?cfg i = Some b})" by (simp add: case_prod_beta)
  qed simp
  have "length (map (\<lambda>_. []) (cfg_blocks ?cfg)) = ?n" by simp
  note run = pushesD[OF pushes_then[OF A pushes_then[OF B pushes_then[OF C D]]] this]
  obtain es where es:
    "do { events \<leftarrow> fold_opt (\<lambda>block events. do {
         events \<leftarrow> fold_opt (push_reference_event ctx (bb_id block)) (bb_references block) events;
         fold_opt (push_binding_event ctx (bb_id block)) (bb_bindings block) events }) (cfg_blocks ?cfg) (map (\<lambda>_. []) (cfg_blocks ?cfg));
       events \<leftarrow> fold_opt (push_synthetic_event ?cfg) (List.enumerate 0 (dc_synthetic_reads ctx)) events;
       events \<leftarrow> fold_opt (\<lambda>plan. fold_opt (push_call_event ?cfg) (srp_calls plan)) plans events;
       fold_opt (push_function_event ctx ex) (dc_function_body_scopes ctx) events } = Some es"
    "length es = ?n" "\<forall>b < ?n. set (es ! b) = set (map (\<lambda>_. []) (cfg_blocks ?cfg) ! b) \<union> (?A b \<union> (?B b \<union> (?C b \<union> ?D b)))"
    using run by (elim exE conjE) (rule that)
  let ?sort = "map (sort_key (\<lambda>event. (ue_offset event, ue_order event)))"
  have "build_unused_assignment_events ctx ex plans = map_option ?sort (Some es)"
    unfolding build_unused_assignment_events_def Let_def es(1)[symmetric] map_conv_bind_option o_def Option.bind_assoc by (rule refl)
  moreover have "set (es ! b) = {e. block_event ctx b e}" if b: "b < ?n" for b
  proof -
    let ?blk = "cfg_blocks ?cfg ! b"
    have only: "block \<in> set (cfg_blocks ?cfg) \<and> b = bb_id block \<longleftrightarrow> block = ?blk" for block
      using id b by (auto simp: in_set_conv_nth)
    have A: "?A b = reference_event ctx ` set (bb_references ?blk) \<union> binding_event ctx ` set (bb_bindings ?blk)"
    proof -
      have "?A b = (\<Union>block \<in> {block. block \<in> set (cfg_blocks ?cfg) \<and> b = bb_id block}.
          reference_event ctx ` set (bb_references block) \<union> binding_event ctx ` set (bb_bindings block))" by auto
      also have "{block. block \<in> set (cfg_blocks ?cfg) \<and> b = bb_id block} = {?blk}" unfolding only by blast
      finally show ?thesis by simp
    qed
    have len: "length plans = length (dc_scopes ctx)" using assms(5) by (simp add: plans_ok_def)
    have C: "e \<in> ?C b \<longleftrightarrow> (\<exists>s call. call \<in> set (calls_in ctx s) \<and> command_block_for_span ?cfg (cs_span (rv_site call)) = Some b
        \<and> e = \<lparr>ue_offset = start_offset (cs_span (rv_site call)), ue_order = 0, ue_kind = EvCall (rv_callee_scope call)\<rparr>)" for e
    proof
      assume "e \<in> ?C b"
      then obtain plan call where pc: "plan \<in> set plans" "call \<in> set (srp_calls plan)"
        "e = \<lparr>ue_offset = rcs_offset call, ue_order = 0, ue_kind = EvCall (rcs_callee_scope call)\<rparr>"
        "command_block_for_span ?cfg (rcs_span call) = Some b" by blast
      obtain s where s: "s < length (dc_scopes ctx)" "plan = plans ! s" using pc(1) len by (auto simp: in_set_conv_nth)
      have "call \<in> site_of ` set (calls_in ctx s)" using assms(5) pc(2) s by (auto simp: plans_ok_def)
      then obtain c where c: "c \<in> set (calls_in ctx s)" "call = site_of c" by blast
      from pc(3,4) show "\<exists>s call. call \<in> set (calls_in ctx s) \<and> command_block_for_span ?cfg (cs_span (rv_site call)) = Some b
        \<and> e = \<lparr>ue_offset = start_offset (cs_span (rv_site call)), ue_order = 0, ue_kind = EvCall (rv_callee_scope call)\<rparr>"
        unfolding c(2) by (intro exI[of _ s] exI[of _ c]) (simp add: c(1) site_of_def)
    next
      assume "\<exists>s call. call \<in> set (calls_in ctx s) \<and> command_block_for_span ?cfg (cs_span (rv_site call)) = Some b
        \<and> e = \<lparr>ue_offset = start_offset (cs_span (rv_site call)), ue_order = 0, ue_kind = EvCall (rv_callee_scope call)\<rparr>"
      then obtain s call where sc: "call \<in> set (calls_in ctx s)" "command_block_for_span ?cfg (cs_span (rv_site call)) = Some b"
        "e = \<lparr>ue_offset = start_offset (cs_span (rv_site call)), ue_order = 0, ue_kind = EvCall (rv_callee_scope call)\<rparr>" by blast
      have s: "s < length plans" using calls_in_scopes(1)[OF assms(2) sc(1)] len by simp
      then have "set (srp_calls (plans ! s)) = site_of ` set (calls_in ctx s)" using assms(5) len by (simp add: plans_ok_def)
      then have "site_of call \<in> set (srp_calls (plans ! s))" using sc(1) by blast
      moreover have "plans ! s \<in> set plans" using s by simp
      moreover have "e \<in> {e. e = \<lparr>ue_offset = rcs_offset (site_of call), ue_order = 0, ue_kind = EvCall (rcs_callee_scope (site_of call))\<rparr>
          \<and> command_block_for_span ?cfg (rcs_span (site_of call)) = Some b}" using sc(2,3) by (simp add: site_of_def)
      ultimately show "e \<in> ?C b" by blast
    qed
    have whole: "set (es ! b) = ?A b \<union> (?B b \<union> (?C b \<union> ?D b))" using es(3) b by simp
    show ?thesis
    proof (rule set_eqI, unfold mem_Collect_eq, rule iffI)
      fix e assume "e \<in> set (es ! b)"
      then consider "e \<in> ?A b" | "e \<in> ?B b" | "e \<in> ?C b" | "e \<in> ?D b" unfolding whole by blast
      then show "block_event ctx b e"
      proof cases
        case 1
        then show ?thesis unfolding A reference_event_def binding_event_def by (auto intro: event_reference event_binding[unfolded One_nat_def])
      next
        case 2
        then show ?thesis by (auto simp: in_set_enumerate_eq intro!: event_synthetic)
      next
        case 3
        then show ?thesis unfolding C by (auto intro: event_call)
      next
        case 4
        then show ?thesis by (auto intro: event_function)
      qed
    next
      fix e assume "block_event ctx b e"
      then show "e \<in> set (es ! b)"
      proof (cases rule: block_event.cases)
        case (event_reference i)
        then have "e \<in> ?A b" unfolding A reference_event_def by blast
        then show ?thesis unfolding whole by blast
      next
        case (event_binding i)
        then have "e \<in> ?A b" unfolding A binding_event_def by blast
        then show ?thesis unfolding whole by blast
      next
        case (event_synthetic i read)
        then have "(i, read) \<in> set (List.enumerate 0 (dc_synthetic_reads ctx))" by (simp add: in_set_enumerate_eq)
        with event_synthetic(1,4) have "e \<in> ?B b" by blast
        then show ?thesis unfolding whole by blast
      next
        case (event_call call s)
        then have "e \<in> ?C b" unfolding C by blast
        then show ?thesis unfolding whole by blast
      next
        case (event_function i s)
        then have "e \<in> ?D b" by blast
        then show ?thesis unfolding whole by blast
      qed
    qed
  qed
  then have "events_ok ctx (?sort es)" using es(2) by (simp add: events_ok_def)
  ultimately show ?thesis by simp
qed

end
