(* ===== verification/Backward_Liveness.thy ===== *)
theory Backward_Liveness
  imports Liveness_Events
begin

text \<open>
  Model of the backward liveness pass of \<open>crates/shucked-semantic/src/dataflow/unused.rs\<close>: what an event does
  to the live slots, the transfer of a block, and the worklist that marks the bindings whose value is read
  on some path.  The theorem: a binding is marked when a path leads from it to a read of its name with no
  write of the name in between, and only then.
\<close>

section \<open>What an event does\<close>

definition shadows_without_initializing :: "binding \<Rightarrow> bool" where
  "shadows_without_initializing b \<longleftrightarrow> (case b_kind b of Declaration _ \<Rightarrow> True | _ \<Rightarrow> False)
     \<and> \<not> has_attr b attr_declaration_initialized"

definition binding_writes_unused_assignment_slot :: "binding \<Rightarrow> bool" where
  "binding_writes_unused_assignment_slot b \<longleftrightarrow> \<not> is_function_or_import b \<and> binding_initializes_name b \<noteq> None"

definition apply_unused_assignment_binding_event ::
  "dataflow_context \<Rightarrow> unused_assignment_slots \<Rightarrow> binding_id \<Rightarrow> slot_live_set \<times> dense_bit_set
    \<Rightarrow> (slot_live_set \<times> dense_bit_set) option" where
  "apply_unused_assignment_binding_event ctx us i = (\<lambda>(live, used). do {
     b \<leftarrow> nth_opt (dc_bindings ctx) i;
     if \<not> binding_writes_unused_assignment_slot b then Some (live, used)
     else do {
       slot \<leftarrow> slot_for_binding us i;
       case slot of
         None \<Rightarrow> Some (live, used)
       | Some slot \<Rightarrow>
           if shadows_without_initializing b then
             (if sl_contains live slot then do { used \<leftarrow> bs_insert used i; Some (live, used) } else Some (live, used))
           else do {
             used \<leftarrow> (if sl_contains live slot then bs_insert used i else Some used);
             if b_kind b = AppendAssignment then Some (sl_insert live slot, used)
             else
               (let live = sl_remove live slot
                in Some (if has_attr b attr_self_referential_read then sl_insert live slot else live, used)) } } })"

definition insert_slot :: "nat option \<Rightarrow> slot_live_set \<Rightarrow> slot_live_set" where
  "insert_slot slot live = (case slot of None \<Rightarrow> live | Some i \<Rightarrow> sl_insert live i)"

definition apply_unused_assignment_event ::
  "dataflow_context \<Rightarrow> exact_variable_dataflow \<Rightarrow> unused_assignment_analysis_options \<Rightarrow> dense_bit_matrix
    \<Rightarrow> unused_assignment_slots \<Rightarrow> unused_assignment_event_kind \<Rightarrow> slot_live_set \<times> dense_bit_set
    \<Rightarrow> (slot_live_set \<times> dense_bit_set) option" where
  "apply_unused_assignment_event ctx ex opts masks us event = (\<lambda>(live, used).
     (case event of
        EvReference i \<Rightarrow> do {
          reference \<leftarrow> nth_opt (dc_references ctx) i;
          name \<leftarrow> nth_opt (ex_reference_name_ids ex) i;
          slot \<leftarrow> slot_for_name us name;
          let live = insert_slot slot live;
          live \<leftarrow>
            (if treat_indirect_expansion_targets_as_used opts
                \<or> ref_id reference \<in> dc_array_like_indirect_expansion_refs ctx
             then (case dc_indirect_targets_by_reference ctx (ref_id reference) of
                None \<Rightarrow> Some live
              | Some candidates \<Rightarrow> fold_opt (\<lambda>candidate live. do {
                    slot \<leftarrow> slot_for_binding us candidate; Some (insert_slot slot live) }) candidates live)
             else Some live);
          Some (live, used) }
      | EvSyntheticRead i \<Rightarrow> do {
          name \<leftarrow> nth_opt (ex_synthetic_read_name_ids ex) i;
          slot \<leftarrow> slot_for_name us name;
          Some (insert_slot slot live, used) }
      | EvCall callee \<Rightarrow> do { row \<leftarrow> bm_row masks callee; Some (sl_union_with_slice live row, used) }
      | EvFunctionDefinition callee \<Rightarrow> do { row \<leftarrow> bm_row masks callee; Some (sl_union_with_slice live row, used) }
      | EvBinding i \<Rightarrow> apply_unused_assignment_binding_event ctx us i (live, used)))"

definition outgoing_slots :: "control_flow_graph \<Rightarrow> slot_live_matrix \<Rightarrow> block_id \<Rightarrow> slot_live_set \<Rightarrow> slot_live_set option" where
  "outgoing_slots cfg live_in block outgoing =
     (case successors_of cfg block of
        [(only, _)] \<Rightarrow> do { row \<leftarrow> slm_set live_in only; sl_copy_from_slice outgoing row }
      | successors \<Rightarrow> fold_opt (\<lambda>(successor, _) s. do {
            row \<leftarrow> slm_set live_in successor; Some (sl_union_with_slice s row) }) successors (sl_clear outgoing))"

section \<open>The backward pass\<close>

text \<open>The buffers of the pass are created once; every visit overwrites them before it reads them.\<close>

definition liveness_transfer ::
  "dataflow_context \<Rightarrow> exact_variable_dataflow \<Rightarrow> unused_assignment_analysis_options \<Rightarrow> dense_bit_matrix
    \<Rightarrow> unused_assignment_slots \<Rightarrow> block_events \<Rightarrow> (slot_live_matrix \<times> dense_bit_set) transfer" where
  "liveness_transfer ctx ex opts masks us events block = (\<lambda>(live_in, used). do {
     outgoing \<leftarrow> outgoing_slots (dc_cfg ctx) live_in block (sl_new (us_slot_count us));
     es \<leftarrow> nth_opt events block;
     if \<not> ((\<not> bs_contains (ex_unreachable_blocks ex) block \<or> report_unreachable_assignments opts) \<and> es \<noteq> [])
     then do {
       (changed, live_in) \<leftarrow> slm_replace_if_changed live_in block outgoing;
       Some (changed, (live_in, used)) }
     else do {
       incoming \<leftarrow> sl_copy_from_slice (sl_new (us_slot_count us)) (sl_as_slice outgoing);
       (incoming, used) \<leftarrow> fold_opt (\<lambda>event. apply_unused_assignment_event ctx ex opts masks us (ue_kind event))
         (rev es) (incoming, used);
       (changed, live_in) \<leftarrow> slm_replace_if_changed live_in block incoming;
       Some (changed, (live_in, used)) } })"

text \<open>With fuel for the rounds of the worklist.\<close>

definition mark_used_bindings_with_backward_liveness ::
  "nat \<Rightarrow> dataflow_context \<Rightarrow> exact_variable_dataflow \<Rightarrow> unused_assignment_analysis_options \<Rightarrow> scope_read_plan list
    \<Rightarrow> dense_bit_matrix \<Rightarrow> bound_name_space \<Rightarrow> dense_bit_set \<Rightarrow> dense_bit_set option" where
  "mark_used_bindings_with_backward_liveness k ctx ex opts plans transitive space used = do {
     let ids = dbd_binding_name_ids (ex_binding_data ex);
     us \<leftarrow> us_new ids (nt_len (ex_names ex)) (dc_bindings ctx) used;
     events \<leftarrow> build_unused_assignment_events ctx ex plans;
     slot_for_compact \<leftarrow> slots_for_compact ids space us;
     masks \<leftarrow> call_read_slot_masks plans transitive slot_for_compact (us_slot_count us);
     order \<leftarrow> compute_postorder (dc_cfg ctx);
     (live_in, used) \<leftarrow> run_backward_dataflow_worklist k (dc_cfg ctx) order
       (liveness_transfer ctx ex opts masks us events)
       (slm_new (length (cfg_blocks (dc_cfg ctx))) (us_slot_count us), used);
     Some used }"

section \<open>Uses and overwrites\<close>

text \<open>What an event says about a name: whether its value before the event is used, whatever comes later,
  and whether the event gives the name a new one.\<close>

fun event_uses_value ::
  "dataflow_context \<Rightarrow> unused_assignment_analysis_options \<Rightarrow> unused_assignment_event_kind \<Rightarrow> string \<Rightarrow> bool" where
  "event_uses_value ctx opts (EvReference i) x \<longleftrightarrow> ref_name (dc_references ctx ! i) = x
     \<or> (treat_indirect_expansion_targets_as_used opts
          \<or> ref_id (dc_references ctx ! i) \<in> dc_array_like_indirect_expansion_refs ctx)
       \<and> (\<exists>targets. dc_indirect_targets_by_reference ctx (ref_id (dc_references ctx ! i)) = Some targets
            \<and> (\<exists>t \<in> set targets. b_name (dc_bindings ctx ! t) = x))"
| "event_uses_value ctx opts (EvSyntheticRead i) x \<longleftrightarrow> sr_name (dc_synthetic_reads ctx ! i) = x"
| "event_uses_value ctx opts (EvCall s) x \<longleftrightarrow> scope_reads ctx s x"
| "event_uses_value ctx opts (EvFunctionDefinition s) x \<longleftrightarrow> scope_reads ctx s x"
| "event_uses_value ctx opts (EvBinding i) x \<longleftrightarrow> b_name (dc_bindings ctx ! i) = x
     \<and> binding_writes_unused_assignment_slot (dc_bindings ctx ! i)
     \<and> (b_kind (dc_bindings ctx ! i) = AppendAssignment \<or> has_attr (dc_bindings ctx ! i) attr_self_referential_read)"

fun event_overwrites :: "dataflow_context \<Rightarrow> unused_assignment_event_kind \<Rightarrow> string \<Rightarrow> bool" where
  "event_overwrites ctx (EvBinding i) x \<longleftrightarrow> b_name (dc_bindings ctx ! i) = x
     \<and> binding_writes_unused_assignment_slot (dc_bindings ctx ! i)"
| "event_overwrites ctx _ x \<longleftrightarrow> False"

text \<open>The bindings that an event marks when the slots \<open>L\<close> are live after it.\<close>

fun event_marks ::
  "dataflow_context \<Rightarrow> exact_variable_dataflow \<Rightarrow> unused_assignment_slots \<Rightarrow> unused_assignment_event_kind \<Rightarrow> nat set \<Rightarrow> binding_id set" where
  "event_marks ctx ex us (EvBinding i) L =
     (if binding_writes_unused_assignment_slot (dc_bindings ctx ! i)
         \<and> (\<exists>k \<in> L. slot_of ex us (b_name (dc_bindings ctx ! i)) = Some k) then {i} else {})"
| "event_marks ctx ex us _ L = {}"

fun event_fits :: "dataflow_context \<Rightarrow> unused_assignment_event_kind \<Rightarrow> bool" where
  "event_fits ctx (EvReference i) \<longleftrightarrow> i < length (dc_references ctx)"
| "event_fits ctx (EvSyntheticRead i) \<longleftrightarrow> i < length (dc_synthetic_reads ctx)"
| "event_fits ctx (EvBinding i) \<longleftrightarrow> i < length (dc_bindings ctx)"
| "event_fits ctx (EvCall s) \<longleftrightarrow> s < length (dc_scopes ctx)"
| "event_fits ctx (EvFunctionDefinition s) \<longleftrightarrow> s < length (dc_scopes ctx)"

definition liveness_ready ::
  "dataflow_context \<Rightarrow> exact_variable_dataflow \<Rightarrow> dense_bit_set \<Rightarrow> unused_assignment_slots \<Rightarrow> dense_bit_matrix \<Rightarrow> bool" where
  "liveness_ready ctx ex used us masks \<longleftrightarrow> context_ok ctx \<and> reads_ok ctx \<and> flow_tables_ok ctx \<and> exact_ok ctx ex
     \<and> slots_ok ctx ex used us
     \<and> shaped (length (dc_scopes ctx)) (us_slot_count us) masks
     \<and> (\<forall>s < length (dc_scopes ctx). mrow masks s = slot_row ex us (scope_reads ctx s))"

lemma liveness_readyD:
  assumes "liveness_ready ctx ex used us masks"
  shows "context_ok ctx" "reads_ok ctx" "flow_tables_ok ctx" "exact_ok ctx ex" "slots_ok ctx ex used us"
    "shaped (length (dc_scopes ctx)) (us_slot_count us) masks"
    "s < length (dc_scopes ctx) \<Longrightarrow> mrow masks s = slot_row ex us (scope_reads ctx s)"
  using assms unfolding liveness_ready_def by blast+

text \<open>A binding that shadows without initialising writes no slot, so that case of the source never runs.\<close>

lemma writes_not_shadows: "binding_writes_unused_assignment_slot b \<Longrightarrow> \<not> shadows_without_initializing b"
  by (auto simp: binding_writes_unused_assignment_slot_def shadows_without_initializing_def binding_initializes_name_def
      split: binding_kind.splits if_splits)

lemma block_event_fits:
  assumes "context_ok ctx" "reads_ok ctx" "flow_tables_ok ctx" "block_event ctx b e" "b < length (cfg_blocks (dc_cfg ctx))"
  shows "event_fits ctx (ue_kind e)"
proof -
  have "cfg_blocks (dc_cfg ctx) ! b \<in> set (cfg_blocks (dc_cfg ctx))" using assms(5) by simp
  then have items: "set (bb_bindings (cfg_blocks (dc_cfg ctx) ! b)) \<subseteq> {..<length (dc_bindings ctx)}"
    "set (bb_references (cfg_blocks (dc_cfg ctx) ! b)) \<subseteq> {..<length (dc_references ctx)}"
    using assms(1) unfolding context_ok_def block_items_ok_def by blast+
  from assms(4) show ?thesis
  proof (cases rule: block_event.cases)
    case (event_call call s)
    then show ?thesis using calls_in_scopes(2)[OF assms(2)] by simp
  next
    case (event_function i s)
    then show ?thesis using assms(3) by (auto simp: flow_tables_ok_def)
  qed (use items in auto)
qed

lemma insert_slot_ok:
  assumes "slotted n live" "\<And>i. slot = Some i \<Longrightarrow> i < n"
  shows "slotted n (insert_slot slot live)" "lset (insert_slot slot live) = lset live \<union> {i. slot = Some i}"
  using assms slots_insert[OF assms(1)] by (cases slot; auto simp: insert_slot_def)+

lemma insert_targets:
  assumes "slots_ok ctx ex used us" "set targets \<subseteq> {..<length (dc_bindings ctx)}" "slotted (us_slot_count us) live"
  shows "\<exists>live'. fold_opt (\<lambda>candidate live. do { slot \<leftarrow> slot_for_binding us candidate; Some (insert_slot slot live) }) targets live = Some live'
    \<and> slotted (us_slot_count us) live'
    \<and> lset live' = lset live \<union> slot_row ex us (\<lambda>x. \<exists>t \<in> set targets. b_name (dc_bindings ctx ! t) = x)"
  using assms(2,3)
proof (induction targets arbitrary: live)
  case Nil
  then show ?case by (simp add: slot_row_def)
next
  case (Cons t targets)
  let ?slot = "slot_of ex us (b_name (dc_bindings ctx ! t))"
  have t: "slot_for_binding us t = Some ?slot" using slots_okD(5)[OF assms(1)] Cons.prems(1) by simp
  note ins = insert_slot_ok[OF Cons.prems(2) slots_okD(1)[OF assms(1), of "b_name (dc_bindings ctx ! t)"]]
  have "set targets \<subseteq> {..<length (dc_bindings ctx)}" using Cons.prems(1) by simp
  from Cons.IH[OF this ins(1)] obtain live' where l:
    "fold_opt (\<lambda>candidate live. do { slot \<leftarrow> slot_for_binding us candidate; Some (insert_slot slot live) }) targets (insert_slot ?slot live) = Some live'"
    "slotted (us_slot_count us) live'"
    "lset live' = lset (insert_slot ?slot live) \<union> slot_row ex us (\<lambda>x. \<exists>t \<in> set targets. b_name (dc_bindings ctx ! t) = x)"
    by blast
  have "slot_row ex us (\<lambda>x. \<exists>u \<in> set (t # targets). b_name (dc_bindings ctx ! u) = x)
      = {i. ?slot = Some i} \<union> slot_row ex us (\<lambda>x. \<exists>t \<in> set targets. b_name (dc_bindings ctx ! t) = x)"
    by (auto simp: slot_row_def)
  then show ?case using l t ins(2) by (simp add: Un_assoc)
qed

lemma slot_row_or: "slot_row ex us (\<lambda>x. P x \<or> Q x) = slot_row ex us P \<union> slot_row ex us Q"
  by (auto simp: slot_row_def)

lemma slot_row_eq: "slot_row ex us (\<lambda>x. y = x) = {i. slot_of ex us y = Some i}"
  by (auto simp: slot_row_def)

lemma slot_row_false: "slot_row ex us (\<lambda>x. False) = {}"
  by (simp add: slot_row_def)

lemma apply_binding_event_ok:
  assumes "liveness_ready ctx ex used us masks" "i < length (dc_bindings ctx)"
    and "slotted (us_slot_count us) live" "sized (length (dc_bindings ctx)) marked"
  shows "\<exists>live' marked'. apply_unused_assignment_binding_event ctx us i (live, marked) = Some (live', marked')
    \<and> slotted (us_slot_count us) live' \<and> sized (length (dc_bindings ctx)) marked'
    \<and> lset live' = slot_row ex us (event_uses_value ctx opts (EvBinding i)) \<union> (lset live - slot_row ex us (event_overwrites ctx (EvBinding i)))
    \<and> bset marked' = bset marked \<union> event_marks ctx ex us (EvBinding i) (lset live)"
proof -
  note ready = liveness_readyD[OF assms(1)]
  let ?b = "dc_bindings ctx ! i"
  have b: "nth_opt (dc_bindings ctx) i = Some ?b" using assms(2) by (simp add: panic_simps)
  have slot: "slot_for_binding us i = Some (slot_of ex us (b_name ?b))" by (rule slots_okD(5)[OF ready(5) assms(2)])
  note opened = apply_unused_assignment_binding_event_def prod.case b slot Option.bind_lunit
  show ?thesis
  proof (cases "binding_writes_unused_assignment_slot ?b")
    case False
    then show ?thesis unfolding opened using assms(3,4) by (simp add: slot_row_def)
  next
    case writes: True
    then have rows: "slot_row ex us (event_overwrites ctx (EvBinding i)) = {k. slot_of ex us (b_name ?b) = Some k}"
      "slot_row ex us (event_uses_value ctx opts (EvBinding i)) =
        (if b_kind ?b = AppendAssignment \<or> has_attr ?b attr_self_referential_read then {k. slot_of ex us (b_name ?b) = Some k} else {})"
      by (auto simp: slot_row_def)
    show ?thesis
    proof (cases "slot_of ex us (b_name ?b)")
      case None
      then show ?thesis unfolding opened rows None option.case using writes assms(3,4) by (simp add: None)
    next
      case (Some k)
      have k: "k < us_slot_count us" by (rule slots_okD(1)[OF ready(5) Some])
      note contains = slots_contains[OF assms(3) k]
      obtain m where m: "(if sl_contains live k then bs_insert marked i else Some marked) = Some m" "sized (length (dc_bindings ctx)) m"
        "bset m = bset marked \<union> event_marks ctx ex us (EvBinding i) (lset live)"
      proof (cases "sl_contains live k")
        case True
        from insert_bset[OF assms(4,2)] obtain m where "bs_insert marked i = Some m" "sized (length (dc_bindings ctx)) m"
          "bset m = insert i (bset marked)" by blast
        then show ?thesis using True contains writes Some by (intro that[of m]) auto
      next
        case False
        then show ?thesis using contains writes Some assms(4) by (intro that[of marked]) auto
      qed
      let ?live = "if b_kind ?b = AppendAssignment then sl_insert live k
        else if has_attr ?b attr_self_referential_read then sl_insert (sl_remove live k) k else sl_remove live k"
      have run: "apply_unused_assignment_binding_event ctx us i (live, marked) = Some (?live, m)"
        unfolding opened Some option.case m(1) using writes writes_not_shadows[OF writes] by (simp add: Let_def)
      note rem = slots_remove[OF assms(3) k] and ins = slots_insert[OF assms(3) k]
      note re = slots_insert[OF rem[THEN conjunct1] k]
      have "slotted (us_slot_count us) ?live" using rem ins re by simp
      moreover have "lset ?live = slot_row ex us (event_uses_value ctx opts (EvBinding i)) \<union> (lset live - slot_row ex us (event_overwrites ctx (EvBinding i)))"
        unfolding rows Some using rem ins re by auto
      ultimately show ?thesis using run m(2,3) by blast
    qed
  qed
qed

lemma apply_event_ok:
  assumes "liveness_ready ctx ex used us masks" "event_fits ctx ev"
    and "slotted (us_slot_count us) live" "sized (length (dc_bindings ctx)) marked"
  shows "\<exists>live' marked'. apply_unused_assignment_event ctx ex opts masks us ev (live, marked) = Some (live', marked')
    \<and> slotted (us_slot_count us) live' \<and> sized (length (dc_bindings ctx)) marked'
    \<and> lset live' = slot_row ex us (event_uses_value ctx opts ev) \<union> (lset live - slot_row ex us (event_overwrites ctx ev))
    \<and> bset marked' = bset marked \<union> event_marks ctx ex us ev (lset live)"
proof -
  note ready = liveness_readyD[OF assms(1)]
  note opened = apply_unused_assignment_event_def prod.case unused_assignment_event_kind.case
  have call: "\<exists>live' marked'. do { row \<leftarrow> bm_row masks s; Some (sl_union_with_slice live row, marked) } = Some (live', marked')
    \<and> slotted (us_slot_count us) live' \<and> sized (length (dc_bindings ctx)) marked'
    \<and> lset live' = slot_row ex us (scope_reads ctx s) \<union> lset live \<and> bset marked' = bset marked" if "s < length (dc_scopes ctx)" for s
    using slots_union[OF assms(3) row_shaped(2)[OF ready(6) that]] assms(4) ready(7)[OF that]
    unfolding row_shaped(1)[OF ready(6) that] by (simp add: Un_commute)
  show ?thesis
  proof (cases ev)
    case (EvReference i)
    let ?r = "dc_references ctx ! i"
    have i: "i < length (dc_references ctx)" using assms(2) EvReference by simp
    obtain n where n: "nt_get (ex_names ex) (ref_name ?r) = Some n" "nth_opt (ex_reference_name_ids ex) i = Some n"
      using ready(4) i by (auto simp: exact_ok_def panic_simps)
    have at: "nth_opt (dc_references ctx) i = Some ?r" "slot_for_name us n = Some (slot_of ex us (ref_name ?r))"
      using i slots_okD(4)[OF ready(5) n(1)] by (simp_all add: panic_simps)
    let ?live = "insert_slot (slot_of ex us (ref_name ?r)) live"
    note ins = insert_slot_ok[OF assms(3) slots_okD(1)[OF ready(5), of "ref_name ?r"]]
    let ?Q = "\<lambda>x. (treat_indirect_expansion_targets_as_used opts \<or> ref_id ?r \<in> dc_array_like_indirect_expansion_refs ctx)
       \<and> (\<exists>targets. dc_indirect_targets_by_reference ctx (ref_id ?r) = Some targets
            \<and> (\<exists>t \<in> set targets. b_name (dc_bindings ctx ! t) = x))"
    have rows: "slot_row ex us (event_uses_value ctx opts ev) = {k. slot_of ex us (ref_name ?r) = Some k} \<union> slot_row ex us ?Q"
      "slot_row ex us (event_overwrites ctx ev) = {}"
      unfolding EvReference event_uses_value.simps event_overwrites.simps slot_row_or slot_row_eq slot_row_false by (rule refl)+
    have "\<exists>live'. (if treat_indirect_expansion_targets_as_used opts \<or> ref_id ?r \<in> dc_array_like_indirect_expansion_refs ctx
             then (case dc_indirect_targets_by_reference ctx (ref_id ?r) of
                None \<Rightarrow> Some ?live
              | Some candidates \<Rightarrow> fold_opt (\<lambda>candidate live. do {
                    slot \<leftarrow> slot_for_binding us candidate; Some (insert_slot slot live) }) candidates ?live)
             else Some ?live) = Some live' \<and> slotted (us_slot_count us) live' \<and> lset live' = lset ?live \<union> slot_row ex us ?Q" (is "\<exists>live'. ?run = _ \<and> _")
    proof (cases "treat_indirect_expansion_targets_as_used opts \<or> ref_id ?r \<in> dc_array_like_indirect_expansion_refs ctx")
      case True
      show ?thesis
      proof (cases "dc_indirect_targets_by_reference ctx (ref_id ?r)")
        case None
        then show ?thesis using True ins(1) by (simp add: slot_row_false)
      next
        case (Some targets)
        then have "set targets \<subseteq> {..<length (dc_bindings ctx)}" using ready(3) by (simp add: flow_tables_ok_def)
        from insert_targets[OF ready(5) this ins(1)] show ?thesis using True Some by simp
      qed
    next
      case False
      then show ?thesis using ins(1) by (simp add: slot_row_false)
    qed
    then obtain live' where live': "?run = Some live'" "slotted (us_slot_count us) live'" "lset live' = lset ?live \<union> slot_row ex us ?Q"
      by blast
    have "apply_unused_assignment_event ctx ex opts masks us ev (live, marked) = Some (live', marked)"
      unfolding EvReference opened at n(2) Option.bind_lunit Let_def live'(1) by (rule refl)
    moreover have "lset live' = slot_row ex us (event_uses_value ctx opts ev) \<union> (lset live - slot_row ex us (event_overwrites ctx ev))"
      unfolding rows live'(3) using ins(2) by simp blast
    moreover have "event_marks ctx ex us ev (lset live) = {}" by (simp add: EvReference)
    ultimately show ?thesis using live'(2) assms(4) by auto
  next
    case (EvSyntheticRead i)
    let ?x = "sr_name (dc_synthetic_reads ctx ! i)"
    have i: "i < length (dc_synthetic_reads ctx)" using assms(2) EvSyntheticRead by simp
    obtain n where n: "nt_get (ex_names ex) ?x = Some n" "nth_opt (ex_synthetic_read_name_ids ex) i = Some n"
      using ready(4) i by (auto simp: exact_ok_def panic_simps)
    note ins = insert_slot_ok[OF assms(3) slots_okD(1)[OF ready(5), of ?x]]
    have "apply_unused_assignment_event ctx ex opts masks us ev (live, marked) = Some (insert_slot (slot_of ex us ?x) live, marked)"
      unfolding EvSyntheticRead opened n(2) slots_okD(4)[OF ready(5) n(1)] Option.bind_lunit by (rule refl)
    moreover have "slot_row ex us (event_uses_value ctx opts ev) = {k. slot_of ex us ?x = Some k}" "slot_row ex us (event_overwrites ctx ev) = {}"
      unfolding EvSyntheticRead event_uses_value.simps event_overwrites.simps slot_row_eq slot_row_false by (rule refl)+
    moreover have "event_marks ctx ex us ev (lset live) = {}" by (simp add: EvSyntheticRead)
    ultimately show ?thesis using ins assms(4) by (simp add: Un_commute)
  next
    case (EvBinding i)
    with apply_binding_event_ok[OF assms(1) _ assms(3,4), of i] assms(2) show ?thesis by (simp add: opened)
  next
    case (EvCall s)
    with call[of s] assms(2) show ?thesis by (simp add: opened slot_row_def)
  next
    case (EvFunctionDefinition s)
    with call[of s] assms(2) show ?thesis by (simp add: opened slot_row_def)
  qed
qed

section \<open>The events of a block\<close>

fun value_used ::
  "dataflow_context \<Rightarrow> unused_assignment_analysis_options \<Rightarrow> unused_assignment_event_kind list \<Rightarrow> string \<Rightarrow> bool" where
  "value_used ctx opts [] x \<longleftrightarrow> False"
| "value_used ctx opts (e # es) x \<longleftrightarrow> event_uses_value ctx opts e x \<or> \<not> event_overwrites ctx e x \<and> value_used ctx opts es x"

definition value_lost :: "dataflow_context \<Rightarrow> unused_assignment_event_kind list \<Rightarrow> string \<Rightarrow> bool" where
  "value_lost ctx es x \<longleftrightarrow> (\<exists>e \<in> set es. event_overwrites ctx e x)"

definition live_before ::
  "dataflow_context \<Rightarrow> exact_variable_dataflow \<Rightarrow> unused_assignment_analysis_options \<Rightarrow> unused_assignment_slots
    \<Rightarrow> unused_assignment_event_kind list \<Rightarrow> nat set \<Rightarrow> nat set" where
  "live_before ctx ex opts us es L = slot_row ex us (value_used ctx opts es) \<union> (L - slot_row ex us (value_lost ctx es))"

primrec marks_in ::
  "dataflow_context \<Rightarrow> exact_variable_dataflow \<Rightarrow> unused_assignment_analysis_options \<Rightarrow> unused_assignment_slots
    \<Rightarrow> unused_assignment_event_kind list \<Rightarrow> nat set \<Rightarrow> binding_id set" where
  "marks_in ctx ex opts us [] L = {}"
| "marks_in ctx ex opts us (e # es) L =
     event_marks ctx ex us e (live_before ctx ex opts us es L) \<union> marks_in ctx ex opts us es L"

lemma live_before_Nil [simp]: "live_before ctx ex opts us [] L = L"
  by (simp add: live_before_def value_lost_def slot_row_def)

lemma live_before_Cons:
  assumes "slots_ok ctx ex used us" "L \<subseteq> {..<us_slot_count us}"
  shows "live_before ctx ex opts us (e # es) L = slot_row ex us (event_uses_value ctx opts e)
    \<union> (live_before ctx ex opts us es L - slot_row ex us (event_overwrites ctx e))"
proof (rule set_eqI)
  fix k
  show "k \<in> live_before ctx ex opts us (e # es) L \<longleftrightarrow> k \<in> slot_row ex us (event_uses_value ctx opts e)
    \<union> (live_before ctx ex opts us es L - slot_row ex us (event_overwrites ctx e))"
  proof (cases "\<exists>x. slot_of ex us x = Some k")
    case True
    then obtain x where x: "slot_of ex us x = Some k" by blast
    show ?thesis
      unfolding live_before_def Un_iff Diff_iff in_slot_row[OF assms(1) x] by (auto simp: value_lost_def)
  next
    case False
    then have "k \<notin> slot_row ex us P" for P by (auto simp: slot_row_def)
    then show ?thesis by (simp add: live_before_def)
  qed
qed

lemma live_before_mono: "L \<subseteq> M \<Longrightarrow> live_before ctx ex opts us es L \<subseteq> live_before ctx ex opts us es M"
  by (auto simp: live_before_def)

lemma event_marks_mono: "L \<subseteq> M \<Longrightarrow> event_marks ctx ex us e L \<subseteq> event_marks ctx ex us e M"
  by (cases e) auto

lemma marks_in_mono: "L \<subseteq> M \<Longrightarrow> marks_in ctx ex opts us es L \<subseteq> marks_in ctx ex opts us es M"
proof (induction es)
  case (Cons e es)
  then show ?case using event_marks_mono[OF live_before_mono[OF Cons.prems]] unfolding marks_in.simps by blast
qed simp

lemma apply_events_ok:
  assumes "liveness_ready ctx ex used us masks" "\<forall>e \<in> set es. event_fits ctx e"
    and "slotted (us_slot_count us) live" "sized (length (dc_bindings ctx)) marked" "lset live \<subseteq> {..<us_slot_count us}"
  shows "\<exists>live' marked'. fold_opt (apply_unused_assignment_event ctx ex opts masks us) (rev es) (live, marked) = Some (live', marked')
    \<and> slotted (us_slot_count us) live' \<and> sized (length (dc_bindings ctx)) marked'
    \<and> lset live' = live_before ctx ex opts us es (lset live)
    \<and> bset marked' = bset marked \<union> marks_in ctx ex opts us es (lset live)"
  using assms(2)
proof (induction es)
  case Nil
  then show ?case using assms(3,4) by simp
next
  case (Cons e es)
  then obtain l m where 1: "fold_opt (apply_unused_assignment_event ctx ex opts masks us) (rev es) (live, marked) = Some (l, m)"
    "slotted (us_slot_count us) l" "sized (length (dc_bindings ctx)) m"
    "lset l = live_before ctx ex opts us es (lset live)" "bset m = bset marked \<union> marks_in ctx ex opts us es (lset live)" by auto
  have "event_fits ctx e" using Cons.prems by simp
  from apply_event_ok[OF assms(1) this 1(2,3), of opts] obtain l' m' where
    "apply_unused_assignment_event ctx ex opts masks us e (l, m) = Some (l', m')" "slotted (us_slot_count us) l'"
    "sized (length (dc_bindings ctx)) m'"
    "lset l' = slot_row ex us (event_uses_value ctx opts e) \<union> (lset l - slot_row ex us (event_overwrites ctx e))"
    "bset m' = bset m \<union> event_marks ctx ex us e (lset l)" by (elim exE conjE) (rule that)
  with 1 show ?case
    unfolding live_before_Cons[OF liveness_readyD(5)[OF assms(1)] assms(5)] by (simp add: fold_opt_append Un_ac)
qed

section \<open>The transfer of a block\<close>

text \<open>The events of a block that take part in the pass.\<close>

definition taken_events ::
  "dataflow_context \<Rightarrow> unused_assignment_analysis_options \<Rightarrow> block_events \<Rightarrow> block_id \<Rightarrow> unused_assignment_event_kind list" where
  "taken_events ctx opts events b =
     (if b \<in> set (cfg_unreachable (dc_cfg ctx)) \<and> \<not> report_unreachable_assignments opts then []
      else map ue_kind (events ! b))"

definition liveness_problem ::
  "dataflow_context \<Rightarrow> exact_variable_dataflow \<Rightarrow> unused_assignment_analysis_options \<Rightarrow> unused_assignment_slots \<Rightarrow> block_events \<Rightarrow> nat gen_kill" where
  "liveness_problem ctx ex opts us events =
     \<lparr>gk_blocks = length (cfg_blocks (dc_cfg ctx)), gk_universe = {..<us_slot_count us},
      gk_preds = (\<lambda>b. map fst (successors_of (dc_cfg ctx) b)), gk_init = (\<lambda>_. {}),
      gk_gen = (\<lambda>b. slot_row ex us (value_used ctx opts (taken_events ctx opts events b))),
      gk_kill = (\<lambda>b. slot_row ex us (value_lost ctx (taken_events ctx opts events b)))\<rparr>"

lemma outgoing_ok:
  assumes "cfg_ok (dc_cfg ctx)" "live_shaped (length (cfg_blocks (dc_cfg ctx))) n m" "b < length (cfg_blocks (dc_cfg ctx))"
    and "slotted n s"
  shows "\<exists>t. outgoing_slots (dc_cfg ctx) m b s = Some t \<and> slotted n t \<and> lset t = (\<Union>c \<in> next_blocks (dc_cfg ctx) b. live_row m c)"
proof -
  let ?N = "length (cfg_blocks (dc_cfg ctx))"
  have inside: "set (map fst (successors_of (dc_cfg ctx) b)) \<subseteq> {..<?N}"
    using next_within[OF assms(1), of b] by (simp add: next_blocks_def)
  have many: "\<exists>t. fold_opt (\<lambda>(successor, _) s. do {
            row \<leftarrow> slm_set m successor; Some (sl_union_with_slice s row) }) ss s = Some t \<and> slotted n t
        \<and> lset t = lset s \<union> (\<Union>c \<in> fst ` set ss. live_row m c)"
    if "fst ` set ss \<subseteq> {..<?N}" "slotted n s" for ss :: "(block_id \<times> edge_kind) list" and s
    using that
  proof (induction ss arbitrary: s)
    case (Cons x ss)
    obtain c kind where x: "x = (c, kind)" by (cases x)
    obtain ws where ws: "slm_set m c = Some ws" "length ws = words_for n" "members ws = live_row m c"
      using live_set[OF assms(2), of c] Cons.prems(1) x by auto
    note u = slots_union[OF Cons.prems(2) ws(2)]
    from Cons.IH[OF _ u(1)] Cons.prems(1) ws u(2) show ?case by (simp add: x Un_assoc)
  qed simp
  have clear: "slotted n (sl_clear s)" "lset (sl_clear s) = {}" using slots_clear[OF assms(4)] by simp_all
  have nb: "next_blocks (dc_cfg ctx) b = fst ` set (successors_of (dc_cfg ctx) b)" by (simp add: next_blocks_def)
  show ?thesis
  proof (cases "\<exists>x. successors_of (dc_cfg ctx) b = [x]")
    case True
    then obtain c kind where x: "successors_of (dc_cfg ctx) b = [(c, kind)]" by (metis surj_pair)
    then have c: "c < ?N" using inside by simp
    obtain ws where ws: "slm_set m c = Some ws" "length ws = words_for n" "members ws = live_row m c"
      using live_set[OF assms(2) c] by blast
    from slots_copy[OF assms(4) ws(2)] show ?thesis unfolding nb outgoing_slots_def x using ws(1,3) by simp
  next
    case False
    then have eq: "outgoing_slots (dc_cfg ctx) m b s = fold_opt (\<lambda>(successor, _) s. do {
            row \<leftarrow> slm_set m successor; Some (sl_union_with_slice s row) }) (successors_of (dc_cfg ctx) b) (sl_clear s)"
      unfolding outgoing_slots_def by (auto split: list.splits)
    show ?thesis unfolding eq nb using many[of "successors_of (dc_cfg ctx) b", OF _ clear(1)] inside clear(2) by simp
  qed
qed

lemma liveness_problem_simps [simp]:
  "gk_blocks (liveness_problem ctx ex opts us events) = length (cfg_blocks (dc_cfg ctx))"
  "gk_universe (liveness_problem ctx ex opts us events) = {..<us_slot_count us}"
  "gk_preds (liveness_problem ctx ex opts us events) b = map fst (successors_of (dc_cfg ctx) b)"
  "gk_init (liveness_problem ctx ex opts us events) b = {}"
  by (simp_all add: liveness_problem_def)

lemma flow_out_live:
  "flow_out (liveness_problem ctx ex opts us events) b L = live_before ctx ex opts us (taken_events ctx opts events b) L"
  by (simp add: flow_out_def live_before_def liveness_problem_def)

lemma flow_in_live:
  "flow_in (liveness_problem ctx ex opts us events) out b = (\<Union>c \<in> next_blocks (dc_cfg ctx) b. out c)"
  by (simp add: flow_in_def next_blocks_def)

lemma liveness_transfer_ok:
  assumes "liveness_ready ctx ex used us masks" "events_ok ctx events" "b < length (cfg_blocks (dc_cfg ctx))"
    and "live_shaped (length (cfg_blocks (dc_cfg ctx))) (us_slot_count us) m" "sized (length (dc_bindings ctx)) marked"
    and "pr = liveness_problem ctx ex opts us events" "flow_in pr (live_row m) b \<subseteq> {..<us_slot_count us}"
  shows "\<exists>m' marked'. liveness_transfer ctx ex opts masks us events b (m, marked)
      = Some (live_row m b \<noteq> flow_out pr b (flow_in pr (live_row m) b), (m', marked'))
    \<and> live_shaped (length (cfg_blocks (dc_cfg ctx))) (us_slot_count us) m' \<and> sized (length (dc_bindings ctx)) marked'
    \<and> live_row m' b = flow_out pr b (flow_in pr (live_row m) b)
    \<and> (\<forall>c < length (cfg_blocks (dc_cfg ctx)). c \<noteq> b \<longrightarrow> live_row m' c = live_row m c)
    \<and> bset marked' = bset marked \<union> marks_in ctx ex opts us (taken_events ctx opts events b) (flow_in pr (live_row m) b)"
proof -
  let ?n = "length (cfg_blocks (dc_cfg ctx))" and ?k = "us_slot_count us" and ?es = "taken_events ctx opts events b"
  note ready = liveness_readyD[OF assms(1)]
  obtain out where out: "outgoing_slots (dc_cfg ctx) m b (sl_new ?k) = Some out" "slotted ?k out"
    "lset out = flow_in pr (live_row m) b"
    using outgoing_ok[OF context_cfg[OF ready(1)] assms(4,3) slots_new(1)] unfolding assms(6) flow_in_live by blast
  have b: "b < length events" "nth_opt events b = Some (events ! b)" using assms(2,3) by (simp_all add: events_ok_def panic_simps)
  have un: "bs_contains (ex_unreachable_blocks ex) b \<longleftrightarrow> b \<in> set (cfg_unreachable (dc_cfg ctx))" by (rule exact_okD(5)[OF ready(4)])
  let ?skip = "\<not> ((\<not> bs_contains (ex_unreachable_blocks ex) b \<or> report_unreachable_assignments opts) \<and> events ! b \<noteq> [])"
  show ?thesis
  proof (cases ?skip)
    case True
    then have es: "?es = []" unfolding un by (auto simp: taken_events_def)
    have row: "flow_out pr b (flow_in pr (live_row m) b) = lset out"
      unfolding out(3)[symmetric] unfolding assms(6) flow_out_live es by simp
    obtain m' where m': "slm_replace_if_changed m b out = Some (live_row m b \<noteq> lset out, m')" "live_shaped ?n ?k m'"
      "live_row m' b = lset out" "\<forall>c < ?n. c \<noteq> b \<longrightarrow> live_row m' c = live_row m c"
      using live_replace[OF assms(4,3) out(2)] by blast
    have "liveness_transfer ctx ex opts masks us events b (m, marked) = Some (live_row m b \<noteq> lset out, (m', marked))"
      unfolding liveness_transfer_def prod.case out(1) b(2) Option.bind_lunit if_P[OF True] m'(1) by (rule refl)
    then show ?thesis using m'(2-4) assms(5) unfolding row es by (intro exI[of _ m'] exI[of _ marked]) simp
  next
    case False
    then have es: "?es = map ue_kind (events ! b)" unfolding un by (auto simp: taken_events_def)
    have fits: "\<forall>e \<in> set ?es. event_fits ctx e"
    proof -
      have "block_event ctx b e" if "e \<in> set (events ! b)" for e using assms(2) b(1) that by (auto simp: events_ok_def)
      then show ?thesis unfolding es using block_event_fits[OF ready(1-3) _ assms(3)] by auto
    qed
    obtain inc where inc: "sl_copy_from_slice (sl_new ?k) (sl_as_slice out) = Some inc" "slotted ?k inc" "lset inc = lset out"
      using slots_copy[OF slots_new(1) slotted_length[OF out(2)]] by blast
    have bound: "lset inc \<subseteq> {..<?k}" unfolding inc(3) out(3) by (rule assms(7))
    obtain live' marked' where run: "fold_opt (apply_unused_assignment_event ctx ex opts masks us) (rev ?es) (inc, marked) = Some (live', marked')"
      "slotted ?k live'" "sized (length (dc_bindings ctx)) marked'" "lset live' = live_before ctx ex opts us ?es (lset inc)"
      "bset marked' = bset marked \<union> marks_in ctx ex opts us ?es (lset inc)"
      using apply_events_ok[OF assms(1) fits inc(2) assms(5) bound, of opts] by (elim exE conjE) (rule that)
    have run': "fold_opt (\<lambda>event. apply_unused_assignment_event ctx ex opts masks us (ue_kind event)) (rev (events ! b)) (inc, marked) = Some (live', marked')"
    proof -
      have "fold_opt (\<lambda>x. f (g x)) xs s = fold_opt f (map g xs) s"
        for f :: "unused_assignment_event_kind \<Rightarrow> slot_live_set \<times> dense_bit_set \<Rightarrow> _" and g :: "unused_assignment_event \<Rightarrow> _" and xs s
        by (induction xs arbitrary: s) (simp_all, metis)
      then show ?thesis using run(1) unfolding es rev_map by simp
    qed
    have row: "lset live' = flow_out pr b (flow_in pr (live_row m) b)"
      unfolding run(4) inc(3) out(3) unfolding assms(6) flow_out_live by (rule refl)
    obtain m' where m': "slm_replace_if_changed m b live' = Some (live_row m b \<noteq> lset live', m')" "live_shaped ?n ?k m'"
      "live_row m' b = lset live'" "\<forall>c < ?n. c \<noteq> b \<longrightarrow> live_row m' c = live_row m c"
      using live_replace[OF assms(4,3) run(2)] by blast
    have "liveness_transfer ctx ex opts masks us events b (m, marked) = Some (live_row m b \<noteq> lset live', (m', marked'))"
      unfolding liveness_transfer_def prod.case out(1) b(2) Option.bind_lunit if_not_P[OF False] inc(1) run' m'(1) by (rule refl)
    then show ?thesis using m'(2-4) run(3,5) unfolding row inc(3) out(3) by (intro exI[of _ m'] exI[of _ marked']) simp
  qed
qed

section \<open>The worklist\<close>

record liveness_pass =
  lp_context :: dataflow_context
  lp_exact :: exact_variable_dataflow
  lp_options :: unused_assignment_analysis_options
  lp_used :: dense_bit_set
  lp_slots :: unused_assignment_slots
  lp_masks :: dense_bit_matrix
  lp_events :: block_events

definition pass_blocks :: "liveness_pass \<Rightarrow> nat" where
  "pass_blocks p = length (cfg_blocks (dc_cfg (lp_context p)))"

definition pass_problem :: "liveness_pass \<Rightarrow> nat gen_kill" where
  "pass_problem p = liveness_problem (lp_context p) (lp_exact p) (lp_options p) (lp_slots p) (lp_events p)"

definition pass_marks :: "liveness_pass \<Rightarrow> block_id \<Rightarrow> nat set \<Rightarrow> binding_id set" where
  "pass_marks p b = marks_in (lp_context p) (lp_exact p) (lp_options p) (lp_slots p)
     (taken_events (lp_context p) (lp_options p) (lp_events p) b)"

definition pass_valid :: "liveness_pass \<Rightarrow> bool" where
  "pass_valid p \<longleftrightarrow> liveness_ready (lp_context p) (lp_exact p) (lp_used p) (lp_slots p) (lp_masks p)
     \<and> events_ok (lp_context p) (lp_events p)"

definition pass_good :: "liveness_pass \<Rightarrow> slot_live_matrix \<times> dense_bit_set \<Rightarrow> bool" where
  "pass_good p = (\<lambda>(m, marked). live_shaped (pass_blocks p) (us_slot_count (lp_slots p)) m
     \<and> rising (pass_problem p) (\<lambda>_. {}) (live_row m)
     \<and> sized (length (dc_bindings (lp_context p))) marked \<and> bset (lp_used p) \<subseteq> bset marked
     \<and> bset marked \<subseteq> bset (lp_used p) \<union> (\<Union>b < pass_blocks p. pass_marks p b {k. arrives (pass_problem p) k b}))"

definition pass_holds :: "liveness_pass \<Rightarrow> block_id \<Rightarrow> slot_live_matrix \<times> dense_bit_set \<Rightarrow> bool" where
  "pass_holds p b = (\<lambda>(m, marked).
     live_row m b = flow_out (pass_problem p) b (flow_in (pass_problem p) (live_row m) b)
     \<and> pass_marks p b (flow_in (pass_problem p) (live_row m) b) \<subseteq> bset marked)"

lemma pass_problem_wf:
  assumes "pass_valid p"
  shows "wf_gen_kill (pass_problem p)"
  unfolding wf_gen_kill_def
proof (intro conjI allI impI)
  note ready = assms[unfolded pass_valid_def, THEN conjunct1]
  show "finite (gk_universe (pass_problem p))" by (simp add: pass_problem_def)
  fix b assume "b < gk_blocks (pass_problem p)"
  show "set (gk_preds (pass_problem p) b) \<subseteq> {..<gk_blocks (pass_problem p)}"
    using next_within[OF context_cfg[OF liveness_readyD(1)[OF ready]], of b]
    by (simp add: pass_problem_def next_blocks_def)
  show "gk_init (pass_problem p) b \<union> gk_gen (pass_problem p) b \<subseteq> gk_universe (pass_problem p)"
    using slot_row_bound[OF liveness_readyD(5)[OF ready]] by (simp add: pass_problem_def liveness_problem_def)
qed

lemma rising_arrives:
  assumes "rising pr (\<lambda>_. {}) out" "b < gk_blocks pr"
  shows "flow_in pr out b \<subseteq> {k. arrives pr k b}" "flow_in pr out b \<subseteq> gk_universe pr"
proof -
  have wf: "wf_gen_kill pr" using assms(1) by (simp add: rising_def)
  have out: "out c \<subseteq> {k. leaves pr k c} \<and> out c \<subseteq> gk_universe pr" if "c \<in> set (gk_preds pr b)" for c
    using assms(1) wf_gen_killD(2)[OF wf assms(2)] that by (auto simp: rising_def)
  then show "flow_in pr out b \<subseteq> {k. arrives pr k b}" by (auto simp: flow_in_def intro: arrives_init arrives_edge)
  show "flow_in pr out b \<subseteq> gk_universe pr" using out wf_gen_killD(3)[OF wf assms(2)] unfolding flow_in_def by blast
qed

interpretation liveness: worklist_transfer pass_valid pass_blocks "\<lambda>p. predecessors_of (dc_cfg (lp_context p))"
  "\<lambda>p. liveness_transfer (lp_context p) (lp_exact p) (lp_options p) (lp_masks p) (lp_slots p) (lp_events p)"
  pass_good pass_holds "\<lambda>p (m, marked). missing (pass_problem p) (live_row m)"
proof
  fix p b assume v: "pass_valid p" and b: "b < pass_blocks p"
  let ?cfg = "dc_cfg (lp_context p)" and ?pr = "pass_problem p"
  note ready = v[unfolded pass_valid_def, THEN conjunct1] and events = v[unfolded pass_valid_def, THEN conjunct2]
  note cfg = context_cfg[OF liveness_readyD(1)[OF ready]]
  have blocks: "gk_blocks ?pr = pass_blocks p" by (simp add: pass_problem_def pass_blocks_def)
  have b': "b < length (cfg_blocks ?cfg)" using b by (simp add: pass_blocks_def)
  show "set (predecessors_of ?cfg b) \<subseteq> {..<pass_blocks p}"
    using preds_succs[OF cfg b'] by (auto simp: pass_blocks_def)
  fix s assume good: "pass_good p s"
  obtain m marked where s: "s = (m, marked)" by (cases s)
  have g: "live_shaped (pass_blocks p) (us_slot_count (lp_slots p)) m" "rising ?pr (\<lambda>_. {}) (live_row m)"
    "sized (length (dc_bindings (lp_context p))) marked" "bset (lp_used p) \<subseteq> bset marked"
    "bset marked \<subseteq> bset (lp_used p) \<union> (\<Union>b < pass_blocks p. pass_marks p b {k. arrives ?pr k b})"
    using good by (simp_all add: pass_good_def s)
  let ?in = "flow_in ?pr (live_row m)"
  have arr: "?in b \<subseteq> {k. arrives ?pr k b}" "?in b \<subseteq> {..<us_slot_count (lp_slots p)}"
    using rising_arrives[OF g(2), of b] b blocks by (simp_all add: pass_problem_def)
  obtain m' marked' where t: "liveness_transfer (lp_context p) (lp_exact p) (lp_options p) (lp_masks p) (lp_slots p) (lp_events p) b (m, marked)
      = Some (live_row m b \<noteq> flow_out ?pr b (?in b), (m', marked'))"
    "live_shaped (pass_blocks p) (us_slot_count (lp_slots p)) m'" "sized (length (dc_bindings (lp_context p))) marked'"
    "live_row m' b = flow_out ?pr b (?in b)" "\<forall>c < pass_blocks p. c \<noteq> b \<longrightarrow> live_row m' c = live_row m c"
    "bset marked' = bset marked \<union> pass_marks p b (?in b)"
    using liveness_transfer_ok[OF ready events b' g(1)[unfolded pass_blocks_def] g(3) pass_problem_def[of p] arr(2)]
    unfolding pass_blocks_def[symmetric] by (elim exE conjE) (rule that; (assumption | simp add: pass_marks_def))
  have rec: "recomputed ?pr b (\<lambda>_. {}) (live_row m) ((\<lambda>_. {})(b := ?in b)) (live_row m')"
    using t(4,5) by (simp add: recomputed_def blocks)
  have b'': "b < gk_blocks ?pr" using b blocks by simp
  have up: "rising ?pr (\<lambda>_. {}) (live_row m')"
    using recompute_rising[OF g(2) b'' rec] unfolding rising_def by simp
  have good': "pass_good p (m', marked')"
  proof -
    have "pass_marks p b (?in b) \<subseteq> pass_marks p b {k. arrives ?pr k b}"
      unfolding pass_marks_def by (rule marks_in_mono[OF arr(1)])
    then have "bset marked' \<subseteq> bset (lp_used p) \<union> (\<Union>b < pass_blocks p. pass_marks p b {k. arrives ?pr k b})"
      using t(6) g(5) b by blast
    then show ?thesis using t(2,3,6) g(4) up by (auto simp: pass_good_def)
  qed
  have holds: "pass_holds p c (m', marked')"
    if c: "c < pass_blocks p" "c = b \<or> pass_holds p c s" "live_row m b \<noteq> live_row m' b \<longrightarrow> c \<notin> set (predecessors_of ?cfg b)" for c
  proof -
    have "live_row m' q = live_row m q" if q: "q \<in> set (gk_preds ?pr c)" for q
    proof (cases "q = b")
      case True
      have "c < length (cfg_blocks ?cfg)" using c(1) by (simp add: pass_blocks_def)
      moreover have "b \<in> fst ` set (successors_of ?cfg c)" using q True by (simp add: pass_problem_def)
      ultimately have "c \<in> set (predecessors_of ?cfg b)" using preds_succs[OF cfg b'] by blast
      then show ?thesis using c(3) True by metis
    next
      case False
      have "q < pass_blocks p" using wf_gen_killD(2)[OF pass_problem_wf[OF v], of c] c(1) q blocks by auto
      then show ?thesis using t(5) False by simp
    qed
    then have in_c: "flow_in ?pr (live_row m') c = ?in c" by (simp add: flow_in_def)
    show ?thesis
    proof (cases "c = b")
      case True
      then show ?thesis using t(4,6) in_c by (simp add: pass_holds_def)
    next
      case False
      then have "pass_holds p c (m, marked)" using c(2) s by simp
      then show ?thesis using t(5,6) c(1) False in_c by (auto simp: pass_holds_def)
    qed
  qed
  have less: "if live_row m b \<noteq> live_row m' b then missing ?pr (live_row m') < missing ?pr (live_row m)
      else missing ?pr (live_row m') = missing ?pr (live_row m)"
    using recompute_missing[OF g(2) b'' rec] by (simp add: eq_commute)
  show "\<exists>changed s'. liveness_transfer (lp_context p) (lp_exact p) (lp_options p) (lp_masks p) (lp_slots p) (lp_events p) b s
        = Some (changed, s') \<and> pass_good p s'
        \<and> (if changed then (case s' of (m, marked) \<Rightarrow> missing ?pr (live_row m)) < (case s of (m, marked) \<Rightarrow> missing ?pr (live_row m))
           else (case s' of (m, marked) \<Rightarrow> missing ?pr (live_row m)) \<le> (case s of (m, marked) \<Rightarrow> missing ?pr (live_row m)))
        \<and> (\<forall>c < pass_blocks p. (c = b \<or> pass_holds p c s) \<longrightarrow> (changed \<longrightarrow> c \<notin> set (predecessors_of ?cfg b)) \<longrightarrow> pass_holds p c s')"
    using t(1)[folded t(4)] good' less holds
    by (intro exI[of _ "live_row m b \<noteq> live_row m' b"] exI[of _ "(m', marked')"]) (auto simp: s split: if_splits)
qed

section \<open>Paths to a read\<close>

text \<open>The value of a name is wanted at an event of a block when a path from there reaches an event that uses
  it and passes none before that overwrites it.\<close>

inductive wanted ::
  "dataflow_context \<Rightarrow> unused_assignment_analysis_options \<Rightarrow> (block_id \<Rightarrow> unused_assignment_event_kind list)
    \<Rightarrow> block_id \<Rightarrow> nat \<Rightarrow> string \<Rightarrow> bool" for ctx opts evs where
  wanted_use: "i < length (evs b) \<Longrightarrow> event_uses_value ctx opts (evs b ! i) x \<Longrightarrow> wanted ctx opts evs b i x"
| wanted_on: "i < length (evs b) \<Longrightarrow> \<not> event_overwrites ctx (evs b ! i) x \<Longrightarrow> wanted ctx opts evs b (Suc i) x
    \<Longrightarrow> wanted ctx opts evs b i x"
| wanted_edge: "c \<in> next_blocks (dc_cfg ctx) b \<Longrightarrow> wanted ctx opts evs c 0 x \<Longrightarrow> wanted ctx opts evs b (length (evs b)) x"

lemma wanted_from:
  assumes "i \<le> length (evs b)" "value_used ctx opts (drop i (evs b)) x
    \<or> \<not> value_lost ctx (drop i (evs b)) x \<and> wanted ctx opts evs b (length (evs b)) x"
  shows "wanted ctx opts evs b i x"
  using assms
proof (induction "length (evs b) - i" arbitrary: i)
  case 0
  then show ?case by (simp add: value_lost_def)
next
  case (Suc d)
  then have i: "i < length (evs b)" by simp
  note drop = Cons_nth_drop_Suc[OF i, symmetric]
  from Suc.prems(2) consider "event_uses_value ctx opts (evs b ! i) x"
    | "\<not> event_overwrites ctx (evs b ! i) x" "value_used ctx opts (drop (Suc i) (evs b)) x
      \<or> \<not> value_lost ctx (drop (Suc i) (evs b)) x \<and> wanted ctx opts evs b (length (evs b)) x"
    unfolding drop by (auto simp: value_lost_def)
  then show ?case
  proof cases
    case 1
    with i show ?thesis by (rule wanted_use)
  next
    case 2
    have "wanted ctx opts evs b (Suc i) x" by (rule Suc.hyps(1)[OF _ _ 2(2)]) (use Suc.hyps(2) i in simp_all)
    with i 2(1) show ?thesis by (rule wanted_on)
  qed
qed

abbreviation pass_events :: "liveness_pass \<Rightarrow> block_id \<Rightarrow> unused_assignment_event_kind list" where
  "pass_events p \<equiv> taken_events (lp_context p) (lp_options p) (lp_events p)"

abbreviation pass_wanted :: "liveness_pass \<Rightarrow> block_id \<Rightarrow> nat \<Rightarrow> string \<Rightarrow> bool" where
  "pass_wanted p \<equiv> wanted (lp_context p) (lp_options p) (pass_events p)"

lemma pass_rows:
  assumes "pass_valid p" "slot_of (lp_exact p) (lp_slots p) x = Some k"
  shows "k \<in> gk_gen (pass_problem p) b \<longleftrightarrow> value_used (lp_context p) (lp_options p) (pass_events p b) x"
    "k \<in> gk_kill (pass_problem p) b \<longleftrightarrow> value_lost (lp_context p) (pass_events p b) x"
    "set (gk_preds (pass_problem p) b) = next_blocks (dc_cfg (lp_context p)) b" "gk_init (pass_problem p) b = {}"
proof -
  note slots = liveness_readyD(5)[OF assms(1)[unfolded pass_valid_def, THEN conjunct1]]
  note row = in_slot_row[OF slots assms(2)]
  show "k \<in> gk_gen (pass_problem p) b \<longleftrightarrow> value_used (lp_context p) (lp_options p) (pass_events p b) x"
    "k \<in> gk_kill (pass_problem p) b \<longleftrightarrow> value_lost (lp_context p) (pass_events p b) x"
    by (simp_all add: pass_problem_def liveness_problem_def row)
  show "set (gk_preds (pass_problem p) b) = next_blocks (dc_cfg (lp_context p)) b" "gk_init (pass_problem p) b = {}"
    by (simp_all add: pass_problem_def next_blocks_def)
qed

lemma arrives_wanted:
  assumes "pass_valid p"
  shows "arrives (pass_problem p) k b \<Longrightarrow> slot_of (lp_exact p) (lp_slots p) x = Some k \<Longrightarrow>
      pass_wanted p b (length (pass_events p b)) x"
    "leaves (pass_problem p) k b \<Longrightarrow> slot_of (lp_exact p) (lp_slots p) x = Some k \<Longrightarrow> pass_wanted p b 0 x"
proof (induction rule: arrives_leaves.inducts)
  case (arrives_init k b)
  then show ?case using pass_rows(4)[OF assms arrives_init(2)] by simp
next
  case (arrives_edge k q b)
  have "q \<in> next_blocks (dc_cfg (lp_context p)) b" using arrives_edge(3) unfolding pass_rows(3)[OF assms arrives_edge(4)] .
  then show ?case by (rule wanted_edge) (rule arrives_edge(2)[OF arrives_edge(4)])
next
  case (leaves_gen k b)
  then have "value_used (lp_context p) (lp_options p) (pass_events p b) x"
    unfolding pass_rows(1)[OF assms leaves_gen.prems] by blast
  then show ?case by (intro wanted_from) simp_all
next
  case (leaves_through k b)
  then have "\<not> value_lost (lp_context p) (pass_events p b) x" "pass_wanted p b (length (pass_events p b)) x"
    unfolding pass_rows(2)[OF assms leaves_through.prems] by blast+
  then show ?case by (intro wanted_from) simp_all
qed

lemma wanted_arrives:
  assumes "pass_valid p"
  shows "pass_wanted p b i x \<Longrightarrow> slot_of (lp_exact p) (lp_slots p) x = Some k \<Longrightarrow>
    value_used (lp_context p) (lp_options p) (drop i (pass_events p b)) x
    \<or> \<not> value_lost (lp_context p) (drop i (pass_events p b)) x \<and> arrives (pass_problem p) k b"
proof (induction rule: wanted.induct)
  case (wanted_use i b x)
  then show ?case unfolding Cons_nth_drop_Suc[OF wanted_use.hyps(1), symmetric] by simp
next
  case (wanted_on i b x)
  from wanted_on.IH[OF wanted_on.prems] wanted_on.hyps(2) show ?case
    unfolding Cons_nth_drop_Suc[OF wanted_on.hyps(1), symmetric] value_lost_def by auto
next
  case (wanted_edge c b x)
  note rows = pass_rows[OF assms wanted_edge.prems]
  from wanted_edge.IH[OF wanted_edge.prems] have "leaves (pass_problem p) k c"
    using rows(1)[of c] rows(2)[of c] by (auto intro: leaves_gen leaves_through)
  then have "arrives (pass_problem p) k b"
    by (rule arrives_edge) (simp only: rows(3) wanted_edge.hyps(1))
  then show ?case by (simp add: value_lost_def)
qed

lemma wanted_iff:
  assumes "pass_valid p" "slot_of (lp_exact p) (lp_slots p) x = Some k" "i \<le> length (pass_events p b)"
  shows "k \<in> live_before (lp_context p) (lp_exact p) (lp_options p) (lp_slots p) (drop i (pass_events p b)) {k. arrives (pass_problem p) k b}
    \<longleftrightarrow> pass_wanted p b i x"
proof -
  note slots = liveness_readyD(5)[OF assms(1)[unfolded pass_valid_def, THEN conjunct1]]
  have arr: "arrives (pass_problem p) k b \<longleftrightarrow> pass_wanted p b (length (pass_events p b)) x"
    using arrives_wanted(1)[OF assms(1) _ assms(2)] wanted_arrives[OF assms(1) _ assms(2), of b "length (pass_events p b)"] by auto
  have "k \<in> live_before (lp_context p) (lp_exact p) (lp_options p) (lp_slots p) (drop i (pass_events p b)) {k. arrives (pass_problem p) k b}
    \<longleftrightarrow> value_used (lp_context p) (lp_options p) (drop i (pass_events p b)) x
      \<or> \<not> value_lost (lp_context p) (drop i (pass_events p b)) x \<and> arrives (pass_problem p) k b"
    unfolding live_before_def Un_iff Diff_iff in_slot_row[OF slots assms(2)] by auto
  then show ?thesis using wanted_from[where evs = "pass_events p" and b = b, OF assms(3), of "lp_context p" "lp_options p" x]
      wanted_arrives[OF assms(1) _ assms(2), of b i] arr by blast
qed

lemma marks_in_iff:
  "j \<in> marks_in ctx ex opts us es L \<longleftrightarrow> (\<exists>i < length es. es ! i = EvBinding j \<and> binding_writes_unused_assignment_slot (dc_bindings ctx ! j)
     \<and> (\<exists>k \<in> live_before ctx ex opts us (drop (Suc i) es) L. slot_of ex us (b_name (dc_bindings ctx ! j)) = Some k))"
proof (induction es)
  case (Cons e es)
  have "j \<in> event_marks ctx ex us e M \<longleftrightarrow> e = EvBinding j \<and> binding_writes_unused_assignment_slot (dc_bindings ctx ! j)
     \<and> (\<exists>k \<in> M. slot_of ex us (b_name (dc_bindings ctx ! j)) = Some k)" for M by (cases e) auto
  with Cons show ?case unfolding marks_in.simps Un_iff by (simp add: Ex_less_Suc2)
qed simp

text \<open>A binding is marked when it gives a name that still matters a value that is wanted behind it.\<close>

definition marked_by_liveness ::
  "dataflow_context \<Rightarrow> unused_assignment_analysis_options \<Rightarrow> dense_bit_set \<Rightarrow> block_events \<Rightarrow> binding_id \<Rightarrow> bool" where
  "marked_by_liveness ctx opts used events j \<longleftrightarrow>
     (\<exists>b < length (cfg_blocks (dc_cfg ctx)). \<exists>i < length (taken_events ctx opts events b).
        taken_events ctx opts events b ! i = EvBinding j
        \<and> binding_writes_unused_assignment_slot (dc_bindings ctx ! j)
        \<and> (\<exists>c \<in> set (dc_bindings ctx). undecided used c \<and> b_name c = b_name (dc_bindings ctx ! j))
        \<and> wanted ctx opts (taken_events ctx opts events) b (Suc i) (b_name (dc_bindings ctx ! j)))"

lemma postorder_found:
  assumes "cfg_ok cfg"
  shows "\<exists>order. compute_postorder cfg = Some order \<and> set order = {..<length (cfg_blocks cfg)}"
  using block_order_ok[OF assms] unfolding compute_postorder_def by blast

lemma slot_count_bound:
  assumes "us_new ids n bs used = Some us"
  shows "us_slot_count us \<le> length bs"
proof -
  have "snd st' \<le> snd st + length bs" if "fold_opt (give_slot ids used) bs st = Some st'" for st st'
    using that
  proof (induction bs arbitrary: st)
    case (Cons b bs)
    then obtain st1 where 1: "give_slot ids used b st = Some st1" "fold_opt (give_slot ids used) bs st1 = Some st'"
      by (auto split: bind_splits)
    have "snd st1 \<le> snd st + 1"
      using 1(1) by (cases st) (auto simp: give_slot_def split: if_splits option.splits bind_splits)
    with Cons.IH[OF 1(2)] show ?case by simp
  qed simp
  then show ?thesis using assms by (force simp: us_new_def split: bind_splits)
qed

theorem liveness_marks_exact:
  assumes "read_sets_ok ctx ex space plans transitive crd" "flow_tables_ok ctx" "sized (length (dc_bindings ctx)) used"
    and "length (cfg_blocks (dc_cfg ctx)) * length (dc_bindings ctx) + 2 \<le> k"
  shows "\<exists>used' events. mark_used_bindings_with_backward_liveness k ctx ex opts plans transitive space used = Some used'
    \<and> build_unused_assignment_events ctx ex plans = Some events \<and> events_ok ctx events
    \<and> sized (length (dc_bindings ctx)) used' \<and> bset used' = bset used \<union> {j. marked_by_liveness ctx opts used events j}"
proof -
  note ok = read_sets_okD[OF assms(1)]
  obtain callers where plans: "plans_ok ctx ex space plans callers" using ok(4) by blast
  have ex: "exact_ok ctx ex" using ok(3) by (simp add: space_fits_def)
  note cfg = context_cfg[OF ok(1)]
  let ?ids = "dbd_binding_name_ids (ex_binding_data ex)" and ?n = "length (cfg_blocks (dc_cfg ctx))"
  obtain us where us: "us_new ?ids (nt_len (ex_names ex)) (dc_bindings ctx) used = Some us" "slots_ok ctx ex used us"
    using slots_given[OF ex ok(1)] by blast
  obtain events where events: "build_unused_assignment_events ctx ex plans = Some events" "events_ok ctx events"
    using events_built[OF ok(1,2) assms(2) ex plans] by blast
  obtain t where t: "slots_for_compact ?ids space us = Some t" "length t = bn_len space"
    "\<And>x c. compact_of ex space x = Some c \<Longrightarrow> t ! c = slot_of ex us x"
    using slots_for_compact_ok[OF ok(3,1) us(2)] by blast
  obtain masks where masks: "call_read_slot_masks plans transitive t (us_slot_count us) = Some masks"
    "shaped (length (dc_scopes ctx)) (us_slot_count us) masks"
    "\<forall>s < length (dc_scopes ctx). mrow masks s = slot_row ex us (scope_reads ctx s)"
    using masks_ok[OF ok(3,5) us(2) t(2,3) ok(8)] by blast
  obtain order where order: "compute_postorder (dc_cfg ctx) = Some order" "set order = {..<?n}"
    using postorder_found[OF cfg] by blast
  let ?p = "\<lparr>lp_context = ctx, lp_exact = ex, lp_options = opts, lp_used = used, lp_slots = us, lp_masks = masks, lp_events = events\<rparr>"
  have v: "pass_valid ?p"
    using ok(1,2) assms(2) ex us(2) masks(2,3) events(2) by (simp add: pass_valid_def liveness_ready_def)
  have start: "pass_good ?p (slm_new ?n (us_slot_count us), used)"
    using live_new[of ?n "us_slot_count us"] assms(3) pass_problem_wf[OF v]
    by (auto simp: pass_good_def pass_blocks_def rising_def)
  have room: "missing (pass_problem ?p) (live_row (slm_new ?n (us_slot_count us))) + 2 \<le> k"
  proof -
    have "missing (pass_problem ?p) (live_row (slm_new ?n (us_slot_count us))) \<le> ?n * us_slot_count us"
      using missing_bound[OF pass_problem_wf[OF v]] by (simp add: pass_problem_def)
    also have "\<dots> \<le> ?n * length (dc_bindings ctx)" using slot_count_bound[OF us(1)] by simp
    finally show ?thesis using assms(4) by simp
  qed
  obtain m used' where run: "run_worklist k ?n (predecessors_of (dc_cfg ctx)) order (liveness_transfer ctx ex opts masks us events)
      (slm_new ?n (us_slot_count us), used) = Some (m, used')" "pass_good ?p (m, used')" "\<forall>c < ?n. pass_holds ?p c (m, used')"
    using liveness.worklist_solves[of order ?p, OF _ start v, of k] order(2) room by (auto simp: pass_blocks_def)
  have result: "mark_used_bindings_with_backward_liveness k ctx ex opts plans transitive space used = Some used'"
    unfolding mark_used_bindings_with_backward_liveness_def Let_def us(1) events(1) t(1) masks(1) order(1) Option.bind_lunit
      run_backward_dataflow_worklist_def run(1) prod.case by (rule refl)
  let ?pr = "pass_problem ?p"
  have good: "rising ?pr (\<lambda>_. {}) (live_row m)" "sized (length (dc_bindings ctx)) used'" "bset used \<subseteq> bset used'"
    "bset used' \<subseteq> bset used \<union> (\<Union>b < ?n. pass_marks ?p b {k. arrives ?pr k b})"
    using run(2) by (simp_all add: pass_good_def pass_blocks_def)
  have blocks: "gk_blocks ?pr = ?n" by (simp add: pass_problem_def)
  have rising: "rising ?pr (flow_in ?pr (live_row m)) (live_row m)"
    using good(1) rising_arrives(1)[OF good(1)] unfolding rising_def by blast
  have arr: "flow_in ?pr (live_row m) b = {k. arrives ?pr k b}" if "b < ?n" for b
    by (rule solution_paths(1)[OF rising]) (use run(3) that blocks in \<open>auto simp: solved_def pass_holds_def\<close>)
  have marks: "bset used' = bset used \<union> (\<Union>b < ?n. pass_marks ?p b {k. arrives ?pr k b})"
    using good(3,4) run(3) arr by (auto simp: pass_holds_def)
  have "j \<in> pass_marks ?p b {k. arrives ?pr k b} \<longleftrightarrow> (\<exists>i < length (taken_events ctx opts events b).
        taken_events ctx opts events b ! i = EvBinding j
        \<and> binding_writes_unused_assignment_slot (dc_bindings ctx ! j)
        \<and> (\<exists>c \<in> set (dc_bindings ctx). undecided used c \<and> b_name c = b_name (dc_bindings ctx ! j))
        \<and> wanted ctx opts (taken_events ctx opts events) b (Suc i) (b_name (dc_bindings ctx ! j)))" for j b
  proof -
    have "(\<exists>k \<in> live_before ctx ex opts us (drop (Suc i) (taken_events ctx opts events b)) {k. arrives ?pr k b}.
          slot_of ex us (b_name (dc_bindings ctx ! j)) = Some k)
        \<longleftrightarrow> (\<exists>c \<in> set (dc_bindings ctx). undecided used c \<and> b_name c = b_name (dc_bindings ctx ! j))
          \<and> wanted ctx opts (taken_events ctx opts events) b (Suc i) (b_name (dc_bindings ctx ! j))"
      if "i < length (taken_events ctx opts events b)" for i
    proof (cases "slot_of ex us (b_name (dc_bindings ctx ! j))")
      case None
      then show ?thesis using slots_okD(3)[OF us(2), of "b_name (dc_bindings ctx ! j)"] by auto
    next
      case (Some k)
      have "Suc i \<le> length (pass_events ?p b)" using that by simp
      from wanted_iff[OF v _ this, of "b_name (dc_bindings ctx ! j)" k] Some
        slots_okD(3)[OF us(2), of "b_name (dc_bindings ctx ! j)"] show ?thesis by auto
    qed
    then show ?thesis unfolding pass_marks_def marks_in_iff by (auto simp: conj_commute cong: conj_cong)
  qed
  then have "bset used' = bset used \<union> {j. marked_by_liveness ctx opts used events j}"
    unfolding marks marked_by_liveness_def by blast
  with result events good(2) show ?thesis by blast
qed

text \<open>C30: The slots of the liveness pass are bounded: there are no more of them than bindings, every slot of
  a name is below their number, no two names share one, and exactly the names with a binding that is
  still undecided have one.\<close>

theorem slot_numbers_bounded:
  assumes "context_ok ctx" "build_exact_variable_dataflow ctx = Some ex"
  shows "\<exists>us. us_new (dbd_binding_name_ids (ex_binding_data ex)) (nt_len (ex_names ex)) (dc_bindings ctx) used = Some us
    \<and> us_slot_count us \<le> length (dc_bindings ctx)
    \<and> (\<forall>x i. slot_of ex us x = Some i \<longrightarrow> i < us_slot_count us)
    \<and> (\<forall>x y i. slot_of ex us x = Some i \<longrightarrow> slot_of ex us y = Some i \<longrightarrow> x = y)
    \<and> (\<forall>x. slot_of ex us x \<noteq> None \<longleftrightarrow>
         (\<exists>b \<in> set (dc_bindings ctx). b_id b \<notin> bset used \<and> \<not> is_function_or_import b \<and> b_name b = x))"
proof -
  have ex: "exact_ok ctx ex" using build_exact_ok[OF assms(1)] assms(2) by auto
  obtain us where us: "us_new (dbd_binding_name_ids (ex_binding_data ex)) (nt_len (ex_names ex)) (dc_bindings ctx) used = Some us"
    "slots_ok ctx ex used us" using slots_given[OF ex assms(1)] by blast
  show ?thesis
    using us(1) slot_count_bound[OF us(1)] us(2)[unfolded slots_ok_def undecided_def] by (intro exI[of _ us]) simp
qed

theorem slot_numbers_bounded_witness:
  "\<exists>cfg ex us. build_control_flow_graph 1 1 flow_program flow_bindings flow_references no_calls = Some cfg
    \<and> build_exact_variable_dataflow (flow_context_of cfg) = Some ex
    \<and> us_new (dbd_binding_name_ids (ex_binding_data ex)) (nt_len (ex_names ex)) flow_assignments (bs_new 2) = Some us
    \<and> us_slot_count us \<le> 2 \<and> slot_of ex us ''x'' \<noteq> None"
proof -
  obtain cfg ex where cfg: "build_control_flow_graph 1 1 flow_program flow_bindings flow_references no_calls = Some cfg"
    and ctx: "context_ok (flow_context_of cfg)" "build_exact_variable_dataflow (flow_context_of cfg) = Some ex"
    using flow_context_ok by (elim exE conjE) (rule that)
  from slot_numbers_bounded[OF ctx, of "bs_new 2"] obtain us where
    us: "us_new (dbd_binding_name_ids (ex_binding_data ex)) (nt_len (ex_names ex)) flow_assignments (bs_new 2) = Some us"
    "us_slot_count us \<le> 2" and named: "\<forall>x. slot_of ex us x \<noteq> None \<longleftrightarrow>
         (\<exists>b \<in> set flow_assignments. b_id b \<notin> bset (bs_new 2) \<and> \<not> is_function_or_import b \<and> b_name b = x)"
    unfolding flow_context_fields by (elim exE conjE) (rule that)
  have "slot_of ex us ''x'' \<noteq> None"
    unfolding named[rule_format] by (simp add: bset_new flow_assignments_def sample_binding_def is_function_or_import_def)
  with cfg ctx(2) us show ?thesis by (intro exI conjI)
qed

end
