(* ===== verification/Unused_Assignments.thy ===== *)
theory Unused_Assignments
  imports Backward_Liveness
begin

text \<open>
  Model of the unused-assignment analysis of \<open>crates/shucked-semantic/src/dataflow/unused.rs\<close>: which
  bindings count as used, the report of the others with its reasons, and the collapse of the reports that
  the branches of one family of assignments would repeat.  The theorem: the report lists, in the order of
  the bindings, exactly those that no use keeps: no reference or use from outside, no path to a read, and,
  for what may outlive a function and for declarations without a value, no later read by offset.
\<close>

section \<open>Which bindings are used\<close>

datatype unused_reason = OverwrittenBy binding_id | ScopeEnd

record unused_assignment =
  ua_binding :: binding_id
  ua_reason :: unused_reason

record unused_assignments_result =
  uar_unused_assignments :: "unused_assignment list"
  uar_unused_assignment_ids :: "binding_id list"

unbundle bit_operations_syntax

text \<open>One round of the first loop, on the used and the always used bindings.\<close>

definition note_used ::
  "dataflow_context \<Rightarrow> binding \<Rightarrow> dense_bit_set \<times> dense_bit_set \<Rightarrow> (dense_bit_set \<times> dense_bit_set) option" where
  "note_used ctx b = (\<lambda>(used, always). do {
     always \<leftarrow> (if is_always_used_binding (dc_runtime ctx) (b_name b) then bs_insert always (b_id b) else Some always);
     used \<leftarrow>
       (if b_references b \<noteq> [] \<or> has_attr b attr_self_referential_read
           \<or> attrs_intersect (b_attributes b) (attr_externally_consumed OR attr_workspace_consumed)
           \<or> bs_contains always (b_id b)
        then bs_insert used (b_id b) else Some used);
     Some (used, always) })"

text \<open>One round of the loop over the bindings whose value may outlive their function.\<close>

definition note_future_reads ::
  "dataflow_context \<Rightarrow> exact_variable_dataflow \<Rightarrow> bound_name_space \<Rightarrow> binding_id option list
    \<Rightarrow> scope_read_plan list \<Rightarrow> dense_bit_matrix \<Rightarrow> compatibility_read_sets \<Rightarrow> binding
    \<Rightarrow> dense_bit_set \<Rightarrow> dense_bit_set option" where
  "note_future_reads ctx ex space shadows plans transitive reads b used = do {
     escapes \<leftarrow> is_function_escape_candidate b (dc_scopes ctx);
     wanted \<leftarrow> (if escapes
       then binding_has_future_reads_before_local_shadow ctx ex space shadows plans transitive reads b else Some False);
     used \<leftarrow> (if wanted then bs_insert used (b_id b) else Some used);
     wanted \<leftarrow> (if shadows_without_initializing b
       then binding_has_future_reads_before_local_shadow ctx ex space shadows plans transitive reads b else Some False);
     (if wanted then bs_insert used (b_id b) else Some used) }"

definition used_by_later_reads ::
  "nat \<Rightarrow> dataflow_context \<Rightarrow> exact_variable_dataflow \<Rightarrow> bound_name_space \<Rightarrow> scope_read_plan list
    \<Rightarrow> caller_read_site list list \<Rightarrow> dense_bit_matrix \<Rightarrow> dense_bit_set \<Rightarrow> dense_bit_set option" where
  "used_by_later_reads k ctx ex space plans callers transitive used = do {
     some_candidate \<leftarrow> any_opt (\<lambda>b. or_opt (is_function_escape_candidate b (dc_scopes ctx))
         (Some (shadows_without_initializing b))) (dc_bindings ctx);
     if \<not> some_candidate then Some used
     else do {
       reads \<leftarrow> compute_compatibility_read_sets k plans callers transitive space;
       shadows \<leftarrow> next_shadowing_local_declarations (dc_bindings ctx) (dbd_binding_name_ids (ex_binding_data ex));
       fold_opt (note_future_reads ctx ex space shadows plans transitive reads) (dc_bindings ctx) used } }"

section \<open>The report\<close>

definition report_unused ::
  "dataflow_context \<Rightarrow> exact_variable_dataflow \<Rightarrow> unused_assignment_analysis_options \<Rightarrow> dense_bit_set
    \<Rightarrow> dense_bit_set \<Rightarrow> binding \<Rightarrow> unused_assignment option option" where
  "report_unused ctx ex opts always used b = do {
     block \<leftarrow> nth_opt (ex_binding_blocks ex) (b_id b);
     case block of
       None \<Rightarrow> Some None
     | Some block \<Rightarrow>
         if is_function_or_import b \<or> bs_contains always (b_id b)
            \<or> bs_contains (ex_unreachable_blocks ex) block \<and> \<not> report_unreachable_assignments opts
            \<or> bs_contains used (b_id b)
         then Some None
         else do {
           overwrite \<leftarrow> nth_opt (dbd_next_overwrite (ex_binding_data ex)) (b_id b);
           let reason = (case overwrite of Some i \<Rightarrow> OverwrittenBy i | None \<Rightarrow> ScopeEnd);
           initializer \<leftarrow>
             (case overwrite of
                None \<Rightarrow> Some False
              | Some i \<Rightarrow>
                  if \<not> has_attr b attr_empty_initializer then Some False
                  else if has_attr b attr_local then Some True
                  else do {
                    overwrite_block \<leftarrow> nth_opt (ex_binding_blocks ex) i;
                    case overwrite_block of
                      None \<Rightarrow> Some False
                    | Some target \<Rightarrow> is_straight_line_overwrite (dc_cfg ctx) block target });
           Some (if initializer then None else Some \<lparr>ua_binding = b_id b, ua_reason = reason\<rparr>) } }"

definition report_all ::
  "dataflow_context \<Rightarrow> exact_variable_dataflow \<Rightarrow> unused_assignment_analysis_options \<Rightarrow> dense_bit_set
    \<Rightarrow> dense_bit_set \<Rightarrow> unused_assignment list option" where
  "report_all ctx ex opts always used =
     fold_opt (\<lambda>b found. do {
         report \<leftarrow> report_unused ctx ex opts always used b;
         Some (case report of None \<Rightarrow> found | Some u \<Rightarrow> found @ [u]) }) (dc_bindings ctx) []"

section \<open>Families of assignments in branches\<close>

definition build_bindings_by_name :: "binding list \<Rightarrow> (string \<rightharpoonup> binding_id list)" where
  "build_bindings_by_name bindings =
     fold (\<lambda>b m. m(b_name b \<mapsto> map_default m (b_name b) @ [b_id b])) bindings Map.empty"

definition cfg_has_no_branching_edges :: "control_flow_graph \<Rightarrow> bool" where
  "cfg_has_no_branching_edges cfg = list_all (\<lambda>block.
     length (predecessors_of cfg (bb_id block)) \<le> 1 \<and> length (successors_of cfg (bb_id block)) \<le> 1
     \<and> list_all (\<lambda>(_, edge). edge = Sequential) (successors_of cfg (bb_id block))) (cfg_blocks cfg)"

definition participates_in_unused_assignment_family :: "binding_kind \<Rightarrow> bool" where
  "participates_in_unused_assignment_family kind \<longleftrightarrow>
     (case kind of FunctionDefinition \<Rightarrow> False | Imported \<Rightarrow> False | Nameref \<Rightarrow> False | _ \<Rightarrow> True)"

definition can_survive_unused_assignment_branch_collapse :: "binding_kind \<Rightarrow> binding_attributes \<Rightarrow> bool" where
  "can_survive_unused_assignment_branch_collapse kind attributes \<longleftrightarrow>
     (case kind of
        Assignment \<Rightarrow> True | ArrayAssignment \<Rightarrow> True | LoopVariable \<Rightarrow> True | ReadTarget \<Rightarrow> True | MapfileTarget \<Rightarrow> True
      | PrintfTarget \<Rightarrow> True | GetoptsTarget \<Rightarrow> True | ZparseoptsTarget \<Rightarrow> True | ArithmeticAssignment \<Rightarrow> True
      | Declaration _ \<Rightarrow> attrs_contain attributes attr_declaration_initialized
      | _ \<Rightarrow> False)"

record redundant_branch_context =
  rb_cfg :: control_flow_graph
  rb_bindings :: "binding list"
  rb_bindings_by_name :: "string \<rightharpoonup> binding_id list"
  rb_binding_blocks :: "block_id option list"
  rb_unreachable_blocks :: dense_bit_set
  rb_unused_binding_ids :: "binding_id set"

text \<open>The filters of \<open>later_participants\<close> on one candidate: its block, when the candidate is kept.\<close>

definition later_participant ::
  "redundant_branch_context \<Rightarrow> binding_id \<Rightarrow> binding \<Rightarrow> binding_id \<Rightarrow> block_id option option" where
  "later_participant rb i b c =
     (if c \<le> i then Some None
      else do {
        candidate \<leftarrow> nth_opt (rb_bindings rb) c;
        if \<not> (b_scope candidate = b_scope b \<and> participates_in_unused_assignment_family (b_kind candidate)) then Some None
        else do {
          block \<leftarrow> nth_opt (rb_binding_blocks rb) c;
          Some (case block of
              None \<Rightarrow> None
            | Some block \<Rightarrow> if bs_contains (rb_unreachable_blocks rb) block then None else Some block) } })"

text \<open>\<open>Iterator::next\<close>: the first participant with its block, and the candidates that are left.\<close>

fun next_participant ::
  "redundant_branch_context \<Rightarrow> binding_id \<Rightarrow> binding \<Rightarrow> binding_id list
    \<Rightarrow> (binding_id \<times> block_id \<times> binding_id list) option option" where
  "next_participant rb i b [] = Some None"
| "next_participant rb i b (c # cs) = do {
     block \<leftarrow> later_participant rb i b c;
     case block of None \<Rightarrow> next_participant rb i b cs | Some block \<Rightarrow> Some (Some (c, block, cs)) }"

definition should_suppress_redundant_branch_unused_assignment ::
  "redundant_branch_context \<Rightarrow> binding_id \<Rightarrow> reachability_cache \<Rightarrow> (bool \<times> reachability_cache) option" where
  "should_suppress_redundant_branch_unused_assignment rb i cache = do {
     b \<leftarrow> nth_opt (rb_bindings rb) i;
     if \<not> participates_in_unused_assignment_family (b_kind b) then Some (False, cache)
     else do {
       block \<leftarrow> nth_opt (rb_binding_blocks rb) i;
       case block of
         None \<Rightarrow> Some (False, cache)
       | Some block \<Rightarrow> (case rb_bindings_by_name rb (b_name b) of
           None \<Rightarrow> Some (False, cache)
         | Some later_bindings \<Rightarrow> do {
             found \<leftarrow> next_participant rb i b later_bindings;
             case found of
               None \<Rightarrow> Some (False, cache)
             | Some (next_id, next_block, rest) \<Rightarrow> do {
                 (reaches, cache) \<leftarrow> block_can_reach (rb_cfg rb) block next_block cache;
                 if reaches then Some (False, cache)
                 else do {
                   next_binding \<leftarrow> nth_opt (rb_bindings rb) next_id;
                   if next_id \<notin> rb_unused_binding_ids rb
                      \<or> \<not> can_survive_unused_assignment_branch_collapse (b_kind next_binding) (b_attributes next_binding)
                   then Some (False, cache)
                   else do {
                     used_later \<leftarrow> any_opt (\<lambda>c. map_option (\<lambda>block. block \<noteq> None \<and> c \<notin> rb_unused_binding_ids rb)
                         (later_participant rb i b c)) rest;
                     Some (\<not> used_later, cache) } } } }) } }"

definition collapse_redundant_branch_unused_assignment_ids ::
  "control_flow_graph \<Rightarrow> binding list \<Rightarrow> block_id option list \<Rightarrow> dense_bit_set \<Rightarrow> unused_assignment list \<Rightarrow> binding_id list option" where
  "collapse_redundant_branch_unused_assignment_ids cfg bindings binding_blocks unreachable_blocks unused =
     (if length unused < 2 \<or> cfg_has_no_branching_edges cfg then Some (map ua_binding unused)
      else map_option fst (fold_opt (\<lambda>u (ids, cache). do {
          (suppressed, cache) \<leftarrow> should_suppress_redundant_branch_unused_assignment
            \<lparr>rb_cfg = cfg, rb_bindings = bindings, rb_bindings_by_name = build_bindings_by_name bindings,
             rb_binding_blocks = binding_blocks, rb_unreachable_blocks = unreachable_blocks,
             rb_unused_binding_ids = ua_binding ` set unused\<rparr> (ua_binding u) cache;
          Some (if suppressed then ids else ids @ [ua_binding u], cache) })
        unused ([], replicate (length (cfg_blocks cfg)) None)))"

text \<open>With fuel for the fixpoints.\<close>

definition analyze_unused_assignments_exact ::
  "nat \<Rightarrow> dataflow_context \<Rightarrow> exact_variable_dataflow \<Rightarrow> unused_assignment_analysis_options
    \<Rightarrow> unused_assignments_result option" where
  "analyze_unused_assignments_exact k ctx ex opts = do {
     space \<leftarrow> bn_new (dbd_binding_name_ids (ex_binding_data ex)) (nt_len (ex_names ex));
     (plans, callers) \<leftarrow> build_scope_read_plans ctx ex space;
     transitive \<leftarrow> compute_transitive_read_sets k plans (dc_scopes ctx) (bn_len space);
     let none = bs_new (length (dc_bindings ctx));
     (used, always) \<leftarrow> fold_opt (note_used ctx) (dc_bindings ctx) (none, none);
     used \<leftarrow> mark_used_bindings_with_backward_liveness k ctx ex opts plans transitive space used;
     used \<leftarrow> used_by_later_reads k ctx ex space plans callers transitive used;
     unused \<leftarrow> report_all ctx ex opts always used;
     ids \<leftarrow> collapse_redundant_branch_unused_assignment_ids (dc_cfg ctx) (dc_bindings ctx) (ex_binding_blocks ex)
       (if report_unreachable_assignments opts then bs_new (length (cfg_blocks (dc_cfg ctx))) else ex_unreachable_blocks ex)
       unused;
     Some \<lparr>uar_unused_assignments = unused, uar_unused_assignment_ids = ids\<rparr> }"

definition analyze_unused_assignments_with_options ::
  "nat \<Rightarrow> dataflow_context \<Rightarrow> exact_variable_dataflow \<Rightarrow> unused_assignment_analysis_options \<Rightarrow> binding_id list option" where
  "analyze_unused_assignments_with_options k ctx ex opts =
     map_option (\<lambda>r. map ua_binding (uar_unused_assignments r)) (analyze_unused_assignments_exact k ctx ex opts)"

section \<open>The bindings that are used at once\<close>

definition read_directly :: "dataflow_context \<Rightarrow> binding \<Rightarrow> bool" where
  "read_directly ctx b \<longleftrightarrow> b_references b \<noteq> [] \<or> has_attr b attr_self_referential_read
     \<or> attrs_intersect (b_attributes b) (attr_externally_consumed OR attr_workspace_consumed)
     \<or> is_always_used_binding (dc_runtime ctx) (b_name b)"

lemma indexed_id: "bindings_indexed bs \<Longrightarrow> i < length bs \<Longrightarrow> b_id (bs ! i) = i"
  by (rule map_index) (simp_all add: bindings_indexed_def)

text \<open>The loops over the bindings: what holds before each round holds with the next position after it.\<close>

lemma fold_positions:
  assumes "I 0 s" and step: "\<And>i s. i < length xs \<Longrightarrow> I i s \<Longrightarrow> \<exists>s'. f (xs ! i) s = Some s' \<and> I (Suc i) s'"
  shows "\<exists>s'. fold_opt f xs s = Some s' \<and> I (length xs) s'"
proof -
  have "\<exists>s'. fold_opt f (drop k xs) s = Some s' \<and> I (length xs) s'" if "k \<le> length xs" "I k s" for k s
    using that
  proof (induction "length xs - k" arbitrary: k s)
    case (Suc d)
    then have k: "k < length xs" by simp
    from step[OF k Suc.prems(2)] obtain t where t: "f (xs ! k) s = Some t" "I (Suc k) t" by blast
    have "d = length xs - Suc k" "Suc k \<le> length xs" using Suc.hyps(2) k by simp_all
    from Suc.hyps(1)[OF this t(2)] t(1) show ?case unfolding Cons_nth_drop_Suc[OF k, symmetric] by simp
  qed auto
  from this[of 0 s] assms(1) show ?thesis by simp
qed

lemma below_Suc: "{j. j < i \<and> P j} \<union> {j. j = i \<and> P j} = {j. j < Suc i \<and> P j}"
  by (auto simp: less_Suc_eq)

lemma grow_used:
  assumes "sized n used"
    and step: "\<And>i u. i < length bs \<Longrightarrow> sized n u \<Longrightarrow>
      \<exists>u'. f (bs ! i) u = Some u' \<and> sized n u' \<and> bset u' = bset u \<union> {j. j = i \<and> P j}"
  shows "\<exists>used'. fold_opt f bs used = Some used' \<and> sized n used' \<and> bset used' = bset used \<union> {i. i < length bs \<and> P i}"
proof (rule fold_positions[where I = "\<lambda>k u. sized n u \<and> bset u = bset used \<union> {i. i < k \<and> P i}"], goal_cases)
  case (2 i u)
  with step[of i u] obtain u' where u': "f (bs ! i) u = Some u'" "sized n u'" "bset u' = bset u \<union> {j. j = i \<and> P j}" by blast
  with 2 have "bset u' = bset used \<union> {j. j < Suc i \<and> P j}" by (auto simp: less_Suc_eq)
  with u' show ?case by blast
qed (use assms(1) in simp)

lemma note_used_ok:
  assumes "bindings_indexed (dc_bindings ctx)" "i < length (dc_bindings ctx)"
    and "sized (length (dc_bindings ctx)) used" "sized (length (dc_bindings ctx)) always"
    and "i \<notin> bset always"
  shows "\<exists>used' always'. note_used ctx (dc_bindings ctx ! i) (used, always) = Some (used', always')
    \<and> sized (length (dc_bindings ctx)) used' \<and> sized (length (dc_bindings ctx)) always'
    \<and> bset used' = bset used \<union> {j. j = i \<and> read_directly ctx (dc_bindings ctx ! j)}
    \<and> bset always' = bset always \<union> {j. j = i \<and> is_always_used_binding (dc_runtime ctx) (b_name (dc_bindings ctx ! j))}"
proof -
  let ?b = "dc_bindings ctx ! i"
  note id = indexed_id[OF assms(1,2)]
  obtain a where a: "bs_insert always i = Some a" "sized (length (dc_bindings ctx)) a" "bset a = insert i (bset always)"
    using insert_bset[OF assms(4,2)] by blast
  obtain u where u: "bs_insert used i = Some u" "sized (length (dc_bindings ctx)) u" "bset u = insert i (bset used)"
    using insert_bset[OF assms(3,2)] by blast
  show ?thesis
  proof (cases "is_always_used_binding (dc_runtime ctx) (b_name ?b)")
    case True
    then have "note_used ctx ?b (used, always) = Some (u, a)" by (simp add: note_used_def id a u contains_bset)
    moreover have "read_directly ctx ?b" using True by (simp add: read_directly_def)
    ultimately show ?thesis using a u True by auto
  next
    case False
    then have "note_used ctx ?b (used, always) = Some (if read_directly ctx ?b then u else used, always)"
      using assms(5) by (auto simp: note_used_def id u contains_bset read_directly_def)
    then show ?thesis using assms(3,4) u False by auto
  qed
qed

lemma all_noted:
  assumes "bindings_indexed (dc_bindings ctx)"
  shows "\<exists>used always. fold_opt (note_used ctx) (dc_bindings ctx)
      (bs_new (length (dc_bindings ctx)), bs_new (length (dc_bindings ctx))) = Some (used, always)
    \<and> sized (length (dc_bindings ctx)) used
    \<and> bset used = {i. i < length (dc_bindings ctx) \<and> read_directly ctx (dc_bindings ctx ! i)}
    \<and> bset always = {i. i < length (dc_bindings ctx) \<and> is_always_used_binding (dc_runtime ctx) (b_name (dc_bindings ctx ! i))}"
proof -
  let ?bs = "dc_bindings ctx" and ?n = "length (dc_bindings ctx)"
  let ?R = "\<lambda>i. read_directly ctx (?bs ! i)" and ?A = "\<lambda>i. is_always_used_binding (dc_runtime ctx) (b_name (?bs ! i))"
  let ?I = "\<lambda>k (used, always). sized ?n used \<and> sized ?n always \<and> bset used = {i. i < k \<and> ?R i} \<and> bset always = {i. i < k \<and> ?A i}"
  have "\<exists>s'. fold_opt (note_used ctx) ?bs (bs_new ?n, bs_new ?n) = Some s' \<and> ?I ?n s'"
  proof (rule fold_positions[where I = "?I"], goal_cases)
    case (2 i s)
    obtain used always where s: "s = (used, always)" by (cases s)
    note inv = 2(2)[unfolded s prod.case]
    have i: "sized ?n used" "sized ?n always" "i \<notin> bset always" using inv by (blast, blast, simp)
    from note_used_ok[OF assms 2(1) i] obtain u a where 1: "note_used ctx (?bs ! i) (used, always) = Some (u, a)"
      "sized ?n u" "sized ?n a" "bset u = bset used \<union> {j. j = i \<and> ?R j}" "bset a = bset always \<union> {j. j = i \<and> ?A j}" by blast
    have "?I (Suc i) (u, a)" using inv 1(2,3) unfolding prod.case 1(4,5) by (simp only: below_Suc simp_thms)
    with 1(1) show ?case unfolding s by blast
  qed (simp add: bset_new)
  then show ?thesis by auto
qed

section \<open>The bindings that later reads use\<close>

definition future_used :: "dataflow_context \<Rightarrow> binding_id \<Rightarrow> bool" where
  "future_used ctx i \<longleftrightarrow> (is_function_escape_candidate (dc_bindings ctx ! i) (dc_scopes ctx) = Some True
     \<or> shadows_without_initializing (dc_bindings ctx ! i)) \<and> wanted_before_shadow ctx i"

lemma escape_candidate_known:
  assumes "reads_ok ctx" "b \<in> set (dc_bindings ctx)"
  shows "\<exists>e. is_function_escape_candidate b (dc_scopes ctx) = Some e"
proof -
  have "b_scope b < length (dc_scopes ctx)" using assms by (simp add: reads_ok_def)
  then show ?thesis by (simp add: is_function_escape_candidate_def panic_simps)
qed

lemma future_reads_noted:
  assumes "read_sets_ok ctx ex space plans tr crd" "i < length (dc_bindings ctx)" "sized (length (dc_bindings ctx)) u"
    and "next_shadowing_local_declarations (dc_bindings ctx) (dbd_binding_name_ids (ex_binding_data ex)) = Some shadows"
  shows "\<exists>u'. note_future_reads ctx ex space shadows plans tr crd (dc_bindings ctx ! i) u = Some u'
    \<and> sized (length (dc_bindings ctx)) u' \<and> bset u' = bset u \<union> {j. j = i \<and> future_used ctx j}"
proof -
  note ok = read_sets_okD[OF assms(1)]
  let ?b = "dc_bindings ctx ! i" and ?n = "length (dc_bindings ctx)"
  have id: "b_id ?b = i" using ok(1) assms(2) by (simp add: context_ok_def indexed_id)
  obtain e where e: "is_function_escape_candidate ?b (dc_scopes ctx) = Some e"
    using escape_candidate_known[OF ok(2), of ?b] assms(2) by auto
  obtain v where v: "bs_insert u i = Some v" "sized ?n v" "bset v = insert i (bset u)"
    using insert_bset[OF assms(3,2)] by blast
  obtain w where w: "bs_insert v i = Some w" "sized ?n w" "bset w = insert i (bset v)"
    using insert_bset[OF v(2) assms(2)] by blast
  note opened = note_future_reads_def e reads_before_shadow_exact[OF assms(1,2,4)] id Option.bind_lunit if_distrib
  show ?thesis
  proof (cases "wanted_before_shadow ctx i")
    case False
    then show ?thesis using assms(3) by (auto simp: opened future_used_def)
  next
    case True
    consider "e" "shadows_without_initializing ?b" | "e" "\<not> shadows_without_initializing ?b"
      | "\<not> e" "shadows_without_initializing ?b" | "\<not> e" "\<not> shadows_without_initializing ?b" by blast
    then show ?thesis by cases (use True assms(3) v w in \<open>auto simp: opened future_used_def\<close>)
  qed
qed

lemma used_by_later_reads_ok:
  assumes "context_ok ctx" "reads_ok ctx" "space_fits ctx ex space" "plans_ok ctx ex space plans callers"
    and "transitive_ok ctx ex space tr" "sized (length (dc_bindings ctx)) used" "length (dc_scopes ctx) * bn_len space < k"
  shows "\<exists>used'. used_by_later_reads k ctx ex space plans callers tr used = Some used'
    \<and> sized (length (dc_bindings ctx)) used' \<and> bset used' = bset used \<union> {i. i < length (dc_bindings ctx) \<and> future_used ctx i}"
proof -
  let ?bs = "dc_bindings ctx"
  let ?C = "\<lambda>b. is_function_escape_candidate b (dc_scopes ctx) = Some True \<or> shadows_without_initializing b"
  have any: "any_opt (\<lambda>b. or_opt (is_function_escape_candidate b (dc_scopes ctx)) (Some (shadows_without_initializing b))) ?bs
    = Some (\<exists>b \<in> set ?bs. ?C b)"
    by (rule any_opt_eq) (use escape_candidate_known[OF assms(2)] in \<open>fastforce simp: or_opt_def\<close>)
  show ?thesis
  proof (cases "\<exists>b \<in> set ?bs. ?C b")
    case False
    then have none: "{i. i < length ?bs \<and> future_used ctx i} = {}" by (auto simp: future_used_def)
    show ?thesis unfolding used_by_later_reads_def any none using False assms(6) by simp
  next
    case True
    obtain crd where crd: "compute_compatibility_read_sets k plans callers tr space = Some crd" "compatibility_ok ctx ex space plans crd"
      using escaping_reads_exact[OF assms(3,2,4,5,7)] by blast
    have sets: "read_sets_ok ctx ex space plans tr crd"
      using assms(1-5) crd(2) unfolding read_sets_ok_def by blast
    obtain shadows where sh: "next_shadowing_local_declarations ?bs (dbd_binding_name_ids (ex_binding_data ex)) = Some shadows"
      using next_shadows_found[OF sets] by blast
    show ?thesis
      unfolding used_by_later_reads_def any crd(1) sh Option.bind_lunit
      using grow_used[OF assms(6) future_reads_noted[OF sets _ _ sh]] True by simp
  qed
qed

section \<open>What is reported\<close>

definition next_write :: "binding list \<Rightarrow> binding_id \<Rightarrow> binding_id option" where
  "next_write bs i = List.find (\<lambda>j. b_name (bs ! j) = b_name (bs ! i)) [Suc i..<length bs]"

text \<open>The value of a binding reaches a read when it is wanted right behind an event of the binding.\<close>

definition reaches_read ::
  "dataflow_context \<Rightarrow> unused_assignment_analysis_options \<Rightarrow> block_events \<Rightarrow> binding_id \<Rightarrow> bool" where
  "reaches_read ctx opts events i \<longleftrightarrow>
     (\<exists>b < length (cfg_blocks (dc_cfg ctx)). \<exists>e < length (taken_events ctx opts events b).
        taken_events ctx opts events b ! e = EvBinding i
        \<and> wanted ctx opts (taken_events ctx opts events) b (Suc e) (b_name (dc_bindings ctx ! i)))"

definition never_read ::
  "dataflow_context \<Rightarrow> unused_assignment_analysis_options \<Rightarrow> block_events \<Rightarrow> binding_id \<Rightarrow> bool" where
  "never_read ctx opts events i \<longleftrightarrow> (let b = dc_bindings ctx ! i in
     \<not> is_function_or_import b \<and> \<not> read_directly ctx b
     \<and> \<not> (binding_initializes_name b \<noteq> None \<and> reaches_read ctx opts events i) \<and> \<not> future_used ctx i)"

text \<open>An empty initialiser that is overwritten anyway is not worth a report.\<close>

definition quiet_initializer :: "dataflow_context \<Rightarrow> binding_id \<Rightarrow> bool" where
  "quiet_initializer ctx i \<longleftrightarrow> (let b = dc_bindings ctx ! i; block = block_with bb_bindings (dc_cfg ctx) in
     has_attr b attr_empty_initializer
     \<and> (\<exists>j. next_write (dc_bindings ctx) i = Some j
          \<and> (has_attr b attr_local
             \<or> (\<exists>s t. block i = Some s \<and> block j = Some t \<and> (s, t) \<in> (steps (straight_next (dc_cfg ctx)))\<^sup>*))))"

definition reported ::
  "dataflow_context \<Rightarrow> unused_assignment_analysis_options \<Rightarrow> block_events \<Rightarrow> binding_id \<Rightarrow> bool" where
  "reported ctx opts events i \<longleftrightarrow> never_read ctx opts events i
     \<and> (\<exists>block. block_with bb_bindings (dc_cfg ctx) i = Some block
          \<and> (block \<in> set (cfg_unreachable (dc_cfg ctx)) \<longrightarrow> report_unreachable_assignments opts))
     \<and> \<not> quiet_initializer ctx i"

definition report_of :: "dataflow_context \<Rightarrow> binding_id \<Rightarrow> unused_assignment" where
  "report_of ctx i = \<lparr>ua_binding = i, ua_reason =
     (case next_write (dc_bindings ctx) i of None \<Rightarrow> ScopeEnd | Some j \<Rightarrow> OverwrittenBy j)\<rparr>"

text \<open>The two sets of the analysis when the report starts.\<close>

definition use_sets_ok ::
  "dataflow_context \<Rightarrow> unused_assignment_analysis_options \<Rightarrow> block_events \<Rightarrow> dense_bit_set \<Rightarrow> dense_bit_set \<Rightarrow> bool" where
  "use_sets_ok ctx opts events always used \<longleftrightarrow> (\<forall>i < length (dc_bindings ctx). \<not> is_function_or_import (dc_bindings ctx ! i) \<longrightarrow>
     (i \<in> bset always \<or> i \<in> bset used \<longleftrightarrow> \<not> never_read ctx opts events i))"

lemma next_write_bound: "next_write bs i = Some j \<Longrightarrow> j < length bs"
  by (auto simp: next_write_def find_Some_iff)

lemma report_unused_ok:
  assumes "context_ok ctx" "exact_ok ctx ex" "use_sets_ok ctx opts events always used" "i < length (dc_bindings ctx)"
  shows "report_unused ctx ex opts always used (dc_bindings ctx ! i) =
    Some (if reported ctx opts events i then Some (report_of ctx i) else None)"
proof -
  let ?b = "dc_bindings ctx ! i" and ?block = "block_with bb_bindings (dc_cfg ctx)"
  have id: "b_id ?b = i" using assms(1,4) by (simp add: context_ok_def indexed_id)
  have blocks: "nth_opt (ex_binding_blocks ex) j = Some (?block j)" if "j < length (dc_bindings ctx)" for j
    using assms(2) that by (simp add: exact_ok_def panic_simps)
  have next_write: "nth_opt (dbd_next_overwrite (ex_binding_data ex)) i = Some (next_write (dc_bindings ctx) i)"
    using assms(2,4) by (auto simp: exact_ok_def next_writes_def next_write_def panic_simps)
  have dead: "bset (ex_unreachable_blocks ex) = set (cfg_unreachable (dc_cfg ctx))" using assms(2) by (simp add: exact_ok_def)
  show ?thesis
  proof (cases "?block i")
    case None
    then show ?thesis by (simp add: report_unused_def id blocks[OF assms(4)] reported_def)
  next
    case (Some block)
    have within: "block < length (cfg_blocks (dc_cfg ctx))"
      by (rule block_with_within(1)[OF context_cfg[OF assms(1)] Some])
    show ?thesis
    proof (cases "is_function_or_import ?b \<or> i \<in> bset always \<or> i \<in> bset used
        \<or> block \<in> set (cfg_unreachable (dc_cfg ctx)) \<and> \<not> report_unreachable_assignments opts")
      case True
      then have "\<not> reported ctx opts events i"
        using assms(3,4) Some unfolding use_sets_ok_def reported_def never_read_def Let_def by auto
      then show ?thesis using True by (auto simp: report_unused_def id blocks[OF assms(4)] Some contains_bset dead)
    next
      case False
      then have never: "never_read ctx opts events i" using assms(3,4) by (auto simp: use_sets_ok_def)
      then have iff: "reported ctx opts events i \<longleftrightarrow> \<not> quiet_initializer ctx i" using False Some by (auto simp: reported_def)
      have kept: "\<not> (is_function_or_import ?b \<or> bs_contains always i \<or> bs_contains (ex_unreachable_blocks ex) block
          \<and> \<not> report_unreachable_assignments opts \<or> bs_contains used i)"
        using False by (auto simp: contains_bset dead)
      note opened = report_unused_def id blocks[OF assms(4)] Some next_write Option.bind_lunit option.case Let_def
      show ?thesis
      proof (cases "next_write (dc_bindings ctx) i")
        case None
        then have "\<not> quiet_initializer ctx i" by (simp add: quiet_initializer_def Let_def)
        then show ?thesis using kept None by (simp add: opened iff report_of_def)
      next
        case (Some j)
        note j = next_write_bound[OF Some]
        have straight: "is_straight_line_overwrite (dc_cfg ctx) block t = Some ((block, t) \<in> (steps (straight_next (dc_cfg ctx)))\<^sup>*)" for t
          by (rule is_straight_line_ok[OF context_cfg[OF assms(1)] within])
        show ?thesis
          using kept Some by (simp add: opened iff report_of_def quiet_initializer_def blocks[OF j] straight split: option.splits)
      qed
    qed
  qed
qed

lemma report_all_ok:
  assumes "context_ok ctx" "exact_ok ctx ex" "use_sets_ok ctx opts events always used"
  shows "report_all ctx ex opts always used =
    Some (map (report_of ctx) (filter (reported ctx opts events) [0..<length (dc_bindings ctx)]))"
proof -
  let ?I = "\<lambda>k found. found = map (report_of ctx) (filter (reported ctx opts events) [0..<k])"
  have "\<exists>found. report_all ctx ex opts always used = Some found \<and> ?I (length (dc_bindings ctx)) found"
    unfolding report_all_def
  proof (rule fold_positions[where I = ?I], goal_cases)
    case (2 i found)
    then show ?case unfolding report_unused_ok[OF assms 2(1)] by simp
  qed simp
  then show ?thesis by simp
qed

section \<open>Repeated reports in branches\<close>

definition later_member :: "dataflow_context \<Rightarrow> block_id set \<Rightarrow> binding_id \<Rightarrow> binding_id \<Rightarrow> bool" where
  "later_member ctx dead i c \<longleftrightarrow> (let bs = dc_bindings ctx in i < c \<and> c < length bs
     \<and> b_name (bs ! c) = b_name (bs ! i) \<and> b_scope (bs ! c) = b_scope (bs ! i)
     \<and> participates_in_unused_assignment_family (b_kind (bs ! c))
     \<and> (\<exists>t. block_with bb_bindings (dc_cfg ctx) c = Some t \<and> t \<notin> dead))"

text \<open>The report on a binding is repeated by a later one of its family in another branch: no path leads from
  the one to the next, and the value of none of the later ones is used.\<close>

definition branch_duplicate :: "dataflow_context \<Rightarrow> block_id set \<Rightarrow> binding_id set \<Rightarrow> binding_id \<Rightarrow> bool" where
  "branch_duplicate ctx dead unused i \<longleftrightarrow> (let bs = dc_bindings ctx; block = block_with bb_bindings (dc_cfg ctx) in
     participates_in_unused_assignment_family (b_kind (bs ! i))
     \<and> (\<exists>s j t. block i = Some s \<and> List.find (later_member ctx dead i) [0..<length bs] = Some j \<and> block j = Some t
          \<and> (s, t) \<notin> (leads (dc_cfg ctx))\<^sup>*
          \<and> can_survive_unused_assignment_branch_collapse (b_kind (bs ! j)) (b_attributes (bs ! j)))
     \<and> (\<forall>c. later_member ctx dead i c \<longrightarrow> c \<in> unused))"

lemma bindings_by_name:
  assumes "bindings_indexed bs"
  shows "map_default (build_bindings_by_name bs) x = filter (\<lambda>i. b_name (bs ! i) = x) [0..<length bs]"
    "build_bindings_by_name bs x = None \<longleftrightarrow> x \<notin> b_name ` set bs"
proof -
  define enter where "enter = (\<lambda>(b :: binding) m. m(b_name b \<mapsto> map_default m (b_name b) @ [b_id b]))"
  have at: "enter b m x = (if x = b_name b then Some (map_default m (b_name b) @ [b_id b]) else m x)" for b and m :: "string \<rightharpoonup> binding_id list"
    by (simp add: enter_def)
  have built: "build_bindings_by_name bs = fold enter bs Map.empty" unfolding build_bindings_by_name_def enter_def by (rule refl)
  have "map_default (fold enter (take k bs) Map.empty) x = filter (\<lambda>i. b_name (bs ! i) = x) [0..<k]
      \<and> (fold enter (take k bs) Map.empty x = None \<longleftrightarrow> x \<notin> b_name ` set (take k bs))" if "k \<le> length bs" for k
    using that
  proof (induction k)
    case (Suc k)
    then have k: "k < length bs" by simp
    note IH = Suc.IH[OF Suc_leD[OF Suc.prems]]
    have "map_default (enter b m) x = (if x = b_name b then map_default m x @ [b_id b] else map_default m x)"
      for b and m :: "string \<rightharpoonup> binding_id list" by (simp add: map_default_def at)
    then show ?case using IH by (auto simp: take_Suc_conv_app_nth[OF k] indexed_id[OF assms k] at)
  qed (simp add: map_default_def)
  from this[of "length bs"] show "map_default (build_bindings_by_name bs) x = filter (\<lambda>i. b_name (bs ! i) = x) [0..<length bs]"
    "build_bindings_by_name bs x = None \<longleftrightarrow> x \<notin> b_name ` set bs"
    unfolding built by simp_all
qed

definition branch_context_ok ::
  "dataflow_context \<Rightarrow> block_id set \<Rightarrow> binding_id set \<Rightarrow> redundant_branch_context \<Rightarrow> bool" where
  "branch_context_ok ctx dead unused rb \<longleftrightarrow> rb_cfg rb = dc_cfg ctx \<and> rb_bindings rb = dc_bindings ctx
     \<and> rb_bindings_by_name rb = build_bindings_by_name (dc_bindings ctx)
     \<and> rb_binding_blocks rb = map (block_with bb_bindings (dc_cfg ctx)) [0..<length (dc_bindings ctx)]
     \<and> bset (rb_unreachable_blocks rb) = dead \<and> rb_unused_binding_ids rb = unused"

lemma later_participant_ok:
  assumes "branch_context_ok ctx dead unused rb" "c < length (dc_bindings ctx)"
    and "b_name (dc_bindings ctx ! c) = b_name (dc_bindings ctx ! i)"
  shows "later_participant rb i (dc_bindings ctx ! i) c =
    Some (if later_member ctx dead i c then block_with bb_bindings (dc_cfg ctx) c else None)"
proof -
  have "nth_opt (rb_bindings rb) c = Some (dc_bindings ctx ! c)"
    "nth_opt (rb_binding_blocks rb) c = Some (block_with bb_bindings (dc_cfg ctx) c)"
    "bset (rb_unreachable_blocks rb) = dead"
    using assms(1,2) by (simp_all add: branch_context_ok_def panic_simps)
  note at = this
  show ?thesis
    using assms(2,3) at(3) unfolding later_participant_def at(1,2) Option.bind_lunit
    by (cases "block_with bb_bindings (dc_cfg ctx) c") (auto simp: later_member_def Let_def contains_bset)
qed

lemma next_participant_ok:
  assumes "branch_context_ok ctx dead unused rb"
    and "\<And>c. c \<in> set cs \<Longrightarrow> c < length (dc_bindings ctx) \<and> b_name (dc_bindings ctx ! c) = b_name (dc_bindings ctx ! i)"
  shows "next_participant rb i (dc_bindings ctx ! i) cs = Some (case List.find (later_member ctx dead i) cs of
      None \<Rightarrow> None
    | Some j \<Rightarrow> Some (j, the (block_with bb_bindings (dc_cfg ctx) j), tl (dropWhile (\<lambda>c. \<not> later_member ctx dead i c) cs)))"
  using assms(2)
proof (induction cs)
  case (Cons c cs)
  then have c: "later_participant rb i (dc_bindings ctx ! i) c =
    Some (if later_member ctx dead i c then block_with bb_bindings (dc_cfg ctx) c else None)"
    using later_participant_ok[OF assms(1)] by simp
  show ?case
  proof (cases "later_member ctx dead i c")
    case True
    then obtain t where "block_with bb_bindings (dc_cfg ctx) c = Some t" by (auto simp: later_member_def Let_def)
    then show ?thesis using True by (simp add: c)
  next
    case False
    then show ?thesis using Cons by (simp add: c split: option.split)
  qed
qed simp

lemma find_filter: "List.find P (filter Q xs) = List.find (\<lambda>x. Q x \<and> P x) xs"
  by (induction xs) auto

lemma rest_within: "set (tl (dropWhile P xs)) \<subseteq> set xs"
  by (induction xs) auto

lemma rest_after_find:
  assumes "List.find P xs = Some j"
  shows "(\<exists>c \<in> set xs. P c \<and> Q c) \<longleftrightarrow> Q j \<or> (\<exists>c \<in> set (tl (dropWhile (\<lambda>c. \<not> P c) xs)). P c \<and> Q c)"
  using assms by (induction xs) (auto split: if_splits)

lemma should_suppress_ok:
  assumes "context_ok ctx" "branch_context_ok ctx dead unused rb" "i < length (dc_bindings ctx)" "cache_ok (dc_cfg ctx) cache"
  shows "\<exists>cache'. should_suppress_redundant_branch_unused_assignment rb i cache = Some (branch_duplicate ctx dead unused i, cache')
    \<and> cache_ok (dc_cfg ctx) cache'"
proof -
  let ?bs = "dc_bindings ctx" and ?block = "block_with bb_bindings (dc_cfg ctx)" and ?M = "later_member ctx dead i"
  let ?b = "?bs ! i"
  let ?cs = "filter (\<lambda>c. b_name (?bs ! c) = b_name ?b) [0..<length ?bs]"
  note rb = assms(2)[unfolded branch_context_ok_def]
  have ids: "bindings_indexed ?bs" using assms(1) by (simp add: context_ok_def)
  have later: "rb_bindings_by_name rb (b_name ?b) = Some ?cs"
    using bindings_by_name[OF ids, of "b_name ?b"] rb assms(3) by (auto simp: map_default_def split: option.splits)
  have at: "nth_opt (rb_bindings rb) j = Some (?bs ! j)" "nth_opt (rb_binding_blocks rb) j = Some (?block j)"
    if "j < length ?bs" for j using rb that by (simp_all add: panic_simps)
  have same: "List.find ?M ?cs = List.find ?M [0..<length ?bs]"
    unfolding find_filter by (rule arg_cong[where f = "\<lambda>P. List.find P _"]) (auto simp: later_member_def Let_def)
  have found: "next_participant rb i ?b ?cs = Some (case List.find ?M [0..<length ?bs] of None \<Rightarrow> None
      | Some j \<Rightarrow> Some (j, the (?block j), tl (dropWhile (\<lambda>c. \<not> ?M c) ?cs)))"
    using next_participant_ok[OF assms(2), of ?cs i] unfolding same by simp
  note opened = should_suppress_redundant_branch_unused_assignment_def at[OF assms(3)] later found Option.bind_lunit option.case Let_def
  show ?thesis
  proof (cases "participates_in_unused_assignment_family (b_kind ?b) \<and> ?block i \<noteq> None \<and> List.find ?M [0..<length ?bs] \<noteq> None")
    case False
    then have "\<not> branch_duplicate ctx dead unused i" by (auto simp: branch_duplicate_def Let_def)
    then show ?thesis using False assms(4) unfolding opened by (auto split: option.splits)
  next
    case True
    then obtain s j where s: "?block i = Some s" and j: "List.find ?M [0..<length ?bs] = Some j" by blast
    then have M: "?M j" by (auto simp: find_Some_iff)
    then obtain t where t: "?block j = Some t" and jn: "j < length ?bs" by (auto simp: later_member_def Let_def)
    have within: "s < length (cfg_blocks (dc_cfg ctx))" by (rule block_with_within(1)[OF context_cfg[OF assms(1)] s])
    obtain cache' where reach: "block_can_reach (rb_cfg rb) s t cache = Some ((s, t) \<in> (leads (dc_cfg ctx))\<^sup>*, cache')"
      "cache_ok (dc_cfg ctx) cache'"
      using block_can_reach_ok[OF context_cfg[OF assms(1)] assms(4) within] rb by metis
    let ?rest = "tl (dropWhile (\<lambda>c. \<not> ?M c) ?cs)"
    have members: "set ?rest \<subseteq> set ?cs" by (rule rest_within)
    have used_later: "any_opt (\<lambda>c. map_option (\<lambda>block. block \<noteq> None \<and> c \<notin> unused) (later_participant rb i ?b c)) ?rest
        = Some (\<exists>c \<in> set ?rest. ?M c \<and> c \<notin> unused)"
    proof (rule any_opt_eq)
      fix c assume "c \<in> set ?rest"
      then have "c < length ?bs" "b_name (?bs ! c) = b_name ?b" using members by auto
      from later_participant_ok[OF assms(2) this] show
        "map_option (\<lambda>block. block \<noteq> None \<and> c \<notin> unused) (later_participant rb i ?b c) = Some (?M c \<and> c \<notin> unused)"
        by (auto simp: later_member_def Let_def)
    qed
    have find: "List.find ?M ?cs = Some j" unfolding same by (rule j)
    have cs: "c \<in> set ?cs" if "?M c" for c using that by (auto simp: later_member_def Let_def)
    have dup: "(\<forall>c. ?M c \<longrightarrow> c \<in> unused) \<longleftrightarrow> \<not> (j \<notin> unused \<or> (\<exists>c \<in> set ?rest. ?M c \<and> c \<notin> unused))"
      using rest_after_find[OF find, of "\<lambda>c. c \<notin> unused"] cs by blast
    have set_eq: "rb_unused_binding_ids rb = unused" using rb by blast
    show ?thesis
      unfolding opened s j t option.sel prod.case reach(1) at[OF jn] set_eq used_later branch_duplicate_def dup
      using True reach(2) by (auto simp: s t)
  qed
qed

definition collapsed_reports :: "dataflow_context \<Rightarrow> block_id set \<Rightarrow> binding_id list \<Rightarrow> binding_id list" where
  "collapsed_reports ctx dead unused =
     (if length unused < 2 \<or> cfg_has_no_branching_edges (dc_cfg ctx) then unused
      else filter (\<lambda>i. \<not> branch_duplicate ctx dead (set unused) i) unused)"

lemma report_of_binding [simp]: "ua_binding (report_of ctx i) = i"
  by (simp add: report_of_def)

lemma collapse_ok:
  assumes "context_ok ctx" "exact_ok ctx ex" "set unused \<subseteq> {..<length (dc_bindings ctx)}" "bset dead = D"
  shows "collapse_redundant_branch_unused_assignment_ids (dc_cfg ctx) (dc_bindings ctx) (ex_binding_blocks ex) dead
      (map (report_of ctx) unused) = Some (collapsed_reports ctx D unused)"
proof -
  let ?cfg = "dc_cfg ctx" and ?reports = "map (report_of ctx) unused"
  let ?rb = "\<lparr>rb_cfg = ?cfg, rb_bindings = dc_bindings ctx, rb_bindings_by_name = build_bindings_by_name (dc_bindings ctx),
    rb_binding_blocks = ex_binding_blocks ex, rb_unreachable_blocks = dead, rb_unused_binding_ids = ua_binding ` set ?reports\<rparr>"
  have rb: "branch_context_ok ctx D (set unused) ?rb"
    using assms(2,4) by (auto simp: branch_context_ok_def exact_ok_def image_image)
  let ?f = "\<lambda>u (ids, cache). do {
      (suppressed, cache) \<leftarrow> should_suppress_redundant_branch_unused_assignment ?rb (ua_binding u) cache;
      Some (if suppressed then ids else ids @ [ua_binding u], cache) }"
  let ?I = "\<lambda>k (ids, cache). ids = filter (\<lambda>i. \<not> branch_duplicate ctx D (set unused) i) (take k unused) \<and> cache_ok ?cfg cache"
  have "\<exists>s. fold_opt ?f ?reports ([], replicate (length (cfg_blocks ?cfg)) None) = Some s \<and> ?I (length ?reports) s"
  proof (rule fold_positions[where I = ?I], goal_cases)
    case (2 k s)
    obtain ids cache where s: "s = (ids, cache)" by (cases s)
    from 2(1) have k: "k < length unused" by simp
    then have i: "unused ! k < length (dc_bindings ctx)" using assms(3) by (meson lessThan_iff nth_mem subset_iff)
    have inv: "ids = filter (\<lambda>i. \<not> branch_duplicate ctx D (set unused) i) (take k unused)" "cache_ok ?cfg cache"
      using 2(2) by (simp_all add: s)
    from should_suppress_ok[OF assms(1) rb i inv(2)] obtain cache' where
      "should_suppress_redundant_branch_unused_assignment ?rb (unused ! k) cache = Some (branch_duplicate ctx D (set unused) (unused ! k), cache')"
      "cache_ok ?cfg cache'" by blast
    with inv k show ?case by (simp add: s take_Suc_conv_app_nth)
  qed (simp add: cache_ok_def)
  then obtain cache where "fold_opt ?f ?reports ([], replicate (length (cfg_blocks ?cfg)) None)
      = Some (filter (\<lambda>i. \<not> branch_duplicate ctx D (set unused) i) unused, cache)" by auto
  then show ?thesis
    unfolding collapse_redundant_branch_unused_assignment_ids_def collapsed_reports_def by (simp add: comp_def)
qed

section \<open>The analysis\<close>

text \<open>What liveness and the later reads mark, together with the bindings read directly, is what is not
  \<open>never_read\<close>.\<close>

lemma use_sets_found:
  assumes "bset used = {i. i < length (dc_bindings ctx) \<and> read_directly ctx (dc_bindings ctx ! i)}"
    and "bset always = {i. i < length (dc_bindings ctx) \<and> is_always_used_binding (dc_runtime ctx) (b_name (dc_bindings ctx ! i))}"
    and "bset used1 = bset used \<union> {j. marked_by_liveness ctx opts used events j}"
    and "bset used2 = bset used1 \<union> {i. i < length (dc_bindings ctx) \<and> future_used ctx i}"
    and "bindings_indexed (dc_bindings ctx)"
  shows "use_sets_ok ctx opts events always used2"
  unfolding use_sets_ok_def
proof (intro allI impI)
  fix i assume i: "i < length (dc_bindings ctx)" and b: "\<not> is_function_or_import (dc_bindings ctx ! i)"
  let ?b = "dc_bindings ctx ! i"
  have always: "i \<in> bset always \<Longrightarrow> read_directly ctx ?b" unfolding assms(2) by (simp add: read_directly_def)
  have direct: "i \<in> bset used \<longleftrightarrow> read_directly ctx ?b" unfolding assms(1) using i by simp
  have two: "i \<in> bset used2 \<longleftrightarrow> read_directly ctx ?b \<or> marked_by_liveness ctx opts used events i \<or> future_used ctx i"
    unfolding assms(4) assms(3) Un_iff direct mem_Collect_eq using i by blast
  have "marked_by_liveness ctx opts used events i \<longleftrightarrow> binding_initializes_name ?b \<noteq> None \<and> reaches_read ctx opts events i"
    if "\<not> read_directly ctx ?b"
  proof -
    have "undecided used ?b" using that b direct indexed_id[OF assms(5) i] by (simp add: undecided_def)
    then have "\<exists>c \<in> set (dc_bindings ctx). undecided used c \<and> b_name c = b_name ?b" using i by (intro bexI[of _ ?b]) simp_all
    then show ?thesis
      using b unfolding marked_by_liveness_def reaches_read_def binding_writes_unused_assignment_slot_def by blast
  qed
  then show "i \<in> bset always \<or> i \<in> bset used2 \<longleftrightarrow> \<not> never_read ctx opts events i"
    unfolding two never_read_def Let_def using always b by blast
qed

text \<open>A straight line that assigns \<open>x\<close> twice and then reads it: the analysis, run.\<close>

definition default_options :: unused_assignment_analysis_options where
  "default_options = \<lparr>treat_indirect_expansion_targets_as_used = False, report_unreachable_assignments = False\<rparr>"

lemma flow_unused:
  "map_option (\<lambda>cfg. Option.bind (build_exact_variable_dataflow (flow_context_of cfg))
      (\<lambda>ex. analyze_unused_assignments_exact 8 (flow_context_of cfg) ex default_options))
    (build_control_flow_graph 1 1 flow_program flow_bindings flow_references no_calls) =
   Some (Some \<lparr>uar_unused_assignments = [\<lparr>ua_binding = 0, ua_reason = OverwrittenBy 1\<rparr>], uar_unused_assignment_ids = [0]\<rparr>)"
  by code_simp

lemma flow_tables: "flow_tables_ok (flow_context_of cfg)"
  by (simp add: flow_tables_ok_def flow_context_of_def)

text \<open>C4: The analysis of unused assignments returns and reports, in the order of the bindings, exactly those
  that are in a block, are no functions or imports, and have none of the following uses.  First, a reference
  resolved to the binding, a read in its own initialiser, a use from another file, or a name that the shell
  always uses.  Second, for a binding that gives a value: a path of the flow graph from it to an event that
  reads its name, with no overwriting event in between; events of dead code count only when dead code is
  reported on.  Third, for a binding in a function that is not local to it, and for a declaration without a
  value: a read that the callers of the function make, or a read at a later offset of the scope of the
  binding, made there or through a call, whatever is assigned in between, unless a later local declaration of
  the name comes before that read both in the text and on every path.  So in \<open>f() { x=1; x=2; echo "$x"; }\<close>
  neither assignment is reported, although no path carries the first value to the read.  Left out are bindings
  in dead code, unless asked for, and empty initialisers with a later binding of the name, when they are local
  or straight-line flow leads on to that binding.  The reason names the next binding of the name, and the list
  of ids drops just the reports that a later branch of the same family repeats.\<close>

theorem unused_assignments_exact:
  assumes "context_ok ctx" "reads_ok ctx" "flow_tables_ok ctx" "build_exact_variable_dataflow ctx = Some ex"
    and "length (dc_scopes ctx) * length (dc_bindings ctx) < k"
    and "length (cfg_blocks (dc_cfg ctx)) * length (dc_bindings ctx) + 2 \<le> k"
  shows "\<exists>events. events_ok ctx events \<and>
    (let unused = filter (reported ctx opts events) [0..<length (dc_bindings ctx)];
         dead = (if report_unreachable_assignments opts then {} else set (cfg_unreachable (dc_cfg ctx)))
     in analyze_unused_assignments_exact k ctx ex opts =
          Some \<lparr>uar_unused_assignments = map (report_of ctx) unused,
            uar_unused_assignment_ids = collapsed_reports ctx dead unused\<rparr>)"
proof -
  let ?bs = "dc_bindings ctx" and ?names = "ex_names ex"
  have ex: "exact_ok ctx ex" using build_exact_ok[OF assms(1)] assms(4) by auto
  have ix: "bindings_indexed ?bs" using assms(1) by (simp add: context_ok_def)
  obtain space plans callers tr crd where reads:
    "bn_new (dbd_binding_name_ids (ex_binding_data ex)) (nt_len ?names) = Some space"
    "build_scope_read_plans ctx ex space = Some (plans, callers)" "plans_ok ctx ex space plans callers"
    "compute_transitive_read_sets k plans (dc_scopes ctx) (bn_len space) = Some tr"
    "compute_compatibility_read_sets k plans callers tr space = Some crd" "read_sets_ok ctx ex space plans tr crd"
    and room: "length (dc_scopes ctx) * bn_len space < k"
    using read_sets_computed[OF assms(1,2,4,5)] by (elim exE conjE) (rule that)
  note sets = reads(6) and tr = read_sets_okD(5)[OF reads(6)] and space = read_sets_okD(3)[OF reads(6)]
  obtain used always where noted: "fold_opt (note_used ctx) ?bs (bs_new (length ?bs), bs_new (length ?bs)) = Some (used, always)"
    "sized (length ?bs) used" "bset used = {i. i < length ?bs \<and> read_directly ctx (?bs ! i)}"
    "bset always = {i. i < length ?bs \<and> is_always_used_binding (dc_runtime ctx) (b_name (?bs ! i))}"
    using all_noted[OF ix] by (elim exE conjE) (rule that)
  obtain used1 events where live: "mark_used_bindings_with_backward_liveness k ctx ex opts plans tr space used = Some used1"
    "events_ok ctx events" "sized (length ?bs) used1" "bset used1 = bset used \<union> {j. marked_by_liveness ctx opts used events j}"
    using liveness_marks_exact[OF sets assms(3) noted(2) assms(6), of opts] by (elim exE conjE) (rule that)
  obtain used2 where later: "used_by_later_reads k ctx ex space plans callers tr used1 = Some used2"
    "bset used2 = bset used1 \<union> {i. i < length ?bs \<and> future_used ctx i}"
    using used_by_later_reads_ok[OF assms(1,2) space reads(3) tr live(3) room] by (elim exE conjE) (rule that)
  note use = use_sets_found[OF noted(3,4) live(4) later(2) ix]
  let ?unused = "filter (reported ctx opts events) [0..<length ?bs]"
  let ?dead = "if report_unreachable_assignments opts then bs_new (length (cfg_blocks (dc_cfg ctx))) else ex_unreachable_blocks ex"
  have dead: "bset ?dead = (if report_unreachable_assignments opts then {} else set (cfg_unreachable (dc_cfg ctx)))"
    using ex by (simp add: bset_new exact_ok_def)
  have within: "set ?unused \<subseteq> {..<length ?bs}" by auto
  have "analyze_unused_assignments_exact k ctx ex opts = Some \<lparr>uar_unused_assignments = map (report_of ctx) ?unused,
      uar_unused_assignment_ids = collapsed_reports ctx (if report_unreachable_assignments opts then {} else set (cfg_unreachable (dc_cfg ctx))) ?unused\<rparr>"
    unfolding analyze_unused_assignments_exact_def Let_def reads(1,2,4) noted(1) live(1) later(1)
      report_all_ok[OF assms(1) ex use] collapse_ok[OF assms(1) ex within dead] Option.bind_lunit prod.case by (rule refl)
  with live(2) show ?thesis unfolding Let_def by blast
qed

theorem unused_assignments_exact_witness:
  "\<exists>cfg ex events. build_control_flow_graph 1 1 flow_program flow_bindings flow_references no_calls = Some cfg
    \<and> build_exact_variable_dataflow (flow_context_of cfg) = Some ex
    \<and> events_ok (flow_context_of cfg) events
    \<and> map_option (\<lambda>r. map ua_binding (uar_unused_assignments r))
        (analyze_unused_assignments_exact 8 (flow_context_of cfg) ex default_options) = Some [0]
    \<and> filter (reported (flow_context_of cfg) default_options events) [0..<2] = [0]"
proof -
  obtain cfg ex where cfg: "build_control_flow_graph 1 1 flow_program flow_bindings flow_references no_calls = Some cfg"
    and ctx: "context_ok (flow_context_of cfg)" "build_exact_variable_dataflow (flow_context_of cfg) = Some ex"
    and n: "length (cfg_blocks cfg) = 3"
    using flow_context_ok by (elim exE conjE) (rule that)
  have run: "analyze_unused_assignments_exact 8 (flow_context_of cfg) ex default_options =
      Some \<lparr>uar_unused_assignments = [\<lparr>ua_binding = 0, ua_reason = OverwrittenBy 1\<rparr>], uar_unused_assignment_ids = [0]\<rparr>"
    using flow_unused unfolding cfg option.map ctx(2) Option.bind_lunit option.inject .
  have "length (dc_scopes (flow_context_of cfg)) * length (dc_bindings (flow_context_of cfg)) < 8"
    "length (cfg_blocks (dc_cfg (flow_context_of cfg))) * length (dc_bindings (flow_context_of cfg)) + 2 \<le> 8"
    using flow_reads_ok(2)[of cfg] by (simp_all add: flow_context_fields n)
  from unused_assignments_exact[OF ctx(1) flow_reads_ok(1) flow_tables ctx(2) this, of default_options] obtain events where
    events: "events_ok (flow_context_of cfg) events"
    and found: "map (report_of (flow_context_of cfg)) (filter (reported (flow_context_of cfg) default_options events) [0..<2]) =
      [\<lparr>ua_binding = 0, ua_reason = OverwrittenBy 1\<rparr>]"
    unfolding run Let_def flow_context_fields by auto
  from arg_cong[OF found, of "map ua_binding"]
  have "filter (reported (flow_context_of cfg) default_options events) [0..<2] = [0]" by (simp add: comp_def)
  with cfg ctx(2) events show ?thesis by (intro exI conjI) (assumption | simp add: run)+
qed

end
