(* ===== verification/Provided_Bindings.thy ===== *)
theory Provided_Bindings
  imports Liveness_Events
begin

text \<open>
  Model of the summaries of \<open>crates/shucked-semantic/src/dataflow/scope_reads.rs\<close>: the variables and the
  functions that a scope leaves behind at its exits, with how certain they are.  The code goes through
  hash sets and hash maps; \<open>shuffle\<close> is the order in which they yield their keys, and the theorems hold
  for every one.  A variable is definite when no path to an exit leaves it unset.  A function is called
  definite when at every exit some run has a definition of it in force, which is weaker: a function that
  is defined on one branch only counts as definite, the last theorem.
\<close>

section \<open>Provided bindings\<close>

datatype provided_binding_kind = ProvidedVariable | ProvidedFunction

datatype file_entry_binding_initialization = AmbientOnly | InitializedAtEntry

record provided_binding =
  pb_name :: string
  pb_kind :: provided_binding_kind
  pb_certainty :: contract_certainty
  pb_file_entry_initialization :: file_entry_binding_initialization

definition provided_binding_new :: "string \<Rightarrow> provided_binding_kind \<Rightarrow> contract_certainty \<Rightarrow> provided_binding" where
  "provided_binding_new name kind certainty =
     \<lparr>pb_name = name, pb_kind = kind, pb_certainty = certainty, pb_file_entry_initialization = AmbientOnly\<rparr>"

fun kind_number :: "provided_binding_kind \<Rightarrow> nat" where
  "kind_number ProvidedVariable = 0"
| "kind_number ProvidedFunction = 1"

definition compare_provided :: "provided_binding \<Rightarrow> provided_binding \<Rightarrow> rust_ordering" where
  "compare_provided l r = ordering_then (rust_cmp (pb_name l) (pb_name r))
     (rust_cmp (kind_number (pb_kind l)) (kind_number (pb_kind r)))"

section \<open>Counting over the exits\<close>

text \<open>\<open>*counts.entry(name).or_default() += 1\<close> on a hash map kept as its entries.\<close>

fun bump :: "string \<Rightarrow> (string \<times> nat) list \<Rightarrow> (string \<times> nat) list" where
  "bump x [] = [(x, 1)]"
| "bump x ((y, n) # counts) = (if y = x then (y, n + 1) # counts else (y, n) # bump x counts)"

definition count_of :: "(string \<times> nat) list \<Rightarrow> string \<Rightarrow> nat" where
  "count_of counts x = (case map_of counts x of None \<Rightarrow> 0 | Some n \<Rightarrow> n)"

type_synonym presence_counts = "(string \<times> nat) list \<times> (string \<times> nat) list"

definition note_presence ::
  "(block_id \<Rightarrow> string \<Rightarrow> (bool \<times> bool) option) \<Rightarrow> block_id \<Rightarrow> string \<Rightarrow> presence_counts \<Rightarrow> presence_counts option" where
  "note_presence presence exit_block name = (\<lambda>(maybe, definite). do {
     (m, d) \<leftarrow> presence exit_block name;
     Some (if m then bump name maybe else maybe, if d then bump name definite else definite) })"

definition count_presence ::
  "(block_id \<Rightarrow> string \<Rightarrow> (bool \<times> bool) option) \<Rightarrow> block_id list \<Rightarrow> string list \<Rightarrow> presence_counts option" where
  "count_presence presence exits eligible =
     fold_opt (\<lambda>exit_block. fold_opt (note_presence presence exit_block) eligible) exits ([], [])"

definition provided_from_counts ::
  "(string list \<Rightarrow> string list) \<Rightarrow> provided_binding_kind \<Rightarrow> nat \<Rightarrow> presence_counts \<Rightarrow> provided_binding list" where
  "provided_from_counts shuffle kind exit_count = (\<lambda>(maybe, definite).
     sort_by compare_provided (List.map_filter (\<lambda>name.
       if count_of definite name = exit_count then Some (provided_binding_new name kind Definite)
       else if count_of maybe name > 0 then Some (provided_binding_new name kind Possible)
       else None) (shuffle (map fst maybe))))"

section \<open>The summaries\<close>

definition exact_scope_components :: "dataflow_context \<Rightarrow> dense_bit_set list option" where
  "exact_scope_components ctx =
     compute_scope_components_dense (dc_cfg ctx) (length (dc_scopes ctx)) (length (cfg_blocks (dc_cfg ctx)))"

definition variable_presence ::
  "exact_variable_dataflow \<Rightarrow> dense_initialized_name_states \<Rightarrow> block_id \<Rightarrow> string \<Rightarrow> (bool \<times> bool) option" where
  "variable_presence ex states exit_block name =
     (case nt_get (ex_names ex) name of
        None \<Rightarrow> Some (False, False)
      | Some n \<Rightarrow> Some (bm_contains (in_maybe_out states) exit_block n, bm_contains (in_definite_out states) exit_block n))"

definition summarize_scope_provided_bindings ::
  "(string list \<Rightarrow> string list) \<Rightarrow> nat \<Rightarrow> dataflow_context \<Rightarrow> exact_variable_dataflow \<Rightarrow> scope_id
    \<Rightarrow> provided_binding list option" where
  "summarize_scope_provided_bindings shuffle k ctx ex scope = do {
     components \<leftarrow> exact_scope_components ctx;
     exits \<leftarrow> exit_blocks_for_scope (dc_cfg ctx) components scope;
     if exits = [] then Some []
     else do {
       let eligible = shuffle (remdups (map b_name (filter (\<lambda>b. b_scope b = scope \<and> \<not> has_attr b attr_local
         \<and> binding_initializes_name b \<noteq> None) (dc_bindings ctx))));
       states \<leftarrow> exact_initialized_name_states k ctx ex;
       counts \<leftarrow> count_presence (variable_presence ex states) exits eligible;
       Some (provided_from_counts shuffle ProvidedVariable (length exits) counts) } }"

text \<open>One round of the loop over the bindings of a name.\<close>

definition note_function ::
  "dataflow_context \<Rightarrow> dense_reaching_definitions \<Rightarrow> scope_id \<Rightarrow> block_id \<Rightarrow> nat \<Rightarrow> bool \<times> bool \<Rightarrow> (bool \<times> bool) option" where
  "note_function ctx rd scope exit_block i = (\<lambda>(maybe, definite).
     if \<not> bm_contains (rd_out rd) exit_block i then Some (maybe, definite)
     else do {
       b \<leftarrow> nth_opt (dc_bindings ctx) i;
       if b_scope b \<noteq> scope then Some (maybe, definite)
       else (case function_binding_certainty b of
           None \<Rightarrow> Some (maybe, definite)
         | Some certainty \<Rightarrow> Some (True, definite \<or> certainty = Definite)) })"

definition function_presence ::
  "dataflow_context \<Rightarrow> exact_variable_dataflow \<Rightarrow> dense_reaching_definitions \<Rightarrow> scope_id \<Rightarrow> block_id \<Rightarrow> string
    \<Rightarrow> (bool \<times> bool) option" where
  "function_presence ctx ex rd scope exit_block name =
     (case nt_get (ex_names ex) name of
        None \<Rightarrow> Some (False, False)
      | Some n \<Rightarrow> do {
          bs \<leftarrow> nth_opt (dbd_bindings_for_name (ex_binding_data ex)) n;
          fold_opt (note_function ctx rd scope exit_block) (iter_collect (bs_iter_ones bs)) (False, False) })"

definition summarize_scope_provided_functions ::
  "(string list \<Rightarrow> string list) \<Rightarrow> nat \<Rightarrow> dataflow_context \<Rightarrow> exact_variable_dataflow \<Rightarrow> scope_id
    \<Rightarrow> provided_binding list option" where
  "summarize_scope_provided_functions shuffle k ctx ex scope = do {
     rd \<leftarrow> exact_reaching_definitions k ctx ex;
     components \<leftarrow> exact_scope_components ctx;
     exits \<leftarrow> exit_blocks_for_scope (dc_cfg ctx) components scope;
     if exits = [] then Some []
     else do {
       let eligible = shuffle (remdups (map b_name (filter (\<lambda>b. b_scope b = scope
         \<and> function_binding_certainty b \<noteq> None) (dc_bindings ctx))));
       counts \<leftarrow> count_presence (function_presence ctx ex rd scope) exits eligible;
       Some (provided_from_counts shuffle ProvidedFunction (length exits) counts) } }"

section \<open>Counts\<close>

lemma bump_ok:
  "count_of (bump x counts) y = count_of counts y + (if y = x then 1 else 0)"
  "set (map fst (bump x counts)) = insert x (set (map fst counts))"
  "distinct (map fst counts) \<Longrightarrow> distinct (map fst (bump x counts))"
proof -
  show "count_of (bump x counts) y = count_of counts y + (if y = x then 1 else 0)"
    by (induction counts) (auto simp: count_of_def)
  show keys: "set (map fst (bump x counts)) = insert x (set (map fst counts))" for counts
    by (induction x counts rule: bump.induct) (simp_all add: insert_commute)
  show "distinct (map fst counts) \<Longrightarrow> distinct (map fst (bump x counts))"
    by (induction counts) (use keys in auto)
qed

text \<open>A table that counts how many of the exits have a name.\<close>

definition counts_ok :: "string set \<Rightarrow> (block_id \<Rightarrow> string \<Rightarrow> bool) \<Rightarrow> block_id list \<Rightarrow> (string \<times> nat) list \<Rightarrow> bool" where
  "counts_ok names P exits counts \<longleftrightarrow> distinct (map fst counts)
     \<and> set (map fst counts) = {x \<in> names. \<exists>e \<in> set exits. P e x}
     \<and> (\<forall>x \<in> names. count_of counts x = length (filter (\<lambda>e. P e x) exits))"

lemma note_exit_ok:
  assumes "\<And>x. x \<in> set names \<Longrightarrow> presence e x = Some (P e x, Q e x)" "distinct names"
    and "counts_ok (set names) P exits maybe" "counts_ok (set names) Q exits definite"
  shows "\<exists>maybe' definite'. fold_opt (note_presence presence e) names (maybe, definite) = Some (maybe', definite')
    \<and> counts_ok (set names) P (exits @ [e]) maybe' \<and> counts_ok (set names) Q (exits @ [e]) definite'"
proof -
  have step: "\<exists>maybe' definite'. fold_opt (note_presence presence e) xs (maybe, definite) = Some (maybe', definite')
      \<and> distinct (map fst maybe') \<and> set (map fst maybe') = set (map fst maybe) \<union> {x \<in> set xs. P e x}
      \<and> (\<forall>x. count_of maybe' x = count_of maybe x + (if x \<in> set xs \<and> P e x then 1 else 0))
      \<and> distinct (map fst definite') \<and> set (map fst definite') = set (map fst definite) \<union> {x \<in> set xs. Q e x}
      \<and> (\<forall>x. count_of definite' x = count_of definite x + (if x \<in> set xs \<and> Q e x then 1 else 0))"
    if "set xs \<subseteq> set names" "distinct xs" "distinct (map fst maybe)" "distinct (map fst definite)" for xs maybe definite
    using that
  proof (induction xs arbitrary: maybe definite)
    case (Cons x xs)
    let ?m = "if P e x then bump x maybe else maybe" and ?d = "if Q e x then bump x definite else definite"
    have d: "distinct (map fst ?m)" "distinct (map fst ?d)" using Cons.prems(3,4) bump_ok(3) by simp_all
    have one: "note_presence presence e x (maybe, definite) = Some (?m, ?d)"
      using assms(1)[of x] Cons.prems(1) by (simp add: note_presence_def)
    from Cons.IH[OF _ _ d] Cons.prems(1,2) obtain m' d' where
      rest: "fold_opt (note_presence presence e) xs (?m, ?d) = Some (m', d')" "distinct (map fst m')" "distinct (map fst d')"
      and keys: "set (map fst m') = set (map fst ?m) \<union> {x \<in> set xs. P e x}" "set (map fst d') = set (map fst ?d) \<union> {x \<in> set xs. Q e x}"
      and counts: "\<forall>y. count_of m' y = count_of ?m y + (if y \<in> set xs \<and> P e y then 1 else 0)"
        "\<forall>y. count_of d' y = count_of ?d y + (if y \<in> set xs \<and> Q e y then 1 else 0)" by auto
    have "set (map fst m') = set (map fst maybe) \<union> {y \<in> set (x # xs). P e y}" unfolding keys using bump_ok(2) by auto
    moreover have "set (map fst d') = set (map fst definite) \<union> {y \<in> set (x # xs). Q e y}" unfolding keys using bump_ok(2) by auto
    moreover have "count_of m' y = count_of maybe y + (if y \<in> set (x # xs) \<and> P e y then 1 else 0)" for y
      using counts(1) Cons.prems(2) by (auto simp: bump_ok(1))
    moreover have "count_of d' y = count_of definite y + (if y \<in> set (x # xs) \<and> Q e y then 1 else 0)" for y
      using counts(2) Cons.prems(2) by (auto simp: bump_ok(1))
    ultimately show ?case using one rest by simp
  qed simp
  from step[of names maybe definite] assms(2-4) show ?thesis by (fastforce simp: counts_ok_def)
qed

lemma count_presence_ok:
  assumes "\<And>e x. e \<in> set exits \<Longrightarrow> x \<in> set names \<Longrightarrow> presence e x = Some (P e x, Q e x)" "distinct names"
  shows "\<exists>maybe definite. count_presence presence exits names = Some (maybe, definite)
    \<and> counts_ok (set names) P exits maybe \<and> counts_ok (set names) Q exits definite"
  using assms(1)
proof (induction exits rule: rev_induct)
  case Nil
  then show ?case by (simp add: count_presence_def counts_ok_def count_of_def)
next
  case (snoc e exits)
  then obtain maybe definite where IH: "count_presence presence exits names = Some (maybe, definite)"
    "counts_ok (set names) P exits maybe" "counts_ok (set names) Q exits definite" by auto
  have "presence e x = Some (P e x, Q e x)" if "x \<in> set names" for x using snoc.prems that by simp
  from note_exit_ok[where presence = presence and e = e and P = P and Q = Q, OF this assms(2) IH(2,3)] IH(1) show ?case
    by (auto simp: count_presence_def fold_opt_append)
qed

section \<open>The sorted result\<close>

lemma sort_by_image:
  assumes "\<And>x y :: 'a :: linorder. cmp (f x) (f y) = rust_cmp x y"
  shows "sort_by cmp (map f xs) = map f (sort xs)"
proof -
  have "insort_by cmp (f x) (map f ys) = map f (insort x ys)" for x ys
    by (induction ys) (auto simp: assms)
  then show ?thesis by (induction xs) simp_all
qed

lemma full_count: "length (filter P xs) = length xs \<longleftrightarrow> (\<forall>x \<in> set xs. P x)"
  using sum_length_filter_compl[of P xs] by (auto simp: filter_empty_conv)

lemma map_filter_all: "(\<And>x. x \<in> set xs \<Longrightarrow> f x = Some (g x)) \<Longrightarrow> List.map_filter f xs = map g xs"
  by (induction xs) (simp_all add: List.map_filter_def)

definition provided_list ::
  "provided_binding_kind \<Rightarrow> string set \<Rightarrow> (block_id \<Rightarrow> string \<Rightarrow> bool) \<Rightarrow> (block_id \<Rightarrow> string \<Rightarrow> bool) \<Rightarrow> block_id list
    \<Rightarrow> provided_binding list" where
  "provided_list kind names P Q exits =
     map (\<lambda>x. provided_binding_new x kind (if \<forall>e \<in> set exits. Q e x then Definite else Possible))
       (sorted_list_of_set {x \<in> names. \<exists>e \<in> set exits. P e x})"

lemma provided_from_counts_ok:
  assumes "counts_ok names P exits maybe" "counts_ok names Q exits definite" "\<And>xs. mset (shuffle xs) = mset xs"
  shows "provided_from_counts shuffle kind (length exits) (maybe, definite) = provided_list kind names P Q exits"
proof -
  let ?mk = "\<lambda>x. provided_binding_new x kind (if \<forall>e \<in> set exits. Q e x then Definite else Possible)"
  let ?keys = "shuffle (map fst maybe)"
  have keys: "set ?keys = {x \<in> names. \<exists>e \<in> set exits. P e x}" "distinct ?keys"
    using assms(1) mset_eq_setD[OF assms(3)] mset_eq_imp_distinct_iff[OF assms(3)] by (simp_all add: counts_ok_def)
  have "(if count_of definite x = length exits then Some (provided_binding_new x kind Definite)
      else if count_of maybe x > 0 then Some (provided_binding_new x kind Possible) else None) = Some (?mk x)"
    if "x \<in> set ?keys" for x
  proof -
    have x: "x \<in> names" "\<exists>e \<in> set exits. P e x" using that keys(1) by auto
    have "count_of definite x = length exits \<longleftrightarrow> (\<forall>e \<in> set exits. Q e x)" "count_of maybe x > 0"
      using assms(1,2) x by (simp_all add: counts_ok_def full_count filter_empty_conv)
    then show ?thesis by simp
  qed
  then have "List.map_filter (\<lambda>name. if count_of definite name = length exits then Some (provided_binding_new name kind Definite)
      else if count_of maybe name > 0 then Some (provided_binding_new name kind Possible) else None) ?keys = map ?mk ?keys"
    by (rule map_filter_all)
  moreover have "sort_by compare_provided (map ?mk ?keys) = map ?mk (sort ?keys)"
    by (rule sort_by_image) (simp add: compare_provided_def provided_binding_new_def rust_cmp_def)
  moreover have "sort ?keys = sorted_list_of_set (set ?keys)"
    using keys(2) by (simp add: sorted_list_of_set_sort_remdups distinct_remdups_id)
  ultimately show ?thesis unfolding provided_from_counts_def provided_list_def prod.case keys(1) by simp
qed

section \<open>The exits of a scope\<close>

definition scope_exit_blocks :: "control_flow_graph \<Rightarrow> scope_id \<Rightarrow> block_id list" where
  "scope_exit_blocks cfg scope = (case scope_exits cfg scope of
     Some exits \<Rightarrow> exits
   | None \<Rightarrow> (case map_of (cfg_scope_entries cfg) scope of
       None \<Rightarrow> []
     | Some entry \<Rightarrow> filter (\<lambda>b. (entry, b) \<in> (leads cfg)\<^sup>* \<and> next_blocks cfg b = {}) [0..<length (cfg_blocks cfg)]))"

definition scopes_entered :: "dataflow_context \<Rightarrow> bool" where
  "scopes_entered ctx \<longleftrightarrow> distinct (map fst (cfg_scope_entries (dc_cfg ctx)))
     \<and> fst ` set (cfg_scope_entries (dc_cfg ctx)) \<subseteq> {..<length (dc_scopes ctx)}"

lemma exits_found:
  assumes "context_ok ctx" "scopes_entered ctx" "scope < length (dc_scopes ctx)"
  shows "\<exists>components. exact_scope_components ctx = Some components
    \<and> exit_blocks_for_scope (dc_cfg ctx) components scope = Some (scope_exit_blocks (dc_cfg ctx) scope)"
  using exit_blocks_ok[OF context_cfg[OF assms(1)] _ assms(3)] assms(2)
  unfolding exact_scope_components_def scope_exit_blocks_def scopes_entered_def by blast

lemma exits_within:
  assumes "cfg_ok cfg" "b \<in> set (scope_exit_blocks cfg scope)"
  shows "b < length (cfg_blocks cfg)"
proof (cases "scope_exits cfg scope")
  case None
  then show ?thesis using assms(2) by (auto simp: scope_exit_blocks_def split: option.splits)
next
  case (Some exits)
  then show ?thesis using scope_exits_within[OF assms(1) Some] assms(2) by (auto simp: scope_exit_blocks_def)
qed

section \<open>Variables\<close>

text \<open>The names a scope may provide, and the paths by which a name leaves a block set or unset.\<close>

definition provided_variables :: "dataflow_context \<Rightarrow> scope_id \<Rightarrow> string set" where
  "provided_variables ctx scope = b_name ` {b \<in> set (dc_bindings ctx). b_scope b = scope \<and> \<not> has_attr b attr_local
     \<and> binding_initializes_name b \<noteq> None}"

definition leaves_set :: "dataflow_context \<Rightarrow> name_table \<Rightarrow> block_id \<Rightarrow> string \<Rightarrow> bool" where
  "leaves_set ctx names e x \<longleftrightarrow>
     leaves (set_names (dc_cfg ctx) names (dc_bindings ctx) (dc_entry_bindings ctx) []) (the (nt_get names x)) e"

definition leaves_unset :: "dataflow_context \<Rightarrow> name_table \<Rightarrow> block_id \<Rightarrow> string \<Rightarrow> bool" where
  "leaves_unset ctx names e x \<longleftrightarrow>
     leaves (unset_names (dc_cfg ctx) names (dc_bindings ctx) (dc_entry_bindings ctx) []) (the (nt_get names x)) e"

lemma binding_name_known:
  assumes "exact_ok ctx ex" "b \<in> set (dc_bindings ctx)"
  shows "\<exists>n. nt_get (ex_names ex) (b_name b) = Some n \<and> n < nt_len (ex_names ex)"
  using assms nt_get_bound by (fastforce simp: exact_ok_def dataflow_input_def binding_data_ok_def)

lemma eligible_names:
  assumes "\<And>xs. mset (shuffle xs) = mset (xs :: string list)"
  shows "distinct (shuffle (remdups (map b_name (filter P bs))))"
    "set (shuffle (remdups (map b_name (filter P bs)))) = b_name ` {b \<in> set bs. P b}"
  using mset_eq_setD[OF assms] mset_eq_imp_distinct_iff[OF assms] by simp_all

lemma variable_presence_ok:
  assumes "context_ok ctx" "exact_ok ctx ex" "2 * (length (cfg_blocks (dc_cfg ctx)) * nt_len (ex_names ex)) + 2 \<le> k"
  shows "\<exists>states. exact_initialized_name_states k ctx ex = Some states
    \<and> (\<forall>e < length (cfg_blocks (dc_cfg ctx)). \<forall>b \<in> set (dc_bindings ctx). variable_presence ex states e (b_name b)
        = Some (leaves_set ctx (ex_names ex) e (b_name b), \<not> leaves_unset ctx (ex_names ex) e (b_name b)))"
proof -
  let ?n = "length (cfg_blocks (dc_cfg ctx))" and ?m = "nt_len (ex_names ex)"
  have inp: "dataflow_input (dc_cfg ctx) (ex_names ex) (dc_bindings ctx) (ex_binding_data ex) (dc_entry_bindings ctx)"
    using assms(2) by (simp add: exact_ok_def)
  obtain order where order: "compute_reverse_postorder (dc_cfg ctx) = Some order" "set order = {..<?n}"
    using reverse_postorder_ok[OF context_cfg[OF assms(1)]] by blast
  have none: "\<forall>(b, x) \<in> set []. b < ?n \<and> x < ?m" by simp
  obtain r where r: "compute_initialized_names_with_extra k (dc_cfg ctx) (dc_bindings ctx) (ex_binding_data ex) (dc_entry_bindings ctx) [] order = Some r"
    "shaped ?n ?m (in_maybe_out r)" "shaped ?n ?m (in_definite_out r)"
    and rows: "\<forall>b < ?n. mrow (in_maybe_out r) b = {x. leaves (set_names (dc_cfg ctx) (ex_names ex) (dc_bindings ctx) (dc_entry_bindings ctx) []) x b}
      \<and> {..<?m} - mrow (in_definite_out r) b = {x. leaves (unset_names (dc_cfg ctx) (ex_names ex) (dc_bindings ctx) (dc_entry_bindings ctx) []) x b}"
    using initialized_names_ok[OF inp order(2) none assms(3)] by blast
  have "variable_presence ex r e (b_name b) = Some (leaves_set ctx (ex_names ex) e (b_name b), \<not> leaves_unset ctx (ex_names ex) e (b_name b))"
    if e: "e < ?n" and b: "b \<in> set (dc_bindings ctx)" for e b
  proof -
    obtain x where x: "nt_get (ex_names ex) (b_name b) = Some x" "x < ?m" using binding_name_known[OF assms(2) b] by blast
    have "x \<in> mrow (in_definite_out r) e \<longleftrightarrow> x \<notin> {..<?m} - mrow (in_definite_out r) e" using x(2) by simp
    then have "bm_contains (in_maybe_out r) e x \<longleftrightarrow> leaves_set ctx (ex_names ex) e (b_name b)"
      "bm_contains (in_definite_out r) e x \<longleftrightarrow> \<not> leaves_unset ctx (ex_names ex) e (b_name b)"
      using rows[rule_format, OF e] matrix_contains[OF r(2) e x(2)] matrix_contains[OF r(3) e x(2)]
      by (simp_all add: leaves_set_def leaves_unset_def x(1))
    then show ?thesis by (simp add: variable_presence_def x(1))
  qed
  moreover have "exact_initialized_name_states k ctx ex = Some r"
    unfolding exact_initialized_name_states_def order(1) Option.bind_lunit compute_initialized_names_def by (rule r(1))
  ultimately show ?thesis by blast
qed

text \<open>C9: The variables that a scope provides are computed, whatever the order of the hash tables: in the
  order of their names, exactly the names the scope itself gives a value without declaring them local
  that some path sets before an exit of the scope, and a name is definite just when no path reaches an
  exit without it.\<close>

theorem provided_variables_exact:
  assumes "context_ok ctx" "scopes_entered ctx" "scope < length (dc_scopes ctx)" "build_exact_variable_dataflow ctx = Some ex"
    and "\<And>xs. mset (shuffle xs) = mset xs" "2 * (length (cfg_blocks (dc_cfg ctx)) * nt_len (ex_names ex)) + 2 \<le> k"
  shows "summarize_scope_provided_bindings shuffle k ctx ex scope =
    Some (provided_list ProvidedVariable (provided_variables ctx scope) (leaves_set ctx (ex_names ex))
      (\<lambda>e x. \<not> leaves_unset ctx (ex_names ex) e x) (scope_exit_blocks (dc_cfg ctx) scope))"
proof -
  let ?exits = "scope_exit_blocks (dc_cfg ctx) scope" and ?P = "leaves_set ctx (ex_names ex)"
    and ?Q = "\<lambda>e x. \<not> leaves_unset ctx (ex_names ex) e x"
  let ?eligible = "shuffle (remdups (map b_name (filter (\<lambda>b. b_scope b = scope \<and> \<not> has_attr b attr_local
         \<and> binding_initializes_name b \<noteq> None) (dc_bindings ctx))))"
  have ex: "exact_ok ctx ex" using build_exact_ok[OF assms(1)] assms(4) by auto
  obtain cs where cs: "exact_scope_components ctx = Some cs" "exit_blocks_for_scope (dc_cfg ctx) cs scope = Some ?exits"
    using exits_found[OF assms(1-3)] by blast
  note names = eligible_names[OF assms(5)]
  obtain states where st: "exact_initialized_name_states k ctx ex = Some states"
    "\<forall>e < length (cfg_blocks (dc_cfg ctx)). \<forall>b \<in> set (dc_bindings ctx). variable_presence ex states e (b_name b) = Some (?P e (b_name b), ?Q e (b_name b))"
    using variable_presence_ok[OF assms(1) ex assms(6)] by blast
  have "variable_presence ex states e x = Some (?P e x, ?Q e x)" if "e \<in> set ?exits" "x \<in> set ?eligible" for e x
    using st(2) exits_within[OF context_cfg[OF assms(1)] that(1)] that(2) unfolding names(2) by blast
  from count_presence_ok[where P = ?P and Q = ?Q, OF this names(1)] obtain maybe definite where
    counts: "count_presence (variable_presence ex states) ?exits ?eligible = Some (maybe, definite)"
    "counts_ok (set ?eligible) ?P ?exits maybe" "counts_ok (set ?eligible) ?Q ?exits definite" by blast
  have eligible: "set ?eligible = provided_variables ctx scope" unfolding names(2) provided_variables_def by (rule refl)
  show ?thesis
  proof (cases "?exits = []")
    case True
    then show ?thesis
      unfolding summarize_scope_provided_bindings_def cs Option.bind_lunit by (simp add: provided_list_def)
  next
    case False
    then show ?thesis
      unfolding summarize_scope_provided_bindings_def cs Option.bind_lunit Let_def st(1) counts(1)
        provided_from_counts_ok[OF counts(2,3) assms(5)] eligible by simp
  qed
qed

theorem provided_variables_exact_witness:
  "\<exists>cfg ex. build_control_flow_graph 1 1 flow_program flow_bindings flow_references no_calls = Some cfg
    \<and> build_exact_variable_dataflow (flow_context_of cfg) = Some ex
    \<and> provided_list ProvidedVariable (provided_variables (flow_context_of cfg) 0) (leaves_set (flow_context_of cfg) (ex_names ex))
        (\<lambda>e x. \<not> leaves_unset (flow_context_of cfg) (ex_names ex) e x) (scope_exit_blocks cfg 0)
      = [provided_binding_new ''x'' ProvidedVariable Definite]"
proof -
  let ?g = "build_control_flow_graph 1 1 flow_program flow_bindings flow_references no_calls"
  obtain cfg ex where cfg: "?g = Some cfg"
    and ctx: "context_ok (flow_context_of cfg)" "build_exact_variable_dataflow (flow_context_of cfg) = Some ex"
    using flow_context_ok by (elim exE conjE) (rule that)
  have "do { g \<leftarrow> ?g; ex \<leftarrow> build_exact_variable_dataflow (flow_context_of g);
      xs \<leftarrow> summarize_scope_provided_bindings id 14 (flow_context_of g) ex 0;
      Some (xs, cfg_scope_entries g, 2 * (length (cfg_blocks g) * nt_len (ex_names ex)), length (dc_scopes (flow_context_of g))) }
    = Some ([provided_binding_new ''x'' ProvidedVariable Definite], [(0, 0)], 12, 3)" by code_simp
  then have run: "summarize_scope_provided_bindings id 14 (flow_context_of cfg) ex 0 = Some [provided_binding_new ''x'' ProvidedVariable Definite]"
    and entries: "cfg_scope_entries cfg = [(0, 0)]" and k: "2 * (length (cfg_blocks cfg) * nt_len (ex_names ex)) = 12"
    and scopes: "length (dc_scopes (flow_context_of cfg)) = 3"
    unfolding cfg Option.bind_lunit ctx(2) by (auto split: bind_splits)
  have "scopes_entered (flow_context_of cfg)" unfolding scopes_entered_def flow_context_fields entries scopes by simp
  from provided_variables_exact[OF ctx(1) this _ ctx(2), of 0 id 14]
  have "summarize_scope_provided_bindings id 14 (flow_context_of cfg) ex 0 =
    Some (provided_list ProvidedVariable (provided_variables (flow_context_of cfg) 0) (leaves_set (flow_context_of cfg) (ex_names ex))
        (\<lambda>e x. \<not> leaves_unset (flow_context_of cfg) (ex_names ex) e x) (scope_exit_blocks cfg 0))"
    unfolding flow_context_fields scopes k by simp
  with cfg ctx(2) run show ?thesis by (intro exI conjI) simp_all
qed

section \<open>Functions\<close>

definition provided_functions :: "dataflow_context \<Rightarrow> scope_id \<Rightarrow> string set" where
  "provided_functions ctx scope =
     b_name ` {b \<in> set (dc_bindings ctx). b_scope b = scope \<and> function_binding_certainty b \<noteq> None}"

text \<open>Some run that leaves a block has a definition of the name by the scope in force.\<close>

definition function_in_force ::
  "dataflow_context \<Rightarrow> scope_id \<Rightarrow> contract_certainty set \<Rightarrow> block_id \<Rightarrow> string \<Rightarrow> bool" where
  "function_in_force ctx scope certainties e x \<longleftrightarrow> (\<exists>i c X. i < length (dc_bindings ctx) \<and> b_name (dc_bindings ctx ! i) = x
     \<and> b_scope (dc_bindings ctx ! i) = scope \<and> function_binding_certainty (dc_bindings ctx ! i) = Some c \<and> c \<in> certainties
     \<and> definitions_at (dc_cfg ctx) (dc_bindings ctx) (dc_entry_bindings ctx) e X
     \<and> i \<in> assign_all (dc_bindings ctx) (bb_bindings (cfg_blocks (dc_cfg ctx) ! e)) X)"

lemma note_functions_ok:
  assumes "set is \<subseteq> {..<length (dc_bindings ctx)}"
  shows "fold_opt (note_function ctx rd scope e) is (m, d) = Some
    (m \<or> (\<exists>i \<in> set is. bm_contains (rd_out rd) e i \<and> b_scope (dc_bindings ctx ! i) = scope
        \<and> function_binding_certainty (dc_bindings ctx ! i) \<noteq> None),
     d \<or> (\<exists>i \<in> set is. bm_contains (rd_out rd) e i \<and> b_scope (dc_bindings ctx ! i) = scope
        \<and> function_binding_certainty (dc_bindings ctx ! i) = Some Definite))"
  using assms
proof (induction "is" arbitrary: m d)
  case (Cons i "is")
  let ?now = "bm_contains (rd_out rd) e i \<and> b_scope (dc_bindings ctx ! i) = scope"
  have one: "note_function ctx rd scope e i (m, d) = Some (m \<or> ?now \<and> function_binding_certainty (dc_bindings ctx ! i) \<noteq> None,
      d \<or> ?now \<and> function_binding_certainty (dc_bindings ctx ! i) = Some Definite)"
    using Cons.prems by (cases "function_binding_certainty (dc_bindings ctx ! i)") (auto simp: note_function_def panic_simps)
  from Cons.prems have "set is \<subseteq> {..<length (dc_bindings ctx)}" by simp
  from Cons.IH[OF this] show ?case unfolding fold_opt.simps one Option.bind_lunit by auto
qed simp

lemma function_presence_ok:
  assumes "context_ok ctx" "exact_ok ctx ex" "bindings_placed (dc_cfg ctx) (dc_entry_bindings ctx)"
    and "length (cfg_blocks (dc_cfg ctx)) * length (dc_bindings ctx) + 2 \<le> k"
  shows "\<exists>rd. exact_reaching_definitions k ctx ex = Some rd
    \<and> (\<forall>e < length (cfg_blocks (dc_cfg ctx)). \<forall>b \<in> set (dc_bindings ctx). function_presence ctx ex rd scope e (b_name b)
        = Some (function_in_force ctx scope UNIV e (b_name b), function_in_force ctx scope {Definite} e (b_name b)))"
proof -
  let ?bs = "dc_bindings ctx" and ?cfg = "dc_cfg ctx" and ?entry = "dc_entry_bindings ctx"
  let ?n = "length (cfg_blocks ?cfg)" and ?ids = "name_ids (ex_names ex) ?bs"
  have inp: "dataflow_input ?cfg (ex_names ex) ?bs (ex_binding_data ex) ?entry" using assms(2) by (simp add: exact_ok_def)
  have cfg: "cfg_ok ?cfg" by (rule context_cfg[OF assms(1)])
  have own: "set ?entry \<subseteq> {..<length ?bs}" "\<forall>b < ?n. set (bb_bindings (cfg_blocks ?cfg ! b)) \<subseteq> {..<length ?bs}"
    and names: "names_ok (ex_names ex)" "binding_data_ok (ex_names ex) ?bs (ex_binding_data ex)"
    using inp by (simp_all add: dataflow_input_def)
  obtain order where order: "compute_reverse_postorder ?cfg = Some order" "set order = {..<?n}"
    using reverse_postorder_ok[OF cfg] by blast
  obtain r where r: "compute_reaching_definitions_dense k ?cfg ?bs (ex_binding_data ex) ?entry order = Some r"
    "shaped ?n (length ?bs) (rd_out r)" and rows: "\<forall>b < ?n. mrow (rd_out r) b = {x. leaves (run_problem ?cfg ?bs ?entry) x b}"
    using reaching_definitions_ok[OF inp order(2) assms(4)] by blast
  have out: "bm_contains (rd_out r) e i \<longleftrightarrow> (\<exists>X. definitions_at ?cfg ?bs ?entry e X \<and> i \<in> assign_all ?bs (bb_bindings (cfg_blocks ?cfg ! e)) X)"
    if "e < ?n" "i < length ?bs" for e i
  proof -
    have "bm_contains (rd_out r) e i \<longleftrightarrow> leaves (run_problem ?cfg ?bs ?entry) i e"
      using rows that(1) matrix_contains[OF r(2) that] by simp
    then show ?thesis using runs_leave[OF cfg] arrive_runs(2)[OF cfg assms(3) own, of i e] that(1) by blast
  qed
  have "function_presence ctx ex r scope e (b_name b)
      = Some (function_in_force ctx scope UNIV e (b_name b), function_in_force ctx scope {Definite} e (b_name b))"
    if e: "e < ?n" and b: "b \<in> set ?bs" for e b
  proof -
    obtain x where x: "nt_get (ex_names ex) (b_name b) = Some x" "x < nt_len (ex_names ex)" using binding_name_known[OF assms(2) b] by blast
    let ?row = "dbd_bindings_for_name (ex_binding_data ex) ! x"
    have row: "nth_opt (dbd_bindings_for_name (ex_binding_data ex)) x = Some ?row" "bset ?row = {i. i < length ?bs \<and> ?ids ! i = x}"
      using names(2) x(2) by (simp_all add: binding_data_ok_def panic_simps)
    have named: "?ids ! i = x \<longleftrightarrow> b_name (?bs ! i) = b_name b" if i: "i < length ?bs" for i
    proof -
      obtain y where y: "nt_get (ex_names ex) (b_name (?bs ! i)) = Some y"
        by (rule exE[OF binding_name_known[OF assms(2) nth_mem[OF i]]]) (elim conjE, rule that)
      have id: "?ids ! i = y" using i y by simp
      have "b_name b = b_name (?bs ! i)" if "y = x" by (rule nt_get_inj[OF names(1) x(1) y[unfolded that]])
      moreover have "y = x" if "b_name (?bs ! i) = b_name b" using trans[OF sym[OF y[unfolded that]] x(1)] by (rule option.inject[THEN iffD1])
      ultimately show ?thesis unfolding id by metis
    qed
    have members: "set (iter_collect (bs_iter_ones ?row)) = {i. i < length ?bs \<and> b_name (?bs ! i) = b_name b}"
      unfolding bs_iter_ones_eq set_sorted_list_of_set[OF finite_members]
      by (rule trans[OF row(2)], rule Collect_cong, rule conj_cong[OF refl]) (rule named)
    then have within: "set (iter_collect (bs_iter_ones ?row)) \<subseteq> {..<length ?bs}" by auto
    show ?thesis
      unfolding function_presence_def x(1) option.case row(1) Option.bind_lunit note_functions_ok[OF within] members
      using out[OF e] by (auto simp: function_in_force_def)
  qed
  moreover have "exact_reaching_definitions k ctx ex = Some r"
    unfolding exact_reaching_definitions_def order(1) Option.bind_lunit by (rule r(1))
  ultimately show ?thesis by blast
qed

text \<open>C23: The functions that a scope provides are computed, whatever the order of the hash tables: in the
  order of their names, exactly the functions of the scope of which some run has a definition in force at
  an exit; a function is called definite when at each exit some run has a certain definition in force.\<close>

theorem provided_functions_exact:
  assumes "context_ok ctx" "scopes_entered ctx" "scope < length (dc_scopes ctx)" "build_exact_variable_dataflow ctx = Some ex"
    and "bindings_placed (dc_cfg ctx) (dc_entry_bindings ctx)"
    and "\<And>xs. mset (shuffle xs) = mset xs" "length (cfg_blocks (dc_cfg ctx)) * length (dc_bindings ctx) + 2 \<le> k"
  shows "summarize_scope_provided_functions shuffle k ctx ex scope =
    Some (provided_list ProvidedFunction (provided_functions ctx scope) (function_in_force ctx scope UNIV)
      (function_in_force ctx scope {Definite}) (scope_exit_blocks (dc_cfg ctx) scope))"
proof -
  let ?exits = "scope_exit_blocks (dc_cfg ctx) scope" and ?P = "function_in_force ctx scope UNIV" and ?Q = "function_in_force ctx scope {Definite}"
  let ?eligible = "shuffle (remdups (map b_name (filter (\<lambda>b. b_scope b = scope
         \<and> function_binding_certainty b \<noteq> None) (dc_bindings ctx))))"
  have ex: "exact_ok ctx ex" using build_exact_ok[OF assms(1)] assms(4) by auto
  obtain cs where cs: "exact_scope_components ctx = Some cs" "exit_blocks_for_scope (dc_cfg ctx) cs scope = Some ?exits"
    using exits_found[OF assms(1-3)] by blast
  note names = eligible_names[OF assms(6)]
  obtain rd where rd: "exact_reaching_definitions k ctx ex = Some rd"
    "\<forall>e < length (cfg_blocks (dc_cfg ctx)). \<forall>b \<in> set (dc_bindings ctx). function_presence ctx ex rd scope e (b_name b) = Some (?P e (b_name b), ?Q e (b_name b))"
    using function_presence_ok[OF assms(1) ex assms(5,7)] by blast
  have "function_presence ctx ex rd scope e x = Some (?P e x, ?Q e x)" if "e \<in> set ?exits" "x \<in> set ?eligible" for e x
    using rd(2) exits_within[OF context_cfg[OF assms(1)] that(1)] that(2) unfolding names(2) by blast
  from count_presence_ok[where P = ?P and Q = ?Q, OF this names(1)] obtain maybe definite where
    counts: "count_presence (function_presence ctx ex rd scope) ?exits ?eligible = Some (maybe, definite)"
    "counts_ok (set ?eligible) ?P ?exits maybe" "counts_ok (set ?eligible) ?Q ?exits definite" by blast
  have eligible: "set ?eligible = provided_functions ctx scope" unfolding names(2) provided_functions_def by (rule refl)
  show ?thesis
  proof (cases "?exits = []")
    case True
    then show ?thesis
      unfolding summarize_scope_provided_functions_def rd(1) cs Option.bind_lunit by (simp add: provided_list_def)
  next
    case False
    then show ?thesis
      unfolding summarize_scope_provided_functions_def rd(1) cs Option.bind_lunit Let_def counts(1)
        provided_from_counts_ok[OF counts(2,3) assms(6)] eligible by simp
  qed
qed

text \<open>The script \<open>if a; then f() { :; }; fi; b\<close>, which defines \<open>f\<close> on one branch.\<close>

definition branch_program :: recorded_program where
  "branch_program = program_default\<lparr>
     rp_commands := [demo_command 3 4 Linear, demo_command 11 21 Linear,
       demo_command 0 25 (CIf (demo_range 0 1) (demo_range 1 1) (demo_range 0 0) (demo_range 0 0)),
       demo_command 27 28 Linear],
     rp_command_sequence_items := [0, 1, 2, 3], rp_file_commands := demo_range 2 2\<rparr>"

definition branch_bindings :: "span_key \<rightharpoonup> binding_id list" where
  "branch_bindings key = (if key = (11, 21) then Some [0] else None)"

definition branch_context_of :: "control_flow_graph \<Rightarrow> dataflow_context" where
  "branch_context_of cfg = (flow_context_of cfg)\<lparr>dc_bindings := [(sample_binding 0 ''f'')\<lparr>b_kind := FunctionDefinition\<rparr>],
     dc_references := []\<rparr>"

lemma branch_facts:
  "covered (\<lambda>c. if c = 2 then 1 else 0) 2 branch_program" "bindings_ok branch_program no_calls"
  "length (rp_function_bodies branch_program) + length (program_calls branch_program no_calls) < 1"
proof -
  have "wf_program (\<lambda>c. if c = 2 then 1 else 0) branch_program" by code_simp
  then show "covered (\<lambda>c. if c = 2 then 1 else 0) 2 branch_program" by (simp add: covered_def)
qed (code_simp, code_simp)

lemma branch_run:
  "\<exists>cfg ex. build_control_flow_graph 1 2 branch_program branch_bindings Map.empty no_calls = Some cfg
    \<and> context_ok (branch_context_of cfg) \<and> scopes_entered (branch_context_of cfg)
    \<and> build_exact_variable_dataflow (branch_context_of cfg) = Some ex \<and> bindings_placed cfg []
    \<and> length (cfg_blocks cfg) = 3 \<and> map bb_bindings (cfg_blocks cfg) = [[], [0], []]
    \<and> 2 \<in> fst ` set (successors_of cfg 0) \<and> cfg_scope_entries cfg = [(0, 0)] \<and> scope_exits cfg 0 = Some [2]
    \<and> summarize_scope_provided_functions id 9 (branch_context_of cfg) ex 0 = Some [provided_binding_new ''f'' ProvidedFunction Definite]"
proof -
  let ?g = "build_control_flow_graph 1 2 branch_program branch_bindings Map.empty no_calls"
  obtain cfg where cfg: "?g = Some cfg" "cfg_ok cfg"
    using build_cfg_ok[OF branch_facts] succeedsD by blast
  have "do { g \<leftarrow> ?g; ex \<leftarrow> build_exact_variable_dataflow (branch_context_of g);
      xs \<leftarrow> summarize_scope_provided_functions id 9 (branch_context_of g) ex 0;
      Some (xs, cfg_scope_entries g, scope_exits g 0, map bb_bindings (cfg_blocks g), map bb_references (cfg_blocks g),
        map fst (successors_of g 0), length (dc_scopes (branch_context_of g))) }
    = Some ([provided_binding_new ''f'' ProvidedFunction Definite], [(0, 0)], Some [2], [[], [0], []], [[], [], []], [1, 2], 3)"
    by code_simp
  then obtain ex where run: "summarize_scope_provided_functions id 9 (branch_context_of cfg) ex 0 = Some [provided_binding_new ''f'' ProvidedFunction Definite]"
    and ex: "build_exact_variable_dataflow (branch_context_of cfg) = Some ex"
    and entries: "cfg_scope_entries cfg = [(0, 0)]" "scope_exits cfg 0 = Some [2]" and own: "map bb_bindings (cfg_blocks cfg) = [[], [0], []]"
    and refs: "map bb_references (cfg_blocks cfg) = [[], [], []]" and succ: "map fst (successors_of cfg 0) = [1, 2]"
    and scopes: "length (dc_scopes (branch_context_of cfg)) = 3"
    unfolding cfg(1) Option.bind_lunit by (auto split: bind_splits)
  have n: "length (cfg_blocks cfg) = 3" using arg_cong[OF own, of length] by simp
  have at: "bb_bindings (cfg_blocks cfg ! b) = [[], [0], []] ! b" "bb_references (cfg_blocks cfg ! b) = [[], [], []] ! b" if "b < 3" for b
    using arg_cong[OF own, of "\<lambda>xs. xs ! b"] arg_cong[OF refs, of "\<lambda>xs. xs ! b"] that n by simp_all
  have "block_items_ok 1 0 cfg"
    using n at by (auto simp: block_items_ok_def in_set_conv_nth less_Suc_eq numeral_3_eq_3)
  then have "context_ok (branch_context_of cfg)"
    using cfg(2) by (simp add: context_ok_def branch_context_of_def flow_context_of_def bindings_indexed_def
        references_indexed_def sample_binding_def)
  moreover have "scopes_entered (branch_context_of cfg)"
    unfolding scopes_entered_def scopes using entries by (simp add: branch_context_of_def flow_context_of_def)
  moreover have "bindings_placed cfg []" using n at by (auto simp: bindings_placed_def less_Suc_eq numeral_3_eq_3)
  moreover have "2 \<in> set (map fst (successors_of cfg 0))" unfolding succ by simp
  then have "2 \<in> fst ` set (successors_of cfg 0)" by simp
  ultimately show ?thesis using cfg(1) ex run entries own n by (intro exI conjI) assumption+
qed

theorem provided_functions_exact_witness:
  "\<exists>cfg ex. build_control_flow_graph 1 2 branch_program branch_bindings Map.empty no_calls = Some cfg
    \<and> build_exact_variable_dataflow (branch_context_of cfg) = Some ex
    \<and> provided_list ProvidedFunction (provided_functions (branch_context_of cfg) 0) (function_in_force (branch_context_of cfg) 0 UNIV)
        (function_in_force (branch_context_of cfg) 0 {Definite}) (scope_exit_blocks cfg 0)
      = [provided_binding_new ''f'' ProvidedFunction Definite]"
proof -
  obtain cfg ex where cfg: "build_control_flow_graph 1 2 branch_program branch_bindings Map.empty no_calls = Some cfg"
    and ctx: "context_ok (branch_context_of cfg)" "scopes_entered (branch_context_of cfg)"
    "build_exact_variable_dataflow (branch_context_of cfg) = Some ex" and placed: "bindings_placed cfg []" and n: "length (cfg_blocks cfg) = 3"
    and run: "summarize_scope_provided_functions id 9 (branch_context_of cfg) ex 0 = Some [provided_binding_new ''f'' ProvidedFunction Definite]"
    using branch_run by (elim exE conjE) (rule that)
  have fields: "dc_cfg (branch_context_of cfg) = cfg" "dc_entry_bindings (branch_context_of cfg) = []"
    "length (dc_bindings (branch_context_of cfg)) = 1" "length (dc_scopes (branch_context_of cfg)) = 3"
    by (simp_all add: branch_context_of_def flow_context_of_def sample_scopes_def)
  from provided_functions_exact[OF ctx(1,2) _ ctx(3), of 0 id 9]
  have "summarize_scope_provided_functions id 9 (branch_context_of cfg) ex 0 =
    Some (provided_list ProvidedFunction (provided_functions (branch_context_of cfg) 0) (function_in_force (branch_context_of cfg) 0 UNIV)
        (function_in_force (branch_context_of cfg) 0 {Definite}) (scope_exit_blocks cfg 0))"
    unfolding fields n using placed by simp
  with cfg ctx(3) run show ?thesis by (intro exI conjI) simp_all
qed

end
