(* ===== verification/Contracts.thy ===== *)
theory Contracts
  imports Provided_Bindings
begin

text \<open>
  Model of \<open>crates/shucked-semantic/src/contract.rs\<close>: what a function or a file promises to provide and
  to read, how a contract is filled step by step, and how the contracts of several candidate files for one
  \<open>source\<close> command are merged into one.  The merge counts in hash maps; \<open>shuffle\<close> is the order in
  which the bindings come out of their map and \<open>shuffle_functions\<close> that of the functions, and the
  theorems hold for every one.  A contract is tidy when no key occurs twice; every operation keeps this,
  and the merge relies on it, since it compares a count of entries with the number of candidates.
\<close>

section \<open>Contracts and their operations\<close>

fun merge_initialization ::
  "file_entry_binding_initialization \<Rightarrow> file_entry_binding_initialization \<Rightarrow> file_entry_binding_initialization" where
  "merge_initialization AmbientOnly AmbientOnly = AmbientOnly"
| "merge_initialization _ _ = InitializedAtEntry"

definition provided_binding_new_file_entry_initialized ::
  "string \<Rightarrow> provided_binding_kind \<Rightarrow> contract_certainty \<Rightarrow> provided_binding" where
  "provided_binding_new_file_entry_initialized name kind certainty =
     \<lparr>pb_name = name, pb_kind = kind, pb_certainty = certainty, pb_file_entry_initialization = InitializedAtEntry\<rparr>"

record function_contract =
  fc_name :: string
  fc_required_reads :: "string list"
  fc_provided_bindings :: "provided_binding list"
  fc_origin_paths :: "string list"

definition function_contract_new :: "string \<Rightarrow> function_contract" where
  "function_contract_new name =
     \<lparr>fc_name = name, fc_required_reads = [], fc_provided_bindings = [], fc_origin_paths = []\<rparr>"

definition push_new :: "string \<Rightarrow> string list \<Rightarrow> string list" where
  "push_new x xs = (if x \<in> set xs then xs else xs @ [x])"

text \<open>The loop of \<open>add_provided_binding\<close>: the first entry of the same name and kind takes the binding
  in, or it is pushed at the end.\<close>

fun merge_into :: "provided_binding \<Rightarrow> provided_binding list \<Rightarrow> provided_binding list" where
  "merge_into b [] = [b]"
| "merge_into b (e # es) =
     (if pb_name e = pb_name b \<and> pb_kind e = pb_kind b
      then e\<lparr>pb_certainty := merge_same_site (pb_certainty e) (pb_certainty b),
             pb_file_entry_initialization :=
               merge_initialization (pb_file_entry_initialization e) (pb_file_entry_initialization b)\<rparr> # es
      else e # merge_into b es)"

definition fc_add_required_read :: "string \<Rightarrow> function_contract \<Rightarrow> function_contract" where
  "fc_add_required_read name c = c\<lparr>fc_required_reads := push_new name (fc_required_reads c)\<rparr>"

definition fc_add_provided_binding :: "provided_binding \<Rightarrow> function_contract \<Rightarrow> function_contract" where
  "fc_add_provided_binding b c = c\<lparr>fc_provided_bindings := merge_into b (fc_provided_bindings c)\<rparr>"

definition fc_add_origin_path :: "string \<Rightarrow> function_contract \<Rightarrow> function_contract" where
  "fc_add_origin_path path c = c\<lparr>fc_origin_paths := push_new path (fc_origin_paths c)\<rparr>"

record file_contract =
  fl_required_reads :: "string list"
  fl_provided_bindings :: "provided_binding list"
  fl_provided_functions :: "function_contract list"
  fl_externally_consumed_bindings :: bool
  fl_externally_consumed_binding_names :: "string list"
  fl_externally_consumed_binding_prefixes :: "string list"

definition file_contract_default :: file_contract where
  "file_contract_default = \<lparr>fl_required_reads = [], fl_provided_bindings = [], fl_provided_functions = [],
     fl_externally_consumed_bindings = False, fl_externally_consumed_binding_names = [],
     fl_externally_consumed_binding_prefixes = []\<rparr>"

definition fl_add_required_read :: "string \<Rightarrow> file_contract \<Rightarrow> file_contract" where
  "fl_add_required_read name c = c\<lparr>fl_required_reads := push_new name (fl_required_reads c)\<rparr>"

definition fl_add_provided_binding :: "provided_binding \<Rightarrow> file_contract \<Rightarrow> file_contract" where
  "fl_add_provided_binding b c = c\<lparr>fl_provided_bindings := merge_into b (fl_provided_bindings c)\<rparr>"

definition fl_add_externally_consumed_binding_name :: "string \<Rightarrow> file_contract \<Rightarrow> file_contract" where
  "fl_add_externally_consumed_binding_name name c =
     c\<lparr>fl_externally_consumed_binding_names := push_new name (fl_externally_consumed_binding_names c)\<rparr>"

definition fl_add_externally_consumed_binding_prefix :: "string \<Rightarrow> file_contract \<Rightarrow> file_contract" where
  "fl_add_externally_consumed_binding_prefix pre c =
     c\<lparr>fl_externally_consumed_binding_prefixes := push_new pre (fl_externally_consumed_binding_prefixes c)\<rparr>"

fun merge_function_into :: "function_contract \<Rightarrow> function_contract list \<Rightarrow> function_contract list" where
  "merge_function_into f [] = [f]"
| "merge_function_into f (e # es) =
     (if fc_name e = fc_name f
      then fold fc_add_origin_path (fc_origin_paths f)
             (fold fc_add_provided_binding (fc_provided_bindings f)
               (fold fc_add_required_read (fc_required_reads f) e)) # es
      else e # merge_function_into f es)"

definition fl_add_provided_function :: "function_contract \<Rightarrow> file_contract \<Rightarrow> file_contract" where
  "fl_add_provided_function f c = c\<lparr>fl_provided_functions := merge_function_into f (fl_provided_functions c)\<rparr>"

section \<open>Merging the contracts of candidates\<close>

type_synonym binding_key = "string \<times> provided_binding_kind"
type_synonym binding_count = "nat \<times> bool \<times> file_entry_binding_initialization"

definition binding_key :: "provided_binding \<Rightarrow> binding_key" where
  "binding_key b = (pb_name b, pb_kind b)"

definition note_candidate ::
  "provided_binding \<Rightarrow> (binding_key \<times> binding_count) list \<Rightarrow> (binding_key \<times> binding_count) list" where
  "note_candidate b = upsert (binding_key b) (0, True, AmbientOnly) (\<lambda>(n, definite, initialization).
     (n + 1, definite \<and> pb_certainty b = Definite, merge_initialization initialization (pb_file_entry_initialization b)))"

definition counted_binding :: "nat \<Rightarrow> binding_key \<times> binding_count \<Rightarrow> provided_binding" where
  "counted_binding candidates = (\<lambda>((name, kind), (n, definite, initialization)).
     (provided_binding_new name kind (if n = candidates \<and> definite then Definite else Possible))
       \<lparr>pb_file_entry_initialization := initialization\<rparr>)"

definition note_function_contract ::
  "function_contract \<Rightarrow> function_contract \<times> (binding_key \<times> binding_count) list
    \<Rightarrow> function_contract \<times> (binding_key \<times> binding_count) list" where
  "note_function_contract c = (\<lambda>(merged, counts).
     (fold fc_add_origin_path (fc_origin_paths c) (fold fc_add_required_read (fc_required_reads c) merged),
      fold note_candidate (fc_provided_bindings c) counts))"

definition merge_function_contracts ::
  "((binding_key \<times> binding_count) list \<Rightarrow> (binding_key \<times> binding_count) list) \<Rightarrow> function_contract list
    \<Rightarrow> function_contract option" where
  "merge_function_contracts shuffle contracts = do {
     first \<leftarrow> nth_opt contracts 0;
     let candidates = length contracts;
     let (merged, counts) = fold note_function_contract contracts (function_contract_new (fc_name first), []);
     Some (fold (\<lambda>entry. fc_add_provided_binding (counted_binding candidates entry)) (shuffle counts) merged) }"

definition note_file_contract ::
  "file_contract \<Rightarrow> file_contract \<times> (binding_key \<times> binding_count) list \<times> (string \<times> function_contract list) list
    \<Rightarrow> file_contract \<times> (binding_key \<times> binding_count) list \<times> (string \<times> function_contract list) list" where
  "note_file_contract c = (\<lambda>(merged, counts, functions).
     let merged = merged\<lparr>fl_externally_consumed_bindings :=
           fl_externally_consumed_bindings merged \<or> fl_externally_consumed_bindings c\<rparr>;
         merged = fold fl_add_externally_consumed_binding_name (fl_externally_consumed_binding_names c) merged;
         merged = fold fl_add_externally_consumed_binding_prefix (fl_externally_consumed_binding_prefixes c) merged
     in (fold fl_add_required_read (fl_required_reads c) merged,
         fold note_candidate (fl_provided_bindings c) counts,
         fold (\<lambda>f. upsert (fc_name f) [] (\<lambda>fs. fs @ [f])) (fl_provided_functions c) functions))"

definition add_merged_function ::
  "((binding_key \<times> binding_count) list \<Rightarrow> (binding_key \<times> binding_count) list) \<Rightarrow> nat \<Rightarrow> function_contract list
    \<Rightarrow> file_contract \<Rightarrow> file_contract" where
  "add_merged_function shuffle candidates functions merged =
     (if length functions \<noteq> candidates then merged
      else (case merge_function_contracts shuffle functions of
          None \<Rightarrow> merged
        | Some f \<Rightarrow> fl_add_provided_function f merged))"

definition merge_file_contracts ::
  "((binding_key \<times> binding_count) list \<Rightarrow> (binding_key \<times> binding_count) list)
    \<Rightarrow> ((string \<times> function_contract list) list \<Rightarrow> (string \<times> function_contract list) list)
    \<Rightarrow> file_contract list \<Rightarrow> file_contract" where
  "merge_file_contracts shuffle shuffle_functions contracts =
     (let candidates = length contracts;
          (merged, counts, functions) = fold note_file_contract contracts (file_contract_default, [], []);
          merged = fold (\<lambda>entry. fl_add_provided_binding (counted_binding candidates entry)) (shuffle counts) merged
      in fold (add_merged_function shuffle candidates) (map snd (shuffle_functions functions)) merged)"

section \<open>Tidy contracts\<close>

definition tidy_bindings :: "provided_binding list \<Rightarrow> bool" where
  "tidy_bindings bs \<longleftrightarrow> distinct (map binding_key bs)"

definition tidy_function :: "function_contract \<Rightarrow> bool" where
  "tidy_function f \<longleftrightarrow> distinct (fc_required_reads f) \<and> tidy_bindings (fc_provided_bindings f) \<and> distinct (fc_origin_paths f)"

definition tidy_file :: "file_contract \<Rightarrow> bool" where
  "tidy_file c \<longleftrightarrow> distinct (fl_required_reads c) \<and> tidy_bindings (fl_provided_bindings c)
     \<and> distinct (map fc_name (fl_provided_functions c)) \<and> (\<forall>f \<in> set (fl_provided_functions c). tidy_function f)
     \<and> distinct (fl_externally_consumed_binding_names c) \<and> distinct (fl_externally_consumed_binding_prefixes c)"

lemma push_new_ok: "set (push_new x xs) = insert x (set xs)" "distinct (push_new x xs) \<longleftrightarrow> distinct xs"
  by (auto simp: push_new_def)

lemma same_binding: "pb_name e = pb_name b \<and> pb_kind e = pb_kind b \<longleftrightarrow> binding_key e = binding_key b"
  by (simp add: binding_key_def)

lemma merge_into_keys:
  "map binding_key (merge_into b bs) = (if binding_key b \<in> set (map binding_key bs) then map binding_key bs
     else map binding_key bs @ [binding_key b])"
  by (induction bs) (auto simp: same_binding, auto simp: binding_key_def)

lemma tidy_merge_into: "tidy_bindings bs \<Longrightarrow> tidy_bindings (merge_into b bs)"
  unfolding tidy_bindings_def merge_into_keys by simp

lemma fc_steps:
  "fc_name (fold fc_add_origin_path ps f) = fc_name f"
  "fc_name (fold fc_add_provided_binding bs f) = fc_name f"
  "fc_name (fold fc_add_required_read rs f) = fc_name f"
  "tidy_function f \<Longrightarrow> tidy_function (fold fc_add_origin_path ps f)"
  "tidy_function f \<Longrightarrow> tidy_function (fold fc_add_provided_binding bs f)"
  "tidy_function f \<Longrightarrow> tidy_function (fold fc_add_required_read rs f)"
proof -
  show "fc_name (fold fc_add_origin_path ps f) = fc_name f"
    by (induction ps arbitrary: f) (simp_all add: fc_add_origin_path_def)
  show "fc_name (fold fc_add_provided_binding bs f) = fc_name f"
    by (induction bs arbitrary: f) (simp_all add: fc_add_provided_binding_def)
  show "fc_name (fold fc_add_required_read rs f) = fc_name f"
    by (induction rs arbitrary: f) (simp_all add: fc_add_required_read_def)
  show "tidy_function f \<Longrightarrow> tidy_function (fold fc_add_origin_path ps f)"
    by (induction ps arbitrary: f) (simp_all add: fc_add_origin_path_def tidy_function_def push_new_ok)
  show "tidy_function f \<Longrightarrow> tidy_function (fold fc_add_provided_binding bs f)"
    by (induction bs arbitrary: f) (simp_all add: fc_add_provided_binding_def tidy_function_def tidy_merge_into)
  show "tidy_function f \<Longrightarrow> tidy_function (fold fc_add_required_read rs f)"
    by (induction rs arbitrary: f) (simp_all add: fc_add_required_read_def tidy_function_def push_new_ok)
qed

lemma merge_function_names:
  "map fc_name (merge_function_into f fs) = (if fc_name f \<in> set (map fc_name fs) then map fc_name fs
     else map fc_name fs @ [fc_name f])"
  by (induction fs) (auto simp: fc_steps)

lemma tidy_merge_function:
  "\<forall>g \<in> set fs. tidy_function g \<Longrightarrow> tidy_function f \<Longrightarrow> \<forall>g \<in> set (merge_function_into f fs). tidy_function g"
  by (induction fs) (auto simp: fc_steps)

lemma tidy_function_steps:
  "tidy_function (function_contract_new x)"
  "tidy_function f \<Longrightarrow> tidy_function (fc_add_required_read x f)"
  "tidy_function f \<Longrightarrow> tidy_function (fc_add_provided_binding b f)"
  "tidy_function f \<Longrightarrow> tidy_function (fc_add_origin_path x f)"
  by (simp_all add: tidy_function_def function_contract_new_def fc_add_required_read_def fc_add_provided_binding_def
      fc_add_origin_path_def push_new_ok tidy_merge_into) (simp add: tidy_bindings_def)

lemma tidy_file_steps:
  "tidy_file file_contract_default"
  "tidy_file c \<Longrightarrow> tidy_file (fl_add_required_read x c)"
  "tidy_file c \<Longrightarrow> tidy_file (fl_add_provided_binding b c)"
  "tidy_file c \<Longrightarrow> tidy_file (fl_add_externally_consumed_binding_name x c)"
  "tidy_file c \<Longrightarrow> tidy_file (fl_add_externally_consumed_binding_prefix x c)"
  "tidy_file c \<Longrightarrow> tidy_function f \<Longrightarrow> tidy_file (fl_add_provided_function f c)"
proof -
  note defs = tidy_file_def fl_add_required_read_def fl_add_provided_binding_def
      fl_add_externally_consumed_binding_name_def fl_add_externally_consumed_binding_prefix_def push_new_ok tidy_merge_into
  show "tidy_file file_contract_default" by (simp add: tidy_file_def file_contract_default_def tidy_bindings_def)
  show "tidy_file c \<Longrightarrow> tidy_file (fl_add_required_read x c)" "tidy_file c \<Longrightarrow> tidy_file (fl_add_provided_binding b c)"
    "tidy_file c \<Longrightarrow> tidy_file (fl_add_externally_consumed_binding_name x c)"
    "tidy_file c \<Longrightarrow> tidy_file (fl_add_externally_consumed_binding_prefix x c)" by (simp_all add: defs)
  assume "tidy_file c" "tidy_function f"
  then show "tidy_file (fl_add_provided_function f c)"
    using tidy_merge_function[of "fl_provided_functions c" f]
    by (auto simp: tidy_file_def fl_add_provided_function_def merge_function_names)
qed

section \<open>Counting the candidates\<close>

definition initialization_of :: "provided_binding list \<Rightarrow> file_entry_binding_initialization" where
  "initialization_of bs = (if \<exists>b \<in> set bs. pb_file_entry_initialization b = InitializedAtEntry then InitializedAtEntry else AmbientOnly)"

definition summary_of :: "provided_binding list \<Rightarrow> binding_key \<Rightarrow> binding_count option" where
  "summary_of bs k = (let same = filter (\<lambda>b. binding_key b = k) bs in if same = [] then None
     else Some (length same, \<forall>b \<in> set same. pb_certainty b = Definite, initialization_of same))"

lemma merge_initialization_snoc:
  "merge_initialization (initialization_of bs) (pb_file_entry_initialization b) = initialization_of (bs @ [b])"
  by (cases "pb_file_entry_initialization b") (auto simp: initialization_of_def)

lemma note_candidate_ok:
  "distinct (map fst es) \<Longrightarrow> distinct (map fst (note_candidate b es))"
  "map_of (note_candidate b es) = (map_of es)(binding_key b \<mapsto> (case map_of es (binding_key b) of
       None \<Rightarrow> (1, pb_certainty b = Definite, pb_file_entry_initialization b)
     | Some (n, d, i) \<Rightarrow> (n + 1, d \<and> pb_certainty b = Definite, merge_initialization i (pb_file_entry_initialization b))))"
proof -
  have "merge_initialization AmbientOnly i = i" for i by (cases i) simp_all
  then show "map_of (note_candidate b es) = (map_of es)(binding_key b \<mapsto> (case map_of es (binding_key b) of
       None \<Rightarrow> (1, pb_certainty b = Definite, pb_file_entry_initialization b)
     | Some (n, d, i) \<Rightarrow> (n + 1, d \<and> pb_certainty b = Definite, merge_initialization i (pb_file_entry_initialization b))))"
    by (simp add: note_candidate_def upsert_ok(1) split: option.splits)
qed (simp add: note_candidate_def upsert_ok(3))

lemma summary_snoc:
  "summary_of (bs @ [b]) = (summary_of bs)(binding_key b \<mapsto> (case summary_of bs (binding_key b) of
       None \<Rightarrow> (1, pb_certainty b = Definite, pb_file_entry_initialization b)
     | Some (n, d, i) \<Rightarrow> (n + 1, d \<and> pb_certainty b = Definite, merge_initialization i (pb_file_entry_initialization b))))"
proof (rule ext)
  fix k
  let ?same = "filter (\<lambda>c. binding_key c = binding_key b) bs"
  have "initialization_of [b] = pb_file_entry_initialization b"
    by (cases "pb_file_entry_initialization b") (simp_all add: initialization_of_def)
  with merge_initialization_snoc[of ?same b]
  show "summary_of (bs @ [b]) k = ((summary_of bs)(binding_key b \<mapsto> (case summary_of bs (binding_key b) of
       None \<Rightarrow> (1, pb_certainty b = Definite, pb_file_entry_initialization b)
     | Some (n, d, i) \<Rightarrow> (n + 1, d \<and> pb_certainty b = Definite, merge_initialization i (pb_file_entry_initialization b))))) k"
    by (cases "?same = []"; cases "k = binding_key b") (auto simp: summary_of_def Let_def)
qed

lemma note_candidates_ok:
  "distinct (map fst (fold note_candidate bs []))" "map_of (fold note_candidate bs []) = summary_of bs"
proof (induction bs rule: rev_induct)
  case Nil
  { case 1 show ?case by simp next case 2 show ?case by (simp add: summary_of_def fun_eq_iff) }
next
  case (snoc b bs)
  { case 1 show ?case using note_candidate_ok(1)[OF snoc(1)] by simp
  next case 2 show ?case using note_candidate_ok(2)[of b "fold note_candidate bs []"] by (simp only: fold_append comp_apply fold.simps id_apply snoc(2) summary_snoc) }
qed

text \<open>What a tidy list of bindings promises under a key.\<close>

definition promise :: "provided_binding list \<Rightarrow> binding_key \<Rightarrow> (contract_certainty \<times> file_entry_binding_initialization) option" where
  "promise bs k = map_of (map (\<lambda>b. (binding_key b, (pb_certainty b, pb_file_entry_initialization b))) bs) k"

text \<open>The promise that the candidates together make: a key is definite when every one of them promises it
  so, and initialised when some one does.\<close>

definition common_promise ::
  "provided_binding list list \<Rightarrow> binding_key \<Rightarrow> (contract_certainty \<times> file_entry_binding_initialization) option" where
  "common_promise css k = (if \<forall>bs \<in> set css. promise bs k = None then None
     else Some (if \<forall>bs \<in> set css. map_option fst (promise bs k) = Some Definite then Definite else Possible,
       if \<exists>bs \<in> set css. map_option snd (promise bs k) = Some InitializedAtEntry then InitializedAtEntry else AmbientOnly))"

lemma tidy_same:
  assumes "tidy_bindings bs"
  shows "filter (\<lambda>b. binding_key b = k) bs = [] \<and> promise bs k = None
    \<or> (\<exists>b. filter (\<lambda>b. binding_key b = k) bs = [b] \<and> promise bs k = Some (pb_certainty b, pb_file_entry_initialization b))"
  using assms
proof (induction bs)
  case Nil
  then show ?case by (simp add: promise_def)
next
  case (Cons c bs)
  then have tidy: "tidy_bindings bs" and "filter (\<lambda>b. binding_key b = binding_key c) bs = []"
    by (simp_all add: tidy_bindings_def filter_empty_conv) (metis imageI)
  then show ?case using Cons.IH[OF tidy] by (cases "binding_key c = k") (simp_all add: promise_def)
qed

lemma candidates_summary:
  assumes "\<forall>bs \<in> set css. tidy_bindings bs"
  shows "map_option (\<lambda>(n, d, i). (if n = length css \<and> d then Definite else Possible, i)) (summary_of (concat css) k)
    = common_promise css k"
proof -
  let ?same = "\<lambda>bs. filter (\<lambda>b. binding_key b = k) bs"
  have "length (?same (concat css)) \<le> length css
      \<and> (length (?same (concat css)) = length css \<longleftrightarrow> (\<forall>bs \<in> set css. promise bs k \<noteq> None))"
    using assms
  proof (induction css)
    case (Cons bs css)
    then show ?case using tidy_same[of bs k] by auto
  qed simp
  then have n: "length (?same (concat css)) = length css \<longleftrightarrow> (\<forall>bs \<in> set css. promise bs k \<noteq> None)" by (rule conjunct2)
  have none: "?same (concat css) = [] \<longleftrightarrow> (\<forall>bs \<in> set css. promise bs k = None)"
    and d: "(\<forall>b \<in> set (?same (concat css)). pb_certainty b = Definite) \<longleftrightarrow>
      (\<forall>bs \<in> set css. promise bs k \<noteq> None \<longrightarrow> map_option fst (promise bs k) = Some Definite)"
    and i: "(\<exists>b \<in> set (?same (concat css)). pb_file_entry_initialization b = InitializedAtEntry) \<longleftrightarrow>
      (\<exists>bs \<in> set css. map_option snd (promise bs k) = Some InitializedAtEntry)"
  proof -
    have each: "?same bs = [] \<longleftrightarrow> promise bs k = None"
      "(\<forall>b \<in> set (?same bs). pb_certainty b = Definite) \<longleftrightarrow> (promise bs k \<noteq> None \<longrightarrow> map_option fst (promise bs k) = Some Definite)"
      "(\<exists>b \<in> set (?same bs). pb_file_entry_initialization b = InitializedAtEntry) \<longleftrightarrow> map_option snd (promise bs k) = Some InitializedAtEntry"
      if "bs \<in> set css" for bs
      using tidy_same[OF assms[rule_format, OF that], of k] by (elim disjE exE conjE, simp, simp)+
    show "?same (concat css) = [] \<longleftrightarrow> (\<forall>bs \<in> set css. promise bs k = None)"
      unfolding filter_concat using each(1) by simp
    show "(\<forall>b \<in> set (?same (concat css)). pb_certainty b = Definite) \<longleftrightarrow>
      (\<forall>bs \<in> set css. promise bs k \<noteq> None \<longrightarrow> map_option fst (promise bs k) = Some Definite)"
      by (simp only: filter_concat set_concat set_map ball_UN bex_UN image_image each(2) cong: ball_cong bex_cong)
    show "(\<exists>b \<in> set (?same (concat css)). pb_file_entry_initialization b = InitializedAtEntry) \<longleftrightarrow>
      (\<exists>bs \<in> set css. map_option snd (promise bs k) = Some InitializedAtEntry)"
      by (simp only: filter_concat set_concat set_map ball_UN bex_UN image_image each(3) cong: ball_cong bex_cong)
  qed
  have both: "(\<forall>bs \<in> set css. promise bs k \<noteq> None) \<and> (\<forall>bs \<in> set css. promise bs k \<noteq> None \<longrightarrow> map_option fst (promise bs k) = Some Definite)
      \<longleftrightarrow> (\<forall>bs \<in> set css. map_option fst (promise bs k) = Some Definite)" by fastforce
  show ?thesis
    unfolding summary_of_def common_promise_def Let_def initialization_of_def i
    by (simp only: if_distrib[of "map_option _"] option.map prod.case n d none both)
qed

lemma merge_into_new: "binding_key b \<notin> set (map binding_key bs) \<Longrightarrow> merge_into b bs = bs @ [b]"
  by (induction bs) (auto simp: same_binding)

lemma merge_all_new: "distinct (map binding_key (acc @ bs)) \<Longrightarrow> fold merge_into bs acc = acc @ bs"
proof (induction bs arbitrary: acc)
  case (Cons b bs)
  then have "merge_into b acc = acc @ [b]" by (intro merge_into_new) auto
  then show ?case using Cons.IH[of "acc @ [b]"] Cons.prems by simp
qed simp

lemma counted_key: "binding_key (counted_binding n e) = fst e"
  by (cases e) (auto simp: counted_binding_def binding_key_def provided_binding_new_def split: prod.splits)

text \<open>The bindings that come out of the counting of the candidates.\<close>

lemma merged_bindings_ok:
  assumes "\<forall>bs \<in> set css. tidy_bindings bs" "\<And>xs. mset (shuffle xs) = mset xs"
  defines "bs \<equiv> fold merge_into (map (counted_binding (length css)) (shuffle (fold note_candidate (concat css) []))) []"
  shows "tidy_bindings bs" "promise bs k = common_promise css k"
proof -
  let ?es = "shuffle (fold note_candidate (concat css) [])"
  note es = map_of_shuffle[OF assms(2) note_candidates_ok(1), of "concat css"]
  have keys: "map binding_key (map (counted_binding (length css)) ?es) = map fst ?es" by (simp add: counted_key)
  with es(1) have bs: "bs = map (counted_binding (length css)) ?es"
    unfolding bs_def using merge_all_new[of "[]", unfolded append_Nil, OF es(1)[folded keys]] by simp
  show "tidy_bindings bs" unfolding tidy_bindings_def bs keys by (rule es(1))
  have "map (\<lambda>b. (binding_key b, (pb_certainty b, pb_file_entry_initialization b))) bs
      = map (\<lambda>(k, v). (k, (\<lambda>(n, d, i). (if n = length css \<and> d then Definite else Possible, i)) v)) ?es"
    unfolding bs by (auto simp: counted_binding_def binding_key_def provided_binding_new_def)
  then have "promise bs k = map_option (\<lambda>(n, d, i). (if n = length css \<and> d then Definite else Possible, i)) (map_of ?es k)"
    unfolding promise_def by (simp only: map_of_map o_apply)
  then show "promise bs k = common_promise css k"
    unfolding es(2) note_candidates_ok(2) candidates_summary[OF assms(1)] .
qed

section \<open>The merged contracts\<close>

lemma fc_fold_fields:
  "fc_provided_bindings (fold fc_add_required_read rs f) = fc_provided_bindings f"
  "fc_provided_bindings (fold fc_add_origin_path ps f) = fc_provided_bindings f"
  "set (fc_required_reads (fold fc_add_required_read rs f)) = set (fc_required_reads f) \<union> set rs"
  "fc_required_reads (fold fc_add_origin_path ps f) = fc_required_reads f"
  "fc_origin_paths (fold fc_add_required_read rs f) = fc_origin_paths f"
  "set (fc_origin_paths (fold fc_add_origin_path ps f)) = set (fc_origin_paths f) \<union> set ps"
proof -
  show "fc_provided_bindings (fold fc_add_required_read rs f) = fc_provided_bindings f"
    "fc_origin_paths (fold fc_add_required_read rs f) = fc_origin_paths f"
    "set (fc_required_reads (fold fc_add_required_read rs f)) = set (fc_required_reads f) \<union> set rs"
    by (induction rs arbitrary: f) (auto simp: fc_add_required_read_def push_new_ok)
  show "fc_provided_bindings (fold fc_add_origin_path ps f) = fc_provided_bindings f"
    "fc_required_reads (fold fc_add_origin_path ps f) = fc_required_reads f"
    "set (fc_origin_paths (fold fc_add_origin_path ps f)) = set (fc_origin_paths f) \<union> set ps"
    by (induction ps arbitrary: f) (auto simp: fc_add_origin_path_def push_new_ok)
qed

lemma fc_fold_bindings:
  "fold (\<lambda>e. fc_add_provided_binding (g e)) es f = f\<lparr>fc_provided_bindings := fold merge_into (map g es) (fc_provided_bindings f)\<rparr>"
  by (induction es arbitrary: f) (simp_all add: fc_add_provided_binding_def)

lemma note_functions_noted:
  assumes "fold note_function_contract cs (m, counts) = (m', counts')" "tidy_function m"
  shows "counts' = fold note_candidate (concat (map fc_provided_bindings cs)) counts
    \<and> tidy_function m' \<and> fc_name m' = fc_name m \<and> fc_provided_bindings m' = fc_provided_bindings m
    \<and> set (fc_required_reads m') = set (fc_required_reads m) \<union> (\<Union>c \<in> set cs. set (fc_required_reads c))
    \<and> set (fc_origin_paths m') = set (fc_origin_paths m) \<union> (\<Union>c \<in> set cs. set (fc_origin_paths c))"
  using assms
proof (induction cs arbitrary: m counts)
  case (Cons c cs)
  let ?m = "fold fc_add_origin_path (fc_origin_paths c) (fold fc_add_required_read (fc_required_reads c) m)"
  have "note_function_contract c (m, counts) = (?m, fold note_candidate (fc_provided_bindings c) counts)"
    by (simp add: note_function_contract_def)
  with Cons.prems(1) have "fold note_function_contract cs (?m, fold note_candidate (fc_provided_bindings c) counts) = (m', counts')"
    by (simp only: fold.simps comp_apply)
  from Cons.IH[OF this] Cons.prems(2) show ?case by (simp add: fc_steps fc_fold_fields Un_assoc)
qed simp

definition function_merge_ok :: "function_contract list \<Rightarrow> function_contract \<Rightarrow> bool" where
  "function_merge_ok fs f \<longleftrightarrow> tidy_function f \<and> fc_name f = fc_name (hd fs)
     \<and> (\<forall>k. promise (fc_provided_bindings f) k = common_promise (map fc_provided_bindings fs) k)
     \<and> set (fc_required_reads f) = (\<Union>g \<in> set fs. set (fc_required_reads g))
     \<and> set (fc_origin_paths f) = (\<Union>g \<in> set fs. set (fc_origin_paths g))"

lemma merge_functions_ok:
  assumes "\<forall>f \<in> set fs. tidy_function f" "\<And>xs. mset (shuffle xs) = mset xs" "fs \<noteq> []"
  shows "\<exists>f. merge_function_contracts shuffle fs = Some f \<and> function_merge_ok fs f"
proof -
  obtain m counts where run: "fold note_function_contract fs (function_contract_new (fc_name (hd fs)), []) = (m, counts)"
    by (cases "fold note_function_contract fs (function_contract_new (fc_name (hd fs)), [])")
  note noted = note_functions_noted[OF run tidy_function_steps(1)]
  let ?bs = "fold merge_into (map (counted_binding (length (map fc_provided_bindings fs)))
      (shuffle (fold note_candidate (concat (map fc_provided_bindings fs)) []))) []"
  have tidy: "\<forall>bs \<in> set (map fc_provided_bindings fs). tidy_bindings bs" using assms(1) by (simp add: tidy_function_def)
  note bs = merged_bindings_ok[OF tidy assms(2)]
  have none: "fc_provided_bindings m = []" using noted by (simp add: function_contract_new_def)
  have "merge_function_contracts shuffle fs = Some (m\<lparr>fc_provided_bindings := ?bs\<rparr>)"
    using assms(3) noted none run[unfolded hd_conv_nth[OF assms(3)]]
    by (simp add: merge_function_contracts_def panic_simps fc_fold_bindings)
  moreover have "function_merge_ok fs (m\<lparr>fc_provided_bindings := ?bs\<rparr>)"
    using noted bs unfolding function_merge_ok_def tidy_function_def by (simp add: function_contract_new_def)
  ultimately show ?thesis by blast
qed

definition function_named :: "file_contract \<Rightarrow> string \<Rightarrow> function_contract option" where
  "function_named c x = find (\<lambda>f. fc_name f = x) (fl_provided_functions c)"

abbreviation group_function ::
  "function_contract \<Rightarrow> (string \<times> function_contract list) list \<Rightarrow> (string \<times> function_contract list) list" where
  "group_function f \<equiv> upsert (fc_name f) [] (\<lambda>fs. fs @ [f])"

lemma group_functions_ok:
  "distinct (map fst (fold group_function fs []))"
  "map_of (fold group_function fs []) x =
     (if filter (\<lambda>f. fc_name f = x) fs = [] then None else Some (filter (\<lambda>f. fc_name f = x) fs))"
proof (induction fs rule: rev_induct)
  case (snoc f fs)
  { case 1 show ?case using snoc(1) by (simp add: upsert_ok(3))
  next case 2 show ?case using snoc(2) by (auto simp: upsert_ok(1)) }
qed simp_all

lemma fl_folds:
  "fold fl_add_required_read xs c = c\<lparr>fl_required_reads := fold push_new xs (fl_required_reads c)\<rparr>"
  "fold fl_add_externally_consumed_binding_name xs c =
     c\<lparr>fl_externally_consumed_binding_names := fold push_new xs (fl_externally_consumed_binding_names c)\<rparr>"
  "fold fl_add_externally_consumed_binding_prefix xs c =
     c\<lparr>fl_externally_consumed_binding_prefixes := fold push_new xs (fl_externally_consumed_binding_prefixes c)\<rparr>"
  "fold (\<lambda>e. fl_add_provided_binding (g e)) es c = c\<lparr>fl_provided_bindings := fold merge_into (map g es) (fl_provided_bindings c)\<rparr>"
proof -
  show "fold fl_add_required_read xs c = c\<lparr>fl_required_reads := fold push_new xs (fl_required_reads c)\<rparr>"
    by (induction xs arbitrary: c) (simp_all add: fl_add_required_read_def)
  show "fold fl_add_externally_consumed_binding_name xs c =
     c\<lparr>fl_externally_consumed_binding_names := fold push_new xs (fl_externally_consumed_binding_names c)\<rparr>"
    by (induction xs arbitrary: c) (simp_all add: fl_add_externally_consumed_binding_name_def)
  show "fold fl_add_externally_consumed_binding_prefix xs c =
     c\<lparr>fl_externally_consumed_binding_prefixes := fold push_new xs (fl_externally_consumed_binding_prefixes c)\<rparr>"
    by (induction xs arbitrary: c) (simp_all add: fl_add_externally_consumed_binding_prefix_def)
  show "fold (\<lambda>e. fl_add_provided_binding (g e)) es c = c\<lparr>fl_provided_bindings := fold merge_into (map g es) (fl_provided_bindings c)\<rparr>"
    by (induction es arbitrary: c) (simp_all add: fl_add_provided_binding_def)
qed

lemma push_all: "set (fold push_new xs ys) = set ys \<union> set xs" "distinct (fold push_new xs ys) \<longleftrightarrow> distinct ys"
  by (induction xs arbitrary: ys) (auto simp: push_new_ok)

lemma note_files_noted:
  assumes "fold note_file_contract cs (m, counts, fns) = (m', counts', fns')" "tidy_file m"
  shows "counts' = fold note_candidate (concat (map fl_provided_bindings cs)) counts
    \<and> fns' = fold group_function (concat (map fl_provided_functions cs)) fns
    \<and> tidy_file m' \<and> fl_provided_bindings m' = fl_provided_bindings m \<and> fl_provided_functions m' = fl_provided_functions m
    \<and> set (fl_required_reads m') = set (fl_required_reads m) \<union> (\<Union>c \<in> set cs. set (fl_required_reads c))
    \<and> set (fl_externally_consumed_binding_names m') = set (fl_externally_consumed_binding_names m)
        \<union> (\<Union>c \<in> set cs. set (fl_externally_consumed_binding_names c))
    \<and> set (fl_externally_consumed_binding_prefixes m') = set (fl_externally_consumed_binding_prefixes m)
        \<union> (\<Union>c \<in> set cs. set (fl_externally_consumed_binding_prefixes c))
    \<and> (fl_externally_consumed_bindings m' \<longleftrightarrow> fl_externally_consumed_bindings m
        \<or> (\<exists>c \<in> set cs. fl_externally_consumed_bindings c))"
  using assms
proof (induction cs arbitrary: m counts fns)
  case (Cons c cs)
  let ?m = "m\<lparr>fl_externally_consumed_bindings := fl_externally_consumed_bindings m \<or> fl_externally_consumed_bindings c,
      fl_externally_consumed_binding_names := fold push_new (fl_externally_consumed_binding_names c) (fl_externally_consumed_binding_names m),
      fl_externally_consumed_binding_prefixes := fold push_new (fl_externally_consumed_binding_prefixes c) (fl_externally_consumed_binding_prefixes m),
      fl_required_reads := fold push_new (fl_required_reads c) (fl_required_reads m)\<rparr>"
  have "note_file_contract c (m, counts, fns) = (?m, fold note_candidate (fl_provided_bindings c) counts, fold group_function (fl_provided_functions c) fns)"
    by (simp add: note_file_contract_def fl_folds)
  with Cons.prems(1) have "fold note_file_contract cs (?m, fold note_candidate (fl_provided_bindings c) counts,
      fold group_function (fl_provided_functions c) fns) = (m', counts', fns')"
    by (simp only: fold.simps comp_apply)
  moreover have "tidy_file ?m" using Cons.prems(2) by (simp add: tidy_file_def push_all)
  ultimately show ?case using Cons.IH[of ?m] by (simp add: push_all Un_assoc disj_assoc)
qed simp

text \<open>The loop over the functions by name: those that every candidate provides are merged and pushed.\<close>

lemma merge_function_new: "fc_name f \<notin> set (map fc_name fs) \<Longrightarrow> merge_function_into f fs = fs @ [f]"
  by (induction fs) auto

lemma add_merged_functions_ok:
  assumes "\<And>xs. mset (shuffle xs) = mset xs" "distinct (map fst es)" "\<forall>x \<in> set (map fst es). x \<notin> fc_name ` set (fl_provided_functions m)"
    and "\<forall>(x, gs) \<in> set es. gs \<noteq> [] \<and> (\<forall>g \<in> set gs. fc_name g = x \<and> tidy_function g)"
  shows "\<exists>fs. fold (add_merged_function shuffle n) (map snd es) m = m\<lparr>fl_provided_functions := fl_provided_functions m @ fs\<rparr>
    \<and> map fc_name fs = map fst (filter (\<lambda>(x, gs). length gs = n) es)
    \<and> (\<forall>f \<in> set fs. \<exists>gs. (fc_name f, gs) \<in> set es \<and> length gs = n \<and> function_merge_ok gs f)"
  using assms(2-)
proof (induction es arbitrary: m)
  case Nil
  then show ?case by simp
next
  case (Cons e es)
  obtain x gs where e: "e = (x, gs)" by (cases e)
  have gs: "gs \<noteq> []" "fc_name (hd gs) = x" "\<forall>g \<in> set gs. tidy_function g" using Cons.prems(3) by (auto simp: e)
  show ?case
  proof (cases "length gs = n")
    case False
    then have "fold (add_merged_function shuffle n) (map snd (e # es)) m = fold (add_merged_function shuffle n) (map snd es) m"
      by (simp add: e add_merged_function_def)
    moreover obtain fs where "fold (add_merged_function shuffle n) (map snd es) m = m\<lparr>fl_provided_functions := fl_provided_functions m @ fs\<rparr>"
      "map fc_name fs = map fst (filter (\<lambda>(x, gs). length gs = n) es)"
      "\<forall>f \<in> set fs. \<exists>gs. (fc_name f, gs) \<in> set es \<and> length gs = n \<and> function_merge_ok gs f"
      using Cons.IH[of m] Cons.prems by (auto simp: e)
    ultimately show ?thesis using False by (intro exI[of _ fs]) (auto simp: e)
  next
    case True
    obtain f where f: "merge_function_contracts shuffle gs = Some f" "function_merge_ok gs f"
      using merge_functions_ok[OF gs(3) assms(1) gs(1)] by blast
    then have name: "fc_name f = x" using gs(2) by (simp add: function_merge_ok_def)
    let ?m = "m\<lparr>fl_provided_functions := fl_provided_functions m @ [f]\<rparr>"
    have "add_merged_function shuffle n gs m = ?m"
      using True f(1) Cons.prems(2) merge_function_new[of f "fl_provided_functions m"] name
      by (simp add: add_merged_function_def fl_add_provided_function_def e)
    moreover obtain fs where "fold (add_merged_function shuffle n) (map snd es) ?m = ?m\<lparr>fl_provided_functions := fl_provided_functions ?m @ fs\<rparr>"
      "map fc_name fs = map fst (filter (\<lambda>(x, gs). length gs = n) es)"
      "\<forall>f \<in> set fs. \<exists>gs. (fc_name f, gs) \<in> set es \<and> length gs = n \<and> function_merge_ok gs f"
    proof -
      have "\<forall>y \<in> set (map fst es). y \<noteq> x" using Cons.prems(1) by (auto simp: e)
      then have fresh: "\<forall>y \<in> set (map fst es). y \<notin> fc_name ` set (fl_provided_functions ?m)"
        using Cons.prems(2) name by auto
      have "distinct (map fst es)" "\<forall>(x, gs) \<in> set es. gs \<noteq> [] \<and> (\<forall>g \<in> set gs. fc_name g = x \<and> tidy_function g)"
        using Cons.prems(1,3) by simp_all
      from Cons.IH[OF this(1) fresh this(2)] show ?thesis using that by blast
    qed
    ultimately show ?thesis using True f(2) name by (intro exI[of _ "f # fs"]) (auto simp: e)
  qed
qed

lemma tidy_named:
  assumes "tidy_file c"
  shows "filter (\<lambda>f. fc_name f = x) (fl_provided_functions c) = (case function_named c x of None \<Rightarrow> [] | Some f \<Rightarrow> [f])"
proof -
  have "distinct (map fc_name fs) \<Longrightarrow>
    filter (\<lambda>f. fc_name f = x) fs = (case find (\<lambda>f. fc_name f = x) fs of None \<Rightarrow> [] | Some f \<Rightarrow> [f])" for fs
  proof (induction fs)
    case (Cons f fs)
    then have "filter (\<lambda>g. fc_name g = fc_name f) fs = []" by (simp add: filter_empty_conv) (metis imageI)
    then show ?case using Cons by auto
  qed simp
  from this[of "fl_provided_functions c"] assms show ?thesis by (simp add: tidy_file_def function_named_def)
qed

lemma all_named:
  fixes x :: string
  assumes "\<forall>c \<in> set cs. tidy_file c"
  defines "gs \<equiv> filter (\<lambda>f. fc_name f = x) (concat (map fl_provided_functions cs))"
  shows "length gs = length cs \<longleftrightarrow> (\<forall>c \<in> set cs. function_named c x \<noteq> None)"
    "\<forall>c \<in> set cs. function_named c x \<noteq> None \<Longrightarrow> gs = map (\<lambda>c. the (function_named c x)) cs"
proof -
  have "length gs \<le> length cs \<and> (length gs = length cs \<longleftrightarrow> (\<forall>c \<in> set cs. function_named c x \<noteq> None))"
    using assms(1) unfolding gs_def
  proof (induction cs)
    case (Cons c cs)
    then show ?case using tidy_named[of c x] by (cases "function_named c x") auto
  qed simp
  then show "length gs = length cs \<longleftrightarrow> (\<forall>c \<in> set cs. function_named c x \<noteq> None)" by blast
  show "\<forall>c \<in> set cs. function_named c x \<noteq> None \<Longrightarrow> gs = map (\<lambda>c. the (function_named c x)) cs"
    using assms(1) unfolding gs_def by (induction cs) (auto simp: tidy_named)
qed

lemma named_tidy:
  assumes "tidy_file c" "function_named c x = Some f"
  shows "fc_name f = x" "tidy_function f" "f \<in> set (fl_provided_functions c)"
  using assms unfolding function_named_def find_Some_iff tidy_file_def by (auto simp: nth_mem)

section \<open>Properties\<close>

text \<open>C24: The contract of a \<open>source\<close> command with several candidate files promises just what all the
  candidates promise, whatever the order of the hash tables: a binding is definite when every candidate
  promises it as definite, and initialised when some candidate initialises it; a function is provided when
  every candidate provides it, and then with the merged contract; everything that some candidate reads or
  leaves to outside use is kept.\<close>

theorem candidate_contracts_merged:
  assumes "\<forall>c \<in> set cs. tidy_file c" "\<And>xs. mset (shuffle xs) = mset xs" "\<And>xs. mset (shuffle_functions xs) = mset xs"
  shows "let m = merge_file_contracts shuffle shuffle_functions cs in tidy_file m
    \<and> (\<forall>k. promise (fl_provided_bindings m) k = common_promise (map fl_provided_bindings cs) k)
    \<and> (\<forall>x. function_named m x \<noteq> None \<longleftrightarrow> cs \<noteq> [] \<and> (\<forall>c \<in> set cs. function_named c x \<noteq> None))
    \<and> (\<forall>x f. function_named m x = Some f \<longrightarrow> function_merge_ok (map (\<lambda>c. the (function_named c x)) cs) f)
    \<and> set (fl_required_reads m) = (\<Union>c \<in> set cs. set (fl_required_reads c))
    \<and> (fl_externally_consumed_bindings m \<longleftrightarrow> (\<exists>c \<in> set cs. fl_externally_consumed_bindings c))
    \<and> set (fl_externally_consumed_binding_names m) = (\<Union>c \<in> set cs. set (fl_externally_consumed_binding_names c))
    \<and> set (fl_externally_consumed_binding_prefixes m) = (\<Union>c \<in> set cs. set (fl_externally_consumed_binding_prefixes c))"
proof -
  let ?css = "map fl_provided_bindings cs" and ?named = "\<lambda>x. filter (\<lambda>f. fc_name f = x) (concat (map fl_provided_functions cs))"
  obtain m counts fns where run: "fold note_file_contract cs (file_contract_default, [], []) = (m, counts, fns)"
    using prod_cases3 by blast
  note noted = note_files_noted[OF run tidy_file_steps(1)]
  let ?bs = "fold merge_into (map (counted_binding (length ?css)) (shuffle (fold note_candidate (concat ?css) []))) []"
  have "\<forall>bs \<in> set ?css. tidy_bindings bs" using assms(1) by (simp add: tidy_file_def)
  note bs = merged_bindings_ok[OF this assms(2)]
  have empty: "fl_provided_bindings m = []" "fl_provided_functions m = []" using noted by (simp_all add: file_contract_default_def)
  let ?m = "m\<lparr>fl_provided_bindings := ?bs\<rparr>" and ?es = "shuffle_functions fns"
  have groups: "fns = fold group_function (concat (map fl_provided_functions cs)) []" using noted by blast
  note es = map_of_shuffle[OF assms(3) group_functions_ok(1), of "concat (map fl_provided_functions cs)", folded groups]
  have entry: "(x, gs) \<in> set ?es \<longleftrightarrow> gs = ?named x \<and> gs \<noteq> []" for x gs
    unfolding map_of_eq_Some_iff[OF es(1), symmetric] es(2) unfolding groups group_functions_ok(2) by auto
  have "\<forall>f \<in> set (concat (map fl_provided_functions cs)). tidy_function f" using assms(1) by (auto simp: tidy_file_def)
  then have "\<forall>(x, gs) \<in> set ?es. gs \<noteq> [] \<and> (\<forall>g \<in> set gs. fc_name g = x \<and> tidy_function g)" using entry by auto
  from add_merged_functions_ok[OF assms(2) es(1) _ this, of ?m "length cs"] empty(2) obtain fs where
    fs: "fold (add_merged_function shuffle (length cs)) (map snd ?es) ?m = ?m\<lparr>fl_provided_functions := fs\<rparr>"
    "map fc_name fs = map fst (filter (\<lambda>(x, gs). length gs = length cs) ?es)"
    "\<forall>f \<in> set fs. \<exists>gs. (fc_name f, gs) \<in> set ?es \<and> length gs = length cs \<and> function_merge_ok gs f" by auto
  have result: "merge_file_contracts shuffle shuffle_functions cs = ?m\<lparr>fl_provided_functions := fs\<rparr>" (is "_ = ?r")
    using run noted empty(1) fs(1) by (simp add: merge_file_contracts_def fl_folds)
  have "distinct (map fst (filter (\<lambda>(x, gs). length gs = length cs) ?es))" by (rule distinct_map_filter[OF es(1)])
  then have tidy: "tidy_file ?r"
    using noted bs(1) fs(3) by (simp add: tidy_file_def fs(2)) (auto simp: function_merge_ok_def)
  have some: "function_named ?r x \<noteq> None \<longleftrightarrow> x \<in> set (map fc_name fs)" for x
    by (auto simp: function_named_def find_None_iff)
  have "x \<in> set (map fc_name fs) \<longleftrightarrow> ?named x \<noteq> [] \<and> length (?named x) = length cs" for x
  proof -
    have "x \<in> set (map fst (filter (\<lambda>(x, gs). length gs = length cs) ?es)) \<longleftrightarrow> (\<exists>gs. (x, gs) \<in> set ?es \<and> length gs = length cs)"
      by force
    then show ?thesis unfolding fs(2) entry by auto
  qed
  then have provided: "function_named ?r x \<noteq> None \<longleftrightarrow> cs \<noteq> [] \<and> (\<forall>c \<in> set cs. function_named c x \<noteq> None)" for x
    unfolding some all_named(1)[OF assms(1), symmetric] by fastforce
  have merged: "function_merge_ok (map (\<lambda>c. the (function_named c x)) cs) f" if f: "function_named ?r x = Some f" for x f
  proof -
    have "f \<in> set fs" "fc_name f = x" using named_tidy[OF tidy f] by simp_all
    then have "function_merge_ok (?named x) f" using fs(3) entry by auto
    moreover have "\<forall>c \<in> set cs. function_named c x \<noteq> None" using provided[of x] f by simp
    ultimately show ?thesis using all_named(2)[OF assms(1)] by simp
  qed
  show ?thesis unfolding Let_def result
    using tidy bs(2) provided merged noted by (simp add: file_contract_default_def)
qed

text \<open>Two candidate files: both set \<open>x\<close> and define \<open>f\<close>, one also sets \<open>y\<close> and defines \<open>g\<close>.\<close>

definition first_candidate :: file_contract where
  "first_candidate = fl_add_provided_function (fc_add_required_read ''p'' (function_contract_new ''f''))
     (fl_add_provided_binding (provided_binding_new ''x'' ProvidedVariable Definite) file_contract_default)"

definition second_candidate :: file_contract where
  "second_candidate = fl_add_provided_function (function_contract_new ''g'')
     (fl_add_provided_function (fc_add_required_read ''q'' (function_contract_new ''f''))
     (fl_add_provided_binding (provided_binding_new ''y'' ProvidedVariable Definite)
     (fl_add_provided_binding (provided_binding_new ''x'' ProvidedVariable Definite) file_contract_default)))"

theorem candidate_contracts_merged_witness:
  "let m = merge_file_contracts rev rev [first_candidate, second_candidate] in
     promise (fl_provided_bindings m) (''x'', ProvidedVariable) = Some (Definite, AmbientOnly)
   \<and> promise (fl_provided_bindings m) (''y'', ProvidedVariable) = Some (Possible, AmbientOnly)
   \<and> function_named m ''f'' \<noteq> None \<and> function_named m ''g'' = None"
proof -
  have tidy: "\<forall>c \<in> set [first_candidate, second_candidate]. tidy_file c"
    by (simp add: first_candidate_def second_candidate_def tidy_file_steps tidy_function_steps)
  define cs where "cs = [first_candidate, second_candidate]"
  have each: "common_promise (map fl_provided_bindings cs) (''x'', ProvidedVariable) = Some (Definite, AmbientOnly)"
    "common_promise (map fl_provided_bindings cs) (''y'', ProvidedVariable) = Some (Possible, AmbientOnly)"
    "cs \<noteq> [] \<and> (\<forall>c \<in> set cs. function_named c ''f'' \<noteq> None)"
    "\<not> (cs \<noteq> [] \<and> (\<forall>c \<in> set cs. function_named c ''g'' \<noteq> None))" unfolding cs_def by code_simp+
  note merged = candidate_contracts_merged[OF tidy[folded cs_def], of rev rev, unfolded Let_def, OF mset_rev mset_rev]
  have all: "promise (fl_provided_bindings (merge_file_contracts rev rev cs)) k = common_promise (map fl_provided_bindings cs) k"
    "function_named (merge_file_contracts rev rev cs) x \<noteq> None \<longleftrightarrow> cs \<noteq> [] \<and> (\<forall>c \<in> set cs. function_named c x \<noteq> None)" for k x
    by (rule spec[OF conjunct1[OF conjunct2[OF merged]]], rule spec[OF conjunct1[OF conjunct2[OF conjunct2[OF merged]]]])
  have "function_named (merge_file_contracts rev rev cs) ''f'' \<noteq> None" "function_named (merge_file_contracts rev rev cs) ''g'' = None"
    using all(2)[of "''f''"] all(2)[of "''g''"] each(3,4) by blast+
  then show ?thesis unfolding Let_def cs_def[symmetric] all(1) each(1,2) by simp
qed

end
