(* ===== verification/Call_Resolution.thy ===== *)
theory Call_Resolution
  imports Bindings Exit_Effects
begin

text \<open>
  Model of \<open>crates/shucked-semantic/src/function_resolution.rs\<close>: which function definition a call site
  refers to.  A definition in the scope of the call counts when it comes first and is executed
  unconditionally; one in an enclosing scope counts unless the function around the call can already
  be entered before the definition is reached, which is decided by a search through the callers of that
  function.  The search carries the set of the scopes it is visiting, and a cache that is read and
  written only at the root of a search.  The theorems say that the search terminates, that it decides an
  inductive relation, that the cache never changes an answer, and what every call site is resolved to.
\<close>

section \<open>The lookup tables\<close>

record function_binding_lookup =
  lk_program :: recorded_program
  lk_scopes :: "scope list"
  lk_bindings :: "binding list"
  lk_call_sites :: "(string \<times> call_site list) list"
  lk_unconditional :: "binding_id set"
  lk_function_bindings_by_scope :: "scope_id \<rightharpoonup> binding_id list"

type_synonym entry_cache = "scope_id \<times> scope_id \<times> nat \<rightharpoonup> bool"
type_synonym search_state = "entry_cache \<times> scope_id set"

definition push_binding :: "binding_id \<times> scope_id \<Rightarrow> (scope_id \<rightharpoonup> binding_id list) \<Rightarrow> (scope_id \<rightharpoonup> binding_id list)" where
  "push_binding = (\<lambda>(binding, scope) m. m(scope \<mapsto> (case m scope of None \<Rightarrow> [] | Some bs \<Rightarrow> bs) @ [binding]))"

definition function_bindings_by_scope :: "recorded_program \<Rightarrow> scope_id \<rightharpoonup> binding_id list" where
  "function_bindings_by_scope p = fold push_binding (rp_function_body_scopes p) Map.empty"

definition scope_has_ancestor :: "function_binding_lookup \<Rightarrow> scope_id \<Rightarrow> scope_id \<Rightarrow> bool option" where
  "scope_has_ancestor lk scope ancestor =
     map_option (\<lambda>xs. ancestor \<in> set xs) (ancestor_scopes (length (lk_scopes lk)) (lk_scopes lk) scope)"

text \<open>\<open>find\<close> with a predicate that may panic.\<close>

fun find_opt :: "('a \<Rightarrow> bool option) \<Rightarrow> 'a list \<Rightarrow> 'a option option" where
  "find_opt f [] = Some None"
| "find_opt f (x # xs) = do { b \<leftarrow> f x; if b then Some (Some x) else find_opt f xs }"

definition lexically_visible_function_binding_in_scope ::
  "scope list \<Rightarrow> binding list \<Rightarrow> string \<Rightarrow> scope_id \<Rightarrow> scope_id \<Rightarrow> nat \<Rightarrow> binding_id option option" where
  "lexically_visible_function_binding_in_scope scopes bindings name target_scope call_scope offset = do {
     sc \<leftarrow> nth_opt scopes target_scope;
     case sc_bindings sc name of
       None \<Rightarrow> Some None
     | Some candidates \<Rightarrow>
         if target_scope \<noteq> call_scope
         then find_opt (\<lambda>b. do { c \<leftarrow> nth_opt bindings b; Some (b_kind c = FunctionDefinition) }) (rev candidates)
         else find_opt (\<lambda>b. do { c \<leftarrow> nth_opt bindings b;
             Some (b_kind c = FunctionDefinition \<and> start_offset (b_span c) \<le> offset) }) (rev candidates) }"

definition call_site_may_reference_binding ::
  "function_binding_lookup \<Rightarrow> call_site \<Rightarrow> binding_id \<Rightarrow> nat \<Rightarrow> bool option" where
  "call_site_may_reference_binding lk site b offset = do {
     target \<leftarrow> nth_opt (lk_bindings lk) b;
     within \<leftarrow> scope_has_ancestor lk (cs_scope site) (b_scope target);
     if \<not> within then Some False
     else if b_scope target = cs_scope site
     then do {
       visible \<leftarrow> lexically_visible_function_binding_in_scope (lk_scopes lk) (lk_bindings lk) (b_name target)
         (cs_scope site) (cs_scope site) (start_offset (cs_span site));
       Some (visible = Some b) }
     else Some (start_offset (b_span target) < offset) }"

definition lookup_enclosing_function :: "function_binding_lookup \<Rightarrow> scope_id \<Rightarrow> scope_id option option" where
  "lookup_enclosing_function lk scope = enclosing_scope_matching (length (lk_scopes lk)) (lk_scopes lk) scope
     (\<lambda>s _. lk_function_bindings_by_scope lk s \<noteq> None)"

section \<open>The search through the callers\<close>

text \<open>\<open>any\<close> with a test that may panic and changes the state.\<close>

fun any_state :: "('a \<Rightarrow> 's \<Rightarrow> (bool \<times> 's) option) \<Rightarrow> 'a list \<Rightarrow> 's \<Rightarrow> (bool \<times> 's) option" where
  "any_state f [] st = Some (False, st)"
| "any_state f (x # xs) st = do { (b, st) \<leftarrow> f x st; if b then Some (True, st) else any_state f xs st }"

definition call_site_can_run_before_offset ::
  "(scope_id \<Rightarrow> search_state \<Rightarrow> (bool \<times> search_state) option) \<Rightarrow> function_binding_lookup \<Rightarrow> scope_id \<Rightarrow> call_site
    \<Rightarrow> scope_id \<Rightarrow> nat \<Rightarrow> search_state \<Rightarrow> (bool \<times> search_state) option" where
  "call_site_can_run_before_offset enter lk target_scope site call_scope offset st = do {
     let command_start = start_offset (recorded_command_span_for_call_site (lk_program lk) site);
     enclosing \<leftarrow> lookup_enclosing_function lk (cs_scope site);
     case enclosing of
       None \<Rightarrow> do {
         within \<leftarrow> scope_has_ancestor lk (cs_scope site) call_scope;
         if within then Some (command_start < offset, st)
         else do { inside \<leftarrow> scope_has_ancestor lk call_scope target_scope; Some (inside, st) } }
     | Some f \<Rightarrow>
         if f = call_scope then Some (command_start < offset, st)
         else enter f st }"

definition call_site_enters ::
  "(scope_id \<Rightarrow> search_state \<Rightarrow> (bool \<times> search_state) option) \<Rightarrow> function_binding_lookup \<Rightarrow> scope_id \<Rightarrow> scope_id \<Rightarrow> nat
    \<Rightarrow> binding_id \<Rightarrow> call_site \<Rightarrow> search_state \<Rightarrow> (bool \<times> search_state) option" where
  "call_site_enters enter lk scope call_scope offset b site st = do {
     may \<leftarrow> call_site_may_reference_binding lk site b offset;
     if may then call_site_can_run_before_offset enter lk scope site call_scope offset st else Some (False, st) }"

definition function_entered ::
  "(scope_id \<Rightarrow> search_state \<Rightarrow> (bool \<times> search_state) option) \<Rightarrow> function_binding_lookup \<Rightarrow> scope_id \<Rightarrow> scope_id \<Rightarrow> nat
    \<Rightarrow> binding_id \<Rightarrow> search_state \<Rightarrow> (bool \<times> search_state) option" where
  "function_entered enter lk scope call_scope offset b st = do {
     f \<leftarrow> nth_opt (lk_bindings lk) b;
     case map_of (lk_call_sites lk) (b_name f) of
       None \<Rightarrow> Some (False, st)
     | Some sites \<Rightarrow> any_state (call_site_enters enter lk scope call_scope offset b) sites st }"

fun scope_has_known_entry_before_offset ::
  "nat \<Rightarrow> function_binding_lookup \<Rightarrow> scope_id \<Rightarrow> nat \<Rightarrow> scope_id \<Rightarrow> search_state \<Rightarrow> (bool \<times> search_state) option" where
  "scope_has_known_entry_before_offset 0 lk call_scope offset scope st = None"
| "scope_has_known_entry_before_offset (Suc k) lk call_scope offset scope (cache, visiting) =
     (let key = (scope, call_scope, offset); cacheable = visiting = {} in
      case (if cacheable then cache key else None) of
        Some cached \<Rightarrow> Some (cached, (cache, visiting))
      | None \<Rightarrow>
          if scope \<in> visiting then Some (False, (cache, visiting))
          else do {
            (has_entry, (cache, visiting)) \<leftarrow> (case lk_function_bindings_by_scope lk scope of
                None \<Rightarrow> Some (False, (cache, insert scope visiting))
              | Some bs \<Rightarrow> any_state
                  (function_entered (scope_has_known_entry_before_offset k lk call_scope offset) lk scope call_scope offset)
                  bs (cache, insert scope visiting));
            Some (has_entry, (if cacheable then cache(key \<mapsto> has_entry) else cache, visiting - {scope})) })"

section \<open>The resolver\<close>

definition parent_scope_binding_available_before_scope_runs ::
  "nat \<Rightarrow> function_binding_lookup \<Rightarrow> binding \<Rightarrow> scope_id \<Rightarrow> entry_cache \<Rightarrow> (bool \<times> entry_cache) option" where
  "parent_scope_binding_available_before_scope_runs k lk candidate scope cache = do {
     sc \<leftarrow> nth_opt (lk_scopes lk) scope;
     if start_offset (b_span candidate) \<le> start_offset (sc_span sc) then Some (True, cache)
     else do {
       (entered, (cache, _)) \<leftarrow> scope_has_known_entry_before_offset k lk (b_scope candidate)
         (start_offset (b_span candidate)) scope (cache, {});
       Some (\<not> entered, cache) } }"

text \<open>The inner loop over the bindings of one scope: \<open>Some answer\<close> is a \<open>return\<close>.\<close>

fun visible_among ::
  "nat \<Rightarrow> function_binding_lookup \<Rightarrow> scope_id \<Rightarrow> nat \<Rightarrow> scope_id \<Rightarrow> binding_id list \<Rightarrow> entry_cache
    \<Rightarrow> (binding_id option option \<times> entry_cache) option" where
  "visible_among k lk scope offset scope_id [] cache = Some (None, cache)"
| "visible_among k lk scope offset scope_id (b # bs) cache = do {
     candidate \<leftarrow> nth_opt (lk_bindings lk) b;
     if b_kind candidate \<noteq> FunctionDefinition then visible_among k lk scope offset scope_id bs cache
     else if scope_id = scope
     then (if start_offset (b_span candidate) \<le> offset \<and> b \<in> lk_unconditional lk then Some (Some (Some b), cache)
           else visible_among k lk scope offset scope_id bs cache)
     else if b \<notin> lk_unconditional lk then Some (Some None, cache)
     else do {
       (available, cache) \<leftarrow> parent_scope_binding_available_before_scope_runs k lk candidate scope cache;
       Some (Some (if available then Some b else None), cache) } }"

fun visible_in_scopes ::
  "nat \<Rightarrow> function_binding_lookup \<Rightarrow> string \<Rightarrow> scope_id \<Rightarrow> nat \<Rightarrow> scope_id list \<Rightarrow> entry_cache
    \<Rightarrow> (binding_id option \<times> entry_cache) option" where
  "visible_in_scopes k lk name scope offset [] cache = Some (None, cache)"
| "visible_in_scopes k lk name scope offset (s # ss) cache = do {
     sc \<leftarrow> nth_opt (lk_scopes lk) s;
     case sc_bindings sc name of
       None \<Rightarrow> visible_in_scopes k lk name scope offset ss cache
     | Some candidates \<Rightarrow> do {
         (answer, cache) \<leftarrow> visible_among k lk scope offset s (rev candidates) cache;
         case answer of
           Some answer \<Rightarrow> Some (answer, cache)
         | None \<Rightarrow> visible_in_scopes k lk name scope offset ss cache } }"

definition resolver_visible_function_binding ::
  "nat \<Rightarrow> function_binding_lookup \<Rightarrow> string \<Rightarrow> scope_id \<Rightarrow> nat \<Rightarrow> entry_cache \<Rightarrow> (binding_id option \<times> entry_cache) option" where
  "resolver_visible_function_binding k lk name scope offset cache = do {
     ancestors \<leftarrow> ancestor_scopes (length (lk_scopes lk)) (lk_scopes lk) scope;
     visible_in_scopes k lk name scope offset ancestors cache }"

definition visible_function_binding ::
  "nat \<Rightarrow> function_binding_lookup \<Rightarrow> string \<Rightarrow> scope_id \<Rightarrow> nat \<Rightarrow> binding_id option option" where
  "visible_function_binding k lk name scope offset =
     map_option fst (resolver_visible_function_binding k lk name scope offset Map.empty)"

text \<open>The binding of every call site, resolved with one cache for all of them.\<close>

definition resolve_site ::
  "nat \<Rightarrow> function_binding_lookup \<Rightarrow> string \<Rightarrow> call_site \<Rightarrow> entry_cache \<times> (span_key \<rightharpoonup> binding_id)
    \<Rightarrow> (entry_cache \<times> (span_key \<rightharpoonup> binding_id)) option" where
  "resolve_site k lk name site = (\<lambda>(cache, call_bindings). do {
     (binding, cache) \<leftarrow> resolver_visible_function_binding k lk name (cs_scope site) (start_offset (cs_span site)) cache;
     Some (cache, case binding of None \<Rightarrow> call_bindings
       | Some b \<Rightarrow> call_bindings(span_key (cs_name_span site) \<mapsto> b)) })"

definition visible_function_call_bindings ::
  "nat \<Rightarrow> function_binding_lookup \<Rightarrow> (span_key \<rightharpoonup> binding_id) option" where
  "visible_function_call_bindings k lk =
     map_option snd (fold_opt (\<lambda>(name, sites). fold_opt (resolve_site k lk name) sites) (lk_call_sites lk) (Map.empty, Map.empty))"

definition group_payload ::
  "nat \<Rightarrow> function_binding_lookup \<Rightarrow> (binding_id \<rightharpoonup> scope_id) \<Rightarrow> string \<times> scope_id \<times> nat \<times> 'p
    \<Rightarrow> (scope_id \<rightharpoonup> 'p list) \<Rightarrow> (scope_id \<rightharpoonup> 'p list) option" where
  "group_payload k lk function_body_scopes = (\<lambda>(name, scope, offset, payload) grouped. do {
     binding \<leftarrow> visible_function_binding k lk name scope offset;
     Some (case binding of None \<Rightarrow> grouped
       | Some b \<Rightarrow> (case function_body_scopes b of None \<Rightarrow> grouped
         | Some callee \<Rightarrow> grouped(callee \<mapsto> (case grouped callee of None \<Rightarrow> [] | Some ps \<Rightarrow> ps) @ [payload]))) })"

definition call_payloads_by_callee_scope ::
  "nat \<Rightarrow> function_binding_lookup \<Rightarrow> (binding_id \<rightharpoonup> scope_id) \<Rightarrow> (string \<times> scope_id \<times> nat \<times> 'p) list
    \<Rightarrow> (scope_id \<rightharpoonup> 'p list) option" where
  "call_payloads_by_callee_scope k lk function_body_scopes calls =
     fold_opt (group_payload k lk function_body_scopes) calls Map.empty"

section \<open>Unconditional definitions\<close>

definition collect_direct_bindings :: "span \<Rightarrow> (span_key \<rightharpoonup> binding_id list) \<Rightarrow> binding_id set \<Rightarrow> binding_id set" where
  "collect_direct_bindings s command_bindings unconditional =
     (case command_bindings (span_key s) of None \<Rightarrow> unconditional | Some bs \<Rightarrow> unconditional \<union> set bs)"

definition collect_sequence_with ::
  "(command_id \<Rightarrow> binding_id set \<Rightarrow> binding_id set option) \<Rightarrow> recorded_program \<Rightarrow> recorded_range \<Rightarrow> binding_id set
    \<Rightarrow> binding_id set option" where
  "collect_sequence_with collect p commands unconditional = do {
     cs \<leftarrow> commands_in p commands;
     fold_opt collect cs unconditional }"

fun collect_command_bindings ::
  "nat \<Rightarrow> recorded_program \<Rightarrow> (span_key \<rightharpoonup> binding_id list) \<Rightarrow> command_id \<Rightarrow> binding_id set \<Rightarrow> binding_id set option" where
  "collect_command_bindings 0 p command_bindings c unconditional = None"
| "collect_command_bindings (Suc n) p command_bindings c unconditional = do {
     command \<leftarrow> command_at p c;
     let unconditional = collect_direct_bindings (rc_span command) command_bindings unconditional;
     let collect = collect_command_bindings n p command_bindings;
     case rc_kind command of
       CList first _ \<Rightarrow> collect first unconditional
     | CBraceGroup body \<Rightarrow> collect_sequence_with collect p body unconditional
     | CAlways body always_body \<Rightarrow> do {
         unconditional \<leftarrow> collect_sequence_with collect p body unconditional;
         collect_sequence_with collect p always_body unconditional }
     | _ \<Rightarrow> Some unconditional }"

definition collect_sequence_bindings ::
  "nat \<Rightarrow> recorded_program \<Rightarrow> (span_key \<rightharpoonup> binding_id list) \<Rightarrow> recorded_range \<Rightarrow> binding_id set \<Rightarrow> binding_id set option" where
  "collect_sequence_bindings n p command_bindings =
     collect_sequence_with (collect_command_bindings n p command_bindings) p"

definition collect_unconditional_bindings ::
  "nat \<Rightarrow> recorded_program \<Rightarrow> (span_key \<rightharpoonup> binding_id list) \<Rightarrow> binding_id set option" where
  "collect_unconditional_bindings n p command_bindings = do {
     unconditional \<leftarrow> collect_sequence_bindings n p command_bindings (rp_file_commands p) {};
     fold_opt (collect_sequence_bindings n p command_bindings) (map snd (rp_function_bodies p)) unconditional }"

definition collect_unconditional_function_bindings ::
  "nat \<Rightarrow> recorded_program \<Rightarrow> (span_key \<rightharpoonup> binding_id list) \<Rightarrow> binding list \<Rightarrow> binding_id set option" where
  "collect_unconditional_function_bindings n p command_bindings bindings = do {
     unconditional \<leftarrow> collect_unconditional_bindings n p command_bindings;
     if unconditional \<subseteq> {..<length bindings}
     then Some {b \<in> unconditional. b_kind (bindings ! b) = FunctionDefinition} else None }"

section \<open>Which definitions are unconditional\<close>

text \<open>The commands that run whenever a command does.\<close>

inductive runs_with :: "recorded_program \<Rightarrow> command_id \<Rightarrow> command_id \<Rightarrow> bool" for p where
  run_self: "runs_with p c c"
| run_first: "rc_kind (rp_commands p ! c) = CList f r \<Longrightarrow> runs_with p f d \<Longrightarrow> runs_with p c d"
| run_group: "rc_kind (rp_commands p ! c) = CBraceGroup body \<Longrightarrow> commands_in p body = Some cs \<Longrightarrow> x \<in> set cs
    \<Longrightarrow> runs_with p x d \<Longrightarrow> runs_with p c d"
| run_try: "rc_kind (rp_commands p ! c) = CAlways body part \<Longrightarrow> commands_in p body = Some cs \<Longrightarrow> x \<in> set cs
    \<Longrightarrow> runs_with p x d \<Longrightarrow> runs_with p c d"
| run_finally: "rc_kind (rp_commands p ! c) = CAlways body part \<Longrightarrow> commands_in p part = Some cs \<Longrightarrow> x \<in> set cs
    \<Longrightarrow> runs_with p x d \<Longrightarrow> runs_with p c d"

inductive_cases runs_withE: "runs_with p c d"

definition in_body :: "recorded_program \<Rightarrow> recorded_range \<Rightarrow> command_id \<Rightarrow> bool" where
  "in_body p r c \<longleftrightarrow> (\<exists>cs. commands_in p r = Some cs \<and> c \<in> set cs)"

definition defined_by :: "(span_key \<rightharpoonup> binding_id list) \<Rightarrow> recorded_program \<Rightarrow> command_id \<Rightarrow> binding_id set" where
  "defined_by command_bindings p c = (case command_bindings (span_key (rc_span (rp_commands p ! c))) of None \<Rightarrow> {} | Some bs \<Rightarrow> set bs)"

abbreviation defined_with :: "(span_key \<rightharpoonup> binding_id list) \<Rightarrow> recorded_program \<Rightarrow> command_id \<Rightarrow> binding_id set" where
  "defined_with cb p c \<equiv> \<Union>(defined_by cb p ` {d. runs_with p c d})"

lemma collect_sequence_with_ok:
  assumes "below rank n p r" "\<And>c U. c < length (rp_commands p) \<Longrightarrow> rank c < n \<Longrightarrow> collect c U = Some (U \<union> F c)"
  shows "collect_sequence_with collect p r U = Some (U \<union> \<Union>(F ` {c. in_body p r c}))"
proof -
  obtain cs where cs: "commands_in p r = Some cs" "\<forall>c \<in> set cs. c < length (rp_commands p) \<and> rank c < n"
    using assms(1) by (auto simp: below_def)
  have "fold_opt collect cs U = Some (U \<union> \<Union>(F ` set cs))" for U
    using cs(2) assms(2) by (induction cs arbitrary: U) (auto simp: Un_assoc)
  then show ?thesis using cs(1) by (simp add: collect_sequence_with_def in_body_def)
qed

lemma collect_command_bindings_ok:
  assumes "ranked rank p" "c < length (rp_commands p)" "rank c < n"
  shows "collect_command_bindings n p cb c U = Some (U \<union> defined_with cb p c)"
  using assms(2,3)
proof (induction n arbitrary: c U)
  case (Suc n)
  let ?c = "rp_commands p ! c"
  let ?own = "defined_by cb p c" and ?seq = "\<lambda>r. \<Union>(defined_with cb p ` {x. in_body p r x})"
  have direct: "collect_direct_bindings (rc_span ?c) cb U = U \<union> ?own" for U
    by (simp add: collect_direct_bindings_def defined_by_def split: option.splits)
  have seq: "collect_sequence_with (collect_command_bindings n p cb) p r U = Some (U \<union> ?seq r)"
    if "below rank (rank c) p r" for r U
    by (rule collect_sequence_with_ok[OF that]) (use Suc in simp)
  note parts = ranked_parts[OF assms(1) Suc.prems(1) refl]
  have step: "{d. runs_with p c d} = insert c (case rc_kind ?c of
      CList f r \<Rightarrow> {d. runs_with p f d}
    | CBraceGroup body \<Rightarrow> {d. \<exists>x. in_body p body x \<and> runs_with p x d}
    | CAlways body part \<Rightarrow> {d. \<exists>x. (in_body p body x \<or> in_body p part x) \<and> runs_with p x d}
    | _ \<Rightarrow> {})"
    by (rule set_eqI, subst mem_Collect_eq, subst runs_with.simps) (cases "rc_kind ?c"; auto simp: in_body_def)
  show ?case
  proof (cases "rc_kind ?c")
    case (CList f r)
    then have "f < length (rp_commands p)" "rank f < n" using parts(2)[OF CList] Suc.prems(2) by auto
    from Suc.IH[OF this] show ?thesis
      using Suc.prems(1) CList step direct by (simp add: command_at_def panic_simps Un_assoc)
  next
    case (CBraceGroup body)
    then show ?thesis
      using Suc.prems(1) step direct seq[of body] parts(5)[of body] by (auto simp: command_at_def panic_simps)
  next
    case (CAlways body part)
    then show ?thesis
      using Suc.prems(1) step direct seq[of body] seq[of part] parts(4)[of body part] by (auto simp: command_at_def panic_simps)
  qed (use Suc.prems(1) step direct in \<open>simp_all add: command_at_def panic_simps\<close>)
qed simp

definition unconditional_command :: "recorded_program \<Rightarrow> command_id \<Rightarrow> bool" where
  "unconditional_command p d \<longleftrightarrow> (\<exists>c. (in_body p (rp_file_commands p) c
     \<or> (\<exists>r \<in> snd ` set (rp_function_bodies p). in_body p r c)) \<and> runs_with p c d)"

lemma collect_unconditional_ok:
  assumes "covered rank n p"
  shows "collect_unconditional_bindings n p cb = Some (\<Union>(defined_by cb p ` {d. unconditional_command p d}))"
proof -
  have wf: "ranked rank p" "range_ok p (rp_file_commands p)" "\<forall>r \<in> snd ` set (rp_function_bodies p). range_ok p r"
    and n: "\<And>c. c < length (rp_commands p) \<Longrightarrow> rank c < n"
    using assms by (auto simp: covered_def wf_program_def list_all_iff)
  have seq: "collect_sequence_bindings n p cb r U = Some (U \<union> \<Union>(defined_with cb p ` {c. in_body p r c}))" if "range_ok p r" for r U
    unfolding collect_sequence_bindings_def
    by (rule collect_sequence_with_ok[OF range_ok_below[OF that n]]) (simp, rule collect_command_bindings_ok[OF wf(1)])
  have "fold_opt (collect_sequence_bindings n p cb) rs U = Some (U \<union> (\<Union>r \<in> set rs. \<Union>(defined_with cb p ` {c. in_body p r c})))"
    if "\<forall>r \<in> set rs. range_ok p r" for rs U
    using that by (induction rs arbitrary: U) (simp_all add: seq Un_assoc)
  then have "collect_unconditional_bindings n p cb = Some (\<Union>(defined_with cb p ` {c. in_body p (rp_file_commands p) c})
      \<union> (\<Union>r \<in> snd ` set (rp_function_bodies p). \<Union>(defined_with cb p ` {c. in_body p r c})))"
    using wf(2,3) by (simp add: collect_unconditional_bindings_def seq)
  also have "\<dots> = Some (\<Union>(defined_by cb p ` {d. unconditional_command p d}))"
    unfolding unconditional_command_def option.inject by blast
  finally show ?thesis .
qed

section \<open>Which functions are entered before an offset\<close>

definition lookup_ok :: "function_binding_lookup \<Rightarrow> bool" where
  "lookup_ok lk \<longleftrightarrow> scopes_ok (lk_scopes lk)
     \<and> (\<forall>s bs. lk_function_bindings_by_scope lk s = Some bs \<longrightarrow> set bs \<subseteq> {..<length (lk_bindings lk)})
     \<and> (\<forall>b \<in> set (lk_bindings lk). b_scope b < length (lk_scopes lk))
     \<and> (\<forall>(x, sites) \<in> set (lk_call_sites lk). \<forall>site \<in> set sites. cs_scope site < length (lk_scopes lk))
     \<and> (\<forall>sc \<in> set (lk_scopes lk). \<forall>x bs. sc_bindings sc x = Some bs \<longrightarrow> set bs \<subseteq> {..<length (lk_bindings lk)})"

lemma find_opt_eq: "\<forall>x \<in> set xs. f x = Some (P x) \<Longrightarrow> find_opt f xs = Some (find P xs)"
  by (induction xs) auto

lemma any_state_same:
  assumes "\<And>x. x \<in> set xs \<Longrightarrow> f x st = Some (P x, st)"
  shows "any_state f xs st = Some (\<exists>x \<in> set xs. P x, st)"
  using assms by (induction xs) auto

lemma has_ancestor_ok:
  assumes "lookup_ok lk" "s < length (lk_scopes lk)"
  shows "scope_has_ancestor lk s a = Some (scope_ancestor (lk_scopes lk) s a)"
proof -
  have "scopes_ok (lk_scopes lk)" using assms(1) by (simp add: lookup_ok_def)
  from ancestor_scopes_ok[OF this assms(2) assms(2)] show ?thesis by (auto simp: scope_has_ancestor_def)
qed

definition enclosing_of :: "function_binding_lookup \<Rightarrow> scope_id \<Rightarrow> scope_id option" where
  "enclosing_of lk s = (let fs = {a. scope_ancestor (lk_scopes lk) s a \<and> lk_function_bindings_by_scope lk a \<noteq> None}
     in if fs = {} then None else Some (Max fs))"

lemma find_Max:
  assumes "sorted_wrt (>) (xs :: nat list)"
  shows "find P xs = (let fs = {a \<in> set xs. P a} in if fs = {} then None else Some (Max fs))"
  using assms
proof (induction xs)
  case (Cons x xs)
  have "Max {a \<in> set (x # xs). P a} = x" if "P x" using Cons.prems that by (intro Max_eqI) auto
  moreover have "{a \<in> set (x # xs). P a} = {a \<in> set xs. P a}" if "\<not> P x" using that by auto
  ultimately show ?case using Cons by (auto simp: Let_def)
qed simp

lemma lookup_enclosing_ok:
  assumes "lookup_ok lk" "s < length (lk_scopes lk)"
  shows "lookup_enclosing_function lk s = Some (enclosing_of lk s)"
    "enclosing_of lk s = Some f \<Longrightarrow> f < length (lk_scopes lk)"
proof -
  have "scopes_ok (lk_scopes lk)" using assms(1) by (simp add: lookup_ok_def)
  from ancestor_scopes_ok[OF this assms(2) assms(2)] obtain xs where
    xs: "ancestor_scopes (length (lk_scopes lk)) (lk_scopes lk) s = Some xs" "sorted_wrt (>) xs"
    "set xs = {a. scope_ancestor (lk_scopes lk) s a}" "\<forall>x \<in> set xs. x \<le> s" by blast
  have find: "find (\<lambda>a. lk_function_bindings_by_scope lk a \<noteq> None) xs = enclosing_of lk s"
    unfolding find_Max[OF xs(2)] enclosing_of_def by (simp add: xs(3))
  then show "lookup_enclosing_function lk s = Some (enclosing_of lk s)"
    unfolding lookup_enclosing_function_def enclosing_scope_find[OF xs(1)] by simp
  show "f < length (lk_scopes lk)" if "enclosing_of lk s = Some f"
  proof -
    have "f \<in> set xs" using that unfolding find[symmetric] find_Some_iff by auto
    then show ?thesis using xs(4) assms(2) by fastforce
  qed
qed

text \<open>The definition a name has in a scope at an offset.\<close>

definition latest_definition :: "function_binding_lookup \<Rightarrow> string \<Rightarrow> scope_id \<Rightarrow> nat \<Rightarrow> binding_id option" where
  "latest_definition lk name s offset = find (\<lambda>b. b_kind (lk_bindings lk ! b) = FunctionDefinition
       \<and> start_offset (b_span (lk_bindings lk ! b)) \<le> offset)
     (case sc_bindings (lk_scopes lk ! s) name of None \<Rightarrow> [] | Some bs \<Rightarrow> rev bs)"

definition may_refer :: "function_binding_lookup \<Rightarrow> call_site \<Rightarrow> binding_id \<Rightarrow> nat \<Rightarrow> bool" where
  "may_refer lk site b offset \<longleftrightarrow> (let target = lk_bindings lk ! b in scope_ancestor (lk_scopes lk) (cs_scope site) (b_scope target)
     \<and> (if b_scope target = cs_scope site then latest_definition lk (b_name target) (cs_scope site) (start_offset (cs_span site)) = Some b
        else start_offset (b_span target) < offset))"

lemma may_reference_ok:
  assumes "lookup_ok lk" "cs_scope site < length (lk_scopes lk)" "b < length (lk_bindings lk)"
  shows "call_site_may_reference_binding lk site b offset = Some (may_refer lk site b offset)"
proof -
  let ?t = "lk_bindings lk ! b"
  have visible: "lexically_visible_function_binding_in_scope (lk_scopes lk) (lk_bindings lk) x s s o' = Some (latest_definition lk x s o')"
    if "s < length (lk_scopes lk)" for x s o'
  proof (cases "sc_bindings (lk_scopes lk ! s) x")
    case None
    then show ?thesis using that by (simp add: lexically_visible_function_binding_in_scope_def latest_definition_def panic_simps)
  next
    case (Some bs)
    moreover have "lk_scopes lk ! s \<in> set (lk_scopes lk)" using that by simp
    ultimately have "set bs \<subseteq> {..<length (lk_bindings lk)}" using assms(1) by (auto simp: lookup_ok_def)
    then show ?thesis using that Some
      by (simp add: lexically_visible_function_binding_in_scope_def latest_definition_def panic_simps)
        (rule find_opt_eq, auto simp: panic_simps)
  qed
  show ?thesis
    using assms(2,3) has_ancestor_ok[OF assms(1,2)] visible[OF assms(2)]
    by (simp add: call_site_may_reference_binding_def may_refer_def panic_simps Let_def)
qed

definition call_of :: "function_binding_lookup \<Rightarrow> nat \<Rightarrow> scope_id \<Rightarrow> call_site \<Rightarrow> bool" where
  "call_of lk offset scope site \<longleftrightarrow> (\<exists>bs b sites. lk_function_bindings_by_scope lk scope = Some bs \<and> b \<in> set bs
     \<and> map_of (lk_call_sites lk) (b_name (lk_bindings lk ! b)) = Some sites \<and> site \<in> set sites \<and> may_refer lk site b offset)"

definition site_start :: "function_binding_lookup \<Rightarrow> call_site \<Rightarrow> nat" where
  "site_start lk site = start_offset (recorded_command_span_for_call_site (lk_program lk) site)"

text \<open>A function is entered before an offset of the calling scope: by a call in that scope before the offset,
  or by a call in a function that is itself entered before it.\<close>

inductive entered_before :: "function_binding_lookup \<Rightarrow> scope_id \<Rightarrow> nat \<Rightarrow> scope_id \<Rightarrow> bool" for lk call_scope offset where
  entered_here: "call_of lk offset scope site \<Longrightarrow> enclosing_of lk (cs_scope site) = Some call_scope
    \<Longrightarrow> site_start lk site < offset \<Longrightarrow> entered_before lk call_scope offset scope"
| entered_outside: "call_of lk offset scope site \<Longrightarrow> enclosing_of lk (cs_scope site) = None
    \<Longrightarrow> scope_ancestor (lk_scopes lk) (cs_scope site) call_scope \<Longrightarrow> site_start lk site < offset
    \<Longrightarrow> entered_before lk call_scope offset scope"
| entered_around: "call_of lk offset scope site \<Longrightarrow> enclosing_of lk (cs_scope site) = None
    \<Longrightarrow> \<not> scope_ancestor (lk_scopes lk) (cs_scope site) call_scope \<Longrightarrow> scope_ancestor (lk_scopes lk) call_scope scope
    \<Longrightarrow> entered_before lk call_scope offset scope"
| entered_through: "call_of lk offset scope site \<Longrightarrow> enclosing_of lk (cs_scope site) = Some f \<Longrightarrow> f \<noteq> call_scope
    \<Longrightarrow> entered_before lk call_scope offset f \<Longrightarrow> entered_before lk call_scope offset scope"

definition enters_directly :: "function_binding_lookup \<Rightarrow> scope_id \<Rightarrow> nat \<Rightarrow> scope_id \<Rightarrow> call_site \<Rightarrow> bool" where
  "enters_directly lk call_scope offset scope site \<longleftrightarrow> (case enclosing_of lk (cs_scope site) of
       None \<Rightarrow> (if scope_ancestor (lk_scopes lk) (cs_scope site) call_scope then site_start lk site < offset
                else scope_ancestor (lk_scopes lk) call_scope scope)
     | Some f \<Rightarrow> f = call_scope \<and> site_start lk site < offset)"

definition callers :: "function_binding_lookup \<Rightarrow> scope_id \<Rightarrow> nat \<Rightarrow> (scope_id \<times> scope_id) set" where
  "callers lk call_scope offset = {(s, f). \<exists>site. call_of lk offset s site \<and> enclosing_of lk (cs_scope site) = Some f \<and> f \<noteq> call_scope}"

definition directly_entered :: "function_binding_lookup \<Rightarrow> scope_id \<Rightarrow> nat \<Rightarrow> scope_id set" where
  "directly_entered lk call_scope offset = {s. \<exists>site. call_of lk offset s site \<and> enters_directly lk call_scope offset s site}"

lemma entered_before_iff:
  "entered_before lk call_scope offset s \<longleftrightarrow>
     (\<exists>d \<in> directly_entered lk call_scope offset. (s, d) \<in> (callers lk call_scope offset)\<^sup>*)"
proof
  assume "entered_before lk call_scope offset s"
  then show "\<exists>d \<in> directly_entered lk call_scope offset. (s, d) \<in> (callers lk call_scope offset)\<^sup>*"
  proof (induction rule: entered_before.induct)
    case (entered_through scope site f)
    then have "(scope, f) \<in> callers lk call_scope offset" by (auto simp: callers_def)
    with entered_through.IH show ?case by (meson converse_rtrancl_into_rtrancl)
  qed (intro bexI, rule rtrancl_refl, force simp: directly_entered_def enters_directly_def)+
next
  assume "\<exists>d \<in> directly_entered lk call_scope offset. (s, d) \<in> (callers lk call_scope offset)\<^sup>*"
  then obtain d where d: "d \<in> directly_entered lk call_scope offset" "(s, d) \<in> (callers lk call_scope offset)\<^sup>*" by blast
  from d(2) show "entered_before lk call_scope offset s"
  proof (induction rule: converse_rtrancl_induct)
    case base
    obtain site where site: "call_of lk offset d site" "enters_directly lk call_scope offset d site"
      using d(1) by (auto simp: directly_entered_def)
    show ?case
    proof (cases "enclosing_of lk (cs_scope site)")
      case None
      with site show ?thesis
        by (cases "scope_ancestor (lk_scopes lk) (cs_scope site) call_scope")
          (auto simp: enters_directly_def intro: entered_outside entered_around)
    next
      case (Some f)
      with site show ?thesis by (auto simp: enters_directly_def intro: entered_here)
    qed
  next
    case (step s f)
    then show ?case by (auto simp: callers_def intro: entered_through)
  qed
qed

text \<open>The search decides the relation, since a shortest chain of callers visits no function twice.\<close>

lemma leave_once:
  assumes "(s, d) \<in> R\<^sup>*"
  shows "s = d \<or> (\<exists>f. (s, f) \<in> R \<and> f \<noteq> s \<and> (f, d) \<in> {(x, y) \<in> R. y \<noteq> s}\<^sup>*)"
  using assms
proof (induction rule: rtrancl_induct)
  case (step d e)
  then show ?case
  proof (cases "e = s")
    case False
    with step show ?thesis by (auto intro: rtrancl_into_rtrancl)
  qed simp
qed simp

definition entered_avoiding :: "function_binding_lookup \<Rightarrow> scope_id \<Rightarrow> nat \<Rightarrow> scope_id set \<Rightarrow> scope_id \<Rightarrow> bool" where
  "entered_avoiding lk call_scope offset V s \<longleftrightarrow> s \<notin> V \<and> (\<exists>d \<in> directly_entered lk call_scope offset.
     (s, d) \<in> {(x, y) \<in> callers lk call_scope offset. y \<notin> V}\<^sup>*)"

lemma entered_avoiding_step:
  assumes "s \<notin> V"
  shows "entered_avoiding lk call_scope offset V s \<longleftrightarrow> s \<in> directly_entered lk call_scope offset
    \<or> (\<exists>f. (s, f) \<in> callers lk call_scope offset \<and> entered_avoiding lk call_scope offset (insert s V) f)"
proof -
  let ?D = "directly_entered lk call_scope offset" and ?R = "{(x, y) \<in> callers lk call_scope offset. y \<notin> V}"
  have R: "{(x, y) \<in> ?R. y \<noteq> s} = {(x, y) \<in> callers lk call_scope offset. y \<notin> insert s V}" by auto
  have "entered_avoiding lk call_scope offset V s \<longleftrightarrow> (\<exists>d \<in> ?D. (s, d) \<in> ?R\<^sup>*)" using assms by (simp add: entered_avoiding_def)
  also have "\<dots> \<longleftrightarrow> s \<in> ?D \<or> (\<exists>f. (s, f) \<in> ?R \<and> f \<noteq> s \<and> (\<exists>d \<in> ?D. (f, d) \<in> {(x, y) \<in> ?R. y \<noteq> s}\<^sup>*))" (is "?l \<longleftrightarrow> ?r")
  proof
    assume ?l
    then obtain d where "d \<in> ?D" "(s, d) \<in> ?R\<^sup>*" by blast
    then show ?r using leave_once[of s d ?R] by blast
  next
    have "{(x, y) \<in> ?R. y \<noteq> s}\<^sup>* \<subseteq> ?R\<^sup>*" by (rule rtrancl_mono) auto
    moreover assume ?r
    ultimately show ?l by (meson converse_rtrancl_into_rtrancl rtrancl.rtrancl_refl subsetD)
  qed
  also have "\<dots> \<longleftrightarrow> s \<in> ?D \<or> (\<exists>f. (s, f) \<in> callers lk call_scope offset \<and> entered_avoiding lk call_scope offset (insert s V) f)"
    unfolding R entered_avoiding_def by auto
  finally show ?thesis .
qed

lemma callers_entered:
  assumes "lookup_ok lk" "call_scope < length (lk_scopes lk)"
    and "\<And>f. f < length (lk_scopes lk) \<Longrightarrow> enter f st = Some (A f, st)"
    and "lk_function_bindings_by_scope lk s = Some bs"
  shows "any_state (function_entered enter lk s call_scope offset) bs st =
    Some (s \<in> directly_entered lk call_scope offset \<or> (\<exists>f. (s, f) \<in> callers lk call_scope offset \<and> A f), st)"
proof -
  let ?way = "\<lambda>site. enters_directly lk call_scope offset s site
    \<or> (\<exists>f. enclosing_of lk (cs_scope site) = Some f \<and> f \<noteq> call_scope \<and> A f)"
  have site: "call_site_enters enter lk s call_scope offset b site st = Some (may_refer lk site b offset \<and> ?way site, st)"
    if "cs_scope site < length (lk_scopes lk)" "b < length (lk_bindings lk)" for site b
    using may_reference_ok[OF assms(1) that] lookup_enclosing_ok[OF assms(1) that(1)]
      has_ancestor_ok[OF assms(1) that(1)] has_ancestor_ok[OF assms(1,2)] assms(3)
    by (cases "enclosing_of lk (cs_scope site)")
      (auto simp: call_site_enters_def call_site_can_run_before_offset_def enters_directly_def site_start_def Let_def)
  have bound: "b < length (lk_bindings lk)" if "b \<in> set bs" for b
    using assms(1,4) that by (auto simp: lookup_ok_def)
  have scope: "cs_scope site < length (lk_scopes lk)" if "map_of (lk_call_sites lk) x = Some sites" "site \<in> set sites" for x sites site
    using assms(1) map_of_SomeD[OF that(1)] that(2) unfolding lookup_ok_def by fastforce
  have one: "function_entered enter lk s call_scope offset b st = Some (\<exists>sites. map_of (lk_call_sites lk) (b_name (lk_bindings lk ! b)) = Some sites
      \<and> (\<exists>site \<in> set sites. may_refer lk site b offset \<and> ?way site), st)" if b: "b \<in> set bs" for b
  proof (cases "map_of (lk_call_sites lk) (b_name (lk_bindings lk ! b))")
    case None
    then show ?thesis using bound[OF b] by (simp add: function_entered_def panic_simps)
  next
    case (Some sites)
    have "any_state (call_site_enters enter lk s call_scope offset b) sites st = Some (\<exists>site \<in> set sites. may_refer lk site b offset \<and> ?way site, st)"
      by (rule any_state_same) (rule site[OF scope[OF Some] bound[OF b]])
    then show ?thesis using bound[OF b] Some by (simp add: function_entered_def panic_simps)
  qed
  have "any_state (function_entered enter lk s call_scope offset) bs st = Some (\<exists>b \<in> set bs. \<exists>sites.
      map_of (lk_call_sites lk) (b_name (lk_bindings lk ! b)) = Some sites \<and> (\<exists>site \<in> set sites. may_refer lk site b offset \<and> ?way site), st)"
    by (rule any_state_same) (rule one)
  moreover have "(\<exists>b \<in> set bs. \<exists>sites. map_of (lk_call_sites lk) (b_name (lk_bindings lk ! b)) = Some sites
      \<and> (\<exists>site \<in> set sites. may_refer lk site b offset \<and> ?way site)) \<longleftrightarrow> (\<exists>site. call_of lk offset s site \<and> ?way site)"
    unfolding call_of_def assms(4) by blast
  moreover have "(\<exists>site. call_of lk offset s site \<and> ?way site) \<longleftrightarrow> s \<in> directly_entered lk call_scope offset
      \<or> (\<exists>f. (s, f) \<in> callers lk call_scope offset \<and> A f)"
    unfolding directly_entered_def callers_def by blast
  ultimately show ?thesis by simp
qed

lemma no_callers:
  assumes "lk_function_bindings_by_scope lk s = None"
  shows "s \<notin> directly_entered lk call_scope offset" "(s, f) \<notin> callers lk call_scope offset"
  using assms by (auto simp: directly_entered_def callers_def call_of_def)

lemma search_below_ok:
  assumes "lookup_ok lk" "call_scope < length (lk_scopes lk)"
  shows "s < length (lk_scopes lk) \<Longrightarrow> V \<noteq> {} \<Longrightarrow> V \<subseteq> {..<length (lk_scopes lk)} \<Longrightarrow> length (lk_scopes lk) < k + card V \<Longrightarrow>
    scope_has_known_entry_before_offset k lk call_scope offset s (cache, V)
      = Some (entered_avoiding lk call_scope offset V s, (cache, V))"
proof (induction k arbitrary: s V)
  case 0
  then show ?case using card_mono[OF finite_lessThan 0(3)] by simp
next
  case (Suc k)
  show ?case
  proof (cases "s \<in> V")
    case True
    then show ?thesis using Suc.prems(2) by (simp add: entered_avoiding_def Let_def)
  next
    case False
    have fin: "finite V" using Suc.prems(3) finite_subset by blast
    have "scope_has_known_entry_before_offset k lk call_scope offset f (cache, insert s V)
        = Some (entered_avoiding lk call_scope offset (insert s V) f, (cache, insert s V))" if "f < length (lk_scopes lk)" for f
      by (rule Suc.IH[OF that]) (use Suc.prems False fin in auto)
    note enter = callers_entered[where A = "entered_avoiding lk call_scope offset (insert s V)" and offset = offset
      and enter = "scope_has_known_entry_before_offset k lk call_scope offset" and st = "(cache, insert s V)", OF assms this]
    have "(case lk_function_bindings_by_scope lk s of None \<Rightarrow> Some (False, (cache, insert s V))
        | Some bs \<Rightarrow> any_state (function_entered (scope_has_known_entry_before_offset k lk call_scope offset) lk s call_scope offset)
            bs (cache, insert s V)) = Some (entered_avoiding lk call_scope offset V s, (cache, insert s V))"
      using enter[of s] no_callers[of lk s] entered_avoiding_step[OF False]
      by (cases "lk_function_bindings_by_scope lk s") auto
    then show ?thesis using False Suc.prems(2) by (simp add: Let_def)
  qed
qed

text \<open>A cache is consistent when it holds only true answers.\<close>

definition entry_cache_ok :: "function_binding_lookup \<Rightarrow> entry_cache \<Rightarrow> bool" where
  "entry_cache_ok lk cache \<longleftrightarrow> (\<forall>s call_scope offset b. cache (s, call_scope, offset) = Some b
     \<longrightarrow> b = entered_before lk call_scope offset s)"

lemma search_ok:
  assumes "lookup_ok lk" "call_scope < length (lk_scopes lk)" "s < length (lk_scopes lk)" "entry_cache_ok lk cache"
    and "length (lk_scopes lk) < k"
  shows "\<exists>cache'. scope_has_known_entry_before_offset k lk call_scope offset s (cache, {})
      = Some (entered_before lk call_scope offset s, (cache', {})) \<and> entry_cache_ok lk cache'"
proof (cases "cache (s, call_scope, offset)")
  case (Some b)
  then show ?thesis using assms(4,5) by (cases k) (auto simp: entry_cache_ok_def)
next
  case None
  obtain j where k: "k = Suc j" "length (lk_scopes lk) \<le> j" using assms(5) by (cases k) auto
  have "scope_has_known_entry_before_offset j lk call_scope offset f (cache, {s})
      = Some (entered_avoiding lk call_scope offset {s} f, (cache, {s}))" if "f < length (lk_scopes lk)" for f
    by (rule search_below_ok[OF assms(1,2) that]) (use assms(3) k in auto)
  note enter = callers_entered[where A = "entered_avoiding lk call_scope offset {s}" and offset = offset
      and enter = "scope_has_known_entry_before_offset j lk call_scope offset" and st = "(cache, {s})", OF assms(1,2) this]
  have all: "entered_avoiding lk call_scope offset {} s \<longleftrightarrow> entered_before lk call_scope offset s"
    by (simp add: entered_avoiding_def entered_before_iff)
  have "(case lk_function_bindings_by_scope lk s of None \<Rightarrow> Some (False, (cache, {s}))
      | Some bs \<Rightarrow> any_state (function_entered (scope_has_known_entry_before_offset j lk call_scope offset) lk s call_scope offset)
          bs (cache, {s})) = Some (entered_before lk call_scope offset s, (cache, {s}))"
    using enter[of s] no_callers[of lk s] entered_avoiding_step[of s "{}" lk call_scope offset] all
    by (cases "lk_function_bindings_by_scope lk s") auto
  then show ?thesis using None assms(4) k by (auto simp: entry_cache_ok_def Let_def)
qed

section \<open>What a call refers to\<close>

abbreviation start_of :: "function_binding_lookup \<Rightarrow> binding_id \<Rightarrow> nat" where
  "start_of lk b \<equiv> start_offset (b_span (lk_bindings lk ! b))"

definition function_definitions :: "function_binding_lookup \<Rightarrow> string \<Rightarrow> scope_id \<Rightarrow> binding_id list" where
  "function_definitions lk name s = filter (\<lambda>b. b_kind (lk_bindings lk ! b) = FunctionDefinition)
     (case sc_bindings (lk_scopes lk ! s) name of None \<Rightarrow> [] | Some bs \<Rightarrow> rev bs)"

text \<open>Whether the definition of an enclosing scope is there whenever the body of the scope runs.\<close>

definition known_outside :: "function_binding_lookup \<Rightarrow> scope_id \<Rightarrow> binding_id \<Rightarrow> bool" where
  "known_outside lk scope b \<longleftrightarrow> b \<in> lk_unconditional lk
     \<and> (start_of lk b \<le> start_offset (sc_span (lk_scopes lk ! scope))
        \<or> \<not> entered_before lk (b_scope (lk_bindings lk ! b)) (start_of lk b) scope)"

definition visible_definition :: "function_binding_lookup \<Rightarrow> string \<Rightarrow> scope_id \<Rightarrow> nat \<Rightarrow> binding_id option" where
  "visible_definition lk name scope offset =
     (case find (\<lambda>b. start_of lk b \<le> offset \<and> b \<in> lk_unconditional lk) (function_definitions lk name scope) of
        Some b \<Rightarrow> Some b
      | None \<Rightarrow>
          let outer = {s. scope_ancestor (lk_scopes lk) scope s \<and> s \<noteq> scope \<and> function_definitions lk name s \<noteq> []} in
          if outer = {} then None
          else let b = hd (function_definitions lk name (Max outer)) in if known_outside lk scope b then Some b else None)"

lemma available_ok:
  assumes "lookup_ok lk" "scope < length (lk_scopes lk)" "b < length (lk_bindings lk)" "entry_cache_ok lk cache"
    and "length (lk_scopes lk) < k" "b \<in> lk_unconditional lk"
  shows "\<exists>cache'. parent_scope_binding_available_before_scope_runs k lk (lk_bindings lk ! b) scope cache
      = Some (known_outside lk scope b, cache') \<and> entry_cache_ok lk cache'"
proof (cases "start_of lk b \<le> start_offset (sc_span (lk_scopes lk ! scope))")
  case True
  then show ?thesis using assms
    by (simp add: parent_scope_binding_available_before_scope_runs_def known_outside_def panic_simps)
next
  case False
  have "b_scope (lk_bindings lk ! b) < length (lk_scopes lk)" using assms(1,3) by (simp add: lookup_ok_def)
  from search_ok[OF assms(1) this assms(2,4,5), of "start_of lk b"] show ?thesis
    using False assms(2,6) by (auto simp: parent_scope_binding_available_before_scope_runs_def known_outside_def panic_simps)
qed

lemma visible_among_own:
  "set bs \<subseteq> {..<length (lk_bindings lk)} \<Longrightarrow> visible_among k lk scope offset scope bs cache =
     Some (map_option Some (find (\<lambda>b. start_of lk b \<le> offset \<and> b \<in> lk_unconditional lk)
       (filter (\<lambda>b. b_kind (lk_bindings lk ! b) = FunctionDefinition) bs)), cache)"
  by (induction bs) (auto simp: panic_simps)

lemma visible_among_outer:
  assumes "lookup_ok lk" "scope < length (lk_scopes lk)" "entry_cache_ok lk cache" "length (lk_scopes lk) < k"
    and "s \<noteq> scope" "set bs \<subseteq> {..<length (lk_bindings lk)}"
  shows "\<exists>cache'. visible_among k lk scope offset s bs cache =
      Some (case filter (\<lambda>b. b_kind (lk_bindings lk ! b) = FunctionDefinition) bs of [] \<Rightarrow> None
        | b # _ \<Rightarrow> Some (if known_outside lk scope b then Some b else None), cache') \<and> entry_cache_ok lk cache'"
  using assms(6)
proof (induction bs)
  case Nil
  then show ?case using assms(3) by simp
next
  case (Cons b bs)
  show ?case
  proof (cases "b_kind (lk_bindings lk ! b) = FunctionDefinition \<and> b \<in> lk_unconditional lk")
    case True
    from available_ok[OF assms(1,2) _ assms(3,4), of b] True Cons.prems show ?thesis
      using assms(5) by (auto simp: panic_simps)
  next
    case False
    with Cons assms(3,5) show ?thesis by (auto simp: panic_simps known_outside_def)
  qed
qed

lemma scope_candidates:
  assumes "lookup_ok lk" "s < length (lk_scopes lk)" "sc_bindings (lk_scopes lk ! s) name = Some bs"
  shows "set (rev bs) \<subseteq> {..<length (lk_bindings lk)}"
proof -
  have "lk_scopes lk ! s \<in> set (lk_scopes lk)" using assms(2) by simp
  with assms(1,3) show ?thesis by (auto simp: lookup_ok_def)
qed

lemma visible_in_outer_scopes:
  assumes "lookup_ok lk" "scope < length (lk_scopes lk)" "entry_cache_ok lk cache" "length (lk_scopes lk) < k"
    and "\<forall>s \<in> set ss. s \<noteq> scope \<and> s < length (lk_scopes lk)"
  shows "\<exists>cache'. visible_in_scopes k lk name scope offset ss cache =
      Some (case find (\<lambda>s. function_definitions lk name s \<noteq> []) ss of None \<Rightarrow> None
        | Some s \<Rightarrow> (let b = hd (function_definitions lk name s) in if known_outside lk scope b then Some b else None), cache')
    \<and> entry_cache_ok lk cache'"
  using assms(3,5)
proof (induction ss arbitrary: cache)
  case (Cons s ss)
  then have s: "s \<noteq> scope" "s < length (lk_scopes lk)" by simp_all
  have rest: "\<forall>s \<in> set ss. s \<noteq> scope \<and> s < length (lk_scopes lk)" using Cons.prems(2) by simp
  show ?case
  proof (cases "sc_bindings (lk_scopes lk ! s) name")
    case None
    then show ?thesis using Cons.IH[OF Cons.prems(1) rest] s(2) by (simp add: panic_simps function_definitions_def)
  next
    case (Some bs)
    let ?fs = "filter (\<lambda>b. b_kind (lk_bindings lk ! b) = FunctionDefinition) (rev bs)"
    have fs: "function_definitions lk name s = ?fs" using Some by (simp add: function_definitions_def)
    obtain cache' where among: "visible_among k lk scope offset s (rev bs) cache = Some (case ?fs of [] \<Rightarrow> None
        | b # _ \<Rightarrow> Some (if known_outside lk scope b then Some b else None), cache')" and ok: "entry_cache_ok lk cache'"
      using visible_among_outer[OF assms(1,2) Cons.prems(1) assms(4) s(1) scope_candidates[OF assms(1) s(2) Some]] by blast
    show ?thesis
    proof (cases ?fs)
      case Nil
      then show ?thesis using Cons.IH[OF ok rest] s(2) Some among fs by (simp add: panic_simps)
    next
      case (Cons b fs')
      then show ?thesis using s(2) Some among fs ok by (simp add: panic_simps Let_def)
    qed
  qed
qed simp

lemma resolver_ok:
  assumes "lookup_ok lk" "scope < length (lk_scopes lk)" "entry_cache_ok lk cache" "length (lk_scopes lk) < k"
  shows "\<exists>cache'. resolver_visible_function_binding k lk name scope offset cache = Some (visible_definition lk name scope offset, cache')
    \<and> entry_cache_ok lk cache'"
proof -
  let ?n = "length (lk_scopes lk)" and ?own = "find (\<lambda>b. start_of lk b \<le> offset \<and> b \<in> lk_unconditional lk) (function_definitions lk name scope)"
  have "scopes_ok (lk_scopes lk)" using assms(1) by (simp add: lookup_ok_def)
  from ancestor_scopes_ok[OF this assms(2) assms(2)] obtain xs where
    xs: "ancestor_scopes ?n (lk_scopes lk) scope = Some xs" "sorted_wrt (>) xs"
    "set xs = {a. scope_ancestor (lk_scopes lk) scope a}" "\<forall>x \<in> set xs. x \<le> scope" by blast
  have "scope \<in> set xs" using xs(3) assms(2) by (simp add: ancestor_self)
  then obtain ss where ss: "xs = scope # ss" using xs(2,4) by (cases xs) force+
  have outer: "\<forall>s \<in> set ss. s \<noteq> scope \<and> s < ?n" using xs(2,4) assms(2) ss by force
  have found: "find (\<lambda>s. function_definitions lk name s \<noteq> []) ss = (let outer = {s. scope_ancestor (lk_scopes lk) scope s
      \<and> s \<noteq> scope \<and> function_definitions lk name s \<noteq> []} in if outer = {} then None else Some (Max outer))"
  proof -
    have "{s \<in> set ss. function_definitions lk name s \<noteq> []}
      = {s. scope_ancestor (lk_scopes lk) scope s \<and> s \<noteq> scope \<and> function_definitions lk name s \<noteq> []}"
      using xs(3) outer ss by auto
    moreover have "sorted_wrt (>) ss" using xs(2) ss by simp
    ultimately show ?thesis using find_Max[of ss "\<lambda>s. function_definitions lk name s \<noteq> []"] by simp
  qed
  have own: "visible_in_scopes k lk name scope offset (scope # ss) cache = (case ?own of Some b \<Rightarrow> Some (Some b, cache)
      | None \<Rightarrow> visible_in_scopes k lk name scope offset ss cache)"
  proof (cases "sc_bindings (lk_scopes lk ! scope) name")
    case None
    then show ?thesis using assms(2) by (simp add: panic_simps function_definitions_def)
  next
    case (Some bs)
    then show ?thesis using assms(2) visible_among_own[OF scope_candidates[OF assms(1,2) Some]]
      by (simp add: panic_simps function_definitions_def split: option.split)
  qed
  show ?thesis
  proof (cases ?own)
    case None
    have run: "resolver_visible_function_binding k lk name scope offset cache = visible_in_scopes k lk name scope offset ss cache"
      unfolding resolver_visible_function_binding_def xs(1) Option.bind_lunit ss own None by simp
    have "(case find (\<lambda>s. function_definitions lk name s \<noteq> []) ss of None \<Rightarrow> None
        | Some s \<Rightarrow> (let b = hd (function_definitions lk name s) in if known_outside lk scope b then Some b else None))
      = visible_definition lk name scope offset"
      unfolding found visible_definition_def None Let_def
      by (cases "{s. scope_ancestor (lk_scopes lk) scope s \<and> s \<noteq> scope \<and> function_definitions lk name s \<noteq> []} = {}")
        (simp_all only: if_True if_False option.case refl)
    with visible_in_outer_scopes[OF assms outer, of name offset] show ?thesis unfolding run by simp
  next
    case (Some b)
    then have "resolver_visible_function_binding k lk name scope offset cache = Some (Some b, cache)"
      unfolding resolver_visible_function_binding_def xs(1) Option.bind_lunit ss own by simp
    moreover have "visible_definition lk name scope offset = Some b" unfolding visible_definition_def Some by simp
    ultimately show ?thesis using assms(3) by simp
  qed
qed

section \<open>Properties\<close>

text \<open>C11: The search for an entry into a function before an offset always ends, with a depth bounded by the
  number of scopes, and decides whether a chain of calls enters the function before the offset; it does so
  whatever true answers the cache holds, and leaves only true answers in it.\<close>

theorem entry_search_decides:
  assumes "lookup_ok lk" "call_scope < length (lk_scopes lk)" "s < length (lk_scopes lk)" "entry_cache_ok lk cache"
    and "length (lk_scopes lk) < k"
  shows "\<exists>cache'. scope_has_known_entry_before_offset k lk call_scope offset s (cache, {})
      = Some (entered_before lk call_scope offset s, (cache', {})) \<and> entry_cache_ok lk cache'"
  by (rule search_ok[OF assms])

lemma empty_cache_ok: "entry_cache_ok lk Map.empty"
  by (simp add: entry_cache_ok_def)

lemma visible_function_binding_ok:
  assumes "lookup_ok lk" "scope < length (lk_scopes lk)" "length (lk_scopes lk) < k"
  shows "visible_function_binding k lk name scope offset = Some (visible_definition lk name scope offset)"
  using resolver_ok[OF assms(1,2) empty_cache_ok assms(3)] by (auto simp: visible_function_binding_def)

lemma resolve_sites_ok:
  assumes "lookup_ok lk" "length (lk_scopes lk) < k" "entry_cache_ok lk cache"
    and "\<forall>site \<in> set sites. cs_scope site < length (lk_scopes lk)"
    and "distinct (map (\<lambda>s. span_key (cs_name_span s)) sites)"
    and "\<forall>site \<in> set sites. m (span_key (cs_name_span site)) = None"
  shows "\<exists>cache' m'. fold_opt (resolve_site k lk name) sites (cache, m) = Some (cache', m') \<and> entry_cache_ok lk cache'
    \<and> (\<forall>key b. m' key = Some b \<longleftrightarrow> m key = Some b \<or> (\<exists>site \<in> set sites. span_key (cs_name_span site) = key
        \<and> visible_definition lk name (cs_scope site) (start_offset (cs_span site)) = Some b))"
  using assms(3-)
proof (induction sites arbitrary: cache m)
  case (Cons site sites)
  let ?key = "span_key (cs_name_span site)" and ?b = "visible_definition lk name (cs_scope site) (start_offset (cs_span site))"
  let ?m = "case ?b of None \<Rightarrow> m | Some b \<Rightarrow> m(?key \<mapsto> b)"
  obtain cache1 where one: "resolver_visible_function_binding k lk name (cs_scope site) (start_offset (cs_span site)) cache = Some (?b, cache1)"
    "entry_cache_ok lk cache1" using resolver_ok[OF assms(1) _ Cons.prems(1) assms(2)] Cons.prems(2) by force
  then have step: "resolve_site k lk name site (cache, m) = Some (cache1, ?m)" by (simp add: resolve_site_def)
  have fresh: "\<forall>s \<in> set sites. ?m (span_key (cs_name_span s)) = None"
  proof
    fix s assume s: "s \<in> set sites"
    then have "span_key (cs_name_span s) \<noteq> ?key" using Cons.prems(3) by (simp add: image_iff) metis
    then show "?m (span_key (cs_name_span s)) = None" using Cons.prems(4) s by (cases ?b) simp_all
  qed
  have m: "?m key = Some b \<longleftrightarrow> m key = Some b \<or> ?key = key \<and> ?b = Some b" for key b
    using Cons.prems(4) by (cases ?b) auto
  obtain cache' m' where rest: "fold_opt (resolve_site k lk name) sites (cache1, ?m) = Some (cache', m')" "entry_cache_ok lk cache'"
    "\<forall>key b. m' key = Some b \<longleftrightarrow> ?m key = Some b \<or> (\<exists>site \<in> set sites. span_key (cs_name_span site) = key
        \<and> visible_definition lk name (cs_scope site) (start_offset (cs_span site)) = Some b)"
    using Cons.IH[OF one(2) _ _ fresh] Cons.prems(2,3) by auto
  then show ?case unfolding m fold_opt.simps step Option.bind_lunit by auto
qed simp

lemma call_bindings_ok:
  assumes "lookup_ok lk" "length (lk_scopes lk) < k" "entry_cache_ok lk cache"
    and "\<forall>(x, sites) \<in> set calls. \<forall>site \<in> set sites. cs_scope site < length (lk_scopes lk)"
    and "distinct (map (\<lambda>s. span_key (cs_name_span s)) (concat (map snd calls)))"
    and "\<forall>site \<in> set (concat (map snd calls)). m (span_key (cs_name_span site)) = None"
  shows "\<exists>cache' m'. fold_opt (\<lambda>(name, sites). fold_opt (resolve_site k lk name) sites) calls (cache, m) = Some (cache', m')
    \<and> (\<forall>key b. m' key = Some b \<longleftrightarrow> m key = Some b \<or> (\<exists>(name, sites) \<in> set calls. \<exists>site \<in> set sites.
        span_key (cs_name_span site) = key
        \<and> visible_definition lk name (cs_scope site) (start_offset (cs_span site)) = Some b))"
  using assms(3-)
proof (induction calls arbitrary: cache m)
  case (Cons call calls)
  obtain name sites where call: "call = (name, sites)" by (cases call)
  obtain cache1 m1 where one: "fold_opt (resolve_site k lk name) sites (cache, m) = Some (cache1, m1)" "entry_cache_ok lk cache1"
    "\<forall>key b. m1 key = Some b \<longleftrightarrow> m key = Some b \<or> (\<exists>site \<in> set sites. span_key (cs_name_span site) = key
        \<and> visible_definition lk name (cs_scope site) (start_offset (cs_span site)) = Some b)"
    using resolve_sites_ok[OF assms(1,2) Cons.prems(1), of sites m name] Cons.prems(2-4) call by auto
  have fresh: "\<forall>site \<in> set (concat (map snd calls)). m1 (span_key (cs_name_span site)) = None"
  proof
    fix s assume s: "s \<in> set (concat (map snd calls))"
    have "span_key (cs_name_span s) \<notin> (\<lambda>s. span_key (cs_name_span s)) ` set sites"
      using Cons.prems(3) s unfolding call by (simp add: image_iff) blast
    moreover have "m (span_key (cs_name_span s)) = None" using Cons.prems(4) s by (simp add: call)
    ultimately have "m1 (span_key (cs_name_span s)) \<noteq> Some b" for b
      unfolding one(3)[rule_format] by (auto simp: image_iff)
    then show "m1 (span_key (cs_name_span s)) = None" by (meson not_None_eq)
  qed
  have "\<forall>(x, sites) \<in> set calls. \<forall>site \<in> set sites. cs_scope site < length (lk_scopes lk)"
    "distinct (map (\<lambda>s. span_key (cs_name_span s)) (concat (map snd calls)))" using Cons.prems(2,3) by simp_all
  from Cons.IH[OF one(2) this fresh] obtain cache' m' where
    rest: "fold_opt (\<lambda>(name, sites). fold_opt (resolve_site k lk name) sites) calls (cache1, m1) = Some (cache', m')"
    "\<forall>key b. m' key = Some b \<longleftrightarrow> m1 key = Some b \<or> (\<exists>(name, sites) \<in> set calls. \<exists>site \<in> set sites.
        span_key (cs_name_span site) = key
        \<and> visible_definition lk name (cs_scope site) (start_offset (cs_span site)) = Some b)" by blast
  show ?case unfolding call fold_opt.simps prod.case one(1) Option.bind_lunit rest(1)
    using one(3) rest(2) by simp
qed simp

lemma same_site:
  assumes "distinct (map (\<lambda>s. span_key (cs_name_span s)) (concat (map snd calls)))"
    and "(name, sites) \<in> set calls" "site \<in> set sites" "(name', sites') \<in> set calls" "site' \<in> set sites'"
    and "span_key (cs_name_span site') = span_key (cs_name_span site)"
  shows "name' = name \<and> site' = site"
proof -
  let ?pairs = "concat (map (\<lambda>(n, ss). map (Pair n) ss) calls)" and ?key = "\<lambda>(n, s). span_key (cs_name_span s)"
  have "map ?key ?pairs = map (\<lambda>s. span_key (cs_name_span s)) (concat (map snd calls))" by (induction calls) auto
  then have "inj_on ?key (set ?pairs)" using assms(1) by (metis distinct_map)
  moreover have "(name, site) \<in> set ?pairs" "(name', site') \<in> set ?pairs" using assms(2-5) by force+
  ultimately have "(name', site') = (name, site)" using assms(6) inj_onD[of ?key "set ?pairs" "(name', site')" "(name, site)"] by simp
  then show ?thesis by simp
qed

text \<open>C10: Every call site is resolved, whatever the order of the hash table of calls and although one cache
  serves them all: a site whose name has its own span is bound to the latest unconditional definition before
  it in its own scope; failing that, to the last definition of the innermost enclosing scope that has one,
  when that one is unconditional and no chain of calls enters the calling scope before it; and to nothing
  otherwise.\<close>

theorem call_sites_resolved:
  assumes "lookup_ok lk" "length (lk_scopes lk) < k"
    and "distinct (map (\<lambda>s. span_key (cs_name_span s)) (concat (map snd (lk_call_sites lk))))"
  shows "\<exists>m. visible_function_call_bindings k lk = Some m
    \<and> (\<forall>key b. m key = Some b \<longleftrightarrow> (\<exists>(name, sites) \<in> set (lk_call_sites lk). \<exists>site \<in> set sites.
        span_key (cs_name_span site) = key
        \<and> visible_definition lk name (cs_scope site) (start_offset (cs_span site)) = Some b))
    \<and> (\<forall>(name, sites) \<in> set (lk_call_sites lk). \<forall>site \<in> set sites.
        visible_function_binding k lk name (cs_scope site) (start_offset (cs_span site)) = Some (m (span_key (cs_name_span site))))"
proof -
  have sites: "\<forall>(x, sites) \<in> set (lk_call_sites lk). \<forall>site \<in> set sites. cs_scope site < length (lk_scopes lk)"
    using assms(1) by (simp add: lookup_ok_def)
  obtain cache m where run: "fold_opt (\<lambda>(name, sites). fold_opt (resolve_site k lk name) sites) (lk_call_sites lk) (Map.empty, Map.empty) = Some (cache, m)"
    and m: "\<forall>key b. m key = Some b \<longleftrightarrow> (\<exists>(name, sites) \<in> set (lk_call_sites lk). \<exists>site \<in> set sites.
        span_key (cs_name_span site) = key
        \<and> visible_definition lk name (cs_scope site) (start_offset (cs_span site)) = Some b)"
    using call_bindings_ok[OF assms(1,2) empty_cache_ok sites assms(3), of Map.empty] by auto
  have "visible_function_binding k lk name (cs_scope site) (start_offset (cs_span site)) = Some (m (span_key (cs_name_span site)))"
    if site: "(name, sites) \<in> set (lk_call_sites lk)" "site \<in> set sites" for name sites site
  proof -
    have scope: "cs_scope site < length (lk_scopes lk)" using sites site by auto
    have "m (span_key (cs_name_span site)) = Some b \<longleftrightarrow> visible_definition lk name (cs_scope site) (start_offset (cs_span site)) = Some b" for b
      unfolding m[rule_format] using same_site[OF assms(3) site] site by blast
    then have "m (span_key (cs_name_span site)) = visible_definition lk name (cs_scope site) (start_offset (cs_span site))"
      by (metis not_None_eq)
    then show ?thesis using visible_function_binding_ok[OF assms(1) scope assms(2)] by simp
  qed
  then show ?thesis using run m by (auto simp: visible_function_call_bindings_def)
qed

text \<open>The payloads of a scope are those of the calls that are resolved to a function with that body, in order.\<close>

lemma call_payloads_grouped:
  assumes "lookup_ok lk" "length (lk_scopes lk) < k" "\<forall>(name, scope, offset, payload) \<in> set calls. scope < length (lk_scopes lk)"
  shows "\<exists>grouped. call_payloads_by_callee_scope k lk bodies calls = Some grouped
    \<and> (\<forall>callee. (case grouped callee of None \<Rightarrow> [] | Some ps \<Rightarrow> ps)
        = map (\<lambda>(name, scope, offset, payload). payload) (filter (\<lambda>(name, scope, offset, payload).
            Option.bind (visible_definition lk name scope offset) bodies = Some callee) calls))"
  using assms(3)
proof (induction calls rule: rev_induct)
  case Nil
  then show ?case by (simp add: call_payloads_by_callee_scope_def)
next
  case (snoc call calls)
  obtain name scope offset payload where call: "call = (name, scope, offset, payload)" by (cases call)
  obtain grouped where run: "fold_opt (group_payload k lk bodies) calls Map.empty = Some grouped"
    and g: "\<forall>callee. (case grouped callee of None \<Rightarrow> [] | Some ps \<Rightarrow> ps)
        = map (\<lambda>(name, scope, offset, payload). payload) (filter (\<lambda>(name, scope, offset, payload).
            Option.bind (visible_definition lk name scope offset) bodies = Some callee) calls)"
    using snoc by (auto simp: call_payloads_by_callee_scope_def)
  have "visible_function_binding k lk name scope offset = Some (visible_definition lk name scope offset)"
    using snoc.prems visible_function_binding_ok[OF assms(1) _ assms(2)] by (simp add: call)
  then have "group_payload k lk bodies call grouped = Some (case Option.bind (visible_definition lk name scope offset) bodies of
      None \<Rightarrow> grouped | Some callee \<Rightarrow> grouped(callee \<mapsto> (case grouped callee of None \<Rightarrow> [] | Some ps \<Rightarrow> ps) @ [payload]))"
    unfolding group_payload_def call prod.case by (simp split: option.split)
  then have "call_payloads_by_callee_scope k lk bodies (calls @ [call]) = Some (case Option.bind (visible_definition lk name scope offset) bodies of
      None \<Rightarrow> grouped | Some callee \<Rightarrow> grouped(callee \<mapsto> (case grouped callee of None \<Rightarrow> [] | Some ps \<Rightarrow> ps) @ [payload]))"
    unfolding call_payloads_by_callee_scope_def fold_opt_append run by simp
  then show ?case unfolding option.inject ex_simps(1)[symmetric] using g
    by (cases "Option.bind (visible_definition lk name scope offset) bodies") (auto simp: call)
qed

text \<open>C13: The unconditional function definitions are collected exactly: those made by a command that runs
  whenever the script or a function body does, that is by a top command of one, by the first command of a
  list that runs, or by a command of a brace group or of a \<open>{ } always { }\<close> block that runs.\<close>

theorem unconditional_definitions_exact:
  assumes "covered rank n p"
    and "\<forall>d. unconditional_command p d \<longrightarrow> defined_by command_bindings p d \<subseteq> {..<length bindings}"
  shows "collect_unconditional_function_bindings n p command_bindings bindings =
    Some {b. b_kind (bindings ! b) = FunctionDefinition \<and> (\<exists>d. unconditional_command p d \<and> b \<in> defined_by command_bindings p d)}"
proof -
  have "\<Union>(defined_by command_bindings p ` {d. unconditional_command p d}) \<subseteq> {..<length bindings}" using assms(2) by blast
  then show ?thesis
    unfolding collect_unconditional_function_bindings_def collect_unconditional_ok[OF assms(1)] Option.bind_lunit by auto
qed

section \<open>A definition that may replace another\<close>

text \<open>The script \<open>f() { exit; }; if a; then f() { :; }; fi; f; b\<close>: when \<open>a\<close> succeeds, the call runs the
  second definition.\<close>

definition twice_program :: recorded_program where
  "twice_program = program_default\<lparr>
     rp_commands := [(demo_command 6 10 Exit)\<lparr>rc_scope := Some 1\<rparr>, demo_command 0 13 Linear,
       (demo_command 31 32 Linear)\<lparr>rc_scope := Some 2\<rparr>, demo_command 17 18 Linear, demo_command 25 35 Linear,
       demo_command 14 39 (CIf (demo_range 2 1) (demo_range 3 1) (demo_range 0 0) (demo_range 0 0)),
       demo_command 40 41 Linear, demo_command 42 43 Linear],
     rp_command_sequence_items := [0, 2, 3, 4, 1, 5, 6, 7],
     rp_file_commands := demo_range 4 4,
     rp_function_bodies := [(1, demo_range 0 1), (2, demo_range 1 1)],
     rp_function_body_scopes := [(0, 1), (1, 2)]\<rparr>"

definition twice_bindings :: "span_key \<rightharpoonup> binding_id list" where
  "twice_bindings key = (if key = (0, 13) then Some [0] else if key = (25, 35) then Some [1] else None)"

definition twice_function :: "nat \<Rightarrow> nat \<Rightarrow> nat \<Rightarrow> binding" where
  "twice_function i a b = \<lparr>b_id = i, b_name = ''f'', b_kind = FunctionDefinition,
     b_origin = OriginFunctionDefinition (demo_span a b), b_scope = 0, b_span = demo_span a b,
     b_references = [], b_attributes = 0\<rparr>"

definition twice_site :: call_site where
  "twice_site = \<lparr>cs_callee = ''f'', cs_span = demo_span 40 41, cs_name_span = demo_span 40 41, cs_scope = 0, cs_arg_count = 0\<rparr>"

definition twice_lookup :: "binding_id set \<Rightarrow> function_binding_lookup" where
  "twice_lookup unconditional = \<lparr>lk_program = twice_program,
     lk_scopes = [\<lparr>sc_id = 0, sc_kind = FileScope, sc_parent = None, sc_span = demo_span 0 44,
         sc_bindings = [''f'' \<mapsto> [0, 1]]\<rparr>,
       \<lparr>sc_id = 1, sc_kind = FunctionScope (Named [''f'']), sc_parent = Some 0, sc_span = demo_span 4 13, sc_bindings = Map.empty\<rparr>,
       \<lparr>sc_id = 2, sc_kind = FunctionScope (Named [''f'']), sc_parent = Some 0, sc_span = demo_span 29 35, sc_bindings = Map.empty\<rparr>],
     lk_bindings = [twice_function 0 0 1, twice_function 1 25 26],
     lk_call_sites = [(''f'', [twice_site])], lk_unconditional = unconditional,
     lk_function_bindings_by_scope = function_bindings_by_scope twice_program\<rparr>"

text \<open>C14: Conditional redefinitions count for calls from nested scopes but not for calls in their own scope:
  when all definitions of a name in a scope that are newer than an unconditional one are conditional, a call
  after the unconditional one in that scope is bound to it, as if the newer ones were not there, while a call
  in a nested scope without a nearer definition is bound to nothing as soon as there is a newer one.\<close>

theorem conditional_redefinition_ignored:
  assumes "lookup_ok lk" "length (lk_scopes lk) < k" "scope < length (lk_scopes lk)"
    and "function_definitions lk name scope = newer @ b # older"
    and "\<forall>d \<in> set newer. d \<notin> lk_unconditional lk" "b \<in> lk_unconditional lk" "start_of lk b \<le> offset"
  shows "visible_function_binding k lk name scope offset = Some (Some b)
    \<and> (newer \<noteq> [] \<longrightarrow> (\<forall>inner offset'. inner < length (lk_scopes lk) \<and> inner \<noteq> scope \<and> scope_ancestor (lk_scopes lk) inner scope
         \<and> (\<forall>s. scope_ancestor (lk_scopes lk) inner s \<and> scope < s \<longrightarrow> function_definitions lk name s = [])
         \<longrightarrow> visible_function_binding k lk name inner offset' = Some None))"
proof (intro conjI impI allI)
  have "find (\<lambda>d. start_of lk d \<le> offset \<and> d \<in> lk_unconditional lk) (newer @ b # older) = Some b"
    using assms(5-7) by (induction newer) auto
  then have "visible_definition lk name scope offset = Some b" unfolding visible_definition_def assms(4) by simp
  then show "visible_function_binding k lk name scope offset = Some (Some b)"
    unfolding visible_function_binding_ok[OF assms(1,3,2)] by simp
next
  fix inner offset'
  assume "newer \<noteq> []" and inner: "inner < length (lk_scopes lk) \<and> inner \<noteq> scope \<and> scope_ancestor (lk_scopes lk) inner scope
    \<and> (\<forall>s. scope_ancestor (lk_scopes lk) inner s \<and> scope < s \<longrightarrow> function_definitions lk name s = [])"
  let ?outer = "{s. scope_ancestor (lk_scopes lk) inner s \<and> s \<noteq> inner \<and> function_definitions lk name s \<noteq> []}"
  have "scopes_ok (lk_scopes lk)" using assms(1) by (simp add: lookup_ok_def)
  then have below: "s \<le> inner" if "scope_ancestor (lk_scopes lk) inner s" for s
    using ancestor_scopes_ok[of "lk_scopes lk" inner] inner that by blast
  have "scope \<le> inner" using below inner by blast
  then have own: "function_definitions lk name inner = []" using inner by (metis ancestor_self nat_less_le)
  have "scope \<in> ?outer" using inner assms(4) by simp
  moreover have "s \<le> scope" if "s \<in> ?outer" for s using that inner by (metis (mono_tags, lifting) mem_Collect_eq not_le)
  moreover have "finite ?outer" using below by (intro finite_subset[of ?outer "{..inner}"]) auto
  ultimately have max: "?outer \<noteq> {}" "Max ?outer = scope" by (blast, intro Max_eqI) auto
  have "hd (function_definitions lk name scope) \<notin> lk_unconditional lk"
    using assms(4,5) \<open>newer \<noteq> []\<close> by (cases newer) auto
  then have "visible_definition lk name inner offset' = None"
    unfolding visible_definition_def own using max by (simp add: known_outside_def Let_def)
  then show "visible_function_binding k lk name inner offset' = Some None"
    using inner visible_function_binding_ok[OF assms(1) _ assms(2)] by simp
qed

lemma twice_lookup_ok: "lookup_ok (twice_lookup {0})"
proof -
  have "function_bindings_by_scope twice_program = [1 \<mapsto> [0], 2 \<mapsto> [1]]"
    by (simp add: function_bindings_by_scope_def twice_program_def push_binding_def)
  then show ?thesis
    by (auto simp: lookup_ok_def twice_lookup_def twice_function_def twice_site_def scopes_ok_def less_Suc_eq numeral_3_eq_3
        split: if_splits)
qed

text \<open>The script of the two definitions, with the call behind them and another in the body of a function.\<close>

theorem conditional_redefinition_ignored_witness:
  "visible_function_binding 4 (twice_lookup {0}) ''f'' 0 40 = Some (Some 0)
     \<and> visible_function_binding 4 (twice_lookup {0}) ''f'' 1 9 = Some None"
proof -
  let ?lk = "twice_lookup {0}"
  have defs: "function_definitions ?lk ''f'' 0 = [1] @ 0 # []" by (simp add: function_definitions_def twice_lookup_def twice_function_def)
  have size: "length (lk_scopes ?lk) < 4" "0 < length (lk_scopes ?lk)" "1 < length (lk_scopes ?lk)" by (simp_all add: twice_lookup_def)
  have "scope_ancestor (lk_scopes ?lk) 0 0" using size(2) by (rule ancestor_self)
  then have "scope_ancestor (lk_scopes ?lk) 1 0" by (intro ancestor_parent[of 1 _ 0]) (simp_all add: twice_lookup_def)
  moreover have "function_definitions ?lk ''f'' s = []" if "scope_ancestor (lk_scopes ?lk) 1 s" "0 < s" for s
  proof -
    have top_scope: "s = 0" if "scope_ancestor (lk_scopes ?lk) 0 s" using that by cases (simp_all add: twice_lookup_def)
    from that(1) have "s = 1"
    proof cases
      case (ancestor_parent p)
      then have "p = 0" by (simp add: twice_lookup_def)
      with top_scope ancestor_parent that(2) show ?thesis by simp
    qed simp
    then show ?thesis by (simp add: function_definitions_def twice_lookup_def)
  qed
  moreover have "\<forall>d \<in> set [1 :: nat]. d \<notin> lk_unconditional ?lk" "0 \<in> lk_unconditional ?lk" "start_of ?lk 0 \<le> 40"
    by (simp_all add: twice_lookup_def twice_function_def demo_span_def position_at_def offset_of_def)
  ultimately show ?thesis
    using conditional_redefinition_ignored[OF twice_lookup_ok size(1,2) defs, of 40] size(3) by auto
qed

theorem entry_search_decides_witness:
  "\<exists>cache. scope_has_known_entry_before_offset 4 (twice_lookup {0}) 0 41 1 (Map.empty, {})
     = Some (entered_before (twice_lookup {0}) 0 41 1, (cache, {}))"
proof -
  have "0 < length (lk_scopes (twice_lookup {0}))" "1 < length (lk_scopes (twice_lookup {0}))" "length (lk_scopes (twice_lookup {0})) < 4"
    by (simp_all add: twice_lookup_def)
  from entry_search_decides[OF twice_lookup_ok this(1,2) empty_cache_ok this(3), of 41] show ?thesis by blast
qed

theorem call_sites_resolved_witness:
  "\<exists>m. visible_function_call_bindings 4 (twice_lookup {0}) = Some m
    \<and> m (40, 41) = visible_definition (twice_lookup {0}) ''f'' 0 40"
proof -
  have "length (lk_scopes (twice_lookup {0})) < 4"
    "distinct (map (\<lambda>s. span_key (cs_name_span s)) (concat (map snd (lk_call_sites (twice_lookup {0})))))"
    by (simp_all add: twice_lookup_def)
  from call_sites_resolved[OF twice_lookup_ok this] obtain m where
    run: "visible_function_call_bindings 4 (twice_lookup {0}) = Some m"
    and m: "\<forall>key b. m key = Some b \<longleftrightarrow> (\<exists>(name, sites) \<in> set (lk_call_sites (twice_lookup {0})). \<exists>site \<in> set sites.
        span_key (cs_name_span site) = key
        \<and> visible_definition (twice_lookup {0}) name (cs_scope site) (start_offset (cs_span site)) = Some b)" by blast
  have "lk_call_sites (twice_lookup {0}) = [(''f'', [twice_site])]" "span_key (cs_name_span twice_site) = (40, 41)"
    "cs_scope twice_site = 0" "start_offset (cs_span twice_site) = 40"
    by (simp add: twice_lookup_def, code_simp, code_simp, code_simp)
  then have "m (40, 41) = Some b \<longleftrightarrow> visible_definition (twice_lookup {0}) ''f'' 0 40 = Some b" for b using m by simp
  then have "m (40, 41) = visible_definition (twice_lookup {0}) ''f'' 0 40" by (metis not_None_eq)
  with run show ?thesis by blast
qed

lemma twice_program_covered: "covered (\<lambda>c. if c = 5 then 1 else 0) 2 twice_program"
proof -
  have "wf_program (\<lambda>c. if c = 5 then 1 else 0) twice_program" by code_simp
  then show ?thesis by (simp add: covered_def)
qed

theorem unconditional_definitions_exact_witness:
  "\<exists>u. collect_unconditional_function_bindings 2 twice_program twice_bindings (lk_bindings (twice_lookup {})) = Some u
    \<and> u = {b. b_kind (lk_bindings (twice_lookup {}) ! b) = FunctionDefinition
          \<and> (\<exists>d. unconditional_command twice_program d \<and> b \<in> defined_by twice_bindings twice_program d)}"
proof -
  have "defined_by twice_bindings twice_program d \<subseteq> {..<length (lk_bindings (twice_lookup {}))}" for d
    by (auto simp: defined_by_def twice_bindings_def twice_lookup_def split: if_splits)
  then show ?thesis using unconditional_definitions_exact[OF twice_program_covered] by blast
qed

end
