(* ===== verification/Call_Graph.thy ===== *)
theory Call_Graph
  imports Call_Resolution
begin

text \<open>
  Model of \<open>crates/shucked-semantic/src/call_graph.rs\<close>: which function names are called from the top level of
  a script, directly or through other functions, which definitions are therefore never called, and which
  definitions are replaced by a later one of the same name.  The tables of the code are hash maps; they are
  association lists here and the theorems hold for every order of their entries.
\<close>

record overwritten_function =
  of_name :: string
  of_first :: binding_id
  of_second :: binding_id
  of_first_called :: bool

record call_graph =
  cg_reachable :: "string set"
  cg_uncalled :: "binding_id list"
  cg_overwritten :: "overwritten_function list"

type_synonym callee_table = "(string \<times> string list) list"

section \<open>Collecting the callees\<close>

definition note_ancestor :: "scope list \<Rightarrow> string \<Rightarrow> scope_id \<Rightarrow> bool \<times> callee_table \<Rightarrow> (bool \<times> callee_table) option" where
  "note_ancestor scopes callee a = (\<lambda>(saw, table). do {
     sc \<leftarrow> nth_opt scopes a;
     Some (case sc_kind sc of
         FunctionScope f \<Rightarrow> (True, fold (\<lambda>name. upsert name [] (\<lambda>callees. callees @ [callee])) (static_names f) table)
       | _ \<Rightarrow> (saw, table)) })"

definition note_site :: "scope list \<Rightarrow> call_site \<Rightarrow> callee_table \<times> string list \<Rightarrow> (callee_table \<times> string list) option" where
  "note_site scopes site = (\<lambda>(table, top_level). do {
     ancestors \<leftarrow> ancestor_scopes (length scopes) scopes (cs_scope site);
     (saw, table) \<leftarrow> fold_opt (note_ancestor scopes (cs_callee site)) ancestors (False, table);
     Some (table, if saw then top_level else top_level @ [cs_callee site]) })"

section \<open>The worklist\<close>

text \<open>\<open>Vec::pop\<close> takes the last name; a name that is reached for the first time adds its callees.\<close>

function reach_names :: "callee_table \<Rightarrow> string list \<Rightarrow> string set \<Rightarrow> string set" where
  "reach_names table worklist reachable =
     (if worklist = [] then reachable
      else let name = last worklist; worklist = butlast worklist in
        if name \<in> reachable then reach_names table worklist reachable
        else reach_names table (case map_of table name of None \<Rightarrow> worklist | Some callees \<Rightarrow> worklist @ callees)
          (insert name reachable))"
  by pat_completeness auto

termination
proof (relation "measures [\<lambda>(table, worklist, reachable). card (fst ` set table - reachable), \<lambda>(table, worklist, reachable). length worklist]")
  fix table :: callee_table and worklist worklist' :: "string list" and reachable :: "string set" and name
  assume *: "worklist \<noteq> []" "name = last worklist" "worklist' = butlast worklist"
  then show "((table, worklist', reachable), (table, worklist, reachable)) \<in> measures
      [\<lambda>(table, worklist, reachable). card (fst ` set table - reachable), \<lambda>(table, worklist, reachable). length worklist]" by simp
  assume new: "name \<notin> reachable"
  show "((table, (case map_of table name of None \<Rightarrow> worklist' | Some callees \<Rightarrow> worklist' @ callees), insert name reachable),
      (table, worklist, reachable)) \<in> measures
      [\<lambda>(table, worklist, reachable). card (fst ` set table - reachable), \<lambda>(table, worklist, reachable). length worklist]"
  proof (cases "map_of table name")
    case None
    then have "name \<notin> fst ` set table" by (simp add: map_of_eq_None_iff)
    then have "fst ` set table - insert name reachable = fst ` set table - reachable" by blast
    then show ?thesis using None * by simp
  next
    case (Some callees)
    then have "name \<in> fst ` set table - reachable" using new by (metis DiffI map_of_eq_None_iff option.distinct(1))
    moreover have "fst ` set table - insert name reachable = (fst ` set table - reachable) - {name}" by blast
    ultimately have "card (fst ` set table - insert name reachable) < card (fst ` set table - reachable)"
      by (simp only: card_Diff1_less finite_Diff finite_imageI finite_set)
    then show ?thesis using Some by simp
  qed
qed simp

declare reach_names.simps [simp del]

section \<open>The graph\<close>

definition calls_between ::
  "binding list \<Rightarrow> (string \<times> call_site list) list \<Rightarrow> string \<Rightarrow> binding_id \<Rightarrow> binding_id \<Rightarrow> bool option" where
  "calls_between bindings call_sites name first second =
     (case map_of call_sites name of
        None \<Rightarrow> Some False
      | Some sites \<Rightarrow> any_opt (\<lambda>site. do {
          a \<leftarrow> nth_opt bindings first;
          b \<leftarrow> nth_opt bindings second;
          Some (start_offset (b_span a) < start_offset (cs_span site) \<and> start_offset (cs_span site) < start_offset (b_span b)) })
          sites)"

text \<open>\<open>slice::windows(2)\<close>\<close>

definition pairs_of :: "'a list \<Rightarrow> ('a \<times> 'a) list" where
  "pairs_of xs = zip xs (tl xs)"

definition note_overwritten ::
  "binding list \<Rightarrow> (string \<times> call_site list) list \<Rightarrow> string \<Rightarrow> binding_id \<times> binding_id \<Rightarrow> overwritten_function list
    \<Rightarrow> overwritten_function list option" where
  "note_overwritten bindings call_sites name = (\<lambda>(first, second) found. do {
     called \<leftarrow> calls_between bindings call_sites name first second;
     Some (found @ [\<lparr>of_name = name, of_first = first, of_second = second, of_first_called = called\<rparr>]) })"

definition build_call_graph ::
  "scope list \<Rightarrow> binding list \<Rightarrow> (string \<times> binding_id list) list \<Rightarrow> (string \<times> call_site list) list \<Rightarrow> call_graph option" where
  "build_call_graph scopes bindings functions call_sites = do {
     (table, top_level) \<leftarrow> fold_opt (note_site scopes) (concat (map snd call_sites)) ([], []);
     let reachable = reach_names table top_level {};
     let uncalled = concat (map snd (filter (\<lambda>(name, _). name \<notin> reachable) functions));
     overwritten \<leftarrow> fold_opt (\<lambda>(name, bs). fold_opt (note_overwritten bindings call_sites name) (pairs_of bs)) functions [];
     Some \<lparr>cg_reachable = reachable, cg_uncalled = uncalled, cg_overwritten = overwritten\<rparr> }"

section \<open>What is reached\<close>

text \<open>The static names of the functions around a call, and whether there is a function around it.\<close>

definition inside_names :: "scope list \<Rightarrow> call_site \<Rightarrow> string set" where
  "inside_names scopes site = {name. \<exists>a f. scope_ancestor scopes (cs_scope site) a
     \<and> sc_kind (scopes ! a) = FunctionScope f \<and> name \<in> set (static_names f)}"

definition inside_function :: "scope list \<Rightarrow> call_site \<Rightarrow> bool" where
  "inside_function scopes site \<longleftrightarrow> (\<exists>a. scope_ancestor scopes (cs_scope site) a \<and> is_function_kind (sc_kind (scopes ! a)))"

inductive called :: "scope list \<Rightarrow> call_site set \<Rightarrow> string \<Rightarrow> bool" for scopes sites where
  called_top: "site \<in> sites \<Longrightarrow> \<not> inside_function scopes site \<Longrightarrow> called scopes sites (cs_callee site)"
| called_in: "site \<in> sites \<Longrightarrow> name \<in> inside_names scopes site \<Longrightarrow> called scopes sites name
    \<Longrightarrow> called scopes sites (cs_callee site)"

definition callees :: "callee_table \<Rightarrow> string \<Rightarrow> string set" where
  "callees table name = (case map_of table name of None \<Rightarrow> {} | Some xs \<Rightarrow> set xs)"

lemma callees_upsert:
  "callees (upsert name [] (\<lambda>xs. xs @ [x]) table) y = callees table y \<union> (if y = name then {x} else {})"
  by (auto simp: callees_def upsert_ok(1) split: option.splits)

lemma callees_upserts:
  "callees (fold (\<lambda>name. upsert name [] (\<lambda>xs. xs @ [x])) names table) y = callees table y \<union> (if y \<in> set names then {x} else {})"
  by (induction names arbitrary: table) (auto simp: callees_upsert)

lemma note_ancestors_ok:
  assumes "\<forall>a \<in> set as. a < length scopes"
  shows "\<exists>table'. fold_opt (note_ancestor scopes callee) as (saw, table)
      = Some (saw \<or> (\<exists>a \<in> set as. is_function_kind (sc_kind (scopes ! a))), table')
    \<and> (\<forall>y. callees table' y = callees table y \<union> (if \<exists>a \<in> set as. \<exists>f. sc_kind (scopes ! a) = FunctionScope f \<and> y \<in> set (static_names f)
        then {callee} else {}))"
  using assms
proof (induction as arbitrary: saw table)
  case (Cons a as)
  then have rest: "\<forall>a \<in> set as. a < length scopes" and a: "a < length scopes" by simp_all
  show ?case
  proof (cases "sc_kind (scopes ! a)")
    case (FunctionScope f)
    let ?table = "fold (\<lambda>name. upsert name [] (\<lambda>xs. xs @ [callee])) (static_names f) table"
    have "note_ancestor scopes callee a (saw, table) = Some (True, ?table)"
      using a FunctionScope by (simp add: note_ancestor_def panic_simps)
    with Cons.IH[OF rest, of True ?table] show ?thesis
      by (auto simp: FunctionScope is_function_kind_def callees_upserts)
  qed (use Cons.IH[OF rest, of saw table] a in \<open>simp_all add: note_ancestor_def panic_simps is_function_kind_def\<close>)
qed simp

lemma note_sites_ok:
  assumes "scopes_ok scopes" "\<forall>site \<in> set sites. cs_scope site < length scopes"
  shows "\<exists>table' top'. fold_opt (note_site scopes) sites (table, top_level) = Some (table', top')
    \<and> (\<forall>y. callees table' y = callees table y \<union> cs_callee ` {site \<in> set sites. y \<in> inside_names scopes site})
    \<and> set top' = set top_level \<union> cs_callee ` {site \<in> set sites. \<not> inside_function scopes site}"
  using assms(2)
proof (induction sites arbitrary: table top_level)
  case (Cons site sites)
  then have site: "cs_scope site < length scopes" and rest: "\<forall>site \<in> set sites. cs_scope site < length scopes" by simp_all
  obtain as where as: "ancestor_scopes (length scopes) scopes (cs_scope site) = Some as"
    "set as = {a. scope_ancestor scopes (cs_scope site) a}" "\<forall>a \<in> set as. a \<le> cs_scope site"
    using ancestor_scopes_ok[OF assms(1) site site] by blast
  have bound: "\<forall>a \<in> set as. a < length scopes" using as(3) site by fastforce
  obtain table1 where one: "fold_opt (note_ancestor scopes (cs_callee site)) as (False, table) = Some (inside_function scopes site, table1)"
    and t1: "\<forall>y. callees table1 y = callees table y \<union> (if y \<in> inside_names scopes site then {cs_callee site} else {})"
    using note_ancestors_ok[OF bound, of "cs_callee site" False table] as(2) by (auto simp: inside_function_def inside_names_def)
  let ?top = "if inside_function scopes site then top_level else top_level @ [cs_callee site]"
  have step: "note_site scopes site (table, top_level) = Some (table1, ?top)" by (simp add: note_site_def as(1) one)
  obtain table' top' where "fold_opt (note_site scopes) sites (table1, ?top) = Some (table', top')"
    and t': "\<forall>y. callees table' y = callees table1 y \<union> cs_callee ` {site \<in> set sites. y \<in> inside_names scopes site}"
    and top': "set top' = set ?top \<union> cs_callee ` {site \<in> set sites. \<not> inside_function scopes site}"
    using Cons.IH[OF rest, of table1 ?top] by blast
  moreover have "callees table' y = callees table y \<union> cs_callee ` {s \<in> set (site # sites). y \<in> inside_names scopes s}" for y
    unfolding t'[rule_format] t1[rule_format] by auto
  moreover have "set top' = set top_level \<union> cs_callee ` {s \<in> set (site # sites). \<not> inside_function scopes s}"
    unfolding top' by auto
  ultimately show ?case by (simp add: step)
qed simp

lemma reach_names_bounds:
  "reachable \<union> set worklist \<subseteq> reach_names table worklist reachable
   \<and> (\<forall>x \<in> reach_names table worklist reachable - reachable. callees table x \<subseteq> reach_names table worklist reachable)
   \<and> (\<forall>P. (\<forall>x \<in> reachable \<union> set worklist. P x) \<longrightarrow> (\<forall>x. P x \<longrightarrow> (\<forall>y \<in> callees table x. P y))
        \<longrightarrow> (\<forall>x \<in> reach_names table worklist reachable. P x))"
proof (induction table worklist reachable rule: reach_names.induct)
  case (1 table worklist reachable)
  show ?case
  proof (cases "worklist = []")
    case True
    then have "reach_names table worklist reachable = reachable" using reach_names.simps[of table worklist reachable] by simp
    then show ?thesis using True by simp
  next
    case False
    then have split: "set worklist = insert (last worklist) (set (butlast worklist))"
      by (metis append_butlast_last_id insert_is_Un list.simps(15) set_append sup_bot.right_neutral sup_commute empty_set)
    show ?thesis
    proof (cases "last worklist \<in> reachable")
      case True
      have step: "reach_names table worklist reachable = reach_names table (butlast worklist) reachable"
        using reach_names.simps[of table worklist reachable] by (simp only: Let_def if_not_P[OF False] if_P[OF True])
      have same: "reachable \<union> set (butlast worklist) = reachable \<union> set worklist" unfolding split using True by auto
      show ?thesis using 1(1)[OF False refl refl True] unfolding step same .
    next
      case new: False
      let ?next = "case map_of table (last worklist) of None \<Rightarrow> butlast worklist | Some xs \<Rightarrow> butlast worklist @ xs"
      have step: "reach_names table worklist reachable = reach_names table ?next (insert (last worklist) reachable)"
        using reach_names.simps[of table worklist reachable] by (simp only: Let_def if_not_P[OF False] if_not_P[OF new])
      have added: "set ?next = set (butlast worklist) \<union> callees table (last worklist)"
        by (simp add: callees_def split: option.splits)
      let ?S = "reach_names table worklist reachable" and ?new = "insert (last worklist) reachable"
      note IH = 1(2)[OF False refl refl new, folded step, unfolded added]
      have sub: "?new \<union> (set (butlast worklist) \<union> callees table (last worklist)) \<subseteq> ?S"
        and closed: "\<forall>x \<in> ?S - ?new. callees table x \<subseteq> ?S"
        and least: "\<And>P. \<forall>x \<in> ?new \<union> (set (butlast worklist) \<union> callees table (last worklist)). P x \<Longrightarrow>
          \<forall>x. P x \<longrightarrow> (\<forall>y \<in> callees table x. P y) \<Longrightarrow> \<forall>x \<in> ?S. P x"
        using IH by (blast, blast, metis)
      show ?thesis
      proof (intro conjI allI impI)
        show "reachable \<union> set worklist \<subseteq> ?S" using sub split by blast
        show "\<forall>x \<in> ?S - reachable. callees table x \<subseteq> ?S" using sub closed by blast
        fix P assume P: "\<forall>x \<in> reachable \<union> set worklist. P x" "\<forall>x. P x \<longrightarrow> (\<forall>y \<in> callees table x. P y)"
        then have "P (last worklist)" using split by blast
        then show "\<forall>x \<in> ?S. P x" using P split by (intro least) blast+
      qed
    qed
  qed
qed

lemma reach_names_called:
  assumes "\<forall>y. callees table y = cs_callee ` {site \<in> sites. y \<in> inside_names scopes site}"
    and "set top_level = cs_callee ` {site \<in> sites. \<not> inside_function scopes site}"
  shows "reach_names table top_level {} = {x. called scopes sites x}"
proof -
  note bounds = reach_names_bounds[of "{}" top_level table]
  have "called scopes sites x" if "x \<in> reach_names table top_level {}" for x
  proof -
    have "\<forall>x \<in> {} \<union> set top_level. called scopes sites x" unfolding assms(2) by (auto intro: called_top)
    moreover have "\<forall>x. called scopes sites x \<longrightarrow> (\<forall>y \<in> callees table x. called scopes sites y)"
      unfolding assms(1)[rule_format] by (auto intro: called_in)
    ultimately show ?thesis using bounds that by blast
  qed
  moreover have "x \<in> reach_names table top_level {}" if "called scopes sites x" for x
    using that
  proof (induction rule: called.induct)
    case (called_top site)
    then have "cs_callee site \<in> set top_level" unfolding assms(2) by blast
    then show ?case using bounds by blast
  next
    case (called_in site name)
    then have "cs_callee site \<in> callees table name" unfolding assms(1)[rule_format] by blast
    then show ?case using bounds called_in.IH by blast
  qed
  ultimately show ?thesis by blast
qed

definition tables_ok :: "scope list \<Rightarrow> binding list \<Rightarrow> (string \<times> binding_id list) list \<Rightarrow> (string \<times> call_site list) list \<Rightarrow> bool" where
  "tables_ok scopes bindings functions call_sites \<longleftrightarrow> scopes_ok scopes
     \<and> (\<forall>site \<in> set (concat (map snd call_sites)). cs_scope site < length scopes)
     \<and> (\<forall>(name, bs) \<in> set functions. set bs \<subseteq> {..<length bindings})"

definition called_between :: "binding list \<Rightarrow> (string \<times> call_site list) list \<Rightarrow> string \<Rightarrow> binding_id \<Rightarrow> binding_id \<Rightarrow> bool" where
  "called_between bindings call_sites name first second \<longleftrightarrow> (\<exists>sites. map_of call_sites name = Some sites
     \<and> (\<exists>site \<in> set sites. start_offset (b_span (bindings ! first)) < start_offset (cs_span site)
         \<and> start_offset (cs_span site) < start_offset (b_span (bindings ! second))))"

lemma calls_between_ok:
  assumes "first < length bindings" "second < length bindings"
  shows "calls_between bindings call_sites name first second = Some (called_between bindings call_sites name first second)"
proof (cases "map_of call_sites name")
  case (Some sites)
  have "any_opt (\<lambda>site. Some (P site)) sites = Some (\<exists>site \<in> set sites. P site)" for P by (induction sites) auto
  then show ?thesis using Some assms by (simp add: calls_between_def called_between_def panic_simps)
qed (simp add: calls_between_def called_between_def)

lemma pairs_within: "set bs \<subseteq> A \<Longrightarrow> (a, b) \<in> set (pairs_of bs) \<Longrightarrow> a \<in> A \<and> b \<in> A"
  using set_zip_leftD[of a b bs "tl bs"] set_zip_rightD[of a b bs "tl bs"] list.set_sel(2)[of bs b]
  by (cases bs) (auto simp: pairs_of_def)

lemma graph_built:
  assumes "tables_ok scopes bindings functions call_sites"
  shows "build_call_graph scopes bindings functions call_sites = Some
    \<lparr>cg_reachable = {x. called scopes (set (concat (map snd call_sites))) x},
     cg_uncalled = concat (map snd (filter (\<lambda>(name, _). \<not> called scopes (set (concat (map snd call_sites))) name) functions)),
     cg_overwritten = concat (map (\<lambda>(name, bs). map (\<lambda>(first, second). \<lparr>of_name = name, of_first = first, of_second = second,
       of_first_called = called_between bindings call_sites name first second\<rparr>) (pairs_of bs)) functions)\<rparr>"
proof -
  let ?sites = "concat (map snd call_sites)"
  let ?report = "\<lambda>name (first, second). \<lparr>of_name = name, of_first = first, of_second = second,
       of_first_called = called_between bindings call_sites name first second\<rparr>"
  note ok = assms[unfolded tables_ok_def]
  obtain table top' where run: "fold_opt (note_site scopes) ?sites ([], []) = Some (table, top')"
    and t: "\<forall>y. callees table y = callees [] y \<union> cs_callee ` {site \<in> set ?sites. y \<in> inside_names scopes site}"
    and top': "set top' = set [] \<union> cs_callee ` {site \<in> set ?sites. \<not> inside_function scopes site}"
    using note_sites_ok[of scopes ?sites "[]" "[]"] ok by blast
  have "\<forall>y. callees table y = cs_callee ` {site \<in> set ?sites. y \<in> inside_names scopes site}"
    using t by (simp add: callees_def)
  moreover have "set top' = cs_callee ` {site \<in> set ?sites. \<not> inside_function scopes site}" using top' by simp
  ultimately have reach: "reach_names table top' {} = {x. called scopes (set ?sites) x}" by (rule reach_names_called)
  have pairs: "fold_opt (note_overwritten bindings call_sites name) ps found = Some (found @ map (?report name) ps)"
    if "\<forall>(a, b) \<in> set ps. a < length bindings \<and> b < length bindings" for name ps found
    using that
  proof (induction ps arbitrary: found)
    case (Cons p ps)
    then show ?case by (cases p) (simp add: note_overwritten_def calls_between_ok)
  qed simp
  have "fold_opt (\<lambda>(name, bs). fold_opt (note_overwritten bindings call_sites name) (pairs_of bs)) fs found
      = Some (found @ concat (map (\<lambda>(name, bs). map (?report name) (pairs_of bs)) fs))"
    if "\<forall>(name, bs) \<in> set fs. set bs \<subseteq> {..<length bindings}" for fs found
    using that
  proof (induction fs arbitrary: found)
    case (Cons f fs)
    obtain name bs where f: "f = (name, bs)" by (cases f)
    then have "\<forall>(a, b) \<in> set (pairs_of bs). a < length bindings \<and> b < length bindings"
      using Cons.prems pairs_within[of bs "{..<length bindings}"] by auto
    from pairs[OF this, of name found] show ?case using Cons f by simp
  qed simp
  then show ?thesis using ok by (simp add: build_call_graph_def run reach)
qed

section \<open>Properties\<close>

text \<open>C12: The call graph is built, whatever the order of the hash tables: the reachable names are those that
  are called outside every function, or inside a function that has a reachable name; the uncalled
  definitions are those of the other names; and every two consecutive definitions of a name are reported
  with whether a call of the name stands between them.\<close>

theorem call_graph_exact:
  assumes "tables_ok scopes bindings functions call_sites"
  shows "build_call_graph scopes bindings functions call_sites = Some
    \<lparr>cg_reachable = {x. called scopes (set (concat (map snd call_sites))) x},
     cg_uncalled = concat (map snd (filter (\<lambda>(name, _). \<not> called scopes (set (concat (map snd call_sites))) name) functions)),
     cg_overwritten = concat (map (\<lambda>(name, bs). map (\<lambda>(first, second). \<lparr>of_name = name, of_first = first, of_second = second,
       of_first_called = called_between bindings call_sites name first second\<rparr>) (pairs_of bs)) functions)\<rparr>"
  using assms by (rule graph_built)

text \<open>The script \<open>g() { :; }; () { g; }\<close>: the anonymous function runs at once and calls \<open>g\<close>.\<close>

definition anonymous_scopes :: "scope list" where
  "anonymous_scopes =
     [\<lparr>sc_id = 0, sc_kind = FileScope, sc_parent = None, sc_span = demo_span 0 25, sc_bindings = [''g'' \<mapsto> [0]]\<rparr>,
      \<lparr>sc_id = 1, sc_kind = FunctionScope (Named [''g'']), sc_parent = Some 0, sc_span = demo_span 4 11, sc_bindings = Map.empty\<rparr>,
      \<lparr>sc_id = 2, sc_kind = FunctionScope Anonymous, sc_parent = Some 0, sc_span = demo_span 16 24, sc_bindings = Map.empty\<rparr>]"

definition anonymous_site :: call_site where
  "anonymous_site = \<lparr>cs_callee = ''g'', cs_span = demo_span 18 19, cs_name_span = demo_span 18 19, cs_scope = 2, cs_arg_count = 0\<rparr>"

definition anonymous_functions :: "binding list" where
  "anonymous_functions = [\<lparr>b_id = 0, b_name = ''g'', b_kind = FunctionDefinition,
     b_origin = OriginFunctionDefinition (demo_span 0 1), b_scope = 0, b_span = demo_span 0 1, b_references = [], b_attributes = 0\<rparr>]"

lemma anonymous_run:
  "map_option (\<lambda>g. (cg_uncalled g, cg_overwritten g))
     (build_call_graph anonymous_scopes anonymous_functions [(''g'', [0])] [(''g'', [anonymous_site])]) = Some ([0], [])"
  by code_simp

theorem call_graph_exact_witness:
  "(\<exists>g. build_call_graph anonymous_scopes anonymous_functions [(''g'', [0])] [(''g'', [anonymous_site])] = Some g
     \<and> cg_uncalled g = [0]) \<and> \<not> called anonymous_scopes {anonymous_site} ''g''"
proof -
  have "tables_ok anonymous_scopes anonymous_functions [(''g'', [0])] [(''g'', [anonymous_site])]"
    by (auto simp: tables_ok_def scopes_ok_def anonymous_scopes_def anonymous_functions_def anonymous_site_def less_Suc_eq numeral_3_eq_3)
  from call_graph_exact[OF this] anonymous_run show ?thesis by (auto split: if_splits)
qed

text \<open>C15: A name that is called in anonymous functions only is taken to be never called: when every call of it
  has functions around it and all of these are anonymous, as in \<open>g() { :; }; () { g; }\<close>, the name is not
  among the reachable ones, and every definition of it is listed as uncalled.\<close>

theorem anonymous_calls_missed:
  assumes "tables_ok scopes bindings functions call_sites"
    and "\<And>site. site \<in> set (concat (map snd call_sites)) \<Longrightarrow> cs_callee site = name \<Longrightarrow>
      inside_function scopes site
      \<and> (\<forall>a f. scope_ancestor scopes (cs_scope site) a \<longrightarrow> sc_kind (scopes ! a) = FunctionScope f \<longrightarrow> f = Anonymous)"
  shows "\<exists>g. build_call_graph scopes bindings functions call_sites = Some g \<and> name \<notin> cg_reachable g
    \<and> (\<forall>(f, bs) \<in> set functions. f = name \<longrightarrow> set bs \<subseteq> set (cg_uncalled g))"
proof -
  have "\<not> called scopes (set (concat (map snd call_sites))) name"
  proof
    assume "called scopes (set (concat (map snd call_sites))) name"
    then show False
    proof cases
      case (called_top site)
      with assms(2) show False by blast
    next
      case (called_in site outer)
      then obtain a f where "scope_ancestor scopes (cs_scope site) a" "sc_kind (scopes ! a) = FunctionScope f"
        "outer \<in> set (static_names f)" by (auto simp: inside_names_def)
      moreover from this assms(2)[OF called_in(2)] called_in(1) have "f = Anonymous" by blast
      ultimately show False by simp
    qed
  qed
  then show ?thesis unfolding graph_built[OF assms(1)] by auto
qed

theorem anonymous_calls_missed_witness:
  "\<exists>g. build_call_graph anonymous_scopes anonymous_functions [(''g'', [0])] [(''g'', [anonymous_site])] = Some g
     \<and> ''g'' \<notin> cg_reachable g \<and> 0 \<in> set (cg_uncalled g)"
proof -
  have up: "a = 2 \<or> a = 0" if "scope_ancestor anonymous_scopes 2 a" for a
  proof -
    have top_scope: "a = 0" if "scope_ancestor anonymous_scopes 0 a" using that by cases (simp_all add: anonymous_scopes_def)
    from that show ?thesis
    proof cases
      case (ancestor_parent p)
      then have "p = 0" by (simp add: anonymous_scopes_def)
      with top_scope ancestor_parent show ?thesis by simp
    qed simp
  qed
  have "tables_ok anonymous_scopes anonymous_functions [(''g'', [0])] [(''g'', [anonymous_site])]"
    by (auto simp: tables_ok_def scopes_ok_def anonymous_scopes_def anonymous_functions_def anonymous_site_def less_Suc_eq numeral_3_eq_3)
  moreover have "scope_ancestor anonymous_scopes 2 2" by (rule ancestor_self) (simp add: anonymous_scopes_def)
  then have "inside_function anonymous_scopes anonymous_site"
    unfolding inside_function_def by (intro exI[of _ 2]) (simp add: anonymous_site_def anonymous_scopes_def is_function_kind_def)
  moreover have "f = Anonymous" if "scope_ancestor anonymous_scopes (cs_scope anonymous_site) a" "sc_kind (anonymous_scopes ! a) = FunctionScope f" for a f
    using up[of a] that by (auto simp: anonymous_site_def anonymous_scopes_def)
  ultimately show ?thesis
    using anonymous_calls_missed[of anonymous_scopes anonymous_functions "[(''g'', [0])]" "[(''g'', [anonymous_site])]" "''g''"] by auto
qed

end
