(* ===== verification/Suppression_Index.thy ===== *)
theory Suppression_Index
  imports Source_Span
begin

text \<open>
  Model of \<open>crates/shucked-linter/src/suppression/index.rs\<close>: the index that says on which lines a rule is
  suppressed.  It is built from the directives of the comments, each of which concerns the whole file, its
  own line, or the command that follows it, and answers by binary search over sorted lines and merged
  ranges of lines.  The theorem states the answer by the directives alone.
\<close>

section \<open>Directives and ranges of lines\<close>

datatype suppression_action = Disable | DisableFile | Ignore

datatype suppression_source = FromShuck | FromShellCheck

record suppression_directive =
  sd_action :: suppression_action
  sd_source :: suppression_source
  sd_codes :: "nat list"
  sd_range :: text_range
  sd_line :: nat

record line_span =
  ls_start :: nat
  ls_end :: nat

record rule_suppressions =
  rs_whole_file :: bool
  rs_lines :: "nat list"
  rs_ranges :: "line_span list"

definition rule_suppressions_default :: rule_suppressions where
  "rule_suppressions_default = \<lparr>rs_whole_file = False, rs_lines = [], rs_ranges = []\<rparr>"

type_synonym suppression_index = "nat \<rightharpoonup> rule_suppressions"

text \<open>\<open>u32::try_from\<close> on a \<open>usize\<close>.\<close>

definition to_u32 :: "nat \<Rightarrow> nat option" where
  "to_u32 n = (if n < 2 ^ 32 then Some n else None)"

definition line_range_of :: "span \<Rightarrow> line_span option" where
  "line_range_of s = do {
     start_line \<leftarrow> to_u32 (line_of (s_start s));
     end_line \<leftarrow> to_u32 (line_of (s_end s));
     let end_line = (if end_offset s > start_offset s \<and> column_of (s_end s) = 1 then end_line - 1 else end_line);
     Some \<lparr>ls_start = start_line, ls_end = max end_line start_line\<rparr> }"

definition compare_command_spans :: "span \<Rightarrow> span \<Rightarrow> rust_ordering" where
  "compare_command_spans l r = ordering_then (rust_cmp (start_offset l) (start_offset r)) (rust_cmp (end_offset r) (end_offset l))"

definition sort_command_spans_for_lookup :: "span list \<Rightarrow> span list" where
  "sort_command_spans_for_lookup = sort_by compare_command_spans"

definition next_command_range_after :: "span list \<Rightarrow> u32 \<Rightarrow> line_span option" where
  "next_command_range_after spans offset =
     (let i = partition_point (\<lambda>s. start_offset s \<le> unat offset) spans in
      Option.bind (nth_opt spans i) line_range_of)"

section \<open>Building the index\<close>

definition compare_directives :: "suppression_directive \<Rightarrow> suppression_directive \<Rightarrow> rust_ordering" where
  "compare_directives l r = ordering_then (rust_cmp (sd_line l) (sd_line r))
     (ordering_then (rust_cmp (unat (r_start (sd_range l))) (unat (r_start (sd_range r))))
       (rust_cmp (unat (r_end (sd_range l))) (unat (r_end (sd_range r)))))"

definition note_code ::
  "suppression_directive \<Rightarrow> nat \<Rightarrow> line_span option \<Rightarrow> nat \<Rightarrow> suppression_index \<Rightarrow> suppression_index" where
  "note_code d first_stmt_line directive_range rule by_rule =
     (let index = (case by_rule rule of None \<Rightarrow> rule_suppressions_default | Some index \<Rightarrow> index) in
      by_rule(rule \<mapsto> (case sd_action d of
         DisableFile \<Rightarrow> index\<lparr>rs_whole_file := True\<rparr>
       | Ignore \<Rightarrow> index\<lparr>rs_lines := rs_lines index @ [sd_line d]\<rparr>
       | Disable \<Rightarrow>
           if sd_line d < first_stmt_line then index\<lparr>rs_whole_file := True\<rparr>
           else (case directive_range of None \<Rightarrow> index | Some r \<Rightarrow> index\<lparr>rs_ranges := rs_ranges index @ [r]\<rparr>))))"

definition note_directive ::
  "span list \<Rightarrow> nat \<Rightarrow> suppression_directive \<Rightarrow> suppression_index \<Rightarrow> suppression_index" where
  "note_directive spans first_stmt_line d by_rule =
     (let directive_range = (if sd_action d = Disable \<and> sd_line d \<ge> first_stmt_line
          then next_command_range_after spans (r_end (sd_range d)) else None)
      in fold (note_code d first_stmt_line directive_range) (sd_codes d) by_rule)"

definition compare_ranges :: "line_span \<Rightarrow> line_span \<Rightarrow> rust_ordering" where
  "compare_ranges l r = ordering_then (rust_cmp (ls_start l) (ls_start r)) (rust_cmp (ls_end l) (ls_end r))"

definition merge_range :: "line_span \<Rightarrow> line_span list \<times> line_span \<Rightarrow> line_span list \<times> line_span" where
  "merge_range r = (\<lambda>(merged, current).
     if ls_start r \<le> ls_end current then (merged, current\<lparr>ls_end := max (ls_end current) (ls_end r)\<rparr>)
     else (merged @ [current], r))"

definition merge_overlapping_ranges :: "line_span list \<Rightarrow> line_span list" where
  "merge_overlapping_ranges ranges =
     (case ranges of
        [] \<Rightarrow> ranges
      | [_] \<Rightarrow> ranges
      | first # rest \<Rightarrow> let (merged, current) = fold merge_range rest ([], first) in merged @ [current])"

definition finish_rule :: "rule_suppressions \<Rightarrow> rule_suppressions" where
  "finish_rule index = index\<lparr>rs_lines := remdups_adj (sort (rs_lines index)),
     rs_ranges := merge_overlapping_ranges (sort_by compare_ranges (rs_ranges index))\<rparr>"

definition from_sorted_command_spans ::
  "suppression_directive list \<Rightarrow> span list \<Rightarrow> nat \<Rightarrow> suppression_index" where
  "from_sorted_command_spans directives spans first_stmt_line =
     (let ordered = sort_by compare_directives directives;
          by_rule = fold (note_directive spans first_stmt_line) ordered Map.empty
      in map_option finish_rule \<circ> by_rule)"

section \<open>Asking the index\<close>

text \<open>\<open>binary_search(x).is_ok()\<close> on a sorted slice.\<close>

definition binary_search_ok :: "nat list \<Rightarrow> nat \<Rightarrow> bool" where
  "binary_search_ok xs x = (let i = partition_point (\<lambda>y. y < x) xs in nth_opt xs i = Some x)"

definition rule_suppressed :: "rule_suppressions \<Rightarrow> nat \<Rightarrow> bool" where
  "rule_suppressed index line =
     (if rs_whole_file index then True
      else if binary_search_ok (rs_lines index) line then True
      else (let candidate = partition_point (\<lambda>r. ls_start r \<le> line) (rs_ranges index) in
        case Option.bind (checked_sub candidate 1) (nth_opt (rs_ranges index)) of
          Some r \<Rightarrow> line \<le> ls_end r
        | None \<Rightarrow> False))"

definition is_suppressed :: "suppression_index \<Rightarrow> nat \<Rightarrow> nat \<Rightarrow> bool" where
  "is_suppressed by_rule rule line =
     (case by_rule rule of None \<Rightarrow> False | Some index \<Rightarrow> rule_suppressed index line)"

section \<open>Lines and ranges\<close>

lemma line_range_ordered: "line_range_of s = Some r \<Longrightarrow> ls_start r \<le> ls_end r"
  by (auto simp: line_range_of_def Let_def split: bind_splits)

lemma binary_search_sorted:
  assumes "sorted xs"
  shows "binary_search_ok xs x \<longleftrightarrow> x \<in> set xs"
proof -
  have "partitioned (\<lambda>y. y < x) xs" using assms by (rule sorted_wrt_partitioned) auto
  note pp = partition_point_spec[OF this]
  show ?thesis
  proof
    assume "binary_search_ok xs x"
    then show "x \<in> set xs" unfolding binary_search_ok_def nth_opt_def Let_def by (metis nth_mem option.distinct(1) option.inject)
  next
    assume "x \<in> set xs"
    then obtain j where j: "j < length xs" "xs ! j = x" by (auto simp: in_set_conv_nth)
    let ?i = "partition_point (\<lambda>y. y < x) xs"
    have le: "?i \<le> j" using pp(2)[OF j(1)] j(2) by simp
    then have "?i < length xs" using j(1) by simp
    then have "xs ! ?i = x" using pp(2)[of ?i] sorted_nth_mono[OF assms le j(1)] j(2) by simp
    then show "binary_search_ok xs x" using \<open>?i < length xs\<close> by (simp add: binary_search_ok_def nth_opt_def)
  qed
qed

definition covers :: "line_span list \<Rightarrow> nat \<Rightarrow> bool" where
  "covers rs line \<longleftrightarrow> (\<exists>r \<in> set rs. ls_start r \<le> line \<and> line \<le> ls_end r)"

text \<open>Merged ranges are apart from each other and in order.\<close>

definition apart :: "line_span list \<Rightarrow> bool" where
  "apart rs \<longleftrightarrow> (\<forall>r \<in> set rs. ls_start r \<le> ls_end r) \<and> sorted_wrt (\<lambda>l r. ls_end l < ls_start r) rs"

interpretation range_order: total_comparator compare_ranges
  by unfold_locales (auto simp: compare_ranges_def)

lemma merge_ranges_ok:
  assumes "apart (merged @ [current])" "sorted_wrt (\<lambda>l r. ls_start l \<le> ls_start r) (current # rest)"
    and "\<forall>r \<in> set rest. ls_start r \<le> ls_end r" "fold merge_range rest (merged, current) = (merged', current')"
  shows "apart (merged' @ [current']) \<and> covers (merged' @ [current']) line = covers (merged @ current # rest) line"
  using assms
proof (induction rest arbitrary: merged current)
  case Nil
  then show ?case by simp
next
  case (Cons r rest)
  show ?case
  proof (cases "ls_start r \<le> ls_end current")
    case True
    let ?c = "current\<lparr>ls_end := max (ls_end current) (ls_end r)\<rparr>"
    have "apart (merged @ [?c])" using Cons.prems(1) by (auto simp: apart_def sorted_wrt_append)
    moreover have "sorted_wrt (\<lambda>l r. ls_start l \<le> ls_start r) (?c # rest)" "\<forall>r \<in> set rest. ls_start r \<le> ls_end r"
      using Cons.prems(2,3) by simp_all
    moreover have "merge_range r (merged, current) = (merged, ?c)" using True by (simp add: merge_range_def)
    then have "fold merge_range rest (merged, ?c) = (merged', current')" using Cons.prems(4) by (simp only: fold.simps comp_apply)
    ultimately have "apart (merged' @ [current']) \<and> covers (merged' @ [current']) line = covers (merged @ ?c # rest) line"
      by (rule Cons.IH)
    moreover have "covers (merged @ ?c # rest) line = covers (merged @ current # r # rest) line"
      using True Cons.prems(2) by (auto simp: covers_def)
    ultimately show ?thesis by simp
  next
    case False
    have "apart ((merged @ [current]) @ [r])" using Cons.prems(1,3) False by (fastforce simp: apart_def sorted_wrt_append)
    moreover have "sorted_wrt (\<lambda>l r. ls_start l \<le> ls_start r) (r # rest)" "\<forall>r \<in> set rest. ls_start r \<le> ls_end r"
      using Cons.prems(2,3) by simp_all
    moreover have "merge_range r (merged, current) = (merged @ [current], r)" using False by (simp add: merge_range_def)
    then have "fold merge_range rest (merged @ [current], r) = (merged', current')" using Cons.prems(4) by (simp only: fold.simps comp_apply)
    ultimately have "apart (merged' @ [current']) \<and> covers (merged' @ [current']) line = covers ((merged @ [current]) @ r # rest) line"
      by (rule Cons.IH)
    then show ?thesis by simp
  qed
qed

lemma merge_overlapping_ok:
  assumes "\<forall>r \<in> set rs. ls_start r \<le> ls_end r"
  defines "ms \<equiv> merge_overlapping_ranges (sort_by compare_ranges rs)"
  shows "apart ms" "covers ms line = covers rs line"
proof -
  let ?s = "sort_by compare_ranges rs"
  have s: "sorted_wrt (\<lambda>l r. ls_start l \<le> ls_start r) ?s"
    by (rule sorted_wrt_mono_rel[OF _ range_order.sort_by_sorted]) (auto simp: compare_ranges_def)
  have "apart ms \<and> covers ms line = covers ?s line"
  proof (cases ?s)
    case Nil
    then show ?thesis by (simp add: ms_def merge_overlapping_ranges_def apart_def)
  next
    case (Cons first rest)
    show ?thesis
    proof (cases rest)
      case Nil
      have "first \<in> set rs" using Cons sort_by_set[of compare_ranges rs] by auto
      with Nil Cons assms(1) show ?thesis by (simp add: ms_def merge_overlapping_ranges_def apart_def)
    next
      case (Cons second rest')
      obtain merged current where run: "fold merge_range rest ([], first) = (merged, current)" by (cases "fold merge_range rest ([], first)")
      have all: "\<forall>r \<in> set (first # rest). ls_start r \<le> ls_end r"
        using assms(1) \<open>?s = first # rest\<close> sort_by_set[of compare_ranges rs] by auto
      have "apart ([] @ [first])" using all by (simp add: apart_def)
      from merge_ranges_ok[OF this _ _ run, of line] all s show ?thesis
        using \<open>?s = first # rest\<close> Cons run by (simp add: ms_def merge_overlapping_ranges_def)
    qed
  qed
  then show "apart ms" "covers ms line = covers rs line" by (simp_all add: covers_def)
qed

lemma apart_search:
  assumes "apart rs"
  shows "(case Option.bind (checked_sub (partition_point (\<lambda>r. ls_start r \<le> line) rs) 1) (nth_opt rs) of
      Some r \<Rightarrow> line \<le> ls_end r | None \<Rightarrow> False) = covers rs line"
proof -
  let ?i = "partition_point (\<lambda>r. ls_start r \<le> line) rs"
  have "sorted_wrt (\<lambda>l r. ls_start l \<le> ls_start r) rs"
  proof (rule sorted_wrt_mono_rel[of rs "\<lambda>l r. ls_end l < ls_start r"])
    fix x y assume "x \<in> set rs" "y \<in> set rs" "ls_end x < ls_start y"
    moreover from this(1) have "ls_start x \<le> ls_end x" using assms by (simp add: apart_def)
    ultimately show "ls_start x \<le> ls_start y" by simp
  qed (use assms in \<open>simp add: apart_def\<close>)
  then have "partitioned (\<lambda>r. ls_start r \<le> line) rs" by (rule sorted_wrt_partitioned) auto
  note pp = partition_point_spec[OF this]
  show ?thesis
  proof (cases ?i)
    case 0
    then have "\<not> covers rs line" using pp(2) by (auto simp: covers_def in_set_conv_nth)
    then show ?thesis by (simp add: 0 checked_sub_def)
  next
    case (Suc j)
    then have j: "j < length rs" "ls_start (rs ! j) \<le> line" using pp(1) pp(2)[of j] by auto
    have only: "k = j" if "k < length rs" "ls_start (rs ! k) \<le> line" "line \<le> ls_end (rs ! k)" for k
    proof (rule ccontr)
      assume "k \<noteq> j"
      moreover have "k \<le> j" using pp(2)[OF that(1)] that(2) Suc by simp
      ultimately have "ls_end (rs ! k) < ls_start (rs ! j)"
        using assms j(1) sorted_wrt_nth_less[of "\<lambda>l r. ls_end l < ls_start r" rs k j] by (simp add: apart_def)
      with that(3) j(2) show False by simp
    qed
    have "covers rs line \<longleftrightarrow> line \<le> ls_end (rs ! j)"
    proof
      assume "covers rs line"
      then obtain k where "k < length rs" "ls_start (rs ! k) \<le> line" "line \<le> ls_end (rs ! k)"
        unfolding covers_def by (metis in_set_conv_nth)
      with only[OF this] show "line \<le> ls_end (rs ! j)" by simp
    next
      assume "line \<le> ls_end (rs ! j)"
      with j nth_mem[OF j(1)] show "covers rs line" unfolding covers_def by blast
    qed
    then show ?thesis using Suc j(1) by (simp add: checked_sub_def nth_opt_def)
  qed
qed

section \<open>What is suppressed\<close>

text \<open>A directive suppresses a line: the whole file, its own line, or the lines of the next command.\<close>

definition directive_suppresses :: "span list \<Rightarrow> nat \<Rightarrow> suppression_directive \<Rightarrow> nat \<Rightarrow> bool" where
  "directive_suppresses spans first_stmt_line d line = (case sd_action d of
       DisableFile \<Rightarrow> True
     | Ignore \<Rightarrow> line = sd_line d
     | Disable \<Rightarrow> sd_line d < first_stmt_line
         \<or> (\<exists>r. next_command_range_after spans (r_end (sd_range d)) = Some r \<and> ls_start r \<le> line \<and> line \<le> ls_end r))"

definition suppressed_so_far :: "suppression_index \<Rightarrow> nat \<Rightarrow> nat \<Rightarrow> bool" where
  "suppressed_so_far by_rule rule line = (case by_rule rule of None \<Rightarrow> False
     | Some index \<Rightarrow> rs_whole_file index \<or> line \<in> set (rs_lines index) \<or> covers (rs_ranges index) line)"

definition ranges_ordered :: "suppression_index \<Rightarrow> bool" where
  "ranges_ordered by_rule \<longleftrightarrow> (\<forall>rule index. by_rule rule = Some index \<longrightarrow> (\<forall>r \<in> set (rs_ranges index). ls_start r \<le> ls_end r))"

lemma next_command_ordered: "next_command_range_after spans offset = Some r \<Longrightarrow> ls_start r \<le> ls_end r"
  by (auto simp: next_command_range_after_def Let_def dest: line_range_ordered split: bind_splits)

lemma note_code_ok:
  assumes "directive_range = (if sd_action d = Disable \<and> sd_line d \<ge> first then next_command_range_after spans (r_end (sd_range d)) else None)"
  shows "suppressed_so_far (note_code d first directive_range rule by_rule) x line \<longleftrightarrow>
      suppressed_so_far by_rule x line \<or> x = rule \<and> directive_suppresses spans first d line"
    and "ranges_ordered by_rule \<Longrightarrow> ranges_ordered (note_code d first directive_range rule by_rule)"
proof -
  let ?index = "case by_rule rule of None \<Rightarrow> rule_suppressions_default | Some index \<Rightarrow> index"
  have index: "(rs_whole_file ?index \<or> line \<in> set (rs_lines ?index) \<or> covers (rs_ranges ?index) line) \<longleftrightarrow> suppressed_so_far by_rule rule line"
    by (simp add: suppressed_so_far_def rule_suppressions_default_def covers_def split: option.split)
  show "suppressed_so_far (note_code d first directive_range rule by_rule) x line \<longleftrightarrow>
      suppressed_so_far by_rule x line \<or> x = rule \<and> directive_suppresses spans first d line"
  proof (cases "x = rule")
    case False
    then show ?thesis by (simp add: note_code_def Let_def suppressed_so_far_def)
  next
    case True
    show ?thesis unfolding True index[symmetric] unfolding assms note_code_def Let_def
      by (cases "sd_action d"; cases "next_command_range_after spans (r_end (sd_range d))")
        (auto simp: suppressed_so_far_def directive_suppresses_def covers_def)
  qed
  assume ordered: "ranges_ordered by_rule"
  then have "\<forall>r \<in> set (rs_ranges ?index). ls_start r \<le> ls_end r"
    by (auto simp: ranges_ordered_def rule_suppressions_default_def split: option.splits)
  moreover have "\<forall>r. directive_range = Some r \<longrightarrow> ls_start r \<le> ls_end r"
    unfolding assms using next_command_ordered by (auto split: if_splits)
  ultimately show "ranges_ordered (note_code d first directive_range rule by_rule)"
    using ordered unfolding ranges_ordered_def note_code_def Let_def
    by (cases "sd_action d"; cases directive_range) (auto split: if_splits)
qed

lemma note_directive_ok:
  shows "suppressed_so_far (note_directive spans first d by_rule) x line \<longleftrightarrow>
      suppressed_so_far by_rule x line \<or> x \<in> set (sd_codes d) \<and> directive_suppresses spans first d line"
    and "ranges_ordered by_rule \<Longrightarrow> ranges_ordered (note_directive spans first d by_rule)"
proof -
  define range where "range = (if sd_action d = Disable \<and> sd_line d \<ge> first then next_command_range_after spans (r_end (sd_range d)) else None)"
  note step = note_code_ok[OF range_def]
  have "(suppressed_so_far (fold (note_code d first range) codes by_rule) x line \<longleftrightarrow>
      suppressed_so_far by_rule x line \<or> x \<in> set codes \<and> directive_suppresses spans first d line)
    \<and> (ranges_ordered by_rule \<longrightarrow> ranges_ordered (fold (note_code d first range) codes by_rule))" for codes
    by (induction codes arbitrary: by_rule) (auto simp: step)
  then show "suppressed_so_far (note_directive spans first d by_rule) x line \<longleftrightarrow>
      suppressed_so_far by_rule x line \<or> x \<in> set (sd_codes d) \<and> directive_suppresses spans first d line"
    "ranges_ordered by_rule \<Longrightarrow> ranges_ordered (note_directive spans first d by_rule)"
    unfolding note_directive_def range_def[symmetric] Let_def by blast+
qed

lemma finish_rule_ok:
  assumes "\<forall>r \<in> set (rs_ranges index). ls_start r \<le> ls_end r"
  shows "rule_suppressed (finish_rule index) line \<longleftrightarrow>
    rs_whole_file index \<or> line \<in> set (rs_lines index) \<or> covers (rs_ranges index) line"
proof -
  note merged = merge_overlapping_ok[OF assms]
  have "sorted (remdups_adj (sort (rs_lines index)))" by simp
  from binary_search_sorted[OF this] apart_search[OF merged(1), of line] show ?thesis
    unfolding merged(2) by (simp add: rule_suppressed_def finish_rule_def Let_def)
qed

lemma index_answers:
  "is_suppressed (from_sorted_command_spans directives spans first_stmt_line) rule line \<longleftrightarrow>
     (\<exists>d \<in> set directives. rule \<in> set (sd_codes d) \<and> directive_suppresses spans first_stmt_line d line)"
proof -
  let ?ordered = "sort_by compare_directives directives" and ?all = "\<lambda>ds. fold (note_directive spans first_stmt_line) ds Map.empty"
  have noted: "(suppressed_so_far (?all ds) rule line \<longleftrightarrow>
      (\<exists>d \<in> set ds. rule \<in> set (sd_codes d) \<and> directive_suppresses spans first_stmt_line d line)) \<and> ranges_ordered (?all ds)" for ds
  proof (induction ds rule: rev_induct)
    case Nil
    then show ?case by (simp add: suppressed_so_far_def ranges_ordered_def)
  next
    case (snoc d ds)
    then show ?case by (auto simp: note_directive_ok)
  qed
  have "is_suppressed (from_sorted_command_spans directives spans first_stmt_line) rule line = suppressed_so_far (?all ?ordered) rule line"
  proof (cases "?all ?ordered rule")
    case None
    then show ?thesis by (simp add: is_suppressed_def from_sorted_command_spans_def Let_def suppressed_so_far_def)
  next
    case (Some index)
    then have "\<forall>r \<in> set (rs_ranges index). ls_start r \<le> ls_end r" using noted[of ?ordered] by (auto simp: ranges_ordered_def)
    from finish_rule_ok[OF this] Some show ?thesis
      by (simp add: is_suppressed_def from_sorted_command_spans_def Let_def suppressed_so_far_def)
  qed
  with noted[of ?ordered] show ?thesis by simp
qed

section \<open>Properties\<close>

text \<open>C16: The suppression index answers as its directives say, in whatever order they are given: a rule is
  suppressed on a line just when some directive names the rule and concerns the whole file, or stands on
  that line to have it ignored, or disables the lines of the command that follows it.\<close>

theorem suppression_exact:
  "is_suppressed (from_sorted_command_spans directives spans first_stmt_line) rule line \<longleftrightarrow>
     (\<exists>d \<in> set directives. rule \<in> set (sd_codes d) \<and> directive_suppresses spans first_stmt_line d line)"
  by (rule index_answers)

interpretation span_order: comparator compare_command_spans
  by unfold_locales (auto simp: compare_command_spans_def)

text \<open>C17: The command that a directive concerns is the next one: of the commands that start after the end of
  the directive the one that starts first, and of those the widest, so a statement goes before its parts.\<close>

theorem next_command_is_next:
  "case next_command_range_after (sort_command_spans_for_lookup commands) offset of
     None \<Rightarrow> (\<forall>c \<in> set commands. start_offset c \<le> unat offset)
   | Some r \<Rightarrow> (\<exists>c \<in> set commands. line_range_of c = Some r \<and> unat offset < start_offset c
       \<and> (\<forall>d \<in> set commands. unat offset < start_offset d \<longrightarrow>
            start_offset c < start_offset d \<or> start_offset c = start_offset d \<and> end_offset d \<le> end_offset c))"
proof -
  let ?s = "sort_command_spans_for_lookup commands" and ?i = "partition_point (\<lambda>s. start_offset s \<le> unat offset) (sort_command_spans_for_lookup commands)"
  have sorted: "sorted_wrt (\<lambda>x y. compare_command_spans x y \<noteq> Greater) ?s"
    unfolding sort_command_spans_for_lookup_def by (rule span_order.sort_by_sorted)
  then have "partitioned (\<lambda>s. start_offset s \<le> unat offset) ?s"
    by (rule sorted_wrt_partitioned) (auto simp: compare_command_spans_def)
  note pp = partition_point_spec[OF this]
  have same: "set ?s = set commands" by (simp add: sort_command_spans_for_lookup_def)
  have "unat x < 2 ^ LENGTH(32)" for x :: u32 by (rule unsigned_less)
  then have line: "\<exists>r. line_range_of c = Some r" for c
    by (simp add: line_range_of_def to_u32_def line_of_def Let_def)
  show ?thesis
  proof (cases "?i < length ?s")
    case False
    then have "start_offset c \<le> unat offset" if "c \<in> set commands" for c
      using that pp(2) unfolding same[symmetric] in_set_conv_nth by force
    with False show ?thesis by (simp add: next_command_range_after_def Let_def nth_opt_def)
  next
    case True
    let ?c = "?s ! ?i"
    have c: "?c \<in> set commands" "unat offset < start_offset ?c" using True pp(2)[OF True] same nth_mem by auto
    have first: "start_offset ?c < start_offset d \<or> start_offset ?c = start_offset d \<and> end_offset d \<le> end_offset ?c"
      if d: "d \<in> set commands" "unat offset < start_offset d" for d
    proof -
      obtain j where j: "j < length ?s" "?s ! j = d" using d(1) unfolding same[symmetric] in_set_conv_nth by blast
      then have "?i \<le> j" using pp(2)[OF j(1)] d(2) by simp
      then show ?thesis
        using sorted_wrt_nth_less[OF sorted, of ?i j] j by (cases "?i = j") (auto simp: compare_command_spans_def)
    qed
    obtain r where "line_range_of ?c = Some r" using line by blast
    with True c first show ?thesis by (auto simp: next_command_range_after_def Let_def nth_opt_def)
  qed
qed

definition command_at :: "nat \<Rightarrow> nat \<Rightarrow> nat \<Rightarrow> nat \<Rightarrow> span" where
  "command_at first_line start last_line finish = \<lparr>s_start = position_at first_line 1 start, s_end = position_at last_line 9 finish\<rparr>"

theorem next_command_is_next_witness:
  "\<exists>c \<in> {command_at 1 0 1 5, command_at 2 10 2 14, command_at 2 10 3 20}.
     line_range_of c = Some \<lparr>ls_start = 2, ls_end = 3\<rparr> \<and> 7 < start_offset c"
proof -
  let ?commands = "[command_at 2 10 2 14, command_at 1 0 1 5, command_at 2 10 3 20]"
  have "next_command_range_after (sort_command_spans_for_lookup ?commands) 7 = Some \<lparr>ls_start = 2, ls_end = 3\<rparr>"
    by (simp add: next_command_range_after_def sort_command_spans_for_lookup_def sort_by_def compare_command_spans_def command_at_def
        position_at_def offset_of_def rust_cmp_def partition_point_def pp_search.simps nth_opt_def line_range_of_def to_u32_def line_of_def column_of_def Let_def)
  with next_command_is_next[of ?commands 7] show ?thesis by auto
qed

end
