(* ===== verification/Rust_Strings.thy ===== *)
theory Rust_Strings
  imports Source_Span "HOL-Library.List_Lexorder"
begin

text \<open>
  The operations of \<open>str\<close>, \<open>u8\<close> and \<open>u32\<close> of the Rust standard library that the comments and the
  selectors are read with.  A text is the list of its UTF-8 bytes; its order is that of the bytes.  A
  separator is always an ASCII character, which is never a part of another character, so splitting at its
  byte is splitting at the character.  White space is the Unicode property \<open>White_Space\<close>, and a character
  of it is recognised by its encoding.
\<close>

section \<open>Literals and letters\<close>

definition ascii :: "string \<Rightarrow> byte list" where
  "ascii s = map of_char s"

lemma ascii_append [simp]: "ascii (s @ t) = ascii s @ ascii t"
  by (simp add: ascii_def)

lemma length_ascii [simp]: "length (ascii s) = length s"
  by (simp add: ascii_def)

lemma inj_ascii: "inj ascii"
  unfolding ascii_def by (simp add: inj_mapI inj_of_char)

definition to_ascii_lowercase :: "byte \<Rightarrow> byte" where
  "to_ascii_lowercase b = (if 65 \<le> b \<and> b \<le> 90 then b + 32 else b)"

definition to_ascii_uppercase :: "byte list \<Rightarrow> byte list" where
  "to_ascii_uppercase = map (\<lambda>b. if 97 \<le> b \<and> b \<le> 122 then b - 32 else b)"

definition eq_ignore_ascii_case :: "byte list \<Rightarrow> byte list \<Rightarrow> bool" where
  "eq_ignore_ascii_case s t \<longleftrightarrow> map to_ascii_lowercase s = map to_ascii_lowercase t"

definition starts_with :: "byte list \<Rightarrow> byte list \<Rightarrow> bool" where
  "starts_with p s \<longleftrightarrow> take (length p) s = p"

definition ends_with :: "byte list \<Rightarrow> byte list \<Rightarrow> bool" where
  "ends_with p s \<longleftrightarrow> starts_with (rev p) (rev s)"

definition strip_prefix :: "byte list \<Rightarrow> byte list \<Rightarrow> byte list option" where
  "strip_prefix p s = (if starts_with p s then Some (drop (length p) s) else None)"

definition strip_suffix :: "byte list \<Rightarrow> byte list \<Rightarrow> byte list option" where
  "strip_suffix p s = (if ends_with p s then Some (take (length s - length p) s) else None)"

lemma starts_with_append [simp]: "starts_with p (p @ s)"
  by (simp add: starts_with_def)

lemma starts_with_iff: "starts_with p s \<longleftrightarrow> (\<exists>t. s = p @ t)"
  by (metis append_eq_conv_conj starts_with_def)

section \<open>White space\<close>

definition white_space :: "code_point list" where
  "white_space = [9, 10, 11, 12, 13, 32, 133, 160, 5760] @ [8192..<8203] @ [8232, 8233, 8239, 8287, 12288]"

definition white_encodings :: "byte list list" where
  "white_encodings = map utf8_bytes white_space"

text \<open>Taking words of a list off the front, as often as one fits.\<close>

function trim_with :: "byte list list \<Rightarrow> byte list \<Rightarrow> byte list" where
  "trim_with ws s = (case find (\<lambda>w. w \<noteq> [] \<and> starts_with w s) ws of
     None \<Rightarrow> s | Some w \<Rightarrow> trim_with ws (drop (length w) s))"
  by pat_completeness auto
termination
  by (relation "measure (\<lambda>(ws, s). length s)") (auto simp: find_Some_iff starts_with_iff)

declare trim_with.simps [simp del]

definition trim_start :: "byte list \<Rightarrow> byte list" where
  "trim_start s = trim_with white_encodings s"

definition trim_end :: "byte list \<Rightarrow> byte list" where
  "trim_end s = rev (trim_with (map rev white_encodings) (rev s))"

definition trim :: "byte list \<Rightarrow> byte list" where
  "trim s = trim_end (trim_start s)"

text \<open>\<open>u8::is_ascii_whitespace\<close>, which leaves the vertical tab out.\<close>

definition is_ascii_whitespace :: "byte \<Rightarrow> bool" where
  "is_ascii_whitespace b \<longleftrightarrow> b \<in> {9, 10, 12, 13, 32}"

section \<open>Searching and splitting\<close>

definition find_byte :: "byte \<Rightarrow> byte list \<Rightarrow> nat option" where
  "find_byte c s = (if c \<in> set s then Some (length (takeWhile (\<lambda>b. b \<noteq> c) s)) else None)"

definition rfind_byte :: "byte \<Rightarrow> byte list \<Rightarrow> nat option" where
  "rfind_byte c s = (case find_byte c (rev s) of None \<Rightarrow> None | Some i \<Rightarrow> Some (length s - 1 - i))"

definition split_once :: "byte \<Rightarrow> byte list \<Rightarrow> (byte list \<times> byte list) option" where
  "split_once c s = (case find_byte c s of None \<Rightarrow> None | Some i \<Rightarrow> Some (take i s, drop (Suc i) s))"

fun split_by :: "(byte \<Rightarrow> bool) \<Rightarrow> byte list \<Rightarrow> byte list list" where
  "split_by p [] = [[]]"
| "split_by p (b # s) = (if p b then [] # split_by p s
     else case split_by p s of [] \<Rightarrow> [[b]] | part # parts \<Rightarrow> (b # part) # parts)"

definition split_on :: "byte \<Rightarrow> byte list \<Rightarrow> byte list list" where
  "split_on c = split_by (\<lambda>b. b = c)"

definition split_ascii_whitespace :: "byte list \<Rightarrow> byte list list" where
  "split_ascii_whitespace s = filter (\<lambda>part. part \<noteq> []) (split_by is_ascii_whitespace s)"

section \<open>Numbers\<close>

definition digit_step :: "byte \<Rightarrow> nat \<Rightarrow> nat option" where
  "digit_step b n = (if 48 \<le> b \<and> b \<le> 57 \<and> n * 10 + (b - 48) < 2 ^ 32 then Some (n * 10 + (b - 48)) else None)"

text \<open>\<open>str::parse::<u32>\<close>: digits after an optional plus sign, and at least one of them.\<close>

definition parse_u32 :: "byte list \<Rightarrow> nat option" where
  "parse_u32 s = (case s of
       [] \<Rightarrow> None
     | b # digits \<Rightarrow> fold_opt digit_step (if b = 43 \<and> digits \<noteq> [] then digits else s) 0)"

fun show_nat :: "nat \<Rightarrow> byte list" where
  "show_nat n = (if n < 10 then [48 + n] else show_nat (n div 10) @ [48 + n mod 10])"

declare show_nat.simps [simp del]

text \<open>\<open>format!("{n:04}")\<close>.\<close>

definition show_padded :: "nat \<Rightarrow> nat \<Rightarrow> byte list" where
  "show_padded width n = replicate (width - length (show_nat n)) 48 @ show_nat n"

section \<open>Trimming\<close>

lemma trim_with_nil [simp]: "trim_with ws [] = []"
proof -
  have "find (\<lambda>w. w \<noteq> [] \<and> starts_with w []) ws = None" by (auto simp: find_None_iff starts_with_def)
  then show ?thesis by (subst trim_with.simps) simp
qed

lemma trim_with_stays:
  assumes "\<And>w. w \<in> set ws \<Longrightarrow> w \<noteq> [] \<Longrightarrow> hd w \<noteq> b"
  shows "trim_with ws (b # s) = b # s"
proof -
  have "find (\<lambda>w. w \<noteq> [] \<and> starts_with w (b # s)) ws = None"
    using assms by (fastforce simp: find_None_iff starts_with_iff Cons_eq_append_conv)
  then show ?thesis by (subst trim_with.simps) simp
qed

lemma trim_with_step:
  assumes "[b] \<in> set ws" "\<And>w. w \<in> set ws \<Longrightarrow> w \<noteq> [] \<Longrightarrow> hd w = b \<Longrightarrow> w = [b]"
  shows "trim_with ws (b # s) = trim_with ws s"
proof -
  have "find (\<lambda>w. w \<noteq> [] \<and> starts_with w (b # s)) ws \<noteq> None" using assms(1) by (auto simp: find_None_iff starts_with_def)
  then obtain w where w: "find (\<lambda>w. w \<noteq> [] \<and> starts_with w (b # s)) ws = Some w" by auto
  then have "w \<in> set ws" "w \<noteq> []" "starts_with w (b # s)" by (auto simp: find_Some_iff)
  moreover from \<open>w \<noteq> []\<close> \<open>starts_with w (b # s)\<close> have "hd w = b" by (cases w) (simp_all add: starts_with_def)
  ultimately have "w = [b]" using assms(2) by blast
  with w show ?thesis using trim_with.simps[of ws "b # s"] by simp
qed

text \<open>The white characters among ASCII, and how the others begin and end.\<close>

definition ascii_white :: "byte \<Rightarrow> bool" where
  "ascii_white b \<longleftrightarrow> b \<in> {9, 10, 11, 12, 13, 32}"

lemma white_encodings_cases:
  "list_all (\<lambda>w. w \<noteq> [] \<and> (w = [hd w] \<and> ascii_white (hd w) \<or> 128 \<le> hd w \<and> 128 \<le> last w)) white_encodings"
  by (simp add: white_encodings_def white_space_def utf8_bytes_def ascii_white_def upt_rec)

lemma ascii_white_encoded: "ascii_white b \<Longrightarrow> [b] \<in> set white_encodings"
  by (auto simp: ascii_white_def white_encodings_def white_space_def utf8_bytes_def)

lemma white_cases:
  assumes "w \<in> set white_encodings"
  obtains b where "w = [b]" "ascii_white b" | "w \<noteq> []" "128 \<le> hd w" "128 \<le> last w"
proof -
  from white_encodings_cases assms have "w \<noteq> []" "w = [hd w] \<and> ascii_white (hd w) \<or> 128 \<le> hd w \<and> 128 \<le> last w"
    by (auto simp: list_all_iff)
  with that show ?thesis by blast
qed

lemma ascii_white_small: "ascii_white b \<Longrightarrow> b < 128"
  by (auto simp: ascii_white_def)

definition black :: "byte \<Rightarrow> bool" where
  "black b \<longleftrightarrow> b < 128 \<and> \<not> ascii_white b"

lemma trim_start_nil [simp]: "trim_start [] = []" and trim_end_nil [simp]: "trim_end [] = []"
  by (simp_all add: trim_start_def trim_end_def)

lemma trim_start_black [simp]: "black b \<Longrightarrow> trim_start (b # s) = b # s"
  unfolding trim_start_def by (rule trim_with_stays) (auto simp: black_def elim!: white_cases)

lemma trim_start_white [simp]: "ascii_white b \<Longrightarrow> trim_start (b # s) = trim_start s"
  unfolding trim_start_def
  by (rule trim_with_step) (auto simp: ascii_white_encoded dest: ascii_white_small elim!: white_cases)

lemma trim_end_black [simp]: "black b \<Longrightarrow> trim_end (s @ [b]) = s @ [b]"
proof -
  assume b: "black b"
  have "trim_with (map rev white_encodings) (b # rev s) = b # rev s"
    by (rule trim_with_stays) (use b in \<open>auto simp: black_def hd_rev elim!: white_cases\<close>)
  then show ?thesis by (simp add: trim_end_def)
qed

lemma trim_end_white [simp]: "ascii_white b \<Longrightarrow> trim_end (s @ [b]) = trim_end s"
proof -
  assume b: "ascii_white b"
  have "trim_with (map rev white_encodings) (b # rev s) = trim_with (map rev white_encodings) (rev s)"
  proof (rule trim_with_step)
    show "[b] \<in> set (map rev white_encodings)" using ascii_white_encoded[OF b] by force
    fix w assume "w \<in> set (map rev white_encodings)" "w \<noteq> []" "hd w = b"
    moreover from this(1) obtain v where "v \<in> set white_encodings" "w = rev v" by auto
    ultimately have v: "v \<in> set white_encodings" "w = rev v" "last v = b" by (simp_all add: hd_rev)
    from v(1) show "w = [b]"
      by (rule white_cases) (use v b in \<open>auto dest: ascii_white_small\<close>)
  qed
  then show ?thesis by (simp add: trim_end_def)
qed

lemma trim_end_blacks:
  assumes "list_all black s"
  shows "trim_end s = s" "trim_start s = s" "trim s = s"
proof -
  show "trim_end s = s" using assms by (cases s rule: rev_cases) auto
  moreover show "trim_start s = s" using assms by (cases s) auto
  ultimately show "trim s = s" by (simp add: trim_def)
qed

lemma split_by_nonempty [simp]: "split_by p s \<noteq> []"
  by (cases s) (auto split: list.split)

lemma split_by_none: "list_all (\<lambda>b. \<not> p b) s \<Longrightarrow> split_by p s = [s]"
  by (induction s) auto

lemma split_by_append:
  "list_all (\<lambda>b. \<not> p b) s \<Longrightarrow> p c \<Longrightarrow> split_by p (s @ c # t) = s # split_by p t"
  by (induction s) (auto split: list.split)

lemma find_byte_append: "c \<notin> set s \<Longrightarrow> find_byte c (s @ c # t) = Some (length s)"
proof -
  assume "c \<notin> set s"
  then have "takeWhile (\<lambda>b. b \<noteq> c) (s @ c # t) = s" by (induction s) auto
  then show ?thesis by (simp add: find_byte_def)
qed

lemma split_once_append: "c \<notin> set s \<Longrightarrow> split_once c (s @ c # t) = Some (s, t)"
  by (simp add: split_once_def find_byte_append)

lemma split_once_none: "c \<notin> set s \<Longrightarrow> split_once c s = None"
  by (simp add: split_once_def find_byte_def)

end
