(* ===== verification/Rule_Registry.thy ===== *)
theory Rule_Registry
  imports Dense_Bit_Set Rust_Strings
begin

text \<open>
  Model of \<open>crates/shucked-linter/src/registry.rs\<close>, \<open>rule_selector.rs\<close>, \<open>named_groups.rs\<close> and of the rule
  selection of \<open>settings.rs\<close>: the table of the rules with their codes, categories and severities, the
  selectors that name sets of rules, and the sets that a configuration selects.  A rule is its position in
  the table, which is what \<open>rule as usize\<close> gives.  The table is written out as the macro \<open>declare_rules!\<close>
  receives it; the theorems about it are proved by evaluating it.
\<close>

section \<open>The table of rules\<close>

datatype category = Correctness | Style | Performance | Portability | Security

datatype severity = Hint | Warning | Error

datatype rule_entry = rule_entry (re_code: string) (re_category: category) (re_severity: severity) (re_name: string)

definition category_from_prefix :: "byte list \<Rightarrow> category option" where
  "category_from_prefix s =
     (if s = ascii ''C'' then Some Correctness
      else if s = ascii ''S'' then Some Style
      else if s = ascii ''P'' then Some Performance
      else if s = ascii ''X'' then Some Portability
      else if s = ascii ''K'' then Some Security
      else None)"

definition declared_rules_1 :: "rule_entry list" where
  "declared_rules_1 =
    [
     rule_entry ''C001'' Correctness Warning ''UnusedAssignment'',
     rule_entry ''C002'' Correctness Warning ''DynamicSourcePath'',
     rule_entry ''C003'' Correctness Warning ''UntrackedSourceFile'',
     rule_entry ''C004'' Correctness Warning ''UncheckedDirectoryChange'',
     rule_entry ''C005'' Correctness Warning ''SingleQuotedLiteral'',
     rule_entry ''C006'' Correctness Error ''UndefinedVariable'',
     rule_entry ''C007'' Correctness Warning ''FindOutputToXargs'',
     rule_entry ''C008'' Correctness Warning ''TrapStringExpansion'',
     rule_entry ''C009'' Correctness Warning ''QuotedBashRegex'',
     rule_entry ''C010'' Correctness Warning ''ChainedTestBranches'',
     rule_entry ''C011'' Correctness Warning ''LineOrientedInput'',
     rule_entry ''C012'' Correctness Warning ''LeadingGlobArgument'',
     rule_entry ''C013'' Correctness Warning ''FindOutputLoop'',
     rule_entry ''C014'' Correctness Error ''LocalTopLevel'',
     rule_entry ''C015'' Correctness Warning ''SudoRedirectionOrder'',
     rule_entry ''C016'' Correctness Error ''StrayClosingKeyword'',
     rule_entry ''C017'' Correctness Warning ''ConstantComparisonTest'',
     rule_entry ''C018'' Correctness Error ''LoopControlOutsideLoop'',
     rule_entry ''C019'' Correctness Warning ''LiteralUnaryStringTest'',
     rule_entry ''C020'' Correctness Warning ''TruthyLiteralTest'',
     rule_entry ''C021'' Correctness Warning ''ConstantCaseSubject'',
     rule_entry ''C022'' Correctness Error ''EmptyTest'',
     rule_entry ''C023'' Correctness Error ''LeadingZeroArithmetic'',
     rule_entry ''C024'' Correctness Warning ''AssignmentSpacing'',
     rule_entry ''C030'' Correctness Error ''MissingBracketSpace'',
     rule_entry ''C031'' Correctness Error ''MissingSpaceBeforeBracketClose'',
     rule_entry ''C032'' Correctness Error ''JammedTestBracket'',
     rule_entry ''C033'' Correctness Error ''IndentedHeredocClose'',
     rule_entry ''C025'' Correctness Warning ''PositionalTenBraces'',
     rule_entry ''C027'' Correctness Warning ''BareDoneWord'',
     rule_entry ''C034'' Correctness Error ''UnterminatedIf'',
     rule_entry ''C035'' Correctness Error ''MissingFi'',
     rule_entry ''C036'' Correctness Error ''BrokenTestEnd'',
     rule_entry ''C037'' Correctness Error ''BrokenTestParse'',
     rule_entry ''C038'' Correctness Error ''ElseIf'',
     rule_entry ''C039'' Correctness Warning ''OpenDoubleQuote'',
     rule_entry ''C040'' Correctness Error ''LinebreakInTest'',
     rule_entry ''C041'' Correctness Error ''CStyleComment'',
     rule_entry ''C042'' Correctness Warning ''CPrototypeFragment'',
     rule_entry ''C043'' Correctness Warning ''BadRedirectionFdOrder'',
     rule_entry ''C044'' Correctness Warning ''BareGlobCommandPath'',
     rule_entry ''C045'' Correctness Warning ''DiffMarkerLine'',
     rule_entry ''C046'' Correctness Warning ''PipeToKill'',
     rule_entry ''C047'' Correctness Error ''InvalidExitStatus'',
     rule_entry ''C048'' Correctness Warning ''CasePatternVar'',
     rule_entry ''C049'' Correctness Warning ''TautologyChain'',
     rule_entry ''C050'' Correctness Warning ''ArithmeticRedirectionTarget'',
     rule_entry ''C051'' Correctness Error ''DuplicateRedirect'',
     rule_entry ''C052'' Correctness Error ''AssignSpecialZero'',
     rule_entry ''C053'' Correctness Warning ''SpaceyAssign'',
     rule_entry ''C054'' Correctness Warning ''BareSlashMarker'',
     rule_entry ''C055'' Correctness Warning ''PatternWithVariable'',
     rule_entry ''C056'' Correctness Warning ''StatusCaptureAfterBranchTest'',
     rule_entry ''C057'' Correctness Warning ''SubstWithRedirect'',
     rule_entry ''C058'' Correctness Warning ''SubstWithRedirectErr'',
     rule_entry ''C059'' Correctness Warning ''RedirectToCommandName'',
     rule_entry ''C060'' Correctness Warning ''NonAbsoluteShebang'',
     rule_entry ''C061'' Correctness Warning ''TemplateBraceInCommand'',
     rule_entry ''C062'' Correctness Warning ''NestedParameterExpansion'',
     rule_entry ''C063'' Correctness Warning ''OverwrittenFunction'',
     rule_entry ''C064'' Correctness Warning ''IfMissingThen'',
     rule_entry ''C065'' Correctness Warning ''ElseWithoutThen'',
     rule_entry ''C066'' Correctness Warning ''MissingSemicolonBeforeBrace'',
     rule_entry ''C067'' Correctness Warning ''EmptyFunctionBody'',
     rule_entry ''C068'' Correctness Warning ''BareClosingBrace'',
     rule_entry ''C069'' Correctness Warning ''BackslashBeforeClosingBacktick'',
     rule_entry ''C070'' Correctness Warning ''PositionalParamAsOperator'',
     rule_entry ''C071'' Correctness Warning ''DoubleParenGrouping'',
     rule_entry ''C072'' Correctness Warning ''UnicodeQuoteInString'',
     rule_entry ''C073'' Correctness Warning ''IndentedShebang'',
     rule_entry ''C074'' Correctness Warning ''SpaceAfterHashBang'',
     rule_entry ''C075'' Correctness Warning ''ShebangNotOnFirstLine'',
     rule_entry ''C076'' Correctness Warning ''CommentedContinuationLine'',
     rule_entry ''C077'' Correctness Warning ''SubshellInArithmetic'',
     rule_entry ''C078'' Correctness Warning ''UnquotedGlobsInFind'',
     rule_entry ''C080'' Correctness Warning ''GlobInGrepPattern'',
     rule_entry ''C081'' Correctness Warning ''GlobInStringComparison'',
     rule_entry ''C083'' Correctness Warning ''GlobInFindSubstitution'',
     rule_entry ''C084'' Correctness Warning ''UnquotedGrepRegex'',
     rule_entry ''C085'' Correctness Warning ''StderrBeforeStdoutRedirect'',
     rule_entry ''C094'' Correctness Warning ''RedirectClobbersInput'',
     rule_entry ''C082'' Correctness Warning ''EscapedNegationInTest'',
     rule_entry ''C086'' Correctness Warning ''GreaterThanInTest'',
     rule_entry ''C087'' Correctness Warning ''StringComparisonForVersion'',
     rule_entry ''C088'' Correctness Warning ''MixedAndOrInCondition'',
     rule_entry ''C089'' Correctness Warning ''QuotedCommandInTest'',
     rule_entry ''C090'' Correctness Warning ''GlobInTestComparison'',
     rule_entry ''C091'' Correctness Warning ''TildeInStringComparison'',
     rule_entry ''C092'' Correctness Warning ''IfDollarCommand'']"

definition declared_rules_2 :: "rule_entry list" where
  "declared_rules_2 =
    [
     rule_entry ''C093'' Correctness Warning ''BacktickInCommandPosition'',
     rule_entry ''C095'' Correctness Warning ''AssignmentLooksLikeComparison'',
     rule_entry ''C096'' Correctness Warning ''SuspiciousBracketGlob'',
     rule_entry ''C097'' Correctness Error ''FunctionCalledWithoutArgs'',
     rule_entry ''C098'' Correctness Warning ''SetFlagsWithoutDashes'',
     rule_entry ''C099'' Correctness Warning ''QuotedArraySlice'',
     rule_entry ''C100'' Correctness Warning ''QuotedBashSource'',
     rule_entry ''C101'' Correctness Warning ''IfsSetToLiteralBackslashN'',
     rule_entry ''C102'' Correctness Warning ''GlobInTestDirectory'',
     rule_entry ''C103'' Correctness Warning ''FindOrWithoutGrouping'',
     rule_entry ''C104'' Correctness Warning ''NonShellSyntaxInScript'',
     rule_entry ''C105'' Correctness Warning ''ExportWithPositionalParams'',
     rule_entry ''C106'' Correctness Warning ''AppendToArrayAsString'',
     rule_entry ''C107'' Correctness Warning ''DollarQuestionAfterCommand'',
     rule_entry ''C108'' Correctness Warning ''UnsetAssociativeArrayElement'',
     rule_entry ''C109'' Correctness Warning ''MapfileProcessSubstitution'',
     rule_entry ''C111'' Correctness Warning ''AtSignInStringCompare'',
     rule_entry ''C112'' Correctness Warning ''ArraySliceInComparison'',
     rule_entry ''C114'' Correctness Warning ''GlobWithExpansionInLoop'',
     rule_entry ''C116'' Correctness Warning ''AssignmentToNumericVariable'',
     rule_entry ''C117'' Correctness Warning ''PlusPrefixInAssignment'',
     rule_entry ''C118'' Correctness Warning ''MalformedArithmeticInCondition'',
     rule_entry ''C119'' Correctness Warning ''RedirectBeforePipe'',
     rule_entry ''C120'' Correctness Warning ''ExprSubstrInTest'']"

definition declared_rules_3 :: "rule_entry list" where
  "declared_rules_3 =
    [
     rule_entry ''C121'' Correctness Warning ''StringComparedWithEq'',
     rule_entry ''C122'' Correctness Warning ''AFlagInDoubleBracket'',
     rule_entry ''C123'' Correctness Error ''FunctionReferencesUnsetParam'',
     rule_entry ''C124'' Correctness Warning ''UnreachableAfterExit'',
     rule_entry ''C127'' Correctness Warning ''UnusedHeredoc'',
     rule_entry ''C125'' Correctness Warning ''UncheckedDirectoryChangeInFunction'',
     rule_entry ''C126'' Correctness Error ''ContinueOutsideLoopInFunction'',
     rule_entry ''C128'' Correctness Warning ''CaseGlobReachability'',
     rule_entry ''C129'' Correctness Warning ''CaseDefaultBeforeGlob'',
     rule_entry ''C130'' Correctness Warning ''AppendWithEscapedQuotes'',
     rule_entry ''C131'' Correctness Warning ''VariableAsCommandName'',
     rule_entry ''C132'' Correctness Warning ''EnvPrefixExpansionOnly'',
     rule_entry ''C133'' Correctness Warning ''ArrayToStringConversion'',
     rule_entry ''C134'' Correctness Warning ''GetoptsOptionNotInCase'',
     rule_entry ''C135'' Correctness Warning ''CaseArmNotInGetopts'',
     rule_entry ''C136'' Correctness Warning ''LocalCrossReference'',
     rule_entry ''C137'' Correctness Warning ''UnicodeSingleQuoteInSingleQuotes'',
     rule_entry ''C138'' Correctness Warning ''HeredocMissingEnd'',
     rule_entry ''C139'' Correctness Warning ''SpacedAssignment'',
     rule_entry ''C140'' Correctness Warning ''BadVarName'',
     rule_entry ''C141'' Correctness Error ''LoopWithoutEnd'',
     rule_entry ''C142'' Correctness Error ''MissingDoneInForLoop'',
     rule_entry ''C143'' Correctness Error ''DanglingElse'',
     rule_entry ''C144'' Correctness Warning ''HeredocCloserNotAlone'',
     rule_entry ''C145'' Correctness Warning ''MisquotedHeredocClose'',
     rule_entry ''C146'' Correctness Error ''UntilMissingDo'',
     rule_entry ''C148'' Correctness Warning ''BrokenAssocKey'',
     rule_entry ''C150'' Correctness Warning ''SubshellLocalAssignment'',
     rule_entry ''C151'' Correctness Warning ''CommaArrayElements'',
     rule_entry ''C155'' Correctness Warning ''SubshellSideEffect'',
     rule_entry ''C156'' Correctness Warning ''PossibleVariableMisspelling'',
     rule_entry ''C157'' Correctness Error ''IfBracketGlued'',
     rule_entry ''C158'' Correctness Warning ''ImplicitGlobalInFunction'',
     rule_entry ''C159'' Correctness Warning ''MutableGlobal'',
     rule_entry ''C160'' Correctness Warning ''UnanchoredSourcePath'']"

definition declared_rules_4 :: "rule_entry list" where
  "declared_rules_4 =
    [
     rule_entry ''C161'' Correctness Error ''FunctionCalledBeforeDefined'',
     rule_entry ''P001'' Performance Warning ''ExprArithmetic'',
     rule_entry ''P002'' Performance Warning ''GrepCountPipeline'',
     rule_entry ''P003'' Performance Warning ''SingleTestSubshell'',
     rule_entry ''P004'' Performance Warning ''SubshellTestGroup'',
     rule_entry ''X001'' Portability Warning ''DoubleBracketInSh'',
     rule_entry ''X002'' Portability Warning ''TestEqualityOperator'',
     rule_entry ''X003'' Portability Warning ''LocalVariableInSh'',
     rule_entry ''X004'' Portability Warning ''FunctionKeyword'',
     rule_entry ''X005'' Portability Warning ''BashCaseFallthrough'',
     rule_entry ''X006'' Portability Warning ''ProcessSubstitution'',
     rule_entry ''X007'' Portability Warning ''AnsiCQuoting'',
     rule_entry ''X010'' Portability Warning ''BraceExpansion'',
     rule_entry ''X011'' Portability Warning ''HereString'',
     rule_entry ''X008'' Portability Warning ''StandaloneArithmetic'',
     rule_entry ''X009'' Portability Warning ''SelectLoop'',
     rule_entry ''X014'' Portability Warning ''Coproc'',
     rule_entry ''X012'' Portability Warning ''AmpersandRedirection'',
     rule_entry ''X013'' Portability Warning ''ArrayAssignment'',
     rule_entry ''X015'' Portability Warning ''LetCommand'',
     rule_entry ''X016'' Portability Warning ''DeclareCommand'',
     rule_entry ''X017'' Portability Warning ''TrapErr'',
     rule_entry ''X018'' Portability Warning ''IndirectExpansion'',
     rule_entry ''X019'' Portability Warning ''ArrayReference'',
     rule_entry ''X020'' Portability Warning ''BraceFdRedirection'',
     rule_entry ''X021'' Portability Warning ''PipefailOption'',
     rule_entry ''X022'' Portability Warning ''WaitOption'',
     rule_entry ''X023'' Portability Warning ''SubstringExpansion'',
     rule_entry ''X024'' Portability Warning ''CaseModificationExpansion'',
     rule_entry ''X025'' Portability Warning ''ReplacementExpansion'',
     rule_entry ''X026'' Portability Warning ''BashFileSlurp'',
     rule_entry ''X027'' Portability Warning ''EchoFlags'',
     rule_entry ''X028'' Portability Warning ''TrLowerRange'',
     rule_entry ''X029'' Portability Warning ''TrUpperRange'',
     rule_entry ''X030'' Portability Warning ''EchoBackslashEscapes'',
     rule_entry ''X031'' Portability Warning ''SourceBuiltinInSh'',
     rule_entry ''X032'' Portability Warning ''PrintfQFormatInSh'',
     rule_entry ''X033'' Portability Warning ''IfElifBashTest'',
     rule_entry ''X035'' Portability Warning ''FunctionParamsInSh'',
     rule_entry ''X037'' Portability Warning ''ExtglobCase'',
     rule_entry ''X048'' Portability Warning ''ExtglobInCasePattern'',
     rule_entry ''X054'' Portability Warning ''ExtglobInSh'',
     rule_entry ''X065'' Portability Warning ''CaretNegationInBracket'',
     rule_entry ''X036'' Portability Warning ''ZshRedirPipe'',
     rule_entry ''X038'' Portability Warning ''ZshBraceIf'',
     rule_entry ''X039'' Portability Warning ''ZshAlwaysBlock'',
     rule_entry ''X040'' Portability Warning ''ArraySubscriptTest'',
     rule_entry ''X041'' Portability Warning ''ArraySubscriptCondition'',
     rule_entry ''X042'' Portability Warning ''SourcedWithArgs'',
     rule_entry ''X043'' Portability Warning ''ZshFlagExpansion'',
     rule_entry ''X044'' Portability Warning ''NestedZshSubstitution'',
     rule_entry ''X045'' Portability Warning ''PlusEqualsAppend'',
     rule_entry ''X051'' Portability Warning ''ZshNestedExpansion'',
     rule_entry ''X047'' Portability Warning ''MultiVarForLoop'',
     rule_entry ''X049'' Portability Warning ''ZshPromptBracket'',
     rule_entry ''X050'' Portability Warning ''CshSyntaxInSh'',
     rule_entry ''X053'' Portability Warning ''ZshAssignmentToZero'',
     rule_entry ''X056'' Portability Warning ''CStyleForInSh'',
     rule_entry ''X055'' Portability Warning ''DollarStringInSh'',
     rule_entry ''X057'' Portability Warning ''LegacyArithmeticInSh'',
     rule_entry ''X062'' Portability Warning ''CStyleForArithmeticInSh'',
     rule_entry ''X071'' Portability Warning ''ArrayKeysInSh'',
     rule_entry ''X081'' Portability Warning ''StarGlobRemovalInSh'',
     rule_entry ''X076'' Portability Warning ''ZshParameterFlag'',
     rule_entry ''X077'' Portability Warning ''NestedDefaultExpansion'',
     rule_entry ''X078'' Portability Warning ''ZshArraySubscriptInCase'',
     rule_entry ''X079'' Portability Warning ''ZshParameterIndexFlag'',
     rule_entry ''X046'' Portability Warning ''ExtglobInTest'',
     rule_entry ''X052'' Portability Warning ''FunctionKeywordInSh'',
     rule_entry ''X058'' Portability Warning ''LexicalComparisonInDoubleBracket'',
     rule_entry ''X059'' Portability Warning ''RegexMatchInSh'',
     rule_entry ''X060'' Portability Warning ''VTestInSh'',
     rule_entry ''X061'' Portability Warning ''ATestInSh'',
     rule_entry ''X063'' Portability Warning ''AmpersandRedirectInSh'',
     rule_entry ''X066'' Portability Warning ''PipeStderrInSh'',
     rule_entry ''X067'' Portability Warning ''HyphenatedFunctionName'',
     rule_entry ''X068'' Portability Warning ''ErrexitTrapInSh'',
     rule_entry ''X069'' Portability Warning ''SignalNameInTrap'',
     rule_entry ''X070'' Portability Warning ''BasePrefixInArithmetic'',
     rule_entry ''X072'' Portability Warning ''UnsetPatternInSh'',
     rule_entry ''X073'' Portability Warning ''OptionTestInSh'',
     rule_entry ''X074'' Portability Warning ''StickyBitTestInSh'',
     rule_entry ''X075'' Portability Warning ''OwnershipTestInSh'',
     rule_entry ''X080'' Portability Warning ''SourceInsideFunctionInSh'',
     rule_entry ''K001'' Security Warning ''RmGlobOnVariablePath'',
     rule_entry ''K002'' Security Warning ''SshLocalExpansion'',
     rule_entry ''K003'' Security Warning ''EvalOnArray'',
     rule_entry ''K004'' Security Warning ''FindExecDirWithShell'',
     rule_entry ''K006'' Security Warning ''RmRootishTarget'',
     rule_entry ''K007'' Security Warning ''ChmodWorldWritableSensitivePath'',
     rule_entry ''K008'' Security Warning ''ForkBombPattern'',
     rule_entry ''S001'' Style Warning ''UnquotedExpansion'',
     rule_entry ''S002'' Style Warning ''ReadWithoutRaw'',
     rule_entry ''S003'' Style Warning ''LoopFromCommandOutput'',
     rule_entry ''S004'' Style Warning ''UnquotedCommandSubstitution'',
     rule_entry ''S005'' Style Warning ''LegacyBackticks'',
     rule_entry ''S006'' Style Warning ''LegacyArithmeticExpansion'',
     rule_entry ''S007'' Style Warning ''PrintfFormatVariable'',
     rule_entry ''S008'' Style Warning ''UnquotedArrayExpansion'',
     rule_entry ''S009'' Style Warning ''EchoedCommandSubstitution'',
     rule_entry ''S010'' Style Warning ''ExportCommandSubstitution'',
     rule_entry ''S011'' Style Warning ''CompoundTestOperator'',
     rule_entry ''S012'' Style Warning ''PsGrepPipeline'',
     rule_entry ''S013'' Style Warning ''LsGrepPipeline'',
     rule_entry ''S014'' Style Warning ''UnquotedDollarStar'',
     rule_entry ''S015'' Style Warning ''QuotedDollarStarLoop'',
     rule_entry ''S017'' Style Warning ''UnquotedArraySplit'',
     rule_entry ''S018'' Style Warning ''CommandOutputArraySplit'',
     rule_entry ''S021'' Style Warning ''PositionalArgsInString'',
     rule_entry ''S020'' Style Warning ''SingleIterationLoop'',
     rule_entry ''S032'' Style Warning ''BareCommandNameAssignment'',
     rule_entry ''S036'' Style Warning ''BareRead'',
     rule_entry ''S037'' Style Warning ''RedundantSpacesInEcho'',
     rule_entry ''S038'' Style Warning ''RedundantReturnStatus'',
     rule_entry ''S044'' Style Warning ''EchoToSedSubstitution'',
     rule_entry ''S050'' Style Hint ''UnquotedWordBetweenQuotes'',
     rule_entry ''S051'' Style Warning ''UnquotedTrClass'',
     rule_entry ''S052'' Style Warning ''UnquotedVariableInTest'',
     rule_entry ''S054'' Style Warning ''SuWithoutFlag'',
     rule_entry ''S055'' Style Warning ''GlobAssignedToVariable'',
     rule_entry ''S056'' Style Warning ''CommandSubstitutionInAlias'',
     rule_entry ''S057'' Style Warning ''FunctionInAlias'',
     rule_entry ''S058'' Style Warning ''UnquotedPathInMkdir'',
     rule_entry ''S059'' Style Warning ''DeprecatedTempfileCommand'',
     rule_entry ''S060'' Style Warning ''EgrepDeprecated'']"

definition declared_rules_5 :: "rule_entry list" where
  "declared_rules_5 =
    [
     rule_entry ''S061'' Style Warning ''FgrepDeprecated'',
     rule_entry ''S062'' Style Warning ''DefaultValueInColonAssign'',
     rule_entry ''S064'' Style Warning ''XargsWithInlineReplace'',
     rule_entry ''S065'' Style Warning ''XPrefixInTest'',
     rule_entry ''S067'' Style Warning ''LeadingGlobInGrepPattern'',
     rule_entry ''S068'' Style Warning ''TrapSignalNumbers'',
     rule_entry ''S069'' Style Hint ''GetoptsInvalidFlagHandler'',
     rule_entry ''S070'' Style Warning ''DoubleQuoteNesting'',
     rule_entry ''S071'' Style Warning ''EnvPrefixCommandOnly'',
     rule_entry ''S076'' Style Warning ''MixedQuoteWord'',
     rule_entry ''S077'' Style Warning ''BraceVariableBeforeBracket'',
     rule_entry ''S049'' Style Warning ''UnquotedTrRange'',
     rule_entry ''S046'' Style Warning ''LsPipedToXargs'',
     rule_entry ''S047'' Style Warning ''LsInSubstitution'',
     rule_entry ''S016'' Style Warning ''EchoInsideCommandSubstitution'',
     rule_entry ''S019'' Style Warning ''GrepOutputInTest'',
     rule_entry ''S022'' Style Hint ''AvoidLetBuiltin'',
     rule_entry ''S033'' Style Warning ''EchoHereDoc'',
     rule_entry ''S034'' Style Warning ''ArrayIndexArithmetic'',
     rule_entry ''S035'' Style Warning ''ArithmeticScoreLine'',
     rule_entry ''S045'' Style Warning ''DollarInArithmetic'',
     rule_entry ''S023'' Style Warning ''EscapedUnderscore'',
     rule_entry ''S024'' Style Warning ''SingleQuoteBackslash'',
     rule_entry ''S025'' Style Warning ''LiteralBackslash'',
     rule_entry ''SH-173'' Style Warning ''BackslashBeforeCommand'',
     rule_entry ''S028'' Style Warning ''SuspectClosingQuote'',
     rule_entry ''S029'' Style Warning ''LiteralBraces'',
     rule_entry ''S030'' Style Warning ''HeredocEndSpace'',
     rule_entry ''S031'' Style Warning ''TrailingDirective'',
     rule_entry ''S039'' Style Warning ''LiteralBackslashInSingleQuotes'',
     rule_entry ''S040'' Style Warning ''LiteralControlEscape'',
     rule_entry ''S041'' Style Warning ''FunctionBodyWithoutBraces'',
     rule_entry ''S066'' Style Warning ''LocalDeclareCombined'',
     rule_entry ''S042'' Style Warning ''IfsEqualsAmbiguity'',
     rule_entry ''S043'' Style Warning ''MissingShebangLine'',
     rule_entry ''S053'' Style Warning ''DuplicateShebangFlag'',
     rule_entry ''S072'' Style Warning ''LinebreakBeforeAnd'',
     rule_entry ''S073'' Style Warning ''SpacedTabstripClose'',
     rule_entry ''S074'' Style Warning ''AmpersandSemicolon'',
     rule_entry ''S075'' Style Warning ''CombineAppends'',
     rule_entry ''S078'' Style Warning ''ShebangShellPolicy'',
     rule_entry ''S079'' Style Warning ''ShebangFormPolicy'',
     rule_entry ''S080'' Style Warning ''ScriptSizeThreshold'',
     rule_entry ''S081'' Style Warning ''MissingFileDescription'',
     rule_entry ''S082'' Style Warning ''TodoFormat'',
     rule_entry ''S083'' Style Warning ''MissingFunctionDoc'',
     rule_entry ''S084'' Style Warning ''FunctionDocContent'',
     rule_entry ''S085'' Style Warning ''MissingMainEntrypoint'']"

definition declared_rules :: "rule_entry list" where
  "declared_rules = declared_rules_1 @ declared_rules_2 @ declared_rules_3 @ declared_rules_4 @ declared_rules_5"

text \<open>\<open>Rule::code\<close>, \<open>Rule::category\<close> and \<open>Rule::default_severity\<close>, and a rule by its name.\<close>

definition rule_code :: "nat \<Rightarrow> byte list" where
  "rule_code r = ascii (re_code (declared_rules ! r))"

definition rule_category :: "nat \<Rightarrow> category" where
  "rule_category r = re_category (declared_rules ! r)"

definition default_severity :: "nat \<Rightarrow> severity" where
  "default_severity r = re_severity (declared_rules ! r)"

definition all_rules :: "nat list" where
  "all_rules = [0..<rule_count]"

definition rule_named :: "string \<Rightarrow> nat" where
  "rule_named name = length (takeWhile (\<lambda>e. re_name e \<noteq> name) declared_rules)"

text \<open>The arms of the \<open>match\<close> on the code, in the order of the table.\<close>

definition canonical_code_to_rule :: "byte list \<Rightarrow> nat option" where
  "canonical_code_to_rule code = find (\<lambda>r. rule_code r = code) all_rules"

definition code_to_rule :: "byte list \<Rightarrow> nat option" where
  "code_to_rule code = canonical_code_to_rule code"

section \<open>Selectors\<close>

datatype named_group = Google

definition named_group_from_name :: "byte list \<Rightarrow> named_group option" where
  "named_group_from_name name = (if name = ascii ''google'' then Some Google else None)"

definition google_rules :: "nat list" where
  "google_rules = map rule_named
     [''UnquotedExpansion'', ''ReadWithoutRaw'', ''UnquotedCommandSubstitution'', ''LegacyBackticks'',
      ''LegacyArithmeticExpansion'', ''UnquotedArrayExpansion'', ''ExportCommandSubstitution'',
      ''UnquotedArraySplit'', ''AvoidLetBuiltin'', ''GetoptsInvalidFlagHandler'', ''UnusedAssignment'',
      ''UncheckedDirectoryChange'', ''UndefinedVariable'', ''ChainedTestBranches'', ''LeadingGlobArgument'',
      ''QuotedArraySlice'', ''QuotedBashSource'']"

definition google_rule_set :: "rule_set option" where
  "google_rule_set = rs_from_rules google_rules"

definition group_rule_set :: "named_group \<Rightarrow> rule_set option" where
  "group_rule_set g = (case g of Google \<Rightarrow> google_rule_set)"

datatype rule_selector = SelectAll | SelectCategory category | SelectNamed named_group | SelectPrefix "byte list" | SelectRule nat

definition into_rule_set :: "rule_selector \<Rightarrow> rule_set option" where
  "into_rule_set selector = (case selector of
       SelectAll \<Rightarrow> rs_all
     | SelectCategory c \<Rightarrow> rs_from_rules (filter (\<lambda>r. rule_category r = c) all_rules)
     | SelectNamed g \<Rightarrow> group_rule_set g
     | SelectPrefix p \<Rightarrow> rs_from_rules (filter (\<lambda>r. starts_with p (rule_code r)) all_rules)
     | SelectRule r \<Rightarrow> rs_from_rules [r])"

datatype selector_error = UnknownSelector "byte list"

definition selector_from_str :: "byte list \<Rightarrow> selector_error + rule_selector" where
  "selector_from_str value =
     (let selector = trim value in
      if selector = ascii ''ALL'' then Inr SelectAll
      else case named_group_from_name selector of
        Some g \<Rightarrow> Inr (SelectNamed g)
      | None \<Rightarrow> (case code_to_rule selector of
          Some r \<Rightarrow> Inr (SelectRule r)
        | None \<Rightarrow> (case category_from_prefix selector of
            Some c \<Rightarrow> Inr (SelectCategory c)
          | None \<Rightarrow> if list_ex (\<lambda>r. starts_with selector (rule_code r)) all_rules then Inr (SelectPrefix selector)
                    else Inl (UnknownSelector selector))))"

section \<open>The rules of a configuration\<close>

definition default_disabled_non_style_rules :: "rule_set option" where
  "default_disabled_non_style_rules = rs_from_rules (map rule_named
     [''ImplicitGlobalInFunction'', ''MutableGlobal'', ''UnanchoredSourcePath'', ''FunctionCalledBeforeDefined''])"

definition default_rules :: "rule_set option" where
  "default_rules = do {
     rules \<leftarrow> rs_from_rules (filter (\<lambda>r. rule_category r \<noteq> Style) all_rules);
     disabled \<leftarrow> default_disabled_non_style_rules;
     Some (rs_subtract rules disabled) }"

text \<open>The rules that \<open>LinterSettings::from_selectors\<close> computes.\<close>

definition rules_from_selectors :: "rule_selector list \<Rightarrow> rule_selector list \<Rightarrow> rule_set option" where
  "rules_from_selectors select ignore = do {
     rules \<leftarrow> fold_opt (\<lambda>s rules. do { chosen \<leftarrow> into_rule_set s; Some (rs_union rules chosen) }) select rs_empty;
     fold_opt (\<lambda>s rules. do { chosen \<leftarrow> into_rule_set s; Some (rs_subtract rules chosen) }) ignore rules }"

section \<open>Facts about the table\<close>

lemma declared_rules_count: "length declared_rules = rule_count"
  by code_simp

text \<open>What the proofs need of every row: its code is made of the letter of its category and then something,
  and has four characters, but for one.\<close>

definition category_letter :: "category \<Rightarrow> char" where
  "category_letter c = (case c of Correctness \<Rightarrow> CHR ''C'' | Style \<Rightarrow> CHR ''S'' | Performance \<Rightarrow> CHR ''P''
     | Portability \<Rightarrow> CHR ''X'' | Security \<Rightarrow> CHR ''K'')"

definition well_named :: "rule_entry \<Rightarrow> bool" where
  "well_named e = (case re_code e of
       [] \<Rightarrow> False
     | c # cs \<Rightarrow> c = category_letter (re_category e) \<and> (re_code e = ''SH-173'' \<or>
         length cs = 3 \<and> list_all (\<lambda>d. d \<in> set ''0123456789'') cs))"

lemma rules_well_named: "list_all well_named declared_rules"
proof -
  have "list_all well_named declared_rules_1"
    by (simp add: declared_rules_1_def well_named_def category_letter_def)
  moreover have "list_all well_named declared_rules_2"
    by (simp add: declared_rules_2_def well_named_def category_letter_def)
  moreover have "list_all well_named declared_rules_3"
    by (simp add: declared_rules_3_def well_named_def category_letter_def)
  moreover have "list_all well_named declared_rules_4"
    by (simp add: declared_rules_4_def well_named_def category_letter_def)
  moreover have "list_all well_named declared_rules_5"
    by (simp add: declared_rules_5_def well_named_def category_letter_def)
  ultimately show ?thesis by (simp add: declared_rules_def)
qed

text \<open>Codes are compared as numbers.\<close>

fun code_key :: "string \<Rightarrow> nat" where
  "code_key [] = 0"
| "code_key (c # cs) = of_char c + 128 * code_key cs"

lemmas table_rows = declared_rules_def declared_rules_1_def declared_rules_2_def declared_rules_3_def
  declared_rules_4_def declared_rules_5_def

lemma keys_distinct: "distinct (map (\<lambda>e. code_key (re_code e)) declared_rules)"
  unfolding table_rows by simp

lemma rules_distinct: "distinct (map re_code declared_rules)"
proof -
  have "map (\<lambda>e. code_key (re_code e)) declared_rules = map code_key (map re_code declared_rules)" by simp
  with keys_distinct show ?thesis by (metis distinct_map)
qed

lemma all_rules_iff [simp]: "r \<in> set all_rules \<longleftrightarrow> r < rule_count"
  by (simp add: all_rules_def)

lemma rule_well_named: "r < rule_count \<Longrightarrow> well_named (declared_rules ! r)"
  using rules_well_named declared_rules_count by (simp add: list_all_length)

lemma ascii_eq [simp]: "ascii s = ascii t \<longleftrightarrow> s = t"
  using inj_ascii by (simp add: inj_eq)

lemma rule_code_inj: "r < rule_count \<Longrightarrow> q < rule_count \<Longrightarrow> rule_code r = rule_code q \<longleftrightarrow> r = q"
  using nth_eq_iff_index_eq[OF rules_distinct, of r q] by (simp add: declared_rules_count rule_code_def)

lemma code_to_rule_iff: "code_to_rule code = Some r \<longleftrightarrow> r < rule_count \<and> rule_code r = code"
proof
  assume "code_to_rule code = Some r"
  then show "r < rule_count \<and> rule_code r = code"
    unfolding code_to_rule_def canonical_code_to_rule_def find_Some_iff by (auto simp: all_rules_def)
next
  assume r: "r < rule_count \<and> rule_code r = code"
  show "code_to_rule code = Some r"
  proof (cases "code_to_rule code")
    case None
    with r show ?thesis unfolding code_to_rule_def canonical_code_to_rule_def find_None_iff by auto
  next
    case (Some q)
    then have "q < rule_count \<and> rule_code q = code"
      unfolding code_to_rule_def canonical_code_to_rule_def find_Some_iff by (auto simp: all_rules_def)
    with r rule_code_inj[of q r] Some show ?thesis by auto
  qed
qed

lemma code_to_rule_none: "code_to_rule code = None \<longleftrightarrow> (\<forall>r < rule_count. rule_code r \<noteq> code)"
  using code_to_rule_iff by (metis not_None_eq option.distinct(1))

text \<open>A code is never the beginning of another.\<close>

lemma starts_with_ascii: "starts_with (ascii s) (ascii t) \<longleftrightarrow> take (length s) t = s"
  by (simp add: starts_with_def ascii_def take_map inj_map_eq_map[OF inj_of_char])

lemma well_named_prefix:
  assumes "well_named e" "well_named f" "take (length (re_code e)) (re_code f) = re_code e"
  shows "re_code e = re_code f"
proof (cases "length (re_code e) = length (re_code f)")
  case True
  then have "take (length (re_code e)) (re_code f) = re_code f" by simp
  with assms(3) show ?thesis by (simp only:)
next
  case False
  have "length (re_code e) = min (length (re_code f)) (length (re_code e))"
    using arg_cong[OF assms(3), of length] by (simp only: length_take)
  with False have shorter: "length (re_code e) < length (re_code f)" by linarith
  have four: "length (re_code x) = 4 \<or> re_code x = ''SH-173''" if "well_named x" for x
    using that by (auto simp: well_named_def split: list.splits)
  from four[OF assms(1)] four[OF assms(2)] shorter have "re_code f = ''SH-173''" "length (re_code e) = 4" by fastforce+
  with assms(3) have "re_code e = ''SH-1''" by simp
  with assms(1) show ?thesis by (simp add: well_named_def)
qed

lemma rule_code_prefix:
  "r < rule_count \<Longrightarrow> q < rule_count \<Longrightarrow> starts_with (rule_code r) (rule_code q) \<longleftrightarrow> r = q"
proof -
  assume r: "r < rule_count" "q < rule_count"
  have "re_code (declared_rules ! r) = re_code (declared_rules ! q)" if "starts_with (rule_code r) (rule_code q)"
    using well_named_prefix[OF rule_well_named[OF r(1)] rule_well_named[OF r(2)]] that
    unfolding rule_code_def starts_with_ascii by blast
  then have "starts_with (rule_code r) (rule_code q) \<Longrightarrow> rule_code r = rule_code q" by (simp only: rule_code_def)
  moreover have "starts_with (rule_code r) (rule_code r)" by (simp add: starts_with_def)
  ultimately show ?thesis using rule_code_inj[OF r] by metis
qed

lemma category_prefix:
  assumes "category_from_prefix s = Some c" "r < rule_count"
  shows "starts_with s (rule_code r) \<longleftrightarrow> rule_category r = c"
proof -
  have s: "s = ascii [category_letter c]"
    using assms(1) by (auto simp: category_from_prefix_def category_letter_def split: if_splits)
  have "starts_with s (rule_code r) \<longleftrightarrow> category_letter (rule_category r) = category_letter c"
    using rule_well_named[OF assms(2)] unfolding s rule_code_def starts_with_ascii
    by (auto simp: well_named_def rule_category_def split: list.splits)
  also have "\<dots> \<longleftrightarrow> rule_category r = c" by (cases "rule_category r"; cases c) (simp_all add: category_letter_def)
  finally show ?thesis .
qed

lemma category_used: "\<exists>r < rule_count. rule_category r = c"
proof -
  have "re_category (declared_rules ! (case c of Correctness \<Rightarrow> 0
  | Style \<Rightarrow> 239
  | Performance \<Rightarrow> 149
  | Portability \<Rightarrow> 153
  | Security \<Rightarrow> 232)) = c"
    by (cases c) (simp_all add: table_rows)
  moreover have "(case c of Correctness \<Rightarrow> 0
  | Style \<Rightarrow> 239
  | Performance \<Rightarrow> 149
  | Portability \<Rightarrow> 153
  | Security \<Rightarrow> 232) < rule_count" by (cases c) (simp_all add: rule_count_def)
  ultimately show ?thesis unfolding rule_category_def by blast
qed

section \<open>What selectors select\<close>

text \<open>The rules of a selector, and when one is well-formed: a rule is one of the table.\<close>

definition selects :: "rule_selector \<Rightarrow> nat \<Rightarrow> bool" where
  "selects selector r = (case selector of
       SelectAll \<Rightarrow> True
     | SelectCategory c \<Rightarrow> rule_category r = c
     | SelectNamed Google \<Rightarrow> r \<in> set google_rules
     | SelectPrefix p \<Rightarrow> starts_with p (rule_code r)
     | SelectRule q \<Rightarrow> r = q)"

definition selector_ok :: "rule_selector \<Rightarrow> bool" where
  "selector_ok selector = (case selector of SelectRule r \<Rightarrow> r < rule_count | _ \<Rightarrow> True)"

text \<open>A name of the table belongs to a row of it.\<close>

lemma rule_named_bounded:
  assumes "k < rule_count" "re_name (declared_rules ! k) = name"
  shows "rule_named name < rule_count"
proof -
  have "declared_rules ! k \<in> set declared_rules" using assms(1) declared_rules_count by simp
  with assms(2) have "takeWhile (\<lambda>e. re_name e \<noteq> name) declared_rules \<noteq> declared_rules"
    by (auto simp: takeWhile_eq_all_conv)
  then have "length (takeWhile (\<lambda>e. re_name e \<noteq> name) declared_rules) \<noteq> length declared_rules"
    using takeWhile_eq_take[of "\<lambda>e. re_name e \<noteq> name" declared_rules] by (metis take_all_iff order_refl)
  moreover have "length (takeWhile (\<lambda>e. re_name e \<noteq> name) declared_rules) \<le> length declared_rules" by (rule length_takeWhile_le)
  ultimately show ?thesis unfolding rule_named_def using declared_rules_count by simp
qed

definition rows_named :: "(nat \<times> string) list" where
  "rows_named =
    [(239, ''UnquotedExpansion''),
     (240, ''ReadWithoutRaw''),
     (242, ''UnquotedCommandSubstitution''),
     (243, ''LegacyBackticks''),
     (244, ''LegacyArithmeticExpansion''),
     (246, ''UnquotedArrayExpansion''),
     (248, ''ExportCommandSubstitution''),
     (254, ''UnquotedArraySplit''),
     (289, ''AvoidLetBuiltin''),
     (279, ''GetoptsInvalidFlagHandler''),
     (0, ''UnusedAssignment''),
     (3, ''UncheckedDirectoryChange''),
     (5, ''UndefinedVariable''),
     (9, ''ChainedTestBranches''),
     (11, ''LeadingGlobArgument''),
     (94, ''QuotedArraySlice''),
     (95, ''QuotedBashSource''),
     (145, ''ImplicitGlobalInFunction''),
     (146, ''MutableGlobal''),
     (147, ''UnanchoredSourcePath''),
     (148, ''FunctionCalledBeforeDefined'')]"

lemma rows_named_ok: "list_all (\<lambda>(k, name). k < rule_count \<and> re_name (declared_rules ! k) = name) rows_named"
  unfolding table_rows rows_named_def by (simp add: rule_count_def)

lemma rows_named_bounded: "list_all (\<lambda>(k, name). rule_named name < rule_count) rows_named"
  using rows_named_ok rule_named_bounded by (fastforce simp: list_all_iff)

lemma google_rules_bounded: "set google_rules \<subseteq> {..<rule_count}"
  using rows_named_bounded by (simp add: google_rules_def rows_named_def)

lemma rs_all_members: "\<exists>s. rs_all = Some s \<and> length (rs_words s) = word_count \<and> members (rs_words s) = {..<rule_count}"
  using rs_from_rules_members[of "[0..<rule_count]"] by (auto simp: rs_all_def atLeast0LessThan simp del: members_iff)

lemma into_rule_set_ok:
  assumes "selector_ok selector"
  shows "\<exists>s. into_rule_set selector = Some s \<and> length (rs_words s) = word_count
    \<and> members (rs_words s) = {r. r < rule_count \<and> selects selector r}"
proof (cases selector)
  case SelectAll
  with rs_all_members show ?thesis by (simp add: into_rule_set_def selects_def lessThan_def del: members_iff)
next
  case (SelectCategory c)
  with rs_from_rules_members[of "filter (\<lambda>r. rule_category r = c) all_rules"] show ?thesis
    by (auto simp: into_rule_set_def selects_def simp del: members_iff)
next
  case (SelectNamed g)
  with rs_from_rules_members[OF google_rules_bounded] google_rules_bounded show ?thesis
    by (cases g) (auto simp: into_rule_set_def group_rule_set_def google_rule_set_def selects_def simp del: members_iff)
next
  case (SelectPrefix p)
  with rs_from_rules_members[of "filter (\<lambda>r. starts_with p (rule_code r)) all_rules"] show ?thesis
    by (auto simp: into_rule_set_def selects_def simp del: members_iff)
next
  case (SelectRule q)
  with rs_from_rules_members[of "[q]"] assms show ?thesis
    by (auto simp: into_rule_set_def selects_def selector_ok_def simp del: members_iff)
qed

lemma rs_iter_members: "members (rs_words s) = {r. r < rule_count \<and> P r} \<Longrightarrow> rs_iter s = filter P all_rules"
  unfolding rs_iter_def all_rules_def rs_contains_eq by (rule filter_cong) auto

lemma fold_selectors:
  assumes "list_all selector_ok selectors" "length (rs_words s) = word_count"
    and "\<And>s t. length (rs_words s) = word_count \<Longrightarrow> length (rs_words t) = word_count \<Longrightarrow>
      length (rs_words (f s t)) = word_count \<and> members (rs_words (f s t)) = F (members (rs_words s)) (members (rs_words t))"
  shows "\<exists>t. fold_opt (\<lambda>selector rules. do { chosen \<leftarrow> into_rule_set selector; Some (f rules chosen) }) selectors s = Some t
    \<and> length (rs_words t) = word_count
    \<and> members (rs_words t) = fold (\<lambda>selector rules. F rules {r. r < rule_count \<and> selects selector r}) selectors (members (rs_words s))"
  using assms(1,2)
proof (induction selectors arbitrary: s)
  case Nil
  then show ?case by simp
next
  case (Cons selector selectors)
  obtain c where c: "into_rule_set selector = Some c" "length (rs_words c) = word_count"
    "members (rs_words c) = {r. r < rule_count \<and> selects selector r}"
    using into_rule_set_ok[of selector] Cons.prems(1) by auto
  have step: "length (rs_words (f s c)) = word_count"
    "members (rs_words (f s c)) = F (members (rs_words s)) {r. r < rule_count \<and> selects selector r}"
    using assms(3)[OF Cons.prems(2) c(2)] unfolding c(3) by blast+
  from Cons.IH[of "f s c"] Cons.prems(1) step c(1) show ?case by simp
qed

lemma fold_union: "fold (\<lambda>x S. S \<union> g x) xs S = S \<union> (\<Union>x \<in> set xs. g x)"
  by (induction xs arbitrary: S) auto

lemma fold_minus: "fold (\<lambda>x S. S - g x) xs S = S - (\<Union>x \<in> set xs. g x)"
  by (induction xs arbitrary: S) auto

section \<open>Properties\<close>

text \<open>The code of a rule and the rule are found from each other: no two rules share a code, every rule of
  the table is found by its code, and a code that is found is the code of that rule.\<close>

theorem codes_round_trip:
  "code_to_rule code = Some r \<longleftrightarrow> r < rule_count \<and> rule_code r = code"
  by (rule code_to_rule_iff)

text \<open>C21: A selector other than \<open>ALL\<close> and \<open>google\<close> selects exactly the rules whose code begins with it, be
  it the letter of a category, a whole code or a part of one; it is refused just when there is no such rule.\<close>

theorem selectors_select_by_prefix:
  assumes "trim s \<noteq> ascii ''ALL''" "trim s \<noteq> ascii ''google''"
  defines "chosen \<equiv> filter (\<lambda>r. starts_with (trim s) (rule_code r)) all_rules"
  shows "case selector_from_str s of
      Inl e \<Rightarrow> e = UnknownSelector (trim s) \<and> chosen = []
    | Inr selector \<Rightarrow> \<exists>rules. into_rule_set selector = Some rules \<and> rs_iter rules = chosen \<and> chosen \<noteq> []"
proof -
  have not_google: "named_group_from_name (trim s) = None" using assms(2) by (simp add: named_group_from_name_def)
  have selected: "\<exists>rules. into_rule_set selector = Some rules \<and> rs_iter rules = chosen"
    if valid: "selector_ok selector" "\<And>r. r < rule_count \<Longrightarrow> selects selector r = starts_with (trim s) (rule_code r)" for selector
  proof -
    obtain rules where "into_rule_set selector = Some rules" "members (rs_words rules) = {r. r < rule_count \<and> selects selector r}"
      using into_rule_set_ok[OF valid(1)] by blast
    moreover from this(2) have "rs_iter rules = filter (selects selector) all_rules" by (rule rs_iter_members)
    moreover have "filter (selects selector) all_rules = chosen"
      unfolding chosen_def by (rule filter_cong) (simp_all add: valid(2))
    ultimately show ?thesis by auto
  qed
  show ?thesis
  proof (cases "code_to_rule (trim s)")
    case (Some q)
    then have q: "q < rule_count" "rule_code q = trim s" by (simp_all add: code_to_rule_iff)
    have parsed: "selector_from_str s = Inr (SelectRule q)" using Some not_google assms(1) by (simp add: selector_from_str_def Let_def)
    have "q \<in> set chosen" using q by (auto simp: chosen_def starts_with_def)
    then have "chosen \<noteq> []" by auto
    moreover have "selects (SelectRule q) r = starts_with (trim s) (rule_code r)" if "r < rule_count" for r
      using rule_code_prefix[OF q(1) that] q(2) by (auto simp: selects_def)
    ultimately show ?thesis using selected[of "SelectRule q"] q(1) parsed by (simp add: selector_ok_def)
  next
    case no_rule: None
    show ?thesis
    proof (cases "category_from_prefix (trim s)")
      case (Some c)
      have parsed: "selector_from_str s = Inr (SelectCategory c)"
        using Some no_rule not_google assms(1) by (simp add: selector_from_str_def Let_def)
      have "\<exists>r < rule_count. rule_category r = c" by (rule category_used)
      then obtain q where "q < rule_count" "rule_category q = c" by blast
      then have "q \<in> set chosen" using category_prefix[OF Some] by (simp add: chosen_def)
      then have "chosen \<noteq> []" by auto
      then show ?thesis
        using selected[of "SelectCategory c"] category_prefix[OF Some] parsed by (simp add: selector_ok_def selects_def)
    next
      case None
      have some: "list_ex (\<lambda>r. starts_with (trim s) (rule_code r)) all_rules \<longleftrightarrow> chosen \<noteq> []"
        by (auto simp: chosen_def list_ex_iff filter_empty_conv)
      show ?thesis
      proof (cases "chosen = []")
        case True
        then have "selector_from_str s = Inl (UnknownSelector (trim s))"
          using None no_rule not_google assms(1) some by (simp add: selector_from_str_def Let_def)
        with True show ?thesis by simp
      next
        case False
        then have "selector_from_str s = Inr (SelectPrefix (trim s))"
          using None no_rule not_google assms(1) some by (simp add: selector_from_str_def Let_def)
        with False selected[of "SelectPrefix (trim s)"] show ?thesis by (simp add: selector_ok_def selects_def)
      qed
    qed
  qed
qed

text \<open>C22: A configuration enables the rules that some selector selects and no exclusion does, and those only.\<close>

theorem configuration_selects_rules:
  assumes "list_all selector_ok select" "list_all selector_ok ignore"
  shows "\<exists>rules. rules_from_selectors select ignore = Some rules
    \<and> rs_iter rules = filter (\<lambda>r. list_ex (\<lambda>s. selects s r) select \<and> \<not> list_ex (\<lambda>s. selects s r) ignore) all_rules"
proof -
  have "length (rs_words rs_empty) = word_count" "members (rs_words rs_empty) = {}" by (auto simp: rs_empty_def)
  then obtain chosen where chosen: "fold_opt (\<lambda>s rules. do { c \<leftarrow> into_rule_set s; Some (rs_union rules c) }) select rs_empty = Some chosen"
    "length (rs_words chosen) = word_count" "members (rs_words chosen) = (\<Union>s \<in> set select. {r. r < rule_count \<and> selects s r})"
    using fold_selectors[OF assms(1), of rs_empty rs_union "\<lambda>S T. S \<union> T"] rs_union_members unfolding fold_union by auto
  obtain rules where rules: "fold_opt (\<lambda>s rules. do { c \<leftarrow> into_rule_set s; Some (rs_subtract rules c) }) ignore chosen = Some rules"
    "members (rs_words rules) = members (rs_words chosen) - (\<Union>s \<in> set ignore. {r. r < rule_count \<and> selects s r})"
    using fold_selectors[OF assms(2) chosen(2), of rs_subtract "\<lambda>S T. S - T"] rs_subtract_members unfolding fold_minus by auto
  have "members (rs_words rules) = {r. r < rule_count \<and> (list_ex (\<lambda>s. selects s r) select \<and> \<not> list_ex (\<lambda>s. selects s r) ignore)}"
    unfolding rules(2) chosen(3) by (auto simp: list_ex_iff)
  from rs_iter_members[OF this] chosen(1) rules(1) show ?thesis by (simp add: rules_from_selectors_def)
qed

theorem configuration_selects_rules_witness:
  "\<exists>rules. rules_from_selectors [SelectAll] [SelectNamed Google, SelectRule 320] = Some rules
     \<and> rs_iter rules = filter (\<lambda>r. \<not> (r \<in> set google_rules \<or> r = 320)) all_rules"
  using configuration_selects_rules[of "[SelectAll]" "[SelectNamed Google, SelectRule 320]"]
  by (simp add: selector_ok_def selects_def rule_count_def)

theorem selectors_select_by_prefix_witness:
  "selector_from_str (ascii '' K '') = Inr (SelectCategory Security)
     \<and> (\<exists>rules. into_rule_set (SelectCategory Security) = Some rules
         \<and> rs_iter rules = filter (\<lambda>r. starts_with (ascii ''K'') (rule_code r)) all_rules)"
proof -
  let ?s = "ascii '' K ''"
  have bytes: "?s = 32 # [75] @ [32]" "ascii ''K'' = [75]" by (simp_all add: ascii_def)
  have "trim_end [75, 32] = trim_end [75]" using trim_end_white[of 32 "[75]"] by (simp add: ascii_white_def)
  then have trimmed: "trim ?s = ascii ''K''"
    unfolding bytes using trim_end_blacks(1)[of "[75]"] by (simp add: trim_def ascii_white_def black_def)
  have "code_to_rule (ascii ''K'') = None"
    using rule_well_named by (fastforce simp: code_to_rule_none rule_code_def well_named_def split: list.splits)
  then have parsed: "selector_from_str ?s = Inr (SelectCategory Security)"
    by (simp add: selector_from_str_def trimmed Let_def named_group_from_name_def category_from_prefix_def)
  have "trim ?s \<noteq> ascii ''ALL''" "trim ?s \<noteq> ascii ''google''" unfolding trimmed by simp_all
  from selectors_select_by_prefix[OF this] parsed show ?thesis unfolding trimmed by auto
qed

end
