(* ===== verification/Suppression_Directives.thy ===== *)
theory Suppression_Directives
  imports Suppression_Index Rule_Registry Line_Index
begin

text \<open>
  Model of \<open>crates/shucked-linter/src/suppression/directive.rs\<close> and \<open>shellcheck_map.rs\<close>: how the comments
  of a file are read as directives.  A comment is \<open># shucked: action=codes # reason\<close> or
  \<open># shellcheck disable=codes\<close>; a code is one of shucked's or of ShellCheck's, which one table translates.
  That table is written by the build script from the metadata of the rules and is a parameter here.
  Whether a directive behind code belongs to a command is decided on the syntax tree and not modelled.
\<close>

section \<open>The codes of ShellCheck\<close>

record shellcheck_code_map =
  sc_to_rule :: "nat \<rightharpoonup> nat"
  rule_to_sc :: "nat \<rightharpoonup> nat"
  suppression_aliases :: "(nat \<times> nat) list"

definition suppression_alias_codes :: "(nat \<times> nat) list" where
  "suppression_alias_codes =
    [(2268, rule_named ''BackslashBeforeCommand''),
     (2250, rule_named ''PatternWithVariable''),
     (2350, rule_named ''XargsWithInlineReplace''),
     (2316, rule_named ''BacktickInCommandPosition''),
     (2362, rule_named ''LocalDeclareCombined''),
     (2321, rule_named ''FunctionKeywordInSh''),
     (2234, rule_named ''SingleTestSubshell''),
     (2351, rule_named ''XPrefixInTest''),
     (3084, rule_named ''SourceInsideFunctionInSh''),
     (2365, rule_named ''UnreachableAfterExit'')]"

text \<open>A row of the generated table \<open>RULE_SHELLCHECK_CODES\<close>; the two assertions panic on a duplicate.\<close>

definition add_shellcheck_code ::
  "byte list \<times> nat \<Rightarrow> (nat \<rightharpoonup> nat) \<times> (nat \<rightharpoonup> nat) \<Rightarrow> ((nat \<rightharpoonup> nat) \<times> (nat \<rightharpoonup> nat)) option" where
  "add_shellcheck_code row maps = (case code_to_rule (fst row) of
       None \<Rightarrow> Some maps
     | Some rule \<Rightarrow>
         if fst maps (snd row) \<noteq> None then None
         else if snd maps rule \<noteq> None then None
         else Some ((fst maps)(snd row \<mapsto> rule), (snd maps)(rule \<mapsto> snd row)))"

definition shellcheck_map_default :: "(byte list \<times> nat) list \<Rightarrow> shellcheck_code_map option" where
  "shellcheck_map_default rule_shellcheck_codes = do {
     maps \<leftarrow> fold_opt add_shellcheck_code rule_shellcheck_codes (Map.empty, Map.empty);
     Some \<lparr>sc_to_rule = fst maps, rule_to_sc = snd maps, suppression_aliases = suppression_alias_codes\<rparr> }"

definition code_for_rule :: "shellcheck_code_map \<Rightarrow> nat \<Rightarrow> nat option" where
  "code_for_rule m rule = rule_to_sc m rule"

definition sc_parse_code :: "byte list \<Rightarrow> nat option" where
  "sc_parse_code code =
     parse_u32 (case strip_prefix (ascii ''SC'') code of
         Some rest \<Rightarrow> rest
       | None \<Rightarrow> (case strip_prefix (ascii ''sc'') code of Some rest \<Rightarrow> rest | None \<Rightarrow> code))"

definition sc_resolve :: "shellcheck_code_map \<Rightarrow> byte list \<Rightarrow> nat option" where
  "sc_resolve m code = Option.bind (sc_parse_code code) (sc_to_rule m)"

definition push_alias :: "nat \<Rightarrow> nat \<times> nat \<Rightarrow> nat list \<Rightarrow> nat list" where
  "push_alias number alias rules =
     (if fst alias = number \<and> snd alias \<notin> set rules then rules @ [snd alias] else rules)"

definition sc_resolve_all :: "shellcheck_code_map \<Rightarrow> byte list \<Rightarrow> nat list" where
  "sc_resolve_all m code = (case sc_parse_code code of
       None \<Rightarrow> []
     | Some number \<Rightarrow> fold (push_alias number) (suppression_aliases m)
         (case sc_to_rule m number of Some rule \<Rightarrow> [rule] | None \<Rightarrow> []))"

section \<open>Reading codes and actions\<close>

definition resolve_rule_code :: "byte list \<Rightarrow> nat option" where
  "resolve_rule_code code = (case code_to_rule code of
       Some rule \<Rightarrow> Some rule
     | None \<Rightarrow> (let upper = to_ascii_uppercase code in if upper \<noteq> code then code_to_rule upper else None))"

definition push_rule :: "nat \<Rightarrow> nat list \<Rightarrow> nat list" where
  "push_rule rule rules = (if rule \<notin> set rules then rules @ [rule] else rules)"

definition resolve_suppression_code :: "shellcheck_code_map \<Rightarrow> byte list \<Rightarrow> nat list" where
  "resolve_suppression_code m code =
     fold push_rule (sc_resolve_all m code) (case resolve_rule_code code of Some rule \<Rightarrow> [rule] | None \<Rightarrow> [])"

definition parse_code :: "(byte list \<Rightarrow> nat list) \<Rightarrow> byte list \<Rightarrow> nat list" where
  "parse_code resolve part = (let code = trim part in if code = [] then [] else resolve code)"

definition parse_codes :: "(byte list \<Rightarrow> nat list) \<Rightarrow> byte list \<Rightarrow> nat list" where
  "parse_codes resolve value = concat (map (parse_code resolve) (split_on 44 value))"

definition parse_shuck_action :: "byte list \<Rightarrow> suppression_action option" where
  "parse_shuck_action value =
     (if eq_ignore_ascii_case value (ascii ''disable'') then Some Disable
      else if eq_ignore_ascii_case value (ascii ''disable-file'') then Some DisableFile
      else if eq_ignore_ascii_case value (ascii ''ignore'') then Some Ignore
      else None)"

section \<open>Reading comments\<close>

record normalized_comment =
  nc_text :: "byte list"
  nc_range :: text_range
  nc_line :: nat
  nc_own_line :: bool

record indexed_comment =
  ic_range :: text_range
  ic_line :: nat
  ic_own_line :: bool

definition strip_comment_prefix :: "byte list \<Rightarrow> byte list" where
  "strip_comment_prefix text = trim_start (dropWhile (\<lambda>b. b = 35) (trim_start text))"

definition strip_prefix_ignore_ascii_case :: "byte list \<Rightarrow> byte list \<Rightarrow> byte list option" where
  "strip_prefix_ignore_ascii_case text prefix = do {
     candidate \<leftarrow> str_get text 0 (length prefix);
     if eq_ignore_ascii_case candidate prefix then Some (drop (length prefix) text) else None }"

text \<open>\<open>is_ascii_whitespace\<close> of the first character is that of the first byte.\<close>

definition shellcheck_comment_remainder :: "byte list \<Rightarrow> byte list option" where
  "shellcheck_comment_remainder comment_text = do {
     remainder \<leftarrow> strip_prefix_ignore_ascii_case (strip_comment_prefix comment_text) (ascii ''shellcheck'');
     case remainder of
       [] \<Rightarrow> Some remainder
     | first # _ \<Rightarrow> if \<not> is_ascii_whitespace first then None else Some remainder }"

definition parse_shuck_directive :: "shellcheck_code_map \<Rightarrow> normalized_comment \<Rightarrow> suppression_directive option" where
  "parse_shuck_directive m comment = do {
     remainder \<leftarrow> strip_prefix_ignore_ascii_case (strip_comment_prefix (nc_text comment)) (ascii ''shucked:'');
     let remainder = (case split_once 35 remainder of None \<Rightarrow> remainder | Some (before, _) \<Rightarrow> before);
     (action, codes) \<leftarrow> split_once 61 remainder;
     action \<leftarrow> parse_shuck_action (trim action);
     let codes = parse_codes (resolve_suppression_code m) codes;
     if codes = [] then None
     else Some \<lparr>sd_action = action, sd_source = FromShuck, sd_codes = codes, sd_range = nc_range comment, sd_line = nc_line comment\<rparr> }"

definition shellcheck_code :: "shellcheck_code_map \<Rightarrow> byte list \<Rightarrow> nat list" where
  "shellcheck_code m part =
     (let code = trim part in
      if code = [] then []
      else if eq_ignore_ascii_case code (ascii ''all'') then all_rules
      else resolve_suppression_code m code)"

definition shellcheck_part :: "shellcheck_code_map \<Rightarrow> byte list \<Rightarrow> nat list" where
  "shellcheck_part m part = (case strip_prefix_ignore_ascii_case part (ascii ''disable='') of
       None \<Rightarrow> []
     | Some codes \<Rightarrow> concat (map (shellcheck_code m) (split_on 44 codes)))"

definition parse_shellcheck_directive :: "shellcheck_code_map \<Rightarrow> normalized_comment \<Rightarrow> suppression_directive option" where
  "parse_shellcheck_directive m comment = do {
     remainder \<leftarrow> shellcheck_comment_remainder (nc_text comment);
     let codes = concat (map (shellcheck_part m) (split_ascii_whitespace remainder));
     if codes = [] then None
     else Some \<lparr>sd_action = Disable, sd_source = FromShellCheck, sd_codes = codes, sd_range = nc_range comment, sd_line = nc_line comment\<rparr> }"

section \<open>Comments of a file\<close>

definition abs_diff :: "nat \<Rightarrow> nat \<Rightarrow> nat" where
  "abs_diff a b = (if a < b then b - a else a - b)"

definition marker_key_less :: "nat \<Rightarrow> nat \<Rightarrow> nat \<Rightarrow> nat \<Rightarrow> bool" where
  "marker_key_less start finish i j \<longleftrightarrow>
     ordering_then (rust_cmp (abs_diff i start) (abs_diff j start))
       (ordering_then (rust_cmp (of_bool (i < start) :: nat) (of_bool (j < start)))
         (rust_cmp (abs_diff i finish) (abs_diff j finish))) = Less"

definition find_comment_marker :: "byte list \<Rightarrow> nat \<Rightarrow> nat \<Rightarrow> nat option" where
  "find_comment_marker line start finish =
     min_by (marker_key_less start finish) (filter (\<lambda>i. line ! i = 35) [0..<length line])"

definition is_horizontal_whitespace :: "byte list \<Rightarrow> bool" where
  "is_horizontal_whitespace text \<longleftrightarrow> list_all (\<lambda>b. b = 32 \<or> b = 9 \<or> b = 13) text"

text \<open>The outer \<open>None\<close> is the panic of a slice of the source off a character boundary.\<close>

definition normalize_comment :: "byte list \<Rightarrow> indexed_comment \<Rightarrow> normalized_comment option option" where
  "normalize_comment source comment = do {
     let start = min (unat (r_start (ic_range comment))) (length source);
     let finish = min (unat (r_end (ic_range comment))) (length source);
     before \<leftarrow> str_get source 0 start;
     let line_start = (case rfind_byte 10 before of None \<Rightarrow> 0 | Some i \<Rightarrow> i + 1);
     after \<leftarrow> str_get source finish (length source);
     let line_end = (case find_byte 10 after of None \<Rightarrow> length source | Some i \<Rightarrow> finish + i);
     line \<leftarrow> str_get source line_start line_end;
     let relative_start = min (start - line_start) (length line);
     let relative_end = min (finish - line_start) (length line);
     case find_comment_marker line relative_start relative_end of
       None \<Rightarrow> Some None
     | Some marker \<Rightarrow> do {
         let comment_start = line_start + marker;
         text \<leftarrow> str_get source comment_start line_end;
         leading \<leftarrow> str_get source line_start comment_start;
         Some (case to_u32 (ic_line comment) of
             None \<Rightarrow> None
           | Some number \<Rightarrow> Some \<lparr>nc_text = text, nc_range = range_new (word_of_nat comment_start) (word_of_nat line_end),
               nc_line = number, nc_own_line = is_horizontal_whitespace leading\<rparr>) } }"

definition read_comment :: "byte list \<Rightarrow> shellcheck_code_map \<Rightarrow> indexed_comment \<Rightarrow> suppression_directive list \<Rightarrow> suppression_directive list option" where
  "read_comment source m comment directives = do {
     normalized \<leftarrow> normalize_comment source comment;
     Some (case normalized of
         None \<Rightarrow> directives
       | Some c \<Rightarrow> (case parse_shuck_directive m c of
           Some d \<Rightarrow> directives @ [d]
         | None \<Rightarrow> (case parse_shellcheck_directive m c of Some d \<Rightarrow> directives @ [d] | None \<Rightarrow> directives))) }"

definition parse_directives :: "byte list \<Rightarrow> indexed_comment list \<Rightarrow> shellcheck_code_map \<Rightarrow> suppression_directive list option" where
  "parse_directives source comments m = do {
     directives \<leftarrow> fold_opt (read_comment source m) comments [];
     Some (sort_by compare_directives directives) }"

definition comment_may_need_inline_attachment :: "byte list \<Rightarrow> bool" where
  "comment_may_need_inline_attachment text =
     (case strip_prefix_ignore_ascii_case (strip_comment_prefix text) (ascii ''shucked:'') of
        Some remainder \<Rightarrow> (case split_once 61 remainder of
            None \<Rightarrow> False
          | Some (action, _) \<Rightarrow> parse_shuck_action (trim action) = Some Disable)
      | None \<Rightarrow> (case shellcheck_comment_remainder text of
            None \<Rightarrow> False
          | Some remainder \<Rightarrow> list_ex (\<lambda>part. strip_prefix_ignore_ascii_case part (ascii ''disable='') \<noteq> None)
              (split_ascii_whitespace remainder)))"

section \<open>Reading back the codes of rules\<close>

lemma trim_start_whites [simp]: "list_all ascii_white v \<Longrightarrow> trim_start (v @ s) = trim_start s"
  by (induction v) auto

lemma trim_end_whites [simp]: "list_all ascii_white w \<Longrightarrow> trim_end (s @ w) = trim_end s"
proof (induction w rule: rev_induct)
  case (snoc b w)
  then show ?case using trim_end_white[of b "s @ w"] by simp
qed simp

lemma trim_padded:
  assumes "list_all ascii_white v" "list_all ascii_white w" "list_all black c"
  shows "trim (v @ c @ w) = c"
proof (cases c)
  case Nil
  have "trim_start (w @ []) = trim_start []" using assms(2) by (rule trim_start_whites)
  with Nil assms(1) show ?thesis by (simp add: trim_def)
next
  case (Cons b c')
  with assms(3) have "trim_start (c @ w) = c @ w" by simp
  with assms show ?thesis by (simp add: trim_def trim_end_blacks)
qed

text \<open>What codes are made of: printable ASCII without the separators.\<close>

definition plain :: "byte \<Rightarrow> bool" where
  "plain b \<longleftrightarrow> 33 \<le> b \<and> b < 128 \<and> b \<notin> {35, 44, 61}"

lemma plain_black: "plain b \<Longrightarrow> black b"
  by (auto simp: plain_def black_def ascii_white_def)

lemma plains: "list_all plain s \<Longrightarrow> list_all black s \<and> 35 \<notin> set s \<and> 44 \<notin> set s \<and> 61 \<notin> set s"
  by (auto simp: list_all_iff plain_black plain_def)

lemma code_digits: "list_all (\<lambda>d. d \<in> set ''0123456789'') cs \<Longrightarrow> list_all (\<lambda>b. 48 \<le> b \<and> b \<le> 57) (ascii cs)"
  by (induction cs) (auto simp: ascii_def)

lemma rule_code_shape:
  assumes "r < rule_count"
  obtains c d cs where "rule_code r = c # d # cs" "c \<in> {67, 83, 80, 88, 75}" "48 \<le> d \<and> d \<le> 57 \<or> d = 72" "list_all plain (rule_code r)"
proof -
  obtain c cs where code: "re_code (declared_rules ! r) = c # cs" "c = category_letter (re_category (declared_rules ! r))"
    "c # cs = ''SH-173'' \<or> length cs = 3 \<and> list_all (\<lambda>d. d \<in> set ''0123456789'') cs"
    using rule_well_named[OF assms] by (auto simp: well_named_def split: list.splits)
  have letter: "of_char c \<in> {67, 83, 80, 88, 75 :: nat}"
    unfolding code(2) by (cases "re_category (declared_rules ! r)") (simp_all add: category_letter_def)
  from code(3) show ?thesis
  proof
    assume "c # cs = ''SH-173''"
    then have "rule_code r = [83, 72, 45, 49, 55, 51]" using code(1) by (simp add: rule_code_def ascii_def)
    then show ?thesis by (rule that) (simp_all add: \<open>rule_code r = _\<close> plain_def)
  next
    assume digits: "length cs = 3 \<and> list_all (\<lambda>d. d \<in> set ''0123456789'') cs"
    then obtain d ds where cs: "ascii cs = d # ds" by (cases cs) (auto simp: ascii_def)
    have "list_all (\<lambda>b. 48 \<le> b \<and> b \<le> 57) (ascii cs)" using digits code_digits by blast
    moreover have "rule_code r = of_char c # ascii cs" using code(1) by (simp add: rule_code_def ascii_def)
    moreover have "plain (of_char c)" using letter by (auto simp: plain_def)
    moreover have "list_all plain (ascii cs)" using calculation(1) by (auto simp: list_all_iff plain_def)
    ultimately show ?thesis using that[of "of_char c" d ds] letter cs by auto
  qed
qed

lemma rule_code_plain: "r < rule_count \<Longrightarrow> list_all plain (rule_code r)" and rule_code_nonempty: "r < rule_count \<Longrightarrow> rule_code r \<noteq> []"
  by (auto elim: rule_code_shape)

lemma sc_parse_rule_code:
  assumes "r < rule_count"
  shows "sc_parse_code (rule_code r) = None"
proof -
  obtain c d cs where code: "rule_code r = c # d # cs" "c \<in> {67, 83, 80, 88, 75}" "48 \<le> d \<and> d \<le> 57 \<or> d = 72"
    using assms by (rule rule_code_shape)
  have "strip_prefix (ascii ''SC'') (rule_code r) = None" "strip_prefix (ascii ''sc'') (rule_code r) = None"
    using code by (auto simp: strip_prefix_def starts_with_def ascii_def)
  moreover have "parse_u32 (rule_code r) = None" using code by (auto simp: parse_u32_def digit_step_def)
  ultimately show ?thesis by (simp add: sc_parse_code_def)
qed

lemma resolve_rule_code_back: "r < rule_count \<Longrightarrow> resolve_suppression_code m (rule_code r) = [r]"
  using code_to_rule_iff[of "rule_code r" r] sc_parse_rule_code[of r]
  by (simp add: resolve_suppression_code_def resolve_rule_code_def sc_resolve_all_def)

lemma str_get_prefix:
  assumes "s = [] \<or> hd s < 128"
  shows "str_get (p @ s) 0 (length p) = Some p"
  using assms by (cases s) (auto simp: str_get_def is_char_boundary_def nth_append)

lemma strip_prefix_exact:
  assumes "s = [] \<or> hd s < 128"
  shows "strip_prefix_ignore_ascii_case (p @ s) p = Some s"
  using str_get_prefix[OF assms] by (simp add: strip_prefix_ignore_ascii_case_def eq_ignore_ascii_case_def)

lemma split_on_append: "c \<notin> set s \<Longrightarrow> split_on c (s @ c # t) = s # split_on c t"
  unfolding split_on_def by (rule split_by_append) (auto simp: list_all_iff)

lemma split_on_none: "c \<notin> set s \<Longrightarrow> split_on c s = [s]"
  unfolding split_on_def by (rule split_by_none) (auto simp: list_all_iff)

lemma parse_code_padded:
  assumes "list_all ascii_white v" "list_all ascii_white w" "list_all black c" "c \<noteq> []"
  shows "parse_code resolve (v @ c @ w) = resolve c"
  using trim_padded[OF assms(1,2,3)] assms(4) by (simp add: parse_code_def Let_def)

end
