(* ===== verification/Ignore_Rewrite.thy ===== *)
theory Ignore_Rewrite
  imports Suppression_Directives
begin

text \<open>
  Model of \<open>crates/shucked-linter/src/suppression/rewrite.rs\<close>, the command \<open>--add-ignore\<close>: for every line
  with a diagnostic it writes a directive that ignores the rules of the line, or extends the one that is
  there, analyses the file again, and keeps the edit when just the diagnostics of the line have gone.  The
  analysis itself, which parses the file and runs the rules, is a parameter, as are the settings and how an
  edit changes them (it moves the ranges of a table about the whole workspace).  A diagnostic has a severity
  and fixes besides, which nothing here reads.
\<close>

section \<open>What the analysis of a file yields\<close>

record diagnostic =
  dg_rule :: nat
  dg_span :: span
  dg_message :: "byte list"

record add_ignore_parse_error =
  pe_message :: "byte list"
  pe_line :: nat
  pe_column :: nat

record analyzed_source =
  an_directives :: "suppression_directive list"
  an_diagnostics :: "diagnostic list"
  an_strict_parse_error :: "add_ignore_parse_error option"
  an_parse_error :: "add_ignore_parse_error option"
  an_line_index :: line_index

record ignore_edit =
  ie_range :: text_range
  ie_replacement :: "byte list"

section \<open>Writing a directive\<close>

definition directive_matches_ignore_line :: "nat \<Rightarrow> suppression_directive \<Rightarrow> bool" where
  "directive_matches_ignore_line line d \<longleftrightarrow> sd_line d = line
     \<and> (sd_source d = FromShuck \<and> sd_action d = Ignore \<or> sd_source d = FromShellCheck \<and> sd_action d = Disable)"

definition compare_codes :: "nat \<Rightarrow> nat \<Rightarrow> rust_ordering" where
  "compare_codes r q = rust_cmp (rule_code r) (rule_code q)"

text \<open>Sorting by code and removing repetitions.  The unstable sort is determined: rules with one code are one.\<close>

definition sort_rules :: "nat list \<Rightarrow> nat list" where
  "sort_rules rules = remdups_adj (sort_by compare_codes rules)"

fun join_codes :: "nat list \<Rightarrow> byte list" where
  "join_codes [] = []"
| "join_codes [r] = rule_code r"
| "join_codes (r # rules) = rule_code r @ ascii '', '' @ join_codes rules"

definition shellcheck_code_text :: "shellcheck_code_map \<Rightarrow> nat \<Rightarrow> byte list" where
  "shellcheck_code_text m r = (case code_for_rule m r of
       Some code \<Rightarrow> ascii ''SC'' @ show_padded 4 code
     | None \<Rightarrow> rule_code r)"

fun join_shellcheck_codes :: "shellcheck_code_map \<Rightarrow> nat list \<Rightarrow> byte list" where
  "join_shellcheck_codes m [] = []"
| "join_shellcheck_codes m [r] = shellcheck_code_text m r"
| "join_shellcheck_codes m (r # rules) = shellcheck_code_text m r @ ascii '', '' @ join_shellcheck_codes m rules"

text \<open>The remainder after \<open>shellcheck\<close>, which here may go on with any character.\<close>

definition loose_shellcheck_remainder :: "byte list \<Rightarrow> byte list option" where
  "loose_shellcheck_remainder text = strip_prefix_ignore_ascii_case (strip_comment_prefix text) (ascii ''shellcheck'')"

definition split_reason :: "byte list \<Rightarrow> byte list \<times> byte list option" where
  "split_reason remainder = (case split_once 35 remainder of
       None \<Rightarrow> (remainder, None)
     | Some (before, after) \<Rightarrow> (before, Some (trim after)))"

definition nonempty_reason :: "byte list option \<Rightarrow> byte list option" where
  "nonempty_reason reason = (case reason of Some r \<Rightarrow> if r = [] then None else Some r | None \<Rightarrow> None)"

definition existing_ignore_reason :: "shellcheck_code_map \<Rightarrow> byte list \<Rightarrow> byte list option" where
  "existing_ignore_reason m comment_text =
     (case strip_prefix_ignore_ascii_case (strip_comment_prefix comment_text) (ascii ''shucked:'') of
        Some remainder \<Rightarrow>
          (let (without_reason, reason) = split_reason remainder in
           case split_once 61 without_reason of
             None \<Rightarrow> None
           | Some (action, codes) \<Rightarrow>
               if parse_shuck_action (trim action) \<noteq> Some Ignore \<or> parse_codes (resolve_suppression_code m) codes = [] then None
               else nonempty_reason reason)
      | None \<Rightarrow> (case loose_shellcheck_remainder comment_text of
            None \<Rightarrow> None
          | Some remainder \<Rightarrow>
              (let (without_reason, reason) = split_reason remainder;
                   has_disable_codes = list_ex (\<lambda>part. case strip_prefix_ignore_ascii_case part (ascii ''disable='') of
                       None \<Rightarrow> False
                     | Some codes \<Rightarrow> parse_codes (resolve_suppression_code m) codes \<noteq> []) (split_ascii_whitespace without_reason)
               in if has_disable_codes then nonempty_reason reason else None)))"

definition preserve_trailing_carriage_return :: "byte list \<Rightarrow> byte list \<Rightarrow> byte list" where
  "preserve_trailing_carriage_return existing replacement =
     (if ends_with [13] existing then replacement @ [13] else replacement)"

text \<open>The outer \<open>None\<close> is the panic of an index out of range.\<close>

definition inline_comment_insertion_offset :: "text_range \<Rightarrow> byte list \<Rightarrow> u32 option" where
  "inline_comment_insertion_offset extent source =
     (if unat (r_start extent) < unat (r_end extent)
      then do {
        b \<leftarrow> nth_opt source (unat (r_end extent) - 1);
        Some (if b = 13 then r_end extent - 1 else r_end extent) }
      else Some (r_end extent))"

definition line_ends_with_continuation :: "text_range \<Rightarrow> byte list \<Rightarrow> bool" where
  "line_ends_with_continuation extent source =
     (let text = range_slice extent source in
      ends_with [92] (case strip_suffix [13] text of Some t \<Rightarrow> t | None \<Rightarrow> text))"

definition comment_reason :: "byte list \<Rightarrow> shellcheck_code_map \<Rightarrow> byte list option \<Rightarrow> suppression_directive option \<Rightarrow> byte list option" where
  "comment_reason source m reason existing =
     (case nonempty_reason (map_option trim (nonempty_reason reason)) of
        Some r \<Rightarrow> Some r
      | None \<Rightarrow> Option.bind existing (\<lambda>d. existing_ignore_reason m (range_slice (sd_range d) source)))"

definition ignore_comment :: "shellcheck_code_map \<Rightarrow> suppression_source option \<Rightarrow> nat list \<Rightarrow> byte list option \<Rightarrow> byte list" where
  "ignore_comment m origin rules reason =
     (case origin of
        Some FromShellCheck \<Rightarrow> ascii ''# shellcheck disable='' @ join_shellcheck_codes m rules
      | _ \<Rightarrow> ascii ''# shucked: ignore='' @ join_codes rules)
     @ (case reason of None \<Rightarrow> [] | Some r \<Rightarrow> ascii '' # '' @ r)"

definition merged_rules :: "suppression_directive option \<Rightarrow> diagnostic list \<Rightarrow> nat list" where
  "merged_rules existing diagnostics =
     sort_rules (fold push_rule (sort_rules (map dg_rule diagnostics)) (case existing of Some d \<Rightarrow> sd_codes d | None \<Rightarrow> []))"

definition build_ignore_edit ::
  "byte list \<Rightarrow> analyzed_source \<Rightarrow> nat \<Rightarrow> diagnostic list \<Rightarrow> byte list option \<Rightarrow> shellcheck_code_map \<Rightarrow> ignore_edit option option" where
  "build_ignore_edit source analysis line diagnostics reason m = do {
     found \<leftarrow> line_range (an_line_index analysis) line source;
     case found of
       None \<Rightarrow> Some None
     | Some extent \<Rightarrow>
         (let existing = find (directive_matches_ignore_line line) (an_directives analysis);
              comment = ignore_comment m (map_option sd_source existing) (merged_rules existing diagnostics) (comment_reason source m reason existing)
          in case existing of
               Some d \<Rightarrow>
                 (let old = range_slice (sd_range d) source; replacement = preserve_trailing_carriage_return old comment
                  in Some (if old \<noteq> replacement then Some \<lparr>ie_range = sd_range d, ie_replacement = replacement\<rparr> else None))
             | None \<Rightarrow>
                 if line_ends_with_continuation extent source then Some None
                 else do {
                   offset \<leftarrow> inline_comment_insertion_offset extent source;
                   Some (Some \<lparr>ie_range = range_new offset offset, ie_replacement = ascii ''  '' @ comment\<rparr>) }) }"

definition apply_edit :: "byte list \<Rightarrow> ignore_edit \<Rightarrow> byte list option" where
  "apply_edit source edit = do {
     before \<leftarrow> str_get source 0 (unat (r_start (ie_range edit)));
     after \<leftarrow> str_get source (unat (r_end (ie_range edit))) (length source);
     Some (before @ ie_replacement edit @ after) }"

section \<open>Judging an edit\<close>

record diagnostic_key =
  dk_rule :: nat
  dk_start_line :: nat
  dk_start_column :: nat
  dk_end_line :: nat
  dk_end_column :: nat
  dk_message :: "byte list"

definition diagnostic_key_new :: "diagnostic \<Rightarrow> diagnostic_key" where
  "diagnostic_key_new d = \<lparr>dk_rule = dg_rule d,
     dk_start_line = line_of (s_start (dg_span d)), dk_start_column = column_of (s_start (dg_span d)),
     dk_end_line = line_of (s_end (dg_span d)), dk_end_column = column_of (s_end (dg_span d)), dk_message = dg_message d\<rparr>"

text \<open>A hash map of counts is the list of its entries; two are equal when they have the same entries.\<close>

definition diagnostic_counts :: "diagnostic list \<Rightarrow> (diagnostic_key \<times> nat) list" where
  "diagnostic_counts diagnostics = fold (\<lambda>d. upsert (diagnostic_key_new d) 0 Suc) diagnostics []"

definition same_counts :: "(diagnostic_key \<times> nat) list \<Rightarrow> (diagnostic_key \<times> nat) list \<Rightarrow> bool" where
  "same_counts xs ys \<longleftrightarrow> length xs = length ys \<and> list_all (\<lambda>(k, n). map_of ys k = Some n) xs"

definition take_away :: "diagnostic_key \<times> nat \<Rightarrow> (diagnostic_key \<times> nat) list \<Rightarrow> (diagnostic_key \<times> nat) list option" where
  "take_away entry counts = (case map_of counts (fst entry) of
       None \<Rightarrow> None
     | Some n \<Rightarrow> if n < snd entry then None else Some (map (\<lambda>(k, c). if k = fst entry then (k, c - snd entry) else (k, c)) counts))"

definition diagnostics_match_after_removing_targets :: "diagnostic list \<Rightarrow> diagnostic list \<Rightarrow> diagnostic list \<Rightarrow> bool" where
  "diagnostics_match_after_removing_targets current candidate removed =
     (case fold_opt take_away (diagnostic_counts removed) (diagnostic_counts current) of
        None \<Rightarrow> False
      | Some counts \<Rightarrow> same_counts (filter (\<lambda>(_, n). 0 < n) counts) (diagnostic_counts candidate))"

definition edit_is_valid :: "analyzed_source \<Rightarrow> analyzed_source \<Rightarrow> nat \<Rightarrow> diagnostic list \<Rightarrow> bool" where
  "edit_is_valid current candidate line line_diagnostics =
     (if an_strict_parse_error candidate \<noteq> an_strict_parse_error current then False
      else case to_u32 line of
        None \<Rightarrow> False
      | Some line \<Rightarrow>
          (let target_rules = sort_rules (map dg_rule line_diagnostics);
               recognized = list_ex (\<lambda>d. directive_matches_ignore_line line d \<and> sd_line d = line
                 \<and> list_all (\<lambda>r. r \<in> set (sd_codes d)) target_rules) (an_directives candidate)
           in if \<not> recognized then False
              else if list_ex (\<lambda>d. line_of (s_start (dg_span d)) = line \<and> dg_rule d \<in> set target_rules) (an_diagnostics candidate) then False
              else diagnostics_match_after_removing_targets (an_diagnostics current) (an_diagnostics candidate) line_diagnostics))"

section \<open>Adding ignores to a file\<close>

text \<open>The loop carries the settings, the source, its analysis and the number of edits.\<close>

record 's ignore_state =
  is_settings :: 's
  is_source :: "byte list"
  is_analysis :: analyzed_source
  is_added :: nat

definition add_ignore_line ::
  "(byte list \<Rightarrow> 's \<Rightarrow> analyzed_source) \<Rightarrow> ('s \<Rightarrow> ignore_edit \<Rightarrow> 's) \<Rightarrow> shellcheck_code_map \<Rightarrow> byte list option
     \<Rightarrow> nat \<Rightarrow> 's ignore_state \<Rightarrow> 's ignore_state option" where
  "add_ignore_line analyze_source settings_after_ignore m reason line s =
     (let analysis = analyze_source (is_source s) (is_settings s);
          s = s\<lparr>is_analysis := analysis\<rparr>;
          line_diagnostics = filter (\<lambda>d. line_of (s_start (dg_span d)) = line) (an_diagnostics analysis)
      in if line_diagnostics = [] then Some s
         else do {
           built \<leftarrow> build_ignore_edit (is_source s) analysis line line_diagnostics reason m;
           case built of
             None \<Rightarrow> Some s
           | Some edit \<Rightarrow> do {
               candidate_source \<leftarrow> apply_edit (is_source s) edit;
               let candidate_settings = settings_after_ignore (is_settings s) edit;
               let candidate_analysis = analyze_source candidate_source candidate_settings;
               Some (if \<not> edit_is_valid analysis candidate_analysis line line_diagnostics then s
                     else \<lparr>is_settings = candidate_settings, is_source = candidate_source,
                       is_analysis = candidate_analysis, is_added = is_added s + 1\<rparr>) } })"

text \<open>Reading the file and writing it back are left out; the result is the new text and what is reported.\<close>

definition add_ignores ::
  "(byte list \<Rightarrow> 's \<Rightarrow> analyzed_source) \<Rightarrow> ('s \<Rightarrow> ignore_edit \<Rightarrow> 's) \<Rightarrow> shellcheck_code_map \<Rightarrow> byte list option
     \<Rightarrow> byte list \<Rightarrow> 's \<Rightarrow> 's ignore_state option" where
  "add_ignores analyze_source settings_after_ignore m reason source settings =
     (let analysis = analyze_source source settings;
          target_lines = sorted_list_of_set (set (map (\<lambda>d. line_of (s_start (dg_span d))) (an_diagnostics analysis)))
      in fold_opt (add_ignore_line analyze_source settings_after_ignore m reason) target_lines
           \<lparr>is_settings = settings, is_source = source, is_analysis = analysis, is_added = 0\<rparr>)"

section \<open>Reading back what was written\<close>

lemma whites_no_separators: "list_all ascii_white v \<Longrightarrow> 35 \<notin> set v \<and> 44 \<notin> set v \<and> 61 \<notin> set v"
  by (auto simp: list_all_iff ascii_white_def)

lemma join_codes_chars: "set rules \<subseteq> {..<rule_count} \<Longrightarrow> 35 \<notin> set (join_codes rules) \<and> 61 \<notin> set (join_codes rules)"
proof (induction rules rule: join_codes.induct)
  case (2 r)
  then show ?case using plains[OF rule_code_plain[of r]] by simp
next
  case (3 r q rules)
  then show ?case using plains[OF rule_code_plain[of r]] by (simp add: ascii_def)
qed simp

lemma parse_join_codes:
  assumes "rules \<noteq> []" "set rules \<subseteq> {..<rule_count}" "list_all ascii_white v" "list_all ascii_white w"
  shows "parse_codes (resolve_suppression_code m) (v @ join_codes rules @ w) = rules"
  using assms(1,2,3)
proof (induction rules arbitrary: v rule: join_codes.induct)
  case (2 r)
  then have r: "r < rule_count" by simp
  note code = plains[OF rule_code_plain[OF r]] and white = whites_no_separators[OF \<open>list_all ascii_white v\<close>] whites_no_separators[OF assms(4)]
  from code white have "split_on 44 (v @ rule_code r @ w) = [v @ rule_code r @ w]" by (intro split_on_none) simp
  moreover have "parse_code (resolve_suppression_code m) (v @ rule_code r @ w) = [r]"
    using parse_code_padded[OF \<open>list_all ascii_white v\<close> assms(4), of "rule_code r" "resolve_suppression_code m"]
      code rule_code_nonempty[OF r] resolve_rule_code_back[OF r] by simp
  ultimately show ?case by (simp add: parse_codes_def)
next
  case (3 r q rules)
  then have r: "r < rule_count" by simp
  note code = plains[OF rule_code_plain[OF r]] and white = whites_no_separators[OF \<open>list_all ascii_white v\<close>]
  have whole: "v @ join_codes (r # q # rules) @ w = (v @ rule_code r) @ 44 # ([32] @ join_codes (q # rules) @ w)"
    by (simp add: ascii_def)
  from code white have "split_on 44 (v @ join_codes (r # q # rules) @ w) = (v @ rule_code r) # split_on 44 ([32] @ join_codes (q # rules) @ w)"
    unfolding whole by (intro split_on_append) simp
  moreover have "parse_code (resolve_suppression_code m) (v @ rule_code r) = [r]"
    using parse_code_padded[OF \<open>list_all ascii_white v\<close>, of "[]" "rule_code r" "resolve_suppression_code m"]
      code rule_code_nonempty[OF r] resolve_rule_code_back[OF r] by simp
  moreover have "parse_codes (resolve_suppression_code m) ([32] @ join_codes (q # rules) @ w) = q # rules"
    using 3 by (intro "3.IH") (simp_all add: ascii_white_def)
  ultimately show ?case by (simp add: parse_codes_def)
qed simp

lemma parse_written:
  assumes "rules \<noteq> []" "set rules \<subseteq> {..<rule_count}" "list_all ascii_white lead" "list_all ascii_white rest" "origin \<noteq> Some FromShellCheck"
  shows "parse_shuck_directive m \<lparr>nc_text = lead @ ignore_comment m origin rules reason @ rest, nc_range = extent, nc_line = line, nc_own_line = own\<rparr>
    = Some \<lparr>sd_action = Ignore, sd_source = FromShuck, sd_codes = rules, sd_range = extent, sd_line = line\<rparr>"
proof -
  let ?tail = "(case reason of None \<Rightarrow> [] | Some r \<Rightarrow> ascii '' # '' @ r) @ rest"
  let ?after = "ascii '' ignore='' @ join_codes rules @ ?tail"
  have comment: "ignore_comment m origin rules reason = ascii ''# shucked: ignore='' @ join_codes rules @ (case reason of None \<Rightarrow> [] | Some r \<Rightarrow> ascii '' # '' @ r)"
    using assms(5) by (simp add: ignore_comment_def split: option.split suppression_source.split)
  have whole: "lead @ ignore_comment m origin rules reason @ rest = lead @ [35] @ [32] @ ascii ''shucked:'' @ ?after"
    unfolding comment by (simp add: ascii_def)
  have stripped: "strip_comment_prefix (lead @ [35] @ [32] @ ascii ''shucked:'' @ ?after) = ascii ''shucked:'' @ ?after"
    using assms(3) by (simp add: strip_comment_prefix_def black_def ascii_white_def ascii_def)
  have "strip_prefix_ignore_ascii_case (ascii ''shucked:'' @ ?after) (ascii ''shucked:'') = Some ?after"
    by (rule strip_prefix_exact) (simp add: ascii_def)
  moreover obtain w where w: "list_all ascii_white w"
    "(case split_once 35 ?after of None \<Rightarrow> ?after | Some (before, _) \<Rightarrow> before) = ascii '' ignore='' @ join_codes rules @ w"
  proof (cases reason)
    case None
    have "35 \<notin> set ?after" using join_codes_chars[OF assms(2)] whites_no_separators[OF assms(4)] None by (simp add: ascii_def)
    from split_once_none[OF this] None assms(4) show ?thesis by (intro that[of rest]) simp_all
  next
    case (Some r)
    have "?after = (ascii '' ignore='' @ join_codes rules @ [32]) @ 35 # ([32] @ r @ rest)" using Some by (simp add: ascii_def)
    moreover have "35 \<notin> set (ascii '' ignore='' @ join_codes rules @ [32])" using join_codes_chars[OF assms(2)] by (simp add: ascii_def)
    ultimately have "split_once 35 ?after = Some (ascii '' ignore='' @ join_codes rules @ [32], [32] @ r @ rest)"
      by (metis split_once_append)
    then show ?thesis by (intro that[of "[32]"]) (simp_all add: ascii_white_def)
  qed
  moreover have "split_once 61 (ascii '' ignore='' @ join_codes rules @ w) = Some (ascii '' ignore'', join_codes rules @ w)"
    using split_once_append[of 61 "ascii '' ignore''" "join_codes rules @ w"] by (simp add: ascii_def)
  moreover have "trim (ascii '' ignore'') = ascii ''ignore''"
    using trim_padded[of "[32]" "[]" "ascii ''ignore''"] by (simp add: ascii_def ascii_white_def black_def)
  moreover have "parse_shuck_action (ascii ''ignore'') = Some Ignore" by code_simp
  moreover have "parse_codes (resolve_suppression_code m) (join_codes rules @ w) = rules"
    using parse_join_codes[OF assms(1,2) _ w(1), of "[]" m] by simp
  ultimately show ?thesis using assms(1) unfolding parse_shuck_directive_def
    by (simp only: whole stripped normalized_comment.simps) simp
qed

lemma fold_push_rule: "set (fold push_rule xs acc) = set acc \<union> set xs"
  by (induction xs arbitrary: acc) (auto simp: push_rule_def)

lemma set_sort_rules: "set (sort_rules rules) = set rules"
  by (simp add: sort_rules_def sort_by_set)

lemma set_merged_rules:
  "set (merged_rules existing diagnostics) = (case existing of Some d \<Rightarrow> set (sd_codes d) | None \<Rightarrow> {}) \<union> dg_rule ` set diagnostics"
  by (simp add: merged_rules_def set_sort_rules fold_push_rule split: option.split)

section \<open>Finding the comment again\<close>

lemma min_by_least:
  assumes "x \<in> set xs" "\<And>y. y \<in> set xs \<Longrightarrow> y \<noteq> x \<Longrightarrow> lt x y \<and> \<not> lt y x" "\<not> lt x x"
  shows "min_by lt xs = Some x"
proof -
  have "fold (\<lambda>y m. if lt y m then y else m) ys z = x"
    if "x \<in> insert z (set ys)" "insert z (set ys) \<subseteq> set xs" for ys z
    using that
  proof (induction ys arbitrary: z)
    case (Cons y ys)
    consider "z = x" | "y = x" "z \<noteq> x" | "z \<noteq> x" "y \<noteq> x" "x \<in> set ys" using Cons.prems(1) by auto
    then show ?case
    proof cases
      case 1
      then have "\<not> lt y z" using assms(2)[of y] assms(3) Cons.prems(2) by (cases "y = x") auto
      with 1 Cons show ?thesis by simp
    next
      case 2
      then have "lt y z" using assms(2)[of z] Cons.prems(2) by auto
      with 2 Cons show ?thesis by simp
    next
      case 3
      with Cons show ?thesis by simp
    qed
  qed simp
  with assms(1) show ?thesis by (cases xs) (auto simp: min_by_def)
qed

lemma marker_found:
  assumes "i < length line" "line ! i = 35"
  shows "find_comment_marker line i finish = Some i"
  unfolding find_comment_marker_def
proof (rule min_by_least)
  show "i \<in> set (filter (\<lambda>i. line ! i = 35) [0..<length line])" using assms by simp
  show "\<not> marker_key_less i finish i i" by (simp add: marker_key_less_def rust_cmp_def)
  fix j assume "j \<noteq> i"
  then have "abs_diff i i < abs_diff j i" by (auto simp: abs_diff_def)
  then show "marker_key_less i finish i j \<and> \<not> marker_key_less i finish j i"
    by (simp add: marker_key_less_def rust_cmp_def)
qed

lemma str_get_middle:
  assumes "x = [] \<or> is_char_boundary (p @ x @ q) (length p)" "q = [] \<or> hd q < 128"
  shows "str_get (p @ x @ q) (length p) (length p + length x) = Some x"
proof -
  have "is_char_boundary (p @ x @ q) (length p + length x)"
    using assms(2) by (cases q) (auto simp: is_char_boundary_def nth_append)
  moreover from this assms(1) have "is_char_boundary (p @ x @ q) (length p)" by auto
  ultimately show ?thesis by (simp add: str_get_def)
qed

lemma rfind_newline:
  assumes "10 \<notin> set s"
  shows "rfind_byte 10 s = None" "rfind_byte 10 (p @ 10 # s) = Some (length p)"
proof -
  show "rfind_byte 10 s = None" using assms by (simp add: rfind_byte_def find_byte_def)
  have "find_byte 10 (rev s @ 10 # rev p) = Some (length s)" using assms find_byte_append[of 10 "rev s" "rev p"] by simp
  then show "rfind_byte 10 (p @ 10 # s) = Some (length p)" by (simp add: rfind_byte_def)
qed

text \<open>A comment that ends its line is read from its marker to the end of the line.\<close>

lemma normalize_found:
  assumes "before = [] \<or> last before = 10" "10 \<notin> set lead" "10 \<notin> set body" "10 \<notin> set rest"
    and "after = [] \<or> hd after = 10" "rest @ after = [] \<or> hd (rest @ after) < 128"
    and "src = before @ lead @ (35 # body) @ rest @ after" "length src < 2 ^ 32" "is_char_boundary src (length before)"
    and "unat (r_start (ic_range c)) = length before + length lead"
    and "unat (r_end (ic_range c)) = length before + length lead + Suc (length body)" "ic_line c < 2 ^ 32"
  shows "\<exists>extent own. normalize_comment src c = Some (Some \<lparr>nc_text = (35 # body) @ rest, nc_range = extent, nc_line = ic_line c, nc_own_line = own\<rparr>)"
proof -
  let ?start = "length before + length lead" and ?finish = "length before + length lead + Suc (length body)"
  let ?line = "lead @ (35 # body) @ rest"
  have bounds: "min ?start (length src) = ?start" "min ?finish (length src) = ?finish" unfolding assms(7) by simp_all
  have head: "str_get src 0 ?start = Some (before @ lead)"
    using str_get_prefix[of "(35 # body) @ rest @ after" "before @ lead"] unfolding assms(7) by simp
  have line_start: "(case rfind_byte 10 (before @ lead) of None \<Rightarrow> 0 | Some i \<Rightarrow> i + 1) = length before"
  proof (cases before rule: rev_cases)
    case Nil
    with rfind_newline(1)[OF assms(2)] show ?thesis by simp
  next
    case (snoc p b)
    with assms(1) rfind_newline(2)[OF assms(2), of p] show ?thesis by simp
  qed
  have tail: "str_get src ?finish (length src) = Some (rest @ after)"
  proof -
    have "is_char_boundary ((before @ lead @ 35 # body) @ (rest @ after) @ []) (length (before @ lead @ 35 # body))"
      using assms(6) by (cases "rest @ after") (auto simp: is_char_boundary_def nth_append)
    from str_get_middle[of "rest @ after" "before @ lead @ 35 # body" "[]"] this show ?thesis unfolding assms(7) by (simp add: algebra_simps)
  qed
  have line_end: "(case find_byte 10 (rest @ after) of None \<Rightarrow> length src | Some i \<Rightarrow> ?finish + i) = length before + length ?line"
  proof (cases after)
    case Nil
    then have "find_byte 10 (rest @ after) = None" using assms(4) by (simp add: find_byte_def)
    with Nil show ?thesis unfolding assms(7) by simp
  next
    case (Cons b t)
    then have "find_byte 10 (rest @ after) = Some (length rest)" using assms(4,5) find_byte_append[of 10 rest t] by simp
    then show ?thesis by simp
  qed
  have after: "after = [] \<or> hd after < 128" using assms(5) by auto
  have whole: "str_get src (length before) (length before + length ?line) = Some ?line"
    using str_get_middle[of ?line before after] after assms(9) unfolding assms(7) by (simp add: algebra_simps)
  have marker: "find_comment_marker ?line (length lead) j = Some (length lead)" for j
    by (rule marker_found) (simp_all add: nth_append)
  have body: "str_get src ?start (length before + length ?line) = Some ((35 # body) @ rest)"
  proof -
    have "is_char_boundary ((before @ lead) @ ((35 # body) @ rest) @ after) (length (before @ lead))"
      by (simp add: is_char_boundary_def nth_append)
    from str_get_middle[of "(35 # body) @ rest" "before @ lead" after] this after show ?thesis unfolding assms(7) by (simp add: algebra_simps)
  qed
  have leading: "str_get src (length before) ?start = Some lead"
    using str_get_middle[of lead before "(35 # body) @ rest @ after"] assms(9) unfolding assms(7) by simp
  have relative: "min (?start - length before) (length ?line) = length lead" by simp
  show ?thesis
    unfolding normalize_comment_def assms(10,11) Let_def bounds head Option.bind_lunit line_start tail line_end whole relative marker option.case
      body leading to_u32_def if_P[OF assms(12)] by blast
qed

lemma read_comments:
  assumes "fold_opt (read_comment src m) comments acc = Some ds"
  shows "set acc \<subseteq> set ds"
    and "c \<in> set comments \<Longrightarrow> normalize_comment src c = Some (Some n) \<Longrightarrow> parse_shuck_directive m n = Some d \<Longrightarrow> d \<in> set ds"
  using assms
proof (induction comments arbitrary: acc)
  case (Cons x comments)
  {
    case 1
    then obtain acc' where x: "read_comment src m x acc = Some acc'" "fold_opt (read_comment src m) comments acc' = Some ds"
      by (auto split: bind_splits)
    from x(1) have "set acc \<subseteq> set acc'" by (auto simp: read_comment_def split: bind_splits option.splits)
    with Cons.IH(1)[OF x(2)] show ?case by blast
  next
    case 2
    then obtain acc' where x: "read_comment src m x acc = Some acc'" "fold_opt (read_comment src m) comments acc' = Some ds"
      by (auto split: bind_splits)
    show ?case
    proof (cases "c = x")
      case True
      with x(1) 2 have "d \<in> set acc'" by (auto simp: read_comment_def)
      with Cons.IH(1)[OF x(2)] show ?thesis by blast
    next
      case False
      with 2 Cons.IH(2)[OF _ _ _ x(2)] show ?thesis by simp
    qed
  }
qed simp_all

text \<open>The place of an inserted comment: the end of its line, before a carriage return.\<close>

definition insertion_point :: "byte list \<Rightarrow> nat \<Rightarrow> nat \<Rightarrow> nat" where
  "insertion_point src s e = (if s < e \<and> src ! (e - 1) = 13 then e - 1 else e)"

lemma insertion_offset_eq:
  assumes "s \<le> e" "e \<le> length src" "length src < 2 ^ 32"
  shows "inline_comment_insertion_offset (range_new (word_of_nat s) (word_of_nat e)) src = Some (word_of_nat (insertion_point src s e))"
proof -
  have un: "unat (word_of_nat n :: u32) = n" if "n \<le> length src" for n
    using that assms(3) by (simp add: unat_of_nat take_bit_nat_eq_self)
  have "s < e \<Longrightarrow> word_of_nat e - 1 = (word_of_nat (e - 1) :: u32)" by (simp add: of_nat_diff)
  moreover have "nth_opt src (e - 1) = Some (src ! (e - 1))" if "s < e" using that assms(2) by (simp add: nth_opt_def)
  ultimately show ?thesis using assms(1,2)
    by (cases "s < e") (simp_all only: inline_comment_insertion_offset_def range_new_def insertion_point_def text_range.simps
        un if_True if_False Option.bind_lunit simp_thms if_cancel cong: if_cong split: if_split, simp_all add: un)
qed

lemma line_start_before:
  assumes "k < length (line_starts_of src)"
  shows "take (line_starts_of src ! k) src = [] \<or> last (take (line_starts_of src ! k) src) = 10"
proof -
  have "line_starts_of src ! k \<in> set (line_starts_of src)" using assms by simp
  then have "line_starts_of src ! k = 0 \<or> line_starts_of src ! k \<le> length src \<and> src ! (line_starts_of src ! k - 1) = 10"
    by (auto simp: line_starts_of_iff)
  moreover have "last (take n src) = src ! (n - 1)" if "0 < n" "n \<le> length src" for n
    by (subst last_conv_nth) (use that in \<open>auto simp: min_def\<close>)
  ultimately show ?thesis by (cases "line_starts_of src ! k = 0") auto
qed

lemma built_insertion:
  assumes "an_line_index analysis = line_index_new src" "length src < 2 ^ 32"
    and "\<not> list_ex (directive_matches_ignore_line line) (an_directives analysis)"
    and "build_ignore_edit src analysis line diagnostics reason m = Some (Some edit)"
  defines "s \<equiv> line_starts_of src ! (line - 1)" and "e \<equiv> line_end_of src (line - 1)"
  shows "1 \<le> line" "line \<le> length (line_starts_of src)"
    and "edit = \<lparr>ie_range = range_new (word_of_nat (insertion_point src s e)) (word_of_nat (insertion_point src s e)),
        ie_replacement = [32, 32] @ ignore_comment m None (merged_rules None diagnostics) (comment_reason src m reason None)\<rparr>"
proof -
  have none: "find (directive_matches_ignore_line line) (an_directives analysis) = None"
    using assms(3) by (auto simp: find_None_iff list_ex_iff)
  note range = line_range_eq[OF assms(2), of IgnoreRaw line, folded line_index_new_def]
  show line: "1 \<le> line" "line \<le> length (line_starts_of src)"
    using assms(4) unfolding build_ignore_edit_def assms(1) range by (auto split: if_splits)
  then have k: "line - 1 < length (line_starts_of src)" by auto
  note offset = insertion_offset_eq[OF line_end_bounds(1,2)[OF k] assms(2)]
  show "edit = \<lparr>ie_range = range_new (word_of_nat (insertion_point src s e)) (word_of_nat (insertion_point src s e)),
        ie_replacement = [32, 32] @ ignore_comment m None (merged_rules None diagnostics) (comment_reason src m reason None)\<rparr>"
    using assms(4) line unfolding build_ignore_edit_def assms(1) range none s_def e_def
    by (auto simp: offset Let_def ascii_def simp del: One_nat_def split: if_splits)
qed

lemma insertion_parts:
  assumes "src = as_bytes cs" "1 \<le> line" "line \<le> length (line_starts_of src)"
  defines "s \<equiv> line_starts_of src ! (line - 1)" and "e \<equiv> line_end_of src (line - 1)"
  defines "q \<equiv> insertion_point src s e"
  shows "s \<le> q" "q \<le> e" "e \<le> length src" "10 \<notin> set (drop s (take q src))"
    and "list_all ascii_white (drop q (take e src))" "10 \<notin> set (drop q (take e src))"
    and "drop e src = [] \<or> hd (drop e src) = 10" "is_char_boundary src s" "is_char_boundary src q"
proof -
  have k: "line - 1 < length (line_starts_of src)" using assms(2,3) by simp
  note b = line_end_bounds[OF k, folded s_def e_def]
  show q: "s \<le> q" "q \<le> e" "e \<le> length src" using b(1,2) by (auto simp: q_def insertion_point_def)
  have no: "10 \<notin> set (drop i (take j src))" if "s \<le> i" "j \<le> e" for i j
    using b(4) that q(3) by (auto simp: in_set_conv_nth)
  show "10 \<notin> set (drop s (take q src))" "10 \<notin> set (drop q (take e src))" using no q by simp_all
  have q_cases: "q = e \<or> s < e \<and> q = e - 1 \<and> src ! (e - 1) = 13" by (simp add: q_def insertion_point_def)
  then have "drop q (take e src) = [] \<or> drop q (take e src) = [13]"
  proof
    assume "s < e \<and> q = e - 1 \<and> src ! (e - 1) = 13"
    moreover from this q(3) have "e - 1 < length src" by linarith
    ultimately have "take e src = take q src @ [13]" using take_Suc_conv_app_nth[of "e - 1" src] by simp
    then show ?thesis using q by simp
  qed simp
  then show "list_all ascii_white (drop q (take e src))" by (auto simp: ascii_white_def)
  show "drop e src = [] \<or> hd (drop e src) = 10" using b(3) q(3) by (cases "e < length src") (auto simp: hd_drop_conv_nth)
  note boundary = line_boundaries[OF assms(1) k, folded s_def e_def]
  show "is_char_boundary src s" by (rule boundary(1))
  show "is_char_boundary src q" using q_cases boundary(2) q(3) by (auto simp: is_char_boundary_def)
qed

lemma insertion_range_empty:
  assumes "build_ignore_edit src analysis line diagnostics reason m = Some (Some edit)"
    and "\<not> list_ex (directive_matches_ignore_line line) (an_directives analysis)"
  shows "r_start (ie_range edit) = r_end (ie_range edit)"
proof -
  have none: "find (directive_matches_ignore_line line) (an_directives analysis) = None"
    using assms(2) by (auto simp: find_None_iff list_ex_iff)
  from assms(1) show ?thesis unfolding build_ignore_edit_def none
    by (auto simp: Let_def range_new_def split: bind_splits option.splits if_splits)
qed

lemma apply_edit_eq:
  assumes "apply_edit src edit = Some new" "r_start (ie_range edit) = r_end (ie_range edit)"
  shows "new = take (unat (r_start (ie_range edit))) src @ ie_replacement edit @ drop (unat (r_start (ie_range edit))) src"
  using assms by (auto simp: apply_edit_def str_get_def split: bind_splits if_splits)

lemma ignored_line_reads_back:
  assumes "src = as_bytes cs" "an_line_index analysis = line_index_new src"
    and "build_ignore_edit src analysis line diagnostics reason m = Some (Some edit)"
    and "\<not> list_ex (directive_matches_ignore_line line) (an_directives analysis)"
    and "diagnostics \<noteq> []" "dg_rule ` set diagnostics \<subseteq> {..<rule_count}" "10 \<notin> set (ie_replacement edit)"
    and "apply_edit src edit = Some new" "length new < 2 ^ 32"
    and "ic_line c = line" "unat (r_start (ic_range c)) = unat (r_start (ie_range edit)) + 2"
    and "unat (r_end (ic_range c)) = unat (r_start (ie_range edit)) + length (ie_replacement edit)"
  shows "\<exists>n extent. normalize_comment new c = Some (Some n) \<and> parse_shuck_directive m n =
    Some \<lparr>sd_action = Ignore, sd_source = FromShuck, sd_codes = merged_rules None diagnostics, sd_range = extent, sd_line = line\<rparr>"
proof -
  let ?s = "line_starts_of src ! (line - 1)" and ?e = "line_end_of src (line - 1)"
  define q where "q = insertion_point src ?s ?e"
  let ?rules = "merged_rules None diagnostics" and ?reason = "comment_reason src m reason None"
  define text' where "text' = ignore_comment m None ?rules ?reason"
  note edited = apply_edit_eq[OF assms(8) insertion_range_empty[OF assms(3,4)]]
  have "length new = length src + length (ie_replacement edit)" unfolding edited by simp
  then have size: "length src < 2 ^ 32" using assms(9) by simp
  note built = built_insertion[OF assms(2) size assms(4,3), folded q_def text'_def]
  note parts = insertion_parts[OF assms(1) built(1,2), folded q_def]
  have un: "unat (word_of_nat q :: u32) = q" using parts(2,3) size by (simp add: unat_of_nat take_bit_nat_eq_self)
  obtain body where body: "text' = 35 # body" by (simp add: text'_def ignore_comment_def ascii_def)
  have new: "new = take ?s src @ (drop ?s (take q src) @ [32, 32]) @ (35 # body) @ drop q (take ?e src) @ drop ?e src"
  proof -
    have "take q src = take ?s src @ drop ?s (take q src)" using parts(1) by (metis append_take_drop_id min.absorb1 take_take)
    moreover have "drop q src = drop q (take ?e src) @ drop ?e src"
      using parts(2) by (metis append_take_drop_id drop_append drop_take le_add_diff_inverse drop_drop add.commute)
    ultimately show ?thesis using edited built(3) un body by (simp add: range_new_def)
  qed
  have "\<exists>extent own. normalize_comment new c = Some (Some \<lparr>nc_text = (35 # body) @ drop q (take ?e src), nc_range = extent, nc_line = ic_line c, nc_own_line = own\<rparr>)"
  proof (rule normalize_found[OF _ _ _ parts(6,7) _ new assms(9)])
    show "take ?s src = [] \<or> last (take ?s src) = 10" using built(1,2) by (intro line_start_before) simp
    show "10 \<notin> set (drop ?s (take q src) @ [32, 32])" using parts(4) by simp
    show "10 \<notin> set body" using assms(7) built(3) body by simp
    show "drop q (take ?e src) @ drop ?e src = [] \<or> hd (drop q (take ?e src) @ drop ?e src) < 128"
      using parts(5,7) by (cases "drop q (take ?e src)") (auto dest: ascii_white_small)
    show "is_char_boundary new (length (take ?s src))"
    proof (cases "?s < q")
      case True
      then have "new ! ?s = src ! ?s" "?s < length new" unfolding new using parts(2,3) by (simp_all add: nth_append)
      with True parts(2,3,8) show ?thesis by (auto simp: is_char_boundary_def)
    next
      case False
      with parts(1,2,3) show ?thesis unfolding new by (auto simp: is_char_boundary_def nth_append)
    qed
    show "unat (r_start (ic_range c)) = length (take ?s src) + length (drop ?s (take q src) @ [32, 32])"
      using assms(11) built(3) un parts(1,2,3) by (simp add: range_new_def)
    show "unat (r_end (ic_range c)) = length (take ?s src) + length (drop ?s (take q src) @ [32, 32]) + Suc (length body)"
      using assms(12) built(3) un parts(1,2,3) body by (simp add: range_new_def)
    have "length (newlines src) \<le> length src" unfolding newlines_def by (rule order_trans[OF length_filter_le]) simp
    then have "line \<le> Suc (length src)" using built(2) by (simp add: line_starts_of_def)
    moreover have "Suc (length src) < length new" unfolding edited using built(3) by simp
    ultimately show "ic_line c < 2 ^ 32" using assms(9,10) by linarith
  qed
  then obtain extent own where read: "normalize_comment new c = Some (Some \<lparr>nc_text = [] @ text' @ drop q (take ?e src), nc_range = extent, nc_line = line, nc_own_line = own\<rparr>)"
    unfolding body assms(10) by auto
  have "?rules \<noteq> []" using set_merged_rules[of None diagnostics] assms(5) by force
  moreover have "set ?rules \<subseteq> {..<rule_count}" using set_merged_rules[of None diagnostics] assms(6) by simp
  ultimately have parsed: "parse_shuck_directive m \<lparr>nc_text = [] @ text' @ drop q (take ?e src), nc_range = extent, nc_line = line, nc_own_line = own\<rparr>
      = Some \<lparr>sd_action = Ignore, sd_source = FromShuck, sd_codes = ?rules, sd_range = extent, sd_line = line\<rparr>"
    unfolding text'_def by (rule parse_written) (use parts(5) in simp_all)
  from read parsed show ?thesis by blast
qed

section \<open>Counting diagnostics\<close>

definition count_of :: "(diagnostic_key \<times> nat) list \<Rightarrow> diagnostic_key \<Rightarrow> nat" where
  "count_of counts k = (case map_of counts k of None \<Rightarrow> 0 | Some n \<Rightarrow> n)"

lemma count_of_upsert: "count_of (upsert k 0 Suc counts) j = (if j = k then Suc (count_of counts k) else count_of counts j)"
  by (simp add: count_of_def upsert_ok split: option.split)

lemma counts_ok:
  "distinct (map fst (diagnostic_counts ds))" "\<forall>(k, n) \<in> set (diagnostic_counts ds). 0 < n"
  "count_of (diagnostic_counts ds) k = count (mset (map diagnostic_key_new ds)) k"
proof -
  let ?fold = "\<lambda>ds. fold (\<lambda>d. upsert (diagnostic_key_new d) 0 Suc) ds []"
  have positive: "\<forall>e \<in> set (upsert k 0 Suc counts). 0 < snd e" if "\<forall>e \<in> set counts. 0 < snd e"
    for k :: diagnostic_key and counts :: "(diagnostic_key \<times> nat) list"
    using that
  proof (induction counts)
    case (Cons e counts)
    then show ?case by (cases e) simp
  qed simp
  have "distinct (map fst (?fold ds)) \<and> (\<forall>e \<in> set (?fold ds). 0 < snd e)"
  proof (induction ds rule: rev_induct)
    case (snoc d ds)
    with positive[of "?fold ds" "diagnostic_key_new d"] show ?case by (simp add: upsert_ok(3))
  qed simp
  then show "distinct (map fst (diagnostic_counts ds))" "\<forall>(k, n) \<in> set (diagnostic_counts ds). 0 < n"
    unfolding diagnostic_counts_def by fastforce+
  have "count_of (?fold ds) k = count (mset (map diagnostic_key_new ds)) k"
  proof (induction ds rule: rev_induct)
    case Nil
    then show ?case by (simp add: count_of_def)
  next
    case (snoc d ds)
    then show ?case by (auto simp: count_of_upsert)
  qed
  then show "count_of (diagnostic_counts ds) k = count (mset (map diagnostic_key_new ds)) k"
    by (simp only: diagnostic_counts_def)
qed

lemma take_away_ok:
  assumes "take_away entry counts = Some rest" "distinct (map fst counts)"
  shows "distinct (map fst rest)" "map_of rest = (map_of counts)(fst entry := map_option (\<lambda>n. n - snd entry) (map_of counts (fst entry)))"
proof -
  obtain n where rest: "rest = map (\<lambda>(k, c). if k = fst entry then (k, c - snd entry) else (k, c)) counts"
    using assms(1) by (auto simp: take_away_def split: option.splits if_splits)
  have "map fst rest = map fst counts" unfolding rest by (simp add: comp_def case_prod_beta)
  with assms(2) show "distinct (map fst rest)" by simp
  show "map_of rest = (map_of counts)(fst entry := map_option (\<lambda>n. n - snd entry) (map_of counts (fst entry)))"
    unfolding rest by (induction counts) (auto simp: fun_eq_iff)
qed

lemma take_all_away:
  assumes "distinct (map fst removed)" "distinct (map fst counts)" "\<forall>(k, n) \<in> set removed. 0 < n"
  shows "case fold_opt take_away removed counts of
      None \<Rightarrow> \<exists>(k, n) \<in> set removed. count_of counts k < n
    | Some rest \<Rightarrow> distinct (map fst rest) \<and> (\<forall>k. count_of rest k = count_of counts k - count_of removed k)
        \<and> (\<forall>(k, n) \<in> set removed. n \<le> count_of counts k)"
  using assms
proof (induction removed arbitrary: counts)
  case Nil
  then show ?case by (simp add: count_of_def)
next
  case (Cons entry removed)
  obtain k n where entry: "entry = (k, n)" by (cases entry)
  show ?case
  proof (cases "take_away entry counts")
    case None
    then have "count_of counts k < n" using Cons.prems(3) entry by (auto simp: take_away_def count_of_def split: option.splits if_splits)
    with None entry show ?thesis by simp
  next
    case (Some rest)
    note rest = take_away_ok[OF Some Cons.prems(2)]
    have n: "n \<le> count_of counts k" using Some entry by (auto simp: take_away_def count_of_def split: option.splits if_splits)
    have counts: "count_of rest j = (if j = k then count_of counts k - n else count_of counts j)" for j
      unfolding count_of_def rest(2) entry by (simp add: option.case_eq_if map_option_case)
    have "k \<notin> fst ` set removed" using Cons.prems(1) entry by auto
    then have "map_of removed k = None" by (simp add: map_of_eq_None_iff)
    then have new: "count_of removed k = 0" "count_of (entry # removed) j = (if j = k then n else count_of removed j)" for j
      unfolding count_of_def entry by simp_all
    have same: "count_of rest j = count_of counts j" if "(j, i) \<in> set removed" for i j
      using counts[of j] that \<open>k \<notin> fst ` set removed\<close> by force
    have IH: "case fold_opt take_away removed rest of
        None \<Rightarrow> \<exists>(k, n) \<in> set removed. count_of rest k < n
      | Some rest' \<Rightarrow> distinct (map fst rest') \<and> (\<forall>k. count_of rest' k = count_of rest k - count_of removed k)
          \<and> (\<forall>(k, n) \<in> set removed. n \<le> count_of rest k)"
      using Cons.prems rest(1) by (intro Cons.IH) auto
    show ?thesis
    proof (cases "fold_opt take_away removed rest")
      case None
      with IH Some same show ?thesis by auto
    next
      case (Some rest')
      with IH \<open>take_away entry counts = Some rest\<close> n new counts same entry show ?thesis by auto
    qed
  qed
qed

text \<open>Equal as hash maps is equal counts, as entries with count 0 are removed.\<close>

lemma same_counts_iff:
  assumes "distinct (map fst xs)" "distinct (map fst ys)" "\<forall>(k, n) \<in> set xs. 0 < n" "\<forall>(k, n) \<in> set ys. 0 < n"
  shows "same_counts xs ys \<longleftrightarrow> (\<forall>k. count_of xs k = count_of ys k)"
proof
  assume same: "same_counts xs ys"
  then have sub: "set xs \<subseteq> set ys" by (auto simp: same_counts_def list_all_iff dest: map_of_SomeD)
  have "card (set xs) = card (set ys)" using same assms(1,2) by (simp add: same_counts_def distinct_map distinct_card)
  with sub have "set xs = set ys" by (simp add: card_subset_eq)
  with assms(1,2) have "map_of xs = map_of ys" by (simp add: map_of_inject_set)
  then show "\<forall>k. count_of xs k = count_of ys k" by (simp add: count_of_def)
next
  assume equal: "\<forall>k. count_of xs k = count_of ys k"
  have "map_of xs k = map_of ys k" for k
    using spec[OF equal, of k] assms(3,4) by (force simp: count_of_def dest!: map_of_SomeD split: option.splits)
  then have maps: "map_of xs = map_of ys" ..
  then have "set xs = set ys" using assms(1,2) by (simp add: map_of_inject_set)
  then have "length xs = length ys" using assms(1,2) by (metis distinct_card distinct_map)
  moreover have "list_all (\<lambda>(k, n). map_of ys k = Some n) xs"
    using assms(1) by (auto simp: list_all_iff maps[symmetric])
  ultimately show "same_counts xs ys" by (simp add: same_counts_def)
qed

lemma count_of_filter:
  assumes "distinct (map fst counts)"
  shows "count_of (filter (\<lambda>(_, n). 0 < n) counts) k = count_of counts k"
  using assms
proof (induction counts)
  case (Cons entry counts)
  obtain j n where entry: "entry = (j, n)" by (cases entry)
  have "map_of (filter (\<lambda>(_, n). 0 < n) counts) j = None" "map_of counts j = None"
    using Cons.prems entry unfolding map_of_eq_None_iff by auto
  with Cons entry show ?case by (simp add: count_of_def)
qed simp

lemma diagnostics_match_iff:
  "diagnostics_match_after_removing_targets current candidate removed \<longleftrightarrow>
     mset (map diagnostic_key_new current) = mset (map diagnostic_key_new candidate) + mset (map diagnostic_key_new removed)"
proof -
  let ?M = "\<lambda>ds. mset (map diagnostic_key_new ds)" and ?C = diagnostic_counts
  have taken: "case fold_opt take_away (?C removed) (?C current) of
      None \<Rightarrow> \<exists>(k, n) \<in> set (?C removed). count_of (?C current) k < n
    | Some rest \<Rightarrow> distinct (map fst rest) \<and> (\<forall>k. count_of rest k = count_of (?C current) k - count_of (?C removed) k)
        \<and> (\<forall>(k, n) \<in> set (?C removed). n \<le> count_of (?C current) k)"
    by (rule take_all_away) (rule counts_ok)+
  have listed: "count_of (?C removed) k = n" if "(k, n) \<in> set (?C removed)" for k n
    using that counts_ok(1)[of removed] by (simp add: count_of_def)
  show ?thesis
  proof (cases "fold_opt take_away (?C removed) (?C current)")
    case None
    then obtain k n where kn: "(k, n) \<in> set (?C removed)" "count_of (?C current) k < n" using taken by auto
    have "count (?M current) k < count (?M removed) k" using listed[OF kn(1)] kn(2) counts_ok(3) by metis
    then have "?M current \<noteq> ?M candidate + ?M removed" by (metis count_union le_add2 not_less)
    with None show ?thesis by (simp add: diagnostics_match_after_removing_targets_def)
  next
    case (Some rest)
    with taken have rest: "distinct (map fst rest)" "\<And>k. count_of rest k = count (?M current) k - count (?M removed) k"
      and enough: "\<forall>(k, n) \<in> set (?C removed). n \<le> count_of (?C current) k" by (simp_all add: counts_ok(3))
    have le: "count (?M removed) k \<le> count (?M current) k" for k
    proof (cases "map_of (?C removed) k")
      case None
      then show ?thesis using counts_ok(3)[of removed k] by (simp add: count_of_def)
    next
      case (Some n)
      then have "(k, n) \<in> set (?C removed)" by (rule map_of_SomeD)
      with enough listed counts_ok(3) show ?thesis by (metis case_prodD)
    qed
    let ?rest = "filter (\<lambda>(_, n). 0 < n) rest"
    have filtered: "distinct (map fst ?rest)" "\<forall>(k, n) \<in> set ?rest. 0 < n"
      using rest(1) by (auto intro: distinct_map_filter)
    have count: "count_of ?rest k = count_of rest k" for k by (rule count_of_filter[OF rest(1)])
    have "same_counts ?rest (?C candidate) \<longleftrightarrow> (\<forall>k. count (?M current) k - count (?M removed) k = count (?M candidate) k)"
      unfolding same_counts_iff[OF filtered(1) counts_ok(1) filtered(2) counts_ok(2)] count rest(2) counts_ok(3) ..
    also have "\<dots> \<longleftrightarrow> ?M current = ?M candidate + ?M removed"
      unfolding multiset_eq_iff count_union using le by (metis add_diff_cancel_right' le_add_diff_inverse2)
    finally show ?thesis using Some by (simp add: diagnostics_match_after_removing_targets_def)
  qed
qed

section \<open>The codes of ShellCheck directives\<close>










section \<open>The loop over the lines\<close>

abbreviation diagnostic_keys :: "analyzed_source \<Rightarrow> diagnostic_key multiset" where
  "diagnostic_keys a \<equiv> mset (map diagnostic_key_new (an_diagnostics a))"

text \<open>The edits so far ignored the diagnostics of the lines \<open>L\<close>, all of them, and no others.\<close>

definition ignored_lines :: "(byte list \<Rightarrow> 's \<Rightarrow> analyzed_source) \<Rightarrow> byte list \<Rightarrow> 's \<Rightarrow> nat set \<Rightarrow> 's ignore_state \<Rightarrow> bool" where
  "ignored_lines analyze_source source settings L s \<longleftrightarrow>
     L \<subseteq> (\<lambda>d. line_of (s_start (dg_span d))) ` set (an_diagnostics (analyze_source source settings)) \<and> card L = is_added s
     \<and> is_analysis s = analyze_source (is_source s) (is_settings s)
     \<and> diagnostic_keys (is_analysis s) = filter_mset (\<lambda>k. dk_start_line k \<notin> L) (diagnostic_keys (analyze_source source settings))
     \<and> an_strict_parse_error (is_analysis s) = an_strict_parse_error (analyze_source source settings)
     \<and> (is_added s = 0 \<longrightarrow> is_source s = source \<and> is_settings s = settings)"

lemma valid_edit:
  assumes "edit_is_valid current candidate line ds"
  shows "an_strict_parse_error candidate = an_strict_parse_error current"
    "diagnostic_keys current = diagnostic_keys candidate + mset (map diagnostic_key_new ds)"
  using assms by (auto simp: edit_is_valid_def diagnostics_match_iff Let_def split: if_splits option.splits)

lemma keys_of_line:
  "mset (map diagnostic_key_new (filter (\<lambda>d. line_of (s_start (dg_span d)) = line) ds)) =
     filter_mset (\<lambda>k. dk_start_line k = line) (mset (map diagnostic_key_new ds))"
  by (induction ds) (simp_all add: diagnostic_key_new_def)

lemma line_of_key:
  "k \<in># mset (map diagnostic_key_new ds) \<Longrightarrow> dk_start_line k \<in> (\<lambda>d. line_of (s_start (dg_span d))) ` set ds"
  by (auto simp: diagnostic_key_new_def)

lemma kept_keys:
  assumes "filter_mset (\<lambda>k. dk_start_line k \<notin> L) K = new + filter_mset (\<lambda>k. dk_start_line k = line) (filter_mset (\<lambda>k. dk_start_line k \<notin> L) K)"
  shows "new = filter_mset (\<lambda>k. dk_start_line k \<notin> insert line L) K"
proof -
  have "filter_mset (\<lambda>k. dk_start_line k \<notin> L) K = filter_mset (\<lambda>k. dk_start_line k \<notin> insert line L) K
      + filter_mset (\<lambda>k. dk_start_line k = line) (filter_mset (\<lambda>k. dk_start_line k \<notin> L) K)"
    by (induction K) auto
  with assms show ?thesis by (metis add_right_cancel)
qed

lemma line_step:
  assumes "is_analysis s = analyze_source (is_source s) (is_settings s)" "add_ignore_line analyze_source after m reason line s = Some s'"
    and "ds = filter (\<lambda>d. line_of (s_start (dg_span d)) = line) (an_diagnostics (is_analysis s))"
  obtains "s' = s"
    | edit new where "ds \<noteq> []" "edit_is_valid (is_analysis s) (analyze_source new (after (is_settings s) edit)) line ds"
        "s' = \<lparr>is_settings = after (is_settings s) edit, is_source = new, is_analysis = analyze_source new (after (is_settings s) edit), is_added = is_added s + 1\<rparr>"
proof -
  have same: "s\<lparr>is_analysis := analyze_source (is_source s) (is_settings s)\<rparr> = s" using assms(1) by simp
  note step = assms(2)[unfolded add_ignore_line_def Let_def same, folded assms(1), folded assms(3)]
  show thesis
  proof (cases "ds = []")
    case True
    with step show ?thesis using that(1) by simp
  next
    case False
    obtain built where rest: "(case built of None \<Rightarrow> Some s | Some edit \<Rightarrow> do {
          new \<leftarrow> apply_edit (is_source s) edit;
          Some (if \<not> edit_is_valid (is_analysis s) (analyze_source new (after (is_settings s) edit)) line ds then s
            else \<lparr>is_settings = after (is_settings s) edit, is_source = new, is_analysis = analyze_source new (after (is_settings s) edit),
              is_added = is_added s + 1\<rparr>) }) = Some s'"
      using step unfolding if_not_P[OF False] bind_eq_Some_conv[of "build_ignore_edit _ _ _ _ _ _"] by blast
    show ?thesis
    proof (cases built)
      case None
      with rest show ?thesis using that(1) by simp
    next
      case (Some edit)
      then obtain new where new: "apply_edit (is_source s) edit = Some new"
        using rest by (cases "apply_edit (is_source s) edit") simp_all
      show ?thesis
      proof (cases "edit_is_valid (is_analysis s) (analyze_source new (after (is_settings s) edit)) line ds")
        case True
        show ?thesis by (rule that(2)[OF False True]) (use rest in \<open>simp add: Some new True\<close>)
      next
        case False
        show ?thesis by (rule that(1)) (use rest in \<open>simp add: Some new False\<close>)
      qed
    qed
  qed
qed

lemma add_ignore_line_ok:
  assumes "ignored_lines analyze_source source settings L s" "line \<notin> L" "add_ignore_line analyze_source after m reason line s = Some s'"
  shows "ignored_lines analyze_source source settings L s' \<or> ignored_lines analyze_source source settings (insert line L) s'"
proof -
  let ?original = "analyze_source source settings"
  note inv = assms(1)[unfolded ignored_lines_def]
  from inv have "is_analysis s = analyze_source (is_source s) (is_settings s)" by blast
  from this assms(3) refl show ?thesis
  proof (rule line_step)
    assume "s' = s"
    with assms(1) show ?thesis by simp
  next
    fix edit new
    let ?ds = "filter (\<lambda>d. line_of (s_start (dg_span d)) = line) (an_diagnostics (is_analysis s))"
    let ?new = "analyze_source new (after (is_settings s) edit)"
    assume some: "?ds \<noteq> []" and ok: "edit_is_valid (is_analysis s) ?new line ?ds"
      and s': "s' = \<lparr>is_settings = after (is_settings s) edit, is_source = new, is_analysis = ?new, is_added = is_added s + 1\<rparr>"
    note valid = valid_edit[OF ok]
    from inv have kept: "diagnostic_keys (is_analysis s) = filter_mset (\<lambda>k. dk_start_line k \<notin> L) (diagnostic_keys ?original)" by blast
    have keys: "diagnostic_keys ?new = filter_mset (\<lambda>k. dk_start_line k \<notin> insert line L) (diagnostic_keys ?original)"
      using valid(2) unfolding keys_of_line kept by (rule kept_keys)
    obtain d where d: "d \<in> set (an_diagnostics (is_analysis s))" "line_of (s_start (dg_span d)) = line"
      using some by (auto simp: filter_empty_conv)
    then have "diagnostic_key_new d \<in># diagnostic_keys (is_analysis s)" by simp
    then have "diagnostic_key_new d \<in># diagnostic_keys ?original" unfolding kept by simp
    then have "dk_start_line (diagnostic_key_new d) \<in> (\<lambda>d. line_of (s_start (dg_span d))) ` set (an_diagnostics ?original)" by (rule line_of_key)
    then have there: "line \<in> (\<lambda>d. line_of (s_start (dg_span d))) ` set (an_diagnostics ?original)"
      using d(2) by (simp add: diagnostic_key_new_def)
    from inv have sub: "L \<subseteq> (\<lambda>d. line_of (s_start (dg_span d))) ` set (an_diagnostics ?original)" by blast
    then have "finite L" by (rule finite_subset) simp
    then have "card (insert line L) = is_added s + 1" using assms(2) inv by simp
    moreover have "an_strict_parse_error ?new = an_strict_parse_error ?original"
      by (rule trans[OF valid(1)]) (use inv in blast)
    ultimately have "ignored_lines analyze_source source settings (insert line L) s'"
      using there sub keys unfolding ignored_lines_def s' ignore_state.simps by simp
    then show ?thesis ..
  qed
qed

lemma add_lines_ok:
  assumes "ignored_lines analyze_source source settings L s0" "distinct lines" "L \<inter> set lines = {}"
    and "fold_opt (add_ignore_line analyze_source after m reason) lines s0 = Some s"
  shows "\<exists>L. ignored_lines analyze_source source settings L s"
  using assms
proof (induction lines arbitrary: s0 L)
  case (Cons line lines)
  obtain s1 where s1: "add_ignore_line analyze_source after m reason line s0 = Some s1"
    "fold_opt (add_ignore_line analyze_source after m reason) lines s1 = Some s"
    using Cons.prems(4) by (auto split: bind_splits)
  have "line \<notin> L" using Cons.prems(3) by simp
  from add_ignore_line_ok[OF Cons.prems(1) this s1(1)] show ?case
  proof
    assume "ignored_lines analyze_source source settings L s1"
    then show ?thesis using Cons.prems(2,3) s1(2) by (intro Cons.IH[of L s1]) auto
  next
    assume "ignored_lines analyze_source source settings (insert line L) s1"
    then show ?thesis using Cons.prems(2,3) s1(2) by (intro Cons.IH[of "insert line L" s1]) auto
  qed
qed auto

section \<open>Properties\<close>

text \<open>C18: The directive that is inserted is understood.  Let a line have no directive of its own, and let the
  edit for its diagnostics be applied, where no line break comes in with the reason, and let the comments
  that the indexer finds in the new text have the inserted one among them, from its marker to its end.  Then
  every rule of the diagnostics is suppressed on the line by the index that is built from the directives of
  the new text, whatever its other comments, its commands and the table of ShellCheck's codes are.\<close>

theorem ignored_line_is_suppressed:
  assumes "src = as_bytes cs" "an_line_index analysis = line_index_new src"
    and "build_ignore_edit src analysis line diagnostics reason m = Some (Some edit)"
    and "\<not> list_ex (directive_matches_ignore_line line) (an_directives analysis)"
    and "dg_rule ` set diagnostics \<subseteq> {..<rule_count}" "10 \<notin> set (ie_replacement edit)"
    and "apply_edit src edit = Some new" "length new < 2 ^ 32"
    and "c \<in> set comments" "ic_line c = line" "unat (r_start (ic_range c)) = unat (r_start (ie_range edit)) + 2"
    and "unat (r_end (ic_range c)) = unat (r_start (ie_range edit)) + length (ie_replacement edit)"
    and "parse_directives new comments m = Some directives" "r \<in> dg_rule ` set diagnostics"
  shows "is_suppressed (from_sorted_command_spans directives spans first_stmt_line) r line"
proof -
  have "diagnostics \<noteq> []" using assms(14) by auto
  from ignored_line_reads_back[OF assms(1-4) this assms(5-8,10-12)] obtain n extent where read:
    "normalize_comment new c = Some (Some n)"
    "parse_shuck_directive m n = Some \<lparr>sd_action = Ignore, sd_source = FromShuck, sd_codes = merged_rules None diagnostics, sd_range = extent, sd_line = line\<rparr>"
    by blast
  obtain ds where ds: "fold_opt (read_comment new m) comments [] = Some ds" "set directives = set ds"
    using assms(13) by (auto simp: parse_directives_def split: bind_splits)
  have "\<lparr>sd_action = Ignore, sd_source = FromShuck, sd_codes = merged_rules None diagnostics, sd_range = extent, sd_line = line\<rparr> \<in> set directives"
    unfolding ds(2) by (rule read_comments(2)[OF ds(1) assms(9) read])
  moreover have "r \<in> set (merged_rules None diagnostics)" using assms(14) by (simp add: set_merged_rules)
  ultimately show ?thesis unfolding index_answers by (intro bexI) (auto simp: directive_suppresses_def)
qed

text \<open>C19: Adding ignores does what it reports.  Whatever the analysis of a file is, the diagnostics that are
  left are those of the file before that are not on certain lines: on these lines all have gone, on the others
  none has gone, changed or come up, counting repetitions.  The reported number of directives is the number of
  these lines, each of which had a diagnostic; what the parser reports is unchanged, and a file to which
  nothing was added is the one before.\<close>

theorem add_ignores_clears_lines:
  assumes "add_ignores analyze_source settings_after_ignore m reason source settings = Some s"
  shows "\<exists>L \<subseteq> (\<lambda>d. line_of (s_start (dg_span d))) ` set (an_diagnostics (analyze_source source settings)).
    card L = is_added s \<and> is_analysis s = analyze_source (is_source s) (is_settings s)
    \<and> mset (map diagnostic_key_new (an_diagnostics (is_analysis s))) =
        filter_mset (\<lambda>k. dk_start_line k \<notin> L) (mset (map diagnostic_key_new (an_diagnostics (analyze_source source settings))))
    \<and> an_strict_parse_error (is_analysis s) = an_strict_parse_error (analyze_source source settings)
    \<and> (is_added s = 0 \<longrightarrow> is_source s = source)"
proof -
  let ?start = "\<lparr>is_settings = settings, is_source = source, is_analysis = analyze_source source settings, is_added = 0\<rparr>"
  have "ignored_lines analyze_source source settings {} ?start" by (simp add: ignored_lines_def)
  then have "\<exists>L. ignored_lines analyze_source source settings L s"
    by (rule add_lines_ok[OF _ _ _ assms[unfolded add_ignores_def Let_def]]) simp_all
  then obtain L where "ignored_lines analyze_source source settings L s" ..
  note inv = this[unfolded ignored_lines_def]
  show ?thesis
  proof (rule exI[of _ L], intro conjI impI)
    show "is_source s = source" if "is_added s = 0" using inv that by blast
  qed (use inv in blast)+
qed


definition no_codes :: shellcheck_code_map where
  "no_codes = \<lparr>sc_to_rule = Map.empty, rule_to_sc = Map.empty, suppression_aliases = []\<rparr>"


text \<open>A file of one line, \<open>ls\<close>, with one diagnostic.\<close>

definition demo_diagnostic :: diagnostic where
  "demo_diagnostic = \<lparr>dg_rule = 0, dg_span = \<lparr>s_start = position_at 1 1 0, s_end = position_at 1 3 2\<rparr>, dg_message = []\<rparr>"

definition demo_analysis :: analyzed_source where
  "demo_analysis = \<lparr>an_directives = [], an_diagnostics = [demo_diagnostic], an_strict_parse_error = None, an_parse_error = None,
     an_line_index = line_index_new [108, 115, 10]\<rparr>"

lemma demo_rule: "rule_code 0 = [67, 48, 48, 49]"
  by (simp add: rule_code_def declared_rules_def declared_rules_1_def ascii_def)

lemma demo_edit:
  "build_ignore_edit [108, 115, 10] demo_analysis 1 [demo_diagnostic] None no_codes =
     Some (Some \<lparr>ie_range = range_new 2 2, ie_replacement = ascii ''  # shucked: ignore=C001''\<rparr>)"
proof -
  have lines: "line_range (line_index_new [108, 115, 10]) 1 [108, 115, 10] = Some (Some (range_new 0 2))"
    by (simp add: line_range_def line_start_def line_index_new_def line_starts_build line_starts_of_def newlines_def
        checked_sub_def nth_opt_def upt_rec Let_def)
  have "merged_rules None [demo_diagnostic] = [0]"
    by (simp add: merged_rules_def sort_rules_def push_rule_def demo_diagnostic_def)
  then have "ignore_comment no_codes None (merged_rules None [demo_diagnostic]) None = ascii ''# shucked: ignore=C001''"
    by (simp add: ignore_comment_def demo_rule ascii_def)
  moreover have "\<not> line_ends_with_continuation (range_new 0 2) [108, 115, 10]"
    by (simp add: line_ends_with_continuation_def range_slice_def range_new_def slice_with_byte_offsets_def str_get_def is_char_boundary_def
        strip_suffix_def ends_with_def starts_with_def)
  moreover have "inline_comment_insertion_offset (range_new 0 2) [108, 115, 10] = Some 2"
    by (simp add: inline_comment_insertion_offset_def range_new_def nth_opt_def)
  ultimately show ?thesis
    by (simp add: build_ignore_edit_def demo_analysis_def lines[simplified] comment_reason_def nonempty_reason_def ascii_def Let_def)
qed

lemma demo_applied:
  "apply_edit [108, 115, 10] \<lparr>ie_range = range_new 2 2, ie_replacement = ascii ''  # shucked: ignore=C001''\<rparr> =
     Some ([108, 115] @ ascii ''  # shucked: ignore=C001'' @ [10])"
  by (simp add: apply_edit_def range_new_def str_get_def is_char_boundary_def)

lemma demo_comment:
  "\<exists>n extent. normalize_comment ([108, 115] @ ascii ''  # shucked: ignore=C001'' @ [10]) \<lparr>ic_range = range_new 4 26, ic_line = 1, ic_own_line = False\<rparr> = Some (Some n)
    \<and> parse_shuck_directive no_codes n =
        Some \<lparr>sd_action = Ignore, sd_source = FromShuck, sd_codes = merged_rules None [demo_diagnostic], sd_range = extent, sd_line = 1\<rparr>"
proof -
  have "[108, 115, 10] = as_bytes [108, 115, 10]" by (simp add: as_bytes_def utf8_bytes_def)
  then show ?thesis
    by (rule ignored_line_reads_back[OF _ _ demo_edit _ _ _ _ demo_applied])
      (simp_all add: demo_analysis_def demo_diagnostic_def rule_count_def ascii_def range_new_def)
qed

theorem ignored_line_is_suppressed_witness:
  "build_ignore_edit [108, 115, 10] demo_analysis 1 [demo_diagnostic] None no_codes =
      Some (Some \<lparr>ie_range = range_new 2 2, ie_replacement = ascii ''  # shucked: ignore=C001''\<rparr>)
    \<and> (\<exists>directives. parse_directives ([108, 115] @ ascii ''  # shucked: ignore=C001'' @ [10])
          [\<lparr>ic_range = range_new 4 26, ic_line = 1, ic_own_line = False\<rparr>] no_codes = Some directives
        \<and> is_suppressed (from_sorted_command_spans directives [] 9) 0 1)"
proof -
  let ?new = "[108, 115] @ ascii ''  # shucked: ignore=C001'' @ [10]" and ?c = "\<lparr>ic_range = range_new 4 26, ic_line = 1, ic_own_line = False\<rparr>"
  from demo_comment obtain n extent where "normalize_comment ?new ?c = Some (Some n)"
    "parse_shuck_directive no_codes n =
        Some \<lparr>sd_action = Ignore, sd_source = FromShuck, sd_codes = merged_rules None [demo_diagnostic], sd_range = extent, sd_line = 1\<rparr>"
    by blast
  then obtain directives where read: "parse_directives ?new [?c] no_codes = Some directives"
    by (simp add: parse_directives_def read_comment_def)
  have "[108, 115, 10] = as_bytes [108, 115, 10]" by (simp add: as_bytes_def utf8_bytes_def)
  then have "is_suppressed (from_sorted_command_spans directives [] 9) 0 1"
    by (rule ignored_line_is_suppressed[where c = ?c, OF _ _ demo_edit _ _ _ demo_applied _ _ _ _ _ read])
      (simp_all add: demo_analysis_def demo_diagnostic_def rule_count_def ascii_def range_new_def)
  with demo_edit read show ?thesis by blast
qed

text \<open>An analysis that finds the diagnostic in the file and nothing but a directive in any other text.\<close>

definition demo_analyze :: "byte list \<Rightarrow> unit \<Rightarrow> analyzed_source" where
  "demo_analyze source settings = (if source = [108, 115, 10] then demo_analysis
     else \<lparr>an_directives = [\<lparr>sd_action = Ignore, sd_source = FromShuck, sd_codes = [0], sd_range = range_new 4 26, sd_line = 1\<rparr>],
       an_diagnostics = [], an_strict_parse_error = None, an_parse_error = None, an_line_index = line_index_new source\<rparr>)"

lemma demo_valid:
  "edit_is_valid demo_analysis (demo_analyze ([108, 115] @ ascii ''  # shucked: ignore=C001'' @ [10]) u) 1 [demo_diagnostic]"
proof -
  have "diagnostics_match_after_removing_targets [demo_diagnostic] [] [demo_diagnostic]"
    by (simp add: diagnostics_match_iff)
  then show ?thesis
    by (simp add: edit_is_valid_def demo_analyze_def demo_analysis_def demo_diagnostic_def sort_rules_def to_u32_def
        directive_matches_ignore_line_def ascii_def Let_def)
qed

theorem add_ignores_clears_lines_witness:
  "\<exists>s. add_ignores demo_analyze (\<lambda>u _. u) no_codes None [108, 115, 10] () = Some s \<and> is_added s = 1
     \<and> is_source s = [108, 115] @ ascii ''  # shucked: ignore=C001'' @ [10]
     \<and> mset (map diagnostic_key_new (an_diagnostics (is_analysis s))) = {#}"
proof -
  have start: "demo_analyze [108, 115, 10] () = demo_analysis" by (simp add: demo_analyze_def)
  have lines: "line_of (s_start (dg_span demo_diagnostic)) = 1" by (simp add: demo_diagnostic_def line_of_def position_at_def)
  then have diagnostics: "filter (\<lambda>d. line_of (s_start (dg_span d)) = 1) (an_diagnostics demo_analysis) = [demo_diagnostic]"
    "sorted_list_of_set (set (map (\<lambda>d. line_of (s_start (dg_span d))) (an_diagnostics demo_analysis))) = [1]"
    by (simp_all add: demo_analysis_def)
  let ?new = "[108, 115] @ ascii ''  # shucked: ignore=C001'' @ [10]"
  let ?s = "\<lparr>is_settings = (), is_source = ?new, is_analysis = demo_analyze ?new (), is_added = 1\<rparr>"
  have "add_ignores demo_analyze (\<lambda>u _. u) no_codes None [108, 115, 10] () = Some ?s"
    unfolding add_ignores_def Let_def start diagnostics
    by (simp add: add_ignore_line_def Let_def start diagnostics[simplified] demo_edit[simplified] demo_applied[simplified] demo_valid[simplified])
  with add_ignores_clears_lines[OF this] show ?thesis
    by (auto simp: demo_analyze_def ascii_def)
qed

end
