(* ===== verification/Spec2Isabelle.thy ===== *)
theory Spec2Isabelle
  imports Source_Span Fix_Edits Line_Index Dense_Bit_Set Exit_Effects Cfg_Graph Dead_Code Uninitialized Unused_Assignments Contracts Call_Graph Ignore_Rewrite
begin

text \<open>
  A model of the analysis core of shucked, a linter, formatter and language server for shell scripts
  written in Rust, and proofs that it computes what it promises.

  THE PROGRAM.  A parser builds a syntax tree; the semantic model (\<open>crates/shucked-semantic\<close>) walks it
  once and records scopes, bindings (everything that gives a name a value), references (everything that
  reads one), call sites and a compact stream of commands.  From the stream it builds a control-flow
  graph, and over the graph it runs dataflow analyses: reaching definitions, initialised names, dead
  code, unused assignments.  The linter (\<open>crates/shucked-linter\<close>) turns their results into diagnostics and
  applies fixes to the source text; spans (\<open>crates/shucked-ast\<close>) and the line index
  (\<open>crates/shucked-indexer\<close>) carry positions through all of it.  The development starts at the recorded
  stream and the tables beside it, and follows the data to the reports.

  CONVENTIONS.  Rust code that can panic is a function into \<open>option\<close>, and \<open>None\<close> is the panic: an index
  out of range, a slice off a character boundary, slices of different lengths.  A Rust \<open>Option\<close> inside
  such a function is a second \<open>option\<close>.  Loops over a vector are \<open>fold_opt\<close>.  A loop or a recursion that
  follows identifiers takes fuel as its first argument and is \<open>None\<close> without it; every theorem about such
  a function says how much is enough and that a result then exists.  Machine words are 64-bit words where
  the code works on bits; identifiers (\<open>BlockId(u32)\<close>, \<open>BindingId(u32)\<close>) are naturals.  A hash map that is
  only searched is a map, one that is iterated is the association list of its entries in some order; the
  theorems hold for every order.  Lazily filled cells are the functions that fill them.

  THEORIES AND SOURCES.
  \<^item> \<open>Shuck_Prelude\<close>: the option monad, checked slices, stable sorting (locales \<open>comparator\<close> and
    \<open>total_comparator\<close>), binary search.
  \<^item> \<open>Source_Span\<close>: \<open>shucked-ast/src/span.rs\<close>.  Positions, spans, ranges.
  \<^item> \<open>Fix_Edits\<close>: \<open>shucked-linter/src/fix.rs\<close>.  Selecting and applying fixes, mapping ranges through them.
    Interpretations of the comparator locales justify its two sorts.
  \<^item> \<open>Line_Index\<close>: \<open>shucked-indexer/src/line_index.rs\<close>.
  \<^item> \<open>Dense_Bit_Set\<close>: \<open>shucked-semantic/src/dense_bit_set.rs\<close> and \<open>shucked-linter/src/rule_set.rs\<close>.  Both
    bit sets and the rows of the matrix interpret the locales \<open>finite_bit_set\<close> and \<open>checked_bit_set\<close>;
    \<open>Dataflow_Sets\<close> restates their laws for sets of a fixed size, as the solvers use them.
  \<^item> \<open>Recorded_Program\<close>: \<open>cfg/recorded.rs\<close> with the writes of \<open>builder/traversal.rs\<close>.  The command stream.
  \<^item> \<open>Exit_Effects\<close>: \<open>cfg/termination.rs\<close>.  Which commands end the script, and the fixpoint over calls of
    functions that always do, against an inductive semantics of the stream.
  \<^item> \<open>Cfg_Builder\<close>, \<open>Cfg_Invariant\<close>, \<open>Cfg_Graph\<close>: \<open>cfg/builder.rs\<close> and \<open>cfg/graph.rs\<close>.  The builder command
    by command; the invariant of its state, proved inside the locale \<open>command_contract\<close>, which says what
    the recursive calls owe to each command and is interpreted on \<open>build_command\<close>; the finished graph.
  \<^item> \<open>Dead_Code\<close>: \<open>dataflow/dead_code.rs\<close>.
  \<^item> \<open>Block_Order\<close>, \<open>Dataflow_Solver\<close>: the block orders and the two worklist drivers of
    \<open>dataflow/dense.rs\<close>.  The locale \<open>worklist_transfer\<close> is the contract between driver and transfer
    function; \<open>gen_kill\<close> is the theory of facts that arrive along paths.
  \<^item> \<open>Bindings\<close>, \<open>Runtime_Prelude\<close>: \<open>binding.rs\<close>, \<open>reference.rs\<close>, \<open>scope.rs\<close>, \<open>declaration.rs\<close> and
    \<open>runtime.rs\<close>.  The data of the analyses and the names a shell provides.
  \<^item> \<open>Graph_Walks\<close>: the searches over the graph of \<open>reachability.rs\<close>, \<open>dataflow/scope_reads.rs\<close>,
    \<open>dataflow/unused.rs\<close> and \<open>dataflow/dense.rs\<close>.
  \<^item> \<open>Dataflow_Index\<close>, \<open>Reaching_Definitions\<close>, \<open>Initialized_Names\<close>, \<open>Uninitialized\<close>: \<open>dataflow/dense.rs\<close>,
    \<open>dataflow/exact.rs\<close>, \<open>dataflow/uninitialized.rs\<close> and \<open>dataflow/mod.rs\<close>.  The name table and block
    indexes, the two forward analyses (both interpret \<open>worklist_transfer\<close>), and the reports made of them.
  \<^item> \<open>Row_Fixpoint\<close>, \<open>Scope_Reads\<close>, \<open>Future_Reads\<close>: \<open>dataflow/scope_reads.rs\<close>.  The locale \<open>row_system\<close> is
    the contract of the loops that recompute the rows of a matrix until none changes; it is interpreted
    on what a scope reads through calls and on what the callers of a function read after it.
  \<^item> \<open>Slot_Sets\<close>, \<open>Liveness_Events\<close>, \<open>Backward_Liveness\<close>, \<open>Unused_Assignments\<close>:
    \<open>dataflow/unused.rs\<close>.  The slot sets are refined to bit sets; the events of the blocks; the backward
    pass, a third interpretation of \<open>worklist_transfer\<close>; the report and the collapse of its repetitions.
  \<^item> \<open>Provided_Bindings\<close>, \<open>Contracts\<close>: \<open>dataflow/scope_reads.rs\<close> and \<open>contract.rs\<close>.  What a scope leaves
    behind at its exits, and the contracts of functions and files with their merging over candidates.
  \<^item> \<open>Call_Resolution\<close>, \<open>Call_Graph\<close>: \<open>function_resolution.rs\<close> and \<open>call_graph.rs\<close>.  The definition that a
    call refers to, found by a search with a cache, and the functions called from the top level.  The
    binding table that \<open>Exit_Effects\<close> and \<open>Cfg_Graph\<close> take as an argument is the one computed here.
  \<^item> \<open>Rust_Strings\<close>, \<open>Rule_Registry\<close>: \<open>shucked-linter/src/registry.rs\<close>, \<open>rule_selector.rs\<close>,
    \<open>named_groups.rs\<close> and \<open>settings.rs\<close>.  Strings as bytes in UTF-8, the table of all rules, the selectors
    that name groups of them and the rules that a configuration selects.
  \<^item> \<open>Suppression_Index\<close>, \<open>Suppression_Directives\<close>, \<open>Ignore_Rewrite\<close>: \<open>suppression/index.rs\<close>,
    \<open>suppression/directive.rs\<close> and \<open>shellcheck_map.rs\<close>, and \<open>suppression/rewrite.rs\<close>.  Which rules are
    suppressed on which lines, how comments are read as directives, and how directives are written for the
    diagnostics of a file.

  WHAT IS SHOWN.  Spans and ranges compose and never split a character.  Fix application takes a
  conflict-free selection in a fixed order and maps untouched text to itself.  Line and column round
  trip.  Bit sets are sets.  Exit effects are sound for an execution semantics, except in two cases that
  are proved as theorems and reported as findings: a background \<open>exit\<close>, and a \<open>return\<close> in the
  \<open>always\<close> part of a block that is left by \<open>break\<close>.  The control-flow graph is always built, its
  unreachable blocks are those that no path leads to, and dead code reports just their commands.
  Reaching definitions and initialised names are the facts that hold along some (every) path, so the
  bindings that reach a read are exactly those that the paths of the graph allow, and so are the reads before
  initialisation, but for exempt reads, guarded ones, and those of variables that only a contract supplies,
  which are always reported.  The assignments reported as unused are exactly those that no reference and nothing outside
  uses, whose value no path carries to a read, and, where they may outlive a function, that no read at a
  later offset of their scope and no caller keeps.  A scope provides just the
  variables and functions that its runs set before its exits; merged contracts promise what all candidates
  promise.  Every call is bound to the definition that the order of the code allows, whatever the order of
  the hash tables and the state of the cache, and the call graph is the least one closed under the calls.
  Selectors select the rules by the prefix of their codes.  The suppression index answers as its directives
  say; a directive that is inserted for a line is read back from the new text and suppresses the rules it
  was written for; and a run that adds directives clears certain lines of their diagnostics and leaves all
  others as they are, whatever the analysis does.
  Three more behaviours are proved as theorems and reported as findings: a conditional redefinition in the
  scope of a call has no say in what the call is bound to, calls in an anonymous function leave no trace in
  the call graph, and of a rewritten ShellCheck directive only the first code is read.  Two others show in
  the exact descriptions: a function that is certain on one run is provided as definite, and a variable that
  only a contract supplies is read as definitely uninitialised.

  BOUNDS AND FUEL.  The nesting of commands is bounded by a rank (\<open>covered rank n p\<close>: every command lies
  below \<open>n\<close> and its parts rank lower), which a stream recorded from a tree has.  The rounds of the
  terminating-call fixpoint are bounded by the number of function scopes plus calls; the rounds of a
  worklist by the number of bits its matrices can still gain (blocks times bindings, and twice blocks
  times names) plus two; the rounds of the row loops by scopes times bindings plus one; the depth of
  the search for entries of functions by the number of scopes plus one.  The searches over the graph and the
  worklist of the call graph need no fuel: they terminate because they mark what they visit.

  NOT MODELLED.  The parser, syntax tree, formatter and the builder that walks the tree (their invariants
  appear here as well-formedness hypotheses), the several hundred linter rules and the facts they read (the
  loop that adds directives takes the whole analysis of a text as a parameter, and the table of ShellCheck's
  codes, which the build script writes, is one too), the attachment of inline directives to commands,
  cross-file analyses and plugins, and everything that is input and output (command line, configuration,
  cache, language server).
\<close>

end
